(* ===== verification/Prelude.thy ===== *)
theory Prelude
  imports Main "HOL-Library.Word" "HOL-Library.Monad_Syntax"
begin

text \<open>
  The vocabulary shared by every component of the kernel model.

  \<^item> Results. A kernel operation returns \<open>'a option\<close>: \<open>None\<close> is a run that does not
    come back to its caller, because an \<open>ASSERT\<close> or \<open>PANIC\<close> of \<open>lib/debug.h\<close> stops the
    machine, because an array is indexed outside its bounds, or because a lock is waited for
    that nobody will release. A C return value that signals an ordinary failure (\<open>NULL\<close>,
    \<open>false\<close>, \<open>-1\<close>, \<open>BITMAP_ERROR\<close>) is a value of the result type and never \<open>None\<close>.
  \<^item> Integers. \<open>size_t\<close>, \<open>uint32_t\<close> and \<open>block_sector_t\<close> values are natural numbers
    below \<open>2 ^ 32\<close>, with the wrap-around of C written out by \<open>u32\<close>; values whose bits
    matter are machine words.
  \<^item> Loops. A counting loop whose body may panic is \<open>mfold\<close> over the list of its
    indices; a search loop that stops at the first hit is \<open>msearch\<close>.
\<close>

section \<open>Results\<close>

type_synonym byte = "8 word"

text \<open>\<open>ASSERT (c)\<close> of \<open>lib/debug.h\<close>.\<close>

definition kassert :: "bool \<Rightarrow> unit option" where
  "kassert c = (if c then Some () else None)"

named_theorems kernel_simps \<open>unfolding of assertions, binds and loops over results\<close>

lemma kassert_bind [simp, kernel_simps]:
  "Option.bind (kassert c) f = (if c then f () else None)"
  by (simp add: kassert_def)

lemma kassert_eq_Some [simp, kernel_simps]: "kassert c = Some u \<longleftrightarrow> c"
  by (simp add: kassert_def)

lemma kassert_True [simp]: "kassert True = Some ()"
  by (simp add: kassert_def)

lemma if_None_eq_Some [simp]: "((if c then x else None) = Some y) \<longleftrightarrow> c \<and> x = Some y"
  by simp

declare Option.bind_eq_Some_conv [kernel_simps]

section \<open>Unsigned 32-bit arithmetic on natural numbers\<close>

definition u32 :: "nat \<Rightarrow> nat" where
  "u32 n = n mod 2 ^ 32"

definition SIZE_MAX :: nat where
  "SIZE_MAX = 2 ^ 32 - 1"

lemma u32_small [simp]: "n < 2 ^ 32 \<Longrightarrow> u32 n = n"
  by (simp add: u32_def)

lemma u32_lt [simp]: "u32 n < 2 ^ 32"
  by (simp add: u32_def)

lemma u32_le: "u32 n \<le> n"
  by (simp add: u32_def)

text \<open>The macros of \<open>lib/round.h\<close>, evaluated in \<open>size_t\<close>.\<close>

definition DIV_ROUND_UP :: "nat \<Rightarrow> nat \<Rightarrow> nat" where
  "DIV_ROUND_UP x step = u32 (x + step - 1) div step"

definition ROUND_UP :: "nat \<Rightarrow> nat \<Rightarrow> nat" where
  "ROUND_UP x step = u32 (u32 (x + step - 1) div step * step)"

definition ROUND_DOWN :: "nat \<Rightarrow> nat \<Rightarrow> nat" where
  "ROUND_DOWN x step = x div step * step"

lemma div_round_up_cover:
  fixes x step :: nat
  assumes "0 < step"
  shows "x \<le> step * ((x + step - 1) div step)"
proof -
  have "x + step - 1 < step * Suc ((x + step - 1) div step)"
    using assms by (simp add: dividend_less_times_div)
  then show ?thesis using assms by (simp add: algebra_simps)
qed

lemma DIV_ROUND_UP_covers:
  assumes "0 < step" and "x + step \<le> 2 ^ 32"
  shows "x \<le> step * DIV_ROUND_UP x step"
  using div_round_up_cover [OF assms(1), of x] assms
  by (simp add: DIV_ROUND_UP_def)

section \<open>Loops over results\<close>

text \<open>\<open>for (i in xs) s = f (i, s)\<close>, where the body may panic.\<close>

fun mfold :: "('a \<Rightarrow> 's \<Rightarrow> 's option) \<Rightarrow> 'a list \<Rightarrow> 's \<Rightarrow> 's option" where
  "mfold f [] s = Some s"
| "mfold f (x # xs) s = Option.bind (f x s) (mfold f xs)"

text \<open>\<open>for (i in xs) if (p (i)) return i;\<close>, where the test may panic; the inner
  \<open>None\<close> says that the loop ran to its end.\<close>

fun msearch :: "('a \<Rightarrow> bool option) \<Rightarrow> 'a list \<Rightarrow> 'a option option" where
  "msearch p [] = Some None"
| "msearch p (x # xs) =
     Option.bind (p x) (\<lambda>b. if b then Some (Some x) else msearch p xs)"

lemma mfold_append [simp]:
  "mfold f (xs @ ys) s = Option.bind (mfold f xs s) (mfold f ys)"
proof (induction xs arbitrary: s)
  case (Cons x xs)
  then show ?case by (cases "f x s") simp_all
qed simp

text \<open>An invariant indexed by the part of the list already done.\<close>

lemma mfold_invariant:
  assumes start: "I [] s"
    and body: "\<And>ys x zs t. xs = ys @ x # zs \<Longrightarrow> I ys t \<Longrightarrow> \<exists>t'. f x t = Some t' \<and> I (ys @ [x]) t'"
  shows "\<exists>s'. mfold f xs s = Some s' \<and> I xs s'"
  using body
proof (induction xs rule: rev_induct)
  case Nil
  then show ?case using start by simp
next
  case (snoc x xs)
  have "\<exists>s'. mfold f xs s = Some s' \<and> I xs s'"
  proof (rule snoc.IH)
    fix ys y zs t
    assume "xs = ys @ y # zs" and "I ys t"
    then show "\<exists>t'. f y t = Some t' \<and> I (ys @ [y]) t'"
      using snoc.prems [of ys y "zs @ [x]" t] by simp
  qed
  then obtain t where t: "mfold f xs s = Some t" "I xs t" by blast
  with snoc.prems [of xs x "[]" t] show ?case by auto
qed

lemma mfold_keeps:
  assumes "mfold f xs s = Some s'" and "P s"
    and "\<And>x t t'. x \<in> set xs \<Longrightarrow> P t \<Longrightarrow> f x t = Some t' \<Longrightarrow> P t'"
  shows "P s'"
  using assms
proof (induction xs arbitrary: s)
  case (Cons x xs)
  from Cons.prems(1) obtain t where t: "f x s = Some t" "mfold f xs t = Some s'"
    by (auto simp: kernel_simps)
  have "P t" by (rule Cons.prems(3) [OF _ Cons.prems(2) t(1)]) simp
  then show ?case
    by (rule Cons.IH [OF t(2)]) (rule Cons.prems(3), simp_all)
qed simp

text \<open>A search whose test never panics on the list finds the first hit.\<close>

lemma msearch_total:
  assumes "\<And>x. x \<in> set xs \<Longrightarrow> p x = Some (q x)"
  shows "msearch p xs = Some (List.find q xs)"
  using assms by (induction xs) auto

lemma upt_split: "[a..<b] = ys @ i # zs \<Longrightarrow> i = a + length ys \<and> i < b"
proof -
  assume split: "[a..<b] = ys @ i # zs"
  then have len: "length ys < b - a"
    by (metis add_Suc_right length_Cons length_append length_upt less_add_Suc1)
  have "i = [a..<b] ! length ys" by (simp add: split)
  with len show ?thesis by simp
qed

lemma upt_join: "i \<le> j \<Longrightarrow> j \<le> k \<Longrightarrow> [i..<j] @ [j..<k] = [i..<k]"
  by (metis le_Suc_ex upt_add_eq_append)

lemma find_upt_Some:
  "List.find q [a..<b] = Some i \<longleftrightarrow> a \<le> i \<and> i < b \<and> q i \<and> (\<forall>j. a \<le> j \<and> j < i \<longrightarrow> \<not> q j)"
proof
  assume "List.find q [a..<b] = Some i"
  then obtain k where k: "k < b - a" "q (a + k)" "i = a + k" "\<forall>m<k. \<not> q (a + m)"
    by (auto simp: find_Some_iff)
  then show "a \<le> i \<and> i < b \<and> q i \<and> (\<forall>j. a \<le> j \<and> j < i \<longrightarrow> \<not> q j)"
    by (auto dest!: le_Suc_ex)
next
  assume i: "a \<le> i \<and> i < b \<and> q i \<and> (\<forall>j. a \<le> j \<and> j < i \<longrightarrow> \<not> q j)"
  then have "i - a < length [a..<b] \<and> q ([a..<b] ! (i - a)) \<and> i = [a..<b] ! (i - a)
      \<and> (\<forall>m<i - a. \<not> q ([a..<b] ! m))"
    by auto
  then show "List.find q [a..<b] = Some i"
    unfolding find_Some_iff by blast
qed

lemma find_None_iff_upt:
  "List.find q [a..<b] = None \<longleftrightarrow> (\<forall>i. a \<le> i \<and> i < b \<longrightarrow> \<not> q i)"
  by (auto simp: find_None_iff)

end
