(* ===== verification/Bitmap.thy ===== *)
theory Bitmap
  imports Prelude
begin

unbundle bit_operations_syntax

text \<open>
  \<open>lib/kernel/bitmap.c\<close>: an array of bits packed into 32-bit elements. The free map of
  the file system, the page pools and the swap table are bitmaps.

  The first part translates the functions of the file over the packed representation. The
  second part relates a bitmap to the list of its bits and proves what each operation does
  to that list. The last part is the interface the three clients rely on: a pool of
  numbered slots (\<open>slot_pool\<close>).
\<close>

section \<open>The bitmap of the source\<close>

record bitmap =
  bit_cnt :: nat
  bits :: "32 word list"

definition ELEM_BITS :: nat where
  "ELEM_BITS = 32"

definition BITMAP_ERROR :: nat where
  "BITMAP_ERROR = SIZE_MAX"

definition elem_idx :: "nat \<Rightarrow> nat" where
  "elem_idx bit_idx = bit_idx div ELEM_BITS"

definition bit_mask :: "nat \<Rightarrow> 32 word" where
  "bit_mask bit_idx = push_bit (bit_idx mod ELEM_BITS) 1"

definition elem_cnt :: "nat \<Rightarrow> nat" where
  "elem_cnt n = DIV_ROUND_UP n ELEM_BITS"

definition byte_cnt :: "nat \<Rightarrow> nat" where
  "byte_cnt n = u32 (4 * elem_cnt n)"

definition last_mask :: "bitmap \<Rightarrow> 32 word" where
  "last_mask b =
     (let last_bits = bit_cnt b mod ELEM_BITS
      in if last_bits \<noteq> 0 then push_bit last_bits 1 - 1 else - 1)"

definition bitmap_buf_size :: "nat \<Rightarrow> nat" where
  "bitmap_buf_size n = u32 (8 + byte_cnt n)"

definition bitmap_size :: "bitmap \<Rightarrow> nat" where
  "bitmap_size b = bit_cnt b"

text \<open>\<open>b->bits[idx] op= mask\<close>: the three single-instruction updates. None of them checks
  its index; an element outside the array is not written.\<close>

definition upd_elem :: "bitmap \<Rightarrow> nat \<Rightarrow> (32 word \<Rightarrow> 32 word) \<Rightarrow> bitmap option" where
  "upd_elem b idx f =
     (if idx < length (bits b) then Some (b\<lparr>bits := (bits b)[idx := f (bits b ! idx)]\<rparr>)
      else None)"

definition bitmap_mark :: "bitmap \<Rightarrow> nat \<Rightarrow> bitmap option" where
  "bitmap_mark b bit_idx = upd_elem b (elem_idx bit_idx) (\<lambda>e. e OR bit_mask bit_idx)"

definition bitmap_reset :: "bitmap \<Rightarrow> nat \<Rightarrow> bitmap option" where
  "bitmap_reset b bit_idx = upd_elem b (elem_idx bit_idx) (\<lambda>e. e AND NOT (bit_mask bit_idx))"

definition bitmap_flip :: "bitmap \<Rightarrow> nat \<Rightarrow> bitmap option" where
  "bitmap_flip b bit_idx = upd_elem b (elem_idx bit_idx) (\<lambda>e. e XOR bit_mask bit_idx)"

definition bitmap_set :: "bitmap \<Rightarrow> nat \<Rightarrow> bool \<Rightarrow> bitmap option" where
  "bitmap_set b idx value =
     do {
       kassert (idx < bit_cnt b);
       if value then bitmap_mark b idx else bitmap_reset b idx
     }"

definition bitmap_test :: "bitmap \<Rightarrow> nat \<Rightarrow> bool option" where
  "bitmap_test b idx =
     do {
       kassert (idx < bit_cnt b);
       kassert (elem_idx idx < length (bits b));
       Some (bits b ! elem_idx idx AND bit_mask idx \<noteq> 0)
     }"

definition bitmap_set_multiple :: "bitmap \<Rightarrow> nat \<Rightarrow> nat \<Rightarrow> bool \<Rightarrow> bitmap option" where
  "bitmap_set_multiple b start cnt value =
     do {
       kassert (start \<le> bit_cnt b);
       kassert (u32 (start + cnt) \<le> bit_cnt b);
       mfold (\<lambda>i b. bitmap_set b (u32 (start + i)) value) [0..<cnt] b
     }"

definition bitmap_set_all :: "bitmap \<Rightarrow> bool \<Rightarrow> bitmap option" where
  "bitmap_set_all b value = bitmap_set_multiple b 0 (bitmap_size b) value"

definition bitmap_count :: "bitmap \<Rightarrow> nat \<Rightarrow> nat \<Rightarrow> bool \<Rightarrow> nat option" where
  "bitmap_count b start cnt value =
     do {
       kassert (start \<le> bit_cnt b);
       kassert (u32 (start + cnt) \<le> bit_cnt b);
       mfold (\<lambda>i value_cnt. do {
           t \<leftarrow> bitmap_test b (u32 (start + i));
           Some (if t = value then value_cnt + 1 else value_cnt)
         }) [0..<cnt] 0
     }"

definition bitmap_contains :: "bitmap \<Rightarrow> nat \<Rightarrow> nat \<Rightarrow> bool \<Rightarrow> bool option" where
  "bitmap_contains b start cnt value =
     do {
       kassert (start \<le> bit_cnt b);
       kassert (u32 (start + cnt) \<le> bit_cnt b);
       hit \<leftarrow> msearch (\<lambda>i. do {
           t \<leftarrow> bitmap_test b (u32 (start + i));
           Some (t = value)
         }) [0..<cnt];
       Some (hit \<noteq> None)
     }"

definition bitmap_any :: "bitmap \<Rightarrow> nat \<Rightarrow> nat \<Rightarrow> bool option" where
  "bitmap_any b start cnt = bitmap_contains b start cnt True"

definition bitmap_none :: "bitmap \<Rightarrow> nat \<Rightarrow> nat \<Rightarrow> bool option" where
  "bitmap_none b start cnt = map_option Not (bitmap_contains b start cnt True)"

definition bitmap_all :: "bitmap \<Rightarrow> nat \<Rightarrow> nat \<Rightarrow> bool option" where
  "bitmap_all b start cnt = map_option Not (bitmap_contains b start cnt False)"

definition bitmap_scan :: "bitmap \<Rightarrow> nat \<Rightarrow> nat \<Rightarrow> bool \<Rightarrow> nat option" where
  "bitmap_scan b start cnt value =
     do {
       kassert (start \<le> bit_cnt b);
       if cnt \<le> bit_cnt b
       then do {
         let last = bit_cnt b - cnt;
         hit \<leftarrow> msearch (\<lambda>i. map_option Not (bitmap_contains b i cnt (\<not> value)))
                  [start..<Suc last];
         Some (case hit of Some i \<Rightarrow> i | None \<Rightarrow> BITMAP_ERROR)
       }
       else Some BITMAP_ERROR
     }"

definition bitmap_scan_and_flip :: "bitmap \<Rightarrow> nat \<Rightarrow> nat \<Rightarrow> bool \<Rightarrow> (nat \<times> bitmap) option" where
  "bitmap_scan_and_flip b start cnt value =
     do {
       idx \<leftarrow> bitmap_scan b start cnt value;
       if idx \<noteq> BITMAP_ERROR
       then do { b' \<leftarrow> bitmap_set_multiple b idx cnt (\<not> value); Some (idx, b') }
       else Some (idx, b)
     }"

text \<open>\<open>bitmap_create\<close> allocates twice. \<open>hdr\<close> says whether the descriptor could be
  allocated; \<open>buf\<close> is the block \<open>malloc\<close> returned for the elements with whatever bytes it
  held (\<open>None\<close> for the null pointer). The inner \<open>None\<close> of the result is the null pointer
  the caller gets.\<close>

definition bitmap_create :: "bool \<Rightarrow> 32 word list option \<Rightarrow> nat \<Rightarrow> bitmap option option" where
  "bitmap_create hdr buf n =
     (if hdr then
        (case buf of
           Some bs \<Rightarrow> map_option Some (bitmap_set_all \<lparr>bit_cnt = n, bits = bs\<rparr> False)
         | None \<Rightarrow>
             if n = 0 then map_option Some (bitmap_set_all \<lparr>bit_cnt = n, bits = []\<rparr> False)
             else Some None)
      else Some None)"

text \<open>\<open>bitmap_create_in_buf\<close>: \<open>bs\<close> is the storage behind the descriptor in the block.\<close>

definition bitmap_create_in_buf :: "nat \<Rightarrow> 32 word list \<Rightarrow> nat \<Rightarrow> bitmap option" where
  "bitmap_create_in_buf n bs blk_size =
     do {
       kassert (bitmap_buf_size n \<le> blk_size);
       bitmap_set_all \<lparr>bit_cnt = n, bits = bs\<rparr> False
     }"

definition bitmap_file_size :: "bitmap \<Rightarrow> nat" where
  "bitmap_file_size b = byte_cnt (bit_cnt b)"

section \<open>Bitmaps as lists of bits\<close>

definition bm_wf :: "bitmap \<Rightarrow> bool" where
  "bm_wf b \<longleftrightarrow> bit_cnt b + 32 \<le> 2 ^ 32 \<and> length (bits b) = elem_cnt (bit_cnt b)"

definition bm_bit :: "bitmap \<Rightarrow> nat \<Rightarrow> bool" where
  "bm_bit b i = bit (bits b ! (i div 32)) (i mod 32)"

definition bm_abs :: "bitmap \<Rightarrow> bool list" where
  "bm_abs b = map (bm_bit b) [0..<bit_cnt b]"

named_theorems bm_simps \<open>bitmap operations on well-formed bitmaps\<close>

lemma length_bm_abs [simp]: "length (bm_abs b) = bit_cnt b"
  by (simp add: bm_abs_def)

lemma nth_bm_abs [simp]: "i < bit_cnt b \<Longrightarrow> bm_abs b ! i = bm_bit b i"
  by (simp add: bm_abs_def)

lemma bit_bit_mask [simp]:
  "k < 32 \<Longrightarrow> bit (bit_mask i) k \<longleftrightarrow> k = i mod 32"
  by (auto simp: bit_mask_def ELEM_BITS_def bit_exp_iff)

lemma bit_mask_test: "(w AND bit_mask i \<noteq> 0) \<longleftrightarrow> bit w (i mod 32)"
  by (simp add: bit_mask_def ELEM_BITS_def push_bit_of_1 and_exp_eq_0_iff_not_bit)

lemma elem_idx_in_range: "bm_wf b \<Longrightarrow> i < bit_cnt b \<Longrightarrow> i div 32 < length (bits b)"
  by (auto simp: bm_wf_def elem_cnt_def DIV_ROUND_UP_def ELEM_BITS_def)

lemma upd_elem_bit:
  assumes "bm_wf b" and "i < bit_cnt b"
    and "\<And>e k. k < 32 \<Longrightarrow> bit (f e) k \<longleftrightarrow> (if k = i mod 32 then g (bit e k) else bit e k)"
  shows "\<exists>b'. upd_elem b (elem_idx i) f = Some b' \<and> bm_wf b' \<and> bit_cnt b' = bit_cnt b
    \<and> bm_abs b' = (bm_abs b)[i := g (bm_bit b i)]"
proof -
  let ?b = "b\<lparr>bits := (bits b)[i div 32 := f (bits b ! (i div 32))]\<rparr>"
  have r: "i div 32 < length (bits b)" by (rule elem_idx_in_range [OF assms(1,2)])
  have bit: "bm_bit ?b j = (if j = i then g (bm_bit b i) else bm_bit b j)" for j
  proof (cases "j div 32 = i div 32")
    case True
    then have "j = i \<longleftrightarrow> j mod 32 = i mod 32" by (metis div_mult_mod_eq)
    then show ?thesis using True r by (simp add: bm_bit_def assms(3))
  next
    case False
    then show ?thesis by (auto simp: bm_bit_def)
  qed
  have "bm_abs ?b = (bm_abs b)[i := g (bm_bit b i)]"
    by (rule nth_equalityI) (auto simp: bit nth_list_update)
  then show ?thesis
    using assms(1) r by (auto simp: upd_elem_def elem_idx_def ELEM_BITS_def bm_wf_def)
qed

lemma bitmap_set_ok:
  assumes "bm_wf b" and "i < bit_cnt b"
  shows "\<exists>b'. bitmap_set b i v = Some b' \<and> bm_wf b' \<and> bit_cnt b' = bit_cnt b
    \<and> bm_abs b' = (bm_abs b)[i := v]"
proof (cases v)
  case True
  then show ?thesis
    using upd_elem_bit [OF assms, of "\<lambda>e. e OR bit_mask i" "\<lambda>_. True"] assms
    by (auto simp: bitmap_set_def bitmap_mark_def bit_or_iff)
next
  case False
  then show ?thesis
    using upd_elem_bit [OF assms, of "\<lambda>e. e AND NOT (bit_mask i)" "\<lambda>_. False"] assms
    by (auto simp: bitmap_set_def bitmap_reset_def bit_and_iff bit_not_iff)
qed

lemma bitmap_flip_ok:
  assumes "bm_wf b" and "i < bit_cnt b"
  shows "\<exists>b'. bitmap_flip b i = Some b' \<and> bm_wf b' \<and> bit_cnt b' = bit_cnt b
    \<and> bm_abs b' = (bm_abs b)[i := \<not> bm_abs b ! i]"
  using upd_elem_bit [OF assms, of "\<lambda>e. e XOR bit_mask i" Not] assms
  by (auto simp: bitmap_flip_def bit_xor_iff)

lemma bitmap_test_ok [bm_simps]:
  "bm_wf b \<Longrightarrow> i < bit_cnt b \<Longrightarrow> bitmap_test b i = Some (bm_abs b ! i)"
  by (simp add: bitmap_test_def bit_mask_test bm_bit_def elem_idx_in_range elem_idx_def
      ELEM_BITS_def)

text \<open>Bounds that make the index arithmetic of the loops exact.\<close>

lemma bm_range:
  "bm_wf b \<Longrightarrow> start + cnt \<le> bit_cnt b \<Longrightarrow> i \<le> cnt \<Longrightarrow> u32 (start + i) = start + i"
  by (simp add: bm_wf_def)

text \<open>What \<open>bitmap_set_multiple\<close> does to the list of bits.\<close>

definition set_range :: "bool list \<Rightarrow> nat \<Rightarrow> nat \<Rightarrow> bool \<Rightarrow> bool list" where
  "set_range xs start cnt v = map (\<lambda>i. if start \<le> i \<and> i < start + cnt then v else xs ! i) [0..<length xs]"

lemma length_set_range [simp]: "length (set_range xs s c v) = length xs"
  by (simp add: set_range_def)

lemma nth_set_range:
  "i < length xs \<Longrightarrow> set_range xs s c v ! i = (if s \<le> i \<and> i < s + c then v else xs ! i)"
  by (simp add: set_range_def)

lemma set_range_Suc:
  "s + c < length xs \<Longrightarrow> set_range xs s (Suc c) v = (set_range xs s c v)[s + c := v]"
  by (rule nth_equalityI) (auto simp: nth_set_range nth_list_update)

lemma set_range_0 [simp]: "set_range xs s 0 v = xs"
  by (rule nth_equalityI) (auto simp: nth_set_range)

lemma set_range_1: "s < length xs \<Longrightarrow> set_range xs s 1 v = xs[s := v]"
  by (rule nth_equalityI) (auto simp: nth_set_range nth_list_update)

lemma bitmap_set_multiple_ok:
  assumes wf: "bm_wf b" and range: "start + cnt \<le> bit_cnt b"
  shows "\<exists>b'. bitmap_set_multiple b start cnt v = Some b' \<and> bm_wf b' \<and> bit_cnt b' = bit_cnt b
    \<and> bm_abs b' = set_range (bm_abs b) start cnt v"
proof -
  let ?I = "\<lambda>xs t. bm_wf t \<and> bit_cnt t = bit_cnt b
    \<and> bm_abs t = set_range (bm_abs b) start (length xs) v"
  have "\<exists>b'. mfold (\<lambda>i b. bitmap_set b (u32 (start + i)) v) [0..<cnt] b = Some b'
      \<and> ?I [0..<cnt] b'"
  proof (rule mfold_invariant)
    show "?I [] b" using wf by simp
  next
    fix ys i zs t
    assume split: "[0..<cnt] = ys @ i # zs" and t: "?I ys t"
    then have i: "i = length ys" "i < cnt" by (auto dest: upt_split)
    have "start + i < bit_cnt t" using i t range by simp
    then obtain t' where "bitmap_set t (start + i) v = Some t'" "bm_wf t'"
        "bit_cnt t' = bit_cnt t" "bm_abs t' = (bm_abs t)[start + i := v]"
      using bitmap_set_ok t by blast
    then show "\<exists>t'. bitmap_set t (u32 (start + i)) v = Some t' \<and> ?I (ys @ [i]) t'"
      using t i wf range by (simp add: bm_range set_range_Suc)
  qed
  then show ?thesis
    using wf range by (simp add: bitmap_set_multiple_def bm_wf_def)
qed

lemma bitmap_contains_ok [bm_simps]:
  assumes "bm_wf b" and "start + cnt \<le> bit_cnt b"
  shows "bitmap_contains b start cnt v = Some (\<exists>i<cnt. bm_abs b ! (start + i) = v)"
proof -
  have "msearch (\<lambda>i. do { t \<leftarrow> bitmap_test b (u32 (start + i)); Some (t = v) }) [0..<cnt]
      = Some (List.find (\<lambda>i. bm_abs b ! (start + i) = v) [0..<cnt])"
    by (rule msearch_total) (use assms in \<open>simp add: bm_range bitmap_test_ok\<close>)
  then show ?thesis
    using assms
    by (cases "List.find (\<lambda>i. bm_abs b ! (start + i) = v) [0..<cnt]")
      (auto simp: bitmap_contains_def bm_wf_def find_None_iff find_upt_Some)
qed

lemma bitmap_all_ok [bm_simps]:
  "bm_wf b \<Longrightarrow> start + cnt \<le> bit_cnt b \<Longrightarrow>
    bitmap_all b start cnt = Some (\<forall>i<cnt. bm_abs b ! (start + i))"
  by (simp add: bitmap_all_def bitmap_contains_ok)

lemma bitmap_count_ok [bm_simps]:
  assumes "bm_wf b" and "start + cnt \<le> bit_cnt b"
  shows "bitmap_count b start cnt v = Some (card {i. i < cnt \<and> bm_abs b ! (start + i) = v})"
proof -
  let ?f = "\<lambda>i c. do { t \<leftarrow> bitmap_test b (u32 (start + i)); Some (if t = v then c + 1 else c) }"
  have "\<exists>c. mfold ?f [0..<cnt] 0 = Some c
      \<and> c = card {i. i < length [0..<cnt] \<and> bm_abs b ! (start + i) = v}"
  proof (rule mfold_invariant)
    fix ys i zs c
    assume "[0..<cnt] = ys @ i # zs" and c: "c = card {i. i < length ys \<and> bm_abs b ! (start + i) = v}"
    then have i: "i = length ys" "i < cnt" by (auto dest: upt_split)
    have "{k. k < Suc i \<and> bm_abs b ! (start + k) = v} =
        (if bm_abs b ! (start + i) = v then insert i {k. k < i \<and> bm_abs b ! (start + k) = v}
         else {k. k < i \<and> bm_abs b ! (start + k) = v})"
      by (auto simp: less_Suc_eq)
    then show "\<exists>c'. ?f i c = Some c'
        \<and> c' = card {k. k < length (ys @ [i]) \<and> bm_abs b ! (start + k) = v}"
      using i assms c by (simp add: bm_range bitmap_test_ok)
  qed simp
  then show ?thesis using assms by (simp add: bitmap_count_def bm_wf_def)
qed

section \<open>Searching\<close>

text \<open>The \<open>cnt\<close> bits from \<open>i\<close> on are inside the list and all equal to \<open>v\<close>.\<close>

definition run_at :: "bool list \<Rightarrow> nat \<Rightarrow> bool \<Rightarrow> nat \<Rightarrow> bool" where
  "run_at xs cnt v i \<longleftrightarrow> i + cnt \<le> length xs \<and> (\<forall>k<cnt. xs ! (i + k) = v)"

definition first_run :: "bool list \<Rightarrow> nat \<Rightarrow> nat \<Rightarrow> bool \<Rightarrow> nat option" where
  "first_run xs start cnt v = List.find (run_at xs cnt v) [start..<Suc (length xs)]"

lemma first_run_None:
  "first_run xs start cnt v = None \<longleftrightarrow> (\<forall>j\<ge>start. \<not> run_at xs cnt v j)"
  unfolding first_run_def find_None_iff_upt by (auto simp: run_at_def)

lemma first_run_Some:
  "first_run xs start cnt v = Some i \<longleftrightarrow>
    start \<le> i \<and> run_at xs cnt v i \<and> (\<forall>j. start \<le> j \<and> j < i \<longrightarrow> \<not> run_at xs cnt v j)"
  unfolding first_run_def find_upt_Some by (auto simp: run_at_def)

lemma bitmap_scan_ok [bm_simps]:
  assumes wf: "bm_wf b" and start: "start \<le> bit_cnt b"
  shows "bitmap_scan b start cnt v =
    Some (case first_run (bm_abs b) start cnt v of Some i \<Rightarrow> i | None \<Rightarrow> BITMAP_ERROR)"
proof (cases "cnt \<le> bit_cnt b")
  case True
  let ?last = "bit_cnt b - cnt"
  have "msearch (\<lambda>i. map_option Not (bitmap_contains b i cnt (\<not> v))) [start..<Suc ?last]
      = Some (List.find (run_at (bm_abs b) cnt v) [start..<Suc ?last])"
  proof (rule msearch_total)
    fix i assume "i \<in> set [start..<Suc ?last]"
    then have "i + cnt \<le> bit_cnt b" using True by auto
    then show "map_option Not (bitmap_contains b i cnt (\<not> v)) = Some (run_at (bm_abs b) cnt v i)"
      using wf by (auto simp: bitmap_contains_ok run_at_def)
  qed
  moreover have "List.find (run_at (bm_abs b) cnt v) [start..<Suc ?last]
      = first_run (bm_abs b) start cnt v"
  proof (cases "first_run (bm_abs b) start cnt v")
    case None
    then have "List.find (run_at (bm_abs b) cnt v) [start..<Suc ?last] = None"
      unfolding first_run_None find_None_iff_upt by blast
    then show ?thesis using None by simp
  next
    case (Some i)
    then have "i + cnt \<le> bit_cnt b" by (simp add: first_run_Some run_at_def)
    then have "List.find (run_at (bm_abs b) cnt v) [start..<Suc ?last] = Some i"
      using Some unfolding first_run_Some find_upt_Some by auto
    then show ?thesis using Some by simp
  qed
  ultimately show ?thesis using True start by (simp add: bitmap_scan_def)
next
  case False
  then have "first_run (bm_abs b) start cnt v = None"
    by (auto simp: first_run_None run_at_def)
  then show ?thesis using False start by (simp add: bitmap_scan_def)
qed

lemma run_at_not_error: "bm_wf b \<Longrightarrow> run_at (bm_abs b) cnt v i \<Longrightarrow> i \<noteq> BITMAP_ERROR"
  by (auto simp: bm_wf_def run_at_def BITMAP_ERROR_def SIZE_MAX_def)

lemma bitmap_scan_and_flip_None [bm_simps]:
  "bm_wf b \<Longrightarrow> start \<le> bit_cnt b \<Longrightarrow> first_run (bm_abs b) start cnt v = None \<Longrightarrow>
    bitmap_scan_and_flip b start cnt v = Some (BITMAP_ERROR, b)"
  by (simp add: bitmap_scan_and_flip_def bitmap_scan_ok)

lemma bitmap_scan_and_flip_Some:
  assumes wf: "bm_wf b" and start: "start \<le> bit_cnt b"
    and hit: "first_run (bm_abs b) start cnt v = Some i"
  shows "\<exists>b'. bitmap_scan_and_flip b start cnt v = Some (i, b') \<and> bm_wf b'
    \<and> bit_cnt b' = bit_cnt b \<and> bm_abs b' = set_range (bm_abs b) i cnt (\<not> v)"
proof -
  have run: "run_at (bm_abs b) cnt v i" using hit by (simp add: first_run_Some)
  then have "i + cnt \<le> bit_cnt b" by (simp add: run_at_def)
  from bitmap_set_multiple_ok [OF wf this] obtain b' where
    "bitmap_set_multiple b i cnt (\<not> v) = Some b'" "bm_wf b'" "bit_cnt b' = bit_cnt b"
    "bm_abs b' = set_range (bm_abs b) i cnt (\<not> v)" by blast
  then show ?thesis
    using run_at_not_error [OF wf run] hit wf start
    by (simp add: bitmap_scan_and_flip_def bitmap_scan_ok)
qed

lemma bm_eq_set_range_all: "set_range xs 0 (length xs) v = replicate (length xs) v"
  by (rule nth_equalityI) (simp_all add: nth_set_range)

lemma bitmap_create_ok:
  assumes "n + 32 \<le> 2 ^ 32" and "length bs = elem_cnt n"
  shows "\<exists>b. bitmap_create True (Some bs) n = Some (Some b) \<and> bm_wf b \<and> bit_cnt b = n
    \<and> bm_abs b = replicate n False"
  using bitmap_set_multiple_ok [of "\<lparr>bit_cnt = n, bits = bs\<rparr>" 0 n False] assms
    bm_eq_set_range_all [of "bm_abs \<lparr>bit_cnt = n, bits = bs\<rparr>" False]
  by (auto simp: bitmap_create_def bitmap_set_all_def bitmap_size_def bm_wf_def)

section \<open>Pools of numbered slots\<close>

text \<open>
  The contract between a bitmap and its clients. A state holds \<open>cap\<close> slots of which
  \<open>used\<close> are taken; \<open>alloc\<close> takes a free slot (\<open>None\<close> in its result when there is
  none) and \<open>release\<close> gives a taken one back.
\<close>

locale slot_pool =
  fixes inv :: "'s \<Rightarrow> bool"
    and cap :: "'s \<Rightarrow> nat"
    and used :: "'s \<Rightarrow> nat set"
    and alloc :: "'s \<Rightarrow> (nat option \<times> 's) option"
    and release :: "nat \<Rightarrow> 's \<Rightarrow> 's option"
  assumes used_bound: "inv s \<Longrightarrow> used s \<subseteq> {..<cap s}"
    and alloc_free: "inv s \<Longrightarrow> used s \<noteq> {..<cap s} \<Longrightarrow>
      \<exists>i s'. alloc s = Some (Some i, s') \<and> i < cap s \<and> i \<notin> used s
        \<and> used s' = insert i (used s) \<and> cap s' = cap s \<and> inv s'"
    and alloc_full: "inv s \<Longrightarrow> used s = {..<cap s} \<Longrightarrow> alloc s = Some (None, s)"
    and release_used: "inv s \<Longrightarrow> i \<in> used s \<Longrightarrow>
      \<exists>s'. release i s = Some s' \<and> used s' = used s - {i} \<and> cap s' = cap s \<and> inv s'"
begin

text \<open>\<open>n\<close> allocations in a row never fail before the pool is full, and the slots they
  hand out are pairwise different and were free.\<close>

lemma alloc_in_use:
  assumes "inv s" and "alloc s = Some (Some i, s')"
  shows "i < cap s \<and> i \<notin> used s \<and> used s' = insert i (used s) \<and> cap s' = cap s \<and> inv s'"
proof -
  have "used s \<noteq> {..<cap s}" using alloc_full [OF assms(1)] assms(2) by auto
  from alloc_free [OF assms(1) this] assms(2) show ?thesis by auto
qed

lemma alloc_release:
  assumes "inv s" and "alloc s = Some (Some i, s')"
  shows "\<exists>s''. release i s' = Some s'' \<and> used s'' = used s \<and> cap s'' = cap s \<and> inv s''"
  using alloc_in_use [OF assms] release_used [of s' i] by auto

lemma finite_used: "inv s \<Longrightarrow> finite (used s)"
  using used_bound finite_subset by blast

lemma alloc_total: "inv s \<Longrightarrow> \<exists>r s'. alloc s = Some (r, s') \<and> inv s'
    \<and> (r = None \<longleftrightarrow> card (used s) = cap s)"
proof (cases "used s = {..<cap s}")
  case True
  assume "inv s"
  with True show ?thesis by (simp add: alloc_full)
next
  case False
  assume s: "inv s"
  have "card (used s) < card {..<cap s}"
    using False used_bound [OF s] by (intro psubset_card_mono) auto
  moreover obtain i s' where "alloc s = Some (Some i, s')" "inv s'"
    using alloc_free [OF s False] by blast
  ultimately show ?thesis by auto
qed

end

text \<open>A bitmap used as a pool: \<open>bitmap_scan_and_flip (b, 0, 1, false)\<close> takes a slot, and
  a used bit is given back by \<open>bitmap_set (b, i, false)\<close>.\<close>

definition bm_used :: "bitmap \<Rightarrow> nat set" where
  "bm_used b = {i. i < bit_cnt b \<and> bm_abs b ! i}"

definition bm_slot :: "nat \<times> bitmap \<Rightarrow> nat option \<times> bitmap" where
  "bm_slot r = (if fst r = BITMAP_ERROR then None else Some (fst r), snd r)"

definition bm_alloc :: "bitmap \<Rightarrow> (nat option \<times> bitmap) option" where
  "bm_alloc b = map_option bm_slot (bitmap_scan_and_flip b 0 1 False)"

lemma bm_used_update:
  "i < bit_cnt b \<Longrightarrow> bit_cnt b' = bit_cnt b \<Longrightarrow> bm_abs b' = (bm_abs b)[i := v] \<Longrightarrow>
    bm_used b' = (if v then insert i (bm_used b) else bm_used b - {i})"
  unfolding bm_used_def by (auto simp: nth_list_update)

lemma first_free_run:
  "first_run (bm_abs b) 0 1 False = None \<longleftrightarrow> bm_used b = {..<bit_cnt b}"
proof -
  have "first_run (bm_abs b) 0 1 False = None \<longleftrightarrow> (\<forall>j<bit_cnt b. bm_abs b ! j)"
    by (auto simp: first_run_None run_at_def Suc_le_eq)
  also have "\<dots> \<longleftrightarrow> bm_used b = {..<bit_cnt b}"
    unfolding bm_used_def set_eq_iff mem_Collect_eq lessThan_iff by blast
  finally show ?thesis .
qed

lemma bm_alloc_None: "bm_wf b \<Longrightarrow> bm_used b = {..<bit_cnt b} \<Longrightarrow> bm_alloc b = Some (None, b)"
  using bitmap_scan_and_flip_None [of b 0 1 False] first_free_run [of b]
  by (simp add: bm_alloc_def bm_slot_def)

lemma bm_alloc_Some:
  assumes wf: "bm_wf b" and free: "bm_used b \<noteq> {..<bit_cnt b}"
  shows "\<exists>i b'. bitmap_scan_and_flip b 0 1 False = Some (i, b') \<and> i < bit_cnt b
    \<and> i \<noteq> BITMAP_ERROR \<and> i \<notin> bm_used b \<and> (\<forall>j<i. j \<in> bm_used b)
    \<and> bm_used b' = insert i (bm_used b) \<and> bit_cnt b' = bit_cnt b \<and> bm_wf b'
    \<and> bm_abs b' = (bm_abs b)[i := True]"
proof -
  from free obtain i where hit: "first_run (bm_abs b) 0 1 False = Some i"
    using first_free_run by (metis not_Some_eq)
  then have i: "i < bit_cnt b" "\<not> bm_abs b ! i" "\<forall>j<i. bm_abs b ! j"
    by (auto simp: first_run_Some run_at_def)
  obtain b' where b': "bitmap_scan_and_flip b 0 1 False = Some (i, b')" "bm_wf b'"
      "bit_cnt b' = bit_cnt b" "bm_abs b' = (bm_abs b)[i := True]"
    using bitmap_scan_and_flip_Some [OF wf _ hit] set_range_1 [of i "bm_abs b" True] i(1) by auto
  moreover have "i \<noteq> BITMAP_ERROR" using wf i(1)
    by (auto simp: bm_wf_def BITMAP_ERROR_def SIZE_MAX_def)
  ultimately show ?thesis using i bm_used_update [OF i(1) b'(3,4)]
    by (auto simp: bm_used_def)
qed

interpretation bmp: slot_pool bm_wf bit_cnt bm_used bm_alloc "\<lambda>i b. bitmap_set b i False"
proof unfold_locales
  fix b :: bitmap
  show "bm_used b \<subseteq> {..<bit_cnt b}" by (auto simp: bm_used_def)
  assume wf: "bm_wf b"
  { assume "bm_used b \<noteq> {..<bit_cnt b}"
    then show "\<exists>i s'. bm_alloc b = Some (Some i, s') \<and> i < bit_cnt b \<and> i \<notin> bm_used b
        \<and> bm_used s' = insert i (bm_used b) \<and> bit_cnt s' = bit_cnt b \<and> bm_wf s'"
      using bm_alloc_Some [OF wf] by (fastforce simp: bm_alloc_def bm_slot_def) }
  { assume "bm_used b = {..<bit_cnt b}"
    with wf show "bm_alloc b = Some (None, b)" by (rule bm_alloc_None) }
  { fix i assume "i \<in> bm_used b"
    then have i: "i < bit_cnt b" by (simp add: bm_used_def)
    from bitmap_set_ok [OF wf i, of False]
    show "\<exists>s'. bitmap_set b i False = Some s' \<and> bm_used s' = bm_used b - {i}
        \<and> bit_cnt s' = bit_cnt b \<and> bm_wf s'"
      using bm_used_update [OF i] by fastforce }
qed

section \<open>What the bitmap guarantees\<close>

text \<open>First fit. On a well-formed bitmap \<open>bitmap_scan\<close> returns the smallest index at or
  after \<open>start\<close> where a run of \<open>cnt\<close> bits equal to \<open>v\<close> fits, and \<open>BITMAP_ERROR\<close> exactly when
  there is no such run; it never fails an assertion.\<close>

theorem bitmap_scan_first_fit:
  assumes "bm_wf b" and "start \<le> bit_cnt b"
  shows "\<exists>i. bitmap_scan b start cnt v = Some i
    \<and> (if i = BITMAP_ERROR then \<forall>j\<ge>start. \<not> run_at (bm_abs b) cnt v j
       else start \<le> i \<and> run_at (bm_abs b) cnt v i
         \<and> (\<forall>j. start \<le> j \<and> j < i \<longrightarrow> \<not> run_at (bm_abs b) cnt v j))"
proof (cases "first_run (bm_abs b) start cnt v")
  case None
  then have "bitmap_scan b start cnt v = Some BITMAP_ERROR" using assms by (simp add: bitmap_scan_ok)
  then show ?thesis using None by (simp add: first_run_None)
next
  case (Some i)
  then have "start \<le> i \<and> run_at (bm_abs b) cnt v i \<and> (\<forall>j. start \<le> j \<and> j < i \<longrightarrow> \<not> run_at (bm_abs b) cnt v j)"
    by (simp add: first_run_Some)
  moreover from this have "i \<noteq> BITMAP_ERROR" using run_at_not_error [OF assms(1)] by blast
  ultimately show ?thesis using assms Some by (simp add: bitmap_scan_ok)
qed

text \<open>A small bitmap for the witnesses: six bits, the first two and the fifth set.\<close>

definition bm_sample :: bitmap where
  "bm_sample = \<lparr>bit_cnt = 6, bits = [0x13]\<rparr>"

lemma bm_sample_wf: "bm_wf bm_sample" "bit_cnt bm_sample = 6"
  by (simp_all add: bm_sample_def bm_wf_def elem_cnt_def DIV_ROUND_UP_def ELEM_BITS_def)

lemma bm_sample_bits: "bm_abs bm_sample = [True, True, False, False, True, False]"
  by (simp add: bm_sample_def bm_abs_def bm_bit_def upt_rec bit_numeral_rec)

theorem bitmap_scan_first_fit_witness:
  "\<exists>i. bitmap_scan bm_sample 0 2 False = Some i
    \<and> (if i = BITMAP_ERROR then \<forall>j\<ge>0. \<not> run_at (bm_abs bm_sample) 2 False j
       else 0 \<le> i \<and> run_at (bm_abs bm_sample) 2 False i
         \<and> (\<forall>j. 0 \<le> j \<and> j < i \<longrightarrow> \<not> run_at (bm_abs bm_sample) 2 False j))"
  by (rule bitmap_scan_first_fit) (simp_all add: bm_sample_wf)

text \<open>Allocating a run. When some run of \<open>cnt\<close> bits equal to \<open>v\<close> lies at or after \<open>start\<close>,
  \<open>bitmap_scan_and_flip\<close> returns such a run and complements exactly its bits; otherwise it
  returns \<open>BITMAP_ERROR\<close> and leaves the bitmap as it was.\<close>

theorem bitmap_scan_and_flip_allocates:
  assumes "bm_wf b" and "start \<le> bit_cnt b"
  shows "\<exists>i b'. bitmap_scan_and_flip b start cnt v = Some (i, b') \<and> bm_wf b'
    \<and> (if \<exists>j\<ge>start. run_at (bm_abs b) cnt v j
       then start \<le> i \<and> run_at (bm_abs b) cnt v i \<and> bit_cnt b' = bit_cnt b
         \<and> (\<forall>j<bit_cnt b. bm_abs b' ! j = (if i \<le> j \<and> j < i + cnt then \<not> v else bm_abs b ! j))
       else i = BITMAP_ERROR \<and> b' = b)"
proof (cases "first_run (bm_abs b) start cnt v")
  case None
  then have "\<not> (\<exists>j\<ge>start. run_at (bm_abs b) cnt v j)" by (simp add: first_run_None)
  then show ?thesis using bitmap_scan_and_flip_None [OF assms None] assms(1) by auto
next
  case (Some i)
  then have i: "start \<le> i" "run_at (bm_abs b) cnt v i" by (simp_all add: first_run_Some)
  obtain b' where b': "bitmap_scan_and_flip b start cnt v = Some (i, b')" "bm_wf b'"
      "bit_cnt b' = bit_cnt b" "bm_abs b' = set_range (bm_abs b) i cnt (\<not> v)"
    using bitmap_scan_and_flip_Some [OF assms Some] by blast
  then have "\<forall>j<bit_cnt b. bm_abs b' ! j = (if i \<le> j \<and> j < i + cnt then \<not> v else bm_abs b ! j)"
    by (simp add: nth_set_range del: nth_bm_abs)
  moreover have "\<exists>j\<ge>start. run_at (bm_abs b) cnt v j" using i by blast
  ultimately show ?thesis using b' i by auto
qed

theorem bitmap_scan_and_flip_allocates_witness:
  "\<exists>i b'. bitmap_scan_and_flip bm_sample 0 3 False = Some (i, b') \<and> bm_wf b'"
  using bitmap_scan_and_flip_allocates [OF bm_sample_wf(1), of 0 3 False] bm_sample_wf by auto

text \<open>Counting. \<open>bitmap_count\<close> is the number of bits of the range that equal \<open>v\<close>.\<close>

theorem bitmap_count_correct:
  assumes "bm_wf b" and "start + cnt \<le> bit_cnt b"
  shows "bitmap_count b start cnt v =
    Some (length (filter (\<lambda>x. x = v) (take cnt (drop start (bm_abs b)))))"
proof -
  have "{i. i < cnt \<and> bm_abs b ! (start + i) = v}
      = {i. i < length (take cnt (drop start (bm_abs b))) \<and> take cnt (drop start (bm_abs b)) ! i = v}"
    using assms(2) by auto
  then show ?thesis using bitmap_count_ok [OF assms] by (simp add: length_filter_conv_card)
qed

theorem bitmap_count_correct_witness: "bitmap_count bm_sample 1 4 True = Some 2"
  using bitmap_count_correct [OF bm_sample_wf(1), of 1 4 True] bm_sample_wf(2) bm_sample_bits
  by (simp add: numeral_eq_Suc)

end
