(* ===== verification/Klist.thy ===== *)
theory Klist
  imports Prelude "HOL-Library.Multiset"
begin

text \<open>
  \<open>lib/kernel/list.c\<close>: doubly linked lists whose elements are embedded in other
  structures, with a head and a tail header element. The ready queue, the wait queues of
  the synchronisation primitives, the free lists of \<open>malloc\<close>, the list of open inodes and
  the descriptor tables of processes are such lists.

  Elements live in a store that maps an address to its two links, so that aliasing is
  explicit: moving an element changes the links of its neighbours. Address 0 is the null
  pointer. A \<open>struct list\<close> is the pair of addresses of its header elements. A comparison
  function of the source (\<open>list_less_func\<close> with its \<open>aux\<close>) is a function on addresses:
  the list operations never change the structures around the elements.

  Loops that walk along links end only on a well-linked store; they are
  \<^theory_text>\<open>partial_function (option)\<close>s, where \<open>None\<close> includes a walk that never ends, and
  the lemmas prove that they return on every well-linked list.
\<close>

section \<open>The list of the source\<close>

record store =
  prev_of :: "nat \<Rightarrow> nat"
  next_of :: "nat \<Rightarrow> nat"

record klist =
  l_head :: nat
  l_tail :: nat

abbreviation set_prev :: "nat \<Rightarrow> nat \<Rightarrow> store \<Rightarrow> store" where
  "set_prev e p h \<equiv> h\<lparr>prev_of := (prev_of h)(e := p)\<rparr>"

abbreviation set_next :: "nat \<Rightarrow> nat \<Rightarrow> store \<Rightarrow> store" where
  "set_next e n h \<equiv> h\<lparr>next_of := (next_of h)(e := n)\<rparr>"

definition is_head :: "store \<Rightarrow> nat \<Rightarrow> bool" where
  "is_head h e \<longleftrightarrow> e \<noteq> 0 \<and> prev_of h e = 0 \<and> next_of h e \<noteq> 0"

definition is_interior :: "store \<Rightarrow> nat \<Rightarrow> bool" where
  "is_interior h e \<longleftrightarrow> e \<noteq> 0 \<and> prev_of h e \<noteq> 0 \<and> next_of h e \<noteq> 0"

definition is_tail :: "store \<Rightarrow> nat \<Rightarrow> bool" where
  "is_tail h e \<longleftrightarrow> e \<noteq> 0 \<and> prev_of h e \<noteq> 0 \<and> next_of h e = 0"

definition list_init :: "klist \<Rightarrow> store \<Rightarrow> store" where
  "list_init L h =
     set_next (l_tail L) 0 (set_prev (l_tail L) (l_head L)
       (set_next (l_head L) (l_tail L) (set_prev (l_head L) 0 h)))"

definition list_begin :: "store \<Rightarrow> klist \<Rightarrow> nat" where
  "list_begin h L = next_of h (l_head L)"

definition list_end :: "klist \<Rightarrow> nat" where
  "list_end L = l_tail L"

definition list_rbegin :: "store \<Rightarrow> klist \<Rightarrow> nat" where
  "list_rbegin h L = prev_of h (l_tail L)"

definition list_rend :: "klist \<Rightarrow> nat" where
  "list_rend L = l_head L"

definition list_next :: "store \<Rightarrow> nat \<Rightarrow> nat option" where
  "list_next h e = do { kassert (is_head h e \<or> is_interior h e); Some (next_of h e) }"

definition list_prev :: "store \<Rightarrow> nat \<Rightarrow> nat option" where
  "list_prev h e = do { kassert (is_interior h e \<or> is_tail h e); Some (prev_of h e) }"

definition list_insert :: "nat \<Rightarrow> nat \<Rightarrow> store \<Rightarrow> store option" where
  "list_insert before elem h =
     do {
       kassert (is_interior h before \<or> is_tail h before);
       kassert (elem \<noteq> 0);
       let h = set_prev elem (prev_of h before) h;
       let h = set_next elem before h;
       let h = set_next (prev_of h before) elem h;
       let h = set_prev before elem h;
       Some h
     }"

definition list_splice :: "nat \<Rightarrow> nat \<Rightarrow> nat \<Rightarrow> store \<Rightarrow> store option" where
  "list_splice before first lst h =
     do {
       kassert (is_interior h before \<or> is_tail h before);
       if first = lst then Some h
       else do {
         lst \<leftarrow> list_prev h lst;
         kassert (is_interior h first);
         kassert (is_interior h lst);
         let h = set_next (prev_of h first) (next_of h lst) h;
         let h = set_prev (next_of h lst) (prev_of h first) h;
         let h = set_prev first (prev_of h before) h;
         let h = set_next lst before h;
         let h = set_next (prev_of h before) first h;
         let h = set_prev before lst h;
         Some h
       }
     }"

definition list_push_front :: "klist \<Rightarrow> nat \<Rightarrow> store \<Rightarrow> store option" where
  "list_push_front L elem h = list_insert (list_begin h L) elem h"

definition list_push_back :: "klist \<Rightarrow> nat \<Rightarrow> store \<Rightarrow> store option" where
  "list_push_back L elem h = list_insert (list_end L) elem h"

definition list_remove :: "nat \<Rightarrow> store \<Rightarrow> (nat \<times> store) option" where
  "list_remove elem h =
     do {
       kassert (is_interior h elem);
       let h = set_next (prev_of h elem) (next_of h elem) h;
       let h = set_prev (next_of h elem) (prev_of h elem) h;
       Some (next_of h elem, h)
     }"

definition list_empty :: "store \<Rightarrow> klist \<Rightarrow> bool" where
  "list_empty h L \<longleftrightarrow> list_begin h L = list_end L"

definition list_front :: "store \<Rightarrow> klist \<Rightarrow> nat option" where
  "list_front h L = do { kassert (\<not> list_empty h L); Some (next_of h (l_head L)) }"

definition list_back :: "store \<Rightarrow> klist \<Rightarrow> nat option" where
  "list_back h L = do { kassert (\<not> list_empty h L); Some (prev_of h (l_tail L)) }"

definition list_pop_front :: "klist \<Rightarrow> store \<Rightarrow> (nat \<times> store) option" where
  "list_pop_front L h =
     do { front \<leftarrow> list_front h L; (_, h) \<leftarrow> list_remove front h; Some (front, h) }"

definition list_pop_back :: "klist \<Rightarrow> store \<Rightarrow> (nat \<times> store) option" where
  "list_pop_back L h =
     do { back \<leftarrow> list_back h L; (_, h) \<leftarrow> list_remove back h; Some (back, h) }"

partial_function (option) list_size_loop :: "store \<Rightarrow> klist \<Rightarrow> nat \<Rightarrow> nat \<Rightarrow> nat option" where
  "list_size_loop h L e cnt =
     (if e = list_end L then Some cnt
      else do { e' \<leftarrow> list_next h e; list_size_loop h L e' (u32 (cnt + 1)) })"

definition list_size :: "store \<Rightarrow> klist \<Rightarrow> nat option" where
  "list_size h L = list_size_loop h L (list_begin h L) 0"

text \<open>\<open>list_reverse\<close>: \<open>swap (&e->prev, &e->next)\<close> and the two header swaps.\<close>

definition swap_links :: "nat \<Rightarrow> store \<Rightarrow> store" where
  "swap_links e h = (let p = prev_of h e; n = next_of h e in set_next e p (set_prev e n h))"

partial_function (option) list_reverse_loop :: "klist \<Rightarrow> nat \<Rightarrow> store \<Rightarrow> store option" where
  "list_reverse_loop L e h =
     (if e = list_end L then Some h
      else do {
        kassert (e \<noteq> 0);
        let h' = swap_links e h;
        list_reverse_loop L (prev_of h' e) h'
      })"

definition list_reverse :: "klist \<Rightarrow> store \<Rightarrow> store option" where
  "list_reverse L h =
     (if list_empty h L then Some h
      else do {
        h \<leftarrow> list_reverse_loop L (list_begin h L) h;
        let f = next_of h (l_head L);
        let b = prev_of h (l_tail L);
        let h = set_prev (l_tail L) f (set_next (l_head L) b h);
        let fp = prev_of h (next_of h (l_head L));
        let bn = next_of h (prev_of h (l_tail L));
        Some (set_next (prev_of h (l_tail L)) fp (set_prev (next_of h (l_head L)) bn h))
      })"

section \<open>Ordered lists\<close>

type_synonym less_func = "nat \<Rightarrow> nat \<Rightarrow> bool"

partial_function (option) is_sorted_loop :: "less_func \<Rightarrow> store \<Rightarrow> nat \<Rightarrow> nat \<Rightarrow> bool option" where
  "is_sorted_loop lt h a b =
     do {
       a \<leftarrow> list_next h a;
       if a = b then Some True
       else do {
         p \<leftarrow> list_prev h a;
         if lt a p then Some False else is_sorted_loop lt h a b
       }
     }"

definition is_sorted :: "less_func \<Rightarrow> store \<Rightarrow> nat \<Rightarrow> nat \<Rightarrow> bool option" where
  "is_sorted lt h a b = (if a \<noteq> b then is_sorted_loop lt h a b else Some True)"

partial_function (option) find_end_of_run_loop :: "less_func \<Rightarrow> store \<Rightarrow> nat \<Rightarrow> nat \<Rightarrow> nat option" where
  "find_end_of_run_loop lt h a b =
     do {
       a \<leftarrow> list_next h a;
       if a = b then Some a
       else do {
         p \<leftarrow> list_prev h a;
         if lt a p then Some a else find_end_of_run_loop lt h a b
       }
     }"

definition find_end_of_run :: "less_func \<Rightarrow> store \<Rightarrow> nat \<Rightarrow> nat \<Rightarrow> nat option" where
  "find_end_of_run lt h a b =
     do {
       kassert (a \<noteq> 0);
       kassert (b \<noteq> 0);
       kassert (a \<noteq> b);
       find_end_of_run_loop lt h a b
     }"

partial_function (option) inplace_merge_loop ::
    "less_func \<Rightarrow> nat \<Rightarrow> nat \<Rightarrow> nat \<Rightarrow> store \<Rightarrow> store option" where
  "inplace_merge_loop lt a0 a1b0 b1 h =
     (if a0 \<noteq> a1b0 \<and> a1b0 \<noteq> b1
      then if \<not> lt a1b0 a0
        then do { a0 \<leftarrow> list_next h a0; inplace_merge_loop lt a0 a1b0 b1 h }
        else do {
          a1b0 \<leftarrow> list_next h a1b0;
          p \<leftarrow> list_prev h a1b0;
          h \<leftarrow> list_splice a0 p a1b0 h;
          inplace_merge_loop lt a0 a1b0 b1 h
        }
      else Some h)"

definition inplace_merge :: "less_func \<Rightarrow> nat \<Rightarrow> nat \<Rightarrow> nat \<Rightarrow> store \<Rightarrow> store option" where
  "inplace_merge lt a0 a1b0 b1 h =
     do {
       kassert (a0 \<noteq> 0);
       kassert (a1b0 \<noteq> 0);
       kassert (b1 \<noteq> 0);
       s1 \<leftarrow> is_sorted lt h a0 a1b0;
       kassert s1;
       s2 \<leftarrow> is_sorted lt h a1b0 b1;
       kassert s2;
       inplace_merge_loop lt a0 a1b0 b1 h
     }"

text \<open>One pass of \<open>list_sort\<close>: the \<open>for\<close> loop, returning the number of runs it output.\<close>

partial_function (option) list_sort_pass ::
    "less_func \<Rightarrow> klist \<Rightarrow> nat \<Rightarrow> nat \<Rightarrow> store \<Rightarrow> (nat \<times> store) option" where
  "list_sort_pass lt L a0 run_cnt h =
     (if a0 = list_end L then Some (run_cnt, h)
      else do {
        let run_cnt = u32 (run_cnt + 1);
        a1b0 \<leftarrow> find_end_of_run lt h a0 (list_end L);
        if a1b0 = list_end L then Some (run_cnt, h)
        else do {
          b1 \<leftarrow> find_end_of_run lt h a1b0 (list_end L);
          h \<leftarrow> inplace_merge lt a0 a1b0 b1 h;
          list_sort_pass lt L b1 run_cnt h
        }
      })"

partial_function (option) list_sort_loop :: "less_func \<Rightarrow> klist \<Rightarrow> store \<Rightarrow> store option" where
  "list_sort_loop lt L h =
     do {
       (run_cnt, h) \<leftarrow> list_sort_pass lt L (list_begin h L) 0 h;
       if run_cnt > 1 then list_sort_loop lt L h else Some h
     }"

definition list_sort :: "less_func \<Rightarrow> klist \<Rightarrow> store \<Rightarrow> store option" where
  "list_sort lt L h =
     do {
       h \<leftarrow> list_sort_loop lt L h;
       s \<leftarrow> is_sorted lt h (list_begin h L) (list_end L);
       kassert s;
       Some h
     }"

partial_function (option) insert_ordered_loop ::
    "less_func \<Rightarrow> klist \<Rightarrow> nat \<Rightarrow> store \<Rightarrow> nat \<Rightarrow> nat option" where
  "insert_ordered_loop lt L elem h e =
     (if e = list_end L then Some e
      else if lt elem e then Some e
      else do { e' \<leftarrow> list_next h e; insert_ordered_loop lt L elem h e' })"

definition list_insert_ordered :: "less_func \<Rightarrow> klist \<Rightarrow> nat \<Rightarrow> store \<Rightarrow> store option" where
  "list_insert_ordered lt L elem h =
     do {
       kassert (elem \<noteq> 0);
       e \<leftarrow> insert_ordered_loop lt L elem h (list_begin h L);
       list_insert e elem h
     }"

partial_function (option) list_unique_loop ::
    "less_func \<Rightarrow> klist \<Rightarrow> klist option \<Rightarrow> nat \<Rightarrow> store \<Rightarrow> store option" where
  "list_unique_loop lt L duplicates elem h =
     do {
       nxt \<leftarrow> list_next h elem;
       if nxt = list_end L then Some h
       else if \<not> lt elem nxt \<and> \<not> lt nxt elem
       then do {
         (_, h) \<leftarrow> list_remove nxt h;
         h \<leftarrow> (case duplicates of None \<Rightarrow> Some h | Some D \<Rightarrow> list_push_back D nxt h);
         list_unique_loop lt L duplicates elem h
       }
       else list_unique_loop lt L duplicates nxt h
     }"

definition list_unique :: "less_func \<Rightarrow> klist \<Rightarrow> klist option \<Rightarrow> store \<Rightarrow> store option" where
  "list_unique lt L duplicates h =
     (if list_empty h L then Some h
      else list_unique_loop lt L duplicates (list_begin h L) h)"

partial_function (option) list_find_loop ::
    "(nat \<Rightarrow> bool) \<Rightarrow> klist \<Rightarrow> store \<Rightarrow> nat \<Rightarrow> nat option" where
  "list_find_loop equals L h e =
     (if e = list_end L then Some 0
      else if equals e then Some e
      else do { e' \<leftarrow> list_next h e; list_find_loop equals L h e' })"

text \<open>\<open>list_find\<close> returns the null pointer, address 0, when nothing matches.\<close>

definition list_find :: "(nat \<Rightarrow> bool) \<Rightarrow> klist \<Rightarrow> store \<Rightarrow> nat option" where
  "list_find equals L h = list_find_loop equals L h (list_begin h L)"

text \<open>\<open>list_max\<close> and \<open>list_min\<close> run the same loop: \<open>better m e\<close> says that \<open>e\<close> replaces the
  candidate \<open>m\<close> (\<open>lt (max, e)\<close> for one, \<open>lt (e, min)\<close> for the other).\<close>

partial_function (option) list_best_loop ::
    "(nat \<Rightarrow> nat \<Rightarrow> bool) \<Rightarrow> klist \<Rightarrow> store \<Rightarrow> nat \<Rightarrow> nat \<Rightarrow> nat option" where
  "list_best_loop better L h best e =
     (if e = list_end L then Some best
      else do {
        e' \<leftarrow> list_next h e;
        list_best_loop better L h (if better best e then e else best) e'
      })"

definition list_max :: "less_func \<Rightarrow> klist \<Rightarrow> store \<Rightarrow> nat option" where
  "list_max lt L h =
     (let m = list_begin h L
      in if m \<noteq> list_end L
         then do { e \<leftarrow> list_next h m; list_best_loop (\<lambda>m e. lt m e) L h m e }
         else Some m)"

definition list_min :: "less_func \<Rightarrow> klist \<Rightarrow> store \<Rightarrow> nat option" where
  "list_min lt L h =
     (let m = list_begin h L
      in if m \<noteq> list_end L
         then do { e \<leftarrow> list_next h m; list_best_loop (\<lambda>m e. lt e m) L h m e }
         else Some m)"

section \<open>Well-linked lists\<close>

text \<open>\<open>chain h ps\<close>: consecutive addresses of \<open>ps\<close> are linked both ways. \<open>ring h ps\<close>: \<open>ps\<close>
  is a whole list, header elements included. \<open>dll h L xs\<close>: the interior elements of \<open>L\<close>
  are \<open>xs\<close>, in order.\<close>

fun chain :: "store \<Rightarrow> nat list \<Rightarrow> bool" where
  "chain h (x # y # zs) \<longleftrightarrow> next_of h x = y \<and> prev_of h y = x \<and> chain h (y # zs)"
| "chain h [x] \<longleftrightarrow> True"
| "chain h [] \<longleftrightarrow> True"

definition ring :: "store \<Rightarrow> nat list \<Rightarrow> bool" where
  "ring h ps \<longleftrightarrow> chain h ps \<and> distinct ps \<and> 0 \<notin> set ps \<and> 2 \<le> length ps
     \<and> prev_of h (hd ps) = 0 \<and> next_of h (last ps) = 0"

definition dll :: "store \<Rightarrow> klist \<Rightarrow> nat list \<Rightarrow> bool" where
  "dll h L xs \<longleftrightarrow> ring h (l_head L # xs @ [l_tail L])"

text \<open>\<open>same_outside A h h'\<close>: no link of an element outside \<open>A\<close> changed.\<close>

definition same_outside :: "nat set \<Rightarrow> store \<Rightarrow> store \<Rightarrow> bool" where
  "same_outside A h h' \<longleftrightarrow>
     (\<forall>x. x \<notin> A \<longrightarrow> prev_of h' x = prev_of h x \<and> next_of h' x = next_of h x)"

lemma chain_append:
  "chain h (xs @ ys) \<longleftrightarrow> chain h xs \<and> chain h ys
     \<and> (xs \<noteq> [] \<longrightarrow> ys \<noteq> [] \<longrightarrow> next_of h (last xs) = hd ys \<and> prev_of h (hd ys) = last xs)"
proof (induction xs)
  case (Cons x xs)
  then show ?case by (cases xs; cases ys) auto
qed simp

lemma chain_Cons:
  "chain h (x # ys) \<longleftrightarrow> chain h ys \<and> (ys \<noteq> [] \<longrightarrow> next_of h x = hd ys \<and> prev_of h (hd ys) = x)"
  by (cases ys) auto

lemma chain_cong:
  assumes "\<And>x. x \<in> set (butlast ps) \<Longrightarrow> next_of h' x = next_of h x"
    and "\<And>x. x \<in> set (tl ps) \<Longrightarrow> prev_of h' x = prev_of h x"
  shows "chain h' ps = chain h ps"
  using assms
proof (induction ps)
  case (Cons x ps)
  then show ?case by (cases ps) (auto dest: in_set_butlastD)
qed simp

lemma last_notin_butlast: "distinct ps \<Longrightarrow> ps \<noteq> [] \<Longrightarrow> last ps \<notin> set (butlast ps)"
  by (metis append_butlast_last_id distinct_append disjoint_iff list.set_intros(1))

lemma hd_notin_tl: "distinct ps \<Longrightarrow> ps \<noteq> [] \<Longrightarrow> hd ps \<notin> set (tl ps)"
  by (cases ps) auto

lemma same_outside_ring:
  assumes "same_outside A h h'" and "A \<inter> set ps = {}"
  shows "ring h' ps = ring h ps"
proof -
  have out: "\<And>x. x \<in> set ps \<Longrightarrow> prev_of h' x = prev_of h x \<and> next_of h' x = next_of h x"
    using assms by (auto simp: same_outside_def)
  have "chain h' ps = chain h ps"
    by (rule chain_cong) (meson in_set_butlastD out, metis list.set_sel(2) list.sel(2) out)
  moreover have "ps \<noteq> [] \<Longrightarrow> prev_of h' (hd ps) = prev_of h (hd ps) \<and> next_of h' (last ps) = next_of h (last ps)"
    using out by simp
  ultimately show ?thesis by (cases "ps = []") (auto simp: ring_def)
qed

lemma same_outside_trans:
  "same_outside A h h' \<Longrightarrow> same_outside B h' h'' \<Longrightarrow> same_outside (A \<union> B) h h''"
  by (simp add: same_outside_def)

lemma same_outside_mono: "same_outside A h h' \<Longrightarrow> A \<subseteq> B \<Longrightarrow> same_outside B h h'"
  by (auto simp: same_outside_def)

lemma same_outside_refl [simp]: "same_outside A h h"
  by (simp add: same_outside_def)

text \<open>The neighbours of an element, and what that says of the checks of the source.\<close>

lemma ring_links:
  assumes "ring h (A @ x # B)"
  shows "B \<noteq> [] \<Longrightarrow> next_of h x = hd B" and "B = [] \<Longrightarrow> next_of h x = 0"
    and "A \<noteq> [] \<Longrightarrow> prev_of h x = last A" and "A = [] \<Longrightarrow> prev_of h x = 0"
    and "x \<noteq> 0" and "A \<noteq> [] \<Longrightarrow> last A \<noteq> 0" and "B \<noteq> [] \<Longrightarrow> hd B \<noteq> 0"
proof -
  have "A \<noteq> [] \<Longrightarrow> last A \<in> set A" "B \<noteq> [] \<Longrightarrow> hd B \<in> set B" by simp_all
  moreover have "0 \<notin> set A" "0 \<notin> set B" "x \<noteq> 0" using assms by (auto simp: ring_def)
  ultimately show "A \<noteq> [] \<Longrightarrow> last A \<noteq> 0" "B \<noteq> [] \<Longrightarrow> hd B \<noteq> 0" "x \<noteq> 0" by metis+
qed (use assms in \<open>auto simp: ring_def chain_append chain_Cons\<close>)

lemma ring_next: "ring h (A @ x # B) \<Longrightarrow> B \<noteq> [] \<Longrightarrow> list_next h x = Some (hd B)"
  using ring_links [of h A x B]
  by (cases "A = []") (auto simp: list_next_def is_head_def is_interior_def)

lemma ring_prev: "ring h (A @ x # B) \<Longrightarrow> A \<noteq> [] \<Longrightarrow> list_prev h x = Some (last A)"
  using ring_links [of h A x B]
  by (cases "B = []") (auto simp: list_prev_def is_tail_def is_interior_def)

lemma ring_interior: "ring h (A @ x # B) \<Longrightarrow> A \<noteq> [] \<Longrightarrow> B \<noteq> [] \<Longrightarrow> is_interior h x"
  using ring_links [of h A x B] by (auto simp: is_interior_def)

lemma ring_interior_or_tail: "ring h (A @ x # B) \<Longrightarrow> A \<noteq> [] \<Longrightarrow> is_interior h x \<or> is_tail h x"
  using ring_links [of h A x B] by (cases "B = []") (auto simp: is_interior_def is_tail_def)

section \<open>Insertion, removal and splicing\<close>

lemma ring_insert:
  assumes ring: "ring h (A @ B)" and AB: "A \<noteq> []" "B \<noteq> []" and e: "e \<notin> set (A @ B)" "e \<noteq> 0"
  shows "\<exists>h'. list_insert (hd B) e h = Some h' \<and> ring h' (A @ e # B)
    \<and> same_outside (insert e (set (A @ B))) h h'"
proof -
  obtain q B' where B: "B = q # B'" using AB by (cases B) auto
  have q: "is_interior h q \<or> is_tail h q"
    using ring_interior_or_tail ring AB(1) unfolding B by blast
  have p: "prev_of h q = last A" using ring_links(3) ring AB(1) unfolding B by blast
  let ?h = "set_prev q e (set_next (last A) e (set_next e q (set_prev e (last A) h)))"
  have d: "distinct (A @ B)" and ch: "chain h (A @ B)" using ring by (auto simp: ring_def)
  have ends: "last A \<in> set A" "hd A \<in> set A" "last B \<in> set B" using AB by auto
  have neq: "last A \<noteq> q" "e \<noteq> q" "e \<noteq> last A" "q \<notin> set A" "hd A \<noteq> e" "hd A \<noteq> q"
      "last B \<noteq> e" "last B \<noteq> last A" "last A \<notin> set B"
    using d e ends by (auto simp: B)
  have "chain ?h A = chain h A"
    by (rule chain_cong) (use d e AB neq last_notin_butlast [of A] in
      \<open>auto simp: B dest: in_set_butlastD list.set_sel(2)\<close>)
  moreover have "chain ?h B = chain h B"
    by (rule chain_cong) (use d e neq in \<open>auto simp: B dest: in_set_butlastD split: if_splits\<close>)
  ultimately have "chain ?h (A @ e # B)"
    using ch neq AB by (auto simp: chain_append chain_Cons B)
  then have "ring ?h (A @ e # B)"
    using ring e AB neq by (simp add: ring_def)
  moreover have "list_insert (hd B) e h = Some ?h"
    using q p e(2) neq by (simp add: list_insert_def B Let_def)
  moreover have "same_outside (insert e (set (A @ B))) h ?h"
    using neq ends by (auto simp: same_outside_def B)
  ultimately show ?thesis by blast
qed

lemma ring_remove:
  assumes ring: "ring h (A @ e # B)" and AB: "A \<noteq> []" "B \<noteq> []"
  shows "\<exists>h'. list_remove e h = Some (hd B, h') \<and> ring h' (A @ B)
    \<and> same_outside (set (A @ B)) h h'"
proof -
  obtain q B' where B: "B = q # B'" using AB by (cases B) auto
  have links: "next_of h e = q" "prev_of h e = last A" and int: "is_interior h e"
    using ring_links(1,3) [OF ring] ring_interior [OF ring] AB by (auto simp: B)
  let ?h = "set_prev q (last A) (set_next (last A) q h)"
  have d: "distinct (A @ e # B)" and ch: "chain h (A @ e # B)" using ring by (auto simp: ring_def)
  have ends: "last A \<in> set A" "hd A \<in> set A" "last B \<in> set B" using AB by auto
  have neq: "last A \<noteq> q" "e \<noteq> q" "e \<noteq> last A" "q \<notin> set A" "hd A \<noteq> q" "last B \<noteq> last A"
      "last A \<notin> set B"
    using d ends by (auto simp: B)
  have "chain ?h A = chain h A"
    by (rule chain_cong) (use d AB neq last_notin_butlast [of A] in
      \<open>auto simp: B dest: in_set_butlastD list.set_sel(2)\<close>)
  moreover have "chain ?h B = chain h B"
    by (rule chain_cong) (use d neq in \<open>auto simp: B dest: in_set_butlastD split: if_splits\<close>)
  ultimately have "chain ?h (A @ B)"
    using ch neq AB by (auto simp: chain_append chain_Cons B)
  moreover have "2 \<le> length (A @ B)" using AB by (cases A) (auto simp: B)
  ultimately have "ring ?h (A @ B)"
    using ring AB neq by (simp add: ring_def)
  moreover have "list_remove e h = Some (hd B, ?h)"
    using links int neq by (simp add: list_remove_def B Let_def)
  moreover have "same_outside (set (A @ B)) h ?h"
    using neq ends by (auto simp: same_outside_def B)
  ultimately show ?thesis by blast
qed

text \<open>A segment \<open>M\<close> that follows \<open>B\<close> moves in front of it.\<close>

lemma ring_splice:
  assumes ring: "ring h (A @ B @ M @ C)" and ne: "A \<noteq> []" "B \<noteq> []" "M \<noteq> []" "C \<noteq> []"
  shows "\<exists>h'. list_splice (hd B) (hd M) (hd C) h = Some h' \<and> ring h' (A @ M @ B @ C)
    \<and> same_outside (set (A @ B @ M @ C)) h h'"
proof -
  let ?a = "last A" and ?b = "hd B" and ?y = "last B" and ?f = "hd M" and ?l = "last M" and ?c = "hd C"
  have d: "distinct (A @ B @ M @ C)" and ch: "chain h (A @ B @ M @ C)" using ring by (auto simp: ring_def)
  have ends: "?a \<in> set A" "hd A \<in> set A" "?b \<in> set B" "?y \<in> set B" "?f \<in> set M" "?l \<in> set M"
      "?c \<in> set C" "last C \<in> set C" using ne by auto
  have links: "prev_of h ?b = ?a" "prev_of h ?f = ?y" "next_of h ?l = ?c" "prev_of h ?c = ?l"
      "chain h A" "chain h B" "chain h M" "chain h C"
    using ch ne by (simp_all add: chain_append)
  let ?h = "set_prev ?b ?l (set_next ?a ?f (set_next ?l ?b (set_prev ?f ?a
    (set_prev ?c ?y (set_next ?y ?c h)))))"
  have out: "x \<in> set A \<Longrightarrow> x \<noteq> ?b \<and> x \<noteq> ?y \<and> x \<noteq> ?f \<and> x \<noteq> ?l \<and> x \<noteq> ?c"
      "x \<in> set B \<Longrightarrow> x \<noteq> ?a \<and> x \<noteq> ?f \<and> x \<noteq> ?l \<and> x \<noteq> ?c"
      "x \<in> set M \<Longrightarrow> x \<noteq> ?a \<and> x \<noteq> ?b \<and> x \<noteq> ?y \<and> x \<noteq> ?c"
      "x \<in> set C \<Longrightarrow> x \<noteq> ?a \<and> x \<noteq> ?b \<and> x \<noteq> ?y \<and> x \<noteq> ?f \<and> x \<noteq> ?l" for x
    using d ends by (auto simp: disjoint_iff)
  have inner: "x \<in> set (butlast X) \<Longrightarrow> x \<in> set X \<and> x \<noteq> last X" if "distinct X" for x and X :: "nat list"
    using that last_notin_butlast [of X] by (auto dest: in_set_butlastD) fastforce
  have inner': "x \<in> set (tl X) \<Longrightarrow> x \<in> set X \<and> x \<noteq> hd X" if "distinct X" for x and X :: "nat list"
    using that by (cases X) auto
  have keep: "chain ?h X = chain h X" if "X \<in> {A, B, M, C}" for X
  proof (rule chain_cong)
    have dX: "distinct X" using that d by auto
    show "next_of ?h x = next_of h x" if "x \<in> set (butlast X)" for x
      using inner [OF dX that] \<open>X \<in> {A, B, M, C}\<close> out [of x] by auto
    show "prev_of ?h x = prev_of h x" if "x \<in> set (tl X)" for x
      using inner' [OF dX that] \<open>X \<in> {A, B, M, C}\<close> out [of x] by auto
  qed
  have neqs: "?a \<noteq> ?l" "?a \<noteq> ?y" "?l \<noteq> ?y" "?b \<noteq> ?f" "?b \<noteq> ?c" "?f \<noteq> ?c"
    using out ends by metis+
  have "chain ?h (A @ M @ B @ C)"
    using keep links ne neqs by (simp add: chain_append del: insert_iff) auto
  moreover have "prev_of ?h (hd A) = 0" "next_of ?h (last C) = 0"
    using ring ne out ends by (auto simp: ring_def)
  ultimately have "ring ?h (A @ M @ B @ C)"
    using ring ne by (auto simp: ring_def)
  moreover have "list_splice ?b ?f ?c h = Some ?h"
  proof -
    have b: "is_interior h ?b \<or> is_tail h ?b"
      using ring_interior_or_tail [of h A ?b "tl B @ M @ C"] ring ne by (cases B) simp_all
    have c: "list_prev h ?c = Some ?l"
      using ring_prev [of h "A @ B @ M" ?c "tl C"] ring ne by (cases C) simp_all
    have f: "is_interior h ?f"
      using ring_interior [of h "A @ B" ?f "tl M @ C"] ring ne by (cases M) simp_all
    have l: "is_interior h ?l"
      using ring_interior [of h "A @ B @ butlast M" ?l C] ring ne
      by (cases M rule: rev_cases) simp_all
    show ?thesis using b c f l links neqs by (simp add: list_splice_def Let_def)
  qed
  moreover have "same_outside (set (A @ B @ M @ C)) h ?h"
    using ends by (auto simp: same_outside_def)
  ultimately show ?thesis by blast
qed

section \<open>The operations on whole lists\<close>

abbreviation nodes :: "klist \<Rightarrow> nat list \<Rightarrow> nat set" where
  "nodes L xs \<equiv> insert (l_head L) (insert (l_tail L) (set xs))"

lemma dll_iff: "dll h L (xs @ ys) \<longleftrightarrow> ring h ((l_head L # xs) @ (ys @ [l_tail L]))"
  by (simp add: dll_def)

lemma list_init_dll:
  "l_head L \<noteq> 0 \<Longrightarrow> l_tail L \<noteq> 0 \<Longrightarrow> l_head L \<noteq> l_tail L \<Longrightarrow> dll (list_init L h) L []"
  by (auto simp: list_init_def dll_def ring_def)

lemma dll_begin: "dll h L xs \<Longrightarrow> list_begin h L = hd (xs @ [l_tail L])"
  using ring_links(1) [of h "[]" "l_head L" "xs @ [l_tail L]"]
  by (simp add: dll_def list_begin_def)

lemma dll_rbegin: "dll h L xs \<Longrightarrow> list_rbegin h L = last (l_head L # xs)"
  using ring_links(3) [of h "l_head L # xs" "l_tail L" "[]"]
  by (simp add: dll_def list_rbegin_def)

lemma dll_distinct: "dll h L xs \<Longrightarrow> distinct (l_head L # xs @ [l_tail L])"
  by (simp add: dll_def ring_def)

lemma dll_step:
  "dll h L (xs @ y # ys) \<Longrightarrow> y \<noteq> list_end L \<and> y \<noteq> 0 \<and> list_next h y = Some (hd (ys @ [l_tail L]))"
  using ring_next [of h "l_head L # xs" y "ys @ [l_tail L]"] dll_distinct [of h L "xs @ y # ys"]
  by (auto simp: dll_def list_end_def ring_def)

lemma dll_step_prev: "dll h L (xs @ y # ys) \<Longrightarrow> list_prev h y = Some (last (l_head L # xs))"
  using ring_prev [of h "l_head L # xs" y "ys @ [l_tail L]"] by (auto simp: dll_def)

lemma dll_empty: "dll h L xs \<Longrightarrow> list_empty h L \<longleftrightarrow> xs = []"
  using dll_distinct [of h L xs] by (cases xs) (auto simp: list_empty_def dll_begin list_end_def)

lemma dll_insert:
  assumes "dll h L (xs @ ys)" and "e \<notin> nodes L (xs @ ys)" and "e \<noteq> 0"
  shows "\<exists>h'. list_insert (hd (ys @ [l_tail L])) e h = Some h' \<and> dll h' L (xs @ e # ys)
    \<and> same_outside (insert e (nodes L (xs @ ys))) h h'"
proof -
  have ring: "ring h ((l_head L # xs) @ (ys @ [l_tail L]))" using assms(1) by (simp add: dll_iff)
  have "e \<notin> set ((l_head L # xs) @ (ys @ [l_tail L]))" using assms(2) by auto
  from ring_insert [OF ring _ _ this assms(3)] show ?thesis
    by (fastforce simp: dll_def same_outside_def)
qed

lemma dll_remove:
  assumes "dll h L (xs @ e # ys)"
  shows "\<exists>h'. list_remove e h = Some (hd (ys @ [l_tail L]), h') \<and> dll h' L (xs @ ys)
    \<and> same_outside (nodes L (xs @ ys)) h h'"
proof -
  have ring: "ring h ((l_head L # xs) @ e # (ys @ [l_tail L]))" using assms by (simp add: dll_def)
  from ring_remove [OF ring] show ?thesis by (fastforce simp: dll_def same_outside_def)
qed

lemma dll_push_front:
  assumes "dll h L xs" and "e \<notin> nodes L xs" and "e \<noteq> 0"
  shows "\<exists>h'. list_push_front L e h = Some h' \<and> dll h' L (e # xs)
    \<and> same_outside (insert e (nodes L xs)) h h'"
  using dll_insert [of h L "[]" xs e] assms by (simp add: list_push_front_def dll_begin)

lemma dll_push_back:
  assumes "dll h L xs" and "e \<notin> nodes L xs" and "e \<noteq> 0"
  shows "\<exists>h'. list_push_back L e h = Some h' \<and> dll h' L (xs @ [e])
    \<and> same_outside (insert e (nodes L xs)) h h'"
  using dll_insert [of h L xs "[]" e] assms by (simp add: list_push_back_def list_end_def)

lemma dll_front: "dll h L (x # xs) \<Longrightarrow> list_front h L = Some x"
  using dll_empty [of h L "x # xs"] dll_begin [of h L "x # xs"]
  by (simp add: list_front_def list_begin_def)

lemma dll_back: "dll h L (xs @ [x]) \<Longrightarrow> list_back h L = Some x"
  using dll_empty [of h L "xs @ [x]"] dll_rbegin [of h L "xs @ [x]"]
  by (simp add: list_back_def list_rbegin_def)

lemma dll_pop_front:
  assumes "dll h L (x # xs)"
  shows "\<exists>h'. list_pop_front L h = Some (x, h') \<and> dll h' L xs \<and> same_outside (nodes L xs) h h'"
  using dll_remove [of h L "[]" x xs] dll_front [OF assms] assms by (auto simp: list_pop_front_def)

lemma dll_pop_back:
  assumes "dll h L (xs @ [x])"
  shows "\<exists>h'. list_pop_back L h = Some (x, h') \<and> dll h' L xs \<and> same_outside (nodes L xs) h h'"
  using dll_remove [of h L xs x "[]"] dll_back [OF assms] assms by (auto simp: list_pop_back_def)

lemma list_size_loop_ok:
  "dll h L (xs @ ys) \<Longrightarrow> c + length ys < 2 ^ 32 \<Longrightarrow>
    list_size_loop h L (hd (ys @ [l_tail L])) c = Some (c + length ys)"
proof (induction ys arbitrary: xs c)
  case Nil
  then show ?case by (simp add: list_size_loop.simps list_end_def)
next
  case (Cons y ys)
  have "list_size_loop h L (hd (ys @ [l_tail L])) (Suc c) = Some (Suc c + length ys)"
    using Cons.IH [of "xs @ [y]" "Suc c"] Cons.prems by simp
  then show ?case
    using dll_step [OF Cons.prems(1)] Cons.prems(2) by (simp add: list_size_loop.simps [of h L y])
qed

lemma list_size_ok: "dll h L xs \<Longrightarrow> length xs < 2 ^ 32 \<Longrightarrow> list_size h L = Some (length xs)"
  using list_size_loop_ok [of h L "[]" xs 0] by (simp add: list_size_def dll_begin)

lemma list_find_loop_ok:
  "dll h L (xs @ ys) \<Longrightarrow> list_find_loop p L h (hd (ys @ [l_tail L])) =
    Some (case List.find p ys of Some e \<Rightarrow> e | None \<Rightarrow> 0)"
proof (induction ys arbitrary: xs)
  case Nil
  then show ?case by (simp add: list_find_loop.simps list_end_def)
next
  case (Cons y ys)
  then show ?case
    using dll_step [OF Cons.prems] Cons.IH [of "xs @ [y]"]
    by (simp add: list_find_loop.simps [of p L h y])
qed

lemma list_find_ok:
  "dll h L xs \<Longrightarrow> list_find p L h = Some (case List.find p xs of Some e \<Rightarrow> e | None \<Rightarrow> 0)"
  using list_find_loop_ok [of h L "[]" xs p] by (simp add: list_find_def dll_begin)

lemma list_best_loop_ok:
  "dll h L (xs @ ys) \<Longrightarrow> list_best_loop better L h m (hd (ys @ [l_tail L])) =
    Some (fold (\<lambda>e m. if better m e then e else m) ys m)"
proof (induction ys arbitrary: xs m)
  case Nil
  then show ?case by (simp add: list_best_loop.simps list_end_def)
next
  case (Cons y ys)
  then show ?case
    using dll_step [OF Cons.prems] Cons.IH [of "xs @ [y]"]
    by (simp add: list_best_loop.simps [of better L h m y])
qed

lemma list_max_ok:
  "dll h L (x # xs) \<Longrightarrow> list_max lt L h = Some (fold (\<lambda>e m. if lt m e then e else m) xs x)"
  using dll_step [of h L "[]" x xs] list_best_loop_ok [of h L "[x]" xs lt x]
  by (simp add: list_max_def dll_begin Let_def)

lemma list_min_ok:
  "dll h L (x # xs) \<Longrightarrow> list_min lt L h = Some (fold (\<lambda>e m. if lt e m then e else m) xs x)"
  using dll_step [of h L "[]" x xs] list_best_loop_ok [of h L "[x]" xs "\<lambda>m e. lt e m" x]
  by (simp add: list_min_def dll_begin Let_def)

lemma insert_ordered_loop_ok:
  "dll h L (xs @ ys) \<Longrightarrow> insert_ordered_loop lt L e h (hd (ys @ [l_tail L])) =
    Some (hd (dropWhile (\<lambda>y. \<not> lt e y) ys @ [l_tail L]))"
proof (induction ys arbitrary: xs)
  case Nil
  then show ?case by (simp add: insert_ordered_loop.simps list_end_def)
next
  case (Cons y ys)
  then show ?case
    using dll_step [OF Cons.prems] Cons.IH [of "xs @ [y]"]
    by (simp add: insert_ordered_loop.simps [of lt L e h y])
qed

lemma list_insert_ordered_ok:
  assumes "dll h L xs" and "e \<notin> nodes L xs" and "e \<noteq> 0"
  shows "\<exists>h'. list_insert_ordered lt L e h = Some h'
    \<and> dll h' L (takeWhile (\<lambda>y. \<not> lt e y) xs @ e # dropWhile (\<lambda>y. \<not> lt e y) xs)
    \<and> same_outside (insert e (nodes L xs)) h h'"
  using insert_ordered_loop_ok [of h L "[]" xs lt e] assms
    dll_insert [of h L "takeWhile (\<lambda>y. \<not> lt e y) xs" "dropWhile (\<lambda>y. \<not> lt e y) xs" e]
  by (simp add: list_insert_ordered_def dll_begin)

section \<open>Reversal\<close>

lemma swap_links_apply:
  "prev_of (swap_links e h) x = (if x = e then next_of h e else prev_of h x)"
  "next_of (swap_links e h) x = (if x = e then prev_of h e else next_of h x)"
  by (simp_all add: swap_links_def Let_def)

lemma fold_swap_links:
  "distinct xs \<Longrightarrow>
    prev_of (fold swap_links xs h) x = (if x \<in> set xs then next_of h x else prev_of h x)
    \<and> next_of (fold swap_links xs h) x = (if x \<in> set xs then prev_of h x else next_of h x)"
  by (induction xs arbitrary: h) (auto simp: swap_links_apply)

lemma list_reverse_loop_ok:
  assumes "chain h (ys @ [l_tail L])" and "distinct (ys @ [l_tail L])" and "0 \<notin> set ys"
  shows "list_reverse_loop L (hd (ys @ [l_tail L])) h = Some (fold swap_links ys h)"
  using assms
proof (induction ys arbitrary: h)
  case Nil
  then show ?case by (simp add: list_reverse_loop.simps list_end_def)
next
  case (Cons y ys)
  let ?h = "swap_links y h"
  have "chain ?h (ys @ [l_tail L]) = chain h (ys @ [l_tail L])"
    by (rule chain_cong; cases ys) (use Cons.prems in \<open>auto simp: swap_links_apply\<close>)
  moreover have "prev_of ?h y = hd (ys @ [l_tail L])"
    using Cons.prems(1) by (simp add: swap_links_apply chain_Cons)
  moreover have "chain h (ys @ [l_tail L])" using Cons.prems(1) by (simp add: chain_Cons)
  ultimately show ?case
    using Cons.IH [of ?h] Cons.prems
    by (simp add: list_reverse_loop.simps [of L y h] list_end_def Let_def)
qed

lemma chain_rev:
  assumes "\<And>x. x \<in> set (tl ps) \<Longrightarrow> next_of h' x = prev_of h x"
    and "\<And>x. x \<in> set (butlast ps) \<Longrightarrow> prev_of h' x = next_of h x"
  shows "chain h' (rev ps) = chain h ps"
  using assms
proof (induction ps)
  case (Cons x ps)
  show ?case
  proof (cases ps)
    case (Cons y zs)
    have "chain h' (rev ps) = chain h ps"
      by (rule Cons.IH) (use Cons.prems Cons in \<open>auto simp: list.set_sel\<close>)
    then show ?thesis using Cons Cons.prems by (auto simp: chain_append chain_Cons)
  qed simp
qed simp

lemma list_reverse_ok:
  assumes dll: "dll h L xs"
  shows "\<exists>h'. list_reverse L h = Some h' \<and> dll h' L (rev xs) \<and> same_outside (nodes L xs) h h'"
proof (cases "xs = []")
  case True
  then show ?thesis using dll by (simp add: list_reverse_def dll_empty)
next
  case False
  let ?H = "l_head L" and ?T = "l_tail L" and ?f = "hd xs" and ?l = "last xs"
  have d: "distinct (?H # xs @ [?T])" and z: "0 \<notin> set (?H # xs @ [?T])"
    and ch: "chain h (?H # xs @ [?T])" and hdr: "prev_of h ?H = 0" "next_of h ?T = 0"
    using dll by (auto simp: dll_def ring_def)
  have links: "next_of h ?H = ?f" "prev_of h ?T = ?l" "prev_of h ?f = ?H" "next_of h ?l = ?T"
      "chain h xs" "chain h (xs @ [?T])"
    using ch False by (auto simp: chain_append chain_Cons)
  have fl: "?f \<in> set xs" "?l \<in> set xs" using False by auto
  have neq: "?f \<noteq> ?H" "?f \<noteq> ?T" "?l \<noteq> ?H" "?l \<noteq> ?T" "?H \<noteq> ?T" using d fl by auto
  let ?h1 = "fold swap_links xs h"
  let ?h2 = "set_prev ?T ?f (set_next ?H ?l ?h1)"
  let ?h3 = "set_next ?f ?T (set_prev ?l ?H ?h2)"
  have sw: "prev_of ?h1 x = (if x \<in> set xs then next_of h x else prev_of h x)"
      "next_of ?h1 x = (if x \<in> set xs then prev_of h x else next_of h x)" for x
    using fold_swap_links d by auto
  have hd_tl: "x \<in> set (tl xs) \<Longrightarrow> x \<in> set xs \<and> x \<noteq> ?f" for x
    using d by (cases xs) auto
  have la_bl: "x \<in> set (butlast xs) \<Longrightarrow> x \<in> set xs \<and> x \<noteq> ?l" for x
    using d False last_notin_butlast [of xs] by (auto dest: in_set_butlastD)
  have "chain ?h3 (rev xs) = chain h xs"
  proof (rule chain_rev)
    show "next_of ?h3 x = prev_of h x" if "x \<in> set (tl xs)" for x
      using hd_tl [OF that] d by (auto simp: sw)
    show "prev_of ?h3 x = next_of h x" if "x \<in> set (butlast xs)" for x
      using la_bl [OF that] d by (auto simp: sw)
  qed
  then have "chain ?h3 (?H # rev xs @ [?T])"
    using links neq False by (simp add: chain_append chain_Cons hd_rev last_rev)
  then have "dll ?h3 L (rev xs)"
    using d z hdr neq fl by (auto simp: dll_def ring_def sw)
  moreover have "list_reverse L h = Some ?h3"
  proof -
    have "list_reverse_loop L ?f h = Some ?h1"
      using list_reverse_loop_ok [of h xs L] links d z False by simp
    then show ?thesis
      using dll_empty [OF dll] dll_begin [OF dll] False links neq fl d
      by (simp add: list_reverse_def Let_def sw)
  qed
  moreover have "same_outside (nodes L xs) h ?h3"
    using fl by (auto simp: same_outside_def sw)
  ultimately show ?thesis by blast
qed

section \<open>Sorting\<close>

text \<open>What the sorting routines compute, on lists of addresses: \<open>split_run\<close> cuts off the
  first maximal nondecreasing run, \<open>mrg\<close> merges, \<open>sort_pass\<close> is one pass over the list and
  \<open>pass_runs\<close> the number of runs it outputs.\<close>

fun split_run :: "less_func \<Rightarrow> nat list \<Rightarrow> nat list \<times> nat list" where
  "split_run lt [] = ([], [])"
| "split_run lt [x] = ([x], [])"
| "split_run lt (x # y # zs) =
     (if lt y x then ([x], y # zs) else (case split_run lt (y # zs) of (r, s) \<Rightarrow> (x # r, s)))"

fun mrg :: "less_func \<Rightarrow> nat list \<Rightarrow> nat list \<Rightarrow> nat list" where
  "mrg lt [] B = B"
| "mrg lt A [] = A"
| "mrg lt (a # A) (b # B) =
     (if \<not> lt b a then a # mrg lt A (b # B) else b # mrg lt (a # A) B)"

fun adj_sorted :: "less_func \<Rightarrow> nat list \<Rightarrow> bool" where
  "adj_sorted lt (x # y # zs) \<longleftrightarrow> \<not> lt y x \<and> adj_sorted lt (y # zs)"
| "adj_sorted lt xs \<longleftrightarrow> True"

lemma split_run_append: "fst (split_run lt xs) @ snd (split_run lt xs) = xs"
  by (induction lt xs rule: split_run.induct) (auto split: prod.splits)

lemma split_run_hd: "xs \<noteq> [] \<Longrightarrow> fst (split_run lt xs) \<noteq> [] \<and> hd (fst (split_run lt xs)) = hd xs"
  by (cases "(lt, xs)" rule: split_run.cases) (auto split: prod.splits)

lemma split_run_adj: "adj_sorted lt (fst (split_run lt xs))"
proof (induction lt xs rule: split_run.induct)
  case (3 lt x y zs)
  then show ?case
    using split_run_hd [of "y # zs" lt]
    by (cases "fst (split_run lt (y # zs))") (auto split: prod.splits)
qed auto

lemma split_run_parts:
  assumes "split_run lt xs = (r, s)"
  shows "xs = r @ s" and "adj_sorted lt r" and "xs \<noteq> [] \<Longrightarrow> r \<noteq> []"
    and "xs \<noteq> [] \<Longrightarrow> length s < length xs"
proof -
  show xs: "xs = r @ s" using split_run_append [of lt xs] assms by simp
  show "adj_sorted lt r" using split_run_adj [of lt xs] assms by simp
  assume "xs \<noteq> []"
  then show "r \<noteq> []" using split_run_hd [of xs lt] assms by simp
  then show "length s < length xs" by (simp add: xs)
qed

lemma split_run_decr: "(r, s) = split_run lt xs \<Longrightarrow> xs \<noteq> [] \<Longrightarrow> length s < length xs"
  using split_run_parts(4) [of lt xs r s] by simp

function sort_pass :: "less_func \<Rightarrow> nat list \<Rightarrow> nat list" where
  "sort_pass lt xs =
     (if xs = [] then []
      else case split_run lt xs of (A, R) \<Rightarrow>
        if R = [] then xs
        else case split_run lt R of (B, Q) \<Rightarrow> mrg lt A B @ sort_pass lt Q)"
  by pat_completeness auto
termination
  by (relation "measure (\<lambda>(lt, xs). length xs)")
    (auto dest!: split_run_decr)

function pass_runs :: "less_func \<Rightarrow> nat list \<Rightarrow> nat" where
  "pass_runs lt xs =
     (if xs = [] then 0
      else case split_run lt xs of (A, R) \<Rightarrow>
        if R = [] then 1
        else case split_run lt R of (B, Q) \<Rightarrow> Suc (pass_runs lt Q))"
  by pat_completeness auto
termination
  by (relation "measure (\<lambda>(lt, xs). length xs)")
    (auto dest!: split_run_decr)

function runs :: "less_func \<Rightarrow> nat list \<Rightarrow> nat" where
  "runs lt xs =
     (if xs = [] then 0 else case split_run lt xs of (A, R) \<Rightarrow> Suc (runs lt R))"
  by pat_completeness auto
termination
  by (relation "measure (\<lambda>(lt, xs). length xs)")
    (auto dest!: split_run_decr)

declare sort_pass.simps [simp del] pass_runs.simps [simp del] runs.simps [simp del]

lemma mset_mrg: "mset (mrg lt A B) = mset A + mset B"
  by (induction lt A B rule: mrg.induct) auto

lemma set_mrg: "set (mrg lt A B) = set A \<union> set B"
  by (metis mset_mrg set_mset_mset set_mset_union)

lemma mset_sort_pass: "mset (sort_pass lt xs) = mset xs"
proof (induction lt xs rule: sort_pass.induct)
  case (1 lt xs)
  obtain A R where AR: "split_run lt xs = (A, R)" by fastforce
  obtain B Q where BQ: "split_run lt R = (B, Q)" by fastforce
  have AR': "mset xs = mset A + mset R" and BQ': "mset R = mset B + mset Q"
    using split_run_parts(1) [OF AR] split_run_parts(1) [OF BQ] by simp_all
  show ?case
  proof (cases "xs = [] \<or> R = []")
    case True
    then show ?thesis using AR by (auto simp: sort_pass.simps [of lt xs])
  next
    case False
    then have "mset (sort_pass lt Q) = mset Q" using 1 AR BQ by auto
    then show ?thesis using False AR BQ AR' BQ'
      by (simp add: sort_pass.simps [of lt xs] mset_mrg)
  qed
qed

lemma find_end_of_run_loop_ok:
  "dll h L (P @ x # ys) \<Longrightarrow>
    find_end_of_run_loop lt h x (l_tail L) = Some (hd (snd (split_run lt (x # ys)) @ [l_tail L]))"
proof (induction ys arbitrary: P x)
  case Nil
  then show ?case using dll_step [OF Nil] by (simp add: find_end_of_run_loop.simps [of lt h x])
next
  case (Cons y ys)
  have "y \<noteq> l_tail L" using dll_step [of h L "P @ [x]" y ys] Cons.prems by (simp add: list_end_def)
  moreover have "list_prev h y = Some x"
    using dll_step_prev [of h L "P @ [x]" y ys] Cons.prems by simp
  ultimately show ?case
    using dll_step [OF Cons.prems] Cons.IH [of "P @ [x]" y] Cons.prems
    by (simp add: find_end_of_run_loop.simps [of lt h x] split: prod.splits)
qed

lemma find_end_of_run_ok:
  assumes "dll h L (P @ xs)" and "xs \<noteq> []"
  shows "find_end_of_run lt h (hd xs) (list_end L) = Some (hd (snd (split_run lt xs) @ [l_tail L]))"
proof -
  obtain x ys where xs: "xs = x # ys" using assms(2) by (cases xs) auto
  have "l_tail L \<noteq> 0" using assms(1) by (simp add: dll_def ring_def)
  then show ?thesis
    using dll_step [of h L P x ys] find_end_of_run_loop_ok [of h L P x ys lt] assms(1)
    by (simp add: find_end_of_run_def list_end_def xs)
qed

lemma is_sorted_loop_ok:
  "dll h L (P @ x # xs @ Q) \<Longrightarrow>
    is_sorted_loop lt h x (hd (Q @ [l_tail L])) = Some (adj_sorted lt (x # xs))"
proof (induction xs arbitrary: P x)
  case Nil
  then show ?case using dll_step [of h L P x Q] by (simp add: is_sorted_loop.simps [of lt h x])
next
  case (Cons y ys)
  have "distinct (y # ys @ Q @ [l_tail L])" using dll_distinct [OF Cons.prems] by auto
  then have "y \<noteq> hd (Q @ [l_tail L])" by (cases Q) auto
  moreover have "list_prev h y = Some x"
    using dll_step_prev [of h L "P @ [x]" y "ys @ Q"] Cons.prems by simp
  ultimately show ?case
    using dll_step [of h L P x "y # ys @ Q"] Cons.IH [of "P @ [x]" y] Cons.prems
    by (simp add: is_sorted_loop.simps [of lt h x])
qed

lemma is_sorted_ok:
  "dll h L (P @ A @ Q) \<Longrightarrow>
    is_sorted lt h (hd (A @ Q @ [l_tail L])) (hd (Q @ [l_tail L])) = Some (adj_sorted lt A)"
proof (cases A)
  case (Cons x xs)
  assume dll: "dll h L (P @ A @ Q)"
  then have "distinct (x # xs @ Q @ [l_tail L])" using dll_distinct [OF dll] Cons by auto
  then have "x \<noteq> hd (Q @ [l_tail L])" by (cases Q) auto
  then show ?thesis using is_sorted_loop_ok [of h L P x xs Q lt] dll Cons
    by (simp add: is_sorted_def)
qed (simp add: is_sorted_def)

lemma inplace_merge_loop_ok:
  "dll h L (P @ A @ B @ Q) \<Longrightarrow>
    \<exists>h'. inplace_merge_loop lt (hd (A @ B @ Q @ [l_tail L])) (hd (B @ Q @ [l_tail L]))
           (hd (Q @ [l_tail L])) h = Some h'
      \<and> dll h' L (P @ mrg lt A B @ Q) \<and> same_outside (nodes L (P @ A @ B @ Q)) h h'"
proof (induction lt A B arbitrary: P h rule: mrg.induct)
  case (1 lt B)
  then show ?case by (simp add: inplace_merge_loop.simps)
next
  case (2 lt a A)
  then show ?case by (simp add: inplace_merge_loop.simps)
next
  case (3 lt a A b B)
  let ?b1 = "hd (Q @ [l_tail L])"
  have d: "distinct (P @ a # A @ b # B @ Q @ [l_tail L])" using dll_distinct [OF 3(3)] by auto
  then have neq: "a \<noteq> b" "b \<noteq> ?b1" by (cases Q; auto)+
  show ?case
  proof (cases "lt b a")
    case False
    have "dll h L ((P @ [a]) @ A @ (b # B) @ Q)" using 3(3) by simp
    from 3(1) [OF _ this] False dll_step [of h L P a "A @ b # B @ Q"] 3(3) neq
    show ?thesis by (simp add: inplace_merge_loop.simps [of lt a b])
  next
    case True
    let ?c = "hd (B @ Q @ [l_tail L])"
    have ring: "ring h ((l_head L # P) @ (a # A) @ [b] @ (B @ Q @ [l_tail L]))"
      using 3(3) by (simp add: dll_def)
    obtain h1 where h1: "list_splice a b ?c h = Some h1"
        "dll h1 L ((P @ [b]) @ (a # A) @ B @ Q)" "same_outside (nodes L (P @ (a # A) @ (b # B) @ Q)) h h1"
      using ring_splice [OF ring] by (fastforce simp: dll_def same_outside_def)
    have prev: "list_prev h ?c = Some b"
      using ring_prev [of h "l_head L # P @ a # A @ [b]" ?c "tl (B @ Q @ [l_tail L])"] ring
      by (cases "B @ Q @ [l_tail L]") simp_all
    obtain h2 where h2: "inplace_merge_loop lt a ?c ?b1 h1 = Some h2"
        "dll h2 L ((P @ [b]) @ mrg lt (a # A) B @ Q)"
        "same_outside (nodes L ((P @ [b]) @ (a # A) @ B @ Q)) h1 h2"
      using 3(2) [OF _ h1(2)] True by auto
    have "same_outside (nodes L (P @ (a # A) @ (b # B) @ Q)) h h2"
      using same_outside_trans [OF h1(3) h2(3)] by (rule same_outside_mono) auto
    then show ?thesis
      using True dll_step [of h L "P @ a # A" b "B @ Q"] 3(3) neq prev h1(1) h2
      by (simp add: inplace_merge_loop.simps [of lt a b])
  qed
qed

lemma inplace_merge_ok:
  assumes dll: "dll h L (P @ A @ B @ Q)" and ne: "A \<noteq> []" "B \<noteq> []"
    and sorted: "adj_sorted lt A" "adj_sorted lt B"
  shows "\<exists>h'. inplace_merge lt (hd A) (hd B) (hd (Q @ [l_tail L])) h = Some h'
      \<and> dll h' L (P @ mrg lt A B @ Q) \<and> same_outside (nodes L (P @ A @ B @ Q)) h h'"
proof -
  have "0 \<notin> set (P @ A @ B @ Q @ [l_tail L])" using dll by (auto simp: dll_def ring_def)
  then have "hd A \<noteq> 0" "hd B \<noteq> 0" "hd (Q @ [l_tail L]) \<noteq> 0"
    using ne by (cases A; cases B; cases Q; auto)+
  then show ?thesis
    using is_sorted_ok [of h L P A "B @ Q" lt] is_sorted_ok [of h L "P @ A" B Q lt]
      inplace_merge_loop_ok [OF dll, of lt] dll ne sorted
    by (simp add: inplace_merge_def)
qed

lemma list_sort_pass_ok:
  "dll h L (P @ xs) \<Longrightarrow> c + length xs < 2 ^ 32 \<Longrightarrow>
    \<exists>h'. list_sort_pass lt L (hd (xs @ [l_tail L])) c h = Some (c + pass_runs lt xs, h')
      \<and> dll h' L (P @ sort_pass lt xs) \<and> same_outside (nodes L (P @ xs)) h h'"
proof (induction lt xs arbitrary: P c h rule: sort_pass.induct)
  case (1 lt xs)
  obtain A R where AR: "split_run lt xs = (A, R)" by fastforce
  obtain B Q where BQ: "split_run lt R = (B, Q)" by fastforce
  note partsA = split_run_parts [OF AR] and partsB = split_run_parts [OF BQ]
  show ?case
  proof (cases "xs = []")
    case True
    then show ?thesis
      using 1(2) by (simp add: list_sort_pass.simps list_end_def pass_runs.simps sort_pass.simps)
  next
    case False
    have hd: "hd (xs @ [l_tail L]) = hd xs" "hd xs \<noteq> list_end L" "length xs \<ge> 1"
      using False dll_step [of h L P "hd xs" "tl xs"] 1(2) by (auto simp: Suc_le_eq)
    have fe: "find_end_of_run lt h (hd xs) (list_end L) = Some (hd (R @ [l_tail L]))"
      using find_end_of_run_ok [OF 1(2) False, of lt] AR by simp
    show ?thesis
    proof (cases "R = []")
      case True
      then show ?thesis
        using False hd fe AR 1(2,3)
        by (simp add: list_sort_pass.simps [of lt L "hd xs"] list_end_def pass_runs.simps [of lt xs]
            sort_pass.simps [of lt xs])
    next
      case R: False
      have dll: "dll h L (P @ A @ B @ Q)" and dllR: "dll h L ((P @ A) @ R)"
        using 1(2) partsA(1) partsB(1) by simp_all
      have ne: "A \<noteq> []" "B \<noteq> []" using partsA(3) partsB(3) False R by auto
      have "hd B \<noteq> list_end L"
        using ne(2) dll_step [of h L "P @ A" "hd B" "tl B @ Q"] dll by (cases B) auto
      then have hdR: "hd (R @ [l_tail L]) = hd B" "hd xs = hd A" "hd B \<noteq> list_end L"
        using R ne partsA(1) partsB(1) by auto
      have fe2: "find_end_of_run lt h (hd B) (list_end L) = Some (hd (Q @ [l_tail L]))"
        using find_end_of_run_ok [OF dllR R, of lt] BQ hdR R by simp
      obtain h1 where h1: "inplace_merge lt (hd A) (hd B) (hd (Q @ [l_tail L])) h = Some h1"
          "dll h1 L ((P @ mrg lt A B) @ Q)" "same_outside (nodes L (P @ xs)) h h1"
        using inplace_merge_ok [OF dll ne partsA(2) partsB(2)] partsA(1) partsB(1) by auto
      have len: "Suc c + length Q < 2 ^ 32"
        using 1(3) partsA(1) partsB(1) ne by (cases A) auto
      obtain h2 where h2: "list_sort_pass lt L (hd (Q @ [l_tail L])) (Suc c) h1
            = Some (Suc c + pass_runs lt Q, h2)"
          "dll h2 L ((P @ mrg lt A B) @ sort_pass lt Q)"
          "same_outside (nodes L ((P @ mrg lt A B) @ Q)) h1 h2"
        using 1(1) [OF False AR [symmetric] R BQ [symmetric] h1(2) len] by auto
      have "same_outside (nodes L (P @ xs)) h h2"
        using same_outside_trans [OF h1(3) h2(3)]
        by (rule same_outside_mono) (auto simp: partsA(1) partsB(1) set_mrg)
      then show ?thesis
        using False R hd hdR fe fe2 h1(1) h2(1,2) AR BQ 1(3)
        by (simp add: list_sort_pass.simps [of lt L "hd A" c h] pass_runs.simps [of lt xs]
            sort_pass.simps [of lt xs] Let_def)
    qed
  qed
qed

text \<open>
  The contract of a \<open>list_less_func\<close>: a strict weak order on the elements. The sorting
  routines are correct for every comparison that keeps it.
\<close>

locale elem_order =
  fixes lt :: less_func
  assumes asym: "lt x y \<Longrightarrow> \<not> lt y x"
    and neg_trans: "\<not> lt x y \<Longrightarrow> \<not> lt y z \<Longrightarrow> \<not> lt x z"
begin

lemma adj_sorted_iff: "adj_sorted lt xs \<longleftrightarrow> sorted_wrt (\<lambda>x y. \<not> lt y x) xs"
proof (induction xs rule: induct_list012)
  case (3 x y zs)
  have "\<not> lt z x" if "\<not> lt y x" "\<not> lt z y" for z using neg_trans that by blast
  then show ?case using 3 by auto
qed auto

lemma sorted_mrg:
  "sorted_wrt (\<lambda>x y. \<not> lt y x) A \<Longrightarrow> sorted_wrt (\<lambda>x y. \<not> lt y x) B \<Longrightarrow>
    sorted_wrt (\<lambda>x y. \<not> lt y x) (mrg lt A B)"
proof (induction A arbitrary: B)
  case (Cons a A)
  note outer = Cons.IH
  show ?case using Cons.prems
  proof (induction B)
    case (Cons b B)
    show ?case
    proof (cases "lt b a")
      case True
      have "\<not> lt x b" if "\<not> lt x a" for x using neg_trans [OF that asym [OF True]] by blast
      then show ?thesis using Cons True asym [OF True] by (auto simp: set_mrg)
    next
      case False
      have "\<not> lt x a" if "\<not> lt x b" for x using neg_trans [OF that False] by blast
      then show ?thesis using Cons.prems False outer [of "b # B"] by (auto simp: set_mrg)
    qed
  qed simp
qed simp

lemma snd_split_run_sorted: "adj_sorted lt xs \<Longrightarrow> snd (split_run lt xs) = []"
  by (induction xs rule: induct_list012) (auto split: prod.splits)

lemma runs_Cons: "xs \<noteq> [] \<Longrightarrow> runs lt xs = Suc (runs lt (snd (split_run lt xs)))"
  by (simp add: runs.simps [of lt xs] split: prod.splits)

lemma runs_Nil [simp]: "runs lt [] = 0"
  by (simp add: runs.simps)

lemma runs_sorted: "adj_sorted lt xs \<Longrightarrow> runs lt xs \<le> 1"
  by (cases "xs = []") (simp_all add: runs_Cons snd_split_run_sorted)

text \<open>Putting a run in front of a list adds at most one run.\<close>

lemma runs_step: "runs lt (x # y # zs) = (if lt y x then Suc (runs lt (y # zs)) else runs lt (y # zs))"
  by (simp add: runs_Cons split: prod.splits)

lemma runs_append: "runs lt (xs @ ys) \<le> runs lt xs + runs lt ys"
proof (induction xs rule: induct_list012)
  case (2 x)
  then show ?case by (cases ys) (auto simp: runs_step runs_Cons)
next
  case (3 x y zs)
  then show ?case by (simp add: runs_step)
qed simp

lemma runs_sort_pass:
  "runs lt (sort_pass lt xs) \<le> pass_runs lt xs \<and> 2 * pass_runs lt xs \<le> Suc (runs lt xs)
    \<and> (pass_runs lt xs \<le> 1 \<longrightarrow> adj_sorted lt (sort_pass lt xs))"
proof (induction "length xs" arbitrary: xs rule: less_induct)
  case less
  obtain A R where AR: "split_run lt xs = (A, R)" by fastforce
  obtain B Q where BQ: "split_run lt R = (B, Q)" by fastforce
  note parts = split_run_parts [OF AR] and partsB = split_run_parts [OF BQ]
  show ?case
  proof (cases "xs = [] \<or> R = []")
    case True
    then consider "xs = []" | "xs \<noteq> []" "R = []" by blast
    then show ?thesis
    proof cases
      case 1
      then show ?thesis by (simp add: sort_pass.simps pass_runs.simps)
    next
      case 2
      then have "adj_sorted lt xs" using parts(1,2) by simp
      then show ?thesis
        using 2 AR runs_sorted [of xs] runs_Cons [of xs]
        by (simp add: sort_pass.simps [of lt xs] pass_runs.simps [of lt xs])
    qed
  next
    case False
    then have "length Q < length xs" using parts(4) partsB(4) by simp
    note IH = less [OF this]
    have eqs: "sort_pass lt xs = mrg lt A B @ sort_pass lt Q" "pass_runs lt xs = Suc (pass_runs lt Q)"
        "runs lt xs = Suc (Suc (runs lt Q))"
      using False AR BQ by (simp_all add: sort_pass.simps [of lt xs] pass_runs.simps [of lt xs] runs_Cons)
    have "adj_sorted lt (mrg lt A B)"
      using parts(2) partsB(2) by (simp add: adj_sorted_iff sorted_mrg)
    moreover have "sort_pass lt Q = []" if "pass_runs lt Q = 0"
      using that by (auto simp: sort_pass.simps [of lt Q] pass_runs.simps [of lt Q]
        split: prod.splits if_splits)
    moreover have "runs lt (mrg lt A B @ sort_pass lt Q) \<le> 1 + runs lt (sort_pass lt Q)"
      using runs_append [of "mrg lt A B" "sort_pass lt Q"] runs_sorted [OF calculation(1)] by simp
    ultimately show ?thesis
      using IH unfolding eqs by auto
  qed
qed

lemma list_sort_loop_ok:
  "dll h L xs \<Longrightarrow> length xs < 2 ^ 32 \<Longrightarrow>
    \<exists>h' ys. list_sort_loop lt L h = Some h' \<and> dll h' L ys \<and> mset ys = mset xs
      \<and> adj_sorted lt ys \<and> same_outside (nodes L xs) h h'"
proof (induction "runs lt xs" arbitrary: xs h rule: less_induct)
  case less
  let ?ys = "sort_pass lt xs"
  obtain h1 where h1: "list_sort_pass lt L (list_begin h L) 0 h = Some (pass_runs lt xs, h1)"
      "dll h1 L ?ys" "same_outside (nodes L xs) h h1"
    using list_sort_pass_ok [of h L "[]" xs 0 lt] less(2,3) dll_begin [OF less(2)] by auto
  have ms: "mset ?ys = mset xs" by (rule mset_sort_pass)
  have len: "length ?ys < 2 ^ 32" using ms less(3) by (metis size_mset)
  have st: "set ?ys = set xs" using ms by (metis set_mset_mset)
  show ?case
  proof (cases "pass_runs lt xs > 1")
    case False
    then show ?thesis
      using h1 ms runs_sort_pass [of xs] by (auto simp: list_sort_loop.simps [of lt L h])
  next
    case True
    then have "runs lt ?ys < runs lt xs" using runs_sort_pass [of xs] by auto
    from less(1) [OF this h1(2) len] obtain h2 ys where
      "list_sort_loop lt L h1 = Some h2" "dll h2 L ys" "mset ys = mset ?ys" "adj_sorted lt ys"
      "same_outside (nodes L ?ys) h1 h2" by blast
    moreover have "same_outside (nodes L xs) h h2"
      using same_outside_trans [OF h1(3) calculation(5)] by (rule same_outside_mono) (auto simp: st)
    ultimately show ?thesis
      using True h1(1) ms by (auto simp: list_sort_loop.simps [of lt L h])
  qed
qed

lemma list_sort_ok:
  assumes "dll h L xs" and "length xs < 2 ^ 32"
  shows "\<exists>h' ys. list_sort lt L h = Some h' \<and> dll h' L ys \<and> mset ys = mset xs
      \<and> sorted_wrt (\<lambda>x y. \<not> lt y x) ys \<and> same_outside (nodes L xs) h h'"
proof -
  obtain h' ys where h': "list_sort_loop lt L h = Some h'" "dll h' L ys" "mset ys = mset xs"
      "adj_sorted lt ys" "same_outside (nodes L xs) h h'"
    using list_sort_loop_ok [OF assms] by blast
  then have "is_sorted lt h' (list_begin h' L) (list_end L) = Some True"
    using is_sorted_ok [of h' L "[]" ys "[]" lt] by (simp add: dll_begin list_end_def)
  then show ?thesis using h' by (auto simp: list_sort_def adj_sorted_iff)
qed

text \<open>\<open>list_insert_ordered\<close> keeps a sorted list sorted, and puts an element after the ones
  equal to it.\<close>

lemma sorted_insert_ordered:
  "sorted_wrt (\<lambda>x y. \<not> lt y x) xs \<Longrightarrow>
    sorted_wrt (\<lambda>x y. \<not> lt y x)
      (takeWhile (\<lambda>y. \<not> lt e y) xs @ e # dropWhile (\<lambda>y. \<not> lt e y) xs)"
proof (induction xs)
  case (Cons x xs)
  show ?case
  proof (cases "lt e x")
    case True
    have "\<not> lt y e" if "\<not> lt y x" for y using neg_trans [OF that asym [OF True]] .
    then show ?thesis using Cons.prems True asym [OF True] by auto
  next
    case False
    have "set (takeWhile (\<lambda>y. \<not> lt e y) xs @ e # dropWhile (\<lambda>y. \<not> lt e y) xs) = insert e (set xs)"
      by (metis Un_insert_right list.simps(15) set_append takeWhile_dropWhile_id)
    then show ?thesis using Cons False by simp
  qed
qed simp

text \<open>\<open>list_max\<close> returns the earliest of the largest elements.\<close>

lemma fold_max:
  "m \<in> set (x # xs) \<and> (\<forall>y\<in>set (x # xs). \<not> lt m y)
    \<and> (\<exists>us vs. x # xs = us @ m # vs \<and> (\<forall>u\<in>set us. lt u m))"
  if "m = fold (\<lambda>e m. if lt m e then e else m) xs x"
  using that
proof (induction xs arbitrary: m rule: rev_induct)
  case Nil
  then show ?case using asym by (auto intro: exI [of _ "[]"])
next
  case (snoc y xs)
  let ?m = "fold (\<lambda>e m. if lt m e then e else m) xs x"
  obtain us vs where split: "x # xs = us @ ?m # vs" "\<forall>u\<in>set us. lt u ?m"
    and best: "\<forall>y\<in>set (x # xs). \<not> lt ?m y"
    using snoc.IH [OF refl] by blast
  show ?case
  proof (cases "lt ?m y")
    case True
    have "lt u y" if "u \<in> set (x # xs)" for u
      using best that True neg_trans [of ?m u y] by blast
    moreover have "\<not> lt y z" if "z \<in> set (x # xs)" for z
      using calculation [OF that] asym by blast
    moreover have "\<not> lt y y" using asym by blast
    moreover have "\<exists>us vs. x # xs @ [y] = us @ y # vs \<and> (\<forall>u\<in>set us. lt u y)"
      by (rule exI [of _ "x # xs"], rule exI [of _ "[]"]) (simp add: calculation(1))
    moreover have "m = y" using snoc.prems True by simp
    ultimately show ?thesis by simp
  next
    case False
    have m: "m = ?m" using snoc.prems False by simp
    have "x # xs @ [y] = us @ ?m # (vs @ [y])" using split(1) by simp
    then have "\<exists>us vs. x # xs @ [y] = us @ ?m # vs \<and> (\<forall>u\<in>set us. lt u ?m)"
      using split(2) by blast
    moreover have "?m \<in> set (x # xs)" unfolding split(1) by simp
    ultimately show ?thesis using best False by (auto simp: m)
  qed
qed

end

section \<open>What the list guarantees\<close>

text \<open>Removing an element and inserting it again before its old successor gives back the
  same list, as the comment of \<open>list_remove\<close> promises with the pointer it returns. No link
  outside the list is touched.\<close>

theorem list_remove_insert:
  assumes "dll h L (xs @ e # ys)"
  shows "\<exists>next h1 h2. list_remove e h = Some (next, h1) \<and> dll h1 L (xs @ ys)
    \<and> list_insert next e h1 = Some h2 \<and> dll h2 L (xs @ e # ys)
    \<and> same_outside (nodes L (xs @ e # ys)) h h2"
proof -
  obtain h1 where h1: "list_remove e h = Some (hd (ys @ [l_tail L]), h1)" "dll h1 L (xs @ ys)"
      "same_outside (nodes L (xs @ ys)) h h1"
    using dll_remove [OF assms] by blast
  have e: "e \<notin> nodes L (xs @ ys)" "e \<noteq> 0" using assms by (auto simp: dll_def ring_def)
  obtain h2 where h2: "list_insert (hd (ys @ [l_tail L])) e h1 = Some h2" "dll h2 L (xs @ e # ys)"
      "same_outside (insert e (nodes L (xs @ ys))) h1 h2"
    using dll_insert [OF h1(2) e] by blast
  have "same_outside (nodes L (xs @ e # ys)) h h2"
    using h1(3) h2(3) by (simp add: same_outside_def)
  with h1 h2 show ?thesis by blast
qed

text \<open>The list of elements 5, 3, 4 with sentinels 1 and 2, for the witnesses.\<close>

definition sample_list :: klist where
  "sample_list = \<lparr>l_head = 1, l_tail = 2\<rparr>"

definition sample_store :: store where
  "sample_store = \<lparr>prev_of = (\<lambda>_. 0)(5 := 1, 3 := 5, 4 := 3, 2 := 4),
     next_of = (\<lambda>_. 0)(1 := 5, 5 := 3, 3 := 4, 4 := 2)\<rparr>"

lemma sample_dll: "dll sample_store sample_list [5, 3, 4]"
  by (simp add: dll_def ring_def sample_list_def sample_store_def)

theorem list_remove_insert_witness:
  "\<exists>next h1 h2. list_remove 3 sample_store = Some (next, h1) \<and> dll h1 sample_list [5, 4]
    \<and> list_insert next 3 h1 = Some h2 \<and> dll h2 sample_list [5, 3, 4]"
  using list_remove_insert [of sample_store sample_list "[5]" 3 "[4]"] sample_dll by auto

text \<open>\<open>list_reverse\<close> terminates and reverses the list in place.\<close>

theorem list_reverse_correct:
  assumes "dll h L xs"
  shows "\<exists>h'. list_reverse L h = Some h' \<and> dll h' L (rev xs) \<and> same_outside (nodes L xs) h h'"
  using assms by (rule list_reverse_ok)

theorem list_reverse_correct_witness:
  "\<exists>h'. list_reverse sample_list sample_store = Some h' \<and> dll h' sample_list [4, 3, 5]"
  using list_reverse_correct [OF sample_dll] by auto

text \<open>(C15) The natural merge sort \<open>list_sort\<close>, with any comparison that is asymmetric and whose
  negation is transitive, terminates with a sorted permutation of the list, and writes no link
  outside it.\<close>

theorem list_sort_correct:
  assumes "elem_order lt" and "dll h L xs" and "length xs < 2 ^ 32"
  shows "\<exists>h' ys. list_sort lt L h = Some h' \<and> dll h' L ys \<and> mset ys = mset xs
    \<and> sorted_wrt (\<lambda>x y. \<not> lt y x) ys \<and> same_outside (nodes L xs) h h'"
  using assms by (rule elem_order.list_sort_ok)

theorem list_sort_correct_witness:
  "\<exists>h' ys. list_sort (<) sample_list sample_store = Some h' \<and> dll h' sample_list ys
    \<and> mset ys = {#3, 4, 5#} \<and> sorted_wrt (\<lambda>x y. \<not> y < x) ys"
proof -
  have "elem_order (<)" by unfold_locales auto
  from list_sort_correct [OF this sample_dll] show ?thesis by (auto simp: add_mset_commute)
qed

text \<open>\<open>list_insert_ordered\<close> keeps a sorted list sorted and puts the new element behind every
  element that is not greater.\<close>

theorem list_insert_ordered_correct:
  assumes "elem_order lt" and "dll h L xs" and "e \<notin> nodes L xs" and "e \<noteq> 0"
    and "sorted_wrt (\<lambda>x y. \<not> lt y x) xs"
  shows "\<exists>h' us vs. list_insert_ordered lt L e h = Some h' \<and> xs = us @ vs \<and> dll h' L (us @ e # vs)
    \<and> sorted_wrt (\<lambda>x y. \<not> lt y x) (us @ e # vs) \<and> (\<forall>u\<in>set us. \<not> lt e u)"
proof -
  let ?us = "takeWhile (\<lambda>y. \<not> lt e y) xs" and ?vs = "dropWhile (\<lambda>y. \<not> lt e y) xs"
  have "xs = ?us @ ?vs" by simp
  moreover have "\<forall>u\<in>set ?us. \<not> lt e u" by (auto dest: set_takeWhileD)
  ultimately show ?thesis
    using list_insert_ordered_ok [OF assms(2-4), of lt]
      elem_order.sorted_insert_ordered [OF assms(1,5), of e] by blast
qed

theorem list_insert_ordered_correct_witness:
  "\<exists>h' us vs. list_insert_ordered (\<lambda>x y. x mod 5 < y mod 5) sample_list 6 sample_store = Some h'
    \<and> [5, 3, 4] = us @ vs \<and> dll h' sample_list (us @ 6 # vs)"
proof -
  have "elem_order (\<lambda>x y. x mod 5 < y mod 5)" by unfold_locales auto
  from list_insert_ordered_correct [OF this sample_dll, of 6]
  show ?thesis by (auto simp: sample_list_def)
qed

end
