(* ===== verification/Kstring.thy ===== *)
theory Kstring
  imports Prelude
begin

text \<open>
  \<open>lib/string.c\<close>: blocks of memory and null-terminated strings.

  Memory maps addresses to bytes and a pointer is an address, 0 being the null pointer, so
  overlapping blocks are blocks with common addresses. Addresses are not wrapped: a block or
  string lies inside the address space. A function that returns a pointer returns the
  address; loops that look for a terminator are \<^theory_text>\<open>partial_function (option)\<close>s and
  the lemmas show that they return on a string that has one.
\<close>

section \<open>The functions of the source\<close>

type_synonym mem = "nat \<Rightarrow> byte"

text \<open>\<open>while (size-- > 0) *dst++ = *src++;\<close>\<close>

fun copy_up :: "nat \<Rightarrow> nat \<Rightarrow> nat \<Rightarrow> mem \<Rightarrow> mem" where
  "copy_up dst src 0 m = m"
| "copy_up dst src (Suc n) m = copy_up (dst + 1) (src + 1) n (m(dst := m src))"

text \<open>\<open>while (size-- > 0) *--dst = *--src;\<close>, with \<open>dst\<close> and \<open>src\<close> the starts of the blocks.\<close>

fun copy_down :: "nat \<Rightarrow> nat \<Rightarrow> nat \<Rightarrow> mem \<Rightarrow> mem" where
  "copy_down dst src 0 m = m"
| "copy_down dst src (Suc n) m = copy_down dst src n (m(dst + n := m (src + n)))"

definition memcpy :: "nat \<Rightarrow> nat \<Rightarrow> nat \<Rightarrow> mem \<Rightarrow> (nat \<times> mem) option" where
  "memcpy dst src n m =
     do {
       kassert (dst \<noteq> 0 \<or> n = 0);
       kassert (src \<noteq> 0 \<or> n = 0);
       Some (dst, copy_up dst src n m)
     }"

text \<open>One exchange of \<open>k\<close> bytes: \<open>__sync_lock_test_and_set (dst, *src)\<close>.\<close>

definition copy_unit :: "nat \<Rightarrow> nat \<Rightarrow> nat \<Rightarrow> mem \<Rightarrow> mem" where
  "copy_unit k dst src m = (\<lambda>a. if dst \<le> a \<and> a < dst + k then m (src + (a - dst)) else m a)"

text \<open>\<open>while (size >= k) { size -= k; exchange; dst += k; src += k; }\<close> for a width \<open>k > 0\<close>.\<close>

function copy_units :: "nat \<Rightarrow> nat \<Rightarrow> nat \<Rightarrow> nat \<Rightarrow> mem \<Rightarrow> nat \<times> nat \<times> nat \<times> mem" where
  "copy_units k dst src n m =
     (if 0 < k \<and> k \<le> n
      then copy_units k (dst + k) (src + k) (n - k) (copy_unit k dst src m)
      else (dst, src, n, m))"
  by pat_completeness auto
termination
  by (relation "measure (\<lambda>(k, dst, src, n, m). n)") auto

declare copy_units.simps [simp del]

definition atomic_gio_memcpy :: "nat \<Rightarrow> nat \<Rightarrow> nat \<Rightarrow> mem \<Rightarrow> (nat \<times> mem) option" where
  "atomic_gio_memcpy dst0 src n m =
     (let (dst, src, n, m) = copy_units 8 dst0 src n m;
          (dst, src, n, m) = copy_units 4 dst src n m;
          (dst, src, n, m) = copy_units 2 dst src n m;
          (dst, src, n, m) = copy_units 1 dst src n m
      in do { kassert (n = 0); Some (dst0, m) })"

text \<open>\<open>memmove\<close> returns its local pointer, which the upward loop has advanced.\<close>

definition memmove :: "nat \<Rightarrow> nat \<Rightarrow> nat \<Rightarrow> mem \<Rightarrow> (nat \<times> mem) option" where
  "memmove dst src n m =
     do {
       kassert (dst \<noteq> 0 \<or> n = 0);
       kassert (src \<noteq> 0 \<or> n = 0);
       Some (if dst < src then (dst + n, copy_up dst src n m)
             else (dst, copy_down dst src n m))
     }"

fun memcmp_loop :: "mem \<Rightarrow> nat \<Rightarrow> nat \<Rightarrow> nat \<Rightarrow> int" where
  "memcmp_loop m a b 0 = 0"
| "memcmp_loop m a b (Suc n) =
     (if m a \<noteq> m b then (if m a > m b then 1 else - 1) else memcmp_loop m (a + 1) (b + 1) n)"

definition memcmp :: "mem \<Rightarrow> nat \<Rightarrow> nat \<Rightarrow> nat \<Rightarrow> int option" where
  "memcmp m a b n =
     do {
       kassert (a \<noteq> 0 \<or> n = 0);
       kassert (b \<noteq> 0 \<or> n = 0);
       Some (memcmp_loop m a b n)
     }"

partial_function (option) strcmp_loop :: "mem \<Rightarrow> nat \<Rightarrow> nat \<Rightarrow> int option" where
  "strcmp_loop m a b =
     (if m a \<noteq> 0 \<and> m a = m b then strcmp_loop m (a + 1) (b + 1)
      else Some (if m a < m b then - 1 else if m a > m b then 1 else 0))"

definition strcmp :: "mem \<Rightarrow> nat \<Rightarrow> nat \<Rightarrow> int option" where
  "strcmp m a b = do { kassert (a \<noteq> 0); kassert (b \<noteq> 0); strcmp_loop m a b }"

fun memchr_loop :: "mem \<Rightarrow> nat \<Rightarrow> byte \<Rightarrow> nat \<Rightarrow> nat" where
  "memchr_loop m block ch 0 = 0"
| "memchr_loop m block ch (Suc n) =
     (if m block = ch then block else memchr_loop m (block + 1) ch n)"

definition memchr :: "mem \<Rightarrow> nat \<Rightarrow> byte \<Rightarrow> nat \<Rightarrow> nat option" where
  "memchr m block ch n = do { kassert (block \<noteq> 0 \<or> n = 0); Some (memchr_loop m block ch n) }"

partial_function (option) strchr_loop :: "mem \<Rightarrow> nat \<Rightarrow> byte \<Rightarrow> nat option" where
  "strchr_loop m string c =
     (if m string = c then Some string
      else if m string = 0 then Some 0
      else strchr_loop m (string + 1) c)"

definition strchr :: "mem \<Rightarrow> nat \<Rightarrow> byte \<Rightarrow> nat option" where
  "strchr m string c = do { kassert (string \<noteq> 0); strchr_loop m string c }"

partial_function (option) strcspn_loop :: "mem \<Rightarrow> nat \<Rightarrow> nat \<Rightarrow> nat \<Rightarrow> nat option" where
  "strcspn_loop m string stop len =
     (if m (string + len) \<noteq> 0
      then do {
        hit \<leftarrow> strchr m stop (m (string + len));
        if hit \<noteq> 0 then Some len else strcspn_loop m string stop (len + 1)
      }
      else Some len)"

definition strcspn :: "mem \<Rightarrow> nat \<Rightarrow> nat \<Rightarrow> nat option" where
  "strcspn m string stop = strcspn_loop m string stop 0"

partial_function (option) strpbrk :: "mem \<Rightarrow> nat \<Rightarrow> nat \<Rightarrow> nat option" where
  "strpbrk m string stop =
     (if m string \<noteq> 0
      then do {
        hit \<leftarrow> strchr m stop (m string);
        if hit \<noteq> 0 then Some string else strpbrk m (string + 1) stop
      }
      else Some 0)"

partial_function (option) strrchr_loop :: "mem \<Rightarrow> nat \<Rightarrow> byte \<Rightarrow> nat \<Rightarrow> nat option" where
  "strrchr_loop m string c p =
     (if m string \<noteq> 0 then strrchr_loop m (string + 1) c (if m string = c then string else p)
      else Some p)"

definition strrchr :: "mem \<Rightarrow> nat \<Rightarrow> byte \<Rightarrow> nat option" where
  "strrchr m string c = strrchr_loop m string c 0"

partial_function (option) strspn_loop :: "mem \<Rightarrow> nat \<Rightarrow> nat \<Rightarrow> nat \<Rightarrow> nat option" where
  "strspn_loop m string skip len =
     (if m (string + len) \<noteq> 0
      then do {
        hit \<leftarrow> strchr m skip (m (string + len));
        if hit = 0 then Some len else strspn_loop m string skip (len + 1)
      }
      else Some len)"

definition strspn :: "mem \<Rightarrow> nat \<Rightarrow> nat \<Rightarrow> nat option" where
  "strspn m string skip = strspn_loop m string skip 0"

partial_function (option) strlen_loop :: "mem \<Rightarrow> nat \<Rightarrow> nat \<Rightarrow> nat option" where
  "strlen_loop m string p = (if m p \<noteq> 0 then strlen_loop m string (p + 1) else Some (p - string))"

definition strlen :: "mem \<Rightarrow> nat \<Rightarrow> nat option" where
  "strlen m string = do { kassert (string \<noteq> 0); strlen_loop m string string }"

function strnlen_loop :: "mem \<Rightarrow> nat \<Rightarrow> nat \<Rightarrow> nat \<Rightarrow> nat" where
  "strnlen_loop m string maxlen len =
     (if m (string + len) \<noteq> 0 \<and> len < maxlen then strnlen_loop m string maxlen (len + 1) else len)"
  by pat_completeness auto
termination
  by (relation "measure (\<lambda>(m, string, maxlen, len). maxlen - len)") auto

definition strnlen :: "mem \<Rightarrow> nat \<Rightarrow> nat \<Rightarrow> nat" where
  "strnlen m string maxlen = strnlen_loop m string maxlen 0"

definition strstr :: "mem \<Rightarrow> nat \<Rightarrow> nat \<Rightarrow> nat option" where
  "strstr m haystack needle =
     do {
       haystack_len \<leftarrow> strlen m haystack;
       needle_len \<leftarrow> strlen m needle;
       if haystack_len \<ge> needle_len
       then do {
         hit \<leftarrow> msearch (\<lambda>i. map_option (\<lambda>c. c = 0) (memcmp m (haystack + i) needle needle_len))
                  [0..<Suc (haystack_len - needle_len)];
         Some (case hit of Some i \<Rightarrow> haystack + i | None \<Rightarrow> 0)
       }
       else Some 0
     }"

partial_function (option) skip_delims :: "mem \<Rightarrow> nat \<Rightarrow> nat \<Rightarrow> (nat \<times> bool) option" where
  "skip_delims m delimiters s =
     do {
       hit \<leftarrow> strchr m delimiters (m s);
       if hit \<noteq> 0
       then if m s = 0 then Some (s, False) else skip_delims m delimiters (s + 1)
       else Some (s, True)
     }"

partial_function (option) skip_token :: "mem \<Rightarrow> nat \<Rightarrow> nat \<Rightarrow> nat option" where
  "skip_token m delimiters s =
     do {
       hit \<leftarrow> strchr m delimiters (m s);
       if hit = 0 then skip_token m delimiters (s + 1) else Some s
     }"

text \<open>\<open>strtok_r (s, delimiters, &save)\<close> returns the token (0 for no token), the new value of
  \<open>save\<close> and the memory.\<close>

definition strtok_r :: "nat \<Rightarrow> nat \<Rightarrow> nat \<Rightarrow> mem \<Rightarrow> (nat \<times> nat \<times> mem) option" where
  "strtok_r s delimiters save m =
     do {
       kassert (delimiters \<noteq> 0);
       let s = (if s = 0 then save else s);
       kassert (s \<noteq> 0);
       (s, more) \<leftarrow> skip_delims m delimiters s;
       if \<not> more then Some (0, s, m)
       else do {
         e \<leftarrow> skip_token m delimiters s;
         Some (if m e \<noteq> 0 then (s, e + 1, m(e := 0)) else (s, e, m))
       }
     }"

fun fill :: "nat \<Rightarrow> byte \<Rightarrow> nat \<Rightarrow> mem \<Rightarrow> mem" where
  "fill dst v 0 m = m"
| "fill dst v (Suc n) m = fill (dst + 1) v n (m(dst := v))"

definition memset :: "nat \<Rightarrow> byte \<Rightarrow> nat \<Rightarrow> mem \<Rightarrow> (nat \<times> mem) option" where
  "memset dst v n m = do { kassert (dst \<noteq> 0 \<or> n = 0); Some (dst, fill dst v n m) }"

definition strlcpy :: "nat \<Rightarrow> nat \<Rightarrow> nat \<Rightarrow> mem \<Rightarrow> (nat \<times> mem) option" where
  "strlcpy dst src n m =
     do {
       kassert (dst \<noteq> 0);
       kassert (src \<noteq> 0);
       src_len \<leftarrow> strlen m src;
       if n > 0
       then do {
         let dst_len = (if src_len < n - 1 then src_len else n - 1);
         (_, m) \<leftarrow> memcpy dst src dst_len m;
         Some (src_len, m(dst + dst_len := 0))
       }
       else Some (src_len, m)
     }"

definition strlcat :: "nat \<Rightarrow> nat \<Rightarrow> nat \<Rightarrow> mem \<Rightarrow> (nat \<times> mem) option" where
  "strlcat dst src n m =
     do {
       kassert (dst \<noteq> 0);
       kassert (src \<noteq> 0);
       src_len \<leftarrow> strlen m src;
       dst_len \<leftarrow> strlen m dst;
       if n > 0 \<and> dst_len < n
       then do {
         let copy_cnt = (if src_len < n - dst_len - 1 then src_len else n - dst_len - 1);
         (_, m) \<leftarrow> memcpy (dst + dst_len) src copy_cnt m;
         Some (src_len + dst_len, m(dst + dst_len + copy_cnt := 0))
       }
       else Some (src_len + dst_len, m)
     }"

section \<open>Copying blocks\<close>

text \<open>\<open>copy_unit n dst src m\<close> is the reference for every copy: the bytes at \<open>src\<close>, read before
  anything is written, appear at \<open>dst\<close> and the rest of the memory is unchanged.\<close>

lemma copy_unit_0 [simp]: "copy_unit 0 dst src m = m"
  by (rule ext) (auto simp: copy_unit_def)

lemma copy_unit_Suc_up:
  "dst \<le> src \<or> src + Suc n \<le> dst \<Longrightarrow>
    copy_unit n (dst + 1) (src + 1) (m(dst := m src)) = copy_unit (Suc n) dst src m"
  by (rule ext) (auto simp: copy_unit_def Suc_diff_Suc Suc_le_eq)

lemma copy_up_eq:
  "dst \<le> src \<or> src + n \<le> dst \<Longrightarrow> copy_up dst src n m = copy_unit n dst src m"
proof (induction n arbitrary: dst src m)
  case (Suc n)
  have "copy_up (dst + 1) (src + 1) n (m(dst := m src))
      = copy_unit n (dst + 1) (src + 1) (m(dst := m src))"
    by (rule Suc.IH) (use Suc.prems in auto)
  then show ?case
    using copy_unit_Suc_up [of dst src n m] Suc.prems by (simp only: copy_up.simps)
qed simp

lemma copy_unit_Suc_down:
  "src \<le> dst \<Longrightarrow> copy_unit n dst src (m(dst + n := m (src + n))) = copy_unit (Suc n) dst src m"
  by (rule ext) (auto simp: copy_unit_def less_Suc_eq)

lemma copy_down_eq: "src \<le> dst \<Longrightarrow> copy_down dst src n m = copy_unit n dst src m"
proof (induction n arbitrary: m)
  case (Suc n)
  then show ?case by (simp add: copy_unit_Suc_down)
qed simp

lemma copy_unit_compose:
  "dst \<le> src \<or> src + a + b \<le> dst \<Longrightarrow>
    copy_unit b (dst + a) (src + a) (copy_unit a dst src m) = copy_unit (a + b) dst src m"
  by (rule ext) (auto simp: copy_unit_def)

lemma copy_units_eq:
  "0 < k \<Longrightarrow> dst \<le> src \<or> src + n \<le> dst \<Longrightarrow>
    copy_units k dst src n m =
      (dst + (n - n mod k), src + (n - n mod k), n mod k, copy_unit (n - n mod k) dst src m)"
proof (induction k dst src n m rule: copy_units.induct)
  case (1 k dst src n m)
  show ?case
  proof (cases "k \<le> n")
    case True
    let ?r = "n - n mod k"
    have mod: "(n - k) mod k = n mod k" using True by (simp add: le_mod_geq)
    have "1 \<le> n div k" using True \<open>0 < k\<close> by (simp add: Suc_le_eq div_greater_zero_iff)
    then have "k \<le> ?r" by (simp add: minus_mod_eq_mult_div)
    then have r: "n - k - n mod k = ?r - k" "k \<le> ?r" by simp_all
    have "copy_units k (dst + k) (src + k) (n - k) (copy_unit k dst src m) =
        (dst + k + (?r - k), src + k + (?r - k), n mod k,
         copy_unit (?r - k) (dst + k) (src + k) (copy_unit k dst src m))"
      using 1(1) True mod r 1(2,3) by (auto simp del: copy_units.simps)
    moreover have "copy_unit (?r - k) (dst + k) (src + k) (copy_unit k dst src m)
        = copy_unit (k + (?r - k)) dst src m"
      by (rule copy_unit_compose) (use 1(3) r in auto)
    ultimately show ?thesis using True \<open>0 < k\<close> r by (simp add: copy_units.simps [of k dst])
  next
    case False
    then show ?thesis by (simp add: copy_units.simps [of k dst])
  qed
qed

text \<open>One width of the word-wise copy, continuing a copy that has done \<open>a\<close> bytes.\<close>

lemma copy_units_continue:
  assumes "0 < k" and "dst \<le> src \<or> src + n \<le> dst" and "a + r = n"
  shows "\<exists>a'. a' + r mod k = n \<and> copy_units k (dst + a) (src + a) r (copy_unit a dst src m)
    = (dst + a', src + a', r mod k, copy_unit a' dst src m)"
proof -
  let ?q = "r - r mod k"
  have q: "?q + r mod k = r" by simp
  have "dst + a \<le> src + a \<or> src + a + r \<le> dst + a" using assms by auto
  note units = copy_units_eq [OF assms(1) this, of "copy_unit a dst src m"]
  have "copy_unit ?q (dst + a) (src + a) (copy_unit a dst src m) = copy_unit (a + ?q) dst src m"
    by (rule copy_unit_compose) (use assms(2,3) q in linarith)
  then have "copy_units k (dst + a) (src + a) r (copy_unit a dst src m)
      = (dst + (a + ?q), src + (a + ?q), r mod k, copy_unit (a + ?q) dst src m)"
    using units by (simp add: add.assoc)
  moreover have "a + ?q + r mod k = n" using assms(3) q by linarith
  ultimately show ?thesis by blast
qed

lemma atomic_gio_memcpy_eq:
  assumes ok: "dst \<le> src \<or> src + n \<le> dst"
  shows "atomic_gio_memcpy dst src n m = Some (dst, copy_unit n dst src m)"
proof -
  note step = copy_units_continue [OF _ ok]
  obtain a where a: "a + n mod 8 = n"
      "copy_units 8 dst src n m = (dst + a, src + a, n mod 8, copy_unit a dst src m)"
    using step [of 8 0 n m] by auto
  obtain b where b: "b + n mod 8 mod 4 = n" "copy_units 4 (dst + a) (src + a) (n mod 8)
      (copy_unit a dst src m) = (dst + b, src + b, n mod 8 mod 4, copy_unit b dst src m)"
    using step [of 4, OF _ a(1)] by auto
  obtain c where c: "c + n mod 8 mod 4 mod 2 = n" "copy_units 2 (dst + b) (src + b) (n mod 8 mod 4)
      (copy_unit b dst src m) = (dst + c, src + c, n mod 8 mod 4 mod 2, copy_unit c dst src m)"
    using step [of 2, OF _ b(1)] by auto
  have "copy_units 1 (dst + c) (src + c) (n mod 8 mod 4 mod 2) (copy_unit c dst src m)
      = (dst + n, src + n, 0, copy_unit n dst src m)"
    using step [of 1, OF _ c(1)] by auto
  then show ?thesis
    unfolding atomic_gio_memcpy_def a(2) Let_def split b(2) c(2) by simp
qed

lemma memcpy_eq:
  "dst \<noteq> 0 \<and> src \<noteq> 0 \<or> n = 0 \<Longrightarrow> dst \<le> src \<or> src + n \<le> dst \<Longrightarrow>
    memcpy dst src n m = Some (dst, copy_unit n dst src m)"
  by (auto simp: memcpy_def copy_up_eq)

lemma memmove_eq:
  "dst \<noteq> 0 \<and> src \<noteq> 0 \<or> n = 0 \<Longrightarrow>
    memmove dst src n m = Some (if dst < src then dst + n else dst, copy_unit n dst src m)"
  by (auto simp: memmove_def copy_up_eq copy_down_eq)

lemma fill_eq: "fill dst v n m = (\<lambda>a. if dst \<le> a \<and> a < dst + n then v else m a)"
proof (induction n arbitrary: dst m)
  case (Suc n)
  show ?case unfolding fill.simps Suc by (rule ext) auto
next
  case 0
  show ?case by (rule ext) auto
qed

section \<open>Strings\<close>

text \<open>\<open>cstr m p s\<close>: the null-terminated string at \<open>p\<close> has the bytes \<open>s\<close>.\<close>

fun cstr :: "mem \<Rightarrow> nat \<Rightarrow> byte list \<Rightarrow> bool" where
  "cstr m p [] \<longleftrightarrow> m p = 0"
| "cstr m p (c # s) \<longleftrightarrow> m p = c \<and> c \<noteq> 0 \<and> cstr m (p + 1) s"

lemma cstr_nth:
  "cstr m p s \<longleftrightarrow> (\<forall>i<length s. m (p + i) = s ! i \<and> s ! i \<noteq> 0) \<and> m (p + length s) = 0"
proof (induction s arbitrary: p)
  case (Cons c s)
  then show ?case by (auto simp: less_Suc_eq_0_disj all_conj_distrib)
qed simp

lemma cstr_append: "cstr m p (s @ t) \<longleftrightarrow> cstr m (p + length s) t \<and> (\<forall>i<length s. m (p + i) = s ! i \<and> s ! i \<noteq> 0)"
  by (induction s arbitrary: p) (auto simp: less_Suc_eq_0_disj)

lemma cstr_cong: "(\<And>i. i \<le> length s \<Longrightarrow> m' (p + i) = m (p + i)) \<Longrightarrow> cstr m' p s = cstr m p s"
  by (simp add: cstr_nth)

lemma strlen_loop_ok: "cstr m p s \<Longrightarrow> start \<le> p \<Longrightarrow> strlen_loop m start p = Some (p + length s - start)"
proof (induction s arbitrary: p)
  case Nil
  then show ?case by (simp add: strlen_loop.simps)
next
  case (Cons c s)
  then show ?case using Cons.IH [of "p + 1"] by (simp add: strlen_loop.simps [of m start p])
qed

lemma strlen_ok: "cstr m p s \<Longrightarrow> p \<noteq> 0 \<Longrightarrow> strlen m p = Some (length s)"
  by (simp add: strlen_def strlen_loop_ok)

lemma strchr_loop_ok:
  "cstr m p s \<Longrightarrow> strchr_loop m p c =
    Some (if c \<in> set s \<or> c = 0 then p + length (takeWhile (\<lambda>x. x \<noteq> c) s) else 0)"
proof (induction s arbitrary: p)
  case Nil
  then show ?case by (simp add: strchr_loop.simps)
next
  case (Cons x s)
  then show ?case using Cons.IH [of "p + 1"] by (simp add: strchr_loop.simps [of m p])
qed

lemma strchr_ok:
  "cstr m p s \<Longrightarrow> p \<noteq> 0 \<Longrightarrow> strchr m p c =
    Some (if c \<in> set s \<or> c = 0 then p + length (takeWhile (\<lambda>x. x \<noteq> c) s) else 0)"
  by (simp add: strchr_def strchr_loop_ok)

text \<open>\<open>str_order s t\<close>: the three-way result of a comparison of byte strings.\<close>

fun str_order :: "byte list \<Rightarrow> byte list \<Rightarrow> int" where
  "str_order [] [] = 0"
| "str_order [] (y # ys) = - 1"
| "str_order (x # xs) [] = 1"
| "str_order (x # xs) (y # ys) =
     (if x < y then - 1 else if x > y then 1 else str_order xs ys)"

lemma str_order_0: "str_order s t = 0 \<longleftrightarrow> s = t"
  by (induction s t rule: str_order.induct) auto

lemma str_order_neg: "str_order s t < 0 \<longleftrightarrow> ord_class.lexordp s t"
  by (induction s t rule: str_order.induct) auto

lemma strcmp_loop_ok: "cstr m a s \<Longrightarrow> cstr m b t \<Longrightarrow> strcmp_loop m a b = Some (str_order s t)"
proof (induction s t arbitrary: a b rule: str_order.induct)
  case (4 x xs y ys)
  then show ?case
    using 4(1) [of "a + 1" "b + 1"] by (auto simp: strcmp_loop.simps [of m a b])
next
  case 1
  then show ?case by (simp add: strcmp_loop.simps [of m a b])
next
  case (2 y ys)
  then show ?case by (simp add: strcmp_loop.simps [of m a b] word_gt_0)
next
  case (3 x xs)
  then show ?case by (simp add: strcmp_loop.simps [of m a b] word_gt_0)
qed

lemma strcmp_ok:
  "cstr m a s \<Longrightarrow> cstr m b t \<Longrightarrow> a \<noteq> 0 \<Longrightarrow> b \<noteq> 0 \<Longrightarrow> strcmp m a b = Some (str_order s t)"
  by (simp add: strcmp_def strcmp_loop_ok)

text \<open>\<open>strlcpy\<close> writes a terminated prefix of the source into the \<open>n\<close> bytes at \<open>dst\<close> and nothing
  else.\<close>

lemma strlcpy_ok:
  assumes src: "cstr m src s" "src \<noteq> 0" and dst: "dst \<noteq> 0" "0 < n"
    and disjoint: "dst + n \<le> src \<or> src + length s < dst"
  shows "\<exists>m'. strlcpy dst src n m = Some (length s, m') \<and> cstr m' dst (take (n - 1) s)
    \<and> (\<forall>a. a < dst \<or> dst + n \<le> a \<longrightarrow> m' a = m a)"
proof -
  define k where "k = (if length s < n - 1 then length s else n - 1)"
  let ?k = k
  let ?m = "(copy_unit ?k dst src m)(dst + ?k := 0)"
  have k: "k = min (length s) (n - 1)" by (auto simp: k_def)
  have ok: "dst \<le> src \<or> src + ?k \<le> dst" using disjoint by (auto simp: k)
  have "memcpy dst src ?k m = Some (dst, copy_unit ?k dst src m)"
    using memcpy_eq [OF _ ok] src dst by simp
  then have "strlcpy dst src n m = Some (length s, ?m)"
    using src dst
    by (cases "length s < n - 1") (simp_all add: strlcpy_def strlen_ok k_def Let_def)
  moreover have "cstr ?m dst (take (n - 1) s)"
    using src(1) by (auto simp: cstr_nth copy_unit_def k)
  moreover have "\<forall>a. a < dst \<or> dst + n \<le> a \<longrightarrow> ?m a = m a"
    using dst by (auto simp: copy_unit_def k)
  ultimately show ?thesis by blast
qed

section \<open>Tokens\<close>

lemma strchr_hit:
  "cstr m d ds \<Longrightarrow> d \<noteq> 0 \<Longrightarrow> \<exists>r. strchr m d c = Some r \<and> (r = 0 \<longleftrightarrow> c \<notin> set ds \<and> c \<noteq> 0)"
  by (simp add: strchr_ok)

lemma skip_delims_ok:
  assumes d: "cstr m d ds" "d \<noteq> 0"
  shows "cstr m p s \<Longrightarrow> skip_delims m d p =
    Some (p + length (takeWhile (\<lambda>c. c \<in> set ds) s), dropWhile (\<lambda>c. c \<in> set ds) s \<noteq> [])"
proof (induction s arbitrary: p)
  case Nil
  then show ?case using strchr_hit [OF d, of 0] by (auto simp: skip_delims.simps [of m d p])
next
  case (Cons c s)
  then show ?case
    using strchr_hit [OF d, of c] Cons.IH [of "p + 1"] by (auto simp: skip_delims.simps [of m d p])
qed

lemma skip_token_ok:
  assumes d: "cstr m d ds" "d \<noteq> 0"
  shows "cstr m p s \<Longrightarrow> skip_token m d p = Some (p + length (takeWhile (\<lambda>c. c \<notin> set ds) s))"
proof (induction s arbitrary: p)
  case Nil
  then show ?case using strchr_hit [OF d, of 0] by (auto simp: skip_token.simps [of m d p])
next
  case (Cons c s)
  then show ?case
    using strchr_hit [OF d, of c] Cons.IH [of "p + 1"] by (auto simp: skip_token.simps [of m d p])
qed

text \<open>One call: no token is left, or the token and the rest of the string are terminated
  strings of their own. The delimiter string must lie outside the string that is cut.\<close>

lemma strtok_r_none:
  assumes "cstr m d ds" "d \<noteq> 0" "cstr m p s" "p \<noteq> 0" "set s \<subseteq> set ds"
  shows "strtok_r p d save m = Some (0, p + length s, m)"
proof -
  have "takeWhile (\<lambda>c. c \<in> set ds) s = s" using assms(5) by (auto simp: takeWhile_eq_all_conv)
  moreover have "dropWhile (\<lambda>c. c \<in> set ds) s = []" using assms(5) by auto
  ultimately have "skip_delims m d p = Some (p + length s, False)"
    using skip_delims_ok [OF assms(1,2,3)] by (simp only: simp_thms)
  then show ?thesis using assms by (simp add: strtok_r_def)
qed

lemma strtok_r_token:
  assumes d: "cstr m d ds" "d \<noteq> 0" and s: "cstr m p s" "p \<noteq> 0" and more: "\<not> set s \<subseteq> set ds"
  defines "lead \<equiv> takeWhile (\<lambda>c. c \<in> set ds) s"
  defines "rest \<equiv> dropWhile (\<lambda>c. c \<in> set ds) s"
  defines "tok \<equiv> takeWhile (\<lambda>c. c \<notin> set ds) rest"
  defines "tail \<equiv> dropWhile (\<lambda>c. c \<notin> set ds) rest"
  shows "\<exists>save' m'. strtok_r p d save m = Some (p + length lead, save', m')
    \<and> tok \<noteq> [] \<and> cstr m' (p + length lead) tok \<and> cstr m' save' (drop 1 tail)
    \<and> save' = p + length lead + length tok + (if tail = [] then 0 else 1) \<and> (\<forall>a. a < p \<or> p + length s < a \<longrightarrow> m' a = m a)"
proof -
  let ?q = "p + length lead"
  let ?e = "?q + length tok"
  have split: "s = lead @ rest" "rest = tok @ tail" by (simp_all add: lead_def rest_def tok_def tail_def)
  have rest: "cstr m ?q rest" using s(1) by (simp add: split(1) cstr_append)
  have tail: "cstr m ?e tail" and tokn: "\<forall>i<length tok. m (?q + i) = tok ! i \<and> tok ! i \<noteq> 0"
    using rest by (simp_all add: split(2) cstr_append)
  have ne: "rest \<noteq> []" using more by (auto simp: rest_def)
  have "hd rest \<notin> set ds" using hd_dropWhile [of "\<lambda>c. c \<in> set ds" s] ne by (simp add: rest_def)
  then have tok: "tok \<noteq> []" using ne by (cases rest) (auto simp: tok_def)
  have steps: "skip_delims m d p = Some (?q, True)" "skip_token m d ?q = Some ?e"
    using skip_delims_ok [OF d s(1)] skip_token_ok [OF d rest] ne
    by (simp_all add: lead_def rest_def tok_def)
  show ?thesis
  proof (cases tail)
    case Nil
    then have "m ?e = 0" using tail by simp
    then have "strtok_r p d save m = Some (?q, ?e, m)"
      using d(2) s(2) steps by (simp add: strtok_r_def)
    moreover have "cstr m ?q tok" using rest Nil split(2) by simp
    ultimately show ?thesis using tok tail Nil by auto
  next
    case (Cons c t)
    then have e: "m ?e \<noteq> 0" "cstr m (?e + 1) t" using tail by auto
    then have call: "strtok_r p d save m = Some (?q, ?e + 1, m(?e := 0))"
      using d(2) s(2) steps by (simp add: strtok_r_def)
    have "cstr (m(?e := 0)) ?q tok" using tokn by (simp add: cstr_nth)
    moreover have "cstr (m(?e := 0)) (?e + 1) t" using e(2) by (subst cstr_cong [where m = m]) auto
    moreover have "?e \<le> p + length s" "p \<le> ?e" by (simp_all add: split Cons)
    ultimately show ?thesis using tok call Cons by auto
  qed
qed

section \<open>What the string library guarantees\<close>

text \<open>\<open>memmove\<close> is correct for every overlap: the destination receives the bytes the source
  had before the call, and no other byte changes. (What it returns is the end of the
  destination when it copies upwards, not the destination.)\<close>

theorem memmove_correct:
  assumes "dst \<noteq> 0 \<and> src \<noteq> 0 \<or> n = 0"
  shows "\<exists>r m'. memmove dst src n m = Some (r, m') \<and> (\<forall>i<n. m' (dst + i) = m (src + i))
    \<and> (\<forall>a. a < dst \<or> dst + n \<le> a \<longrightarrow> m' a = m a)
    \<and> r = (if dst < src then dst + n else dst)"
  using memmove_eq [OF assms, of m] by (auto simp: copy_unit_def)

theorem memmove_correct_witness:
  "\<exists>r m'. memmove 10 12 4 (\<lambda>a. of_nat a) = Some (r, m') \<and> (\<forall>i<4. m' (10 + i) = of_nat (12 + i)) \<and> r = 14"
  using memmove_correct [of 10 12 4 "\<lambda>a. of_nat a"] by auto

text \<open>(C18) The word-wise \<open>atomic_gio_memcpy\<close>, which copies 8, 4, 2 and 1 bytes at a time, computes
  the same memory and returns the same pointer as the byte-wise \<open>memcpy\<close>, whenever the copy does
  not run upwards into its own source.\<close>

theorem atomic_gio_memcpy_is_memcpy:
  assumes "dst \<noteq> 0" and "src \<noteq> 0" and "dst \<le> src \<or> src + n \<le> dst"
  shows "atomic_gio_memcpy dst src n m = memcpy dst src n m"
  using atomic_gio_memcpy_eq [OF assms(3)] memcpy_eq [of dst src n m] assms by simp

theorem atomic_gio_memcpy_is_memcpy_witness:
  "atomic_gio_memcpy 100 200 15 (\<lambda>a. of_nat a) = memcpy 100 200 15 (\<lambda>a. of_nat a)"
  by (rule atomic_gio_memcpy_is_memcpy) simp_all

text \<open>\<open>strcmp\<close> on terminated strings terminates; its result is zero exactly for equal strings
  and negative exactly when the first comes first in the lexicographic order of unsigned
  bytes.\<close>

theorem strcmp_correct:
  assumes "cstr m a s" and "cstr m b t" and "a \<noteq> 0" and "b \<noteq> 0"
  shows "\<exists>r. strcmp m a b = Some r \<and> (r = 0 \<longleftrightarrow> s = t) \<and> (r < 0 \<longleftrightarrow> ord_class.lexordp s t)"
  using strcmp_ok [OF assms] str_order_0 str_order_neg by blast

text \<open>Two strings in memory: \<open>ab\<close> at 10 and \<open>ac\<close> at 20.\<close>

definition sample_mem :: mem where
  "sample_mem = (\<lambda>_. 0)(10 := 97, 11 := 98, 20 := 97, 21 := 99)"

lemma sample_strings: "cstr sample_mem 10 [97, 98]" "cstr sample_mem 20 [97, 99]"
  by (simp_all add: sample_mem_def)

theorem strcmp_correct_witness: "\<exists>r. strcmp sample_mem 10 20 = Some r \<and> r < 0"
  using strcmp_correct [OF sample_strings] by auto

text \<open>\<open>strlcpy\<close> never writes outside the \<open>n\<close> bytes of its destination, always terminates it,
  stores the longest prefix that fits and returns the length of the whole source.\<close>

theorem strlcpy_correct:
  assumes "cstr m src s" and "src \<noteq> 0" and "dst \<noteq> 0" and "0 < n"
    and "dst + n \<le> src \<or> src + length s < dst"
  shows "\<exists>m'. strlcpy dst src n m = Some (length s, m') \<and> cstr m' dst (take (n - 1) s)
    \<and> (\<forall>a. a < dst \<or> dst + n \<le> a \<longrightarrow> m' a = m a)"
  using assms by (rule strlcpy_ok)

theorem strlcpy_correct_witness:
  "\<exists>m'. strlcpy 30 20 2 sample_mem = Some (2, m') \<and> cstr m' 30 [97]"
  using strlcpy_correct [OF sample_strings(2), of 30 2] by auto

text \<open>One call of \<open>strtok_r\<close> returns the first maximal run of non-delimiters as a terminated
  string and leaves \<open>*save_ptr\<close> at the terminated remainder, or returns null when only
  delimiters are left; it writes only inside the string it cuts.\<close>

theorem strtok_r_correct:
  assumes "cstr m d ds" "d \<noteq> 0" and "cstr m p s" "p \<noteq> 0"
  shows "\<exists>r save' m'. strtok_r p d save m = Some (r, save', m')
    \<and> (\<forall>a. a < p \<or> p + length s < a \<longrightarrow> m' a = m a)
    \<and> (if set s \<subseteq> set ds then r = 0
       else \<exists>lead tok rest. s = lead @ tok @ rest \<and> set lead \<subseteq> set ds \<and> tok \<noteq> []
         \<and> set tok \<inter> set ds = {} \<and> (rest \<noteq> [] \<longrightarrow> hd rest \<in> set ds)
         \<and> r = p + length lead \<and> cstr m' r tok \<and> cstr m' save' (drop 1 rest))"
proof (cases "set s \<subseteq> set ds")
  case True
  then show ?thesis using strtok_r_none [OF assms True, of save] by auto
next
  case False
  let ?lead = "takeWhile (\<lambda>c. c \<in> set ds) s" and ?rest = "dropWhile (\<lambda>c. c \<in> set ds) s"
  let ?tok = "takeWhile (\<lambda>c. c \<notin> set ds) ?rest" and ?tail = "dropWhile (\<lambda>c. c \<notin> set ds) ?rest"
  obtain save' m' where call: "strtok_r p d save m = Some (p + length ?lead, save', m')"
      "?tok \<noteq> []" "cstr m' (p + length ?lead) ?tok" "cstr m' save' (drop 1 ?tail)"
      "\<forall>a. a < p \<or> p + length s < a \<longrightarrow> m' a = m a"
    using strtok_r_token [OF assms False, of save] by blast
  have "s = ?lead @ ?tok @ ?tail" by simp
  moreover have "set ?lead \<subseteq> set ds" "set ?tok \<inter> set ds = {}" by (auto dest: set_takeWhileD)
  moreover have "?tail \<noteq> [] \<longrightarrow> hd ?tail \<in> set ds"
    using hd_dropWhile [of "\<lambda>c. c \<notin> set ds" ?rest] by blast
  ultimately have "\<exists>lead tok rest. s = lead @ tok @ rest \<and> set lead \<subseteq> set ds \<and> tok \<noteq> []
      \<and> set tok \<inter> set ds = {} \<and> (rest \<noteq> [] \<longrightarrow> hd rest \<in> set ds)
      \<and> p + length ?lead = p + length lead \<and> cstr m' (p + length ?lead) tok \<and> cstr m' save' (drop 1 rest)"
    using call by blast
  with call False show ?thesis by auto
qed

theorem strtok_r_correct_witness:
  "\<exists>r save' m'. strtok_r 10 30 0 (sample_mem(30 := 98)) = Some (r, save', m') \<and> r = 10"
proof -
  let ?m = "sample_mem(30 := 98)"
  have strs: "cstr ?m 30 [98]" "cstr ?m 10 [97, 98]" by (simp_all add: sample_mem_def)
  have more: "(set [97, 98 :: byte] \<subseteq> set [98]) = False" by simp
  obtain r save' m' lead tok rest
    where r: "strtok_r 10 30 0 ?m = Some (r, save', m')" "[97, 98 :: byte] = lead @ tok @ rest"
      "set lead \<subseteq> set [98]" "r = 10 + length lead"
    using strtok_r_correct [OF strs(1) _ strs(2) _, of 0, unfolded more if_False, OF zero_neq_numeral [symmetric] zero_neq_numeral [symmetric]] by blast
  have "lead = []"
  proof (rule ccontr)
    assume "lead \<noteq> []"
    then obtain x l where l: "lead = x # l" by (cases lead) auto
    with r(2) have "x = 97" by simp
    with r(3) l show False by simp
  qed
  with r show ?thesis by simp
qed

end
