(* ===== verification/Hash.thy ===== *)
theory Hash
  imports Klist Kstring
begin

unbundle bit_operations_syntax

text \<open>
  \<open>lib/kernel/hash.c\<close>: hash tables with chaining. The buckets are an array of \<open>struct list\<close>, the chains live in the
  store of theory \<open>Klist\<close>, so that moving an element between buckets is the relinking the code does.

  A \<open>struct hash_elem\<close> is the address of its list element. The hash function and the comparison of a table, with its
  \<open>aux\<close>, are functions on these addresses. An operation that may allocate gets the address \<open>malloc\<close> would return,
  0 when memory is exhausted; a destructor or action is represented by the elements it is called on, in order.
\<close>

section \<open>The functions of the source\<close>

record hash =
  elem_cnt :: nat
  bucket_cnt :: nat
  buckets :: nat

type_synonym hash_func = "nat \<Rightarrow> nat"

text \<open>\<open>&a[i]\<close> for an array of \<open>struct list\<close>: 16 bytes, the head at 0 and the tail at 8.\<close>

definition bucket_at :: "nat \<Rightarrow> nat \<Rightarrow> klist" where
  "bucket_at a i = \<lparr>l_head = a + 16 * i, l_tail = a + 16 * i + 8\<rparr>"

definition turn_off_least_1bit :: "nat \<Rightarrow> nat" where
  "turn_off_least_1bit x = x AND (x - 1)"

definition is_power_of_2 :: "nat \<Rightarrow> bool" where
  "is_power_of_2 x \<longleftrightarrow> x \<noteq> 0 \<and> turn_off_least_1bit x = 0"

definition MIN_ELEMS_PER_BUCKET :: nat where
  "MIN_ELEMS_PER_BUCKET = 1"

definition BEST_ELEMS_PER_BUCKET :: nat where
  "BEST_ELEMS_PER_BUCKET = 2"

definition MAX_ELEMS_PER_BUCKET :: nat where
  "MAX_ELEMS_PER_BUCKET = 4"

definition bucket_idx :: "hash_func \<Rightarrow> hash \<Rightarrow> nat \<Rightarrow> nat" where
  "bucket_idx hf h e = u32 (hf e) AND (bucket_cnt h - 1)"

definition find_bucket :: "hash_func \<Rightarrow> hash \<Rightarrow> nat \<Rightarrow> klist" where
  "find_bucket hf h e = bucket_at (buckets h) (bucket_idx hf h e)"

partial_function (option) find_elem_loop :: "less_func \<Rightarrow> klist \<Rightarrow> nat \<Rightarrow> store \<Rightarrow> nat \<Rightarrow> nat option" where
  "find_elem_loop lt bucket e s i =
     (if i = list_end bucket then Some 0
      else if \<not> lt i e \<and> \<not> lt e i then Some i
      else do { i' \<leftarrow> list_next s i; find_elem_loop lt bucket e s i' })"

definition find_elem :: "less_func \<Rightarrow> klist \<Rightarrow> nat \<Rightarrow> store \<Rightarrow> nat option" where
  "find_elem lt bucket e s = find_elem_loop lt bucket e s (list_begin s bucket)"

definition insert_elem :: "klist \<Rightarrow> nat \<Rightarrow> hash \<Rightarrow> store \<Rightarrow> (hash \<times> store) option" where
  "insert_elem bucket e h s = do { s \<leftarrow> list_push_front bucket e s; Some (h\<lparr>elem_cnt := u32 (elem_cnt h + 1)\<rparr>, s) }"

definition remove_elem :: "nat \<Rightarrow> hash \<Rightarrow> store \<Rightarrow> (hash \<times> store) option" where
  "remove_elem e h s = do { (_, s) \<leftarrow> list_remove e s; Some (h\<lparr>elem_cnt := u32 (elem_cnt h + 2 ^ 32 - 1)\<rparr>, s) }"

partial_function (option) ideal_loop :: "nat \<Rightarrow> nat option" where
  "ideal_loop n = (if is_power_of_2 n then Some n else ideal_loop (turn_off_least_1bit n))"

text \<open>The inner loop of \<open>rehash\<close>: the elements of one old bucket, from \<open>elem\<close> on.\<close>

partial_function (option) move_loop :: "hash_func \<Rightarrow> hash \<Rightarrow> klist \<Rightarrow> nat \<Rightarrow> store \<Rightarrow> store option" where
  "move_loop hf h old_bucket elem s =
     (if elem = list_end old_bucket then Some s
      else do {
        let new_bucket = find_bucket hf h elem;
        nxt \<leftarrow> list_next s elem;
        (_, s) \<leftarrow> list_remove elem s;
        s \<leftarrow> list_push_front new_bucket elem s;
        move_loop hf h old_bucket nxt s
      })"

definition rehash :: "hash_func \<Rightarrow> nat \<Rightarrow> hash \<Rightarrow> store \<Rightarrow> (hash \<times> store) option" where
  "rehash hf blk h s =
     do {
       let n = elem_cnt h div BEST_ELEMS_PER_BUCKET;
       new_bucket_cnt \<leftarrow> ideal_loop (if n < 4 then 4 else n);
       if new_bucket_cnt = bucket_cnt h \<or> blk = 0 then Some (h, s)
       else do {
         let s = fold (\<lambda>i. list_init (bucket_at blk i)) [0..<new_bucket_cnt] s;
         let h' = h\<lparr>buckets := blk, bucket_cnt := new_bucket_cnt\<rparr>;
         s \<leftarrow> mfold (\<lambda>i s. let old_bucket = bucket_at (buckets h) i
                in move_loop hf h' old_bucket (list_begin s old_bucket) s) [0..<bucket_cnt h] s;
         Some (h', s)
       }
     }"

partial_function (option) drain :: "klist \<Rightarrow> nat list \<Rightarrow> store \<Rightarrow> (nat list \<times> store) option" where
  "drain bucket acts s =
     (if list_empty s bucket then Some (acts, s)
      else do { (e, s) \<leftarrow> list_pop_front bucket s; drain bucket (acts @ [e]) s })"

definition hash_clear :: "bool \<Rightarrow> hash \<Rightarrow> store \<Rightarrow> (nat list \<times> hash \<times> store) option" where
  "hash_clear destructor h s =
     do {
       (acts, s) \<leftarrow> mfold (\<lambda>i (acts, s). do {
           let bucket = bucket_at (buckets h) i;
           (acts, s) \<leftarrow> (if destructor then drain bucket acts s else Some (acts, s));
           Some (acts, list_init bucket s)
         }) [0..<bucket_cnt h] ([], s);
       Some (acts, h\<lparr>elem_cnt := 0\<rparr>, s)
     }"

definition hash_init :: "nat \<Rightarrow> store \<Rightarrow> (bool \<times> hash \<times> store) option" where
  "hash_init blk s =
     do {
       let h = \<lparr>elem_cnt = 0, bucket_cnt = 4, buckets = blk\<rparr>;
       if buckets h \<noteq> 0 then do { (_, h, s) \<leftarrow> hash_clear False h s; Some (True, h, s) }
       else Some (False, h, s)
     }"

definition hash_destroy :: "bool \<Rightarrow> hash \<Rightarrow> store \<Rightarrow> (nat list \<times> hash \<times> store) option" where
  "hash_destroy destructor h s = (if destructor then hash_clear True h s else Some ([], h, s))"

definition hash_insert :: "hash_func \<Rightarrow> less_func \<Rightarrow> nat \<Rightarrow> nat \<Rightarrow> hash \<Rightarrow> store \<Rightarrow> (nat \<times> hash \<times> store) option" where
  "hash_insert hf lt blk e h s =
     do {
       let bucket = find_bucket hf h e;
       old \<leftarrow> find_elem lt bucket e s;
       (h, s) \<leftarrow> (if old = 0 then insert_elem bucket e h s else Some (h, s));
       (h, s) \<leftarrow> rehash hf blk h s;
       Some (old, h, s)
     }"

definition hash_replace :: "hash_func \<Rightarrow> less_func \<Rightarrow> nat \<Rightarrow> nat \<Rightarrow> hash \<Rightarrow> store \<Rightarrow> (nat \<times> hash \<times> store) option" where
  "hash_replace hf lt blk e h s =
     do {
       let bucket = find_bucket hf h e;
       old \<leftarrow> find_elem lt bucket e s;
       (h, s) \<leftarrow> (if old \<noteq> 0 then remove_elem old h s else Some (h, s));
       (h, s) \<leftarrow> insert_elem bucket e h s;
       (h, s) \<leftarrow> rehash hf blk h s;
       Some (old, h, s)
     }"

definition hash_find :: "hash_func \<Rightarrow> less_func \<Rightarrow> nat \<Rightarrow> hash \<Rightarrow> store \<Rightarrow> nat option" where
  "hash_find hf lt e h s = find_elem lt (find_bucket hf h e) e s"

definition hash_delete :: "hash_func \<Rightarrow> less_func \<Rightarrow> nat \<Rightarrow> nat \<Rightarrow> hash \<Rightarrow> store \<Rightarrow> (nat \<times> hash \<times> store) option" where
  "hash_delete hf lt blk e h s =
     do {
       found \<leftarrow> find_elem lt (find_bucket hf h e) e s;
       if found \<noteq> 0
       then do { (h, s) \<leftarrow> remove_elem found h s; (h, s) \<leftarrow> rehash hf blk h s; Some (found, h, s) }
       else Some (found, h, s)
     }"

partial_function (option) apply_loop :: "klist \<Rightarrow> nat list \<Rightarrow> store \<Rightarrow> nat \<Rightarrow> nat list option" where
  "apply_loop bucket acts s elem =
     (if elem = list_end bucket then Some acts
      else do { nxt \<leftarrow> list_next s elem; apply_loop bucket (acts @ [elem]) s nxt })"

definition hash_apply :: "hash \<Rightarrow> store \<Rightarrow> nat list option" where
  "hash_apply h s =
     mfold (\<lambda>i acts. let bucket = bucket_at (buckets h) i in apply_loop bucket acts s (list_begin s bucket)) [0..<bucket_cnt h] []"

text \<open>An iterator holds the address of its bucket and of its element, 0 behind the last one.\<close>

record hash_iterator =
  it_bucket :: nat
  it_elem :: nat

definition hash_first :: "hash \<Rightarrow> hash_iterator" where
  "hash_first h = \<lparr>it_bucket = buckets h, it_elem = l_head (bucket_at (buckets h) 0)\<rparr>"

partial_function (option) next_loop :: "hash \<Rightarrow> store \<Rightarrow> hash_iterator \<Rightarrow> hash_iterator option" where
  "next_loop h s i =
     (if it_elem i = list_end (bucket_at (it_bucket i) 0)
      then let i = i\<lparr>it_bucket := it_bucket i + 16\<rparr>
           in if buckets h + 16 * bucket_cnt h \<le> it_bucket i then Some (i\<lparr>it_elem := 0\<rparr>)
              else next_loop h s (i\<lparr>it_elem := list_begin s (bucket_at (it_bucket i) 0)\<rparr>)
      else Some i)"

definition hash_next :: "hash \<Rightarrow> store \<Rightarrow> hash_iterator \<Rightarrow> (nat \<times> hash_iterator) option" where
  "hash_next h s i =
     do {
       e \<leftarrow> list_next s (it_elem i);
       i \<leftarrow> next_loop h s (i\<lparr>it_elem := e\<rparr>);
       Some (it_elem i, i)
     }"

definition hash_cur :: "hash_iterator \<Rightarrow> nat" where
  "hash_cur i = it_elem i"

definition hash_size :: "hash \<Rightarrow> nat" where
  "hash_size h = elem_cnt h"

definition hash_empty :: "hash \<Rightarrow> bool" where
  "hash_empty h \<longleftrightarrow> elem_cnt h = 0"

definition FNV_32_PRIME :: "32 word" where
  "FNV_32_PRIME = 16777619"

definition FNV_32_BASIS :: "32 word" where
  "FNV_32_BASIS = 2166136261"

definition fnv_step :: "byte \<Rightarrow> 32 word \<Rightarrow> 32 word" where
  "fnv_step b hash = (hash * FNV_32_PRIME) XOR ucast b"

definition hash_bytes :: "byte list \<Rightarrow> 32 word" where
  "hash_bytes buf = fold fnv_step buf FNV_32_BASIS"

partial_function (option) hash_string_loop :: "mem \<Rightarrow> nat \<Rightarrow> 32 word \<Rightarrow> (32 word) option" where
  "hash_string_loop m s hash = (if m s \<noteq> 0 then hash_string_loop m (s + 1) (fnv_step (m s) hash) else Some hash)"

definition hash_string :: "mem \<Rightarrow> nat \<Rightarrow> (32 word) option" where
  "hash_string m s = hash_string_loop m s FNV_32_BASIS"

text \<open>The bytes of an \<open>int\<close>, the low one first.\<close>

definition hash_int :: "int \<Rightarrow> 32 word" where
  "hash_int i = hash_bytes (map (\<lambda>k. word_of_int (i div 2 ^ (8 * k))) [0..<4])"

section \<open>Sizes of the table\<close>

lemma and_le: "(x AND y :: nat) \<le> y"
  using AND_upper2 [of "int y" "int x"] by (simp flip: of_nat_and_eq)

lemma and_double: "(2 * y) AND (2 * z + 1) = 2 * (y AND z)" for y z :: nat
  by (subst and_rec) simp

lemma and_odd: "(2 * y + 1) AND (2 * y) = 2 * y" for y :: nat
  by (subst and_rec) simp

lemma turn_off_le: "turn_off_least_1bit x \<le> x - 1"
  by (simp add: turn_off_least_1bit_def and_le)

lemma power_of_2_and: "x \<noteq> 0 \<Longrightarrow> x AND (x - 1) = 0 \<Longrightarrow> \<exists>k. x = 2 ^ k" for x :: nat
proof (induction x rule: less_induct)
  case (less x)
  show ?case
  proof (cases "even x")
    case True
    then obtain y where y: "x = 2 * y" by blast
    then have "x - 1 = 2 * (y - 1) + 1" using less.prems by simp
    then have "y AND (y - 1) = 0" using less.prems(2) and_double [of y "y - 1"] unfolding y by simp
    then obtain k where "y = 2 ^ k" using less.IH [of y] less.prems(1) y by auto
    then show ?thesis using y by (intro exI [of _ "Suc k"]) simp
  next
    case False
    then obtain y where y: "x = 2 * y + 1" by (auto elim: oddE)
    then have "y = 0" using less.prems(2) and_odd [of y] by simp
    then show ?thesis using y by (intro exI [of _ 0]) simp
  qed
qed

lemma is_power_of_2D: "is_power_of_2 x \<Longrightarrow> \<exists>k. x = 2 ^ k"
  using power_of_2_and [of x] by (simp add: is_power_of_2_def turn_off_least_1bit_def)

text \<open>Turning off a lower bit leaves the highest one.\<close>

lemma turn_off_high:
  assumes "2 ^ k \<le> n" "n < 2 * 2 ^ k" "n \<noteq> 2 ^ k"
  shows "2 ^ k \<le> turn_off_least_1bit n"
proof -
  have "n div 2 ^ k = 1" using assms(1,2) by (simp add: div_nat_eqI)
  moreover have "(n - 1) div 2 ^ k = 1" using assms by (simp add: div_nat_eqI)
  ultimately have "drop_bit k (turn_off_least_1bit n) = 1" unfolding turn_off_least_1bit_def drop_bit_and by (simp only: drop_bit_eq_div and.idem)
  then show ?thesis by (metis div_less drop_bit_eq_div not_le zero_neq_one)
qed

lemma is_power_of_2_power: "is_power_of_2 (2 ^ k)"
proof -
  have "(2 ^ k AND mask k :: nat) = 0" by (rule bit_eqI) (simp add: bit_simps)
  then show ?thesis by (simp add: is_power_of_2_def turn_off_least_1bit_def mask_eq_exp_minus_1)
qed

lemma ideal_loop_ok: "2 ^ k \<le> n \<Longrightarrow> n < 2 * 2 ^ k \<Longrightarrow> ideal_loop n = Some (2 ^ k)"
proof (induction n rule: less_induct)
  case (less n)
  show ?case
  proof (cases "is_power_of_2 n")
    case True
    then obtain j where j: "n = 2 ^ j" using is_power_of_2D by blast
    have "k \<le> j" by (rule power_le_imp_le_exp [of 2]) (use less.prems j in auto)
    moreover have "j < Suc k" by (rule power_less_imp_less_exp [of 2]) (use less.prems j in auto)
    ultimately have "j = k" by simp
    then show ?thesis using True j by (subst ideal_loop.simps) simp
  next
    case False
    then have "n \<noteq> 2 ^ k" using is_power_of_2_power by blast
    note high = turn_off_high [OF less.prems this]
    have "0 < n" using less.prems(1) by (metis gr0I le_zero_eq power_not_zero zero_neq_numeral)
    then have "turn_off_least_1bit n < n" using turn_off_le [of n] by simp
    then show ?thesis using less.IH [of "turn_off_least_1bit n"] high less.prems(2) False by (subst ideal_loop.simps) simp
  qed
qed

lemma ideal_cnt_ok:
  "\<exists>k. ideal_loop (if n < 4 then 4 else n) = Some (2 ^ k) \<and> 4 \<le> (2 ^ k :: nat) \<and> 2 ^ k \<le> max 4 n \<and> n < 2 * 2 ^ k"
proof -
  have m: "(if n < 4 then 4 else n) = max 4 n" by auto
  have "1 \<le> max 4 n" by simp
  then obtain k where k: "2 ^ k \<le> max 4 n" "max 4 n < 2 ^ (k + 1)" using ex_power_ivl1 [OF order_refl] by blast
  have "2 < Suc k" by (rule power_less_imp_less_exp [of "2 :: nat"]) (use k(2) in auto)
  then have "(2 :: nat) ^ 2 \<le> 2 ^ k" by (intro power_increasing) auto
  then show ?thesis using ideal_loop_ok [of k "max 4 n"] k unfolding m by auto
qed

section \<open>Families of lists\<close>

text \<open>The lists \<open>L i\<close> for \<open>i\<close> in \<open>I\<close> share no element; \<open>X i\<close> are the elements of list \<open>i\<close>.\<close>

definition family :: "store \<Rightarrow> 'i set \<Rightarrow> ('i \<Rightarrow> klist) \<Rightarrow> ('i \<Rightarrow> nat list) \<Rightarrow> bool" where
  "family s I L X \<longleftrightarrow> (\<forall>i\<in>I. dll s (L i) (X i)) \<and> (\<forall>i\<in>I. \<forall>j\<in>I. i \<noteq> j \<longrightarrow> nodes (L i) (X i) \<inter> nodes (L j) (X j) = {})"

lemma familyD:
  assumes "family s I L X"
  shows "i \<in> I \<Longrightarrow> dll s (L i) (X i)" "i \<in> I \<Longrightarrow> j \<in> I \<Longrightarrow> i \<noteq> j \<Longrightarrow> nodes (L i) (X i) \<inter> nodes (L j) (X j) = {}"
  using assms unfolding family_def by blast+

lemma dll_frame: "dll s L xs \<Longrightarrow> same_outside A s s' \<Longrightarrow> A \<inter> nodes L xs = {} \<Longrightarrow> dll s' L xs"
  unfolding dll_def by (subst same_outside_ring) auto

lemma family_update:
  assumes f: "family s I L X" and i: "i \<in> I" and d: "dll s' (L i) ys" and out: "same_outside (insert e (nodes (L i) (X i))) s s'"
    and ys: "set ys \<subseteq> insert e (set (X i))" and e: "\<And>j. j \<in> I \<Longrightarrow> j \<noteq> i \<Longrightarrow> e \<notin> nodes (L j) (X j)"
  shows "family s' I L (X(i := ys))"
  unfolding family_def
proof (intro conjI ballI impI)
  have sub: "nodes (L i) ys \<subseteq> insert e (nodes (L i) (X i))" using ys by auto
  have dis: "insert e (nodes (L i) (X i)) \<inter> nodes (L j) (X j) = {}" if "j \<in> I" "j \<noteq> i" for j
    using e [OF that] familyD(2) [OF f i that(1)] that(2) by blast
  show "dll s' (L j) ((X(i := ys)) j)" if "j \<in> I" for j
    using d dll_frame [OF familyD(1) [OF f that] out] dis [OF that] by (cases "j = i") auto
  show "nodes (L j) ((X(i := ys)) j) \<inter> nodes (L k) ((X(i := ys)) k) = {}" if "j \<in> I" "k \<in> I" "j \<noteq> k" for j k
  proof -
    consider "j = i" | "k = i" | "j \<noteq> i" "k \<noteq> i" by blast
    then show ?thesis
    proof cases
      case 1
      then show ?thesis using sub dis [of k] that by fastforce
    next
      case 2
      then show ?thesis using sub dis [of j] that by fastforce
    next
      case 3
      then show ?thesis using familyD(2) [OF f that] by simp
    qed
  qed
qed

lemma family_push:
  assumes f: "family s I L X" and i: "i \<in> I" and e: "e \<noteq> 0" "\<And>j. j \<in> I \<Longrightarrow> e \<notin> nodes (L j) (X j)"
  shows "\<exists>s'. list_push_front (L i) e s = Some s' \<and> family s' I L (X(i := e # X i))"
proof -
  obtain s' where s': "list_push_front (L i) e s = Some s'" "dll s' (L i) (e # X i)" "same_outside (insert e (nodes (L i) (X i))) s s'"
    using dll_push_front [OF familyD(1) [OF f i]] e i by blast
  have "family s' I L (X(i := e # X i))" by (rule family_update [OF f i s'(2,3)]) (use e in auto)
  then show ?thesis using s'(1) by blast
qed

lemma family_remove:
  assumes f: "family s I L X" and i: "i \<in> I" and x: "X i = xs @ e # ys"
  shows "\<exists>s'. list_remove e s = Some (hd (ys @ [l_tail (L i)]), s') \<and> family s' I L (X(i := xs @ ys))"
proof -
  obtain s' where s': "list_remove e s = Some (hd (ys @ [l_tail (L i)]), s')" "dll s' (L i) (xs @ ys)" "same_outside (nodes (L i) (xs @ ys)) s s'"
    using dll_remove [of s "L i" xs e ys] familyD(1) [OF f i] x by auto
  have "family s' I L (X(i := xs @ ys))"
  proof (rule family_update [OF f i s'(2)])
    show "same_outside (insert e (nodes (L i) (X i))) s s'" by (rule same_outside_mono [OF s'(3)]) (use x in auto)
    show "set (xs @ ys) \<subseteq> insert e (set (X i))" using x by auto
    show "e \<notin> nodes (L j) (X j)" if "j \<in> I" "j \<noteq> i" for j using familyD(2) [OF f i that(1)] that(2) x by auto
  qed
  then show ?thesis using s'(1) by blast
qed

lemma family_mono: "family s I L X \<Longrightarrow> J \<subseteq> I \<Longrightarrow> family s J L X"
  unfolding family_def by blast

lemma family_reindex:
  assumes f: "family s (f ` J) L X" and inj: "inj_on f J"
  shows "family s J (L \<circ> f) (X \<circ> f)"
  unfolding family_def [of s J]
proof (intro conjI ballI impI)
  show "dll s ((L \<circ> f) i) ((X \<circ> f) i)" if "i \<in> J" for i using familyD(1) [OF f] that by simp
  show "nodes ((L \<circ> f) i) ((X \<circ> f) i) \<inter> nodes ((L \<circ> f) j) ((X \<circ> f) j) = {}" if "i \<in> J" "j \<in> J" "i \<noteq> j" for i j
    using familyD(2) [OF f, of "f i" "f j"] that inj_onD [OF inj, of i j] unfolding comp_apply by blast
qed

section \<open>Well-formed tables\<close>

definition same_key :: "less_func \<Rightarrow> nat \<Rightarrow> nat \<Rightarrow> bool" where
  "same_key lt x y \<longleftrightarrow> \<not> lt x y \<and> \<not> lt y x"

text \<open>What \<open>hash.h\<close> asks of the functions of a table: equality of keys is an equivalence the hash respects.\<close>

definition hash_keys :: "hash_func \<Rightarrow> less_func \<Rightarrow> bool" where
  "hash_keys hf lt \<longleftrightarrow> (\<forall>x. \<not> lt x x) \<and> (\<forall>x y z. same_key lt x y \<longrightarrow> same_key lt y z \<longrightarrow> same_key lt x z)
     \<and> (\<forall>x y. same_key lt x y \<longrightarrow> hf x = hf y)"

text \<open>\<open>X i\<close> are the elements of bucket \<open>i\<close>.\<close>

definition table :: "hash_func \<Rightarrow> hash \<Rightarrow> store \<Rightarrow> (nat \<Rightarrow> nat list) \<Rightarrow> bool" where
  "table hf h s X \<longleftrightarrow> family s {..<bucket_cnt h} (bucket_at (buckets h)) X \<and> is_power_of_2 (bucket_cnt h)
     \<and> (\<forall>i<bucket_cnt h. \<forall>x\<in>set (X i). bucket_idx hf h x = i)"

definition members :: "nat \<Rightarrow> (nat \<Rightarrow> nat list) \<Rightarrow> nat set" where
  "members n X = (\<Union>i<n. set (X i))"

definition array :: "nat \<Rightarrow> nat \<Rightarrow> nat set" where
  "array a n = {a..<a + 16 * n}"

lemma bucket_idx_less: "0 < bucket_cnt h \<Longrightarrow> bucket_idx hf h e < bucket_cnt h"
  using and_le [of "u32 (hf e)" "bucket_cnt h - 1"] by (simp add: bucket_idx_def)

lemma bucket_idx_cnt [simp]: "bucket_idx hf (h\<lparr>elem_cnt := n\<rparr>) = bucket_idx hf h"
  by (simp add: fun_eq_iff bucket_idx_def)

lemma tableD:
  assumes "table hf h s X"
  shows "family s {..<bucket_cnt h} (bucket_at (buckets h)) X" "0 < bucket_cnt h" "bucket_idx hf h e < bucket_cnt h"
    "i < bucket_cnt h \<Longrightarrow> x \<in> set (X i) \<Longrightarrow> bucket_idx hf h x = i"
proof -
  show "0 < bucket_cnt h" using assms by (simp add: table_def is_power_of_2_def)
  then show "bucket_idx hf h e < bucket_cnt h" by (rule bucket_idx_less)
qed (use assms in \<open>auto simp: table_def\<close>)

lemma tableI:
  "family s {..<bucket_cnt h} (bucket_at (buckets h)) X \<Longrightarrow> is_power_of_2 (bucket_cnt h) \<Longrightarrow>
    (\<And>i x. i < bucket_cnt h \<Longrightarrow> x \<in> set (X i) \<Longrightarrow> bucket_idx hf h x = i) \<Longrightarrow> table hf h s X"
  by (simp add: table_def)

lemma table_power: "table hf h s X \<Longrightarrow> is_power_of_2 (bucket_cnt h)"
  by (simp add: table_def)

lemma bucket_nodes: "i < n \<Longrightarrow> nodes (bucket_at a i) xs \<subseteq> array a n \<union> set xs"
  by (auto simp: bucket_at_def array_def)

lemma dll_nonzero: "dll s L xs \<Longrightarrow> 0 \<notin> nodes L xs"
  by (auto simp: dll_def ring_def)

lemma members_nonzero: "table hf h s X \<Longrightarrow> 0 \<notin> members (bucket_cnt h) X"
  using familyD(1) [OF tableD(1)] dll_nonzero by (fastforce simp: members_def)

lemma member_bucket: "table hf h s X \<Longrightarrow> x \<in> members (bucket_cnt h) X \<Longrightarrow> x \<in> set (X (bucket_idx hf h x))"
  using tableD(4) by (fastforce simp: members_def)

lemma finite_members [simp]: "finite (members n X)"
  by (simp add: members_def)

section \<open>Searching\<close>

lemma find_elem_loop_ok:
  "dll s L (xs @ ys) \<Longrightarrow> find_elem_loop lt L e s (hd (ys @ [l_tail L])) =
    Some (case List.find (\<lambda>x. same_key lt x e) ys of Some x \<Rightarrow> x | None \<Rightarrow> 0)"
proof (induction ys arbitrary: xs)
  case Nil
  then show ?case by (simp add: find_elem_loop.simps list_end_def)
next
  case (Cons y ys)
  then show ?case
    using dll_step [OF Cons.prems] Cons.IH [of "xs @ [y]"] by (simp add: find_elem_loop.simps [of lt L e s y] same_key_def)
qed

lemma find_elem_ok:
  "dll s L xs \<Longrightarrow> find_elem lt L e s = Some (case List.find (\<lambda>x. same_key lt x e) xs of Some x \<Rightarrow> x | None \<Rightarrow> 0)"
  using find_elem_loop_ok [of s L "[]" xs lt e] by (simp add: find_elem_def dll_begin)

lemma find_in_table:
  assumes t: "table hf h s X" and k: "hash_keys hf lt"
  shows "\<exists>r. find_elem lt (find_bucket hf h e) e s = Some r
    \<and> (if r = 0 then \<forall>x\<in>members (bucket_cnt h) X. \<not> same_key lt x e else r \<in> members (bucket_cnt h) X \<and> same_key lt r e)"
proof -
  let ?b = "bucket_idx hf h e"
  have b: "?b < bucket_cnt h" using tableD(3) [OF t] .
  have sub: "set (X ?b) \<subseteq> members (bucket_cnt h) X" using b by (auto simp: members_def)
  have idx: "bucket_idx hf h x = ?b" if "same_key lt x e" for x using k that by (simp add: hash_keys_def bucket_idx_def)
  have f: "find_elem lt (find_bucket hf h e) e s = Some (case List.find (\<lambda>x. same_key lt x e) (X ?b) of Some x \<Rightarrow> x | None \<Rightarrow> 0)"
    unfolding find_bucket_def by (rule find_elem_ok [OF familyD(1) [OF tableD(1) [OF t]]]) (use b in simp)
  show ?thesis
  proof (cases "List.find (\<lambda>x. same_key lt x e) (X ?b)")
    case None
    have "\<not> same_key lt x e" if x: "x \<in> members (bucket_cnt h) X" for x
    proof
      assume "same_key lt x e"
      then have "x \<in> set (X ?b)" using member_bucket [OF t x] idx by simp
      then show False using None \<open>same_key lt x e\<close> by (auto simp: find_None_iff)
    qed
    then show ?thesis using f None by simp
  next
    case (Some x)
    then have "x \<in> members (bucket_cnt h) X" "same_key lt x e" using sub by (auto simp: find_Some_iff)
    then show ?thesis using f Some members_nonzero [OF t] by auto
  qed
qed

section \<open>Inserting and removing\<close>

lemma members_upd: "i < n \<Longrightarrow> members n (X(i := ys)) = (\<Union>j\<in>{..<n} - {i}. set (X j)) \<union> set ys"
  by (auto simp: members_def split: if_splits)

lemma members_split: "i < n \<Longrightarrow> members n X = (\<Union>j\<in>{..<n} - {i}. set (X j)) \<union> set (X i)"
  using members_upd [of i n X "X i"] by simp

lemma insert_elem_ok:
  assumes t: "table hf h s X" and e: "e \<noteq> 0" "e \<notin> members (bucket_cnt h) X" "e \<notin> array (buckets h) (bucket_cnt h)"
  shows "\<exists>s' X'. insert_elem (find_bucket hf h e) e h s = Some (h\<lparr>elem_cnt := u32 (elem_cnt h + 1)\<rparr>, s')
    \<and> table hf (h\<lparr>elem_cnt := u32 (elem_cnt h + 1)\<rparr>) s' X' \<and> members (bucket_cnt h) X' = insert e (members (bucket_cnt h) X)"
proof -
  let ?b = "bucket_idx hf h e" and ?h = "h\<lparr>elem_cnt := u32 (elem_cnt h + 1)\<rparr>"
  have b: "?b \<in> {..<bucket_cnt h}" using tableD(3) [OF t] by simp
  have out: "e \<notin> nodes (bucket_at (buckets h) j) (X j)" if "j \<in> {..<bucket_cnt h}" for j
    using bucket_nodes [of j "bucket_cnt h" "buckets h" "X j"] that e(2,3) by (auto simp: members_def)
  obtain s' where s': "list_push_front (bucket_at (buckets h) ?b) e s = Some s'"
      "family s' {..<bucket_cnt h} (bucket_at (buckets h)) (X(?b := e # X ?b))"
    using family_push [OF tableD(1) [OF t] b e(1) out] by blast
  have "table hf ?h s' (X(?b := e # X ?b))" using t s'(2) by (auto simp: table_def)
  moreover have "members (bucket_cnt h) (X(?b := e # X ?b)) = insert e (members (bucket_cnt h) X)"
    using b members_split [of ?b "bucket_cnt h" X] by (simp add: members_upd)
  ultimately show ?thesis using s'(1) by (auto simp: insert_elem_def find_bucket_def)
qed

lemma remove_elem_ok:
  assumes t: "table hf h s X" and e: "e \<in> members (bucket_cnt h) X"
  shows "\<exists>s' X'. remove_elem e h s = Some (h\<lparr>elem_cnt := u32 (elem_cnt h + 2 ^ 32 - 1)\<rparr>, s')
    \<and> table hf (h\<lparr>elem_cnt := u32 (elem_cnt h + 2 ^ 32 - 1)\<rparr>) s' X' \<and> members (bucket_cnt h) X' = members (bucket_cnt h) X - {e}"
proof -
  let ?b = "bucket_idx hf h e" and ?h = "h\<lparr>elem_cnt := u32 (elem_cnt h + 2 ^ 32 - 1)\<rparr>"
  have b: "?b \<in> {..<bucket_cnt h}" using tableD(3) [OF t] by simp
  obtain xs ys where X: "X ?b = xs @ e # ys" using member_bucket [OF t e] by (auto simp: in_set_conv_decomp)
  obtain s' y where s': "list_remove e s = Some (y, s')" "family s' {..<bucket_cnt h} (bucket_at (buckets h)) (X(?b := xs @ ys))"
    using family_remove [OF tableD(1) [OF t] b X] by blast
  have "distinct (X ?b)" using dll_distinct [OF familyD(1) [OF tableD(1) [OF t] b]] by simp
  then have e': "e \<notin> set (xs @ ys)" using X by simp
  have other: "e \<notin> set (X j)" if "j < bucket_cnt h" "j \<noteq> ?b" for j using tableD(4) [OF t that(1)] that(2) by blast
  have M: "members (bucket_cnt h) (X(?b := xs @ ys)) = members (bucket_cnt h) X - {e}"
  proof -
    have "e \<notin> (\<Union>j\<in>{..<bucket_cnt h} - {?b}. set (X j))" using other by blast
    moreover have "set (X ?b) - {e} = set (xs @ ys)" using X e' by auto
    ultimately show ?thesis using b members_split [of ?b "bucket_cnt h" X] members_upd [of ?b "bucket_cnt h" X "xs @ ys"] by auto
  qed
  have T: "table hf ?h s' (X(?b := xs @ ys))"
  proof -
    have "set (xs @ ys) \<subseteq> set (X ?b)" using X by auto
    then have sub: "set ((X(?b := xs @ ys)) i) \<subseteq> set (X i)" for i by simp
    have idx: "bucket_idx hf ?h x = i" if "i < bucket_cnt ?h" "x \<in> set ((X(?b := xs @ ys)) i)" for i x
      unfolding bucket_idx_cnt using tableD(4) [OF t, of i x] sub that by auto
    show ?thesis by (rule tableI [OF _ _ idx]) (use s'(2) table_power [OF t] in simp_all)
  qed
  have "remove_elem e h s = Some (?h, s')" using s'(1) by (simp add: remove_elem_def)
  then show ?thesis using M T by blast
qed

section \<open>Changing the number of buckets\<close>

lemma list_init_outside: "same_outside {l_head L, l_tail L} s (list_init L s)"
  by (simp add: same_outside_def list_init_def)

lemma init_array:
  assumes "blk \<noteq> 0"
  shows "same_outside (array blk n) s (fold (\<lambda>i. list_init (bucket_at blk i)) [0..<n] s)
    \<and> family (fold (\<lambda>i. list_init (bucket_at blk i)) [0..<n] s) {..<n} (bucket_at blk) (\<lambda>_. [])"
proof (induction n)
  case 0
  show ?case by (simp add: family_def)
next
  case (Suc n)
  let ?s = "fold (\<lambda>i. list_init (bucket_at blk i)) [0..<n] s"
  let ?s' = "list_init (bucket_at blk n) ?s"
  have out: "same_outside {blk + 16 * n, blk + 16 * n + 8} ?s ?s'" using list_init_outside [of "bucket_at blk n" ?s] by (simp add: bucket_at_def)
  have "same_outside (array blk n \<union> {blk + 16 * n, blk + 16 * n + 8}) s ?s'" using same_outside_trans out Suc by blast
  then have o': "same_outside (array blk (Suc n)) s ?s'" by (rule same_outside_mono) (auto simp: array_def)
  have last: "dll ?s' (bucket_at blk n) []" using assms by (intro list_init_dll) (simp_all add: bucket_at_def)
  have old: "dll ?s' (bucket_at blk i) []" if "i < n" for i
    by (rule dll_frame [OF familyD(1) [OF Suc [THEN conjunct2]] out]) (use that in \<open>auto simp: bucket_at_def\<close>)
  have "family ?s' {..<Suc n} (bucket_at blk) (\<lambda>_. [])"
    unfolding family_def
  proof (intro conjI ballI impI)
    show "dll ?s' (bucket_at blk i) []" if "i \<in> {..<Suc n}" for i using last old that by (cases "i = n") auto
    show "nodes (bucket_at blk i) [] \<inter> nodes (bucket_at blk j) [] = {}" if "i \<noteq> j" for i j
      using that by (auto simp: bucket_at_def)
  qed
  then show ?case using o' by simp
qed

text \<open>While elements move, the new buckets (\<open>Inl\<close>) and the old ones (\<open>Inr\<close>) are one family.\<close>

definition both :: "nat \<Rightarrow> nat \<Rightarrow> nat + nat \<Rightarrow> klist" where
  "both blk old = case_sum (bucket_at blk) (bucket_at old)"

lemma move_loop_ok:
  assumes h: "buckets h = blk" "bucket_cnt h = n" "0 < n" and j: "j < m"
  shows "family s (Inl ` {..<n} \<union> Inr ` {..<m}) (both blk old) X \<Longrightarrow> X (Inr j) = ys \<Longrightarrow>
    (\<forall>i<n. \<forall>x\<in>set (X (Inl i)). bucket_idx hf h x = i) \<Longrightarrow>
    \<exists>s' X'. move_loop hf h (bucket_at old j) (hd (ys @ [l_tail (bucket_at old j)])) s = Some s'
      \<and> family s' (Inl ` {..<n} \<union> Inr ` {..<m}) (both blk old) X' \<and> (\<forall>k. X' (Inr k) = (if k = j then [] else X (Inr k)))
      \<and> members n (X' \<circ> Inl) = members n (X \<circ> Inl) \<union> set ys \<and> (\<forall>i<n. \<forall>x\<in>set (X' (Inl i)). bucket_idx hf h x = i)"
proof (induction ys arbitrary: s X)
  case Nil
  then show ?case by (intro exI [of _ s] exI [of _ X]) (simp add: move_loop.simps list_end_def)
next
  case (Cons y ys)
  let ?I = "Inl ` {..<n} \<union> Inr ` {..<m}" and ?L = "both blk old"
  have jI: "Inr j \<in> ?I" using j by simp
  have d: "dll s (bucket_at old j) ([] @ y # ys)" using familyD(1) [OF Cons.prems(1) jI] Cons.prems(2) by (simp add: both_def)
  note st = dll_step [OF d]
  define b where "b = bucket_idx hf h y"
  have b: "b < n" unfolding b_def using bucket_idx_less [of h hf y] h by simp
  then have bI: "Inl b \<in> ?I" by simp
  obtain s1 where s1: "list_remove y s = Some (hd (ys @ [l_tail (bucket_at old j)]), s1)" "family s1 ?I ?L (X(Inr j := ys))"
    using family_remove [OF Cons.prems(1) jI, of "[]" y ys] Cons.prems(2) by (auto simp: both_def)
  have out: "y \<notin> nodes (?L k) ((X(Inr j := ys)) k)" if "k \<in> ?I" for k
  proof (cases "k = Inr j")
    case True
    then show ?thesis using dll_distinct [OF d] by (auto simp: both_def)
  next
    case False
    then show ?thesis using familyD(2) [OF Cons.prems(1) that jI] Cons.prems(2) by auto
  qed
  have eq: "(X(Inr j := ys)) (Inl b) = X (Inl b)" by simp
  obtain s2 where s2: "list_push_front (?L (Inl b)) y s1 = Some s2" "family s2 ?I ?L (X(Inr j := ys, Inl b := y # X (Inl b)))"
    using family_push [OF s1(2) bI _ out, unfolded eq] st by blast
  let ?X = "X(Inr j := ys, Inl b := y # X (Inl b))"
  have yj: "?X (Inr j) = ys" by simp
  have idx: "\<forall>i<n. \<forall>x\<in>set (?X (Inl i)). bucket_idx hf h x = i" using Cons.prems(3) b_def by auto
  obtain s' X' where s': "move_loop hf h (bucket_at old j) (hd (ys @ [l_tail (bucket_at old j)])) s2 = Some s'"
      "family s' ?I ?L X'" "\<forall>k. X' (Inr k) = (if k = j then [] else ?X (Inr k))"
      "members n (X' \<circ> Inl) = members n (?X \<circ> Inl) \<union> set ys" "\<forall>i<n. \<forall>x\<in>set (X' (Inl i)). bucket_idx hf h x = i"
    using Cons.IH [OF s2(2) yj idx] by blast
  have "?X \<circ> Inl = (X \<circ> Inl)(b := y # X (Inl b))" by (simp add: fun_eq_iff)
  then have M1: "members n (?X \<circ> Inl) = insert y (members n (X \<circ> Inl))"
    using b members_split [of b n "X \<circ> Inl"] by (simp add: members_upd)
  have M2: "members n (X' \<circ> Inl) = members n (X \<circ> Inl) \<union> set (y # ys)" unfolding s'(4) M1 by simp
  have K: "\<forall>k. X' (Inr k) = (if k = j then [] else X (Inr k))" using s'(3) by simp
  have "move_loop hf h (bucket_at old j) (hd ((y # ys) @ [l_tail (bucket_at old j)])) s = Some s'"
    using st s1(1) s2(1) h s'(1) by (simp add: move_loop.simps [of hf h "bucket_at old j" y] find_bucket_def both_def flip: b_def)
  then show ?case using s'(2,5) M2 K by blast
qed

lemma move_all:
  assumes h: "buckets h = blk" "bucket_cnt h = n" "0 < n" and f: "family s (Inl ` {..<n} \<union> Inr ` {..<m}) (both blk old) (case_sum (\<lambda>_. []) X)"
  shows "\<exists>s' X'. mfold (\<lambda>i s. let old_bucket = bucket_at old i in move_loop hf h old_bucket (list_begin s old_bucket) s) [0..<m] s = Some s'
    \<and> family s' {..<n} (bucket_at blk) X' \<and> members n X' = members m X \<and> (\<forall>i<n. \<forall>x\<in>set (X' i). bucket_idx hf h x = i)"
proof -
  let ?I = "Inl ` {..<n} \<union> Inr ` {..<m}"
  let ?Inv = "\<lambda>js s. \<exists>Y. family s ?I (both blk old) Y \<and> (\<forall>k. Y (Inr k) = (if k < length js then [] else X k))
    \<and> members n (Y \<circ> Inl) = members (length js) X \<and> (\<forall>i<n. \<forall>x\<in>set (Y (Inl i)). bucket_idx hf h x = i)"
  have "\<exists>s'. mfold (\<lambda>i s. let old_bucket = bucket_at old i in move_loop hf h old_bucket (list_begin s old_bucket) s) [0..<m] s = Some s'
      \<and> ?Inv [0..<m] s'"
  proof (rule mfold_invariant)
    show "?Inv [] s" using f by (intro exI [of _ "case_sum (\<lambda>_. []) X"]) (auto simp: members_def)
  next
    fix js j ks t assume split: "[0..<m] = js @ j # ks" and "?Inv js t"
    then obtain Y where Y: "family t ?I (both blk old) Y" "\<forall>k. Y (Inr k) = (if k < length js then [] else X k)"
        "members n (Y \<circ> Inl) = members (length js) X" "\<forall>i<n. \<forall>x\<in>set (Y (Inl i)). bucket_idx hf h x = i" by blast
    have j: "j = length js" "j < m" using upt_split [OF split] by auto
    have Yj: "Y (Inr j) = X j" using Y(2) j by simp
    have "dll t (bucket_at old j) (X j)" using familyD(1) [OF Y(1), of "Inr j"] j Yj by (simp add: both_def)
    then have bg: "list_begin t (bucket_at old j) = hd (X j @ [l_tail (bucket_at old j)])" by (rule dll_begin)
    obtain s' X' where s': "move_loop hf h (bucket_at old j) (hd (X j @ [l_tail (bucket_at old j)])) t = Some s'"
        "family s' ?I (both blk old) X'" "\<forall>k. X' (Inr k) = (if k = j then [] else Y (Inr k))"
        "members n (X' \<circ> Inl) = members n (Y \<circ> Inl) \<union> set (X j)" "\<forall>i<n. \<forall>x\<in>set (X' (Inl i)). bucket_idx hf h x = i"
      using move_loop_ok [OF h j(2) Y(1) Yj Y(4)] by blast
    have "members n (X' \<circ> Inl) = members (length (js @ [j])) X" using s'(4) Y(3) j by (auto simp: members_def less_Suc_eq)
    moreover have "\<forall>k. X' (Inr k) = (if k < length (js @ [j]) then [] else X k)" using s'(3) Y(2) j by auto
    ultimately show "\<exists>t'. (let old_bucket = bucket_at old j in move_loop hf h old_bucket (list_begin t old_bucket) t) = Some t' \<and> ?Inv (js @ [j]) t'"
      using s'(1,2,5) bg by (auto simp: Let_def)
  qed
  then obtain s' Y where Y: "mfold (\<lambda>i s. let old_bucket = bucket_at old i in move_loop hf h old_bucket (list_begin s old_bucket) s) [0..<m] s = Some s'"
      "family s' ?I (both blk old) Y" "members n (Y \<circ> Inl) = members m X" "\<forall>i<n. \<forall>x\<in>set (Y (Inl i)). bucket_idx hf h x = i" by auto
  have "family s' {..<n} (both blk old \<circ> Inl) (Y \<circ> Inl)"
    by (rule family_reindex [OF family_mono [OF Y(2)]]) (auto simp: inj_on_def)
  moreover have "both blk old \<circ> Inl = bucket_at blk" by (simp add: fun_eq_iff both_def)
  ultimately show ?thesis using Y by (intro exI [of _ s'] exI [of _ "Y \<circ> Inl"]) simp
qed

lemma family_sum:
  assumes a: "family s A K X" and b: "family s B M Y" and dis: "\<And>i j. i \<in> A \<Longrightarrow> j \<in> B \<Longrightarrow> nodes (K i) (X i) \<inter> nodes (M j) (Y j) = {}"
  shows "family s (Inl ` A \<union> Inr ` B) (case_sum K M) (case_sum X Y)"
  unfolding family_def
proof (intro conjI ballI impI)
  show "dll s (case_sum K M k) (case_sum X Y k)" if "k \<in> Inl ` A \<union> Inr ` B" for k
    using that familyD(1) [OF a] familyD(1) [OF b] by (cases k) auto
  show "nodes (case_sum K M k) (case_sum X Y k) \<inter> nodes (case_sum K M l) (case_sum X Y l) = {}"
    if "k \<in> Inl ` A \<union> Inr ` B" "l \<in> Inl ` A \<union> Inr ` B" "k \<noteq> l" for k l
  proof (cases k; cases l)
    fix i j assume kl: "k = Inl i" "l = Inl j"
    then have ij: "i \<in> A" "j \<in> A" "i \<noteq> j" using that by auto
    show ?thesis using familyD(2) [OF a ij] kl by (simp only: sum.case)
  next
    fix i j assume kl: "k = Inl i" "l = Inr j"
    then have ij: "i \<in> A" "j \<in> B" using that by auto
    show ?thesis using dis [OF ij] kl by (simp only: sum.case)
  next
    fix i j assume kl: "k = Inr i" "l = Inl j"
    then have ij: "j \<in> A" "i \<in> B" using that by auto
    show ?thesis using dis [OF ij] kl by (simp only: sum.case Int_commute)
  next
    fix i j assume kl: "k = Inr i" "l = Inr j"
    then have ij: "i \<in> B" "j \<in> B" "i \<noteq> j" using that by auto
    show ?thesis using familyD(2) [OF b ij] kl by (simp only: sum.case)
  qed
qed

text \<open>What \<open>malloc\<close> may return for a table of \<open>n\<close> elements: nothing, or a block apart from the table and its elements.\<close>

definition room :: "nat \<Rightarrow> nat \<Rightarrow> nat set \<Rightarrow> hash \<Rightarrow> bool" where
  "room blk n S h \<longleftrightarrow> blk = 0 \<or> array blk (max 4 (n div 2)) \<inter> (S \<union> array (buckets h) (bucket_cnt h)) = {}"

lemma rehash_ok:
  assumes t: "table hf h s X" and r: "room blk (elem_cnt h) (members (bucket_cnt h) X) h"
  shows "\<exists>h' s' X'. rehash hf blk h s = Some (h', s') \<and> table hf h' s' X' \<and> members (bucket_cnt h') X' = members (bucket_cnt h) X
    \<and> elem_cnt h' = elem_cnt h"
proof -
  obtain k where k: "ideal_loop (if elem_cnt h div 2 < 4 then 4 else elem_cnt h div 2) = Some (2 ^ k)" "4 \<le> (2 ^ k :: nat)" "2 ^ k \<le> max 4 (elem_cnt h div 2)"
    using ideal_cnt_ok [of "elem_cnt h div 2"] by auto
  define n :: nat where "n = 2 ^ k"
  show ?thesis
  proof (cases "n = bucket_cnt h \<or> blk = 0")
    case True
    then have "rehash hf blk h s = Some (h, s)" using k(1) by (simp add: rehash_def BEST_ELEMS_PER_BUCKET_def Let_def flip: n_def)
    then show ?thesis using t by blast
  next
    case False
    let ?h = "h\<lparr>buckets := blk, bucket_cnt := n\<rparr>" and ?s = "fold (\<lambda>i. list_init (bucket_at blk i)) [0..<n] s"
    let ?S = "members (bucket_cnt h) X \<union> array (buckets h) (bucket_cnt h)"
    have apart: "array blk n \<inter> ?S = {}"
    proof -
      have "array blk n \<subseteq> array blk (max 4 (elem_cnt h div 2))" using k(3) by (auto simp: array_def n_def)
      then show ?thesis using r False by (auto simp: room_def)
    qed
    have sub: "nodes (bucket_at (buckets h) j) (X j) \<subseteq> ?S" if "j < bucket_cnt h" for j
      using bucket_nodes [OF that] that by (fastforce simp: members_def)
    have init: "same_outside (array blk n) s ?s" "family ?s {..<n} (bucket_at blk) (\<lambda>_. [])" using init_array [of blk n s] False by auto
    have old: "family ?s {..<bucket_cnt h} (bucket_at (buckets h)) X"
      unfolding family_def
    proof (intro conjI ballI impI)
      show "dll ?s (bucket_at (buckets h) j) (X j)" if "j \<in> {..<bucket_cnt h}" for j
        using dll_frame [OF familyD(1) [OF tableD(1) [OF t] that] init(1)] sub [of j] apart that by blast
    qed (rule familyD(2) [OF tableD(1) [OF t]])
    have f: "family ?s (Inl ` {..<n} \<union> Inr ` {..<bucket_cnt h}) (both blk (buckets h)) (case_sum (\<lambda>_. []) X)"
      unfolding both_def
    proof (rule family_sum [OF init(2) old])
      show "nodes (bucket_at blk i) [] \<inter> nodes (bucket_at (buckets h) j) (X j) = {}" if "i \<in> {..<n}" "j \<in> {..<bucket_cnt h}" for i j
        using bucket_nodes [of i n blk "[]"] sub [of j] apart that by fastforce
    qed
    obtain s' X' where s': "mfold (\<lambda>i s. let old_bucket = bucket_at (buckets h) i in move_loop hf ?h old_bucket (list_begin s old_bucket) s)
          [0..<bucket_cnt h] ?s = Some s'" "family s' {..<n} (bucket_at blk) X'" "members n X' = members (bucket_cnt h) X"
        "\<forall>i<n. \<forall>x\<in>set (X' i). bucket_idx hf ?h x = i"
      using move_all [OF _ _ _ f, of ?h hf] by (auto simp: n_def)
    have "table hf ?h s' X'" by (rule tableI) (use s' is_power_of_2_power in \<open>auto simp: n_def\<close>)
    moreover have "rehash hf blk h s = Some (?h, s')"
      using False k(1) s'(1) by (simp add: rehash_def BEST_ELEMS_PER_BUCKET_def Let_def flip: n_def)
    ultimately show ?thesis using s'(3) by (intro exI [of _ ?h] exI [of _ s'] exI [of _ X']) simp
  qed
qed

section \<open>The table as a set of elements\<close>

text \<open>A table with the elements \<open>S\<close>, no two of them with the same key.\<close>

definition hash_table :: "hash_func \<Rightarrow> less_func \<Rightarrow> hash \<Rightarrow> store \<Rightarrow> nat set \<Rightarrow> bool" where
  "hash_table hf lt h s S \<longleftrightarrow> (\<exists>X. table hf h s X \<and> S = members (bucket_cnt h) X) \<and> elem_cnt h = card S
     \<and> (\<forall>x\<in>S. \<forall>y\<in>S. same_key lt x y \<longrightarrow> x = y)"

lemma hash_keysD:
  assumes "hash_keys hf lt"
  shows "same_key lt x x" "same_key lt x y \<Longrightarrow> same_key lt y x" "same_key lt x y \<Longrightarrow> same_key lt y z \<Longrightarrow> same_key lt x z"
  using assms unfolding hash_keys_def same_key_def by blast+

lemma hash_find_ok:
  assumes "hash_keys hf lt" "hash_table hf lt h s S"
  shows "\<exists>r. hash_find hf lt e h s = Some r \<and> (if r = 0 then \<forall>x\<in>S. \<not> same_key lt x e else r \<in> S \<and> same_key lt r e)"
  using find_in_table [OF _ assms(1)] assms(2) unfolding hash_table_def hash_find_def by blast

lemma rehash_table:
  assumes t: "hash_table hf lt h s S" and r: "room blk (card S) S h"
  shows "\<exists>h' s'. rehash hf blk h s = Some (h', s') \<and> hash_table hf lt h' s' S"
proof -
  obtain X where X: "table hf h s X" "S = members (bucket_cnt h) X" using t by (auto simp: hash_table_def)
  then show ?thesis using rehash_ok [OF X(1)] t r by (fastforce simp: hash_table_def)
qed

lemma insert_elem_table:
  assumes t: "hash_table hf lt h s S" and e: "e \<noteq> 0" "e \<notin> S" "e \<notin> array (buckets h) (bucket_cnt h)"
    and new: "\<forall>x\<in>S. \<not> same_key lt x e" and c: "Suc (card S) < 2 ^ 32"
  shows "\<exists>s'. insert_elem (find_bucket hf h e) e h s = Some (h\<lparr>elem_cnt := Suc (card S)\<rparr>, s')
    \<and> hash_table hf lt (h\<lparr>elem_cnt := Suc (card S)\<rparr>) s' (insert e S)"
proof -
  obtain X where X: "table hf h s X" "S = members (bucket_cnt h) X" "elem_cnt h = card S" "\<forall>x\<in>S. \<forall>y\<in>S. same_key lt x y \<longrightarrow> x = y"
    using t by (auto simp: hash_table_def)
  have u: "u32 (elem_cnt h + 1) = Suc (card S)" using X(3) c by simp
  have "e \<notin> members (bucket_cnt h) X" using e(2) X(2) by simp
  from insert_elem_ok [OF X(1) e(1) this e(3), unfolded u] obtain s' X' where s': "insert_elem (find_bucket hf h e) e h s = Some (h\<lparr>elem_cnt := Suc (card S)\<rparr>, s')"
      "table hf (h\<lparr>elem_cnt := Suc (card S)\<rparr>) s' X'" "members (bucket_cnt h) X' = insert e S"
    unfolding X(2) by blast
  have "\<forall>x\<in>insert e S. \<forall>y\<in>insert e S. same_key lt x y \<longrightarrow> x = y" using X(4) new by (auto simp: same_key_def)
  moreover have "card (insert e S) = Suc (card S)" using e(2) X(2) by simp
  ultimately show ?thesis using s' by (auto simp: hash_table_def)
qed

lemma remove_elem_table:
  assumes t: "hash_table hf lt h s S" and e: "e \<in> S" and c: "card S < 2 ^ 32"
  shows "\<exists>s'. remove_elem e h s = Some (h\<lparr>elem_cnt := card (S - {e})\<rparr>, s') \<and> hash_table hf lt (h\<lparr>elem_cnt := card (S - {e})\<rparr>) s' (S - {e})"
proof -
  obtain X where X: "table hf h s X" "S = members (bucket_cnt h) X" "elem_cnt h = card S" "\<forall>x\<in>S. \<forall>y\<in>S. same_key lt x y \<longrightarrow> x = y"
    using t by (auto simp: hash_table_def)
  have "0 < card S" using e X(2) by (auto simp: card_gt_0_iff)
  then have "u32 (elem_cnt h + 2 ^ 32 - 1) = card (S - {e})" using X(2,3) c e by (simp add: u32_def card_Diff_singleton le_mod_geq)
  then obtain s' X' where s': "remove_elem e h s = Some (h\<lparr>elem_cnt := card (S - {e})\<rparr>, s')"
      "table hf (h\<lparr>elem_cnt := card (S - {e})\<rparr>) s' X'" "members (bucket_cnt h) X' = S - {e}"
    using remove_elem_ok [OF X(1), of e] e X(2) by auto
  then show ?thesis using X(4) by (auto simp: hash_table_def)
qed

section \<open>Clearing, applying and iterating\<close>

lemma clear_step_False:
  "mfold (\<lambda>i (acts, s). do {
      let bucket = bucket_at a i;
      (acts, s) \<leftarrow> (if False then drain bucket acts s else Some (acts, s));
      Some (acts, list_init bucket s) }) is (acts, s) = Some (acts, fold (\<lambda>i. list_init (bucket_at a i)) is s)"
  by (induction "is" arbitrary: s) (simp_all add: Let_def)

lemma hash_init_ok:
  assumes "blk \<noteq> 0"
  shows "\<exists>h s'. hash_init blk s = Some (True, h, s') \<and> hash_table hf lt h s' {} \<and> buckets h = blk \<and> bucket_cnt h = 4"
proof -
  let ?h = "\<lparr>elem_cnt = 0, bucket_cnt = 4, buckets = blk\<rparr>" and ?s = "fold (\<lambda>i. list_init (bucket_at blk i)) [0..<4] s"
  have "hash_init blk s = Some (True, ?h, ?s)"
    using assms clear_step_False [of blk "[0..<4]" "[]" s] by (simp add: hash_init_def hash_clear_def Let_def)
  moreover have "table hf ?h ?s (\<lambda>_. [])"
    using init_array [OF assms, of 4 s] is_power_of_2_power [of 2] by (intro tableI) auto
  then have "hash_table hf lt ?h ?s {}" by (auto simp: hash_table_def members_def)
  ultimately show ?thesis by (intro exI [of _ ?h] exI [of _ ?s]) simp
qed

lemma drain_ok:
  "dll s L xs \<Longrightarrow> \<exists>s'. drain L acts s = Some (acts @ xs, s') \<and> dll s' L [] \<and> same_outside (nodes L xs) s s'"
proof (induction xs arbitrary: s acts)
  case Nil
  then show ?case using dll_empty [OF Nil] by (subst drain.simps) simp
next
  case (Cons x xs)
  obtain s1 where s1: "list_pop_front L s = Some (x, s1)" "dll s1 L xs" "same_outside (nodes L xs) s s1" using dll_pop_front [OF Cons.prems] by blast
  obtain s' where s': "drain L (acts @ [x]) s1 = Some ((acts @ [x]) @ xs, s')" "dll s' L []" "same_outside (nodes L xs) s1 s'"
    using Cons.IH [OF s1(2)] by blast
  have "same_outside (nodes L (x # xs)) s s'" using same_outside_mono [OF same_outside_trans [OF s1(3) s'(3)]] by auto
  then show ?case using dll_empty [OF Cons.prems] s1(1) s'(1,2) by (subst drain.simps) simp
qed

lemma set_flat: "set (concat (map X [0..<n])) = members n X"
  by (auto simp: members_def)

lemma flat_distinct:
  assumes f: "family s {..<n} L X"
  shows "k \<le> n \<Longrightarrow> distinct (concat (map X [0..<k]))"
proof (induction k)
  case (Suc k)
  have "set (X j) \<inter> set (X k) = {}" if "j < k" for j using familyD(2) [OF f, of j k] that Suc.prems by auto
  then have "members k X \<inter> set (X k) = {}" by (auto simp: members_def)
  moreover have "distinct (X k)" using dll_distinct [OF familyD(1) [OF f, of k]] Suc.prems by simp
  ultimately show ?case using Suc by (simp only: upt_Suc_append map_append concat_append distinct_append set_flat) (simp add: Suc_le_eq)
qed simp

lemma list_init_again:
  assumes "dll s L xs"
  shows "dll (list_init L s) L []"
  using dll_nonzero [OF assms] dll_distinct [OF assms] by (intro list_init_dll) auto

lemma hash_clear_ok:
  assumes t: "hash_table hf lt h s S"
  shows "\<exists>acts s'. hash_clear True h s = Some (acts, h\<lparr>elem_cnt := 0\<rparr>, s') \<and> hash_table hf lt (h\<lparr>elem_cnt := 0\<rparr>) s' {}
    \<and> distinct acts \<and> set acts = S"
proof -
  obtain X where X: "table hf h s X" "S = members (bucket_cnt h) X" using t by (auto simp: hash_table_def)
  let ?n = "bucket_cnt h" and ?L = "bucket_at (buckets h)"
  let ?f = "\<lambda>i (acts, s). do { let bucket = ?L i; (acts, s) \<leftarrow> (if True then drain bucket acts s else Some (acts, s)); Some (acts, list_init bucket s) }"
  let ?Inv = "\<lambda>js (acts, s). acts = concat (map X [0..<length js]) \<and> family s {..<?n} ?L (\<lambda>i. if i < length js then [] else X i)"
  have "\<exists>r. mfold ?f [0..<?n] ([], s) = Some r \<and> ?Inv [0..<?n] r"
  proof (rule mfold_invariant)
    show "?Inv [] ([], s)" using tableD(1) [OF X(1)] by simp
  next
    fix js j ks r assume split: "[0..<?n] = js @ j # ks" and "?Inv js r"
    then obtain t where r: "r = (concat (map X [0..<length js]), t)" and f: "family t {..<?n} ?L (\<lambda>i. if i < length js then [] else X i)" by (cases r) auto
    have j: "j = length js" "j \<in> {..<?n}" using upt_split [OF split] by auto
    have d: "dll t (?L j) (X j)" using familyD(1) [OF f j(2)] j(1) by simp
    obtain t1 where t1: "drain (?L j) (concat (map X [0..<length js])) t = Some (concat (map X [0..<length js]) @ X j, t1)" "dll t1 (?L j) []"
        "same_outside (nodes (?L j) (X j)) t t1" using drain_ok [OF d] by blast
    have out: "same_outside (insert (l_head (?L j)) (nodes (?L j) (X j))) t (list_init (?L j) t1)"
      by (rule same_outside_mono [OF same_outside_trans [OF t1(3) list_init_outside]]) auto
    have "family (list_init (?L j) t1) {..<?n} ?L ((\<lambda>i. if i < length js then [] else X i)(j := []))"
    proof (rule family_update [OF f j(2) list_init_again [OF t1(2)]])
      show "same_outside (insert (l_head (?L j)) (nodes (?L j) (if j < length js then [] else X j))) t (list_init (?L j) t1)" using out j(1) by simp
      show "l_head (?L j) \<notin> nodes (?L i) (if i < length js then [] else X i)" if "i \<in> {..<?n}" "i \<noteq> j" for i
        using familyD(2) [OF f j(2) that(1)] that(2) by auto
    qed simp
    moreover have "(\<lambda>i. if i < length js then [] else X i)(j := []) = (\<lambda>i. if i < length (js @ [j]) then [] else X i)" using j(1) by (auto simp: fun_eq_iff)
    ultimately show "\<exists>r'. ?f j r = Some r' \<and> ?Inv (js @ [j]) r'" using t1(1) j(1) unfolding r by auto
  qed
  then obtain s' where s': "mfold ?f [0..<?n] ([], s) = Some (concat (map X [0..<?n]), s')" "family s' {..<?n} ?L (\<lambda>i. if i < ?n then [] else X i)"
    by auto
  have "table hf (h\<lparr>elem_cnt := 0\<rparr>) s' (\<lambda>i. if i < ?n then [] else X i)" by (rule tableI) (use s'(2) table_power [OF X(1)] in auto)
  moreover have "members ?n (\<lambda>i. if i < ?n then [] else X i) = {}" by (auto simp: members_def)
  ultimately have "hash_table hf lt (h\<lparr>elem_cnt := 0\<rparr>) s' {}" by (auto simp: hash_table_def)
  moreover have "hash_clear True h s = Some (concat (map X [0..<?n]), h\<lparr>elem_cnt := 0\<rparr>, s')" using s'(1) by (simp add: hash_clear_def)
  ultimately show ?thesis using flat_distinct [OF tableD(1) [OF X(1)] order_refl] X(2) set_flat by blast
qed

lemma apply_loop_ok:
  "dll s L (xs @ ys) \<Longrightarrow> apply_loop L acts s (hd (ys @ [l_tail L])) = Some (acts @ ys)"
proof (induction ys arbitrary: xs acts)
  case Nil
  then show ?case by (simp add: apply_loop.simps list_end_def)
next
  case (Cons y ys)
  then show ?case using dll_step [OF Cons.prems] Cons.IH [of "xs @ [y]"] by (simp add: apply_loop.simps [of L acts s y])
qed

lemma hash_apply_ok:
  assumes t: "hash_table hf lt h s S"
  shows "\<exists>acts. hash_apply h s = Some acts \<and> distinct acts \<and> set acts = S"
proof -
  obtain X where X: "table hf h s X" "S = members (bucket_cnt h) X" using t by (auto simp: hash_table_def)
  have step: "apply_loop (bucket_at (buckets h) i) acts s (list_begin s (bucket_at (buckets h) i)) = Some (acts @ X i)" if "i < bucket_cnt h" for i acts
    using apply_loop_ok [of s _ "[]" "X i"] familyD(1) [OF tableD(1) [OF X(1)], of i] that by (simp add: dll_begin)
  have A: "mfold (\<lambda>i acts. let bucket = bucket_at (buckets h) i in apply_loop bucket acts s (list_begin s bucket)) is acts = Some (acts @ concat (map X is))"
    if "set is \<subseteq> {..<bucket_cnt h}" for "is" acts using that by (induction "is" arbitrary: acts) (simp_all add: step Let_def)
  have "set [0..<bucket_cnt h] \<subseteq> {..<bucket_cnt h}" by auto
  from A [OF this, of "[]"] have "hash_apply h s = Some (concat (map X [0..<bucket_cnt h]))" by (simp add: hash_apply_def)
  then show ?thesis using flat_distinct [OF tableD(1) [OF X(1)] order_refl] X(2) set_flat by blast
qed

text \<open>The iterator stands before the elements \<open>R\<close>.\<close>

definition at_rest :: "hash \<Rightarrow> (nat \<Rightarrow> nat list) \<Rightarrow> hash_iterator \<Rightarrow> nat list \<Rightarrow> bool" where
  "at_rest h X i R \<longleftrightarrow> (\<exists>b xs ys. b < bucket_cnt h \<and> X b = xs @ ys \<and> it_bucket i = buckets h + 16 * b
     \<and> it_elem i = last (l_head (bucket_at (buckets h) b) # xs) \<and> R = ys @ concat (map X [Suc b..<bucket_cnt h]))"

lemma bucket_at_offset: "bucket_at (a + 16 * b) 0 = bucket_at a b"
  by (simp add: bucket_at_def)

lemma next_loop_ok:
  assumes t: "table hf h s X"
  shows "b < bucket_cnt h \<Longrightarrow> X b = xs @ ys \<Longrightarrow> R = ys @ concat (map X [Suc b..<bucket_cnt h]) \<Longrightarrow>
    \<exists>i. next_loop h s \<lparr>it_bucket = buckets h + 16 * b, it_elem = hd (ys @ [l_tail (bucket_at (buckets h) b)])\<rparr> = Some i
      \<and> (if R = [] then it_elem i = 0 else it_elem i = hd R \<and> at_rest h X i (tl R))"
proof (induction "bucket_cnt h - b" arbitrary: b xs ys rule: less_induct)
  case less
  have d: "dll s (bucket_at (buckets h) b) (X b)" using familyD(1) [OF tableD(1) [OF t]] less.prems(1) by simp
  show ?case
  proof (cases ys)
    case (Cons y ys')
    have "y \<noteq> list_end (bucket_at (buckets h) b)" using dll_step [of s _ xs y ys'] d less.prems(2) Cons by simp
    then have "next_loop h s \<lparr>it_bucket = buckets h + 16 * b, it_elem = y\<rparr> = Some \<lparr>it_bucket = buckets h + 16 * b, it_elem = y\<rparr>"
      by (subst next_loop.simps) (simp add: bucket_at_offset)
    moreover have "at_rest h X \<lparr>it_bucket = buckets h + 16 * b, it_elem = y\<rparr> (ys' @ concat (map X [Suc b..<bucket_cnt h]))"
      unfolding at_rest_def using less.prems(1,2) Cons by (intro exI [of _ b] exI [of _ "xs @ [y]"] exI [of _ ys']) simp
    ultimately show ?thesis using less.prems(3) Cons by simp
  next
    case Nil
    let ?i = "\<lparr>it_bucket = buckets h + 16 * Suc b, it_elem = list_begin s (bucket_at (buckets h) (Suc b))\<rparr>"
    have step: "next_loop h s \<lparr>it_bucket = buckets h + 16 * b, it_elem = l_tail (bucket_at (buckets h) b)\<rparr> =
        (if bucket_cnt h \<le> Suc b then Some \<lparr>it_bucket = buckets h + 16 * Suc b, it_elem = 0\<rparr> else next_loop h s ?i)"
      by (subst next_loop.simps) (simp add: bucket_at_def list_end_def Let_def ac_simps)
    show ?thesis
    proof (cases "bucket_cnt h \<le> Suc b")
      case True
      then show ?thesis using step Nil less.prems(3) by simp
    next
      case False
      then have b: "Suc b < bucket_cnt h" by simp
      have "list_begin s (bucket_at (buckets h) (Suc b)) = hd (X (Suc b) @ [l_tail (bucket_at (buckets h) (Suc b))])"
        using familyD(1) [OF tableD(1) [OF t]] b by (simp add: dll_begin)
      moreover have "R = X (Suc b) @ concat (map X [Suc (Suc b)..<bucket_cnt h])" using less.prems(3) Nil b by (simp add: upt_conv_Cons)
      ultimately show ?thesis using less.hyps [of "Suc b" "[]" "X (Suc b)"] b less.prems(1) step Nil by simp
    qed
  qed
qed

lemma hash_next_ok:
  assumes t: "table hf h s X" and i: "at_rest h X i R"
  shows "\<exists>i'. hash_next h s i = Some (if R = [] then 0 else hd R, i') \<and> (R \<noteq> [] \<longrightarrow> at_rest h X i' (tl R))"
proof -
  obtain b xs ys where b: "b < bucket_cnt h" "X b = xs @ ys" "it_bucket i = buckets h + 16 * b"
      "it_elem i = last (l_head (bucket_at (buckets h) b) # xs)" "R = ys @ concat (map X [Suc b..<bucket_cnt h])"
    using i by (auto simp: at_rest_def)
  have d: "dll s (bucket_at (buckets h) b) (xs @ ys)" using familyD(1) [OF tableD(1) [OF t], of b] b(1,2) by simp
  have "ring s (butlast (l_head (bucket_at (buckets h) b) # xs) @ it_elem i # (ys @ [l_tail (bucket_at (buckets h) b)]))"
    using d unfolding dll_iff b(4) by (metis append.assoc append_Cons append_Nil append_butlast_last_id list.distinct(1))
  from ring_next [OF this] have n: "list_next s (it_elem i) = Some (hd (ys @ [l_tail (bucket_at (buckets h) b)]))" by simp
  have "i\<lparr>it_elem := e\<rparr> = \<lparr>it_bucket = buckets h + 16 * b, it_elem = e\<rparr>" for e using b(3) by simp
  then show ?thesis using next_loop_ok [OF t b(1,2,5)] n by (auto simp: hash_next_def split: if_splits)
qed

fun iterate :: "nat \<Rightarrow> hash \<Rightarrow> store \<Rightarrow> hash_iterator \<Rightarrow> nat list option" where
  "iterate 0 h s i = Some []"
| "iterate (Suc n) h s i = do { (e, i) \<leftarrow> hash_next h s i; es \<leftarrow> iterate n h s i; Some (e # es) }"

lemma iterate_ok:
  assumes t: "table hf h s X"
  shows "at_rest h X i R \<Longrightarrow> iterate (Suc (length R)) h s i = Some (R @ [0])"
proof (induction R arbitrary: i)
  case Nil
  then show ?case using hash_next_ok [OF t Nil] by auto
next
  case (Cons e R)
  obtain i' where "hash_next h s i = Some (e, i')" "at_rest h X i' R" using hash_next_ok [OF t Cons.prems] by auto
  then show ?case using Cons.IH [of i'] by (simp del: iterate.simps add: iterate.simps(2) [of "Suc (length R)"])
qed

section \<open>The table as a map\<close>

lemma hash_find_Some:
  assumes k: "hash_keys hf lt" and t: "hash_table hf lt h s S" and x: "x \<in> S" "same_key lt x e"
  shows "hash_find hf lt e h s = Some x"
proof -
  obtain r where r: "hash_find hf lt e h s = Some r" "if r = 0 then \<forall>x\<in>S. \<not> same_key lt x e else r \<in> S \<and> same_key lt r e"
    using hash_find_ok [OF k t] by blast
  then have r': "r \<in> S" "same_key lt r e" using x by (auto split: if_splits)
  then have "same_key lt r x" using hash_keysD(3) [OF k r'(2)] hash_keysD(2) [OF k x(2)] by blast
  then have "r = x" using t x(1) r'(1) by (auto simp: hash_table_def)
  then show ?thesis using r(1) by simp
qed

lemma hash_find_None:
  assumes k: "hash_keys hf lt" and t: "hash_table hf lt h s S" and x: "\<forall>x\<in>S. \<not> same_key lt x e"
  shows "hash_find hf lt e h s = Some 0"
proof -
  obtain r where "hash_find hf lt e h s = Some r" "if r = 0 then \<forall>x\<in>S. \<not> same_key lt x e else r \<in> S \<and> same_key lt r e"
    using hash_find_ok [OF k t] by blast
  then show ?thesis using x by (auto split: if_splits)
qed

lemma hash_find_cong:
  assumes k: "hash_keys hf lt" and t: "hash_table hf lt h s S" and t': "hash_table hf lt h' s' S'"
    and eq: "\<And>x. same_key lt x e \<Longrightarrow> x \<in> S' \<longleftrightarrow> x \<in> S"
  shows "hash_find hf lt e h' s' = hash_find hf lt e h s"
proof (cases "\<exists>x\<in>S. same_key lt x e")
  case True
  then obtain x where x: "x \<in> S" "same_key lt x e" by blast
  then show ?thesis using hash_find_Some [OF k t x] hash_find_Some [OF k t' _ x(2)] eq by simp
next
  case False
  then have "\<forall>x\<in>S'. \<not> same_key lt x e" using eq by blast
  then show ?thesis using hash_find_None [OF k t] hash_find_None [OF k t'] False by simp
qed

lemma room_mono:
  assumes "room blk n S h" "m \<le> n" "T \<subseteq> S" "buckets h' = buckets h" "bucket_cnt h' = bucket_cnt h"
  shows "room blk m T h'"
proof -
  have "max 4 (m div 2) \<le> max 4 (n div 2)" using div_le_mono [OF assms(2), of 2] by linarith
  then have "array blk (max 4 (m div 2)) \<subseteq> array blk (max 4 (n div 2))" by (auto simp: array_def)
  then show ?thesis using assms by (auto simp: room_def)
qed

lemma table_finite: "hash_table hf lt h s S \<Longrightarrow> finite S"
  by (auto simp: hash_table_def)

lemma table_nonzero: "hash_table hf lt h s S \<Longrightarrow> 0 \<notin> S"
  using members_nonzero by (auto simp: hash_table_def)

text \<open>What a caller owes \<open>hash_insert\<close> and \<open>hash_replace\<close> for the new element \<open>e\<close>.\<close>

definition new_elem :: "nat \<Rightarrow> nat \<Rightarrow> nat set \<Rightarrow> hash \<Rightarrow> bool" where
  "new_elem blk e S h \<longleftrightarrow> e \<noteq> 0 \<and> e \<notin> S \<and> e \<notin> array (buckets h) (bucket_cnt h) \<and> card S < 2 ^ 29 \<and> room blk (Suc (card S)) (insert e S) h"

lemma hash_insert_ok:
  assumes k: "hash_keys hf lt" and t: "hash_table hf lt h s S" and e: "new_elem blk e S h"
  shows "\<exists>old h' s'. hash_insert hf lt blk e h s = Some (old, h', s')
    \<and> (if old = 0 then (\<forall>x\<in>S. \<not> same_key lt x e) \<and> hash_table hf lt h' s' (insert e S)
       else old \<in> S \<and> same_key lt old e \<and> hash_table hf lt h' s' S)"
proof -
  note E = e [unfolded new_elem_def]
  obtain old where old: "find_elem lt (find_bucket hf h e) e s = Some old"
      "if old = 0 then \<forall>x\<in>S. \<not> same_key lt x e else old \<in> S \<and> same_key lt old e"
    using hash_find_ok [OF k t, of e] by (auto simp: hash_find_def)
  show ?thesis
  proof (cases "old = 0")
    case True
    let ?h = "h\<lparr>elem_cnt := Suc (card S)\<rparr>"
    obtain s1 where s1: "insert_elem (find_bucket hf h e) e h s = Some (?h, s1)" "hash_table hf lt ?h s1 (insert e S)"
      using insert_elem_table [OF t, of e] E True old(2) by auto
    have "card (insert e S) = Suc (card S)" using E table_finite [OF t] by simp
    then have "room blk (card (insert e S)) (insert e S) ?h" using E by (simp add: room_def)
    then obtain h' s' where "rehash hf blk ?h s1 = Some (h', s')" "hash_table hf lt h' s' (insert e S)"
      using rehash_table [OF s1(2)] by blast
    then show ?thesis using True old s1(1) by (auto simp: hash_insert_def Let_def)
  next
    case False
    have "room blk (card S) S h" by (rule room_mono [of blk "Suc (card S)" "insert e S" h]) (use E in auto)
    then obtain h' s' where "rehash hf blk h s = Some (h', s')" "hash_table hf lt h' s' S" using rehash_table [OF t] by blast
    then show ?thesis using False old by (auto simp: hash_insert_def Let_def)
  qed
qed

lemma hash_replace_ok:
  assumes k: "hash_keys hf lt" and t: "hash_table hf lt h s S" and e: "new_elem blk e S h"
  shows "\<exists>old h' s'. hash_replace hf lt blk e h s = Some (old, h', s')
    \<and> (if old = 0 then \<forall>x\<in>S. \<not> same_key lt x e else old \<in> S \<and> same_key lt old e)
    \<and> hash_table hf lt h' s' (insert e (S - {old}))"
proof -
  note E = e [unfolded new_elem_def]
  obtain old where old: "find_elem lt (find_bucket hf h e) e s = Some old"
      "if old = 0 then \<forall>x\<in>S. \<not> same_key lt x e else old \<in> S \<and> same_key lt old e"
    using hash_find_ok [OF k t, of e] by (auto simp: hash_find_def)
  have fin: "finite S" using table_finite [OF t] .
  obtain h1 s1 where h1: "(if old \<noteq> 0 then remove_elem old h s else Some (h, s)) = Some (h1, s1)" "hash_table hf lt h1 s1 (S - {old})"
      "buckets h1 = buckets h" "bucket_cnt h1 = bucket_cnt h"
  proof (cases "old = 0")
    case True
    then show ?thesis using that [of h s] t table_nonzero [OF t] by simp
  next
    case False
    then show ?thesis using remove_elem_table [OF t, of old] old(2) E that by auto
  qed
  have fb: "find_bucket hf h1 e = find_bucket hf h e" using h1(3,4) by (simp add: find_bucket_def bucket_idx_def)
  have none: "\<forall>x\<in>S - {old}. \<not> same_key lt x e"
  proof
    fix x assume x: "x \<in> S - {old}"
    show "\<not> same_key lt x e"
    proof
      assume s: "same_key lt x e"
      then have o': "old \<in> S" "same_key lt old e" using old(2) x by (auto split: if_splits)
      then have "same_key lt x old" using hash_keysD(2,3) [OF k] s by blast
      then show False using t x o'(1) by (auto simp: hash_table_def)
    qed
  qed
  have card: "card (S - {old}) \<le> card S" using fin by (simp add: card_mono)
  have p: "e \<noteq> 0" "e \<notin> S - {old}" "e \<notin> array (buckets h1) (bucket_cnt h1)" "Suc (card (S - {old})) < 2 ^ 32"
  proof -
    have "card S < 2 ^ 29" using E by blast
    then show "Suc (card (S - {old})) < 2 ^ 32" using card by simp
    show "e \<noteq> 0" "e \<notin> S - {old}" using E by blast+
    show "e \<notin> array (buckets h1) (bucket_cnt h1)" using E unfolding h1(3,4) by blast
  qed
  let ?h = "h1\<lparr>elem_cnt := Suc (card (S - {old}))\<rparr>"
  obtain s2 where s2: "insert_elem (find_bucket hf h e) e h1 s1 = Some (?h, s2)" "hash_table hf lt ?h s2 (insert e (S - {old}))"
    using insert_elem_table [OF h1(2) p(1-3) none p(4)] unfolding fb by blast
  have "card (insert e (S - {old})) = Suc (card (S - {old}))" using E fin by simp
  moreover have "room blk (Suc (card (S - {old}))) (insert e (S - {old})) ?h"
  proof (rule room_mono)
    show "room blk (Suc (card S)) (insert e S) h" using E by blast
    show "insert e (S - {old}) \<subseteq> insert e S" by blast
  qed (use card h1(3,4) in simp_all)
  ultimately obtain h' s' where "rehash hf blk ?h s2 = Some (h', s')" "hash_table hf lt h' s' (insert e (S - {old}))"
    using rehash_table [OF s2(2), of blk] by auto
  then show ?thesis using old h1(1) s2(1) by (auto simp: hash_replace_def Let_def)
qed

lemma hash_delete_ok:
  assumes k: "hash_keys hf lt" and t: "hash_table hf lt h s S" and c: "card S < 2 ^ 29" "room blk (card S) S h"
  shows "\<exists>found h' s'. hash_delete hf lt blk e h s = Some (found, h', s')
    \<and> (if found = 0 then \<forall>x\<in>S. \<not> same_key lt x e else found \<in> S \<and> same_key lt found e)
    \<and> hash_table hf lt h' s' (S - {found})"
proof -
  obtain old where old: "find_elem lt (find_bucket hf h e) e s = Some old"
      "if old = 0 then \<forall>x\<in>S. \<not> same_key lt x e else old \<in> S \<and> same_key lt old e"
    using hash_find_ok [OF k t, of e] by (auto simp: hash_find_def)
  show ?thesis
  proof (cases "old = 0")
    case True
    then show ?thesis using t old table_nonzero [OF t] by (auto simp: hash_delete_def)
  next
    case False
    let ?h = "h\<lparr>elem_cnt := card (S - {old})\<rparr>"
    obtain s1 where s1: "remove_elem old h s = Some (?h, s1)" "hash_table hf lt ?h s1 (S - {old})"
      using remove_elem_table [OF t, of old] old(2) False c(1) by auto
    have "room blk (card (S - {old})) (S - {old}) ?h"
      by (rule room_mono [OF c(2)]) (use table_finite [OF t] in \<open>auto intro: card_mono\<close>)
    then obtain h' s' where "rehash hf blk ?h s1 = Some (h', s')" "hash_table hf lt h' s' (S - {old})"
      using rehash_table [OF s1(2)] by blast
    then show ?thesis using False old s1(1) by (auto simp: hash_delete_def)
  qed
qed

section \<open>What the functions guarantee\<close>

text \<open>(C38) \<open>hash_replace\<close> is the update of a map: it returns the element it displaced, keeps the table well formed (a
  power of two of buckets, every element in the bucket of its hash, the count exact, no two equal keys) whether or not
  the table was resized and whether or not memory was there for that, and afterwards \<open>hash_find\<close> gives the new element for
  its key and what it gave before for every other key.\<close>

theorem hash_replace_updates:
  assumes "hash_keys hf lt" "hash_table hf lt h s S" "new_elem blk e S h"
  shows "\<exists>old h' s'. hash_replace hf lt blk e h s = Some (old, h', s')
    \<and> hash_table hf lt h' s' (insert e (S - {old})) \<and> hash_find hf lt e h s = Some old
    \<and> (\<forall>k. hash_find hf lt k h' s' = (if same_key lt e k then Some e else hash_find hf lt k h s))"
proof -
  obtain old h' s' where r: "hash_replace hf lt blk e h s = Some (old, h', s')"
      "if old = 0 then \<forall>x\<in>S. \<not> same_key lt x e else old \<in> S \<and> same_key lt old e" "hash_table hf lt h' s' (insert e (S - {old}))"
    using hash_replace_ok [OF assms] by blast
  have "hash_find hf lt e h s = Some old"
    using r(2) hash_find_Some [OF assms(1,2), of old e] hash_find_None [OF assms(1,2), of e] by (auto split: if_splits)
  moreover have "hash_find hf lt k h' s' = (if same_key lt e k then Some e else hash_find hf lt k h s)" for k
  proof (cases "same_key lt e k")
    case True
    then show ?thesis using hash_find_Some [OF assms(1) r(3), of e k] by simp
  next
    case False
    have "x \<in> insert e (S - {old}) \<longleftrightarrow> x \<in> S" if x: "same_key lt x k" for x
    proof -
      have "x \<noteq> e" using x False by blast
      moreover have "x \<noteq> old" if "x \<in> S"
      proof
        assume "x = old"
        then have "same_key lt x e" using r(2) table_nonzero [OF assms(2)] that by (auto split: if_splits)
        then show False using hash_keysD(2,3) [OF assms(1)] x False by blast
      qed
      ultimately show ?thesis by blast
    qed
    then show ?thesis using hash_find_cong [OF assms(1,2) r(3)] False by simp
  qed
  ultimately show ?thesis using r(1,3) by blast
qed

text \<open>An example: the key of an element is its address modulo 100, and the table has the element 101.\<close>

definition ex_hash :: hash_func where
  "ex_hash x = x mod 100"

definition ex_less :: less_func where
  "ex_less x y \<longleftrightarrow> x mod 100 < y mod 100"

lemma ex_keys: "hash_keys ex_hash ex_less"
  by (auto simp: hash_keys_def same_key_def ex_hash_def ex_less_def)

lemma ex_table: "\<exists>h s. hash_table ex_hash ex_less h s {101} \<and> buckets h = 1000 \<and> bucket_cnt h = 4"
proof -
  define z :: store where "z = \<lparr>prev_of = \<lambda>_. 0, next_of = \<lambda>_. 0\<rparr>"
  obtain h s where h: "hash_table ex_hash ex_less h s {}" "buckets h = 1000" "bucket_cnt h = 4"
    using hash_init_ok [of 1000 z ex_hash ex_less] by auto
  obtain s' where s': "hash_table ex_hash ex_less (h\<lparr>elem_cnt := Suc 0\<rparr>) s' {101}"
    using insert_elem_table [OF h(1), of 101] h(2,3) by (auto simp: array_def)
  then show ?thesis using h(2,3) by (intro exI [of _ "h\<lparr>elem_cnt := Suc 0\<rparr>"] exI [of _ s']) simp
qed

theorem hash_replace_updates_witness:
  "\<exists>h s h' s'. hash_table ex_hash ex_less h s {101} \<and> hash_replace ex_hash ex_less 0 201 h s = Some (101, h', s')
    \<and> hash_find ex_hash ex_less 301 h' s' = Some 201"
proof -
  obtain h s where h: "hash_table ex_hash ex_less h s {101}" "buckets h = 1000" "bucket_cnt h = 4" using ex_table by blast
  have new: "new_elem 0 201 {101} h" using h(2,3) by (simp add: new_elem_def room_def array_def)
  have f: "hash_find ex_hash ex_less 201 h s = Some 101"
    by (rule hash_find_Some [OF ex_keys h(1)]) (simp_all add: same_key_def ex_less_def)
  have "same_key ex_less 201 301" by (simp add: same_key_def ex_less_def)
  then show ?thesis using hash_replace_updates [OF ex_keys h(1) new] h(1) f by fastforce
qed

text \<open>\<open>hash_delete\<close> removes the element with the key, if there is one, and returns it; it keeps the table well
  formed, also when the table shrinks, and changes no other key.\<close>

theorem hash_delete_removes:
  assumes "hash_keys hf lt" "hash_table hf lt h s S" "card S < 2 ^ 29" "room blk (card S) S h"
  shows "\<exists>found h' s'. hash_delete hf lt blk e h s = Some (found, h', s')
    \<and> hash_table hf lt h' s' (S - {found}) \<and> hash_find hf lt e h s = Some found
    \<and> (\<forall>k. hash_find hf lt k h' s' = (if same_key lt e k then Some 0 else hash_find hf lt k h s))"
proof -
  obtain found h' s' where r: "hash_delete hf lt blk e h s = Some (found, h', s')"
      "if found = 0 then \<forall>x\<in>S. \<not> same_key lt x e else found \<in> S \<and> same_key lt found e" "hash_table hf lt h' s' (S - {found})"
    using hash_delete_ok [OF assms, of e] by blast
  note K = hash_keysD [OF assms(1)]
  have f: "hash_find hf lt e h s = Some found"
    using r(2) hash_find_Some [OF assms(1,2), of found e] hash_find_None [OF assms(1,2), of e] by (auto split: if_splits)
  have gone: "\<not> same_key lt x e" if "x \<in> S - {found}" for x
    using hash_find_Some [OF assms(1,2), of x e] f that by auto
  have "hash_find hf lt k h' s' = (if same_key lt e k then Some 0 else hash_find hf lt k h s)" for k
  proof (cases "same_key lt e k")
    case True
    have "\<not> same_key lt x k" if "x \<in> S - {found}" for x using gone [OF that] True K(2,3) by blast
    then show ?thesis using hash_find_None [OF assms(1) r(3)] True by simp
  next
    case False
    have "x \<noteq> found" if "same_key lt x k" "x \<in> S" for x
    proof
      assume "x = found"
      then have "same_key lt x e" using r(2) table_nonzero [OF assms(2)] that(2) by (auto split: if_splits)
      then show False using K(2,3) that(1) False by blast
    qed
    then show ?thesis using hash_find_cong [OF assms(1,2) r(3), of k] False by auto
  qed
  then show ?thesis using r(1,3) f by blast
qed

theorem hash_delete_removes_witness:
  "\<exists>h s h' s'. hash_table ex_hash ex_less h s {101} \<and> hash_delete ex_hash ex_less 0 301 h s = Some (101, h', s')
    \<and> hash_find ex_hash ex_less 1 h' s' = Some 0"
proof -
  obtain h s where h: "hash_table ex_hash ex_less h s {101}" "buckets h = 1000" "bucket_cnt h = 4" using ex_table by blast
  have f: "hash_find ex_hash ex_less 301 h s = Some 101"
    by (rule hash_find_Some [OF ex_keys h(1)]) (simp_all add: same_key_def ex_less_def)
  have "same_key ex_less 301 1" by (simp add: same_key_def ex_less_def)
  then show ?thesis using hash_delete_removes [OF ex_keys h(1), of 0 301] h(1) f by (fastforce simp: room_def)
qed

text \<open>Iterating with \<open>hash_first\<close> and \<open>hash_next\<close> visits every element exactly once, across empty buckets, and then returns
  the null pointer.\<close>

theorem hash_iterate_all:
  assumes "hash_table hf lt h s S"
  shows "\<exists>es. iterate (Suc (card S)) h s (hash_first h) = Some (es @ [0]) \<and> distinct es \<and> set es = S"
proof -
  obtain X where X: "table hf h s X" "S = members (bucket_cnt h) X" using assms by (auto simp: hash_table_def)
  let ?R = "concat (map X [0..<bucket_cnt h])"
  have n: "0 < bucket_cnt h" using tableD(2) [OF X(1)] .
  then have "at_rest h X (hash_first h) ?R"
    unfolding at_rest_def hash_first_def by (intro exI [of _ 0] exI [of _ "[]"] exI [of _ "X 0"]) (simp add: upt_conv_Cons)
  moreover have d: "distinct ?R" using flat_distinct [OF tableD(1) [OF X(1)] order_refl] .
  moreover have "length ?R = card S" using distinct_card [OF d] X(2) set_flat by metis
  ultimately show ?thesis using iterate_ok [OF X(1)] X(2) set_flat by metis
qed

theorem hash_iterate_all_witness:
  "\<exists>h s. hash_table ex_hash ex_less h s {101} \<and> iterate 2 h s (hash_first h) = Some [101, 0]"
proof -
  obtain h s where h: "hash_table ex_hash ex_less h s {101}" using ex_table by blast
  obtain es where es: "iterate 2 h s (hash_first h) = Some (es @ [0])" "distinct es" "set es = {101}"
    using hash_iterate_all [OF h] by (auto simp: numeral_2_eq_2)
  then have "es = [101]" by (cases es; cases "tl es") auto
  then show ?thesis using es(1) h by auto
qed

end
