(* ===== verification/Palloc.thy ===== *)
theory Palloc
  imports Bitmap Kstring
begin

unbundle bit_operations_syntax

text \<open>
  \<open>threads/palloc.c\<close> with \<open>threads/vaddr.h\<close>: the page allocator. A pool is a bitmap of its pages and the address of
  the first one; the pages themselves are ranges of a byte-addressed memory.

  The lock of a pool is held around one bitmap operation and taken by nothing else, so an allocation is one step.
\<close>

section \<open>Addresses and words\<close>

definition PGBITS :: nat where
  "PGBITS = 12"

definition PGSIZE :: nat where
  "PGSIZE = 2 ^ PGBITS"

definition pg_ofs :: "nat \<Rightarrow> nat" where
  "pg_ofs va = va mod PGSIZE"

definition pg_no :: "nat \<Rightarrow> nat" where
  "pg_no va = va div PGSIZE"

definition pg_round_up :: "nat \<Rightarrow> nat" where
  "pg_round_up va = u32 (va + PGSIZE - 1) div PGSIZE * PGSIZE"

definition pg_round_down :: "nat \<Rightarrow> nat" where
  "pg_round_down va = va div PGSIZE * PGSIZE"

definition PHYS_BASE :: nat where
  "PHYS_BASE = 0xc0000000"

definition is_user_vaddr :: "nat \<Rightarrow> bool" where
  "is_user_vaddr va \<longleftrightarrow> va < PHYS_BASE"

definition is_kernel_vaddr :: "nat \<Rightarrow> bool" where
  "is_kernel_vaddr va \<longleftrightarrow> PHYS_BASE \<le> va"

definition ptov :: "nat \<Rightarrow> nat option" where
  "ptov paddr = do { kassert (paddr < PHYS_BASE); Some (u32 (paddr + PHYS_BASE)) }"

definition vtop :: "nat \<Rightarrow> nat option" where
  "vtop va = do { kassert (is_kernel_vaddr va); Some (va - PHYS_BASE) }"

text \<open>The 32-bit word at an address, low byte first.\<close>

definition ld32 :: "mem \<Rightarrow> nat \<Rightarrow> 32 word" where
  "ld32 m a = ucast (m a) OR push_bit 8 (ucast (m (a + 1))) OR push_bit 16 (ucast (m (a + 2))) OR push_bit 24 (ucast (m (a + 3)))"

definition st32 :: "nat \<Rightarrow> 32 word \<Rightarrow> mem \<Rightarrow> mem" where
  "st32 a w m = m(a := ucast w, a + 1 := ucast (drop_bit 8 w), a + 2 := ucast (drop_bit 16 w), a + 3 := ucast (drop_bit 24 w))"

lemma ld32_st32 [simp]: "ld32 (st32 a w m) a = w"
proof (rule bit_word_eqI)
  fix n assume "n < LENGTH(32)"
  then show "bit (ld32 (st32 a w m) a) n = bit w n" by (cases "24 \<le> n"; cases "16 \<le> n"; cases "8 \<le> n") (auto simp: ld32_def st32_def bit_simps)
qed

lemma ld32_st32_other: "a + 4 \<le> b \<or> b + 4 \<le> a \<Longrightarrow> ld32 (st32 a w m) b = ld32 m b"
  by (auto simp: ld32_def st32_def)

lemma st32_other: "x < a \<or> a + 4 \<le> x \<Longrightarrow> st32 a w m x = m x"
  by (auto simp: st32_def)

lemma ld32_cong:
  assumes "\<And>i. i < 4 \<Longrightarrow> m (a + i) = m' (a + i)"
  shows "ld32 m a = ld32 m' a"
  using assms [of 0] assms [of 1] assms [of 2] assms [of 3] by (simp add: ld32_def)

lemma ld32_zero: "(\<And>i. i < 4 \<Longrightarrow> m (a + i) = 0) \<Longrightarrow> ld32 m a = 0"
  using ld32_cong [of m a "\<lambda>_. 0"] by (simp add: ld32_def)

section \<open>The functions of the source\<close>

datatype palloc_flag = PAL_ASSERT | PAL_ZERO | PAL_USER | PAL_READONLY | PAL_THROUGH_FRAME | PAL_PROHIBIT_CACHE | PAL_DONT_SYNC_ON_DISK

record pool =
  used_map :: bitmap
  pool_base :: nat

record pallocs =
  kernel_pool :: pool
  user_pool :: pool
  ram :: mem

definition UINT32_MAX :: nat where
  "UINT32_MAX = 2 ^ 32 - 1"

text \<open>\<open>memset (p, c, n)\<close>.\<close>

definition fill_ram :: "nat \<Rightarrow> byte \<Rightarrow> nat \<Rightarrow> pallocs \<Rightarrow> pallocs" where
  "fill_ram p c n st = st\<lparr>ram := (\<lambda>a. if p \<le> a \<and> a < p + n then c else ram st a)\<rparr>"

definition pool_of :: "palloc_flag set \<Rightarrow> pallocs \<Rightarrow> pool" where
  "pool_of flags st = (if PAL_USER \<in> flags then user_pool st else kernel_pool st)"

definition set_pool_of :: "palloc_flag set \<Rightarrow> pool \<Rightarrow> pallocs \<Rightarrow> pallocs" where
  "set_pool_of flags p st = (if PAL_USER \<in> flags then st\<lparr>user_pool := p\<rparr> else st\<lparr>kernel_pool := p\<rparr>)"

definition palloc_page_to_idx :: "palloc_flag set \<Rightarrow> nat \<Rightarrow> pallocs \<Rightarrow> nat option" where
  "palloc_page_to_idx flags page st =
     (if page = 0 then Some UINT32_MAX
      else do {
        kassert (PAL_USER \<notin> flags \<or> PAL_THROUGH_FRAME \<in> flags);
        let ret = u32 (page + 2 ^ 32 - pool_base (pool_of flags st));
        kassert (ret mod PGSIZE = 0);
        Some (ret div PGSIZE)
      })"

definition palloc_get_multiple :: "palloc_flag set \<Rightarrow> nat \<Rightarrow> pallocs \<Rightarrow> (nat \<times> pallocs) option" where
  "palloc_get_multiple flags page_cnt st =
     do {
       kassert (PAL_USER \<notin> flags \<or> PAL_THROUGH_FRAME \<in> flags);
       if page_cnt = 0 then Some (0, st)
       else do {
         let pool = pool_of flags st;
         (page_idx, map) \<leftarrow> bitmap_scan_and_flip (used_map pool) 0 page_cnt False;
         let st = set_pool_of flags (pool\<lparr>used_map := map\<rparr>) st;
         pages \<leftarrow> (if page_idx \<noteq> BITMAP_ERROR
           then do {
             let pages = u32 (pool_base pool + PGSIZE * page_idx);
             idx \<leftarrow> palloc_page_to_idx flags pages st;
             kassert (idx = page_idx);
             Some pages
           }
           else Some 0);
         if pages \<noteq> 0
         then Some (pages, if PAL_ZERO \<in> flags then fill_ram pages 0 (PGSIZE * page_cnt) st else st)
         else do { kassert (PAL_ASSERT \<notin> flags); Some (pages, st) }
       }
     }"

definition palloc_get_page :: "palloc_flag set \<Rightarrow> pallocs \<Rightarrow> (nat \<times> pallocs) option" where
  "palloc_get_page flags st =
     do { kassert (PAL_USER \<notin> flags \<or> PAL_THROUGH_FRAME \<in> flags); palloc_get_multiple flags 1 st }"

definition page_from_pool :: "pool \<Rightarrow> nat \<Rightarrow> bool" where
  "page_from_pool pool page =
     (let page_no = pg_no page; start_page = pg_no (pool_base pool); end_page = start_page + bitmap_size (used_map pool)
      in start_page \<le> page_no \<and> page_no < end_page)"

definition palloc_free_multiple :: "nat \<Rightarrow> nat \<Rightarrow> pallocs \<Rightarrow> pallocs option" where
  "palloc_free_multiple pages page_cnt st =
     do {
       kassert (pg_ofs pages = 0);
       if pages = 0 \<or> page_cnt = 0 then Some st
       else do {
         flags \<leftarrow> (if page_from_pool (kernel_pool st) pages then Some {}
                   else if page_from_pool (user_pool st) pages then Some {PAL_USER} else None);
         let pool = pool_of flags st;
         let page_idx = pg_no pages - pg_no (pool_base pool);
         let st = fill_ram pages 0xcc (PGSIZE * page_cnt) st;
         all \<leftarrow> bitmap_all (used_map pool) page_idx page_cnt;
         kassert all;
         map \<leftarrow> bitmap_set_multiple (used_map pool) page_idx page_cnt False;
         Some (set_pool_of flags (pool\<lparr>used_map := map\<rparr>) st)
       }
     }"

definition palloc_free_page :: "nat \<Rightarrow> pallocs \<Rightarrow> pallocs option" where
  "palloc_free_page page st = palloc_free_multiple page 1 st"

text \<open>\<open>bs\<close> are the words that lie behind the descriptor of the bitmap at the base of the pool.\<close>

definition init_kernel_pool :: "nat \<Rightarrow> nat \<Rightarrow> (nat \<Rightarrow> 32 word) \<Rightarrow> pool option" where
  "init_kernel_pool base page_cnt bs =
     do {
       let bm_pages = DIV_ROUND_UP (bitmap_buf_size page_cnt) PGSIZE;
       kassert (bm_pages \<le> page_cnt);
       let page_cnt = page_cnt - bm_pages;
       b \<leftarrow> bitmap_create_in_buf page_cnt (map bs [0..<elem_cnt page_cnt]) (bm_pages * PGSIZE);
       Some \<lparr>used_map = b, pool_base = base + bm_pages * PGSIZE\<rparr>
     }"

text \<open>\<open>frame_map_init_get_size\<close> of \<open>vm/frame.c\<close>: 48 bytes for the map and 16 for a frame.\<close>

definition frame_map_init_get_size :: "nat \<Rightarrow> nat" where
  "frame_map_init_get_size pages_cnt = u32 (48 + 16 * pages_cnt)"

definition init_user_pool :: "nat \<Rightarrow> nat \<Rightarrow> (nat \<Rightarrow> 32 word) \<Rightarrow> (pool \<times> nat) option" where
  "init_user_pool base page_cnt bs =
     do {
       let bm_pages = DIV_ROUND_UP (bitmap_buf_size page_cnt) PGSIZE;
       kassert (bm_pages \<le> page_cnt);
       let page_cnt = page_cnt - bm_pages;
       let fr_pages = DIV_ROUND_UP (frame_map_init_get_size page_cnt) PGSIZE;
       kassert (fr_pages \<le> page_cnt);
       let page_cnt = page_cnt - fr_pages;
       b \<leftarrow> bitmap_create_in_buf page_cnt (map bs [0..<elem_cnt page_cnt]) (bm_pages * PGSIZE);
       Some (\<lparr>used_map = b, pool_base = base + (bm_pages + fr_pages) * PGSIZE\<rparr>, base + bm_pages * PGSIZE)
     }"

text \<open>\<open>palloc_init\<close> without its calls of \<open>swap_init\<close> and \<open>supp_pagedir_init\<close>; with the address of the frame map.\<close>

definition palloc_init :: "nat \<Rightarrow> nat \<Rightarrow> (nat \<Rightarrow> 32 word) \<Rightarrow> (nat \<Rightarrow> 32 word) \<Rightarrow> mem \<Rightarrow> (pallocs \<times> nat) option" where
  "palloc_init init_ram_pages user_page_limit kbs ubs m =
     do {
       free_start \<leftarrow> ptov (1024 * 1024);
       free_end \<leftarrow> ptov (init_ram_pages * PGSIZE);
       let free_pages = (free_end - free_start) div PGSIZE;
       let user_pages = (if user_page_limit < free_pages div 2 then user_page_limit else free_pages div 2);
       let kernel_pages = free_pages - user_pages;
       k \<leftarrow> init_kernel_pool free_start kernel_pages kbs;
       (u, frames) \<leftarrow> init_user_pool (free_start + kernel_pages * PGSIZE) user_pages ubs;
       Some (\<lparr>kernel_pool = k, user_pool = u, ram = m\<rparr>, frames)
     }"

section \<open>Pools\<close>

text \<open>A pool is whole pages of kernel addresses.\<close>

definition pool_ok :: "pool \<Rightarrow> bool" where
  "pool_ok p \<longleftrightarrow> bm_wf (used_map p) \<and> PHYS_BASE \<le> pool_base p \<and> PGSIZE dvd pool_base p
     \<and> pool_base p + PGSIZE * bit_cnt (used_map p) \<le> 2 ^ 32"

definition palloc_ok :: "pallocs \<Rightarrow> bool" where
  "palloc_ok st \<longleftrightarrow> pool_ok (kernel_pool st) \<and> pool_ok (user_pool st)
     \<and> pool_base (kernel_pool st) + PGSIZE * bit_cnt (used_map (kernel_pool st)) \<le> pool_base (user_pool st)"

definition page_at :: "pool \<Rightarrow> nat \<Rightarrow> nat" where
  "page_at p i = pool_base p + PGSIZE * i"

text \<open>The addresses of the pages in use.\<close>

definition pool_pages :: "pool \<Rightarrow> nat set" where
  "pool_pages p = page_at p ` bm_used (used_map p)"

definition pages_used :: "pallocs \<Rightarrow> nat set" where
  "pages_used st = pool_pages (kernel_pool st) \<union> pool_pages (user_pool st)"

lemma PGSIZE_eq: "PGSIZE = 4096"
  by (simp add: PGSIZE_def PGBITS_def)

lemma page_at_facts:
  assumes p: "pool_ok p" and i: "i < bit_cnt (used_map p)"
  shows "u32 (pool_base p + PGSIZE * i) = page_at p i" "page_at p i \<noteq> 0" "PGSIZE dvd page_at p i"
    "pg_no (page_at p i) = pg_no (pool_base p) + i" "pool_base p \<le> page_at p i" "page_at p i + PGSIZE \<le> 2 ^ 32" "PHYS_BASE \<le> page_at p i"
proof -
  have b: "pool_base p + PGSIZE * bit_cnt (used_map p) \<le> 2 ^ 32" "PHYS_BASE \<le> pool_base p" "PGSIZE dvd pool_base p" using p by (simp_all add: pool_ok_def)
  have "PGSIZE * (i + 1) \<le> PGSIZE * bit_cnt (used_map p)" using i by (intro mult_left_mono) auto
  then have top: "pool_base p + PGSIZE * i + PGSIZE \<le> 2 ^ 32" using b(1) by (simp add: algebra_simps)
  then show "page_at p i + PGSIZE \<le> 2 ^ 32" by (simp add: page_at_def)
  show "u32 (pool_base p + PGSIZE * i) = page_at p i" using top by (simp add: page_at_def PGSIZE_eq)
  show "PHYS_BASE \<le> page_at p i" "pool_base p \<le> page_at p i" using b(2) by (simp_all add: page_at_def)
  then show "page_at p i \<noteq> 0" using b(2) by (simp add: PHYS_BASE_def)
  show "PGSIZE dvd page_at p i" using b(3) by (simp add: page_at_def)
  show "pg_no (page_at p i) = pg_no (pool_base p) + i" by (simp add: pg_no_def page_at_def PGSIZE_eq)
qed

lemma palloc_page_to_idx_ok:
  assumes p: "pool_ok (pool_of flags st)" and i: "i < bit_cnt (used_map (pool_of flags st))" and f: "PAL_USER \<notin> flags \<or> PAL_THROUGH_FRAME \<in> flags"
  shows "palloc_page_to_idx flags (page_at (pool_of flags st) i) st = Some i"
proof -
  note F = page_at_facts [OF p i]
  have "u32 (page_at (pool_of flags st) i + 2 ^ 32 - pool_base (pool_of flags st)) = PGSIZE * i"
  proof -
    have "page_at (pool_of flags st) i + 2 ^ 32 - pool_base (pool_of flags st) = PGSIZE * i + 2 ^ 32" by (simp add: page_at_def)
    moreover have "PGSIZE * i < 2 ^ 32" using F(6) by (simp add: page_at_def PGSIZE_eq)
    ultimately show ?thesis by (simp add: u32_def)
  qed
  then show ?thesis using F(2) f by (simp add: palloc_page_to_idx_def PGSIZE_eq)
qed

text \<open>The bits of a run of \<open>n\<close> pages from the \<open>i\<close>th on.\<close>

lemma bm_used_set_range:
  assumes "bit_cnt b' = bit_cnt b" "bm_abs b' = set_range (bm_abs b) i n v" "i + n \<le> bit_cnt b"
  shows "bm_used b' = (if v then bm_used b \<union> {i..<i + n} else bm_used b - {i..<i + n})"
  using assms unfolding bm_used_def by (auto simp: nth_set_range simp del: nth_bm_abs split: if_splits)

lemma run_free: "run_at (bm_abs b) n False i \<longleftrightarrow> i + n \<le> bit_cnt b \<and> {i..<i + n} \<inter> bm_used b = {}"
proof -
  have "(\<forall>j<n. \<not> bm_abs b ! (i + j)) \<longleftrightarrow> {i..<i + n} \<inter> bm_used b = {}" if "i + n \<le> bit_cnt b"
  proof
    assume "\<forall>j<n. \<not> bm_abs b ! (i + j)"
    then have "\<not> bm_abs b ! k" if "i \<le> k" "k < i + n" for k using that by (metis add_diff_inverse_nat less_diff_conv2 add.commute not_less)
    then show "{i..<i + n} \<inter> bm_used b = {}" by (auto simp: bm_used_def simp del: nth_bm_abs)
  next
    assume e: "{i..<i + n} \<inter> bm_used b = {}"
    have "\<not> bm_abs b ! (i + j)" if "j < n" for j
    proof -
      have "i + j \<in> {i..<i + n}" using that by simp
      then have "i + j \<notin> bm_used b" using e by blast
      then show ?thesis using that \<open>i + n \<le> bit_cnt b\<close> by (simp add: bm_used_def del: nth_bm_abs)
    qed
    then show "\<forall>j<n. \<not> bm_abs b ! (i + j)" by blast
  qed
  then show ?thesis by (auto simp: run_at_def simp del: nth_bm_abs)
qed

text \<open>The pool after \<open>U\<close> became the pages in use.\<close>

definition repooled :: "pool \<Rightarrow> nat set \<Rightarrow> pool \<Rightarrow> bool" where
  "repooled p U p' \<longleftrightarrow> pool_base p' = pool_base p \<and> bit_cnt (used_map p') = bit_cnt (used_map p) \<and> bm_wf (used_map p') \<and> bm_used (used_map p') = U"

lemma repooled_ok: "pool_ok p \<Longrightarrow> repooled p U p' \<Longrightarrow> pool_ok p'"
  by (simp add: pool_ok_def repooled_def)

lemma palloc_ok_pool: "palloc_ok st \<Longrightarrow> pool_ok (pool_of flags st)"
  by (simp add: palloc_ok_def pool_of_def)

lemma palloc_ok_repooled: "palloc_ok st \<Longrightarrow> repooled (pool_of flags st) U p' \<Longrightarrow> palloc_ok (set_pool_of flags p' st)"
  using repooled_ok by (fastforce simp: palloc_ok_def pool_of_def set_pool_of_def repooled_def split: if_splits)

lemma palloc_ok_fill [simp]: "palloc_ok (fill_ram p c n st) = palloc_ok st"
  by (simp add: palloc_ok_def fill_ram_def)

lemma fill_ram_pools [simp]:
  "kernel_pool (fill_ram p c n st) = kernel_pool st" "user_pool (fill_ram p c n st) = user_pool st"
  "pool_of flags (fill_ram p c n st) = pool_of flags st"
  "ram (fill_ram p c n st) a = (if p \<le> a \<and> a < p + n then c else ram st a)"
  by (simp_all add: fill_ram_def pool_of_def)

lemma set_pool_of_simps [simp]:
  "pool_of flags (set_pool_of flags p st) = p" "ram (set_pool_of flags p st) = ram st"
  by (simp_all add: set_pool_of_def pool_of_def)

definition taken :: "palloc_flag set \<Rightarrow> nat set \<Rightarrow> pallocs \<Rightarrow> pallocs \<Rightarrow> bool" where
  "taken flags U st st' \<longleftrightarrow> (\<exists>p' m. repooled (pool_of flags st) U p' \<and> st' = (set_pool_of flags p' st)\<lparr>ram := m\<rparr>)"

lemma taken_ok: "palloc_ok st \<Longrightarrow> taken flags U st st' \<Longrightarrow> palloc_ok st'"
  using palloc_ok_repooled by (fastforce simp: taken_def palloc_ok_def)

lemma palloc_get_multiple_ok:
  assumes st: "palloc_ok st" and n: "0 < n" and f: "PAL_USER \<notin> flags \<or> PAL_THROUGH_FRAME \<in> flags"
    and free: "\<exists>i. i + n \<le> bit_cnt (used_map (pool_of flags st)) \<and> {i..<i + n} \<inter> bm_used (used_map (pool_of flags st)) = {}"
  shows "\<exists>i st'. palloc_get_multiple flags n st = Some (page_at (pool_of flags st) i, st')
    \<and> i + n \<le> bit_cnt (used_map (pool_of flags st)) \<and> {i..<i + n} \<inter> bm_used (used_map (pool_of flags st)) = {}
    \<and> taken flags (bm_used (used_map (pool_of flags st)) \<union> {i..<i + n}) st st'
    \<and> ram st' = (\<lambda>a. if PAL_ZERO \<in> flags \<and> page_at (pool_of flags st) i \<le> a \<and> a < page_at (pool_of flags st) i + PGSIZE * n then 0 else ram st a)"
proof -
  let ?p = "pool_of flags st"
  have p: "pool_ok ?p" using palloc_ok_pool [OF st] .
  then have wf: "bm_wf (used_map ?p)" by (simp add: pool_ok_def)
  obtain i where hit: "first_run (bm_abs (used_map ?p)) 0 n False = Some i"
    using free first_run_None [of "bm_abs (used_map ?p)" 0 n False] run_free by (cases "first_run (bm_abs (used_map ?p)) 0 n False") auto
  then have i: "i + n \<le> bit_cnt (used_map ?p)" "{i..<i + n} \<inter> bm_used (used_map ?p) = {}" by (simp_all add: first_run_Some run_free)
  obtain b where b: "bitmap_scan_and_flip (used_map ?p) 0 n False = Some (i, b)" "bm_wf b" "bit_cnt b = bit_cnt (used_map ?p)"
      "bm_abs b = set_range (bm_abs (used_map ?p)) i n True" using bitmap_scan_and_flip_Some [OF wf _ hit] by auto
  have ne: "i \<noteq> BITMAP_ERROR" using run_at_not_error [OF wf] hit by (auto simp: first_run_Some)
  have il: "i < bit_cnt (used_map ?p)" using i(1) n by simp
  note F = page_at_facts [OF p il]
  let ?p' = "?p\<lparr>used_map := b\<rparr>"
  let ?st = "set_pool_of flags ?p' st"
  have r: "repooled ?p (bm_used (used_map ?p) \<union> {i..<i + n}) ?p'" using b bm_used_set_range [OF b(3,4) i(1)] by (simp add: repooled_def)
  have idx: "palloc_page_to_idx flags (page_at ?p i) ?st = Some i"
    using palloc_page_to_idx_ok [of flags ?st i] repooled_ok [OF p r] il b(3) f by (simp add: page_at_def)
  have run: "palloc_get_multiple flags n st =
      Some (page_at ?p i, if PAL_ZERO \<in> flags then fill_ram (page_at ?p i) 0 (PGSIZE * n) ?st else ?st)"
    using f n b(1) ne idx F(1,2) by (simp add: palloc_get_multiple_def Let_def)
  let ?m = "\<lambda>a. if PAL_ZERO \<in> flags \<and> page_at ?p i \<le> a \<and> a < page_at ?p i + PGSIZE * n then 0 else ram st a"
  have "(if PAL_ZERO \<in> flags then fill_ram (page_at ?p i) 0 (PGSIZE * n) ?st else ?st) = ?st\<lparr>ram := ?m\<rparr>"
    by (simp add: fill_ram_def set_pool_of_def cong: if_cong)
  then show ?thesis using run i r by (intro exI [of _ i] exI [of _ "?st\<lparr>ram := ?m\<rparr>"]) (auto simp: taken_def)
qed

lemma palloc_get_multiple_full:
  assumes st: "palloc_ok st" and n: "0 < n" and f: "PAL_USER \<notin> flags \<or> PAL_THROUGH_FRAME \<in> flags"
    and full: "\<not> (\<exists>i. i + n \<le> bit_cnt (used_map (pool_of flags st)) \<and> {i..<i + n} \<inter> bm_used (used_map (pool_of flags st)) = {})"
  shows "palloc_get_multiple flags n st = (if PAL_ASSERT \<in> flags then None else Some (0, st))"
proof -
  let ?p = "pool_of flags st"
  have wf: "bm_wf (used_map ?p)" using palloc_ok_pool [OF st] by (simp add: pool_ok_def)
  have "first_run (bm_abs (used_map ?p)) 0 n False = None" using full by (simp add: first_run_None run_free)
  then have b: "bitmap_scan_and_flip (used_map ?p) 0 n False = Some (BITMAP_ERROR, used_map ?p)" using bitmap_scan_and_flip_None [OF wf] by simp
  have "set_pool_of flags (?p\<lparr>used_map := used_map ?p\<rparr>) st = st" by (simp add: set_pool_of_def pool_of_def)
  then show ?thesis using f n b by (simp add: palloc_get_multiple_def Let_def)
qed

lemma page_from_pool_iff:
  assumes "pool_ok p" "PGSIZE dvd a"
  shows "page_from_pool p a \<longleftrightarrow> pool_base p \<le> a \<and> a < pool_base p + PGSIZE * bit_cnt (used_map p)"
proof -
  obtain j k where "a = PGSIZE * j" "pool_base p = PGSIZE * k" using assms by (auto simp: pool_ok_def elim!: dvdE)
  then show ?thesis by (auto simp: page_from_pool_def pg_no_def bitmap_size_def PGSIZE_eq Let_def)
qed

lemma page_from_own_pool:
  assumes st: "palloc_ok st" and p: "p = pool_of flags st" and i: "i < bit_cnt (used_map p)"
  shows "page_from_pool (kernel_pool st) (page_at p i) \<longleftrightarrow> PAL_USER \<notin> flags"
    "PAL_USER \<in> flags \<Longrightarrow> page_from_pool (user_pool st) (page_at p i)"
proof -
  have ok: "pool_ok p" using palloc_ok_pool [OF st] p by simp
  have "PGSIZE * i < PGSIZE * bit_cnt (used_map p)" using i by (simp add: PGSIZE_eq)
  then have r: "pool_base p \<le> page_at p i" "page_at p i < pool_base p + PGSIZE * bit_cnt (used_map p)" by (simp_all add: page_at_def)
  have k: "pool_ok (kernel_pool st)" "pool_ok (user_pool st)" using st by (simp_all add: palloc_ok_def)
  note iff = page_from_pool_iff [OF _ page_at_facts(3) [OF ok i]]
  show "page_from_pool (kernel_pool st) (page_at p i) \<longleftrightarrow> PAL_USER \<notin> flags"
    using iff [OF k(1)] r st p by (auto simp: pool_of_def palloc_ok_def split: if_splits)
  show "PAL_USER \<in> flags \<Longrightarrow> page_from_pool (user_pool st) (page_at p i)"
    using iff [OF k(2)] r p by (auto simp: pool_of_def split: if_splits)
qed

lemma palloc_free_multiple_ok:
  assumes st: "palloc_ok st" and n: "0 < n" and p: "p = pool_of flags st" and i: "i + n \<le> bit_cnt (used_map p)" "{i..<i + n} \<subseteq> bm_used (used_map p)"
  shows "\<exists>st'. palloc_free_multiple (page_at p i) n st = Some st' \<and> taken flags (bm_used (used_map p) - {i..<i + n}) st st'
    \<and> ram st' = (\<lambda>a. if page_at p i \<le> a \<and> a < page_at p i + PGSIZE * n then 0xcc else ram st a)"
proof -
  have ok: "pool_ok p" using palloc_ok_pool [OF st] p by simp
  have wf: "bm_wf (used_map p)" using ok by (simp add: pool_ok_def)
  have il: "i < bit_cnt (used_map p)" using i(1) n by simp
  note F = page_at_facts [OF ok il] and O = page_from_own_pool [OF st p il]
  let ?u = "PAL_USER \<in> flags"
  have fl: "pool_of {} st = pool_of flags st" if "\<not> ?u" using that by (simp add: pool_of_def)
  have fu: "pool_of {PAL_USER} st = pool_of flags st" if ?u using that by (simp add: pool_of_def)
  have sl: "set_pool_of (if ?u then {PAL_USER} else {}) q t = set_pool_of flags q t" for q t by (simp add: set_pool_of_def)
  obtain b where b: "bitmap_set_multiple (used_map p) i n False = Some b" "bm_wf b" "bit_cnt b = bit_cnt (used_map p)"
      "bm_abs b = set_range (bm_abs (used_map p)) i n False" using bitmap_set_multiple_ok [OF wf i(1)] by blast
  have all: "bitmap_all (used_map p) i n = Some True"
  proof -
    have "bm_abs (used_map p) ! (i + j)" if "j < n" for j
    proof -
      have "i + j \<in> {i..<i + n}" using that by simp
      then have "i + j \<in> bm_used (used_map p)" using i(2) by blast
      then show ?thesis by (simp add: bm_used_def del: nth_bm_abs)
    qed
    then show ?thesis using bitmap_all_ok [OF wf i(1)] by simp
  qed
  have flags: "(if page_from_pool (kernel_pool st) (page_at p i) then Some {} else if page_from_pool (user_pool st) (page_at p i) then Some {PAL_USER} else None)
      = Some (if ?u then {PAL_USER} else {})" using O by simp
  have pool: "pool_of (if ?u then {PAL_USER} else {}) st = p" using fl fu p by simp
  have idx: "pg_no (page_at p i) - pg_no (pool_base p) = i" using F(4) by simp
  have ofs: "pg_ofs (page_at p i) = 0" using F(3) by (simp add: pg_ofs_def)
  let ?p' = "p\<lparr>used_map := b\<rparr>"
  have run: "palloc_free_multiple (page_at p i) n st = Some (set_pool_of flags ?p' (fill_ram (page_at p i) 0xcc (PGSIZE * n) st))"
    using n ofs F(2) flags pool idx all b(1) by (simp add: palloc_free_multiple_def sl)
  have "repooled p (bm_used (used_map p) - {i..<i + n}) ?p'" using b bm_used_set_range [OF b(3,4) i(1)] by (simp add: repooled_def)
  moreover have "set_pool_of flags ?p' (fill_ram (page_at p i) 0xcc (PGSIZE * n) st) =
      (set_pool_of flags ?p' st)\<lparr>ram := (\<lambda>a. if page_at p i \<le> a \<and> a < page_at p i + PGSIZE * n then 0xcc else ram st a)\<rparr>"
    by (simp add: fill_ram_def set_pool_of_def)
  ultimately show ?thesis using run p by (auto simp: taken_def)
qed

section \<open>Memory in use\<close>

definition span :: "nat \<Rightarrow> nat \<Rightarrow> nat set" where
  "span a n = {a..<a + n}"

definition pool_mem :: "pool \<Rightarrow> nat set" where
  "pool_mem p = (\<Union>i\<in>bm_used (used_map p). span (page_at p i) PGSIZE)"

definition mem_used :: "pallocs \<Rightarrow> nat set" where
  "mem_used st = pool_mem (kernel_pool st) \<union> pool_mem (user_pool st)"

lemma span_pages: "(\<Union>k\<in>{i..<i + n}. span (page_at p k) PGSIZE) = span (page_at p i) (PGSIZE * n)"
proof (induction n)
  case (Suc n)
  have "{i..<i + Suc n} = insert (i + n) {i..<i + n}" by auto
  moreover have "span (page_at p i) (PGSIZE * n) \<union> span (page_at p (i + n)) PGSIZE = span (page_at p i) (PGSIZE * Suc n)"
    by (auto simp: span_def page_at_def algebra_simps)
  ultimately show ?case using Suc by (simp add: Un_commute)
qed (simp add: span_def)

lemma span_page_disjoint: "i \<noteq> j \<Longrightarrow> span (page_at p i) PGSIZE \<inter> span (page_at p j) PGSIZE = {}"
proof -
  assume "i \<noteq> j"
  then consider "i < j" | "j < i" by linarith
  then show ?thesis by cases (auto simp: span_def page_at_def PGSIZE_eq)
qed

lemma pool_mem_range:
  assumes "i < bit_cnt (used_map p)"
  shows "span (page_at p i) PGSIZE \<subseteq> {pool_base p..<pool_base p + PGSIZE * bit_cnt (used_map p)}"
proof -
  have "PGSIZE * (i + 1) \<le> PGSIZE * bit_cnt (used_map p)" using assms by (intro mult_left_mono) auto
  then show ?thesis by (auto simp: span_def page_at_def algebra_simps)
qed

lemma pool_mem_sub: "pool_mem p \<subseteq> {pool_base p..<pool_base p + PGSIZE * bit_cnt (used_map p)}"
  using pool_mem_range unfolding pool_mem_def bm_used_def by blast

lemma run_range:
  assumes "i + n \<le> bit_cnt (used_map p)"
  shows "span (page_at p i) (PGSIZE * n) \<subseteq> {pool_base p..<pool_base p + PGSIZE * bit_cnt (used_map p)}"
  unfolding span_pages [symmetric]
proof (rule UN_least)
  fix k assume "k \<in> {i..<i + n}"
  then show "span (page_at p k) PGSIZE \<subseteq> {pool_base p..<pool_base p + PGSIZE * bit_cnt (used_map p)}" using assms by (intro pool_mem_range) auto
qed

definition other_pool :: "palloc_flag set \<Rightarrow> pallocs \<Rightarrow> pool" where
  "other_pool flags st = (if PAL_USER \<in> flags then kernel_pool st else user_pool st)"

lemma mem_used_split: "mem_used st = pool_mem (pool_of flags st) \<union> pool_mem (other_pool flags st)"
  by (cases "PAL_USER \<in> flags") (simp_all add: mem_used_def pool_of_def other_pool_def Un_commute)

lemma takenD:
  assumes "taken flags U st st'"
  shows "repooled (pool_of flags st) U (pool_of flags st')" "other_pool flags st' = other_pool flags st"
  using assms by (auto simp: taken_def set_pool_of_def pool_of_def other_pool_def)

lemma other_pool_apart:
  assumes st: "palloc_ok st" and R: "R \<subseteq> {pool_base (pool_of flags st)..<pool_base (pool_of flags st) + PGSIZE * bit_cnt (used_map (pool_of flags st))}"
  shows "pool_mem (other_pool flags st) \<inter> R = {}"
proof -
  let ?k = "kernel_pool st" and ?u = "user_pool st"
  define K U where "K = {pool_base ?k..<pool_base ?k + PGSIZE * bit_cnt (used_map ?k)}" and "U = {pool_base ?u..<pool_base ?u + PGSIZE * bit_cnt (used_map ?u)}"
  have apart: "K \<inter> U = {}" using st unfolding palloc_ok_def K_def U_def by auto
  have "pool_mem ?k \<subseteq> K" "pool_mem ?u \<subseteq> U" unfolding K_def U_def by (rule pool_mem_sub)+
  moreover have "R \<subseteq> (if PAL_USER \<in> flags then U else K)"
    using R by (cases "PAL_USER \<in> flags") (simp_all add: pool_of_def K_def U_def)
  ultimately show ?thesis using apart by (cases "PAL_USER \<in> flags") (auto simp: other_pool_def)
qed

lemma pool_mem_repooled: "repooled p U p' \<Longrightarrow> pool_mem p' = (\<Union>i\<in>U. span (page_at p i) PGSIZE)"
  by (simp add: pool_mem_def repooled_def page_at_def)

lemma pages_apart:
  assumes "A \<inter> B = {}"
  shows "(\<Union>i\<in>A. span (page_at p i) PGSIZE) \<inter> (\<Union>i\<in>B. span (page_at p i) PGSIZE) = {}"
proof -
  have "span (page_at p i) PGSIZE \<inter> span (page_at p j) PGSIZE = {}" if "i \<in> A" "j \<in> B" for i j
    using that assms by (intro span_page_disjoint) auto
  then show ?thesis by blast
qed

lemma mem_used_get:
  assumes st: "palloc_ok st" and t: "taken flags (bm_used (used_map (pool_of flags st)) \<union> {i..<i + n}) st st'"
    and i: "i + n \<le> bit_cnt (used_map (pool_of flags st))" "{i..<i + n} \<inter> bm_used (used_map (pool_of flags st)) = {}"
  shows "mem_used st' = mem_used st \<union> span (page_at (pool_of flags st) i) (PGSIZE * n)"
    "mem_used st \<inter> span (page_at (pool_of flags st) i) (PGSIZE * n) = {}"
proof -
  let ?p = "pool_of flags st" and ?R = "span (page_at (pool_of flags st) i) (PGSIZE * n)"
  have m: "pool_mem (pool_of flags st') = pool_mem ?p \<union> ?R"
    unfolding pool_mem_repooled [OF takenD(1) [OF t]] UN_Un span_pages by (simp add: pool_mem_def)
  then show "mem_used st' = mem_used st \<union> ?R" unfolding mem_used_split [of _ flags] takenD(2) [OF t] by blast
  have "pool_mem ?p \<inter> ?R = {}" using pages_apart [of "bm_used (used_map ?p)" "{i..<i + n}" ?p] i(2) unfolding span_pages pool_mem_def by blast
  then show "mem_used st \<inter> ?R = {}" using other_pool_apart [OF st run_range [OF i(1)]] unfolding mem_used_split [of _ flags] by blast
qed

lemma mem_used_free:
  assumes st: "palloc_ok st" and t: "taken flags (bm_used (used_map (pool_of flags st)) - {i..<i + n}) st st'"
    and i: "i + n \<le> bit_cnt (used_map (pool_of flags st))" "{i..<i + n} \<subseteq> bm_used (used_map (pool_of flags st))"
  shows "mem_used st = mem_used st' \<union> span (page_at (pool_of flags st) i) (PGSIZE * n)"
    "mem_used st' \<inter> span (page_at (pool_of flags st) i) (PGSIZE * n) = {}"
proof -
  let ?p = "pool_of flags st" and ?R = "span (page_at (pool_of flags st) i) (PGSIZE * n)"
  note m = pool_mem_repooled [OF takenD(1) [OF t]]
  have "bm_used (used_map ?p) = (bm_used (used_map ?p) - {i..<i + n}) \<union> {i..<i + n}" using i(2) by blast
  then have "pool_mem ?p = pool_mem (pool_of flags st') \<union> ?R" unfolding m span_pages [symmetric] pool_mem_def [of ?p] by (metis UN_Un)
  then show "mem_used st = mem_used st' \<union> ?R" unfolding mem_used_split [of _ flags] takenD(2) [OF t] by blast
  have "pool_mem (pool_of flags st') \<inter> ?R = {}"
    using pages_apart [of "bm_used (used_map ?p) - {i..<i + n}" "{i..<i + n}" ?p] unfolding span_pages m by blast
  then show "mem_used st' \<inter> ?R = {}" using other_pool_apart [OF st run_range [OF i(1)]] takenD(2) [OF t] unfolding mem_used_split [of _ flags] by auto
qed

section \<open>Single kernel pages\<close>

text \<open>The pages of the kernel pool that are in use; two of them never overlap.\<close>

definition kpages :: "pallocs \<Rightarrow> nat set" where
  "kpages st = page_at (kernel_pool st) ` bm_used (used_map (kernel_pool st))"

lemma kpages_facts:
  assumes "palloc_ok st" "p \<in> kpages st"
  shows "PGSIZE dvd p" "PHYS_BASE \<le> p" "p + PGSIZE \<le> 2 ^ 32" "p \<noteq> 0"
proof -
  obtain i where i: "p = page_at (kernel_pool st) i" "i < bit_cnt (used_map (kernel_pool st))" using assms(2) by (auto simp: kpages_def bm_used_def)
  have "pool_ok (kernel_pool st)" using assms(1) by (simp add: palloc_ok_def)
  from page_at_facts [OF this i(2)] i(1) show "PGSIZE dvd p" "PHYS_BASE \<le> p" "p + PGSIZE \<le> 2 ^ 32" "p \<noteq> 0" by simp_all
qed

lemma aligned_pages_apart:
  assumes "PGSIZE dvd p" "PGSIZE dvd q" "p \<noteq> q"
  shows "span p PGSIZE \<inter> span q PGSIZE = {}"
proof -
  obtain i j where ij: "p = PGSIZE * i" "q = PGSIZE * j" using assms by (auto elim!: dvdE)
  then have "i \<noteq> j" using assms(3) by auto
  then consider "i < j" | "j < i" by linarith
  then show ?thesis unfolding ij by cases (auto simp: span_def PGSIZE_eq)
qed

lemma pool_mem_kpages: "pool_mem (kernel_pool st) = (\<Union>p\<in>kpages st. span p PGSIZE)"
  by (simp add: pool_mem_def kpages_def)

lemma kpages_cong: "kernel_pool st' = kernel_pool st \<Longrightarrow> kpages st' = kpages st"
  by (simp add: kpages_def)

lemma kpages_repooled: "repooled (kernel_pool st) U (kernel_pool st') \<Longrightarrow> kpages st' = page_at (kernel_pool st) ` U"
  by (simp add: kpages_def repooled_def page_at_def fun_eq_iff image_def)

lemma page_at_inj: "page_at p i = page_at p j \<longleftrightarrow> i = j"
  by (simp add: page_at_def PGSIZE_eq)

lemma card_kpages: "card (kpages st) = card (bm_used (used_map (kernel_pool st)))"
  by (simp add: kpages_def card_image inj_on_def page_at_inj)

lemma kernel_pool_taken:
  assumes "PAL_USER \<notin> flags" "taken flags U st st'"
  shows "user_pool st' = user_pool st" "kpages st' = page_at (kernel_pool st) ` U" "bit_cnt (used_map (kernel_pool st')) = bit_cnt (used_map (kernel_pool st))"
  using takenD [OF assms(2)] assms(1) kpages_repooled [of st U st'] by (simp_all add: pool_of_def other_pool_def repooled_def)

text \<open>The addresses the kernel pool consists of.\<close>

definition kernel_range :: "pallocs \<Rightarrow> nat set" where
  "kernel_range st = {pool_base (kernel_pool st)..<pool_base (kernel_pool st) + PGSIZE * bit_cnt (used_map (kernel_pool st))}"

lemma kpages_in_range: "p \<in> kpages st \<Longrightarrow> span p PGSIZE \<subseteq> kernel_range st"
  using pool_mem_sub [of "kernel_pool st"] unfolding pool_mem_kpages kernel_range_def by blast

lemma kernel_range_taken: "PAL_USER \<notin> flags \<Longrightarrow> taken flags U st st' \<Longrightarrow> kernel_range st' = kernel_range st"
  using takenD(1) [of flags U st st'] by (simp add: kernel_range_def pool_of_def repooled_def)

definition page_run :: "nat \<Rightarrow> nat \<Rightarrow> nat set" where
  "page_run p n = (\<lambda>k. p + PGSIZE * k) ` {..<n}"

lemma page_at_run: "page_at q ` {i..<i + n} = page_run (page_at q i) n"
proof -
  have "{i..<i + n} = (\<lambda>k. i + k) ` {..<n}" by (simp add: lessThan_atLeast0 image_add_atLeastLessThan add.commute)
  then show ?thesis by (simp add: page_run_def page_at_def image_image algebra_simps)
qed

lemma get_kernel_pages:
  assumes st: "palloc_ok st" and f: "PAL_USER \<notin> flags" "PAL_ASSERT \<notin> flags" "PAL_ZERO \<notin> flags" and n: "0 < n"
  obtains (full) "palloc_get_multiple flags n st = Some (0, st)"
  | (got) p st' where "palloc_get_multiple flags n st = Some (p, st')" "p \<noteq> 0" "page_run p n \<inter> kpages st = {}" "kpages st' = kpages st \<union> page_run p n"
      "palloc_ok st'" "user_pool st' = user_pool st" "kernel_range st' = kernel_range st" "ram st' = ram st" "p + PGSIZE * n \<le> 2 ^ 32"
proof -
  let ?p = "pool_of flags st"
  have k: "?p = kernel_pool st" using f by (simp add: pool_of_def)
  have f': "PAL_USER \<notin> flags \<or> PAL_THROUGH_FRAME \<in> flags" using f by simp
  show thesis
  proof (cases "\<exists>i. i + n \<le> bit_cnt (used_map ?p) \<and> {i..<i + n} \<inter> bm_used (used_map ?p) = {}")
    case True
    obtain i st' where g: "palloc_get_multiple flags n st = Some (page_at ?p i, st')" "i + n \<le> bit_cnt (used_map ?p)" "{i..<i + n} \<inter> bm_used (used_map ?p) = {}"
        "taken flags (bm_used (used_map ?p) \<union> {i..<i + n}) st st'" "ram st' = (\<lambda>a. if PAL_ZERO \<in> flags \<and> page_at ?p i \<le> a \<and> a < page_at ?p i + PGSIZE * n then 0 else ram st a)"
      using palloc_get_multiple_ok [OF st n f' True] by blast
    note T = kernel_pool_taken [OF f(1) g(4)]
    have il: "i < bit_cnt (used_map ?p)" using g(2) n by simp
    have "kpages st' = kpages st \<union> page_run (page_at ?p i) n" using T(2) k page_at_run [of ?p i n] by (simp add: kpages_def image_Un)
    moreover have "page_run (page_at ?p i) n \<inter> kpages st = {}"
      using g(3) unfolding page_at_run [symmetric] kpages_def k by (auto simp: page_at_inj)
    moreover have "page_at ?p i + PGSIZE * n \<le> pool_base ?p + PGSIZE * bit_cnt (used_map ?p)"
    proof -
      have "PGSIZE * (i + n) \<le> PGSIZE * bit_cnt (used_map ?p)" using g(2) by (rule mult_left_mono) simp
      then show ?thesis by (simp add: page_at_def algebra_simps)
    qed
    then have "page_at ?p i + PGSIZE * n \<le> 2 ^ 32" using palloc_ok_pool [OF st, of flags] by (simp add: pool_ok_def)
    ultimately show thesis
      using got [of "page_at ?p i" st'] g(1,5) T(1) taken_ok [OF st g(4)] page_at_facts(2) [OF palloc_ok_pool [OF st] il] kernel_range_taken [OF f(1) g(4)] f(3) by simp
  next
    case False
    then show thesis using full palloc_get_multiple_full [OF st n f' False] f(2) by simp
  qed
qed

lemma free_kernel_pages:
  assumes st: "palloc_ok st" and n: "0 < n" and p: "page_run p n \<subseteq> kpages st"
  obtains st' where "palloc_free_multiple p n st = Some st'" "palloc_ok st'" "kpages st' = kpages st - page_run p n" "user_pool st' = user_pool st"
    "kernel_range st' = kernel_range st" "\<And>a. a \<notin> span p (PGSIZE * n) \<Longrightarrow> ram st' a = ram st a"
proof -
  let ?k = "kernel_pool st"
  have "p \<in> page_run p n" using n by (force simp: page_run_def)
  then obtain i where i: "p = page_at ?k i" "i \<in> bm_used (used_map ?k)" using p by (auto simp: kpages_def)
  have used: "i + j \<in> bm_used (used_map ?k)" if "j < n" for j
  proof -
    have "page_at ?k (i + j) \<in> page_run p n" using that i(1) by (auto simp: page_run_def page_at_def algebra_simps)
    then show ?thesis using p by (auto simp: kpages_def page_at_inj)
  qed
  have sub: "{i..<i + n} \<subseteq> bm_used (used_map ?k)"
  proof
    fix j assume "j \<in> {i..<i + n}"
    then have "j - i < n" "i + (j - i) = j" by auto
    then show "j \<in> bm_used (used_map ?k)" using used by metis
  qed
  have "i + (n - 1) < bit_cnt (used_map ?k)" using used [of "n - 1"] n by (simp add: bm_used_def)
  then have r: "i + n \<le> bit_cnt (used_map ?k)" using n by linarith
  have k: "?k = pool_of {} st" by (simp add: pool_of_def)
  obtain st' where st': "palloc_free_multiple p n st = Some st'" "taken {} (bm_used (used_map ?k) - {i..<i + n}) st st'"
      "ram st' = (\<lambda>a. if p \<le> a \<and> a < p + PGSIZE * n then 0xcc else ram st a)"
    using palloc_free_multiple_ok [OF st n k r sub] i(1) by blast
  note T = kernel_pool_taken [OF _ st'(2)]
  have "kpages st' = kpages st - page_run p n"
    using T(2) unfolding i(1) page_at_run [symmetric] by (auto simp: kpages_def page_at_inj)
  moreover have "ram st' a = ram st a" if "a \<notin> span p (PGSIZE * n)" for a using that st'(3) by (auto simp: span_def)
  ultimately show thesis using that [OF st'(1) taken_ok [OF st st'(2)]] T(1) kernel_range_taken [OF _ st'(2)] by simp
qed

lemma page_run_1 [simp]: "page_run p (Suc 0) = {p}"
  by (auto simp: page_run_def)

lemma get_kernel_page:
  assumes st: "palloc_ok st" and f: "PAL_USER \<notin> flags" and room: "PAL_ASSERT \<notin> flags \<or> card (kpages st) < bit_cnt (used_map (kernel_pool st))"
  obtains (full) "palloc_get_page flags st = Some (0, st)" "\<not> card (kpages st) < bit_cnt (used_map (kernel_pool st))"
  | (got) p st' where "palloc_get_page flags st = Some (p, st')" "p \<notin> kpages st" "kpages st' = insert p (kpages st)" "palloc_ok st'" "user_pool st' = user_pool st"
      "bit_cnt (used_map (kernel_pool st')) = bit_cnt (used_map (kernel_pool st))"
      "ram st' = (\<lambda>a. if PAL_ZERO \<in> flags \<and> a \<in> span p PGSIZE then 0 else ram st a)" "p \<noteq> 0" "kernel_range st' = kernel_range st"
proof -
  let ?p = "pool_of flags st"
  have k: "?p = kernel_pool st" using f by (simp add: pool_of_def)
  have e: "palloc_get_page flags st = palloc_get_multiple flags 1 st" using f by (simp add: palloc_get_page_def)
  have f': "PAL_USER \<notin> flags \<or> PAL_THROUGH_FRAME \<in> flags" using f by simp
  have fin: "bm_used (used_map ?p) \<subseteq> {0..<bit_cnt (used_map ?p)}" by (auto simp: bm_used_def)
  show thesis
  proof (cases "\<exists>i. i + 1 \<le> bit_cnt (used_map ?p) \<and> {i..<i + 1} \<inter> bm_used (used_map ?p) = {}")
    case True
    obtain i st' where g: "palloc_get_multiple flags 1 st = Some (page_at ?p i, st')" "i + 1 \<le> bit_cnt (used_map ?p)" "{i..<i + 1} \<inter> bm_used (used_map ?p) = {}"
        "taken flags (bm_used (used_map ?p) \<union> {i..<i + 1}) st st'"
        "ram st' = (\<lambda>a. if PAL_ZERO \<in> flags \<and> page_at ?p i \<le> a \<and> a < page_at ?p i + PGSIZE * 1 then 0 else ram st a)"
      using palloc_get_multiple_ok [OF st zero_less_one f' True] by blast
    note T = kernel_pool_taken [OF f g(4)]
    have "kpages st' = insert (page_at ?p i) (kpages st)" using T(2) k by (auto simp: kpages_def)
    moreover have "page_at ?p i \<notin> kpages st" using g(3) k by (auto simp: kpages_def page_at_inj)
    moreover have "i < bit_cnt (used_map ?p)" using g(2) by simp
    ultimately show thesis
      using got [of "page_at ?p i" st'] g(1,5) e T taken_ok [OF st g(4)] page_at_facts(2) [OF palloc_ok_pool [OF st]] kernel_range_taken [OF f g(4)] by (simp add: span_def)
  next
    case False
    have "{0..<bit_cnt (used_map ?p)} \<subseteq> bm_used (used_map ?p)"
    proof
      fix i assume i: "i \<in> {0..<bit_cnt (used_map ?p)}"
      then have "{i..<i + 1} \<inter> bm_used (used_map ?p) \<noteq> {}" using False by (metis Suc_eq_plus1 Suc_le_eq atLeastLessThan_iff)
      then show "i \<in> bm_used (used_map ?p)" by auto
    qed
    then have "card (kpages st) = bit_cnt (used_map (kernel_pool st))" using fin k by (simp add: card_kpages subset_antisym)
    then show thesis using full palloc_get_multiple_full [OF st zero_less_one f' False] e room by auto
  qed
qed

lemma free_kernel_page:
  assumes st: "palloc_ok st" and p: "p \<in> kpages st"
  obtains st' where "palloc_free_page p st = Some st'" "palloc_ok st'" "kpages st' = kpages st - {p}" "user_pool st' = user_pool st"
    "bit_cnt (used_map (kernel_pool st')) = bit_cnt (used_map (kernel_pool st))"
    "ram st' = (\<lambda>a. if a \<in> span p PGSIZE then 0xcc else ram st a)" "kernel_range st' = kernel_range st"
proof -
  obtain i where i: "p = page_at (kernel_pool st) i" "i \<in> bm_used (used_map (kernel_pool st))" using p by (auto simp: kpages_def)
  then have r: "i + 1 \<le> bit_cnt (used_map (kernel_pool st))" "{i..<i + 1} \<subseteq> bm_used (used_map (kernel_pool st))" by (auto simp: bm_used_def)
  have k: "kernel_pool st = pool_of {} st" by (simp add: pool_of_def)
  obtain st' where st': "palloc_free_multiple p 1 st = Some st'" "taken {} (bm_used (used_map (kernel_pool st)) - {i..<i + 1}) st st'"
      "ram st' = (\<lambda>a. if p \<le> a \<and> a < p + PGSIZE * 1 then 0xcc else ram st a)"
    using palloc_free_multiple_ok [OF st zero_less_one k r] i(1) by blast
  note T = kernel_pool_taken [OF _ st'(2)]
  have "kpages st' = kpages st - {p}" using T(2) i(1) by (auto simp: kpages_def page_at_inj)
  then show thesis using that [of st'] st' T taken_ok [OF st st'(2)] kernel_range_taken [OF _ st'(2)] by (simp add: palloc_free_page_def span_def)
qed

section \<open>Initialization\<close>

lemma create_in_buf:
  assumes n: "n \<le> 2 ^ 15" and sz: "bitmap_buf_size n \<le> sz"
  shows "\<exists>b. bitmap_create_in_buf n (map bs [0..<elem_cnt n]) sz = Some b \<and> bm_wf b \<and> bit_cnt b = n \<and> bm_used b = {}"
proof -
  let ?b = "\<lparr>bit_cnt = n, bits = map bs [0..<elem_cnt n]\<rparr>"
  have wf: "bm_wf ?b" using n by (simp add: bm_wf_def)
  obtain b where b: "bitmap_set_multiple ?b 0 n False = Some b" "bm_wf b" "bit_cnt b = n" "bm_abs b = set_range (bm_abs ?b) 0 n False"
    using bitmap_set_multiple_ok [OF wf, of 0 n False] by auto
  have "bm_used b = bm_used ?b - {0..<0 + n}" using bm_used_set_range [OF _ b(4)] b(3) by simp
  also have "\<dots> = {}" by (auto simp: bm_used_def)
  finally show ?thesis using b sz by (simp add: bitmap_create_in_buf_def bitmap_set_all_def bitmap_size_def)
qed

lemma bm_pages_bound:
  assumes "n \<le> 2 ^ 15"
  shows "DIV_ROUND_UP (bitmap_buf_size n) PGSIZE \<le> 2" "bitmap_buf_size n \<le> DIV_ROUND_UP (bitmap_buf_size n) PGSIZE * PGSIZE"
    "0 < DIV_ROUND_UP (bitmap_buf_size n) PGSIZE"
proof -
  have e: "elem_cnt n \<le> 1024" using assms by (simp add: elem_cnt_def DIV_ROUND_UP_def ELEM_BITS_def)
  then have s: "bitmap_buf_size n = 8 + 4 * elem_cnt n" by (simp add: bitmap_buf_size_def byte_cnt_def)
  then show "DIV_ROUND_UP (bitmap_buf_size n) PGSIZE \<le> 2" "0 < DIV_ROUND_UP (bitmap_buf_size n) PGSIZE" using e by (simp_all add: DIV_ROUND_UP_def PGSIZE_eq div_greater_zero_iff)
  show "bitmap_buf_size n \<le> DIV_ROUND_UP (bitmap_buf_size n) PGSIZE * PGSIZE"
    using DIV_ROUND_UP_covers [of PGSIZE "bitmap_buf_size n"] s e by (simp add: PGSIZE_eq mult.commute)
qed

lemma buf_size_mono: "m \<le> n \<Longrightarrow> n \<le> 2 ^ 15 \<Longrightarrow> bitmap_buf_size m \<le> bitmap_buf_size n"
proof -
  assume "m \<le> n" "n \<le> 2 ^ 15"
  then have "elem_cnt m \<le> elem_cnt n" "elem_cnt n \<le> 1024" by (simp_all add: elem_cnt_def DIV_ROUND_UP_def ELEM_BITS_def div_le_mono)
  then show ?thesis by (simp add: bitmap_buf_size_def byte_cnt_def)
qed

lemma init_kernel_pool_ok:
  assumes n: "2 \<le> n" "n \<le> 2 ^ 15" and base: "PHYS_BASE \<le> base" "PGSIZE dvd base" "base + PGSIZE * n \<le> 2 ^ 32"
  shows "\<exists>p. init_kernel_pool base n bs = Some p \<and> pool_ok p \<and> bm_used (used_map p) = {} \<and> pool_base p + PGSIZE * bit_cnt (used_map p) = base + PGSIZE * n
    \<and> n \<le> bit_cnt (used_map p) + 2"
proof -
  define k where "k = DIV_ROUND_UP (bitmap_buf_size n) PGSIZE"
  have k2: "k \<le> 2" using bm_pages_bound(1) [OF n(2)] by (simp add: k_def)
  have k: "k \<le> n" "bitmap_buf_size (n - k) \<le> k * PGSIZE"
    using bm_pages_bound [OF n(2)] n(1) buf_size_mono [of "n - k" n] n(2) unfolding k_def by linarith+
  have le: "n - k \<le> 2 ^ 15" using n(2) by linarith
  obtain b where b: "bitmap_create_in_buf (n - k) (map bs [0..<elem_cnt (n - k)]) (k * PGSIZE) = Some b" "bm_wf b" "bit_cnt b = n - k" "bm_used b = {}"
    using create_in_buf [OF le k(2), of bs] by blast
  have top: "base + k * PGSIZE + PGSIZE * (n - k) = base + PGSIZE * n" using k(1) by (simp add: diff_mult_distrib2 mult.commute)
  have "init_kernel_pool base n bs = Some \<lparr>used_map = b, pool_base = base + k * PGSIZE\<rparr>"
    using k(1) b(1) by (simp add: init_kernel_pool_def Let_def flip: k_def)
  then show ?thesis using b base top k2 by (simp add: pool_ok_def)
qed

lemma init_user_pool_ok:
  assumes n: "3 \<le> n" "n \<le> 2 ^ 15" and base: "PHYS_BASE \<le> base" "PGSIZE dvd base" "base + PGSIZE * n \<le> 2 ^ 32"
  shows "\<exists>p fr. init_user_pool base n bs = Some (p, fr) \<and> pool_ok p \<and> bm_used (used_map p) = {} \<and> base \<le> pool_base p
    \<and> pool_base p + PGSIZE * bit_cnt (used_map p) = base + PGSIZE * n \<and> n \<le> bit_cnt (used_map p) + 4 + n div 256"
proof -
  define k where "k = DIV_ROUND_UP (bitmap_buf_size n) PGSIZE"
  define f where "f = DIV_ROUND_UP (frame_map_init_get_size (n - k)) PGSIZE"
  have k: "k < n" using bm_pages_bound(1) [OF n(2)] n(1) unfolding k_def by linarith
  have f: "f \<le> n - k"
    using k n(2) by (simp add: f_def DIV_ROUND_UP_def frame_map_init_get_size_def PGSIZE_eq)
  have sz: "bitmap_buf_size (n - k - f) \<le> k * PGSIZE"
    using bm_pages_bound(2) [OF n(2)] buf_size_mono [of "n - k - f" n] n(2) unfolding k_def by linarith
  have le: "n - k - f \<le> 2 ^ 15" using n(2) by linarith
  obtain b where b: "bitmap_create_in_buf (n - k - f) (map bs [0..<elem_cnt (n - k - f)]) (k * PGSIZE) = Some b" "bm_wf b" "bit_cnt b = n - k - f" "bm_used b = {}"
    using create_in_buf [OF le sz, of bs] by blast
  have "k + f + (n - k - f) = n" using k f by simp
  then have top: "base + (k + f) * PGSIZE + PGSIZE * (n - k - f) = base + PGSIZE * n"
    by (metis add.assoc add_mult_distrib2 mult.commute)
  have "init_user_pool base n bs = Some (\<lparr>used_map = b, pool_base = base + (k + f) * PGSIZE\<rparr>, base + k * PGSIZE)"
    using k f b(1) by (simp add: init_user_pool_def Let_def flip: k_def f_def)
  moreover have "pool_ok \<lparr>used_map = b, pool_base = base + (k + f) * PGSIZE\<rparr>"
    using b base top by (simp add: pool_ok_def)
  moreover have "n \<le> bit_cnt b + 4 + n div 256"
  proof -
    have "k \<le> 2" using bm_pages_bound(1) [OF n(2)] by (simp add: k_def)
    moreover have "f \<le> n div 256 + 2" using n(2) by (simp add: f_def DIV_ROUND_UP_def frame_map_init_get_size_def PGSIZE_eq)
    ultimately show ?thesis using b(3) by simp
  qed
  ultimately show ?thesis using b(3,4) top by simp
qed

text \<open>Up to 64 MB of memory, which is what the loader maps.\<close>

lemma palloc_init_ok:
  assumes n: "264 \<le> n" "n \<le> 16384" and lim: "3 \<le> lim"
  shows "\<exists>st fr. palloc_init n lim kbs ubs m = Some (st, fr) \<and> palloc_ok st \<and> mem_used st = {} \<and> ram st = m
    \<and> bm_used (used_map (kernel_pool st)) = {} \<and> (n - 256) div 2 \<le> bit_cnt (used_map (kernel_pool st)) + 2
    \<and> bm_used (used_map (user_pool st)) = {} \<and> pool_base (user_pool st) + PGSIZE * bit_cnt (used_map (user_pool st)) = PHYS_BASE + PGSIZE * n
    \<and> min lim ((n - 256) div 2) \<le> bit_cnt (used_map (user_pool st)) + 4 + n div 256"
proof -
  define u where "u = (if lim < (n - 256) div 2 then lim else (n - 256) div 2)"
  have u: "3 \<le> u" "u \<le> (n - 256) div 2" using n lim by (auto simp: u_def)
  have fs: "ptov (1024 * 1024) = Some (PHYS_BASE + 1048576)" by (simp add: ptov_def PHYS_BASE_def)
  have fe: "ptov (n * PGSIZE) = Some (PHYS_BASE + n * PGSIZE)" using n by (simp add: ptov_def PHYS_BASE_def PGSIZE_eq)
  have fp: "(PHYS_BASE + n * PGSIZE - (PHYS_BASE + 1048576)) div PGSIZE = n - 256" using n(1) by (simp add: PGSIZE_eq)
  have "2 * u \<le> n - 256" using u(2) by linarith
  then have nb: "2 \<le> n - 256 - u" "n - 256 - u \<le> 2 ^ 15" "3 \<le> u" "u \<le> 2 ^ 15" "4 \<le> n - 256 - u" using u(1) n by simp_all
  have base: "PHYS_BASE \<le> PHYS_BASE + 1048576" "PGSIZE dvd PHYS_BASE + 1048576" "PHYS_BASE + 1048576 + PGSIZE * (n - 256 - u) \<le> 2 ^ 32"
    using n by (auto simp: PHYS_BASE_def PGSIZE_eq)
  have base': "PHYS_BASE \<le> PHYS_BASE + 1048576 + (n - 256 - u) * PGSIZE" "PGSIZE dvd PHYS_BASE + 1048576 + (n - 256 - u) * PGSIZE"
      "PHYS_BASE + 1048576 + (n - 256 - u) * PGSIZE + PGSIZE * u \<le> 2 ^ 32"
    using n u base(2) by (auto simp: PHYS_BASE_def PGSIZE_eq)
  obtain p where p: "init_kernel_pool (PHYS_BASE + 1048576) (n - 256 - u) kbs = Some p" "pool_ok p" "bm_used (used_map p) = {}"
      "pool_base p + PGSIZE * bit_cnt (used_map p) = PHYS_BASE + 1048576 + PGSIZE * (n - 256 - u)"
      "n - 256 - u \<le> bit_cnt (used_map p) + 2"
    using init_kernel_pool_ok [OF nb(1,2) base, of kbs] by blast
  obtain q fr where q: "init_user_pool (PHYS_BASE + 1048576 + (n - 256 - u) * PGSIZE) u ubs = Some (q, fr)" "pool_ok q" "bm_used (used_map q) = {}"
      "PHYS_BASE + 1048576 + (n - 256 - u) * PGSIZE \<le> pool_base q"
      "pool_base q + PGSIZE * bit_cnt (used_map q) = PHYS_BASE + 1048576 + (n - 256 - u) * PGSIZE + PGSIZE * u" "u \<le> bit_cnt (used_map q) + 4 + u div 256"
    using init_user_pool_ok [OF nb(3,4) base', of ubs] by blast
  have "palloc_init n lim kbs ubs m = Some (\<lparr>kernel_pool = p, user_pool = q, ram = m\<rparr>, fr)"
    unfolding palloc_init_def Let_def fs fe bind.bind_lunit fp u_def [symmetric] p(1) q(1) by simp
  moreover have "(n - 256) div 2 \<le> bit_cnt (used_map p) + 2" using p(5) u(2) by linarith
  moreover have "pool_base q + PGSIZE * bit_cnt (used_map q) = PHYS_BASE + PGSIZE * n" using q(5) u(2) n(1) by (simp add: PGSIZE_eq)
  moreover have "min lim ((n - 256) div 2) \<le> bit_cnt (used_map q) + 4 + n div 256"
  proof -
    have "u div 256 \<le> n div 256" using u(2) by (intro div_le_mono) linarith
    moreover have "min lim ((n - 256) div 2) = u" by (auto simp: u_def)
    ultimately show ?thesis using q(6) by linarith
  qed
  ultimately show ?thesis using p(2-4) q(2-4) by (auto simp: palloc_ok_def mem_used_def pool_mem_def mult.commute)
qed

section \<open>What the allocator guarantees\<close>

text \<open>\<open>palloc_get_multiple\<close> either returns the address of \<open>n\<close> consecutive pages none of which is in use, marks
  exactly these as used, zeroes them if asked to and touches no other byte of memory; or, when the pool has no such
  run, it returns the null pointer and changes nothing (or panics under \<open>PAL_ASSERT\<close>).\<close>

theorem palloc_get_fresh:
  assumes st: "palloc_ok st" and n: "0 < n" and f: "PAL_USER \<notin> flags \<or> PAL_THROUGH_FRAME \<in> flags"
  shows "case palloc_get_multiple flags n st of
      Some (p, st') \<Rightarrow> palloc_ok st'
        \<and> (if p = 0 then st' = st \<and> (\<forall>i. i + n \<le> bit_cnt (used_map (pool_of flags st)) \<longrightarrow> {i..<i + n} \<inter> bm_used (used_map (pool_of flags st)) \<noteq> {})
           else PGSIZE dvd p \<and> mem_used st \<inter> span p (PGSIZE * n) = {} \<and> mem_used st' = mem_used st \<union> span p (PGSIZE * n)
             \<and> ram st' = (\<lambda>a. if PAL_ZERO \<in> flags \<and> a \<in> span p (PGSIZE * n) then 0 else ram st a))
    | None \<Rightarrow> PAL_ASSERT \<in> flags"
proof (cases "\<exists>i. i + n \<le> bit_cnt (used_map (pool_of flags st)) \<and> {i..<i + n} \<inter> bm_used (used_map (pool_of flags st)) = {}")
  case True
  obtain i st' where g: "palloc_get_multiple flags n st = Some (page_at (pool_of flags st) i, st')"
      "i + n \<le> bit_cnt (used_map (pool_of flags st))" "{i..<i + n} \<inter> bm_used (used_map (pool_of flags st)) = {}"
      "taken flags (bm_used (used_map (pool_of flags st)) \<union> {i..<i + n}) st st'"
      "ram st' = (\<lambda>a. if PAL_ZERO \<in> flags \<and> page_at (pool_of flags st) i \<le> a \<and> a < page_at (pool_of flags st) i + PGSIZE * n then 0 else ram st a)"
    using palloc_get_multiple_ok [OF assms True] by blast
  have il: "i < bit_cnt (used_map (pool_of flags st))" using g(2) n by simp
  show ?thesis
    using g(1,5) page_at_facts(2,3) [OF palloc_ok_pool [OF st] il] mem_used_get [OF st g(4,2,3)] taken_ok [OF st g(4)] by (simp add: span_def)
next
  case False
  then show ?thesis using palloc_get_multiple_full [OF assms False] st by auto
qed

theorem palloc_get_fresh_witness:
  "\<exists>st. palloc_ok st \<and> (case palloc_get_multiple {PAL_ZERO} 2 st of
      Some (p, st') \<Rightarrow> palloc_ok st' \<and> (p = 0 \<longrightarrow> st' = st) | None \<Rightarrow> False)"
proof -
  obtain st fr where "palloc_init 1024 1000 (\<lambda>_. 0) (\<lambda>_. 0) (\<lambda>_. 0) = Some (st, fr)" "palloc_ok st"
    using palloc_init_ok [of 1024 1000 "\<lambda>_. 0" "\<lambda>_. 0" "\<lambda>_. 0"] by auto
  then show ?thesis using palloc_get_fresh [of st 2 "{PAL_ZERO}"] by (intro exI [of _ st]) (auto split: option.splits if_splits)
qed

text \<open>Pages that were allocated can be freed: \<open>palloc_free_multiple\<close> finds their pool, passes its assertions and
  makes exactly these pages available again.\<close>

theorem palloc_get_free_roundtrip:
  assumes st: "palloc_ok st" and f: "PAL_USER \<notin> flags \<or> PAL_THROUGH_FRAME \<in> flags"
    and get: "palloc_get_multiple flags n st = Some (p, st')" "p \<noteq> 0"
  shows "\<exists>st''. palloc_free_multiple p n st' = Some st'' \<and> palloc_ok st'' \<and> mem_used st'' = mem_used st
    \<and> (\<forall>a. a \<notin> span p (PGSIZE * n) \<longrightarrow> ram st'' a = ram st a)"
proof -
  have n: "0 < n" using get f by (cases n) (simp_all add: palloc_get_multiple_def)
  have free: "\<exists>i. i + n \<le> bit_cnt (used_map (pool_of flags st)) \<and> {i..<i + n} \<inter> bm_used (used_map (pool_of flags st)) = {}"
  proof (rule ccontr)
    assume "\<not> ?thesis"
    from palloc_get_multiple_full [OF st n f this] get show False by (cases "PAL_ASSERT \<in> flags") simp_all
  qed
  obtain i where i: "p = page_at (pool_of flags st) i" "i + n \<le> bit_cnt (used_map (pool_of flags st))"
      "{i..<i + n} \<inter> bm_used (used_map (pool_of flags st)) = {}" "taken flags (bm_used (used_map (pool_of flags st)) \<union> {i..<i + n}) st st'"
      "ram st' = (\<lambda>a. if PAL_ZERO \<in> flags \<and> p \<le> a \<and> a < p + PGSIZE * n then 0 else ram st a)"
    using palloc_get_multiple_ok [OF st n f free] get(1) by auto
  note T = takenD(1) [OF i(4), unfolded repooled_def]
  have p': "p = page_at (pool_of flags st') i" using T i(1) by (simp add: page_at_def)
  have r': "i + n \<le> bit_cnt (used_map (pool_of flags st'))" "{i..<i + n} \<subseteq> bm_used (used_map (pool_of flags st'))" using T i(2) by auto
  obtain st'' where st'': "palloc_free_multiple (page_at (pool_of flags st') i) n st' = Some st''"
      "taken flags (bm_used (used_map (pool_of flags st')) - {i..<i + n}) st' st''"
      "ram st'' = (\<lambda>a. if page_at (pool_of flags st') i \<le> a \<and> a < page_at (pool_of flags st') i + PGSIZE * n then 0xcc else ram st' a)"
    using palloc_free_multiple_ok [OF taken_ok [OF st i(4)] n refl r'] by blast
  have "mem_used st'' = mem_used st"
    using mem_used_free [OF taken_ok [OF st i(4)] st''(2) r'] mem_used_get [OF st i(4,2,3)] p' i(1) by auto
  then show ?thesis using st'' p' i(5) taken_ok [OF taken_ok [OF st i(4)] st''(2)] by (auto simp: span_def)
qed

theorem palloc_get_free_roundtrip_witness:
  "\<exists>st p st' st''. palloc_get_multiple {} 2 st = Some (p, st') \<and> p \<noteq> 0 \<and> palloc_free_multiple p 2 st' = Some st'' \<and> mem_used st'' = mem_used st"
proof -
  obtain st fr where st: "palloc_ok st" "bm_used (used_map (kernel_pool st)) = {}" "384 \<le> bit_cnt (used_map (kernel_pool st)) + 2"
    using palloc_init_ok [of 1024 1000 "\<lambda>_. 0" "\<lambda>_. 0" "\<lambda>_. 0"] by auto
  then have "\<exists>i. i + 2 \<le> bit_cnt (used_map (pool_of {} st)) \<and> {i..<i + 2} \<inter> bm_used (used_map (pool_of {} st)) = {}"
    by (intro exI [of _ 0]) (simp add: pool_of_def)
  from palloc_get_multiple_ok [OF st(1) _ _ this]
  obtain i st' where g: "palloc_get_multiple {} 2 st = Some (page_at (pool_of {} st) i, st')" "i + 2 \<le> bit_cnt (used_map (pool_of {} st))" by auto
  have "i < bit_cnt (used_map (pool_of {} st))" using g(2) by linarith
  note nz = page_at_facts(2) [OF palloc_ok_pool [OF st(1)] this]
  show ?thesis using palloc_get_free_roundtrip [OF st(1) _ g(1) nz] g(1) nz by blast
qed

end
