(* ===== verification/Pagedir.thy ===== *)
theory Pagedir
  imports Palloc
begin

unbundle bit_operations_syntax

text \<open>
  \<open>userprog/pagedir.c\<close> with \<open>threads/pte.h\<close>, and \<open>paging_init\<close> of \<open>threads/init.c\<close>: page directories and page tables
  as words in the memory of the page allocator.

  The processor is modelled as far as this code drives it: the register \<open>cr3\<close>, and the translation buffer \<open>tlb\<close> with
  the page table entries that were used since \<open>cr3\<close> was last written, which empties it.
\<close>

section \<open>Page table entries\<close>

definition PTSHIFT :: nat where
  "PTSHIFT = PGBITS"

definition PTBITS :: nat where
  "PTBITS = 10"

definition PDSHIFT :: nat where
  "PDSHIFT = PTSHIFT + PTBITS"

definition pt_no :: "nat \<Rightarrow> nat" where
  "pt_no va = va div 2 ^ PTSHIFT mod 2 ^ PTBITS"

definition pd_no :: "nat \<Rightarrow> nat" where
  "pd_no va = va div 2 ^ PDSHIFT"

definition PTE_ADDR :: "32 word" where "PTE_ADDR = 0xfffff000"
definition PTE_P :: "32 word" where "PTE_P = 0x1"
definition PTE_W :: "32 word" where "PTE_W = 0x2"
definition PTE_U :: "32 word" where "PTE_U = 0x4"
definition PTE_A :: "32 word" where "PTE_A = 0x20"
definition PTE_D :: "32 word" where "PTE_D = 0x40"

definition pde_create :: "nat \<Rightarrow> 32 word option" where
  "pde_create pt = do { kassert (pg_ofs pt = 0); p \<leftarrow> vtop pt; Some (of_nat p OR PTE_U OR PTE_P OR PTE_W) }"

definition pde_get_pt :: "32 word \<Rightarrow> nat option" where
  "pde_get_pt pde = do { kassert (pde AND PTE_P \<noteq> 0); ptov (unat (pde AND PTE_ADDR)) }"

definition pte_create_kernel :: "nat \<Rightarrow> bool \<Rightarrow> 32 word option" where
  "pte_create_kernel page writable =
     do { kassert (pg_ofs page = 0); p \<leftarrow> vtop page; Some (of_nat p OR PTE_P OR (if writable then PTE_W else 0)) }"

definition pte_create_user :: "nat \<Rightarrow> bool \<Rightarrow> 32 word option" where
  "pte_create_user page writable = do { e \<leftarrow> pte_create_kernel page writable; Some (e OR PTE_U) }"

definition pte_get_page :: "32 word \<Rightarrow> nat option" where
  "pte_get_page pte = ptov (unat (pte AND PTE_ADDR))"

section \<open>The functions of the source\<close>

record mmu =
  phys :: pallocs
  init_page_dir :: nat
  init_ram_pages :: nat
  cr3 :: nat
  tlb :: "nat \<Rightarrow> 32 word option"

text \<open>\<open>*p\<close> and \<open>*p = w\<close> for a pointer to an entry.\<close>

definition rd :: "mmu \<Rightarrow> nat \<Rightarrow> 32 word" where
  "rd st a = ld32 (ram (phys st)) a"

definition wr :: "nat \<Rightarrow> 32 word \<Rightarrow> mmu \<Rightarrow> mmu" where
  "wr a w st = st\<lparr>phys := phys st\<lparr>ram := st32 a w (ram (phys st))\<rparr>\<rparr>"

definition lookup_page :: "nat \<Rightarrow> nat \<Rightarrow> bool \<Rightarrow> mmu \<Rightarrow> (nat \<times> mmu) option" where
  "lookup_page pd vaddr create st =
     do {
       kassert (pd \<noteq> 0);
       kassert (\<not> create \<or> is_user_vaddr vaddr);
       let pde = pd + 4 * pd_no vaddr;
       (found, st) \<leftarrow>
         (if rd st pde = 0
          then if create
            then do {
              (pt, p) \<leftarrow> palloc_get_page {PAL_ZERO} (phys st);
              let st = st\<lparr>phys := p\<rparr>;
              if pt = 0 then Some (False, st)
              else do { e \<leftarrow> pde_create pt; Some (True, wr pde e st) }
            }
            else Some (False, st)
          else Some (True, st));
       if found then do { pt \<leftarrow> pde_get_pt (rd st pde); Some (pt + 4 * pt_no vaddr, st) } else Some (0, st)
     }"

definition pagedir_activate :: "nat \<Rightarrow> mmu \<Rightarrow> mmu option" where
  "pagedir_activate pd st =
     do {
       let pd = (if pd = 0 then init_page_dir st else pd);
       p \<leftarrow> vtop pd;
       Some (st\<lparr>cr3 := p, tlb := \<lambda>_. None\<rparr>)
     }"

definition active_pd :: "mmu \<Rightarrow> nat option" where
  "active_pd st = ptov (cr3 st)"

definition invalidate_pagedir :: "nat \<Rightarrow> mmu \<Rightarrow> mmu option" where
  "invalidate_pagedir pd st = do { a \<leftarrow> active_pd st; if a = pd then pagedir_activate pd st else Some st }"

definition pagedir_create :: "mmu \<Rightarrow> (nat \<times> mmu) option" where
  "pagedir_create st =
     do {
       (pd, p) \<leftarrow> palloc_get_page {} (phys st);
       if pd \<noteq> 0
       then do { (_, m) \<leftarrow> memcpy pd (init_page_dir st) PGSIZE (ram p); Some (pd, st\<lparr>phys := p\<lparr>ram := m\<rparr>\<rparr>) }
       else Some (pd, st\<lparr>phys := p\<rparr>)
     }"

definition free_table :: "nat \<Rightarrow> nat \<Rightarrow> mmu \<Rightarrow> mmu option" where
  "free_table pd i st =
     (if rd st (pd + 4 * i) AND PTE_P \<noteq> 0
      then do { pt \<leftarrow> pde_get_pt (rd st (pd + 4 * i)); p \<leftarrow> palloc_free_page pt (phys st); Some (st\<lparr>phys := p\<rparr>) }
      else Some st)"

definition pagedir_destroy :: "nat \<Rightarrow> mmu \<Rightarrow> mmu option" where
  "pagedir_destroy pd st =
     (if pd = 0 then Some st
      else do {
        kassert (pd \<noteq> init_page_dir st);
        st \<leftarrow> mfold (free_table pd) [0..<pd_no PHYS_BASE] st;
        p \<leftarrow> palloc_free_page pd (phys st);
        Some (st\<lparr>phys := p\<rparr>)
      })"

definition pagedir_set_page :: "nat \<Rightarrow> nat \<Rightarrow> nat \<Rightarrow> bool \<Rightarrow> mmu \<Rightarrow> (bool \<times> mmu) option" where
  "pagedir_set_page pd upage kpage writable st =
     do {
       kassert (pg_ofs upage = 0);
       kassert (pg_ofs kpage = 0);
       kassert (is_user_vaddr upage);
       p \<leftarrow> vtop kpage;
       kassert (p div 2 ^ PTSHIFT < init_ram_pages st);
       kassert (pd \<noteq> init_page_dir st);
       kassert (pd \<noteq> 0);
       (pte, st) \<leftarrow> lookup_page pd upage True st;
       if pte \<noteq> 0
       then do {
         kassert (rd st pte AND PTE_P = 0);
         e \<leftarrow> pte_create_user kpage writable;
         Some (True, wr pte e st)
       }
       else Some (False, st)
     }"

definition pagedir_get_page :: "nat \<Rightarrow> nat \<Rightarrow> mmu \<Rightarrow> nat option" where
  "pagedir_get_page pd uaddr st =
     do {
       kassert (is_user_vaddr uaddr);
       kassert (pd \<noteq> 0);
       (pte, st) \<leftarrow> lookup_page pd uaddr False st;
       if pte \<noteq> 0 \<and> rd st pte AND PTE_P \<noteq> 0
       then do { page \<leftarrow> pte_get_page (rd st pte); Some (page + pg_ofs uaddr) }
       else Some 0
     }"

definition pageir_set_kernel_access :: "nat \<Rightarrow> nat \<Rightarrow> bool \<Rightarrow> mmu \<Rightarrow> mmu option" where
  "pageir_set_kernel_access pd uaddr kernelonly st =
     do {
       kassert (pd \<noteq> 0);
       kassert (uaddr \<noteq> 0);
       kassert (pg_ofs uaddr = 0);
       kassert (is_user_vaddr uaddr);
       (pte, st) \<leftarrow> lookup_page pd uaddr False st;
       kassert (pte \<noteq> 0);
       kassert (rd st pte \<noteq> 0);
       if rd st pte AND PTE_P \<noteq> 0
       then invalidate_pagedir pd (wr pte (if kernelonly then rd st pte AND NOT PTE_U else rd st pte OR PTE_U) st)
       else Some st
     }"

definition pagedir_clear_page :: "nat \<Rightarrow> nat \<Rightarrow> mmu \<Rightarrow> mmu option" where
  "pagedir_clear_page pd upage st =
     do {
       kassert (pg_ofs upage = 0);
       kassert (is_user_vaddr upage);
       kassert (pd \<noteq> 0);
       (pte, st) \<leftarrow> lookup_page pd upage False st;
       if pte \<noteq> 0 then invalidate_pagedir pd (wr pte (rd st pte AND NOT PTE_P) st) else Some st
     }"

definition pagedir_is_dirty :: "nat \<Rightarrow> nat \<Rightarrow> mmu \<Rightarrow> bool option" where
  "pagedir_is_dirty pd vpage st =
     do { kassert (pd \<noteq> 0); (pte, st) \<leftarrow> lookup_page pd vpage False st; Some (pte \<noteq> 0 \<and> rd st pte AND PTE_D \<noteq> 0) }"

definition pagedir_set_dirty :: "nat \<Rightarrow> nat \<Rightarrow> bool \<Rightarrow> mmu \<Rightarrow> mmu option" where
  "pagedir_set_dirty pd vpage dirty st =
     do {
       kassert (pd \<noteq> 0);
       (pte, st) \<leftarrow> lookup_page pd vpage False st;
       if pte \<noteq> 0
       then if dirty then Some (wr pte (rd st pte OR PTE_D) st)
         else invalidate_pagedir pd (wr pte (rd st pte AND NOT PTE_D) st)
       else Some st
     }"

definition pagedir_is_accessed :: "nat \<Rightarrow> nat \<Rightarrow> mmu \<Rightarrow> bool option" where
  "pagedir_is_accessed pd vpage st =
     do { kassert (pd \<noteq> 0); (pte, st) \<leftarrow> lookup_page pd vpage False st; Some (pte \<noteq> 0 \<and> rd st pte AND PTE_A \<noteq> 0) }"

definition pagedir_set_accessed :: "nat \<Rightarrow> nat \<Rightarrow> bool \<Rightarrow> mmu \<Rightarrow> mmu option" where
  "pagedir_set_accessed pd vpage accessed st =
     do {
       kassert (pd \<noteq> 0);
       (pte, st) \<leftarrow> lookup_page pd vpage False st;
       if pte \<noteq> 0
       then if accessed then Some (wr pte (rd st pte OR PTE_A) st)
         else invalidate_pagedir pd (wr pte (rd st pte AND NOT PTE_A) st)
       else Some st
     }"

text \<open>\<open>paging_init\<close>; \<open>text_start\<close> and \<open>text_end\<close> are the linker's symbols \<open>_start\<close> and \<open>_end_kernel_text\<close>. The
  state of the loop is the variable \<open>pt\<close> and the memory.\<close>

definition map_ram_page :: "nat \<Rightarrow> nat \<Rightarrow> nat \<Rightarrow> nat \<Rightarrow> nat \<times> mmu \<Rightarrow> (nat \<times> mmu) option" where
  "map_ram_page text_start text_end pd page = (\<lambda>(pt, st).
     do {
       vaddr \<leftarrow> ptov (page * PGSIZE);
       let in_kernel_text = (text_start \<le> vaddr \<and> vaddr < text_end);
       (pt, st) \<leftarrow>
         (if rd st (pd + 4 * pd_no vaddr) = 0
          then do {
            (pt, p) \<leftarrow> palloc_get_page {PAL_ASSERT, PAL_ZERO} (phys st);
            e \<leftarrow> pde_create pt;
            Some (pt, wr (pd + 4 * pd_no vaddr) e (st\<lparr>phys := p\<rparr>))
          }
          else Some (pt, st));
       e \<leftarrow> pte_create_kernel vaddr (\<not> in_kernel_text);
       Some (pt, wr (pt + 4 * pt_no vaddr) e st)
     })"

definition paging_init :: "nat \<Rightarrow> nat \<Rightarrow> mmu \<Rightarrow> mmu option" where
  "paging_init text_start text_end st =
     do {
       (pd, p) \<leftarrow> palloc_get_page {PAL_ASSERT, PAL_ZERO} (phys st);
       let st = st\<lparr>phys := p, init_page_dir := pd\<rparr>;
       (_, st) \<leftarrow> mfold (map_ram_page text_start text_end pd) [0..<init_ram_pages st] (0, st);
       c \<leftarrow> vtop pd;
       Some (st\<lparr>cr3 := c, tlb := \<lambda>_. None\<rparr>)
     }"

section \<open>Words\<close>

lemma PTE_ADDR_mask: "PTE_ADDR = NOT (mask 12)"
  by (simp add: PTE_ADDR_def mask_eq_exp_minus_1)

lemma PTE_exp: "PTE_P = 2 ^ 0" "PTE_W = 2 ^ 1" "PTE_U = 2 ^ 2" "PTE_A = 2 ^ 5" "PTE_D = 2 ^ 6"
  by (simp_all add: PTE_P_def PTE_W_def PTE_U_def PTE_A_def PTE_D_def)

lemma bit_flags [simp]:
  "w AND PTE_P = 0 \<longleftrightarrow> \<not> bit w 0" "w AND PTE_D = 0 \<longleftrightarrow> \<not> bit w 6" "w AND PTE_A = 0 \<longleftrightarrow> \<not> bit w 5"
  unfolding PTE_exp by (rule and_exp_eq_0_iff_not_bit)+

lemma bit_of_flags [simp]:
  "bit PTE_P n \<longleftrightarrow> n = 0" "bit PTE_W n \<longleftrightarrow> n = 1" "bit PTE_U n \<longleftrightarrow> n = 2" "bit PTE_A n \<longleftrightarrow> n = 5" "bit PTE_D n \<longleftrightarrow> n = 6"
  unfolding PTE_exp bit_exp_iff by auto

lemma bit_PTE_ADDR [simp]: "bit PTE_ADDR n \<longleftrightarrow> 12 \<le> n \<and> n < 32"
  by (auto simp: PTE_ADDR_mask bit_simps)

text \<open>A page address leaves the flag bits of a word free.\<close>

lemma bit_page_word:
  assumes "PGSIZE dvd v" "n < 12"
  shows "\<not> bit (of_nat v :: 32 word) n"
proof -
  obtain q where "v = 2 ^ 12 * q" using assms(1) by (auto simp: PGSIZE_def PGBITS_def elim!: dvdE)
  then have "(of_nat v :: 32 word) = push_bit 12 (of_nat q)" by (simp add: push_bit_eq_mult)
  then show ?thesis using assms(2) by (simp add: bit_simps)
qed

definition page_word :: "nat \<Rightarrow> bool" where
  "page_word k \<longleftrightarrow> PGSIZE dvd k \<and> PHYS_BASE \<le> k \<and> k < 2 ^ 32"

lemma page_word_address:
  assumes k: "page_word k" and f: "\<And>n. bit f n \<Longrightarrow> n < 12"
  shows "unat ((of_nat (k - PHYS_BASE) OR f) AND PTE_ADDR) = k - PHYS_BASE"
proof -
  have d: "PGSIZE dvd k - PHYS_BASE" using k by (intro dvd_diff_nat) (simp_all add: page_word_def PHYS_BASE_def PGSIZE_eq)
  have "((of_nat (k - PHYS_BASE) :: 32 word) OR f) AND PTE_ADDR = of_nat (k - PHYS_BASE)"
  proof (rule bit_word_eqI)
    fix n assume "n < LENGTH(32)"
    then show "bit (((of_nat (k - PHYS_BASE) :: 32 word) OR f) AND PTE_ADDR) n = bit (of_nat (k - PHYS_BASE) :: 32 word) n"
      using bit_page_word [OF d, of n] f [of n] by (cases "n < 12") (auto simp: bit_simps)
  qed
  moreover have "k - PHYS_BASE < 2 ^ LENGTH(32)" using k by (simp add: page_word_def) linarith
  ultimately show ?thesis by (simp add: unsigned_of_nat take_bit_nat_eq_self)
qed

lemma page_word_phys:
  assumes "page_word k"
  shows "pg_ofs k = 0" "vtop k = Some (k - PHYS_BASE)" "ptov (k - PHYS_BASE) = Some k" "k \<noteq> 0"
  using assms by (auto simp: page_word_def pg_ofs_def vtop_def ptov_def is_kernel_vaddr_def PHYS_BASE_def)

lemma pde_create_ok:
  assumes "page_word pt"
  obtains e where "pde_create pt = Some e" "bit e 0" "pde_get_pt e = Some pt" "e \<noteq> 0" "PHYS_BASE + unat (e AND PTE_ADDR) = pt"
proof -
  let ?e = "of_nat (pt - PHYS_BASE) OR PTE_U OR PTE_P OR PTE_W :: 32 word"
  note W = page_word_phys [OF assms]
  have a: "unat (?e AND PTE_ADDR) = pt - PHYS_BASE" by (rule page_word_address [OF assms]) (auto simp: bit_simps)
  have b: "bit ?e 0" by (simp add: bit_simps)
  then have "?e \<noteq> 0" by (metis bit_0_eq bot_apply bot_bool_def)
  then show thesis using that [of ?e] W a b assms by (simp add: pde_create_def pde_get_pt_def page_word_def)
qed

lemma pte_create_ok:
  assumes "page_word k"
  obtains e where "pte_create_user k w = Some e" "bit e 0" "bit e 1 = w" "bit e 2" "\<not> bit e 5" "\<not> bit e 6" "unat (e AND PTE_ADDR) = k - PHYS_BASE" "pte_get_page e = Some k"
proof -
  let ?e = "of_nat (k - PHYS_BASE) OR PTE_P OR (if w then PTE_W else 0) OR PTE_U :: 32 word"
  note W = page_word_phys [OF assms]
  have d: "PGSIZE dvd k - PHYS_BASE" using assms by (intro dvd_diff_nat) (simp_all add: page_word_def PHYS_BASE_def PGSIZE_eq)
  have a: "unat (?e AND PTE_ADDR) = k - PHYS_BASE" by (rule page_word_address [OF assms]) (auto simp: bit_simps split: if_splits)
  show thesis using that [of ?e] W a bit_page_word [OF d, of 1] bit_page_word [OF d, of 5] bit_page_word [OF d, of 6]
    by (auto simp: pte_create_user_def pte_create_kernel_def pte_get_page_def bit_simps or.assoc)
qed

section \<open>Directories and their tables\<close>

text \<open>A virtual address is a page number and an offset; the page number is an index of the directory and one of a table.\<close>

lemma pt_pd_no: "pd_no va = pg_no va div 1024" "pt_no va = pg_no va mod 1024" "pt_no va < 1024"
  by (simp_all add: pd_no_def pt_no_def pg_no_def PDSHIFT_def PTSHIFT_def PTBITS_def PGSIZE_def PGBITS_def div_mult2_eq [symmetric])

definition USER_PAGES :: nat where
  "USER_PAGES = 786432"

lemma user_pg_no: "is_user_vaddr va \<longleftrightarrow> pg_no va < USER_PAGES"
  by (simp add: is_user_vaddr_def PHYS_BASE_def pg_no_def PGSIZE_eq USER_PAGES_def div_less_iff_less_mult)

lemma pd_no_PHYS_BASE [simp]: "pd_no PHYS_BASE = 768"
  by (simp add: pd_no_def PHYS_BASE_def PDSHIFT_def PTSHIFT_def PGBITS_def PTBITS_def)

lemma user_index: "n < USER_PAGES \<Longrightarrow> n div 1024 < 768"
  by (simp add: USER_PAGES_def div_less_iff_less_mult)

definition pde_at :: "mmu \<Rightarrow> nat \<Rightarrow> nat \<Rightarrow> 32 word" where
  "pde_at st pd i = rd st (pd + 4 * i)"

definition table_at :: "mmu \<Rightarrow> nat \<Rightarrow> nat \<Rightarrow> nat" where
  "table_at st pd i = PHYS_BASE + unat (pde_at st pd i AND PTE_ADDR)"

text \<open>The entry of a page, given by its number; 0 when its table is missing.\<close>

definition pte_at :: "mmu \<Rightarrow> nat \<Rightarrow> nat \<Rightarrow> 32 word" where
  "pte_at st pd n = (if pde_at st pd (n div 1024) = 0 then 0 else rd st (table_at st pd (n div 1024) + 4 * (n mod 1024)))"

definition tables :: "mmu \<Rightarrow> nat \<Rightarrow> nat set" where
  "tables st pd = {i. i < 768 \<and> pde_at st pd i \<noteq> 0}"

text \<open>The user half of a directory: each table it names is a page of its own, and each present entry names a page.\<close>

definition dir_ok :: "mmu \<Rightarrow> nat \<Rightarrow> bool" where
  "dir_ok st pd \<longleftrightarrow> pd \<in> kpages (phys st) \<and> inj_on (table_at st pd) (tables st pd)
     \<and> (\<forall>i\<in>tables st pd. bit (pde_at st pd i) 0 \<and> table_at st pd i \<in> kpages (phys st) - {pd})
     \<and> (\<forall>n<USER_PAGES. bit (pte_at st pd n) 0 \<longrightarrow> page_word (PHYS_BASE + unat (pte_at st pd n AND PTE_ADDR)))"

definition owned :: "mmu \<Rightarrow> nat \<Rightarrow> nat set" where
  "owned st pd = insert pd (table_at st pd ` tables st pd)"

lemma entries_distinct:
  assumes "PGSIZE dvd p" "PGSIZE dvd q" "i < 1024" "j < 1024"
  shows "p + 4 * i = q + 4 * j \<longleftrightarrow> p = q \<and> i = j"
proof
  assume e: "p + 4 * i = q + 4 * j"
  obtain a b where ab: "p = 4096 * a" "q = 4096 * b" using assms by (auto simp: PGSIZE_eq elim!: dvdE)
  have "(p + 4 * i) div 4096 = a" "(q + 4 * j) div 4096 = b" using assms(3,4) unfolding ab by simp_all
  then have "a = b" using e by simp
  then show "p = q \<and> i = j" using e ab by simp
qed simp

lemma rd_wr_same [simp]: "rd (wr a w st) a = w"
  by (simp add: rd_def wr_def)

lemma rd_wr_entry:
  assumes "PGSIZE dvd p" "PGSIZE dvd q" "i < 1024" "j < 1024"
  shows "rd (wr (p + 4 * i) w st) (q + 4 * j) = (if p = q \<and> i = j then w else rd st (q + 4 * j))"
proof (cases "p + 4 * i = q + 4 * j")
  case False
  obtain a b where ab: "p = 4096 * a" "q = 4096 * b" using assms by (auto simp: PGSIZE_eq elim!: dvdE)
  have "x \<noteq> y \<Longrightarrow> 4 * x + 4 \<le> 4 * y \<or> 4 * y + 4 \<le> 4 * x" for x y :: nat by presburger
  from this [of "1024 * a + i" "1024 * b + j"] have "4 * (1024 * a + i) + 4 \<le> 4 * (1024 * b + j) \<or> 4 * (1024 * b + j) + 4 \<le> 4 * (1024 * a + i)"
    using False unfolding ab by auto
  then have "rd (wr (p + 4 * i) w st) (q + 4 * j) = rd st (q + 4 * j)"
    by (simp add: rd_def wr_def ab ld32_st32_other algebra_simps)
  then show ?thesis using False by auto
qed (use entries_distinct [OF assms] in auto)

lemma wr_simps [simp]:
  "kpages (phys (wr a w st)) = kpages (phys st)" "init_page_dir (wr a w st) = init_page_dir st" "init_ram_pages (wr a w st) = init_ram_pages st"
  "cr3 (wr a w st) = cr3 st" "tlb (wr a w st) = tlb st" "palloc_ok (phys (wr a w st)) = palloc_ok (phys st)"
  "kernel_pool (phys (wr a w st)) = kernel_pool (phys st)" "user_pool (phys (wr a w st)) = user_pool (phys st)"
  by (simp_all add: wr_def kpages_def palloc_ok_def)

definition mmu_ok :: "mmu \<Rightarrow> bool" where
  "mmu_ok st \<longleftrightarrow> palloc_ok (phys st) \<and> page_word (PHYS_BASE + cr3 st)"

lemma dir_facts:
  assumes st: "mmu_ok st" and d: "dir_ok st pd"
  shows "PGSIZE dvd pd" "pd \<noteq> 0" "page_word pd"
    "\<And>i. i \<in> tables st pd \<Longrightarrow> PGSIZE dvd table_at st pd i" "\<And>i. i \<in> tables st pd \<Longrightarrow> page_word (table_at st pd i)"
    "\<And>i. i \<in> tables st pd \<Longrightarrow> pde_get_pt (pde_at st pd i) = Some (table_at st pd i)" "\<And>i. i \<in> tables st pd \<Longrightarrow> table_at st pd i \<noteq> pd"
proof -
  have ok: "palloc_ok (phys st)" using st by (simp add: mmu_ok_def)
  have pd: "pd \<in> kpages (phys st)" using d by (simp add: dir_ok_def)
  have pw: "page_word p" "p \<noteq> 0" if "p \<in> kpages (phys st)" for p using kpages_facts [OF ok that] by (auto simp: page_word_def PGSIZE_eq)
  show "PGSIZE dvd pd" "pd \<noteq> 0" "page_word pd" using kpages_facts [OF ok pd] pw [OF pd] by simp_all
  fix i assume i: "i \<in> tables st pd"
  then have t: "bit (pde_at st pd i) 0" "table_at st pd i \<in> kpages (phys st)" "table_at st pd i \<noteq> pd" using d by (auto simp: dir_ok_def)
  show "PGSIZE dvd table_at st pd i" "page_word (table_at st pd i)" "table_at st pd i \<noteq> pd" using kpages_facts [OF ok t(2)] pw [OF t(2)] t(3) by simp_all
  then have "table_at st pd i - PHYS_BASE = unat (pde_at st pd i AND PTE_ADDR)" by (simp add: table_at_def)
  then show "pde_get_pt (pde_at st pd i) = Some (table_at st pd i)"
    using page_word_phys(3) [OF \<open>page_word (table_at st pd i)\<close>] t(1) by (simp add: pde_get_pt_def)
qed

text \<open>The directories of other states that agree on the pages it owns.\<close>

definition same_pages :: "nat set \<Rightarrow> mmu \<Rightarrow> mmu \<Rightarrow> bool" where
  "same_pages P st st' \<longleftrightarrow> (\<forall>p\<in>P. \<forall>i<1024. rd st' (p + 4 * i) = rd st (p + 4 * i))"

lemma same_pages_dir:
  assumes "same_pages (owned st pd) st st'"
  shows "i < 1024 \<Longrightarrow> pde_at st' pd i = pde_at st pd i" "i < 1024 \<Longrightarrow> table_at st' pd i = table_at st pd i" "tables st' pd = tables st pd"
    "owned st' pd = owned st pd" "n < USER_PAGES \<Longrightarrow> pte_at st' pd n = pte_at st pd n"
proof -
  have p: "pde_at st' pd i = pde_at st pd i" if "i < 1024" for i
    using assms that by (simp add: same_pages_def owned_def pde_at_def)
  then have t: "table_at st' pd i = table_at st pd i" if "i < 1024" for i using that by (simp add: table_at_def)
  have ts: "tables st' pd = tables st pd" using p by (auto simp: tables_def)
  then show "tables st' pd = tables st pd" .
  show "owned st' pd = owned st pd" unfolding owned_def ts using t by (auto simp: tables_def intro!: image_cong)
  show "i < 1024 \<Longrightarrow> pde_at st' pd i = pde_at st pd i" "i < 1024 \<Longrightarrow> table_at st' pd i = table_at st pd i" using p t by blast+
  assume n: "n < USER_PAGES"
  note i = user_index [OF n]
  show "pte_at st' pd n = pte_at st pd n"
  proof (cases "pde_at st pd (n div 1024) = 0")
    case False
    then have "table_at st pd (n div 1024) \<in> owned st pd" using i by (simp add: owned_def tables_def)
    then have "rd st' (table_at st pd (n div 1024) + 4 * (n mod 1024)) = rd st (table_at st pd (n div 1024) + 4 * (n mod 1024))"
      using assms by (simp add: same_pages_def)
    then show ?thesis using p [of "n div 1024"] t [of "n div 1024"] i by (simp add: pte_at_def)
  qed (use p [of "n div 1024"] i in \<open>simp add: pte_at_def\<close>)
qed

lemma same_pages_ok:
  assumes "dir_ok st pd" "same_pages (owned st pd) st st'" "owned st pd \<subseteq> kpages (phys st')"
  shows "dir_ok st' pd"
proof -
  note S = same_pages_dir [OF assms(2)]
  have "i < 1024" if "i \<in> tables st pd" for i using that by (simp add: tables_def)
  then have "inj_on (table_at st' pd) (tables st pd)" using assms(1) S(2) by (simp add: dir_ok_def inj_on_def)
  moreover have "\<forall>n<USER_PAGES. bit (pte_at st' pd n) 0 \<longrightarrow> page_word (PHYS_BASE + unat (pte_at st' pd n AND PTE_ADDR))"
    using assms(1) S(5) by (simp add: dir_ok_def)
  moreover have "bit (pde_at st' pd i) 0 \<and> table_at st' pd i \<in> kpages (phys st') - {pd}" if "i \<in> tables st pd" for i
    using that assms(1,3) S(1,2) \<open>\<And>i. i \<in> tables st pd \<Longrightarrow> i < 1024\<close> by (auto simp: dir_ok_def owned_def)
  ultimately show ?thesis using assms(3) unfolding dir_ok_def S(3) by (auto simp: owned_def S(5))
qed

section \<open>What an operation on one directory may change\<close>

definition dir_step :: "nat \<Rightarrow> mmu \<Rightarrow> mmu \<Rightarrow> bool" where
  "dir_step pd st st' \<longleftrightarrow> mmu_ok st' \<and> dir_ok st' pd \<and> kpages (phys st) \<subseteq> kpages (phys st') \<and> owned st pd \<subseteq> owned st' pd
     \<and> owned st' pd \<inter> kpages (phys st) \<subseteq> owned st pd \<and> same_pages (kpages (phys st) - owned st pd) st st'
     \<and> init_page_dir st' = init_page_dir st \<and> init_ram_pages st' = init_ram_pages st \<and> cr3 st' = cr3 st"

lemma owned_kpages: "dir_ok st pd \<Longrightarrow> owned st pd \<subseteq> kpages (phys st)"
  by (auto simp: dir_ok_def owned_def)

lemma dir_step_refl: "mmu_ok st \<Longrightarrow> dir_ok st pd \<Longrightarrow> dir_step pd st st"
  by (simp add: dir_step_def same_pages_def)

lemma dir_step_trans:
  assumes "dir_step pd st st1" "dir_step pd st1 st2"
  shows "dir_step pd st st2"
proof -
  have "same_pages (kpages (phys st) - owned st pd) st st2" unfolding same_pages_def
  proof (intro ballI allI impI)
    fix p i assume p: "p \<in> kpages (phys st) - owned st pd" and i: "i < (1024::nat)"
    then have "rd st1 (p + 4 * i) = rd st (p + 4 * i)" "p \<in> kpages (phys st1) - owned st1 pd" using assms(1) by (auto simp: dir_step_def same_pages_def)
    then show "rd st2 (p + 4 * i) = rd st (p + 4 * i)" using assms(2) i by (simp add: dir_step_def same_pages_def)
  qed
  moreover have "owned st2 pd \<inter> kpages (phys st) \<subseteq> owned st pd" using assms unfolding dir_step_def by blast
  ultimately show ?thesis using assms unfolding dir_step_def by auto
qed

lemma dir_step_other:
  assumes s: "dir_step pd st st'" and d: "dir_ok st pd2" and apart: "owned st pd2 \<inter> owned st pd = {}"
  shows "dir_ok st' pd2" "n < USER_PAGES \<Longrightarrow> pte_at st' pd2 n = pte_at st pd2 n" "owned st' pd2 = owned st pd2" "owned st' pd2 \<inter> owned st' pd = {}"
proof -
  have sub: "owned st pd2 \<subseteq> kpages (phys st) - owned st pd" using apart owned_kpages [OF d] by blast
  then have same: "same_pages (owned st pd2) st st'" using s unfolding dir_step_def same_pages_def by blast
  then show "dir_ok st' pd2" using same_pages_ok [OF d] sub s by (simp add: dir_step_def) blast
  note S = same_pages_dir [OF same]
  show "n < USER_PAGES \<Longrightarrow> pte_at st' pd2 n = pte_at st pd2 n" "owned st' pd2 = owned st pd2" using S by simp_all
  then show "owned st' pd2 \<inter> owned st' pd = {}" using s sub apart unfolding dir_step_def by blast
qed

section \<open>Looking up entries\<close>

lemma lookup_hit:
  assumes "mmu_ok st" "dir_ok st pd" "is_user_vaddr va" "pd_no va \<in> tables st pd"
  shows "lookup_page pd va c st = Some (table_at st pd (pd_no va) + 4 * pt_no va, st)"
  using dir_facts [OF assms(1,2)] assms(3,4) by (simp add: lookup_page_def tables_def flip: pde_at_def)

lemma lookup_miss:
  assumes "mmu_ok st" "dir_ok st pd" "is_user_vaddr va" "pd_no va \<notin> tables st pd"
  shows "lookup_page pd va False st = Some (0, st)" "pte_at st pd (pg_no va) = 0"
proof -
  have "pde_at st pd (pd_no va) = 0" using assms(3,4) by (simp add: tables_def user_pg_no user_index pt_pd_no)
  then show "lookup_page pd va False st = Some (0, st)" "pte_at st pd (pg_no va) = 0"
    using dir_facts(2) [OF assms(1,2)] by (simp_all add: lookup_page_def pte_at_def pt_pd_no flip: pde_at_def)
qed

lemma pte_at_hit:
  assumes "pd_no va \<in> tables st pd"
  shows "rd st (table_at st pd (pd_no va) + 4 * pt_no va) = pte_at st pd (pg_no va)"
  using assms by (simp add: pte_at_def pt_pd_no tables_def)

lemma rd_same_span:
  assumes "\<And>a. a \<in> span p PGSIZE \<Longrightarrow> ram (phys st') a = ram (phys st) a" "i < 1024"
  shows "rd st' (p + 4 * i) = rd st (p + 4 * i)"
  unfolding rd_def by (rule ld32_cong) (use assms in \<open>simp add: span_def PGSIZE_eq\<close>)

text \<open>Storing an entry of a table.\<close>

lemma store_entry:
  assumes st: "mmu_ok st" and d: "dir_ok st pd" and i: "i \<in> tables st pd" and j: "j < 1024"
    and w: "bit w 0 \<Longrightarrow> page_word (PHYS_BASE + unat (w AND PTE_ADDR))"
  defines "st' \<equiv> wr (table_at st pd i + 4 * j) w st"
  shows "dir_step pd st st'" "n < USER_PAGES \<Longrightarrow> pte_at st' pd n = (if n = i * 1024 + j then w else pte_at st pd n)" "owned st' pd = owned st pd"
proof -
  note F = dir_facts [OF st d]
  have rd': "rd st' (q + 4 * k) = (if q = table_at st pd i \<and> k = j then w else rd st (q + 4 * k))" if "PGSIZE dvd q" "k < 1024" for q k
    using rd_wr_entry [OF F(4) [OF i] that(1) j that(2), of w st] by (auto simp: st'_def)
  have p: "pde_at st' pd k = pde_at st pd k" if "k < 1024" for k using rd' [OF F(1) that] F(7) [OF i] by (auto simp: pde_at_def)
  then have t: "table_at st' pd k = table_at st pd k" if "k < 1024" for k using that by (simp add: table_at_def)
  have ts: "tables st' pd = tables st pd" using p by (auto simp: tables_def)
  have small: "k < 1024" if "k \<in> tables st pd" for k using that by (simp add: tables_def)
  show own: "owned st' pd = owned st pd" unfolding owned_def ts using t small by (auto intro!: image_cong)
  have inj: "inj_on (table_at st pd) (tables st pd)" using d by (simp add: dir_ok_def)
  show pte: "pte_at st' pd n = (if n = i * 1024 + j then w else pte_at st pd n)" if n: "n < USER_PAGES" for n
  proof (cases "n div 1024 \<in> tables st pd")
    case True
    then have k: "n div 1024 < 1024" by (rule small)
    have "table_at st pd (n div 1024) = table_at st pd i \<longleftrightarrow> n div 1024 = i" using inj True i by (auto simp: inj_on_def)
    moreover have "n div 1024 = i \<and> n mod 1024 = j \<longleftrightarrow> n = i * 1024 + j" using j by auto
    ultimately show ?thesis using True p [OF k] t [OF k] rd' [OF F(4) [OF True], of "n mod 1024"] by (auto simp: pte_at_def tables_def)
  next
    case False
    then have z: "pde_at st pd (n div 1024) = 0" using user_index [OF n] by (simp add: tables_def)
    moreover have "n \<noteq> i * 1024 + j" using False i j by auto
    ultimately show ?thesis using p [of "n div 1024"] user_index [OF n] by (simp add: pte_at_def)
  qed
  have kp: "kpages (phys st') = kpages (phys st)" by (simp add: st'_def)
  have "inj_on (table_at st' pd) (tables st pd)" using inj small by (simp add: inj_on_def t)
  then have "dir_ok st' pd" using d small w unfolding dir_ok_def ts kp by (simp add: p t pte)
  moreover have "same_pages (kpages (phys st) - owned st pd) st st'" unfolding same_pages_def
  proof (intro ballI allI impI)
    fix q k assume q: "q \<in> kpages (phys st) - owned st pd" and k: "k < (1024::nat)"
    have "PGSIZE dvd q" "q \<noteq> table_at st pd i" using q i kpages_facts(1) st by (auto simp: owned_def mmu_ok_def)
    then show "rd st' (q + 4 * k) = rd st (q + 4 * k)" using rd' [OF _ k] by simp
  qed
  ultimately show "dir_step pd st st'" using st own by (simp add: dir_step_def mmu_ok_def st'_def)
qed

text \<open>A zeroed new page.\<close>

lemma fresh_page_reads:
  assumes ok: "palloc_ok (phys st)" "palloc_ok P" and p: "p \<notin> kpages (phys st)" "kpages P = insert p (kpages (phys st))"
    and r: "ram P = (\<lambda>a. if PAL_ZERO \<in> flags \<and> a \<in> span p PGSIZE then 0 else ram (phys st) a)" and z: "PAL_ZERO \<in> flags"
  shows "q \<in> kpages (phys st) \<Longrightarrow> k < 1024 \<Longrightarrow> rd (st\<lparr>phys := P\<rparr>) (q + 4 * k) = rd st (q + 4 * k)" "k < 1024 \<Longrightarrow> rd (st\<lparr>phys := P\<rparr>) (p + 4 * k) = 0" "page_word p"
proof -
  have pk: "p \<in> kpages P" using p(2) by simp
  note K = kpages_facts [OF ok(2) pk]
  show "page_word p" using K by (auto simp: page_word_def PGSIZE_eq)
  show "k < 1024 \<Longrightarrow> rd (st\<lparr>phys := P\<rparr>) (p + 4 * k) = 0"
    unfolding rd_def by (rule ld32_zero) (use r z in \<open>simp add: span_def PGSIZE_eq\<close>)
  assume q: "q \<in> kpages (phys st)" and k: "k < 1024"
  show "rd (st\<lparr>phys := P\<rparr>) (q + 4 * k) = rd st (q + 4 * k)"
  proof (rule rd_same_span [OF _ k])
    fix a assume "a \<in> span q PGSIZE"
    moreover have "q \<noteq> p" using q p by auto
    ultimately have "a \<notin> span p PGSIZE" using aligned_pages_apart [OF kpages_facts(1) [OF ok(1) q] K(1)] by blast
    then show "ram (phys (st\<lparr>phys := P\<rparr>)) a = ram (phys st) a" using r by simp
  qed
qed

text \<open>Creating a missing table.\<close>

lemma lookup_new_table:
  assumes st: "mmu_ok st" and d: "dir_ok st pd" and va: "is_user_vaddr va" and miss: "pd_no va \<notin> tables st pd"
  obtains (full) "lookup_page pd va True st = Some (0, st)" "\<not> card (kpages (phys st)) < bit_cnt (used_map (kernel_pool (phys st)))"
  | (new) st' where "lookup_page pd va True st = Some (table_at st' pd (pd_no va) + 4 * pt_no va, st')" "dir_step pd st st'" "pd_no va \<in> tables st' pd"
      "\<And>n. n < USER_PAGES \<Longrightarrow> pte_at st' pd n = pte_at st pd n" "tlb st' = tlb st"
proof -
  define i where "i = pd_no va"
  have i: "i < 768" using va by (simp add: i_def user_pg_no user_index pt_pd_no)
  have z: "pde_at st pd i = 0" using miss i by (simp add: tables_def i_def)
  note F = dir_facts [OF st d]
  have ok: "palloc_ok (phys st)" using st by (simp add: mmu_ok_def)
  have pdk: "pd \<in> kpages (phys st)" using d by (simp add: dir_ok_def)
  have look: "lookup_page pd va True st =
      do { (found, st) \<leftarrow> do { (pt, p) \<leftarrow> palloc_get_page {PAL_ZERO} (phys st);
             if pt = 0 then Some (False, st\<lparr>phys := p\<rparr>) else do { e \<leftarrow> pde_create pt; Some (True, wr (pd + 4 * i) e (st\<lparr>phys := p\<rparr>)) } };
           if found then do { pt \<leftarrow> pde_get_pt (rd st (pd + 4 * i)); Some (pt + 4 * pt_no va, st) } else Some (0, st) }"
    using F(2) va z by (simp add: lookup_page_def Let_def pde_at_def flip: i_def)
  have fl: "PAL_USER \<notin> {PAL_ZERO}" "PAL_ASSERT \<notin> {PAL_ZERO} \<or> card (kpages (phys st)) < bit_cnt (used_map (kernel_pool (phys st)))" by simp_all
  show thesis
  proof (cases rule: get_kernel_page [OF ok fl])
    case 1
    show thesis by (rule full) (use look 1 in simp_all)
  next
    case got: (2 p P)
    have pk: "p \<in> kpages P" using got(3) by simp
    note K = kpages_facts [OF got(4) pk]
    have pw: "page_word p" using K by (auto simp: page_word_def PGSIZE_eq)
    obtain e where e: "pde_create p = Some e" "bit e 0" "pde_get_pt e = Some p" "e \<noteq> 0" "PHYS_BASE + unat (e AND PTE_ADDR) = p"
      by (rule pde_create_ok [OF pw])
    define st1 where "st1 = st\<lparr>phys := P\<rparr>"
    define st' where "st' = wr (pd + 4 * i) e st1"
    note R = fresh_page_reads [OF ok got(4,2,3,7), simplified, folded st1_def]
    note old = R(1) and zero = R(2)
    have rd': "rd st' (q + 4 * k) = (if q = pd \<and> k = i then e else rd st1 (q + 4 * k))" if "PGSIZE dvd q" "k < 1024" for q k
      using rd_wr_entry [OF F(1) that(1) _ that(2), of i e st1] i by (auto simp: st'_def)
    have ppd: "p \<noteq> pd" using pdk got(2) by auto
    have p: "pde_at st' pd k = (if k = i then e else pde_at st pd k)" if "k < 1024" for k
      using rd' [OF F(1) that] old [OF pdk that] by (auto simp: pde_at_def)
    have t: "table_at st' pd k = (if k = i then p else table_at st pd k)" if "k < 1024" for k using p [OF that] e(5) by (simp add: table_at_def)
    have ts: "tables st' pd = insert i (tables st pd)" using p i e(4) by (auto simp: tables_def split: if_splits)
    have iT: "i \<notin> tables st pd" using miss by (simp add: i_def)
    have small: "k < 1024" if "k \<in> tables st pd" for k using that by (simp add: tables_def)
    have kp: "kpages (phys st') = insert p (kpages (phys st))" using got(3) by (simp add: st'_def st1_def)
    have tab: "table_at st' pd ` tables st pd = table_at st pd ` tables st pd" using t small iT by (intro image_cong) auto
    have ti: "table_at st' pd i = p" using t [of i] i by simp
    have own: "owned st' pd = insert p (owned st pd)" unfolding owned_def ts image_insert tab ti by blast
    have pte: "pte_at st' pd n = pte_at st pd n" if n: "n < USER_PAGES" for n
    proof (cases "n div 1024 = i")
      case True
      have "rd st' (p + 4 * (n mod 1024)) = 0" using rd' [OF K(1), of "n mod 1024"] zero [of "n mod 1024"] ppd by simp
      then show ?thesis using True z ti p [of i] i e(4) by (simp add: pte_at_def)
    next
      case False
      note k = user_index [OF n]
      show ?thesis
      proof (cases "n div 1024 \<in> tables st pd")
        case True
        then have "table_at st pd (n div 1024) \<in> kpages (phys st)" using d by (auto simp: dir_ok_def)
        then have "rd st' (table_at st pd (n div 1024) + 4 * (n mod 1024)) = rd st (table_at st pd (n div 1024) + 4 * (n mod 1024))"
          using rd' [OF F(4) [OF True], of "n mod 1024"] old F(7) [OF True] by simp
        then show ?thesis using False k p [of "n div 1024"] t [of "n div 1024"] by (simp add: pte_at_def)
      qed (use k p [of "n div 1024"] False in \<open>simp add: pte_at_def tables_def\<close>)
    qed
    have new: "table_at st pd k \<noteq> p" if "k \<in> tables st pd" for k using that d got(2) by (auto simp: dir_ok_def)
    have "inj_on (table_at st' pd) (tables st' pd)"
      using d small iT new i unfolding ts by (auto simp: inj_on_def dir_ok_def t)
    then have dir: "dir_ok st' pd"
      using d small i ppd e(2) iT unfolding dir_ok_def kp by (auto simp: ts p t pte)
    have "same_pages (kpages (phys st) - owned st pd) st st'" unfolding same_pages_def
    proof (intro ballI allI impI)
      fix q k assume q: "q \<in> kpages (phys st) - owned st pd" and k: "k < (1024::nat)"
      then show "rd st' (q + 4 * k) = rd st (q + 4 * k)" using rd' [OF kpages_facts(1) [OF ok] k, of q] old [OF _ k] by (auto simp: owned_def)
    qed
    then have "dir_step pd st st'" using dir own kp st got(2,4) by (auto simp: dir_step_def mmu_ok_def st'_def st1_def)
    moreover have "lookup_page pd va True st = Some (p + 4 * pt_no va, st')" using look got(1,8) e(1,3) by (simp add: st'_def st1_def)
    moreover have "tlb st' = tlb st" by (simp add: st'_def st1_def)
    ultimately show thesis using that(2) [of st'] ts ti pte by (simp add: i_def)
  qed
qed

section \<open>The operations on one directory\<close>

lemma tlb_reads [simp]: "rd (st\<lparr>tlb := t\<rparr>) = rd st" "pde_at (st\<lparr>tlb := t\<rparr>) = pde_at st"
  by (simp_all add: rd_def pde_at_def fun_eq_iff)

lemma tlb_tables [simp]: "table_at (st\<lparr>tlb := t\<rparr>) = table_at st" "tables (st\<lparr>tlb := t\<rparr>) = tables st"
  by (simp_all add: table_at_def tables_def fun_eq_iff)

lemma tlb_entries [simp]: "pte_at (st\<lparr>tlb := t\<rparr>) = pte_at st" "owned (st\<lparr>tlb := t\<rparr>) = owned st"
  by (simp_all add: pte_at_def owned_def fun_eq_iff)

lemma tlb_irrelevant [simp]:
  "dir_ok (st\<lparr>tlb := t\<rparr>) = dir_ok st" "mmu_ok (st\<lparr>tlb := t\<rparr>) = mmu_ok st" "dir_step pd st0 (st\<lparr>tlb := t\<rparr>) = dir_step pd st0 st"
  by (simp_all add: dir_ok_def mmu_ok_def dir_step_def same_pages_def fun_eq_iff)

definition active :: "mmu \<Rightarrow> nat" where
  "active st = PHYS_BASE + cr3 st"

lemma active_ok: "mmu_ok st \<Longrightarrow> active_pd st = Some (active st)"
  using page_word_phys(3) [of "PHYS_BASE + cr3 st"] by (simp add: mmu_ok_def active_pd_def active_def)

lemma invalidate_ok:
  assumes "mmu_ok st"
  shows "invalidate_pagedir pd st = Some (if active st = pd then st\<lparr>tlb := \<lambda>_. None\<rparr> else st)"
proof -
  have "pagedir_activate (active st) st = Some (st\<lparr>tlb := \<lambda>_. None\<rparr>)"
    using assms page_word_phys(2) [of "PHYS_BASE + cr3 st"] by (simp add: pagedir_activate_def active_def mmu_ok_def Let_def PHYS_BASE_def)
  then show ?thesis using active_ok [OF assms] by (auto simp: invalidate_pagedir_def)
qed

text \<open>Two entries that translate alike: they differ in the accessed and dirty bits at most.\<close>

definition agree :: "32 word \<Rightarrow> 32 word \<Rightarrow> bool" where
  "agree e f \<longleftrightarrow> (\<forall>b. b \<noteq> 5 \<and> b \<noteq> 6 \<longrightarrow> bit e b = bit f b)"

lemma agree_refl [simp]: "agree e e"
  by (simp add: agree_def)

lemma agree_trans: "agree e f \<Longrightarrow> agree f g \<Longrightarrow> agree e g"
  by (simp add: agree_def)

text \<open>What the translation buffer may keep of the entries of \<open>pd\<close>.\<close>

definition quiet :: "nat \<Rightarrow> mmu \<Rightarrow> mmu \<Rightarrow> bool" where
  "quiet pd st st' \<longleftrightarrow> tlb st' = (\<lambda>_. None)
     \<or> tlb st' = tlb st \<and> (active st = pd \<longrightarrow> (\<forall>n<USER_PAGES. bit (pte_at st pd n) 0 \<longrightarrow> agree (pte_at st pd n) (pte_at st' pd n)))"

lemma address_bits:
  assumes "\<And>b. 12 \<le> b \<Longrightarrow> bit (e :: 32 word) b = bit f b"
  shows "e AND PTE_ADDR = f AND PTE_ADDR"
  by (rule bit_word_eqI) (use assms in \<open>auto simp: bit_simps\<close>)

text \<open>Changing flag bits of the entry of \<open>va\<close>, if its table exists.\<close>

lemma modify_entry:
  assumes st: "mmu_ok st" and d: "dir_ok st pd" and va: "is_user_vaddr va" and hit: "pd_no va \<in> tables st pd"
    and f: "\<And>b. 12 \<le> b \<Longrightarrow> bit (f (pte_at st pd (pg_no va))) b = bit (pte_at st pd (pg_no va)) b"
      "bit (f (pte_at st pd (pg_no va))) 0 \<Longrightarrow> bit (pte_at st pd (pg_no va)) 0"
  obtains a where "lookup_page pd va False st = Some (a, st)" "a \<noteq> 0" "rd st a = pte_at st pd (pg_no va)"
    "dir_step pd st (wr a (f (rd st a)) st)"
    "\<And>n. n < USER_PAGES \<Longrightarrow> pte_at (wr a (f (rd st a)) st) pd n = (if n = pg_no va then f (pte_at st pd n) else pte_at st pd n)"
proof -
  let ?a = "table_at st pd (pd_no va) + 4 * pt_no va" and ?e = "pte_at st pd (pg_no va)"
  have r: "rd st ?a = ?e" by (rule pte_at_hit [OF hit])
  have n: "pg_no va < USER_PAGES" using va by (simp add: user_pg_no)
  have "page_word (PHYS_BASE + unat (f ?e AND PTE_ADDR))" if "bit (f ?e) 0"
    using d f(2) [OF that] n address_bits [of "f ?e" ?e, OF f(1)] by (simp add: dir_ok_def)
  note S = store_entry [OF st d hit pt_pd_no(3) this]
  have "pg_no va = pd_no va * 1024 + pt_no va" by (simp add: pt_pd_no)
  moreover have "?a \<noteq> 0" using dir_facts(5) [OF st d hit] by (auto simp: page_word_def PHYS_BASE_def)
  ultimately show thesis using that [of ?a] lookup_hit [OF st d va hit] S r by auto
qed

lemma pagedir_get_page_map:
  assumes st: "mmu_ok st" and d: "dir_ok st pd" and va: "is_user_vaddr va"
  shows "pagedir_get_page pd va st = Some (if bit (pte_at st pd (pg_no va)) 0 then PHYS_BASE + unat (pte_at st pd (pg_no va) AND PTE_ADDR) + pg_ofs va else 0)"
proof (cases "pd_no va \<in> tables st pd")
  case True
  obtain a where a: "lookup_page pd va False st = Some (a, st)" "a \<noteq> 0" "rd st a = pte_at st pd (pg_no va)"
    using modify_entry [OF st d va True, of "\<lambda>e. e"] by blast
  have "page_word (PHYS_BASE + unat (pte_at st pd (pg_no va) AND PTE_ADDR))" if "bit (pte_at st pd (pg_no va)) 0"
    using d that va by (simp add: dir_ok_def user_pg_no)
  then show ?thesis using a va dir_facts(2) [OF st d] page_word_phys(3) [of "PHYS_BASE + unat (pte_at st pd (pg_no va) AND PTE_ADDR)"]
    by (simp add: pagedir_get_page_def pte_get_page_def)
next
  case False
  then show ?thesis using lookup_miss [OF st d va False] va dir_facts(2) [OF st d] by (simp add: pagedir_get_page_def)
qed

lemma pagedir_set_page_ok:
  assumes st: "mmu_ok st" and d: "dir_ok st pd" and u: "is_user_vaddr upage" "pg_ofs upage = 0"
    and k: "page_word kpage" "(kpage - PHYS_BASE) div PGSIZE < init_ram_pages st" and pd: "pd \<noteq> init_page_dir st"
    and free: "\<not> bit (pte_at st pd (pg_no upage)) 0"
  obtains (full) "pagedir_set_page pd upage kpage w st = Some (False, st)" "\<not> card (kpages (phys st)) < bit_cnt (used_map (kernel_pool (phys st)))"
  | (set) st' e where "pagedir_set_page pd upage kpage w st = Some (True, st')" "dir_step pd st st'" "pte_create_user kpage w = Some e"
      "\<And>n. n < USER_PAGES \<Longrightarrow> pte_at st' pd n = (if n = pg_no upage then e else pte_at st pd n)" "tlb st' = tlb st"
proof -
  obtain e where e: "pte_create_user kpage w = Some e" "unat (e AND PTE_ADDR) = kpage - PHYS_BASE" by (rule pte_create_ok [OF k(1)])
  have run: "pagedir_set_page pd upage kpage w st = do { (pte, st) \<leftarrow> lookup_page pd upage True st;
      if pte \<noteq> 0 then do { kassert (rd st pte AND PTE_P = 0); e \<leftarrow> pte_create_user kpage w; Some (True, wr pte e st) } else Some (False, st) }"
    using u k(2) pd dir_facts(2) [OF st d] page_word_phys [OF k(1)] by (simp add: pagedir_set_page_def PTSHIFT_def PGSIZE_def)
  have finish: thesis if L: "lookup_page pd upage True st = Some (table_at st1 pd (pd_no upage) + 4 * pt_no upage, st1)" and S: "dir_step pd st st1"
      and hit: "pd_no upage \<in> tables st1 pd" and same: "\<And>n. n < USER_PAGES \<Longrightarrow> pte_at st1 pd n = pte_at st pd n" and t: "tlb st1 = tlb st" for st1
  proof -
    let ?a = "table_at st1 pd (pd_no upage) + 4 * pt_no upage"
    have ok: "mmu_ok st1" "dir_ok st1 pd" using S by (simp_all add: dir_step_def)
    have "page_word (PHYS_BASE + unat (e AND PTE_ADDR))" using e(2) k(1) by (simp add: page_word_def)
    note W = store_entry [OF ok hit pt_pd_no(3) this]
    have "rd st1 ?a = pte_at st pd (pg_no upage)" using pte_at_hit [OF hit] same u(1) by (simp add: user_pg_no)
    moreover have "?a \<noteq> 0" using dir_facts(5) [OF ok hit] by (auto simp: page_word_def PHYS_BASE_def)
    ultimately have "pagedir_set_page pd upage kpage w st = Some (True, wr ?a e st1)" using run L free e(1) by simp
    moreover have "pg_no upage = pd_no upage * 1024 + pt_no upage" by (simp add: pt_pd_no)
    ultimately show thesis using set [of "wr ?a e st1" e] W(2) same t e(1) dir_step_trans [OF S W(1)] by auto
  qed
  show thesis
  proof (cases "pd_no upage \<in> tables st pd")
    case True
    show thesis by (rule finish [OF lookup_hit [OF st d u(1) True] dir_step_refl [OF st d] True]) simp_all
  next
    case False
    show thesis
    proof (cases rule: lookup_new_table [OF st d u(1) False])
      case 1
      then show thesis using full run by simp
    next
      case (2 st')
      then show thesis using finish by blast
    qed
  qed
qed

text \<open>The shape the operations on flags share.\<close>

definition flag_update :: "bool \<Rightarrow> (32 word \<Rightarrow> 32 word) \<Rightarrow> nat \<Rightarrow> nat \<Rightarrow> mmu \<Rightarrow> mmu option" where
  "flag_update flush f pd va st =
     do {
       (pte, st) \<leftarrow> lookup_page pd va False st;
       if pte \<noteq> 0
       then if flush then invalidate_pagedir pd (wr pte (f (rd st pte)) st) else Some (wr pte (f (rd st pte)) st)
       else Some st
     }"

definition flags_only :: "bool \<Rightarrow> (32 word \<Rightarrow> 32 word) \<Rightarrow> bool" where
  "flags_only flush f \<longleftrightarrow> (\<forall>e b. 12 \<le> b \<longrightarrow> bit (f e) b = bit e b) \<and> (\<forall>e. bit (f e) 0 \<longrightarrow> bit e 0) \<and> (flush \<or> (\<forall>e. agree e (f e)))"

text \<open>\<open>st'\<close> is \<open>st\<close> with the entry of page \<open>m\<close> updated.\<close>

definition entry_updated :: "nat \<Rightarrow> nat \<Rightarrow> 32 word \<Rightarrow> mmu \<Rightarrow> mmu \<Rightarrow> bool" where
  "entry_updated pd m e st st' \<longleftrightarrow> dir_step pd st st' \<and> quiet pd st st' \<and> (\<forall>n<USER_PAGES. pte_at st' pd n = (if n = m then e else pte_at st pd n))"

lemma flag_update_ok:
  assumes st: "mmu_ok st" and d: "dir_ok st pd" and va: "is_user_vaddr va" and f: "flags_only flush f"
  shows "\<exists>st'. flag_update flush f pd va st = Some st'
    \<and> entry_updated pd (pg_no va) (if pd_no va \<in> tables st pd then f (pte_at st pd (pg_no va)) else 0) st st'"
proof (cases "pd_no va \<in> tables st pd")
  case True
  obtain a where a: "lookup_page pd va False st = Some (a, st)" "a \<noteq> 0" "rd st a = pte_at st pd (pg_no va)"
      "dir_step pd st (wr a (f (rd st a)) st)"
      "\<And>n. n < USER_PAGES \<Longrightarrow> pte_at (wr a (f (rd st a)) st) pd n = (if n = pg_no va then f (pte_at st pd n) else pte_at st pd n)"
    by (rule modify_entry [OF st d va True, of f]) (use f in \<open>auto simp: flags_only_def\<close>)
  let ?s = "wr a (f (rd st a)) st"
  let ?r = "if flush then if active ?s = pd then ?s\<lparr>tlb := \<lambda>_. None\<rparr> else ?s else ?s"
  have "mmu_ok ?s" using a(4) by (simp add: dir_step_def)
  then have run: "flag_update flush f pd va st = Some ?r" using a(1,2) invalidate_ok [of ?s] by (simp add: flag_update_def)
  have ag: "active ?s = active st" by (simp add: active_def)
  have q: "quiet pd st ?r"
  proof (cases "active st = pd")
    case act: True
    show ?thesis
    proof (cases flush)
      case False
      then have "agree (pte_at st pd n) (pte_at ?s pd n)" if "n < USER_PAGES" for n using f a(5) [OF that] by (simp add: flags_only_def)
      then show ?thesis using False by (simp add: quiet_def)
    qed (use act ag in \<open>simp add: quiet_def\<close>)
  next
    case False
    then have "tlb ?r = tlb st" using ag by simp
    then show ?thesis using False by (simp add: quiet_def)
  qed
  have e: "dir_step pd st ?r" "pte_at ?r pd = pte_at ?s pd" using a(4) by simp_all
  show ?thesis unfolding entry_updated_def
    by (rule exI [of _ ?r]) (use run q e(1) a(5) True in \<open>simp add: e(2) del: if_split\<close>)
next
  case False
  then show ?thesis using lookup_miss [OF st d va False] dir_step_refl [OF st d] by (auto simp: flag_update_def entry_updated_def quiet_def)
qed

lemma flags_only_ops:
  "flags_only True (\<lambda>e. e AND NOT PTE_P)" "flags_only False (\<lambda>e. e OR PTE_D)" "flags_only True (\<lambda>e. e AND NOT PTE_D)"
  "flags_only False (\<lambda>e. e OR PTE_A)" "flags_only True (\<lambda>e. e AND NOT PTE_A)" "flags_only True (\<lambda>e. if c then e AND NOT PTE_U else e OR PTE_U)"
  by (auto simp: flags_only_def agree_def bit_simps dest: bit_imp_le_length)

lemma flag_ops:
  "pagedir_clear_page pd va st = (if pg_ofs va = 0 \<and> is_user_vaddr va \<and> pd \<noteq> 0 then flag_update True (\<lambda>e. e AND NOT PTE_P) pd va st else None)"
  "pagedir_set_dirty pd va b st = (if pd \<noteq> 0 then if b then flag_update False (\<lambda>e. e OR PTE_D) pd va st else flag_update True (\<lambda>e. e AND NOT PTE_D) pd va st else None)"
  "pagedir_set_accessed pd va b st = (if pd \<noteq> 0 then if b then flag_update False (\<lambda>e. e OR PTE_A) pd va st else flag_update True (\<lambda>e. e AND NOT PTE_A) pd va st else None)"
  by (cases b; simp add: pagedir_clear_page_def pagedir_set_dirty_def pagedir_set_accessed_def flag_update_def cong: if_cong)+

lemma entry_updated_nop: "mmu_ok st \<Longrightarrow> dir_ok st pd \<Longrightarrow> e = pte_at st pd m \<Longrightarrow> entry_updated pd m e st st"
  by (auto simp: entry_updated_def dir_step_refl quiet_def)

lemma pageir_set_kernel_access_ok:
  assumes st: "mmu_ok st" and d: "dir_ok st pd" and va: "is_user_vaddr va" "pg_ofs va = 0" "va \<noteq> 0" and p: "bit (pte_at st pd (pg_no va)) 0"
  shows "\<exists>st'. pageir_set_kernel_access pd va k st = Some st'
    \<and> entry_updated pd (pg_no va) (if k then pte_at st pd (pg_no va) AND NOT PTE_U else pte_at st pd (pg_no va) OR PTE_U) st st'"
proof -
  let ?f = "\<lambda>e. if k then e AND NOT PTE_U else e OR PTE_U"
  have hit: "pd_no va \<in> tables st pd" using lookup_miss(2) [OF st d va(1)] p by fastforce
  obtain a where a: "lookup_page pd va False st = Some (a, st)" "a \<noteq> 0" "rd st a = pte_at st pd (pg_no va)"
    using modify_entry [OF st d va(1) hit, of "\<lambda>e. e"] by blast
  have "rd st a \<noteq> 0" "rd st a AND PTE_P \<noteq> 0" using p a(3) by auto
  then have "pageir_set_kernel_access pd va k st = flag_update True ?f pd va st"
    using a(1,2) va dir_facts(2) [OF st d] by (simp add: pageir_set_kernel_access_def flag_update_def)
  then show ?thesis using flag_update_ok [OF st d va(1) flags_only_ops(6) [of k]] hit by simp
qed

lemma read_flags:
  assumes st: "mmu_ok st" and d: "dir_ok st pd" and va: "is_user_vaddr va"
  shows "pagedir_is_dirty pd va st = Some (bit (pte_at st pd (pg_no va)) 6)" "pagedir_is_accessed pd va st = Some (bit (pte_at st pd (pg_no va)) 5)"
proof -
  show "pagedir_is_dirty pd va st = Some (bit (pte_at st pd (pg_no va)) 6)"
  proof (cases "pd_no va \<in> tables st pd")
    case True
    show ?thesis by (rule modify_entry [OF st d va True, of "\<lambda>e. e"]) (use dir_facts(2) [OF st d] in \<open>auto simp: pagedir_is_dirty_def\<close>)
  qed (use lookup_miss [OF st d va] dir_facts(2) [OF st d] in \<open>simp add: pagedir_is_dirty_def\<close>)
  show "pagedir_is_accessed pd va st = Some (bit (pte_at st pd (pg_no va)) 5)"
  proof (cases "pd_no va \<in> tables st pd")
    case True
    show ?thesis by (rule modify_entry [OF st d va True, of "\<lambda>e. e"]) (use dir_facts(2) [OF st d] in \<open>auto simp: pagedir_is_accessed_def\<close>)
  qed (use lookup_miss [OF st d va] dir_facts(2) [OF st d] in \<open>simp add: pagedir_is_accessed_def\<close>)
qed

section \<open>Creating and destroying directories\<close>

lemma same_pages_trans: "same_pages P st st1 \<Longrightarrow> same_pages Q st1 st2 \<Longrightarrow> Q \<subseteq> P \<Longrightarrow> same_pages Q st st2"
  unfolding same_pages_def by (metis subsetD)

lemma same_pages_mono: "same_pages P st st' \<Longrightarrow> Q \<subseteq> P \<Longrightarrow> same_pages Q st st'"
  unfolding same_pages_def by blast

text \<open>A page written as a whole leaves the others alone.\<close>

lemma same_pages_outside:
  assumes st: "palloc_ok (phys st)" and P: "P \<subseteq> kpages (phys st) - {q}" and q: "PGSIZE dvd q"
    and m: "\<And>a. a \<notin> span q PGSIZE \<Longrightarrow> ram (phys st') a = ram (phys st) a"
  shows "same_pages P st st'"
  unfolding same_pages_def
proof (intro ballI allI impI)
  fix p i assume p: "p \<in> P" and i: "i < (1024::nat)"
  have "a \<notin> span q PGSIZE" if "a \<in> span p PGSIZE" for a
    using aligned_pages_apart [OF kpages_facts(1) [OF st] q, of p] p P that by blast
  then show "rd st' (p + 4 * i) = rd st (p + 4 * i)" using i m by (intro rd_same_span) blast+
qed

lemma pagedir_create_ok:
  assumes st: "mmu_ok st" and init: "dir_ok st (init_page_dir st)" "tables st (init_page_dir st) = {}"
  obtains (full) "pagedir_create st = Some (0, st)" "\<not> card (kpages (phys st)) < bit_cnt (used_map (kernel_pool (phys st)))"
  | (new) pd st' where "pagedir_create st = Some (pd, st')" "pd \<noteq> 0" "pd \<notin> kpages (phys st)" "kpages (phys st') = insert pd (kpages (phys st))"
      "mmu_ok st'" "dir_ok st' pd" "tables st' pd = {}" "same_pages (kpages (phys st)) st st'"
      "\<And>i. i < 1024 \<Longrightarrow> pde_at st' pd i = pde_at st (init_page_dir st) i"
      "init_page_dir st' = init_page_dir st" "init_ram_pages st' = init_ram_pages st" "cr3 st' = cr3 st" "tlb st' = tlb st"
      "bit_cnt (used_map (kernel_pool (phys st'))) = bit_cnt (used_map (kernel_pool (phys st)))"
proof -
  let ?i = "init_page_dir st"
  have ok: "palloc_ok (phys st)" using st by (simp add: mmu_ok_def)
  have fl: "PAL_USER \<notin> {}" "PAL_ASSERT \<notin> {} \<or> card (kpages (phys st)) < bit_cnt (used_map (kernel_pool (phys st)))" by simp_all
  show thesis
  proof (cases rule: get_kernel_page [OF ok fl])
    case 1
    show thesis by (rule full) (use 1 in \<open>simp_all add: pagedir_create_def\<close>)
  next
    case (2 pd P)
    have ik: "?i \<in> kpages (phys st)" using init(1) by (simp add: dir_ok_def)
    have K: "PGSIZE dvd pd" using kpages_facts(1) [OF 2(4), of pd] 2(3) by simp
    have I: "PGSIZE dvd ?i" "?i \<noteq> 0" using kpages_facts [OF ok ik] by simp_all
    have ne: "pd \<noteq> ?i" using 2(2) ik by blast
    have ap: "span pd PGSIZE \<inter> span ?i PGSIZE = {}" by (rule aligned_pages_apart [OF K I(1) ne])
    have "pd \<le> ?i \<or> ?i + PGSIZE \<le> pd"
    proof (rule ccontr)
      assume "\<not> ?thesis"
      then have "pd \<in> span pd PGSIZE \<inter> span ?i PGSIZE" by (simp add: span_def PGSIZE_eq)
      then show False using ap by blast
    qed
    then have cp: "memcpy pd ?i PGSIZE (ram P) = Some (pd, copy_unit PGSIZE pd ?i (ram P))" using memcpy_eq 2(8) I(2) by blast
    define st' where "st' = st\<lparr>phys := P\<lparr>ram := copy_unit PGSIZE pd ?i (ram P)\<rparr>\<rparr>"
    have m: "ram P = ram (phys st)" using 2(7) by (simp add: fun_eq_iff)
    have run: "pagedir_create st = Some (pd, st')" using 2(1,8) cp by (simp add: pagedir_create_def st'_def)
    have out: "ram (phys st') a = ram (phys st) a" if "a \<notin> span pd PGSIZE" for a using that m by (auto simp: st'_def copy_unit_def span_def)
    have same: "same_pages (kpages (phys st)) st st'" by (rule same_pages_outside [OF ok _ K out]) (use 2(2) in auto)
    have cpy: "rd st' (pd + 4 * i) = rd st (?i + 4 * i)" if i: "i < 1024" for i
    proof -
      have "ram (phys st') (pd + 4 * i + j) = ram (phys st) (?i + 4 * i + j)" if j: "j < 4" for j
        using i j m by (simp add: st'_def copy_unit_def PGSIZE_eq add.assoc)
      then show ?thesis using ld32_cong [of "\<lambda>a. ram (phys st') (pd + a)" "4 * i" "\<lambda>a. ram (phys st) (?i + a)"]
        by (simp add: rd_def ld32_def add.assoc)
    qed
    then have pde: "pde_at st' pd i = pde_at st ?i i" if "i < 1024" for i using that by (simp add: pde_at_def)
    have ts: "tables st' pd = {}" using init(2) pde by (auto simp: tables_def)
    have kp: "kpages (phys st') = insert pd (kpages (phys st))" using 2(3) by (simp add: st'_def kpages_def)
    have "\<not> bit (pte_at st' pd n) 0" if "n < USER_PAGES" for n using user_index [OF that] ts by (simp add: pte_at_def tables_def)
    then have d: "dir_ok st' pd" using ts kp by (simp add: dir_ok_def)
    have "mmu_ok st'" using st 2(4) by (simp add: mmu_ok_def st'_def palloc_ok_def)
    then show thesis using new [OF run 2(8) 2(2) kp _ d ts same pde] 2(6) by (simp add: st'_def)
  qed
qed

lemma pagedir_destroy_ok:
  assumes st: "mmu_ok st" and d: "dir_ok st pd" and init: "pd \<noteq> init_page_dir st"
  obtains st' where "pagedir_destroy pd st = Some st'" "mmu_ok st'" "kpages (phys st') = kpages (phys st) - owned st pd"
    "same_pages (kpages (phys st')) st st'" "init_page_dir st' = init_page_dir st" "init_ram_pages st' = init_ram_pages st"
    "cr3 st' = cr3 st" "tlb st' = tlb st" "user_pool (phys st') = user_pool (phys st)"
proof -
  note F = dir_facts [OF st d]
  define I where "I k s \<longleftrightarrow> mmu_ok s \<and> kpages (phys s) = kpages (phys st) - table_at st pd ` {i \<in> tables st pd. i < k} \<and> same_pages (kpages (phys s)) st s
      \<and> init_page_dir s = init_page_dir st \<and> init_ram_pages s = init_ram_pages st \<and> cr3 s = cr3 st \<and> tlb s = tlb st \<and> user_pool (phys s) = user_pool (phys st)" for k s
  have free: "\<exists>s'. palloc_free_page p (phys s) = Some s' \<and> mmu_ok (s\<lparr>phys := s'\<rparr>) \<and> kpages s' = kpages (phys s) - {p}
      \<and> same_pages (kpages s') s (s\<lparr>phys := s'\<rparr>) \<and> user_pool s' = user_pool (phys s)" if s: "mmu_ok s" "p \<in> kpages (phys s)" for p s
  proof -
    have ok: "palloc_ok (phys s)" using s(1) by (simp add: mmu_ok_def)
    obtain s' where s': "palloc_free_page p (phys s) = Some s'" "palloc_ok s'" "kpages s' = kpages (phys s) - {p}" "user_pool s' = user_pool (phys s)"
        "ram s' = (\<lambda>a. if a \<in> span p PGSIZE then 0xcc else ram (phys s) a)" by (rule free_kernel_page [OF ok s(2)])
    have "same_pages (kpages s') s (s\<lparr>phys := s'\<rparr>)"
      by (rule same_pages_outside [OF ok _ kpages_facts(1) [OF ok s(2)]]) (use s' in auto)
    then show ?thesis using s' s(1) by (simp add: mmu_ok_def)
  qed
  have small: "{i \<in> tables st pd. i < Suc k} = (if k \<in> tables st pd then insert k {i \<in> tables st pd. i < k} else {i \<in> tables st pd. i < k})" for k
    by (auto simp: less_Suc_eq)
  have inj: "inj_on (table_at st pd) (tables st pd)" using d by (simp add: dir_ok_def)
  have body: "\<exists>s'. free_table pd k s = Some s' \<and> I (Suc k) s'" if s: "I k s" and k: "k < 768" for k s
  proof -
    have "pd \<in> kpages (phys s)" using d s F(7) by (auto simp: I_def dir_ok_def)
    then have e: "rd s (pd + 4 * k) = pde_at st pd k" using s k by (simp add: I_def same_pages_def pde_at_def)
    show ?thesis
    proof (cases "k \<in> tables st pd")
      case True
      have sm: "mmu_ok s" using s by (simp add: I_def)
      have "table_at st pd k \<in> kpages (phys s)" using s True d inj by (auto simp: I_def dir_ok_def dest!: inj_onD)
      then obtain s' where s': "palloc_free_page (table_at st pd k) (phys s) = Some s'" "mmu_ok (s\<lparr>phys := s'\<rparr>)" "kpages s' = kpages (phys s) - {table_at st pd k}"
          "same_pages (kpages s') s (s\<lparr>phys := s'\<rparr>)" "user_pool s' = user_pool (phys s)" using free [OF sm] by blast
      have "bit (pde_at st pd k) 0" using d True by (simp add: dir_ok_def)
      then have "free_table pd k s = Some (s\<lparr>phys := s'\<rparr>)" using e F(6) [OF True] s'(1) by (simp add: free_table_def)
      moreover have "same_pages (kpages (phys s)) st s" "kpages s' \<subseteq> kpages (phys s)" using s s'(3) by (auto simp: I_def)
      then have "same_pages (kpages s') st (s\<lparr>phys := s'\<rparr>)" using same_pages_trans s'(4) by blast
      moreover have "kpages s' = kpages (phys st) - table_at st pd ` {i \<in> tables st pd. i < Suc k}"
        unfolding s'(3) small using s True by (simp add: I_def) blast
      ultimately show ?thesis using s s'(2,5) by (simp add: I_def)
    next
      case False
      then have "pde_at st pd k = 0" using k by (simp add: tables_def)
      then have "free_table pd k s = Some s" using e by (simp add: free_table_def)
      moreover have "{i \<in> tables st pd. i < Suc k} = {i \<in> tables st pd. i < k}" using False by (simp add: small)
      then have "I (Suc k) s" using s unfolding I_def by metis
      ultimately show ?thesis by blast
    qed
  qed
  have "I 0 st" using st by (simp add: I_def same_pages_def)
  have "\<exists>s. mfold (free_table pd) [0..<768] st = Some s \<and> I (length [0..<768]) s"
  proof (rule mfold_invariant [where I = "\<lambda>ys. I (length ys)"])
    fix ys x zs t assume x: "[0..<768] = ys @ x # zs" and t: "I (length ys) t"
    show "\<exists>t'. free_table pd x t = Some t' \<and> I (length (ys @ [x])) t'" using body [OF t] upt_split [OF x] by simp
  qed (use \<open>I 0 st\<close> in simp)
  then obtain s where s: "mfold (free_table pd) [0..<768] st = Some s" "I 768 s" by auto
  have all: "{i \<in> tables st pd. i < 768} = tables st pd" by (auto simp: tables_def)
  have "pd \<in> kpages (phys s)" using d s(2) F(7) by (auto simp: I_def dir_ok_def)
  then obtain s' where s': "palloc_free_page pd (phys s) = Some s'" "mmu_ok (s\<lparr>phys := s'\<rparr>)" "kpages s' = kpages (phys s) - {pd}"
      "same_pages (kpages s') s (s\<lparr>phys := s'\<rparr>)" "user_pool s' = user_pool (phys s)" using free [of s pd] s(2) unfolding I_def by blast
  have "pagedir_destroy pd st = Some (s\<lparr>phys := s'\<rparr>)" using F(2) init s(1) s'(1) by (simp add: pagedir_destroy_def)
  moreover have "same_pages (kpages (phys s)) st s" "kpages s' \<subseteq> kpages (phys s)" using s(2) s'(3) by (auto simp: I_def)
  then have "same_pages (kpages s') st (s\<lparr>phys := s'\<rparr>)" using same_pages_trans s'(4) by blast
  moreover have "kpages s' = kpages (phys st) - owned st pd" using s'(3) s(2) by (auto simp: I_def owned_def all)
  ultimately show thesis using that [of "s\<lparr>phys := s'\<rparr>"] s(2) s' by (simp add: I_def)
qed

section \<open>The kernel half of the first directory\<close>

text \<open>The tables for the first \<open>k\<close> pages of memory; the user half is empty.\<close>

definition kernel_tables :: "mmu \<Rightarrow> nat \<Rightarrow> nat \<Rightarrow> bool" where
  "kernel_tables s pd k \<longleftrightarrow> palloc_ok (phys s) \<and> pd \<in> kpages (phys s) \<and> (\<forall>i<768. pde_at s pd i = 0)
     \<and> (\<forall>i. 1024 * i < k \<longrightarrow> bit (pde_at s pd (768 + i)) 0 \<and> table_at s pd (768 + i) \<in> kpages (phys s) - {pd})
     \<and> (\<forall>i<256. k \<le> 1024 * i \<longrightarrow> pde_at s pd (768 + i) = 0) \<and> inj_on (\<lambda>i. table_at s pd (768 + i)) {i. 1024 * i < k}"

definition kernel_entry :: "mmu \<Rightarrow> nat \<Rightarrow> nat \<Rightarrow> 32 word" where
  "kernel_entry s pd i = rd s (table_at s pd (768 + i div 1024) + 4 * (i mod 1024))"

definition kernel_maps :: "nat \<Rightarrow> nat \<Rightarrow> mmu \<Rightarrow> nat \<Rightarrow> nat \<Rightarrow> bool" where
  "kernel_maps a b s pd k \<longleftrightarrow> (\<forall>i<k. pte_create_kernel (PHYS_BASE + i * PGSIZE) (\<not> (a \<le> PHYS_BASE + i * PGSIZE \<and> PHYS_BASE + i * PGSIZE < b)) = Some (kernel_entry s pd i))"

definition same_static :: "mmu \<Rightarrow> mmu \<Rightarrow> bool" where
  "same_static s s' \<longleftrightarrow> init_page_dir s' = init_page_dir s \<and> init_ram_pages s' = init_ram_pages s \<and> cr3 s' = cr3 s \<and> tlb s' = tlb s
     \<and> bit_cnt (used_map (kernel_pool (phys s'))) = bit_cnt (used_map (kernel_pool (phys s)))"

text \<open>Adding a table for page \<open>k\<close>, the first of its table.\<close>

lemma add_kernel_table:
  assumes T: "kernel_tables s pd (1024 * q)" and q: "q < 256" and room: "card (kpages (phys s)) < bit_cnt (used_map (kernel_pool (phys s)))"
  obtains p P e where "palloc_get_page {PAL_ASSERT, PAL_ZERO} (phys s) = Some (p, P)" "pde_create p = Some e"
    "kernel_tables (wr (pd + 4 * (768 + q)) e (s\<lparr>phys := P\<rparr>)) pd (1024 * q + 1)"
    "table_at (wr (pd + 4 * (768 + q)) e (s\<lparr>phys := P\<rparr>)) pd (768 + q) = p"
    "\<And>i. i < 1024 * q \<Longrightarrow> kernel_entry (wr (pd + 4 * (768 + q)) e (s\<lparr>phys := P\<rparr>)) pd i = kernel_entry s pd i"
    "card (kpages P) = Suc (card (kpages (phys s)))" "same_static s (wr (pd + 4 * (768 + q)) e (s\<lparr>phys := P\<rparr>))"
proof -
  have ok: "palloc_ok (phys s)" and pdk: "pd \<in> kpages (phys s)" using T by (simp_all add: kernel_tables_def)
  have fl: "PAL_USER \<notin> {PAL_ASSERT, PAL_ZERO}" "PAL_ASSERT \<notin> {PAL_ASSERT, PAL_ZERO} \<or> card (kpages (phys s)) < bit_cnt (used_map (kernel_pool (phys s)))" using room by simp_all
  show thesis
  proof (cases rule: get_kernel_page [OF ok fl])
    case 1
    then show thesis using room by simp
  next
    case got: (2 p P)
    define s1 where "s1 = s\<lparr>phys := P\<rparr>"
    note R = fresh_page_reads [OF ok got(4,2,3,7), simplified, folded s1_def]
    obtain e where e: "pde_create p = Some e" "bit e 0" "e \<noteq> 0" "PHYS_BASE + unat (e AND PTE_ADDR) = p" by (rule pde_create_ok [OF R(3)])
    define s' where "s' = wr (pd + 4 * (768 + q)) e s1"
    have pdp: "PGSIZE dvd pd" "PGSIZE dvd p" using kpages_facts(1) [OF ok pdk] kpages_facts(1) [OF got(4), of p] got(3) by simp_all
    have ppd: "p \<noteq> pd" using pdk got(2) by auto
    have rd': "rd s' (r + 4 * k) = (if r = pd \<and> k = 768 + q then e else rd s1 (r + 4 * k))" if "PGSIZE dvd r" "k < 1024" for r k
      using rd_wr_entry [OF pdp(1) that(1) _ that(2), of "768 + q" e s1] q by (auto simp: s'_def)
    have p: "pde_at s' pd k = (if k = 768 + q then e else pde_at s pd k)" if "k < 1024" for k
      using rd' [OF pdp(1) that] R(1) [OF pdk that] by (auto simp: pde_at_def)
    have t: "table_at s' pd k = (if k = 768 + q then p else table_at s pd k)" if "k < 1024" for k using p [OF that] e(4) by (simp add: table_at_def)
    have kp: "kpages (phys s') = insert p (kpages (phys s))" using got(3) by (simp add: s'_def s1_def)
    have lt: "1024 * i < 1024 * q + 1 \<longleftrightarrow> i < q \<or> i = q" for i :: nat by auto
    have old: "table_at s pd (768 + i) \<in> kpages (phys s)" "table_at s pd (768 + i) \<noteq> pd" "bit (pde_at s pd (768 + i)) 0" if "i < q" for i using T that by (auto simp: kernel_tables_def)
    have inj: "inj_on (\<lambda>i. table_at s pd (768 + i)) {i. i < q}" using T by (simp add: kernel_tables_def)
    have p': "pde_at s' pd (768 + i) = (if i = q then e else pde_at s pd (768 + i))" "table_at s' pd (768 + i) = (if i = q then p else table_at s pd (768 + i))" if "i < 256" for i
      using p [of "768 + i"] t [of "768 + i"] that by simp_all
    have "inj_on (\<lambda>i. table_at s' pd (768 + i)) {i. i < q \<or> i = q}"
    proof (rule inj_onI)
      fix i j assume ij: "i \<in> {i. i < q \<or> i = q}" "j \<in> {i. i < q \<or> i = q}" and eq: "table_at s' pd (768 + i) = table_at s' pd (768 + j)"
      have e: "table_at s' pd (768 + m) = (if m = q then p else table_at s pd (768 + m))" if "m \<in> {i. i < q \<or> i = q}" for m
        by (rule p'(2)) (use that q in auto)
      have np: "table_at s pd (768 + m) \<noteq> p" if "m < q" for m using old(1) [OF that] got(2) by blast
      consider "i = q" "j = q" | "i < q" "j = q" | "i = q" "j < q" | "i < q" "j < q" using ij by auto
      then show "i = j"
      proof cases
        case 4
        then have "table_at s pd (768 + i) = table_at s pd (768 + j)" using eq e [OF ij(1)] e [OF ij(2)] by simp
        then show ?thesis using inj 4 by (auto dest: inj_onD)
      qed (use eq e [OF ij(1)] e [OF ij(2)] np in auto)
    qed
    then have inj': "inj_on (\<lambda>i. table_at s' pd (768 + i)) {i. 1024 * i < 1024 * q + 1}" unfolding lt .
    have user: "pde_at s' pd i = 0" if "i < 768" for i using p [of i] that T by (simp add: kernel_tables_def)
    have tab: "bit (pde_at s' pd (768 + i)) 0 \<and> table_at s' pd (768 + i) \<in> kpages (phys s') - {pd}" if "1024 * i < 1024 * q + 1" for i
    proof (cases "i = q")
      case True
      then show ?thesis using p' [of q] q e(2) ppd kp by simp
    next
      case False
      then have "i < q" using that by simp
      then show ?thesis using p' [of i] q old [of i] False kp by simp
    qed
    have rest: "pde_at s' pd (768 + i) = 0" if "i < 256" "1024 * q + 1 \<le> 1024 * i" for i
      using that p'(1) [OF that(1)] T by (simp add: kernel_tables_def)
    have "kernel_tables s' pd (1024 * q + 1)"
      unfolding kernel_tables_def using user tab rest inj' kp pdk got(4) by (simp add: s'_def s1_def)
    moreover have "kernel_entry s' pd i = kernel_entry s pd i" if "i < 1024 * q" for i
    proof -
      have iq: "i div 1024 < q" using that by (simp add: div_less_iff_less_mult mult.commute)
      note o = old(1,2) [OF iq]
      show ?thesis using p'(2) [of "i div 1024"] iq q rd' [OF kpages_facts(1) [OF ok o(1)], of "i mod 1024"] R(1) [OF o(1), of "i mod 1024"] o(2)
        by (simp add: kernel_entry_def)
    qed
    moreover have "finite (kpages (phys s))" by (simp add: kpages_def bm_used_def)
    then have "card (kpages P) = Suc (card (kpages (phys s)))" using got(2,3) by simp
    ultimately show thesis using that [of p P e] got(1,6) e(1) t [of "768 + q"] q by (simp add: same_static_def s'_def s1_def)
  qed
qed

text \<open>Storing the entry of page \<open>k\<close>.\<close>

lemma store_kernel_entry:
  fixes e :: "32 word"
  assumes T: "kernel_tables s pd (Suc k)" and k: "k < 262144"
  defines "s' \<equiv> wr (table_at s pd (768 + k div 1024) + 4 * (k mod 1024)) e s"
  shows "kernel_tables s' pd (Suc k)" "kernel_entry s' pd k = e" "i < k \<Longrightarrow> kernel_entry s' pd i = kernel_entry s pd i"
    "table_at s' pd (768 + k div 1024) = table_at s pd (768 + k div 1024)" "same_static s s'"
proof -
  have ok: "palloc_ok (phys s)" and pdk: "pd \<in> kpages (phys s)" using T by (simp_all add: kernel_tables_def)
  let ?q = "k div 1024"
  have q: "?q < 256" "1024 * ?q < Suc k" using k by (simp_all add: div_less_iff_less_mult)
  have tab: "table_at s pd (768 + i) \<in> kpages (phys s)" "table_at s pd (768 + i) \<noteq> pd" if "1024 * i < Suc k" for i
    using T that by (auto simp: kernel_tables_def)
  note al = kpages_facts(1) [OF ok]
  have rd': "rd s' (r + 4 * j) = (if r = table_at s pd (768 + ?q) \<and> j = k mod 1024 then e else rd s (r + 4 * j))" if "PGSIZE dvd r" "j < 1024" for r j
    using rd_wr_entry [OF al [OF tab(1) [OF q(2)]] that(1) _ that(2), of "k mod 1024" e s] by (auto simp: s'_def)
  have p: "pde_at s' pd j = pde_at s pd j" if "j < 1024" for j using rd' [OF al [OF pdk] that] tab(2) [OF q(2)] by (auto simp: pde_at_def)
  then have t: "table_at s' pd j = table_at s pd j" if "j < 1024" for j using that by (simp add: table_at_def)
  have small: "768 + i < 1024" if "1024 * i < Suc k" for i using that k by simp
  show "table_at s' pd (768 + ?q) = table_at s pd (768 + ?q)" using t q(1) by simp
  then show "kernel_entry s' pd k = e" using rd' [OF al [OF tab(1) [OF q(2)]], of "k mod 1024"] by (simp add: kernel_entry_def)
  show "same_static s s'" by (simp add: same_static_def s'_def)
  have inj: "inj_on (\<lambda>i. table_at s pd (768 + i)) {i. 1024 * i < Suc k}" using T by (simp add: kernel_tables_def)
  show "kernel_entry s' pd i = kernel_entry s pd i" if "i < k"
  proof -
    have i: "1024 * (i div 1024) < Suc k" using that by simp
    have "\<not> (table_at s pd (768 + i div 1024) = table_at s pd (768 + ?q) \<and> i mod 1024 = k mod 1024)"
    proof
      assume a: "table_at s pd (768 + i div 1024) = table_at s pd (768 + ?q) \<and> i mod 1024 = k mod 1024"
      then have "i div 1024 = ?q" using inj i q(2) by (auto simp: inj_on_def)
      then show False using a that by (metis div_mod_decomp less_irrefl)
    qed
    then show ?thesis using t [OF small [OF i]] rd' [OF al [OF tab(1) [OF i]], of "i mod 1024"] by (auto simp: kernel_entry_def)
  qed
  have "inj_on (\<lambda>i. table_at s' pd (768 + i)) {i. 1024 * i < Suc k}" using inj small by (simp add: inj_on_def t)
  then show "kernel_tables s' pd (Suc k)" using T small p t unfolding kernel_tables_def by (simp add: s'_def)
qed

definition ram_mapped :: "nat \<Rightarrow> nat \<Rightarrow> mmu \<Rightarrow> nat \<Rightarrow> nat \<Rightarrow> nat \<times> mmu \<Rightarrow> bool" where
  "ram_mapped a b st pd k = (\<lambda>(pt, s). kernel_tables s pd k \<and> kernel_maps a b s pd k \<and> same_static st s
     \<and> card (kpages (phys s)) = card (kpages (phys st)) + (k + 1023) div 1024 \<and> (0 < k \<longrightarrow> pt = table_at s pd (768 + (k - 1) div 1024)))"

lemma same_static_trans: "same_static s s1 \<Longrightarrow> same_static s1 s2 \<Longrightarrow> same_static s s2"
  by (simp add: same_static_def)

lemma kernel_page_address:
  assumes "k < 262144"
  shows "ptov (k * PGSIZE) = Some (PHYS_BASE + k * PGSIZE)" "pd_no (PHYS_BASE + k * PGSIZE) = 768 + k div 1024" "pt_no (PHYS_BASE + k * PGSIZE) = k mod 1024"
    "page_word (PHYS_BASE + k * PGSIZE)" "is_kernel_vaddr (PHYS_BASE + k * PGSIZE)"
proof -
  have "PHYS_BASE + k * PGSIZE = 4096 * (768 * 1024 + k)" by (simp add: PHYS_BASE_def PGSIZE_eq)
  then have "pg_no (PHYS_BASE + k * PGSIZE) = 768 * 1024 + k" unfolding pg_no_def PGSIZE_eq by simp
  then show "pd_no (PHYS_BASE + k * PGSIZE) = 768 + k div 1024" "pt_no (PHYS_BASE + k * PGSIZE) = k mod 1024"
    unfolding pt_pd_no by (simp_all only: div_mult_self3 mod_mult_self3)
qed (use assms in \<open>simp_all add: ptov_def PHYS_BASE_def PGSIZE_eq page_word_def is_kernel_vaddr_def\<close>)

lemma map_ram_page_ok:
  assumes I: "ram_mapped a b st pd k (pt, s)" and k: "k < 262144"
    and room: "card (kpages (phys st)) + (k + 1024) div 1024 \<le> bit_cnt (used_map (kernel_pool (phys st)))"
  shows "\<exists>r. map_ram_page a b pd k (pt, s) = Some r \<and> ram_mapped a b st pd (Suc k) r"
proof -
  let ?va = "PHYS_BASE + k * PGSIZE" and ?q = "k div 1024"
  note V = kernel_page_address [OF k]
  have s: "kernel_tables s pd k" "kernel_maps a b s pd k" "same_static st s" "card (kpages (phys s)) = card (kpages (phys st)) + (k + 1023) div 1024"
      "0 < k \<Longrightarrow> pt = table_at s pd (768 + (k - 1) div 1024)" using I by (simp_all add: ram_mapped_def)
  obtain e where e: "pte_create_kernel ?va (\<not> (a \<le> ?va \<and> ?va < b)) = Some e" using page_word_phys(1,2) [OF V(4)] by (auto simp: pte_create_kernel_def)
  have finish: thesis if T: "kernel_tables s1 pd (Suc k)" and t: "pt1 = table_at s1 pd (768 + ?q)" and old: "\<And>i. i < k \<Longrightarrow> kernel_entry s1 pd i = kernel_entry s pd i"
      and c: "card (kpages (phys s1)) = card (kpages (phys st)) + (Suc k + 1023) div 1024" and st1: "same_static s s1"
      and run: "map_ram_page a b pd k (pt, s) = Some (pt1, wr (pt1 + 4 * (k mod 1024)) e s1)"
      and th: "\<And>r. map_ram_page a b pd k (pt, s) = Some r \<Longrightarrow> ram_mapped a b st pd (Suc k) r \<Longrightarrow> thesis" for s1 pt1 thesis
  proof -
    note S = store_kernel_entry [OF T k, where e = e, folded t]
    have "kernel_maps a b (wr (pt1 + 4 * (k mod 1024)) e s1) pd (Suc k)" unfolding kernel_maps_def
    proof (intro allI impI)
      fix i assume "i < Suc k"
      then consider "i < k" | "i = k" by linarith
      then show "pte_create_kernel (PHYS_BASE + i * PGSIZE) (\<not> (a \<le> PHYS_BASE + i * PGSIZE \<and> PHYS_BASE + i * PGSIZE < b)) = Some (kernel_entry (wr (pt1 + 4 * (k mod 1024)) e s1) pd i)"
        using S(2,3) e s(2) old by cases (simp_all add: kernel_maps_def)
    qed
    then have "ram_mapped a b st pd (Suc k) (pt1, wr (pt1 + 4 * (k mod 1024)) e s1)"
      using S(1,4) c same_static_trans [OF s(3) same_static_trans [OF st1 S(5)]] t by (simp add: ram_mapped_def)
    then show thesis using th run by blast
  qed
  show ?thesis
  proof (cases "k mod 1024 = 0")
    case True
    then have kq: "k = 1024 * ?q" by auto
    have q: "?q < 256" using k by (simp add: div_less_iff_less_mult)
    have T: "kernel_tables s pd (1024 * ?q)" using s(1) kq by simp
    have z: "rd s (pd + 4 * (768 + ?q)) = 0" using T q by (simp add: kernel_tables_def pde_at_def)
    have "(1024 * i + 1023) div 1024 = i" "(1024 * i + 1024) div 1024 = i + 1" "(Suc (1024 * i) + 1023) div 1024 = i + 1" for i :: nat by simp_all
    note kd = this [of ?q, folded kq]
    have "card (kpages (phys s)) < bit_cnt (used_map (kernel_pool (phys s)))" using s(3,4) room kd by (simp add: same_static_def)
    then obtain p P d where g: "palloc_get_page {PAL_ASSERT, PAL_ZERO} (phys s) = Some (p, P)" "pde_create p = Some d"
      "kernel_tables (wr (pd + 4 * (768 + ?q)) d (s\<lparr>phys := P\<rparr>)) pd (1024 * ?q + 1)"
      "table_at (wr (pd + 4 * (768 + ?q)) d (s\<lparr>phys := P\<rparr>)) pd (768 + ?q) = p"
      "\<And>i. i < 1024 * ?q \<Longrightarrow> kernel_entry (wr (pd + 4 * (768 + ?q)) d (s\<lparr>phys := P\<rparr>)) pd i = kernel_entry s pd i"
      "card (kpages P) = Suc (card (kpages (phys s)))" "same_static s (wr (pd + 4 * (768 + ?q)) d (s\<lparr>phys := P\<rparr>))"
      using add_kernel_table [OF T q] by metis
    let ?s = "wr (pd + 4 * (768 + ?q)) d (s\<lparr>phys := P\<rparr>)"
    have run: "map_ram_page a b pd k (pt, s) = Some (p, wr (p + 4 * (k mod 1024)) e ?s)" using V z g(1,2) e by (simp add: map_ram_page_def)
    have c: "card (kpages (phys ?s)) = card (kpages (phys st)) + (Suc k + 1023) div 1024" using g(6) s(4) kd by simp
    show ?thesis
      by (rule finish [OF _ g(4) [symmetric] _ c g(7) run]) (use g(3,5) kq in auto)
  next
    case False
    then have eq: "1024 * i < Suc k \<longleftrightarrow> 1024 * i < k" for i by (metis less_Suc_eq mod_mult_self1_is_0)
    have eq': "k \<le> 1024 * i \<longleftrightarrow> Suc k \<le> 1024 * i" for i using eq [of i] by linarith
    have T: "kernel_tables s pd (Suc k)" using s(1) unfolding kernel_tables_def eq eq' by blast
    have ql: "1024 * ?q < k" using False eq by (metis less_Suc_eq_le mult.commute div_times_less_eq_dividend)
    have qu: "k < 1024 * ?q + 1024" using dividend_less_times_div [of 1024 k] by simp
    have nz: "rd s (pd + 4 * (768 + ?q)) \<noteq> 0" using s(1) ql by (auto simp: kernel_tables_def pde_at_def)
    have pt: "pt = table_at s pd (768 + ?q)"
    proof -
      have "(k - 1) div 1024 = ?q" by (rule div_nat_eqI) (use ql qu in simp_all)
      moreover have "0 < k" using ql by simp
      ultimately show ?thesis using s(5) by simp
    qed
    have run: "map_ram_page a b pd k (pt, s) = Some (pt, wr (pt + 4 * (k mod 1024)) e s)" using V nz e by (simp add: map_ram_page_def)
    have "(Suc k + 1023) div 1024 = ?q + 1" "(k + 1023) div 1024 = ?q + 1" by (rule div_nat_eqI; use ql qu in simp)+
    then have c: "card (kpages (phys s)) = card (kpages (phys st)) + (Suc k + 1023) div 1024" using s(4) by simp
    show ?thesis by (rule finish [OF T pt _ c _ run]) (auto simp: same_static_def)
  qed
qed

lemma rd_static [simp]:
  "rd (st\<lparr>init_page_dir := p\<rparr>) = rd st" "rd (st\<lparr>cr3 := c\<rparr>) = rd st"
  by (simp_all add: rd_def fun_eq_iff)

lemma reads_only [simp]:
  "pde_at (st\<lparr>init_page_dir := p\<rparr>) = pde_at st" "pde_at (st\<lparr>cr3 := c\<rparr>) = pde_at st"
  "table_at (st\<lparr>init_page_dir := p\<rparr>) = table_at st" "table_at (st\<lparr>cr3 := c\<rparr>) = table_at st"
  by (simp_all add: pde_at_def table_at_def fun_eq_iff)

lemma kernel_cr3 [simp]:
  "kernel_tables (st\<lparr>cr3 := c, tlb := t\<rparr>) pd k = kernel_tables st pd k" "kernel_maps a b (st\<lparr>cr3 := c, tlb := t\<rparr>) pd k = kernel_maps a b st pd k"
  by (simp_all add: kernel_tables_def kernel_maps_def kernel_entry_def)

lemma empty_user_half:
  assumes "kernel_tables s pd k"
  shows "dir_ok s pd" "tables s pd = {}" "owned s pd = {pd}"
proof -
  show ts: "tables s pd = {}" using assms by (auto simp: tables_def kernel_tables_def)
  then show "owned s pd = {pd}" by (simp add: owned_def)
  have "\<not> bit (pte_at s pd n) 0" if "n < USER_PAGES" for n using user_index [OF that] ts by (simp add: pte_at_def tables_def)
  then show "dir_ok s pd" using assms ts by (simp add: dir_ok_def kernel_tables_def)
qed

lemma paging_init_ok:
  assumes ok: "palloc_ok (phys st)" and n: "0 < init_ram_pages st" "init_ram_pages st \<le> 262144"
    and room: "card (kpages (phys st)) + 1 + (init_ram_pages st + 1023) div 1024 \<le> bit_cnt (used_map (kernel_pool (phys st)))"
  obtains st' where "paging_init a b st = Some st'" "mmu_ok st'" "kernel_tables st' (init_page_dir st') (init_ram_pages st)"
    "kernel_maps a b st' (init_page_dir st') (init_ram_pages st)" "active st' = init_page_dir st'" "tlb st' = (\<lambda>_. None)" "init_ram_pages st' = init_ram_pages st"
    "card (kpages (phys st')) = card (kpages (phys st)) + 1 + (init_ram_pages st + 1023) div 1024"
    "bit_cnt (used_map (kernel_pool (phys st'))) = bit_cnt (used_map (kernel_pool (phys st)))"
proof -
  let ?n = "init_ram_pages st"
  have fl: "PAL_USER \<notin> {PAL_ASSERT, PAL_ZERO}" "PAL_ASSERT \<notin> {PAL_ASSERT, PAL_ZERO} \<or> card (kpages (phys st)) < bit_cnt (used_map (kernel_pool (phys st)))" using room by simp_all
  show thesis
  proof (cases rule: get_kernel_page [OF ok fl])
    case 1
    then show thesis using room by simp
  next
    case got: (2 pd P)
    define st1 where "st1 = st\<lparr>phys := P, init_page_dir := pd\<rparr>"
    note R = fresh_page_reads [OF ok got(4,2,3,7), simplified]
    have z: "pde_at st1 pd i = 0" if "i < 1024" for i using R(2) [OF that] by (simp add: pde_at_def st1_def)
    have T: "kernel_tables st1 pd 0" using z got(3,4) by (simp add: kernel_tables_def st1_def)
    have fin: "finite (kpages (phys st))" by (simp add: kpages_def bm_used_def)
    then have c: "card (kpages (phys st1)) = card (kpages (phys st)) + 1" using got(2,3) by (simp add: st1_def)
    have bc: "bit_cnt (used_map (kernel_pool (phys st1))) = bit_cnt (used_map (kernel_pool (phys st)))" using got(6) by (simp add: st1_def)
    have start: "ram_mapped a b st1 pd (length ([] :: nat list)) (0, st1)" using T by (simp add: ram_mapped_def kernel_maps_def same_static_def)
    have "\<exists>r. mfold (map_ram_page a b pd) [0..<?n] (0, st1) = Some r \<and> ram_mapped a b st1 pd (length [0..<?n]) r"
    proof (rule mfold_invariant [where I = "\<lambda>ys. ram_mapped a b st1 pd (length ys)", OF start])
      fix ys k zs t assume k: "[0..<?n] = ys @ k # zs" and t: "ram_mapped a b st1 pd (length ys) t"
      have kl: "k = length ys" "k < ?n" using upt_split [OF k] by simp_all
      have "(k + 1024) div 1024 \<le> (?n + 1023) div 1024" using kl(2) by (intro div_le_mono) simp
      then have rm: "card (kpages (phys st1)) + (k + 1024) div 1024 \<le> bit_cnt (used_map (kernel_pool (phys st1)))" using room c bc by simp
      obtain pt s where ts: "t = (pt, s)" by (cases t)
      show "\<exists>t'. map_ram_page a b pd k t = Some t' \<and> ram_mapped a b st1 pd (length (ys @ [k])) t'"
        using map_ram_page_ok [OF t [unfolded ts, folded kl(1)] _ rm] kl n(2) ts by simp
    qed
    then obtain pt s where s: "mfold (map_ram_page a b pd) [0..<?n] (0, st1) = Some (pt, s)" "ram_mapped a b st1 pd ?n (pt, s)" by auto
    have S: "kernel_tables s pd ?n" "kernel_maps a b s pd ?n" "same_static st1 s" "card (kpages (phys s)) = card (kpages (phys st1)) + (?n + 1023) div 1024"
      using s(2) by (simp_all add: ram_mapped_def)
    note W = page_word_phys [OF R(3)]
    have i: "init_page_dir s = pd" "init_ram_pages s = ?n" using S(3) by (simp_all add: same_static_def st1_def)
    let ?s = "s\<lparr>cr3 := pd - PHYS_BASE, tlb := \<lambda>_. None\<rparr>"
    have run: "paging_init a b st = Some ?s" using got(1) s(1) W(2) by (simp add: paging_init_def Let_def st1_def)
    have act: "active ?s = pd" using R(3) by (simp add: active_def page_word_def)
    then have "mmu_ok ?s" using R(3) S(1) by (simp add: mmu_ok_def active_def kernel_tables_def)
    then show thesis using that [OF run] S act i c bc by (simp add: same_static_def)
  qed
qed

section \<open>All directories and the processor\<close>

text \<open>\<open>D\<close> is the set of directories in use beside the first one. \<open>translate\<close> is the processor: it uses a present entry of
  the active directory, sets its accessed and dirty bits and keeps it in the translation buffer. The dirty and accessed bits set here are
  those of user addresses; the kernel also sets them for its own addresses, in the tables all directories share, which
  \<open>KernelHalf\<close> is about. Pages the rest of the kernel allocates are not steps.\<close>

inductive vm_step :: "nat set \<times> mmu \<Rightarrow> nat set \<times> mmu \<Rightarrow> bool" where
  create: "pagedir_create st = Some (pd, st') \<Longrightarrow> vm_step (D, st) (if pd = 0 then D else insert pd D, st')"
| destroy: "pd \<in> D \<Longrightarrow> active st \<noteq> pd \<Longrightarrow> pagedir_destroy pd st = Some st' \<Longrightarrow> vm_step (D, st) (D - {pd}, st')"
| set_page: "pd \<in> D \<Longrightarrow> kpage < 2 ^ 32 \<Longrightarrow> pagedir_set_page pd upage kpage w st = Some (ok, st') \<Longrightarrow> vm_step (D, st) (D, st')"
| clear_page: "pd \<in> D \<Longrightarrow> pagedir_clear_page pd va st = Some st' \<Longrightarrow> vm_step (D, st) (D, st')"
| set_dirty: "pd \<in> D \<Longrightarrow> is_user_vaddr va \<Longrightarrow> pagedir_set_dirty pd va b st = Some st' \<Longrightarrow> vm_step (D, st) (D, st')"
| set_accessed: "pd \<in> D \<Longrightarrow> is_user_vaddr va \<Longrightarrow> pagedir_set_accessed pd va b st = Some st' \<Longrightarrow> vm_step (D, st) (D, st')"
| kernel_access: "pd \<in> D \<Longrightarrow> pageir_set_kernel_access pd va k st = Some st' \<Longrightarrow> vm_step (D, st) (D, st')"
| activate: "pd \<in> D \<or> pd = 0 \<Longrightarrow> pagedir_activate pd st = Some st' \<Longrightarrow> vm_step (D, st) (D, st')"
| translate: "active st \<in> D \<Longrightarrow> n < USER_PAGES \<Longrightarrow> bit (pte_at st (active st) n) 0 \<Longrightarrow> e = pte_at st (active st) n OR PTE_A OR (if w then PTE_D else 0)
    \<Longrightarrow> vm_step (D, st) (D, (wr (table_at st (active st) (n div 1024) + 4 * (n mod 1024)) e st)\<lparr>tlb := (tlb st)(n \<mapsto> e)\<rparr>)"

definition tlb_ok :: "mmu \<Rightarrow> bool" where
  "tlb_ok st \<longleftrightarrow> (\<forall>n<USER_PAGES. \<forall>e. tlb st n = Some e \<longrightarrow> bit (pte_at st (active st) n) 0 \<and> agree e (pte_at st (active st) n))"

definition vm_inv :: "nat set \<times> mmu \<Rightarrow> bool" where
  "vm_inv = (\<lambda>(D, st). mmu_ok st \<and> init_page_dir st \<notin> D \<and> tables st (init_page_dir st) = {} \<and> (\<forall>pd\<in>insert (init_page_dir st) D. dir_ok st pd)
     \<and> (\<forall>p\<in>insert (init_page_dir st) D. \<forall>q\<in>insert (init_page_dir st) D. p \<noteq> q \<longrightarrow> owned st p \<inter> owned st q = {})
     \<and> active st \<in> insert (init_page_dir st) D \<and> tlb_ok st)"

lemma vm_invD:
  assumes "vm_inv (D, st)"
  shows "mmu_ok st" "init_page_dir st \<notin> D" "tables st (init_page_dir st) = {}" "\<And>pd. pd \<in> insert (init_page_dir st) D \<Longrightarrow> dir_ok st pd"
    "\<And>p q. p \<in> insert (init_page_dir st) D \<Longrightarrow> q \<in> insert (init_page_dir st) D \<Longrightarrow> p \<noteq> q \<Longrightarrow> owned st p \<inter> owned st q = {}"
    "active st \<in> insert (init_page_dir st) D" "tlb_ok st"
proof -
  show "mmu_ok st" "init_page_dir st \<notin> D" "tables st (init_page_dir st) = {}" "active st \<in> insert (init_page_dir st) D" "tlb_ok st"
    using assms by (simp_all add: vm_inv_def)
  show "dir_ok st pd" if "pd \<in> insert (init_page_dir st) D" for pd using assms that by (auto simp: vm_inv_def)
  have "\<forall>p\<in>insert (init_page_dir st) D. \<forall>q\<in>insert (init_page_dir st) D. p \<noteq> q \<longrightarrow> owned st p \<inter> owned st q = {}"
    using assms unfolding vm_inv_def split by (elim conjE)
  then show "owned st p \<inter> owned st q = {}" if "p \<in> insert (init_page_dir st) D" "q \<in> insert (init_page_dir st) D" "p \<noteq> q" for p q
    using that by blast
qed

lemma tlb_ok_flushed: "tlb st = (\<lambda>_. None) \<Longrightarrow> tlb_ok st"
  by (simp add: tlb_ok_def)

lemma vm_inv_dir_step:
  assumes I: "vm_inv (D, st)" and pd: "pd \<in> D" and s: "dir_step pd st st'" and q: "quiet pd st st'"
  shows "vm_inv (D, st')" and "\<And>pd2 n. pd2 \<in> insert (init_page_dir st) D \<Longrightarrow> pd2 \<noteq> pd \<Longrightarrow> n < USER_PAGES \<Longrightarrow> pte_at st' pd2 n = pte_at st pd2 n"
proof -
  note V = vm_invD [OF I]
  let ?A = "insert (init_page_dir st) D"
  have st: "init_page_dir st' = init_page_dir st" "active st' = active st" "mmu_ok st'" "dir_ok st' pd" using s by (simp_all add: dir_step_def active_def)
  have other: "dir_ok st' p" "owned st' p = owned st p" "owned st' p \<inter> owned st' pd = {}" "\<And>n. n < USER_PAGES \<Longrightarrow> pte_at st' p n = pte_at st p n" if "p \<in> ?A" "p \<noteq> pd" for p
    using dir_step_other [OF s V(4) [OF that(1)] V(5) [OF that(1) _ that(2)]] pd by auto
  show "\<And>pd2 n. pd2 \<in> ?A \<Longrightarrow> pd2 \<noteq> pd \<Longrightarrow> n < USER_PAGES \<Longrightarrow> pte_at st' pd2 n = pte_at st pd2 n" by (rule other(4))
  have ipd: "init_page_dir st \<noteq> pd" using V(2) pd by auto
  have io: "owned st (init_page_dir st) = {init_page_dir st}" using V(3) by (simp add: owned_def)
  have it: "tables st' (init_page_dir st) = {}"
  proof (rule ccontr)
    assume "tables st' (init_page_dir st) \<noteq> {}"
    then obtain i where i: "i \<in> tables st' (init_page_dir st)" by blast
    then have "table_at st' (init_page_dir st) i \<in> owned st' (init_page_dir st)" by (simp add: owned_def)
    then have "table_at st' (init_page_dir st) i = init_page_dir st" using other(2) [OF _ ipd] io by simp
    then show False using other(1) [OF _ ipd] i by (simp add: dir_ok_def)
  qed
  have dirs: "dir_ok st' p" if "p \<in> ?A" for p using other(1) [OF that] st(4) by (cases "p = pd") simp_all
  have apart: "owned st' p \<inter> owned st' r = {}" if "p \<in> ?A" "r \<in> ?A" "p \<noteq> r" for p r
    using other(2,3) [OF that(1)] other(2,3) [OF that(2)] V(5) [OF that] that(3) by (cases "p = pd"; cases "r = pd") auto
  have "tlb_ok st'" using q unfolding quiet_def
  proof (elim disjE conjE)
    assume t: "tlb st' = tlb st" and ag: "active st = pd \<longrightarrow> (\<forall>n<USER_PAGES. bit (pte_at st pd n) 0 \<longrightarrow> agree (pte_at st pd n) (pte_at st' pd n))"
    show "tlb_ok st'" unfolding tlb_ok_def st(2) t
    proof (intro allI impI)
      fix n e assume n: "n < USER_PAGES" and e: "tlb st n = Some e"
      then have o: "bit (pte_at st (active st) n) 0" "agree e (pte_at st (active st) n)" using V(7) by (simp_all add: tlb_ok_def)
      show "bit (pte_at st' (active st) n) 0 \<and> agree e (pte_at st' (active st) n)"
      proof (cases "active st = pd")
        case True
        then have "agree (pte_at st pd n) (pte_at st' pd n)" using ag n o(1) by simp
        moreover have "bit (pte_at st' pd n) 0" using calculation o(1) True by (simp add: agree_def)
        ultimately show ?thesis using o agree_trans True by blast
      qed (use o other(4) [OF V(6) _ n] in simp)
    qed
  qed (rule tlb_ok_flushed)
  then show "vm_inv (D, st')" using st it dirs apart V(2,6) unfolding vm_inv_def by simp
qed

text \<open>Dropping directories, and memory that belongs to none.\<close>

lemma vm_inv_frame:
  assumes I: "vm_inv (D, st)" and E: "E \<subseteq> D" and same: "\<forall>p\<in>insert (init_page_dir st) E. same_pages (owned st p) st st' \<and> owned st p \<subseteq> kpages (phys st')"
    and st: "mmu_ok st'" "init_page_dir st' = init_page_dir st" "cr3 st' = cr3 st" "tlb st' = tlb st" and act: "active st \<in> insert (init_page_dir st) E"
  shows "vm_inv (E, st')" "\<And>p n. p \<in> insert (init_page_dir st) E \<Longrightarrow> n < USER_PAGES \<Longrightarrow> pte_at st' p n = pte_at st p n"
    "\<And>p. p \<in> insert (init_page_dir st) E \<Longrightarrow> owned st' p = owned st p"
proof -
  note V = vm_invD [OF I]
  have S: "tables st' p = tables st p" "owned st' p = owned st p" "n < USER_PAGES \<Longrightarrow> pte_at st' p n = pte_at st p n" if "p \<in> insert (init_page_dir st) E" for p n
    using same_pages_dir [of st p st'] bspec [OF same that] by blast+
  show "pte_at st' p n = pte_at st p n" if "p \<in> insert (init_page_dir st) E" "n < USER_PAGES" for p n using S(3) that by blast
  show own: "owned st' p = owned st p" if "p \<in> insert (init_page_dir st) E" for p by (rule S(2) [OF that])
  have dirs: "dir_ok st' p" if "p \<in> insert (init_page_dir st) E" for p
    using same_pages_ok [OF V(4)] bspec [OF same that] that E by blast
  have a: "active st' = active st" using st(3) by (simp add: active_def)
  have "tlb_ok st'" using V(7) S(3) [OF act] unfolding tlb_ok_def a st(4) by simp
  moreover have "\<forall>p\<in>insert (init_page_dir st) E. \<forall>q\<in>insert (init_page_dir st) E. p \<noteq> q \<longrightarrow> owned st' p \<inter> owned st' q = {}"
  proof (intro ballI impI)
    fix p q assume pq: "p \<in> insert (init_page_dir st) E" "q \<in> insert (init_page_dir st) E" "p \<noteq> q"
    have "p \<in> insert (init_page_dir st) D" "q \<in> insert (init_page_dir st) D" using pq E by blast+
    then show "owned st' p \<inter> owned st' q = {}" using V(5) pq own by simp
  qed
  moreover have "init_page_dir st \<notin> E" "tables st' (init_page_dir st) = {}" using V(2,3) E S(1) by auto
  ultimately show "vm_inv (E, st')" using dirs st(1,2) act a unfolding vm_inv_def by simp
qed

lemma vm_create:
  assumes I: "vm_inv (D, st)" and c: "pagedir_create st = Some (pd, st')"
  shows "vm_inv (if pd = 0 then D else insert pd D, st')"
proof -
  note V = vm_invD [OF I]
  have idir: "dir_ok st (init_page_dir st)" using V(4) by simp
  show ?thesis
  proof (cases rule: pagedir_create_ok [OF V(1) idir V(3)])
    case 1
    then show ?thesis using c I by simp
  next
    case new: (2 p s)
    then have eq: "p = pd" "s = st'" using c by simp_all
    note new = new [unfolded eq]
    have sub: "owned st q \<subseteq> kpages (phys st)" if "q \<in> insert (init_page_dir st) D" for q by (rule owned_kpages [OF V(4) [OF that]])
    have same: "\<forall>q\<in>insert (init_page_dir st) D. same_pages (owned st q) st st' \<and> owned st q \<subseteq> kpages (phys st')"
      using same_pages_mono [OF new(8)] sub new(4) by blast
    note F = vm_inv_frame [OF I subset_refl same new(5,10,12,13) V(6)]
    note V' = vm_invD [OF F(1)]
    have ow: "owned st' pd = {pd}" using new(7) by (simp add: owned_def)
    have np: "pd \<notin> owned st' q" if "q \<in> insert (init_page_dir st) D" for q using F(3) [OF that] sub [OF that] new(3) by blast
    have "\<forall>p\<in>insert (init_page_dir st) (insert pd D). \<forall>q\<in>insert (init_page_dir st) (insert pd D). p \<noteq> q \<longrightarrow> owned st' p \<inter> owned st' q = {}"
    proof (intro ballI impI)
      fix p q assume pq: "p \<in> insert (init_page_dir st) (insert pd D)" "q \<in> insert (init_page_dir st) (insert pd D)" "p \<noteq> q"
      then consider "p = pd" "q \<in> insert (init_page_dir st) D" | "q = pd" "p \<in> insert (init_page_dir st) D"
        | "p \<in> insert (init_page_dir st) D" "q \<in> insert (init_page_dir st) D" by blast
      then show "owned st' p \<inter> owned st' q = {}"
      proof cases
        case 3
        then show ?thesis using V'(5) pq(3) new(10) by simp
      qed (use np ow in auto)
    qed
    moreover have "pd \<noteq> init_page_dir st" using np [of "init_page_dir st"] by (auto simp: owned_def)
    moreover have "active st' \<in> insert (init_page_dir st) (insert pd D)" using V'(6) new(10) by auto
    ultimately show ?thesis using V' new(2,6,10) unfolding vm_inv_def by simp
  qed
qed

lemma vm_destroy:
  assumes I: "vm_inv (D, st)" and pd: "pd \<in> D" "active st \<noteq> pd"
  obtains st' where "pagedir_destroy pd st = Some st'" "vm_inv (D - {pd}, st')" "kpages (phys st') = kpages (phys st) - owned st pd"
    "\<And>p n. p \<in> D - {pd} \<Longrightarrow> n < USER_PAGES \<Longrightarrow> pte_at st' p n = pte_at st p n" "user_pool (phys st') = user_pool (phys st)"
proof -
  note V = vm_invD [OF I]
  have d: "dir_ok st pd" using V(4) pd by simp
  have ni: "pd \<noteq> init_page_dir st" using pd V(2) by auto
  obtain st' where s: "pagedir_destroy pd st = Some st'" "mmu_ok st'" "kpages (phys st') = kpages (phys st) - owned st pd"
    "same_pages (kpages (phys st')) st st'" "init_page_dir st' = init_page_dir st" "cr3 st' = cr3 st" "tlb st' = tlb st" "user_pool (phys st') = user_pool (phys st)"
    by (rule pagedir_destroy_ok [OF V(1) d ni])
  have same: "\<forall>q\<in>insert (init_page_dir st) (D - {pd}). same_pages (owned st q) st st' \<and> owned st q \<subseteq> kpages (phys st')"
  proof
    fix q assume q: "q \<in> insert (init_page_dir st) (D - {pd})"
    have "q \<in> insert (init_page_dir st) D" "q \<noteq> pd" using q ni by auto
    then have "owned st q \<subseteq> kpages (phys st')" using owned_kpages [OF V(4)] V(5) [of q pd] pd(1) s(3) by blast
    then show "same_pages (owned st q) st st' \<and> owned st q \<subseteq> kpages (phys st')" using same_pages_mono [OF s(4)] by blast
  qed
  have act: "active st \<in> insert (init_page_dir st) (D - {pd})" using V(6) pd(2) by blast
  note F = vm_inv_frame [OF I Diff_subset same s(2,5,6,7) act]
  show thesis by (rule that [OF s(1) F(1) s(3) _ s(8)]) (use F(2) in blast)
qed

lemma set_page_checks:
  assumes st: "mmu_ok st" and d: "dir_ok st pd" and k: "kpage < 2 ^ 32" and run: "pagedir_set_page pd upage kpage w st = Some (ok, st')"
  shows "is_user_vaddr upage" "pg_ofs upage = 0" "page_word kpage" "(kpage - PHYS_BASE) div PGSIZE < init_ram_pages st" "pd \<noteq> init_page_dir st"
    "\<not> bit (pte_at st pd (pg_no upage)) 0"
proof -
  have c: "pg_ofs upage = 0" "pg_ofs kpage = 0" "is_user_vaddr upage" "is_kernel_vaddr kpage" "(kpage - PHYS_BASE) div 2 ^ PTSHIFT < init_ram_pages st" "pd \<noteq> init_page_dir st"
    using run by (auto simp: pagedir_set_page_def vtop_def kernel_simps)
  then show "is_user_vaddr upage" "pg_ofs upage = 0" "pd \<noteq> init_page_dir st" "(kpage - PHYS_BASE) div PGSIZE < init_ram_pages st"
    by (simp_all add: PGSIZE_def PTSHIFT_def)
  show "page_word kpage" using c(2,4) k by (simp add: page_word_def pg_ofs_def is_kernel_vaddr_def mod_eq_0_iff_dvd)
  show "\<not> bit (pte_at st pd (pg_no upage)) 0"
  proof
    assume b: "bit (pte_at st pd (pg_no upage)) 0"
    then have hit: "pd_no upage \<in> tables st pd" using lookup_miss(2) [OF st d c(3)] by fastforce
    let ?a = "table_at st pd (pd_no upage) + 4 * pt_no upage"
    have "?a \<noteq> 0" using dir_facts(5) [OF st d hit] by (auto simp: page_word_def PHYS_BASE_def)
    then show False using run b lookup_hit [OF st d c(3) hit, of True] pte_at_hit [OF hit] by (auto simp: pagedir_set_page_def kernel_simps split: if_splits)
  qed
qed

lemma vm_set_page:
  assumes I: "vm_inv (D, st)" and pd: "pd \<in> D" and k: "kpage < 2 ^ 32" and run: "pagedir_set_page pd upage kpage w st = Some (ok, st')"
  shows "vm_inv (D, st')" and "\<And>pd2 n. pd2 \<in> D - {pd} \<Longrightarrow> n < USER_PAGES \<Longrightarrow> pte_at st' pd2 n = pte_at st pd2 n"
proof -
  note V = vm_invD [OF I]
  have d: "dir_ok st pd" using V(4) pd by simp
  note C = set_page_checks [OF V(1) d k run]
  have "dir_step pd st st' \<and> quiet pd st st'"
  proof (cases rule: pagedir_set_page_ok [OF V(1) d C, of w])
    case 1
    then show ?thesis using run dir_step_refl [OF V(1) d] by (simp add: quiet_def)
  next
    case (2 s e)
    have eq: "st' = s" using 2(1) run by simp
    have "agree (pte_at st pd n) (pte_at s pd n)" if "n < USER_PAGES" "bit (pte_at st pd n) 0" for n
      using 2(4) [OF that(1)] that(2) C(6) by (cases "n = pg_no upage") simp_all
    then show ?thesis using 2(2,5) eq by (simp add: quiet_def)
  qed
  then have S: "dir_step pd st st'" "quiet pd st st'" by simp_all
  show "vm_inv (D, st')" by (rule vm_inv_dir_step(1) [OF I pd S])
  show "pte_at st' pd2 n = pte_at st pd2 n" if "pd2 \<in> D - {pd}" "n < USER_PAGES" for pd2 n
    using vm_inv_dir_step(2) [OF I pd S, of pd2 n] that by simp
qed

lemma vm_translate:
  assumes I: "vm_inv (D, st)" and act: "active st \<in> D" and n: "n < USER_PAGES" and p: "bit (pte_at st (active st) n) 0"
    and e: "e = pte_at st (active st) n OR PTE_A OR (if w then PTE_D else 0)"
  shows "vm_inv (D, (wr (table_at st (active st) (n div 1024) + 4 * (n mod 1024)) e st)\<lparr>tlb := (tlb st)(n \<mapsto> e)\<rparr>)"
proof -
  note V = vm_invD [OF I]
  let ?s = "wr (table_at st (active st) (n div 1024) + 4 * (n mod 1024)) e st"
  have d: "dir_ok st (active st)" using V(4) act by simp
  have ag: "agree (pte_at st (active st) n) e" unfolding e by (auto simp: agree_def bit_simps)
  have hit: "n div 1024 \<in> tables st (active st)" using p user_index [OF n] by (auto simp: tables_def pte_at_def split: if_splits)
  have "page_word (PHYS_BASE + unat (pte_at st (active st) n AND PTE_ADDR))" using d n p by (simp add: dir_ok_def)
  moreover have "e AND PTE_ADDR = pte_at st (active st) n AND PTE_ADDR" by (rule address_bits) (use ag in \<open>auto simp: agree_def\<close>)
  ultimately have pw: "page_word (PHYS_BASE + unat (e AND PTE_ADDR))" by simp
  have m: "n mod 1024 < 1024" by simp
  note S = store_entry [OF V(1) d hit m pw]
  have pte: "pte_at ?s (active st) k = (if k = n then e else pte_at st (active st) k)" if "k < USER_PAGES" for k using S(2) [OF that] by simp
  have q: "quiet (active st) st ?s" using pte ag by (simp add: quiet_def)
  have I': "vm_inv (D, ?s)" by (rule vm_inv_dir_step(1) [OF I act S(1) q])
  have a: "active (?s\<lparr>tlb := t\<rparr>) = active st" "active ?s = active st" for t by (simp_all add: active_def)
  have "tlb_ok (?s\<lparr>tlb := (tlb st)(n \<mapsto> e)\<rparr>)" unfolding tlb_ok_def a
  proof (intro allI impI)
    fix k f assume k: "k < USER_PAGES" and f: "tlb (?s\<lparr>tlb := (tlb st)(n \<mapsto> e)\<rparr>) k = Some f"
    show "bit (pte_at (?s\<lparr>tlb := (tlb st)(n \<mapsto> e)\<rparr>) (active st) k) 0 \<and> agree f (pte_at (?s\<lparr>tlb := (tlb st)(n \<mapsto> e)\<rparr>) (active st) k)"
    proof (cases "k = n")
      case True
      have "bit e 0" using p ag by (simp add: agree_def)
      then show ?thesis using True f pte [OF n] by simp
    next
      case False
      then show ?thesis using f k vm_invD(7) [OF I'] a(2) by (simp add: tlb_ok_def)
    qed
  qed
  then show ?thesis using I' unfolding vm_inv_def split by (simp add: active_def)
qed

lemma vm_activate:
  assumes I: "vm_inv (D, st)" and pd: "pd \<in> D \<or> pd = 0" and run: "pagedir_activate pd st = Some st'"
  shows "vm_inv (D, st')"
proof -
  note V = vm_invD [OF I]
  let ?p = "if pd = 0 then init_page_dir st else pd"
  have in': "?p \<in> insert (init_page_dir st) D" using pd by auto
  note pw = dir_facts(3) [OF V(1) V(4) [OF in']]
  have st': "st' = st\<lparr>cr3 := ?p - PHYS_BASE, tlb := \<lambda>_. None\<rparr>" using run page_word_phys(2) [OF pw] by (simp add: pagedir_activate_def Let_def)
  have rd: "rd st' = rd st" by (simp add: st')
  then have pde: "pde_at st' = pde_at st" by (simp add: pde_at_def fun_eq_iff)
  then have tab: "table_at st' = table_at st" "tables st' = tables st" by (simp_all add: table_at_def tables_def fun_eq_iff)
  then have "pte_at st' = pte_at st" "owned st' = owned st" using rd pde by (simp_all add: pte_at_def owned_def fun_eq_iff)
  moreover from this have "dir_ok st' = dir_ok st" using tab pde by (simp add: dir_ok_def fun_eq_iff st')
  moreover have act: "active st' = ?p" using pw by (simp add: active_def st' page_word_def)
  moreover have "mmu_ok st'" using V(1) pw act by (simp add: mmu_ok_def st' active_def)
  moreover have "tlb_ok st'" by (rule tlb_ok_flushed) (simp add: st')
  moreover have "init_page_dir st' = init_page_dir st" by (simp add: st')
  ultimately show ?thesis using I in' tab unfolding vm_inv_def split by simp
qed

lemma vm_step_inv:
  assumes "vm_step x y" "vm_inv x"
  shows "vm_inv y"
  using assms
proof (cases rule: vm_step.cases)
  case (create st pd st' D)
  then show ?thesis using vm_create assms(2) by simp
next
  case (destroy pd D st st')
  then show ?thesis using vm_destroy [of D st pd] assms(2) by (metis option.inject)
next
  case (set_page pd D kpage upage w st ok st')
  then show ?thesis using vm_set_page(1) assms(2) by metis
next
  case (clear_page pd D va st st')
  have I: "vm_inv (D, st)" using assms(2) clear_page by simp
  have d: "dir_ok st pd" using vm_invD(4) [OF I] clear_page by simp
  have u: "is_user_vaddr va" "pagedir_clear_page pd va st = flag_update True (\<lambda>e. e AND NOT PTE_P) pd va st"
    using clear_page(4) by (auto simp: flag_ops(1) split: if_splits)
  then show ?thesis using flag_update_ok [OF vm_invD(1) [OF I] d u(1) flags_only_ops(1)] vm_inv_dir_step(1) [OF I clear_page(3)] clear_page(2,4)
    by (auto simp: entry_updated_def)
next
  case (set_dirty pd D va b st st')
  have I: "vm_inv (D, st)" using assms(2) set_dirty by simp
  have d: "dir_ok st pd" using vm_invD(4) [OF I] set_dirty by simp
  note up = flag_update_ok [OF vm_invD(1) [OF I] d set_dirty(4)]
  show ?thesis using up [OF flags_only_ops(2)] up [OF flags_only_ops(3)] vm_inv_dir_step(1) [OF I set_dirty(3)] set_dirty(2,5)
    by (auto simp: entry_updated_def flag_ops(2) split: if_splits)
next
  case (set_accessed pd D va b st st')
  have I: "vm_inv (D, st)" using assms(2) set_accessed by simp
  have d: "dir_ok st pd" using vm_invD(4) [OF I] set_accessed by simp
  note up = flag_update_ok [OF vm_invD(1) [OF I] d set_accessed(4)]
  show ?thesis using up [OF flags_only_ops(4)] up [OF flags_only_ops(5)] vm_inv_dir_step(1) [OF I set_accessed(3)] set_accessed(2,5)
    by (auto simp: entry_updated_def flag_ops(3) split: if_splits)
next
  case (kernel_access pd D va k st st')
  have I: "vm_inv (D, st)" using assms(2) kernel_access by simp
  have d: "dir_ok st pd" using vm_invD(4) [OF I] kernel_access by simp
  have u: "is_user_vaddr va" "pg_ofs va = 0" "va \<noteq> 0" using kernel_access(4) by (auto simp: pageir_set_kernel_access_def kernel_simps split: if_splits)
  show ?thesis
  proof (cases "bit (pte_at st pd (pg_no va)) 0")
    case True
    show ?thesis using pageir_set_kernel_access_ok [OF vm_invD(1) [OF I] d u True, of k] vm_inv_dir_step(1) [OF I kernel_access(3)] kernel_access(2,4)
      by (auto simp: entry_updated_def)
  next
    case False
    have "st' = st"
    proof (cases "pd_no va \<in> tables st pd")
      case hit: True
      show ?thesis using kernel_access(4) lookup_hit [OF vm_invD(1) [OF I] d u(1) hit, of False] pte_at_hit [OF hit] False
        by (auto simp: pageir_set_kernel_access_def kernel_simps split: if_splits)
    qed (use kernel_access(4) lookup_miss(1) [OF vm_invD(1) [OF I] d u(1)] in \<open>auto simp: pageir_set_kernel_access_def kernel_simps split: if_splits\<close>)
    then show ?thesis using I kernel_access(2) by simp
  qed
next
  case (activate pd D st st')
  then show ?thesis using vm_activate assms(2) by metis
next
  case (translate st D n e w)
  then show ?thesis using vm_translate assms(2) by metis
qed

lemma vm_steps_inv: "vm_step\<^sup>*\<^sup>* x y \<Longrightarrow> vm_inv x \<Longrightarrow> vm_inv y"
  by (induction rule: rtranclp_induct) (auto intro: vm_step_inv)

section \<open>What the page tables guarantee\<close>

text \<open>The mapping a directory stands for: from page numbers to page addresses and write permissions.\<close>

definition user_map :: "mmu \<Rightarrow> nat \<Rightarrow> nat \<Rightarrow> (nat \<times> bool) option" where
  "user_map st pd n = (if n < USER_PAGES \<and> bit (pte_at st pd n) 0 then Some (PHYS_BASE + unat (pte_at st pd n AND PTE_ADDR), bit (pte_at st pd n) 1) else None)"

lemma user_map_cong: "(\<And>n. n < USER_PAGES \<Longrightarrow> pte_at st' pd n = pte_at st pd n) \<Longrightarrow> user_map st' pd = user_map st pd"
  by (auto simp: user_map_def fun_eq_iff)

lemma get_page_user_map:
  assumes "vm_inv (D, st)" "pd \<in> D" "is_user_vaddr va"
  shows "pagedir_get_page pd va st = Some (case user_map st pd (pg_no va) of None \<Rightarrow> 0 | Some (k, _) \<Rightarrow> k + pg_ofs va)"
  using pagedir_get_page_map [OF vm_invD(1) [OF assms(1)] vm_invD(4) [OF assms(1)] assms(3)] assms(2,3) by (simp add: user_map_def user_pg_no)

lemma pte_create_kernel_ok:
  assumes "page_word k"
  obtains e where "pte_create_kernel k w = Some e" "pte_get_page e = Some k"
proof -
  let ?e = "of_nat (k - PHYS_BASE) OR PTE_P OR (if w then PTE_W else 0) :: 32 word"
  note W = page_word_phys [OF assms]
  have "unat (?e AND PTE_ADDR) = k - PHYS_BASE" by (rule page_word_address [OF assms]) (auto simp: bit_simps split: if_splits)
  then show thesis using that [of ?e] W by (simp add: pte_create_kernel_def pte_get_page_def)
qed

text \<open>A concrete machine: 4 MB of memory, booted, and one directory in use.\<close>

lemma boot_example:
  "\<exists>st0 :: mmu. palloc_ok (phys st0) \<and> init_ram_pages st0 = 1024 \<and> card (kpages (phys st0)) + 302 \<le> bit_cnt (used_map (kernel_pool (phys st0)))"
proof -
  obtain p fr where p: "palloc_init 1024 1000 (\<lambda>_. 0) (\<lambda>_. 0) (\<lambda>_. 0) = Some (p, fr)" "palloc_ok p" "bm_used (used_map (kernel_pool p)) = {}"
      "384 \<le> bit_cnt (used_map (kernel_pool p)) + 2"
    using palloc_init_ok [of 1024 1000 "\<lambda>_. 0" "\<lambda>_. 0" "\<lambda>_. 0"] by auto
  then show ?thesis
    by (intro exI [of _ "\<lparr>phys = p, init_page_dir = 0, init_ram_pages = 1024, cr3 = 0, tlb = \<lambda>_. None\<rparr>"]) (simp add: kpages_def)
qed

lemma vm_start:
  assumes "palloc_ok (phys st)" "0 < init_ram_pages st" "init_ram_pages st \<le> 262144"
    "card (kpages (phys st)) + 1 + (init_ram_pages st + 1023) div 1024 \<le> bit_cnt (used_map (kernel_pool (phys st)))"
    "paging_init a b st = Some st'"
  shows "vm_inv ({}, st')" "kernel_tables st' (init_page_dir st') (init_ram_pages st)" "kernel_maps a b st' (init_page_dir st') (init_ram_pages st)"
    "card (kpages (phys st')) = card (kpages (phys st)) + 1 + (init_ram_pages st + 1023) div 1024" "init_ram_pages st' = init_ram_pages st"
    "bit_cnt (used_map (kernel_pool (phys st'))) = bit_cnt (used_map (kernel_pool (phys st)))"
proof -
  obtain s where s: "paging_init a b st = Some s" "mmu_ok s" "kernel_tables s (init_page_dir s) (init_ram_pages st)" "kernel_maps a b s (init_page_dir s) (init_ram_pages st)"
      "active s = init_page_dir s" "tlb s = (\<lambda>_. None)" "init_ram_pages s = init_ram_pages st"
      "card (kpages (phys s)) = card (kpages (phys st)) + 1 + (init_ram_pages st + 1023) div 1024"
      "bit_cnt (used_map (kernel_pool (phys s))) = bit_cnt (used_map (kernel_pool (phys st)))"
    by (rule paging_init_ok [OF assms(1-4)])
  have eq: "st' = s" using s(1) assms(5) by simp
  show "vm_inv ({}, st')" using s empty_user_half [OF s(3)] tlb_ok_flushed [OF s(6)] unfolding eq vm_inv_def by simp
  show "kernel_tables st' (init_page_dir st') (init_ram_pages st)" "kernel_maps a b st' (init_page_dir st') (init_ram_pages st)"
    "card (kpages (phys st')) = card (kpages (phys st)) + 1 + (init_ram_pages st + 1023) div 1024" "init_ram_pages st' = init_ram_pages st"
    "bit_cnt (used_map (kernel_pool (phys st'))) = bit_cnt (used_map (kernel_pool (phys st)))" using s unfolding eq by simp_all
qed

lemma vm_example:
  "\<exists>st0 st1 st pd. palloc_ok (phys st0) \<and> init_ram_pages st0 = 1024 \<and> card (kpages (phys st0)) + 1 + (init_ram_pages st0 + 1023) div 1024 \<le> bit_cnt (used_map (kernel_pool (phys st0)))
     \<and> paging_init 0 0 st0 = Some st1 \<and> vm_step ({}, st1) ({pd}, st) \<and> vm_inv ({pd}, st) \<and> tables st pd = {} \<and> init_ram_pages st = 1024
     \<and> card (kpages (phys st)) < bit_cnt (used_map (kernel_pool (phys st)))"
proof -
  obtain st0 :: mmu where st0: "palloc_ok (phys st0)" "init_ram_pages st0 = 1024" "card (kpages (phys st0)) + 302 \<le> bit_cnt (used_map (kernel_pool (phys st0)))"
    using boot_example by blast
  have room: "card (kpages (phys st0)) + 1 + (init_ram_pages st0 + 1023) div 1024 \<le> bit_cnt (used_map (kernel_pool (phys st0)))"
    and n: "0 < init_ram_pages st0" "init_ram_pages st0 \<le> 262144" using st0 by simp_all
  obtain st1 where st1: "paging_init 0 0 st0 = Some st1" by (rule paging_init_ok [OF st0(1) n room])
  note S = vm_start [OF st0(1) n room st1]
  note V = vm_invD [OF S(1)]
  have init: "dir_ok st1 (init_page_dir st1)" using V(4) by simp
  show ?thesis
  proof (cases rule: pagedir_create_ok [OF V(1) init V(3)])
    case 1
    then show ?thesis using S(4,6) st0(2,3) by simp
  next
    case (2 pd st)
    have step: "vm_step ({}, st1) ({pd}, st)" using vm_step.create [OF 2(1), of "{}"] 2(2) by simp
    have "finite (kpages (phys st1))" by (simp add: kpages_def bm_used_def)
    then have "card (kpages (phys st)) < bit_cnt (used_map (kernel_pool (phys st)))" using S(4,6) 2(3,4,14) st0(2,3) by simp
    then show ?thesis using st0 room st1 step vm_step_inv [OF step S(1)] 2(7,11) S(5) by metis
  qed
qed

lemma mapped_example:
  "\<exists>st0 st1 st pd e. palloc_ok (phys st0) \<and> init_ram_pages st0 = 1024 \<and> card (kpages (phys st0)) + 1 + (init_ram_pages st0 + 1023) div 1024 \<le> bit_cnt (used_map (kernel_pool (phys st0)))
     \<and> paging_init 0 0 st0 = Some st1 \<and> vm_step\<^sup>*\<^sup>* ({}, st1) ({pd}, st) \<and> active st = pd \<and> tlb st 0x8048 = Some e"
proof -
  obtain st0 st1 st :: mmu and pd where b: "palloc_ok (phys st0)" "init_ram_pages st0 = 1024"
      "card (kpages (phys st0)) + 1 + (init_ram_pages st0 + 1023) div 1024 \<le> bit_cnt (used_map (kernel_pool (phys st0)))"
      "paging_init 0 0 st0 = Some st1" "vm_step ({}, st1) ({pd}, st)" "vm_inv ({pd}, st)" "tables st pd = {}" "init_ram_pages st = 1024"
      "card (kpages (phys st)) < bit_cnt (used_map (kernel_pool (phys st)))"
    using vm_example by blast
  note V = vm_invD [OF b(6)]
  have d: "dir_ok st pd" and ni: "pd \<noteq> init_page_dir st" using V(2,4) by auto
  have u: "is_user_vaddr 0x8048000" "pg_ofs 0x8048000 = 0" "page_word 0xc0100000" "(0xc0100000 - PHYS_BASE) div PGSIZE < init_ram_pages st"
    and n: "pg_no 0x8048000 = 0x8048" "(0x8048 :: nat) < USER_PAGES"
    by (simp_all add: is_user_vaddr_def pg_ofs_def page_word_def PHYS_BASE_def PGSIZE_eq b(8) pg_no_def USER_PAGES_def)
  have nb: "\<not> bit (pte_at st pd (pg_no 0x8048000)) 0" using b(7) user_index [OF n(2)] by (auto simp: pte_at_def tables_def n(1))
  obtain st2 e where s2: "pagedir_set_page pd 0x8048000 0xc0100000 True st = Some (True, st2)" "pte_create_user 0xc0100000 True = Some e" "pte_at st2 pd 0x8048 = e"
    by (rule pagedir_set_page_ok [OF V(1) d u ni nb, of True]) (use b(9) n in auto)
  have step2: "vm_step ({pd}, st) ({pd}, st2)" by (rule vm_step.set_page [OF _ _ s2(1)]) simp_all
  note V2 = vm_invD [OF vm_step_inv [OF step2 b(6)]]
  have pw: "page_word pd" using dir_facts(3) [OF V2(1) V2(4)] by simp
  then have pd: "pd \<noteq> 0" "vtop pd = Some (pd - PHYS_BASE)" "PHYS_BASE + (pd - PHYS_BASE) = pd" using page_word_phys(2,4) by (simp_all add: page_word_def)
  define st3 where "st3 = st2\<lparr>cr3 := pd - PHYS_BASE, tlb := \<lambda>_. None\<rparr>"
  have step3: "vm_step ({pd}, st2) ({pd}, st3)" by (rule vm_step.activate [of pd]) (use pd in \<open>simp_all add: pagedir_activate_def st3_def\<close>)
  have act: "active st3 = pd" using pd(3) by (simp add: active_def st3_def)
  have "rd st3 = rd st2" by (simp add: st3_def)
  then have "pte_at st3 = pte_at st2" by (simp add: pte_at_def table_at_def pde_at_def fun_eq_iff)
  moreover have "bit e 0" using pte_create_ok [OF u(3), of True] s2(2) by (metis option.inject)
  ultimately have p: "bit (pte_at st3 (active st3) 0x8048) 0" using s2(3) act by simp
  obtain st4 f where step4: "vm_step ({pd}, st3) ({pd}, st4)" "tlb st4 0x8048 = Some f" "active st4 = active st3"
    using vm_step.translate [OF _ n(2) p refl, of "{pd}" False] act by (fastforce simp: active_def)
  have "vm_step\<^sup>*\<^sup>* ({}, st1) ({pd}, st4)" using b(5) step2 step3 step4(1) by (meson rtranclp.rtrancl_into_rtrancl rtranclp.rtrancl_refl)
  then show ?thesis using b step4(2,3) act by metis
qed

lemma kernel_lookup:
  assumes T: "kernel_tables s pd k" and i: "i < k" "k \<le> 262144"
  shows "lookup_page pd (PHYS_BASE + i * PGSIZE) False s = Some (table_at s pd (768 + i div 1024) + 4 * (i mod 1024), s)"
proof -
  have i': "i < 262144" using i by simp
  note V = kernel_page_address [OF i']
  have "1024 * (i div 1024) < k" using i by simp
  then have t: "bit (pde_at s pd (768 + i div 1024)) 0" "table_at s pd (768 + i div 1024) \<in> kpages (phys s)" and ok: "palloc_ok (phys s)" and pd: "pd \<in> kpages (phys s)"
    using T by (simp_all add: kernel_tables_def)
  have pw: "page_word (table_at s pd (768 + i div 1024))" using kpages_facts [OF ok t(2)] by (auto simp: page_word_def PGSIZE_eq)
  have "table_at s pd (768 + i div 1024) - PHYS_BASE = unat (pde_at s pd (768 + i div 1024) AND PTE_ADDR)" by (simp add: table_at_def)
  then have "pde_get_pt (pde_at s pd (768 + i div 1024)) = Some (table_at s pd (768 + i div 1024))" using page_word_phys(3) [OF pw] t(1) by (simp add: pde_get_pt_def)
  moreover have "pde_at s pd (768 + i div 1024) \<noteq> 0" using t(1) by auto
  ultimately show ?thesis using V kpages_facts(4) [OF ok pd] by (simp add: lookup_page_def Let_def pde_at_def)
qed

text \<open>\<open>paging_init\<close> runs to its end when the kernel pool has a page for the directory and one for each 4 MB of memory.
  The directory it leaves active maps every page of physical memory at its kernel address, writable except for the
  kernel's code, and no user address.\<close>

theorem paging_init_maps_memory:
  assumes "palloc_ok (phys st)" "0 < init_ram_pages st" "init_ram_pages st \<le> 262144"
    and "card (kpages (phys st)) + 1 + (init_ram_pages st + 1023) div 1024 \<le> bit_cnt (used_map (kernel_pool (phys st)))"
  shows "\<exists>st'. paging_init text_start text_end st = Some st' \<and> active st' = init_page_dir st' \<and> user_map st' (init_page_dir st') = Map.empty
    \<and> (\<forall>i<init_ram_pages st. let va = PHYS_BASE + i * PGSIZE in
        \<exists>p. lookup_page (init_page_dir st') va False st' = Some (p, st')
          \<and> pte_create_kernel va (\<not> (text_start \<le> va \<and> va < text_end)) = Some (rd st' p) \<and> pte_get_page (rd st' p) = Some va)"
proof -
  obtain st' where run: "paging_init text_start text_end st = Some st'" "active st' = init_page_dir st'" by (rule paging_init_ok [OF assms])
  note S = vm_start [OF assms run(1)]
  have user: "user_map st' (init_page_dir st') = Map.empty"
    using vm_invD(3) [OF S(1)] user_index by (auto simp: user_map_def pte_at_def tables_def fun_eq_iff)
  have "\<exists>p. lookup_page (init_page_dir st') (PHYS_BASE + i * PGSIZE) False st' = Some (p, st')
      \<and> pte_create_kernel (PHYS_BASE + i * PGSIZE) (\<not> (text_start \<le> PHYS_BASE + i * PGSIZE \<and> PHYS_BASE + i * PGSIZE < text_end)) = Some (rd st' p)
      \<and> pte_get_page (rd st' p) = Some (PHYS_BASE + i * PGSIZE)" if i: "i < init_ram_pages st" for i
  proof -
    have "page_word (PHYS_BASE + i * PGSIZE)" using kernel_page_address(4) [of i] i assms(3) by simp
    then obtain e where "pte_create_kernel (PHYS_BASE + i * PGSIZE) (\<not> (text_start \<le> PHYS_BASE + i * PGSIZE \<and> PHYS_BASE + i * PGSIZE < text_end)) = Some e"
        "pte_get_page e = Some (PHYS_BASE + i * PGSIZE)" by (rule pte_create_kernel_ok)
    moreover have "pte_create_kernel (PHYS_BASE + i * PGSIZE) (\<not> (text_start \<le> PHYS_BASE + i * PGSIZE \<and> PHYS_BASE + i * PGSIZE < text_end)) = Some (kernel_entry st' (init_page_dir st') i)"
      using S(3) i by (simp add: kernel_maps_def)
    ultimately show ?thesis using kernel_lookup [OF S(2) i assms(3)] by (simp add: kernel_entry_def)
  qed
  then show ?thesis using run user by (auto simp: Let_def)
qed

theorem paging_init_maps_memory_witness:
  "\<exists>st st' :: mmu. init_ram_pages st = 1024 \<and> paging_init 0xc0020000 0xc0030000 st = Some st' \<and> user_map st' (init_page_dir st') = Map.empty"
proof -
  obtain st :: mmu where st: "palloc_ok (phys st)" "init_ram_pages st = 1024" "card (kpages (phys st)) + 302 \<le> bit_cnt (used_map (kernel_pool (phys st)))"
    using boot_example by blast
  then show ?thesis using paging_init_maps_memory [of st "0xc0020000" "0xc0030000"] by auto
qed

text \<open>\<open>pagedir_set_page\<close> on a page that is not mapped adds exactly this mapping to the directory, or reports that no
  memory is left for a table and changes no mapping; no other directory is affected, and \<open>pagedir_get_page\<close> reads the
  mapping back.\<close>

theorem pagedir_set_page_maps:
  assumes I: "vm_inv (D, st)" and pd: "pd \<in> D" and u: "is_user_vaddr upage" "pg_ofs upage = 0"
    and k: "page_word kpage" "(kpage - PHYS_BASE) div PGSIZE < init_ram_pages st" and free: "user_map st pd (pg_no upage) = None"
  shows "\<exists>ok st'. pagedir_set_page pd upage kpage w st = Some (ok, st') \<and> vm_inv (D, st')
    \<and> (card (kpages (phys st)) < bit_cnt (used_map (kernel_pool (phys st))) \<longrightarrow> ok)
    \<and> user_map st' pd = (if ok then (user_map st pd)(pg_no upage \<mapsto> (kpage, w)) else user_map st pd)
    \<and> (\<forall>p\<in>D - {pd}. user_map st' p = user_map st p)
    \<and> (\<forall>va. is_user_vaddr va \<longrightarrow> pagedir_get_page pd va st' = Some (case user_map st' pd (pg_no va) of None \<Rightarrow> 0 | Some (k, _) \<Rightarrow> k + pg_ofs va))"
proof -
  note V = vm_invD [OF I]
  have d: "dir_ok st pd" and ni: "pd \<noteq> init_page_dir st" using V(2,4) pd by auto
  have n: "pg_no upage < USER_PAGES" using u(1) by (simp add: user_pg_no)
  have nb: "\<not> bit (pte_at st pd (pg_no upage)) 0" using free n by (simp add: user_map_def split: if_splits)
  have k32: "kpage < 2 ^ 32" using k(1) by (simp add: page_word_def)
  have rest: ?thesis if run: "pagedir_set_page pd upage kpage w st = Some (ok, st')" and room: "card (kpages (phys st)) < bit_cnt (used_map (kernel_pool (phys st))) \<longrightarrow> ok"
      and m: "user_map st' pd = (if ok then (user_map st pd)(pg_no upage \<mapsto> (kpage, w)) else user_map st pd)" for ok st'
  proof -
    note S = vm_set_page [OF I pd k32 run]
    have "user_map st' p = user_map st p" if "p \<in> D - {pd}" for p by (rule user_map_cong) (rule S(2) [OF that])
    then show ?thesis using run room m S(1) get_page_user_map [OF S(1) pd] by blast
  qed
  show ?thesis
  proof (cases rule: pagedir_set_page_ok [OF V(1) d u k ni nb, of w])
    case 1
    show ?thesis by (rule rest [OF 1(1)]) (use 1(2) in simp_all)
  next
    case (2 st' e)
    obtain e' where e': "pte_create_user kpage w = Some e'" "bit e' 0" "bit e' 1 = w" "unat (e' AND PTE_ADDR) = kpage - PHYS_BASE" by (rule pte_create_ok [OF k(1)])
    then have "user_map st' pd m = ((user_map st pd)(pg_no upage \<mapsto> (kpage, w))) m" for m
      using 2(3,4) n k(1) by (cases "m < USER_PAGES") (auto simp: user_map_def page_word_def)
    then have "user_map st' pd = (user_map st pd)(pg_no upage \<mapsto> (kpage, w))" by blast
    then show ?thesis by (intro rest [OF 2(1)]) simp_all
  qed
qed

theorem pagedir_set_page_maps_witness:
  "\<exists>st pd st'. pagedir_set_page pd 0x8048000 0xc0100000 True st = Some (True, st') \<and> pagedir_get_page pd 0x8048123 st' = Some 0xc0100123"
proof -
  obtain st :: mmu and pd where st: "vm_inv ({pd}, st)" "tables st pd = {}" "init_ram_pages st = 1024" "card (kpages (phys st)) < bit_cnt (used_map (kernel_pool (phys st)))"
    using vm_example by blast
  have "user_map st pd (pg_no 0x8048000) = None" using st(2) user_index [of "pg_no 0x8048000"] by (auto simp: user_map_def pte_at_def tables_def)
  then have "\<exists>ok st'. pagedir_set_page pd 0x8048000 0xc0100000 True st = Some (ok, st') \<and> vm_inv ({pd}, st')
    \<and> (card (kpages (phys st)) < bit_cnt (used_map (kernel_pool (phys st))) \<longrightarrow> ok)
    \<and> user_map st' pd = (if ok then (user_map st pd)(pg_no 0x8048000 \<mapsto> (0xc0100000, True)) else user_map st pd)
    \<and> (\<forall>p\<in>{pd} - {pd}. user_map st' p = user_map st p)
    \<and> (\<forall>va. is_user_vaddr va \<longrightarrow> pagedir_get_page pd va st' = Some (case user_map st' pd (pg_no va) of None \<Rightarrow> 0 | Some (k, _) \<Rightarrow> k + pg_ofs va))"
    by (intro pagedir_set_page_maps [OF st(1)]) (simp_all add: is_user_vaddr_def pg_ofs_def page_word_def PHYS_BASE_def PGSIZE_eq st(3))
  then obtain st' where s: "pagedir_set_page pd 0x8048000 0xc0100000 True st = Some (True, st')" "user_map st' pd = (user_map st pd)(pg_no 0x8048000 \<mapsto> (0xc0100000, True))"
      "\<And>va. is_user_vaddr va \<Longrightarrow> pagedir_get_page pd va st' = Some (case user_map st' pd (pg_no va) of None \<Rightarrow> 0 | Some (k, _) \<Rightarrow> k + pg_ofs va)" using st(4) by auto
  have "pagedir_get_page pd 0x8048123 st' = Some 0xc0100123"
    using s(3) [of "0x8048123"] s(2) by (simp add: is_user_vaddr_def PHYS_BASE_def pg_no_def pg_ofs_def PGSIZE_eq)
  then show ?thesis using s(1) by blast
qed

text \<open>(C33) However directories are created, changed, activated and destroyed after \<open>paging_init\<close>, the processor never translates
  with a stale entry: what its translation buffer holds for a user page is, up to the accessed and dirty bits, the
  present entry of the active directory.\<close>

theorem tlb_never_stale:
  assumes "palloc_ok (phys st0)" "0 < init_ram_pages st0" "init_ram_pages st0 \<le> 262144"
    "card (kpages (phys st0)) + 1 + (init_ram_pages st0 + 1023) div 1024 \<le> bit_cnt (used_map (kernel_pool (phys st0)))"
    and boot: "paging_init a b st0 = Some st1" and steps: "vm_step\<^sup>*\<^sup>* ({}, st1) (D, st)"
    and hit: "n < USER_PAGES" "tlb st n = Some e"
  shows "active st \<in> D \<and> (\<exists>k w. user_map st (active st) n = Some (k, w) \<and> k = PHYS_BASE + unat (e AND PTE_ADDR) \<and> w = bit e 1
    \<and> bit e 2 = bit (pte_at st (active st) n) 2)"
proof -
  have I: "vm_inv (D, st)" by (rule vm_steps_inv [OF steps vm_start(1) [OF assms(1-4) boot]])
  note V = vm_invD [OF I]
  have o: "bit (pte_at st (active st) n) 0" "agree e (pte_at st (active st) n)" using V(7) hit by (simp_all add: tlb_ok_def)
  have "pte_at st (init_page_dir st) n = 0" using V(3) user_index [OF hit(1)] by (auto simp: pte_at_def tables_def)
  then have "active st \<in> D" using V(6) o(1) by auto
  moreover have "e AND PTE_ADDR = pte_at st (active st) n AND PTE_ADDR" by (rule address_bits) (use o(2) in \<open>simp add: agree_def\<close>)
  ultimately show ?thesis using o hit(1) by (simp add: user_map_def agree_def)
qed

theorem tlb_never_stale_witness:
  "\<exists>st pd e. tlb st 0x8048 = Some e \<and> active st = pd \<and> user_map st pd 0x8048 = Some (PHYS_BASE + unat (e AND PTE_ADDR), bit e 1)"
proof -
  obtain st0 st1 st :: mmu and pd e where b: "palloc_ok (phys st0)" "init_ram_pages st0 = 1024"
      "card (kpages (phys st0)) + 1 + (init_ram_pages st0 + 1023) div 1024 \<le> bit_cnt (used_map (kernel_pool (phys st0)))"
      "paging_init 0 0 st0 = Some st1" "vm_step\<^sup>*\<^sup>* ({}, st1) ({pd}, st)" "active st = pd" "tlb st 0x8048 = Some e"
    using mapped_example by blast
  have "(0x8048 :: nat) < USER_PAGES" by (simp add: USER_PAGES_def)
  then show ?thesis using tlb_never_stale [OF b(1) _ _ b(3,4,5) _ b(7)] b(2,6,7) by auto
qed

text \<open>\<open>pagedir_destroy\<close> gives back exactly the pages of the directory, its own and those of its tables, and leaves the
  mappings of all other directories as they are.\<close>

theorem pagedir_destroy_exact:
  assumes I: "vm_inv (D, st)" and pd: "pd \<in> D" "active st \<noteq> pd"
  shows "\<exists>st'. pagedir_destroy pd st = Some st' \<and> vm_inv (D - {pd}, st') \<and> kpages (phys st') = kpages (phys st) - owned st pd \<and> owned st pd \<subseteq> kpages (phys st)
    \<and> (\<forall>p\<in>D - {pd}. user_map st' p = user_map st p)"
proof -
  obtain st' where s: "pagedir_destroy pd st = Some st'" "vm_inv (D - {pd}, st')" "kpages (phys st') = kpages (phys st) - owned st pd"
    "\<And>p n. p \<in> D - {pd} \<Longrightarrow> n < USER_PAGES \<Longrightarrow> pte_at st' p n = pte_at st p n" using vm_destroy [OF assms] by metis
  have "user_map st' p = user_map st p" if "p \<in> D - {pd}" for p by (rule user_map_cong) (rule s(4) [OF that])
  then show ?thesis using s owned_kpages [OF vm_invD(4) [OF I]] pd(1) by blast
qed

theorem pagedir_destroy_exact_witness:
  "\<exists>st pd st'. pagedir_destroy pd st = Some st' \<and> kpages (phys st') = kpages (phys st) - {pd} \<and> pd \<in> kpages (phys st)"
proof -
  obtain st0 st1 st :: mmu and pd where b: "palloc_ok (phys st0)" "init_ram_pages st0 = 1024"
      "card (kpages (phys st0)) + 1 + (init_ram_pages st0 + 1023) div 1024 \<le> bit_cnt (used_map (kernel_pool (phys st0)))"
      "paging_init 0 0 st0 = Some st1" "vm_inv ({pd}, st)" "tables st pd = {}" "vm_step ({}, st1) ({pd}, st)"
    using vm_example by blast
  obtain st2 where act: "pagedir_activate 0 st = Some st2"
    using dir_facts(3) [OF vm_invD(1) [OF b(5)] vm_invD(4) [OF b(5)], of "init_page_dir st"] page_word_phys(2) by (simp add: pagedir_activate_def Let_def)
  have I: "vm_inv ({pd}, st2)" using vm_activate [OF b(5) _ act] by simp
  have s2: "st2 = st\<lparr>cr3 := init_page_dir st - PHYS_BASE, tlb := \<lambda>_. None\<rparr>"
    using act dir_facts(3) [OF vm_invD(1) [OF b(5)] vm_invD(4) [OF b(5)], of "init_page_dir st"] page_word_phys(2) by (simp add: pagedir_activate_def Let_def)
  have "page_word (init_page_dir st)" using dir_facts(3) [OF vm_invD(1) [OF b(5)] vm_invD(4) [OF b(5)], of "init_page_dir st"] by simp
  then have "active st2 = init_page_dir st" unfolding s2 by (simp add: active_def page_word_def)
  then have ne: "active st2 \<noteq> pd" using vm_invD(2) [OF b(5)] by auto
  have "pde_at st2 = pde_at st" by (simp add: s2)
  then have "tables st2 pd = {}" using b(6) by (simp add: tables_def)
  then have "owned st2 pd = {pd}" by (simp add: owned_def)
  then show ?thesis using pagedir_destroy_exact [OF I _ ne] by auto
qed

end
