(* ===== verification/Malloc.thy ===== *)
theory Malloc
  imports Palloc Klist
begin

text \<open>
  \<open>threads/malloc.c\<close>: blocks of up to 1024 bytes are cut from pages called arenas, larger ones are whole pages.

  The header of an arena is three words in the memory of the page allocator; a pointer to the \<open>i\<close>th descriptor is
  stored as \<open>i + 1\<close>. The links of free blocks are in the store of \<open>Klist\<close>: they occupy bytes of blocks that are not
  allocated, which nothing else reads. The lock of a descriptor is held from the look at its free list to the end of
  each operation, so an operation is one step. \<open>places\<close> in \<open>malloc_init\<close> are the places of the list headers, which are
  parts of the static array \<open>descs\<close>.
\<close>

section \<open>The functions of the source\<close>

record desc =
  block_size :: nat
  blocks_per_arena :: nat
  free_list :: klist

record heap =
  pages :: pallocs
  links :: store
  descs :: "desc list"

definition ARENA_MAGIC :: "32 word" where
  "ARENA_MAGIC = 0x9a548eed"

text \<open>\<open>struct arena\<close>\<close>

definition ARENA_SIZE :: nat where
  "ARENA_SIZE = 12"

definition arena_magic :: "heap \<Rightarrow> nat \<Rightarrow> 32 word" where
  "arena_magic st a = ld32 (ram (pages st)) a"

definition arena_desc :: "heap \<Rightarrow> nat \<Rightarrow> nat option" where
  "arena_desc st a = (case unat (ld32 (ram (pages st)) (a + 4)) of 0 \<Rightarrow> None | Suc i \<Rightarrow> Some i)"

definition arena_free_cnt :: "heap \<Rightarrow> nat \<Rightarrow> 32 word" where
  "arena_free_cnt st a = ld32 (ram (pages st)) (a + 8)"

definition set_word :: "nat \<Rightarrow> 32 word \<Rightarrow> heap \<Rightarrow> heap" where
  "set_word a w st = st\<lparr>pages := pages st\<lparr>ram := st32 a w (ram (pages st))\<rparr>\<rparr>"

definition init_arena :: "nat \<Rightarrow> nat option \<Rightarrow> nat \<Rightarrow> heap \<Rightarrow> heap" where
  "init_arena a d cnt st =
     set_word (a + 8) (of_nat cnt) (set_word (a + 4) (case d of None \<Rightarrow> 0 | Some i \<Rightarrow> of_nat (Suc i)) (set_word a ARENA_MAGIC st))"

definition set_free_cnt :: "nat \<Rightarrow> 32 word \<Rightarrow> heap \<Rightarrow> heap" where
  "set_free_cnt a w = set_word (a + 8) w"

text \<open>The loop of \<open>malloc_init\<close>; \<open>ds\<close> are the descriptors made so far.\<close>

function malloc_init_loop :: "(nat \<Rightarrow> klist) \<Rightarrow> nat \<Rightarrow> heap \<Rightarrow> heap option" where
  "malloc_init_loop places bs st =
     (if bs < PGSIZE div 2 \<and> 0 < bs
      then do {
        kassert (length (descs st) + 1 \<le> 10);
        let L = places (length (descs st));
        let d = \<lparr>block_size = bs, blocks_per_arena = (PGSIZE - ARENA_SIZE) div bs, free_list = L\<rparr>;
        malloc_init_loop places (bs * 2) (st\<lparr>descs := descs st @ [d], links := list_init L (links st)\<rparr>)
      }
      else Some st)"
  by pat_completeness auto
termination
  by (relation "measure (\<lambda>(w, bs, st). PGSIZE - bs)") auto

declare malloc_init_loop.simps [simp del]

definition malloc_init :: "(nat \<Rightarrow> klist) \<Rightarrow> heap \<Rightarrow> heap option" where
  "malloc_init places st = malloc_init_loop places 16 (st\<lparr>descs := []\<rparr>)"

definition block_to_arena :: "nat \<Rightarrow> heap \<Rightarrow> nat option" where
  "block_to_arena b st =
     do {
       let a = pg_round_down b;
       kassert (a \<noteq> 0);
       kassert (arena_magic st a = ARENA_MAGIC);
       kassert (case arena_desc st a of None \<Rightarrow> True | Some i \<Rightarrow> u32 (pg_ofs b + 2 ^ 32 - ARENA_SIZE) mod block_size (descs st ! i) = 0);
       kassert (arena_desc st a \<noteq> None \<or> pg_ofs b = ARENA_SIZE);
       Some a
     }"

definition arena_to_block :: "nat \<Rightarrow> nat \<Rightarrow> heap \<Rightarrow> nat option" where
  "arena_to_block a idx st =
     do {
       kassert (a \<noteq> 0);
       kassert (arena_magic st a = ARENA_MAGIC);
       i \<leftarrow> arena_desc st a;
       kassert (idx < blocks_per_arena (descs st ! i));
       Some (a + ARENA_SIZE + idx * block_size (descs st ! i))
     }"

text \<open>The search for the smallest sufficient descriptor; the length of the list when there is none.\<close>

fun find_desc :: "desc list \<Rightarrow> nat \<Rightarrow> nat" where
  "find_desc [] sz = 0"
| "find_desc (d # ds) sz = (if sz \<le> block_size d then 0 else Suc (find_desc ds sz))"

definition add_block :: "nat \<Rightarrow> klist \<Rightarrow> nat \<Rightarrow> heap \<Rightarrow> heap option" where
  "add_block a L i st = do { b \<leftarrow> arena_to_block a i st; h \<leftarrow> list_push_back L b (links st); Some (st\<lparr>links := h\<rparr>) }"

definition malloc :: "nat \<Rightarrow> heap \<Rightarrow> (nat \<times> heap) option" where
  "malloc sz st =
     (if sz = 0 then Some (0, st)
      else let d = find_desc (descs st) sz in
        if d = length (descs st)
        then do {
          let page_cnt = DIV_ROUND_UP (u32 (sz + ARENA_SIZE)) PGSIZE;
          (a, p) \<leftarrow> palloc_get_multiple {} page_cnt (pages st);
          let st = st\<lparr>pages := p\<rparr>;
          if a = 0 then Some (0, st) else Some (a + ARENA_SIZE, init_arena a None page_cnt st)
        }
        else do {
          let L = free_list (descs st ! d);
          (ok, st) \<leftarrow>
            (if list_empty (links st) L
             then do {
               (a, p) \<leftarrow> palloc_get_page {} (pages st);
               let st = st\<lparr>pages := p\<rparr>;
               if a = 0 then Some (False, st)
               else do {
                 st \<leftarrow> mfold (add_block a L) [0..<blocks_per_arena (descs st ! d)] (init_arena a (Some d) (blocks_per_arena (descs st ! d)) st);
                 Some (True, st)
               }
             }
             else Some (True, st));
          if ok
          then do {
            (b, h) \<leftarrow> list_pop_front L (links st);
            let st = st\<lparr>links := h\<rparr>;
            a \<leftarrow> block_to_arena b st;
            Some (b, set_free_cnt a (arena_free_cnt st a - 1) st)
          }
          else Some (0, st)
        })"

definition fill_heap :: "nat \<Rightarrow> byte \<Rightarrow> nat \<Rightarrow> heap \<Rightarrow> heap" where
  "fill_heap p c n st = st\<lparr>pages := fill_ram p c n (pages st)\<rparr>"

definition calloc :: "nat \<Rightarrow> nat \<Rightarrow> heap \<Rightarrow> (nat \<times> heap) option" where
  "calloc a b st =
     (let sz = u32 (a * b) in
      if sz < a \<or> sz < b then Some (0, st)
      else do {
        (p, st) \<leftarrow> malloc sz st;
        Some (p, if p \<noteq> 0 then fill_heap p 0 sz st else st)
      })"

definition usable_size :: "nat \<Rightarrow> heap \<Rightarrow> nat option" where
  "usable_size b st =
     do {
       a \<leftarrow> block_to_arena b st;
       Some (case arena_desc st a of Some i \<Rightarrow> block_size (descs st ! i)
         | None \<Rightarrow> u32 (PGSIZE * unat (arena_free_cnt st a) + 2 ^ 32 - pg_ofs b))
     }"

definition drop_block :: "nat \<Rightarrow> nat \<Rightarrow> heap \<Rightarrow> heap option" where
  "drop_block a i st = do { b \<leftarrow> arena_to_block a i st; (_, h) \<leftarrow> list_remove b (links st); Some (st\<lparr>links := h\<rparr>) }"

definition free :: "nat \<Rightarrow> heap \<Rightarrow> heap option" where
  "free p st =
     (if p = 0 then Some st
      else do {
        a \<leftarrow> block_to_arena p st;
        case arena_desc st a of
          Some i \<Rightarrow> do {
            let d = descs st ! i;
            let st = fill_heap p 0xcc (block_size d) st;
            h \<leftarrow> list_push_front (free_list d) p (links st);
            let st = st\<lparr>links := h\<rparr>;
            let st = set_free_cnt a (arena_free_cnt st a + 1) st;
            if blocks_per_arena d \<le> unat (arena_free_cnt st a)
            then do {
              kassert (unat (arena_free_cnt st a) = blocks_per_arena d);
              st \<leftarrow> mfold (drop_block a) [0..<blocks_per_arena d] st;
              p \<leftarrow> palloc_free_page a (pages st);
              Some (st\<lparr>pages := p\<rparr>)
            }
            else Some st
          }
        | None \<Rightarrow> do { p \<leftarrow> palloc_free_multiple a (unat (arena_free_cnt st a)) (pages st); Some (st\<lparr>pages := p\<rparr>) }
      })"

definition realloc :: "nat \<Rightarrow> nat \<Rightarrow> heap \<Rightarrow> (nat \<times> heap) option" where
  "realloc old_block new_size st =
     (if new_size = 0 then do { st \<leftarrow> free old_block st; Some (0, st) }
      else do {
        (new_block, st) \<leftarrow> malloc new_size st;
        if old_block \<noteq> 0 \<and> new_block \<noteq> 0
        then do {
          old_size \<leftarrow> usable_size old_block st;
          let min_size = (if new_size < old_size then new_size else old_size);
          (_, m) \<leftarrow> memcpy new_block old_block min_size (ram (pages st));
          st \<leftarrow> free old_block (st\<lparr>pages := pages st\<lparr>ram := m\<rparr>\<rparr>);
          Some (new_block, st)
        }
        else Some (new_block, st)
      })"

section \<open>Blocks\<close>

definition bsz :: "nat \<Rightarrow> nat" where
  "bsz i = 16 * 2 ^ i"

definition bpa :: "nat \<Rightarrow> nat" where
  "bpa i = (PGSIZE - ARENA_SIZE) div bsz i"

definition block_at :: "nat \<Rightarrow> nat \<Rightarrow> nat \<Rightarrow> nat" where
  "block_at i a k = a + ARENA_SIZE + k * bsz i"

definition blocks :: "nat \<Rightarrow> nat \<Rightarrow> nat set" where
  "blocks i a = block_at i a ` {..<bpa i}"

lemma bsz_ge: "16 \<le> bsz i"
  by (simp add: bsz_def)

lemma bpa_fits: "bpa i * bsz i + ARENA_SIZE \<le> PGSIZE"
proof -
  have "bpa i * bsz i \<le> PGSIZE - ARENA_SIZE" by (simp add: bpa_def)
  then show ?thesis by (simp add: ARENA_SIZE_def PGSIZE_eq)
qed

lemma bpa_pos: "i < 7 \<Longrightarrow> 0 < bpa i"
proof -
  assume "i < 7"
  then have "bsz i \<le> 16 * 2 ^ 6" unfolding bsz_def by (intro mult_left_mono power_increasing) simp_all
  then show "0 < bpa i" using bsz_ge [of i] by (simp add: bpa_def PGSIZE_eq ARENA_SIZE_def div_greater_zero_iff)
qed

lemma bpa_small: "bpa i \<le> 255"
proof -
  have "bpa i * 16 \<le> bpa i * bsz i" using bsz_ge by simp
  then have "bpa i * 16 + 12 \<le> 4096" using bpa_fits [of i] by (simp only: PGSIZE_eq ARENA_SIZE_def)
  then show ?thesis by linarith
qed

lemma block_room:
  assumes "k < bpa i"
  shows "ARENA_SIZE + k * bsz i + bsz i \<le> PGSIZE"
proof -
  have "(k + 1) * bsz i \<le> bpa i * bsz i" using assms by (intro mult_right_mono) simp_all
  then show ?thesis using bpa_fits [of i] by (simp add: algebra_simps)
qed

lemma in_page:
  assumes "PGSIZE dvd a" "x < PGSIZE"
  shows "pg_round_down (a + x) = a" "pg_ofs (a + x) = x"
  using assms by (auto simp: pg_round_down_def pg_ofs_def elim!: dvdE)

lemma block_facts:
  assumes a: "PGSIZE dvd a" and k: "k < bpa i"
  shows "pg_round_down (block_at i a k) = a" "pg_ofs (block_at i a k) = ARENA_SIZE + k * bsz i" "span (block_at i a k) (bsz i) \<subseteq> {a + ARENA_SIZE..<a + PGSIZE}"
    "block_at i a k \<in> span a PGSIZE" "block_at i a k \<noteq> 0"
proof -
  have r: "ARENA_SIZE + k * bsz i < PGSIZE" using block_room [OF k] bsz_ge [of i] by linarith
  have e: "block_at i a k = a + (ARENA_SIZE + k * bsz i)" by (simp add: block_at_def)
  show "pg_round_down (block_at i a k) = a" "pg_ofs (block_at i a k) = ARENA_SIZE + k * bsz i" unfolding e by (rule in_page [OF a r])+
  show "block_at i a k \<in> span a PGSIZE" using r by (simp add: e span_def)
  show "block_at i a k \<noteq> 0" by (simp add: block_at_def ARENA_SIZE_def)
  show "span (block_at i a k) (bsz i) \<subseteq> {a + ARENA_SIZE..<a + PGSIZE}" using block_room [OF k] by (auto simp: span_def block_at_def)
qed

lemma block_inj: "block_at i a k = block_at i a k' \<longleftrightarrow> k = k'"
  using bsz_ge [of i] by (auto simp: block_at_def)

lemma card_blocks: "card (blocks i a) = bpa i" "finite (blocks i a)"
  by (simp_all add: blocks_def card_image inj_on_def block_inj)

lemma blocks_apart:
  assumes "k \<noteq> k'"
  shows "span (block_at i a k) (bsz i) \<inter> span (block_at i a k') (bsz i) = {}"
proof -
  have "x < y \<Longrightarrow> x * bsz i + bsz i \<le> y * bsz i" for x y :: nat
    using mult_right_mono [of "Suc x" y "bsz i"] by (simp add: algebra_simps)
  then show ?thesis using assms unfolding span_def block_at_def by (cases "k < k'") (fastforce simp: nat_neq_iff)+
qed

lemma blocks_page: "PGSIZE dvd a \<Longrightarrow> b \<in> blocks i a \<Longrightarrow> pg_round_down b = a"
  by (auto simp: blocks_def block_facts(1))

section \<open>The invariant of the heap\<close>

text \<open>What the heap uses a page for: an arena of descriptor \<open>i\<close>, or a part of the \<open>n\<close> pages from \<open>a\<close> on.\<close>

datatype page_use = Arena nat | Big nat nat

record ghost =
  use :: "nat \<Rightarrow> page_use option"
  frees :: "nat \<Rightarrow> nat list"

definition desc_list :: "heap \<Rightarrow> nat \<Rightarrow> klist" where
  "desc_list st i = free_list (descs st ! i)"

text \<open>The descriptors as \<open>malloc_init\<close> leaves them; they never change.\<close>

definition descs_ok :: "heap \<Rightarrow> bool" where
  "descs_ok st \<longleftrightarrow> length (descs st) = 7 \<and> (\<forall>i<7. block_size (descs st ! i) = bsz i \<and> blocks_per_arena (descs st ! i) = bpa i)
     \<and> (\<forall>i<7. {l_head (desc_list st i), l_tail (desc_list st i)} \<inter> kernel_range (pages st) = {})
     \<and> (\<forall>i<7. \<forall>j<7. i \<noteq> j \<longrightarrow> {l_head (desc_list st i), l_tail (desc_list st i)} \<inter> {l_head (desc_list st j), l_tail (desc_list st j)} = {})"

definition arena_ok :: "nat set \<Rightarrow> heap \<Rightarrow> ghost \<Rightarrow> nat \<Rightarrow> nat \<Rightarrow> bool" where
  "arena_ok X st g a i \<longleftrightarrow> i < 7 \<and> arena_magic st a = ARENA_MAGIC \<and> arena_desc st a = Some i
     \<and> unat (arena_free_cnt st a) = card (blocks i a \<inter> set (frees g i)) \<and> (a \<notin> X \<longrightarrow> card (blocks i a \<inter> set (frees g i)) < bpa i)"

definition big_ok :: "heap \<Rightarrow> ghost \<Rightarrow> nat \<Rightarrow> nat \<Rightarrow> bool" where
  "big_ok st g a n \<longleftrightarrow> 0 < n \<and> n < 2 ^ 20 \<and> (\<forall>p. use g p = Some (Big a n) \<longleftrightarrow> p \<in> page_run a n)
     \<and> arena_magic st a = ARENA_MAGIC \<and> arena_desc st a = None \<and> unat (arena_free_cnt st a) = n"

text \<open>The arenas in \<open>X\<close> may have no block in use, which happens only during an operation.\<close>

definition heap_inv :: "nat set \<Rightarrow> heap \<Rightarrow> ghost \<Rightarrow> bool" where
  "heap_inv X st g \<longleftrightarrow> palloc_ok (pages st) \<and> dom (use g) \<subseteq> kpages (pages st) \<and> descs_ok st
     \<and> (\<forall>i<7. dll (links st) (desc_list st i) (frees g i))
     \<and> (\<forall>i<7. \<forall>b\<in>set (frees g i). use g (pg_round_down b) = Some (Arena i) \<and> b \<in> blocks i (pg_round_down b))
     \<and> (\<forall>a i. use g a = Some (Arena i) \<longrightarrow> arena_ok X st g a i)
     \<and> (\<forall>p a n. use g p = Some (Big a n) \<longrightarrow> big_ok st g a n)"

text \<open>The blocks in use, with their sizes.\<close>

definition live :: "ghost \<Rightarrow> nat \<Rightarrow> nat option" where
  "live g b = (case use g (pg_round_down b) of
      None \<Rightarrow> None
    | Some (Arena i) \<Rightarrow> if b \<in> blocks i (pg_round_down b) - set (frees g i) then Some (bsz i) else None
    | Some (Big a n) \<Rightarrow> if b = a + ARENA_SIZE then Some (PGSIZE * n - ARENA_SIZE) else None)"

lemma heap_invD:
  assumes "heap_inv X st g"
  shows "palloc_ok (pages st)" "dom (use g) \<subseteq> kpages (pages st)" "descs_ok st" "\<And>i. i < 7 \<Longrightarrow> dll (links st) (desc_list st i) (frees g i)"
    "\<And>i b. i < 7 \<Longrightarrow> b \<in> set (frees g i) \<Longrightarrow> use g (pg_round_down b) = Some (Arena i) \<and> b \<in> blocks i (pg_round_down b)"
    "\<And>a i. use g a = Some (Arena i) \<Longrightarrow> arena_ok X st g a i" "\<And>p a n. use g p = Some (Big a n) \<Longrightarrow> big_ok st g a n"
  using assms by (simp_all add: heap_inv_def)

lemma use_page:
  assumes "heap_inv X st g" "use g p \<noteq> None"
  shows "p \<in> kpages (pages st)" "PGSIZE dvd p" "p \<noteq> 0" "PHYS_BASE \<le> p" "p + PGSIZE \<le> 2 ^ 32" "span p PGSIZE \<subseteq> kernel_range (pages st)"
proof -
  show p: "p \<in> kpages (pages st)" using heap_invD(2) [OF assms(1)] assms(2) by blast
  show "PGSIZE dvd p" "p \<noteq> 0" "PHYS_BASE \<le> p" "p + PGSIZE \<le> 2 ^ 32" using kpages_facts [OF heap_invD(1) [OF assms(1)] p] by simp_all
  show "span p PGSIZE \<subseteq> kernel_range (pages st)" by (rule kpages_in_range [OF p])
qed

lemma big_start: "big_ok st g a n \<Longrightarrow> use g a = Some (Big a n)"
  unfolding big_ok_def page_run_def by (metis add.right_neutral imageI lessThan_iff mult_zero_right)

text \<open>A block in use lies behind the header of its arena, and within the pages of the heap.\<close>

lemma live_cases:
  assumes I: "heap_inv X st g" and l: "live g b = Some c"
  obtains (small) a i k where "use g a = Some (Arena i)" "k < bpa i" "b = block_at i a k" "b \<notin> set (frees g i)" "c = bsz i" "pg_round_down b = a" "arena_ok X st g a i" "PGSIZE dvd a"
  | (big) a n where "use g a = Some (Big a n)" "b = a + ARENA_SIZE" "c = PGSIZE * n - ARENA_SIZE" "pg_round_down b = a" "big_ok st g a n" "PGSIZE dvd a"
proof (cases "use g (pg_round_down b)")
  case None
  then show thesis using l by (simp add: live_def)
next
  case (Some u)
  then have d: "PGSIZE dvd pg_round_down b" using use_page(2) [OF I] by simp
  show thesis
  proof (cases u)
    case (Arena i)
    then have "b \<in> blocks i (pg_round_down b)" "b \<notin> set (frees g i)" "c = bsz i" using l Some by (auto simp: live_def split: if_splits)
    then show thesis using small Some Arena heap_invD(6) [OF I] d by (auto simp: blocks_def)
  next
    case (Big a n)
    then have b: "b = a + ARENA_SIZE" "c = PGSIZE * n - ARENA_SIZE" using l Some by (auto simp: live_def split: if_splits)
    have ok: "big_ok st g a n" using heap_invD(7) [OF I] Some Big by blast
    then have a: "use g a = Some (Big a n)" by (rule big_start)
    then have al: "PGSIZE dvd a" using use_page(2) [OF I] by simp
    then have "pg_round_down b = a" using in_page(1) [of a ARENA_SIZE] b by (simp add: ARENA_SIZE_def PGSIZE_eq)
    then show thesis using big [OF a b(1,2) _ ok al] by simp
  qed
qed

lemma live_cong:
  assumes "use g' (pg_round_down b) = use g (pg_round_down b)"
    and "\<And>j. use g (pg_round_down b) = Some (Arena j) \<Longrightarrow> b \<in> set (frees g' j) \<longleftrightarrow> b \<in> set (frees g j)"
  shows "live g' b = live g b"
proof (cases "use g (pg_round_down b)")
  case (Some u)
  then show ?thesis using assms by (cases u) (simp_all add: live_def)
qed (use assms in \<open>simp add: live_def\<close>)

section \<open>Headers and lists\<close>

lemma header_links [simp]:
  "arena_magic (st\<lparr>links := h\<rparr>) = arena_magic st" "arena_desc (st\<lparr>links := h\<rparr>) = arena_desc st" "arena_free_cnt (st\<lparr>links := h\<rparr>) = arena_free_cnt st"
  by (simp_all add: arena_magic_def arena_desc_def arena_free_cnt_def fun_eq_iff)

lemma block_to_arena_links [simp]: "block_to_arena b (st\<lparr>links := h\<rparr>) = block_to_arena b st"
  by (simp add: block_to_arena_def cong: option.case_cong)

lemma header_cong:
  assumes "\<And>x. a \<le> x \<Longrightarrow> x < a + ARENA_SIZE \<Longrightarrow> ram (pages st') x = ram (pages st) x"
  shows "arena_magic st' a = arena_magic st a" "arena_desc st' a = arena_desc st a" "arena_free_cnt st' a = arena_free_cnt st a"
proof -
  have "ld32 (ram (pages st')) (a + o') = ld32 (ram (pages st)) (a + o')" if "o' \<le> 8" for o'
    by (rule ld32_cong) (use that assms in \<open>simp add: ARENA_SIZE_def\<close>)
  from this [of 0] this [of 4] this [of 8] show "arena_magic st' a = arena_magic st a" "arena_desc st' a = arena_desc st a" "arena_free_cnt st' a = arena_free_cnt st a"
    by (simp_all add: arena_magic_def arena_desc_def arena_free_cnt_def)
qed

lemma set_word_simps [simp]:
  "links (set_word a w st) = links st" "descs (set_word a w st) = descs st" "kpages (pages (set_word a w st)) = kpages (pages st)"
  "palloc_ok (pages (set_word a w st)) = palloc_ok (pages st)" "kernel_range (pages (set_word a w st)) = kernel_range (pages st)"
  "ram (pages (set_word a w st)) = st32 a w (ram (pages st))"
  by (simp_all add: set_word_def kpages_def palloc_ok_def kernel_range_def)

lemma set_free_cnt_facts:
  "arena_magic (set_free_cnt a w st) a = arena_magic st a" "arena_desc (set_free_cnt a w st) a = arena_desc st a" "arena_free_cnt (set_free_cnt a w st) a = w"
  "links (set_free_cnt a w st) = links st" "descs (set_free_cnt a w st) = descs st" "kpages (pages (set_free_cnt a w st)) = kpages (pages st)"
  "palloc_ok (pages (set_free_cnt a w st)) = palloc_ok (pages st)" "kernel_range (pages (set_free_cnt a w st)) = kernel_range (pages st)"
  "x < a \<or> a + ARENA_SIZE \<le> x \<Longrightarrow> ram (pages (set_free_cnt a w st)) x = ram (pages st) x"
  by (auto simp: set_free_cnt_def arena_magic_def arena_desc_def arena_free_cnt_def ld32_st32_other ARENA_SIZE_def intro!: st32_other)

lemmas set_free_cnt_simps [simp] = set_free_cnt_facts(1-8)

lemma init_arena_facts:
  assumes "cnt < 2 ^ 32" "\<And>i. d = Some i \<Longrightarrow> i < 7"
  shows "arena_magic (init_arena a d cnt st) a = ARENA_MAGIC" "arena_desc (init_arena a d cnt st) a = d" "unat (arena_free_cnt (init_arena a d cnt st) a) = cnt"
    "links (init_arena a d cnt st) = links st" "descs (init_arena a d cnt st) = descs st" "kpages (pages (init_arena a d cnt st)) = kpages (pages st)"
    "palloc_ok (pages (init_arena a d cnt st)) = palloc_ok (pages st)" "kernel_range (pages (init_arena a d cnt st)) = kernel_range (pages st)"
    "x < a \<or> a + ARENA_SIZE \<le> x \<Longrightarrow> ram (pages (init_arena a d cnt st)) x = ram (pages st) x"
proof -
  have w: "unat (of_nat (Suc i) :: 32 word) = Suc i" if "i < 7" for i using that by (simp add: unsigned_of_nat take_bit_nat_eq_self del: of_nat_Suc)
  have c: "unat (of_nat cnt :: 32 word) = cnt" using assms(1) by (simp add: unsigned_of_nat take_bit_nat_eq_self)
  show "arena_desc (init_arena a d cnt st) a = d"
    using w assms(2) by (cases d) (simp_all add: init_arena_def arena_desc_def ld32_st32_other del: of_nat_Suc)
  show "arena_magic (init_arena a d cnt st) a = ARENA_MAGIC" "unat (arena_free_cnt (init_arena a d cnt st) a) = cnt"
    using c by (simp_all add: init_arena_def arena_magic_def arena_free_cnt_def ld32_st32_other)
  show "x < a \<or> a + ARENA_SIZE \<le> x \<Longrightarrow> ram (pages (init_arena a d cnt st)) x = ram (pages st) x"
    by (auto simp: init_arena_def ARENA_SIZE_def st32_other)
qed (simp_all add: init_arena_def)

lemma header_apart:
  assumes "PGSIZE dvd a" "PGSIZE dvd a'" "a \<noteq> a'" "a \<le> x" "x < a + ARENA_SIZE"
  shows "x < a' \<or> a' + PGSIZE \<le> x"
  using aligned_pages_apart [OF assms(1-3)] assms(4,5) by (auto simp: span_def ARENA_SIZE_def PGSIZE_eq)

lemma block_in_use:
  assumes I: "heap_inv X st g" and i: "i < 7" and b: "b \<in> set (frees g i)"
  shows "b \<in> kernel_range (pages st)" "b \<noteq> 0" "PGSIZE dvd pg_round_down b" "use g (pg_round_down b) = Some (Arena i)" "b \<in> blocks i (pg_round_down b)"
proof -
  have u: "use g (pg_round_down b) = Some (Arena i)" "b \<in> blocks i (pg_round_down b)" using heap_invD(5) [OF I i b] by simp_all
  then have p: "PGSIZE dvd pg_round_down b" "span (pg_round_down b) PGSIZE \<subseteq> kernel_range (pages st)" using use_page(2,6) [OF I, of "pg_round_down b"] by simp_all
  obtain k where k: "b = block_at i (pg_round_down b) k" "k < bpa i" using u(2) by (auto simp: blocks_def)
  show "b \<in> kernel_range (pages st)" "b \<noteq> 0" using p(2) block_facts(4,5) [OF p(1) k(2)] k(1) by auto
  show "PGSIZE dvd pg_round_down b" "use g (pg_round_down b) = Some (Arena i)" "b \<in> blocks i (pg_round_down b)" using p u by simp_all
qed

lemma nodes_apart:
  assumes I: "heap_inv X st g" and ij: "i < 7" "j < 7" "i \<noteq> j"
  shows "nodes (desc_list st i) (frees g i) \<inter> nodes (desc_list st j) (frees g j) = {}"
proof -
  have h: "{l_head (desc_list st k), l_tail (desc_list st k)} \<inter> kernel_range (pages st) = {}" if "k < 7" for k
    using heap_invD(3) [OF I] that by (simp add: descs_ok_def)
  have hh: "{l_head (desc_list st i), l_tail (desc_list st i)} \<inter> {l_head (desc_list st j), l_tail (desc_list st j)} = {}"
    using heap_invD(3) [OF I] ij by (simp add: descs_ok_def)
  have "set (frees g i) \<inter> set (frees g j) = {}"
    using block_in_use(4) [OF I ij(1)] block_in_use(4) [OF I ij(2)] ij(3) by fastforce
  moreover have "set (frees g k) \<subseteq> kernel_range (pages st)" if "k < 7" for k using block_in_use(1) [OF I that] by blast
  ultimately show ?thesis using h [OF ij(1)] h [OF ij(2)] hh ij(1,2) by blast
qed

lemma keep_lists:
  assumes I: "heap_inv X st g" and i: "i < 7" and d: "dll h (desc_list st i) ys" and same: "same_outside A (links st) h"
    and A: "A \<inter> (\<Union>j\<in>{..<7} - {i}. nodes (desc_list st j) (frees g j)) = {}" and j: "j < 7"
  shows "dll h (desc_list st j) (((frees g)(i := ys)) j)"
proof (cases "j = i")
  case False
  then have "A \<inter> nodes (desc_list st j) (frees g j) = {}" using A j by blast
  then show ?thesis using heap_invD(4) [OF I j] same_outside_ring [OF same] False by (simp add: dll_def)
qed (use d in simp)

lemma own_nodes_apart:
  assumes "heap_inv X st g" "i < 7"
  shows "nodes (desc_list st i) (frees g i) \<inter> (\<Union>j\<in>{..<7} - {i}. nodes (desc_list st j) (frees g j)) = {}"
  using nodes_apart [OF assms] by blast

lemma block_to_arena_small:
  assumes I: "heap_inv X st g" and u: "use g a = Some (Arena i)" and b: "b \<in> blocks i a"
  shows "block_to_arena b st = Some a" "pg_round_down b = a"
proof -
  have a: "PGSIZE dvd a" "a \<noteq> 0" using use_page(2,3) [OF I] u by simp_all
  have ok: "arena_ok X st g a i" using heap_invD(6) [OF I u] .
  obtain k where k: "k < bpa i" "b = block_at i a k" using b by (auto simp: blocks_def)
  note B = block_facts [OF a(1) k(1)]
  have "k * bsz i + 2 ^ 32 = ARENA_SIZE + k * bsz i + 2 ^ 32 - ARENA_SIZE" by simp
  moreover have "k * bsz i < 2 ^ 32" using block_room [OF k(1)] by (simp add: PGSIZE_eq)
  ultimately have "u32 (ARENA_SIZE + k * bsz i + 2 ^ 32 - ARENA_SIZE) = k * bsz i" by (metis mod_add_self2 u32_def mod_less)
  moreover have "block_size (descs st ! i) = bsz i" using ok heap_invD(3) [OF I] by (simp add: arena_ok_def descs_ok_def)
  ultimately show "block_to_arena b st = Some a" using ok a(2) B(1,2) k(2) by (simp add: block_to_arena_def Let_def arena_ok_def)
  show "pg_round_down b = a" using B(1) k(2) by simp
qed

text \<open>Changing the free list of one descriptor and the count of one of its arenas.\<close>

lemma heap_inv_update:
  assumes I: "heap_inv X st g" and i: "i < 7" and a: "use g a = Some (Arena i)"
    and st: "palloc_ok (pages st')" "kpages (pages st') = kpages (pages st)" "kernel_range (pages st') = kernel_range (pages st)" "descs st' = descs st"
    and hdr: "\<And>a' x. use g a' \<noteq> None \<Longrightarrow> a' \<noteq> a \<Longrightarrow> a' \<le> x \<Longrightarrow> x < a' + ARENA_SIZE \<Longrightarrow> ram (pages st') x = ram (pages st) x"
    and ha: "arena_magic st' a = arena_magic st a" "arena_desc st' a = arena_desc st a" "unat (arena_free_cnt st' a) = card (blocks i a \<inter> set ys)"
    and d: "dll (links st') (desc_list st i) ys" and same: "same_outside A (links st) (links st')"
    and A: "A \<inter> (\<Union>j\<in>{..<7} - {i}. nodes (desc_list st j) (frees g j)) = {}"
    and ys: "\<And>b. b \<in> set ys \<Longrightarrow> use g (pg_round_down b) = Some (Arena i) \<and> b \<in> blocks i (pg_round_down b)"
    and other: "\<And>a'. use g a' = Some (Arena i) \<Longrightarrow> a' \<noteq> a \<Longrightarrow> blocks i a' \<inter> set ys = blocks i a' \<inter> set (frees g i)"
    and Y: "X \<subseteq> insert a Y" "a \<notin> Y \<Longrightarrow> card (blocks i a \<inter> set ys) < bpa i"
  shows "heap_inv Y st' (g\<lparr>frees := (frees g)(i := ys)\<rparr>)"
proof -
  note V = heap_invD [OF I]
  have dl: "desc_list st' = desc_list st" using st(4) by (simp add: desc_list_def fun_eq_iff)
  have hc: "arena_magic st' a' = arena_magic st a'" "arena_desc st' a' = arena_desc st a'" "arena_free_cnt st' a' = arena_free_cnt st a'"
    if "use g a' \<noteq> None" "a' \<noteq> a" for a' using header_cong [of a' st' st] hdr [OF that] by blast+
  have arena: "arena_ok Y st' (g\<lparr>frees := (frees g)(i := ys)\<rparr>) a' j" if u: "use g a' = Some (Arena j)" for a' j
  proof (cases "a' = a")
    case True
    then show ?thesis using V(6) [OF u] u a ha Y(2) by (auto simp: arena_ok_def)
  next
    case False
    have b: "blocks j a' \<inter> set (((frees g)(i := ys)) j) = blocks j a' \<inter> set (frees g j)" using other u False by (cases "j = i") simp_all
    have "a' \<notin> Y \<Longrightarrow> a' \<notin> X" using Y(1) False by blast
    then show ?thesis using V(6) [OF u] hc [of a'] False u b by (cases "j = i") (simp_all add: arena_ok_def)
  qed
  have big: "big_ok st' (g\<lparr>frees := (frees g)(i := ys)\<rparr>) a' n" if u: "use g p = Some (Big a' n)" for p a' n
  proof -
    have ok: "big_ok st g a' n" using V(7) [OF u] .
    then have u': "use g a' = Some (Big a' n)" by (rule big_start)
    then have "a' \<noteq> a" using a by auto
    then show ?thesis using ok hc [of a'] u' by (simp add: big_ok_def)
  qed
  have free: "use g (pg_round_down b) = Some (Arena j) \<and> b \<in> blocks j (pg_round_down b)" if "j < 7" "b \<in> set (((frees g)(i := ys)) j)" for j b
    using that ys V(5) by (cases "j = i") simp_all
  show ?thesis unfolding heap_inv_def ghost.simps dl
    using V(2,3) st arena big free keep_lists [OF I i d same A] by (simp add: descs_ok_def dl)
qed

text \<open>Taking the first block of a free list.\<close>

lemma take_block:
  assumes I: "heap_inv X st g" and i: "i < 7" and f: "frees g i = b # bs" and X: "X \<subseteq> {pg_round_down b}"
  defines "g' \<equiv> g\<lparr>frees := (frees g)(i := bs)\<rparr>"
  obtains h a where "list_pop_front (desc_list st i) (links st) = Some (b, h)" "block_to_arena b (st\<lparr>links := h\<rparr>) = Some a"
    "heap_inv {} (set_free_cnt a (arena_free_cnt (st\<lparr>links := h\<rparr>) a - 1) (st\<lparr>links := h\<rparr>)) g'"
    "live g b = None" "live g' = (live g)(b \<mapsto> bsz i)" "PGSIZE dvd a" "use g a = Some (Arena i)"
proof -
  note V = heap_invD [OF I]
  let ?a = "pg_round_down b"
  have d: "dll (links st) (desc_list st i) (b # bs)" using V(4) [OF i] f by simp
  have bf: "b \<in> set (frees g i)" using f by simp
  note B = block_in_use [OF I i bf]
  obtain h where h: "list_pop_front (desc_list st i) (links st) = Some (b, h)" "dll h (desc_list st i) bs" "same_outside (nodes (desc_list st i) bs) (links st) h"
    using dll_pop_front [OF d] by blast
  let ?s = "st\<lparr>links := h\<rparr>"
  have nb: "b \<notin> set bs" using dll_distinct [OF d] by simp
  have ar: "block_to_arena b ?s = Some ?a"
    using block_to_arena_small [OF I B(4,5)] by simp
  have ok: "arena_ok X st g ?a i" using V(6) [OF B(4)] .
  let ?F = "blocks i ?a \<inter> set (frees g i)" and ?F' = "blocks i ?a \<inter> set bs"
  have F: "?F = insert b ?F'" "b \<notin> ?F'" using f B(5) nb by auto
  have c: "card ?F = Suc (card ?F')" using F card_blocks(2) [of i ?a] by (simp add: card_insert_disjoint)
  have le: "card ?F \<le> bpa i" using card_mono [OF card_blocks(2) [of i ?a], of ?F] card_blocks(1) [of i ?a] by simp
  have cnt: "unat (arena_free_cnt ?s ?a) = card ?F" using ok by (simp add: arena_ok_def)
  then have "arena_free_cnt ?s ?a \<noteq> 0" using c by auto
  then have dec: "unat (arena_free_cnt ?s ?a - 1) = card ?F'" using cnt c by (simp add: unat_minus_one)
  let ?s' = "set_free_cnt ?a (arena_free_cnt ?s ?a - 1) ?s"
  have al: "PGSIZE dvd a'" if "use g a' \<noteq> None" for a' using use_page(2) [OF I that] .
  have "heap_inv {} ?s' g'" unfolding g'_def
  proof (rule heap_inv_update [OF I i B(4)])
    show "ram (pages ?s') x = ram (pages st) x" if "use g a' \<noteq> None" "a' \<noteq> ?a" "a' \<le> x" "x < a' + ARENA_SIZE" for a' x
      using header_apart [OF al [OF that(1)] B(3) that(2-4)] by (subst set_free_cnt_facts(9)) (auto simp: ARENA_SIZE_def PGSIZE_eq)
    show "same_outside (nodes (desc_list st i) bs) (links st) (links ?s')" using h(3) by simp
    show "nodes (desc_list st i) bs \<inter> (\<Union>j\<in>{..<7} - {i}. nodes (desc_list st j) (frees g j)) = {}"
      using own_nodes_apart [OF I i] f by auto
    show "use g (pg_round_down x) = Some (Arena i) \<and> x \<in> blocks i (pg_round_down x)" if "x \<in> set bs" for x
      using V(5) [OF i, of x] f that by simp
    show "blocks i a' \<inter> set bs = blocks i a' \<inter> set (frees g i)" if "use g a' = Some (Arena i)" "a' \<noteq> ?a" for a'
      using f that blocks_page [OF al] by auto
  qed (use V(1) h(2) X dec c le ok in simp_all)
  moreover have "live g b = None" using B(4,5) bf by (simp add: live_def)
  moreover have "live g' x = ((live g)(b \<mapsto> bsz i)) x" for x
  proof (cases "x = b")
    case True
    then show ?thesis using B(4,5) nb by (simp add: live_def g'_def)
  next
    case False
    then have "x \<in> set (((frees g)(i := bs)) j) \<longleftrightarrow> x \<in> set (frees g j)" for j using f by (cases "j = i") simp_all
    then have "live g' x = live g x" by (intro live_cong) (simp_all add: g'_def)
    then show ?thesis using False by simp
  qed
  ultimately show thesis using that [OF h(1) ar] B(3,4) by (simp add: fun_eq_iff)
qed

text \<open>Making an arena.\<close>

lemma arena_to_block_ok:
  assumes "descs_ok st" "i < 7" "a \<noteq> 0" "arena_magic st a = ARENA_MAGIC" "arena_desc st a = Some i" "k < bpa i"
  shows "arena_to_block a k st = Some (block_at i a k)"
  using assms by (simp add: arena_to_block_def descs_ok_def block_at_def)

lemma descs_ok_links [simp]: "descs_ok (st\<lparr>links := h\<rparr>) = descs_ok st" "desc_list (st\<lparr>links := h\<rparr>) = desc_list st"
  by (simp_all add: descs_ok_def desc_list_def fun_eq_iff)

lemma add_blocks:
  assumes d: "descs_ok st" "i < 7" and a: "a \<noteq> 0" "PGSIZE dvd a" "span a PGSIZE \<subseteq> kernel_range (pages st)"
    and hdr: "arena_magic st a = ARENA_MAGIC" "arena_desc st a = Some i" and e: "dll (links st) (desc_list st i) []"
  shows "\<exists>h. mfold (add_block a (desc_list st i)) [0..<bpa i] st = Some (st\<lparr>links := h\<rparr>) \<and> dll h (desc_list st i) (map (block_at i a) [0..<bpa i])
    \<and> same_outside (nodes (desc_list st i) (map (block_at i a) [0..<bpa i])) (links st) h"
proof -
  let ?L = "desc_list st i"
  define J where "J ys t \<longleftrightarrow> (\<exists>h. t = st\<lparr>links := h\<rparr> \<and> dll h ?L (map (block_at i a) ys) \<and> same_outside (nodes ?L (map (block_at i a) ys)) (links st) h)" for ys t
  have hd: "{l_head ?L, l_tail ?L} \<inter> kernel_range (pages st) = {}" using d by (simp add: descs_ok_def)
  have "\<exists>t. mfold (add_block a ?L) [0..<bpa i] st = Some t \<and> J [0..<bpa i] t"
  proof (rule mfold_invariant [where I = J])
    have "st = st\<lparr>links := links st\<rparr>" by simp
    then show "J [] st" using e unfolding J_def by (metis list.map(1) same_outside_refl)
    fix ys k zs t assume k: "[0..<bpa i] = ys @ k # zs" and t: "J ys t"
    obtain h where h: "t = st\<lparr>links := h\<rparr>" "dll h ?L (map (block_at i a) ys)" "same_outside (nodes ?L (map (block_at i a) ys)) (links st) h"
      using t by (auto simp: J_def)
    have kb: "k < bpa i" using upt_split [OF k] by simp
    have nk: "k \<notin> set ys" using k by (metis distinct_upt distinct_append disjoint_iff list.set_intros(1))
    have blk: "arena_to_block a k t = Some (block_at i a k)" using arena_to_block_ok [of t i a k] d a(1) hdr kb h(1) by simp
    have "block_at i a k \<in> kernel_range (pages st)" using block_facts(4) [OF a(2) kb] a(3) by blast
    then have "block_at i a k \<notin> nodes ?L (map (block_at i a) ys)" using hd nk by (auto simp: block_inj)
    then obtain h' where h': "list_push_back ?L (block_at i a k) h = Some h'" "dll h' ?L (map (block_at i a) ys @ [block_at i a k])"
        "same_outside (insert (block_at i a k) (nodes ?L (map (block_at i a) ys))) h h'"
      using dll_push_back [OF h(2)] block_facts(5) [OF a(2) kb] by blast
    have "same_outside (nodes ?L (map (block_at i a) (ys @ [k]))) (links st) h'"
      by (rule same_outside_mono [OF same_outside_trans [OF h(3) h'(3)]]) auto
    then have "J (ys @ [k]) (st\<lparr>links := h'\<rparr>)" using h'(2) by (auto simp: J_def)
    then show "\<exists>t'. add_block a ?L k t = Some t' \<and> J (ys @ [k]) t'" using blk h(1) h'(1) by (simp add: add_block_def)
  qed
  then show ?thesis by (auto simp: J_def)
qed

lemma new_arena:
  assumes I: "heap_inv {} st g" and i: "i < 7" and e: "frees g i = []"
  obtains (full) "palloc_get_page {} (pages st) = Some (0, pages st)"
  | (new) a P st' g' where "palloc_get_page {} (pages st) = Some (a, P)" "a \<noteq> 0"
      "mfold (add_block a (desc_list st i)) [0..<bpa i] (init_arena a (Some i) (bpa i) (st\<lparr>pages := P\<rparr>)) = Some st'"
      "heap_inv {a} st' g'" "live g' = live g" "frees g' i = map (block_at i a) [0..<bpa i]" "descs st' = descs st"
      "kpages (pages st') = insert a (kpages (pages st))" "use g' = (use g)(a \<mapsto> Arena i)" "a \<notin> kpages (pages st)" "PGSIZE dvd a"
      "\<And>x. x < a \<or> a + ARENA_SIZE \<le> x \<Longrightarrow> ram (pages st') x = ram (pages st) x"
proof -
  note V = heap_invD [OF I]
  have fl: "PAL_USER \<notin> {}" "PAL_ASSERT \<notin> {} \<or> card (kpages (pages st)) < bit_cnt (used_map (kernel_pool (pages st)))" by simp_all
  show thesis
  proof (cases rule: get_kernel_page [OF V(1) fl])
    case 1
    then show thesis using full by simp
  next
    case (2 a P)
    have ak: "a \<in> kpages P" using 2(3) by simp
    note K = kpages_facts [OF 2(4) ak] and R = kpages_in_range [OF ak]
    have un: "use g a = None" using V(2) 2(2) by (auto simp: dom_def)
    let ?s = "init_arena a (Some i) (bpa i) (st\<lparr>pages := P\<rparr>)"
    have bl: "bpa i < 2 ^ 32" using bpa_small [of i] by simp
    note C = init_arena_facts [of "bpa i" "Some i", OF bl, simplified, OF i, where a = a and st = "st\<lparr>pages := P\<rparr>"]
    have ram: "ram (pages ?s) x = ram (pages st) x" if "x < a \<or> a + ARENA_SIZE \<le> x" for x using C(9) [OF that] 2(7) by simp
    have dl: "desc_list ?s = desc_list st" using C(5) by (simp add: desc_list_def fun_eq_iff)
    have dk: "descs_ok ?s" using V(3) C(5,8) 2(9) by (simp add: descs_ok_def dl)
    have dll0: "dll (links ?s) (desc_list ?s i) []" using V(4) [OF i] e C(4) dl by simp
    have R': "span a PGSIZE \<subseteq> kernel_range (pages ?s)" using R C(8) by simp
    obtain h where h: "mfold (add_block a (desc_list st i)) [0..<bpa i] ?s = Some (?s\<lparr>links := h\<rparr>)" "dll h (desc_list st i) (map (block_at i a) [0..<bpa i])"
        "same_outside (nodes (desc_list st i) (map (block_at i a) [0..<bpa i])) (links st) h"
      using add_blocks [OF dk i 2(8) K(1) R' C(1,2) dll0] C(4) dl by auto
    let ?ys = "map (block_at i a) [0..<bpa i]"
    let ?g = "\<lparr>use = (use g)(a \<mapsto> Arena i), frees = (frees g)(i := ?ys)\<rparr>" and ?t = "?s\<lparr>links := h\<rparr>"
    have ys: "set ?ys = blocks i a" by (simp add: blocks_def lessThan_atLeast0)
    have al: "PGSIZE dvd a'" if "use g a' \<noteq> None" for a' using use_page(2) [OF I that] .
    have hc: "arena_magic ?t a' = arena_magic st a'" "arena_desc ?t a' = arena_desc st a'" "arena_free_cnt ?t a' = arena_free_cnt st a'" if "use g a' \<noteq> None" for a'
    proof -
      have "a' \<noteq> a" using un that by auto
      then have "ram (pages ?s) x = ram (pages st) x" if "a' \<le> x" "x < a' + ARENA_SIZE" for x
        using header_apart [OF al [OF \<open>use g a' \<noteq> None\<close>] K(1) _ that] by (intro ram) (auto simp: ARENA_SIZE_def PGSIZE_eq)
      then show "arena_magic ?t a' = arena_magic st a'" "arena_desc ?t a' = arena_desc st a'" "arena_free_cnt ?t a' = arena_free_cnt st a'"
        using header_cong [of a' ?s st] by simp_all
    qed
    have notin: "b \<notin> blocks i a" if "use g (pg_round_down b) \<noteq> None" for b using blocks_page [OF K(1), of b] un that by auto
    have sep: "A \<noteq> {} \<Longrightarrow> False" if "A = blocks j a' \<inter> blocks i a" "use g a' \<noteq> None" for A j a'
      using that blocks_page [OF K(1)] blocks_page [OF al [OF that(2)]] un by fastforce
    have arena: "arena_ok {a} ?t ?g a' j" if u: "use ?g a' = Some (Arena j)" for a' j
    proof (cases "a' = a")
      case True
      then show ?thesis using u C(1-3) i ys card_blocks [of i a] by (auto simp: arena_ok_def)
    next
      case False
      then have u': "use g a' = Some (Arena j)" using u by simp
      have "blocks j a' \<inter> set (((frees g)(i := ?ys)) j) = blocks j a' \<inter> set (frees g j)"
        using sep [OF refl, where j = j and a' = a'] u' e ys by (cases "j = i") auto
      then show ?thesis using V(6) [OF u'] hc [of a'] u' by (simp add: arena_ok_def del: fun_upd_apply)
    qed
    have big: "big_ok ?t ?g a' n" if u: "use ?g p = Some (Big a' n)" for p a' n
    proof -
      have u': "use g p = Some (Big a' n)" using u by (simp split: if_splits)
      have ok: "big_ok st g a' n" using V(7) [OF u'] .
      have "use ?g q = Some (Big a' n) \<longleftrightarrow> use g q = Some (Big a' n)" for q using un by auto
      then show ?thesis using ok hc [of a'] big_start [OF ok] by (simp add: big_ok_def)
    qed
    have A: "nodes (desc_list st i) ?ys \<inter> (\<Union>j\<in>{..<7} - {i}. nodes (desc_list st j) (frees g j)) = {}"
    proof -
      have "{l_head (desc_list st i), l_tail (desc_list st i)} \<inter> (\<Union>j\<in>{..<7} - {i}. nodes (desc_list st j) (frees g j)) = {}"
        using own_nodes_apart [OF I i] by blast
      moreover have "blocks i a \<inter> nodes (desc_list st j) (frees g j) = {}" if j: "j < 7" for j
      proof -
        have "blocks i a \<subseteq> span a PGSIZE" using block_facts(4) [OF K(1)] by (auto simp: blocks_def)
        then have "blocks i a \<subseteq> kernel_range (pages st)" using R 2(9) by blast
        then have "blocks i a \<inter> {l_head (desc_list st j), l_tail (desc_list st j)} = {}" using V(3) j unfolding descs_ok_def by blast
        moreover have "b \<notin> blocks i a" if "b \<in> set (frees g j)" for b using notin V(5) [OF j that] by simp
        ultimately show ?thesis by blast
      qed
      ultimately show ?thesis using ys by auto
    qed
    have free: "use ?g (pg_round_down b) = Some (Arena j) \<and> b \<in> blocks j (pg_round_down b)" if "j < 7" "b \<in> set (frees ?g j)" for j b
    proof (cases "j = i")
      case True
      then have "b \<in> blocks i a" using that ys by simp
      then show ?thesis using blocks_page [OF K(1)] True by simp
    next
      case False
      then have "use g (pg_round_down b) = Some (Arena j)" "b \<in> blocks j (pg_round_down b)" using V(5) [OF that(1)] that(2) by simp_all
      then show ?thesis using un by auto
    qed
    have lists: "dll h (desc_list st j) (frees ?g j)" if "j < 7" for j using keep_lists [OF I i h(2,3) A that] by simp
    have dom: "dom (use ?g) \<subseteq> kpages (pages ?t)" using V(2) 2(3) C(6) by auto
    have inv: "heap_inv {a} ?t ?g" unfolding heap_inv_def using dom arena big free lists 2(4) C(7) dk dl by simp
    have "live ?g b = live g b" for b
    proof (cases "pg_round_down b = a")
      case True
      then show ?thesis using un ys by (simp add: live_def del: set_map)
    next
      case False
      have "b \<in> set (((frees g)(i := ?ys)) j) \<longleftrightarrow> b \<in> set (frees g j)" if "use g (pg_round_down b) = Some (Arena j)" for j
        using notin [of b] that e ys by (cases "j = i") simp_all
      then show ?thesis using False by (intro live_cong) simp_all
    qed
    then have "live ?g = live g" by (simp add: fun_eq_iff)
    then show thesis using new [OF 2(1,8) h(1) inv] C(5,6) 2(2,3) K(1) ram by simp
  qed
qed

section \<open>Where blocks and headers lie\<close>

definition is_header :: "ghost \<Rightarrow> nat \<Rightarrow> bool" where
  "is_header g a \<longleftrightarrow> (\<exists>i. use g a = Some (Arena i)) \<or> (\<exists>n. use g a = Some (Big a n))"

definition headers :: "ghost \<Rightarrow> nat set" where
  "headers g = (\<Union>a\<in>{a. is_header g a}. {a..<a + ARENA_SIZE})"

lemma round_down_unique: "PGSIZE dvd a \<Longrightarrow> a \<le> x \<Longrightarrow> x < a + PGSIZE \<Longrightarrow> pg_round_down x = a"
  using in_page(1) [of a "x - a"] by simp

lemma live_use:
  assumes I: "heap_inv X st g" and l: "live g b = Some c" and x: "x \<in> span b c"
  shows "use g (pg_round_down x) = use g (pg_round_down b)" "pg_round_down x = pg_round_down b \<Longrightarrow> pg_round_down b + ARENA_SIZE \<le> x" "use g (pg_round_down x) \<noteq> None"
proof -
  have "use g (pg_round_down x) = use g (pg_round_down b) \<and> (pg_round_down x = pg_round_down b \<longrightarrow> pg_round_down b + ARENA_SIZE \<le> x) \<and> use g (pg_round_down b) \<noteq> None"
    using I l
  proof (cases rule: live_cases)
    case (small a i k)
    have "x \<in> {a + ARENA_SIZE..<a + PGSIZE}" using block_facts(3) [OF small(8,2)] x small(3,5) by blast
    then show ?thesis using round_down_unique [OF small(8), of x] small(1,6) by simp
  next
    case (big a n)
    have r: "a + ARENA_SIZE \<le> x" "x < a + PGSIZE * n" using x big(2,3) by (auto simp: span_def)
    define k where "k = (x - a) div PGSIZE"
    have kx: "PGSIZE * k \<le> x - a" "x - a < PGSIZE * k + PGSIZE"
      using dividend_less_times_div [of PGSIZE "x - a"] by (simp_all add: k_def PGSIZE_eq)
    have "PGSIZE * k < PGSIZE * n" using kx(1) r by linarith
    then have kn: "k < n" by simp
    have "PGSIZE dvd a + PGSIZE * k" using big(6) by simp
    then have "pg_round_down x = a + PGSIZE * k" using kx r by (intro round_down_unique) (simp_all add: ARENA_SIZE_def)
    moreover have "use g (a + PGSIZE * k) = Some (Big a n)" using big(5) kn by (auto simp: big_ok_def page_run_def)
    ultimately show ?thesis using big(1,4) r(1) by simp
  qed
  then show "use g (pg_round_down x) = use g (pg_round_down b)" "pg_round_down x = pg_round_down b \<Longrightarrow> pg_round_down b + ARENA_SIZE \<le> x" "use g (pg_round_down x) \<noteq> None" by simp_all
qed

lemma header_page:
  assumes "heap_inv X st g" "x \<in> headers g"
  shows "is_header g (pg_round_down x)" "x < pg_round_down x + ARENA_SIZE"
proof -
  obtain a where a: "is_header g a" "a \<le> x" "x < a + ARENA_SIZE" using assms(2) by (auto simp: headers_def)
  then have "PGSIZE dvd a" using use_page(2) [OF assms(1), of a] by (auto simp: is_header_def)
  then have "pg_round_down x = a" using a by (intro round_down_unique) (simp_all add: ARENA_SIZE_def PGSIZE_eq)
  then show "is_header g (pg_round_down x)" "x < pg_round_down x + ARENA_SIZE" using a by simp_all
qed

lemma live_no_header:
  assumes I: "heap_inv X st g" and l: "live g b = Some c" and x: "x \<in> span b c"
  shows "x \<notin> headers g"
proof
  assume "x \<in> headers g"
  note H = header_page [OF I this] and U = live_use [OF I l x]
  from I l show False
  proof (cases rule: live_cases)
    case (small a i k)
    have "x \<in> {a + ARENA_SIZE..<a + PGSIZE}" using block_facts(3) [OF small(8,2)] x small(3,5) by blast
    then have "pg_round_down x = a" using round_down_unique [OF small(8), of x] by simp
    then show False using U(2) H(2) small(6) by simp
  next
    case (big a n)
    then have "pg_round_down x = a" using H(1) U(1) by (auto simp: is_header_def)
    then show False using U(2) H(2) big(4) by simp
  qed
qed

lemma live_apart:
  assumes I: "heap_inv X st g" and l: "live g b = Some c" "live g b' = Some c'" and ne: "b \<noteq> b'"
  shows "span b c \<inter> span b' c' = {}"
proof (rule ccontr)
  assume "span b c \<inter> span b' c' \<noteq> {}"
  then obtain x where x: "x \<in> span b c" "x \<in> span b' c'" by blast
  have same: "use g (pg_round_down b) = use g (pg_round_down b')" using live_use(1) [OF I l(1) x(1)] live_use(1) [OF I l(2) x(2)] by simp
  from I l(1) show False
  proof (cases rule: live_cases)
    case (small a i k)
    from I l(2) show False
    proof (cases rule: live_cases)
      case s': (small a' i' k')
      have "x \<in> {a + ARENA_SIZE..<a + PGSIZE}" "x \<in> {a' + ARENA_SIZE..<a' + PGSIZE}"
        using block_facts(3) [OF small(8,2)] block_facts(3) [OF s'(8,2)] x small(3,5) s'(3,5) by blast+
      then have a: "a = a'" using round_down_unique [OF small(8), of x] round_down_unique [OF s'(8), of x] by simp
      then have i: "i = i'" using small(1) s'(1) by simp
      then have "k \<noteq> k'" using ne small(3) s'(3) a by auto
      then show False using blocks_apart [of k k' i a] x small(3,5) s'(3,5) a i by blast
    qed (use same small in auto)
  next
    case (big a n)
    from I l(2) show False by (cases rule: live_cases) (use same big ne in auto)
  qed
qed

section \<open>Allocation\<close>

lemma find_desc_spec: "find_desc ds n \<le> length ds \<and> (find_desc ds n < length ds \<longrightarrow> n \<le> block_size (ds ! find_desc ds n))"
  by (induction ds) auto

text \<open>\<open>stable\<close>: only headers of the heap changed, and the pages outside the heap are the same.\<close>

definition stable :: "heap \<Rightarrow> ghost \<Rightarrow> heap \<Rightarrow> ghost \<Rightarrow> bool" where
  "stable st g st' g' \<longleftrightarrow> (\<forall>x. x \<notin> headers g' \<longrightarrow> ram (pages st') x = ram (pages st) x)
     \<and> kpages (pages st') - dom (use g') = kpages (pages st) - dom (use g) \<and> dom (use g) \<subseteq> dom (use g')"

lemma in_headers: "use g a = Some (Arena i) \<or> use g a = Some (Big a n) \<Longrightarrow> a \<le> x \<Longrightarrow> x < a + ARENA_SIZE \<Longrightarrow> x \<in> headers g"
  by (auto simp: headers_def is_header_def)

lemma big_pages:
  assumes "0 < sz" "sz < 2 ^ 32 - 2 ^ 13"
  shows "0 < DIV_ROUND_UP (u32 (sz + ARENA_SIZE)) PGSIZE" "sz + ARENA_SIZE \<le> PGSIZE * DIV_ROUND_UP (u32 (sz + ARENA_SIZE)) PGSIZE" "DIV_ROUND_UP (u32 (sz + ARENA_SIZE)) PGSIZE < 2 ^ 20"
proof -
  have u: "u32 (sz + ARENA_SIZE) = sz + ARENA_SIZE" using assms by (simp add: ARENA_SIZE_def)
  show c: "sz + ARENA_SIZE \<le> PGSIZE * DIV_ROUND_UP (u32 (sz + ARENA_SIZE)) PGSIZE"
    unfolding u by (rule DIV_ROUND_UP_covers) (use assms in \<open>simp_all add: ARENA_SIZE_def PGSIZE_eq\<close>)
  then show "0 < DIV_ROUND_UP (u32 (sz + ARENA_SIZE)) PGSIZE" by (cases "DIV_ROUND_UP (u32 (sz + ARENA_SIZE)) PGSIZE") (simp_all add: ARENA_SIZE_def)
  show "DIV_ROUND_UP (u32 (sz + ARENA_SIZE)) PGSIZE < 2 ^ 20"
    unfolding u using assms by (simp add: DIV_ROUND_UP_def ARENA_SIZE_def PGSIZE_eq div_less_iff_less_mult)
qed

lemma malloc_big:
  assumes I: "heap_inv {} st g" and n: "0 < n" "n < 2 ^ 20"
  obtains (full) "palloc_get_multiple {} n (pages st) = Some (0, pages st)"
  | (new) a P g' where "palloc_get_multiple {} n (pages st) = Some (a, P)" "a \<noteq> 0" "heap_inv {} (init_arena a None n (st\<lparr>pages := P\<rparr>)) g'"
      "live g (a + ARENA_SIZE) = None" "live g' = (live g)(a + ARENA_SIZE \<mapsto> PGSIZE * n - ARENA_SIZE)" "stable st g (init_arena a None n (st\<lparr>pages := P\<rparr>)) g'"
proof -
  note V = heap_invD [OF I]
  show thesis
  proof (cases rule: get_kernel_pages [OF V(1) _ _ _ n(1), of "{}"])
    case 4
    then show thesis using full by simp
  next
    case (5 a P)
    have "a \<in> page_run a n" using n(1) by (force simp: page_run_def)
    then have ak: "a \<in> kpages P" using 5(4) by simp
    have K: "PGSIZE dvd a" using kpages_facts(1) [OF 5(5) ak] .
    have un: "use g p = None" if "p \<in> page_run a n" for p using V(2) 5(3) that by (auto simp: dom_def)
    let ?s = "init_arena a None n (st\<lparr>pages := P\<rparr>)"
    have n32: "n < 2 ^ 32" using n(2) by simp
    note C = init_arena_facts [of n None, OF n32, simplified, where a = a and st = "st\<lparr>pages := P\<rparr>"]
    have ram: "ram (pages ?s) x = ram (pages st) x" if "x < a \<or> a + ARENA_SIZE \<le> x" for x using C(9) [OF that] 5(8) by simp
    let ?g = "g\<lparr>use := (\<lambda>p. if p \<in> page_run a n then Some (Big a n) else use g p)\<rparr>"
    have dl: "desc_list ?s = desc_list st" using C(5) by (simp add: desc_list_def fun_eq_iff)
    have al: "PGSIZE dvd a'" if "use g a' \<noteq> None" for a' using use_page(2) [OF I that] .
    have hc: "arena_magic ?s a' = arena_magic st a'" "arena_desc ?s a' = arena_desc st a'" "arena_free_cnt ?s a' = arena_free_cnt st a'" if u: "use g a' \<noteq> None" for a'
    proof -
      have "a' \<noteq> a" using un [OF \<open>a \<in> page_run a n\<close>] u by auto
      then have "ram (pages ?s) x = ram (pages st) x" if "a' \<le> x" "x < a' + ARENA_SIZE" for x
        using header_apart [OF al [OF u] K _ that] by (intro ram) (auto simp: ARENA_SIZE_def PGSIZE_eq)
      then show "arena_magic ?s a' = arena_magic st a'" "arena_desc ?s a' = arena_desc st a'" "arena_free_cnt ?s a' = arena_free_cnt st a'"
        using header_cong [of a' ?s st] by simp_all
    qed
    have arena: "arena_ok {} ?s ?g a' i" if "use ?g a' = Some (Arena i)" for a' i
    proof -
      have "use g a' = Some (Arena i)" using that by (simp split: if_splits)
      then show ?thesis using V(6) hc [of a'] by (simp add: arena_ok_def)
    qed
    have big: "big_ok ?s ?g a' m" if u: "use ?g p = Some (Big a' m)" for p a' m
    proof (cases "p \<in> page_run a n")
      case True
      have "use g q \<noteq> Some (Big a n)" for q
      proof
        assume q: "use g q = Some (Big a n)"
        from big_start [OF V(7) [OF q]] un [OF \<open>a \<in> page_run a n\<close>] show False by simp
      qed
      then show ?thesis using True u n C(1-3) by (auto simp: big_ok_def)
    next
      case False
      then have ok: "big_ok st g a' m" using V(7) u by simp
      have s: "use g a' = Some (Big a' m)" by (rule big_start [OF ok])
      then have "a' \<notin> page_run a n" using un by force
      then have "a' \<noteq> a" using \<open>a \<in> page_run a n\<close> by auto
      then have "use ?g q = Some (Big a' m) \<longleftrightarrow> use g q = Some (Big a' m)" for q using un by auto
      then show ?thesis using ok hc [of a'] s by (simp add: big_ok_def)
    qed
    have free: "use ?g (pg_round_down b) = Some (Arena j) \<and> b \<in> blocks j (pg_round_down b)" if "j < 7" "b \<in> set (frees ?g j)" for j b
      using V(5) [OF that(1), of b] that(2) un [of "pg_round_down b"] by auto
    have dk: "descs_ok ?s" using V(3) C(5,8) 5(7) by (simp add: descs_ok_def dl)
    have dom: "dom (use ?g) \<subseteq> kpages (pages ?s)" using V(2) 5(4) C(6) by (auto split: if_splits)
    have inv: "heap_inv {} ?s ?g" unfolding heap_inv_def using dom arena big free V(4) 5(5) C(4,7) dk dl by simp
    have rd: "pg_round_down (a + ARENA_SIZE) = a" using in_page(1) [OF K, of ARENA_SIZE] by (simp add: ARENA_SIZE_def PGSIZE_eq)
    have old: "live g (a + ARENA_SIZE) = None" using rd un [OF \<open>a \<in> page_run a n\<close>] by (simp add: live_def)
    have "live ?g b = ((live g)(a + ARENA_SIZE \<mapsto> PGSIZE * n - ARENA_SIZE)) b" for b
    proof (cases "pg_round_down b \<in> page_run a n")
      case True
      then show ?thesis using un [OF True] by (simp add: live_def)
    next
      case False
      then have "b \<noteq> a + ARENA_SIZE" using rd \<open>a \<in> page_run a n\<close> by auto
      moreover have "live ?g b = live g b" by (rule live_cong) (use False in simp_all)
      ultimately show ?thesis by simp
    qed
    then have lv: "live ?g = (live g)(a + ARENA_SIZE \<mapsto> PGSIZE * n - ARENA_SIZE)" by blast
    have "x \<notin> headers ?g \<Longrightarrow> ram (pages ?s) x = ram (pages st) x" for x
      using in_headers [of ?g a _ n x] \<open>a \<in> page_run a n\<close> by (intro ram) force
    moreover have "dom (use ?g) = dom (use g) \<union> page_run a n" by (auto split: if_splits)
    moreover have "kpages (pages ?s) = kpages (pages st) \<union> page_run a n" using 5(4) C(6) by simp
    ultimately have "stable st g ?s ?g" using 5(3) unfolding stable_def by blast
    then show thesis using new [OF 5(1,2) inv old lv] by simp
  qed simp_all
qed

lemma malloc_ok:
  assumes I: "heap_inv {} st g" and sz: "0 < sz" "sz < 2 ^ 32 - 2 ^ 13"
  obtains (full) "malloc sz st = Some (0, st)"
  | (got) p c st' g' where "malloc sz st = Some (p, st')" "p \<noteq> 0" "sz \<le> c" "heap_inv {} st' g'" "live g p = None" "live g' = (live g)(p \<mapsto> c)" "stable st g st' g'"
proof -
  note V = heap_invD [OF I]
  let ?d = "find_desc (descs st) sz"
  have len: "length (descs st) = 7" using V(3) by (simp add: descs_ok_def)
  show thesis
  proof (cases "?d = 7")
    case True
    let ?n = "DIV_ROUND_UP (u32 (sz + ARENA_SIZE)) PGSIZE"
    note N = big_pages [OF sz]
    show thesis
    proof (cases rule: malloc_big [OF I N(1,3)])
      case 1
      then show thesis using full True len sz(1) by (simp add: malloc_def Let_def)
    next
      case (2 a P g')
      have "malloc sz st = Some (a + ARENA_SIZE, init_arena a None ?n (st\<lparr>pages := P\<rparr>))" using 2(1,2) True len sz(1) by (simp add: malloc_def Let_def)
      moreover have "sz \<le> PGSIZE * ?n - ARENA_SIZE" using N(2) by linarith
      ultimately show thesis using got [of "a + ARENA_SIZE"] 2 by (simp add: ARENA_SIZE_def)
    qed
  next
    case False
    then have i: "?d < 7" "sz \<le> bsz ?d" using find_desc_spec [of "descs st" sz] len V(3) by (auto simp: descs_ok_def)
    have bp: "blocks_per_arena (descs st ! ?d) = bpa ?d" using V(3) i(1) by (simp add: descs_ok_def)
    let ?L = "desc_list st ?d"
    define rest where "rest s = do { (b, h) \<leftarrow> list_pop_front ?L (links s); let s = s\<lparr>links := h\<rparr>; a \<leftarrow> block_to_arena b s; Some (b, set_free_cnt a (arena_free_cnt s a - 1) s) }" for s
    have run: "malloc sz st = do { (ok, s) \<leftarrow> (if list_empty (links st) ?L then do { (a, p) \<leftarrow> palloc_get_page {} (pages st);
          if a = 0 then Some (False, st\<lparr>pages := p\<rparr>)
          else do { s \<leftarrow> mfold (add_block a ?L) [0..<bpa ?d] (init_arena a (Some ?d) (bpa ?d) (st\<lparr>pages := p\<rparr>)); Some (True, s) } } else Some (True, st));
        if ok then rest s else Some (0, s) }"
      using sz(1) False len bp by (simp add: malloc_def Let_def rest_def desc_list_def cong: if_cong)
    have take: thesis if I': "heap_inv X s g1" and f: "frees g1 ?d = b # bs" and X: "X \<subseteq> {pg_round_down b}" and l: "live g1 = live g" and L: "desc_list s ?d = ?L"
        and m: "malloc sz st = rest s" and S: "\<And>x. x \<notin> headers g1 \<Longrightarrow> ram (pages s) x = ram (pages st) x"
        and D: "kpages (pages s) - dom (use g1) = kpages (pages st) - dom (use g)" "dom (use g) \<subseteq> dom (use g1)" for X s g1 b bs
    proof (rule take_block [OF I' i(1) f X])
      fix h a
      let ?s = "set_free_cnt a (arena_free_cnt (s\<lparr>links := h\<rparr>) a - 1) (s\<lparr>links := h\<rparr>)" and ?g = "g1\<lparr>frees := (frees g1)(?d := bs)\<rparr>"
      assume t: "list_pop_front (desc_list s ?d) (links s) = Some (b, h)" "block_to_arena b (s\<lparr>links := h\<rparr>) = Some a" "heap_inv {} ?s ?g"
        "live g1 b = None" "live ?g = (live g1)(b \<mapsto> bsz ?d)" "PGSIZE dvd a" "use g1 a = Some (Arena ?d)"
      have "malloc sz st = Some (b, ?s)" using m t(1,2) L by (simp add: rest_def)
      moreover have hs: "headers ?g = headers g1" by (simp add: headers_def is_header_def)
      have "ram (pages ?s) x = ram (pages st) x" if "x \<notin> headers ?g" for x
      proof -
        have "x < a \<or> a + ARENA_SIZE \<le> x" using in_headers [of g1 a ?d _ x] t(7) that hs by force
        then show ?thesis using S [of x] that hs by (simp add: set_free_cnt_facts(9))
      qed
      then have "stable st g ?s ?g" using D by (simp add: stable_def)
      moreover have "b \<in> set (frees g1 ?d)" using f by simp
      then have "b \<noteq> 0" using block_in_use(2) [OF I' i(1)] by blast
      ultimately show thesis using got [of b ?s "bsz ?d" ?g] t(3,4,5) l i(2) by simp
    qed
    show thesis
    proof (cases "frees g ?d")
      case Nil
      have e: "list_empty (links st) ?L" using dll_empty [OF V(4) [OF i(1)]] Nil by simp
      show thesis
      proof (cases rule: new_arena [OF I i(1) Nil])
        case 1
        then show thesis using full run e by simp
      next
        case (2 a P s g1)
        have m: "malloc sz st = rest s" using run e 2(1,2,3) by simp
        have "0 < bpa ?d" by (rule bpa_pos [OF i(1)])
        then have f: "frees g1 ?d = block_at ?d a 0 # map (block_at ?d a) [1..<bpa ?d]" using 2(6) by (simp add: upt_conv_Cons)
        have rd: "pg_round_down (block_at ?d a 0) = a" by (rule block_facts(1) [OF 2(11) \<open>0 < bpa ?d\<close>])
        have ram: "ram (pages s) x = ram (pages st) x" if "x \<notin> headers g1" for x
          using that in_headers [of g1 a ?d _ x] 2(9) by (intro 2(12)) force
        have dom: "dom (use g1) = insert a (dom (use g))" using 2(9) by auto
        show thesis
          by (rule take [OF 2(4) f _ 2(5) _ m ram]) (use rd 2(7,8,10) dom in \<open>auto simp: desc_list_def\<close>)
      qed
    next
      case (Cons b bs)
      have ne: "\<not> list_empty (links st) ?L" using dll_empty [OF V(4) [OF i(1)]] Cons by simp
      have m: "malloc sz st = rest st" using run ne by simp
      show thesis by (rule take [OF I Cons _ refl refl m]) simp_all
    qed
  qed
qed

section \<open>Release\<close>

lemma span_run:
  assumes a: "PGSIZE dvd a" and x: "x \<in> span a (PGSIZE * n)"
  shows "pg_round_down x \<in> page_run a n"
proof -
  define k where "k = (x - a) div PGSIZE"
  have kx: "PGSIZE * k \<le> x - a" "x - a < PGSIZE * k + PGSIZE"
    using dividend_less_times_div [of PGSIZE "x - a"] by (simp_all add: k_def PGSIZE_eq)
  have r: "a \<le> x" "x < a + PGSIZE * n" using x by (simp_all add: span_def)
  have "PGSIZE * k < PGSIZE * n" using kx(1) r by linarith
  then have "k < n" by simp
  moreover have "pg_round_down x = a + PGSIZE * k" using a kx r by (intro round_down_unique) simp_all
  ultimately show ?thesis by (auto simp: page_run_def)
qed

lemma page_mem: "PGSIZE dvd a \<Longrightarrow> x \<in> span a PGSIZE \<longleftrightarrow> pg_round_down x = a"
  using round_down_unique [of a x] dividend_less_times_div [of PGSIZE x] by (auto simp: span_def pg_round_down_def PGSIZE_eq)

text \<open>Giving back pages that hold no block in use.\<close>

lemma heap_inv_drop:
  assumes I: "heap_inv X st g" and Q: "Q \<subseteq> dom (use g)"
    and st: "palloc_ok P" "kpages P = kpages (pages st) - Q" "kernel_range P = kernel_range (pages st)"
    and ram: "\<And>x. pg_round_down x \<notin> Q \<Longrightarrow> ram P x = ram (pages st) x"
    and d: "\<And>j. j < 7 \<Longrightarrow> dll h (desc_list st j) (fs j)"
    and fs: "\<And>j. set (fs j) = {b \<in> set (frees g j). pg_round_down b \<notin> Q}"
    and X: "X \<subseteq> Q" and bigs: "\<And>p a n. use g p = Some (Big a n) \<Longrightarrow> p \<in> Q \<longleftrightarrow> a \<in> Q"
  defines "g' \<equiv> \<lparr>use = (\<lambda>p. if p \<in> Q then None else use g p), frees = fs\<rparr>"
  shows "heap_inv {} (st\<lparr>pages := P, links := h\<rparr>) g'" "\<And>b. live g' b = (if pg_round_down b \<in> Q then None else live g b)"
proof -
  note V = heap_invD [OF I]
  let ?s = "st\<lparr>pages := P, links := h\<rparr>"
  have al: "PGSIZE dvd a'" if "use g a' \<noteq> None" for a' using use_page(2) [OF I that] .
  have hc: "arena_magic ?s a' = arena_magic st a'" "arena_desc ?s a' = arena_desc st a'" "arena_free_cnt ?s a' = arena_free_cnt st a'"
    if u: "use g a' \<noteq> None" "a' \<notin> Q" for a'
  proof -
    have "ram P x = ram (pages st) x" if "a' \<le> x" "x < a' + ARENA_SIZE" for x
      using round_down_unique [OF al [OF u(1)], of x] that u(2) by (intro ram) (simp add: ARENA_SIZE_def PGSIZE_eq)
    then show "arena_magic ?s a' = arena_magic st a'" "arena_desc ?s a' = arena_desc st a'" "arena_free_cnt ?s a' = arena_free_cnt st a'"
      using header_cong [of a' ?s st] by simp_all
  qed
  have arena: "arena_ok {} ?s g' a i" if u: "use g' a = Some (Arena i)" for a i
  proof -
    have u': "use g a = Some (Arena i)" "a \<notin> Q" using u by (auto simp: g'_def split: if_splits)
    have "pg_round_down b = a" if "b \<in> blocks i a" for b using blocks_page [OF al that] u' by simp
    then have "blocks i a \<inter> set (fs i) = blocks i a \<inter> set (frees g i)" using fs [of i] u'(2) by auto
    then show ?thesis using V(6) [OF u'(1)] hc [of a] u' X by (auto simp: arena_ok_def g'_def)
  qed
  have big: "big_ok ?s g' a n" if u: "use g' p = Some (Big a n)" for p a n
  proof -
    have u': "use g p = Some (Big a n)" "p \<notin> Q" using u by (auto simp: g'_def split: if_splits)
    have ok: "big_ok st g a n" using V(7) [OF u'(1)] .
    have a: "use g a = Some (Big a n)" "a \<notin> Q" using big_start [OF ok] bigs [OF u'(1)] u'(2) by simp_all
    have "use g' q = Some (Big a n) \<longleftrightarrow> use g q = Some (Big a n)" for q using bigs [of q a n] a(2) by (auto simp: g'_def)
    then show ?thesis using ok hc [of a] a by (simp add: big_ok_def)
  qed
  have free: "use g' (pg_round_down b) = Some (Arena j) \<and> b \<in> blocks j (pg_round_down b)" if "j < 7" "b \<in> set (frees g' j)" for j b
    using that V(5) [OF that(1), of b] fs [of j] by (auto simp: g'_def)
  have dk: "descs_ok ?s" "desc_list ?s = desc_list st" using V(3) st(3) by (simp_all add: descs_ok_def desc_list_def fun_eq_iff)
  have "dom (use g') \<subseteq> kpages P" using V(2) st(2) by (auto simp: g'_def split: if_splits)
  then show "heap_inv {} ?s g'" unfolding heap_inv_def using arena big free dk d st(1) by (simp add: g'_def)
  show "live g' b = (if pg_round_down b \<in> Q then None else live g b)" for b
  proof (cases "pg_round_down b \<in> Q")
    case False
    then have "live g' b = live g b" by (intro live_cong) (simp_all add: g'_def fs)
    then show ?thesis using False by simp
  qed (simp add: live_def g'_def)
qed

lemma drop_blocks:
  assumes I: "heap_inv X st g" and u: "use g a = Some (Arena i)" and all: "blocks i a \<subseteq> set (frees g i)"
  shows "\<exists>h. mfold (drop_block a) [0..<bpa i] st = Some (st\<lparr>links := h\<rparr>) \<and> dll h (desc_list st i) (filter (\<lambda>b. b \<notin> blocks i a) (frees g i))
    \<and> same_outside (nodes (desc_list st i) (frees g i)) (links st) h"
proof -
  note V = heap_invD [OF I]
  let ?L = "desc_list st i" and ?f = "\<lambda>ys. filter (\<lambda>b. b \<notin> block_at i a ` set ys) (frees g i)"
  have ok: "arena_ok X st g a i" using V(6) [OF u] .
  then have i: "i < 7" by (simp add: arena_ok_def)
  have a0: "a \<noteq> 0" using use_page(3) [OF I] u by simp
  have dist: "distinct (frees g i)" using dll_distinct [OF V(4) [OF i]] by simp
  define J where "J ys t \<longleftrightarrow> (\<exists>h. t = st\<lparr>links := h\<rparr> \<and> dll h ?L (?f ys) \<and> same_outside (nodes ?L (frees g i)) (links st) h)" for ys t
  have "\<exists>t. mfold (drop_block a) [0..<bpa i] st = Some t \<and> J [0..<bpa i] t"
  proof (rule mfold_invariant [where I = J])
    have "st = st\<lparr>links := links st\<rparr>" by simp
    moreover have "?f [] = frees g i" by simp
    ultimately show "J [] st" using V(4) [OF i] unfolding J_def by (metis same_outside_refl)
    fix ys k zs t assume k: "[0..<bpa i] = ys @ k # zs" and t: "J ys t"
    obtain h where h: "t = st\<lparr>links := h\<rparr>" "dll h ?L (?f ys)" "same_outside (nodes ?L (frees g i)) (links st) h" using t by (auto simp: J_def)
    have kb: "k < bpa i" using upt_split [OF k] by simp
    have nk: "k \<notin> set ys" using k by (metis distinct_upt distinct_append disjoint_iff list.set_intros(1))
    let ?b = "block_at i a k"
    have blk: "arena_to_block a k t = Some ?b" using arena_to_block_ok [of t i a k] V(3) i a0 ok kb h(1) by (simp add: arena_ok_def)
    have "?b \<in> set (frees g i)" using all kb by (auto simp: blocks_def)
    then have "?b \<in> set (?f ys)" using nk by (auto simp: block_inj)
    then obtain us vs where uv: "?f ys = us @ ?b # vs" by (meson split_list)
    have d: "dll h ?L (us @ ?b # vs)" using h(2) uv by simp
    obtain h' where h': "list_remove ?b h = Some (hd (vs @ [l_tail ?L]), h')" "dll h' ?L (us @ vs)" "same_outside (nodes ?L (us @ vs)) h h'"
      using dll_remove [OF d] by blast
    have "distinct (us @ ?b # vs)" using dist uv by (metis distinct_filter)
    then have "filter (\<lambda>x. x \<noteq> ?b) us = us" "filter (\<lambda>x. x \<noteq> ?b) vs = vs" by (auto simp: filter_id_conv)
    then have "us @ vs = filter (\<lambda>x. x \<noteq> ?b) (?f ys)" unfolding uv by simp
    also have "\<dots> = ?f (ys @ [k])" by (auto intro!: filter_cong)
    finally have e: "us @ vs = ?f (ys @ [k])" .
    have "set (us @ vs) \<subseteq> set (frees g i)" unfolding e by auto
    then have "same_outside (nodes ?L (frees g i)) (links st) h'"
      by (intro same_outside_mono [OF same_outside_trans [OF h(3) h'(3)]]) auto
    then have "J (ys @ [k]) (st\<lparr>links := h'\<rparr>)" using h'(2) e by (auto simp: J_def)
    then show "\<exists>t'. drop_block a k t = Some t' \<and> J (ys @ [k]) t'" using blk h(1) h'(1) by (simp add: drop_block_def)
  qed
  moreover have "block_at i a ` set [0..<bpa i] = blocks i a" by (simp add: blocks_def lessThan_atLeast0)
  ultimately show ?thesis by (simp add: J_def) blast
qed

text \<open>\<open>reclaimed\<close>: what freeing the block \<open>p\<close> of \<open>c\<close> bytes may change.\<close>

definition reclaimed :: "nat \<Rightarrow> nat \<Rightarrow> heap \<Rightarrow> ghost \<Rightarrow> heap \<Rightarrow> ghost \<Rightarrow> bool" where
  "reclaimed p c st g st' g' \<longleftrightarrow> live g' = (live g)(p := None)
     \<and> (\<forall>x. ram (pages st') x \<noteq> ram (pages st) x \<longrightarrow> use g (pg_round_down x) \<noteq> None \<and> (x \<in> headers g' \<or> use g' (pg_round_down x) = None \<or> x \<in> span p c))
     \<and> kpages (pages st') - dom (use g') = kpages (pages st) - dom (use g) \<and> dom (use g') \<subseteq> dom (use g)"

lemma free_big:
  assumes I: "heap_inv {} st g" and u: "use g a = Some (Big a n)"
  shows "\<exists>st' g'. free (a + ARENA_SIZE) st = Some st' \<and> heap_inv {} st' g' \<and> reclaimed (a + ARENA_SIZE) (PGSIZE * n - ARENA_SIZE) st g st' g'"
proof -
  note V = heap_invD [OF I]
  have ok: "big_ok st g a n" using V(7) [OF u] .
  have P: "PGSIZE dvd a" "a \<noteq> 0" using use_page(2,3) [OF I] u by simp_all
  have rd: "pg_round_down (a + ARENA_SIZE) = a" "pg_ofs (a + ARENA_SIZE) = ARENA_SIZE" using in_page [OF P(1), of ARENA_SIZE] by (simp_all add: ARENA_SIZE_def PGSIZE_eq)
  have ba: "block_to_arena (a + ARENA_SIZE) st = Some a" using ok P(2) rd by (simp add: block_to_arena_def big_ok_def)
  have run: "page_run a n \<subseteq> dom (use g)" using ok by (auto simp: big_ok_def)
  then have sub: "page_run a n \<subseteq> kpages (pages st)" using V(2) by blast
  have n: "0 < n" using ok by (simp add: big_ok_def)
  obtain Q where Q: "palloc_free_multiple a n (pages st) = Some Q" "palloc_ok Q" "kpages Q = kpages (pages st) - page_run a n" "kernel_range Q = kernel_range (pages st)"
      "\<And>x. x \<notin> span a (PGSIZE * n) \<Longrightarrow> ram Q x = ram (pages st) x" using free_kernel_pages [OF V(1) n sub] by metis
  have ram: "ram Q x = ram (pages st) x" if "pg_round_down x \<notin> page_run a n" for x using Q(5) span_run [OF P(1)] that by blast
  have fs: "set (frees g j) = {b \<in> set (frees g j). pg_round_down b \<notin> page_run a n}" if "j < 7" for j
    using V(5) [OF that] ok by (force simp: big_ok_def)
  let ?fs = "\<lambda>j. if j < 7 then frees g j else filter (\<lambda>b. pg_round_down b \<notin> page_run a n) (frees g j)"
  have fs': "set (?fs j) = {b \<in> set (frees g j). pg_round_down b \<notin> page_run a n}" for j using fs [of j] by (cases "j < 7") simp_all
  have bigs: "p \<in> page_run a n \<longleftrightarrow> b \<in> page_run a n" if up: "use g p = Some (Big b m)" for p b m
  proof -
    have q: "use g q = Some (Big a n) \<longleftrightarrow> q \<in> page_run a n" for q using ok by (simp add: big_ok_def)
    note ub = big_start [OF V(7) [OF up]]
    show ?thesis unfolding q [symmetric] up ub by simp
  qed
  let ?s = "st\<lparr>pages := Q, links := links st\<rparr>" and ?g = "\<lparr>use = (\<lambda>p. if p \<in> page_run a n then None else use g p), frees = ?fs\<rparr>"
  note D = heap_inv_drop [OF I run Q(2-4) ram _ fs' empty_subsetI bigs, of "links st"]
  have inv: "heap_inv {} ?s ?g" by (rule D(1)) (use V(4) in auto)
  have lv: "live ?g b = (if pg_round_down b \<in> page_run a n then None else live g b)" for b by (rule D(2)) (use V(4) in auto)
  have "free (a + ARENA_SIZE) st = Some ?s" using ba ok Q(1) by (simp add: free_def big_ok_def ARENA_SIZE_def)
  moreover have "live ?g = (live g)(a + ARENA_SIZE := None)"
  proof
    fix b
    show "live ?g b = ((live g)(a + ARENA_SIZE := None)) b"
    proof (cases "pg_round_down b \<in> page_run a n")
      case True
      then have "use g (pg_round_down b) = Some (Big a n)" using ok by (simp add: big_ok_def)
      then show ?thesis using lv [of b] True by (simp add: live_def)
    next
      case False
      moreover have "a \<in> page_run a n" using n by (force simp: page_run_def)
      ultimately show ?thesis using lv [of b] rd(1) by auto
    qed
  qed
  moreover have "use g (pg_round_down x) \<noteq> None \<and> use ?g (pg_round_down x) = None" if "ram (pages ?s) x \<noteq> ram (pages st) x" for x
    using that ram [of x] run by auto
  moreover have "dom (use ?g) = dom (use g) - page_run a n" by (auto split: if_splits)
  ultimately show ?thesis using inv Q(3) run by (intro exI [of _ ?s] exI [of _ ?g]) (auto simp: reclaimed_def)
qed

lemma fill_heap_simps [simp]:
  "links (fill_heap p c n st) = links st" "descs (fill_heap p c n st) = descs st" "kpages (pages (fill_heap p c n st)) = kpages (pages st)"
  "palloc_ok (pages (fill_heap p c n st)) = palloc_ok (pages st)" "kernel_range (pages (fill_heap p c n st)) = kernel_range (pages st)"
  "ram (pages (fill_heap p c n st)) x = (if x \<in> span p n then c else ram (pages st) x)"
  by (simp_all add: fill_heap_def kpages_def kernel_range_def span_def)

text \<open>Putting a block back on its free list.\<close>

lemma put_block:
  assumes I: "heap_inv {} st g" and u: "use g a = Some (Arena i)" and k: "k < bpa i" and p: "p = block_at i a k" "p \<notin> set (frees g i)"
  defines "n \<equiv> card (blocks i a \<inter> set (p # frees g i))" and "g' \<equiv> g\<lparr>frees := (frees g)(i := p # frees g i)\<rparr>"
  obtains h st' where "list_push_front (desc_list st i) p (links st) = Some h"
    "st' = set_free_cnt a (arena_free_cnt st a + 1) ((fill_heap p 0xcc (bsz i) st)\<lparr>links := h\<rparr>)" "arena_free_cnt (fill_heap p 0xcc (bsz i) st) a = arena_free_cnt st a"
    "unat (arena_free_cnt st' a) = n" "n \<le> bpa i" "heap_inv (if n < bpa i then {} else {a}) st' g'" "live g' = (live g)(p := None)"
    "\<And>x. ram (pages st') x \<noteq> ram (pages st) x \<Longrightarrow> x \<in> headers g \<or> x \<in> span p (bsz i)"
proof -
  note V = heap_invD [OF I]
  have ok: "arena_ok {} st g a i" using V(6) [OF u] .
  then have i: "i < 7" by (simp add: arena_ok_def)
  have A: "PGSIZE dvd a" "a \<noteq> 0" "span a PGSIZE \<subseteq> kernel_range (pages st)" using use_page(2,3,6) [OF I, of a] u by simp_all
  note B = block_facts [OF A(1) k, folded p(1)]
  have pb: "p \<in> blocks i a" using p k by (auto simp: blocks_def)
  have hdl: "{l_head (desc_list st j), l_tail (desc_list st j)} \<inter> kernel_range (pages st) = {}" if "j < 7" for j using V(3) that by (simp add: descs_ok_def)
  have pk: "p \<in> kernel_range (pages st)" using B(4) A(3) by blast
  have pj: "p \<notin> nodes (desc_list st j) (frees g j)" if j: "j < 7" for j
  proof -
    have "p \<notin> set (frees g j)" using V(5) [OF j, of p] B(1) u p(2) by auto
    then show ?thesis using hdl [OF j] pk by blast
  qed
  obtain h where h: "list_push_front (desc_list st i) p (links st) = Some h" "dll h (desc_list st i) (p # frees g i)"
      "same_outside (insert p (nodes (desc_list st i) (frees g i))) (links st) h"
    using dll_push_front [OF V(4) [OF i] pj [OF i] B(5)] by blast
  let ?f = "fill_heap p 0xcc (bsz i) st"
  let ?s = "?f\<lparr>links := h\<rparr>"
  let ?s' = "set_free_cnt a (arena_free_cnt st a + 1) ?s"
  have lp: "live g p = Some (bsz i)" using B(1) u pb p(2) by (simp add: live_def)
  have nh: "x \<notin> span p (bsz i)" if "x \<in> headers g" for x using live_no_header [OF I lp] that by blast
  have ha: "arena_magic ?f a = arena_magic st a" "arena_desc ?f a = arena_desc st a" "arena_free_cnt ?f a = arena_free_cnt st a"
    using header_cong [of a ?f st] nh in_headers [of g a i] u by auto
  have n: "n = Suc (card (blocks i a \<inter> set (frees g i)))"
    using pb p(2) card_blocks(2) [of i a] by (simp add: n_def Int_insert_right card_insert_disjoint)
  have le: "n \<le> bpa i" using card_mono [OF card_blocks(2) [of i a], of "blocks i a \<inter> set (p # frees g i)"] card_blocks(1) [of i a] by (simp add: n_def)
  have c: "unat (arena_free_cnt st a) = card (blocks i a \<inter> set (frees g i))" using ok by (simp add: arena_ok_def)
  then have "unat (arena_free_cnt st a) + 1 < 2 ^ LENGTH(32)" using n le bpa_small [of i] by simp
  then have c': "unat (arena_free_cnt st a + 1) = n" using c n unat_add_lem [of "arena_free_cnt st a" 1] by simp
  have al: "PGSIZE dvd a'" if "use g a' \<noteq> None" for a' using use_page(2) [OF I that] .
  have out: "ram (pages ?s') x = ram (pages st) x" if "x \<notin> span p (bsz i)" "x < a \<or> a + ARENA_SIZE \<le> x" for x
    using set_free_cnt_facts(9) [OF that(2)] that(1) by simp
  have inv: "heap_inv (if n < bpa i then {} else {a}) ?s' g'" unfolding g'_def
  proof (rule heap_inv_update [OF I i u])
    show "ram (pages ?s') x = ram (pages st) x" if u': "use g a' \<noteq> None" "a' \<noteq> a" "a' \<le> x" "x < a' + ARENA_SIZE" for a' x
    proof (rule out)
      show "x < a \<or> a + ARENA_SIZE \<le> x" using header_apart [OF al [OF u'(1)] A(1) u'(2-4)] by (auto simp: ARENA_SIZE_def PGSIZE_eq)
      have "pg_round_down x = a'" using round_down_unique [OF al [OF u'(1)], of x] u'(3,4) by (simp add: ARENA_SIZE_def PGSIZE_eq)
      moreover have "pg_round_down x = a" if "x \<in> span p (bsz i)"
        using B(3) that round_down_unique [OF A(1), of x] by fastforce
      ultimately show "x \<notin> span p (bsz i)" using u'(2) by blast
    qed
    show "same_outside (insert p (nodes (desc_list st i) (frees g i))) (links st) (links ?s')" using h(3) by simp
    show "insert p (nodes (desc_list st i) (frees g i)) \<inter> (\<Union>j\<in>{..<7} - {i}. nodes (desc_list st j) (frees g j)) = {}"
      using own_nodes_apart [OF I i] pj by blast
    show "use g (pg_round_down b) = Some (Arena i) \<and> b \<in> blocks i (pg_round_down b)" if "b \<in> set (p # frees g i)" for b
      using that V(5) [OF i, of b] B(1) u pb by auto
    show "blocks i a' \<inter> set (p # frees g i) = blocks i a' \<inter> set (frees g i)" if "use g a' = Some (Arena i)" "a' \<noteq> a" for a'
      using blocks_page [OF al, of a' p i] that B(1) by auto
    show "a \<notin> (if n < bpa i then {} else {a}) \<Longrightarrow> card (blocks i a \<inter> set (p # frees g i)) < bpa i" by (simp add: n_def split: if_splits)
  qed (use V(1) h(2) ha c' in \<open>simp_all add: n_def\<close>)
  have lv: "live g' b = ((live g)(p := None)) b" for b
  proof (cases "b = p")
    case True
    then show ?thesis using B(1) u by (simp add: live_def g'_def)
  next
    case False
    then have "b \<in> set (((frees g)(i := p # frees g i)) j) \<longleftrightarrow> b \<in> set (frees g j)" for j by (cases "j = i") simp_all
    then have "live g' b = live g b" by (intro live_cong) (simp_all add: g'_def)
    then show ?thesis using False by simp
  qed
  have fr: "x \<in> headers g \<or> x \<in> span p (bsz i)" if "ram (pages ?s') x \<noteq> ram (pages st) x" for x
    using out [of x] that in_headers [of g a i _ x] u by force
  show thesis by (rule that [OF h(1) refl ha(3) _ le inv _ fr]) (use c' lv in auto)
qed

lemma free_small:
  assumes I: "heap_inv {} st g" and u: "use g a = Some (Arena i)" and k: "k < bpa i" and p: "p = block_at i a k" "p \<notin> set (frees g i)"
  shows "\<exists>st' g'. free p st = Some st' \<and> heap_inv {} st' g' \<and> reclaimed p (bsz i) st g st' g'"
proof -
  note V = heap_invD [OF I]
  have ok: "arena_ok {} st g a i" using V(6) [OF u] .
  then have i: "i < 7" and dsc: "arena_desc st a = Some i" by (simp_all add: arena_ok_def)
  have A: "PGSIZE dvd a" "a \<noteq> 0" using use_page(2,3) [OF I, of a] u by simp_all
  note B = block_facts [OF A(1) k, folded p(1)]
  have pb: "p \<in> blocks i a" using p k by (auto simp: blocks_def)
  have D: "block_size (descs st ! i) = bsz i" "blocks_per_arena (descs st ! i) = bpa i" using V(3) i by (simp_all add: descs_ok_def)
  let ?n = "card (blocks i a \<inter> set (p # frees g i))" and ?g = "g\<lparr>frees := (frees g)(i := p # frees g i)\<rparr>"
  obtain h s where S: "list_push_front (desc_list st i) p (links st) = Some h"
      "s = set_free_cnt a (arena_free_cnt st a + 1) ((fill_heap p 0xcc (bsz i) st)\<lparr>links := h\<rparr>)" "arena_free_cnt (fill_heap p 0xcc (bsz i) st) a = arena_free_cnt st a"
      "unat (arena_free_cnt s a) = ?n" "?n \<le> bpa i" "heap_inv (if ?n < bpa i then {} else {a}) s ?g" "live ?g = (live g)(p := None)"
      "\<And>x. ram (pages s) x \<noteq> ram (pages st) x \<Longrightarrow> x \<in> headers g \<or> x \<in> span p (bsz i)"
    using put_block [OF I u k p] by metis
  have kp: "kpages (pages s) = kpages (pages st)" "desc_list s = desc_list st" using S(2) by (simp_all add: desc_list_def fun_eq_iff)
  have c1: "unat (arena_free_cnt st a + 1) = ?n" using S(4) unfolding S(2) by simp
  have run: "free p st = (if bpa i \<le> ?n then do { kassert (?n = bpa i); t \<leftarrow> mfold (drop_block a) [0..<bpa i] s; P \<leftarrow> palloc_free_page a (pages t); Some (t\<lparr>pages := P\<rparr>) } else Some s)"
    using block_to_arena_small(1) [OF I u pb] dsc D S(1,3,4) B(5) c1 by (simp add: free_def Let_def desc_list_def flip: S(2))
  have hp: "use g (pg_round_down x) \<noteq> None" if "x \<in> headers g" for x using header_page(1) [OF I that] by (auto simp: is_header_def)
  have lp: "live g p = Some (bsz i)" using B(1) u pb p(2) by (simp add: live_def)
  have hs: "headers ?g = headers g" by (simp add: headers_def is_header_def)
  have ch: "use g (pg_round_down x) \<noteq> None \<and> (x \<in> headers g \<or> x \<in> span p (bsz i))" if "ram (pages s) x \<noteq> ram (pages st) x" for x
    using S(8) [OF that] hp live_use(3) [OF I lp] by blast
  show ?thesis
  proof (cases "?n < bpa i")
    case True
    then have "free p st = Some s" "heap_inv {} s ?g" using run S(6) by simp_all
    moreover have "reclaimed p (bsz i) st g s ?g" using S(7) ch kp hs by (auto simp: reclaimed_def)
    ultimately show ?thesis by blast
  next
    case False
    have Ia: "heap_inv {a} s ?g" using S(6) False by simp
    have "blocks i a \<inter> set (p # frees g i) = blocks i a" using False S(5) card_blocks [of i a] by (intro card_subset_eq) auto
    then have all: "blocks i a \<subseteq> set (frees ?g i)" by auto
    have ua: "use ?g a = Some (Arena i)" using u by simp
    obtain h' where h': "mfold (drop_block a) [0..<bpa i] s = Some (s\<lparr>links := h'\<rparr>)" "dll h' (desc_list s i) (filter (\<lambda>b. b \<notin> blocks i a) (frees ?g i))"
        "same_outside (nodes (desc_list s i) (frees ?g i)) (links s) h'" using drop_blocks [OF Ia ua all] by blast
    have ak: "a \<in> kpages (pages s)" using use_page(1) [OF Ia] ua by simp
    obtain P where P: "palloc_free_page a (pages s) = Some P" "palloc_ok P" "kpages P = kpages (pages s) - {a}" "kernel_range P = kernel_range (pages s)"
        "ram P = (\<lambda>x. if x \<in> span a PGSIZE then 0xcc else ram (pages s) x)" by (rule free_kernel_page [OF heap_invD(1) [OF Ia] ak]) (rule that)
    have inpage: "pg_round_down b = a \<longleftrightarrow> b \<in> blocks i a" if "j < 7" "b \<in> set (frees ?g j)" "j = i" for b j
      using heap_invD(5) [OF Ia that(1,2)] blocks_page [OF A(1)] that(3) by auto
    have otherj: "pg_round_down b \<noteq> a" if "j < 7" "b \<in> set (frees ?g j)" "j \<noteq> i" for b j using heap_invD(5) [OF Ia that(1,2)] ua that(3) by auto
    let ?fs = "\<lambda>j. if j = i then filter (\<lambda>b. b \<notin> blocks i a) (frees ?g i) else if j < 7 then frees ?g j else filter (\<lambda>b. pg_round_down b \<notin> {a}) (frees ?g j)"
    have fs: "set (?fs j) = {b \<in> set (frees ?g j). pg_round_down b \<notin> {a}}" for j
      using inpage [of i] otherj [of j] i by (cases "j = i"; cases "j < 7") auto
    have dl: "dll h' (desc_list s j) (?fs j)" if "j < 7" for j
    proof -
      have "dll h' (desc_list s j) (((frees ?g)(i := filter (\<lambda>b. b \<notin> blocks i a) (frees ?g i))) j)"
        by (rule keep_lists [OF Ia i h'(2,3) own_nodes_apart [OF Ia i] that])
      then show ?thesis using that by (cases "j = i") simp_all
    qed
    have ram: "ram P x = ram (pages s) x" if "pg_round_down x \<notin> {a}" for x using that page_mem [OF A(1), of x] P(5) by simp
    have bigs: "q \<in> {a} \<longleftrightarrow> b \<in> {a}" if uq: "use ?g q = Some (Big b m)" for q b m
      using big_start [OF heap_invD(7) [OF Ia uq]] uq ua by auto
    let ?s = "s\<lparr>pages := P, links := h'\<rparr>" and ?g' = "\<lparr>use = (\<lambda>p. if p \<in> {a} then None else use ?g p), frees = ?fs\<rparr>"
    have Q: "{a} \<subseteq> dom (use ?g)" using ua by auto
    have D1: "heap_inv {} ?s ?g'" by (rule heap_inv_drop(1) [OF Ia Q P(2,3,4) ram dl fs subset_refl bigs])
    have D2: "live ?g' b = (if pg_round_down b \<in> {a} then None else live ?g b)" for b
      by (rule heap_inv_drop(2) [OF Ia Q P(2,3,4) ram dl fs subset_refl bigs])
    have "free p st = Some ?s" using run False S(5) h'(1) P(1) by simp
    moreover have "live ?g' = (live g)(p := None)"
    proof
      fix b
      show "live ?g' b = ((live g)(p := None)) b"
      proof (cases "pg_round_down b = a")
        case True
        then have "live ?g b = None" using ua all by (auto simp: live_def)
        then show ?thesis using D2 [of b] True S(7) by simp
      qed (use D2 [of b] S(7) in simp)
    qed
    moreover have "use g (pg_round_down x) \<noteq> None \<and> (x \<in> headers ?g' \<or> use ?g' (pg_round_down x) = None \<or> x \<in> span p (bsz i))" if "ram (pages ?s) x \<noteq> ram (pages st) x" for x
    proof (cases "pg_round_down x = a")
      case False
      then have "ram (pages s) x \<noteq> ram (pages st) x" using that ram [of x] by simp
      moreover have "x \<in> headers ?g'" if "x \<in> headers g" using header_page [OF I that] False in_headers [of ?g' "pg_round_down x" _ _ x]
        by (auto simp: is_header_def pg_round_down_def)
      ultimately show ?thesis using ch by blast
    qed (use u in simp)
    moreover have "dom (use ?g') = dom (use g) - {a}" by (auto split: if_splits)
    ultimately show ?thesis using D1 P(3) kp u by (intro exI [of _ ?s] exI [of _ ?g']) (auto simp: reclaimed_def)
  qed
qed

section \<open>The contract of the heap\<close>

text \<open>\<open>heap_ok F L st\<close>: the blocks in use are those of \<open>L\<close>, with their sizes, and the heap owns the allocated pages of the
  kernel pool except those of \<open>F\<close>.\<close>

definition heap_ok :: "nat set \<Rightarrow> (nat \<Rightarrow> nat option) \<Rightarrow> heap \<Rightarrow> bool" where
  "heap_ok F L st \<longleftrightarrow> (\<exists>g. heap_inv {} st g \<and> live g = L \<and> kpages (pages st) - dom (use g) = F)"

text \<open>The contents of the blocks of \<open>L\<close> are the same in both states.\<close>

definition same_blocks :: "(nat \<Rightarrow> nat option) \<Rightarrow> heap \<Rightarrow> heap \<Rightarrow> bool" where
  "same_blocks L st st' \<longleftrightarrow> (\<forall>b c. L b = Some c \<longrightarrow> (\<forall>x\<in>span b c. ram (pages st') x = ram (pages st) x))"

lemma same_blocksI: "(\<And>b c x. L b = Some c \<Longrightarrow> x \<in> span b c \<Longrightarrow> ram (pages st') x = ram (pages st) x) \<Longrightarrow> same_blocks L st st'"
  by (simp add: same_blocks_def)

lemma same_blocks_refl [simp]: "same_blocks L st st"
  by (simp add: same_blocks_def)

lemma same_blocks_trans: "same_blocks L st st' \<Longrightarrow> same_blocks L st' st'' \<Longrightarrow> same_blocks L st st''"
  by (simp add: same_blocks_def)

lemma heap_ok_apart: "heap_ok F L st \<Longrightarrow> L b = Some c \<Longrightarrow> L b' = Some c' \<Longrightarrow> b \<noteq> b' \<Longrightarrow> span b c \<inter> span b' c' = {}"
  unfolding heap_ok_def using live_apart by blast

lemma heap_ok_nonnull: "heap_ok F L st \<Longrightarrow> L b = Some c \<Longrightarrow> b \<noteq> 0"
  unfolding heap_ok_def by (metis ARENA_SIZE_def add_is_0 block_facts(5) live_cases zero_neq_numeral)

text \<open>When no block is in use, the heap owns no page: there is no leak.\<close>

lemma heap_ok_empty:
  assumes "heap_ok F (\<lambda>_. None) st"
  shows "kpages (pages st) = F"
proof -
  obtain g where g: "heap_inv {} st g" "live g = (\<lambda>_. None)" "kpages (pages st) - dom (use g) = F" using assms by (auto simp: heap_ok_def)
  have "use g a = None" for a
  proof (cases "use g a")
    case (Some u)
    show ?thesis
    proof (cases u)
      case (Arena i)
      then have u: "use g a = Some (Arena i)" using Some by simp
      then have "card (blocks i a \<inter> set (frees g i)) < card (blocks i a)" using heap_invD(6) [OF g(1)] by (simp add: arena_ok_def card_blocks)
      then obtain b where b: "b \<in> blocks i a" "b \<notin> set (frees g i)" by (metis inf.absorb1 less_irrefl subsetI)
      then have "live g b \<noteq> None" using u blocks_page [OF use_page(2) [OF g(1)], of a b i] by (simp add: live_def)
      then show ?thesis using g(2) by simp
    next
      case (Big b n)
      then have u: "use g b = Some (Big b n)" using Some heap_invD(7) [OF g(1)] big_start by blast
      then have "pg_round_down (b + ARENA_SIZE) = b" using in_page(1) [OF use_page(2) [OF g(1)], of b ARENA_SIZE] by (simp add: ARENA_SIZE_def PGSIZE_eq)
      then have "live g (b + ARENA_SIZE) \<noteq> None" using u by (simp add: live_def)
      then show ?thesis using g(2) by simp
    qed
  qed simp
  then have "dom (use g) = {}" by auto
  then show ?thesis using g(3) by simp
qed

text \<open>Writing to a block in use.\<close>

definition poke :: "mem \<Rightarrow> heap \<Rightarrow> heap" where
  "poke m st = st\<lparr>pages := (pages st)\<lparr>ram := m\<rparr>\<rparr>"

lemma poke_simps [simp]:
  "ram (pages (poke m st)) = m" "kpages (pages (poke m st)) = kpages (pages st)" "kernel_range (pages (poke m st)) = kernel_range (pages st)"
  "palloc_ok (pages (poke m st)) = palloc_ok (pages st)" "links (poke m st) = links st" "descs (poke m st) = descs st"
  by (simp_all add: poke_def kpages_def kernel_range_def palloc_ok_def)

lemma fill_poke: "fill_heap p c n st = poke (\<lambda>x. if x \<in> span p n then c else ram (pages st) x) st"
  by (simp add: fill_heap_def fill_ram_def poke_def span_def)

lemma header_poke:
  assumes I: "heap_inv X st g" and l: "live g p = Some c" and m: "\<And>x. x \<notin> span p c \<Longrightarrow> m x = ram (pages st) x"
    and u: "use g a = Some (Arena i) \<or> use g a = Some (Big a n)"
  shows "arena_magic (poke m st) a = arena_magic st a" "arena_desc (poke m st) a = arena_desc st a" "arena_free_cnt (poke m st) a = arena_free_cnt st a"
proof -
  have "ram (pages (poke m st)) x = ram (pages st) x" if "a \<le> x" "x < a + ARENA_SIZE" for x
    using live_no_header [OF I l] in_headers [OF u that] m [of x] by auto
  from header_cong [OF this] show "arena_magic (poke m st) a = arena_magic st a" "arena_desc (poke m st) a = arena_desc st a"
    "arena_free_cnt (poke m st) a = arena_free_cnt st a" by blast+
qed

lemma heap_inv_poke:
  assumes I: "heap_inv X st g" and l: "live g p = Some c" and m: "\<And>x. x \<notin> span p c \<Longrightarrow> m x = ram (pages st) x"
  shows "heap_inv X (poke m st) g"
proof -
  note V = heap_invD [OF I] and H = header_poke [OF I l m]
  have d: "desc_list (poke m st) = desc_list st" by (simp add: desc_list_def fun_eq_iff)
  have "arena_ok X (poke m st) g a i" if "use g a = Some (Arena i)" for a i using V(6) [OF that] H [of a i 0] that by (simp add: arena_ok_def)
  moreover have "big_ok (poke m st) g a n" if "use g p = Some (Big a n)" for p a n
  proof -
    have ok: "big_ok st g a n" using V(7) [OF that] .
    then show ?thesis using H [of a 0 n] big_start by (simp add: big_ok_def)
  qed
  ultimately show ?thesis using V(1-5) by (simp add: heap_inv_def d descs_ok_def)
qed

lemma heap_ok_poke: "heap_ok F L st \<Longrightarrow> L p = Some c \<Longrightarrow> (\<And>x. x \<notin> span p c \<Longrightarrow> m x = ram (pages st) x) \<Longrightarrow> heap_ok F L (poke m st)"
  unfolding heap_ok_def using heap_inv_poke by (metis poke_simps(2))

text \<open>The contracts of \<open>malloc\<close> and \<open>free\<close> in terms of the blocks in use.\<close>

lemma malloc_spec:
  assumes st: "heap_ok F L st" and sz: "0 < sz" "sz < 2 ^ 32 - 2 ^ 13"
  obtains (full) "malloc sz st = Some (0, st)"
  | (got) p c st' where "malloc sz st = Some (p, st')" "p \<noteq> 0" "sz \<le> c" "L p = None" "heap_ok F (L(p \<mapsto> c)) st'" "same_blocks L st st'"
proof -
  obtain g where g: "heap_inv {} st g" "live g = L" "kpages (pages st) - dom (use g) = F" using st by (auto simp: heap_ok_def)
  from g(1) sz show thesis
  proof (cases rule: malloc_ok)
    case (got p c st' g')
    have "same_blocks L st st'"
    proof (rule same_blocksI)
      fix b d x
      assume "L b = Some d" "x \<in> span b d"
      moreover have "live g' b = Some d" using got(5,6) g(2) \<open>L b = Some d\<close> by auto
      ultimately show "ram (pages st') x = ram (pages st) x" using live_no_header [OF got(4)] got(7) by (simp add: stable_def)
    qed
    moreover have "heap_ok F (L(p \<mapsto> c)) st'" using got g by (auto simp: heap_ok_def stable_def)
    ultimately show thesis using got g(2) that(2) by blast
  qed (rule that(1))
qed

lemma free_spec:
  assumes st: "heap_ok F L st" and p: "L p = Some c"
  obtains st' where "free p st = Some st'" "heap_ok F (L(p := None)) st'" "same_blocks (L(p := None)) st st'"
proof -
  obtain g where g: "heap_inv {} st g" "live g = L" "kpages (pages st) - dom (use g) = F" using st by (auto simp: heap_ok_def)
  have l: "live g p = Some c" using g(2) p by simp
  with g(1) have "\<exists>st' g'. free p st = Some st' \<and> heap_inv {} st' g' \<and> reclaimed p c st g st' g'"
  proof (cases rule: live_cases)
    case (small a i k)
    then show ?thesis using free_small [OF g(1) small(1-4)] by blast
  next
    case (big a n)
    then show ?thesis using free_big [OF g(1) big(1)] by blast
  qed
  then obtain st' g' where f: "free p st = Some st'" "heap_inv {} st' g'" "reclaimed p c st g st' g'" by blast
  have lv: "live g' = L(p := None)" using f(3) g(2) by (simp add: reclaimed_def)
  have "same_blocks (L(p := None)) st st'"
  proof (rule same_blocksI)
    fix b d x
    assume b: "(L(p := None)) b = Some d" and x: "x \<in> span b d"
    then have b': "live g' b = Some d" "live g b = Some d" "b \<noteq> p" using lv g(2) by (auto split: if_splits)
    have "x \<notin> headers g'" "x \<notin> span p c" "use g' (pg_round_down x) \<noteq> None"
      using live_no_header [OF f(2) b'(1) x] live_apart [OF g(1) b'(2) l b'(3)] live_use(3) [OF f(2) b'(1) x] x by auto
    then show "ram (pages st') x = ram (pages st) x" using f(3) by (auto simp: reclaimed_def)
  qed
  moreover have "heap_ok F (L(p := None)) st'" using f(2,3) lv g(3) by (auto simp: heap_ok_def reclaimed_def)
  ultimately show thesis using f(1) that by blast
qed

section \<open>Initialisation\<close>

definition places_ok :: "nat set \<Rightarrow> (nat \<Rightarrow> klist) \<Rightarrow> bool" where
  "places_ok R places \<longleftrightarrow>
     (\<forall>i<7. l_head (places i) \<noteq> 0 \<and> l_tail (places i) \<noteq> 0 \<and> l_head (places i) \<noteq> l_tail (places i) \<and> {l_head (places i), l_tail (places i)} \<inter> R = {})
     \<and> (\<forall>i<7. \<forall>j<7. i \<noteq> j \<longrightarrow> {l_head (places i), l_tail (places i)} \<inter> {l_head (places j), l_tail (places j)} = {})"

lemma list_init_same: "same_outside {l_head L, l_tail L} h (list_init L h)"
  by (auto simp: list_init_def same_outside_def)

lemma init_lists:
  assumes P: "places_ok R places"
  shows "n \<le> 7 \<Longrightarrow> i < n \<Longrightarrow> dll (fold (\<lambda>j. list_init (places j)) [0..<n] h) (places i) []"
proof (induction n)
  case (Suc n)
  let ?h = "fold (\<lambda>j. list_init (places j)) [0..<n] h"
  have "dll (list_init (places n) ?h) (places i) []"
  proof (cases "i = n")
    case True
    have "n < 7" using Suc.prems by simp
    then show ?thesis unfolding True using P by (intro list_init_dll) (simp_all add: places_ok_def)
  next
    case False
    then have "dll ?h (places i) []" "{l_head (places n), l_tail (places n)} \<inter> set [l_head (places i), l_tail (places i)] = {}"
      using Suc P unfolding places_ok_def by auto
    then show ?thesis using same_outside_ring [OF list_init_same] by (simp add: dll_def)
  qed
  then show ?case by simp
qed simp

definition first_descs :: "(nat \<Rightarrow> klist) \<Rightarrow> nat \<Rightarrow> desc list" where
  "first_descs places n = map (\<lambda>i. \<lparr>block_size = bsz i, blocks_per_arena = bpa i, free_list = places i\<rparr>) [0..<n]"

lemma malloc_init_loop_run:
  "n \<le> 7 \<Longrightarrow> malloc_init_loop places (bsz n) (st\<lparr>descs := first_descs places n, links := fold (\<lambda>j. list_init (places j)) [0..<n] h\<rparr>)
     = Some (st\<lparr>descs := first_descs places 7, links := fold (\<lambda>j. list_init (places j)) [0..<7] h\<rparr>)"
proof (induction "7 - n" arbitrary: n)
  case 0
  then have "n = 7" by simp
  then show ?case by (subst malloc_init_loop.simps) (simp add: bsz_def PGSIZE_eq)
next
  case (Suc k)
  then have n: "n \<le> 6" "k = 7 - Suc n" by simp_all
  have "bsz n \<le> 16 * 2 ^ 6" unfolding bsz_def using n by (intro mult_left_mono power_increasing) simp_all
  moreover have "first_descs places (Suc n) = first_descs places n @ [\<lparr>block_size = bsz n, blocks_per_arena = bpa n, free_list = places n\<rparr>]"
    "length (first_descs places n) = n" "bsz n * 2 = bsz (Suc n)" by (simp_all add: first_descs_def bsz_def)
  ultimately show ?case using Suc(1) [OF n(2)] n(1) bsz_ge [of n] by (subst malloc_init_loop.simps) (simp add: Let_def PGSIZE_eq bpa_def)
qed

lemma malloc_init_spec:
  assumes p: "palloc_ok (pages st)" and P: "places_ok (kernel_range (pages st)) places"
  obtains st' where "malloc_init places st = Some st'" "heap_ok (kpages (pages st)) (\<lambda>_. None) st'" "pages st' = pages st"
proof -
  let ?s = "st\<lparr>descs := first_descs places 7, links := fold (\<lambda>j. list_init (places j)) [0..<7] (links st)\<rparr>"
  have "malloc_init places st = Some ?s"
    using malloc_init_loop_run [where n = 0 and places = places and st = st and h = "links st"] by (simp add: malloc_init_def first_descs_def bsz_def)
  moreover have "heap_inv {} ?s \<lparr>use = (\<lambda>_. None), frees = (\<lambda>_. [])\<rparr>"
  proof -
    have f: "first_descs places 7 ! i = \<lparr>block_size = bsz i, blocks_per_arena = bpa i, free_list = places i\<rparr>" "length (first_descs places 7) = 7" if "i < 7" for i
      using that by (simp_all add: first_descs_def del: upt_Suc)
    then show ?thesis using p P init_lists [OF P] by (simp add: heap_inv_def descs_ok_def desc_list_def places_ok_def f(2) [of 0] del: upt_Suc)
  qed
  moreover have "live \<lparr>use = (\<lambda>_. None), frees = (\<lambda>_. [])\<rparr> = (\<lambda>_. None)" by (simp add: live_def fun_eq_iff)
  ultimately have "heap_ok (kpages (pages st)) (\<lambda>_. None) ?s" unfolding heap_ok_def by (intro exI [of _ "\<lparr>use = (\<lambda>_. None), frees = (\<lambda>_. [])\<rparr>"]) simp
  then show thesis using that \<open>malloc_init places st = Some ?s\<close> by simp
qed

section \<open>Sizes of blocks in use\<close>

lemma usable_size_live:
  assumes st: "heap_ok F L st" and p: "L p = Some c"
  shows "usable_size p st = Some c"
proof -
  obtain g where g: "heap_inv {} st g" "live g p = Some c" using st p by (auto simp: heap_ok_def)
  then show ?thesis
  proof (cases rule: live_cases)
    case (small a i k)
    then have "p \<in> blocks i a" by (auto simp: blocks_def)
    then have "block_to_arena p st = Some a" using block_to_arena_small(1) [OF g(1) small(1)] by simp
    then show ?thesis using small(5,7) heap_invD(3) [OF g(1)] by (simp add: usable_size_def arena_ok_def descs_ok_def)
  next
    case (big a n)
    have rd: "pg_round_down p = a" "pg_ofs p = ARENA_SIZE" using in_page [OF big(6), of ARENA_SIZE] big(2) by (simp_all add: ARENA_SIZE_def PGSIZE_eq)
    have "a \<noteq> 0" using use_page(3) [OF g(1)] big(1) by simp
    then have ba: "block_to_arena p st = Some a" using rd big(5) by (simp add: block_to_arena_def big_ok_def)
    have n: "0 < n" "n < 2 ^ 20" and hd: "arena_desc st a = None" "unat (arena_free_cnt st a) = n" using big(5) by (simp_all add: big_ok_def)
    then have "PGSIZE * n + 2 ^ 32 - ARENA_SIZE = PGSIZE * n - ARENA_SIZE + 2 ^ 32" by (simp add: PGSIZE_eq ARENA_SIZE_def)
    moreover have "PGSIZE * n - ARENA_SIZE < 2 ^ 32" using n by (simp add: PGSIZE_eq ARENA_SIZE_def)
    ultimately have "u32 (PGSIZE * n + 2 ^ 32 - ARENA_SIZE) = PGSIZE * n - ARENA_SIZE" by (metis mod_add_self2 mod_less u32_def)
    then show ?thesis by (simp add: usable_size_def ba hd rd(2) big(3))
  qed
qed

section \<open>What the heap guarantees\<close>

text \<open>A heap of four megabytes, as \<open>palloc_init\<close> and \<open>malloc_init\<close> leave it.\<close>

definition demo_places :: "nat \<Rightarrow> klist" where
  "demo_places i = \<lparr>l_head = 8 * i + 8, l_tail = 8 * i + 12\<rparr>"

lemma demo_heap:
  obtains F st where "heap_ok F (\<lambda>_. None) st" "bm_used (used_map (kernel_pool (pages st))) = {}" "382 \<le> bit_cnt (used_map (kernel_pool (pages st)))"
proof -
  obtain P fr where P: "palloc_init 1024 1000 (\<lambda>_. 0) (\<lambda>_. 0) (\<lambda>_. 0) = Some (P, fr)" "palloc_ok P" "bm_used (used_map (kernel_pool P)) = {}"
      "384 \<le> bit_cnt (used_map (kernel_pool P)) + 2"
    using palloc_init_ok [of 1024 1000 "\<lambda>_. 0" "\<lambda>_. 0" "\<lambda>_. 0"] by auto
  let ?s = "\<lparr>pages = P, links = \<lparr>prev_of = (\<lambda>_. 0), next_of = (\<lambda>_. 0)\<rparr>, descs = []\<rparr>"
  have "PHYS_BASE \<le> pool_base (kernel_pool P)" using P(2) by (simp add: palloc_ok_def pool_ok_def)
  then have "places_ok (kernel_range P) demo_places" by (auto simp: places_ok_def demo_places_def kernel_range_def PHYS_BASE_def)
  then obtain st where "heap_ok (kpages P) (\<lambda>_. None) st" "pages st = P"
    using malloc_init_spec [of ?s demo_places] P(2) by auto
  then show thesis using that P by simp
qed

lemma demo_block:
  obtains F st p st' c where "heap_ok F (\<lambda>_. None) st" "malloc 2000 st = Some (p, st')" "p \<noteq> 0" "heap_ok F [p \<mapsto> c] st'" "2000 \<le> c"
proof -
  obtain F st where st: "heap_ok F (\<lambda>_. None) st" "bm_used (used_map (kernel_pool (pages st))) = {}" "382 \<le> bit_cnt (used_map (kernel_pool (pages st)))"
    by (rule demo_heap)
  then obtain g where g: "heap_inv {} st g" by (auto simp: heap_ok_def)
  have heapok: "length (descs st) = 7" using heap_invD(3) [OF g] by (simp add: descs_ok_def)
  have small: "block_size d < 2000" if d: "d \<in> set (descs st)" for d
  proof -
    obtain i where i: "i < 7" "d = descs st ! i" using d heapok unfolding in_set_conv_nth by metis
    have "bsz i \<le> 16 * 2 ^ 6" unfolding bsz_def using i by (intro mult_left_mono power_increasing) simp_all
    then show ?thesis using heap_invD(3) [OF g] i by (simp add: descs_ok_def)
  qed
  have "(\<forall>d\<in>set ds. block_size d < n) \<Longrightarrow> find_desc ds n = length ds" for ds n by (induction ds) auto
  then have fd: "find_desc (descs st) 2000 = length (descs st)" using small by blast
  have "\<exists>i. i + 1 \<le> bit_cnt (used_map (pool_of {} (pages st))) \<and> {i..<i + 1} \<inter> bm_used (used_map (pool_of {} (pages st))) = {}"
    using st(2,3) by (intro exI [of _ 0]) (simp add: pool_of_def)
  from palloc_get_multiple_ok [OF heap_invD(1) [OF g] _ _ this]
  obtain i P where P: "palloc_get_multiple {} 1 (pages st) = Some (page_at (pool_of {} (pages st)) i, P)" "i + 1 \<le> bit_cnt (used_map (pool_of {} (pages st)))" by auto
  have il: "i < bit_cnt (used_map (pool_of {} (pages st)))" using P(2) by simp
  have nz: "page_at (pool_of {} (pages st)) i \<noteq> 0" using page_at_facts(2) [OF palloc_ok_pool [OF heap_invD(1) [OF g]] il] by simp
  have one: "DIV_ROUND_UP (u32 (2000 + ARENA_SIZE)) PGSIZE = 1" by (simp add: DIV_ROUND_UP_def u32_def ARENA_SIZE_def PGSIZE_eq)
  obtain q s where m: "malloc 2000 st = Some (q, s)" "q \<noteq> 0" using fd P(1) nz one by (simp add: malloc_def Let_def ARENA_SIZE_def)
  have "0 < (2000 :: nat)" "(2000 :: nat) < 2 ^ 32 - 2 ^ 13" by simp_all
  with st(1) show thesis
  proof (cases rule: malloc_spec)
    case (got p c st')
    then show ?thesis using that st(1) by simp
  qed (use m in simp)
qed

text \<open>(C34) \<open>malloc\<close> either fails, and then changes nothing, or returns a block that is large enough and overlaps no block
  in use; the contents of all blocks in use stay the same, and the heap takes no page that someone else owns.\<close>

theorem malloc_fresh:
  assumes st: "heap_ok F L st" and sz: "0 < sz" "sz < 2 ^ 32 - 2 ^ 13"
  shows "\<exists>p st'. malloc sz st = Some (p, st') \<and> (if p = 0 then st' = st
    else \<exists>c\<ge>sz. L p = None \<and> heap_ok F (L(p \<mapsto> c)) st' \<and> same_blocks L st st' \<and> (\<forall>b d. L b = Some d \<longrightarrow> span b d \<inter> span p c = {}))"
  using assms
proof (cases rule: malloc_spec)
  case (got p c st')
  have "span b d \<inter> span p c = {}" if "L b = Some d" for b d using heap_ok_apart [OF got(5), of b d p c] that got(4) by (cases "b = p") simp_all
  then show ?thesis using got by (intro exI [of _ p] exI [of _ st']) auto
qed simp

theorem malloc_fresh_witness:
  "\<exists>F st p st' c. heap_ok F (\<lambda>_. None) st \<and> malloc 2000 st = Some (p, st') \<and> p \<noteq> 0 \<and> 2000 \<le> c \<and> heap_ok F [p \<mapsto> c] st'"
proof -
  obtain F st p st' c where D: "heap_ok F (\<lambda>_. None) st" "malloc 2000 st = Some (p, st')" "p \<noteq> 0" by (rule demo_block)
  from malloc_fresh [OF D(1), of 2000] D(2,3) have "\<exists>c\<ge>2000. heap_ok F [p \<mapsto> c] st'" by auto
  then show ?thesis using D by blast
qed

text \<open>(C35) \<open>free\<close> of a block in use passes every assertion, takes exactly this block out of use and keeps the contents of
  all others; once no block is in use, every page of the heap is back in the page allocator: there is no leak.\<close>

theorem free_reclaims:
  assumes st: "heap_ok F L st" and p: "L p = Some c"
  shows "\<exists>st'. free p st = Some st' \<and> heap_ok F (L(p := None)) st' \<and> same_blocks (L(p := None)) st st' \<and> (dom L = {p} \<longrightarrow> kpages (pages st') = F)"
  using assms
proof (rule free_spec)
  fix st'
  assume f: "free p st = Some st'" "heap_ok F (L(p := None)) st'" "same_blocks (L(p := None)) st st'"
  have "kpages (pages st') = F" if "dom L = {p}"
  proof -
    have "L(p := None) = (\<lambda>_. None)" using that by (auto simp: fun_eq_iff dom_def)
    then show ?thesis using heap_ok_empty f(2) by simp
  qed
  then show ?thesis using f by blast
qed

theorem free_reclaims_witness:
  "\<exists>st p st' st''. malloc 2000 st = Some (p, st') \<and> p \<noteq> 0 \<and> free p st' = Some st'' \<and> kpages (pages st'') = kpages (pages st)"
proof -
  obtain F st p st' c where D: "heap_ok F (\<lambda>_. None) st" "malloc 2000 st = Some (p, st')" "p \<noteq> 0" "heap_ok F [p \<mapsto> c] st'" by (rule demo_block)
  have "[p \<mapsto> c] p = Some c" "dom [p \<mapsto> c] = {p}" by simp_all
  with free_reclaims [OF D(4), of p c] obtain st'' where "free p st' = Some st''" "kpages (pages st'') = F" by blast
  then show ?thesis using D heap_ok_empty [OF D(1)] by blast
qed

text \<open>\<open>calloc\<close>: the bytes of the block it returns are zero, provided the product does not exceed 32 bits.\<close>

theorem calloc_zeroed:
  assumes st: "heap_ok F L st" and sz: "0 < a * b" "a * b < 2 ^ 32 - 2 ^ 13"
  shows "\<exists>p st'. calloc a b st = Some (p, st') \<and> (if p = 0 then st' = st
    else \<exists>c\<ge>a * b. L p = None \<and> heap_ok F (L(p \<mapsto> c)) st' \<and> same_blocks L st st' \<and> (\<forall>i<a * b. ram (pages st') (p + i) = 0))"
proof -
  have u: "u32 (a * b) = a * b" using sz(2) by (simp add: u32_def)
  have "a \<le> a * b" "b \<le> a * b" "a \<noteq> 0" "b \<noteq> 0" using sz(1) by simp_all
  then have run: "calloc a b st = do { (p, st) \<leftarrow> malloc (a * b) st; Some (p, if p \<noteq> 0 then fill_heap p 0 (a * b) st else st) }"
    by (simp add: calloc_def u not_less Let_def)
  from st sz show ?thesis
  proof (cases rule: malloc_spec)
    case full
    then show ?thesis by (simp add: run)
  next
    case (got p c s)
    let ?s = "fill_heap p 0 (a * b) s"
    have sub: "span p (a * b) \<subseteq> span p c" using got(3) by (auto simp: span_def)
    have "heap_ok F (L(p \<mapsto> c)) ?s" unfolding fill_poke by (rule heap_ok_poke [OF got(5), of p c]) (use sub in auto)
    moreover have "same_blocks L s ?s"
    proof (rule same_blocksI)
      fix b' d x
      assume "L b' = Some d" "x \<in> span b' d"
      then have "x \<notin> span p c" using heap_ok_apart [OF got(5), of b' d p c] got(4) by (cases "b' = p") auto
      then show "ram (pages ?s) x = ram (pages s) x" using sub by auto
    qed
    ultimately show ?thesis using got same_blocks_trans [OF got(6)] by (simp add: run) (auto simp: span_def)
  qed
qed

theorem calloc_zeroed_witness:
  "\<exists>st p st'. malloc 2000 st \<noteq> None \<and> calloc 100 20 st = Some (p, st') \<and> p \<noteq> 0 \<and> ram (pages st') (p + 1999) = 0"
proof -
  obtain F st p st' c where D: "heap_ok F (\<lambda>_. None) st" "malloc 2000 st = Some (p, st')" "p \<noteq> 0" by (rule demo_block)
  have "calloc 100 20 st = Some (p, fill_heap p 0 2000 st')" using D(2,3) by (simp add: calloc_def u32_def Let_def)
  moreover obtain q s where q: "calloc 100 20 st = Some (q, s)" "q \<noteq> 0 \<longrightarrow> (\<forall>i<2000. ram (pages s) (q + i) = 0)"
    using calloc_zeroed [OF D(1), of 100 20] by (auto split: if_splits)
  ultimately have "q = p" "ram (pages s) (p + 1999) = 0" using D(3) by auto
  then show ?thesis using D(2,3) q(1) by blast
qed

text \<open>(C36) \<open>realloc\<close> of a block in use: on success the old block is freed and the new one starts with the old contents, up
  to the smaller of both sizes; on failure the old block is still in use and unchanged.\<close>

theorem realloc_keeps:
  assumes st: "heap_ok F L st" and q: "L q = Some d" and sz: "0 < sz" "sz < 2 ^ 32 - 2 ^ 13"
  shows "\<exists>p st'. realloc q sz st = Some (p, st') \<and> (if p = 0 then st' = st
    else \<exists>c\<ge>sz. p \<noteq> q \<and> heap_ok F (L(q := None, p \<mapsto> c)) st' \<and> same_blocks (L(q := None)) st st'
      \<and> (\<forall>i<min sz d. ram (pages st') (p + i) = ram (pages st) (q + i)))"
  using st sz
proof (cases rule: malloc_spec)
  case full
  then show ?thesis using sz by (simp add: realloc_def)
next
  case (got p c s)
  let ?L = "L(p \<mapsto> c)" and ?n = "min sz d"
  have pq: "p \<noteq> q" using got(4) q by auto
  have Lq: "?L q = Some d" using q pq by simp
  have nz: "q \<noteq> 0" "p \<noteq> 0" using heap_ok_nonnull [OF st q] got(2) by simp_all
  have us: "usable_size q s = Some d" by (rule usable_size_live [OF got(5) Lq])
  have ap: "span q d \<inter> span p c = {}" using heap_ok_apart [OF got(5) Lq, of p c] pq by simp
  have sub: "span p ?n \<subseteq> span p c" using got(3) by (auto simp: span_def)
  have "p \<le> q \<or> q + ?n \<le> p \<or> ?n = 0"
  proof (rule ccontr)
    assume "\<not> ?thesis"
    then have "p \<in> span q d \<inter> span p c" using got(3) sz(1) by (auto simp: span_def min_def split: if_splits)
    then show False using ap by blast
  qed
  moreover have "copy_unit 0 p q (ram (pages s)) = copy_up p q 0 (ram (pages s))" by (rule ext) (auto simp: copy_unit_def)
  ultimately have cp: "memcpy p q ?n (ram (pages s)) = Some (p, copy_unit ?n p q (ram (pages s)))"
    using nz by (auto simp: memcpy_def copy_up_eq)
  let ?m = "copy_unit ?n p q (ram (pages s))"
  have out: "?m x = ram (pages s) x" if "x \<notin> span p c" for x using that sub by (auto simp: copy_unit_def span_def)
  have ok: "heap_ok F ?L (poke ?m s)" by (rule heap_ok_poke [OF got(5) _ out, of p]) simp_all
  obtain st' where f: "free q (poke ?m s) = Some st'" "heap_ok F (?L(q := None)) st'" "same_blocks (?L(q := None)) (poke ?m s) st'"
    by (rule free_spec [OF ok Lq])
  have mn: "(if sz < d then sz else d) = ?n" by simp
  have run: "realloc q sz st = Some (p, st')" using got(1) sz nz us cp f(1) by (simp add: realloc_def poke_def mn)
  have keep: "ram (pages st') x = ?m x" if "(?L(q := None)) b = Some e" "x \<in> span b e" for b e x
    using f(3) that by (simp add: same_blocks_def)
  have "same_blocks (L(q := None)) st st'"
  proof (rule same_blocksI)
    fix b e x
    assume b: "(L(q := None)) b = Some e" and x: "x \<in> span b e"
    then have b': "L b = Some e" "b \<noteq> q" "b \<noteq> p" using got(4) by (auto split: if_splits)
    have "x \<notin> span p c" using heap_ok_apart [OF got(5), of b e p c] b' x by auto
    then show "ram (pages st') x = ram (pages st) x" using keep [of b e x] out b' x got(6) by (simp add: same_blocks_def)
  qed
  moreover have "ram (pages st') (p + i) = ram (pages st) (q + i)" if i: "i < ?n" for i
  proof -
    have "p + i \<in> span p c" "q + i \<in> span q d" using i got(3) by (auto simp: span_def)
    then show ?thesis using keep [of p c "p + i"] pq q got(6) i by (simp add: same_blocks_def copy_unit_def)
  qed
  moreover have "?L(q := None) = L(q := None, p \<mapsto> c)" using pq by (auto simp: fun_eq_iff)
  ultimately show ?thesis using run nz(2) got(3) f(2) pq by auto
qed

theorem realloc_keeps_witness:
  "\<exists>st q p st'. q \<noteq> 0 \<and> realloc q 3000 st = Some (p, st') \<and> (p \<noteq> 0 \<longrightarrow> (\<forall>i<2000. ram (pages st') (p + i) = ram (pages st) (q + i)))"
proof -
  obtain F st q s c where D: "heap_ok F [q \<mapsto> c] s" "q \<noteq> 0" "2000 \<le> c" by (rule demo_block)
  have "[q \<mapsto> c] q = Some c" by simp
  from realloc_keeps [OF D(1) this, of 3000]
  obtain p st' where r: "realloc q 3000 s = Some (p, st')" "p \<noteq> 0 \<longrightarrow> (\<forall>i<min 3000 c. ram (pages st') (p + i) = ram (pages s) (q + i))" by (auto split: if_splits)
  then have "p \<noteq> 0 \<longrightarrow> (\<forall>i<2000. ram (pages st') (p + i) = ram (pages s) (q + i))" using D(3) by simp
  then show ?thesis using D(2) r(1) by blast
qed

end
