(* ===== verification/RwLock.thy ===== *)
theory RwLock
  imports Prelude
begin

text \<open>
  \<open>threads/gio_synch.c\<close>: the readers-writer lock of the buffer cache, the inodes and the
  directories.

  Every function of the file runs with interrupts off, so each of them is one atomic step up
  to the point where the thread blocks. A blocking function is therefore its first attempt
  (\<open>r_lock_acquire\<close>, \<open>w_lock_acquire\<close>, \<open>r_lock_upgrade_to_w\<close>), which acquires the lock or
  queues the thread, and the further attempts the thread makes each time it is woken. The
  second part puts any number of threads together into a state machine.
\<close>

section \<open>The lock of the source\<close>

record rw_lock =
  w_holder :: "nat option"
  level :: "16 word"
  waiters :: "nat list"

datatype attempt = Acquired rw_lock | Queued rw_lock

definition rw_lock_init :: rw_lock where
  "rw_lock_init = \<lparr>w_holder = None, level = 0, waiters = []\<rparr>"

definition r_try_lock_acquire :: "nat \<Rightarrow> rw_lock \<Rightarrow> (bool \<times> rw_lock) option" where
  "r_try_lock_acquire t l =
     do {
       kassert (w_holder l \<noteq> Some t);
       Some (if w_holder l \<noteq> None then (False, l) else (True, l\<lparr>level := level l + 1\<rparr>))
     }"

text \<open>The loop condition and the body of the two acquiring functions: \<open>r_attempt\<close> is one
  evaluation of \<open>for (...; l->w_holder; ...)\<close>, \<open>w_attempt\<close> one of
  \<open>for (...; l->w_holder || l->level; ...)\<close>, \<open>up\<close> telling an upgrade, which queues at the front.\<close>

definition r_attempt :: "nat \<Rightarrow> rw_lock \<Rightarrow> attempt" where
  "r_attempt t l =
     (if w_holder l \<noteq> None then Queued (l\<lparr>waiters := waiters l @ [t]\<rparr>)
      else Acquired (l\<lparr>level := level l + 1\<rparr>))"

definition w_attempt :: "bool \<Rightarrow> nat \<Rightarrow> rw_lock \<Rightarrow> attempt" where
  "w_attempt up t l =
     (if w_holder l \<noteq> None \<or> level l \<noteq> 0
      then Queued (l\<lparr>waiters := (if up then t # waiters l else waiters l @ [t])\<rparr>)
      else Acquired (l\<lparr>w_holder := Some t\<rparr>))"

definition r_lock_acquire :: "nat \<Rightarrow> rw_lock \<Rightarrow> attempt option" where
  "r_lock_acquire t l = do { kassert (w_holder l \<noteq> Some t); Some (r_attempt t l) }"

definition w_lock_acquire :: "nat \<Rightarrow> rw_lock \<Rightarrow> attempt option" where
  "w_lock_acquire t l = Some (w_attempt False t l)"

definition r_lock_upgrade_to_w :: "nat \<Rightarrow> rw_lock \<Rightarrow> attempt option" where
  "r_lock_upgrade_to_w t l =
     do { kassert (level l \<noteq> 0); Some (w_attempt True t (l\<lparr>level := level l - 1\<rparr>)) }"

definition w_try_lock_acquire :: "nat \<Rightarrow> rw_lock \<Rightarrow> bool \<times> rw_lock" where
  "w_try_lock_acquire t l =
     (if w_holder l \<noteq> None \<or> level l \<noteq> 0 then (False, l) else (True, l\<lparr>w_holder := Some t\<rparr>))"

text \<open>The releasing functions return the threads they unblock. \<open>ww t\<close> is \<open>t->waits_write\<close>.\<close>

definition r_lock_release :: "(nat \<Rightarrow> bool) \<Rightarrow> rw_lock \<Rightarrow> (nat list \<times> rw_lock) option" where
  "r_lock_release ww l =
     do {
       kassert (w_holder l = None);
       kassert (level l \<noteq> 0);
       let l = l\<lparr>level := level l - 1\<rparr>;
       if level l = 0 \<and> waiters l \<noteq> []
       then do {
         let t = hd (waiters l);
         kassert (ww t);
         Some ([t], l\<lparr>waiters := tl (waiters l)\<rparr>)
       }
       else Some ([], l)
     }"

fun wake_loop :: "(nat \<Rightarrow> bool) \<Rightarrow> bool \<Rightarrow> nat list \<Rightarrow> nat list \<times> nat list" where
  "wake_loop ww did_one [] = ([], [])"
| "wake_loop ww did_one (t # ts) =
     (if ww t then (if \<not> did_one then ([t], ts) else ([], t # ts))
      else (case wake_loop ww True ts of (woken, rest) \<Rightarrow> (t # woken, rest)))"

definition w_lock_release :: "nat \<Rightarrow> (nat \<Rightarrow> bool) \<Rightarrow> rw_lock \<Rightarrow> (nat list \<times> rw_lock) option" where
  "w_lock_release t ww l =
     do {
       kassert (w_holder l = Some t);
       let (woken, rest) = wake_loop ww False (waiters l);
       Some (woken, l\<lparr>w_holder := None, waiters := rest\<rparr>)
     }"

section \<open>Threads around one lock\<close>

text \<open>
  Where a thread stands: outside, reading, writing, blocked in the queue, or woken and about
  to try again. A queued or woken thread remembers the function it called and the counter \<open>i\<close>
  of its loop, which the source asserts to stay below 100.
\<close>

datatype call = CRead | CWrite | CUpgrade

datatype place = Out | Reading | Writing | Blocked call nat | Woken call nat

record rw_sys =
  rwl :: rw_lock
  places :: "nat \<Rightarrow> place"

text \<open>\<open>Try\<close> is a call of \<open>r_try_lock_acquire\<close> or \<open>w_try_lock_acquire\<close>.\<close>

datatype event = Enter call nat | Try call nat | Resume nat | Leave nat

definition waits_write :: "rw_sys \<Rightarrow> nat \<Rightarrow> bool" where
  "waits_write s t = (case places s t of Blocked c i \<Rightarrow> c \<noteq> CRead | _ \<Rightarrow> False)"

definition settle :: "call \<Rightarrow> nat \<Rightarrow> nat \<Rightarrow> attempt \<Rightarrow> rw_sys \<Rightarrow> rw_sys" where
  "settle c i t a s =
     (case a of
        Acquired l \<Rightarrow> s\<lparr>rwl := l, places := (places s)(t := if c = CRead then Reading else Writing)\<rparr>
      | Queued l \<Rightarrow> s\<lparr>rwl := l, places := (places s)(t := Blocked c i)\<rparr>)"

definition again :: "call \<Rightarrow> nat \<Rightarrow> rw_lock \<Rightarrow> attempt" where
  "again c t l = (case c of CRead \<Rightarrow> r_attempt t l | CWrite \<Rightarrow> w_attempt False t l | CUpgrade \<Rightarrow> w_attempt True t l)"

text \<open>A woken thread leaves the queue keeping its call and its counter.\<close>

definition wake :: "nat \<Rightarrow> (nat \<Rightarrow> place) \<Rightarrow> nat \<Rightarrow> place" where
  "wake t p = p(t := (case p t of Blocked c i \<Rightarrow> Woken c i | x \<Rightarrow> x))"

text \<open>One step of thread \<open>t\<close>; \<open>None\<close> is a failed assertion. \<open>Leave\<close> releases whichever side
  the thread holds.\<close>

fun rw_step :: "event \<Rightarrow> rw_sys \<Rightarrow> rw_sys option" where
  "rw_step (Enter CRead t) s =
     do { a \<leftarrow> r_lock_acquire t (rwl s); Some (settle CRead 0 t a s) }"
| "rw_step (Enter CWrite t) s =
     do { a \<leftarrow> w_lock_acquire t (rwl s); Some (settle CWrite 0 t a s) }"
| "rw_step (Enter CUpgrade t) s =
     do { a \<leftarrow> r_lock_upgrade_to_w t (rwl s); Some (settle CUpgrade 0 t a s) }"
| "rw_step (Try CRead t) s =
     do { (ok, l) \<leftarrow> r_try_lock_acquire t (rwl s); Some (if ok then settle CRead 0 t (Acquired l) s else s\<lparr>rwl := l\<rparr>) }"
| "rw_step (Try CWrite t) s =
     (case w_try_lock_acquire t (rwl s) of (ok, l) \<Rightarrow> Some (if ok then settle CWrite 0 t (Acquired l) s else s\<lparr>rwl := l\<rparr>))"
| "rw_step (Try CUpgrade t) s = None"
| "rw_step (Resume t) s =
     (case places s t of
        Woken c i \<Rightarrow> do { kassert (i < 100); Some (settle c (i + 1) t (again c t (rwl s)) s) }
      | _ \<Rightarrow> None)"
| "rw_step (Leave t) s =
     do {
       (woken, l) \<leftarrow> (if places s t = Writing then w_lock_release t (waits_write s) (rwl s)
                      else r_lock_release (waits_write s) (rwl s));
       Some (s\<lparr>rwl := l, places := fold wake woken ((places s)(t := Out))\<rparr>)
     }"

text \<open>What a thread may do where it stands.\<close>

fun enabled :: "nat \<Rightarrow> event \<Rightarrow> rw_sys \<Rightarrow> bool" where
  "enabled N (Enter CUpgrade t) s \<longleftrightarrow> t < N \<and> places s t = Reading"
| "enabled N (Enter c t) s \<longleftrightarrow> t < N \<and> places s t = Out"
| "enabled N (Try c t) s \<longleftrightarrow> t < N \<and> places s t = Out \<and> c \<noteq> CUpgrade"
| "enabled N (Resume t) s \<longleftrightarrow> t < N \<and> (case places s t of Woken c i \<Rightarrow> True | _ \<Rightarrow> False)"
| "enabled N (Leave t) s \<longleftrightarrow> t < N \<and> (places s t = Reading \<or> places s t = Writing)"

definition rw_start :: rw_sys where
  "rw_start = \<lparr>rwl = rw_lock_init, places = (\<lambda>_. Out)\<rparr>"

text \<open>The states \<open>N\<close> threads can reach without a failed assertion.\<close>

inductive rw_reach :: "nat \<Rightarrow> rw_sys \<Rightarrow> bool" for N where
  rw_init: "rw_reach N rw_start"
| rw_next: "rw_reach N s \<Longrightarrow> enabled N e s \<Longrightarrow> rw_step e s = Some s' \<Longrightarrow> rw_reach N s'"

section \<open>The invariant\<close>

definition readers :: "(nat \<Rightarrow> place) \<Rightarrow> nat set" where
  "readers p = {t. p t = Reading}"

lemma in_readers [simp]: "t \<in> readers p \<longleftrightarrow> p t = Reading"
  by (simp add: readers_def)

lemma readers_upd [simp]:
  "readers (p(t := x)) = (if x = Reading then insert t (readers p) else readers p - {t})"
  by (auto simp: readers_def)

definition is_blocked :: "place \<Rightarrow> bool" where
  "is_blocked x = (case x of Blocked c i \<Rightarrow> True | _ \<Rightarrow> False)"

lemma is_blocked_simps [simp]:
  "\<not> is_blocked Out" "\<not> is_blocked Reading" "\<not> is_blocked Writing" "is_blocked (Blocked c i)"
  "\<not> is_blocked (Woken c i)"
  by (simp_all add: is_blocked_def)

definition rw_inv :: "nat \<Rightarrow> rw_lock \<Rightarrow> (nat \<Rightarrow> place) \<Rightarrow> bool" where
  "rw_inv N l p \<longleftrightarrow>
     (\<forall>t. p t = Writing \<longleftrightarrow> w_holder l = Some t)
     \<and> readers p \<subseteq> {..<N} \<and> level l = of_nat (card (readers p))
     \<and> (w_holder l \<noteq> None \<longrightarrow> readers p = {})
     \<and> distinct (waiters l) \<and> (\<forall>t. t \<in> set (waiters l) \<longleftrightarrow> is_blocked (p t))"

lemma rw_invD:
  assumes "rw_inv N l p"
  shows "p t = Writing \<longleftrightarrow> w_holder l = Some t" "readers p \<subseteq> {..<N}" "finite (readers p)"
    "level l = of_nat (card (readers p))" "w_holder l \<noteq> None \<Longrightarrow> readers p = {}"
    "distinct (waiters l)" "t \<in> set (waiters l) \<longleftrightarrow> is_blocked (p t)"
  using assms finite_subset [of "readers p" "{..<N}"] unfolding rw_inv_def by auto

lemma rw_invI:
  assumes "\<And>t. p t = Writing \<longleftrightarrow> w_holder l = Some t" and "readers p \<subseteq> {..<N}"
    and "level l = of_nat (card (readers p))" and "w_holder l \<noteq> None \<Longrightarrow> readers p = {}"
    and "distinct (waiters l)" and "\<And>t. t \<in> set (waiters l) \<longleftrightarrow> is_blocked (p t)"
  shows "rw_inv N l p"
  using assms unfolding rw_inv_def by blast

lemma level_zero:
  assumes inv: "rw_inv N l p" and N: "N < 2 ^ 16"
  shows "level l = 0 \<longleftrightarrow> readers p = {}"
proof -
  have "card (readers p) < 2 ^ 16"
    using card_mono [OF _ rw_invD(2) [OF inv]] N by simp
  then have "level l = 0 \<longleftrightarrow> card (readers p) = 0"
    unfolding rw_invD(4) [OF inv] word_of_nat_eq_0_iff by (auto dest: dvd_imp_le)
  then show ?thesis using rw_invD(3) [OF inv] by simp
qed

text \<open>The moves of one thread: from woken to outside, in and out of each side, and into the
  queue.\<close>

lemma rw_inv_out:
  assumes inv: "rw_inv N l p" and t: "p t = Woken c i"
  shows "rw_inv N l (p(t := Out))"
proof -
  have same: "readers p - {t} = readers p" using t by auto
  show ?thesis
    by (rule rw_invI) (use rw_invD(1,7) [OF inv, of t] rw_invD [OF inv] t same in \<open>auto split: if_splits\<close>)
qed

lemma rw_inv_read:
  assumes inv: "rw_inv N l p" and t: "p t = Out" "t < N" and free: "w_holder l = None"
  shows "rw_inv N (l\<lparr>level := level l + 1\<rparr>) (p(t := Reading))"
proof (rule rw_invI)
  show "level (l\<lparr>level := level l + 1\<rparr>) = of_nat (card (readers (p(t := Reading))))"
    using rw_invD(3,4) [OF inv] t by simp
qed (use rw_invD [OF inv] rw_invD(7) [OF inv, of t] t free in \<open>auto split: if_splits\<close>)

lemma rw_inv_write:
  assumes inv: "rw_inv N l p" and t: "p t = Out" and free: "w_holder l = None" "level l = 0"
    and N: "N < 2 ^ 16"
  shows "rw_inv N (l\<lparr>w_holder := Some t\<rparr>) (p(t := Writing))"
proof -
  have none: "readers p = {}" using level_zero [OF inv N] free by simp
  show ?thesis
    by (rule rw_invI) (use rw_invD(1,4,6,7) [OF inv] t free none in \<open>auto split: if_splits\<close>)
qed

lemma rw_inv_queue:
  assumes inv: "rw_inv N l p" and t: "p t = Out" and q: "q = t # waiters l \<or> q = waiters l @ [t]"
  shows "rw_inv N (l\<lparr>waiters := q\<rparr>) (p(t := Blocked c i))"
proof -
  have same: "readers p - {t} = readers p" using t by auto
  have fresh: "t \<notin> set (waiters l)" using rw_invD(7) [OF inv, of t] t by simp
  show ?thesis
    by (rule rw_invI) (use rw_invD [OF inv] rw_invD(1) [OF inv, of t] t q fresh same in \<open>auto split: if_splits\<close>)
qed

lemma rw_inv_unread:
  assumes inv: "rw_inv N l p" and t: "p t = Reading"
  shows "rw_inv N (l\<lparr>level := level l - 1\<rparr>) (p(t := Out))"
proof (rule rw_invI)
  have "card (readers p) = Suc (card (readers p - {t}))"
    using rw_invD(3) [OF inv] t by (metis card.remove in_readers)
  then show "level (l\<lparr>level := level l - 1\<rparr>) = of_nat (card (readers (p(t := Out))))"
    by (simp add: rw_invD(4) [OF inv])
qed (use rw_invD(1,2,5,6,7) [OF inv] rw_invD(1,7) [OF inv, of t] t in \<open>auto split: if_splits\<close>)

lemma rw_inv_unwrite:
  assumes inv: "rw_inv N l p" and t: "p t = Writing"
  shows "rw_inv N (l\<lparr>w_holder := None\<rparr>) (p(t := Out))"
proof -
  have same: "readers p - {t} = readers p" using t by auto
  have w: "w_holder l = Some t" and nb: "t \<notin> set (waiters l)"
    using rw_invD(1,7) [OF inv, of t] t by simp_all
  then have other: "p u \<noteq> Writing" if "u \<noteq> t" for u using rw_invD(1) [OF inv, of u] that by simp
  show ?thesis
    by (rule rw_invI) (use rw_invD(2-7) [OF inv] w nb same other in \<open>auto split: if_splits\<close>)
qed

lemma rw_inv_settle:
  assumes inv: "rw_inv N l (p(t := Out))" and t: "t < N" and N: "N < 2 ^ 16"
    and s: "places s = p" and a: "a = again c t l"
  shows "rw_inv N (rwl (settle c i t a s)) (places (settle c i t a s))"
proof -
  have out: "(p(t := Out)) t = Out" by simp
  note moves = rw_inv_read [OF inv out t] rw_inv_write [OF inv out _ _ N]
    rw_inv_queue [OF inv out disjI1 [OF refl], of c i] rw_inv_queue [OF inv out disjI2 [OF refl], of c i]
  note m = moves [unfolded fun_upd_upd]
  show ?thesis
    using m s a by (cases c) (simp_all add: settle_def again_def r_attempt_def w_attempt_def)
qed

text \<open>A try that succeeds does what an attempt does, and one that fails does nothing.\<close>

lemma try_step:
  assumes step: "rw_step (Try c t) s = Some s'"
  shows "s' = s \<or> (c \<noteq> CUpgrade \<and> s' = settle c 0 t (again c t (rwl s)) s)"
  using step by (cases c)
    (auto simp: r_try_lock_acquire_def w_try_lock_acquire_def again_def r_attempt_def w_attempt_def kernel_simps split: if_splits prod.splits)

lemma fold_wake:
  "distinct ws \<Longrightarrow> fold wake ws p u = (if u \<in> set ws then (case p u of Blocked c i \<Rightarrow> Woken c i | x \<Rightarrow> x) else p u)"
  by (induction ws arbitrary: p) (auto simp: wake_def)

lemma rw_inv_wake:
  assumes inv: "rw_inv N l p" and ws: "waiters l = ws @ rest"
  shows "rw_inv N (l\<lparr>waiters := rest\<rparr>) (fold wake ws p)"
proof -
  have d: "distinct ws" "distinct rest" "set ws \<inter> set rest = {}" using rw_invD(6) [OF inv] ws by auto
  have blocked: "is_blocked (p u)" if "u \<in> set ws" for u using rw_invD(7) [OF inv, of u] ws that by simp
  have same: "fold wake ws p u = x \<longleftrightarrow> p u = x" if "x = Reading \<or> x = Writing" for u x
    using blocked [of u] that by (auto simp: fold_wake [OF d(1)] split: place.splits)
  have R: "readers (fold wake ws p) = readers p" using same by auto
  have W: "fold wake ws p u = Writing \<longleftrightarrow> w_holder l = Some u" for u
    using same [of Writing u] rw_invD(1) [OF inv, of u] by simp
  have B: "u \<in> set rest \<longleftrightarrow> is_blocked (fold wake ws p u)" for u
    using rw_invD(7) [OF inv, of u] ws d(3) by (auto simp: fold_wake [OF d(1)] split: place.splits)
  show ?thesis by (rule rw_invI) (use rw_invD [OF inv] R W B d in simp_all)
qed

lemma wake_loop_append: "wake_loop ww d ts = (woken, rest) \<Longrightarrow> ts = woken @ rest"
  by (induction ww d ts arbitrary: woken rest rule: wake_loop.induct) (auto split: if_splits prod.splits)

lemma rw_inv_step:
  assumes inv: "rw_inv N (rwl s) (places s)" and N: "N < 2 ^ 16"
    and en: "enabled N e s" and step: "rw_step e s = Some s'"
  shows "rw_inv N (rwl s') (places s')"
proof (cases e)
  case (Enter c t)
  show ?thesis
  proof (cases "c = CUpgrade")
    case True
    then have t: "t < N" "places s t = Reading" using en Enter by auto
    have "rw_inv N ((rwl s)\<lparr>level := level (rwl s) - 1\<rparr>) ((places s)(t := Out))"
      using rw_inv_unread [OF inv t(2)] .
    from rw_inv_settle [OF this t(1) N refl refl, of CUpgrade 0]
    show ?thesis using step Enter True
      by (auto simp: r_lock_upgrade_to_w_def again_def kernel_simps split: if_splits)
  next
    case False
    then have t: "t < N" "places s t = Out" using en Enter by (cases c; auto)+
    have "rw_inv N (rwl s) ((places s)(t := Out))" using inv t(2) by (simp add: fun_upd_idem)
    from rw_inv_settle [OF this t(1) N refl refl, of c 0]
    show ?thesis using step Enter False
      by (cases c) (auto simp: r_lock_acquire_def w_lock_acquire_def again_def kernel_simps split: if_splits)
  qed
next
  case (Try c t)
  then have t: "t < N" "places s t = Out" using en by auto
  have "rw_inv N (rwl s) ((places s)(t := Out))" using inv t(2) by (simp add: fun_upd_idem)
  from rw_inv_settle [OF this t(1) N refl refl, of c 0]
  show ?thesis using try_step [OF step [unfolded Try]] inv by auto
next
  case (Resume t)
  then obtain c i where t: "t < N" "places s t = Woken c i" using en by (auto split: place.splits)
  from rw_inv_settle [OF rw_inv_out [OF inv t(2)] t(1) N refl refl, of c "i + 1"]
  show ?thesis using step Resume t(2) by auto
next
  case (Leave t)
  show ?thesis
  proof (cases "places s t = Writing")
    case True
    obtain woken rest where w: "wake_loop (waits_write s) False (waiters (rwl s)) = (woken, rest)"
      by fastforce
    have "rw_inv N ((rwl s)\<lparr>w_holder := None, waiters := rest\<rparr>) (fold wake woken ((places s)(t := Out)))"
      using rw_inv_wake [OF rw_inv_unwrite [OF inv True], of woken rest] wake_loop_append [OF w] by simp
    then show ?thesis using step Leave True w
      by (auto simp: w_lock_release_def Let_def kernel_simps split: if_splits)
  next
    case False
    then have t: "places s t = Reading" using en Leave by auto
    let ?l = "(rwl s)\<lparr>level := level (rwl s) - 1\<rparr>"
    have inv': "rw_inv N ?l ((places s)(t := Out))" by (rule rw_inv_unread [OF inv t])
    have "rw_inv N (?l\<lparr>waiters := tl (waiters ?l)\<rparr>) (fold wake [hd (waiters ?l)] ((places s)(t := Out)))"
      if "waiters ?l \<noteq> []" by (rule rw_inv_wake [OF inv']) (use that in simp)
    then show ?thesis using step Leave False inv'
      by (auto simp: r_lock_release_def Let_def kernel_simps split: if_splits)
  qed
qed

lemma rw_reach_inv: "rw_reach N s \<Longrightarrow> N < 2 ^ 16 \<Longrightarrow> rw_inv N (rwl s) (places s)"
proof (induction rule: rw_reach.induct)
  case rw_init
  show ?case by (simp add: rw_inv_def rw_start_def rw_lock_init_def readers_def)
next
  case (rw_next s e s')
  then show ?case using rw_inv_step by blast
qed

section \<open>No lost wake-ups\<close>

definition rw_awake :: "rw_lock \<Rightarrow> (nat \<Rightarrow> place) \<Rightarrow> bool" where
  "rw_awake l p \<longleftrightarrow>
     (waiters l \<noteq> [] \<longrightarrow> w_holder l \<noteq> None \<or> level l \<noteq> 0 \<or> (\<exists>t c i. p t = Woken c i))"

lemma settle_awake:
  assumes N: "N < 2 ^ 16" and l: "level l = of_nat k" and k: "k < N"
  shows "rw_awake (rwl (settle c i t (again c t l) s)) p"
proof -
  have "\<not> 2 ^ 16 dvd Suc k" using N k by (auto simp del: power_numeral dest!: dvd_imp_le)
  then have "of_nat (Suc k) \<noteq> (0 :: 16 word)" unfolding word_of_nat_eq_0_iff by simp
  then have nz: "level l + 1 \<noteq> 0" by (simp add: l add.commute)
  show ?thesis
    by (cases c) (use nz in \<open>simp_all add: rw_awake_def settle_def again_def r_attempt_def w_attempt_def\<close>)
qed

lemma wake_loop_wakes: "wake_loop ww False ts = (woken, rest) \<Longrightarrow> ts \<noteq> [] \<Longrightarrow> woken \<noteq> []"
  by (cases ts) (auto split: if_splits prod.splits)

lemma fold_wake_Woken:
  assumes inv: "rw_inv N l p" and ws: "waiters l = ws @ rest" "ws \<noteq> []"
    and q: "\<And>u. is_blocked (p u) \<Longrightarrow> q u = p u"
  shows "\<exists>t c i. fold wake ws q t = Woken c i"
proof -
  have hd: "hd ws \<in> set ws" "distinct ws" using ws rw_invD(6) [OF inv] by simp_all
  then have b: "is_blocked (p (hd ws))" using ws(1) rw_invD(7) [OF inv, of "hd ws"] by simp
  then obtain c i where "p (hd ws) = Blocked c i" by (auto simp: is_blocked_def split: place.splits)
  then have "fold wake ws q (hd ws) = Woken c i" using hd q [OF b] by (simp add: fold_wake)
  then show ?thesis by blast
qed

lemma readers_lt:
  assumes inv: "rw_inv N l p" and t: "t < N" "p t \<noteq> Reading"
  shows "card (readers p) < N"
proof -
  have "readers p \<subset> {..<N}" using rw_invD(2) [OF inv] t by auto
  then show ?thesis using psubset_card_mono [of "{..<N}" "readers p"] by simp
qed

lemma rw_awake_step:
  assumes inv: "rw_inv N (rwl s) (places s)" and N: "N < 2 ^ 16"
    and aw: "rw_awake (rwl s) (places s)"
    and en: "enabled N e s" and step: "rw_step e s = Some s'"
  shows "rw_awake (rwl s') (places s')"
proof (cases e)
  case (Enter c t)
  show ?thesis
  proof (cases "c = CUpgrade")
    case True
    then have t: "t < N" "places s t = Reading" using en Enter by auto
    note inv' = rw_inv_unread [OF inv t(2)]
    have "card (readers ((places s)(t := Out))) < N" by (rule readers_lt [OF inv' t(1)]) simp
    from settle_awake [OF N rw_invD(4) [OF inv'] this, of CUpgrade 0]
    show ?thesis using step Enter True
      by (auto simp: r_lock_upgrade_to_w_def again_def kernel_simps split: if_splits)
  next
    case False
    then have t: "t < N" "places s t = Out" using en Enter by (cases c; auto)+
    have "card (readers (places s)) < N" by (rule readers_lt [OF inv t(1)]) (simp add: t)
    from settle_awake [OF N rw_invD(4) [OF inv] this, of c 0]
    show ?thesis using step Enter False
      by (cases c) (auto simp: r_lock_acquire_def w_lock_acquire_def again_def kernel_simps split: if_splits)
  qed
next
  case (Try c t)
  then have t: "t < N" "places s t = Out" using en by auto
  have "card (readers (places s)) < N" by (rule readers_lt [OF inv t(1)]) (simp add: t)
  from settle_awake [OF N rw_invD(4) [OF inv] this, of c 0]
  show ?thesis using try_step [OF step [unfolded Try]] aw by auto
next
  case (Resume t)
  then obtain c i where t: "t < N" "places s t = Woken c i" using en by (auto split: place.splits)
  have "card (readers (places s)) < N" by (rule readers_lt [OF inv t(1)]) (simp add: t)
  from settle_awake [OF N rw_invD(4) [OF inv] this, of c "i + 1"]
  show ?thesis using step Resume t(2) by auto
next
  case (Leave t)
  then have nb: "\<not> is_blocked (places s t)" using en by auto
  have wakes: "\<exists>u c i. fold wake ws ((places s)(t := Out)) u = Woken c i"
    if "waiters (rwl s) = ws @ rest" "ws \<noteq> []" for ws rest
    by (rule fold_wake_Woken [OF inv that]) (use nb in auto)
  show ?thesis
  proof (cases "places s t = Writing")
    case True
    obtain woken rest where w: "wake_loop (waits_write s) False (waiters (rwl s)) = (woken, rest)"
      by fastforce
    note app = wake_loop_append [OF w]
    have "rest = []" if "woken = []" using wake_loop_wakes [OF w] app that by auto
    then have "rest = [] \<or> (\<exists>u c i. fold wake woken ((places s)(t := Out)) u = Woken c i)"
      using wakes [OF app] by blast
    then show ?thesis using step Leave True w
      by (auto simp: w_lock_release_def Let_def rw_awake_def kernel_simps split: if_splits)
  next
    case False
    have "\<exists>u c i. fold wake [hd (waiters (rwl s))] ((places s)(t := Out)) u = Woken c i"
      if "waiters (rwl s) \<noteq> []"
      by (rule wakes [of _ "tl (waiters (rwl s))"]) (use that in simp_all)
    then show ?thesis using step Leave False
      by (auto simp: r_lock_release_def Let_def rw_awake_def kernel_simps split: if_splits)
  qed
qed

lemma rw_reach_awake: "rw_reach N s \<Longrightarrow> N < 2 ^ 16 \<Longrightarrow> rw_awake (rwl s) (places s)"
proof (induction rule: rw_reach.induct)
  case rw_init
  show ?case by (simp add: rw_awake_def rw_start_def rw_lock_init_def)
next
  case (rw_next s e s')
  then show ?case using rw_awake_step [OF rw_reach_inv] by blast
qed

section \<open>What the lock guarantees\<close>

text \<open>(C10) Mutual exclusion of the readers-writer lock. With fewer than \<open>2 ^ 16\<close> threads,
  whatever they call and in whatever order they run: a thread that writes is the only thread
  inside, and the 16-bit \<open>level\<close> of the lock is the number of threads that read.\<close>

theorem rw_mutual_exclusion:
  assumes "rw_reach N s" and "N < 2 ^ 16"
  shows "(places s t = Writing \<and> places s u \<in> {Reading, Writing} \<longrightarrow> u = t)
    \<and> unat (level (rwl s)) = card {v. places s v = Reading}"
proof -
  note inv = rw_reach_inv [OF assms]
  have "card (readers (places s)) < 2 ^ 16"
    using card_mono [OF _ rw_invD(2) [OF inv]] assms(2) by simp
  then have "unat (level (rwl s)) = card (readers (places s))"
    by (simp add: rw_invD(4) [OF inv] unat_of_nat take_bit_nat_eq_self)
  moreover have "u = t" if "places s t = Writing" "places s u \<in> {Reading, Writing}"
    using rw_invD(1) [OF inv, of t] rw_invD(1) [OF inv, of u] rw_invD(5) [OF inv] that by auto
  ultimately show ?thesis by (simp add: readers_def)
qed

text \<open>Runs of the machine on a list of events, for concrete schedules.\<close>

fun rw_run :: "nat \<Rightarrow> event list \<Rightarrow> rw_sys \<Rightarrow> rw_sys option" where
  "rw_run N [] s = Some s"
| "rw_run N (e # es) s = (if enabled N e s then Option.bind (rw_step e s) (rw_run N es) else None)"

lemma rw_run_reach: "rw_run N es s = Some s' \<Longrightarrow> rw_reach N s \<Longrightarrow> rw_reach N s'"
  by (induction es arbitrary: s) (auto simp: kernel_simps intro: rw_next split: if_splits)

lemmas rw_eval = rw_start_def rw_lock_init_def r_lock_acquire_def w_lock_acquire_def settle_def
  r_lock_upgrade_to_w_def again_def r_attempt_def w_attempt_def w_lock_release_def r_lock_release_def
  waits_write_def wake_def

theorem rw_mutual_exclusion_witness:
  "rw_reach 3 (the (rw_run 3 [Enter CRead 0, Enter CRead 1, Enter CWrite 2] rw_start))
    \<and> unat (level (rwl (the (rw_run 3 [Enter CRead 0, Enter CRead 1, Enter CWrite 2] rw_start)))) = 2"
proof -
  let ?s = "the (rw_run 3 [Enter CRead 0, Enter CRead 1, Enter CWrite 2] rw_start)"
  have run: "rw_run 3 [Enter CRead 0, Enter CRead 1, Enter CWrite 2] rw_start = Some ?s"
    by (simp add: rw_eval)
  have r: "rw_reach 3 ?s" by (rule rw_run_reach [OF run rw_init])
  have "{v. places ?s v = Reading} = {0, 1}" by (auto simp: rw_eval)
  moreover have "unat (level (rwl ?s)) = card {v. places ?s v = Reading}"
    using rw_mutual_exclusion [OF r, of 0 0] by simp
  ultimately have "unat (level (rwl ?s)) = 2" by simp
  with r show ?thesis ..
qed

text \<open>(C16) No lost wake-ups. Whenever some thread is queued on the lock, the lock is held or
  some thread has been woken and is about to try again: the queue is never left behind with
  nobody to serve it.\<close>

theorem rw_no_lost_wakeup:
  assumes "rw_reach N s" and "N < 2 ^ 16" and "places s t = Blocked c i"
  shows "w_holder (rwl s) \<noteq> None \<or> level (rwl s) \<noteq> 0 \<or> (\<exists>u d j. places s u = Woken d j)"
proof -
  have "t \<in> set (waiters (rwl s))"
    using rw_invD(7) [OF rw_reach_inv [OF assms(1,2)], of t] assms(3) by simp
  then show ?thesis using rw_reach_awake [OF assms(1,2)] by (auto simp: rw_awake_def)
qed

theorem rw_no_lost_wakeup_witness:
  "\<exists>s. rw_run 2 [Enter CWrite 0, Enter CWrite 1] rw_start = Some s
    \<and> (w_holder (rwl s) \<noteq> None \<or> level (rwl s) \<noteq> 0 \<or> (\<exists>u d j. places s u = Woken d j))"
proof -
  let ?s = "\<lparr>rwl = \<lparr>w_holder = Some 0, level = 0, waiters = [1]\<rparr>,
      places = (\<lambda>_. Out)(0 := Writing, 1 := Blocked CWrite 0)\<rparr>"
  have run: "rw_run 2 [Enter CWrite 0, Enter CWrite 1] rw_start = Some ?s" by (simp add: rw_eval)
  have b: "places ?s 1 = Blocked CWrite 0" by simp
  have "w_holder (rwl ?s) \<noteq> None \<or> level (rwl ?s) \<noteq> 0 \<or> (\<exists>u d j. places ?s u = Woken d j)"
    by (rule rw_no_lost_wakeup [OF rw_run_reach [OF run rw_init] _ b]) simp
  with run show ?thesis by blast
qed

text \<open>(C17) The assertion \<open>ASSERT(t->waits_write)\<close> of \<open>r_lock_release\<close> can fail. A woken writer
  that finds the lock taken again by a new reader queues at the back, behind a waiting reader;
  when that new reader leaves, the front of the queue is a reader.\<close>

theorem r_lock_release_can_panic:
  "\<exists>s. rw_reach 4 s \<and> enabled 4 (Leave 3) s \<and> places s 3 = Reading \<and> rw_step (Leave 3) s = None"
proof -
  let ?s1 = "\<lparr>rwl = \<lparr>w_holder = Some 0, level = 0, waiters = [2, 1]\<rparr>,
      places = (\<lambda>_. Out)(0 := Writing, 2 := Blocked CWrite 0, 1 := Blocked CRead 0)\<rparr>"
  let ?s2 = "\<lparr>rwl = \<lparr>w_holder = None, level = 0, waiters = [1]\<rparr>,
      places = (\<lambda>_. Out)(2 := Woken CWrite 0, 1 := Blocked CRead 0)\<rparr>"
  let ?s3 = "\<lparr>rwl = \<lparr>w_holder = None, level = 1, waiters = [1, 2]\<rparr>,
      places = (\<lambda>_. Out)(1 := Blocked CRead 0, 2 := Blocked CWrite 1, 3 := Reading)\<rparr>"
  have "rw_run 4 [Enter CWrite 0, Enter CWrite 2, Enter CRead 1] rw_start = Some ?s1"
    by (simp add: rw_eval)
  note r1 = rw_run_reach [OF this rw_init]
  have "rw_run 4 [Leave 0] ?s1 = Some ?s2" by (simp add: rw_eval fun_eq_iff)
  note r2 = rw_run_reach [OF this r1]
  have "rw_run 4 [Enter CRead 3, Resume 2] ?s2 = Some ?s3" by (simp add: rw_eval fun_eq_iff)
  note r3 = rw_run_reach [OF this r2]
  have "enabled 4 (Leave 3) ?s3 \<and> places ?s3 3 = Reading \<and> rw_step (Leave 3) ?s3 = None"
    by (simp add: rw_eval)
  with r3 show ?thesis by blast
qed

end
