(* ===== verification/Arith64.thy ===== *)
theory Arith64
  imports Prelude "HOL-Library.Signed_Division"
begin

text \<open>
  \<open>lib/arithmetic.c\<close>: 64-bit division out of the 32-bit \<open>DIVL\<close> instruction.

  Unsigned values are natural numbers with the wrap-around of \<open>uint64_t\<close> and \<open>uint32_t\<close> written
  out; signed values are integers. \<open>None\<close> is the divide error trap \<open>#DE\<close>.
\<close>

section \<open>The routines\<close>

definition u64 :: "nat \<Rightarrow> nat" where
  "u64 n = n mod 2 ^ 64"

definition divl :: "nat \<Rightarrow> nat \<Rightarrow> nat option" where
  "divl n d = do { kassert (d \<noteq> 0); kassert (n div d < 2 ^ 32); Some (n div d) }"

definition nlz :: "nat \<Rightarrow> nat" where
  "nlz x =
     (let (n, x) = (0, x);
          (n, x) = (if x \<le> 0x0000FFFF then (n + 16, u32 (x * 2 ^ 16)) else (n, x));
          (n, x) = (if x \<le> 0x00FFFFFF then (n + 8, u32 (x * 2 ^ 8)) else (n, x));
          (n, x) = (if x \<le> 0x0FFFFFFF then (n + 4, u32 (x * 2 ^ 4)) else (n, x));
          (n, x) = (if x \<le> 0x3FFFFFFF then (n + 2, u32 (x * 2 ^ 2)) else (n, x))
      in if x \<le> 0x7FFFFFFF then n + 1 else n)"

text \<open>\<open>u64 (2 ^ 64 - x + y)\<close> is the unsigned difference \<open>y - x\<close>.\<close>

definition sub64 :: "nat \<Rightarrow> nat \<Rightarrow> nat" where
  "sub64 y x = u64 (2 ^ 64 - u64 x + y)"

definition udiv64 :: "nat \<Rightarrow> nat \<Rightarrow> nat option" where
  "udiv64 n d =
     (if d div 2 ^ 32 = 0
      then do {
        let b = 2 ^ 32;
        let n1 = u32 (n div 2 ^ 32);
        let n0 = u32 n;
        let d0 = u32 d;
        kassert (d0 \<noteq> 0);
        q \<leftarrow> divl (u64 (u64 (b * (n1 mod d0)) + n0)) d0;
        Some (u64 (q + u64 (b * (n1 div d0))))
      }
      else if n < d then Some 0
      else do {
        let d1 = u32 (d div 2 ^ 32);
        let s = nlz d1;
        q \<leftarrow> divl (n div 2) (u32 (u64 (d * 2 ^ s) div 2 ^ 32));
        let q = q div 2 ^ (31 - s);
        Some (if sub64 n (u64 (sub64 q 1 * d)) < d then sub64 q 1 else q)
      })"

definition umod64 :: "nat \<Rightarrow> nat \<Rightarrow> nat option" where
  "umod64 n d = do { q \<leftarrow> udiv64 n d; Some (u32 (sub64 n (u64 (d * q)))) }"

text \<open>The cast of a 64-bit and of a 32-bit pattern to a signed number.\<close>

definition s64 :: "int \<Rightarrow> int" where
  "s64 x = (x + 2 ^ 63) mod 2 ^ 64 - 2 ^ 63"

definition s32 :: "int \<Rightarrow> int" where
  "s32 x = (x + 2 ^ 31) mod 2 ^ 32 - 2 ^ 31"

definition sdiv64 :: "int \<Rightarrow> int \<Rightarrow> int option" where
  "sdiv64 n d =
     do {
       let n_abs = (if n \<ge> 0 then nat n else sub64 0 (nat (n mod 2 ^ 64)));
       let d_abs = (if d \<ge> 0 then nat d else sub64 0 (nat (d mod 2 ^ 64)));
       q_abs \<leftarrow> udiv64 n_abs d_abs;
       Some (if (n < 0) = (d < 0) then s64 (int q_abs) else s64 (- s64 (int q_abs)))
     }"

definition smod64 :: "int \<Rightarrow> int \<Rightarrow> int option" where
  "smod64 n d = do { q \<leftarrow> sdiv64 n d; Some (s32 (s64 (n - s64 (d * q)))) }"

section \<open>Leading zeros\<close>

lemma nlz_spec:
  assumes "0 < x" "x < 2 ^ 32"
  shows "nlz x < 32 \<and> 2 ^ 31 \<le> x * 2 ^ nlz x \<and> x * 2 ^ nlz x < 2 ^ 32"
  using assms unfolding nlz_def u32_def Let_def
  by (simp split: if_splits)

section \<open>Unsigned division\<close>

lemma u64_small: "n < 2 ^ 64 \<Longrightarrow> u64 n = n"
  by (simp add: u64_def)

lemma sub64_eq:
  assumes "x \<le> y" and "y < 2 ^ 64"
  shows "sub64 y x = y - x"
proof -
  have "2 ^ 64 - u64 x + y = (y - x) + 2 ^ 64" using assms by (simp add: u64_small)
  then show ?thesis
    using assms by (simp only: sub64_def u64_def mod_add_self2) (rule mod_less, simp)
qed

text \<open>The comment in \<open>udiv64\<close> for a divisor below \<open>2 ^ 32\<close>: split off the high half.\<close>

lemma udiv64_small:
  assumes n: "n < 2 ^ 64" and d: "0 < d" "d < 2 ^ 32"
  shows "udiv64 n d = Some (n div d)"
proof -
  let ?b = "2 ^ 32 :: nat"
  let ?n1 = "n div ?b" and ?n0 = "n mod ?b"
  have n1: "?n1 < ?b" using n by (simp add: div_less_iff_less_mult)
  have r: "?n1 mod d < d" using d by simp
  have part: "?b * (?n1 mod d) + ?n0 < ?b * d"
  proof -
    have "?b * (?n1 mod d) + ?n0 < ?b * (?n1 mod d) + ?b" by simp
    also have "\<dots> = ?b * Suc (?n1 mod d)" by simp
    also have "\<dots> \<le> ?b * d" using r by (intro mult_le_mono2) simp
    finally show ?thesis .
  qed
  have bd: "?b * d \<le> 2 ^ 64" using d by simp
  have fits: "(?b * (?n1 mod d) + ?n0) div d < ?b"
    using part d by (simp add: div_less_iff_less_mult)
  have "n = ?b * ?n1 + ?n0" by simp
  also have "\<dots> = ?b * (?n1 div d * d + ?n1 mod d) + ?n0" by simp
  also have "\<dots> = (?b * (?n1 mod d) + ?n0) + ?b * (?n1 div d) * d"
    by (simp only: distrib_left mult.assoc add.commute add.left_commute)
  finally have "n div d = (?b * (?n1 mod d) + ?n0) div d + ?b * (?n1 div d)"
    using d by (metis add.commute div_mult_self1 less_numeral_extra(3))
  note split = this
  have q: "n div d < 2 ^ 64" using n by (meson div_le_dividend le_less_trans)
  have lo: "?b * (?n1 mod d) + ?n0 < 2 ^ 64" using part bd by linarith
  have high: "d div ?b = 0" "u32 ?n1 = ?n1" "u32 n = ?n0" "u32 d = d" "d \<noteq> 0"
    using d n1 by (simp_all add: u32_small u32_def)
  have mods: "u64 (?b * (?n1 mod d)) = ?b * (?n1 mod d)" "u64 (?b * (?n1 div d)) = ?b * (?n1 div d)"
    "u64 (?b * (?n1 mod d) + ?n0) = ?b * (?n1 mod d) + ?n0" "u64 (n div d) = n div d"
    using q lo split by (intro u64_small; linarith)+
  have "divl (?b * (?n1 mod d) + ?n0) d = Some ((?b * (?n1 mod d) + ?n0) div d)"
    using fits high(5) by (simp only: divl_def kassert_True Option.bind.simps simp_thms)
  then show ?thesis
    unfolding udiv64_def Let_def high if_P [OF refl] mods using high(5)
    by (simp only: split [symmetric] mods kassert_True Option.bind.simps simp_thms not_False_eq_True)
qed

text \<open>The estimate for a divisor of at least \<open>2 ^ 32\<close>. With \<open>k = 2 ^ (32 - s)\<close>, dividing by the
  divisor rounded down to a multiple of \<open>k\<close> is at most one too large.\<close>

lemma estimate_excess:
  fixes n d D k :: nat
  assumes n: "n < 2 ^ 64" and k: "k = 2 \<or> k = 4 \<or> 8 \<le> k" "k \<le> 2 ^ 32"
    and D: "D \<le> d" "d < D + k" "k * 2 ^ 31 \<le> D"
  shows "n div D \<le> n div d + 1"
proof (rule ccontr)
  let ?q = "n div d" and ?e = "d - D"
  assume "\<not> ?thesis"
  then have "?q + 2 \<le> n div D" by simp
  moreover have D0: "0 < D" using D k by auto
  ultimately have "(?q + 2) * D \<le> n" by (simp add: less_eq_div_iff_mult_less_eq)
  moreover have "n < (?q + 1) * d" using D0 D dividend_less_div_times [of d n] by simp
  moreover have d: "d = D + ?e" using D by simp
  ultimately have "(?q + 2) * D < (?q + 1) * (D + ?e)" by (metis le_less_trans)
  then have lt: "D < (?q + 1) * ?e" by (simp add: algebra_simps)
  have qd: "?q * d < 2 ^ 64" using n div_times_less_eq_dividend [of n d] by (meson le_less_trans)
  have qk: "?q * (k * 2 ^ 31) < 2 ^ 64"
    using qd D by (meson le_less_trans le_trans mult_le_mono2)
  have e: "?e \<le> k - 1" using D by auto
  consider "k = 2" | "k = 4" | "8 \<le> k" using k by blast
  then show False
  proof cases
    case 1
    then have "?e = 1" using lt e by (cases "?e") auto
    then have "D \<le> ?q" "2 ^ 32 < d" using lt D 1 by auto
    then have "2 ^ 32 * (2 ^ 32 :: nat) \<le> ?q * d" using D 1 by (intro mult_le_mono) auto
    then show False using qd by simp
  next
    case 2
    then have "?q < 2 ^ 31" using qk by simp
    moreover have "(?q + 1) * ?e \<le> (?q + 1) * 3" using e 2 by (intro mult_le_mono2) simp
    moreover note lt
    ultimately show False using D 2 by simp
  next
    case 3
    have "(?q + 1) * ?e \<le> (?q + 1) * k" using e by (intro mult_le_mono2) simp
    then have "D < ?q * k + k" using lt by simp
    moreover have "?q * k < 2 ^ 33" using qk by (simp add: mult.commute)
    ultimately show False using D 3 k by simp
  qed
qed

text \<open>The normalised divisor: \<open>V\<close> is \<open>(d << s) >> 32\<close>.\<close>

lemma normalised_divisor:
  assumes d: "2 ^ 32 \<le> d" "d < 2 ^ 64"
  defines "s \<equiv> nlz (d div 2 ^ 32)"
  defines "k \<equiv> 2 ^ (32 - s)"
  shows "s < 32" "u32 (u64 (d * 2 ^ s) div 2 ^ 32) = d div k" "2 ^ 31 \<le> d div k" "d div k < 2 ^ 32"
proof -
  let ?d1 = "d div 2 ^ 32"
  have d1: "0 < ?d1" "?d1 < 2 ^ 32" using d by (simp_all add: div_greater_zero_iff div_less_iff_less_mult)
  note z = nlz_spec [OF d1, folded s_def]
  from z show s: "s < 32" by blast
  have k: "k * 2 ^ s = 2 ^ 32" using s by (simp add: k_def flip: power_add)
  have "?d1 < k" using z k by (metis mult_less_cancel2)
  then have "d < 2 ^ 32 * k" by (simp add: less_mult_imp_div_less div_less_iff_less_mult mult.commute)
  then have "d * 2 ^ s < 2 ^ 32 * k * 2 ^ s" by simp
  also have "2 ^ 32 * k * 2 ^ s = 2 ^ 64" using k by (simp add: mult.assoc)
  finally have lt: "d * 2 ^ s < 2 ^ 64" .
  have div: "d * 2 ^ s div 2 ^ 32 = d div k" using k by (metis div_mult_mult2 power_not_zero zero_neq_numeral)
  have hi: "d * 2 ^ s div 2 ^ 32 < 2 ^ 32" using lt by (simp add: div_less_iff_less_mult)
  show "u32 (u64 (d * 2 ^ s) div 2 ^ 32) = d div k"
    using u64_small [OF lt] u32_small [OF hi] div by simp
  show "d div k < 2 ^ 32" using hi div by simp
  have "?d1 * 2 ^ 32 \<le> d" by (rule div_times_less_eq_dividend)
  then have "?d1 * 2 ^ 32 * 2 ^ s \<le> d * 2 ^ s" by (rule mult_le_mono1)
  moreover have "2 ^ 31 * 2 ^ 32 \<le> ?d1 * 2 ^ s * 2 ^ 32" using z by (intro mult_le_mono1) blast
  ultimately have "2 ^ 31 * 2 ^ 32 \<le> d * 2 ^ s" by (simp only: mult.assoc mult.commute mult.left_commute)
  then have "2 ^ 31 \<le> d * 2 ^ s div 2 ^ 32" by (simp add: less_eq_div_iff_mult_less_eq)
  then show "2 ^ 31 \<le> d div k" using div by simp
qed

lemma udiv64_large:
  assumes n: "n < 2 ^ 64" and d: "2 ^ 32 \<le> d" "d < 2 ^ 64" and le: "d \<le> n"
  shows "udiv64 n d = Some (n div d)"
proof -
  define s where "s = nlz (d div 2 ^ 32)"
  define k :: nat where "k = 2 ^ (32 - s)"
  define V where "V = d div k"
  note nd = normalised_divisor [OF d, folded s_def, folded k_def, folded V_def]
  have k0: "0 < k" by (simp add: k_def)
  have "32 - s = Suc (31 - s)" using nd(1) by simp
  then have "k = 2 ^ (31 - s) * 2" by (simp add: k_def)
  then have half: "2 * (V * 2 ^ (31 - s)) = V * k" by simp
  have V0: "0 < V" by (rule less_le_trans [OF _ nd(3)]) simp
  have "n div 2 div V < 2 ^ 32"
  proof -
    have "n div 2 < 2 ^ 32 * 2 ^ 31" using n by (simp add: div_less_iff_less_mult)
    also have "\<dots> \<le> 2 ^ 32 * V" using nd(3) by (intro mult_le_mono2)
    finally show ?thesis using V0 by (simp add: div_less_iff_less_mult mult.commute)
  qed
  then have q1: "divl (n div 2) V = Some (n div 2 div V)" using V0 by (simp add: divl_def)
  have q: "n div 2 div V div 2 ^ (31 - s) = n div (V * k)"
    by (simp only: half [symmetric] div_mult2_eq)
  have pow: "k = 2 \<or> k = 4 \<or> 8 \<le> k" "k \<le> 2 ^ 32"
  proof -
    have "32 - s = 1 \<or> 32 - s = 2 \<or> 3 \<le> 32 - s" using nd(1) by linarith
    moreover have "2 ^ 3 \<le> k" if "3 \<le> 32 - s" unfolding k_def using that by (intro power_increasing) simp_all
    ultimately show "k = 2 \<or> k = 4 \<or> 8 \<le> k" by (auto simp: k_def)
    show "k \<le> 2 ^ 32" unfolding k_def by (intro power_increasing) simp_all
  qed
  have D: "V * k \<le> d" "d < V * k + k" "k * 2 ^ 31 \<le> V * k"
    using dividend_less_div_times [OF k0, of d] nd(3) by (simp_all add: V_def mult.commute)
  have up: "n div (V * k) \<le> n div d + 1" by (rule estimate_excess [OF n pow D])
  have low: "n div d \<le> n div (V * k)" by (rule div_le_mono2) (use V0 k0 D in simp_all)
  define q where "q = n div (V * k)"
  have q01: "1 \<le> n div d" "n div d * d \<le> n" using le d by (simp_all add: Suc_le_eq div_greater_zero_iff)
  have qs: "q = n div d \<or> q = n div d + 1" using up low by (auto simp: q_def)
  have "(q - 1) * d \<le> n div d * d" using qs by (intro mult_le_mono1) auto
  then have prod: "(q - 1) * d \<le> n" using q01(2) by linarith
  have "q \<le> n" unfolding q_def by simp
  then have sub: "sub64 q 1 = q - 1" using qs q01 n by (intro sub64_eq) auto
  have cut: "sub64 n (u64 (sub64 q 1 * d)) = n - (q - 1) * d"
    unfolding sub using prod n by (simp only: u64_small [OF le_less_trans [OF prod n]] sub64_eq)
  have "(if n - (q - 1) * d < d then q - 1 else q) = n div d"
    using qs
  proof
    assume q: "q = n div d"
    have "d \<le> n div d * d" using mult_le_mono1 [OF q01(1), of d] by simp
    then have "d \<le> n - (n div d * d - d)" using q01(2) by linarith
    then show ?thesis by (simp add: q diff_mult_distrib)
  next
    assume "q = n div d + 1"
    moreover have "n - n div d * d < d" using d by (simp add: minus_div_mult_eq_mod)
    ultimately show ?thesis by simp
  qed
  then have res: "(if sub64 n (u64 (sub64 q 1 * d)) < d then sub64 q 1 else q) = n div d"
    unfolding cut unfolding sub .
  have "d div 2 ^ 32 \<noteq> 0" "\<not> n < d" "u32 (d div 2 ^ 32) = d div 2 ^ 32"
    using d le by (simp_all add: div_eq_0_iff div_less_iff_less_mult)
  then show ?thesis
    unfolding udiv64_def Let_def
    by (simp only: if_False s_def [symmetric] nd(2) q1 Option.bind.simps q q_def [symmetric] res)
qed

lemma udiv64_ok:
  assumes "n < 2 ^ 64" and "0 < d" and "d < 2 ^ 64"
  shows "udiv64 n d = Some (n div d)"
proof (cases "d < 2 ^ 32")
  case True
  then show ?thesis using udiv64_small assms by blast
next
  case False
  then have d: "2 ^ 32 \<le> d" by simp
  show ?thesis
  proof (cases "d \<le> n")
    case True
    then show ?thesis using udiv64_large [OF assms(1) d assms(3)] by blast
  next
    case False
    then have "d div 2 ^ 32 \<noteq> 0" "n div d = 0" using d by (simp_all add: div_eq_0_iff)
    then show ?thesis using False by (simp add: udiv64_def)
  qed
qed

lemma umod64_ok:
  assumes "n < 2 ^ 64" and "0 < d" and "d < 2 ^ 64"
  shows "umod64 n d = Some (n mod d mod 2 ^ 32)"
proof -
  have le: "d * (n div d) \<le> n" by simp
  then have "sub64 n (u64 (d * (n div d))) = n - d * (n div d)"
    by (simp only: u64_small [OF le_less_trans [OF le assms(1)]] sub64_eq [OF le assms(1)])
  also have "\<dots> = n mod d" by (simp add: minus_mult_div_eq_mod)
  finally show ?thesis by (simp add: umod64_def udiv64_ok [OF assms] u32_def)
qed

section \<open>Signed division\<close>

lemma s64_small: "- (2 ^ 63) \<le> x \<Longrightarrow> x < 2 ^ 63 \<Longrightarrow> s64 x = x"
  by (simp add: s64_def)

lemma s32_small: "- (2 ^ 31) \<le> x \<Longrightarrow> x < 2 ^ 31 \<Longrightarrow> s32 x = x"
  by (simp add: s32_def)

lemma abs64:
  assumes "- (2 ^ 63) \<le> n" and "n < 0"
  shows "sub64 0 (nat (n mod 2 ^ 64)) = nat (- n)"
proof -
  have "(n + 2 ^ 64) mod 2 ^ 64 = n + 2 ^ 64" by (rule mod_pos_pos_trivial) (use assms in simp_all)
  then have m: "n mod 2 ^ 64 = n + 2 ^ 64" by (simp only: mod_add_self2)
  have lt: "nat (n + 2 ^ 64) < 2 ^ 64" "nat (- n) < 2 ^ 64" using assms by simp_all
  have "2 ^ 64 - nat (n + 2 ^ 64) + 0 = nat (- n)" using assms by simp
  then show ?thesis by (simp only: sub64_def m u64_small [OF lt(1)] u64_small [OF lt(2)])
qed

lemma sdiv64_ok:
  assumes n: "- (2 ^ 63) \<le> n" "n < 2 ^ 63" and d: "- (2 ^ 63) \<le> d" "d < 2 ^ 63" "d \<noteq> 0"
    and ok: "\<not> (n = - (2 ^ 63) \<and> d = - 1)"
  shows "sdiv64 n d = Some (n sdiv d)"
proof -
  let ?q = "nat \<bar>n\<bar> div nat \<bar>d\<bar>"
  have abs: "(if n \<ge> 0 then nat n else sub64 0 (nat (n mod 2 ^ 64))) = nat \<bar>n\<bar>"
    "(if d \<ge> 0 then nat d else sub64 0 (nat (d mod 2 ^ 64))) = nat \<bar>d\<bar>"
    using abs64 [OF n(1)] abs64 [OF d(1)] by auto
  have u: "udiv64 (nat \<bar>n\<bar>) (nat \<bar>d\<bar>) = Some ?q" by (rule udiv64_ok) (use n d in auto)
  have q: "int ?q = \<bar>n\<bar> div \<bar>d\<bar>" by (simp add: zdiv_int)
  have "?q \<le> nat \<bar>n\<bar>" by simp
  then have le: "int ?q \<le> \<bar>n\<bar>" by linarith
  have sd: "n sdiv d = (if (n < 0) = (d < 0) then int ?q else - int ?q)"
    using d(3) by (auto simp: signed_divide_int_def q sgn_if)
  show ?thesis
  proof (cases "int ?q < 2 ^ 63")
    case True
    then have "s64 (int ?q) = int ?q" "s64 (- int ?q) = - int ?q" by (simp_all add: s64_small)
    then show ?thesis unfolding sdiv64_def Let_def abs u by (simp add: sd)
  next
    case False
    have n': "n = - (2 ^ 63)" "int ?q = 2 ^ 63" using False le n by linarith+
    have "\<bar>d\<bar> = 1"
    proof (rule ccontr)
      assume "\<bar>d\<bar> \<noteq> 1"
      then have "2 \<le> nat \<bar>d\<bar>" using d(3) by linarith
      then have "?q \<le> nat \<bar>n\<bar> div 2" by (intro div_le_mono2) simp_all
      also have "nat \<bar>n\<bar> div 2 = 2 ^ 62" unfolding n'(1) by simp
      finally show False using n'(2) by simp
    qed
    then have "d = 1" using n' ok by auto
    then show ?thesis unfolding sdiv64_def Let_def abs u using n' by (simp add: sd s64_def)
  qed
qed

section \<open>What the division routines guarantee\<close>

text \<open>(C9) 64-bit unsigned division by the two \<open>DIVL\<close> strategies is exact: for every 64-bit
  dividend and every non-zero 64-bit divisor no \<open>DIVL\<close> traps and the result is the quotient.\<close>

theorem udiv64_correct:
  assumes "n < 2 ^ 64" and "0 < d" and "d < 2 ^ 64"
  shows "udiv64 n d = Some (n div d)"
  using assms by (rule udiv64_ok)

theorem udiv64_correct_witness: "udiv64 (2 ^ 64 - 1) (2 ^ 32 + 1) = Some (2 ^ 32 - 1)"
  using udiv64_correct [of "2 ^ 64 - 1" "2 ^ 32 + 1"] by simp

text \<open>Signed 64-bit division truncates towards zero, as C demands, for every pair of 64-bit
  operands with a representable quotient.\<close>

theorem sdiv64_correct:
  assumes "- (2 ^ 63) \<le> n" "n < 2 ^ 63" and "- (2 ^ 63) \<le> d" "d < 2 ^ 63" "d \<noteq> 0"
    and "\<not> (n = - (2 ^ 63) \<and> d = - 1)"
  shows "sdiv64 n d = Some (n sdiv d)"
  using assms by (rule sdiv64_ok)

theorem sdiv64_correct_witness: "sdiv64 (- 7) 2 = Some (- 3)"
  using sdiv64_correct [of "- 7" 2] by (simp add: signed_divide_int_def)

text \<open>The remainder functions return 32 bits: \<open>umod64\<close> is the remainder reduced modulo
  \<open>2 ^ 32\<close>, so it is the remainder exactly when that fits in 32 bits, and for a larger divisor
  there are dividends on which it is wrong.\<close>

theorem umod64_truncates:
  assumes "n < 2 ^ 64" and "0 < d" and "d < 2 ^ 64"
  shows "umod64 n d = Some (n mod d) \<longleftrightarrow> n mod d < 2 ^ 32"
proof -
  have "n mod d mod 2 ^ 32 = n mod d \<longleftrightarrow> n mod d < 2 ^ 32" by (metis mod_less mod_less_divisor zero_less_numeral zero_less_power)
  then show ?thesis by (simp only: umod64_ok [OF assms] option.inject)
qed

theorem umod64_truncates_witness: "umod64 (2 ^ 32) (2 ^ 33) \<noteq> Some (2 ^ 32 mod 2 ^ 33)"
  using umod64_truncates [of "2 ^ 32" "2 ^ 33"] by simp

end
