(* ===== verification/FixedPoint.thy ===== *)
theory FixedPoint
  imports Arith64
begin

text \<open>
  \<open>threads/fixedpoint.c\<close> of the threads project: 17.14 fixed-point numbers in an \<open>int32_t\<close>, used by
  the multi-level feedback queue scheduler.

  Numbers are integers; \<open>s32\<close> and \<open>s64\<close> are the wrap-around of the two signed widths, \<open>sdiv\<close> the
  division of C, which truncates towards zero. \<open>None\<close> is the divide error trap.
\<close>

section \<open>The functions\<close>

definition fp :: int where
  "fp = 16384"

definition intToFloat :: "int \<Rightarrow> int" where
  "intToFloat n = s32 (n * fp)"

definition floatToInt :: "int \<Rightarrow> int" where
  "floatToInt x = x sdiv fp"

definition floatToIntNearest :: "int \<Rightarrow> int" where
  "floatToIntNearest x =
     (if x > 0 then s32 (x + fp sdiv 2) sdiv fp else s32 (x - fp sdiv 2) sdiv fp)"

definition sumFloats :: "int \<Rightarrow> int \<Rightarrow> int" where
  "sumFloats x y = s32 (x + y)"

definition subtractFloats :: "int \<Rightarrow> int \<Rightarrow> int" where
  "subtractFloats x y = s32 (x - y)"

definition multiplyFloats :: "int \<Rightarrow> int \<Rightarrow> int" where
  "multiplyFloats x y = s32 (s64 (x * y) sdiv fp)"

definition divideFloats :: "int \<Rightarrow> int \<Rightarrow> int option" where
  "divideFloats x y = do { kassert (y \<noteq> 0); Some (s32 (s64 (x * fp) sdiv y)) }"

definition sumFloatsAndInts :: "int \<Rightarrow> int \<Rightarrow> int" where
  "sumFloatsAndInts x n = s32 (x + s32 (n * fp))"

definition subtractFloatsAndInts :: "int \<Rightarrow> int \<Rightarrow> int" where
  "subtractFloatsAndInts x n = s32 (x - s32 (n * fp))"

definition multiplyFloatsAndInts :: "int \<Rightarrow> int \<Rightarrow> int" where
  "multiplyFloatsAndInts x n = s32 (x * n)"

definition divideFloatsAndInts :: "int \<Rightarrow> int \<Rightarrow> int option" where
  "divideFloatsAndInts x n =
     do { kassert (n \<noteq> 0); kassert (\<not> (x = - (2 ^ 31) \<and> n = - 1)); Some (x sdiv n) }"

section \<open>Rounding\<close>

lemma sdiv_fp: "x sdiv fp = (if 0 \<le> x then x div fp else - (- x div fp))"
  by (auto simp: signed_divide_int_def fp_def sgn_if)

lemma sdiv_mult_fp: "(n * fp) sdiv fp = n"
  unfolding sdiv_fp by (auto simp: fp_def)

lemma s32_range: "- (2 ^ 31) \<le> s32 x \<and> s32 x < 2 ^ 31"
  by (simp add: s32_def)

text \<open>Conversions. An integer of 17 bits survives the trip through fixed point, and rounding
  is to the nearest integer, with ties away from zero.\<close>

theorem fixed_point_rounding:
  assumes "- (2 ^ 17) < n" "n < 2 ^ 17" and "- (2 ^ 31) + 8192 \<le> x" "x < 2 ^ 31 - 8192"
  shows "floatToInt (intToFloat n) = n \<and> floatToIntNearest (intToFloat n) = n
    \<and> 2 * \<bar>x - fp * floatToIntNearest x\<bar> \<le> fp"
proof -
  have conv: "intToFloat n = n * fp"
    using assms unfolding intToFloat_def by (intro s32_small) (simp_all add: fp_def)
  have half: "fp sdiv 2 = 8192" by (simp add: fp_def signed_divide_int_def)
  have near: "floatToIntNearest y = (if 0 < y then (y + 8192) div fp else - ((8192 - y) div fp))"
    if "- (2 ^ 31) + 8192 \<le> y" "y < 2 ^ 31 - 8192" for y
    using that unfolding floatToIntNearest_def half sdiv_fp by (simp add: s32_small)
  have "floatToIntNearest (intToFloat n) = n"
    unfolding conv using assms by (subst near) (auto simp: fp_def)
  moreover have "2 * \<bar>x - fp * floatToIntNearest x\<bar> \<le> fp"
    unfolding near [OF assms(3,4)] fp_def by (simp split: if_split) linarith
  ultimately show ?thesis by (simp add: conv floatToInt_def sdiv_mult_fp)
qed

theorem fixed_point_rounding_witness:
  "floatToInt (intToFloat 59) = 59 \<and> 2 * \<bar>40000 - fp * floatToIntNearest 40000\<bar> \<le> fp"
  using fixed_point_rounding [of 59 40000] by simp

end
