(* ===== verification/Stdlib.thy ===== *)
theory Stdlib
  imports Arith64 "HOL-Library.Multiset"
begin

text \<open>
  \<open>lib/stdlib.c\<close>: sorting and searching arrays of elements of any size, and \<open>atoi\<close>.

  An array is the list of its bytes; an access outside it is a fault. A comparison function gets the
  bytes of two elements and returns a \<open>strcmp\<close>-type result.
\<close>

section \<open>The functions of the source\<close>

type_synonym comparison = "byte list \<Rightarrow> byte list \<Rightarrow> int"

definition compare_thunk :: "comparison \<Rightarrow> comparison" where
  "compare_thunk compare a b = compare a b"

text \<open>The bytes of the element with 1-based index \<open>k\<close>.\<close>

definition elem_bytes :: "byte list \<Rightarrow> nat \<Rightarrow> nat \<Rightarrow> byte list" where
  "elem_bytes array k sz = take sz (drop ((k - 1) * sz) array)"

definition do_swap :: "byte list \<Rightarrow> nat \<Rightarrow> nat \<Rightarrow> nat \<Rightarrow> byte list option" where
  "do_swap array a_idx b_idx sz =
     do {
       kassert (0 < a_idx \<and> a_idx * sz \<le> length array \<and> 0 < b_idx \<and> b_idx * sz \<le> length array);
       let a = (a_idx - 1) * sz;
       let b = (b_idx - 1) * sz;
       Some (fold (\<lambda>i xs. let t = xs ! (a + i) in xs[a + i := xs ! (b + i), b + i := t]) [0..<sz] array)
     }"

definition do_compare :: "byte list \<Rightarrow> nat \<Rightarrow> nat \<Rightarrow> nat \<Rightarrow> comparison \<Rightarrow> int option" where
  "do_compare array a_idx b_idx sz compare =
     do {
       kassert (0 < a_idx \<and> a_idx * sz \<le> length array \<and> 0 < b_idx \<and> b_idx * sz \<le> length array);
       Some (compare (elem_bytes array a_idx sz) (elem_bytes array b_idx sz))
     }"

partial_function (option) heapify :: "byte list \<Rightarrow> nat \<Rightarrow> nat \<Rightarrow> nat \<Rightarrow> comparison \<Rightarrow> byte list option" where
  "heapify array i cnt sz compare =
     do {
       let left = u32 (2 * i);
       let right = u32 (2 * i + 1);
       m \<leftarrow> (if left \<le> cnt
             then do { c \<leftarrow> do_compare array left i sz compare; Some (if 0 < c then left else i) }
             else Some i);
       m \<leftarrow> (if right \<le> cnt
             then do { c \<leftarrow> do_compare array right m sz compare; Some (if 0 < c then right else m) }
             else Some m);
       if m = i then Some array
       else do { array \<leftarrow> do_swap array i m sz; heapify array m cnt sz compare }
     }"

definition sort_array :: "byte list \<Rightarrow> nat \<Rightarrow> nat \<Rightarrow> comparison \<Rightarrow> byte list option" where
  "sort_array array cnt sz compare =
     do {
       kassert (0 < sz);
       array \<leftarrow> mfold (\<lambda>i array. heapify array i cnt sz compare) (rev [1..<Suc (cnt div 2)]) array;
       mfold (\<lambda>i array. do { array \<leftarrow> do_swap array 1 i sz; heapify array 1 (i - 1) sz compare }) (rev [2..<Suc cnt]) array
     }"

definition qsort :: "byte list \<Rightarrow> nat \<Rightarrow> nat \<Rightarrow> comparison \<Rightarrow> byte list option" where
  "qsort array cnt sz compare = sort_array array cnt sz (compare_thunk compare)"

text \<open>The loop of \<open>binary_search\<close> between the offsets \<open>first\<close> and \<open>lst\<close>; the offset of the match is the result, the
  inner \<open>None\<close> the null pointer.\<close>

function search_loop :: "byte list \<Rightarrow> byte list \<Rightarrow> nat \<Rightarrow> nat \<Rightarrow> nat \<Rightarrow> comparison \<Rightarrow> nat option option" where
  "search_loop key array sz first lst compare =
     (if first < lst
      then if sz = 0 then None
        else let range = (lst - first) div sz;
                 middle = first + range div 2 * sz;
                 c = compare key (take sz (drop middle array))
             in if length array < middle + sz then None
                else if c < 0 then search_loop key array sz first middle compare
                else if 0 < c then search_loop key array sz (middle + sz) lst compare
                else Some (Some middle)
      else Some None)"
  by pat_completeness auto
termination
proof (relation "measure (\<lambda>(key, array, sz, first, lst, compare). lst - first)"; clarsimp)
  fix sz first lst :: nat
  assume "first < lst" "0 < sz"
  have "(lst - first) div sz div 2 * sz \<le> (lst - first) div 2"
    by (metis div_mult2_eq mult.commute times_div_less_eq_dividend)
  then have "(lst - first) div sz div 2 * sz < lst - first" using \<open>first < lst\<close> by linarith
  then show "(lst - first) div sz div 2 * sz < lst - first" "lst - (first + (lst - first) div sz div 2 * sz + sz) < lst - first"
    using \<open>0 < sz\<close> \<open>first < lst\<close> by linarith+
qed

declare search_loop.simps [simp del]

definition binary_search :: "byte list \<Rightarrow> byte list \<Rightarrow> nat \<Rightarrow> nat \<Rightarrow> comparison \<Rightarrow> nat option option" where
  "binary_search key array cnt sz compare = search_loop key array sz 0 (sz * cnt) compare"

definition bsearch :: "byte list \<Rightarrow> byte list \<Rightarrow> nat \<Rightarrow> nat \<Rightarrow> comparison \<Rightarrow> nat option option" where
  "bsearch key array cnt sz compare = binary_search key array cnt sz (compare_thunk compare)"

text \<open>The classes of characters of \<open>ctype.h\<close> the sources use.\<close>

definition isspace :: "byte \<Rightarrow> bool" where
  "isspace c \<longleftrightarrow> c = 32 \<or> c = 12 \<or> c = 10 \<or> c = 13 \<or> c = 9 \<or> c = 11"

definition isdigit :: "byte \<Rightarrow> bool" where
  "isdigit c \<longleftrightarrow> 48 \<le> unat c \<and> unat c \<le> 57"

text \<open>A string is the list of its bytes without the terminator, which the end of the list stands for.\<close>

fun skip_space :: "byte list \<Rightarrow> byte list" where
  "skip_space [] = []"
| "skip_space (c # s) = (if isspace c then skip_space s else c # s)"

definition parse_sign :: "byte list \<Rightarrow> bool \<times> byte list" where
  "parse_sign s = (case s of c # t \<Rightarrow> if c = 43 then (False, t) else if c = 45 then (True, t) else (False, s) | [] \<Rightarrow> (False, s))"

fun parse_digits :: "int \<Rightarrow> byte list \<Rightarrow> int" where
  "parse_digits v [] = v"
| "parse_digits v (c # s) = (if isdigit c then parse_digits (s32 (v * 10 - (int (unat c) - 48))) s else v)"

definition atoi :: "byte list \<Rightarrow> int" where
  "atoi s =
     (let (negative, s) = parse_sign (skip_space s);
          v = parse_digits 0 s
      in if \<not> negative then s32 (- v) else v)"

section \<open>An array as a list of elements\<close>

definition elems :: "nat \<Rightarrow> byte list \<Rightarrow> byte list list" where
  "elems sz a = map (\<lambda>k. take sz (drop (k * sz) a)) [0..<length a div sz]"

text \<open>What the comment of \<open>sort\<close> asks of a comparison.\<close>

definition strcmp_type :: "comparison \<Rightarrow> bool" where
  "strcmp_type c \<longleftrightarrow> (\<forall>x y. c x y < 0 \<longleftrightarrow> 0 < c y x) \<and> (\<forall>x y z. c x y \<le> 0 \<longrightarrow> c y z \<le> 0 \<longrightarrow> c x z \<le> 0)"

lemma length_elems: "length (elems sz a) = length a div sz"
  by (simp add: elems_def)

lemma nth_elems: "k < length a div sz \<Longrightarrow> elems sz a ! k = take sz (drop (k * sz) a)"
  by (simp add: elems_def)

lemma elem_bytes_nth: "0 < k \<Longrightarrow> k \<le> length a div sz \<Longrightarrow> elem_bytes a k sz = elems sz a ! (k - 1)"
  by (simp add: elem_bytes_def nth_elems)

lemma in_array: "0 < sz \<Longrightarrow> k \<le> length a div sz \<longleftrightarrow> k * sz \<le> length a"
  by (simp add: less_eq_div_iff_mult_less_eq)

definition swapped :: "nat \<Rightarrow> nat \<Rightarrow> 'a list \<Rightarrow> 'a list" where
  "swapped i j xs = xs[i - 1 := xs ! (j - 1), j - 1 := xs ! (i - 1)]"

lemma swap_bytes:
  fixes xs :: "byte list"
  assumes "a + n \<le> length xs" "b + n \<le> length xs" "a = b \<or> a + n \<le> b \<or> b + n \<le> a"
  shows "fold (\<lambda>i xs. let t = xs ! (a + i) in xs[a + i := xs ! (b + i), b + i := t]) [0..<n] xs =
    map (\<lambda>p. if a \<le> p \<and> p < a + n then xs ! (b + (p - a)) else if b \<le> p \<and> p < b + n then xs ! (a + (p - b)) else xs ! p) [0..<length xs]"
  using assms
proof (induction n)
  case 0
  show ?case by (intro nth_equalityI) auto
next
  case (Suc n)
  define g where "g n p = (if a \<le> p \<and> p < a + n then xs ! (b + (p - a)) else if b \<le> p \<and> p < b + n then xs ! (a + (p - b)) else xs ! p)" for n p
  have IH: "fold (\<lambda>i xs. let t = xs ! (a + i) in xs[a + i := xs ! (b + i), b + i := t]) [0..<n] xs = map (g n) [0..<length xs]"
    unfolding g_def by (rule Suc.IH) (use Suc.prems in auto)
  have ab: "g n (a + n) = xs ! (a + n)" "g n (b + n) = xs ! (b + n)" using Suc.prems(3) by (auto simp: g_def)
  have len: "a + n < length xs" "b + n < length xs" using Suc.prems by simp_all
  have "(map (g n) [0..<length xs])[a + n := g n (b + n), b + n := g n (a + n)] = map (g (Suc n)) [0..<length xs]"
  proof (rule nth_equalityI)
    fix p assume "p < length ((map (g n) [0..<length xs])[a + n := g n (b + n), b + n := g n (a + n)])"
    then have p: "p < length xs" by simp
    have new: "g (Suc n) p = (if p = a + n then xs ! (b + n) else if p = b + n then xs ! (a + n) else g n p)"
      using Suc.prems(3) by (auto simp: g_def less_Suc_eq)
    have eq: "a + n = b + n \<Longrightarrow> a = b" by simp
    show "(map (g n) [0..<length xs])[a + n := g n (b + n), b + n := g n (a + n)] ! p = map (g (Suc n)) [0..<length xs] ! p"
      using p len ab eq by (simp add: nth_list_update new)
  qed simp
  then show ?case using IH len unfolding g_def [symmetric] by (simp add: Let_def)
qed

lemma do_swap_ok:
  assumes sz: "0 < sz" and i: "0 < i" "i \<le> length a div sz" and j: "0 < j" "j \<le> length a div sz"
  shows "\<exists>a'. do_swap a i j sz = Some a' \<and> length a' = length a \<and> elems sz a' = swapped i j (elems sz a)"
proof -
  define A B where "A = (i - 1) * sz" and "B = (j - 1) * sz"
  have fin: "A + sz = i * sz" "B + sz = j * sz" using i(1) j(1) by (simp_all add: A_def B_def diff_mult_distrib)
  have bnd: "A + sz \<le> length a" "B + sz \<le> length a" using i(2) j(2) unfolding in_array [OF sz] fin by simp_all
  have "i - 1 < j - 1 \<Longrightarrow> A + sz \<le> B" "j - 1 < i - 1 \<Longrightarrow> B + sz \<le> A"
    unfolding A_def B_def by (metis Suc_leI add.commute mult_Suc mult_le_mono1)+
  then have sep: "A = B \<or> A + sz \<le> B \<or> B + sz \<le> A" using A_def B_def by (metis nat_neq_iff)
  define f where "f = (\<lambda>p. if A \<le> p \<and> p < A + sz then a ! (B + (p - A)) else if B \<le> p \<and> p < B + sz then a ! (A + (p - B)) else a ! p)"
  let ?a = "map f [0..<length a]"
  have run: "do_swap a i j sz = Some ?a"
    using swap_bytes [OF bnd sep] i j bnd fin unfolding do_swap_def A_def [symmetric] B_def [symmetric] f_def by simp
  have "elems sz ?a = swapped i j (elems sz a)"
  proof (rule nth_equalityI)
    show "length (elems sz ?a) = length (swapped i j (elems sz a))" by (simp add: length_elems swapped_def)
    fix k assume "k < length (elems sz ?a)"
    then have k: "k < length a div sz" by (simp add: length_elems)
    then have kl: "k * sz + sz \<le> length a" using in_array [OF sz, of "Suc k" a] by (simp add: Suc_le_eq)
    have blk: "elems sz ?a ! k = map (\<lambda>q. f (k * sz + q)) [0..<sz]"
      using k kl by (intro nth_equalityI) (simp_all add: nth_elems)
    have old: "elems sz a ! m = map (\<lambda>q. a ! (m * sz + q)) [0..<sz]" if "m < length a div sz" for m
      using that in_array [OF sz, of "Suc m" a] by (intro nth_equalityI) (simp_all add: nth_elems Suc_le_eq)
    have other: "k * sz + q < m * sz \<or> m * sz + sz \<le> k * sz + q" if "k \<noteq> m" "q < sz" for m q
      using that by (cases "k < m") (metis Suc_leI add.commute add_less_cancel_left less_le_trans mult_Suc mult_le_mono1,
        metis Suc_leI add.commute linorder_neqE_nat mult_Suc mult_le_mono1 trans_le_add1)
    have "elems sz ?a ! k = elems sz a ! (if k = i - 1 then j - 1 else if k = j - 1 then i - 1 else k)"
    proof -
      have ij: "i - 1 < length a div sz" "j - 1 < length a div sz" using i j by simp_all
      consider "k = i - 1" | "k = j - 1" "k \<noteq> i - 1" | "k \<noteq> i - 1" "k \<noteq> j - 1" by blast
      then show ?thesis
      proof cases
        case 1
        then show ?thesis unfolding blk using old [OF ij(2)] by (simp add: f_def A_def B_def)
      next
        case 2
        then have "f (k * sz + q) = a ! ((i - 1) * sz + q)" if "q < sz" for q
          using other [of "i - 1" q] that by (auto simp: f_def A_def B_def)
        then show ?thesis unfolding blk using 2 old [OF ij(1)] by simp
      next
        case 3
        then have "f (k * sz + q) = a ! (k * sz + q)" if "q < sz" for q
          using other [of "i - 1" q] other [of "j - 1" q] that by (auto simp: f_def A_def B_def)
        then show ?thesis unfolding blk using 3 old [OF k] by simp
      qed
    qed
    then show "elems sz ?a ! k = swapped i j (elems sz a) ! k"
      using k i j by (auto simp: swapped_def nth_list_update length_elems)
  qed
  then show ?thesis using run by auto
qed

section \<open>Heaps\<close>

text \<open>Elements 1 to \<open>cnt\<close> form a heap below the elements from \<open>lo\<close> on; with \<open>sifting\<close> element \<open>i\<close> may be too small.\<close>

definition heap :: "comparison \<Rightarrow> nat \<Rightarrow> nat \<Rightarrow> byte list list \<Rightarrow> bool" where
  "heap cmp lo cnt L \<longleftrightarrow> (\<forall>c. 2 \<le> c \<and> c \<le> cnt \<and> lo \<le> c div 2 \<longrightarrow> cmp (L ! (c - 1)) (L ! (c div 2 - 1)) \<le> 0)"

definition sifting :: "comparison \<Rightarrow> nat \<Rightarrow> nat \<Rightarrow> nat \<Rightarrow> byte list list \<Rightarrow> bool" where
  "sifting cmp lo cnt i L \<longleftrightarrow>
     (\<forall>c. 2 \<le> c \<and> c \<le> cnt \<and> lo \<le> c div 2 \<and> c div 2 \<noteq> i \<longrightarrow> cmp (L ! (c - 1)) (L ! (c div 2 - 1)) \<le> 0)
     \<and> (\<forall>c. 2 \<le> c \<and> c \<le> cnt \<and> c div 2 = i \<and> lo \<le> i div 2 \<longrightarrow> cmp (L ! (c - 1)) (L ! (i div 2 - 1)) \<le> 0)"

lemma strcmp_typeD:
  assumes "strcmp_type c"
  shows "0 < c x y \<Longrightarrow> c y x < 0" "c x y < 0 \<Longrightarrow> 0 < c y x" "c x y \<le> 0 \<Longrightarrow> c y z \<le> 0 \<Longrightarrow> c x z \<le> 0" "c x x = 0"
proof -
  show "0 < c x y \<Longrightarrow> c y x < 0" "c x y < 0 \<Longrightarrow> 0 < c y x" "c x y \<le> 0 \<Longrightarrow> c y z \<le> 0 \<Longrightarrow> c x z \<le> 0"
    using assms unfolding strcmp_type_def by blast+
  show "c x x = 0" using assms unfolding strcmp_type_def by (metis less_irrefl linorder_less_linear order_less_asym)
qed

lemma swapped_nth:
  "0 < i \<Longrightarrow> i \<le> length L \<Longrightarrow> 0 < j \<Longrightarrow> j \<le> length L \<Longrightarrow> 0 < k \<Longrightarrow> k \<le> length L \<Longrightarrow>
    swapped i j L ! (k - 1) = L ! ((if k = i then j else if k = j then i else k) - 1)"
  by (auto simp: swapped_def nth_list_update)

lemma heap_root:
  assumes c: "strcmp_type cmp" and h: "heap cmp 1 cnt L"
  shows "0 < k \<Longrightarrow> k \<le> cnt \<Longrightarrow> cmp (L ! (k - 1)) (L ! 0) \<le> 0"
proof (induction k rule: less_induct)
  case (less k)
  show ?case
  proof (cases "k = 1")
    case False
    then have "k div 2 < k" "0 < k div 2" "k div 2 \<le> cnt" using less.prems by auto
    then have "cmp (L ! (k div 2 - 1)) (L ! 0) \<le> 0" using less.IH by blast
    moreover have "cmp (L ! (k - 1)) (L ! (k div 2 - 1)) \<le> 0" using h False less.prems \<open>0 < k div 2\<close> by (simp add: heap_def)
    ultimately show ?thesis using strcmp_typeD(3) [OF c] by blast
  qed (simp add: strcmp_typeD(4) [OF c])
qed

text \<open>One turn of \<open>heapify\<close>: the child it descends to, if any.\<close>

definition largest :: "comparison \<Rightarrow> nat \<Rightarrow> nat \<Rightarrow> byte list list \<Rightarrow> nat" where
  "largest cmp cnt i L =
     (let m = (if 2 * i \<le> cnt \<and> 0 < cmp (L ! (2 * i - 1)) (L ! (i - 1)) then 2 * i else i)
      in if 2 * i + 1 \<le> cnt \<and> 0 < cmp (L ! (2 * i)) (L ! (m - 1)) then 2 * i + 1 else m)"

lemma largest_child:
  assumes c: "strcmp_type cmp" and i: "0 < i" "i \<le> cnt" and m: "m = largest cmp cnt i L"
  shows "m = i \<or> m = 2 * i \<or> m = 2 * i + 1" "m \<le> cnt"
    "d div 2 = i \<Longrightarrow> d \<le> cnt \<Longrightarrow> cmp (L ! (d - 1)) (L ! (m - 1)) \<le> 0" "cmp (L ! (i - 1)) (L ! (m - 1)) \<le> 0"
proof -
  define l where "l = (if 2 * i \<le> cnt \<and> 0 < cmp (L ! (2 * i - 1)) (L ! (i - 1)) then 2 * i else i)"
  have m': "m = (if 2 * i + 1 \<le> cnt \<and> 0 < cmp (L ! (2 * i)) (L ! (l - 1)) then 2 * i + 1 else l)"
    by (simp add: m largest_def l_def Let_def)
  have l: "cmp (L ! (i - 1)) (L ! (l - 1)) \<le> 0" "2 * i \<le> cnt \<Longrightarrow> cmp (L ! (2 * i - 1)) (L ! (l - 1)) \<le> 0"
    using strcmp_typeD(1,4) [OF c] by (auto simp: l_def not_less less_imp_le)
  have lm: "cmp (L ! (l - 1)) (L ! (m - 1)) \<le> 0" "2 * i + 1 \<le> cnt \<Longrightarrow> cmp (L ! (2 * i)) (L ! (m - 1)) \<le> 0"
    using strcmp_typeD(1,4) [OF c] by (auto simp: m' not_less less_imp_le)
  show "m = i \<or> m = 2 * i \<or> m = 2 * i + 1" "m \<le> cnt" using i by (auto simp: m' l_def)
  show "cmp (L ! (i - 1)) (L ! (m - 1)) \<le> 0" using l(1) lm(1) strcmp_typeD(3) [OF c] by blast
  assume d: "d div 2 = i" "d \<le> cnt"
  then have "d = 2 * i \<or> d = 2 * i + 1" by auto
  then show "cmp (L ! (d - 1)) (L ! (m - 1)) \<le> 0"
  proof
    assume e: "d = 2 * i"
    then show ?thesis using strcmp_typeD(3) [OF c l(2) lm(1)] d(2) by simp
  next
    assume "d = 2 * i + 1"
    then show ?thesis using lm(2) d(2) by simp
  qed
qed

lemma sift_step:
  assumes c: "strcmp_type cmp" and i: "0 < i" "i \<le> cnt" "cnt \<le> length L" and s: "sifting cmp lo cnt i L" and m: "m = largest cmp cnt i L"
    and lo: "lo \<le> i"
  shows "m = i \<Longrightarrow> heap cmp lo cnt L" "m \<noteq> i \<Longrightarrow> sifting cmp lo cnt m (swapped i m L)"
proof -
  note M = largest_child [OF c i(1,2) m]
  show "heap cmp lo cnt L" if "m = i"
    unfolding heap_def
  proof (intro allI impI)
    fix d assume d: "2 \<le> d \<and> d \<le> cnt \<and> lo \<le> d div 2"
    then show "cmp (L ! (d - 1)) (L ! (d div 2 - 1)) \<le> 0"
      using s M(3) [of d] that by (cases "d div 2 = i") (auto simp: sifting_def)
  qed
  assume mi: "m \<noteq> i"
  then have m2: "m div 2 = i" "i < m" "2 \<le> m" using M(1) i(1) by auto
  have sw: "swapped i m L ! (k - 1) = L ! ((if k = i then m else if k = m then i else k) - 1)" if "0 < k" "k \<le> cnt" for k
    using that i M(2) m2 by (intro swapped_nth) auto
  show "sifting cmp lo cnt m (swapped i m L)"
    unfolding sifting_def
  proof (intro conjI allI impI)
    fix d assume d: "2 \<le> d \<and> d \<le> cnt \<and> lo \<le> d div 2 \<and> d div 2 \<noteq> m"
    then have p: "0 < d div 2" "d div 2 \<le> cnt" "0 < d" "d div 2 < d" by auto
    show "cmp (swapped i m L ! (d - 1)) (swapped i m L ! (d div 2 - 1)) \<le> 0"
    proof (cases "d div 2 = i")
      case True
      then show ?thesis using sw [of d] sw [of "d div 2"] p d M(3) [of d] M(4) m2 by auto
    next
      case False
      then have "cmp (L ! (d - 1)) (L ! (d div 2 - 1)) \<le> 0" using s d by (simp add: sifting_def)
      moreover have "d = i \<Longrightarrow> cmp (L ! (m - 1)) (L ! (i div 2 - 1)) \<le> 0" using s d m2 M(2) by (auto simp: sifting_def)
      moreover have "d \<noteq> m" using False m2 by auto
      ultimately show ?thesis using sw [of d] sw [of "d div 2"] p d False by auto
    qed
  next
    fix d assume d: "2 \<le> d \<and> d \<le> cnt \<and> d div 2 = m \<and> lo \<le> m div 2"
    then have "d \<noteq> i" "d \<noteq> m" "0 < d" using m2 by auto
    moreover have "cmp (L ! (d - 1)) (L ! (m - 1)) \<le> 0"
    proof -
      have "d div 2 \<noteq> i" "lo \<le> d div 2" using d mi m2 lo by auto
      then show ?thesis using s d unfolding sifting_def by blast
    qed
    ultimately show "cmp (swapped i m L ! (d - 1)) (swapped i m L ! (m div 2 - 1)) \<le> 0"
      using sw [of d] sw [of i] d m2 i by auto
  qed
qed

lemma do_compare_ok:
  assumes "0 < sz" "0 < k" "k \<le> length a div sz" "0 < l" "l \<le> length a div sz"
  shows "do_compare a k l sz cmp = Some (cmp (elems sz a ! (k - 1)) (elems sz a ! (l - 1)))"
  using assms elem_bytes_nth [of k a sz] elem_bytes_nth [of l a sz] in_array [OF assms(1), of k a] in_array [OF assms(1), of l a]
  by (simp add: do_compare_def)

lemma heapify_turn:
  assumes sz: "0 < sz" and i: "0 < i" "i \<le> cnt" and cnt: "cnt \<le> length a div sz" "cnt < 2 ^ 31"
  shows "heapify a i cnt sz cmp = (let m = largest cmp cnt i (elems sz a) in
    if m = i then Some a else do { a \<leftarrow> do_swap a i m sz; heapify a m cnt sz cmp })"
proof -
  let ?L = "elems sz a"
  have u: "u32 (2 * i) = 2 * i" "u32 (Suc (2 * i)) = Suc (2 * i)" using i cnt by (simp_all add: u32_def)
  define l where "l = (if 2 * i \<le> cnt \<and> 0 < cmp (?L ! (2 * i - 1)) (?L ! (i - 1)) then 2 * i else i)"
  have l: "0 < l" "l \<le> length a div sz" using i cnt by (auto simp: l_def)
  have one: "(if 2 * i \<le> cnt then do { c \<leftarrow> do_compare a (2 * i) i sz cmp; Some (if 0 < c then 2 * i else i) } else Some i) = Some l"
    using do_compare_ok [OF sz, of "2 * i" a i cmp] i cnt by (simp add: l_def)
  have lg: "largest cmp cnt i ?L = (if Suc (2 * i) \<le> cnt \<and> 0 < cmp (?L ! (2 * i)) (?L ! (l - 1)) then Suc (2 * i) else l)"
    by (simp add: largest_def l_def Let_def)
  have two: "(if Suc (2 * i) \<le> cnt then do { c \<leftarrow> do_compare a (Suc (2 * i)) l sz cmp; Some (if 0 < c then Suc (2 * i) else l) } else Some l)
      = Some (largest cmp cnt i ?L)"
    using do_compare_ok [OF sz _ _ l, of "Suc (2 * i)" cmp] cnt by (simp add: lg)
  show ?thesis by (subst heapify.simps) (simp add: Let_def u one two)
qed

lemma swapped_parts:
  assumes "0 < i" "i \<le> cnt" "0 < j" "j \<le> cnt" "cnt \<le> length L"
  shows "mset (take cnt (swapped i j L)) = mset (take cnt L)" "drop cnt (swapped i j L) = drop cnt L"
proof -
  have "take cnt (swapped i j L) = (take cnt L)[i - 1 := take cnt L ! (j - 1), j - 1 := take cnt L ! (i - 1)]"
    using assms by (simp add: swapped_def take_update_swap)
  then show "mset (take cnt (swapped i j L)) = mset (take cnt L)" using assms mset_swap [of "j - 1" "take cnt L" "i - 1"] by simp
  show "drop cnt (swapped i j L) = drop cnt L" using assms by (simp add: swapped_def)
qed

lemma heapify_ok:
  assumes c: "strcmp_type cmp" and sz: "0 < sz"
  shows "0 < i \<Longrightarrow> i \<le> cnt \<Longrightarrow> lo \<le> i \<Longrightarrow> cnt \<le> length a div sz \<Longrightarrow> cnt < 2 ^ 31 \<Longrightarrow> sifting cmp lo cnt i (elems sz a) \<Longrightarrow>
    \<exists>a'. heapify a i cnt sz cmp = Some a' \<and> length a' = length a \<and> heap cmp lo cnt (elems sz a')
      \<and> mset (take cnt (elems sz a')) = mset (take cnt (elems sz a)) \<and> drop cnt (elems sz a') = drop cnt (elems sz a)"
proof (induction "cnt - i" arbitrary: i a rule: less_induct)
  case less
  let ?L = "elems sz a"
  define m where "m = largest cmp cnt i ?L"
  have len: "cnt \<le> length ?L" using less.prems(4) by (simp add: length_elems)
  note M = largest_child [OF c less.prems(1,2) m_def] and S = sift_step [OF c less.prems(1,2) len less.prems(6) m_def less.prems(3)]
  note turn = heapify_turn [OF sz less.prems(1,2,4,5), of cmp, folded m_def]
  show ?case
  proof (cases "m = i")
    case True
    then show ?thesis using turn S(1) by simp
  next
    case False
    then have m: "0 < m" "m \<le> cnt" "i < m" using M less.prems(1) by auto
    obtain a1 where a1: "do_swap a i m sz = Some a1" "length a1 = length a" "elems sz a1 = swapped i m ?L"
      using do_swap_ok [OF sz, of i a m] less.prems m by auto
    have "\<exists>a'. heapify a1 m cnt sz cmp = Some a' \<and> length a' = length a1 \<and> heap cmp lo cnt (elems sz a')
      \<and> mset (take cnt (elems sz a')) = mset (take cnt (elems sz a1)) \<and> drop cnt (elems sz a') = drop cnt (elems sz a1)"
      using m less.prems S(2) [OF False] a1 by (intro less.hyps) auto
    then show ?thesis using turn False a1 swapped_parts [OF less.prems(1,2) m(1,2) len] by (auto simp: Let_def)
  qed
qed

section \<open>Sorting\<close>

lemma rev_upt_split: "rev [a..<b] = ys @ x # zs \<Longrightarrow> x = b - 1 - length ys \<and> a \<le> x \<and> length ys < b - a"
proof -
  assume split: "rev [a..<b] = ys @ x # zs"
  then have len: "length ys < b - a" by (metis add_less_same_cancel1 length_append length_rev length_upt list.size(4) not_add_less1 not_less_eq
    linorder_not_less le_add1 add_Suc_right less_Suc_eq_le)
  have "x = rev [a..<b] ! length ys" using split by simp
  then show ?thesis using len by (simp add: rev_nth)
qed

text \<open>The first loop builds a heap from the bottom up.\<close>

lemma build_ok:
  assumes c: "strcmp_type cmp" and sz: "0 < sz" and cnt: "cnt = length a div sz" "cnt < 2 ^ 31"
  shows "\<exists>a'. mfold (\<lambda>i array. heapify array i cnt sz cmp) (rev [1..<Suc (cnt div 2)]) a = Some a'
    \<and> length a' = length a \<and> mset (elems sz a') = mset (elems sz a) \<and> heap cmp 1 cnt (elems sz a')"
proof -
  let ?I = "\<lambda>ys b. length b = length a \<and> mset (elems sz b) = mset (elems sz a) \<and> heap cmp (Suc (cnt div 2) - length ys) cnt (elems sz b)"
  have "\<exists>a'. mfold (\<lambda>i array. heapify array i cnt sz cmp) (rev [1..<Suc (cnt div 2)]) a = Some a' \<and> ?I (rev [1..<Suc (cnt div 2)]) a'"
  proof (rule mfold_invariant)
    have "\<not> Suc (cnt div 2) \<le> d div 2" if "d \<le> cnt" for d using div_le_mono [OF that, of 2] by simp
    then show "?I [] a" by (auto simp: heap_def)
  next
    fix ys x zs b assume "rev [1..<Suc (cnt div 2)] = ys @ x # zs" and b: "?I ys b"
    then have x: "x = cnt div 2 - length ys" "1 \<le> x" using rev_upt_split [of 1 "Suc (cnt div 2)" ys x zs] by auto
    then have lo: "Suc (cnt div 2) - length ys = Suc x" "Suc (cnt div 2) - length (ys @ [x]) = x" by auto
    have "x \<le> cnt" using x by auto
    have "sifting cmp x cnt x (elems sz b)" using b x(2) unfolding sifting_def heap_def lo by auto
    then obtain b' where b': "heapify b x cnt sz cmp = Some b'" "length b' = length b" "heap cmp x cnt (elems sz b')"
        "mset (take cnt (elems sz b')) = mset (take cnt (elems sz b))" "drop cnt (elems sz b') = drop cnt (elems sz b)"
      using heapify_ok [OF c sz, of x cnt x b] x(2) \<open>x \<le> cnt\<close> b cnt by auto
    have "take cnt (elems sz b') = elems sz b'" "take cnt (elems sz b) = elems sz b" using b b'(2) cnt(1) by (simp_all add: length_elems)
    then show "\<exists>t'. heapify b x cnt sz cmp = Some t' \<and> ?I (ys @ [x]) t'" using b b' unfolding lo by simp
  qed
  moreover have "Suc (cnt div 2) - length (rev [1..<Suc (cnt div 2)]) = 1" by (simp only: length_rev length_upt)
  ultimately show ?thesis by (simp del: upt_Suc)
qed

definition sorted_by :: "comparison \<Rightarrow> byte list list \<Rightarrow> bool" where
  "sorted_by cmp L \<longleftrightarrow> sorted_wrt (\<lambda>x y. cmp x y \<le> 0) L"

text \<open>The second loop: behind the heap of the first \<open>k\<close> elements the others are in order, and none of them is smaller.\<close>

definition half_sorted :: "comparison \<Rightarrow> nat \<Rightarrow> byte list list \<Rightarrow> bool" where
  "half_sorted cmp k L \<longleftrightarrow> heap cmp 1 k L \<and> sorted_by cmp (drop k L) \<and> (\<forall>x\<in>set (take k L). \<forall>y\<in>set (drop k L). cmp x y \<le> 0)"

lemma swap_root:
  assumes c: "strcmp_type cmp" and k: "2 \<le> k" "k \<le> length L" and h: "half_sorted cmp k L"
  shows "sifting cmp 1 (k - 1) 1 (swapped 1 k L)" "sorted_by cmp (drop (k - 1) (swapped 1 k L))"
    "\<forall>x\<in>set (take (k - 1) (swapped 1 k L)). \<forall>y\<in>set (drop (k - 1) (swapped 1 k L)). cmp x y \<le> 0"
proof -
  have heap: "heap cmp 1 k L" and srt: "sorted_by cmp (drop k L)" and le: "\<And>x y. x \<in> set (take k L) \<Longrightarrow> y \<in> set (drop k L) \<Longrightarrow> cmp x y \<le> 0"
    using h by (auto simp: half_sorted_def)
  have sw: "swapped 1 k L ! (d - 1) = L ! ((if d = 1 then k else if d = k then 1 else d) - 1)" if "0 < d" "d \<le> k" for d
    using that k by (intro swapped_nth) auto
  show "sifting cmp 1 (k - 1) 1 (swapped 1 k L)"
    unfolding sifting_def
  proof (intro conjI allI impI)
    fix d assume d: "2 \<le> d \<and> d \<le> k - 1 \<and> 1 \<le> d div 2 \<and> d div 2 \<noteq> 1"
    then have "d \<le> k" "d \<noteq> k" "d \<noteq> 1" "d div 2 \<le> k" "d div 2 \<noteq> k" "0 < d" "0 < d div 2" by auto
    then show "cmp (swapped 1 k L ! (d - 1)) (swapped 1 k L ! (d div 2 - 1)) \<le> 0"
      using sw [of d] sw [of "d div 2"] heap d by (auto simp: heap_def)
  qed auto
  have first: "L ! 0 \<in> set (take k L)" using k nth_mem [of 0 "take k L"] by simp
  have "swapped 1 k L ! (k - 1) = L ! 0" using sw [of k] k by simp
  moreover have "drop k (swapped 1 k L) = drop k L" using k swapped_parts(2) [of 1 k k L] by simp
  moreover have "drop (k - 1) (swapped 1 k L) = swapped 1 k L ! (k - 1) # drop k (swapped 1 k L)"
    using k Cons_nth_drop_Suc [of "k - 1" "swapped 1 k L"] by (simp add: swapped_def)
  ultimately have D: "drop (k - 1) (swapped 1 k L) = L ! 0 # drop k L" by simp
  show "sorted_by cmp (drop (k - 1) (swapped 1 k L))" unfolding D using srt le [OF first] by (simp add: sorted_by_def)
  have T: "set (take (k - 1) (swapped 1 k L)) \<subseteq> set (take k L)"
  proof -
    have "set (take (k - 1) (swapped 1 k L)) \<subseteq> set (take k (swapped 1 k L))" by (rule set_take_subset_set_take) simp
    also have "\<dots> = set (take k L)" using k by (intro mset_eq_setD swapped_parts(1)) auto
    finally show ?thesis .
  qed
  have root: "cmp x (L ! 0) \<le> 0" if "x \<in> set (take k L)" for x
  proof -
    obtain j where "j < k" "j < length L" "x = L ! j" using \<open>x \<in> set (take k L)\<close> by (auto simp: in_set_conv_nth)
    then show ?thesis using heap_root [OF c heap, of "Suc j"] by simp
  qed
  show "\<forall>x\<in>set (take (k - 1) (swapped 1 k L)). \<forall>y\<in>set (drop (k - 1) (swapped 1 k L)). cmp x y \<le> 0"
    unfolding D using T root le by auto
qed

lemma sort_loop_ok:
  assumes c: "strcmp_type cmp" and sz: "0 < sz" and cnt: "cnt = length a div sz" "cnt < 2 ^ 31" and h: "heap cmp 1 cnt (elems sz a)"
  shows "\<exists>a'. mfold (\<lambda>i array. do { array \<leftarrow> do_swap array 1 i sz; heapify array 1 (i - 1) sz cmp }) (rev [2..<Suc cnt]) a = Some a'
    \<and> length a' = length a \<and> mset (elems sz a') = mset (elems sz a) \<and> half_sorted cmp (cnt - (cnt - 1)) (elems sz a')"
proof -
  let ?f = "\<lambda>i array. do { array \<leftarrow> do_swap array 1 i sz; heapify array 1 (i - 1) sz cmp }"
  let ?I = "\<lambda>ys b. length b = length a \<and> mset (elems sz b) = mset (elems sz a) \<and> half_sorted cmp (cnt - length ys) (elems sz b)"
  have "\<exists>a'. mfold ?f (rev [2..<Suc cnt]) a = Some a' \<and> ?I (rev [2..<Suc cnt]) a'"
  proof (rule mfold_invariant)
    show "?I [] a" using h cnt(1) by (simp add: half_sorted_def sorted_by_def length_elems)
  next
    fix ys x zs b assume "rev [2..<Suc cnt] = ys @ x # zs" and b: "?I ys b"
    then have x: "x = cnt - length ys" "2 \<le> x" using rev_upt_split [of 2 "Suc cnt" ys x zs] by auto
    have len: "x \<le> length (elems sz b)" "x \<le> length b div sz" using x b cnt(1) by (simp_all add: length_elems)
    obtain b1 where b1: "do_swap b 1 x sz = Some b1" "length b1 = length b" "elems sz b1 = swapped 1 x (elems sz b)"
      using do_swap_ok [OF sz, of 1 b x] x(2) len by auto
    have hs: "half_sorted cmp x (elems sz b)" using b x(1) by simp
    note R = swap_root [OF c x(2) len(1) hs]
    have pre: "1 \<le> x - 1" "x - 1 \<le> length b1 div sz" "x - 1 < 2 ^ 31" using x len b1(2) cnt by auto
    obtain b2 where b2: "heapify b1 1 (x - 1) sz cmp = Some b2" "length b2 = length b1" "heap cmp 1 (x - 1) (elems sz b2)"
        "mset (take (x - 1) (elems sz b2)) = mset (take (x - 1) (elems sz b1))" "drop (x - 1) (elems sz b2) = drop (x - 1) (elems sz b1)"
      using heapify_ok [OF c sz _ pre(1) order_refl pre(2,3)] R(1) b1(3) by auto
    have "set (take (x - 1) (elems sz b2)) = set (take (x - 1) (elems sz b1))" using b2(4) by (rule mset_eq_setD)
    then have "half_sorted cmp (x - 1) (elems sz b2)" using b2(3,5) R(2,3) b1(3) by (simp add: half_sorted_def)
    moreover have "mset (elems sz b2) = mset (elems sz b1)"
      using b2(4,5) append_take_drop_id [of "x - 1" "elems sz b1"] append_take_drop_id [of "x - 1" "elems sz b2"] by (metis mset_append)
    moreover have "mset (elems sz b1) = mset (elems sz b)"
      using swapped_parts(1) [of 1 "length (elems sz b)" x "elems sz b"] x(2) len(1) b1(3) by (simp add: swapped_def)
    ultimately show "\<exists>t'. ?f x b = Some t' \<and> ?I (ys @ [x]) t'" using b b1(1,2) b2(1,2) x by (auto intro!: exI [of _ b2])
  qed
  moreover have "length (rev [2..<Suc cnt]) = cnt - 1" by (simp only: length_rev length_upt)
  ultimately show ?thesis by (simp del: upt_Suc)
qed

lemma half_sorted_one: "half_sorted cmp (cnt - (cnt - 1)) L \<Longrightarrow> length L = cnt \<Longrightarrow> sorted_by cmp L"
  by (cases L) (auto simp: half_sorted_def sorted_by_def)

lemma sort_array_ok:
  assumes c: "strcmp_type cmp" and sz: "0 < sz" and cnt: "length a = cnt * sz" "cnt < 2 ^ 31"
  shows "\<exists>a'. sort_array a cnt sz cmp = Some a' \<and> length a' = length a \<and> mset (elems sz a') = mset (elems sz a) \<and> sorted_by cmp (elems sz a')"
proof -
  have n: "cnt = length a div sz" using cnt(1) sz by simp
  obtain a1 where a1: "mfold (\<lambda>i array. heapify array i cnt sz cmp) (rev [1..<Suc (cnt div 2)]) a = Some a1" "length a1 = length a"
      "mset (elems sz a1) = mset (elems sz a)" "heap cmp 1 cnt (elems sz a1)" using build_ok [OF c sz n cnt(2)] by blast
  have n1: "cnt = length a1 div sz" using n a1(2) by simp
  obtain a2 where a2: "mfold (\<lambda>i array. do { array \<leftarrow> do_swap array 1 i sz; heapify array 1 (i - 1) sz cmp }) (rev [2..<Suc cnt]) a1 = Some a2"
      "length a2 = length a1" "mset (elems sz a2) = mset (elems sz a1)" "half_sorted cmp (cnt - (cnt - 1)) (elems sz a2)"
    using sort_loop_ok [OF c sz n1 cnt(2) a1(4)] by blast
  have "sorted_by cmp (elems sz a2)" using half_sorted_one [OF a2(4)] n1 a2(2) by (simp add: length_elems)
  then show ?thesis using a1 a2 sz by (simp add: sort_array_def del: upt_Suc)
qed

section \<open>Searching\<close>

lemma elem_drop: "k < length a div sz \<Longrightarrow> 0 < sz \<Longrightarrow> k * sz + sz \<le> length a \<and> take sz (drop (k * sz) a) = elems sz a ! k"
  using in_array [of sz "Suc k" a] by (simp add: nth_elems Suc_le_eq)

lemma search_loop_ok:
  assumes c: "strcmp_type cmp" and sz: "0 < sz" and s: "sorted_by cmp (elems sz a)"
  shows "lo \<le> hi \<Longrightarrow> hi \<le> length a div sz \<Longrightarrow>
    (\<And>k. k < length a div sz \<Longrightarrow> cmp key (elems sz a ! k) = 0 \<Longrightarrow> lo \<le> k \<and> k < hi) \<Longrightarrow>
    (case search_loop key a sz (lo * sz) (hi * sz) cmp of
       Some (Some p) \<Rightarrow> \<exists>k<length a div sz. p = k * sz \<and> cmp key (elems sz a ! k) = 0
     | Some None \<Rightarrow> \<forall>k<length a div sz. cmp key (elems sz a ! k) \<noteq> 0
     | None \<Rightarrow> False)"
proof (induction "hi - lo" arbitrary: lo hi rule: less_induct)
  case less
  show ?case
  proof (cases "lo = hi")
    case True
    then have "search_loop key a sz (lo * sz) (hi * sz) cmp = Some None" by (simp add: search_loop.simps)
    then show ?thesis using less.prems(3) True by force
  next
    case False
    define m where "m = lo + (hi - lo) div 2"
    have m: "lo \<le> m" "m < hi" "m < length a div sz" using False less.prems(1,2) by (auto simp: m_def)
    have mid: "lo * sz + (hi * sz - lo * sz) div sz div 2 * sz = m * sz" using sz by (simp add: m_def add_mult_distrib flip: diff_mult_distrib)
    note E = elem_drop [OF m(3) sz]
    let ?c = "cmp key (elems sz a ! m)"
    have lt: "lo * sz < hi * sz" using False less.prems(1) sz by simp
    have step: "search_loop key a sz (lo * sz) (hi * sz) cmp =
        (if ?c < 0 then search_loop key a sz (lo * sz) (m * sz) cmp
         else if 0 < ?c then search_loop key a sz (Suc m * sz) (hi * sz) cmp else Some (Some (m * sz)))"
      using lt sz E by (subst search_loop.simps) (simp add: mid Let_def add.commute)
    have ord: "cmp (elems sz a ! j) (elems sz a ! k) \<le> 0" if "j \<le> k" "k < length a div sz" for j k
      using that s strcmp_typeD(4) [OF c] sorted_wrt_nth_less [of _ "elems sz a" j k] by (cases "j = k") (auto simp: sorted_by_def length_elems)
    consider "?c < 0" | "0 < ?c" | "?c = 0" by linarith
    then show ?thesis
    proof cases
      case 1
      have "k < m" if "k < length a div sz" "cmp key (elems sz a ! k) = 0" for k
      proof (rule ccontr)
        assume "\<not> k < m"
        then have "cmp (elems sz a ! m) (elems sz a ! k) \<le> 0" using ord that(1) by simp
        moreover have "cmp (elems sz a ! k) key \<le> 0" using strcmp_typeD(2) [OF c, of "elems sz a ! k" key] that(2)
          by (metis not_less order_less_irrefl strcmp_typeD(1) [OF c])
        ultimately have "cmp (elems sz a ! m) key \<le> 0" using strcmp_typeD(3) [OF c] by blast
        then show False using strcmp_typeD(2) [OF c 1] by simp
      qed
      then show ?thesis unfolding step using 1 less.hyps [of m lo] m less.prems by auto
    next
      case 2
      have "Suc m \<le> k" if "k < length a div sz" "cmp key (elems sz a ! k) = 0" for k
      proof (rule ccontr)
        assume "\<not> Suc m \<le> k"
        then have "cmp (elems sz a ! k) (elems sz a ! m) \<le> 0" using ord m(3) by simp
        then have "cmp key (elems sz a ! m) \<le> 0" using strcmp_typeD(3) [OF c, of key "elems sz a ! k"] that(2) by simp
        then show False using 2 by simp
      qed
      then show ?thesis unfolding step using 2 less.hyps [of hi "Suc m"] m less.prems by auto
    next
      case 3
      then show ?thesis unfolding step using m by auto
    qed
  qed
qed

section \<open>Reading numbers\<close>

text \<open>The digits of a number in decimal, most significant first; none for 0.\<close>

fun decimal :: "nat \<Rightarrow> byte list" where
  "decimal n = (if n = 0 then [] else decimal (n div 10) @ [word_of_nat (48 + n mod 10)])"

declare decimal.simps [simp del]

lemma digit_byte: "d < 10 \<Longrightarrow> isdigit (word_of_nat (48 + d)) \<and> unat (word_of_nat (48 + d) :: byte) = 48 + d"
  by (simp add: isdigit_def unsigned_of_nat take_bit_eq_mod del: of_nat_add)

lemma s32_in_range: "- (2 ^ 31) \<le> x \<Longrightarrow> x < 2 ^ 31 \<Longrightarrow> s32 x = x"
  by (simp add: s32_def)

lemma parse_digits_append: "\<forall>c\<in>set ds. isdigit c \<Longrightarrow> parse_digits v (ds @ r) = parse_digits (parse_digits v ds) r"
  by (induction ds arbitrary: v) auto

lemma decimal_digits: "\<forall>c\<in>set (decimal n). isdigit c"
proof (induction n rule: decimal.induct)
  case (1 n)
  show ?case using 1 digit_byte [of "n mod 10"] by (subst decimal.simps) auto
qed

lemma parse_decimal: "n \<le> 2 ^ 31 \<Longrightarrow> parse_digits 0 (decimal n) = - int n"
proof (induction n rule: decimal.induct)
  case (1 n)
  show ?case
  proof (cases "n = 0")
    case False
    have d: "n mod 10 < 10" by simp
    note D = digit_byte [OF d]
    have "parse_digits 0 (decimal n) = parse_digits (- int (n div 10)) [word_of_nat (48 + n mod 10)]"
      using False 1 decimal_digits [of "n div 10"] by (subst decimal.simps) (simp add: parse_digits_append)
    also have "\<dots> = s32 (- int (n div 10) * 10 - int (n mod 10))" using D by simp
    also have "- int (n div 10) * 10 - int (n mod 10) = - int n" by (simp add: zdiv_int zmod_int) presburger
    finally show ?thesis using 1(2) by (simp add: s32_in_range)
  qed (simp add: decimal.simps)
qed

section \<open>What the functions guarantee\<close>

text \<open>(C23) \<open>sort\<close>, and with it \<open>qsort\<close>, is correct on every array of fewer than \<open>2 ^ 31\<close> elements of any size and for every
  comparison that is a total preorder: it returns, never leaves the array, and the elements it leaves are
  those of the array in order.\<close>

theorem qsort_correct:
  assumes "strcmp_type compare" "0 < sz" "length array = cnt * sz" "cnt < 2 ^ 31"
  shows "\<exists>array'. qsort array cnt sz compare = Some array' \<and> length array' = length array
    \<and> mset (elems sz array') = mset (elems sz array) \<and> sorted_by compare (elems sz array')"
proof -
  have "compare_thunk compare = compare" by (simp add: fun_eq_iff compare_thunk_def)
  then show ?thesis using sort_array_ok [OF assms] by (simp add: qsort_def)
qed

definition by_first :: comparison where
  "by_first x y = int (unat (hd x)) - int (unat (hd y))"

lemma by_first: "strcmp_type by_first"
  by (auto simp: strcmp_type_def by_first_def)

theorem qsort_correct_witness:
  "\<exists>array'. qsort [3, 0, 1, 0, 2, 0] 3 2 by_first = Some array' \<and> mset (elems 2 array') = {#[1, 0], [2, 0], [3, 0]#} \<and> sorted_by by_first (elems 2 array')"
proof -
  have "elems 2 [3, 0, 1, 0, 2, 0 :: byte] = [[3, 0], [1, 0], [2, 0]]" by (simp add: elems_def upt_rec)
  then show ?thesis using qsort_correct [OF by_first, of 2 "[3, 0, 1, 0, 2, 0]" 3] by (auto simp: add_mset_commute)
qed

text \<open>\<open>bsearch\<close> on a sorted array returns the offset of an element equal to the key if there is one, and a null
  pointer if there is none; it always returns and never reads outside the array.\<close>

theorem bsearch_correct:
  assumes "strcmp_type compare" "0 < sz" "length array = cnt * sz" "sorted_by compare (elems sz array)"
  shows "case bsearch key array cnt sz compare of
       Some (Some p) \<Rightarrow> \<exists>k<cnt. p = k * sz \<and> compare key (elems sz array ! k) = 0
     | Some None \<Rightarrow> \<forall>k<cnt. compare key (elems sz array ! k) \<noteq> 0
     | None \<Rightarrow> False"
proof -
  have thunk: "compare_thunk compare = compare" by (simp add: fun_eq_iff compare_thunk_def)
  have n: "length array div sz = cnt" using assms(2,3) by simp
  show ?thesis
    using search_loop_ok [OF assms(1,2,4), of 0 cnt key, unfolded n] thunk by (simp add: bsearch_def binary_search_def mult.commute)
qed

theorem bsearch_correct_witness:
  "case bsearch [2] [1, 2, 5] 3 1 by_first of Some (Some p) \<Rightarrow> \<exists>k<3. p = k * 1 \<and> by_first [2] (elems 1 [1, 2, 5] ! k) = 0
     | Some None \<Rightarrow> \<forall>k<3. by_first [2] (elems 1 [1, 2, 5] ! k) \<noteq> 0 | None \<Rightarrow> False"
proof -
  have "elems 1 [1, 2, 5 :: byte] = [[1], [2], [5]]" by (simp add: elems_def upt_rec)
  then have "sorted_by by_first (elems 1 [1, 2, 5])" by (simp add: sorted_by_def by_first_def)
  then show ?thesis using bsearch_correct [OF by_first, of 1 "[1, 2, 5]" 3 "[2]"] by simp
qed

end
