(* ===== verification/Stdio.thy ===== *)
theory Stdio
  imports Stdlib Kstring
begin

text \<open>
  \<open>lib/stdio.c\<close>: formatted output. A format string is the list of its bytes without the terminator; what is
  output is the list of the characters handed to the \<open>output\<close> function, in order.

  A \<open>va_list\<close> is the list of the 32-bit words still on the stack; an argument of 64 bits is two of them, the low
  one first. Reading past the arguments, past the end of the format or past a buffer is a fault (\<open>None\<close>).
\<close>

section \<open>The structures of the source\<close>

datatype flag = MINUS | PLUS | SPACE | POUND | ZERO | GROUP

datatype int_type = CHAR_T | SHORT | INT_T | INTMAX | LONG | LONGLONG | PTRDIFFT | SIZET

record printf_conversion =
  flags :: "flag set"
  width :: int
  precision :: int
  ptype :: int_type

record integer_base =
  base :: nat
  digits :: "byte list"
  x_char :: "byte option"
  group :: nat

definition digit_chars :: "byte list" where
  "digit_chars = [48, 49, 50, 51, 52, 53, 54, 55, 56, 57]"

definition base_d :: integer_base where
  "base_d = \<lparr>base = 10, digits = digit_chars, x_char = None, group = 3\<rparr>"

definition base_o :: integer_base where
  "base_o = \<lparr>base = 8, digits = take 8 digit_chars, x_char = None, group = 3\<rparr>"

definition base_x :: integer_base where
  "base_x = \<lparr>base = 16, digits = digit_chars @ [97, 98, 99, 100, 101, 102], x_char = Some 120, group = 4\<rparr>"

definition base_X :: integer_base where
  "base_X = \<lparr>base = 16, digits = digit_chars @ [65, 66, 67, 68, 69, 70], x_char = Some 88, group = 4\<rparr>"

section \<open>Arguments\<close>

definition va32 :: "nat list \<Rightarrow> (nat \<times> nat list) option" where
  "va32 args = (case args of w # ws \<Rightarrow> Some (u32 w, ws) | [] \<Rightarrow> None)"

definition va64 :: "nat list \<Rightarrow> (nat \<times> nat list) option" where
  "va64 args = do { (l, args) \<leftarrow> va32 args; (h, args) \<leftarrow> va32 args; Some (l + 2 ^ 32 * h, args) }"

definition s64 :: "int \<Rightarrow> int" where
  "s64 x = (x + 2 ^ 63) mod 2 ^ 64 - 2 ^ 63"

definition s16 :: "int \<Rightarrow> int" where
  "s16 x = (x + 2 ^ 15) mod 2 ^ 16 - 2 ^ 15"

definition s8c :: "int \<Rightarrow> int" where
  "s8c x = (x + 2 ^ 7) mod 2 ^ 8 - 2 ^ 7"

text \<open>The argument of \<open>%d\<close> and of \<open>%u\<close>, by type.\<close>

definition signed_arg :: "int_type \<Rightarrow> nat list \<Rightarrow> (int \<times> nat list) option" where
  "signed_arg t args =
     (case t of
        CHAR_T \<Rightarrow> do { (w, args) \<leftarrow> va32 args; Some (s8c (int w), args) }
      | SHORT \<Rightarrow> do { (w, args) \<leftarrow> va32 args; Some (s16 (int w), args) }
      | INT_T \<Rightarrow> do { (w, args) \<leftarrow> va32 args; Some (s32 (int w), args) }
      | INTMAX \<Rightarrow> do { (w, args) \<leftarrow> va64 args; Some (s64 (int w), args) }
      | LONG \<Rightarrow> do { (w, args) \<leftarrow> va32 args; Some (s32 (int w), args) }
      | LONGLONG \<Rightarrow> do { (w, args) \<leftarrow> va64 args; Some (s64 (int w), args) }
      | PTRDIFFT \<Rightarrow> do { (w, args) \<leftarrow> va32 args; Some (s32 (int w), args) }
      | SIZET \<Rightarrow> do {
          (w, args) \<leftarrow> va32 args;
          let v = int w;
          Some (if int (SIZE_MAX div 2) < v then v - int SIZE_MAX - 1 else v, args) })"

definition unsigned_arg :: "int_type \<Rightarrow> nat list \<Rightarrow> (nat \<times> nat list) option" where
  "unsigned_arg t args =
     (case t of
        CHAR_T \<Rightarrow> do { (w, args) \<leftarrow> va32 args; Some (w mod 2 ^ 8, args) }
      | SHORT \<Rightarrow> do { (w, args) \<leftarrow> va32 args; Some (w mod 2 ^ 16, args) }
      | INTMAX \<Rightarrow> va64 args
      | LONGLONG \<Rightarrow> va64 args
      | _ \<Rightarrow> va32 args)"

section \<open>Parsing a conversion\<close>

fun parse_flags :: "flag set \<Rightarrow> byte list \<Rightarrow> flag set \<times> byte list" where
  "parse_flags fl [] = (fl, [])"
| "parse_flags fl (c # fmt) =
     (if c = 45 then parse_flags (insert MINUS fl) fmt
      else if c = 43 then parse_flags (insert PLUS fl) fmt
      else if c = 32 then parse_flags (insert SPACE fl) fmt
      else if c = 35 then parse_flags (insert POUND fl) fmt
      else if c = 48 then parse_flags (insert ZERO fl) fmt
      else if c = 39 then parse_flags (insert GROUP fl) fmt
      else (fl, c # fmt))"

fun parse_number :: "int \<Rightarrow> byte list \<Rightarrow> int \<times> byte list" where
  "parse_number v [] = (v, [])"
| "parse_number v (c # fmt) =
     (if isdigit c then parse_number (s32 (v * 10 + int (unat c) - 48)) fmt else (v, c # fmt))"

text \<open>A field width or precision: \<open>*\<close> takes it from the arguments.\<close>

definition parse_star :: "byte list \<Rightarrow> nat list \<Rightarrow> (int \<times> byte list \<times> nat list) option" where
  "parse_star fmt args =
     (case fmt of
        c # t \<Rightarrow> if c = 42 then do { (w, args) \<leftarrow> va32 args; Some (s32 (int w), t, args) }
                 else (let (v, fmt) = parse_number 0 fmt in Some (v, fmt, args))
      | [] \<Rightarrow> Some (0, [], args))"

definition parse_precision :: "byte list \<Rightarrow> nat list \<Rightarrow> (int \<times> byte list \<times> nat list) option" where
  "parse_precision fmt args =
     (case fmt of
        c # t \<Rightarrow> if c = 46 then do { (p, fmt, args) \<leftarrow> parse_star t args; Some (if p < 0 then - 1 else p, fmt, args) }
                 else Some (- 1, fmt, args)
      | [] \<Rightarrow> Some (- 1, [], args))"

definition parse_type :: "byte list \<Rightarrow> int_type \<times> byte list" where
  "parse_type fmt =
     (case fmt of
        c # t \<Rightarrow>
          if c = 104 then (case t of d # u \<Rightarrow> if d = 104 then (CHAR_T, u) else (SHORT, t) | [] \<Rightarrow> (SHORT, t))
          else if c = 106 then (INTMAX, t)
          else if c = 108 then (case t of d # u \<Rightarrow> if d = 108 then (LONGLONG, u) else (LONG, t) | [] \<Rightarrow> (LONG, t))
          else if c = 116 then (PTRDIFFT, t)
          else if c = 122 then (SIZET, t)
          else (INT_T, fmt)
      | [] \<Rightarrow> (INT_T, []))"

definition parse_conversion :: "byte list \<Rightarrow> nat list \<Rightarrow> (printf_conversion \<times> byte list \<times> nat list) option" where
  "parse_conversion fmt args =
     do {
       let (fl, fmt) = parse_flags {} fmt;
       let fl = (if MINUS \<in> fl then fl - {ZERO} else fl);
       let fl = (if PLUS \<in> fl then fl - {SPACE} else fl);
       (w, fmt, args) \<leftarrow> parse_star fmt args;
       let (w, fl) = (if w < 0 then (s32 (- w), insert MINUS fl) else (w, fl));
       (p, fmt, args) \<leftarrow> parse_precision fmt args;
       let fl = (if 0 \<le> p then fl - {ZERO} else fl);
       let (t, fmt) = parse_type fmt;
       Some (\<lparr>flags = fl, width = w, precision = p, ptype = t\<rparr>, fmt, args)
     }"

section \<open>Output\<close>

definition output_dup :: "byte \<Rightarrow> int \<Rightarrow> byte list" where
  "output_dup ch cnt = replicate (nat cnt) ch"

text \<open>\<open>*cp++ = ch\<close> into \<open>buf[64]\<close>; the buffer so far, last character first.\<close>

definition push :: "byte \<Rightarrow> byte list \<Rightarrow> byte list option" where
  "push ch buf = do { kassert (length buf < 64); Some (ch # buf) }"

function digit_loop :: "integer_base \<Rightarrow> bool \<Rightarrow> nat \<Rightarrow> nat \<Rightarrow> byte list \<Rightarrow> byte list option" where
  "digit_loop b grouped v digit_cnt buf =
     (if 0 < v \<and> 1 < base b
      then do {
        buf \<leftarrow> (if grouped \<and> 0 < digit_cnt \<and> digit_cnt mod group b = 0 then push 44 buf else Some buf);
        buf \<leftarrow> push (digits b ! (v mod base b)) buf;
        digit_loop b grouped (v div base b) (digit_cnt + 1) buf
      }
      else Some buf)"
  by pat_completeness auto
termination by (relation "measure (\<lambda>(b, grouped, v, digit_cnt, buf). v)") auto

declare digit_loop.simps [simp del]

fun zero_loop :: "nat \<Rightarrow> int \<Rightarrow> byte list \<Rightarrow> byte list option" where
  "zero_loop 0 p buf = Some buf"
| "zero_loop (Suc n) p buf =
     (if int (length buf) < p \<and> length buf < 64 - 1 then do { buf \<leftarrow> push 48 buf; zero_loop n p buf } else Some buf)"

definition sign_char :: "bool \<Rightarrow> bool \<Rightarrow> flag set \<Rightarrow> byte option" where
  "sign_char is_signed negative fl =
     (if is_signed
      then if PLUS \<in> fl then Some (if negative then 45 else 43)
        else if SPACE \<in> fl then Some (if negative then 45 else 32)
        else if negative then Some 45 else None
      else None)"

text \<open>The zeros for the precision stop at 63 characters, so 64 turns of the loop are enough.\<close>

definition format_integer :: "nat \<Rightarrow> bool \<Rightarrow> bool \<Rightarrow> integer_base \<Rightarrow> printf_conversion \<Rightarrow> byte list option" where
  "format_integer v is_signed negative b c =
     do {
       let fl = flags c;
       let sign = sign_char is_signed negative fl;
       let x = (if POUND \<in> fl \<and> v \<noteq> 0 then x_char b else None);
       buf \<leftarrow> digit_loop b (GROUP \<in> fl) v 0 [];
       buf \<leftarrow> zero_loop 64 (if precision c < 0 then 1 else precision c) buf;
       buf \<leftarrow> (if POUND \<in> fl \<and> base b = 8 \<and> (buf = [] \<or> hd buf \<noteq> 48) then push 48 buf else Some buf);
       let pad_cnt = max 0 (s32 (width c - int (length buf) - (if x \<noteq> None then 2 else 0) - (if sign \<noteq> None then 1 else 0)));
       Some ((if MINUS \<notin> fl \<and> ZERO \<notin> fl then output_dup 32 pad_cnt else [])
         @ (case sign of Some ch \<Rightarrow> [ch] | None \<Rightarrow> [])
         @ (case x of Some ch \<Rightarrow> [48, ch] | None \<Rightarrow> [])
         @ (if ZERO \<in> fl then output_dup 48 pad_cnt else [])
         @ buf
         @ (if MINUS \<in> fl then output_dup 32 pad_cnt else []))
     }"

definition format_string :: "byte list \<Rightarrow> printf_conversion \<Rightarrow> byte list" where
  "format_string str c =
     (let pad = width c - int (length str)
      in (if 0 < pad \<and> MINUS \<notin> flags c then output_dup 32 pad else []) @ str
         @ (if 0 < pad \<and> MINUS \<in> flags c then output_dup 32 pad else []))"

definition null_string :: "byte list" where
  "null_string = [40, 110, 117, 108, 108, 41]"

text \<open>What the nested calls \<open>__printf ("<<no %%%c in kernel>>")\<close> and \<open>__printf ("<<no %%%c conversion>>")\<close> output.\<close>

definition no_conversion :: "byte \<Rightarrow> byte list \<Rightarrow> byte list" where
  "no_conversion ch rest = [60, 60, 110, 111, 32, 37, ch] @ rest @ [62, 62]"

definition in_kernel :: "byte list" where
  "in_kernel = [32, 105, 110, 32, 107, 101, 114, 110, 101, 108]"

definition conversion :: "byte list" where
  "conversion = [32, 99, 111, 110, 118, 101, 114, 115, 105, 111, 110]"

text \<open>One conversion: what it outputs and the arguments left. \<open>m\<close> is the memory strings are read from.\<close>

definition convert :: "mem \<Rightarrow> byte \<Rightarrow> printf_conversion \<Rightarrow> nat list \<Rightarrow> (byte list \<times> nat list) option" where
  "convert m ch c args =
     (if ch = 100 \<or> ch = 105
      then do {
        (v, args) \<leftarrow> signed_arg (ptype c) args;
        out \<leftarrow> format_integer (nat \<bar>v\<bar>) True (v < 0) base_d c;
        Some (out, args)
      }
      else if ch = 111 \<or> ch = 117 \<or> ch = 120 \<or> ch = 88
      then do {
        (v, args) \<leftarrow> unsigned_arg (ptype c) args;
        out \<leftarrow> format_integer v False False
          (if ch = 111 then base_o else if ch = 117 then base_d else if ch = 120 then base_x else base_X) c;
        Some (out, args)
      }
      else if ch = 99 then do { (w, args) \<leftarrow> va32 args; Some (format_string [word_of_nat w] c, args) }
      else if ch = 115
      then do {
        (s, args) \<leftarrow> va32 args;
        let str = (if s = 0 then take (if precision c < 0 then 6 else nat (precision c)) null_string
                   else map (\<lambda>i. m (s + i)) [0..<strnlen m s (if precision c < 0 then SIZE_MAX else nat (precision c))]);
        Some (format_string str c, args)
      }
      else if ch = 112
      then do {
        (p, args) \<leftarrow> va32 args;
        out \<leftarrow> format_integer p False False base_x (c\<lparr>flags := {POUND}\<rparr>);
        Some (out, args)
      }
      else if ch \<in> {102, 101, 69, 103, 71, 110} then Some (no_conversion ch in_kernel, args)
      else Some (no_conversion ch conversion, args))"

lemma parse_flags_length: "length (snd (parse_flags fl fmt)) \<le> length fmt"
  by (induction fl fmt rule: parse_flags.induct) auto

lemma parse_number_length: "length (snd (parse_number v fmt)) \<le> length fmt"
  by (induction v fmt rule: parse_number.induct) auto

lemma parse_star_length: "parse_star fmt args = Some (v, fmt', args') \<Longrightarrow> length fmt' \<le> length fmt"
  using parse_number_length [of 0 fmt] by (auto simp: parse_star_def Option.bind_eq_Some_conv split: list.splits if_splits prod.splits)

lemma parse_type_length: "length (snd (parse_type fmt)) \<le> length fmt"
  by (auto simp: parse_type_def split: list.splits)

lemma parse_precision_length: "parse_precision fmt args = Some (v, fmt', args') \<Longrightarrow> length fmt' \<le> length fmt"
  using parse_star_length by (fastforce simp: parse_precision_def Option.bind_eq_Some_conv split: list.splits if_splits)

lemma parse_conversion_length:
  assumes "parse_conversion fmt args = Some (c, fmt', args')"
  shows "length fmt' \<le> length fmt"
proof -
  obtain fl f1 where f1: "parse_flags {} fmt = (fl, f1)" by fastforce
  obtain w f2 a2 where f2: "parse_star f1 args = Some (w, f2, a2)"
    using assms f1 by (auto simp: parse_conversion_def Option.bind_eq_Some_conv Let_def)
  obtain pr f3 a3 where f3: "parse_precision f2 a2 = Some (pr, f3, a3)"
    using assms f1 f2 by (auto simp: parse_conversion_def Option.bind_eq_Some_conv Let_def split: if_splits)
  obtain t f4 where f4: "parse_type f3 = (t, f4)" by fastforce
  have "fmt' = f4" using assms f1 f2 f3 f4 by (auto simp: parse_conversion_def Let_def split: if_splits)
  then show ?thesis
    using parse_flags_length [of "{}" fmt] f1 parse_star_length [OF f2] parse_precision_length [OF f3] parse_type_length [of f3] f4 by simp
qed

text \<open>\<open>__vprintf\<close>: all it outputs. A conversion cut short by the end of the format leaves the loop's \<open>format++\<close> behind the
  terminator.\<close>

function vprintf_core :: "mem \<Rightarrow> byte list \<Rightarrow> nat list \<Rightarrow> byte list option" where
  "vprintf_core m fmt args =
     (case fmt of
        [] \<Rightarrow> Some []
      | c # t \<Rightarrow>
          if c \<noteq> 37 then do { out \<leftarrow> vprintf_core m t args; Some (c # out) }
          else (case t of
              d # u \<Rightarrow>
                if d = 37 then do { out \<leftarrow> vprintf_core m u args; Some (37 # out) }
                else (case parse_conversion t args of
                    None \<Rightarrow> None
                  | Some (cv, [], args) \<Rightarrow> None
                  | Some (cv, ch # rest, args) \<Rightarrow>
                      (case convert m ch cv args of
                         None \<Rightarrow> None
                       | Some (o1, args) \<Rightarrow> do { o2 \<leftarrow> vprintf_core m rest args; Some (o1 @ o2) }))
            | [] \<Rightarrow> None))"
  by pat_completeness auto
termination
  by (relation "measure (\<lambda>(m, fmt, args). length fmt)") (auto dest!: parse_conversion_length)

declare vprintf_core.simps [simp del]

section \<open>Printing into a buffer\<close>

text \<open>The strings the arguments point to do not overlap the buffer, as the C library asks of \<open>snprintf\<close>'s callers.\<close>

record vsnprintf_aux =
  p :: nat
  length_out :: int
  max_length :: int

definition vsnprintf_helper :: "byte \<Rightarrow> vsnprintf_aux \<times> mem \<Rightarrow> vsnprintf_aux \<times> mem" where
  "vsnprintf_helper ch = (\<lambda>(aux, m).
     if length_out aux < max_length aux
     then (aux\<lparr>length_out := s32 (length_out aux + 1), p := p aux + 1\<rparr>, m(p aux := ch))
     else (aux\<lparr>length_out := s32 (length_out aux + 1)\<rparr>, m))"

definition vsnprintf :: "nat \<Rightarrow> nat \<Rightarrow> byte list \<Rightarrow> nat list \<Rightarrow> mem \<Rightarrow> (int \<times> mem) option" where
  "vsnprintf buffer buf_size fmt args m =
     do {
       let aux = \<lparr>p = buffer, length_out = 0, max_length = s32 (if 0 < buf_size then int buf_size - 1 else 0)\<rparr>;
       out \<leftarrow> vprintf_core m fmt args;
       let (aux, m) = fold vsnprintf_helper out (aux, m);
       Some (length_out aux, if 0 < buf_size then m(p aux := 0) else m)
     }"

definition snprintf :: "nat \<Rightarrow> nat \<Rightarrow> byte list \<Rightarrow> nat list \<Rightarrow> mem \<Rightarrow> (int \<times> mem) option" where
  "snprintf buffer buf_size fmt args m = vsnprintf buffer buf_size fmt args m"

section \<open>Dumps and sizes\<close>

text \<open>The bytes of a format literal.\<close>

definition fmt_bytes :: "string \<Rightarrow> byte list" where
  "fmt_bytes = map of_char"

definition isprint :: "byte \<Rightarrow> bool" where
  "isprint c \<longleftrightarrow> 32 \<le> unat c \<and> unat c < 127"

text \<open>The output of \<open>for (; i < hi; i++) printf (f i)\<close>.\<close>

definition print_each :: "(nat \<Rightarrow> byte list option) \<Rightarrow> nat \<Rightarrow> nat \<Rightarrow> byte list option" where
  "print_each f lo hi = mfold (\<lambda>i out. do { o1 \<leftarrow> f i; Some (out @ o1) }) [lo..<hi] []"

definition dump_line :: "mem \<Rightarrow> nat \<Rightarrow> nat \<Rightarrow> nat \<Rightarrow> nat \<Rightarrow> bool \<Rightarrow> byte list option" where
  "dump_line m ofs buf start fin ascii =
     do {
       l1 \<leftarrow> vprintf_core m (fmt_bytes ''%08jx  '') [ROUND_DOWN ofs 16, 0];
       l2 \<leftarrow> print_each (\<lambda>i. vprintf_core m (fmt_bytes ''   '') []) 0 start;
       l3 \<leftarrow> print_each (\<lambda>i. vprintf_core m (fmt_bytes ''%02hhx%c'')
               [unat (m (buf + (i - start))), if i = 16 div 2 - 1 then 45 else 32]) start fin;
       l4 \<leftarrow> (if ascii
              then do {
                a1 \<leftarrow> print_each (\<lambda>i. vprintf_core m (fmt_bytes ''   '') []) fin 16;
                a2 \<leftarrow> vprintf_core m (fmt_bytes ''|'') [];
                a3 \<leftarrow> print_each (\<lambda>i. vprintf_core m (fmt_bytes '' '') []) 0 start;
                a4 \<leftarrow> print_each (\<lambda>i. vprintf_core m (fmt_bytes ''%c'')
                        [if isprint (m (buf + (i - start))) then unat (m (buf + (i - start))) else 46]) start fin;
                a5 \<leftarrow> print_each (\<lambda>i. vprintf_core m (fmt_bytes '' '') []) fin 16;
                a6 \<leftarrow> vprintf_core m (fmt_bytes ''|'') [];
                Some (a1 @ a2 @ a3 @ a4 @ a5 @ a6)
              }
              else Some []);
       Some (l1 @ l2 @ l3 @ l4 @ [10])
     }"

function hex_dump :: "mem \<Rightarrow> nat \<Rightarrow> nat \<Rightarrow> nat \<Rightarrow> bool \<Rightarrow> byte list option" where
  "hex_dump m ofs buf sz ascii =
     (if 0 < sz
      then let start = ofs mod 16;
               fin = (if sz < 16 - start then start + sz else 16);
               n = fin - start
           in do {
             l \<leftarrow> dump_line m ofs buf start fin ascii;
             ls \<leftarrow> hex_dump m (u32 (ofs + n)) (buf + n) (sz - n) ascii;
             Some (l @ ls)
           }
      else Some [])"
  by pat_completeness auto
termination by (relation "measure (\<lambda>(m, ofs, buf, sz, ascii). sz)") auto

declare hex_dump.simps [simp del]

fun human_loop :: "nat \<Rightarrow> byte list list \<Rightarrow> nat \<times> byte list" where
  "human_loop sz [] = (sz, [])"
| "human_loop sz [f] = (sz, f)"
| "human_loop sz (f # g # fs) = (if 1024 \<le> sz then human_loop (sz div 1024) (g # fs) else (sz, f))"

text \<open>The string argument of the last \<open>printf\<close> is a literal; \<open>%s\<close> with no width outputs it as it is.\<close>

definition print_human_readable_size :: "mem \<Rightarrow> nat \<Rightarrow> byte list option" where
  "print_human_readable_size m sz =
     (if sz = 1 then vprintf_core m (fmt_bytes ''1 byte'') []
      else let (v, f) = human_loop sz (map fmt_bytes [''bytes'', ''kB'', ''MB'', ''GB'', ''TB''])
           in do { out \<leftarrow> vprintf_core m (fmt_bytes ''%llu '') [u32 v, v div 2 ^ 32]; Some (out @ f) })"

section \<open>The digit buffer\<close>

lemma digit_loop_ok:
  assumes "1 < base b"
  shows "v < base b ^ k \<Longrightarrow> length buf + 2 * k \<le> 64 \<Longrightarrow>
    \<exists>ds. digit_loop b g v n buf = Some (ds @ buf) \<and> length ds \<le> 2 * k"
proof (induction k arbitrary: v n buf)
  case 0
  then show ?case by (simp add: digit_loop.simps)
next
  case (Suc k)
  show ?case
  proof (cases "v = 0")
    case True
    then show ?thesis by (simp add: digit_loop.simps)
  next
    case False
    define com where "com = (if g \<and> 0 < n \<and> n mod group b = 0 then [44 :: byte] else [])"
    let ?buf = "digits b ! (v mod base b) # com @ buf"
    have len: "length ?buf + 2 * k \<le> 64" using Suc.prems(2) by (simp add: com_def)
    have "v div base b < base b ^ k" using Suc.prems(1) assms by (simp add: less_mult_imp_div_less mult.commute)
    then obtain ds where ds: "digit_loop b g (v div base b) (n + 1) ?buf = Some (ds @ ?buf)" "length ds \<le> 2 * k"
      using Suc.IH [OF _ len] by blast
    have "digit_loop b g v n buf = digit_loop b g (v div base b) (n + 1) ?buf"
      using False assms Suc.prems(2) by (subst digit_loop.simps) (simp add: push_def com_def)
    then show ?thesis using ds by (intro exI [of _ "ds @ digits b ! (v mod base b) # com"]) (simp add: com_def)
  qed
qed

lemma digit_loop_decimal:
  "length (decimal v) + length buf \<le> 64 \<Longrightarrow> digit_loop base_d False v n buf = Some (decimal v @ buf)"
proof (induction v arbitrary: n buf rule: decimal.induct)
  case (1 v)
  show ?case
  proof (cases "v = 0")
    case True
    then show ?thesis by (simp add: digit_loop.simps decimal.simps [of 0])
  next
    case False
    have D: "decimal v = decimal (v div 10) @ [word_of_nat (48 + v mod 10)]" using False by (subst decimal.simps) simp
    have d: "v mod 10 < 10" by simp
    have "\<forall>k<10. digit_chars ! k = (word_of_nat (48 + k) :: byte)"
      by (simp add: digit_chars_def eval_nat_numeral All_less_Suc)
    then have "digits base_d ! (v mod base base_d) = word_of_nat (48 + v mod 10)" using d by (simp add: base_d_def)
    then show ?thesis using False 1 D by (subst digit_loop.simps) (simp add: push_def base_d_def)
  qed
qed

text \<open>The zeros never fill the last place of the buffer, and they reach the precision if there is room for it.\<close>

lemma zero_loop_ok:
  "64 \<le> n + length buf \<Longrightarrow> \<exists>z. zero_loop n prec buf = Some (replicate z 48 @ buf) \<and> z + length buf \<le> max (length buf) 63
     \<and> (prec \<le> int (z + length buf) \<or> 63 \<le> z + length buf)"
proof (induction n arbitrary: buf)
  case (Suc n)
  show ?case
  proof (cases "int (length buf) < prec \<and> length buf < 63")
    case True
    obtain z where z: "zero_loop n prec (48 # buf) = Some (replicate z 48 @ 48 # buf)" "z + length (48 # buf) \<le> max (length (48 # buf)) 63"
        "prec \<le> int (z + length (48 # buf)) \<or> 63 \<le> z + length (48 # buf)" using Suc.IH [of "48 # buf"] Suc.prems by auto
    then show ?thesis using True by (intro exI [of _ "Suc z"]) (auto simp: push_def replicate_append_same)
  next
    case False
    then show ?thesis by (intro exI [of _ 0]) auto
  qed
qed (auto intro: exI [of _ 0])

lemma zero_loop_stop: "prec \<le> int (length buf) \<Longrightarrow> zero_loop n prec buf = Some buf"
  by (cases n) auto

lemma integer_bases:
  assumes "b \<in> {base_d, base_o, base_x, base_X}" "v < 2 ^ 64"
  shows "1 < base b" "v < base b ^ 22"
proof -
  have b: "8 \<le> base b" using assms(1) by (auto simp: base_d_def base_o_def base_x_def base_X_def)
  then show "1 < base b" by simp
  have "(2 :: nat) ^ 64 \<le> 8 ^ 22" by simp
  also have "\<dots> \<le> base b ^ 22" using b by (rule power_mono) simp
  finally show "v < base b ^ 22" using assms(2) by simp
qed

definition content_buf :: "nat \<Rightarrow> integer_base \<Rightarrow> printf_conversion \<Rightarrow> byte list option" where
  "content_buf v b c =
     do {
       buf \<leftarrow> digit_loop b (GROUP \<in> flags c) v 0 [];
       buf \<leftarrow> zero_loop 64 (if precision c < 0 then 1 else precision c) buf;
       (if POUND \<in> flags c \<and> base b = 8 \<and> (buf = [] \<or> hd buf \<noteq> 48) then push 48 buf else Some buf)
     }"

lemma content_buf_ok:
  assumes "b \<in> {base_d, base_o, base_x, base_X}" "v < 2 ^ 64"
  shows "\<exists>buf. content_buf v b c = Some buf \<and> length buf \<le> 64"
proof -
  note B = integer_bases [OF assms]
  obtain ds where ds: "digit_loop b (GROUP \<in> flags c) v 0 [] = Some ds" "length ds \<le> 44"
    using digit_loop_ok [OF B, of "[]" "GROUP \<in> flags c" 0] by auto
  obtain z where z: "zero_loop 64 (if precision c < 0 then 1 else precision c) ds = Some (replicate z 48 @ ds)" "z + length ds \<le> 63"
    using zero_loop_ok [of 64 ds "if precision c < 0 then 1 else precision c"] ds(2) by auto
  show ?thesis using ds z by (auto simp: content_buf_def push_def)
qed

lemma format_integer_content:
  "format_integer v is_signed negative b c =
     Option.bind (content_buf v b c) (\<lambda>buf.
       let sign = sign_char is_signed negative (flags c);
           x = (if POUND \<in> flags c \<and> v \<noteq> 0 then x_char b else None);
           pad_cnt = max 0 (s32 (width c - int (length buf) - (if x \<noteq> None then 2 else 0) - (if sign \<noteq> None then 1 else 0)))
       in Some ((if MINUS \<notin> flags c \<and> ZERO \<notin> flags c then output_dup 32 pad_cnt else [])
         @ (case sign of Some ch \<Rightarrow> [ch] | None \<Rightarrow> [])
         @ (case x of Some ch \<Rightarrow> [48, ch] | None \<Rightarrow> [])
         @ (if ZERO \<in> flags c then output_dup 48 pad_cnt else [])
         @ buf
         @ (if MINUS \<in> flags c then output_dup 32 pad_cnt else [])))"
  by (simp add: format_integer_def content_buf_def Let_def)

section \<open>What the functions guarantee\<close>

text \<open>(C32) \<open>format_integer\<close> on a value of at most 64 bits in any of the four bases, with a field width that is not negative, never writes past its buffer of 64
  characters, whatever the flags, the precision and the grouping. Sign, prefix and digits are \<open>n\<close> characters, at most 67; what is
  output is the larger of \<open>n\<close> and the field width, exactly -- unless both \<open>MINUS\<close> and \<open>ZERO\<close> are set: then the padding is output
  twice, as zeros and as blanks, and the output is wider than the field.\<close>

theorem format_integer_fits:
  assumes "b \<in> {base_d, base_o, base_x, base_X}" "v < 2 ^ 64" "0 \<le> width c" "width c < 2 ^ 31"
  shows "\<exists>out n. format_integer v is_signed negative b c = Some out \<and> 0 \<le> n \<and> n \<le> 67
    \<and> int (length out) = (if MINUS \<in> flags c \<and> ZERO \<in> flags c then n + 2 * max 0 (width c - n) else max n (width c))"
proof -
  obtain buf where buf: "content_buf v b c = Some buf" "length buf \<le> 64" using content_buf_ok [OF assms(1,2)] by blast
  define sign x where "sign = sign_char is_signed negative (flags c)" and "x = (if POUND \<in> flags c \<and> v \<noteq> 0 then x_char b else None)"
  define S X where "S = (case sign of Some ch \<Rightarrow> [ch] | None \<Rightarrow> [])" and "X = (case x of Some ch \<Rightarrow> [48, ch] | None \<Rightarrow> [])"
  define w where "w = width c - int (length buf) - int (length X) - int (length S)"
  have SX: "length S \<le> 1" "length X \<le> 2" by (simp_all add: S_def X_def split: option.splits)
  have len: "(if x \<noteq> None then 2 else 0) = int (length X)" "(if sign \<noteq> None then 1 else 0) = int (length S)"
    by (simp_all add: S_def X_def split: option.splits)
  have "s32 w = w" unfolding w_def using buf(2) assms(3,4) SX by (intro s32_in_range) auto
  let ?pre = "if MINUS \<notin> flags c \<and> ZERO \<notin> flags c then output_dup 32 (max 0 w) else []"
    and ?mid = "if ZERO \<in> flags c then output_dup 48 (max 0 w) else []" and ?post = "if MINUS \<in> flags c then output_dup 32 (max 0 w) else []"
    and ?n = "int (length S + length X + length buf)"
  have run: "format_integer v is_signed negative b c = Some (?pre @ S @ X @ ?mid @ buf @ ?post)"
    unfolding format_integer_content buf(1) sign_def [symmetric] x_def [symmetric] len Let_def Option.bind.simps
      S_def [symmetric] X_def [symmetric] w_def [symmetric] \<open>s32 w = w\<close> by simp
  have d: "int (length (output_dup ch (max 0 w))) = max 0 w" for ch by (simp add: output_dup_def)
  have "width c = w + ?n" by (simp add: w_def)
  then have "int (length (?pre @ S @ X @ ?mid @ buf @ ?post)) = (if MINUS \<in> flags c \<and> ZERO \<in> flags c then ?n + 2 * max 0 (width c - ?n) else max ?n (width c))"
    using d by (cases "MINUS \<in> flags c"; cases "ZERO \<in> flags c") (simp_all add: max_def)
  moreover have "0 \<le> ?n" "?n \<le> 67" using buf(2) SX by simp_all
  ultimately show ?thesis using run by blast
qed

theorem format_integer_fits_witness:
  "\<exists>out out'. format_integer (2 ^ 64 - 1) False False base_o \<lparr>flags = {POUND, GROUP}, width = 80, precision = 100, ptype = INTMAX\<rparr> = Some out \<and> length out = 80
    \<and> format_integer (2 ^ 64 - 1) False False base_o \<lparr>flags = {MINUS, ZERO}, width = 80, precision = 100, ptype = INTMAX\<rparr> = Some out' \<and> 93 \<le> length out'"
proof -
  let ?c = "\<lparr>flags = {POUND, GROUP}, width = 80, precision = 100, ptype = INTMAX\<rparr>" and ?d = "\<lparr>flags = {MINUS, ZERO}, width = 80, precision = 100, ptype = INTMAX\<rparr>"
  obtain out n where o: "format_integer (2 ^ 64 - 1) False False base_o ?c = Some out" "n \<le> 67" "int (length out) = max n 80"
    using format_integer_fits [of base_o "2 ^ 64 - 1" ?c False False] by auto
  obtain out' k where k: "format_integer (2 ^ 64 - 1) False False base_o ?d = Some out'" "k \<le> 67" "int (length out') = k + 2 * max 0 (80 - k)"
    using format_integer_fits [of base_o "2 ^ 64 - 1" ?d False False] by auto
  have "length out = 80" "93 \<le> length out'" using o(2,3) k(2,3) by simp_all
  then show ?thesis using o(1) k(1) by blast
qed

text \<open>The number as \<open>%d\<close> prints it.\<close>

definition signed_decimal :: "int \<Rightarrow> byte list" where
  "signed_decimal i = (if i < 0 then [45] else []) @ (if i = 0 then [48] else decimal (nat \<bar>i\<bar>))"

lemma length_decimal: "v < 10 ^ k \<Longrightarrow> length (decimal v) \<le> k"
proof (induction k arbitrary: v)
  case (Suc k)
  then have "v div 10 < 10 ^ k" by (simp add: less_mult_imp_div_less)
  then show ?case using Suc.IH [of "v div 10"] by (subst decimal.simps) simp
qed (simp add: decimal.simps)

lemma decimal_nonempty: "0 < v \<Longrightarrow> 0 < length (decimal v)"
  by (subst decimal.simps) simp

definition plain :: printf_conversion where
  "plain = \<lparr>flags = {}, width = 0, precision = - 1, ptype = INT_T\<rparr>"

lemma format_plain:
  assumes "v < 2 ^ 32"
  shows "format_integer v True neg base_d plain = Some ((if neg then [45] else []) @ (if v = 0 then [48] else decimal v))"
proof -
  have len: "length (decimal v) \<le> 10" using assms by (intro length_decimal) simp
  have "content_buf v base_d plain = Some (if v = 0 then [48] else decimal v)"
  proof (cases "v = 0")
    case True
    have "zero_loop 64 1 [] = Some [48]" using zero_loop.simps(2) [of 63 1 "[]"] by (simp add: push_def zero_loop_stop)
    then show ?thesis using True by (simp add: content_buf_def plain_def digit_loop.simps)
  next
    case False
    then show ?thesis
      using digit_loop_decimal [of v "[]" 0] len decimal_nonempty [of v] zero_loop_stop [of 1 "decimal v" 64] by (simp add: content_buf_def plain_def Suc_le_eq)
  qed
  moreover have "s32 (- int k - (if b then 1 else 0)) \<le> 0" if "k \<le> 10" for k b using that by (subst s32_in_range) auto
  ultimately show ?thesis
    using len by (auto simp: format_integer_content plain_def sign_char_def base_d_def output_dup_def Let_def max_def)
qed

lemma printf_d:
  assumes "- (2 ^ 31) \<le> i" "i < 2 ^ 31"
  shows "vprintf_core m (fmt_bytes ''%d'') [nat (i mod 2 ^ 32)] = Some (signed_decimal i)"
proof -
  have f: "fmt_bytes ''%d'' = [37, 100]" by (simp add: fmt_bytes_def of_char_def)
  have p: "parse_conversion [100] args = Some (plain, [100], args)" for args
    by (simp add: parse_conversion_def parse_star_def parse_precision_def parse_type_def plain_def isdigit_def)
  have "u32 (nat (i mod 2 ^ 32)) = nat (i mod 2 ^ 32)" by (intro u32_small) (simp add: nat_less_iff)
  moreover have "s32 (int (nat (i mod 2 ^ 32))) = i" using assms by (simp add: s32_def mod_simps)
  ultimately have a: "signed_arg INT_T [nat (i mod 2 ^ 32)] = Some (i, [])" by (simp add: signed_arg_def va32_def)
  have "nat \<bar>i\<bar> < 2 ^ 32" using assms by (simp add: nat_less_iff)
  then have "convert m 100 plain [nat (i mod 2 ^ 32)] = Some (signed_decimal i, [])"
    using a format_plain [of "nat \<bar>i\<bar>" "i < 0"] by (simp add: convert_def plain_def signed_decimal_def)
  then show ?thesis by (simp add: f p vprintf_core.simps)
qed

lemma atoi_signed_decimal:
  assumes "- (2 ^ 31) \<le> i" "i < 2 ^ 31"
  shows "atoi (signed_decimal i) = i"
proof -
  have "nat \<bar>i\<bar> \<le> 2 ^ 31" using assms by (simp add: nat_le_iff)
  note P = parse_decimal [OF this]
  consider "i = 0" | "0 < i" | "i < 0" by linarith
  then show ?thesis
  proof cases
    case 1
    then show ?thesis by (simp add: signed_decimal_def atoi_def parse_sign_def isspace_def isdigit_def s32_def)
  next
    case 2
    obtain c cs where c: "decimal (nat \<bar>i\<bar>) = c # cs" using decimal_nonempty [of "nat \<bar>i\<bar>"] 2 by (cases "decimal (nat \<bar>i\<bar>)") auto
    have "isdigit c" using decimal_digits [of "nat \<bar>i\<bar>"] c by simp
    then have "\<not> isspace c" "c \<noteq> 43" "c \<noteq> 45" by (auto simp: isdigit_def isspace_def)
    then show ?thesis using 2 P c assms by (simp add: signed_decimal_def atoi_def parse_sign_def s32_in_range)
  next
    case 3
    then show ?thesis using P by (simp add: signed_decimal_def atoi_def parse_sign_def isspace_def)
  qed
qed

text \<open>(C24) Printing with \<open>%d\<close> and reading back with \<open>atoi\<close> is the identity on every \<open>int\<close>, \<open>INT_MIN\<close> included.\<close>

theorem printf_atoi_roundtrip:
  assumes "- (2 ^ 31) \<le> i" "i < 2 ^ 31"
  shows "\<exists>s. vprintf_core m (fmt_bytes ''%d'') [nat (i mod 2 ^ 32)] = Some s \<and> atoi s = i"
  using printf_d [OF assms] atoi_signed_decimal [OF assms] by blast

theorem printf_atoi_roundtrip_witness:
  "\<exists>s. vprintf_core (\<lambda>_. 0) (fmt_bytes ''%d'') [2147483648] = Some s \<and> atoi s = - 2147483648"
  using printf_atoi_roundtrip [of "- 2147483648" "\<lambda>_. 0"] by simp

lemma helper_fold:
  "L + length out < 2 ^ 31 \<Longrightarrow>
    fold vsnprintf_helper out (\<lparr>p = buffer + min L M, length_out = int L, max_length = int M\<rparr>, m) =
      (\<lparr>p = buffer + min (L + length out) M, length_out = int (L + length out), max_length = int M\<rparr>,
       \<lambda>a. if buffer + L \<le> a \<and> a < buffer + min (L + length out) M then out ! (a - (buffer + L)) else m a)"
proof (induction out arbitrary: L m)
  case (Cons ch out)
  have L: "s32 (int L + 1) = int (Suc L)" using Cons.prems by (simp add: s32_in_range)
  show ?case
  proof (cases "L < M")
    case True
    then have "vsnprintf_helper ch (\<lparr>p = buffer + min L M, length_out = int L, max_length = int M\<rparr>, m) =
        (\<lparr>p = buffer + min (Suc L) M, length_out = int (Suc L), max_length = int M\<rparr>, m(buffer + L := ch))"
      using L by (simp add: vsnprintf_helper_def)
    moreover have "(\<lambda>a. if buffer + Suc L \<le> a \<and> a < buffer + min (Suc L + length out) M then out ! (a - (buffer + Suc L)) else (m(buffer + L := ch)) a) =
        (\<lambda>a. if buffer + L \<le> a \<and> a < buffer + min (L + length (ch # out)) M then (ch # out) ! (a - (buffer + L)) else m a)"
      using True by (auto simp: fun_eq_iff nth_Cons')
    ultimately show ?thesis using Cons.IH [of "Suc L" "m(buffer + L := ch)"] Cons.prems by (simp add: fun_upd_def del: of_nat_Suc)
  next
    case False
    then have "vsnprintf_helper ch (\<lparr>p = buffer + min L M, length_out = int L, max_length = int M\<rparr>, m) =
        (\<lparr>p = buffer + min (Suc L) M, length_out = int (Suc L), max_length = int M\<rparr>, m)"
      using L by (simp add: vsnprintf_helper_def)
    then show ?thesis using Cons.IH [of "Suc L" m] Cons.prems False by (auto simp: fun_eq_iff simp del: of_nat_Suc)
  qed
qed (auto simp: fun_eq_iff)

text \<open>\<open>vsnprintf\<close> into a buffer of \<open>buf_size\<close> bytes stores the first \<open>buf_size - 1\<close> characters of the output and the
  terminator, touches no other byte, and returns the length of the whole output; a truncated output is told from its
  result.\<close>

theorem vsnprintf_truncates:
  assumes "vprintf_core m fmt args = Some out" "length out < 2 ^ 31" "0 < buf_size" "buf_size \<le> 2 ^ 31"
  shows "\<exists>m'. vsnprintf buffer buf_size fmt args m = Some (int (length out), m')
    \<and> map m' [buffer..<buffer + min (length out) (buf_size - 1)] = take (buf_size - 1) out
    \<and> m' (buffer + min (length out) (buf_size - 1)) = 0
    \<and> (\<forall>a. a < buffer \<or> buffer + buf_size \<le> a \<longrightarrow> m' a = m a)"
proof -
  have M: "s32 (int buf_size - 1) = int (buf_size - 1)" using assms(3,4) by (simp add: s32_in_range of_nat_diff)
  note F = helper_fold [of 0 out buffer "buf_size - 1" m]
  show ?thesis
    using F assms by (auto simp: vsnprintf_def M Let_def intro!: nth_equalityI)
qed

theorem vsnprintf_truncates_witness:
  "\<exists>m'. vsnprintf 100 4 (fmt_bytes ''%d'') [12345] (\<lambda>_. 7) = Some (5, m') \<and> m' 103 = 0 \<and> m' 104 = 7"
proof -
  have out: "vprintf_core (\<lambda>_. 7) (fmt_bytes ''%d'') [12345] = Some (signed_decimal 12345)" using printf_d [of 12345 "\<lambda>_. 7"] by simp
  have "length (signed_decimal 12345) = 5" by (simp add: signed_decimal_def decimal.simps)
  then show ?thesis using vsnprintf_truncates [OF out, of 4 100] by auto
qed

text \<open>A format that ends inside a conversion leads \<open>__vprintf\<close> past its terminator.\<close>

lemma printf_lone_percent: "vprintf_core m (fmt_bytes ''100%'') [] = None"
  by (simp add: vprintf_core.simps fmt_bytes_def of_char_def)

text \<open>A negative width taken from the arguments sets \<open>MINUS\<close> after \<open>ZERO\<close> was dropped for it, so the field is padded on both sides.\<close>

lemma replicate_nat2: "replicate 2 x = [x, x]"
  by (simp add: numeral_2_eq_2)

lemma printf_zero_negative_width:
  "vprintf_core m (fmt_bytes ''%0*d'') [2 ^ 32 - 3, 5] = Some (fmt_bytes ''005  '')"
proof -
  let ?c = "\<lparr>flags = {MINUS, ZERO}, width = 3, precision = - 1, ptype = INT_T\<rparr>"
  have p: "parse_conversion [48, 42, 100] [2 ^ 32 - 3, 5] = Some (?c, [100], [5])"
    by (simp add: parse_conversion_def parse_star_def parse_precision_def parse_type_def va32_def u32_def s32_def)
  have "decimal 5 = [53]" by (simp add: decimal.simps)
  then have "content_buf 5 base_d ?c = Some [53]"
    using digit_loop_decimal [of 5 "[]" 0] by (simp add: content_buf_def zero_loop_stop)
  then have "format_integer 5 True False base_d ?c = Some [48, 48, 53, 32, 32]"
    by (simp add: format_integer_content sign_char_def output_dup_def replicate_nat2 s32_def)
  moreover have "signed_arg INT_T [5] = Some (5, [])" by (simp add: signed_arg_def va32_def s32_def)
  ultimately have "convert m 100 ?c [5] = Some ([48, 48, 53, 32, 32], [])" by (simp add: convert_def)
  then show ?thesis using p by (simp add: vprintf_core.simps fmt_bytes_def of_char_def)
qed

end
