(* ===== verification/Ustar.thy ===== *)
theory Ustar
  imports Stdio
begin

text \<open>
  \<open>lib/ustar.c\<close>: headers of tape archives, with which \<open>fsutil.c\<close> moves files in and out of the file system.

  A header is the 512 bytes at \<open>h\<close> in a byte-addressed memory. \<open>lit s\<close> is the address of the string literal \<open>s\<close>; the
  functions compare with literals and return one (\<open>"."\<close>). The error messages are strings. \<open>strip\<close> is what
  \<open>strip_antisocial_prefixes\<close> does to the bytes of a name, \<open>octal\<close> the contents of a numeric field.
\<close>

section \<open>The functions of the source\<close>

datatype ustar_type = USTAR_REGULAR | USTAR_DIRECTORY | USTAR_EOF

fun type_byte :: "ustar_type \<Rightarrow> byte" where
  "type_byte USTAR_REGULAR = 48"
| "type_byte USTAR_DIRECTORY = 53"
| "type_byte USTAR_EOF = - 1"

definition USTAR_HEADER_SIZE :: nat where
  "USTAR_HEADER_SIZE = 512"

text \<open>\<open>struct ustar_header\<close>: the offsets of the fields.\<close>

definition of_mode :: nat where "of_mode = 100"
definition of_uid :: nat where "of_uid = 108"
definition of_gid :: nat where "of_gid = 116"
definition of_size :: nat where "of_size = 124"
definition of_mtime :: nat where "of_mtime = 136"
definition of_chksum :: nat where "of_chksum = 148"
definition of_typeflag :: nat where "of_typeflag = 156"
definition of_magic :: nat where "of_magic = 257"
definition of_version :: nat where "of_version = 263"
definition of_uname :: nat where "of_uname = 265"
definition of_gname :: nat where "of_gname = 297"
definition of_prefix :: nat where "of_prefix = 345"

lemmas ustar_offsets = of_mode_def of_uid_def of_gid_def of_size_def of_mtime_def of_chksum_def of_typeflag_def of_magic_def
  of_version_def of_uname_def of_gname_def of_prefix_def USTAR_HEADER_SIZE_def

definition calculate_chksum :: "nat \<Rightarrow> mem \<Rightarrow> nat" where
  "calculate_chksum h m =
     fold (\<lambda>i chksum. u32 (chksum + (if of_chksum \<le> i \<and> i < of_chksum + 8 then 32 else unat (m (h + i))))) [0..<USTAR_HEADER_SIZE] 0"

partial_function (option) strip_loop :: "(string \<Rightarrow> nat) \<Rightarrow> mem \<Rightarrow> nat \<Rightarrow> nat option" where
  "strip_loop lit m file_name =
     do {
       again \<leftarrow> (if m file_name = 47 then Some True
         else do {
           c \<leftarrow> memcmp m file_name (lit ''./'') 2;
           if c = 0 then Some True
           else do { c \<leftarrow> memcmp m file_name (lit ''../'') 3; Some (c = 0) }
         });
       if again then do { p \<leftarrow> strchr m file_name 47; strip_loop lit m (p + 1) } else Some file_name
     }"

definition strip_antisocial_prefixes :: "(string \<Rightarrow> nat) \<Rightarrow> nat \<Rightarrow> mem \<Rightarrow> nat option" where
  "strip_antisocial_prefixes lit file_name m =
     do {
       file_name \<leftarrow> strip_loop lit m file_name;
       bare \<leftarrow> (if m file_name = 0 then Some True else do { c \<leftarrow> strcmp m file_name (lit ''..''); Some (c = 0) });
       Some (if bare then lit ''.'' else file_name)
     }"

text \<open>The result, the memory and what is printed.\<close>

definition ustar_make_header :: "(string \<Rightarrow> nat) \<Rightarrow> nat \<Rightarrow> ustar_type \<Rightarrow> int \<Rightarrow> nat \<Rightarrow> mem \<Rightarrow> (bool \<times> mem \<times> byte list) option" where
  "ustar_make_header lit file_name type sz h m =
     do {
       kassert (type = USTAR_REGULAR \<or> type = USTAR_DIRECTORY);
       file_name \<leftarrow> strip_antisocial_prefixes lit file_name m;
       n \<leftarrow> strlen m file_name;
       if n > 99
       then do { out \<leftarrow> vprintf_core m (fmt_bytes ''%s: file name too long'' @ [10]) [file_name]; Some (False, m, out) }
       else do {
         (_, m) \<leftarrow> memset h 0 USTAR_HEADER_SIZE m;
         (_, m) \<leftarrow> strlcpy h file_name 100 m;
         (_, m) \<leftarrow> snprintf (h + of_mode) 8 (fmt_bytes ''%07o'') [if type = USTAR_REGULAR then 420 else 493] m;
         (_, m) \<leftarrow> strlcpy (h + of_uid) (lit ''0000000'') 8 m;
         (_, m) \<leftarrow> strlcpy (h + of_gid) (lit ''0000000'') 8 m;
         (_, m) \<leftarrow> snprintf (h + of_size) 12 (fmt_bytes ''%011o'') [nat (sz mod 2 ^ 32)] m;
         (_, m) \<leftarrow> snprintf (h + of_mtime) 12 (fmt_bytes ''%011o'') [1136102400] m;
         let m = m(h + of_typeflag := type_byte type);
         (_, m) \<leftarrow> strlcpy (h + of_magic) (lit ''ustar'') 6 m;
         let m = m(h + of_version + 1 := 48);
         let m = m(h + of_version := 48);
         (_, m) \<leftarrow> strlcpy (h + of_gname) (lit ''root'') 32 m;
         (_, m) \<leftarrow> strlcpy (h + of_uname) (lit ''root'') 32 m;
         (_, m) \<leftarrow> snprintf (h + of_chksum) 8 (fmt_bytes ''%07o'') [calculate_chksum h m] m;
         Some (True, m, [])
       }
     }"

text \<open>The rest of the loop from the value so far on; the result and the value stored in \<open>*value\<close>.\<close>

fun octal_loop :: "byte list \<Rightarrow> bool \<Rightarrow> nat \<Rightarrow> bool \<times> nat" where
  "octal_loop [] some v = (False, v)"
| "octal_loop (c # cs) some v =
     (if 48 \<le> unat c \<and> unat c \<le> 55
      then if (2 ^ 32 - 1) div 8 < v then (False, v) else octal_loop cs True (u32 (unat c - 48 + v * 8))
      else if c = 32 \<or> c = 0 then (some, v)
      else (False, v))"

definition parse_octal_field :: "nat \<Rightarrow> nat \<Rightarrow> mem \<Rightarrow> bool \<times> nat" where
  "parse_octal_field s n m = octal_loop (map (\<lambda>i. m (s + i)) [0..<n]) False 0"

fun is_all_zeros :: "mem \<Rightarrow> nat \<Rightarrow> nat \<Rightarrow> bool" where
  "is_all_zeros m block 0 \<longleftrightarrow> True"
| "is_all_zeros m block (Suc cnt) \<longleftrightarrow> m block = 0 \<and> is_all_zeros m (block + 1) cnt"

definition ustar_parse_header :: "(string \<Rightarrow> nat) \<Rightarrow> nat \<Rightarrow> mem \<Rightarrow> (string + nat \<times> ustar_type \<times> nat) option" where
  "ustar_parse_header lit h m =
     (if is_all_zeros m h USTAR_HEADER_SIZE then Some (Inr (0, USTAR_EOF, 0))
      else do {
        c \<leftarrow> memcmp m (h + of_magic) (lit ''ustar'') 6;
        if c \<noteq> 0 then Some (Inl ''not a ustar archive'')
        else if m (h + of_version) \<noteq> 48 \<or> m (h + of_version + 1) \<noteq> 48 then Some (Inl ''invalid ustar version'')
        else let (ok, chksum) = parse_octal_field (h + of_chksum) 8 m in
          if \<not> ok then Some (Inl ''corrupt chksum field'')
          else if chksum \<noteq> calculate_chksum h m then Some (Inl ''checksum mismatch'')
          else if m (h + 99) \<noteq> 0 \<or> m (h + of_prefix) \<noteq> 0 then Some (Inl ''file name too long'')
          else if m (h + of_typeflag) \<noteq> type_byte USTAR_REGULAR \<and> m (h + of_typeflag) \<noteq> type_byte USTAR_DIRECTORY
          then Some (Inl ''unimplemented file type'')
          else let regular = (m (h + of_typeflag) = type_byte USTAR_REGULAR);
                   (ok, size_ul) = (if regular then parse_octal_field (h + of_size) 12 m else (True, 0)) in
            if \<not> ok then Some (Inl ''corrupt file size field'')
            else if 2 ^ 31 - 1 < size_ul then Some (Inl ''file too large'')
            else do {
              file_name \<leftarrow> strip_antisocial_prefixes lit h m;
              Some (Inr (file_name, if regular then USTAR_REGULAR else USTAR_DIRECTORY, size_ul))
            }
      })"

section \<open>Names\<close>

fun strip :: "byte list \<Rightarrow> byte list" where
  "strip (c # s) =
     (if c = 47 then strip s
      else if c = 46 \<and> s \<noteq> [] \<and> hd s = 47 then strip (tl s)
      else if c = 46 \<and> 2 \<le> length s \<and> hd s = 46 \<and> hd (tl s) = 47 then strip (drop 2 s)
      else c # s)"
| "strip [] = []"

definition stripped :: "byte list \<Rightarrow> byte list" where
  "stripped s = (if strip s = [] \<or> strip s = [46, 46] then [46] else strip s)"

definition literals :: "string set" where
  "literals = {''./'', ''../'', ''..'', ''.'', ''ustar'', ''root'', ''0000000''}"

definition lits_ok :: "(string \<Rightarrow> nat) \<Rightarrow> mem \<Rightarrow> bool" where
  "lits_ok lit m \<longleftrightarrow> (\<forall>s\<in>literals. lit s \<noteq> 0 \<and> cstr m (lit s) (fmt_bytes s))"

lemma lit_facts:
  assumes "lits_ok lit m"
  shows "s \<in> literals \<Longrightarrow> lit s \<noteq> 0" "s \<in> literals \<Longrightarrow> cstr m (lit s) (fmt_bytes s)"
  using assms by (simp_all add: lits_ok_def)

lemma in_literals [simp]:
  "''./'' \<in> literals" "''../'' \<in> literals" "''..'' \<in> literals" "''.'' \<in> literals" "''ustar'' \<in> literals" "''root'' \<in> literals" "''0000000'' \<in> literals"
  by (simp_all add: literals_def)

lemma memcmp_prefix:
  "\<forall>i<length t. m (q + i) = t ! i \<and> t ! i \<noteq> 0 \<Longrightarrow> cstr m a s \<Longrightarrow> (memcmp_loop m a q (length t) = 0) = (take (length t) s = t)"
proof (induction t arbitrary: a q s)
  case (Cons c t)
  have q: "m q = c" "c \<noteq> 0" "\<forall>i<length t. m (q + 1 + i) = t ! i \<and> t ! i \<noteq> 0"
    using Cons.prems(1) [rule_format, of 0] Cons.prems(1) [rule_format, of "Suc _"] by auto
  show ?case
  proof (cases s)
    case Nil
    then show ?thesis using Cons.prems(2) q by simp
  next
    case (Cons d s')
    then show ?thesis using Cons.IH [OF q(3), of "a + 1" s'] \<open>cstr m a s\<close> q by auto
  qed
qed simp

lemma fmt_lits [simp]:
  "fmt_bytes ''./'' = [46, 47]" "fmt_bytes ''../'' = [46, 46, 47]" "fmt_bytes ''..'' = [46, 46]" "fmt_bytes ''.'' = [46]"
  "fmt_bytes ''ustar'' = [117, 115, 116, 97, 114]" "fmt_bytes ''root'' = [114, 111, 111, 116]" "fmt_bytes ''0000000'' = [48, 48, 48, 48, 48, 48, 48]"
  by (simp_all add: fmt_bytes_def of_char_def)

lemma strip_step:
  assumes L: "lits_ok lit m" and c: "cstr m a s" "a \<noteq> 0"
  shows "strip_loop lit m a = (if (s \<noteq> [] \<and> hd s = 47) \<or> take 2 s = [46, 47] \<or> take 3 s = [46, 46, 47]
    then do { q \<leftarrow> strchr m a 47; strip_loop lit m (q + 1) } else Some a)"
proof -
  have l1: "lit ''./'' \<noteq> 0" "\<forall>i<length [46, 47 :: byte]. m (lit ''./'' + i) = [46, 47] ! i \<and> [46, 47 :: byte] ! i \<noteq> 0"
    and l2: "lit ''../'' \<noteq> 0" "\<forall>i<length [46, 46, 47 :: byte]. m (lit ''../'' + i) = [46, 46, 47] ! i \<and> [46, 46, 47 :: byte] ! i \<noteq> 0"
    using lit_facts [OF L, of "''./''"] lit_facts [OF L, of "''../''"] by (auto simp: cstr_nth)
  have m1: "memcmp m a (lit ''./'') 2 = Some (memcmp_loop m a (lit ''./'') 2)" "memcmp m a (lit ''../'') 3 = Some (memcmp_loop m a (lit ''../'') 3)"
    using l1(1) l2(1) c(2) by (simp_all add: memcmp_def)
  have m2: "memcmp_loop m a (lit ''./'') 2 = 0 \<longleftrightarrow> take 2 s = [46, 47]" "memcmp_loop m a (lit ''../'') 3 = 0 \<longleftrightarrow> take 3 s = [46, 46, 47]"
    using memcmp_prefix [OF l1(2) c(1)] memcmp_prefix [OF l2(2) c(1)] by (simp_all add: eval_nat_numeral)
  have "m a = 47 \<longleftrightarrow> s \<noteq> [] \<and> hd s = 47" using c(1) by (cases s) auto
  then show ?thesis by (subst strip_loop.simps) (auto simp: m1 m2)
qed

lemma strip_loop_ok:
  assumes L: "lits_ok lit m"
  shows "cstr m a s \<Longrightarrow> a \<noteq> 0 \<Longrightarrow> \<exists>q\<ge>a. strip_loop lit m a = Some q \<and> cstr m q (strip s) \<and> q + length (strip s) = a + length s"
proof (induction s arbitrary: a rule: strip.induct)
  case (1 c s)
  let ?again = "c = 47 \<or> take 2 (c # s) = [46, 47] \<or> take 3 (c # s) = [46, 46, 47]"
  have step: "strip_loop lit m a = (if ?again then do { q \<leftarrow> strchr m a 47; strip_loop lit m (q + 1) } else Some a)"
    using strip_step [OF L 1(4,5)] by simp
  have IH1: "c = 47 \<Longrightarrow> \<exists>q\<ge>a + 1. strip_loop lit m (a + 1) = Some q \<and> cstr m q (strip s) \<and> q + length (strip s) = a + 1 + length s" using 1(1) [of "a + 1"] 1(4) by simp
  have IH2: "\<exists>q\<ge>a + 2. strip_loop lit m (a + 2) = Some q \<and> cstr m q (strip u) \<and> q + length (strip u) = a + 2 + length u" if "c = 46" "s = 47 # u" for u
    using 1(2) [of "a + 2"] 1(4) that by (simp add: eval_nat_numeral)
  have IH3: "\<exists>q\<ge>a + 3. strip_loop lit m (a + 3) = Some q \<and> cstr m q (strip u) \<and> q + length (strip u) = a + 3 + length u" if "c = 46" "s = 46 # 47 # u" for u
    using 1(3) [of "a + 3"] 1(4) that by (simp add: eval_nat_numeral)
  note chr = strchr_ok [OF 1(4,5), of 47]
  consider "c = 47" | u where "c = 46" "s = 47 # u" | u where "c = 46" "s = 46 # 47 # u" | "\<not> ?again"
    by (cases s; cases "tl s") (auto simp: eval_nat_numeral)
  then show ?case
  proof cases
    case 1
    then show ?thesis using step chr IH1 by auto
  next
    case (2 u)
    then show ?thesis using step chr IH2 [OF 2] by (auto simp: eval_nat_numeral)
  next
    case (3 u)
    then show ?thesis using step chr IH3 [OF 3] by (auto simp: eval_nat_numeral)
  next
    case 4
    then have "strip (c # s) = c # s" by (cases s; cases "tl s") (auto simp: eval_nat_numeral)
    then show ?thesis using step 4 1(4) by auto
  qed
next
  case 2
  then show ?case using strip_step [OF L 2] by simp
qed

lemma strip_strip: "strip (strip s) = strip s"
proof (induction s rule: strip.induct)
  case (1 c s)
  then show ?case by (cases "c = 47"; cases s; cases "tl s") auto
qed simp

lemma stripped_stripped: "stripped (stripped s) = stripped s"
  by (simp add: stripped_def strip_strip)

lemma strip_antisocial_ok:
  assumes L: "lits_ok lit m" and c: "cstr m a s" "a \<noteq> 0"
  obtains q where "strip_antisocial_prefixes lit a m = Some q" "cstr m q (stripped s)" "q \<noteq> 0"
    "q = lit ''.'' \<and> stripped s = [46] \<or> a \<le> q \<and> q + length (stripped s) = a + length s"
proof -
  obtain r where r: "a \<le> r" "strip_loop lit m a = Some r" "cstr m r (strip s)" "r + length (strip s) = a + length s"
    using strip_loop_ok [OF assms] by blast
  have l: "lit ''..'' \<noteq> 0" "cstr m (lit ''..'') [46, 46]" "lit ''.'' \<noteq> 0" "cstr m (lit ''.'') [46]" using lit_facts [OF L, of "''..''"] lit_facts [OF L, of "''.''"] by simp_all
  have r0: "r \<noteq> 0" using r(1) c(2) by simp
  have z: "m r = 0 \<longleftrightarrow> strip s = []" using r(3) by (cases "strip s") auto
  have cmp: "strcmp m r (lit ''..'') = Some (str_order (strip s) [46, 46])" by (rule strcmp_ok [OF r(3) l(2) r0 l(1)])
  show thesis
  proof (rule that)
    show "strip_antisocial_prefixes lit a m = Some (if strip s = [] \<or> strip s = [46, 46] then lit ''.'' else r)"
      by (simp add: strip_antisocial_prefixes_def r(2) z cmp str_order_0)
  qed (use l r r0 in \<open>auto simp: stripped_def\<close>)
qed

text \<open>The name of an archive member never is absolute and never starts by leaving the directory.\<close>

lemma stripped_relative:
  "stripped s \<noteq> []" "hd (stripped s) \<noteq> 47" "take 2 (stripped s) \<noteq> [46, 47]" "take 3 (stripped s) \<noteq> [46, 46, 47]" "stripped s \<noteq> [46, 46]"
proof -
  have "strip s = [] \<or> hd (strip s) \<noteq> 47 \<and> take 2 (strip s) \<noteq> [46, 47] \<and> take 3 (strip s) \<noteq> [46, 46, 47]"
  proof (induction s rule: strip.induct)
    case (1 c s)
    consider "c = 47" | u where "c = 46" "s = 47 # u" | u where "c = 46" "s = 46 # 47 # u" | "c \<noteq> 47" "take 2 (c # s) \<noteq> [46, 47]" "take 3 (c # s) \<noteq> [46, 46, 47]"
      by (cases s; cases "tl s") (auto simp: eval_nat_numeral)
    then show ?case
    proof cases
      case 4
      then have "strip (c # s) = c # s" by (cases s; cases "tl s") (auto simp: eval_nat_numeral)
      then show ?thesis using 4 by simp
    qed (use 1 in simp_all)
  qed simp
  then show "stripped s \<noteq> []" "hd (stripped s) \<noteq> 47" "take 2 (stripped s) \<noteq> [46, 47]" "take 3 (stripped s) \<noteq> [46, 46, 47]" "stripped s \<noteq> [46, 46]"
    by (auto simp: stripped_def eval_nat_numeral)
qed

section \<open>Octal fields\<close>

fun octal :: "nat \<Rightarrow> nat \<Rightarrow> byte list" where
  "octal 0 v = []"
| "octal (Suc n) v = octal n (v div 8) @ [word_of_nat (48 + v mod 8)]"

lemma length_octal [simp]: "length (octal n v) = n"
  by (induction n arbitrary: v) simp_all

lemma octal_digit [simp]: "d \<le> 7 \<Longrightarrow> unat (48 + word_of_nat d :: byte) = 48 + d"
proof -
  assume "d \<le> 7"
  then have "unat (word_of_nat (48 + d) :: byte) = 48 + d" by (simp only: unsigned_of_nat) (simp add: take_bit_nat_eq_self)
  then show ?thesis by simp
qed

lemma mod8_le [simp]: "v mod 8 \<le> (7 :: nat)"
  using mod_less_divisor [of 8 v] by linarith

lemma octal_digits: "c \<in> set (octal n v) \<Longrightarrow> 48 \<le> unat c \<and> unat c \<le> 55"
proof (induction n arbitrary: v)
  case (Suc n)
  then show ?case by auto
qed simp

lemma octal_loop_ok:
  "v < 8 ^ n \<Longrightarrow> v < 2 ^ 32 \<Longrightarrow> 0 < n \<Longrightarrow> octal_loop (octal n v @ cs) b 0 = octal_loop cs True v"
proof (induction n arbitrary: v cs b)
  case (Suc n)
  have u: "v mod 8 \<le> 7" by simp
  have q: "v div 8 < 8 ^ n" "v div 8 < 2 ^ 32" "v div 8 \<le> (2 ^ 32 - 1) div 8" using Suc.prems by (simp_all add: less_mult_imp_div_less)
  have v: "u32 (v mod 8 + v div 8 * 8) = v" using Suc.prems(2) by (simp add: u32_small)
  show ?case
  proof (cases "n = 0")
    case True
    then have "v div 8 = 0" using q by simp
    then show ?thesis using u v True by simp
  next
    case False
    then show ?thesis using Suc.IH [OF q(1,2), of "word_of_nat (48 + v mod 8) # cs" b] u v q(3) by simp
  qed
qed simp

lemma octal_zero: "octal n 0 = replicate n 48"
  by (induction n) (simp_all add: replicate_append_same)

lemma digit_loop_octal:
  "v < 8 ^ n \<Longrightarrow> n + length buf \<le> 64 \<Longrightarrow> \<exists>ds. digit_loop base_o False v k buf = Some (ds @ buf) \<and> length ds \<le> n \<and> octal n v = replicate (n - length ds) 48 @ ds
    \<and> (ds = [] \<longleftrightarrow> v = 0)"
proof (induction n arbitrary: v k buf)
  case 0
  then show ?case by (simp add: digit_loop.simps)
next
  case (Suc n)
  show ?case
  proof (cases "v = 0")
    case True
    then show ?thesis using octal_zero [of "Suc n"] by (simp add: digit_loop.simps)
  next
    case False
    have "\<forall>k<8. digit_chars ! k = (word_of_nat (48 + k) :: byte)" by (simp add: digit_chars_def eval_nat_numeral All_less_Suc)
    then have d: "digits base_o ! (v mod base base_o) = word_of_nat (48 + v mod 8)" by (simp add: base_o_def)
    have "v div 8 < 8 ^ n" using Suc.prems by (simp add: less_mult_imp_div_less)
    then obtain ds where ds: "digit_loop base_o False (v div 8) (k + 1) (word_of_nat (48 + v mod 8) # buf) = Some (ds @ word_of_nat (48 + v mod 8) # buf)"
        "length ds \<le> n" "octal n (v div 8) = replicate (n - length ds) 48 @ ds"
      using Suc.IH [of "v div 8" "word_of_nat (48 + v mod 8) # buf" "k + 1"] Suc.prems(2) by auto
    have "digit_loop base_o False v k buf = digit_loop base_o False (v div 8) (k + 1) (word_of_nat (48 + v mod 8) # buf)"
      using False Suc.prems(2) d by (subst digit_loop.simps) (simp add: push_def base_o_def)
    then show ?thesis using ds by (intro exI [of _ "ds @ [word_of_nat (48 + v mod 8)]"]) (use False in simp)
  qed
qed

definition zero_padded :: "nat \<Rightarrow> printf_conversion" where
  "zero_padded n = \<lparr>flags = {ZERO}, width = int n, precision = - 1, ptype = INT_T\<rparr>"

lemma format_octal:
  assumes v: "v < 8 ^ n" and n: "0 < n" "n \<le> 60"
  shows "format_integer v False False base_o (zero_padded n) = Some (octal n v)"
proof -
  obtain ds where ds: "digit_loop base_o False v 0 [] = Some ds" "length ds \<le> n" "octal n v = replicate (n - length ds) 48 @ ds" "ds = [] \<longleftrightarrow> v = 0"
    using digit_loop_octal [OF v, of "[]" 0] n(2) by auto
  define buf where "buf = (if ds = [] then [48] else ds)"
  have "zero_loop 64 1 ds = Some buf"
  proof (cases "ds = []")
    case True
    then show ?thesis using zero_loop.simps(2) [of 63 1 "[]"] by (simp add: buf_def push_def zero_loop_stop)
  next
    case False
    then show ?thesis by (simp add: buf_def zero_loop_stop Suc_le_eq)
  qed
  then have c: "content_buf v base_o (zero_padded n) = Some buf" using ds(1) by (simp add: content_buf_def zero_padded_def)
  have l: "length buf \<le> n" using ds(2) n(1) by (auto simp: buf_def)
  then have s: "s32 (int n - int (length buf)) = int (n - length buf)" using n(2) by (subst s32_in_range) auto
  have p: "replicate (n - length buf) 48 @ buf = octal n v"
  proof (cases "ds = []")
    case True
    then show ?thesis using ds(4) n(1) octal_zero [of n] by (cases n) (simp_all add: buf_def replicate_append_same)
  qed (use ds(3) in \<open>simp add: buf_def\<close>)
  have "format_integer v False False base_o (zero_padded n) = Some (replicate (n - length buf) 48 @ buf)"
    using s by (simp add: format_integer_content c sign_char_def output_dup_def Let_def) (simp add: zero_padded_def base_o_def Let_def)
  then show ?thesis using p by simp
qed

lemma printf_octal:
  assumes "v < 8 ^ n" "v < 2 ^ 32" "n \<in> {7, 11}" and f: "fmt = (if n = 7 then fmt_bytes ''%07o'' else fmt_bytes ''%011o'')"
  shows "vprintf_core m fmt [v] = Some (octal n v)"
proof -
  have f7: "fmt_bytes ''%07o'' = [37, 48, 55, 111]" and f11: "fmt_bytes ''%011o'' = [37, 48, 49, 49, 111]" by (simp_all add: fmt_bytes_def of_char_def)
  have p7: "parse_conversion [48, 55, 111] args = Some (zero_padded 7, [111], args)" for args
    by (simp add: parse_conversion_def parse_star_def parse_precision_def parse_type_def zero_padded_def isdigit_def s32_def)
  have p11: "parse_conversion [48, 49, 49, 111] args = Some (zero_padded 11, [111], args)" for args
    by (simp add: parse_conversion_def parse_star_def parse_precision_def parse_type_def zero_padded_def isdigit_def s32_def)
  have "convert m 111 (zero_padded n) [v] = Some (octal n v, [])"
    using format_octal [OF assms(1)] assms(2,3) by (auto simp: convert_def unsigned_arg_def va32_def zero_padded_def u32_small)
  then show ?thesis using assms(3) by (auto simp: f f7 f11 p7 p11 vprintf_core.simps)
qed

text \<open>\<open>put a s m\<close>: the string \<open>s\<close> with its terminator at \<open>a\<close>.\<close>

definition put :: "nat \<Rightarrow> byte list \<Rightarrow> mem \<Rightarrow> mem" where
  "put a s m = (\<lambda>x. if a \<le> x \<and> x < a + length s then s ! (x - a) else if x = a + length s then 0 else m x)"

lemma put_other [simp]: "x < a \<or> a + length s < x \<Longrightarrow> put a s m x = m x"
  by (auto simp: put_def)

lemma put_at: "i < length s \<Longrightarrow> put a s m (a + i) = s ! i" "put a s m (a + length s) = 0"
  by (simp_all add: put_def)

lemma cstr_put: "0 \<notin> set s \<Longrightarrow> cstr (put a s m) a s"
  by (auto simp: cstr_nth put_at in_set_conv_nth)

lemma snprintf_put:
  assumes "vprintf_core m fmt args = Some out" "length out < n" "n \<le> 2 ^ 31"
  shows "snprintf a n fmt args m = Some (int (length out), put a out m)"
proof -
  have M: "s32 (int n - 1) = int (n - 1)" using assms(2,3) by (simp add: s32_in_range of_nat_diff)
  have "min (length out) (n - 1) = length out" using assms(2) by simp
  then show ?thesis using helper_fold [of 0 out a "n - 1" m] assms
    by (auto simp: snprintf_def vsnprintf_def M Let_def put_def fun_eq_iff)
qed

lemma strlcpy_put:
  assumes src: "cstr m src s" "src \<noteq> 0" and dst: "a \<noteq> 0" "length s < n" and disjoint: "a + n \<le> src \<or> src + length s < a"
  shows "strlcpy a src n m = Some (length s, put a s m)"
proof -
  have cp: "memcpy a src (length s) m = Some (a, copy_unit (length s) a src m)" by (rule memcpy_eq) (use src(2) dst disjoint in auto)
  have "(copy_unit (length s) a src m)(a + length s := 0) = put a s m"
  proof
    fix x
    have "m (src + (x - a)) = s ! (x - a)" if "a \<le> x" "x < a + length s"
      using that src(1) by (simp add: cstr_nth less_diff_conv2 del: add_diff_assoc)
    then show "((copy_unit (length s) a src m)(a + length s := 0)) x = put a s m x" by (simp add: put_def copy_unit_def)
  qed
  moreover obtain k where "n = Suc (length s + k)" using dst(2) less_iff_Suc_add by blast
  moreover have "strlen m src = Some (length s)" by (rule strlen_ok [OF src])
  ultimately show ?thesis using src dst cp by (cases "k = 0") (simp_all add: strlcpy_def Let_def)
qed

section \<open>Headers\<close>

definition outside :: "nat \<Rightarrow> nat \<Rightarrow> nat \<Rightarrow> bool" where
  "outside h a n \<longleftrightarrow> a + n < h \<or> h + USTAR_HEADER_SIZE \<le> a"

definition lits_outside :: "(string \<Rightarrow> nat) \<Rightarrow> nat \<Rightarrow> bool" where
  "lits_outside lit h \<longleftrightarrow> (\<forall>s\<in>literals. outside h (lit s) (length s))"

text \<open>The header before the checksum is stored.\<close>

definition fields :: "byte list \<Rightarrow> ustar_type \<Rightarrow> nat \<Rightarrow> nat \<Rightarrow> mem \<Rightarrow> mem" where
  "fields name type sz h m =
     put (h + of_uname) (fmt_bytes ''root'') (put (h + of_gname) (fmt_bytes ''root'')
      ((put (h + of_magic) (fmt_bytes ''ustar'')
         ((put (h + of_mtime) (octal 11 1136102400) (put (h + of_size) (octal 11 sz)
           (put (h + of_gid) (fmt_bytes ''0000000'') (put (h + of_uid) (fmt_bytes ''0000000'')
           (put (h + of_mode) (octal 7 (if type = USTAR_REGULAR then 420 else 493)) (put h name (fill h 0 USTAR_HEADER_SIZE m)))))))
          (h + of_typeflag := type_byte type)))
       (h + of_version + 1 := 48, h + of_version := 48)))"

definition header :: "byte list \<Rightarrow> ustar_type \<Rightarrow> nat \<Rightarrow> nat \<Rightarrow> mem \<Rightarrow> mem" where
  "header name type sz h m = put (h + of_chksum) (octal 7 (calculate_chksum h (fields name type sz h m))) (fields name type sz h m)"

definition same_off :: "nat \<Rightarrow> mem \<Rightarrow> mem \<Rightarrow> bool" where
  "same_off h m m' \<longleftrightarrow> (\<forall>x. x < h \<or> h + USTAR_HEADER_SIZE \<le> x \<longrightarrow> m' x = m x)"

lemma same_off_put: "same_off h m m' \<Longrightarrow> h \<le> a \<Longrightarrow> a + length s < h + USTAR_HEADER_SIZE \<Longrightarrow> same_off h m (put a s m')"
  by (auto simp: same_off_def)

lemma same_off_upd: "same_off h m m' \<Longrightarrow> h \<le> a \<Longrightarrow> a < h + USTAR_HEADER_SIZE \<Longrightarrow> same_off h m (m'(a := c))"
  by (auto simp: same_off_def)

lemma same_off_fill: "same_off h m (fill h 0 USTAR_HEADER_SIZE m)"
  by (simp add: same_off_def fill_eq)

lemma same_off_cstr: "same_off h m m' \<Longrightarrow> outside h a (length s) \<Longrightarrow> cstr m' a s = cstr m a s"
  by (rule cstr_cong) (auto simp: same_off_def outside_def)

lemma lits_off: "same_off h m m' \<Longrightarrow> lits_outside lit h \<Longrightarrow> lits_ok lit m' = lits_ok lit m"
  unfolding lits_ok_def lits_outside_def using same_off_cstr [of h m m' _ "fmt_bytes _"] by (simp add: fmt_bytes_def)

lemma sum_bytes:
  "(\<forall>i. f i < 256) \<Longrightarrow> n \<le> USTAR_HEADER_SIZE \<Longrightarrow> fold (\<lambda>i c. u32 (c + f i)) [0..<n] 0 = (\<Sum>i<n. f i) \<and> (\<Sum>i<n. f i) \<le> 255 * n" for f :: "nat \<Rightarrow> nat"
proof (induction n)
  case (Suc n)
  have "f n \<le> 255" using Suc.prems(1) [rule_format, of n] by linarith
  then have "(\<Sum>i<n. f i) + f n \<le> 255 * Suc n" "255 * Suc n < 2 ^ 32" using Suc by (auto simp: USTAR_HEADER_SIZE_def)
  then show ?case using Suc by (simp add: u32_small)
qed simp

text \<open>The checksum as a sum of 512 bytes.\<close>

definition sum_byte :: "nat \<Rightarrow> mem \<Rightarrow> nat \<Rightarrow> nat" where
  "sum_byte h m i = (if of_chksum \<le> i \<and> i < of_chksum + 8 then 32 else unat (m (h + i)))"

lemma sum_byte_lt: "sum_byte h m i < 256"
proof -
  have "unat (m (h + i)) < 2 ^ LENGTH(8)" by (rule unsigned_less)
  then show ?thesis by (simp add: sum_byte_def)
qed

lemma chksum_sum: "calculate_chksum h m = (\<Sum>i<USTAR_HEADER_SIZE. sum_byte h m i)" "calculate_chksum h m < 8 ^ 7"
  using sum_bytes [of "sum_byte h m" USTAR_HEADER_SIZE] sum_byte_lt by (simp_all add: calculate_chksum_def sum_byte_def USTAR_HEADER_SIZE_def)

lemma chksum_cong:
  "(\<And>i. i < USTAR_HEADER_SIZE \<Longrightarrow> i < of_chksum \<or> of_chksum + 8 \<le> i \<Longrightarrow> m' (h + i) = m (h + i)) \<Longrightarrow> calculate_chksum h m' = calculate_chksum h m"
  unfolding chksum_sum by (intro sum.cong) (auto simp: sum_byte_def)

lemma all_zeros_iff: "is_all_zeros m a n \<longleftrightarrow> (\<forall>i<n. m (a + i) = 0)"
  by (induction n arbitrary: a) (auto simp: less_Suc_eq_0_disj)

lemma field_read:
  assumes "\<forall>i\<le>length s. M (a + i) = put a s m (a + i)" "n = Suc (length s)"
  shows "map (\<lambda>i. M (a + i)) [0..<n] = s @ [0]"
  unfolding assms(2) by (rule nth_equalityI) (use assms(1) in \<open>auto simp: put_def nth_append less_Suc_eq\<close>)

lemma make_header_ok:
  assumes L: "lits_ok lit m" "lits_outside lit h" and name: "cstr m a s" "a \<noteq> 0" "outside h a (length s)" "length (stripped s) \<le> 99"
    and h: "h \<noteq> 0" and type: "type \<noteq> USTAR_EOF" and sz: "0 \<le> sz" "sz < 2 ^ 31"
  shows "ustar_make_header lit a type sz h m = Some (True, header (stripped s) type (nat sz) h m, [])"
proof -
  obtain q where q: "strip_antisocial_prefixes lit a m = Some q" "cstr m q (stripped s)" "q \<noteq> 0"
      "q = lit ''.'' \<and> stripped s = [46] \<or> a \<le> q \<and> q + length (stripped s) = a + length s"
    by (rule strip_antisocial_ok [OF L(1) name(1,2)])
  let ?n = "stripped s"
  have qo: "outside h q (length ?n)"
    using q(4) name(3) L(2) [unfolded lits_outside_def, rule_format, of "''.''"] by (auto simp: outside_def)
  have len: "strlen m q = Some (length ?n)" by (rule strlen_ok [OF q(2,3)])
  have copy: "strlcpy (h + x) (lit t) n m' = Some (length t, put (h + x) (fmt_bytes t) m')"
    if "same_off h m m'" "t \<in> literals" "length t < n" "x + n \<le> USTAR_HEADER_SIZE" for x t n m'
  proof -
    have "cstr m' (lit t) (fmt_bytes t)" using lit_facts(2) lits_off [OF that(1) L(2)] L(1) that(2) by blast
    moreover have "outside h (lit t) (length t)" using L(2) that(2) by (simp add: lits_outside_def)
    moreover have "length (fmt_bytes t) = length t" by (simp add: fmt_bytes_def)
    ultimately show ?thesis using strlcpy_put [of m' "lit t" "fmt_bytes t" "h + x" n] lit_facts(1) [OF L(1) that(2)] h that(3,4) by (auto simp: outside_def)
  qed
  have print: "snprintf (h + x) n fmt [v] m' = Some (int k, put (h + x) (octal k v) m')"
    if "v < 8 ^ k" "v < 2 ^ 32" "k \<in> {7, 11}" "fmt = (if k = 7 then fmt_bytes ''%07o'' else fmt_bytes ''%011o'')" "n = k + 1" for x n fmt v k m'
    using snprintf_put [OF printf_octal [OF that(1-4)], of n] that(3,5) by auto
  have n0: "strlcpy h q 100 m' = Some (length ?n, put h ?n m')" if "same_off h m m'" for m'
  proof (rule strlcpy_put)
    show "cstr m' q ?n" using same_off_cstr [OF that qo] q(2) by simp
  qed (use q(3) h name(4) qo in \<open>auto simp: outside_def USTAR_HEADER_SIZE_def\<close>)
  define m1 where "m1 = fill h 0 USTAR_HEADER_SIZE m"
  define m2 where "m2 = put h ?n m1"
  define m3 where "m3 = put (h + of_mode) (octal 7 (if type = USTAR_REGULAR then 420 else 493)) m2"
  define m4 where "m4 = put (h + of_uid) (fmt_bytes ''0000000'') m3"
  define m5 where "m5 = put (h + of_gid) (fmt_bytes ''0000000'') m4"
  define m6 where "m6 = put (h + of_size) (octal 11 (nat sz)) m5"
  define m7 where "m7 = put (h + of_mtime) (octal 11 1136102400) m6"
  define m8 where "m8 = m7(h + of_typeflag := type_byte type)"
  define m9 where "m9 = put (h + of_magic) (fmt_bytes ''ustar'') m8"
  define m10 where "m10 = m9(h + of_version + 1 := 48, h + of_version := 48)"
  define m11 where "m11 = put (h + of_gname) (fmt_bytes ''root'') m10"
  define m12 where "m12 = put (h + of_uname) (fmt_bytes ''root'') m11"
  have so: "same_off h m m1" "same_off h m m3" "same_off h m m4" "same_off h m m8" "same_off h m m10" "same_off h m m11"
    using name(4) unfolding m1_def m2_def m3_def m4_def m5_def m6_def m7_def m8_def m9_def m10_def m11_def
    by (intro same_off_put same_off_upd same_off_fill; simp add: ustar_offsets)+
  have f: "fields ?n type (nat sz) h m = m12"
    unfolding fields_def m1_def m2_def m3_def m4_def m5_def m6_def m7_def m8_def m9_def m10_def m11_def m12_def ..
  have pm: "snprintf (h + of_mode) 8 (fmt_bytes ''%07o'') [if type = USTAR_REGULAR then 420 else 493] m2 = Some (int 7, m3)"
    unfolding m3_def by (rule print) auto
  have ps: "snprintf (h + of_size) 12 (fmt_bytes ''%011o'') [nat (sz mod 2 ^ 32)] m5 = Some (int 11, m6)"
  proof -
    have "sz mod 2 ^ 32 = sz" "nat sz < 2 ^ 31" using sz by (simp_all add: nat_less_iff)
    then show ?thesis unfolding m6_def by (simp only:) (rule print; simp)
  qed
  have pt: "snprintf (h + of_mtime) 12 (fmt_bytes ''%011o'') [1136102400] m6 = Some (int 11, m7)" unfolding m7_def by (rule print) auto
  have pc: "snprintf (h + of_chksum) 8 (fmt_bytes ''%07o'') [calculate_chksum h m12] m12 = Some (int 7, header ?n type (nat sz) h m)"
    unfolding header_def f using chksum_sum(2) [of h m12] by (intro print) auto
  note cs = copy [OF so(2), of "''0000000''" 8 of_uid, folded m4_def] copy [OF so(3), of "''0000000''" 8 of_gid, folded m5_def]
    copy [OF so(4), of "''ustar''" 6 of_magic, folded m9_def] copy [OF so(5), of "''root''" 32 of_gname, folded m11_def] copy [OF so(6), of "''root''" 32 of_uname, folded m12_def]
  have c: "strlcpy (h + of_uid) (lit ''0000000'') 8 m3 = Some (7, m4)" "strlcpy (h + of_gid) (lit ''0000000'') 8 m4 = Some (7, m5)"
    "strlcpy (h + of_magic) (lit ''ustar'') 6 m8 = Some (5, m9)" "strlcpy (h + of_gname) (lit ''root'') 32 m10 = Some (4, m11)" "strlcpy (h + of_uname) (lit ''root'') 32 m11 = Some (4, m12)"
    using cs by (simp_all add: ustar_offsets)
  have v: "m9(h + of_version + 1 := 48, h + of_version := 48) = m10" "m7(h + of_typeflag := type_byte type) = m8" by (simp_all add: m10_def m8_def)
  have t: "type = USTAR_REGULAR \<or> type = USTAR_DIRECTORY" using type by (cases type) simp_all
  have ms: "memset h 0 USTAR_HEADER_SIZE m = Some (h, m1)" using h by (simp add: memset_def m1_def)
  have nm: "strlcpy h q 100 m1 = Some (length ?n, m2)" using n0 [OF so(1)] by (simp add: m2_def)
  show ?thesis using t name(4)
    unfolding ustar_make_header_def q(1) len bind.bind_lunit Let_def
    by (simp only: ms nm pm c ps pt pc v bind.bind_lunit split_conv kassert_True if_False not_less) simp
qed

lemma header_fields:
  fixes n :: "byte list" and type :: ustar_type and sz h :: nat and m :: mem
  assumes name: "length n \<le> 99" and h: "h \<noteq> 0"
  defines "M \<equiv> header n type sz h m"
  shows "\<forall>i\<le>length n. M (h + i) = put h n m (h + i)" "M (h + 99) = 0" "M (h + of_prefix) = 0" "M (h + of_typeflag) = type_byte type"
    "M (h + of_version) = 48" "M (h + of_version + 1) = 48" "\<forall>i\<le>length (octal 11 sz). M (h + of_size + i) = put (h + of_size) (octal 11 sz) m (h + of_size + i)"
    "\<forall>i\<le>5. M (h + of_magic + i) = put (h + of_magic) (fmt_bytes ''ustar'') m (h + of_magic + i)"
    "\<forall>i\<le>length (octal 7 (calculate_chksum h M)). M (h + of_chksum + i) = put (h + of_chksum) (octal 7 (calculate_chksum h M)) m (h + of_chksum + i)"
    "same_off h m M"
proof -
  have c: "calculate_chksum h M = calculate_chksum h (fields n type sz h m)"
    unfolding M_def header_def by (rule chksum_cong) (auto simp: ustar_offsets)
  show "\<forall>i\<le>length (octal 7 (calculate_chksum h M)). M (h + of_chksum + i) = put (h + of_chksum) (octal 7 (calculate_chksum h M)) m (h + of_chksum + i)"
    unfolding c by (auto simp: M_def header_def put_def)
  show "\<forall>i\<le>length n. M (h + i) = put h n m (h + i)" using name
    by (auto simp: M_def header_def fields_def ustar_offsets) (auto simp: put_def)
  show "M (h + 99) = 0" "M (h + of_prefix) = 0" using name by (simp_all add: M_def header_def fields_def ustar_offsets fill_eq) (auto simp: put_def)
  show "M (h + of_typeflag) = type_byte type" by (simp add: M_def header_def fields_def ustar_offsets)
  show "M (h + of_version) = 48" "M (h + of_version + 1) = 48" by (simp_all add: M_def header_def fields_def ustar_offsets)
  show "\<forall>i\<le>length (octal 11 sz). M (h + of_size + i) = put (h + of_size) (octal 11 sz) m (h + of_size + i)"
    by (auto simp: M_def header_def fields_def ustar_offsets) (auto simp: put_def)
  show "\<forall>i\<le>5. M (h + of_magic + i) = put (h + of_magic) (fmt_bytes ''ustar'') m (h + of_magic + i)"
    by (auto simp: M_def header_def fields_def ustar_offsets) (auto simp: put_def)
  show "same_off h m M" unfolding M_def header_def fields_def
    by (intro same_off_put same_off_upd same_off_fill; use name in \<open>simp add: ustar_offsets\<close>)
qed

lemma memcmp_loop_eq: "memcmp_loop m a b n = 0 \<longleftrightarrow> (\<forall>i<n. m (a + i) = m (b + i))"
  by (induction n arbitrary: a b) (auto simp: less_Suc_eq_0_disj)

lemma magic_bytes:
  assumes "lits_ok lit m"
  shows "memcmp m (h + of_magic) (lit ''ustar'') 6 = Some 0 \<longleftrightarrow> (\<forall>i<6. m (h + of_magic + i) = ([117, 115, 116, 97, 114, 0] :: byte list) ! i)"
    "memcmp m (h + of_magic) (lit ''ustar'') 6 \<noteq> None"
proof -
  have c: "cstr m (lit ''ustar'') [117, 115, 116, 97, 114]" "lit ''ustar'' \<noteq> 0" using lit_facts [OF assms, of "''ustar''"] by simp_all
  have "\<forall>i<6. m (lit ''ustar'' + i) = ([117, 115, 116, 97, 114, 0] :: byte list) ! i"
    using c(1) by (simp add: eval_nat_numeral All_less_Suc)
  then show "memcmp m (h + of_magic) (lit ''ustar'') 6 = Some 0 \<longleftrightarrow> (\<forall>i<6. m (h + of_magic + i) = ([117, 115, 116, 97, 114, 0] :: byte list) ! i)"
    using c(2) by (simp add: memcmp_def memcmp_loop_eq of_magic_def)
  show "memcmp m (h + of_magic) (lit ''ustar'') 6 \<noteq> None" using c(2) by (simp add: memcmp_def of_magic_def)
qed

lemma parse_header_ok:
  assumes L: "lits_ok lit m" "lits_outside lit h" and name: "0 \<notin> set n" "length n \<le> 99" and h: "h \<noteq> 0" and type: "type \<noteq> USTAR_EOF" and sz: "sz < 2 ^ 31"
  defines "M \<equiv> header n type sz h m"
  shows "\<exists>q. ustar_parse_header lit h M = Some (Inr (q, type, if type = USTAR_REGULAR then sz else 0)) \<and> cstr M q (stripped n)"
proof -
  note F = header_fields [OF name(2) h, where type = type and sz = sz and m = m, folded M_def]
  have LM: "lits_ok lit M" using lits_off [OF F(10) L(2)] L(1) by simp
  have mg: "\<forall>i<6. M (h + of_magic + i) = ([117, 115, 116, 97, 114, 0] :: byte list) ! i"
    using F(8) by (auto simp: put_def less_Suc_eq_le nth_Cons' numeral_eq_Suc)
  have mc: "memcmp M (h + of_magic) (lit ''ustar'') 6 = Some 0" using magic_bytes(1) [OF LM] mg by blast
  have nz: "\<not> is_all_zeros M h USTAR_HEADER_SIZE"
    using mg [rule_format, of 0] unfolding all_zeros_iff by (intro notI) (drule spec [of _ of_magic], simp add: ustar_offsets)
  let ?c = "calculate_chksum h M"
  have "map (\<lambda>i. M (h + of_chksum + i)) [0..<8] = octal 7 ?c @ [0]" by (rule field_read [OF F(9)]) simp
  moreover have "?c < 8 ^ 7" "?c < 2 ^ 32" using chksum_sum(2) [of h M] by simp_all
  ultimately have pc: "parse_octal_field (h + of_chksum) 8 M = (True, ?c)" using octal_loop_ok [of ?c 7 "[0]" False] by (simp add: parse_octal_field_def)
  have "map (\<lambda>i. M (h + of_size + i)) [0..<12] = octal 11 sz @ [0]" by (rule field_read [OF F(7)]) simp
  moreover have "sz < 8 ^ 11" "sz < 2 ^ 32" using sz by simp_all
  ultimately have ps: "parse_octal_field (h + of_size) 12 M = (True, sz)" using octal_loop_ok [of sz 11 "[0]" False] by (simp add: parse_octal_field_def)
  have "cstr M h n = cstr (put h n m) h n" by (rule cstr_cong) (use F(1) in simp)
  then have "cstr M h n" using cstr_put name(1) by simp
  then obtain q where q: "strip_antisocial_prefixes lit h M = Some q" "cstr M q (stripped n)" using strip_antisocial_ok [OF LM _ h] by metis
  show ?thesis using q type sz
    by (cases type) (simp_all add: ustar_parse_header_def nz mc F(2-5) F(6) [simplified] pc ps Let_def)
qed

lemma zero_stripped: "0 \<notin> set s \<Longrightarrow> 0 \<notin> set (stripped s)"
proof -
  have "set (strip s) \<subseteq> set s"
  proof (induction s rule: strip.induct)
    case (1 c s)
    then show ?case by (cases s; cases "tl s") auto
  qed simp
  then show "0 \<notin> set s \<Longrightarrow> 0 \<notin> set (stripped s)" by (auto simp: stripped_def)
qed

lemma cstr_zero: "cstr m a s \<Longrightarrow> 0 \<notin> set s"
  by (auto simp: cstr_nth in_set_conv_nth)

section \<open>What the functions guarantee\<close>

text \<open>(C37) A header that \<open>ustar_make_header\<close> made is read back by \<open>ustar_parse_header\<close> with the same type and size, and with
  the name less its dangerous prefixes, which is stripped already and so stays as it is; only the header is written.\<close>

theorem ustar_roundtrip:
  assumes L: "lits_ok lit m" "lits_outside lit h" and name: "cstr m a s" "a \<noteq> 0" "outside h a (length s)" "length (stripped s) \<le> 99"
    and h: "h \<noteq> 0" and type: "type \<noteq> USTAR_EOF" and sz: "0 \<le> sz" "sz < 2 ^ 31"
  shows "\<exists>m' q. ustar_make_header lit a type sz h m = Some (True, m', []) \<and> same_off h m m'
    \<and> ustar_parse_header lit h m' = Some (Inr (q, type, if type = USTAR_REGULAR then nat sz else 0)) \<and> cstr m' q (stripped s)"
proof -
  have "nat sz < 2 ^ 31" using sz by simp
  from parse_header_ok [OF L zero_stripped [OF cstr_zero [OF name(1)]] name(4) h type this]
  have "\<exists>q. ustar_parse_header lit h (header (stripped s) type (nat sz) h m) = Some (Inr (q, type, if type = USTAR_REGULAR then nat sz else 0))
      \<and> cstr (header (stripped s) type (nat sz) h m) q (stripped s)"
    by (simp add: stripped_stripped)
  then show ?thesis using make_header_ok [OF assms] header_fields(10) [OF name(4) h] by blast
qed

text \<open>The error branch: a name that is too long is refused and memory not touched.\<close>

lemma vprintf_text: "37 \<notin> set t \<Longrightarrow> vprintf_core m t args = Some t"
  by (induction t) (simp_all add: vprintf_core.simps)

lemma ustar_name_too_long:
  assumes L: "lits_ok lit m" and name: "cstr m a s" "a \<noteq> 0" "99 < length (stripped s)" and type: "type \<noteq> USTAR_EOF"
  shows "\<exists>out. ustar_make_header lit a type sz h m = Some (False, m, out)"
proof -
  obtain q where q: "strip_antisocial_prefixes lit a m = Some q" "cstr m q (stripped s)" "q \<noteq> 0"
      "q = lit ''.'' \<and> stripped s = [46] \<or> a \<le> q \<and> q + length (stripped s) = a + length s"
    by (rule strip_antisocial_ok [OF L(1) name(1,2)])
  have f: "fmt_bytes ''%s: file name too long'' = 37 # 115 # fmt_bytes '': file name too long''" by (simp add: fmt_bytes_def of_char_def)
  have p: "parse_conversion (115 # t) args = Some (plain, 115 # t, args)" for t args
    by (simp add: parse_conversion_def parse_star_def parse_precision_def parse_type_def plain_def isdigit_def)
  have "\<exists>out. vprintf_core m (fmt_bytes ''%s: file name too long'' @ [10]) [q] = Some out"
  proof -
    obtain o1 where "convert m 115 plain [q] = Some (o1, [])" by (simp add: convert_def va32_def)
    moreover have "37 \<notin> set (fmt_bytes '': file name too long'' @ [10])" by (simp add: fmt_bytes_def of_char_def)
    ultimately show ?thesis using vprintf_text [of "fmt_bytes '': file name too long'' @ [10]" m "[]"] unfolding f by (subst vprintf_core.simps) (simp add: p)
  qed
  moreover have "type = USTAR_REGULAR \<or> type = USTAR_DIRECTORY" using type by (cases type) simp_all
  ultimately show ?thesis using q name(3) by (auto simp: ustar_make_header_def strlen_ok)
qed

text \<open>When one byte of a valid header outside the checksum field is damaged, \<open>ustar_parse_header\<close> reports an error.\<close>

theorem ustar_detects_damage:
  assumes L: "lits_ok lit m" "lits_outside lit h" and ok: "ustar_parse_header lit h m = Some (Inr (q, type, n))" "type \<noteq> USTAR_EOF"
    and k: "k < USTAR_HEADER_SIZE" "k < of_chksum \<or> of_chksum + 8 \<le> k" "c \<noteq> m (h + k)"
  shows "\<exists>e. ustar_parse_header lit h (m(h + k := c)) = Some (Inl e)"
proof -
  let ?m = "m(h + k := c)"
  have so: "same_off h m ?m" using k(1) by (auto simp: same_off_def)
  have LM: "lits_ok lit ?m" using lits_off [OF so L(2)] L(1) by simp
  obtain cs where P: "memcmp m (h + of_magic) (lit ''ustar'') 6 = Some 0" "parse_octal_field (h + of_chksum) 8 m = (True, cs)" "cs = calculate_chksum h m"
    using ok by (auto simp: ustar_parse_header_def Option.bind_eq_Some_conv split: if_splits prod.splits)
  have mg: "\<forall>i<6. m (h + of_magic + i) = ([117, 115, 116, 97, 114, 0] :: byte list) ! i" using magic_bytes(1) [OF L(1)] P(1) by blast
  have "m (h + of_magic) \<noteq> 0" "m (h + (of_magic + 1)) \<noteq> 0" using mg [rule_format, of 0] mg [rule_format, of 1] by simp_all
  then have "?m (h + of_magic) \<noteq> 0 \<or> ?m (h + (of_magic + 1)) \<noteq> 0" by (cases "k = of_magic") simp_all
  then have nz: "\<not> is_all_zeros ?m h USTAR_HEADER_SIZE" unfolding all_zeros_iff
    using spec [of "\<lambda>i. i < USTAR_HEADER_SIZE \<longrightarrow> ?m (h + i) = 0" of_magic] spec [of "\<lambda>i. i < USTAR_HEADER_SIZE \<longrightarrow> ?m (h + i) = 0" "of_magic + 1"]
    by (auto simp only: ustar_offsets)
  have po: "parse_octal_field (h + of_chksum) 8 ?m = (True, cs)"
  proof -
    have "map (\<lambda>i. ?m (h + of_chksum + i)) [0..<8] = map (\<lambda>i. m (h + of_chksum + i)) [0..<8]" using k(2) by (auto simp: of_chksum_def)
    then show ?thesis using P(2) unfolding parse_octal_field_def by argo
  qed
  have ne: "calculate_chksum h ?m \<noteq> cs"
  proof -
    let ?f = "sum_byte h m" and ?g = "sum_byte h ?m"
    have "(\<Sum>i<USTAR_HEADER_SIZE. ?f i) = ?f k + (\<Sum>i\<in>{..<USTAR_HEADER_SIZE} - {k}. ?f i)" using k(1) by (intro sum.remove) simp_all
    moreover have "(\<Sum>i<USTAR_HEADER_SIZE. ?g i) = ?g k + (\<Sum>i\<in>{..<USTAR_HEADER_SIZE} - {k}. ?g i)" using k(1) by (intro sum.remove) simp_all
    moreover have "(\<Sum>i\<in>{..<USTAR_HEADER_SIZE} - {k}. ?g i) = (\<Sum>i\<in>{..<USTAR_HEADER_SIZE} - {k}. ?f i)" by (intro sum.cong) (auto simp: sum_byte_def)
    moreover have "?g k \<noteq> ?f k" using k(2,3) by (auto simp: sum_byte_def word_unat_eq_iff)
    ultimately show ?thesis using P(3) unfolding chksum_sum by simp
  qed
  obtain d where "memcmp ?m (h + of_magic) (lit ''ustar'') 6 = Some d" using magic_bytes(2) [OF LM] by blast
  then show ?thesis using nz po ne by (auto simp: ustar_parse_header_def Let_def)
qed

text \<open>A concrete memory: the literals at 1000, 1010, ..., the name \<open>/../a\<close> at 2000, the header at 4096.\<close>

definition demo_lit :: "string \<Rightarrow> nat" where
  "demo_lit s = (if s = ''./'' then 1000 else if s = ''../'' then 1010 else if s = ''..'' then 1020 else if s = ''.'' then 1030
    else if s = ''ustar'' then 1040 else if s = ''root'' then 1050 else 1060)"

definition demo_mem :: mem where
  "demo_mem = put 1000 [46, 47] (put 1010 [46, 46, 47] (put 1020 [46, 46] (put 1030 [46] (put 1040 [117, 115, 116, 97, 114]
    (put 1050 [114, 111, 111, 116] (put 1060 [48, 48, 48, 48, 48, 48, 48] (put 2000 [47, 46, 46, 47, 97] (\<lambda>_. 7))))))))"

lemma demo_ok: "lits_ok demo_lit demo_mem" "lits_outside demo_lit 4096" "cstr demo_mem 2000 [47, 46, 46, 47, 97]" "outside 4096 2000 5" "stripped [47, 46, 46, 47, 97] = [97]"
  by (simp_all add: lits_ok_def lits_outside_def literals_def demo_lit_def demo_mem_def outside_def USTAR_HEADER_SIZE_def put_def stripped_def)

theorem ustar_roundtrip_witness:
  "\<exists>m' q. ustar_make_header demo_lit 2000 USTAR_REGULAR 1234 4096 demo_mem = Some (True, m', [])
    \<and> ustar_parse_header demo_lit 4096 m' = Some (Inr (q, USTAR_REGULAR, 1234)) \<and> cstr m' q [97]"
proof -
  have "outside 4096 2000 (length [47, 46, 46, 47, 97 :: byte])" by (simp add: outside_def USTAR_HEADER_SIZE_def)
  from ustar_roundtrip [OF demo_ok(1,2,3) _ this, of USTAR_REGULAR 1234] show ?thesis using demo_ok(5) by (simp del: cstr.simps) blast
qed

theorem ustar_detects_damage_witness:
  "\<exists>m' q. ustar_parse_header demo_lit 4096 m' = Some (Inr (q, USTAR_REGULAR, 1234)) \<and> (\<exists>e. ustar_parse_header demo_lit 4096 (m'(4096 := m' 4096 + 1)) = Some (Inl e))"
proof -
  let ?m = "header [97] USTAR_REGULAR 1234 4096 demo_mem"
  obtain q where q: "ustar_parse_header demo_lit 4096 ?m = Some (Inr (q, USTAR_REGULAR, 1234))"
    using parse_header_ok [OF demo_ok(1,2), of "[97]" USTAR_REGULAR 1234] by auto
  have "lits_ok demo_lit ?m" using lits_off [OF header_fields(10) demo_ok(2)] demo_ok(1) by simp
  from ustar_detects_damage [OF this demo_ok(2) q, of 0 "?m 4096 + 1"] show ?thesis using q by (auto simp: ustar_offsets)
qed

end
