(* ===== verification/Scheduler.thy ===== *)
theory Scheduler
  imports FixedPoint Klist
begin

text \<open>
  The thread system of the threads project: \<open>threads/thread.c\<close>, \<open>threads/synch.c\<close> and the sleep
  queue of \<open>devices/timer.c\<close>.

  Threads and locks are numbered; a kernel list of threads is the list of their numbers, which is
  what the theory \<open>Klist\<close> shows the linked lists to be. Every function below runs with interrupts
  off, so it is one step of the machine of theory \<open>Sched_Machine\<close> up to the point where it calls
  \<open>schedule\<close>. \<open>None\<close> is a failed assertion, a trap, a list index out of range or a recursion that
  does not end.
\<close>

section \<open>Data\<close>

datatype thread_status = THREAD_RUNNING | THREAD_READY | THREAD_BLOCKED | THREAD_DYING

record thread =
  status :: thread_status
  priority :: int
  old_priority :: int
  waiting_lock :: "nat option"
  acquired_locks_list :: "nat list"
  recent_cpu :: int
  nice :: int

record semaphore =
  sema_value :: nat
  sema_waiters :: "nat list"

record lock =
  holder :: "nat option"
  semaphore :: semaphore

record kernel =
  thr :: "nat \<Rightarrow> thread"
  locks :: "nat \<Rightarrow> lock"
  ready_list :: "nat \<Rightarrow> nat list"
  all_list :: "nat list"
  running :: nat
  idle_thread :: nat
  thread_ticks :: nat
  idle_ticks :: int
  kernel_ticks :: int
  load_average :: int
  thread_mlfqs :: bool
  ticks :: int
  sleeping_threads_list :: "(int \<times> nat) list"

definition PRI_MIN :: int where "PRI_MIN = 0"
definition PRI_MAX :: int where "PRI_MAX = 63"
definition PRI_SIZE :: nat where "PRI_SIZE = 64"
definition TIME_SLICE :: nat where "TIME_SLICE = 4"
definition TIMER_FREQ :: int where "TIMER_FREQ = 100"

definition upd_thr :: "nat \<Rightarrow> (thread \<Rightarrow> thread) \<Rightarrow> kernel \<Rightarrow> kernel" where
  "upd_thr t f k = k\<lparr>thr := (thr k)(t := f (thr k t))\<rparr>"

definition upd_lock :: "nat \<Rightarrow> (lock \<Rightarrow> lock) \<Rightarrow> kernel \<Rightarrow> kernel" where
  "upd_lock l f k = k\<lparr>locks := (locks k)(l := f (locks k l))\<rparr>"

abbreviation set_status :: "nat \<Rightarrow> thread_status \<Rightarrow> kernel \<Rightarrow> kernel" where
  "set_status t st k \<equiv> upd_thr t (\<lambda>r. r\<lparr>status := st\<rparr>) k"

section \<open>The ready queues\<close>

definition add_ready_thread :: "nat \<Rightarrow> kernel \<Rightarrow> kernel option" where
  "add_ready_thread t k =
     do {
       let i = priority (thr k t) - PRI_MIN;
       kassert (0 \<le> i \<and> i < int PRI_SIZE);
       Some (k\<lparr>ready_list := (ready_list k)(nat i := ready_list k (nat i) @ [t])\<rparr>)
     }"

definition remove_ready_thread :: "nat \<Rightarrow> kernel \<Rightarrow> kernel option" where
  "remove_ready_thread t k =
     do {
       kassert (list_ex (\<lambda>i. t \<in> set (ready_list k i)) [0..<PRI_SIZE]);
       Some (k\<lparr>ready_list := (\<lambda>i. remove1 t (ready_list k i))\<rparr>)
     }"

definition next_thread_to_run :: "kernel \<Rightarrow> nat \<times> kernel" where
  "next_thread_to_run k =
     (case List.find (\<lambda>i. ready_list k i \<noteq> []) (rev [0..<PRI_SIZE]) of
        Some i \<Rightarrow> (hd (ready_list k i), k\<lparr>ready_list := (ready_list k)(i := tl (ready_list k i))\<rparr>)
      | None \<Rightarrow> (idle_thread k, k))"

definition thread_schedule_tail :: "nat \<Rightarrow> kernel \<Rightarrow> kernel" where
  "thread_schedule_tail cur k = (set_status cur THREAD_RUNNING k)\<lparr>running := cur, thread_ticks := 0\<rparr>"

definition schedule :: "kernel \<Rightarrow> kernel option" where
  "schedule k =
     do {
       let (nxt, k') = next_thread_to_run k;
       kassert (status (thr k (running k)) \<noteq> THREAD_RUNNING);
       Some (thread_schedule_tail nxt k')
     }"

section \<open>Changing the state of threads\<close>

definition thread_block :: "kernel \<Rightarrow> kernel option" where
  "thread_block k = schedule (set_status (running k) THREAD_BLOCKED k)"

definition thread_unblock :: "nat \<Rightarrow> kernel \<Rightarrow> kernel option" where
  "thread_unblock t k =
     do {
       kassert (status (thr k t) = THREAD_BLOCKED);
       add_ready_thread t (set_status t THREAD_READY k)
     }"

definition try_thread_unblock :: "nat \<Rightarrow> kernel \<Rightarrow> kernel option" where
  "try_thread_unblock t k =
     (if status (thr k t) = THREAD_BLOCKED
      then add_ready_thread t (set_status t THREAD_READY k) else Some k)"

definition thread_yield :: "kernel \<Rightarrow> kernel option" where
  "thread_yield k =
     do {
       let cur = running k;
       let k1 = set_status cur THREAD_READY k;
       k2 \<leftarrow> (if cur \<noteq> idle_thread k then add_ready_thread cur k1 else Some k1);
       schedule k2
     }"

definition thread_exit :: "kernel \<Rightarrow> kernel option" where
  "thread_exit k =
     do {
       kassert (running k \<in> set (all_list k));
       schedule (set_status (running k) THREAD_DYING (k\<lparr>all_list := remove1 (running k) (all_list k)\<rparr>))
     }"

text \<open>Both \<open>thread_set_quite_priority\<close> and \<open>thread_set_quite_priority_donation\<close> move a ready thread
  to the queue of its new priority; only the first also sets the priority the thread falls back
  to.\<close>

definition requeue :: "nat \<Rightarrow> kernel \<Rightarrow> kernel option" where
  "requeue t k =
     (if status (thr k t) = THREAD_READY
      then do { k \<leftarrow> remove_ready_thread t k; add_ready_thread t k } else Some k)"

definition thread_set_quite_priority :: "nat \<Rightarrow> int \<Rightarrow> kernel \<Rightarrow> kernel option" where
  "thread_set_quite_priority t new_priority k =
     requeue t (upd_thr t (\<lambda>r. r\<lparr>priority := new_priority, old_priority := new_priority\<rparr>) k)"

definition thread_set_quite_priority_donation :: "nat \<Rightarrow> int \<Rightarrow> kernel \<Rightarrow> kernel option" where
  "thread_set_quite_priority_donation t new_priority k =
     requeue t (upd_thr t (\<lambda>r. r\<lparr>priority := new_priority\<rparr>) k)"

section \<open>Priority donation\<close>

text \<open>The two nested loops of \<open>propagate_priorities\<close>: the largest priority among \<open>p\<close> and the waiters
  of the locks in the list.\<close>

definition donors :: "kernel \<Rightarrow> nat list \<Rightarrow> int \<Rightarrow> int" where
  "donors k ls p =
     fold (\<lambda>l p. fold (\<lambda>w p. if p > priority (thr k w) then p else priority (thr k w))
       (sema_waiters (semaphore (locks k l))) p) ls p"

definition donated_priority :: "kernel \<Rightarrow> nat \<Rightarrow> int \<Rightarrow> int" where
  "donated_priority k t p =
     (let p = donors k (acquired_locks_list (thr k t)) p
      in if p > old_priority (thr k t) then p else old_priority (thr k t))"

partial_function (option) propagate_priorities :: "nat option \<Rightarrow> int \<Rightarrow> kernel \<Rightarrow> kernel option" where
  "propagate_priorities ot p k =
     (if thread_mlfqs k then Some k
      else (case ot of
        None \<Rightarrow> Some k
      | Some t \<Rightarrow>
          let p = donated_priority k t p
          in Option.bind (thread_set_quite_priority_donation t p k)
               (\<lambda>k. case waiting_lock (thr k t) of
                  None \<Rightarrow> Some k
                | Some l \<Rightarrow> (case holder (locks k l) of
                    None \<Rightarrow> Some k
                  | Some h \<Rightarrow> propagate_priorities (Some h) p k))))"

definition thread_set_priority :: "int \<Rightarrow> kernel \<Rightarrow> kernel option" where
  "thread_set_priority new_priority k =
     do {
       let t = running k;
       let old = priority (thr k t);
       k \<leftarrow> requeue t (upd_thr t (\<lambda>r. r\<lparr>priority := new_priority, old_priority := new_priority\<rparr>) k);
       k \<leftarrow> propagate_priorities (Some t) (- 1) k;
       if old > priority (thr k t) then thread_yield k else Some k
     }"

definition thread_get_priority :: "kernel \<Rightarrow> int" where
  "thread_get_priority k = priority (thr k (running k))"

section \<open>Semaphores and locks\<close>

definition comparator_synch :: "kernel \<Rightarrow> nat \<Rightarrow> nat \<Rightarrow> bool" where
  "comparator_synch k a b \<longleftrightarrow> priority (thr k a) < priority (thr k b)"

definition sema_init :: "nat \<Rightarrow> semaphore" where
  "sema_init v = \<lparr>sema_value = v, sema_waiters = []\<rparr>"

definition sema_try_down :: "semaphore \<Rightarrow> bool \<times> semaphore" where
  "sema_try_down s = (if sema_value s > 0 then (True, s\<lparr>sema_value := sema_value s - 1\<rparr>) else (False, s))"

text \<open>One pass of the loop of \<open>sema_down\<close> for thread \<open>t\<close>: the value was zero and the thread is
  queued and must block (\<open>False\<close>), or it was decremented (\<open>True\<close>).\<close>

definition sema_down_pass :: "nat \<Rightarrow> semaphore \<Rightarrow> bool \<times> semaphore" where
  "sema_down_pass t s =
     (if sema_value s = 0 then (False, s\<lparr>sema_waiters := sema_waiters s @ [t]\<rparr>)
      else (True, s\<lparr>sema_value := sema_value s - 1\<rparr>))"

text \<open>The waiter \<open>sema_up\<close> picks, as \<open>list_max\<close> finds it: the first one of the highest priority.\<close>

definition max_waiter :: "kernel \<Rightarrow> nat list \<Rightarrow> nat" where
  "max_waiter k ws = fold (\<lambda>e m. if comparator_synch k m e then e else m) (tl ws) (hd ws)"

definition sema_up :: "semaphore \<Rightarrow> kernel \<Rightarrow> (semaphore \<times> kernel) option" where
  "sema_up s k =
     do {
       (s, k) \<leftarrow>
         (if sema_waiters s \<noteq> [] then do {
            let el = max_waiter k (sema_waiters s);
            k \<leftarrow> thread_unblock el k;
            Some (s\<lparr>sema_waiters := remove1 el (sema_waiters s)\<rparr>, k)
          } else Some (s, k));
       Some (s\<lparr>sema_value := u32 (sema_value s + 1)\<rparr>, k)
     }"

definition lock_init :: lock where
  "lock_init = \<lparr>holder = None, semaphore = sema_init 1\<rparr>"

definition lock_held_by_current_thread :: "nat \<Rightarrow> kernel \<Rightarrow> bool" where
  "lock_held_by_current_thread l k \<longleftrightarrow> holder (locks k l) = Some (running k)"

text \<open>\<open>lock_acquire\<close> up to its call of \<open>thread_yield\<close>. The holder it saw is a local variable of the
  function and is returned.\<close>

definition lock_acquire_begin :: "nat \<Rightarrow> kernel \<Rightarrow> (nat option \<times> kernel) option" where
  "lock_acquire_begin l k =
     do {
       kassert (\<not> lock_held_by_current_thread l k);
       let t = running k;
       let k = upd_thr t (\<lambda>r. r\<lparr>waiting_lock := Some l\<rparr>) k;
       let h = holder (locks k l);
       k \<leftarrow> propagate_priorities h (priority (thr k t)) k;
       k \<leftarrow> thread_yield k;
       Some (h, k)
     }"

text \<open>\<open>lock_acquire\<close> from there on, each time the thread runs again: \<open>sema_down\<close> blocks once more
  (\<open>False\<close>) or the rest of the function is executed (\<open>True\<close>).\<close>

definition lock_acquire_resume :: "nat \<Rightarrow> nat option \<Rightarrow> kernel \<Rightarrow> (bool \<times> kernel) option" where
  "lock_acquire_resume l h k =
     (case sema_down_pass (running k) (semaphore (locks k l)) of
        (False, s) \<Rightarrow> do { k \<leftarrow> thread_block (upd_lock l (\<lambda>r. r\<lparr>semaphore := s\<rparr>) k); Some (False, k) }
      | (True, s) \<Rightarrow> do {
          let t = running k;
          k \<leftarrow> propagate_priorities h (- 1) (upd_lock l (\<lambda>r. r\<lparr>semaphore := s\<rparr>) k);
          let k = upd_thr t (\<lambda>r. r\<lparr>acquired_locks_list := acquired_locks_list r @ [l], waiting_lock := None\<rparr>) k;
          Some (True, upd_lock l (\<lambda>r. r\<lparr>holder := Some t\<rparr>) k)
        })"

text \<open>\<open>lock_try_acquire\<close>: \<open>sema_try_down\<close> runs with interrupts off, the rest with interrupts on.\<close>

definition lock_try_acquire_begin :: "nat \<Rightarrow> kernel \<Rightarrow> (bool \<times> kernel) option" where
  "lock_try_acquire_begin l k =
     do {
       kassert (\<not> lock_held_by_current_thread l k);
       let (success, s) = sema_try_down (semaphore (locks k l));
       Some (success, upd_lock l (\<lambda>r. r\<lparr>semaphore := s\<rparr>) k)
     }"

definition lock_try_acquire_end :: "nat \<Rightarrow> kernel \<Rightarrow> kernel" where
  "lock_try_acquire_end l k = upd_lock l (\<lambda>r. r\<lparr>holder := Some (running k)\<rparr>) k"

definition lock_release :: "nat \<Rightarrow> kernel \<Rightarrow> kernel option" where
  "lock_release l k =
     do {
       kassert (lock_held_by_current_thread l k);
       let t = running k;
       let k = upd_lock l (\<lambda>r. r\<lparr>holder := None\<rparr>) k;
       kassert (l \<in> set (acquired_locks_list (thr k t)));
       let k = upd_thr t (\<lambda>r. r\<lparr>acquired_locks_list := remove1 l (acquired_locks_list r)\<rparr>) k;
       k \<leftarrow> propagate_priorities (Some t) (- 1) k;
       (s, k) \<leftarrow> sema_up (semaphore (locks k l)) k;
       Some (upd_lock l (\<lambda>r. r\<lparr>semaphore := s\<rparr>) k)
     }"

section \<open>The multi-level feedback queue scheduler\<close>

definition thread_foreach :: "(nat \<Rightarrow> kernel \<Rightarrow> kernel option) \<Rightarrow> kernel \<Rightarrow> kernel option" where
  "thread_foreach func k = mfold func (all_list k) k"

definition recompute_load_average :: "kernel \<Rightarrow> kernel option" where
  "recompute_load_average k =
     do {
       coef \<leftarrow> divideFloats (intToFloat 59) (intToFloat 60);
       let load = multiplyFloats (load_average k) coef;
       let ready_num = (if running k \<noteq> idle_thread k then 1 else 0)
         + (\<Sum>i\<leftarrow>[0..<PRI_SIZE]. int (length (ready_list k i)));
       share \<leftarrow> divideFloats (intToFloat ready_num) (intToFloat 60);
       Some (k\<lparr>load_average := sumFloats load share\<rparr>)
     }"

definition thread_function_recompute_recent_cpu :: "nat \<Rightarrow> kernel \<Rightarrow> kernel option" where
  "thread_function_recompute_recent_cpu t k =
     (if t = idle_thread k then Some k
      else do {
        let load2x = multiplyFloatsAndInts (load_average k) 2;
        coef \<leftarrow> divideFloats load2x (sumFloatsAndInts load2x 1);
        Some (upd_thr t (\<lambda>r. r\<lparr>recent_cpu := sumFloatsAndInts (multiplyFloats (recent_cpu r) coef) (nice r)\<rparr>) k)
      })"

definition recompute_recent_cpu :: "kernel \<Rightarrow> kernel option" where
  "recompute_recent_cpu k = thread_foreach thread_function_recompute_recent_cpu k"

definition mlfqs_priority :: "thread \<Rightarrow> int option" where
  "mlfqs_priority r =
     do {
       quarter \<leftarrow> divideFloatsAndInts (recent_cpu r) 4;
       let p = subtractFloats (intToFloat PRI_MAX) quarter;
       let p = subtractFloatsAndInts p (s32 (nice r * 2));
       let i = floatToInt p;
       Some (if i < PRI_MIN then PRI_MIN else if i > PRI_MAX then PRI_MAX else i)
     }"

definition thread_function_recompute_priority :: "nat \<Rightarrow> kernel \<Rightarrow> kernel option" where
  "thread_function_recompute_priority t k =
     (if t = idle_thread k then Some k
      else do { p \<leftarrow> mlfqs_priority (thr k t); thread_set_quite_priority t p k })"

definition recompute_priority :: "kernel \<Rightarrow> kernel option" where
  "recompute_priority k = thread_foreach thread_function_recompute_priority k"

definition thread_set_nice :: "int \<Rightarrow> kernel \<Rightarrow> kernel option" where
  "thread_set_nice n k =
     thread_function_recompute_priority (running k) (upd_thr (running k) (\<lambda>r. r\<lparr>nice := n\<rparr>) k)"

definition thread_get_nice :: "kernel \<Rightarrow> int" where
  "thread_get_nice k = nice (thr k (running k))"

definition thread_get_load_avg :: "kernel \<Rightarrow> int" where
  "thread_get_load_avg k = floatToIntNearest (multiplyFloatsAndInts (load_average k) 100)"

definition thread_get_recent_cpu :: "kernel \<Rightarrow> int" where
  "thread_get_recent_cpu k = floatToIntNearest (multiplyFloatsAndInts (recent_cpu (thr k (running k))) 100)"

section \<open>Creating threads\<close>

definition init_thread :: "nat \<Rightarrow> int \<Rightarrow> kernel \<Rightarrow> kernel option" where
  "init_thread t pri k =
     do {
       kassert (PRI_MIN \<le> pri \<and> pri \<le> PRI_MAX);
       let cur = thr k (running k);
       let k = upd_thr t (\<lambda>_. \<lparr>status = THREAD_BLOCKED, priority = pri, old_priority = pri,
         waiting_lock = None, acquired_locks_list = [], recent_cpu = recent_cpu cur, nice = nice cur\<rparr>) k;
       let k = k\<lparr>all_list := all_list k @ [t]\<rparr>;
       if thread_mlfqs k
       then thread_function_recompute_priority t (upd_thr t (\<lambda>r. r\<lparr>priority := 0\<rparr>) k) else Some k
     }"

text \<open>\<open>thread_create\<close> before its call of \<open>allocate_tid\<close>, and its end, after \<open>thread_unblock\<close>. In between it takes and
  releases \<open>tid_lock\<close>, with \<open>lock_acquire\<close> and \<open>lock_release\<close> as above, and so may give up the processor; the number itself
  is not modelled, as a thread is named by its page, which comes from the page allocator.\<close>

definition tid_lock :: nat where
  "tid_lock = 0"

definition thread_create_begin :: "nat option \<Rightarrow> int \<Rightarrow> kernel \<Rightarrow> (bool \<times> kernel) option" where
  "thread_create_begin page pri k =
     (case page of
        None \<Rightarrow> Some (False, k)
      | Some t \<Rightarrow> do { k \<leftarrow> init_thread t pri k; Some (True, k) })"

definition thread_create_end :: "nat \<Rightarrow> kernel \<Rightarrow> kernel option" where
  "thread_create_end t k = (if priority (thr k (running k)) < priority (thr k t) then thread_yield k else Some k)"

section \<open>The timer\<close>

text \<open>\<open>thread_tick\<close> returns whether it asks for the processor to be yielded on return from the
  interrupt.\<close>

definition thread_tick :: "kernel \<Rightarrow> bool \<times> kernel" where
  "thread_tick k =
     (let t = running k;
          k = (if t = idle_thread k then k\<lparr>idle_ticks := s64 (idle_ticks k + 1)\<rparr>
               else k\<lparr>kernel_ticks := s64 (kernel_ticks k + 1)\<rparr>);
          k = (if t \<noteq> idle_thread k
               then upd_thr t (\<lambda>r. r\<lparr>recent_cpu := sumFloatsAndInts (recent_cpu r) 1\<rparr>) k else k);
          k = k\<lparr>thread_ticks := u32 (thread_ticks k + 1)\<rparr>
      in (thread_ticks k \<ge> TIME_SLICE, k))"

fun wake_up_loop :: "(int \<times> nat) list \<Rightarrow> kernel \<Rightarrow> kernel option" where
  "wake_up_loop [] k = Some (k\<lparr>sleeping_threads_list := []\<rparr>)"
| "wake_up_loop ((w, t) # rest) k =
     (if w \<le> ticks k then do { k \<leftarrow> thread_unblock t k; wake_up_loop rest k }
      else Some (k\<lparr>sleeping_threads_list := (w, t) # rest\<rparr>))"

definition wake_up_threads :: "kernel \<Rightarrow> kernel option" where
  "wake_up_threads k = wake_up_loop (sleeping_threads_list k) k"

text \<open>The position \<open>list_insert_ordered\<close> finds: before the first entry that wakes up later.\<close>

definition sleep_insert :: "int \<Rightarrow> nat \<Rightarrow> (int \<times> nat) list \<Rightarrow> (int \<times> nat) list" where
  "sleep_insert w t q = takeWhile (\<lambda>(v, u). \<not> w < v) q @ (w, t) # dropWhile (\<lambda>(v, u). \<not> w < v) q"

definition timer_sleep :: "int \<Rightarrow> kernel \<Rightarrow> kernel option" where
  "timer_sleep n k =
     thread_block (k\<lparr>sleeping_threads_list :=
       sleep_insert (s64 (ticks k + n)) (running k) (sleeping_threads_list k)\<rparr>)"

text \<open>\<open>timer_interrupt\<close>, followed by the yield of \<open>intr_handler\<close> when \<open>thread_tick\<close> asked for it.\<close>

definition timer_interrupt :: "kernel \<Rightarrow> kernel option" where
  "timer_interrupt k =
     do {
       let k = k\<lparr>ticks := s64 (ticks k + 1)\<rparr>;
       let (yield_on_return, k) = thread_tick k;
       k \<leftarrow> (if thread_mlfqs k then do {
           k \<leftarrow> (if ticks k mod TIMER_FREQ = 0 then recompute_load_average k else Some k);
           k \<leftarrow> (if ticks k mod TIMER_FREQ = 0 then recompute_recent_cpu k else Some k);
           if ticks k mod 4 = 0 then recompute_priority k else Some k
         } else Some k);
       k \<leftarrow> wake_up_threads k;
       if yield_on_return then thread_yield k else Some k
     }"

section \<open>The ready queues hold the ready threads\<close>

declare PRI_SIZE_def [simp] PRI_MIN_def [simp] PRI_MAX_def [simp]

lemma upd_thr_simps [simp]:
  "thr (upd_thr t f k) = (thr k)(t := f (thr k t))" "locks (upd_thr t f k) = locks k"
  "ready_list (upd_thr t f k) = ready_list k" "all_list (upd_thr t f k) = all_list k"
  "running (upd_thr t f k) = running k" "idle_thread (upd_thr t f k) = idle_thread k"
  "thread_mlfqs (upd_thr t f k) = thread_mlfqs k"
  "sleeping_threads_list (upd_thr t f k) = sleeping_threads_list k" "ticks (upd_thr t f k) = ticks k"
  by (simp_all add: upd_thr_def)

lemma upd_lock_simps [simp]:
  "locks (upd_lock l g k) = (locks k)(l := g (locks k l))" "thr (upd_lock l g k) = thr k"
  "ready_list (upd_lock l g k) = ready_list k" "all_list (upd_lock l g k) = all_list k"
  "running (upd_lock l g k) = running k" "idle_thread (upd_lock l g k) = idle_thread k"
  "thread_mlfqs (upd_lock l g k) = thread_mlfqs k"
  "sleeping_threads_list (upd_lock l g k) = sleeping_threads_list k"
  by (simp_all add: upd_lock_def)

text \<open>\<open>rq k Q\<close>: the queues hold exactly the threads of \<open>Q\<close>, each once, in the queue of its
  priority.\<close>

definition rq :: "kernel \<Rightarrow> nat set \<Rightarrow> bool" where
  "rq k Q \<longleftrightarrow>
     (\<forall>i<PRI_SIZE. distinct (ready_list k i)
        \<and> (\<forall>t. t \<in> set (ready_list k i) \<longleftrightarrow> t \<in> Q \<and> priority (thr k t) = int i))
     \<and> (\<forall>t\<in>Q. 0 \<le> priority (thr k t) \<and> priority (thr k t) < int PRI_SIZE)"

lemma rq_cong:
  "rq k Q \<Longrightarrow> ready_list k' = ready_list k \<Longrightarrow> (\<And>t. t \<in> Q \<Longrightarrow> priority (thr k' t) = priority (thr k t)) \<Longrightarrow>
    rq k' Q"
  unfolding rq_def by auto

lemma rq_add:
  assumes "rq k Q" and "t \<notin> Q" and "add_ready_thread t k = Some k'"
  shows "rq k' (insert t Q)" "k' = k\<lparr>ready_list := ready_list k'\<rparr>"
proof -
  let ?i = "nat (priority (thr k t))"
  have k': "k' = k\<lparr>ready_list := (ready_list k)(?i := ready_list k ?i @ [t])\<rparr>"
    and i: "0 \<le> priority (thr k t)" "priority (thr k t) < 64"
    using assms(3) by (auto simp: add_ready_thread_def Let_def)
  show "k' = k\<lparr>ready_list := ready_list k'\<rparr>" unfolding k' by simp
  show "rq k' (insert t Q)" unfolding rq_def k' using assms(1,2) i by (auto simp: rq_def)
qed

lemma rq_remove:
  assumes "rq k Q" and "ready_list k1 = ready_list k" and "\<And>u. u \<noteq> t \<Longrightarrow> priority (thr k1 u) = priority (thr k u)"
    and "remove_ready_thread t k1 = Some k2"
  shows "t \<in> Q" "rq k2 (Q - {t})" "k2 = k1\<lparr>ready_list := ready_list k2\<rparr>"
proof -
  have k2: "k2 = k1\<lparr>ready_list := (\<lambda>i. remove1 t (ready_list k1 i))\<rparr>"
    and ex: "\<exists>i<64. t \<in> set (ready_list k i)"
    using assms(2,4) by (auto simp: remove_ready_thread_def list_ex_iff)
  show "t \<in> Q" using ex assms(1) by (auto simp: rq_def)
  show "k2 = k1\<lparr>ready_list := ready_list k2\<rparr>" unfolding k2 by simp
  show "rq k2 (Q - {t})" unfolding rq_def k2 using assms(1,2,3) by (auto simp: rq_def)
qed

text \<open>The invariant of the scheduler between operations.\<close>

definition queued :: "kernel \<Rightarrow> nat set" where
  "queued k = {t. status (thr k t) = THREAD_READY \<and> t \<noteq> idle_thread k}"

definition sched_inv :: "kernel \<Rightarrow> bool" where
  "sched_inv k \<longleftrightarrow> rq k (queued k) \<and> (\<forall>t. status (thr k t) = THREAD_RUNNING \<longleftrightarrow> t = running k)"

text \<open>\<open>prio_frame k k'\<close>: only priorities and the queues differ.\<close>

definition prio_frame :: "kernel \<Rightarrow> kernel \<Rightarrow> bool" where
  "prio_frame k k' \<longleftrightarrow> k' = k\<lparr>thr := thr k', ready_list := ready_list k'\<rparr>
     \<and> (\<forall>t. thr k' t = (thr k t)\<lparr>priority := priority (thr k' t)\<rparr>)"

lemma prio_frame_refl [simp]: "prio_frame k k"
  by (simp add: prio_frame_def)

lemma prio_frame_trans: "prio_frame k k1 \<Longrightarrow> prio_frame k1 k2 \<Longrightarrow> prio_frame k k2"
proof -
  assume a: "prio_frame k k1" and b: "prio_frame k1 k2"
  have "k2 = (k\<lparr>thr := thr k1, ready_list := ready_list k1\<rparr>)\<lparr>thr := thr k2, ready_list := ready_list k2\<rparr>"
    using a b unfolding prio_frame_def by metis
  moreover have "thr k2 t = (thr k t)\<lparr>priority := priority (thr k2 t)\<rparr>" for t
    using a b unfolding prio_frame_def by (metis (no_types) thread.update_convs(2) thread.surjective thread.select_convs)
  ultimately show ?thesis by (simp add: prio_frame_def)
qed

lemma prio_frameD:
  assumes "prio_frame k k'"
  shows "status (thr k' t) = status (thr k t)" "old_priority (thr k' t) = old_priority (thr k t)"
    "waiting_lock (thr k' t) = waiting_lock (thr k t)" "locks k' = locks k"
    "acquired_locks_list (thr k' t) = acquired_locks_list (thr k t)" "running k' = running k"
    "idle_thread k' = idle_thread k" "thread_mlfqs k' = thread_mlfqs k" "queued k' = queued k"
    "sleeping_threads_list k' = sleeping_threads_list k" "all_list k' = all_list k"
proof -
  have k': "k' = k\<lparr>thr := thr k', ready_list := ready_list k'\<rparr>"
    and t: "thr k' u = (thr k u)\<lparr>priority := priority (thr k' u)\<rparr>" for u
    using assms unfolding prio_frame_def by blast+
  show "status (thr k' t) = status (thr k t)" "old_priority (thr k' t) = old_priority (thr k t)"
    "waiting_lock (thr k' t) = waiting_lock (thr k t)"
    "acquired_locks_list (thr k' t) = acquired_locks_list (thr k t)" by (subst t, simp)+
  show eqs: "locks k' = locks k" "running k' = running k" "idle_thread k' = idle_thread k"
    "thread_mlfqs k' = thread_mlfqs k" "sleeping_threads_list k' = sleeping_threads_list k"
    "all_list k' = all_list k" by (subst k', simp)+
  have "status (thr k' u) = status (thr k u)" for u by (subst t) simp
  then show "queued k' = queued k" by (simp add: queued_def eqs)
qed

text \<open>Changing the priority of one thread and moving it to its new queue.\<close>

lemma requeue_ok:
  assumes rq: "rq k (queued k)" and f: "\<And>r. f r = r\<lparr>priority := p, old_priority := old_priority (f r)\<rparr>"
    and req: "requeue t (upd_thr t f k) = Some k'"
  shows "rq k' (queued k')" "k' = (upd_thr t f k)\<lparr>ready_list := ready_list k'\<rparr>"
    "status (thr k t) = THREAD_READY \<Longrightarrow> 0 \<le> p \<and> p < int PRI_SIZE"
proof -
  let ?k = "upd_thr t f k"
  have st: "status (f r) = status r" and pr: "priority (f r) = p" for r by (subst f, simp)+
  have q: "queued ?k = queued k" by (auto simp: queued_def st)
  have "rq k' (queued k') \<and> k' = ?k\<lparr>ready_list := ready_list k'\<rparr>
      \<and> (status (thr k t) = THREAD_READY \<longrightarrow> 0 \<le> p \<and> p < int PRI_SIZE)"
  proof (cases "status (thr k t) = THREAD_READY")
    case True
    then obtain k1 where k1: "remove_ready_thread t ?k = Some k1" "add_ready_thread t k1 = Some k'"
      using req by (auto simp: requeue_def st kernel_simps)
    note rm = rq_remove [OF rq _ _ k1(1)]
    have t: "t \<in> queued k" and rq1: "rq k1 (queued k - {t})" and f1: "k1 = ?k\<lparr>ready_list := ready_list k1\<rparr>"
      using rm by auto
    note ad = rq_add [OF rq1 _ k1(2)]
    have rq': "rq k' (insert t (queued k - {t}))" and f2: "k' = k1\<lparr>ready_list := ready_list k'\<rparr>"
      using ad by auto
    have f': "k' = ?k\<lparr>ready_list := ready_list k'\<rparr>"
      using f2 by (subst (asm) f1) simp
    have "queued k' = queued k" using q by (subst f') (simp add: queued_def)
    then have rqk: "rq k' (queued k')" using rq' t by (simp add: insert_absorb)
    have "priority (thr k' t) = p" by (subst f') (simp add: pr)
    then have "0 \<le> p \<and> p < int PRI_SIZE"
      using rqk t \<open>queued k' = queued k\<close> unfolding rq_def by auto
    with rqk f' show ?thesis by blast
  next
    case False
    then have "k' = ?k" and "t \<notin> queued k" using req by (auto simp: requeue_def st queued_def)
    moreover have "rq ?k (queued k)" by (rule rq_cong [OF rq]) (use \<open>t \<notin> queued k\<close> in auto)
    ultimately show ?thesis using False q by simp
  qed
  then show "rq k' (queued k')" "k' = ?k\<lparr>ready_list := ready_list k'\<rparr>"
    "status (thr k t) = THREAD_READY \<Longrightarrow> 0 \<le> p \<and> p < int PRI_SIZE" by blast+
qed

lemma requeue_total:
  assumes rq: "rq k (queued k)" and f: "\<And>r. status (f r) = status r \<and> priority (f r) = p"
    and t: "status (thr k t) = THREAD_READY \<longrightarrow> t \<noteq> idle_thread k" and p: "0 \<le> p" "p < int PRI_SIZE"
  shows "\<exists>k'. requeue t (upd_thr t f k) = Some k'"
proof (cases "status (thr k t) = THREAD_READY")
  case True
  then have "t \<in> queued k" using t by (simp add: queued_def)
  then have "nat (priority (thr k t)) < 64 \<and> t \<in> set (ready_list k (nat (priority (thr k t))))"
    using rq unfolding rq_def by auto
  then have "list_ex (\<lambda>i. t \<in> set (ready_list k i)) [0..<PRI_SIZE]"
    unfolding list_ex_iff by (intro bexI [of _ "nat (priority (thr k t))"]) auto
  then show ?thesis
    using True f p by (simp add: requeue_def remove_ready_thread_def add_ready_thread_def)
qed (simp add: requeue_def f)

lemma donation_ok:
  assumes "rq k (queued k)" and "thread_set_quite_priority_donation t p k = Some k'"
  shows "rq k' (queued k')" "prio_frame k k'" "priority (thr k' u) = (if u = t then p else priority (thr k u))"
proof -
  note r = requeue_ok [OF assms(1) _ assms(2) [unfolded thread_set_quite_priority_donation_def], where p = p]
  show "rq k' (queued k')" by (rule r(1)) simp
  have k': "k' = (upd_thr t (\<lambda>r. r\<lparr>priority := p\<rparr>) k)\<lparr>ready_list := ready_list k'\<rparr>" by (rule r(2)) simp
  have t: "thr k' = (thr k)(t := (thr k t)\<lparr>priority := p\<rparr>)" by (subst k') simp
  have "k' = k\<lparr>thr := thr k', ready_list := ready_list k'\<rparr>" by (subst k') (simp add: upd_thr_def t)
  then show "prio_frame k k'" unfolding prio_frame_def by (auto simp: t)
  show "priority (thr k' u) = (if u = t then p else priority (thr k u))" by (subst k') simp
qed

section \<open>Choosing the next thread\<close>

lemma find_rev_upt:
  "List.find q (rev [0..<n]) = Some i \<longleftrightarrow> i < n \<and> q i \<and> (\<forall>j. i < j \<and> j < n \<longrightarrow> \<not> q j)"
  "List.find q (rev [0..<n]) = None \<longleftrightarrow> (\<forall>j<n. \<not> q j)"
  by (induction n) (auto simp: less_Suc_eq)

lemma rq_pop:
  assumes rq: "rq k Q" and i: "i < PRI_SIZE" "ready_list k i = t # ts"
    and k': "ready_list k' = (ready_list k)(i := ts)" "\<And>u. priority (thr k' u) = priority (thr k u)"
  shows "rq k' (Q - {t})"
proof -
  have mem: "u \<in> set (ready_list k j) \<longleftrightarrow> u \<in> Q \<and> priority (thr k u) = int j"
    and dist: "distinct (ready_list k j)" if "j < PRI_SIZE" for u j
    using rq that unfolding rq_def by blast+
  have t: "t \<in> Q" "priority (thr k t) = int i" using mem [OF i(1), of t] i(2) by auto
  have "distinct (ready_list k' j) \<and> (\<forall>u. u \<in> set (ready_list k' j) \<longleftrightarrow> u \<in> Q - {t} \<and> priority (thr k' u) = int j)"
    if j: "j < PRI_SIZE" for j
  proof (cases "j = i")
    case True
    then show ?thesis using mem [OF i(1)] dist [OF i(1)] i(2) k' by (auto split: if_splits)
  next
    case False
    then show ?thesis using mem [OF j] dist [OF j] k' t by auto
  qed
  then show ?thesis using rq k'(2) unfolding rq_def by simp
qed

text \<open>With nobody running, \<open>schedule\<close> starts a ready thread of the highest priority, the first in
  its queue, or the idle thread when no thread is ready.\<close>

lemma schedule_ok:
  assumes rq: "rq k (queued k)" and none: "\<And>t. status (thr k t) \<noteq> THREAD_RUNNING"
  shows "\<exists>k'. schedule k = Some k' \<and> sched_inv k'
    \<and> thr k' = (thr k)(running k' := (thr k (running k'))\<lparr>status := THREAD_RUNNING\<rparr>)
    \<and> k' = k\<lparr>thr := thr k', ready_list := ready_list k', running := running k', thread_ticks := 0\<rparr>
    \<and> (if queued k = {} then running k' = idle_thread k
       else running k' \<in> queued k \<and> (\<forall>u\<in>queued k. priority (thr k u) \<le> priority (thr k (running k')))
         \<and> running k' = hd (ready_list k (nat (priority (thr k (running k'))))))"
proof (cases "List.find (\<lambda>i. ready_list k i \<noteq> []) (rev [0..<PRI_SIZE])")
  case None
  then have "queued k = {}"
    using rq unfolding find_rev_upt rq_def by (metis all_not_in_conv empty_set nat_less_iff nat_0_le)
  moreover have "schedule k = Some (thread_schedule_tail (idle_thread k) k)"
    using None none by (simp add: schedule_def next_thread_to_run_def)
  moreover have "sched_inv (thread_schedule_tail (idle_thread k) k)"
    using rq none by (auto simp: sched_inv_def thread_schedule_tail_def queued_def rq_def)
  ultimately show ?thesis by (simp add: thread_schedule_tail_def upd_thr_def)
next
  case (Some i)
  let ?t = "hd (ready_list k i)"
  let ?k1 = "k\<lparr>ready_list := (ready_list k)(i := tl (ready_list k i))\<rparr>"
  let ?k' = "thread_schedule_tail ?t ?k1"
  have i: "i < 64" "ready_list k i \<noteq> []" and top: "\<And>j. i < j \<Longrightarrow> j < 64 \<Longrightarrow> ready_list k j = []"
    using Some unfolding find_rev_upt by auto
  then have "?t \<in> set (ready_list k i)" by simp
  then have t: "?t \<in> queued k" "priority (thr k ?t) = int i" using rq i unfolding rq_def by auto
  have max: "priority (thr k u) \<le> int i" if "u \<in> queued k" for u
  proof (rule ccontr)
    assume "\<not> priority (thr k u) \<le> int i"
    moreover have "0 \<le> priority (thr k u)" "priority (thr k u) < 64"
      and "u \<in> set (ready_list k (nat (priority (thr k u))))"
      using rq that unfolding rq_def by auto
    ultimately show False using top [of "nat (priority (thr k u))"] by auto
  qed
  have "rq ?k' (queued k - {?t})"
    by (rule rq_pop [OF rq, of i _ "tl (ready_list k i)"]) (use i in \<open>simp_all add: thread_schedule_tail_def\<close>)
  moreover have "queued ?k' = queued k - {?t}" by (auto simp: queued_def thread_schedule_tail_def)
  ultimately have "sched_inv ?k'" using none by (simp add: sched_inv_def thread_schedule_tail_def)
  moreover have "schedule k = Some ?k'" using Some none by (simp add: schedule_def next_thread_to_run_def)
  ultimately show ?thesis using t max by (auto simp: thread_schedule_tail_def upd_thr_def)
qed

section \<open>Every operation keeps the queues right\<close>

text \<open>\<open>sync_frame k k'\<close>: the locks, and what threads hold and wait for, are the same.\<close>

definition sync_frame :: "kernel \<Rightarrow> kernel \<Rightarrow> bool" where
  "sync_frame k k' \<longleftrightarrow> locks k' = locks k \<and> idle_thread k' = idle_thread k \<and> thread_mlfqs k' = thread_mlfqs k
     \<and> sleeping_threads_list k' = sleeping_threads_list k
     \<and> (\<forall>t. waiting_lock (thr k' t) = waiting_lock (thr k t)
          \<and> acquired_locks_list (thr k' t) = acquired_locks_list (thr k t))"

lemma sync_frame_refl [simp]: "sync_frame k k"
  by (simp add: sync_frame_def)

lemma sync_frame_trans: "sync_frame k k1 \<Longrightarrow> sync_frame k1 k2 \<Longrightarrow> sync_frame k k2"
  by (simp add: sync_frame_def)

lemma prio_frame_sync: "prio_frame k k' \<Longrightarrow> sync_frame k k'"
  by (simp add: sync_frame_def prio_frameD)

lemma sched_inv_prio:
  "sched_inv k \<Longrightarrow> rq k' (queued k') \<Longrightarrow> prio_frame k k' \<Longrightarrow> sched_inv k'"
  by (simp add: sched_inv_def prio_frameD)

lemma sched_invD:
  assumes "sched_inv k"
  shows "rq k (queued k)" "status (thr k t) = THREAD_RUNNING \<longleftrightarrow> t = running k"
    "status (thr k (running k)) = THREAD_RUNNING" "running k \<notin> queued k"
proof -
  show rq: "rq k (queued k)" and st: "status (thr k t) = THREAD_RUNNING \<longleftrightarrow> t = running k"
    using assms unfolding sched_inv_def by blast+
  show run: "status (thr k (running k)) = THREAD_RUNNING" using assms unfolding sched_inv_def by blast
  then show "running k \<notin> queued k" by (simp add: queued_def)
qed

lemma propagate_ok:
  "propagate_priorities ot p k = Some k' \<Longrightarrow> rq k (queued k) \<Longrightarrow> rq k' (queued k') \<and> prio_frame k k'"
proof (induction rule: propagate_priorities.raw_induct [rotated, consumes 1, case_names 1])
  case (1 rec ot p k k')
  show ?case
  proof (cases "thread_mlfqs k \<or> ot = None")
    case True
    then show ?thesis using 1(2,3) by (auto split: option.splits)
  next
    case False
    then obtain t where t: "ot = Some t" "\<not> thread_mlfqs k" by auto
    let ?p = "donated_priority k t p"
    obtain k1 where k1: "thread_set_quite_priority_donation t ?p k = Some k1"
      and more: "(case waiting_lock (thr k1 t) of None \<Rightarrow> Some k1
        | Some l \<Rightarrow> (case holder (locks k1 l) of None \<Rightarrow> Some k1 | Some h \<Rightarrow> rec (Some h) ?p k1)) = Some k'"
      using 1(2) t by (auto simp: Let_def kernel_simps)
    note d = donation_ok [OF 1(3) k1]
    show ?thesis
    proof (cases "\<exists>l h. waiting_lock (thr k1 t) = Some l \<and> holder (locks k1 l) = Some h")
      case True
      then obtain h where "rec (Some h) ?p k1 = Some k'" using more by auto
      from 1(1) [OF this d(1)] show ?thesis using prio_frame_trans [OF d(2)] by blast
    next
      case False
      then have "k' = k1" using more by (auto split: option.splits)
      then show ?thesis using d by blast
    qed
  qed
qed

lemma thread_unblock_ok:
  assumes inv: "sched_inv k" and t: "t \<noteq> idle_thread k" and r: "thread_unblock t k = Some k'"
  shows "sched_inv k'" "sync_frame k k'" "priority (thr k' u) = priority (thr k u)" "running k' = running k"
    "t \<in> queued k'"
proof -
  let ?k = "set_status t THREAD_READY k"
  have st: "status (thr k t) = THREAD_BLOCKED" and add: "add_ready_thread t ?k = Some k'"
    using r by (auto simp: thread_unblock_def)
  have tq: "t \<notin> queued k" using st by (simp add: queued_def)
  have "rq ?k (queued k)" by (rule rq_cong) (use inv in \<open>auto simp: sched_inv_def\<close>)
  note a = rq_add [OF this tq add]
  have thr: "thr k' = thr ?k" "idle_thread k' = idle_thread k" "running k' = running k" "locks k' = locks k"
    "thread_mlfqs k' = thread_mlfqs k" "sleeping_threads_list k' = sleeping_threads_list k"
    by (subst a(2), simp)+
  have q: "queued k' = insert t (queued k)" using t by (auto simp: queued_def thr)
  have "status (thr k' u) = THREAD_RUNNING \<longleftrightarrow> u = running k'" for u
    using sched_invD(2) [OF inv, of u] sched_invD(3) [OF inv] st by (cases "u = t") (auto simp: thr)
  with a(1) q show "sched_inv k'" by (simp add: sched_inv_def)
  show "sync_frame k k'" by (simp add: sync_frame_def thr)
  show "priority (thr k' u) = priority (thr k u)" "running k' = running k" by (simp_all add: thr)
  show "t \<in> queued k'" using q by simp
qed

text \<open>The three ways to give up the processor.\<close>

lemma leave_ok:
  assumes rq: "rq k1 (queued k1)" and none: "\<And>t. status (thr k1 t) \<noteq> THREAD_RUNNING"
    and r: "schedule k1 = Some k'"
  shows "sched_inv k'" "sync_frame k1 k'" "priority (thr k' u) = priority (thr k1 u)"
    "u \<noteq> running k' \<Longrightarrow> status (thr k' u) = status (thr k1 u)"
    "running k' \<noteq> idle_thread k' \<longrightarrow> status (thr k1 (running k')) = THREAD_READY"
proof -
  obtain k2 where s: "schedule k1 = Some k2" "sched_inv k2"
    and thr: "thr k2 = (thr k1)(running k2 := (thr k1 (running k2))\<lparr>status := THREAD_RUNNING\<rparr>)"
    and k2: "k2 = k1\<lparr>thr := thr k2, ready_list := ready_list k2, running := running k2, thread_ticks := 0\<rparr>"
    and nx: "if queued k1 = {} then running k2 = idle_thread k1
       else running k2 \<in> queued k1 \<and> (\<forall>u\<in>queued k1. priority (thr k1 u) \<le> priority (thr k1 (running k2)))
         \<and> running k2 = hd (ready_list k1 (nat (priority (thr k1 (running k2)))))"
    using schedule_ok [OF rq none] by blast
  have eq: "k2 = k'" using s(1) r by simp
  show "sched_inv k'" using s(2) eq by simp
  have "locks k2 = locks k1" "idle_thread k2 = idle_thread k1" "thread_mlfqs k2 = thread_mlfqs k1"
    "sleeping_threads_list k2 = sleeping_threads_list k1"
    by (subst k2, simp)+
  moreover have "waiting_lock (thr k2 t) = waiting_lock (thr k1 t)
      \<and> acquired_locks_list (thr k2 t) = acquired_locks_list (thr k1 t)" for t
    by (subst (1 2) thr) simp
  ultimately show "sync_frame k1 k'" "running k' \<noteq> idle_thread k' \<longrightarrow> status (thr k1 (running k')) = THREAD_READY"
    using nx eq by (auto simp: sync_frame_def queued_def split: if_splits)
  show "priority (thr k' u) = priority (thr k1 u)" "u \<noteq> running k' \<Longrightarrow> status (thr k' u) = status (thr k1 u)"
    unfolding eq [symmetric] by (subst thr, simp)+
qed

lemma thread_block_ok:
  assumes inv: "sched_inv k" and r: "thread_block k = Some k'"
  shows "sched_inv k'" "sync_frame k k'" "priority (thr k' u) = priority (thr k u)"
proof -
  let ?k = "set_status (running k) THREAD_BLOCKED k"
  have q: "queued ?k = queued k" using sched_invD(3) [OF inv] by (auto simp: queued_def)
  have rq: "rq ?k (queued ?k)" unfolding q by (rule rq_cong) (use inv in \<open>auto simp: sched_inv_def\<close>)
  have none: "status (thr ?k t) \<noteq> THREAD_RUNNING" for t using inv by (auto simp: sched_inv_def)
  note l = leave_ok [OF rq none r [unfolded thread_block_def]]
  show "sched_inv k'" by (rule l(1))
  have "sync_frame k ?k" by (simp add: sync_frame_def)
  then show "sync_frame k k'" using l(2) sync_frame_trans by blast
  show "priority (thr k' u) = priority (thr k u)" using l(3) [of u] by simp
qed

lemma thread_yield_ok:
  assumes inv: "sched_inv k" and r: "thread_yield k = Some k'"
  shows "sched_inv k'" "sync_frame k k'" "priority (thr k' u) = priority (thr k u)"
proof -
  let ?k = "set_status (running k) THREAD_READY k"
  obtain k2 where k2: "(if running k \<noteq> idle_thread k then add_ready_thread (running k) ?k else Some ?k) = Some k2"
      "schedule k2 = Some k'"
    using r by (auto simp: thread_yield_def Let_def kernel_simps)
  have rq: "rq ?k (queued k)" by (rule rq_cong) (use inv in \<open>auto simp: sched_inv_def\<close>)
  have nq: "running k \<notin> queued k" by (rule sched_invD(4) [OF inv])
  have res: "rq k2 (queued k2) \<and> k2 = ?k\<lparr>ready_list := ready_list k2\<rparr>"
  proof (cases "running k = idle_thread k")
    case True
    then have "k2 = ?k" "queued ?k = queued k" using k2(1) by (auto simp: queued_def)
    then show ?thesis using rq by simp
  next
    case False
    note a = rq_add [OF rq nq, of k2]
    have add: "add_ready_thread (running k) ?k = Some k2" using k2(1) False by simp
    have "queued k2 = insert (running k) (queued k)"
      using False by (subst a(2) [OF add]) (auto simp: queued_def)
    then show ?thesis using a [OF add] by simp
  qed
  have thr: "thr k2 = thr ?k" "locks k2 = locks k" "idle_thread k2 = idle_thread k" "thread_mlfqs k2 = thread_mlfqs k"
    "sleeping_threads_list k2 = sleeping_threads_list k"
    by (subst res [THEN conjunct2], simp)+
  have none: "status (thr k2 t) \<noteq> THREAD_RUNNING" for t using inv by (auto simp: sched_inv_def thr)
  note l = leave_ok [OF res [THEN conjunct1] none k2(2)]
  show "sched_inv k'" by (rule l(1))
  have "sync_frame k k2" by (simp add: sync_frame_def thr)
  then show "sync_frame k k'" using l(2) sync_frame_trans by blast
  show "priority (thr k' u) = priority (thr k u)" using l(3) [of u] by (simp add: thr)
qed

lemma requeue_inv:
  assumes inv: "sched_inv k" and f: "\<And>r. f r = r\<lparr>priority := p, old_priority := old_priority (f r)\<rparr>"
    and req: "requeue t (upd_thr t f k) = Some k'"
  shows "sched_inv k'" "sync_frame k k'" "running k' = running k"
    "status (thr k' u) = status (thr k u)"
    "all_list k' = all_list k"
proof -
  note r = requeue_ok [OF sched_invD(1) [OF inv] f req]
  have k': "thr k' = thr (upd_thr t f k)" "running k' = running k" "locks k' = locks k"
    "idle_thread k' = idle_thread k" "thread_mlfqs k' = thread_mlfqs k"
    "sleeping_threads_list k' = sleeping_threads_list k" "all_list k' = all_list k"
    by (subst r(2), simp)+
  have f': "status (f r) = status r" "waiting_lock (f r) = waiting_lock r"
    "acquired_locks_list (f r) = acquired_locks_list r" for r by (subst f, simp)+
  show st: "status (thr k' u) = status (thr k u)" for u by (simp add: k' f')
  show "sched_inv k'" using r(1) sched_invD(2) [OF inv] unfolding sched_inv_def st k'(2) by blast
  show "sync_frame k k'" by (simp add: sync_frame_def k' f')
  show "running k' = running k"
    "all_list k' = all_list k" by (simp_all add: k')
qed

section \<open>Donation reaches the whole chain\<close>

definition waits_for :: "kernel \<Rightarrow> nat \<Rightarrow> nat \<Rightarrow> bool" where
  "waits_for k t h \<longleftrightarrow> (\<exists>l. waiting_lock (thr k t) = Some l \<and> holder (locks k l) = Some h)"

definition prio_ok :: "kernel \<Rightarrow> bool" where
  "prio_ok k \<longleftrightarrow> (\<forall>t. 0 \<le> priority (thr k t) \<and> priority (thr k t) < int PRI_SIZE
     \<and> 0 \<le> old_priority (thr k t) \<and> old_priority (thr k t) < int PRI_SIZE)"

lemma prio_frame_waits: "prio_frame k k' \<Longrightarrow> waits_for k' = waits_for k"
  by (simp add: waits_for_def prio_frameD fun_eq_iff)

text \<open>The loops compute a maximum.\<close>

definition fmax :: "('a \<Rightarrow> int) \<Rightarrow> 'a list \<Rightarrow> int \<Rightarrow> int" where
  "fmax g ws p = fold (\<lambda>w p. if p > g w then p else g w) ws p"

lemma fmax_simps [simp]: "fmax g [] p = p" "fmax g (w # ws) p = fmax g ws (max p (g w))"
  by (simp_all add: fmax_def max_def)

lemma fmax_low: "p \<le> fmax g ws p"
proof (induction ws arbitrary: p)
  case (Cons w ws)
  show ?case using Cons [of "max p (g w)"] by simp
qed simp

lemma fmax_ge: "w \<in> set ws \<Longrightarrow> g w \<le> fmax g ws p"
  by (induction ws arbitrary: p) (auto intro: order_trans [OF _ fmax_low])

lemma fmax_lt: "(\<And>w. w \<in> set ws \<Longrightarrow> g w < b) \<Longrightarrow> p < b \<Longrightarrow> fmax g ws p < b"
  by (induction ws arbitrary: p) auto

lemma donors_simps [simp]:
  "donors k [] p = p"
  "donors k (l # ls) p = donors k ls (fmax (\<lambda>w. priority (thr k w)) (sema_waiters (semaphore (locks k l))) p)"
  by (simp_all add: donors_def fmax_def)

lemma donors_low: "p \<le> donors k ls p"
  by (induction ls arbitrary: p) (auto intro: order_trans [OF fmax_low])

lemma donors_ge:
  "l \<in> set ls \<Longrightarrow> w \<in> set (sema_waiters (semaphore (locks k l))) \<Longrightarrow> priority (thr k w) \<le> donors k ls p"
proof (induction ls arbitrary: p)
  case (Cons m ls)
  then show ?case
    using fmax_ge [of w "sema_waiters (semaphore (locks k l))" "\<lambda>w. priority (thr k w)"]
    by (auto intro: order_trans [OF _ donors_low])
qed simp

lemma donors_lt: "(\<And>w. priority (thr k w) < b) \<Longrightarrow> p < b \<Longrightarrow> donors k ls p < b"
proof (induction ls arbitrary: p)
  case (Cons l ls)
  show ?case unfolding donors_simps by (rule Cons.IH [OF Cons.prems(1)]) (rule fmax_lt, use Cons.prems in auto)
qed simp

lemma donated_bounds:
  assumes "prio_ok k" and "p < int PRI_SIZE"
  shows "p \<le> donated_priority k t p" "old_priority (thr k t) \<le> donated_priority k t p"
    "0 \<le> donated_priority k t p" "donated_priority k t p < int PRI_SIZE"
    "l \<in> set (acquired_locks_list (thr k t)) \<Longrightarrow> w \<in> set (sema_waiters (semaphore (locks k l))) \<Longrightarrow>
      priority (thr k w) \<le> donated_priority k t p"
proof -
  have ok: "priority (thr k w) < int PRI_SIZE" "0 \<le> old_priority (thr k t)" "old_priority (thr k t) < int PRI_SIZE" for w
    using assms(1) unfolding prio_ok_def by blast+
  note d = donors_low [of p k "acquired_locks_list (thr k t)"]
    donors_lt [OF ok(1) assms(2), of "acquired_locks_list (thr k t)"]
  show "p \<le> donated_priority k t p" "old_priority (thr k t) \<le> donated_priority k t p"
    "0 \<le> donated_priority k t p" "donated_priority k t p < int PRI_SIZE"
    using d ok unfolding donated_priority_def Let_def by auto
  show "priority (thr k w) \<le> donated_priority k t p"
    if "l \<in> set (acquired_locks_list (thr k t))" "w \<in> set (sema_waiters (semaphore (locks k l)))"
    using donors_ge [OF that, of p] unfolding donated_priority_def Let_def by auto
qed

text \<open>When the threads do not wait in a circle, \<open>propagate_priorities\<close> ends. The thread it starts
  from gets its donated priority, no thread further along the chain of lock holders is left below
  one that waits for it, and no other thread is touched.\<close>

lemma propagate_chain:
  fixes rank :: "nat \<Rightarrow> nat"
  assumes "rq k (queued k)" and "prio_ok k" and "\<not> thread_mlfqs k" and "p < int PRI_SIZE"
    and "\<And>u h. waits_for k u h \<Longrightarrow> rank h < rank u"
    and "\<And>u. (waits_for k)\<^sup>*\<^sup>* t u \<Longrightarrow> u \<noteq> idle_thread k"
  shows "\<exists>k'. propagate_priorities (Some t) p k = Some k' \<and> rq k' (queued k') \<and> prio_frame k k' \<and> prio_ok k'
    \<and> priority (thr k' t) = donated_priority k t p
    \<and> (\<forall>u. \<not> (waits_for k)\<^sup>*\<^sup>* t u \<longrightarrow> priority (thr k' u) = priority (thr k u))
    \<and> (\<forall>u h. (waits_for k)\<^sup>*\<^sup>* t u \<longrightarrow> waits_for k u h \<longrightarrow> priority (thr k' u) \<le> priority (thr k' h))"
  using assms
proof (induction "rank t" arbitrary: t p k rule: less_induct)
  case less
  let ?p = "donated_priority k t p"
  note b = donated_bounds [OF less.prems(2,4), of t]
  have "t \<noteq> idle_thread k" using less.prems(6) by blast
  then obtain k1 where k1: "thread_set_quite_priority_donation t ?p k = Some k1"
    using requeue_total [OF less.prems(1), of "\<lambda>r. r\<lparr>priority := ?p\<rparr>" ?p t] b(3,4)
    by (auto simp: thread_set_quite_priority_donation_def)
  note d = donation_ok [OF less.prems(1) k1]
  note w = prio_frame_waits [OF d(2)]
  have ok1: "prio_ok k1" using less.prems(2) b(3,4) by (simp add: prio_ok_def d(3) prio_frameD(2) [OF d(2)])
  have unfold: "propagate_priorities (Some t) p k = (case waiting_lock (thr k1 t) of None \<Rightarrow> Some k1
      | Some l \<Rightarrow> (case holder (locks k1 l) of None \<Rightarrow> Some k1 | Some h \<Rightarrow> propagate_priorities (Some h) ?p k1))"
    using less.prems(3) k1 by (simp add: propagate_priorities.simps [of "Some t"])
  show ?case
  proof (cases "\<exists>h. waits_for k t h")
    case False
    then have none: "\<not> waits_for k t h" for h by blast
    then have call: "propagate_priorities (Some t) p k = Some k1"
      unfolding unfold w [symmetric] waits_for_def by (auto split: option.splits)
    have reach: "(waits_for k)\<^sup>*\<^sup>* t u \<longleftrightarrow> u = t" for u
      using none by (auto elim: converse_rtranclpE)
    show ?thesis using call d ok1 none by (auto simp: reach)
  next
    case True
    then obtain h where h: "waits_for k t h" by blast
    then have only: "waits_for k t u \<longleftrightarrow> u = h" for u by (auto simp: waits_for_def)
    have call: "propagate_priorities (Some t) p k = propagate_priorities (Some h) ?p k1"
      using h unfolding unfold w [symmetric] waits_for_def by auto
    have "rank h < rank t" by (rule less.prems(5) [OF h])
    have reach: "(waits_for k)\<^sup>*\<^sup>* t u \<longleftrightarrow> u = t \<or> (waits_for k)\<^sup>*\<^sup>* h u" for u
    proof
      assume "(waits_for k)\<^sup>*\<^sup>* t u"
      then show "u = t \<or> (waits_for k)\<^sup>*\<^sup>* h u" by (cases rule: converse_rtranclpE) (simp_all add: only)
    next
      assume "u = t \<or> (waits_for k)\<^sup>*\<^sup>* h u"
      then show "(waits_for k)\<^sup>*\<^sup>* t u" using converse_rtranclp_into_rtranclp [of "waits_for k", OF h] by blast
    qed
    have "rank u \<le> rank h" if "(waits_for k)\<^sup>*\<^sup>* h u" for u
      using that by (induction rule: rtranclp_induct) (auto dest: less.prems(5))
    then have tn: "\<not> (waits_for k)\<^sup>*\<^sup>* h t" using \<open>rank h < rank t\<close> by force
    have m1: "\<not> thread_mlfqs k1" "idle_thread k1 = idle_thread k" using less.prems(3) by (simp_all add: prio_frameD [OF d(2)])
    have p5: "rank v < rank u" if "waits_for k1 u v" for u v using less.prems(5) that unfolding w .
    have p6: "u \<noteq> idle_thread k1" if "(waits_for k1)\<^sup>*\<^sup>* h u" for u
      using less.prems(6) that reach unfolding w m1(2) by blast
    note ih = less.hyps [OF \<open>rank h < rank t\<close> d(1) ok1 m1(1) b(4) p5 p6, unfolded w]
    obtain k' where k': "propagate_priorities (Some h) ?p k1 = Some k'" "rq k' (queued k')" "prio_frame k1 k'"
      "prio_ok k'" "priority (thr k' h) = donated_priority k1 h ?p"
      "\<And>u. \<not> (waits_for k)\<^sup>*\<^sup>* h u \<Longrightarrow> priority (thr k' u) = priority (thr k1 u)"
      "\<And>u v. (waits_for k)\<^sup>*\<^sup>* h u \<Longrightarrow> waits_for k u v \<Longrightarrow> priority (thr k' u) \<le> priority (thr k' v)"
      using ih by blast
    have t': "priority (thr k' t) = ?p" using k'(6) [OF tn] d(3) by simp
    moreover have "?p \<le> priority (thr k' h)" unfolding k'(5) by (rule donated_bounds(1) [OF ok1 b(4)])
    ultimately have "priority (thr k' u) \<le> priority (thr k' v)"
      if "(waits_for k)\<^sup>*\<^sup>* t u" "waits_for k u v" for u v
      using that k'(7) only unfolding reach by auto
    moreover have "priority (thr k' u) = priority (thr k u)" if "\<not> (waits_for k)\<^sup>*\<^sup>* t u" for u
      using that k'(6) [of u] d(3) unfolding reach by auto
    ultimately show ?thesis using call k' t' prio_frame_trans [OF d(2) k'(3)] by auto
  qed
qed

end
