(* ===== verification/Sched_Machine.thy ===== *)
theory Sched_Machine
  imports Scheduler
begin

text \<open>
  The scheduler at work: the operations of theory \<open>Scheduler\<close> as the steps of one processor that
  runs any number of threads, and the properties of every state that can be reached.

  A function that gives up the processor, or runs with interrupts on in between, is several steps, and \<open>pc\<close> says
  where in it a thread is: in ordinary code (\<open>Run\<close>); in \<open>lock_acquire\<close>, after its \<open>thread_yield\<close> (\<open>Acquiring l h\<close>, where \<open>h\<close> is
  the holder it saw); in \<open>lock_try_acquire\<close>, before it enters itself as the holder (\<open>Trying l\<close>); in \<open>thread_create\<close> of thread \<open>t\<close>,
  before \<open>allocate_tid\<close> (\<open>Created t\<close>), in its \<open>lock_acquire\<close> (\<open>Allocating t h\<close>), before its \<open>lock_release\<close> (\<open>Allocated t\<close>), before and after
  \<open>thread_unblock\<close> (\<open>Starting t\<close>, \<open>Started t\<close>). Only the running thread acts. The timer interrupts it wherever
  interrupts are on, which is everywhere but inside \<open>lock_acquire\<close>.
\<close>

section \<open>The machine\<close>

datatype pc = Run | Acquiring nat "nat option" | Trying nat
  | Created nat | Allocating nat "nat option" | Allocated nat | Starting nat | Started nat

record machine =
  ker :: kernel
  pcs :: "nat \<Rightarrow> pc"

datatype action = Acquire nat | Resume | Release nat | TryAcquire nat | SetPriority int | SetNice int
  | Yield | Timer | Sleep int | Exit | Idle | Create "nat option" int

text \<open>The running thread has done a step, which leaves it at \<open>p\<close>.\<close>

definition goto :: "pc \<Rightarrow> kernel \<Rightarrow> machine \<Rightarrow> machine" where
  "goto p k m = m\<lparr>ker := k, pcs := (pcs m)(running (ker m) := p)\<rparr>"

fun act :: "action \<Rightarrow> machine \<Rightarrow> machine option" where
  "act (Acquire l) m =
     do { (h, k) \<leftarrow> lock_acquire_begin l (ker m);
          Some (goto (case pcs m (running (ker m)) of Created t \<Rightarrow> Allocating t h | _ \<Rightarrow> Acquiring l h) k m) }"
| "act Resume m =
     (case pcs m (running (ker m)) of
        Acquiring l h \<Rightarrow> do { (acquired, k) \<leftarrow> lock_acquire_resume l h (ker m); Some (goto (if acquired then Run else Acquiring l h) k m) }
      | Allocating t h \<Rightarrow> do { (acquired, k) \<leftarrow> lock_acquire_resume tid_lock h (ker m); Some (goto (if acquired then Allocated t else Allocating t h) k m) }
      | Trying l \<Rightarrow> Some (goto Run (lock_try_acquire_end l (ker m)) m)
      | Starting t \<Rightarrow> do { k \<leftarrow> thread_unblock t (ker m); Some (goto (Started t) k m) }
      | Started t \<Rightarrow> do { k \<leftarrow> thread_create_end t (ker m); Some (goto Run k m) }
      | _ \<Rightarrow> None)"
| "act (Release l) m =
     do { k \<leftarrow> lock_release l (ker m);
          Some (goto (case pcs m (running (ker m)) of Allocated t \<Rightarrow> Starting t | p \<Rightarrow> p) k m) }"
| "act (TryAcquire l) m = do { (success, k) \<leftarrow> lock_try_acquire_begin l (ker m); Some (goto (if success then Trying l else Run) k m) }"
| "act (SetPriority p) m = do { k \<leftarrow> thread_set_priority p (ker m); Some (m\<lparr>ker := k\<rparr>) }"
| "act (SetNice n) m = do { k \<leftarrow> thread_set_nice n (ker m); Some (m\<lparr>ker := k\<rparr>) }"
| "act Yield m = do { k \<leftarrow> thread_yield (ker m); Some (m\<lparr>ker := k\<rparr>) }"
| "act Timer m = do { k \<leftarrow> timer_interrupt (ker m); Some (m\<lparr>ker := k\<rparr>) }"
| "act (Sleep n) m = do { k \<leftarrow> timer_sleep n (ker m); Some (m\<lparr>ker := k\<rparr>) }"
| "act Exit m = do { k \<leftarrow> thread_exit (ker m); Some (m\<lparr>ker := k\<rparr>) }"
| "act Idle m = do { k \<leftarrow> thread_block (ker m); Some (m\<lparr>ker := k\<rparr>) }"
| "act (Create page p) m =
     do { (_, k) \<leftarrow> thread_create_begin page p (ker m);
          Some (goto (case page of Some t \<Rightarrow> Created t | None \<Rightarrow> Run) k m) }"

text \<open>Who may do what: the idle thread only blocks, a thread inside one of the functions above goes on with
  it, \<open>tid_lock\<close> is private to \<open>allocate_tid\<close>, and a page for a new thread is one no thread lives on.\<close>

definition free_code :: "machine \<Rightarrow> bool" where
  "free_code m \<longleftrightarrow> pcs m (running (ker m)) = Run \<and> running (ker m) \<noteq> idle_thread (ker m)"

fun may :: "action \<Rightarrow> machine \<Rightarrow> bool" where
  "may Resume m \<longleftrightarrow> pcs m (running (ker m)) \<noteq> Run"
| "may (Acquire l) m \<longleftrightarrow> (case pcs m (running (ker m)) of Created t \<Rightarrow> l = tid_lock | _ \<Rightarrow> free_code m \<and> l \<noteq> tid_lock)"
| "may (Release l) m \<longleftrightarrow> (case pcs m (running (ker m)) of Allocated t \<Rightarrow> l = tid_lock | _ \<Rightarrow> free_code m \<and> l \<noteq> tid_lock)"
| "may (TryAcquire l) m \<longleftrightarrow> free_code m \<and> l \<noteq> tid_lock"
| "may Idle m \<longleftrightarrow> running (ker m) = idle_thread (ker m)"
| "may Timer m \<longleftrightarrow> (case pcs m (running (ker m)) of Acquiring l h \<Rightarrow> False | Allocating t h \<Rightarrow> False | _ \<Rightarrow> True)"
| "may (Create page p) m \<longleftrightarrow> free_code m
     \<and> (case page of None \<Rightarrow> True
          | Some t \<Rightarrow> status (thr (ker m) t) = THREAD_DYING \<and> t \<noteq> idle_thread (ker m))"
| "may a m \<longleftrightarrow> free_code m"

text \<open>The state \<open>thread_start\<close> leaves behind: the initial thread 0 runs, the idle thread 1 is blocked,
  and no other thread exists. With the feedback-queue scheduler \<open>init_thread\<close> gave both the priority of a
  new thread, as the idle thread was not known as such yet.\<close>

definition boot_thread :: thread where
  "boot_thread = \<lparr>status = THREAD_DYING, priority = 31, old_priority = 31, waiting_lock = None,
     acquired_locks_list = [], recent_cpu = 0, nice = 0\<rparr>"

definition boot :: "bool \<Rightarrow> machine" where
  "boot mlfqs = (let p = (if mlfqs then 63 else 31); q = (if mlfqs then 63 else 0) in \<lparr>ker = \<lparr>
       thr = (\<lambda>_. boot_thread)(0 := boot_thread\<lparr>status := THREAD_RUNNING, priority := p, old_priority := p\<rparr>,
                               1 := boot_thread\<lparr>status := THREAD_BLOCKED, priority := q, old_priority := q\<rparr>),
       locks = (\<lambda>_. lock_init), ready_list = (\<lambda>_. []), all_list = [0, 1], running = 0, idle_thread = 1,
       thread_ticks = 0, idle_ticks = 0, kernel_ticks = 0, load_average = 0, thread_mlfqs = mlfqs,
       ticks = 0, sleeping_threads_list = []\<rparr>,
     pcs = (\<lambda>_. Run)\<rparr>)"

inductive reach :: "machine \<Rightarrow> bool" where
  reach_boot: "reach (boot mlfqs)"
| reach_act: "reach m \<Longrightarrow> may a m \<Longrightarrow> act a m = Some m' \<Longrightarrow> reach m'"

section \<open>The waiter that is woken\<close>

interpretation synch: elem_order "comparator_synch k" for k
  by unfold_locales (auto simp: comparator_synch_def)

lemma max_waiter_ok:
  assumes "ws \<noteq> []"
  shows "max_waiter k ws \<in> set ws" "w \<in> set ws \<Longrightarrow> priority (thr k w) \<le> priority (thr k (max_waiter k ws))"
  using synch.fold_max [OF refl, of k "tl ws" "hd ws"] assms
  by (auto simp: max_waiter_def comparator_synch_def not_less)

lemma max_waiter_earliest:
  assumes "ws \<noteq> []"
  shows "\<exists>us vs. ws = us @ max_waiter k ws # vs
    \<and> (\<forall>u\<in>set us. priority (thr k u) < priority (thr k (max_waiter k ws)))"
  using synch.fold_max [OF refl, of k "tl ws" "hd ws"] assms
  by (auto simp: max_waiter_def comparator_synch_def)

section \<open>The invariant of the machine\<close>

definition lock_ok :: "nat \<Rightarrow> lock \<Rightarrow> bool" where
  "lock_ok idle l \<longleftrightarrow> sema_value (semaphore l) \<le> 1 \<and> (holder l \<noteq> None \<longrightarrow> sema_value (semaphore l) = 0)
     \<and> idle \<notin> set (sema_waiters (semaphore l)) \<and> holder l \<noteq> Some idle"

definition kernel_ok :: "kernel \<Rightarrow> bool" where
  "kernel_ok k \<longleftrightarrow> sched_inv k \<and> (\<forall>l. lock_ok (idle_thread k) (locks k l))
     \<and> (\<forall>e\<in>set (sleeping_threads_list k). snd e \<noteq> idle_thread k)"

lemma kernel_okD:
  assumes "kernel_ok k"
  shows "sched_inv k" "lock_ok (idle_thread k) (locks k l)" "(\<forall>e\<in>set (sleeping_threads_list k). snd e \<noteq> idle_thread k)"
    "rq k (queued k)"
  using assms sched_invD(1) unfolding kernel_ok_def by blast+

lemma kernel_ok_frame: "kernel_ok k \<Longrightarrow> sched_inv k' \<Longrightarrow> sync_frame k k' \<Longrightarrow> kernel_ok k'"
  by (simp add: kernel_ok_def sync_frame_def)

text \<open>Changing fields the scheduler does not read, or one lock.\<close>

lemma sched_inv_cong:
  assumes "sched_inv k" and "ready_list k' = ready_list k" "running k' = running k" "idle_thread k' = idle_thread k"
    and "\<And>t. priority (thr k' t) = priority (thr k t) \<and> status (thr k' t) = status (thr k t)"
  shows "sched_inv k'"
  using assms unfolding sched_inv_def rq_def queued_def by simp

lemma kernel_ok_upd_thr:
  assumes "kernel_ok k" and "\<And>r. priority (f r) = priority r \<and> status (f r) = status r"
  shows "kernel_ok (upd_thr t f k)"
proof -
  have "sched_inv (upd_thr t f k)" by (rule sched_inv_cong [OF kernel_okD(1) [OF assms(1)]]) (use assms(2) in auto)
  then show ?thesis using assms(1) by (simp add: kernel_ok_def)
qed

lemma kernel_ok_upd_lock:
  assumes "kernel_ok k" and "lock_ok (idle_thread k) (g (locks k l))"
  shows "kernel_ok (upd_lock l g k)"
proof -
  have "sched_inv (upd_lock l g k)" by (rule sched_inv_cong [OF kernel_okD(1) [OF assms(1)]]) auto
  then show ?thesis using assms by (simp add: kernel_ok_def)
qed

lemma propagate_inv:
  assumes "sched_inv k" and "propagate_priorities ot p k = Some k'"
  shows "sched_inv k'" "prio_frame k k'"
  using propagate_ok [OF assms(2) sched_invD(1) [OF assms(1)]] sched_inv_prio [OF assms(1)] by blast+

lemmas frame_intros = sync_frame_trans prio_frame_sync

lemma sema_up_ok:
  assumes inv: "sched_inv k" and idle: "idle_thread k \<notin> set (sema_waiters s)"
    and v: "sema_value s < 2 ^ 32 - 1" and r: "sema_up s k = Some (s', k')"
  shows "sched_inv k'" "sync_frame k k'" "running k' = running k" "sema_value s' = sema_value s + 1"
    "set (sema_waiters s') \<subseteq> set (sema_waiters s)"
    "sema_waiters s \<noteq> [] \<Longrightarrow> max_waiter k (sema_waiters s) \<in> queued k'"
proof -
  have "sched_inv k' \<and> sync_frame k k' \<and> running k' = running k \<and> sema_value s' = sema_value s + 1
    \<and> set (sema_waiters s') \<subseteq> set (sema_waiters s)
    \<and> (sema_waiters s \<noteq> [] \<longrightarrow> max_waiter k (sema_waiters s) \<in> queued k')"
  proof (cases "sema_waiters s = []")
    case True
    then show ?thesis using r inv v by (auto simp: sema_up_def)
  next
    case False
    let ?t = "max_waiter k (sema_waiters s)"
    have u: "thread_unblock ?t k = Some k'" and s': "s' = s\<lparr>sema_waiters := remove1 ?t (sema_waiters s), sema_value := u32 (sema_value s + 1)\<rparr>"
      using r False by (auto simp: sema_up_def Let_def kernel_simps)
    have "?t \<noteq> idle_thread k" using max_waiter_ok(1) [OF False, of k] idle by auto
    note t = thread_unblock_ok [OF inv this u]
    show ?thesis using t v by (simp add: s' set_remove1_subset)
  qed
  then show "sched_inv k'" "sync_frame k k'" "running k' = running k" "sema_value s' = sema_value s + 1"
    "set (sema_waiters s') \<subseteq> set (sema_waiters s)"
    "sema_waiters s \<noteq> [] \<Longrightarrow> max_waiter k (sema_waiters s) \<in> queued k'" by blast+
qed

section \<open>Each operation keeps the invariant\<close>

lemma yield_ok: "kernel_ok k \<Longrightarrow> thread_yield k = Some k' \<Longrightarrow> kernel_ok k' \<and> sync_frame k k'"
  using thread_yield_ok [OF kernel_okD(1)] kernel_ok_frame by blast

lemma block_ok: "kernel_ok k \<Longrightarrow> thread_block k = Some k' \<Longrightarrow> kernel_ok k' \<and> sync_frame k k'"
  using thread_block_ok [OF kernel_okD(1)] kernel_ok_frame by blast

lemma propagate_kernel_ok:
  "kernel_ok k \<Longrightarrow> propagate_priorities ot p k = Some k' \<Longrightarrow> kernel_ok k' \<and> prio_frame k k'"
  using propagate_inv [OF kernel_okD(1)] kernel_ok_frame prio_frame_sync by blast

lemma acquire_begin_ok:
  assumes ok: "kernel_ok k" and r: "lock_acquire_begin l k = Some (h, k')"
  shows "kernel_ok k' \<and> idle_thread k' = idle_thread k \<and> locks k' = locks k"
proof -
  let ?k = "upd_thr (running k) (\<lambda>r. r\<lparr>waiting_lock := Some l\<rparr>) k"
  obtain k1 where k1: "propagate_priorities h (priority (thr ?k (running k))) ?k = Some k1" "thread_yield k1 = Some k'"
    using r by (auto simp: lock_acquire_begin_def Let_def kernel_simps split: if_splits)
  have "kernel_ok ?k" by (rule kernel_ok_upd_thr [OF ok]) simp
  note p = propagate_kernel_ok [OF this k1(1)]
  note y = yield_ok [OF p [THEN conjunct1] k1(2)]
  then show ?thesis using p by (auto simp: sync_frame_def prio_frameD)
qed

lemma acquire_resume_ok:
  assumes ok: "kernel_ok k" and run: "running k \<noteq> idle_thread k"
    and r: "lock_acquire_resume l h k = Some (acq, k')"
  shows "kernel_ok k' \<and> idle_thread k' = idle_thread k
    \<and> (acq \<longrightarrow> holder (locks k l) = None \<and> holder (locks k' l) = Some (running k))"
proof (cases "sema_value (semaphore (locks k l)) = 0")
  case True
  let ?g = "\<lambda>r. r\<lparr>semaphore := (semaphore (locks k l))\<lparr>sema_waiters := sema_waiters (semaphore (locks k l)) @ [running k]\<rparr>\<rparr>"
  have b: "thread_block (upd_lock l ?g k) = Some k'" "\<not> acq"
    using r True by (auto simp: lock_acquire_resume_def sema_down_pass_def kernel_simps)
  have "kernel_ok (upd_lock l ?g k)"
    by (rule kernel_ok_upd_lock [OF ok]) (use kernel_okD(2) [OF ok, of l] run in \<open>auto simp: lock_ok_def\<close>)
  from block_ok [OF this b(1)] b(2) show ?thesis by (auto simp: sync_frame_def)
next
  case False
  then have free: "holder (locks k l) = None" "sema_value (semaphore (locks k l)) = 1"
    using kernel_okD(2) [OF ok, of l] by (auto simp: lock_ok_def)
  let ?s = "(semaphore (locks k l))\<lparr>sema_value := 0\<rparr>"
  let ?k = "upd_lock l (\<lambda>r. r\<lparr>semaphore := ?s\<rparr>) k"
  obtain k1 where k1: "propagate_priorities h (- 1) ?k = Some k1" and acq: "acq"
    and k': "k' = upd_lock l (\<lambda>r. r\<lparr>holder := Some (running k)\<rparr>) (upd_thr (running k)
      (\<lambda>r. r\<lparr>acquired_locks_list := acquired_locks_list r @ [l], waiting_lock := None\<rparr>) k1)"
    using r free by (auto simp: lock_acquire_resume_def sema_down_pass_def kernel_simps Let_def)
  have inv: "sched_inv ?k" by (rule sched_inv_cong [OF kernel_okD(1) [OF ok]]) auto
  note p = propagate_inv [OF inv k1]
  have "sched_inv k'" unfolding k' by (rule sched_inv_cong [OF p(1)]) auto
  moreover have "locks k' = (locks k)(l := (locks k l)\<lparr>semaphore := ?s, holder := Some (running k)\<rparr>)"
    "idle_thread k' = idle_thread k" "sleeping_threads_list k' = sleeping_threads_list k"
    unfolding k' by (simp_all add: prio_frameD [OF p(2)])
  ultimately show ?thesis
    using ok run free by (auto simp: kernel_ok_def lock_ok_def)
qed

lemma resume_locks:
  assumes ok: "kernel_ok k" and r: "lock_acquire_resume i h k = Some (acq, k')"
  shows "holder (locks k' l) = (if acq \<and> l = i then Some (running k) else holder (locks k l))"
    "acq \<Longrightarrow> sema_value (semaphore (locks k i)) \<noteq> 0"
proof -
  let ?s = "semaphore (locks k i)"
  have *: "holder (locks k' l) = (if acq \<and> l = i then Some (running k) else holder (locks k l))
      \<and> (acq \<longrightarrow> sema_value ?s \<noteq> 0)"
  proof (cases "sema_value ?s = 0")
    case True
    let ?k = "upd_lock i (\<lambda>r. r\<lparr>semaphore := ?s\<lparr>sema_waiters := sema_waiters ?s @ [running k]\<rparr>\<rparr>) k"
    have b: "thread_block ?k = Some k'" "\<not> acq"
      using r True by (auto simp: lock_acquire_resume_def sema_down_pass_def kernel_simps)
    have "sched_inv ?k" by (rule sched_inv_cong [OF kernel_okD(1) [OF ok]]) auto
    from thread_block_ok(2) [OF this b(1)] b(2) show ?thesis by (simp add: sync_frame_def)
  next
    case False
    let ?k = "upd_lock i (\<lambda>r. r\<lparr>semaphore := ?s\<lparr>sema_value := sema_value ?s - 1\<rparr>\<rparr>) k"
    obtain k1 where k1: "propagate_priorities h (- 1) ?k = Some k1" and acq: "acq"
      and k': "locks k' = (locks k1)(i := (locks k1 i)\<lparr>holder := Some (running k)\<rparr>)"
      using r False by (auto simp: lock_acquire_resume_def sema_down_pass_def kernel_simps Let_def)
    have "sched_inv ?k" by (rule sched_inv_cong [OF kernel_okD(1) [OF ok]]) auto
    from propagate_inv(2) [OF this k1] have "locks k1 = locks ?k" by (rule prio_frameD(4))
    then show ?thesis using acq False by (simp add: k')
  qed
  show "holder (locks k' l) = (if acq \<and> l = i then Some (running k) else holder (locks k l))" using * by blast
  show "acq \<Longrightarrow> sema_value ?s \<noteq> 0" using * by blast
qed

lemma resume_taken:
  assumes ok: "kernel_ok k" and r: "lock_acquire_resume i h k = Some (acq, k')" and z: "sema_value (semaphore (locks k l)) = 0"
  shows "sema_value (semaphore (locks k' l)) = 0"
proof (cases "sema_value (semaphore (locks k i)) = 0")
  case True
  let ?s = "semaphore (locks k i)"
  let ?k = "upd_lock i (\<lambda>r. r\<lparr>semaphore := ?s\<lparr>sema_waiters := sema_waiters ?s @ [running k]\<rparr>\<rparr>) k"
  have b: "thread_block ?k = Some k'" using r True by (auto simp: lock_acquire_resume_def sema_down_pass_def kernel_simps)
  have "sched_inv ?k" by (rule sched_inv_cong [OF kernel_okD(1) [OF ok]]) auto
  from thread_block_ok(2) [OF this b] z True show ?thesis by (auto simp: sync_frame_def)
next
  case False
  let ?s = "semaphore (locks k i)"
  let ?k = "upd_lock i (\<lambda>r. r\<lparr>semaphore := ?s\<lparr>sema_value := sema_value ?s - 1\<rparr>\<rparr>) k"
  obtain k1 where k1: "propagate_priorities h (- 1) ?k = Some k1"
    and k': "locks k' = (locks k1)(i := (locks k1 i)\<lparr>holder := Some (running k)\<rparr>)"
    using r False by (auto simp: lock_acquire_resume_def sema_down_pass_def kernel_simps Let_def)
  have "sched_inv ?k" by (rule sched_inv_cong [OF kernel_okD(1) [OF ok]]) auto
  from propagate_inv(2) [OF this k1] have "locks k1 = locks ?k" by (rule prio_frameD(4))
  then show ?thesis using z by (auto simp: k')
qed

lemma try_begin_ok:
  assumes ok: "kernel_ok k" and r: "lock_try_acquire_begin l k = Some (b, k')"
  shows "kernel_ok k' \<and> idle_thread k' = idle_thread k \<and> (\<forall>m. holder (locks k' m) = holder (locks k m))
    \<and> (\<forall>m. sema_value (semaphore (locks k m)) = 0 \<longrightarrow> sema_value (semaphore (locks k' m)) = 0)
    \<and> (b \<longrightarrow> holder (locks k l) = None \<and> sema_value (semaphore (locks k l)) = 1 \<and> sema_value (semaphore (locks k' l)) = 0)"
proof (cases "sema_value (semaphore (locks k l)) > 0")
  case True
  let ?g = "\<lambda>r. r\<lparr>semaphore := (semaphore (locks k l))\<lparr>sema_value := sema_value (semaphore (locks k l)) - 1\<rparr>\<rparr>"
  have k': "k' = upd_lock l ?g k"
    using r True by (auto simp: lock_try_acquire_begin_def sema_try_down_def upd_lock_def Let_def kernel_simps split: if_splits)
  have "lock_ok (idle_thread k) (?g (locks k l))" using kernel_okD(2) [OF ok, of l] True by (auto simp: lock_ok_def)
  then have "kernel_ok k'" unfolding k' by (rule kernel_ok_upd_lock [OF ok])
  then show ?thesis using kernel_okD(2) [OF ok, of l] True by (auto simp: k' lock_ok_def)
next
  case False
  then have k': "k' = upd_lock l (\<lambda>r. r\<lparr>semaphore := semaphore (locks k l)\<rparr>) k" "\<not> b"
    using r by (auto simp: lock_try_acquire_begin_def sema_try_down_def Let_def kernel_simps split: if_splits)
  then show ?thesis
    using kernel_ok_upd_lock [OF ok, of "\<lambda>r. r\<lparr>semaphore := semaphore (locks k l)\<rparr>" l] kernel_okD(2) [OF ok, of l] by auto
qed

lemma try_end_ok:
  assumes ok: "kernel_ok k" and run: "running k \<noteq> idle_thread k" and z: "sema_value (semaphore (locks k l)) = 0"
  shows "kernel_ok (lock_try_acquire_end l k) \<and> idle_thread (lock_try_acquire_end l k) = idle_thread k"
  using kernel_ok_upd_lock [OF ok, of "\<lambda>r. r\<lparr>holder := Some (running k)\<rparr>" l] kernel_okD(2) [OF ok, of l] run z
  by (auto simp: lock_try_acquire_end_def lock_ok_def)

lemma release_ok:
  assumes ok: "kernel_ok k" and r: "lock_release l k = Some k'"
  shows "kernel_ok k' \<and> idle_thread k' = idle_thread k \<and> holder (locks k l) = Some (running k)
    \<and> holder (locks k' l) = None \<and> (\<forall>m. m \<noteq> l \<longrightarrow> locks k' m = locks k m)"
proof -
  let ?k0 = "upd_lock l (\<lambda>r. r\<lparr>holder := None\<rparr>) k"
  let ?k = "upd_thr (running k) (\<lambda>r. r\<lparr>acquired_locks_list := remove1 l (acquired_locks_list r)\<rparr>) ?k0"
  obtain k1 s k2 where k1: "propagate_priorities (Some (running k)) (- 1) ?k = Some k1"
    and up: "sema_up (semaphore (locks k1 l)) k1 = Some (s, k2)"
    and k': "k' = upd_lock l (\<lambda>r. r\<lparr>semaphore := s\<rparr>) k2" and h: "holder (locks k l) = Some (running k)"
    using r by (auto simp: lock_release_def lock_held_by_current_thread_def Let_def kernel_simps split: if_splits)
  have inv: "sched_inv ?k" by (rule sched_inv_cong [OF kernel_okD(1) [OF ok]]) auto
  note p = propagate_inv [OF inv k1]
  have l1: "locks k1 = (locks k)(l := (locks k l)\<lparr>holder := None\<rparr>)" "idle_thread k1 = idle_thread k"
    "sleeping_threads_list k1 = sleeping_threads_list k"
    by (simp_all add: prio_frameD [OF p(2)])
  have lk: "sema_value (semaphore (locks k l)) = 0" "idle_thread k \<notin> set (sema_waiters (semaphore (locks k l)))"
    using kernel_okD(2) [OF ok, of l] h by (auto simp: lock_ok_def)
  note u = sema_up_ok [OF p(1) _ _ up]
  have u': "sched_inv k2" "sync_frame k1 k2" "sema_value s = 1" "set (sema_waiters s) \<subseteq> set (sema_waiters (semaphore (locks k l)))"
    using u lk by (auto simp: l1)
  have "sched_inv k'" unfolding k' by (rule sched_inv_cong [OF u'(1)]) auto
  moreover have "locks k' = (locks k)(l := (locks k l)\<lparr>holder := None, semaphore := s\<rparr>)"
    "idle_thread k' = idle_thread k" "sleeping_threads_list k' = sleeping_threads_list k"
    using u'(2) unfolding k' by (simp_all add: sync_frame_def l1)
  ultimately show ?thesis using ok lk u' h by (auto simp: kernel_ok_def lock_ok_def)
qed

lemma quite_ok:
  assumes ok: "kernel_ok k" and f: "\<And>r. f r = r\<lparr>priority := p, old_priority := p\<rparr>"
    and r: "requeue t (upd_thr t f k) = Some k'"
  shows "kernel_ok k' \<and> sync_frame k k'"
proof -
  have "f r = r\<lparr>priority := p, old_priority := old_priority (f r)\<rparr>" for r by (simp add: f)
  from requeue_inv [OF kernel_okD(1) [OF ok] this r] show ?thesis using kernel_ok_frame [OF ok] by blast
qed

lemma set_priority_ok:
  assumes ok: "kernel_ok k" and r: "thread_set_priority p k = Some k'"
  shows "kernel_ok k' \<and> sync_frame k k'"
proof -
  let ?f = "\<lambda>r. r\<lparr>priority := p, old_priority := p\<rparr>"
  obtain k1 k2 where k1: "requeue (running k) (upd_thr (running k) ?f k) = Some k1"
    and k2: "propagate_priorities (Some (running k)) (- 1) k1 = Some k2"
    and k': "(if priority (thr k (running k)) > priority (thr k2 (running k)) then thread_yield k2 else Some k2) = Some k'"
    using r by (auto simp: thread_set_priority_def Let_def kernel_simps)
  note a = quite_ok [OF ok refl k1]
  note b = propagate_kernel_ok [OF a [THEN conjunct1] k2]
  have c: "sync_frame k k2" using a b frame_intros by blast
  show ?thesis
  proof (cases "priority (thr k (running k)) > priority (thr k2 (running k))")
    case True
    then show ?thesis using k' yield_ok [OF b [THEN conjunct1]] sync_frame_trans [OF c] by auto
  next
    case False
    then show ?thesis using k' b c by auto
  qed
qed

lemma recompute_priority_one_ok:
  assumes ok: "kernel_ok k" and r: "thread_function_recompute_priority t k = Some k'"
  shows "kernel_ok k' \<and> sync_frame k k'"
proof (cases "t = idle_thread k")
  case False
  then obtain p where "thread_set_quite_priority t p k = Some k'"
    using r by (auto simp: thread_function_recompute_priority_def kernel_simps)
  then show ?thesis unfolding thread_set_quite_priority_def by (rule quite_ok [OF ok refl])
qed (use r ok in \<open>simp add: thread_function_recompute_priority_def\<close>)

lemma recompute_cpu_one_ok:
  assumes ok: "kernel_ok k" and r: "thread_function_recompute_recent_cpu t k = Some k'"
  shows "kernel_ok k' \<and> sync_frame k k'"
proof (cases "t = idle_thread k")
  case False
  then obtain c where k': "k' = upd_thr t (\<lambda>r. r\<lparr>recent_cpu := sumFloatsAndInts (multiplyFloats (recent_cpu r) c) (nice r)\<rparr>) k"
    using r by (auto simp: thread_function_recompute_recent_cpu_def Let_def kernel_simps)
  show ?thesis unfolding k' using kernel_ok_upd_thr [OF ok] by (simp add: sync_frame_def)
qed (use r ok in \<open>simp add: thread_function_recompute_recent_cpu_def\<close>)

lemma foreach_ok:
  assumes ok: "kernel_ok k" and r: "thread_foreach func k = Some k'"
    and step: "\<And>t k k'. kernel_ok k \<Longrightarrow> func t k = Some k' \<Longrightarrow> kernel_ok k' \<and> sync_frame k k'"
  shows "kernel_ok k' \<and> sync_frame k k'"
proof -
  have "mfold func (all_list k) k = Some k'" using r by (simp add: thread_foreach_def)
  then show ?thesis
    by (rule mfold_keeps) (use ok step sync_frame_trans in \<open>auto | blast\<close>)+
qed

lemma wake_up_loop_ok:
  assumes "wake_up_loop q k = Some k'" and "sched_inv k" and "\<forall>l. lock_ok (idle_thread k) (locks k l)"
    and "\<forall>e\<in>set q. snd e \<noteq> idle_thread k"
  shows "kernel_ok k' \<and> idle_thread k' = idle_thread k \<and> locks k' = locks k"
  using assms
proof (induction q k rule: wake_up_loop.induct)
  case (1 k)
  have "sched_inv (k\<lparr>sleeping_threads_list := []\<rparr>)" by (rule sched_inv_cong [OF 1(2)]) auto
  then show ?case using 1 by (auto simp: kernel_ok_def)
next
  case (2 w t rest k)
  show ?case
  proof (cases "w \<le> ticks k")
    case True
    then obtain k1 where k1: "thread_unblock t k = Some k1" "wake_up_loop rest k1 = Some k'"
      using 2(2) by (auto simp: kernel_simps)
    have "t \<noteq> idle_thread k" using 2(5) by auto
    note u = thread_unblock_ok [OF 2(3) this k1(1)]
    have f: "locks k1 = locks k" "idle_thread k1 = idle_thread k" using u(2) by (simp_all add: sync_frame_def)
    show ?thesis using 2(1) [OF True k1(1,2) u(1)] 2(4,5) f by simp
  next
    case False
    have "sched_inv (k\<lparr>sleeping_threads_list := (w, t) # rest\<rparr>)" by (rule sched_inv_cong [OF 2(3)]) auto
    moreover have "k' = k\<lparr>sleeping_threads_list := (w, t) # rest\<rparr>" using 2(2) False by simp
    ultimately show ?thesis using 2(4,5) by (simp add: kernel_ok_def)
  qed
qed

lemma sleep_ok:
  assumes ok: "kernel_ok k" and run: "running k \<noteq> idle_thread k" and r: "timer_sleep n k = Some k'"
  shows "kernel_ok k' \<and> idle_thread k' = idle_thread k \<and> locks k' = locks k"
proof -
  let ?q = "sleep_insert (s64 (ticks k + n)) (running k) (sleeping_threads_list k)"
  let ?k = "k\<lparr>sleeping_threads_list := ?q\<rparr>"
  have set: "e = (w, t) \<or> e \<in> set q" if "e \<in> set (sleep_insert w t q)" for e w t q
    using that unfolding sleep_insert_def by (auto dest: set_takeWhileD set_dropWhileD)
  have "sched_inv ?k" by (rule sched_inv_cong [OF kernel_okD(1) [OF ok]]) auto
  moreover have "\<forall>e\<in>set ?q. snd e \<noteq> idle_thread k" using kernel_okD(3) [OF ok] run set by (metis snd_conv)
  ultimately have "kernel_ok ?k" using ok by (simp add: kernel_ok_def)
  from block_ok [OF this] r show ?thesis by (auto simp: timer_sleep_def sync_frame_def)
qed

lemma exit_ok:
  assumes ok: "kernel_ok k" and r: "thread_exit k = Some k'"
  shows "kernel_ok k' \<and> idle_thread k' = idle_thread k \<and> locks k' = locks k"
proof -
  let ?k = "set_status (running k) THREAD_DYING (k\<lparr>all_list := remove1 (running k) (all_list k)\<rparr>)"
  note inv = kernel_okD(1) [OF ok]
  have s: "schedule ?k = Some k'" using r by (auto simp: thread_exit_def)
  have q: "queued ?k = queued k" using sched_invD(3) [OF inv] by (auto simp: queued_def)
  have rq: "rq ?k (queued ?k)" unfolding q by (rule rq_cong [OF sched_invD(1) [OF inv]]) auto
  have none: "status (thr ?k t) \<noteq> THREAD_RUNNING" for t using sched_invD(2) [OF inv, of t] by auto
  note l = leave_ok [OF rq none s]
  have "kernel_ok k'" using ok l(1,2) by (auto simp: kernel_ok_def sync_frame_def)
  then show ?thesis using l(2) by (auto simp: sync_frame_def)
qed

lemma init_thread_ok:
  assumes ok: "kernel_ok k" and t: "status (thr k t) = THREAD_DYING" and r: "init_thread t p k = Some k'"
  shows "kernel_ok k' \<and> idle_thread k' = idle_thread k \<and> locks k' = locks k"
proof -
  note inv = kernel_okD(1) [OF ok]
  let ?r = "\<lparr>status = THREAD_BLOCKED, priority = p, old_priority = p, waiting_lock = None,
    acquired_locks_list = [], recent_cpu = recent_cpu (thr k (running k)), nice = nice (thr k (running k))\<rparr>"
  let ?k = "(upd_thr t (\<lambda>_. ?r) k)\<lparr>all_list := all_list k @ [t]\<rparr>"
  have new: "kernel_ok (upd_thr t (\<lambda>r. r\<lparr>priority := q\<rparr>) ?k)" for q
  proof -
    have q: "queued (upd_thr t (\<lambda>r. r\<lparr>priority := q\<rparr>) ?k) = queued k" using t by (auto simp: queued_def)
    have "rq (upd_thr t (\<lambda>r. r\<lparr>priority := q\<rparr>) ?k) (queued k)"
      by (rule rq_cong [OF sched_invD(1) [OF inv]]) (use t in \<open>auto simp: queued_def\<close>)
    moreover have "t \<noteq> running k" using sched_invD(3) [OF inv] t by auto
    ultimately have "sched_inv (upd_thr t (\<lambda>r. r\<lparr>priority := q\<rparr>) ?k)"
      using sched_invD(2) [OF inv] unfolding sched_inv_def q by auto
    then show ?thesis using ok by (simp add: kernel_ok_def)
  qed
  show ?thesis
  proof (cases "thread_mlfqs k")
    case True
    then have "thread_function_recompute_priority t (upd_thr t (\<lambda>r. r\<lparr>priority := 0\<rparr>) ?k) = Some k'"
      using r by (auto simp: init_thread_def Let_def)
    from recompute_priority_one_ok [OF new this] show ?thesis by (auto simp: sync_frame_def)
  next
    case False
    then have "k' = ?k" using r by (auto simp: init_thread_def Let_def)
    moreover have "upd_thr t (\<lambda>r. r\<lparr>priority := p\<rparr>) ?k = ?k" by (simp add: upd_thr_def)
    ultimately show ?thesis using new [of p] by simp
  qed
qed

lemma create_end_ok: "kernel_ok k \<Longrightarrow> thread_create_end t k = Some k' \<Longrightarrow> kernel_ok k' \<and> sync_frame k k'"
  using yield_ok [of k k'] by (auto simp: thread_create_end_def split: if_splits)

lemma unblock_ok: "kernel_ok k \<Longrightarrow> t \<noteq> idle_thread k \<Longrightarrow> thread_unblock t k = Some k' \<Longrightarrow> kernel_ok k' \<and> sync_frame k k'"
  using thread_unblock_ok [OF kernel_okD(1)] kernel_ok_frame by blast

lemma thread_tick_frame:
  "ready_list (snd (thread_tick k)) = ready_list k" "running (snd (thread_tick k)) = running k"
  "locks (snd (thread_tick k)) = locks k" "idle_thread (snd (thread_tick k)) = idle_thread k"
  "sleeping_threads_list (snd (thread_tick k)) = sleeping_threads_list k"
  "priority (thr (snd (thread_tick k)) t) = priority (thr k t)" "status (thr (snd (thread_tick k)) t) = status (thr k t)"
  by (cases "running k = idle_thread k"; simp add: thread_tick_def Let_def upd_thr_def)+

lemma timer_ok:
  assumes ok: "kernel_ok k" and r: "timer_interrupt k = Some k'"
  shows "kernel_ok k' \<and> idle_thread k' = idle_thread k \<and> locks k' = locks k"
proof -
  let ?k0 = "k\<lparr>ticks := s64 (ticks k + 1)\<rparr>"
  obtain y k1 where tick: "thread_tick ?k0 = (y, k1)" by fastforce
  have k1: "kernel_ok k1" "idle_thread k1 = idle_thread k" "locks k1 = locks k"
  proof -
    note f = thread_tick_frame [of ?k0, unfolded tick snd_conv, simplified]
    have "sched_inv k1" by (rule sched_inv_cong [OF kernel_okD(1) [OF ok]]) (simp_all add: f)
    then show "kernel_ok k1" "idle_thread k1 = idle_thread k" "locks k1 = locks k"
      using ok f by (auto simp: kernel_ok_def)
  qed
  obtain k4 k5 where main: "(if thread_mlfqs k1 then do {
           k \<leftarrow> (if ticks k1 mod TIMER_FREQ = 0 then recompute_load_average k1 else Some k1);
           k \<leftarrow> (if ticks k mod TIMER_FREQ = 0 then recompute_recent_cpu k else Some k);
           if ticks k mod 4 = 0 then recompute_priority k else Some k
         } else Some k1) = Some k4" and wake: "wake_up_threads k4 = Some k5"
    and last: "(if y then thread_yield k5 else Some k5) = Some k'"
    using r tick by (auto simp: timer_interrupt_def Let_def kernel_simps)
  have load: "kernel_ok b \<and> sync_frame a b" if a: "kernel_ok a" "recompute_load_average a = Some b" for a b
  proof -
    obtain v where b: "b = a\<lparr>load_average := v\<rparr>"
      using a(2) by (auto simp: recompute_load_average_def Let_def kernel_simps)
    have "sched_inv b" unfolding b by (rule sched_inv_cong [OF kernel_okD(1) [OF a(1)]]) auto
    then show ?thesis using a(1) by (simp add: kernel_ok_def b sync_frame_def)
  qed
  have cpu: "kernel_ok b \<and> sync_frame a b" if "kernel_ok a" "recompute_recent_cpu a = Some b" for a b
    by (rule foreach_ok [OF that(1) that(2) [unfolded recompute_recent_cpu_def]]) (rule recompute_cpu_one_ok)
  have pri: "kernel_ok b \<and> sync_frame a b" if "kernel_ok a" "recompute_priority a = Some b" for a b
    by (rule foreach_ok [OF that(1) that(2) [unfolded recompute_priority_def]]) (rule recompute_priority_one_ok)
  have k4: "kernel_ok k4 \<and> sync_frame k1 k4"
  proof (cases "thread_mlfqs k1")
    case True
    then obtain k2 k3 where
      k2: "(if ticks k1 mod TIMER_FREQ = 0 then recompute_load_average k1 else Some k1) = Some k2" and
      k3: "(if ticks k2 mod TIMER_FREQ = 0 then recompute_recent_cpu k2 else Some k2) = Some k3" and
      k4: "(if ticks k3 mod 4 = 0 then recompute_priority k3 else Some k3) = Some k4"
      using main by (auto simp: kernel_simps simp del: if_None_eq_Some)
    have s2: "kernel_ok k2 \<and> sync_frame k1 k2" using k2 load [OF k1(1)] k1(1) by (auto split: if_splits)
    have s3: "kernel_ok k3 \<and> sync_frame k2 k3"
      using k3 s2 cpu [of k2 k3] by (auto split: if_splits)
    have s4: "kernel_ok k4 \<and> sync_frame k3 k4"
      using k4 s3 pri [of k3 k4] by (auto split: if_splits)
    show ?thesis using s2 s3 s4 sync_frame_trans by blast
  qed (use main k1 in auto)
  have k5: "kernel_ok k5 \<and> idle_thread k5 = idle_thread k4 \<and> locks k5 = locks k4"
    using wake_up_loop_ok [OF wake [unfolded wake_up_threads_def]] k4 unfolding kernel_ok_def by blast
  show ?thesis
    using last k5 k4 k1 yield_ok [of k5 k'] by (auto simp: sync_frame_def split: if_splits)
qed

section \<open>Every reachable state\<close>

definition creating :: "pc \<Rightarrow> nat option" where
  "creating p = (case p of Created t \<Rightarrow> Some t | Allocating t h \<Rightarrow> Some t | Allocated t \<Rightarrow> Some t | Starting t \<Rightarrow> Some t | Started t \<Rightarrow> Some t | _ \<Rightarrow> None)"

text \<open>A lock whose semaphore is taken.\<close>

definition taken :: "kernel \<Rightarrow> nat \<Rightarrow> bool" where
  "taken k l \<longleftrightarrow> sema_value (semaphore (locks k l)) = 0"

lemma taken_eq: "locks k' l = locks k l \<Longrightarrow> taken k' l = taken k l"
  by (simp add: taken_def)

definition machine_ok :: "machine \<Rightarrow> bool" where
  "machine_ok m \<longleftrightarrow> kernel_ok (ker m) \<and> pcs m (idle_thread (ker m)) = Run
     \<and> (\<forall>u t. creating (pcs m u) = Some t \<longrightarrow> t \<noteq> idle_thread (ker m))
     \<and> (\<forall>u l. pcs m u = Trying l \<longrightarrow> holder (locks (ker m) l) = None \<and> taken (ker m) l)
     \<and> (\<forall>u v l. pcs m u = Trying l \<longrightarrow> pcs m v = Trying l \<longrightarrow> u = v)"

lemma machine_okD:
  assumes "machine_ok m"
  shows "kernel_ok (ker m)" "pcs m (idle_thread (ker m)) = Run" "creating (pcs m u) = Some t \<Longrightarrow> t \<noteq> idle_thread (ker m)"
    "pcs m u = Trying l \<Longrightarrow> holder (locks (ker m) l) = None" "pcs m u = Trying l \<Longrightarrow> taken (ker m) l" "pcs m u = Trying l \<Longrightarrow> pcs m v = Trying l \<Longrightarrow> u = v"
  using assms unfolding machine_ok_def by blast+

text \<open>What a step does to the kernel, and to a lock that is taken: only its release gives it back, and only the thread
  that took it becomes its holder.\<close>

definition act_frame :: "action \<Rightarrow> machine \<Rightarrow> kernel \<Rightarrow> bool" where
  "act_frame a m k' \<longleftrightarrow> kernel_ok k' \<and> idle_thread k' = idle_thread (ker m)
     \<and> (\<forall>l. taken (ker m) l \<longrightarrow> a \<noteq> Release l \<longrightarrow> taken k' l
         \<and> (holder (locks k' l) = holder (locks (ker m) l) \<or> a = Resume \<and> pcs m (running (ker m)) = Trying l))"

lemma frame_locks: "kernel_ok k' \<and> idle_thread k' = idle_thread (ker m) \<and> locks k' = locks (ker m) \<Longrightarrow> act_frame a m k'"
  by (simp add: act_frame_def taken_def)

lemma frame_sync: "kernel_ok k' \<and> sync_frame (ker m) k' \<Longrightarrow> act_frame a m k'"
  by (rule frame_locks) (simp add: sync_frame_def)

text \<open>Where the thread stands after its step.\<close>

definition next_pc :: "action \<Rightarrow> machine \<Rightarrow> machine \<Rightarrow> pc \<Rightarrow> bool" where
  "next_pc a m m' p \<longleftrightarrow> pcs m' = (pcs m)(running (ker m) := p)
     \<and> (creating p = None \<or> creating p = creating (pcs m (running (ker m))) \<or> (\<exists>t. creating p = Some t \<and> t \<noteq> idle_thread (ker m)))
     \<and> (\<forall>l. p = Trying l \<longrightarrow> pcs m (running (ker m)) = Trying l \<and> a \<noteq> Resume \<or> \<not> taken (ker m) l \<and> taken (ker m') l \<and> holder (locks (ker m') l) = None)
     \<and> (running (ker m) = idle_thread (ker m) \<longrightarrow> p = Run)"

lemma next_pc_same: "machine_ok m \<Longrightarrow> pcs m' = pcs m \<Longrightarrow> a \<noteq> Resume \<Longrightarrow> next_pc a m m' (pcs m (running (ker m)))"
  by (auto simp: next_pc_def dest: machine_okD(2))

lemma resume_frame:
  assumes ok: "kernel_ok (ker m)" and run: "running (ker m) \<noteq> idle_thread (ker m)" and r: "lock_acquire_resume l h (ker m) = Some (acq, k')"
  shows "act_frame a m k'"
proof -
  have "holder (locks k' i) = holder (locks (ker m) i) \<and> taken k' i" if "taken (ker m) i" for i
  proof -
    have z: "sema_value (semaphore (locks (ker m) i)) = 0" using that by (simp add: taken_def)
    have "\<not> (acq \<and> i = l)" using resume_locks(2) [OF ok r] z by auto
    then show ?thesis using resume_locks(1) [OF ok r, of i] resume_taken [OF ok r z] by (auto simp: taken_def)
  qed
  then show ?thesis using acquire_resume_ok [OF ok run r] by (simp add: act_frame_def)
qed

lemma act_effect:
  assumes ok: "machine_ok m" and may: "may a m" and r: "act a m = Some m'"
  shows "act_frame a m (ker m') \<and> (\<exists>p. next_pc a m m' p)"
proof -
  let ?t = "running (ker m)" and ?k = "ker m"
  note k = machine_okD(1) [OF ok] and idle = machine_okD(2) [OF ok]
  have awake: "?t \<noteq> idle_thread ?k" if "pcs m ?t \<noteq> Run" using idle that by auto
  have plain: "act_frame a m (ker m') \<and> (\<exists>p. next_pc a m m' p)" if "m' = m\<lparr>ker := k'\<rparr>" "act_frame a m k'" "a \<noteq> Resume" for k'
    using that next_pc_same [OF ok] by (intro conjI exI [of _ "pcs m ?t"]) auto
  have moved: "act_frame a m (ker m') \<and> (\<exists>p. next_pc a m m' p)"
    if "m' = goto p k' m" "act_frame a m k'" "?t \<noteq> idle_thread ?k" "\<forall>l. p \<noteq> Trying l"
      "creating p = None \<or> creating p = creating (pcs m ?t) \<or> (\<exists>t. creating p = Some t \<and> t \<noteq> idle_thread ?k)" for p k'
    using that by (intro conjI exI [of _ p]) (auto simp: next_pc_def goto_def)
  show ?thesis
  proof (cases a)
    case (Acquire l)
    then obtain h k' where k': "lock_acquire_begin l ?k = Some (h, k')"
        "m' = goto (case pcs m ?t of Created t \<Rightarrow> Allocating t h | _ \<Rightarrow> Acquiring l h) k' m" using r by (auto simp: kernel_simps)
    have "?t \<noteq> idle_thread ?k" using may Acquire awake by (auto simp: free_code_def split: pc.splits)
    then show ?thesis by (rule moved [OF k'(2) frame_locks [OF acquire_begin_ok [OF k k'(1)]]]) (auto simp: creating_def split: pc.splits)
  next
    case Resume
    then have run: "?t \<noteq> idle_thread ?k" using may awake by simp
    show ?thesis
    proof (cases "pcs m ?t")
      case (Acquiring l h)
      then obtain acq k' where k': "lock_acquire_resume l h ?k = Some (acq, k')" "m' = goto (if acq then Run else Acquiring l h) k' m"
        using r Resume by (auto simp: kernel_simps)
      show ?thesis by (rule moved [OF k'(2) resume_frame [OF k run k'(1)] run]) (auto simp: creating_def)
    next
      case (Allocating t h)
      then obtain acq k' where k': "lock_acquire_resume tid_lock h ?k = Some (acq, k')" "m' = goto (if acq then Allocated t else Allocating t h) k' m"
        using r Resume by (auto simp: kernel_simps)
      show ?thesis by (rule moved [OF k'(2) resume_frame [OF k run k'(1)] run]) (auto simp: creating_def Allocating)
    next
      case (Trying l)
      then have m': "m' = goto Run (lock_try_acquire_end l ?k) m" using r Resume by simp
      have "sema_value (semaphore (locks ?k l)) = 0" using machine_okD(5) [OF ok Trying] by (simp add: taken_def)
      from try_end_ok [OF k run this] have "act_frame a m (lock_try_acquire_end l ?k)"
        using Trying Resume by (auto simp: act_frame_def taken_def lock_try_acquire_end_def)
      then show ?thesis by (rule moved [OF m' _ run]) (auto simp: creating_def)
    next
      case (Starting t)
      then obtain k' where k': "thread_unblock t ?k = Some k'" "m' = goto (Started t) k' m" using r Resume by (auto simp: kernel_simps)
      have "t \<noteq> idle_thread ?k" using machine_okD(3) [OF ok, of ?t t] Starting by (simp add: creating_def)
      then show ?thesis by (intro moved [OF k'(2) frame_sync [OF unblock_ok [OF k _ k'(1)]] run]) (auto simp: creating_def)
    next
      case (Started t)
      then obtain k' where k': "thread_create_end t ?k = Some k'" "m' = goto Run k' m" using r Resume by (auto simp: kernel_simps)
      show ?thesis by (rule moved [OF k'(2) frame_sync [OF create_end_ok [OF k k'(1)]] run]) (auto simp: creating_def)
    qed (use r Resume in auto)
  next
    case (Release l)
    then obtain k' where k': "lock_release l ?k = Some k'" "m' = goto (case pcs m ?t of Allocated t \<Rightarrow> Starting t | p \<Rightarrow> p) k' m"
      using r by (auto simp: kernel_simps)
    have run: "?t \<noteq> idle_thread ?k" using may Release awake by (auto simp: free_code_def split: pc.splits)
    have pc: "\<forall>i. pcs m ?t \<noteq> Trying i" using may Release by (auto simp: free_code_def split: pc.splits)
    have "act_frame a m k'" using release_ok [OF k k'(1)] Release by (auto simp: act_frame_def taken_def)
    then show ?thesis by (rule moved [OF k'(2) _ run]) (use pc in \<open>auto simp: creating_def split: pc.splits\<close>)
  next
    case (TryAcquire l)
    then obtain b k' where k': "lock_try_acquire_begin l ?k = Some (b, k')" "m' = goto (if b then Trying l else Run) k' m"
      using r by (auto simp: kernel_simps)
    have run: "?t \<noteq> idle_thread ?k" using may TryAcquire by (simp add: free_code_def)
    note t = try_begin_ok [OF k k'(1)]
    have "act_frame a m k'" using t by (simp add: act_frame_def taken_def)
    moreover have "next_pc a m m' (if b then Trying l else Run)" using t run by (auto simp: next_pc_def k'(2) goto_def creating_def taken_def)
    ultimately show ?thesis using k'(2) by (auto simp: goto_def)
  next
    case (SetPriority p)
    then obtain k' where k': "thread_set_priority p ?k = Some k'" "m' = m\<lparr>ker := k'\<rparr>" using r by (auto simp: kernel_simps)
    show ?thesis by (rule plain [OF k'(2) frame_sync [OF set_priority_ok [OF k k'(1)]]]) (simp add: SetPriority)
  next
    case (SetNice n)
    let ?k0 = "upd_thr ?t (\<lambda>r. r\<lparr>nice := n\<rparr>) ?k"
    obtain k' where k': "thread_function_recompute_priority ?t ?k0 = Some k'" "m' = m\<lparr>ker := k'\<rparr>"
      using r SetNice by (auto simp: kernel_simps thread_set_nice_def)
    have "kernel_ok ?k0" by (rule kernel_ok_upd_thr [OF k]) simp
    from recompute_priority_one_ok [OF this k'(1)] have "act_frame a m k'" by (intro frame_locks) (simp add: sync_frame_def)
    then show ?thesis by (rule plain [OF k'(2)]) (simp add: SetNice)
  next
    case Yield
    then obtain k' where k': "thread_yield ?k = Some k'" "m' = m\<lparr>ker := k'\<rparr>" using r by (auto simp: kernel_simps)
    show ?thesis by (rule plain [OF k'(2) frame_sync [OF yield_ok [OF k k'(1)]]]) (simp add: Yield)
  next
    case Timer
    then obtain k' where k': "timer_interrupt ?k = Some k'" "m' = m\<lparr>ker := k'\<rparr>" using r by (auto simp: kernel_simps)
    show ?thesis by (rule plain [OF k'(2) frame_locks [OF timer_ok [OF k k'(1)]]]) (simp add: Timer)
  next
    case (Sleep n)
    then obtain k' where k': "timer_sleep n ?k = Some k'" "m' = m\<lparr>ker := k'\<rparr>" using r by (auto simp: kernel_simps)
    have "?t \<noteq> idle_thread ?k" using may Sleep by (simp add: free_code_def)
    from sleep_ok [OF k this k'(1)] show ?thesis by (intro plain [OF k'(2) frame_locks]) (simp_all add: Sleep)
  next
    case Exit
    then obtain k' where k': "thread_exit ?k = Some k'" "m' = m\<lparr>ker := k'\<rparr>" using r by (auto simp: kernel_simps)
    show ?thesis by (rule plain [OF k'(2) frame_locks [OF exit_ok [OF k k'(1)]]]) (simp add: Exit)
  next
    case Idle
    then obtain k' where k': "thread_block ?k = Some k'" "m' = m\<lparr>ker := k'\<rparr>" using r by (auto simp: kernel_simps)
    show ?thesis by (rule plain [OF k'(2) frame_sync [OF block_ok [OF k k'(1)]]]) (simp add: Idle)
  next
    case (Create page p)
    then obtain b k' where k': "thread_create_begin page p ?k = Some (b, k')" "m' = goto (case page of Some t \<Rightarrow> Created t | None \<Rightarrow> Run) k' m"
      using r by (auto simp: kernel_simps)
    have run: "?t \<noteq> idle_thread ?k" using may Create by (simp add: free_code_def)
    show ?thesis
    proof (cases page)
      case None
      then have "act_frame a m k'" using k'(1) k by (intro frame_locks) (simp add: thread_create_begin_def)
      then show ?thesis by (rule moved [OF k'(2) _ run]) (auto simp: creating_def None)
    next
      case (Some t)
      then have i: "init_thread t p ?k = Some k'" "status (thr ?k t) = THREAD_DYING" "t \<noteq> idle_thread ?k"
        using k'(1) may Create by (auto simp: thread_create_begin_def kernel_simps)
      show ?thesis by (rule moved [OF k'(2) frame_locks [OF init_thread_ok [OF k i(2,1)]] run]) (use i(3) in \<open>auto simp: creating_def Some\<close>)
    qed
  qed
qed

lemma machine_ok_act:
  assumes ok: "machine_ok m" and may: "may a m" and r: "act a m = Some m'"
  shows "machine_ok m'"
proof -
  let ?t = "running (ker m)"
  obtain p where fr: "act_frame a m (ker m')" and n: "next_pc a m m' p" using act_effect [OF assms] by blast
  have f: "kernel_ok (ker m')" "idle_thread (ker m') = idle_thread (ker m)"
    "\<And>l. taken (ker m) l \<Longrightarrow> a \<noteq> Release l \<Longrightarrow> taken (ker m') l \<and> (holder (locks (ker m') l) = holder (locks (ker m) l) \<or> a = Resume \<and> pcs m ?t = Trying l)"
    using fr unfolding act_frame_def by blast+
  have pcs: "pcs m' = (pcs m)(?t := p)" using n by (simp add: next_pc_def)
  have rel: "a \<noteq> Release l" if "holder (locks (ker m) l) = None" for l
  proof
    assume a: "a = Release l"
    then obtain k' where "lock_release l (ker m) = Some k'" using r by (auto simp: kernel_simps)
    then show False using release_ok [OF machine_okD(1) [OF ok]] that by simp
  qed
  have tr: "holder (locks (ker m') l) = None \<and> taken (ker m') l" if u: "pcs m' u = Trying l" for u l
  proof (cases "u = ?t \<and> \<not> (pcs m ?t = Trying l \<and> a \<noteq> Resume)")
    case True
    then have "p = Trying l" using u pcs by simp
    then show ?thesis using n True by (auto simp: next_pc_def)
  next
    case False
    then have pu: "pcs m u = Trying l" using u pcs by (auto split: if_splits)
    note h = machine_okD(4,5) [OF ok pu]
    have "\<not> (a = Resume \<and> pcs m ?t = Trying l)" using False machine_okD(6) [OF ok pu, of ?t] by auto
    then show ?thesis using f(3) [OF h(2) rel [OF h(1)]] h(1) by auto
  qed
  have one: "u = v" if uv: "pcs m' u = Trying l" "pcs m' v = Trying l" for u v l
  proof -
    have q: "pcs m w = Trying l \<or> w = ?t \<and> p = Trying l" if "pcs m' w = Trying l" for w using that pcs by (auto split: if_splits)
    have no: "pcs m w \<noteq> Trying l" if "p = Trying l" "pcs m ?t \<noteq> Trying l" for w
      using n that machine_okD(5) [OF ok, of w l] by (auto simp: next_pc_def)
    show ?thesis using q [OF uv(1)] q [OF uv(2)] no machine_okD(6) [OF ok] by (metis uv pcs fun_upd_apply)
  qed
  have "pcs m' (idle_thread (ker m')) = Run" using machine_okD(2) [OF ok] n f(2) by (auto simp: next_pc_def)
  moreover have "t \<noteq> idle_thread (ker m')" if "creating (pcs m' u) = Some t" for u t
    using that n machine_okD(3) [OF ok, of u t] f(2) by (auto simp: next_pc_def split: if_splits)
  ultimately show ?thesis using f(1) tr one unfolding machine_ok_def by blast
qed

lemma reach_ok: "reach m \<Longrightarrow> machine_ok m"
proof (induction rule: reach.induct)
  case (reach_boot mlfqs)
  show ?case
    by (auto simp: machine_ok_def kernel_ok_def sched_inv_def rq_def queued_def boot_def boot_thread_def
        lock_ok_def lock_init_def sema_init_def creating_def Let_def)
next
  case (reach_act m a m')
  then show ?case using machine_ok_act by blast
qed

section \<open>A lock stays with its holder\<close>

lemma act_locks:
  assumes ok: "machine_ok m" and may: "may a m" and r: "act a m = Some m'"
    and h: "holder (locks (ker m) l) = Some t" and a: "a \<noteq> Release l"
  shows "holder (locks (ker m') l) = Some t"
proof -
  have "taken (ker m) l" using kernel_okD(2) [OF machine_okD(1) [OF ok], of l] h by (simp add: lock_ok_def taken_def)
  moreover have "pcs m (running (ker m)) \<noteq> Trying l" using machine_okD(4) [OF ok, of "running (ker m)" l] h by auto
  ultimately show ?thesis using act_effect [OF ok may r] a h unfolding act_frame_def by metis
qed

section \<open>Concrete schedules\<close>

text \<open>States of a schedule with three threads and two locks, written compactly.\<close>

definition tr :: "thread_status \<Rightarrow> int \<Rightarrow> int \<Rightarrow> nat option \<Rightarrow> nat list \<Rightarrow> thread" where
  "tr st p q w acq = \<lparr>status = st, priority = p, old_priority = q, waiting_lock = w,
     acquired_locks_list = acq, recent_cpu = 0, nice = 0\<rparr>"

definition lk :: "nat option \<Rightarrow> nat list \<Rightarrow> lock" where
  "lk h ws = \<lparr>holder = h, semaphore = \<lparr>sema_value = (if h = None then 1 else 0), sema_waiters = ws\<rparr>\<rparr>"

definition mach :: "(nat \<Rightarrow> thread) \<Rightarrow> (nat \<Rightarrow> lock) \<Rightarrow> (nat \<Rightarrow> nat list) \<Rightarrow> nat list \<Rightarrow> nat \<Rightarrow> (nat \<Rightarrow> pc) \<Rightarrow> machine" where
  "mach ts ls rl al r ps = \<lparr>ker = \<lparr>thr = ts, locks = ls, ready_list = rl, all_list = al, running = r,
     idle_thread = 1, thread_ticks = 0, idle_ticks = 0, kernel_ticks = 0, load_average = 0,
     thread_mlfqs = False, ticks = 0, sleeping_threads_list = []\<rparr>, pcs = ps\<rparr>"

definition unborn :: "nat \<Rightarrow> thread" where
  "unborn = (\<lambda>_. tr THREAD_DYING 31 31 None [])(1 := tr THREAD_BLOCKED 0 0 None [])"

lemma rev_upt_64: "rev [0..<64] = [63, 62, 61, 60, 59, 58, 57, 56, 55, 54, 53, 52, 51, 50, 49, 48, 47, 46, 45,
  44, 43, 42, 41, 40, 39, 38, 37, 36, 35, 34, 33, 32, 31, 30, 29, 28, 27, 26, 25, 24, 23, 22, 21, 20, 19, 18,
  17, 16, 15, 14, 13, 12, 11, 10, 9, 8, 7, 6, 5, 4, 3, 2, 1, 0]"
  by (simp add: upt_rec)

lemmas mach_eval = tr_def lk_def mach_def unborn_def boot_def boot_thread_def rev_upt_64 fun_eq_iff Let_def
  lock_acquire_begin_def lock_acquire_resume_def lock_release_def lock_held_by_current_thread_def
  thread_yield_def thread_block_def thread_unblock_def schedule_def next_thread_to_run_def
  max_waiter_def thread_schedule_tail_def goto_def free_code_def tid_lock_def add_ready_thread_def remove_ready_thread_def list_ex_iff requeue_def
  thread_set_quite_priority_donation_def donated_priority_def donors_def upd_thr_def upd_lock_def
  lock_init_def sema_init_def sema_down_pass_def sema_up_def thread_create_begin_def thread_create_end_def
  init_thread_def propagate_priorities.simps [of None] propagate_priorities.simps [of "Some 0"]
  propagate_priorities.simps [of "Some 2"]

abbreviation free_locks :: "nat \<Rightarrow> lock" where "free_locks \<equiv> \<lambda>_. lk None []"
abbreviation all_run :: "nat \<Rightarrow> pc" where "all_run \<equiv> \<lambda>_. Run"

text \<open>The initial thread takes locks 1 and 2 and creates a thread of priority 40.\<close>

definition sample_locks :: "nat \<Rightarrow> lock" where
  "sample_locks = free_locks(1 := lk (Some 0) [], 2 := lk (Some 0) [])"

definition sample_machine :: machine where
  "sample_machine = mach (unborn(0 := tr THREAD_READY 31 31 None [1, 2], 2 := tr THREAD_RUNNING 40 40 None []))
     sample_locks ((\<lambda>_. [])(31 := [0])) [0, 1, 2] 2 all_run"

lemma reach_two_locks: "reach (mach (unborn(0 := tr THREAD_RUNNING 31 31 None [1, 2])) sample_locks (\<lambda>_. []) [0, 1] 0 all_run)"
proof -
  let ?s0 = "mach (unborn(0 := tr THREAD_RUNNING 31 31 None [])) free_locks (\<lambda>_. []) [0, 1] 0 all_run"
  let ?s1 = "mach (unborn(0 := tr THREAD_RUNNING 31 31 (Some 1) [])) free_locks (\<lambda>_. []) [0, 1] 0
    (all_run(0 := Acquiring 1 None))"
  let ?s2 = "mach (unborn(0 := tr THREAD_RUNNING 31 31 None [1])) (free_locks(1 := lk (Some 0) [])) (\<lambda>_. []) [0, 1] 0 all_run"
  let ?s3 = "mach (unborn(0 := tr THREAD_RUNNING 31 31 (Some 2) [1])) (free_locks(1 := lk (Some 0) [])) (\<lambda>_. []) [0, 1] 0
    (all_run(0 := Acquiring 2 None))"
  have "boot False = ?s0" by (simp add: mach_eval)
  then have "reach ?s0" using reach_boot [of False] by simp
  then have "reach ?s1" by (rule reach_act [where a = "Acquire 1"]) (simp_all add: mach_eval)
  then have "reach ?s2" by (rule reach_act [where a = Resume]) (simp_all add: mach_eval)
  then have "reach ?s3" by (rule reach_act [where a = "Acquire 2"]) (simp_all add: mach_eval)
  then show ?thesis by (rule reach_act [where a = Resume]) (simp_all add: mach_eval sample_locks_def)
qed

lemma reach_sample: "reach sample_machine"
proof -
  let ?s5 = "mach (unborn(0 := tr THREAD_RUNNING 31 31 None [1, 2], 2 := tr THREAD_BLOCKED 40 40 None []))
    sample_locks (\<lambda>_. []) [0, 1, 2] 0 (all_run(0 := Created 2))"
  let ?s6 = "mach (unborn(0 := tr THREAD_RUNNING 31 31 (Some 0) [1, 2], 2 := tr THREAD_BLOCKED 40 40 None []))
    sample_locks (\<lambda>_. []) [0, 1, 2] 0 (all_run(0 := Allocating 2 None))"
  let ?s7 = "mach (unborn(0 := tr THREAD_RUNNING 31 31 None [1, 2, 0], 2 := tr THREAD_BLOCKED 40 40 None []))
    (sample_locks(0 := lk (Some 0) [])) (\<lambda>_. []) [0, 1, 2] 0 (all_run(0 := Allocated 2))"
  let ?s8 = "mach (unborn(0 := tr THREAD_RUNNING 31 31 None [1, 2], 2 := tr THREAD_BLOCKED 40 40 None []))
    sample_locks (\<lambda>_. []) [0, 1, 2] 0 (all_run(0 := Starting 2))"
  let ?s9 = "mach (unborn(0 := tr THREAD_RUNNING 31 31 None [1, 2], 2 := tr THREAD_READY 40 40 None []))
    sample_locks ((\<lambda>_. [])(40 := [2])) [0, 1, 2] 0 (all_run(0 := Started 2))"
  note ev = mach_eval sample_locks_def
  have "reach ?s5" by (rule reach_act [OF reach_two_locks, where a = "Create (Some 2) 40"]) (simp_all add: ev)
  then have "reach ?s6" by (rule reach_act [where a = "Acquire 0"]) (simp_all add: ev)
  then have "reach ?s7" by (rule reach_act [where a = Resume]) (simp_all add: ev)
  then have "reach ?s8" by (rule reach_act [where a = "Release 0"]) (simp_all add: ev)
  then have "reach ?s9" by (rule reach_act [where a = Resume]) (simp_all add: ev)
  then show ?thesis unfolding sample_machine_def by (rule reach_act [where a = Resume]) (simp_all add: ev)
qed

section \<open>What the scheduler guarantees\<close>

text \<open>(C2) The ready queues. In every state the kernel can reach, exactly one thread is running, every
  ready thread but the idle thread is in exactly one ready queue, the one of its current priority,
  exactly once, and the queues hold nothing else, whatever priorities were donated, set or
  recomputed on the way.\<close>

theorem ready_queues_correct:
  assumes "reach m"
  shows "(\<forall>t. status (thr (ker m) t) = THREAD_RUNNING \<longleftrightarrow> t = running (ker m))
    \<and> (\<forall>i<64. distinct (ready_list (ker m) i)
        \<and> (\<forall>t. t \<in> set (ready_list (ker m) i) \<longleftrightarrow>
             status (thr (ker m) t) = THREAD_READY \<and> t \<noteq> idle_thread (ker m) \<and> priority (thr (ker m) t) = int i))
    \<and> (\<forall>t. status (thr (ker m) t) = THREAD_READY \<and> t \<noteq> idle_thread (ker m) \<longrightarrow>
         0 \<le> priority (thr (ker m) t) \<and> priority (thr (ker m) t) < 64)"
  using reach_ok [OF assms] unfolding machine_ok_def kernel_ok_def sched_inv_def rq_def queued_def by simp

theorem ready_queues_correct_witness:
  "\<exists>m. reach m \<and> (\<forall>t. status (thr (ker m) t) = THREAD_RUNNING \<longleftrightarrow> t = running (ker m)) \<and> running (ker m) = 2"
proof -
  have "running (ker sample_machine) = 2" by (simp add: sample_machine_def mach_def)
  with ready_queues_correct [OF reach_sample] reach_sample show ?thesis by blast
qed

text \<open>(C8) The highest priority runs. When the running thread blocks, the scheduler always finds a
  successor, and it is a ready thread of the highest priority, the longest waiting one of its queue;
  the idle thread runs exactly when no other thread is ready.\<close>

theorem highest_priority_runs:
  assumes "reach m"
  shows "\<exists>k'. thread_block (ker m) = Some k' \<and> sched_inv k'
    \<and> (if queued (ker m) = {} then running k' = idle_thread (ker m)
       else running k' \<in> queued (ker m)
         \<and> (\<forall>u\<in>queued (ker m). priority (thr (ker m) u) \<le> priority (thr (ker m) (running k')))
         \<and> running k' = hd (ready_list (ker m) (nat (priority (thr (ker m) (running k'))))))"
proof -
  let ?k = "ker m" and ?k1 = "set_status (running (ker m)) THREAD_BLOCKED (ker m)"
  have inv: "sched_inv ?k" using reach_ok [OF assms] by (simp add: machine_ok_def kernel_ok_def)
  have q: "queued ?k1 = queued ?k" using sched_invD(3) [OF inv] by (auto simp: queued_def)
  have rq: "rq ?k1 (queued ?k1)" unfolding q by (rule rq_cong [OF sched_invD(1) [OF inv]]) auto
  have none: "status (thr ?k1 t) \<noteq> THREAD_RUNNING" for t using sched_invD(2) [OF inv, of t] by auto
  have p: "priority (thr ?k1 u) = priority (thr ?k u)" for u by simp
  obtain k' where k': "schedule ?k1 = Some k'" "sched_inv k'"
    "if queued ?k1 = {} then running k' = idle_thread ?k1
       else running k' \<in> queued ?k1 \<and> (\<forall>u\<in>queued ?k1. priority (thr ?k1 u) \<le> priority (thr ?k1 (running k')))
         \<and> running k' = hd (ready_list ?k1 (nat (priority (thr ?k1 (running k')))))"
    using schedule_ok [OF rq none] by blast
  note k3 = k'(3) [unfolded q p upd_thr_simps(3,6)]
  have "thread_block ?k = Some k'" using k'(1) by (simp add: thread_block_def)
  with k'(2) k3 show ?thesis by blast
qed

theorem highest_priority_runs_witness: "\<exists>k'. thread_block (ker sample_machine) = Some k' \<and> sched_inv k'"
  using highest_priority_runs [OF reach_sample] by blast

text \<open>(C4) Mutual exclusion of locks. Once a thread holds a lock, every step of the system leaves it the
  holder, except that thread's own release of that lock: no other \<open>lock_acquire\<close> or
  \<open>lock_try_acquire\<close> of the lock succeeds in between.\<close>

theorem lock_holder_exclusive:
  assumes "reach m" and "may a m" and "act a m = Some m'" and "holder (locks (ker m) l) = Some t"
  shows "holder (locks (ker m') l) = Some t
    \<or> (a = Release l \<and> running (ker m) = t \<and> holder (locks (ker m') l) = None)"
proof (cases "a = Release l")
  case True
  have ok: "kernel_ok (ker m)" using reach_ok [OF assms(1)] by (simp add: machine_ok_def)
  have "lock_release l (ker m) = Some (ker m')" using assms(3) True by (auto simp: kernel_simps goto_def)
  from release_ok [OF ok this] True assms(4) show ?thesis by auto
next
  case False
  then show ?thesis using act_locks [OF reach_ok [OF assms(1)] assms(2-4)] by simp
qed

theorem lock_holder_exclusive_witness:
  "\<exists>m'. act (TryAcquire 1) sample_machine = Some m' \<and> holder (locks (ker m') 1) = Some 0"
proof -
  obtain m' where m': "act (TryAcquire 1) sample_machine = Some m'"
    by (simp add: sample_machine_def sample_locks_def mach_eval lock_try_acquire_begin_def sema_try_down_def)
  have "may (TryAcquire 1) sample_machine" "holder (locks (ker sample_machine) 1) = Some 0"
    by (simp_all add: sample_machine_def sample_locks_def mach_def lk_def free_code_def tid_lock_def)
  from lock_holder_exclusive [OF reach_sample this(1) m' this(2)] m' show ?thesis by auto
qed

text \<open>(C5) Priority donation. When the threads do not wait for each other in a circle,
  \<open>propagate_priorities\<close> ends: the thread it starts from gets the largest of its own priority, the
  donated one and those of all waiters of its locks, no holder further along the chain is left with a
  lower priority than the thread that waits for it, every other thread keeps its priority, and the
  ready queues stay right.\<close>

theorem donation_reaches_the_chain:
  fixes rank :: "nat \<Rightarrow> nat"
  assumes "sched_inv k" and "prio_ok k" and "\<not> thread_mlfqs k" and "p < 64"
    and "\<And>u h. waits_for k u h \<Longrightarrow> rank h < rank u"
    and "\<And>u. (waits_for k)\<^sup>*\<^sup>* t u \<Longrightarrow> u \<noteq> idle_thread k"
  shows "\<exists>k'. propagate_priorities (Some t) p k = Some k' \<and> sched_inv k'
    \<and> p \<le> priority (thr k' t) \<and> old_priority (thr k t) \<le> priority (thr k' t)
    \<and> (\<forall>l\<in>set (acquired_locks_list (thr k t)). \<forall>w\<in>set (sema_waiters (semaphore (locks k l))).
         priority (thr k w) \<le> priority (thr k' t))
    \<and> (\<forall>u h. (waits_for k)\<^sup>*\<^sup>* t u \<longrightarrow> waits_for k u h \<longrightarrow> priority (thr k' u) \<le> priority (thr k' h))
    \<and> (\<forall>u. \<not> (waits_for k)\<^sup>*\<^sup>* t u \<longrightarrow> thr k' u = thr k u)"
proof -
  have p: "p < int PRI_SIZE" using assms(4) by simp
  obtain k' where k': "propagate_priorities (Some t) p k = Some k'" "rq k' (queued k')" "prio_frame k k'"
      "priority (thr k' t) = donated_priority k t p"
      "\<And>u. \<not> (waits_for k)\<^sup>*\<^sup>* t u \<Longrightarrow> priority (thr k' u) = priority (thr k u)"
      "\<And>u h. (waits_for k)\<^sup>*\<^sup>* t u \<Longrightarrow> waits_for k u h \<Longrightarrow> priority (thr k' u) \<le> priority (thr k' h)"
    using propagate_chain [where rank = rank and t = t, OF sched_invD(1) [OF assms(1)] assms(2,3) p assms(5,6)] by blast
  have "thr k' u = thr k u" if "\<not> (waits_for k)\<^sup>*\<^sup>* t u" for u
  proof -
    have "thr k' u = (thr k u)\<lparr>priority := priority (thr k' u)\<rparr>" using k'(3) unfolding prio_frame_def by blast
    then show ?thesis using k'(5) [OF that] by simp
  qed
  moreover have "sched_inv k'" by (rule sched_inv_prio [OF assms(1) k'(2,3)])
  ultimately show ?thesis 
    using k' donated_bounds(1,2,5) [OF assms(2) p, where t = t] by auto
qed

text \<open>The chain of the sample: thread 2 is about to wait for lock 1, which thread 0 holds.\<close>

definition sample_wait :: kernel where
  "sample_wait = upd_thr 2 (\<lambda>r. r\<lparr>waiting_lock := Some 1\<rparr>) (ker sample_machine)"

theorem donation_reaches_the_chain_witness:
  "\<exists>k'. propagate_priorities (Some 0) 40 sample_wait = Some k' \<and> sched_inv k' \<and> 40 \<le> priority (thr k' 0)"
proof -
  have inv: "sched_inv sample_wait" unfolding sample_wait_def
    by (rule sched_inv_cong [of "ker sample_machine"])
      (use reach_ok [OF reach_sample] in \<open>auto simp: machine_ok_def kernel_ok_def\<close>)
  have thr: "thr sample_wait = unborn(0 := tr THREAD_READY 31 31 None [1, 2], 2 := tr THREAD_RUNNING 40 40 (Some 1) [])"
    by (simp add: sample_wait_def sample_machine_def mach_def tr_def fun_eq_iff)
  have rest: "locks sample_wait = sample_locks" "idle_thread sample_wait = 1" "\<not> thread_mlfqs sample_wait"
    by (simp_all add: sample_wait_def sample_machine_def mach_def)
  have w: "waits_for sample_wait u h \<longleftrightarrow> u = 2 \<and> h = 0" for u h
    by (auto simp: waits_for_def thr rest unborn_def tr_def sample_locks_def lk_def split: if_splits)
  have chain: "u \<noteq> idle_thread sample_wait" if "(waits_for sample_wait)\<^sup>*\<^sup>* 0 u" for u
    using that by (cases rule: converse_rtranclpE) (simp_all add: w rest)
  have "prio_ok sample_wait" by (simp add: prio_ok_def thr unborn_def tr_def)
  from donation_reaches_the_chain [OF inv this rest(3), of 40 id 0] w chain show ?thesis by auto
qed




text \<open>\<open>sema_up\<close> wakes the right thread: when threads wait on the semaphore, it makes ready one of
  the highest priority among them, the first in the list of those, and increments the value.\<close>

theorem sema_up_wakes_highest:
  assumes "sched_inv k" and "sema_waiters s \<noteq> []" and "idle_thread k \<notin> set (sema_waiters s)"
    and "sema_value s < 2 ^ 32 - 1" and "sema_up s k = Some (s', k')"
  shows "\<exists>us t vs. sema_waiters s = us @ t # vs \<and> sema_waiters s' = us @ vs \<and> t \<in> queued k' \<and> sched_inv k'
    \<and> (\<forall>u\<in>set us. priority (thr k u) < priority (thr k t))
    \<and> (\<forall>v\<in>set vs. priority (thr k v) \<le> priority (thr k t)) \<and> sema_value s' = sema_value s + 1"
proof -
  let ?t = "max_waiter k (sema_waiters s)"
  obtain us vs where split: "sema_waiters s = us @ ?t # vs" and lt: "\<forall>u\<in>set us. priority (thr k u) < priority (thr k ?t)"
    using max_waiter_earliest [OF assms(2), of k] by blast
  have "?t \<notin> set us" using lt by force
  then have "remove1 ?t (sema_waiters s) = us @ vs" by (subst split) (simp add: remove1_append)
  moreover have "sema_waiters s' = remove1 ?t (sema_waiters s)"
    using assms(2,5) by (auto simp: sema_up_def Let_def kernel_simps)
  moreover have "\<forall>v\<in>set vs. priority (thr k v) \<le> priority (thr k ?t)"
  proof
    fix v assume "v \<in> set vs"
    then have "v \<in> set (sema_waiters s)" by (subst split) simp
    then show "priority (thr k v) \<le> priority (thr k ?t)" by (rule max_waiter_ok(2) [OF assms(2)])
  qed
  moreover note sema_up_ok [OF assms(1,3,4,5)]
  ultimately show ?thesis using split lt assms(2) by metis
qed

theorem sema_up_wakes_highest_witness:
  "\<exists>s' k'. sema_up \<lparr>sema_value = 0, sema_waiters = [1]\<rparr> ((ker sample_machine)\<lparr>idle_thread := 9\<rparr>) = Some (s', k')
    \<and> sema_waiters s' = [] \<and> sema_value s' = 1"
proof -
  let ?k = "(ker sample_machine)\<lparr>idle_thread := 9\<rparr>" and ?s = "\<lparr>sema_value = 0, sema_waiters = [1]\<rparr>"
  have inv: "sched_inv ?k"
    by (auto simp: sched_inv_def rq_def queued_def sample_machine_def mach_def unborn_def tr_def split: if_splits)
  obtain s' k' where up: "sema_up ?s ?k = Some (s', k')"
    by (simp add: sema_up_def max_waiter_def sample_machine_def mach_eval)
  from sema_up_wakes_highest [OF inv _ _ _ up] obtain us t vs where
    "[1] = us @ t # vs" "sema_waiters s' = us @ vs" "sema_value s' = 1" by auto
  moreover from this have "us @ vs = []" by (auto simp: Cons_eq_append_conv)
  ultimately show ?thesis using up by auto
qed

text \<open>The feedback-queue formula. For a thread whose nice value and recent CPU time are in the range
  of the fixed-point format, the recomputed priority is 63 minus a quarter of the recent CPU time minus
  twice the nice value, truncated towards zero and clamped to the legal range.\<close>

theorem mlfqs_priority_formula:
  assumes "\<bar>recent_cpu r\<bar> < 2 ^ 30" and "\<bar>nice r\<bar> \<le> 20"
  shows "mlfqs_priority r = Some (max 0 (min 63 ((63 * fp - recent_cpu r sdiv 4 - 2 * nice r * fp) sdiv fp)))"
proof -
  let ?q = "recent_cpu r sdiv 4"
  have q: "\<bar>?q\<bar> \<le> 2 ^ 28" using assms(1) by (auto simp: signed_divide_int_def sgn_if)
  have d: "divideFloatsAndInts (recent_cpu r) 4 = Some ?q" by (simp add: divideFloatsAndInts_def)
  have "subtractFloats (intToFloat 63) ?q = 63 * fp - ?q"
    using q unfolding subtractFloats_def intToFloat_def by (simp add: fp_def s32_small)
  moreover have "subtractFloatsAndInts (63 * fp - ?q) (s32 (nice r * 2)) = 63 * fp - ?q - 2 * nice r * fp"
    using q assms(2) unfolding subtractFloatsAndInts_def by (simp add: fp_def s32_small)
  ultimately show ?thesis by (auto simp: mlfqs_priority_def d Let_def floatToInt_def)
qed

theorem mlfqs_priority_formula_witness:
  "mlfqs_priority \<lparr>status = THREAD_READY, priority = 0, old_priority = 0, waiting_lock = None,
     acquired_locks_list = [], recent_cpu = 40 * fp, nice = 5\<rparr> = Some 43"
proof -
  let ?r = "\<lparr>status = THREAD_READY, priority = 0, old_priority = 0, waiting_lock = None,
     acquired_locks_list = [], recent_cpu = 40 * fp, nice = 5\<rparr>"
  have "\<bar>recent_cpu ?r\<bar> < 2 ^ 30" "\<bar>nice ?r\<bar> \<le> 20" by (simp_all add: fp_def)
  from mlfqs_priority_formula [OF this] show ?thesis by (simp add: fp_def signed_divide_int_def)
qed

lemma unblock_effect:
  "thread_unblock t k = Some k1 \<Longrightarrow> thr k1 = (thr k)(t := (thr k t)\<lparr>status := THREAD_READY\<rparr>) \<and> ticks k1 = ticks k"
  by (auto simp: thread_unblock_def add_ready_thread_def Let_def)

lemma wake_up_loop_effect:
  "wake_up_loop q k = Some k' \<Longrightarrow> sorted (map fst q) \<Longrightarrow>
    sleeping_threads_list k' = filter (\<lambda>e. ticks k < fst e) q
    \<and> status (thr k' t) = (if \<exists>e\<in>set q. snd e = t \<and> fst e \<le> ticks k then THREAD_READY else status (thr k t))"
proof (induction q k rule: wake_up_loop.induct)
  case (2 w u rest k)
  show ?case
  proof (cases "w \<le> ticks k")
    case True
    then obtain k1 where k1: "thread_unblock u k = Some k1" "wake_up_loop rest k1 = Some k'"
      using 2(2) by (auto simp: kernel_simps)
    show ?thesis using 2(1) [OF True k1(1,2)] 2(3) unblock_effect [OF k1(1)] True by auto
  next
    case False
    then have k': "k' = k\<lparr>sleeping_threads_list := (w, u) # rest\<rparr>" using 2(2) by simp
    have later: "ticks k < fst e" if "e \<in> set ((w, u) # rest)" for e using 2(3) False that by auto
    then have "filter (\<lambda>e. ticks k < fst e) ((w, u) # rest) = (w, u) # rest"
      by (intro filter_True) blast
    then show ?thesis using later by (fastforce simp: k')
  qed
qed auto

lemma sleep_insert_sorted: "sorted (map fst q) \<Longrightarrow> sorted (map fst (sleep_insert w t q))"
proof (induction q)
  case (Cons e q)
  then show ?case by (cases e) (fastforce simp: sleep_insert_def dest: set_takeWhileD set_dropWhileD)
qed (simp add: sleep_insert_def)

text \<open>The alarm clock. With the sleepers in the order of their wake-up times, which inserting a new
  one keeps, \<open>wake_up_threads\<close> makes ready exactly those whose time has come and leaves the rest
  asleep in the list.\<close>

theorem wake_up_exactly_the_due:
  assumes "sorted (map fst (sleeping_threads_list k))" and "wake_up_threads k = Some k'"
  shows "sleeping_threads_list k' = filter (\<lambda>e. ticks k < fst e) (sleeping_threads_list k)
    \<and> status (thr k' t) = (if \<exists>e\<in>set (sleeping_threads_list k). snd e = t \<and> fst e \<le> ticks k
          then THREAD_READY else status (thr k t))
    \<and> sorted (map fst (sleep_insert w u (sleeping_threads_list k)))"
  using wake_up_loop_effect [OF assms(2) [unfolded wake_up_threads_def] assms(1), of t]
    sleep_insert_sorted [OF assms(1), of w u] by blast

theorem wake_up_exactly_the_due_witness:
  "\<exists>k'. wake_up_threads ((ker sample_machine)\<lparr>sleeping_threads_list := [(0, 1), (5, 3)]\<rparr>) = Some k'
    \<and> sleeping_threads_list k' = [(5, 3)] \<and> status (thr k' 1) = THREAD_READY"
proof -
  let ?k = "(ker sample_machine)\<lparr>sleeping_threads_list := [(0, 1), (5, 3)]\<rparr>"
  obtain k' where k': "wake_up_threads ?k = Some k'"
    by (simp add: wake_up_threads_def sample_machine_def mach_eval)
  have "sorted (map fst (sleeping_threads_list ?k))" by simp
  from wake_up_exactly_the_due [OF this k', of 1] k' show ?thesis
    by (simp add: sample_machine_def mach_def)
qed

end
