(* ===== verification/CachedBlock.thy ===== *)
theory CachedBlock
  imports RwLock Arith64
begin

text \<open>
  \<open>filesys/cached_block.c\<close>: the buffer cache between the file system and the disk, with the block
  layer of \<open>devices/block.c\<close> below it.

  A cache is one state; the calling thread is \<open>me\<close>. The readers-writer lock of every sector and the
  lock of every entry are part of the state, so an entry another thread holds is skipped by \<open>evict\<close>
  as in the code, and a lock that would have to be waited for makes the call \<open>None\<close>. Buffers are lists
  of bytes; a copy outside a sector is \<open>None\<close>.
\<close>

section \<open>Block devices\<close>

definition BLOCK_SECTOR_SIZE :: nat where
  "BLOCK_SECTOR_SIZE = 512"

record block =
  sectors :: "byte list list"
  read_cnt :: nat
  write_cnt :: nat

definition block_size :: "block \<Rightarrow> nat" where
  "block_size b = length (sectors b)"

definition check_sector :: "block \<Rightarrow> nat \<Rightarrow> unit option" where
  "check_sector b sector = kassert (sector < block_size b)"

definition block_read :: "block \<Rightarrow> nat \<Rightarrow> (byte list \<times> block) option" where
  "block_read b sector =
     do { check_sector b sector; Some (sectors b ! sector, b\<lparr>read_cnt := read_cnt b + 1\<rparr>) }"

definition block_write :: "block \<Rightarrow> nat \<Rightarrow> byte list \<Rightarrow> block option" where
  "block_write b sector buffer =
     do { check_sector b sector;
          kassert (BLOCK_SECTOR_SIZE \<le> length buffer);
          Some (b\<lparr>sectors := (sectors b)[sector := take BLOCK_SECTOR_SIZE buffer], write_cnt := write_cnt b + 1\<rparr>) }"

section \<open>The cache\<close>

definition SECTOR_NUM :: nat where
  "SECTOR_NUM = 8 * 1024 * 1024 div BLOCK_SECTOR_SIZE"

definition QUEUE_N :: nat where
  "QUEUE_N = 20"

record cache_entry =
  data :: "byte list"
  e_lock :: "nat option"
  e_holder :: int
  dirty :: "16 word"
  accessed :: "16 word"

record cached_block =
  dev :: block
  entries :: "cache_entry list"
  addr :: "nat \<Rightarrow> int"
  locks :: "nat \<Rightarrow> rw_lock"
  wants_write :: "nat \<Rightarrow> bool"
  queue_e :: nat
  queue_s :: nat
  queue :: "nat list"
  evict_I :: int

definition s8 :: "int \<Rightarrow> int" where
  "s8 x = (x + 2 ^ 7) mod 2 ^ 8 - 2 ^ 7"

definition upd_entry :: "nat \<Rightarrow> (cache_entry \<Rightarrow> cache_entry) \<Rightarrow> cached_block \<Rightarrow> cached_block" where
  "upd_entry i f c = c\<lparr>entries := (entries c)[i := f (entries c ! i)]\<rparr>"

definition upd_rw :: "nat \<Rightarrow> rw_lock \<Rightarrow> cached_block \<Rightarrow> cached_block" where
  "upd_rw s l c = c\<lparr>locks := (locks c)(s := l)\<rparr>"

text \<open>Taking and releasing the lock of a sector.\<close>

definition got :: "nat \<Rightarrow> cached_block \<Rightarrow> attempt option \<Rightarrow> cached_block option" where
  "got s c a = (case a of Some (Acquired l) \<Rightarrow> Some (upd_rw s l c) | _ \<Rightarrow> None)"

definition r_acquire :: "nat \<Rightarrow> nat \<Rightarrow> cached_block \<Rightarrow> cached_block option" where
  "r_acquire me s c = got s c (r_lock_acquire me (locks c s))"

definition r_upgrade :: "nat \<Rightarrow> nat \<Rightarrow> cached_block \<Rightarrow> cached_block option" where
  "r_upgrade me s c = got s c (r_lock_upgrade_to_w me (locks c s))"

definition rw_release :: "nat \<Rightarrow> bool \<Rightarrow> nat \<Rightarrow> cached_block \<Rightarrow> cached_block option" where
  "rw_release me upgraded s c =
     do {
       (woken, l) \<leftarrow> (if upgraded then w_lock_release me (wants_write c) (locks c s)
                      else r_lock_release (wants_write c) (locks c s));
       Some (upd_rw s l c)
     }"

definition fflush_single :: "nat \<Rightarrow> cached_block \<Rightarrow> cached_block option" where
  "fflush_single i c =
     do {
       let dirty_num = dirty (entries c ! i);
       let c = upd_entry i (\<lambda>e. e\<lparr>dirty := 0\<rparr>) c;
       if dirty_num \<noteq> 0
       then do {
         kassert (0 \<le> e_holder (entries c ! i));
         d \<leftarrow> block_write (dev c) (nat (e_holder (entries c ! i))) (data (entries c ! i));
         Some (upd_entry i (\<lambda>e. e\<lparr>dirty := 1\<rparr>) (c\<lparr>dev := d\<rparr>))
       }
       else Some c
     }"

definition fflush_all :: "nat \<Rightarrow> cached_block \<Rightarrow> cached_block option" where
  "fflush_all me c =
     mfold (\<lambda>i c. do {
         kassert (e_lock (entries c ! i) = None);
         let c = upd_entry i (\<lambda>e. e\<lparr>e_lock := Some me\<rparr>) c;
         c \<leftarrow> (if e_holder (entries c ! i) \<noteq> - 1 then fflush_single i c else Some c);
         Some (upd_entry i (\<lambda>e. e\<lparr>e_lock := None\<rparr>) c)
       }) [0..<length (entries c)] c"

text \<open>One pass of the inner loop of \<open>evict\<close>: the entry it looks at, and what it does with it.
  \<open>Some (Some i, c)\<close> is the return of entry \<open>i\<close>, whose lock is then held, \<open>Some (None, c)\<close> that the
  loop goes on.\<close>

definition evict_index :: "cached_block \<Rightarrow> nat" where
  "evict_index c =
     (let rnd = evict_I c smod int (length (entries c))
      in nat (if rnd < 0 then rnd + int (length (entries c)) else rnd))"

definition evict_try :: "nat \<Rightarrow> nat \<Rightarrow> cached_block \<Rightarrow> (nat option \<times> cached_block) option" where
  "evict_try me rnd c =
     do {
       if e_lock (entries c ! rnd) \<noteq> None then Some (None, c)
       else do {
         let c = upd_entry rnd (\<lambda>e. e\<lparr>e_lock := Some me\<rparr>) c;
         let holder = e_holder (entries c ! rnd);
         if holder = - 1 then Some (Some rnd, c)
         else do {
           kassert (0 \<le> holder);
           case w_try_lock_acquire me (locks c (nat holder)) of
             (False, _) \<Rightarrow> Some (None, upd_entry rnd (\<lambda>e. e\<lparr>e_lock := None\<rparr>) c)
           | (True, l) \<Rightarrow> do {
               let c = upd_rw (nat holder) l c;
               if accessed (entries c ! rnd) = 0
               then do {
                 c \<leftarrow> fflush_single rnd c;
                 let c = c\<lparr>addr := (addr c)(nat holder := - 1)\<rparr>;
                 let c = upd_entry rnd (\<lambda>e. e\<lparr>e_holder := - 1\<rparr>) c;
                 c \<leftarrow> rw_release me True (nat holder) c;
                 Some (Some rnd, c)
               }
               else do {
                 let c = upd_entry rnd (\<lambda>e. e\<lparr>accessed := 0\<rparr>) c;
                 c \<leftarrow> rw_release me True (nat holder) c;
                 Some (None, upd_entry rnd (\<lambda>e. e\<lparr>e_lock := None\<rparr>) c)
               }
             }
         }
       }
     }"

definition evict_pass :: "nat \<Rightarrow> cached_block \<Rightarrow> (nat option \<times> cached_block) option" where
  "evict_pass me c = evict_try me (evict_index c) (c\<lparr>evict_I := s32 (evict_I c + 1)\<rparr>)"

fun evict_loop :: "nat \<Rightarrow> nat \<Rightarrow> cached_block \<Rightarrow> (nat option \<times> cached_block) option" where
  "evict_loop me 0 c = Some (None, c)"
| "evict_loop me (Suc n) c =
     do {
       (r, c) \<leftarrow> evict_pass me c;
       case r of Some i \<Rightarrow> Some (Some i, c) | None \<Rightarrow> evict_loop me n c
     }"

definition evict :: "nat \<Rightarrow> cached_block \<Rightarrow> (nat option \<times> cached_block) option" where
  "evict me c = evict_loop me (2 * length (entries c)) c"

text \<open>Bringing a sector into the entry \<open>evict\<close> returned, the same in all three callers.\<close>

definition load :: "nat \<Rightarrow> nat \<Rightarrow> nat \<Rightarrow> cached_block \<Rightarrow> cached_block option" where
  "load me sector i c =
     do {
       kassert (addr c sector = - 1);
       kassert (e_holder (entries c ! i) = - 1);
       let c = c\<lparr>addr := (addr c)(sector := s8 (int i))\<rparr>;
       let c = upd_entry i (\<lambda>e. e\<lparr>e_holder := int sector\<rparr>) c;
       kassert (e_lock (entries c ! i) = Some me);
       let c = upd_entry i (\<lambda>e. e\<lparr>e_lock := None\<rparr>) c;
       (buf, d) \<leftarrow> block_read (dev c) sector;
       Some (upd_entry i (\<lambda>e. e\<lparr>data := buf\<rparr>) (c\<lparr>dev := d\<rparr>))
     }"

text \<open>The two copies of a segment.\<close>

definition segment :: "nat \<Rightarrow> nat \<Rightarrow> byte list \<Rightarrow> byte list" where
  "segment s e xs = take (e - s) (drop s xs)"

definition patch :: "nat \<Rightarrow> nat \<Rightarrow> byte list \<Rightarrow> byte list \<Rightarrow> byte list" where
  "patch s e buf xs = take s xs @ take (e - s) buf @ drop e xs"

definition read_hit :: "nat \<Rightarrow> nat \<Rightarrow> nat \<Rightarrow> cached_block \<Rightarrow> byte list \<times> cached_block" where
  "read_hit i s e c = (segment s e (data (entries c ! i)), upd_entry i (\<lambda>n. n\<lparr>accessed := accessed n + 1\<rparr>) c)"

definition write_hit :: "nat \<Rightarrow> nat \<Rightarrow> nat \<Rightarrow> byte list \<Rightarrow> cached_block \<Rightarrow> cached_block" where
  "write_hit i s e buf c =
     upd_entry i (\<lambda>n. n\<lparr>data := patch s e buf (data n), dirty := dirty n + 1, accessed := accessed n + 1\<rparr>) c"

text \<open>The parameter \<open>mem\<close> tells whether the \<open>malloc\<close> of a bounce buffer succeeds; its result is used
  unchecked.\<close>

definition cached_block_read_segment ::
  "bool \<Rightarrow> nat \<Rightarrow> nat \<Rightarrow> nat \<Rightarrow> nat \<Rightarrow> cached_block \<Rightarrow> (byte list \<times> cached_block) option" where
  "cached_block_read_segment mem me sector s e c =
     do {
       kassert (s < e);
       kassert (sector < SECTOR_NUM \<and> e \<le> BLOCK_SECTOR_SIZE);
       c \<leftarrow> r_acquire me sector c;
       (upgraded, buf, c) \<leftarrow>
         (if addr c sector \<noteq> - 1
          then Some (False, read_hit (nat (addr c sector)) s e c)
          else do {
            c \<leftarrow> r_upgrade me sector c;
            if addr c sector \<noteq> - 1 then Some (True, read_hit (nat (addr c sector)) s e c)
            else do {
              (r, c) \<leftarrow> evict me c;
              case r of
                Some i \<Rightarrow> do { c \<leftarrow> load me sector i c; Some (True, read_hit i s e c) }
              | None \<Rightarrow>
                  if s = 0 \<and> e = BLOCK_SECTOR_SIZE
                  then do { (buf, d) \<leftarrow> block_read (dev c) sector; Some (True, buf, c\<lparr>dev := d\<rparr>) }
                  else do {
                    kassert mem;
                    (buf, d) \<leftarrow> block_read (dev c) sector;
                    Some (True, segment s e buf, c\<lparr>dev := d\<rparr>)
                  }
            }
          });
       c \<leftarrow> rw_release me upgraded sector c;
       let c = (if sector + 1 < block_size (dev c)
                then c\<lparr>queue := (queue c)[queue_e c mod QUEUE_N := (sector + 1) mod 2 ^ 16], queue_e := u64 (queue_e c + 1)\<rparr>
                else c);
       Some (buf, c)
     }"

definition cached_block_read :: "bool \<Rightarrow> nat \<Rightarrow> nat \<Rightarrow> cached_block \<Rightarrow> (byte list \<times> cached_block) option" where
  "cached_block_read mem me sector c =
     do { kassert (sector < SECTOR_NUM); cached_block_read_segment mem me sector 0 BLOCK_SECTOR_SIZE c }"

definition cached_block_write_segment ::
  "bool \<Rightarrow> nat \<Rightarrow> nat \<Rightarrow> nat \<Rightarrow> nat \<Rightarrow> byte list \<Rightarrow> byte list option \<Rightarrow> cached_block \<Rightarrow> cached_block option" where
  "cached_block_write_segment mem me sector s e buffer full_buffer c =
     do {
       let full_buffer = (if s = 0 \<and> e = BLOCK_SECTOR_SIZE then Some buffer else full_buffer);
       kassert (s \<le> e \<and> e - s \<le> length buffer \<and> sector < SECTOR_NUM \<and> e \<le> BLOCK_SECTOR_SIZE);
       c \<leftarrow> r_acquire me sector c;
       (upgraded, c) \<leftarrow>
         (if addr c sector \<noteq> - 1
          then Some (False, write_hit (nat (addr c sector)) s e buffer c)
          else do {
            c \<leftarrow> r_upgrade me sector c;
            if addr c sector \<noteq> - 1 then Some (True, write_hit (nat (addr c sector)) s e buffer c)
            else do {
              (r, c) \<leftarrow> evict me c;
              case r of
                Some i \<Rightarrow> do { c \<leftarrow> load me sector i c; Some (True, write_hit i s e buffer c) }
              | None \<Rightarrow>
                  (case full_buffer of
                     Some fb \<Rightarrow> do { d \<leftarrow> block_write (dev c) sector fb; Some (True, c\<lparr>dev := d\<rparr>) }
                   | None \<Rightarrow> do {
                       kassert mem;
                       (buf, d) \<leftarrow> block_read (dev c) sector;
                       d \<leftarrow> block_write d sector (patch s e buffer buf);
                       Some (True, c\<lparr>dev := d\<rparr>)
                     })
            }
          });
       rw_release me upgraded sector c
     }"

definition cached_block_write :: "bool \<Rightarrow> nat \<Rightarrow> nat \<Rightarrow> byte list \<Rightarrow> cached_block \<Rightarrow> cached_block option" where
  "cached_block_write mem me sector buffer c =
     do { kassert (sector < SECTOR_NUM);
          cached_block_write_segment mem me sector 0 BLOCK_SECTOR_SIZE buffer None c }"

definition cached_block_size :: "cached_block \<Rightarrow> nat" where
  "cached_block_size c = block_size (dev c)"

text \<open>Read-ahead, and the part of \<open>fflusher\<close> that empties its queue: the queue is read at \<open>queue_s\<close>
  without a reduction modulo its length.\<close>

definition read_ahead :: "nat \<Rightarrow> nat \<Rightarrow> cached_block \<Rightarrow> cached_block option" where
  "read_ahead me sector c =
     do {
       c \<leftarrow> r_acquire me sector c;
       (upgraded, c) \<leftarrow>
         (if addr c sector \<noteq> - 1 then Some (False, c)
          else do {
            c \<leftarrow> r_upgrade me sector c;
            if addr c sector \<noteq> - 1 then Some (True, c)
            else do {
              (r, c) \<leftarrow> evict me c;
              case r of Some i \<Rightarrow> do { c \<leftarrow> load me sector i c; Some (True, c) } | None \<Rightarrow> Some (True, c)
            }
          });
       rw_release me upgraded sector c
     }"

definition fflusher_step :: "nat \<Rightarrow> cached_block \<Rightarrow> cached_block option" where
  "fflusher_step me c =
     (if queue_s c < queue_e c
      then do {
        kassert (queue_s c < length (queue c));
        let get = queue c ! queue_s c;
        let c = c\<lparr>queue_s := u64 (queue_s c + 1)\<rparr>;
        if get < cached_block_size c
        then do { c \<leftarrow> read_ahead me (get mod QUEUE_N) c; Some (c\<lparr>queue_s := u64 (queue_s c + 1)\<rparr>) }
        else Some c
      }
      else Some c)"

text \<open>The allocations of \<open>cached_block_init\<close> are taken to succeed; \<open>junk\<close> is what \<open>malloc\<close> left in
  the read-ahead queue.\<close>

definition cached_block_init :: "nat list \<Rightarrow> block \<Rightarrow> nat \<Rightarrow> cached_block" where
  "cached_block_init junk b buffer_elem =
     \<lparr>dev = b,
      entries = replicate buffer_elem
        \<lparr>data = replicate BLOCK_SECTOR_SIZE 0, e_lock = None, e_holder = - 1, dirty = 0, accessed = 0\<rparr>,
      addr = (\<lambda>_. - 1), locks = (\<lambda>_. rw_lock_init), wants_write = (\<lambda>_. False),
      queue_e = 0, queue_s = 0, queue = junk, evict_I = 0\<rparr>"

section \<open>What a cache stands for\<close>

text \<open>\<open>view c s\<close>: the contents of sector \<open>s\<close> as the file system sees them.\<close>

definition view :: "cached_block \<Rightarrow> nat \<Rightarrow> byte list" where
  "view c s = (if addr c s = - 1 then sectors (dev c) ! s else data (entries c ! nat (addr c s)))"

definition entry_ok :: "cached_block \<Rightarrow> nat \<Rightarrow> bool" where
  "entry_ok c i \<longleftrightarrow> length (data (entries c ! i)) = BLOCK_SECTOR_SIZE
     \<and> (e_holder (entries c ! i) \<noteq> - 1 \<longrightarrow>
          0 \<le> e_holder (entries c ! i) \<and> nat (e_holder (entries c ! i)) < block_size (dev c)
          \<and> addr c (nat (e_holder (entries c ! i))) = int i
          \<and> (dirty (entries c ! i) = 0 \<longrightarrow> data (entries c ! i) = sectors (dev c) ! nat (e_holder (entries c ! i))))"

definition addr_ok :: "cached_block \<Rightarrow> nat \<Rightarrow> bool" where
  "addr_ok c s \<longleftrightarrow> addr c s = - 1 \<or> (0 \<le> addr c s \<and> nat (addr c s) < length (entries c)
     \<and> e_holder (entries c ! nat (addr c s)) = int s)"

definition cinv :: "cached_block \<Rightarrow> bool" where
  "cinv c \<longleftrightarrow> length (entries c) \<le> 127 \<and> block_size (dev c) \<le> SECTOR_NUM
     \<and> (\<forall>s<block_size (dev c). length (sectors (dev c) ! s) = BLOCK_SECTOR_SIZE)
     \<and> (\<forall>i<length (entries c). entry_ok c i) \<and> (\<forall>s. addr_ok c s)"

text \<open>The 16-bit dirty counters do not wrap around to zero within the next \<open>n\<close> writes.\<close>

definition budget :: "nat \<Rightarrow> cached_block \<Rightarrow> bool" where
  "budget n c \<longleftrightarrow> n < 2 ^ 16 - 1 \<and> (\<forall>i<length (entries c). unat (dirty (entries c ! i)) + n < 2 ^ 16)"

definition keeps :: "cached_block \<Rightarrow> cached_block \<Rightarrow> bool" where
  "keeps c c' \<longleftrightarrow> cinv c' \<and> view c' = view c \<and> length (entries c') = length (entries c)
     \<and> block_size (dev c') = block_size (dev c) \<and> wants_write c' = wants_write c \<and> (\<forall>n. budget n c \<longrightarrow> budget n c')"

lemma keeps_trans: "keeps a b \<Longrightarrow> keeps b c \<Longrightarrow> keeps a c"
  by (simp add: keeps_def)

lemma keeps_refl: "cinv c \<Longrightarrow> keeps c c"
  by (simp add: keeps_def)

lemma upd_entry_simps [simp]:
  "length (entries (upd_entry i f c)) = length (entries c)" "dev (upd_entry i f c) = dev c"
  "addr (upd_entry i f c) = addr c" "locks (upd_entry i f c) = locks c"
  "wants_write (upd_entry i f c) = wants_write c" "evict_I (upd_entry i f c) = evict_I c"
  "queue (upd_entry i f c) = queue c" "queue_e (upd_entry i f c) = queue_e c" "queue_s (upd_entry i f c) = queue_s c"
  by (simp_all add: upd_entry_def)

lemma upd_entry_nth [simp]:
  "i < length (entries c) \<Longrightarrow> entries (upd_entry i f c) ! j = (if j = i then f (entries c ! i) else entries c ! j)"
  by (simp add: upd_entry_def)

lemma upd_rw_simps [simp]:
  "entries (upd_rw s l c) = entries c" "dev (upd_rw s l c) = dev c" "addr (upd_rw s l c) = addr c"
  "locks (upd_rw s l c) = (locks c)(s := l)" "wants_write (upd_rw s l c) = wants_write c"
  "evict_I (upd_rw s l c) = evict_I c"
  "queue (upd_rw s l c) = queue c" "queue_e (upd_rw s l c) = queue_e c"
  by (simp_all add: upd_rw_def)

lemma cinvD:
  assumes "cinv c"
  shows "i < length (entries c) \<Longrightarrow> entry_ok c i" "addr_ok c s" "length (entries c) \<le> 127"
    "s < block_size (dev c) \<Longrightarrow> length (sectors (dev c) ! s) = BLOCK_SECTOR_SIZE" "block_size (dev c) \<le> SECTOR_NUM"
  using assms unfolding cinv_def by blast+

text \<open>Changes the invariant and the view do not see.\<close>

lemma keeps_same:
  assumes "cinv c" and "length (entries c') = length (entries c)" "dev c' = dev c" "addr c' = addr c"
    "wants_write c' = wants_write c"
    and "\<And>i. i < length (entries c) \<Longrightarrow> data (entries c' ! i) = data (entries c ! i)
      \<and> e_holder (entries c' ! i) = e_holder (entries c ! i) \<and> dirty (entries c' ! i) = dirty (entries c ! i)"
  shows "keeps c c'"
proof -
  have "entry_ok c' i" if "i < length (entries c)" for i
    using cinvD(1) [OF assms(1) that] assms(6) [OF that] by (simp add: entry_ok_def assms)
  moreover have "addr_ok c' s" for s
    using cinvD(2) [OF assms(1), of s] assms(6) by (auto simp: addr_ok_def assms)
  ultimately have "cinv c'" using assms(1) by (simp add: cinv_def assms)
  moreover have "view c' s = view c s" for s
    using cinvD(2) [OF assms(1), of s] assms(6) by (auto simp: view_def addr_ok_def assms)
  moreover have "budget n c \<longrightarrow> budget n c'" for n using assms(6) by (simp add: budget_def assms)
  ultimately show ?thesis by (simp add: keeps_def assms fun_eq_iff)
qed

lemma fflush_single_ok:
  assumes inv: "cinv c" and i: "i < length (entries c)" and h: "e_holder (entries c ! i) \<noteq> - 1"
  defines "s \<equiv> nat (e_holder (entries c ! i))"
  shows "\<exists>c'. fflush_single i c = Some c' \<and> keeps c c' \<and> sectors (dev c') ! s = data (entries c ! i)
    \<and> addr c' = addr c \<and> locks c' = locks c \<and> evict_I c' = evict_I c
    \<and> entries c' = (entries c)[i := (entries c ! i)\<lparr>dirty := dirty (entries c' ! i)\<rparr>]
    \<and> (\<forall>t. t \<noteq> s \<longrightarrow> sectors (dev c') ! t = sectors (dev c) ! t)"
proof -
  have ok: "entry_ok c i" by (rule cinvD(1) [OF inv i])
  then have s: "e_holder (entries c ! i) = int s" "s < block_size (dev c)" "addr c s = int i"
    using h by (simp_all add: entry_ok_def s_def)
  show ?thesis
  proof (cases "dirty (entries c ! i) = 0")
    case True
    let ?c = "upd_entry i (\<lambda>e. e\<lparr>dirty := 0\<rparr>) c"
    have "keeps c ?c" by (rule keeps_same [OF inv]) (use i True in auto)
    moreover have "data (entries c ! i) = sectors (dev c) ! s" using ok True s by (simp add: entry_ok_def)
    moreover have "fflush_single i c = Some ?c" using True by (simp add: fflush_single_def)
    ultimately show ?thesis using i by (auto simp: upd_entry_def)
  next
    case False
    let ?d = "(dev c)\<lparr>sectors := (sectors (dev c))[s := data (entries c ! i)], write_cnt := write_cnt (dev c) + 1\<rparr>"
    let ?e = "(entries c)[i := (entries c ! i)\<lparr>dirty := 1\<rparr>]"
    let ?c = "c\<lparr>dev := ?d, entries := ?e\<rparr>"
    have "length (data (entries c ! i)) = BLOCK_SECTOR_SIZE" using ok by (simp add: entry_ok_def)
    then have call: "fflush_single i c = Some ?c"
      using False s i by (simp add: fflush_single_def Let_def block_write_def check_sector_def upd_entry_def)
    have "entry_ok ?c j" if "j < length (entries c)" for j
    proof (cases "j = i")
      case True
      then show ?thesis using ok s i by (simp add: entry_ok_def block_size_def)
    next
      case False
      have "entry_ok c j" by (rule cinvD(1) [OF inv that])
      moreover have "nat (e_holder (entries c ! j)) \<noteq> s" if "e_holder (entries c ! j) \<noteq> - 1"
        using calculation that s(3) False by (auto simp: entry_ok_def)
      ultimately show ?thesis using False by (auto simp: entry_ok_def block_size_def)
    qed
    moreover have "addr_ok ?c t" for t
      using cinvD(2) [OF inv, of t] i by (auto simp: addr_ok_def nth_list_update)
    moreover have "length (sectors ?d ! t) = BLOCK_SECTOR_SIZE" if "t < block_size (dev c)" for t
      using cinvD(4) [OF inv that] ok that by (cases "t = s") (simp_all add: block_size_def entry_ok_def)
    ultimately have "cinv ?c" using cinvD(3,5) [OF inv] by (simp add: cinv_def block_size_def)
    moreover have "view ?c t = view c t" for t
      using cinvD(2) [OF inv, of t] s i by (cases "t = s") (auto simp: view_def addr_ok_def nth_list_update)
    ultimately have "keeps c ?c"
      using i by (auto simp: keeps_def block_size_def budget_def nth_list_update)
    then show ?thesis using call i s by (auto simp: block_size_def)
  qed
qed

section \<open>Eviction\<close>

lemma rnd_range:
  assumes "0 < n"
  shows "nat (if x smod int n < 0 then x smod int n + int n else x smod int n) < n"
proof -
  have "- int n < x smod int n" "x smod int n < int n"
    using assms smod_int_range [of "int n" x] by (auto simp: smod_int_compares)
  then show ?thesis using assms by auto
qed

text \<open>A write lock that was free is free again after its release.\<close>

lemma try_release:
  assumes "w_try_lock_acquire me l = (True, l')"
  shows "\<exists>woken l''. w_lock_release me ww l' = Some (woken, l'')"
  using assms by (cases "wake_loop ww False (waiters l')")
    (auto simp: w_try_lock_acquire_def w_lock_release_def Let_def split: if_splits prod.splits)

text \<open>Sector locks nobody held are free again.\<close>

definition stay_free :: "cached_block \<Rightarrow> cached_block \<Rightarrow> bool" where
  "stay_free c c' \<longleftrightarrow> (\<forall>s. locks c s = rw_lock_init \<longrightarrow> locks c' s = rw_lock_init)"

lemma stay_free_trans: "stay_free a b \<Longrightarrow> stay_free b c \<Longrightarrow> stay_free a c"
  by (simp add: stay_free_def)

lemma try_release_free:
  "w_try_lock_acquire me rw_lock_init = (True, l) \<Longrightarrow> w_lock_release me ww l = Some (woken, l') \<Longrightarrow> l' = rw_lock_init"
  by (auto simp: w_try_lock_acquire_def w_lock_release_def rw_lock_init_def)

text \<open>What \<open>evict\<close> promises: nothing of the view changes, sectors outside the cache stay outside and
  their locks untouched, and the entry it returns is empty and locked.\<close>

definition evicts :: "nat \<Rightarrow> cached_block \<Rightarrow> nat option \<times> cached_block \<Rightarrow> bool" where
  "evicts me c r \<longleftrightarrow> keeps c (snd r)
     \<and> (\<forall>s. addr c s = - 1 \<longrightarrow> addr (snd r) s = - 1 \<and> locks (snd r) s = locks c s)
     \<and> stay_free c (snd r)
     \<and> (\<forall>i. fst r = Some i \<longrightarrow> i < length (entries c) \<and> e_holder (entries (snd r) ! i) = - 1
          \<and> e_lock (entries (snd r) ! i) = Some me)"

lemma drop_entry_ok:
  assumes inv: "cinv c" and i: "i < length (entries c)" and h: "e_holder (entries c ! i) = int s"
    and clean: "sectors (dev c) ! s = data (entries c ! i)"
  shows "keeps c (upd_entry i (\<lambda>e. e\<lparr>e_holder := - 1\<rparr>) (c\<lparr>addr := (addr c)(s := - 1)\<rparr>))" (is "keeps c ?c")
proof -
  have s: "addr c s = int i" using cinvD(1) [OF inv i] h by (simp add: entry_ok_def)
  have other: "nat (addr c t) \<noteq> i" if "addr c t \<noteq> - 1" "t \<noteq> s" for t
    using cinvD(2) [OF inv, of t] that h by (auto simp: addr_ok_def)
  have "entry_ok ?c j" if "j < length (entries c)" for j
  proof (cases "j = i")
    case True
    then show ?thesis using cinvD(1) [OF inv i] i by (simp add: entry_ok_def)
  next
    case False
    have "entry_ok c j" by (rule cinvD(1) [OF inv that])
    moreover have "nat (e_holder (entries c ! j)) \<noteq> s" if "e_holder (entries c ! j) \<noteq> - 1"
      using calculation that s False by (auto simp: entry_ok_def)
    ultimately show ?thesis using False i by (auto simp: entry_ok_def)
  qed
  moreover have "addr_ok ?c t" for t
    using cinvD(2) [OF inv, of t] other [of t] i by (auto simp: addr_ok_def)
  ultimately have "cinv ?c" using cinvD(3-5) [OF inv] by (simp add: cinv_def)
  moreover have "view ?c t = view c t" for t
    using other [of t] clean s i by (auto simp: view_def)
  ultimately show ?thesis using i by (auto simp: keeps_def budget_def)
qed

lemma evict_try_ok:
  assumes inv: "cinv c" and i: "i < length (entries c)"
  shows "\<exists>r. evict_try me i c = Some r \<and> evicts me c r"
proof -
  define c1 where "c1 = upd_entry i (\<lambda>e. e\<lparr>e_lock := Some me\<rparr>) c"
  have f1: "length (entries c1) = length (entries c)" "addr c1 = addr c" "locks c1 = locks c" "wants_write c1 = wants_write c"
    "entries c1 ! i = (entries c ! i)\<lparr>e_lock := Some me\<rparr>" by (use i in \<open>simp_all add: c1_def\<close>)
  have k1: "keeps c c1" by (rule keeps_same [OF inv]) (use i in \<open>auto simp: c1_def\<close>)
  have unlock: "evicts me c (None, upd_entry i (\<lambda>e. e\<lparr>e_lock := None\<rparr>) d)"
    if "keeps c d" "\<forall>s. addr c s = - 1 \<longrightarrow> addr d s = - 1 \<and> locks d s = locks c s" "stay_free c d" for d
  proof -
    have "cinv d" "length (entries d) = length (entries c)" using that(1) by (simp_all add: keeps_def)
    then have "keeps d (upd_entry i (\<lambda>e. e\<lparr>e_lock := None\<rparr>) d)" using i by (intro keeps_same) auto
    with that show ?thesis by (auto simp: evicts_def stay_free_def intro: keeps_trans)
  qed
  note unfold = evict_try_def Let_def
  consider (locked) "e_lock (entries c ! i) \<noteq> None" | (empty) "e_lock (entries c ! i) = None" "e_holder (entries c ! i) = - 1"
    | (used) "e_lock (entries c ! i) = None" "e_holder (entries c ! i) \<noteq> - 1" by blast
  then show ?thesis
  proof cases
    case locked
    then have "evict_try me i c = Some (None, c)" by (simp add: unfold)
    then show ?thesis using keeps_refl [OF inv] by (simp add: evicts_def stay_free_def)
  next
    case empty
    then have "evict_try me i c = Some (Some i, c1)" by (simp add: unfold c1_def [symmetric] f1)
    then show ?thesis using k1 empty i by (simp add: evicts_def stay_free_def f1)
  next
    case used
    let ?s = "nat (e_holder (entries c ! i))"
    have s: "0 \<le> e_holder (entries c ! i)" "addr c ?s = int i"
      using cinvD(1) [OF inv i] used by (simp_all add: entry_ok_def)
    obtain b l where att: "w_try_lock_acquire me (locks c ?s) = (b, l)" by fastforce
    show ?thesis
    proof (cases b)
      case False
      then have "evict_try me i c = Some (None, upd_entry i (\<lambda>e. e\<lparr>e_lock := None\<rparr>) c1)"
        using used s att by (simp add: unfold c1_def [symmetric] f1)
      then show ?thesis using unlock [OF k1] f1 by (simp add: stay_free_def)
    next
      case True
      define c2 where "c2 = upd_rw ?s l c1"
      have f2: "entries c2 = entries c1" "addr c2 = addr c" "wants_write c2 = wants_write c" "locks c2 = (locks c)(?s := l)" "dev c2 = dev c1"
        by (simp_all add: c2_def f1)
      have "cinv c1" using k1 by (simp add: keeps_def)
      then have "keeps c1 c2" by (rule keeps_same) (simp_all add: f2 f1)
      then have k2: "keeps c c2" using k1 keeps_trans by blast
      have inv2: "cinv c2" "length (entries c2) = length (entries c)" using k2 by (simp_all add: keeps_def)
      obtain woken l' where rel: "w_lock_release me (wants_write c) l = Some (woken, l')"
        using try_release [of me "locks c ?s" l "wants_write c"] att True by auto
      have free: "stay_free c d" if "locks d = (locks c)(?s := l')" for d
        using try_release_free [of me l "wants_write c" woken l'] att True rel that by (auto simp: stay_free_def)
      show ?thesis
      proof (cases "accessed (entries c ! i) = 0")
        case True
        have h2: "e_holder (entries c2 ! i) \<noteq> - 1" "nat (e_holder (entries c2 ! i)) = ?s" using used by (simp_all add: f2 f1)
        obtain c3 where c3: "fflush_single i c2 = Some c3" "keeps c2 c3" "sectors (dev c3) ! ?s = data (entries c2 ! i)"
            "addr c3 = addr c" "locks c3 = (locks c)(?s := l)"
            and e3: "entries c3 = (entries c2)[i := (entries c2 ! i)\<lparr>dirty := dirty (entries c3 ! i)\<rparr>]"
          using fflush_single_ok [OF inv2(1), of i] i inv2(2) h2 f2 by auto
        have e3i: "entries c3 ! i = (entries c2 ! i)\<lparr>dirty := dirty (entries c3 ! i)\<rparr>"
          using i inv2(2) by (subst e3) simp
        have len3: "length (entries c3) = length (entries c)" "cinv c3" "wants_write c3 = wants_write c"
          using c3(2) inv2 f2 by (simp_all add: keeps_def)
        let ?c4 = "upd_entry i (\<lambda>e. e\<lparr>e_holder := - 1\<rparr>) (c3\<lparr>addr := (addr c3)(?s := - 1)\<rparr>)"
        have "e_holder (entries c3 ! i) = int ?s" "sectors (dev c3) ! ?s = data (entries c3 ! i)"
          using s c3(3) by (subst e3i, simp add: f2 f1)+
        then have k4: "keeps c3 ?c4" using len3 i by (intro drop_entry_ok) auto
        let ?c5 = "upd_rw ?s l' ?c4"
        have "cinv ?c4" using k4 by (simp add: keeps_def)
        then have "keeps ?c4 ?c5" by (rule keeps_same) simp_all
        then have k5: "keeps c ?c5" using k2 c3(2) k4 keeps_trans by blast
        have r: "rw_release me True ?s ?c4 = Some ?c5" using rel len3 c3(5) by (simp add: rw_release_def)
        have lk: "e_lock (entries c3 ! i) = Some me" by (subst e3i) (simp add: f2 f1)
        have "evict_try me i c = Some (Some i, ?c5)"
          using used s att \<open>b\<close> True c3(1) r
          by (simp add: unfold c1_def [symmetric] f1 c2_def [symmetric] f2)
        moreover have "evicts me c (Some i, ?c5)"
          using k5 c3(4,5) s(2) i len3(1) lk free [of ?c5] by (auto simp: evicts_def)
        ultimately show ?thesis by blast
      next
        case False
        let ?c4 = "upd_entry i (\<lambda>e. e\<lparr>accessed := 0\<rparr>) c2"
        let ?c5 = "upd_rw ?s l' ?c4"
        have "keeps c2 ?c5" using i inv2 by (intro keeps_same) auto
        then have k5: "keeps c ?c5" using k2 keeps_trans by blast
        have r: "rw_release me True ?s ?c4 = Some ?c5" using rel f2 by (simp add: rw_release_def)
        have "evict_try me i c = Some (None, upd_entry i (\<lambda>e. e\<lparr>e_lock := None\<rparr>) ?c5)"
          using used s att \<open>b\<close> False r
          by (simp add: unfold c1_def [symmetric] f1 c2_def [symmetric] f2)
        moreover have "\<forall>t. addr c t = - 1 \<longrightarrow> addr ?c5 t = - 1 \<and> locks ?c5 t = locks c t"
          using s(2) by (auto simp: f2)
        moreover have "stay_free c ?c5" by (rule free) (simp add: f2)
        ultimately show ?thesis using unlock [OF k5] by blast
      qed
    qed
  qed
qed

lemma evict_pass_ok:
  assumes inv: "cinv c" and n: "0 < length (entries c)"
  shows "\<exists>r. evict_pass me c = Some r \<and> evicts me c r"
proof -
  let ?c = "c\<lparr>evict_I := s32 (evict_I c + 1)\<rparr>"
  have k: "keeps c ?c" by (rule keeps_same [OF inv]) simp_all
  have "evict_index c < length (entries ?c)" unfolding evict_index_def Let_def using rnd_range [OF n] by simp
  from evict_try_ok [OF _ this, of me] k obtain r where "evict_try me (evict_index c) ?c = Some r" "evicts me ?c r"
    by (auto simp: keeps_def)
  then show ?thesis using keeps_trans [OF k] by (auto simp: evict_pass_def evicts_def stay_free_def)
qed

lemma evict_loop_ok: "cinv c \<Longrightarrow> 0 < length (entries c) \<or> n = 0 \<Longrightarrow> \<exists>r. evict_loop me n c = Some r \<and> evicts me c r"
proof (induction n arbitrary: c)
  case 0
  then show ?case by (simp add: evicts_def keeps_refl stay_free_def)
next
  case (Suc n)
  then have pos: "0 < length (entries c)" by simp
  obtain r where r: "evict_pass me c = Some r" "evicts me c r" using evict_pass_ok [OF Suc.prems(1) pos] by blast
  show ?case
  proof (cases "fst r")
    case (Some i)
    then show ?thesis using r by (cases r) auto
  next
    case None
    have k: "keeps c (snd r)" using r(2) by (simp add: evicts_def)
    then obtain q where q: "evict_loop me n (snd r) = Some q" "evicts me (snd r) q"
      using Suc.IH [of "snd r"] pos by (auto simp: keeps_def)
    have "evicts me c q" using q(2) r(2) keeps_trans [OF k] k stay_free_trans unfolding evicts_def by (auto simp: keeps_def)
    then show ?thesis using r(1) None q(1) by (cases r) auto
  qed
qed

lemma evict_ok: "cinv c \<Longrightarrow> \<exists>r. evict me c = Some r \<and> evicts me c r"
  unfolding evict_def by (rule evict_loop_ok) auto

section \<open>Reading and writing a sector\<close>

lemma load_ok:
  assumes inv: "cinv c" and i: "i < length (entries c)" "e_holder (entries c ! i) = - 1" "e_lock (entries c ! i) = Some me"
    and sec: "addr c sector = - 1" "sector < block_size (dev c)"
  shows "\<exists>c'. load me sector i c = Some c' \<and> keeps c c' \<and> addr c' sector = int i \<and> locks c' = locks c"
proof -
  let ?c1 = "upd_entry i (\<lambda>e. e\<lparr>e_holder := int sector, e_lock := None, data := sectors (dev c) ! sector\<rparr>)
    (c\<lparr>addr := (addr c)(sector := int i), dev := (dev c)\<lparr>read_cnt := read_cnt (dev c) + 1\<rparr>\<rparr>)"
  have i8: "s8 (int i) = int i" using cinvD(3) [OF inv] i(1) by (simp add: s8_def)
  have call: "load me sector i c = Some ?c1"
    using i sec by (simp add: load_def Let_def i8 block_read_def check_sector_def upd_entry_def)
  have nobody: "nat (e_holder (entries c ! j)) \<noteq> sector" if "j < length (entries c)" "e_holder (entries c ! j) \<noteq> - 1" for j
    using cinvD(1) [OF inv that(1)] that(2) sec(1) by (auto simp: entry_ok_def)
  have other: "nat (addr c t) \<noteq> i" if "addr c t \<noteq> - 1" for t
    using cinvD(2) [OF inv, of t] that i(2) by (auto simp: addr_ok_def)
  have "entry_ok ?c1 j" if j: "j < length (entries c)" for j
    using cinvD(1) [OF inv j] nobody [OF j] i(1) sec(2) cinvD(4) [OF inv sec(2)]
    by (cases "j = i") (auto simp: entry_ok_def block_size_def)
  moreover have "addr_ok ?c1 t" for t
    using cinvD(2) [OF inv, of t] other [of t] i(1) by (auto simp: addr_ok_def)
  ultimately have "cinv ?c1" using cinvD(3-5) [OF inv] by (simp add: cinv_def block_size_def)
  moreover have "view ?c1 t = view c t" for t using other [of t] sec(1) i(1) by (auto simp: view_def)
  ultimately have "keeps c ?c1" using i(1) by (auto simp: keeps_def block_size_def budget_def)
  then show ?thesis using call by auto
qed

lemma read_hit_ok:
  assumes inv: "cinv c" and a: "addr c sector = int i"
  shows "fst (read_hit i s e c) = segment s e (view c sector)" "keeps c (snd (read_hit i s e c))"
    "locks (snd (read_hit i s e c)) = locks c"
proof -
  have "i < length (entries c)" using cinvD(2) [OF inv, of sector] a by (auto simp: addr_ok_def)
  then show "keeps c (snd (read_hit i s e c))" unfolding read_hit_def snd_conv by (intro keeps_same [OF inv]) auto
  show "fst (read_hit i s e c) = segment s e (view c sector)" "locks (snd (read_hit i s e c)) = locks c"
    using a by (simp_all add: read_hit_def view_def)
qed

lemma length_patch: "length xs = BLOCK_SECTOR_SIZE \<Longrightarrow> s \<le> e \<Longrightarrow> e \<le> BLOCK_SECTOR_SIZE \<Longrightarrow> e - s \<le> length buf \<Longrightarrow>
    length (patch s e buf xs) = BLOCK_SECTOR_SIZE"
  by (simp add: patch_def)

text \<open>What a write promises.\<close>

definition stores :: "cached_block \<Rightarrow> nat \<Rightarrow> byte list \<Rightarrow> cached_block \<Rightarrow> bool" where
  "stores c sector bs c' \<longleftrightarrow> cinv c' \<and> view c' = (view c)(sector := bs) \<and> length (entries c') = length (entries c)
     \<and> block_size (dev c') = block_size (dev c) \<and> (\<forall>n. budget (Suc n) c \<longrightarrow> budget n c')"

lemma write_hit_ok:
  assumes inv: "cinv c" and a: "addr c sector = int i" and nw: "budget 1 c"
    and len: "s \<le> e" "e \<le> BLOCK_SECTOR_SIZE" "e - s \<le> length buf"
  shows "stores c sector (patch s e buf (view c sector)) (write_hit i s e buf c)" (is "stores c sector ?bs ?c")
    "locks (write_hit i s e buf c) = locks c" "wants_write (write_hit i s e buf c) = wants_write c"
proof -
  have i: "i < length (entries c)" "e_holder (entries c ! i) = int sector"
    using cinvD(2) [OF inv, of sector] a by (auto simp: addr_ok_def)
  have v: "view c sector = data (entries c ! i)" using a by (simp add: view_def)
  have inc: "unat (dirty (entries c ! i) + 1) = unat (dirty (entries c ! i)) + 1"
    using nw i(1) by (simp add: budget_def unat_word_ariths)
  then have d: "dirty (entries c ! i) + 1 \<noteq> 0" by (metis add_is_0 unat_0 zero_neq_one)
  have "entry_ok ?c j" if j: "j < length (entries c)" for j
    using cinvD(1) [OF inv j] i d length_patch [OF _ len]
    by (cases "j = i") (auto simp: entry_ok_def write_hit_def)
  moreover have "addr_ok ?c t" for t
    using cinvD(2) [OF inv, of t] i by (auto simp: addr_ok_def write_hit_def)
  ultimately have "cinv ?c" using cinvD(3-5) [OF inv] by (simp add: cinv_def write_hit_def)
  moreover have "view ?c t = ((view c)(sector := ?bs)) t" for t
    using cinvD(2) [OF inv, of t] i a v by (auto simp: view_def write_hit_def addr_ok_def)
  moreover have "budget n ?c" if "budget (Suc n) c" for n
    using that i(1) inc by (auto simp: budget_def write_hit_def)
  ultimately show "stores c sector ?bs ?c" by (auto simp: stores_def write_hit_def)
qed (simp_all add: write_hit_def)

text \<open>The lock of the sector: free before, free after.\<close>

abbreviation reading :: rw_lock where "reading \<equiv> rw_lock_init\<lparr>level := 1\<rparr>"
abbreviation writing :: "nat \<Rightarrow> rw_lock" where "writing me \<equiv> rw_lock_init\<lparr>w_holder := Some me\<rparr>"

lemma lock_moves [simp]:
  "locks c s = rw_lock_init \<Longrightarrow> r_acquire me s c = Some (upd_rw s reading c)"
  "locks c s = reading \<Longrightarrow> r_upgrade me s c = Some (upd_rw s (writing me) c)"
  "locks c s = reading \<Longrightarrow> rw_release me False s c = Some (upd_rw s rw_lock_init c)"
  "locks c s = writing me \<Longrightarrow> rw_release me True s c = Some (upd_rw s rw_lock_init c)"
  by (simp_all add: r_acquire_def r_upgrade_def rw_release_def got_def r_lock_acquire_def r_attempt_def
      r_lock_upgrade_to_w_def w_attempt_def r_lock_release_def w_lock_release_def rw_lock_init_def)

lemma keeps_upd_rw: "cinv c \<Longrightarrow> keeps c (upd_rw s l c)"
  by (rule keeps_same) simp_all

lemma keepsD: "keeps c c' \<Longrightarrow> cinv c'" "keeps c c' \<Longrightarrow> view c' = view c"
  "keeps c c' \<Longrightarrow> length (entries c') = length (entries c)" "keeps c c' \<Longrightarrow> block_size (dev c') = block_size (dev c)"
  "keeps c c' \<Longrightarrow> budget n c \<Longrightarrow> budget n c'" "keeps c c' \<Longrightarrow> wants_write c' = wants_write c"
  by (simp_all add: keeps_def)

text \<open>After a miss, with the lock of the sector held for writing: \<open>evict\<close> finds an entry and the sector
  is loaded into it, or it finds none and the sector is on the disk only.\<close>

lemma miss_ok:
  assumes inv: "cinv c" and a: "addr c sector = - 1" and s: "sector < block_size (dev c)" and l: "locks c sector = l"
  shows "\<exists>r c'. evict me c = Some (r, c') \<and> keeps c c' \<and> locks c' sector = l \<and> addr c' sector = - 1 \<and> stay_free c c'
    \<and> (case r of None \<Rightarrow> True | Some i \<Rightarrow>
         \<exists>c''. load me sector i c' = Some c'' \<and> keeps c c'' \<and> addr c'' sector = int i \<and> locks c'' sector = l \<and> stay_free c c'')"
proof -
  obtain r c' where e: "evict me c = Some (r, c')" "evicts me c (r, c')" using evict_ok [OF inv] by fastforce
  then have k: "keeps c c'" and f: "addr c' sector = - 1" "locks c' sector = l" "stay_free c c'"
    using a l by (auto simp: evicts_def)
  have "\<exists>c''. load me sector i c' = Some c'' \<and> keeps c c'' \<and> addr c'' sector = int i \<and> locks c'' sector = l \<and> stay_free c c''"
    if "r = Some i" for i
  proof -
    have i: "i < length (entries c')" "e_holder (entries c' ! i) = - 1" "e_lock (entries c' ! i) = Some me"
      using e(2) that keepsD(3) [OF k] by (auto simp: evicts_def)
    have "sector < block_size (dev c')" using s keepsD(4) [OF k] by simp
    from load_ok [OF keepsD(1) [OF k] i f(1) this] show ?thesis using f keeps_trans [OF k] by (auto simp: stay_free_def)
  qed
  with e(1) k f show ?thesis by (auto split: option.splits)
qed

lemma segment_all: "length xs = BLOCK_SECTOR_SIZE \<Longrightarrow> segment 0 BLOCK_SECTOR_SIZE xs = xs"
  by (simp add: segment_def)

lemma read_segment_ok:
  assumes inv: "cinv c" and lock: "locks c sector = rw_lock_init"
    and seg: "s < e" "e \<le> BLOCK_SECTOR_SIZE" "sector < block_size (dev c)" and mem: "mem \<or> s = 0 \<and> e = BLOCK_SECTOR_SIZE"
  shows "\<exists>c'. cached_block_read_segment mem me sector s e c = Some (segment s e (view c sector), c') \<and> keeps c c'
    \<and> locks c' sector = rw_lock_init \<and> stay_free c c'"
proof -
  let ?c1 = "upd_rw sector reading c" and ?c2 = "upd_rw sector (writing me) (upd_rw sector reading c)"
  let ?bs = "segment s e (view c sector)"
  have num: "sector < SECTOR_NUM" using seg(3) cinvD(5) [OF inv] by simp
  have k1: "keeps c ?c1" by (rule keeps_upd_rw [OF inv])
  have k2: "keeps c ?c2" using k1 keeps_upd_rw [OF keepsD(1) [OF k1]] keeps_trans by blast
  have fin: "\<exists>c'. (do { c \<leftarrow> rw_release me up sector d;
       let c = (if sector + 1 < block_size (dev c)
                then c\<lparr>queue := (queue c)[queue_e c mod QUEUE_N := (sector + 1) mod 2 ^ 16], queue_e := u64 (queue_e c + 1)\<rparr>
                else c);
       Some (?bs, c) }) = Some (?bs, c') \<and> keeps c c' \<and> locks c' sector = rw_lock_init \<and> stay_free c c'"
    if d: "keeps c d" "locks d sector = (if up then writing me else reading)"
      "stay_free (upd_rw sector l c) d" for up d l
  proof -
    let ?d = "upd_rw sector rw_lock_init d"
    have r: "rw_release me up sector d = Some ?d" using d(2) by (cases up) simp_all
    have kd: "keeps c ?d" using d(1) keeps_upd_rw [OF keepsD(1) [OF d(1)]] keeps_trans by blast
    let ?q = "?d\<lparr>queue := (queue ?d)[queue_e ?d mod QUEUE_N := (sector + 1) mod 2 ^ 16], queue_e := u64 (queue_e ?d + 1)\<rparr>"
    have "keeps ?d ?q" by (rule keeps_same [OF keepsD(1) [OF kd]]) simp_all
    then have "keeps c ?q" using kd keeps_trans by blast
    then show ?thesis using r kd d(3) by (auto simp: Let_def stay_free_def)
  qed
  show ?thesis
  proof (cases "addr c sector = - 1")
    case False
    then have "addr ?c1 sector = int (nat (addr c sector))" using cinvD(2) [OF inv, of sector] by (auto simp: addr_ok_def)
    note h = read_hit_ok [OF keepsD(1) [OF k1] this, of s e, unfolded keepsD(2) [OF k1]]
    have k: "keeps c (snd (read_hit (nat (addr c sector)) s e ?c1))" using keeps_trans [OF k1 h(2)] .
    show ?thesis using fin [of _ False reading, OF k] h(1,3) False lock seg num
      by (cases "read_hit (nat (addr c sector)) s e ?c1") (simp add: cached_block_read_segment_def stay_free_def)
  next
    case True
    have "sector < block_size (dev ?c2)" using seg(3) by simp
    from miss_ok [OF keepsD(1) [OF k2] _ this, of "writing me" me] True obtain r c' where ev: "evict me ?c2 = Some (r, c')" "keeps ?c2 c'"
        "locks c' sector = writing me" "addr c' sector = - 1" "stay_free ?c2 c'"
      and ld: "case r of None \<Rightarrow> True | Some i \<Rightarrow> \<exists>c''. load me sector i c' = Some c'' \<and> keeps ?c2 c''
        \<and> addr c'' sector = int i \<and> locks c'' sector = writing me \<and> stay_free ?c2 c''" by auto
    have k': "keeps c c'" using keeps_trans [OF k2 ev(2)] .
    show ?thesis
    proof (cases r)
      case (Some i)
      then obtain c'' where l: "load me sector i c' = Some c''" "keeps ?c2 c''" "addr c'' sector = int i" "locks c'' sector = writing me" "stay_free ?c2 c''"
        using ld by auto
      have k'': "keeps c c''" using keeps_trans [OF k2 l(2)] .
      note h = read_hit_ok [OF keepsD(1) [OF k''] l(3), of s e, unfolded keepsD(2) [OF k'']]
      show ?thesis using fin [of _ True "writing me", OF keeps_trans [OF k'' h(2)]] h(1,3) True lock seg num ev l Some
        by (cases "read_hit i s e c''") (simp add: cached_block_read_segment_def stay_free_def)
    next
      case None
      let ?b = "sectors (dev c') ! sector" and ?d = "c'\<lparr>dev := (dev c')\<lparr>read_cnt := read_cnt (dev c') + 1\<rparr>\<rparr>"
      have bs: "?b = view c sector" using ev(4) keepsD(2) [OF k'] by (metis view_def)
      have len: "length ?b = BLOCK_SECTOR_SIZE" using cinvD(4) [OF keepsD(1) [OF k']] seg(3) keepsD(4) [OF k'] by simp
      have rd: "block_read (dev c') sector = Some (?b, (dev c')\<lparr>read_cnt := read_cnt (dev c') + 1\<rparr>)"
        using seg(3) keepsD(4) [OF k'] by (simp add: block_read_def check_sector_def)
      have "keeps c' ?d" using keepsD(1) [OF k']
        by (auto simp: keeps_def cinv_def entry_ok_def addr_ok_def view_def block_size_def budget_def fun_eq_iff)
      then have kd: "keeps c ?d" using k' keeps_trans by blast
      have "cached_block_read_segment mem me sector s e c = (do { c \<leftarrow> rw_release me True sector ?d;
         let c = (if sector + 1 < block_size (dev c)
                then c\<lparr>queue := (queue c)[queue_e c mod QUEUE_N := (sector + 1) mod 2 ^ 16], queue_e := u64 (queue_e c + 1)\<rparr>
                else c);
         Some (?bs, c) })"
        using True lock seg num ev None mem rd bs segment_all [OF len]
        by (auto simp: cached_block_read_segment_def)
      then show ?thesis using fin [of ?d True "writing me", OF kd] ev(3,5) by (simp add: stay_free_def)
    qed
  qed
qed

lemma disk_write_ok:
  assumes inv: "cinv c" and a: "addr c sector = - 1" "sector < block_size (dev c)" and bs: "length bs = BLOCK_SECTOR_SIZE"
    and d_def: "d = (dev c)\<lparr>sectors := (sectors (dev c))[sector := bs], read_cnt := r, write_cnt := w\<rparr>"
  shows "stores c sector bs (c\<lparr>dev := d\<rparr>)"
proof -
  let ?c = "c\<lparr>dev := d\<rparr>"
  have "entry_ok ?c i" if i: "i < length (entries c)" for i
  proof -
    have ok: "entry_ok c i" by (rule cinvD(1) [OF inv i])
    then have "nat (e_holder (entries c ! i)) \<noteq> sector" if "e_holder (entries c ! i) \<noteq> - 1"
      using that a(1) by (auto simp: entry_ok_def)
    with ok show ?thesis by (auto simp: entry_ok_def block_size_def d_def)
  qed
  moreover have "addr_ok ?c t" for t using cinvD(2) [OF inv, of t] by (simp add: addr_ok_def)
  moreover have "length (sectors d ! t) = BLOCK_SECTOR_SIZE" if "t < block_size (dev c)" for t
    using cinvD(4) [OF inv that] that bs by (cases "t = sector") (simp_all add: d_def block_size_def)
  ultimately have "cinv ?c" using cinvD(3,5) [OF inv] by (simp add: cinv_def block_size_def d_def)
  moreover have "view ?c t = ((view c)(sector := bs)) t" for t
    using a by (cases "t = sector") (simp_all add: view_def d_def block_size_def)
  moreover have "budget n ?c" if "budget (Suc n) c" for n using that by (auto simp: budget_def)
  ultimately show ?thesis by (auto simp: stores_def block_size_def d_def)
qed

lemma stores_keeps: "keeps c d \<Longrightarrow> stores d sector bs e \<Longrightarrow> stores c sector bs e"
  by (simp add: stores_def keeps_def)

lemma stores_upd_rw: "stores c sector bs d \<Longrightarrow> stores c sector bs (upd_rw s l d)"
  using keeps_upd_rw [of d s l] by (simp add: stores_def keeps_def)

lemma write_segment_ok:
  assumes inv: "cinv c" and lock: "locks c sector = rw_lock_init" and nw: "budget 1 c"
    and seg: "s \<le> e" "e \<le> BLOCK_SECTOR_SIZE" "e - s \<le> length buf" "sector < block_size (dev c)"
    and mem: "mem \<or> full \<noteq> None \<or> s = 0 \<and> e = BLOCK_SECTOR_SIZE"
    and full: "\<And>fb. full = Some fb \<Longrightarrow> fb = patch s e buf (view c sector)"
  shows "\<exists>c'. cached_block_write_segment mem me sector s e buf full c = Some c'
    \<and> stores c sector (patch s e buf (view c sector)) c' \<and> locks c' sector = rw_lock_init \<and> stay_free c c'"
proof -
  let ?c1 = "upd_rw sector reading c" and ?c2 = "upd_rw sector (writing me) (upd_rw sector reading c)"
  let ?bs = "patch s e buf (view c sector)"
  let ?full = "if s = 0 \<and> e = BLOCK_SECTOR_SIZE then Some buf else full"
  have num: "sector < SECTOR_NUM" using seg(4) cinvD(5) [OF inv] by simp
  have k1: "keeps c ?c1" by (rule keeps_upd_rw [OF inv])
  have k2: "keeps c ?c2" using k1 keeps_upd_rw [OF keepsD(1) [OF k1]] keeps_trans by blast
  have fin: "\<exists>c'. rw_release me up sector d = Some c' \<and> stores c sector ?bs c' \<and> locks c' sector = rw_lock_init \<and> stay_free c c'"
    if "stores c sector ?bs d" "locks d sector = (if up then writing me else reading)"
      "stay_free (upd_rw sector l c) d" for up d l
    using that stores_upd_rw by (cases up) (auto simp: stay_free_def)
  have len: "length (view c sector) = BLOCK_SECTOR_SIZE"
    using cinvD(2) [OF inv, of sector] cinvD(1) [OF inv, of "nat (addr c sector)"] cinvD(4) [OF inv seg(4)]
    by (auto simp: view_def addr_ok_def entry_ok_def)
  note lb = length_patch [OF len seg(1-3)]
  have whole: "take BLOCK_SECTOR_SIZE buf = ?bs" if "s = 0 \<and> e = BLOCK_SECTOR_SIZE" using that len by (simp add: patch_def)
  have fullb: "BLOCK_SECTOR_SIZE \<le> length fb \<and> take BLOCK_SECTOR_SIZE fb = ?bs" if "?full = Some fb" for fb
    using that whole full [of fb] seg(3) lb by (auto split: if_splits)
  show ?thesis
  proof (cases "addr c sector = - 1")
    case False
    then have a: "addr ?c1 sector = int (nat (addr c sector))" using cinvD(2) [OF inv, of sector] by (auto simp: addr_ok_def)
    note h = write_hit_ok [OF keepsD(1) [OF k1] a keepsD(5) [OF k1 nw] seg(1-3), unfolded keepsD(2) [OF k1]]
    show ?thesis using fin [of _ False reading, OF stores_keeps [OF k1 h(1)]] h(2) False lock seg num
      by (simp add: cached_block_write_segment_def stay_free_def)
  next
    case True
    have "sector < block_size (dev ?c2)" using seg(4) by simp
    from miss_ok [OF keepsD(1) [OF k2] _ this, of "writing me" me] True obtain r c' where ev: "evict me ?c2 = Some (r, c')" "keeps ?c2 c'"
        "locks c' sector = writing me" "addr c' sector = - 1" "stay_free ?c2 c'"
      and ld: "case r of None \<Rightarrow> True | Some i \<Rightarrow> \<exists>c''. load me sector i c' = Some c'' \<and> keeps ?c2 c''
        \<and> addr c'' sector = int i \<and> locks c'' sector = writing me \<and> stay_free ?c2 c''" by auto
    have k': "keeps c c'" using keeps_trans [OF k2 ev(2)] .
    show ?thesis
    proof (cases r)
      case (Some i)
      then obtain c'' where l: "load me sector i c' = Some c''" "keeps ?c2 c''" "addr c'' sector = int i" "locks c'' sector = writing me" "stay_free ?c2 c''"
        using ld by auto
      have k'': "keeps c c''" using keeps_trans [OF k2 l(2)] .
      note h = write_hit_ok [OF keepsD(1) [OF k''] l(3) keepsD(5) [OF k'' nw] seg(1-3), unfolded keepsD(2) [OF k'']]
      show ?thesis using fin [of _ True "writing me", OF stores_keeps [OF k'' h(1)]] h(2) True lock seg num ev l Some
        by (simp add: cached_block_write_segment_def stay_free_def)
    next
      case None
      let ?b = "sectors (dev c') ! sector"
      let ?d = "\<lambda>n. (dev c')\<lparr>sectors := (sectors (dev c'))[sector := ?bs], read_cnt := n, write_cnt := write_cnt (dev c') + 1\<rparr>"
      have sz: "sector < block_size (dev c')" using seg(4) keepsD(4) [OF k'] by simp
      have bs: "?b = view c sector" using ev(4) keepsD(2) [OF k'] by (metis view_def)
      have st: "stores c sector ?bs (c'\<lparr>dev := ?d n\<rparr>)" for n
        by (rule stores_keeps [OF k' disk_write_ok [OF keepsD(1) [OF k'] ev(4) sz lb refl]])
      have "\<exists>n. cached_block_write_segment mem me sector s e buf full c = rw_release me True sector (c'\<lparr>dev := ?d n\<rparr>)"
      proof (cases ?full)
        case (Some fb)
        then have "block_write (dev c') sector fb = Some (?d (read_cnt (dev c')))"
          using fullb [OF Some] sz by (simp add: block_write_def check_sector_def)
        then have "cached_block_write_segment mem me sector s e buf full c
            = rw_release me True sector (c'\<lparr>dev := ?d (read_cnt (dev c'))\<rparr>)"
          using True lock seg num ev None Some by (simp add: cached_block_write_segment_def Let_def del: if_None_eq_Some)
        then show ?thesis ..
      next
        case f: None
        then have mem: mem using mem by (auto split: if_splits)
        have "block_read (dev c') sector = Some (?b, (dev c')\<lparr>read_cnt := read_cnt (dev c') + 1\<rparr>)"
          using sz by (simp add: block_read_def check_sector_def)
        moreover have "block_write ((dev c')\<lparr>read_cnt := read_cnt (dev c') + 1\<rparr>) sector ?bs = Some (?d (read_cnt (dev c') + 1))"
          using sz lb by (simp add: block_write_def check_sector_def block_size_def)
        ultimately have "cached_block_write_segment mem me sector s e buf full c
            = rw_release me True sector (c'\<lparr>dev := ?d (read_cnt (dev c') + 1)\<rparr>)"
          using True lock seg num ev None f mem bs by (simp add: cached_block_write_segment_def Let_def del: if_None_eq_Some)
        then show ?thesis ..
      qed
      then obtain n where "cached_block_write_segment mem me sector s e buf full c = rw_release me True sector (c'\<lparr>dev := ?d n\<rparr>)" ..
      then show ?thesis using fin [of "c'\<lparr>dev := ?d n\<rparr>" True "writing me", OF st] ev(3,5) by (simp add: stay_free_def)
    qed
  qed
qed

section \<open>Flushing the cache\<close>

definition unlocked :: "cached_block \<Rightarrow> bool" where
  "unlocked c \<longleftrightarrow> (\<forall>i<length (entries c). e_lock (entries c ! i) = None)"

definition flushed :: "cached_block \<Rightarrow> nat \<Rightarrow> bool" where
  "flushed c i \<longleftrightarrow> (e_holder (entries c ! i) \<noteq> - 1 \<longrightarrow>
     sectors (dev c) ! nat (e_holder (entries c ! i)) = data (entries c ! i))"

lemma flush_entry_ok:
  assumes inv: "cinv c" and i: "i < length (entries c)" and un: "unlocked c"
  shows "\<exists>c'. (do {
         kassert (e_lock (entries c ! i) = None);
         let c = upd_entry i (\<lambda>e. e\<lparr>e_lock := Some me\<rparr>) c;
         c \<leftarrow> (if e_holder (entries c ! i) \<noteq> - 1 then fflush_single i c else Some c);
         Some (upd_entry i (\<lambda>e. e\<lparr>e_lock := None\<rparr>) c) }) = Some c'
    \<and> keeps c c' \<and> unlocked c' \<and> flushed c' i \<and> (\<forall>j<length (entries c). flushed c j \<longrightarrow> flushed c' j) \<and> stay_free c c'"
proof -
  let ?c1 = "upd_entry i (\<lambda>e. e\<lparr>e_lock := Some me\<rparr>) c"
  have k1: "keeps c ?c1" using i by (intro keeps_same [OF inv]) auto
  have l: "e_lock (entries c ! i) = None" using un i by (simp add: unlocked_def)
  have done1: "\<exists>c'. Some (upd_entry i (\<lambda>e. e\<lparr>e_lock := None\<rparr>) d) = Some c' \<and> keeps c c' \<and> unlocked c' \<and> flushed c' i
      \<and> (\<forall>j<length (entries c). flushed c j \<longrightarrow> flushed c' j) \<and> stay_free c c'"
    if d: "keeps c d" "flushed d i" "\<And>j. j < length (entries c) \<Longrightarrow> flushed c j \<Longrightarrow> flushed d j" "locks d = locks c"
      "\<And>j. j < length (entries c) \<Longrightarrow> j \<noteq> i \<Longrightarrow> e_lock (entries d ! j) = None" for d
  proof -
    have len: "length (entries d) = length (entries c)" by (rule keepsD(3) [OF d(1)])
    have "keeps d (upd_entry i (\<lambda>e. e\<lparr>e_lock := None\<rparr>) d)" using i len by (intro keeps_same [OF keepsD(1) [OF d(1)]]) auto
    then have "keeps c (upd_entry i (\<lambda>e. e\<lparr>e_lock := None\<rparr>) d)" using d(1) keeps_trans by blast
    then show ?thesis using d i len by (auto simp: unlocked_def flushed_def stay_free_def)
  qed
  show ?thesis
  proof (cases "e_holder (entries c ! i) = - 1")
    case True
    have "flushed ?c1 j" if "flushed c j" for j using that i by (auto simp: flushed_def)
    then show ?thesis using done1 [OF k1] True i l un by (auto simp: flushed_def unlocked_def)
  next
    case False
    let ?s = "nat (e_holder (entries c ! i))"
    have h: "e_holder (entries ?c1 ! i) \<noteq> - 1" "i < length (entries ?c1)" using False i by simp_all
    obtain d where d: "fflush_single i ?c1 = Some d" "keeps ?c1 d" "sectors (dev d) ! ?s = data (entries c ! i)"
        "locks d = locks c" "\<And>t. t \<noteq> ?s \<Longrightarrow> sectors (dev d) ! t = sectors (dev c) ! t"
      and e: "entries d = (entries ?c1)[i := (entries ?c1 ! i)\<lparr>dirty := dirty (entries d ! i)\<rparr>]"
      using fflush_single_ok [OF keepsD(1) [OF k1] h(2,1)] i by auto
    have same: "data (entries d ! j) = data (entries c ! j)" "e_holder (entries d ! j) = e_holder (entries c ! j)"
      "j \<noteq> i \<Longrightarrow> e_lock (entries d ! j) = e_lock (entries c ! j)"
      if "j < length (entries c)" for j
      using that i by (subst e, cases "j = i"; simp)+
    have apart: "nat (e_holder (entries c ! j)) \<noteq> ?s" if "j < length (entries c)" "j \<noteq> i" "e_holder (entries c ! j) \<noteq> - 1" for j
      using cinvD(1) [OF inv that(1)] cinvD(1) [OF inv i] that False by (auto simp: entry_ok_def)
    have "flushed d i" using same(1,2) [OF i] d(3) by (simp add: flushed_def)
    moreover have "flushed d j" if "j < length (entries c)" "flushed c j" for j
      using that same(1,2) [OF that(1)] d(3) d(5) apart [OF that(1)] by (cases "j = i") (auto simp: flushed_def)
    moreover have "keeps c d" using k1 d(2) keeps_trans by blast
    ultimately show ?thesis using done1 [of d] d(1,4) same(3) un False i l by (auto simp: unlocked_def)
  qed
qed

lemma fflush_all_ok:
  assumes inv: "cinv c" and un: "unlocked c"
  shows "\<exists>c'. fflush_all me c = Some c' \<and> keeps c c' \<and> unlocked c' \<and> stay_free c c'
    \<and> (\<forall>s. sectors (dev c') ! s = view c s)"
proof -
  let ?f = "\<lambda>i c. do {
         kassert (e_lock (entries c ! i) = None);
         let c = upd_entry i (\<lambda>e. e\<lparr>e_lock := Some me\<rparr>) c;
         c \<leftarrow> (if e_holder (entries c ! i) \<noteq> - 1 then fflush_single i c else Some c);
         Some (upd_entry i (\<lambda>e. e\<lparr>e_lock := None\<rparr>) c) }"
  let ?I = "\<lambda>ys t. keeps c t \<and> unlocked t \<and> stay_free c t \<and> (\<forall>j<length ys. flushed t j)"
  have "\<exists>c'. mfold ?f [0..<length (entries c)] c = Some c' \<and> ?I [0..<length (entries c)] c'"
  proof (rule mfold_invariant)
    show "?I [] c" using inv un by (simp add: keeps_refl stay_free_def)
  next
    fix ys i zs t
    assume "[0..<length (entries c)] = ys @ i # zs" and t: "?I ys t"
    then have i: "i = length ys" "i < length (entries t)" using upt_split [of 0 "length (entries c)" ys i zs] keepsD(3) [of c t] by auto
    from flush_entry_ok [OF keepsD(1) i(2), of c me] t obtain t' where t': "?f i t = Some t'" "keeps t t'" "unlocked t'"
        "flushed t' i" "\<forall>j<length (entries t). flushed t j \<longrightarrow> flushed t' j" "stay_free t t'" by blast
    have "flushed t' j" if "j < length (ys @ [i])" for j
      using that t t'(4,5) i by (cases "j = i") auto
    then show "\<exists>t'. ?f i t = Some t' \<and> ?I (ys @ [i]) t'"
      using t t' keeps_trans stay_free_trans by blast
  qed
  then obtain c' where c': "fflush_all me c = Some c'" "keeps c c'" "unlocked c'" "stay_free c c'"
      "\<And>j. j < length (entries c) \<Longrightarrow> flushed c' j" unfolding fflush_all_def by auto
  have "sectors (dev c') ! s = view c' s" for s
  proof (cases "addr c' s = - 1")
    case False
    then have "nat (addr c' s) < length (entries c')" "e_holder (entries c' ! nat (addr c' s)) = int s"
      using cinvD(2) [OF keepsD(1) [OF c'(2)], of s] by (auto simp: addr_ok_def)
    then show ?thesis using c'(5) [of "nat (addr c' s)"] keepsD(3) [OF c'(2)] False by (simp add: flushed_def view_def)
  qed (simp add: view_def)
  then show ?thesis using c' keepsD(2) [OF c'(2)] by auto
qed

section \<open>The second chance finds a victim\<close>

definition idle_cache :: "cached_block \<Rightarrow> bool" where
  "idle_cache c \<longleftrightarrow> cinv c \<and> unlocked c \<and> 0 < length (entries c) \<and> 0 \<le> evict_I c
     \<and> (\<forall>i<length (entries c). e_holder (entries c ! i) \<noteq> - 1 \<longrightarrow> locks c (nat (e_holder (entries c ! i))) = rw_lock_init)"

lemma evict_index_nat:
  assumes nn: "0 \<le> evict_I c" and n: "0 < length (entries c)"
  shows "evict_index c = nat (evict_I c) mod length (entries c)"
proof -
  from nn have "evict_I c smod int (length (entries c)) = evict_I c mod int (length (entries c))"
    by (auto simp: signed_modulo_int_def sgn_if)
  moreover have "\<not> evict_I c mod int (length (entries c)) < 0" using n by (simp add: not_less)
  ultimately show ?thesis using nn by (simp add: evict_index_def Let_def nat_mod_distrib)
qed

lemma evict_pass_idle:
  assumes c: "idle_cache c" and i: "i = evict_index c" and w: "evict_I c < 2 ^ 31 - 1"
  shows "(accessed (entries c ! i) = 0 \<longrightarrow> (\<exists>c'. evict_pass me c = Some (Some i, c')))
    \<and> ((\<exists>c'. evict_pass me c = Some (Some i, c'))
       \<or> (\<exists>c'. evict_pass me c = Some (None, c') \<and> idle_cache c' \<and> evict_I c' = evict_I c + 1
            \<and> length (entries c') = length (entries c)
            \<and> (\<forall>j<length (entries c). accessed (entries c' ! j) = (if j = i then 0 else accessed (entries c ! j)))))"
proof -
  have inv: "cinv c" and n: "0 < length (entries c)" and nn: "0 \<le> evict_I c" using c by (simp_all add: idle_cache_def)
  have il: "i < length (entries c)" using n by (simp add: i evict_index_nat [OF nn n])
  have I: "s32 (evict_I c + 1) = evict_I c + 1" using nn w by (intro s32_small) simp_all
  let ?c0 = "c\<lparr>evict_I := evict_I c + 1\<rparr>"
  have l: "e_lock (entries c ! i) = None" using c il by (simp add: idle_cache_def unlocked_def)
  show ?thesis
  proof (cases "e_holder (entries c ! i) = - 1")
    case True
    then have "evict_pass me c = Some (Some i, upd_entry i (\<lambda>e. e\<lparr>e_lock := Some me\<rparr>) ?c0)"
      using l il by (simp add: evict_pass_def evict_try_def I i [symmetric])
    then show ?thesis by blast
  next
    case False
    let ?s = "nat (e_holder (entries c ! i))"
    have s: "0 \<le> e_holder (entries c ! i)" using cinvD(1) [OF inv il] False by (simp add: entry_ok_def)
    have free: "locks c ?s = rw_lock_init" using c il False by (simp add: idle_cache_def)
    let ?c2 = "upd_rw ?s (writing me) (upd_entry i (\<lambda>e. e\<lparr>e_lock := Some me\<rparr>) ?c0)"
    have att: "w_try_lock_acquire me rw_lock_init = (True, writing me)" by (simp add: w_try_lock_acquire_def rw_lock_init_def)
    show ?thesis
    proof (cases "accessed (entries c ! i) = 0")
      case True
      obtain r where r: "evict_pass me c = Some r" using evict_pass_ok [OF inv n] by blast
      moreover from this have "fst r = Some i"
        using True False s l free att il
        by (auto simp: evict_pass_def evict_try_def I i [symmetric] Let_def kernel_simps split: if_splits)
      ultimately show ?thesis by (cases r) auto
    next
      case acc: False
      let ?c3 = "upd_entry i (\<lambda>e. e\<lparr>accessed := 0\<rparr>) ?c2"
      let ?c4 = "upd_entry i (\<lambda>e. e\<lparr>e_lock := None\<rparr>) (upd_rw ?s rw_lock_init ?c3)"
      have "evict_pass me c = Some (None, ?c4)"
        using acc False s l free att il
        by (simp add: evict_pass_def evict_try_def I i [symmetric] Let_def)
      moreover have "idle_cache ?c4"
      proof -
        have "keeps c ?c4" using il by (intro keeps_same [OF inv]) auto
        then have "cinv ?c4" by (rule keepsD(1))
        then show ?thesis using c il free by (auto simp: idle_cache_def unlocked_def)
      qed
      ultimately show ?thesis using acc il by auto
    qed
  qed
qed

lemma evict_loop_hits:
  "idle_cache c \<Longrightarrow> evict_I c + int m < 2 ^ 31 \<Longrightarrow> j < m \<Longrightarrow>
    accessed (entries c ! ((nat (evict_I c) + j) mod length (entries c))) = 0 \<Longrightarrow>
    \<exists>i c'. evict_loop me m c = Some (Some i, c')"
proof (induction m arbitrary: c j)
  case (Suc m)
  let ?n = "length (entries c)"
  have nn: "0 \<le> evict_I c" and n: "0 < ?n" using Suc.prems(1) by (simp_all add: idle_cache_def)
  have w: "evict_I c < 2 ^ 31 - 1" using Suc.prems(2) by simp
  note p = evict_pass_idle [OF Suc.prems(1) refl w, of me]
  show ?case
  proof (cases "\<exists>c'. evict_pass me c = Some (Some (evict_index c), c')")
    case True
    then show ?thesis by auto
  next
    case False
    have jn: "j \<noteq> 0"
    proof (rule notI)
      assume "j = 0"
      then have "accessed (entries c ! evict_index c) = 0" using Suc.prems(4) by (simp add: evict_index_nat [OF nn n])
      then show False using p False by blast
    qed
    obtain c' where c': "evict_pass me c = Some (None, c')" "idle_cache c'" "evict_I c' = evict_I c + 1"
        "length (entries c') = ?n"
        "\<And>j. j < ?n \<Longrightarrow> accessed (entries c' ! j) = (if j = evict_index c then 0 else accessed (entries c ! j))"
      using p False by auto
    have "nat (evict_I c') + (j - 1) = nat (evict_I c) + j" using c'(3) nn jn by (simp add: nat_add_distrib)
    then have "accessed (entries c' ! ((nat (evict_I c') + (j - 1)) mod length (entries c'))) = 0"
      using c'(4,5) Suc.prems(4) n by simp
    then have "\<exists>i d. evict_loop me m c' = Some (Some i, d)"
      by (rule Suc.IH [OF c'(2), rotated 2]) (use Suc.prems(2,3) c'(3) jn in auto)
    then show ?thesis using c'(1) by simp
  qed
qed simp

lemma evict_finds:
  assumes c: "idle_cache c" and w: "evict_I c + 2 * int (length (entries c)) < 2 ^ 31"
  shows "\<exists>i c'. evict me c = Some (Some i, c')"
proof -
  let ?n = "length (entries c)"
  have n: "0 < ?n" and nn: "0 \<le> evict_I c" using c by (simp_all add: idle_cache_def)
  obtain m where m: "2 * ?n = Suc m" "?n \<le> m" using n by (cases "2 * ?n") auto
  have "1 \<le> int ?n" using n by linarith
  then have "evict_I c < 2 ^ 31 - 1" using w by linarith
  note p = evict_pass_idle [OF c refl this, of me]
  show ?thesis
  proof (cases "\<exists>c'. evict_pass me c = Some (Some (evict_index c), c')")
    case True
    then show ?thesis using m by (auto simp: evict_def)
  next
    case False
    then obtain c' where c': "evict_pass me c = Some (None, c')" "idle_cache c'" "evict_I c' = evict_I c + 1"
        "length (entries c') = ?n"
        "\<And>j. j < ?n \<Longrightarrow> accessed (entries c' ! j) = (if j = evict_index c then 0 else accessed (entries c ! j))"
      using p by auto
    have "nat (evict_I c') + (?n - 1) = nat (evict_I c) + ?n" using c'(3) nn n by (simp add: nat_add_distrib)
    then have "(nat (evict_I c') + (?n - 1)) mod ?n = evict_index c" by (simp add: evict_index_nat [OF nn n])
    moreover have "evict_index c < ?n" using n by (simp add: evict_index_nat [OF nn n])
    ultimately have "accessed (entries c' ! ((nat (evict_I c') + (?n - 1)) mod length (entries c'))) = 0"
      unfolding c'(4) using c'(5) by metis
    then have "\<exists>i d. evict_loop me m c' = Some (Some i, d)"
      by (intro evict_loop_hits [OF c'(2), of m "?n - 1"]) (use w c'(3) m n in auto)
    then show ?thesis using c'(1) m by (simp add: evict_def)
  qed
qed

section \<open>The cache as a store of sectors\<close>

text \<open>What the file system relies on: a store of \<open>cap\<close> sectors with a read and a write of a part of
  one sector. \<open>inv n\<close> is the invariant of a store that can take at least \<open>n\<close> more writes.\<close>

locale sector_store =
  fixes inv :: "nat \<Rightarrow> 's \<Rightarrow> bool"
    and cap :: "'s \<Rightarrow> nat"
    and contents :: "'s \<Rightarrow> nat \<Rightarrow> byte list"
    and rd :: "nat \<Rightarrow> nat \<Rightarrow> nat \<Rightarrow> 's \<Rightarrow> (byte list \<times> 's) option"
    and wr :: "nat \<Rightarrow> nat \<Rightarrow> nat \<Rightarrow> byte list \<Rightarrow> 's \<Rightarrow> 's option"
  assumes inv_Suc: "inv (Suc n) c \<Longrightarrow> inv n c"
    and len: "inv n c \<Longrightarrow> sector < cap c \<Longrightarrow> length (contents c sector) = BLOCK_SECTOR_SIZE"
    and rd: "inv n c \<Longrightarrow> sector < cap c \<Longrightarrow> s < e \<Longrightarrow> e \<le> BLOCK_SECTOR_SIZE \<Longrightarrow>
      \<exists>c'. rd sector s e c = Some (segment s e (contents c sector), c')
        \<and> inv n c' \<and> cap c' = cap c \<and> contents c' = contents c"
    and wr: "inv (Suc n) c \<Longrightarrow> sector < cap c \<Longrightarrow> s \<le> e \<Longrightarrow> e \<le> BLOCK_SECTOR_SIZE \<Longrightarrow> e - s \<le> length buf \<Longrightarrow>
      \<exists>c'. wr sector s e buf c = Some c'
        \<and> inv n c' \<and> cap c' = cap c \<and> contents c' = (contents c)(sector := patch s e buf (contents c sector))"
begin

lemma inv_mono: "inv m c \<Longrightarrow> n \<le> m \<Longrightarrow> inv n c"
  by (induction m) (auto simp: le_Suc_eq dest: inv_Suc)

lemma read_after_write:
  assumes inv: "inv (Suc n) c" and k: "sector < cap c" "s < e" "e \<le> BLOCK_SECTOR_SIZE" "length buf = e - s"
  shows "\<exists>c' c''. wr sector s e buf c = Some c' \<and> rd sector s e c' = Some (buf, c'')
    \<and> inv n c'' \<and> contents c'' = contents c'"
proof -
  obtain c' where c': "wr sector s e buf c = Some c'" "inv n c'" "cap c' = cap c"
      "contents c' = (contents c)(sector := patch s e buf (contents c sector))"
    using wr [OF inv k(1), of s e buf] k by auto
  have "length (contents c sector) = BLOCK_SECTOR_SIZE" by (rule len [OF inv k(1)])
  then have "segment s e (contents c' sector) = buf" using k c'(4) by (simp add: patch_def segment_def)
  with rd [OF c'(2), of sector s e] c'(3) k obtain c'' where
    "rd sector s e c' = Some (buf, c'')" "inv n c''" "contents c'' = contents c'" by auto
  with c'(1) show ?thesis by blast
qed

lemma read_other:
  assumes inv: "inv (Suc n) c" and w: "sector < cap c" "s \<le> e" "e \<le> BLOCK_SECTOR_SIZE" "e - s \<le> length buf"
    and r: "t < cap c" "a < b" "b \<le> BLOCK_SECTOR_SIZE" "t \<noteq> sector"
  shows "\<exists>c' c''. wr sector s e buf c = Some c' \<and> rd t a b c' = Some (segment a b (contents c t), c'')"
  using wr [OF inv w] r rd [of n _ t a b] by fastforce

end

section \<open>The locks of the entries\<close>

text \<open>Between two calls no entry is locked, so that \<open>fflush_all\<close> can always take their locks.\<close>

definition elocks :: "cached_block \<Rightarrow> nat option list" where
  "elocks c = map e_lock (entries c)"

lemma unlocked_elocks: "unlocked c \<longleftrightarrow> (\<forall>x\<in>set (elocks c). x = None)"
  by (auto simp: unlocked_def elocks_def all_set_conv_all_nth)

lemma elocks_simps [simp]:
  "elocks (upd_rw s l c) = elocks c" "elocks (c\<lparr>addr := a\<rparr>) = elocks c" "elocks (c\<lparr>dev := d\<rparr>) = elocks c"
  "elocks (c\<lparr>evict_I := x\<rparr>) = elocks c" "elocks (c\<lparr>queue := q, queue_e := n\<rparr>) = elocks c"
  by (simp_all add: elocks_def upd_rw_def)

lemma elocks_upd: "elocks (upd_entry i f c) = (elocks c)[i := e_lock (f (entries c ! i))]"
  by (simp add: elocks_def upd_entry_def map_update)

lemma elocks_same: "v = e_lock (entries c ! i) \<Longrightarrow> (elocks c)[i := v] = elocks c"
  by (cases "i < length (entries c)") (simp_all add: elocks_def list_update_same_conv list_update_beyond)

lemma elocks_keep [simp]: "(\<And>e. e_lock (f e) = e_lock e) \<Longrightarrow> elocks (upd_entry i f c) = elocks c"
  by (simp add: elocks_upd elocks_same)

lemma elocks_set [simp]: "elocks (upd_entry i (\<lambda>e. e\<lparr>e_lock := v\<rparr>) c) = (elocks c)[i := v]"
  by (simp add: elocks_upd)

lemma got_elocks: "got s c a = Some c' \<Longrightarrow> elocks c' = elocks c"
  by (auto simp: got_def split: option.splits attempt.splits)

lemma rw_release_elocks: "rw_release me u s c = Some c' \<Longrightarrow> elocks c' = elocks c"
  by (auto simp: rw_release_def Option.bind_eq_Some_conv)

lemma fflush_single_elocks: "fflush_single i c = Some c' \<Longrightarrow> elocks c' = elocks c"
  by (auto simp: fflush_single_def Let_def Option.bind_eq_Some_conv kernel_simps split: if_splits)

text \<open>Only the entry \<open>evict\<close> returns is locked after it, by its caller; \<open>load\<close> unlocks it again.\<close>

definition locks_at :: "nat \<Rightarrow> cached_block \<Rightarrow> nat option \<Rightarrow> cached_block \<Rightarrow> bool" where
  "locks_at me c r c' \<longleftrightarrow> elocks c' = (case r of None \<Rightarrow> elocks c | Some i \<Rightarrow> (elocks c)[i := Some me])"

lemma evict_try_locks: "evict_try me i c = Some (r, c') \<Longrightarrow> locks_at me c r c'"
  by (auto simp: evict_try_def locks_at_def Let_def Option.bind_eq_Some_conv kernel_simps elocks_same
      dest!: rw_release_elocks fflush_single_elocks split: if_splits prod.splits bool.splits)

lemma evict_loop_locks: "evict_loop me n c = Some (r, c') \<Longrightarrow> locks_at me c r c'"
proof (induction n arbitrary: c)
  case (Suc n)
  then obtain q d where d: "evict_pass me c = Some (q, d)" "(case q of Some i \<Rightarrow> Some (Some i, d) | None \<Rightarrow> evict_loop me n d) = Some (r, c')"
    by (auto simp: Option.bind_eq_Some_conv)
  have "locks_at me c q d" using evict_try_locks [of me _ "c\<lparr>evict_I := s32 (evict_I c + 1)\<rparr>" q d] d(1) by (cases q) (simp_all add: evict_pass_def locks_at_def)
  then show ?case using d(2) Suc.IH [of d] by (cases q; cases r) (auto simp: locks_at_def)
qed (simp add: locks_at_def)

lemma load_elocks: "load me sector i c = Some c' \<Longrightarrow> elocks c' = (elocks c)[i := None]"
  by (auto simp: load_def Let_def Option.bind_eq_Some_conv kernel_simps)

lemma load_evicted:
  assumes "evict me c = Some (Some i, d)" "load me sector i d = Some d'" "unlocked c"
  shows "unlocked d'"
proof -
  have "elocks d' = (elocks c)[i := None]"
    using load_elocks [OF assms(2)] evict_loop_locks [of me _ c "Some i" d] assms(1) by (simp add: evict_def locks_at_def)
  then show ?thesis using assms(3) set_update_subset_insert [of "elocks c" i None] by (auto simp: unlocked_elocks)
qed

lemma evict_none: "evict me c = Some (None, d) \<Longrightarrow> unlocked c \<Longrightarrow> unlocked d"
  using evict_loop_locks [of me _ c None d] by (simp add: evict_def locks_at_def unlocked_elocks)

lemma unlocked_same: "elocks c' = elocks c \<Longrightarrow> unlocked c \<Longrightarrow> unlocked c'"
  by (simp add: unlocked_elocks)

lemma hit_elocks: "elocks (snd (read_hit i s e c)) = elocks c" "elocks (write_hit i s e buf c) = elocks c"
  by (simp_all add: read_hit_def write_hit_def)

text \<open>\<open>ends p m\<close>: if \<open>m\<close> returns, no entry is locked in the cache it returns.\<close>

definition ends :: "('a \<Rightarrow> cached_block) \<Rightarrow> 'a option \<Rightarrow> bool" where
  "ends p m \<longleftrightarrow> (\<forall>x. m = Some x \<longrightarrow> unlocked (p x))"

lemma ends_bind: "(\<And>x. m = Some x \<Longrightarrow> ends p (f x)) \<Longrightarrow> ends p (Option.bind m f)"
  by (auto simp: ends_def Option.bind_eq_Some_conv)

lemma ends_seq: "ends q m \<Longrightarrow> (\<And>x. unlocked (q x) \<Longrightarrow> ends p (f x)) \<Longrightarrow> ends p (Option.bind m f)"
  by (auto simp: ends_def Option.bind_eq_Some_conv)

lemma ends_Some: "unlocked (p x) \<Longrightarrow> ends p (Some x)"
  by (simp add: ends_def)

lemma ends_if: "(b \<Longrightarrow> ends p x) \<Longrightarrow> (\<not> b \<Longrightarrow> ends p y) \<Longrightarrow> ends p (if b then x else y)"
  by simp

lemma ends_prod: "(\<And>a b. x = (a, b) \<Longrightarrow> ends p (f a b)) \<Longrightarrow> ends p (case x of (a, b) \<Rightarrow> f a b)"
  by (cases x) simp

lemma ends_option: "(x = None \<Longrightarrow> ends p a) \<Longrightarrow> (\<And>y. x = Some y \<Longrightarrow> ends p (b y)) \<Longrightarrow> ends p (case x of None \<Rightarrow> a | Some y \<Rightarrow> b y)"
  by (cases x) simp_all

lemmas ends_intros = ends_if ends_prod ends_option ends_bind ends_Some

lemma lock_unlocked:
  "r_acquire me sector c = Some d \<Longrightarrow> unlocked c \<Longrightarrow> unlocked d" "r_upgrade me sector c = Some d \<Longrightarrow> unlocked c \<Longrightarrow> unlocked d"
  "rw_release me u sector c = Some d \<Longrightarrow> unlocked c \<Longrightarrow> unlocked d"
  using got_elocks rw_release_elocks unlocked_same unfolding r_acquire_def r_upgrade_def by blast+

lemma unlocked_simps [simp]:
  "unlocked (c\<lparr>dev := d\<rparr>) = unlocked c" "unlocked (c\<lparr>queue := q, queue_e := n\<rparr>) = unlocked c"
  "unlocked (snd (read_hit i s e c)) = unlocked c" "unlocked (write_hit i s e buf c) = unlocked c"
  by (simp_all add: unlocked_elocks hit_elocks)

lemma ends_release: "unlocked c \<Longrightarrow> ends id (rw_release me u sector c)"
  using lock_unlocked(3) by (auto simp: ends_def)

lemma ends_lock:
  "unlocked c \<Longrightarrow> (\<And>d. unlocked d \<Longrightarrow> ends p (f d)) \<Longrightarrow> ends p (Option.bind (r_acquire me sector c) f)"
  "unlocked c \<Longrightarrow> (\<And>d. unlocked d \<Longrightarrow> ends p (f d)) \<Longrightarrow> ends p (Option.bind (r_upgrade me sector c) f)"
  by (blast intro: ends_bind lock_unlocked)+

lemma ends_evict:
  assumes "unlocked c" "\<And>d. unlocked d \<Longrightarrow> ends p (f (None, d))"
    "\<And>i d. ends id (load me sector i d) \<Longrightarrow> ends p (f (Some i, d))"
  shows "ends p (Option.bind (evict me c) f)"
proof (rule ends_bind)
  fix x assume x: "evict me c = Some x"
  show "ends p (f x)"
  proof (cases "fst x")
    case None
    then show ?thesis using x assms(1,2) evict_none [of me c "snd x"] by (cases x) auto
  next
    case (Some i)
    then have "ends id (load me sector i (snd x))" using x assms(1) load_evicted [of me c i "snd x" sector] by (cases x) (auto simp: ends_def)
    then show ?thesis using Some assms(3) [of i "snd x"] by (cases x) auto
  qed
qed

lemma read_segment_unlocked: "unlocked c \<Longrightarrow> ends snd (cached_block_read_segment mem me sector s e c)"
  unfolding cached_block_read_segment_def
  apply (rule ends_bind, rule ends_bind, rule ends_lock, assumption, rule ends_seq [where q = "\<lambda>x. snd (snd x)"])
   apply (rule ends_if, rule ends_Some, simp, rule ends_lock, assumption, rule ends_if, rule ends_Some, simp)
   apply (rule ends_evict [where sector = sector], assumption)
    apply (auto intro!: ends_intros simp: Let_def dest: lock_unlocked(3))
    apply (simp_all add: ends_def)
  done

lemma write_segment_unlocked: "unlocked c \<Longrightarrow> ends id (cached_block_write_segment mem me sector s e buf full c)"
  unfolding cached_block_write_segment_def Let_def
  apply (rule ends_bind, rule ends_lock, assumption, rule ends_seq [where q = snd])
   apply (rule ends_if, rule ends_Some, simp, rule ends_lock, assumption, rule ends_if, rule ends_Some, simp)
   apply (rule ends_evict [where sector = sector], assumption)
    apply (auto intro!: ends_intros ends_release)
   apply (simp_all add: ends_def)
  done

definition store_inv :: "nat \<Rightarrow> cached_block \<Rightarrow> bool" where
  "store_inv n c \<longleftrightarrow> cinv c \<and> budget n c \<and> (\<forall>s. locks c s = rw_lock_init) \<and> unlocked c"

lemma budget_mono: "budget n c \<Longrightarrow> m \<le> n \<Longrightarrow> budget m c"
  by (force simp: budget_def)

lemma cache_read:
  assumes "store_inv n c" "sector < cached_block_size c" "s < e" "e \<le> BLOCK_SECTOR_SIZE"
  shows "\<exists>c'. cached_block_read_segment True me sector s e c = Some (segment s e (view c sector), c')
    \<and> store_inv n c' \<and> cached_block_size c' = cached_block_size c \<and> view c' = view c"
  using read_segment_ok [of c sector s e True me] assms read_segment_unlocked [of c True me sector s e]
  by (auto simp: store_inv_def ends_def cached_block_size_def keeps_def stay_free_def)

lemma cache_write:
  assumes "store_inv (Suc n) c" "sector < cached_block_size c" "s \<le> e" "e \<le> BLOCK_SECTOR_SIZE" "e - s \<le> length buf"
  shows "\<exists>c'. cached_block_write_segment True me sector s e buf None c = Some c'
    \<and> store_inv n c' \<and> cached_block_size c' = cached_block_size c
    \<and> view c' = (view c)(sector := patch s e buf (view c sector))"
  using write_segment_ok [of c sector s e buf True None me] assms budget_mono [of "Suc n" c 1]
    write_segment_unlocked [of c True me sector s e buf None]
  by (auto simp: store_inv_def ends_def cached_block_size_def stores_def stay_free_def)

lemma view_length: "cinv c \<Longrightarrow> sector < cached_block_size c \<Longrightarrow> length (view c sector) = BLOCK_SECTOR_SIZE"
  using cinvD(2) [of c sector] cinvD(4) [of c sector] cinvD(1) [of c "nat (addr c sector)"]
  by (auto simp: view_def addr_ok_def entry_ok_def cached_block_size_def)

interpretation cache: sector_store store_inv cached_block_size view "cached_block_read_segment True me"
    "\<lambda>sector s e buf. cached_block_write_segment True me sector s e buf None" for me
proof unfold_locales
  fix n c show "store_inv (Suc n) c \<Longrightarrow> store_inv n c" using budget_mono [of "Suc n" c n] by (simp add: store_inv_def)
next
  fix n c sector show "store_inv n c \<Longrightarrow> sector < cached_block_size c \<Longrightarrow> length (view c sector) = BLOCK_SECTOR_SIZE"
    by (simp add: store_inv_def view_length)
qed (blast intro: cache_read cache_write)+

lemma cached_block_init_inv:
  assumes "buffer_elem \<le> 127" "block_size b \<le> SECTOR_NUM" "\<forall>s<block_size b. length (sectors b ! s) = BLOCK_SECTOR_SIZE"
    "n < 2 ^ 16 - 1"
  shows "store_inv n (cached_block_init junk b buffer_elem)" "view (cached_block_init junk b buffer_elem) = (!) (sectors b)"
    "unlocked (cached_block_init junk b buffer_elem)"
  using assms by (auto simp: store_inv_def cinv_def cached_block_init_def entry_ok_def addr_ok_def budget_def view_def fun_eq_iff unlocked_def)

section \<open>What the cache guarantees\<close>

text \<open>A device of two sectors, and its cache with one entry, for the examples.\<close>

definition two_sectors :: block where
  "two_sectors = \<lparr>sectors = [replicate BLOCK_SECTOR_SIZE 0, replicate BLOCK_SECTOR_SIZE 1], read_cnt = 0, write_cnt = 0\<rparr>"

lemma two_sectors_inv:
  "store_inv 9 (cached_block_init [] two_sectors 1)" "cached_block_size (cached_block_init [] two_sectors 1) = 2"
  "view (cached_block_init [] two_sectors 1) 1 = replicate BLOCK_SECTOR_SIZE 1"
proof -
  have "block_size two_sectors = 2" by (simp add: block_size_def two_sectors_def)
  moreover have "\<forall>s<2. length (sectors two_sectors ! s) = BLOCK_SECTOR_SIZE" by (auto simp: two_sectors_def less_2_cases_iff)
  ultimately show "store_inv 9 (cached_block_init [] two_sectors 1)"
    and "view (cached_block_init [] two_sectors 1) 1 = replicate BLOCK_SECTOR_SIZE 1"
    using cached_block_init_inv [of 1 two_sectors 9 "[]"]
    by (simp_all add: SECTOR_NUM_def BLOCK_SECTOR_SIZE_def two_sectors_def)
  show "cached_block_size (cached_block_init [] two_sectors 1) = 2"
    by (simp add: cached_block_size_def cached_block_init_def block_size_def two_sectors_def)
qed

text \<open>(C12) The cache is transparent. On a cache in its invariant with no sector lock taken, a write of
  part of a sector followed by a read of the same part returns the bytes written, and a read of any
  part of any other sector returns what that sector held before, whatever was evicted or flushed on
  the way. No assertion fails and every sector lock is free again.\<close>

theorem cache_read_your_writes:
  assumes "store_inv (Suc n) c" and "sector < cached_block_size c" "s < e" "e \<le> BLOCK_SECTOR_SIZE" "length buf = e - s"
    and "t < cached_block_size c" "a < b" "b \<le> BLOCK_SECTOR_SIZE" "t \<noteq> sector"
  shows "\<exists>c1 c2 c3. cached_block_write_segment True me sector s e buf None c = Some c1
    \<and> cached_block_read_segment True me sector s e c1 = Some (buf, c2)
    \<and> cached_block_read_segment True me t a b c2 = Some (segment a b (view c t), c3) \<and> store_inv n c3"
proof -
  obtain c1 c2 where c: "cached_block_write_segment True me sector s e buf None c = Some c1"
      "cached_block_read_segment True me sector s e c1 = Some (buf, c2)" "store_inv n c2" "view c2 = view c1"
    using cache.read_after_write [OF assms(1-5)] by blast
  have "view c1 t = view c t" "cached_block_size c1 = cached_block_size c" "store_inv n c1"
    using cache_write [OF assms(1,2) _ assms(4), of s buf me] assms(3,5,9) c(1) by auto
  moreover from this have "cached_block_size c2 = cached_block_size c1"
    using cache_read [of n c1 sector s e me] assms(2-4) c(2) by auto
  ultimately show ?thesis using c cache_read [OF c(3), of t a b me] assms(6-8) by auto
qed

theorem cache_read_your_writes_witness:
  "\<exists>c1 c2 c3. cached_block_write_segment True 7 0 1 3 [5, 6] None (cached_block_init [] two_sectors 1) = Some c1
    \<and> cached_block_read_segment True 7 0 1 3 c1 = Some ([5, 6], c2)
    \<and> cached_block_read_segment True 7 1 0 2 c2 = Some ([1, 1], c3) \<and> store_inv 8 c3"
proof -
  have "segment 0 2 (view (cached_block_init [] two_sectors 1) 1) = [1, 1]"
    by (simp only: two_sectors_inv) (simp add: segment_def BLOCK_SECTOR_SIZE_def numeral_eq_Suc)
  then show ?thesis
    using cache_read_your_writes [of 8 "cached_block_init [] two_sectors 1" 0 1 3 "[5, 6]" 1 0 2 7] two_sectors_inv
    by (simp add: BLOCK_SECTOR_SIZE_def)
qed

text \<open>Durability. \<open>fflush_all\<close> on a cache whose entry locks are free fails no assertion, and
  afterwards every sector of the device holds the bytes the file system sees in it; what the file
  system sees is unchanged.\<close>

theorem fflush_all_persists:
  assumes "cinv c" "unlocked c"
  shows "\<exists>c'. fflush_all me c = Some c' \<and> cinv c' \<and> view c' = view c \<and> unlocked c' \<and> sectors (dev c') ! s = view c s"
  using fflush_all_ok [OF assms, of me] keepsD by blast

theorem fflush_all_persists_witness:
  "\<exists>c'. fflush_all 7 (cached_block_init [] two_sectors 1) = Some c' \<and> cinv c'
    \<and> view c' = view (cached_block_init [] two_sectors 1) \<and> unlocked c'
    \<and> sectors (dev c') ! 1 = view (cached_block_init [] two_sectors 1) 1"
proof -
  have "unlocked (cached_block_init [] two_sectors 1)" by (simp add: unlocked_def cached_block_init_def)
  moreover have "cinv (cached_block_init [] two_sectors 1)" using two_sectors_inv(1) by (simp add: store_inv_def)
  ultimately show ?thesis by (intro fflush_all_persists)
qed

text \<open>The two rounds of the second-chance clock are enough: when no other thread holds a lock of
  the cache and the clock hand does not overflow, \<open>evict\<close> returns an entry, which is then empty and
  locked by the caller, and what the file system sees is unchanged.\<close>

theorem evict_finds_a_victim:
  assumes "idle_cache c" and "evict_I c + 2 * int (length (entries c)) < 2 ^ 31"
  shows "\<exists>i c'. evict me c = Some (Some i, c') \<and> i < length (entries c) \<and> e_holder (entries c' ! i) = - 1
    \<and> e_lock (entries c' ! i) = Some me \<and> view c' = view c \<and> cinv c'"
proof -
  obtain i c' where "evict me c = Some (Some i, c')" using evict_finds [OF assms] by blast
  moreover from this have "evicts me c (Some i, c')" using evict_ok [of c me] assms(1) by (auto simp: idle_cache_def)
  ultimately show ?thesis by (auto simp: evicts_def keeps_def)
qed

theorem evict_finds_a_victim_witness:
  "\<exists>i c'. evict 7 (cached_block_init [] two_sectors 1) = Some (Some i, c') \<and> i < 1 \<and> e_holder (entries c' ! i) = - 1
    \<and> e_lock (entries c' ! i) = Some 7 \<and> view c' = view (cached_block_init [] two_sectors 1) \<and> cinv c'"
proof -
  have "idle_cache (cached_block_init [] two_sectors 1)"
    using two_sectors_inv(1) by (simp add: idle_cache_def store_inv_def unlocked_def cached_block_init_def)
  moreover have "length (entries (cached_block_init [] two_sectors 1)) = 1" "evict_I (cached_block_init [] two_sectors 1) = 0"
    by (simp_all add: cached_block_init_def)
  ultimately show ?thesis using evict_finds_a_victim [of "cached_block_init [] two_sectors 1" 7] by simp
qed

text \<open>The 16-bit dirty counter wraps: when a cached sector has been written 65535 times since it
  was last flushed, the next write leaves its entry marked clean, and \<open>fflush_single\<close>, the write-back
  of both \<open>evict\<close> and \<open>fflush_all\<close>, then leaves the device as it is.\<close>

theorem dirty_counter_wraps:
  assumes "i < length (entries c)" "addr c sector = int i" "dirty (entries c ! i) = - 1" "locks c sector = rw_lock_init"
    "sector < SECTOR_NUM" "s \<le> e" "e \<le> BLOCK_SECTOR_SIZE" "e - s \<le> length buf"
  shows "\<exists>c'. cached_block_write_segment mem me sector s e buf full c = Some c'
    \<and> data (entries c' ! i) = patch s e buf (data (entries c ! i))
    \<and> (\<exists>c''. fflush_single i c' = Some c'' \<and> dev c'' = dev c)"
  using assms by (simp add: cached_block_write_segment_def write_hit_def fflush_single_def)

definition worn_cache :: cached_block where
  "worn_cache = (cached_block_init [] two_sectors 1)
     \<lparr>entries := [\<lparr>data = replicate BLOCK_SECTOR_SIZE 0, e_lock = None, e_holder = 0, dirty = - 1, accessed = 1\<rparr>],
      addr := (\<lambda>_. - 1)(0 := 0)\<rparr>"

theorem dirty_counter_wraps_witness:
  "\<exists>c'. cached_block_write_segment True 7 0 0 1 [9] None worn_cache = Some c'
    \<and> data (entries c' ! 0) = patch 0 1 [9] (data (entries worn_cache ! 0))
    \<and> (\<exists>c''. fflush_single 0 c' = Some c'' \<and> dev c'' = dev worn_cache)"
  by (rule dirty_counter_wraps) (simp_all add: worn_cache_def cached_block_init_def SECTOR_NUM_def BLOCK_SECTOR_SIZE_def)

end
