(* ===== verification/Inode.thy ===== *)
theory Inode
  imports Bitmap CachedBlock
begin

text \<open>
  \<open>filesys/inode.c\<close> and \<open>filesys/free-map.c\<close>, with the parts of \<open>bitmap.c\<close> and \<open>file.c\<close> between them:
  inodes on disk and in memory, their three-level index, reading, writing and growing, and the map of
  free sectors, which is itself a file.

  The file system is one state \<open>fsys\<close>; the calling thread is \<open>me\<close>. Buffers and structures on disk are
  lists of bytes, read and written through the buffer cache. An operation that has to wait for a lock
  nobody releases is \<open>None\<close>, as is a failed assertion. \<open>mallocs\<close> is the outcome of the allocations to
  come, one element each; when the list is used up they all succeed.

  Allocating a sector writes the free map to its file, which can need \<open>inode_write_at\<close> again; the
  definitions that take part are parametrised by that write (\<open>iw\<close>), and \<open>inode_write_at d\<close> ties the
  knot with a stack deep enough for \<open>d\<close> nested calls.
\<close>

section \<open>Integers in buffers\<close>

definition le16 :: "nat \<Rightarrow> byte list" where
  "le16 v = [word_of_nat v, word_of_nat (v div 2 ^ 8)]"

definition le32 :: "nat \<Rightarrow> byte list" where
  "le32 v = [word_of_nat v, word_of_nat (v div 2 ^ 8), word_of_nat (v div 2 ^ 16), word_of_nat (v div 2 ^ 24)]"

fun of_le :: "byte list \<Rightarrow> nat" where
  "of_le [] = 0"
| "of_le (b # bs) = unat b + 2 ^ 8 * of_le bs"

definition get16 :: "byte list \<Rightarrow> nat \<Rightarrow> nat" where
  "get16 bs i = of_le (segment (2 * i) (2 * i + 2) bs)"

definition set16 :: "nat \<Rightarrow> nat \<Rightarrow> byte list \<Rightarrow> byte list" where
  "set16 i v bs = patch (2 * i) (2 * i + 2) (le16 v) bs"

definition get32 :: "byte list \<Rightarrow> nat \<Rightarrow> nat" where
  "get32 bs ofs = of_le (segment ofs (ofs + 4) bs)"

definition put32 :: "nat \<Rightarrow> nat \<Rightarrow> byte list \<Rightarrow> byte list" where
  "put32 ofs v bs = patch ofs (ofs + 4) (le32 v) bs"

text \<open>An \<open>off_t\<close> is stored as its 32-bit pattern.\<close>

definition off_bits :: "int \<Rightarrow> nat" where
  "off_bits x = nat (x mod 2 ^ 32)"

section \<open>The structures of the source\<close>

text \<open>\<open>struct inode_disk\<close>: the fields at offsets 0, 4 and 8 of a sector.\<close>

definition d_lvl1 :: "byte list \<Rightarrow> nat" where
  "d_lvl1 bs = get32 bs 0"

definition d_length :: "byte list \<Rightarrow> int" where
  "d_length bs = s32 (int (get32 bs 4))"

definition d_magic :: "byte list \<Rightarrow> nat" where
  "d_magic bs = get32 bs 8"

definition INODE_MAGIC :: nat where
  "INODE_MAGIC = 0x494e4f44"

text \<open>\<open>(uint16_t) -1\<close>, the empty slot of an index sector.\<close>

definition NOSECTOR :: nat where
  "NOSECTOR = 2 ^ 16 - 1"

definition INODE_DISK_LVL_N :: nat where
  "INODE_DISK_LVL_N = BLOCK_SECTOR_SIZE div 2"

record inode =
  i_rwlock :: rw_lock
  i_sector :: nat
  i_open_cnt :: int
  i_removed :: bool
  i_deny_write_cnt :: int

record open_file =
  f_inode :: nat
  f_pos :: int
  f_deny_write :: bool

record fsys =
  fs_device :: cached_block
  free_map :: bitmap
  free_map_file :: "open_file option"
  inodes :: "nat \<Rightarrow> inode option"
  open_inodes :: "nat list"
  next_inode :: nat
  dir_locks :: "nat \<Rightarrow> rw_lock"
  mallocs :: "bool list"

definition FREE_MAP_SECTOR :: nat where
  "FREE_MAP_SECTOR = 0"

definition ROOT_DIR_SECTOR :: nat where
  "ROOT_DIR_SECTOR = 1"

definition zeros :: "byte list" where
  "zeros = replicate BLOCK_SECTOR_SIZE 0"

definition ones :: "byte list" where
  "ones = replicate BLOCK_SECTOR_SIZE (- 1)"

section \<open>Calls into the layers below\<close>

definition kmalloc :: "fsys \<Rightarrow> bool \<times> fsys" where
  "kmalloc s = (case mallocs s of [] \<Rightarrow> (True, s) | b # bs \<Rightarrow> (b, s\<lparr>mallocs := bs\<rparr>))"

text \<open>The bounce buffer of the cache is available when no failure is still to come.\<close>

definition bread :: "nat \<Rightarrow> nat \<Rightarrow> fsys \<Rightarrow> (byte list \<times> fsys) option" where
  "bread me sec s =
     do { (bs, c) \<leftarrow> cached_block_read (mallocs s = []) me sec (fs_device s); Some (bs, s\<lparr>fs_device := c\<rparr>) }"

definition bread_segment :: "nat \<Rightarrow> nat \<Rightarrow> nat \<Rightarrow> nat \<Rightarrow> fsys \<Rightarrow> (byte list \<times> fsys) option" where
  "bread_segment me sec a b s =
     do { (bs, c) \<leftarrow> cached_block_read_segment (mallocs s = []) me sec a b (fs_device s); Some (bs, s\<lparr>fs_device := c\<rparr>) }"

definition bwrite :: "nat \<Rightarrow> nat \<Rightarrow> byte list \<Rightarrow> fsys \<Rightarrow> fsys option" where
  "bwrite me sec buf s =
     do { c \<leftarrow> cached_block_write (mallocs s = []) me sec buf (fs_device s); Some (s\<lparr>fs_device := c\<rparr>) }"

definition bwrite_segment :: "nat \<Rightarrow> nat \<Rightarrow> nat \<Rightarrow> nat \<Rightarrow> byte list \<Rightarrow> fsys \<Rightarrow> fsys option" where
  "bwrite_segment me sec a b buf s =
     do { c \<leftarrow> cached_block_write_segment (mallocs s = []) me sec a b buf None (fs_device s); Some (s\<lparr>fs_device := c\<rparr>) }"

text \<open>An inode in memory is reached through its address; a freed or null one is a fault.\<close>

definition upd_inode :: "nat \<Rightarrow> (inode \<Rightarrow> inode) \<Rightarrow> fsys \<Rightarrow> fsys option" where
  "upd_inode ip f s = do { i \<leftarrow> inodes s ip; Some (s\<lparr>inodes := (inodes s)(ip := Some (f i))\<rparr>) }"

definition taken :: "attempt option \<Rightarrow> rw_lock option" where
  "taken a = (case a of Some (Acquired l) \<Rightarrow> Some l | _ \<Rightarrow> None)"

definition released :: "nat \<Rightarrow> bool \<Rightarrow> fsys \<Rightarrow> rw_lock \<Rightarrow> rw_lock option" where
  "released me upgraded s l =
     map_option snd (if upgraded then w_lock_release me (wants_write (fs_device s)) l
                     else r_lock_release (wants_write (fs_device s)) l)"

definition inode_lock :: "nat \<Rightarrow> nat \<Rightarrow> fsys \<Rightarrow> fsys option" where
  "inode_lock me ip s =
     do { i \<leftarrow> inodes s ip; l \<leftarrow> taken (r_lock_acquire me (i_rwlock i)); upd_inode ip (\<lambda>i. i\<lparr>i_rwlock := l\<rparr>) s }"

definition inode_upgrade :: "nat \<Rightarrow> nat \<Rightarrow> fsys \<Rightarrow> fsys option" where
  "inode_upgrade me ip s =
     do { i \<leftarrow> inodes s ip; l \<leftarrow> taken (r_lock_upgrade_to_w me (i_rwlock i)); upd_inode ip (\<lambda>i. i\<lparr>i_rwlock := l\<rparr>) s }"

definition inode_unlock :: "nat \<Rightarrow> bool \<Rightarrow> nat \<Rightarrow> fsys \<Rightarrow> fsys option" where
  "inode_unlock me upgraded ip s =
     do { i \<leftarrow> inodes s ip; l \<leftarrow> released me upgraded s (i_rwlock i); upd_inode ip (\<lambda>i. i\<lparr>i_rwlock := l\<rparr>) s }"

section \<open>The map of free sectors\<close>

type_synonym inode_write = "nat \<Rightarrow> byte list \<Rightarrow> int \<Rightarrow> int \<Rightarrow> fsys \<Rightarrow> (int \<times> fsys) option"

text \<open>The bytes of the array \<open>b->bits\<close>.\<close>

definition bm_bytes :: "bitmap \<Rightarrow> byte list" where
  "bm_bytes b = concat (map (\<lambda>w. le32 (unat w)) (bits b))"

definition bitmap_write_with :: "inode_write \<Rightarrow> bitmap \<Rightarrow> open_file option \<Rightarrow> fsys \<Rightarrow> (bool \<times> fsys) option" where
  "bitmap_write_with iw b fp s =
     do {
       f \<leftarrow> fp;
       let sz = int (byte_cnt (bit_cnt b));
       (n, s) \<leftarrow> iw (f_inode f) (bm_bytes b) sz 0 s;
       Some (n = sz, s)
     }"

definition free_map_allocate_with :: "inode_write \<Rightarrow> fsys \<Rightarrow> (nat option \<times> fsys) option" where
  "free_map_allocate_with iw s =
     do {
       (sec, b) \<leftarrow> bitmap_scan_and_flip (free_map s) 0 1 False;
       let s = s\<lparr>free_map := b\<rparr>;
       if sec \<noteq> BITMAP_ERROR \<and> free_map_file s \<noteq> None
       then do {
         (ok, s) \<leftarrow> bitmap_write_with iw (free_map s) (free_map_file s) s;
         if ok then Some (Some sec, s)
         else do {
           b \<leftarrow> bitmap_set_multiple (free_map s) sec 1 False;
           Some (None, s\<lparr>free_map := b\<rparr>)
         }
       }
       else Some (if sec \<noteq> BITMAP_ERROR then Some sec else None, s)
     }"

definition free_map_release_with :: "inode_write \<Rightarrow> nat \<Rightarrow> fsys \<Rightarrow> fsys option" where
  "free_map_release_with iw sec s =
     do {
       kassert (sec \<noteq> 0);
       all \<leftarrow> bitmap_all (free_map s) sec 1;
       kassert all;
       b \<leftarrow> bitmap_flip (free_map s) sec;
       let s = s\<lparr>free_map := b\<rparr>;
       (ok, s) \<leftarrow> bitmap_write_with iw (free_map s) (free_map_file s) s;
       Some s
     }"

section \<open>The index of an inode\<close>

text \<open>One step down the index: slot \<open>i\<close> of the index sector \<open>lvl\<close>. An empty slot ends the search, or
  gets a new sector with an empty index. The outer \<open>None\<close> is a fault, the inner one that the slot stays
  empty; otherwise the new sector if there is one, the updated index sector, and the next one.\<close>

definition level_down ::
  "inode_write \<Rightarrow> nat \<Rightarrow> bool \<Rightarrow> byte list \<Rightarrow> nat \<Rightarrow> fsys \<Rightarrow> ((nat option \<times> byte list \<times> byte list) option \<times> fsys) option" where
  "level_down iw me create lvl i s =
     (if get16 lvl i = NOSECTOR
      then if \<not> create then Some (None, s)
        else do {
          (p, s) \<leftarrow> free_map_allocate_with iw s;
          case p of None \<Rightarrow> Some (None, s) | Some p \<Rightarrow> Some (Some (Some p, set16 i p lvl, ones), s)
        }
      else do { (next, s) \<leftarrow> bread me (get16 lvl i) s; Some (Some (None, lvl, next), s) })"

definition release_opt :: "inode_write \<Rightarrow> nat option \<Rightarrow> fsys \<Rightarrow> fsys option" where
  "release_opt iw p s = (case p of None \<Rightarrow> Some s | Some p \<Rightarrow> free_map_release_with iw p s)"

definition when_new :: "nat option \<Rightarrow> (fsys \<Rightarrow> fsys option) \<Rightarrow> fsys \<Rightarrow> fsys option" where
  "when_new p f s = (if p \<noteq> None then f s else Some s)"

text \<open>The writes at the end of \<open>lookup\<close>, from the data sector up to the root of the index.\<close>

definition lookup_store ::
  "nat \<Rightarrow> nat \<Rightarrow> nat \<times> nat \<times> nat \<Rightarrow> nat option \<times> nat option \<times> nat option \<Rightarrow> byte list \<times> byte list \<times> byte list \<Rightarrow> fsys \<Rightarrow> fsys option" where
  "lookup_store me root = (\<lambda>(a, b, c) (p1, p2, p3) (lvl1, lvl2, lvl3) s.
     do {
       s \<leftarrow> when_new p3 (\<lambda>s. do { s \<leftarrow> bwrite me (get16 lvl3 c) zeros s; bwrite me (get16 lvl2 b) lvl3 s }) s;
       s \<leftarrow> when_new p2 (bwrite me (get16 lvl1 a) lvl2) s;
       when_new p1 (bwrite me root lvl1) s
     })"

text \<open>\<open>lookup\<close>: the result, the sector it stores in \<open>*res\<close>, and the state.\<close>

definition lookup_with :: "inode_write \<Rightarrow> nat \<Rightarrow> byte list \<Rightarrow> nat \<Rightarrow> bool \<Rightarrow> fsys \<Rightarrow> (bool \<times> nat \<times> fsys) option" where
  "lookup_with iw me inode_disk upage create s =
     do {
       let c = upage mod 2 ^ 5;
       let b = (upage div 2 ^ 5) mod 2 ^ 5;
       let a = upage div 2 ^ 10;
       kassert (a < 32 \<and> b < 32 \<and> c < 32);
       let (ok2, s) = kmalloc s;
       if \<not> ok2 then Some (False, NOSECTOR, s) else do {
       let (ok1, s) = kmalloc s;
       if \<not> ok1 then Some (False, NOSECTOR, s) else do {
       let (ok3, s) = kmalloc s;
       if \<not> ok3 then Some (False, NOSECTOR, s) else do {
       (lvl1, s) \<leftarrow> bread me (d_lvl1 inode_disk) s;
       (r1, s) \<leftarrow> level_down iw me create lvl1 a s;
       case r1 of None \<Rightarrow> Some (False, NOSECTOR, s) | Some (p1, lvl1, lvl2) \<Rightarrow> do {
       (r2, s) \<leftarrow> level_down iw me create lvl2 b s;
       case r2 of None \<Rightarrow> do { s \<leftarrow> release_opt iw p1 s; Some (False, NOSECTOR, s) } | Some (p2, lvl2, lvl3) \<Rightarrow> do {
       (r3, s) \<leftarrow> (if get16 lvl3 c = NOSECTOR
                   then if \<not> create then Some (None, s)
                     else do { (p, s) \<leftarrow> free_map_allocate_with iw s; Some (map_option (\<lambda>p. (Some p, set16 c p lvl3)) p, s) }
                   else Some (Some (None, lvl3), s));
       case r3 of
         None \<Rightarrow> do { s \<leftarrow> release_opt iw p1 s; s \<leftarrow> release_opt iw p2 s; Some (False, NOSECTOR, s) }
       | Some (p3, lvl3) \<Rightarrow> do {
           s \<leftarrow> lookup_store me (d_lvl1 inode_disk) (a, b, c) (p1, p2, p3) (lvl1, lvl2, lvl3) s;
           Some (p1 \<noteq> None \<or> p2 \<noteq> None \<or> p3 \<noteq> None, get16 lvl3 c, s)
         }
       }}}}}
     }"

section \<open>Reading and writing\<close>

text \<open>The sector index \<open>offset / BLOCK_SECTOR_SIZE\<close> as the \<open>uint16_t\<close> argument of \<open>lookup\<close>, and the
  index of the last sector of a write.\<close>

definition sector_arg :: "int \<Rightarrow> nat" where
  "sector_arg x = nat ((x sdiv int BLOCK_SECTOR_SIZE) mod 2 ^ 16)"

definition end_sector :: "int \<Rightarrow> int" where
  "end_sector x = s32 (x + int BLOCK_SECTOR_SIZE - 1) sdiv int BLOCK_SECTOR_SIZE"

definition chunk :: "int \<Rightarrow> int \<Rightarrow> int \<Rightarrow> int" where
  "chunk len sz offset =
     (let sector_ofs = offset smod int BLOCK_SECTOR_SIZE;
          inode_left = len - offset;
          sector_left = int BLOCK_SECTOR_SIZE - sector_ofs;
          min_left = (if inode_left < sector_left then inode_left else sector_left)
      in if sz < min_left then sz else min_left)"

text \<open>The bytes read are returned in order; their number is \<open>bytes_read\<close>.\<close>

function read_loop :: "inode_write \<Rightarrow> nat \<Rightarrow> byte list \<Rightarrow> int \<Rightarrow> int \<Rightarrow> byte list \<Rightarrow> fsys \<Rightarrow> (byte list \<times> fsys) option" where
  "read_loop iw me meta sz offset acc s =
     (if sz \<le> 0 then Some (acc, s)
      else do {
        (_, sector_idx, s) \<leftarrow> lookup_with iw me meta (sector_arg offset) False s;
        if sector_idx = NOSECTOR then Some (acc, s)
        else if chunk (d_length meta) sz offset \<le> 0 then Some (acc, s)
        else do {
          let n = chunk (d_length meta) sz offset;
          let sector_ofs = nat (offset smod int BLOCK_SECTOR_SIZE);
          (bs, s) \<leftarrow> bread_segment me sector_idx sector_ofs (sector_ofs + nat n) s;
          read_loop iw me meta (sz - n) (offset + n) (acc @ bs) s
        }
      })"
  by pat_completeness auto
termination by (relation "measure (\<lambda>(iw, me, meta, sz, offset, acc, s). nat sz)") auto

definition inode_read_at_with :: "inode_write \<Rightarrow> nat \<Rightarrow> nat \<Rightarrow> int \<Rightarrow> int \<Rightarrow> fsys \<Rightarrow> (byte list \<times> fsys) option" where
  "inode_read_at_with iw me ip sz offset s =
     do {
       s \<leftarrow> inode_lock me ip s;
       let (ok, s) = kmalloc s;
       kassert ok;
       i \<leftarrow> inodes s ip;
       (meta, s) \<leftarrow> bread me (i_sector i) s;
       (bs, s) \<leftarrow> read_loop iw me meta sz offset [] s;
       s \<leftarrow> inode_unlock me False ip s;
       Some (bs, s)
     }"

function write_loop :: "inode_write \<Rightarrow> nat \<Rightarrow> byte list \<Rightarrow> byte list \<Rightarrow> int \<Rightarrow> int \<Rightarrow> int \<Rightarrow> fsys \<Rightarrow> (int \<times> fsys) option" where
  "write_loop iw me meta buffer sz offset bytes_written s =
     (if sz \<le> 0 then Some (bytes_written, s)
      else do {
        (_, sector_idx, s) \<leftarrow> lookup_with iw me meta (sector_arg offset) False s;
        if sector_idx = NOSECTOR then Some (bytes_written, s)
        else if chunk (d_length meta) sz offset \<le> 0 then Some (bytes_written, s)
        else do {
          let n = chunk (d_length meta) sz offset;
          let sector_ofs = nat (offset smod int BLOCK_SECTOR_SIZE);
          kassert (sector_idx \<noteq> 0);
          s \<leftarrow> bwrite_segment me sector_idx sector_ofs (sector_ofs + nat n) (drop (nat bytes_written) buffer) s;
          write_loop iw me meta buffer (sz - n) (offset + n) (bytes_written + n) s
        }
      })"
  by pat_completeness auto
termination by (relation "measure (\<lambda>(iw, me, meta, buffer, sz, offset, bytes_written, s). nat sz)") auto

text \<open>The loop that allocates from the last sector of the write downwards, until a sector is already
  there or cannot be allocated: \<open>n\<close> is \<open>i + 1\<close>.\<close>

fun grow_loop :: "inode_write \<Rightarrow> nat \<Rightarrow> byte list \<Rightarrow> nat \<Rightarrow> fsys \<Rightarrow> fsys option" where
  "grow_loop iw me meta 0 s = Some s"
| "grow_loop iw me meta (Suc i) s =
     do {
       (fresh, _, s) \<leftarrow> lookup_with iw me meta (i mod 2 ^ 16) True s;
       if fresh then grow_loop iw me meta i s else Some s
     }"

definition inode_write_at_with :: "inode_write \<Rightarrow> nat \<Rightarrow> inode_write" where
  "inode_write_at_with iw me ip buffer sz offset s =
     do {
       s \<leftarrow> inode_lock me ip s;
       i \<leftarrow> inodes s ip;
       if i_deny_write_cnt i \<noteq> 0 then Some (0, s)
       else do {
         let (ok, s) = kmalloc s;
         kassert ok;
         (meta, s) \<leftarrow> bread me (i_sector i) s;
         let last = end_sector (s32 (offset + sz));
         (_, sector_idx, s) \<leftarrow> lookup_with iw me meta (nat (last mod 2 ^ 16)) False s;
         (upgraded, s) \<leftarrow>
           (if sector_idx = NOSECTOR
            then do {
              s \<leftarrow> inode_upgrade me ip s;
              s \<leftarrow> grow_loop iw me meta (nat (last + 1)) s;
              Some (True, s)
            }
            else Some (False, s));
         let meta = put32 4 (off_bits (max (d_length meta) (s32 (offset + sz)))) meta;
         (n, s) \<leftarrow> write_loop iw me meta buffer sz offset 0 s;
         s \<leftarrow> bwrite me (i_sector i) meta s;
         s \<leftarrow> inode_unlock me upgraded ip s;
         Some (n, s)
       }
     }"

fun inode_write_at :: "nat \<Rightarrow> nat \<Rightarrow> inode_write" where
  "inode_write_at 0 me ip buffer sz offset s = None"
| "inode_write_at (Suc d) me ip buffer sz offset s =
     inode_write_at_with (inode_write_at d me) me ip buffer sz offset s"

section \<open>The operations\<close>

definition free_map_allocate :: "nat \<Rightarrow> nat \<Rightarrow> fsys \<Rightarrow> (nat option \<times> fsys) option" where
  "free_map_allocate d me = free_map_allocate_with (inode_write_at d me)"

definition free_map_release :: "nat \<Rightarrow> nat \<Rightarrow> nat \<Rightarrow> fsys \<Rightarrow> fsys option" where
  "free_map_release d me = free_map_release_with (inode_write_at d me)"

definition lookup :: "nat \<Rightarrow> nat \<Rightarrow> byte list \<Rightarrow> nat \<Rightarrow> bool \<Rightarrow> fsys \<Rightarrow> (bool \<times> nat \<times> fsys) option" where
  "lookup d me = lookup_with (inode_write_at d me) me"

definition inode_read_at :: "nat \<Rightarrow> nat \<Rightarrow> nat \<Rightarrow> int \<Rightarrow> int \<Rightarrow> fsys \<Rightarrow> (byte list \<times> fsys) option" where
  "inode_read_at d me = inode_read_at_with (inode_write_at d me) me"

definition inode_init :: "fsys \<Rightarrow> fsys" where
  "inode_init s = s\<lparr>open_inodes := []\<rparr>"

definition new_inode_disk :: "nat \<Rightarrow> int \<Rightarrow> byte list" where
  "new_inode_disk pointer len = put32 0 pointer (put32 8 INODE_MAGIC (put32 4 (off_bits len) zeros))"

definition inode_create :: "nat \<Rightarrow> nat \<Rightarrow> nat \<Rightarrow> int \<Rightarrow> fsys \<Rightarrow> (bool \<times> fsys) option" where
  "inode_create d me sec len s =
     do {
       (p, s) \<leftarrow> free_map_allocate d me s;
       case p of None \<Rightarrow> Some (False, s) | Some pointer \<Rightarrow> do {
       kassert (sec < SECTOR_NUM);
       let (ok, s) = kmalloc s;
       if \<not> ok then do { s \<leftarrow> free_map_release d me pointer s; Some (False, s) } else do {
       kassert (0 \<le> len);
       let disk_inode = new_inode_disk pointer len;
       s \<leftarrow> bwrite me sec disk_inode s;
       let (ok, s) = kmalloc s;
       if \<not> ok then do { s \<leftarrow> free_map_release d me pointer s; Some (False, s) } else do {
       s \<leftarrow> bwrite me (d_lvl1 disk_inode) ones s;
       s \<leftarrow> mfold (\<lambda>i s. do { (_, _, s) \<leftarrow> lookup d me disk_inode (i mod 2 ^ 16) True s; Some s })
              [0..<nat (end_sector len + 1)] s;
       Some (True, s)
       }}}
     }"

definition inode_reopen :: "nat option \<Rightarrow> fsys \<Rightarrow> (nat option \<times> fsys) option" where
  "inode_reopen ip s =
     (case ip of None \<Rightarrow> Some (None, s)
      | Some p \<Rightarrow> do { s \<leftarrow> upd_inode p (\<lambda>i. i\<lparr>i_open_cnt := s32 (i_open_cnt i + 1)\<rparr>) s; Some (Some p, s) })"

text \<open>The search of the list of open inodes; an element that is not an inode is a fault.\<close>

definition find_open :: "nat \<Rightarrow> fsys \<Rightarrow> nat option option" where
  "find_open sec s = msearch (\<lambda>p. map_option (\<lambda>i. i_sector i = sec) (inodes s p)) (open_inodes s)"

definition inode_open :: "nat \<Rightarrow> fsys \<Rightarrow> (nat option \<times> fsys) option" where
  "inode_open sec s =
     do {
       kassert (sec < SECTOR_NUM);
       hit \<leftarrow> find_open sec s;
       case hit of
         Some p \<Rightarrow> inode_reopen (Some p) s
       | None \<Rightarrow> do {
           let (ok, s) = kmalloc s;
           kassert ok;
           let p = next_inode s;
           Some (Some p,
             s\<lparr>inodes := (inodes s)(p \<mapsto> \<lparr>i_rwlock = rw_lock_init, i_sector = sec, i_open_cnt = 1, i_removed = False, i_deny_write_cnt = 0\<rparr>),
               open_inodes := p # open_inodes s, next_inode := p + 1\<rparr>)
         }
     }"

definition inode_get_inumber :: "nat \<Rightarrow> fsys \<Rightarrow> nat option" where
  "inode_get_inumber ip s = map_option i_sector (inodes s ip)"

text \<open>\<open>inode_close\<close> of the last opener of a removed inode frees every sector of its index. The loops
  run over all the slots of an index sector.\<close>

definition release_slots ::
  "nat \<Rightarrow> nat \<Rightarrow> (nat \<Rightarrow> fsys \<Rightarrow> fsys option) \<Rightarrow> byte list \<Rightarrow> fsys \<Rightarrow> fsys option" where
  "release_slots d me below lvl =
     mfold (\<lambda>i s. if get16 lvl i = NOSECTOR then Some s
                  else do { s \<leftarrow> below (get16 lvl i) s; free_map_release d me (get16 lvl i) s })
       [0..<INODE_DISK_LVL_N]"

definition release_index :: "nat \<Rightarrow> nat \<Rightarrow> byte list \<Rightarrow> fsys \<Rightarrow> fsys option" where
  "release_index d me =
     release_slots d me (\<lambda>p2 s. do {
       (lvl2, s) \<leftarrow> bread me p2 s;
       release_slots d me (\<lambda>p3 s. do {
         (lvl3, s) \<leftarrow> bread me p3 s;
         release_slots d me (\<lambda>_ s. Some s) lvl3 s }) lvl2 s })"

definition inode_close :: "nat \<Rightarrow> nat \<Rightarrow> nat option \<Rightarrow> fsys \<Rightarrow> fsys option" where
  "inode_close d me ip s =
     (case ip of None \<Rightarrow> Some s
      | Some p \<Rightarrow> do {
          i \<leftarrow> inodes s p;
          let cnt = s32 (i_open_cnt i - 1);
          s \<leftarrow> upd_inode p (\<lambda>i. i\<lparr>i_open_cnt := cnt\<rparr>) s;
          if cnt = 0
          then do {
            let s = s\<lparr>open_inodes := remove1 p (open_inodes s)\<rparr>;
            s \<leftarrow> (if i_removed i
                  then do {
                    let (ok, s) = kmalloc s;
                    kassert ok;
                    (meta, s) \<leftarrow> bread me (i_sector i) s;
                    let (ok1, s) = kmalloc s;
                    let (ok2, s) = kmalloc s;
                    let (ok3, s) = kmalloc s;
                    kassert (ok1 \<and> ok2 \<and> ok3);
                    (lvl1, s) \<leftarrow> bread me (d_lvl1 meta) s;
                    s \<leftarrow> release_index d me lvl1 s;
                    s \<leftarrow> free_map_release d me (d_lvl1 meta) s;
                    free_map_release d me (i_sector i) s
                  }
                  else Some s);
            Some (s\<lparr>inodes := (inodes s)(p := None)\<rparr>)
          }
          else Some s
        })"

definition inode_remove :: "nat \<Rightarrow> fsys \<Rightarrow> fsys option" where
  "inode_remove ip s = upd_inode ip (\<lambda>i. i\<lparr>i_removed := True\<rparr>) s"

definition inode_deny_write :: "nat \<Rightarrow> fsys \<Rightarrow> fsys option" where
  "inode_deny_write ip s = upd_inode ip (\<lambda>i. i\<lparr>i_deny_write_cnt := s32 (i_deny_write_cnt i + 1)\<rparr>) s"

definition inode_allow_write :: "nat \<Rightarrow> fsys \<Rightarrow> fsys option" where
  "inode_allow_write ip s = upd_inode ip (\<lambda>i. i\<lparr>i_deny_write_cnt := s32 (i_deny_write_cnt i - 1)\<rparr>) s"

definition inode_length :: "nat \<Rightarrow> nat \<Rightarrow> fsys \<Rightarrow> (int \<times> fsys) option" where
  "inode_length me ip s =
     do { i \<leftarrow> inodes s ip; (meta, s) \<leftarrow> bread me (i_sector i) s; Some (d_length meta, s) }"

end
