(* ===== verification/FileSystem.thy ===== *)
theory FileSystem
  imports Inode
begin

text \<open>
  \<open>filesys/file.c\<close>, \<open>filesys/directory.c\<close>, the rest of \<open>filesys/free-map.c\<close> and \<open>filesys/filesys.c\<close>:
  open files, directories as files of fixed-size entries, and the calls the rest of the kernel makes.

  A \<open>struct file\<close> or \<open>struct dir\<close> is a value its owner keeps, returned updated; a null pointer is \<open>None\<close>.
  A C string is the list of its bytes without the terminator. \<open>d\<close> is the depth of nested writes the
  stack allows, \<open>me\<close> the calling thread, \<open>junk\<close> the bytes a local variable holds before it is written.
\<close>

section \<open>Open files\<close>

definition file_open :: "nat \<Rightarrow> nat \<Rightarrow> nat option \<Rightarrow> fsys \<Rightarrow> (open_file option \<times> fsys) option" where
  "file_open d me ip s =
     do {
       let (ok, s) = kmalloc s;
       case ip of
         Some p \<Rightarrow> if ok then Some (Some \<lparr>f_inode = p, f_pos = 0, f_deny_write = False\<rparr>, s)
                   else do { s \<leftarrow> inode_close d me ip s; Some (None, s) }
       | None \<Rightarrow> do { s \<leftarrow> inode_close d me ip s; Some (None, s) }
     }"

definition file_reopen :: "nat \<Rightarrow> nat \<Rightarrow> open_file \<Rightarrow> fsys \<Rightarrow> (open_file option \<times> fsys) option" where
  "file_reopen d me f s = do { (ip, s) \<leftarrow> inode_reopen (Some (f_inode f)) s; file_open d me ip s }"

definition file_deny_write :: "open_file \<Rightarrow> fsys \<Rightarrow> (open_file \<times> fsys) option" where
  "file_deny_write f s =
     (if \<not> f_deny_write f then do { s \<leftarrow> inode_deny_write (f_inode f) s; Some (f\<lparr>f_deny_write := True\<rparr>, s) }
      else Some (f, s))"

definition file_allow_write :: "open_file \<Rightarrow> fsys \<Rightarrow> (open_file \<times> fsys) option" where
  "file_allow_write f s =
     (if f_deny_write f then do { s \<leftarrow> inode_allow_write (f_inode f) s; Some (f\<lparr>f_deny_write := False\<rparr>, s) }
      else Some (f, s))"

definition file_close :: "nat \<Rightarrow> nat \<Rightarrow> open_file option \<Rightarrow> fsys \<Rightarrow> fsys option" where
  "file_close d me fp s =
     (case fp of None \<Rightarrow> Some s
      | Some f \<Rightarrow> do { (f, s) \<leftarrow> file_allow_write f s; inode_close d me (Some (f_inode f)) s })"

definition file_get_inode :: "open_file \<Rightarrow> nat" where
  "file_get_inode f = f_inode f"

definition file_read :: "nat \<Rightarrow> nat \<Rightarrow> open_file \<Rightarrow> int \<Rightarrow> fsys \<Rightarrow> (byte list \<times> open_file \<times> fsys) option" where
  "file_read d me f sz s =
     do {
       (bs, s) \<leftarrow> inode_read_at d me (f_inode f) sz (f_pos f) s;
       Some (bs, f\<lparr>f_pos := s32 (f_pos f + int (length bs))\<rparr>, s)
     }"

definition file_read_at :: "nat \<Rightarrow> nat \<Rightarrow> open_file \<Rightarrow> int \<Rightarrow> int \<Rightarrow> fsys \<Rightarrow> (byte list \<times> fsys) option" where
  "file_read_at d me f sz file_ofs s = inode_read_at d me (f_inode f) sz file_ofs s"

definition file_write :: "nat \<Rightarrow> nat \<Rightarrow> open_file \<Rightarrow> byte list \<Rightarrow> int \<Rightarrow> fsys \<Rightarrow> (int \<times> open_file \<times> fsys) option" where
  "file_write d me f buffer sz s =
     do {
       (n, s) \<leftarrow> inode_write_at d me (f_inode f) buffer sz (f_pos f) s;
       Some (n, f\<lparr>f_pos := s32 (f_pos f + n)\<rparr>, s)
     }"

definition file_write_at :: "nat \<Rightarrow> nat \<Rightarrow> open_file \<Rightarrow> byte list \<Rightarrow> int \<Rightarrow> int \<Rightarrow> fsys \<Rightarrow> (int \<times> fsys) option" where
  "file_write_at d me f buffer sz file_ofs s = inode_write_at d me (f_inode f) buffer sz file_ofs s"

definition file_length :: "nat \<Rightarrow> open_file \<Rightarrow> fsys \<Rightarrow> (int \<times> fsys) option" where
  "file_length me f s = inode_length me (f_inode f) s"

definition file_seek :: "open_file \<Rightarrow> int \<Rightarrow> open_file option" where
  "file_seek f new_pos = do { kassert (0 \<le> new_pos); Some (f\<lparr>f_pos := new_pos\<rparr>) }"

definition file_tell :: "open_file \<Rightarrow> int" where
  "file_tell f = f_pos f"

section \<open>Directories\<close>

definition NAME_MAX :: nat where
  "NAME_MAX = 14"

record dir =
  dr_inode :: nat
  dr_pos :: int

text \<open>\<open>struct dir_entry\<close>: 24 bytes with the sector at 0, the name at 4, \<open>in_use\<close> at 19 and \<open>is_dir\<close> at 20.
  A name without terminator runs on into the next fields, as \<open>strcmp\<close> does.\<close>

definition DIR_ENTRY_SIZE :: nat where
  "DIR_ENTRY_SIZE = 24"

definition e_sector :: "byte list \<Rightarrow> nat" where
  "e_sector e = get32 e 0"

definition e_name :: "byte list \<Rightarrow> byte list" where
  "e_name e = takeWhile (\<lambda>b. b \<noteq> 0) (drop 4 e)"

definition e_in_use :: "byte list \<Rightarrow> bool" where
  "e_in_use e \<longleftrightarrow> e ! 19 \<noteq> 0"

definition e_is_dir :: "byte list \<Rightarrow> bool" where
  "e_is_dir e \<longleftrightarrow> e ! 20 \<noteq> 0"

definition set_in_use :: "bool \<Rightarrow> byte list \<Rightarrow> byte list" where
  "set_in_use v e = e[19 := (if v then 1 else 0)]"

definition set_is_dir :: "bool \<Rightarrow> byte list \<Rightarrow> byte list" where
  "set_is_dir v e = e[20 := (if v then 1 else 0)]"

text \<open>\<open>strlcpy (e.name, name, sizeof e.name)\<close>.\<close>

definition set_name :: "byte list \<Rightarrow> byte list \<Rightarrow> byte list" where
  "set_name name e = (let n = take NAME_MAX name @ [0] in patch 4 (4 + length n) n e)"

definition set_sector :: "nat \<Rightarrow> byte list \<Rightarrow> byte list" where
  "set_sector sec e = put32 0 sec e"

definition dir_lock :: "bool \<Rightarrow> nat \<Rightarrow> nat \<Rightarrow> fsys \<Rightarrow> fsys option" where
  "dir_lock w me sec s =
     do {
       kassert (sec < SECTOR_NUM);
       l \<leftarrow> taken (if w then w_lock_acquire me (dir_locks s sec) else r_lock_acquire me (dir_locks s sec));
       Some (s\<lparr>dir_locks := (dir_locks s)(sec := l)\<rparr>)
     }"

definition dir_unlock :: "bool \<Rightarrow> nat \<Rightarrow> nat \<Rightarrow> fsys \<Rightarrow> fsys option" where
  "dir_unlock w me sec s =
     do {
       kassert (sec < SECTOR_NUM);
       l \<leftarrow> released me w s (dir_locks s sec);
       Some (s\<lparr>dir_locks := (dir_locks s)(sec := l)\<rparr>)
     }"

definition dir_init :: "fsys \<Rightarrow> fsys" where
  "dir_init s = s\<lparr>dir_locks := (\<lambda>_. rw_lock_init)\<rparr>"

definition dir_create :: "nat \<Rightarrow> nat \<Rightarrow> nat \<Rightarrow> fsys \<Rightarrow> (bool \<times> fsys) option" where
  "dir_create d me sec s = inode_create d me sec 0 s"

definition dir_open :: "nat \<Rightarrow> nat \<Rightarrow> nat option \<Rightarrow> fsys \<Rightarrow> (dir option \<times> fsys) option" where
  "dir_open d me ip s =
     do {
       let (ok, s) = kmalloc s;
       case ip of
         Some p \<Rightarrow> if ok then Some (Some \<lparr>dr_inode = p, dr_pos = 4\<rparr>, s)
                   else do { s \<leftarrow> inode_close d me ip s; Some (None, s) }
       | None \<Rightarrow> do { s \<leftarrow> inode_close d me ip s; Some (None, s) }
     }"

definition dir_open_root :: "nat \<Rightarrow> nat \<Rightarrow> fsys \<Rightarrow> (dir option \<times> fsys) option" where
  "dir_open_root d me s = do { (ip, s) \<leftarrow> inode_open ROOT_DIR_SECTOR s; dir_open d me ip s }"

definition dir_reopen :: "nat \<Rightarrow> nat \<Rightarrow> dir \<Rightarrow> fsys \<Rightarrow> (dir option \<times> fsys) option" where
  "dir_reopen d me r s = do { (ip, s) \<leftarrow> inode_reopen (Some (dr_inode r)) s; dir_open d me ip s }"

definition dir_close :: "nat \<Rightarrow> nat \<Rightarrow> dir option \<Rightarrow> fsys \<Rightarrow> fsys option" where
  "dir_close d me rp s = (case rp of None \<Rightarrow> Some s | Some r \<Rightarrow> inode_close d me (Some (dr_inode r)) s)"

definition dir_get_inode :: "dir \<Rightarrow> nat" where
  "dir_get_inode r = dr_inode r"

text \<open>The static \<open>lookup\<close> of \<open>directory.c\<close>: the entry and its offset, if the name is in use. The loop
  reads the length of the directory anew at every turn.\<close>

partial_function (option) dir_search ::
  "nat \<Rightarrow> nat \<Rightarrow> nat \<Rightarrow> byte list \<Rightarrow> nat \<Rightarrow> fsys \<Rightarrow> ((byte list \<times> nat) option \<times> fsys) option" where
  "dir_search d me ip name ofs s =
     do {
       (len, s) \<leftarrow> inode_length me ip s;
       if \<not> s32 (int ofs) < len then Some (None, s)
       else do {
         (e, s) \<leftarrow> inode_read_at d me ip (int DIR_ENTRY_SIZE) (s32 (int ofs)) s;
         if length e \<noteq> DIR_ENTRY_SIZE then Some (None, s)
         else if e_in_use e \<and> name = e_name e then Some (Some (e, ofs), s)
         else dir_search d me ip name (u32 (ofs + DIR_ENTRY_SIZE)) s
       }
     }"

definition dir_entry_lookup ::
  "nat \<Rightarrow> nat \<Rightarrow> dir \<Rightarrow> byte list \<Rightarrow> fsys \<Rightarrow> ((byte list \<times> nat) option \<times> fsys) option" where
  "dir_entry_lookup d me r name s = dir_search d me (dr_inode r) name 4 s"

definition dir_lookup :: "nat \<Rightarrow> nat \<Rightarrow> dir \<Rightarrow> byte list \<Rightarrow> fsys \<Rightarrow> ((nat \<times> bool) option \<times> fsys) option" where
  "dir_lookup d me r name s =
     do {
       sec \<leftarrow> inode_get_inumber (dr_inode r) s;
       s \<leftarrow> dir_lock False me sec s;
       (hit, s) \<leftarrow> dir_entry_lookup d me r name s;
       (res, s) \<leftarrow> (case hit of
           Some (e, ofs) \<Rightarrow> do { (ip, s) \<leftarrow> inode_open (e_sector e) s; Some (map_option (\<lambda>p. (p, e_is_dir e)) ip, s) }
         | None \<Rightarrow> Some (None, s));
       s \<leftarrow> dir_unlock False me sec s;
       Some (res, s)
     }"

text \<open>The search for a free slot in \<open>dir_add\<close>: its offset, and what the local entry holds then. A short
  read overwrites only the front of it.\<close>

partial_function (option) dir_free_slot ::
  "nat \<Rightarrow> nat \<Rightarrow> nat \<Rightarrow> byte list \<Rightarrow> int \<Rightarrow> fsys \<Rightarrow> (byte list \<times> int \<times> fsys) option" where
  "dir_free_slot d me ip e ofs s =
     do {
       (bs, s) \<leftarrow> inode_read_at d me ip (int DIR_ENTRY_SIZE) ofs s;
       let e = patch 0 (length bs) bs e;
       if length bs \<noteq> DIR_ENTRY_SIZE then Some (e, ofs, s)
       else if \<not> e_in_use e then Some (e, ofs, s)
       else dir_free_slot d me ip e (s32 (ofs + int DIR_ENTRY_SIZE)) s
     }"

definition dir_new_entry :: "byte list \<Rightarrow> nat \<Rightarrow> bool \<Rightarrow> byte list \<Rightarrow> byte list" where
  "dir_new_entry name inode_sector is_dir e =
     set_sector inode_sector (set_name name (set_is_dir is_dir (set_in_use True e)))"

definition dir_add :: "nat \<Rightarrow> nat \<Rightarrow> byte list \<Rightarrow> dir \<Rightarrow> byte list \<Rightarrow> nat \<Rightarrow> bool \<Rightarrow> fsys \<Rightarrow> (bool \<times> fsys) option" where
  "dir_add d me junk r name inode_sector is_dir s =
     (if name = [] \<or> NAME_MAX < length name then Some (False, s)
      else do {
        sec \<leftarrow> inode_get_inumber (dr_inode r) s;
        s \<leftarrow> dir_lock True me sec s;
        (hit, s) \<leftarrow> dir_entry_lookup d me r name s;
        (success, s) \<leftarrow> (case hit of Some _ \<Rightarrow> Some (False, s) | None \<Rightarrow> do {
          (e, ofs, s) \<leftarrow> dir_free_slot d me (dr_inode r) junk 4 s;
          let e = dir_new_entry name inode_sector is_dir e;
          (n, s) \<leftarrow> inode_write_at d me (dr_inode r) e (int DIR_ENTRY_SIZE) ofs s;
          kassert (n = int DIR_ENTRY_SIZE);
          if \<not> is_dir then Some (True, s)
          else do {
            (ip, s) \<leftarrow> inode_open (e_sector e) s;
            p \<leftarrow> ip;
            (n, s) \<leftarrow> inode_write_at d me p (le32 sec) 4 0 s;
            s \<leftarrow> inode_close d me (Some p) s;
            Some (n = 4, s)
          }});
        s \<leftarrow> dir_unlock True me sec s;
        Some (success, s)
      })"

definition dir_remove :: "nat \<Rightarrow> nat \<Rightarrow> dir \<Rightarrow> byte list \<Rightarrow> fsys \<Rightarrow> (bool \<times> fsys) option" where
  "dir_remove d me r name s =
     do {
       sec \<leftarrow> inode_get_inumber (dr_inode r) s;
       s \<leftarrow> dir_lock True me sec s;
       (hit, s) \<leftarrow> dir_entry_lookup d me r name s;
       (ip, success, s) \<leftarrow> (case hit of None \<Rightarrow> Some (None, False, s) | Some (e, ofs) \<Rightarrow> do {
         (ip, s) \<leftarrow> inode_open (e_sector e) s;
         p \<leftarrow> ip;
         i \<leftarrow> inodes s p;
         if e_is_dir e \<and> 1 < i_open_cnt i then Some (ip, False, s)
         else do {
           (n, s) \<leftarrow> inode_write_at d me (dr_inode r) (set_in_use False e) (int DIR_ENTRY_SIZE) (s32 (int ofs)) s;
           if n \<noteq> int DIR_ENTRY_SIZE then Some (ip, False, s)
           else do { s \<leftarrow> inode_remove p s; Some (ip, True, s) }
         }});
       s \<leftarrow> inode_close d me ip s;
       s \<leftarrow> dir_unlock True me sec s;
       Some (success, s)
     }"

partial_function (option) readdir_loop ::
  "nat \<Rightarrow> nat \<Rightarrow> dir \<Rightarrow> fsys \<Rightarrow> (byte list option \<times> dir \<times> fsys) option" where
  "readdir_loop d me r s =
     do {
       (e, s) \<leftarrow> inode_read_at d me (dr_inode r) (int DIR_ENTRY_SIZE) (dr_pos r) s;
       if length e \<noteq> DIR_ENTRY_SIZE then Some (None, r, s)
       else do {
         let r = r\<lparr>dr_pos := s32 (dr_pos r + int DIR_ENTRY_SIZE)\<rparr>;
         if e_in_use e then Some (Some (take NAME_MAX (e_name e)), r, s)
         else readdir_loop d me r s
       }
     }"

definition dir_readdir :: "nat \<Rightarrow> nat \<Rightarrow> dir \<Rightarrow> fsys \<Rightarrow> (byte list option \<times> dir \<times> fsys) option" where
  "dir_readdir d me r s =
     do {
       sec \<leftarrow> inode_get_inumber (dr_inode r) s;
       s \<leftarrow> dir_lock False me sec s;
       (name, r, s) \<leftarrow> readdir_loop d me r s;
       s \<leftarrow> dir_unlock False me sec s;
       Some (name, r, s)
     }"

definition dir_get_parent_dir :: "nat \<Rightarrow> nat \<Rightarrow> dir \<Rightarrow> fsys \<Rightarrow> (dir option \<times> fsys) option" where
  "dir_get_parent_dir d me r s =
     do {
       sec \<leftarrow> inode_get_inumber (dr_inode r) s;
       (parent, s) \<leftarrow> (if sec = ROOT_DIR_SECTOR then Some (ROOT_DIR_SECTOR, s)
          else do {
            (bs, s) \<leftarrow> inode_read_at d me (dr_inode r) 4 0 s;
            kassert (length bs = 4);
            Some (of_le bs, s)
          });
       (ip, s) \<leftarrow> inode_open parent s;
       dir_open d me ip s
     }"

section \<open>The free map and its file\<close>

fun words_of :: "byte list \<Rightarrow> 32 word list" where
  "words_of (a # b # c # e # bs) = word_of_nat (of_le [a, b, c, e]) # words_of bs"
| "words_of _ = []"

definition bitmap_read :: "nat \<Rightarrow> nat \<Rightarrow> bitmap \<Rightarrow> open_file \<Rightarrow> fsys \<Rightarrow> (bool \<times> bitmap \<times> fsys) option" where
  "bitmap_read d me b f s =
     (if 0 < bit_cnt b
      then do {
        let sz = byte_cnt (bit_cnt b);
        (bs, s) \<leftarrow> file_read_at d me f (int sz) 0 s;
        let b = b\<lparr>bits := words_of (patch 0 (length bs) bs (bm_bytes b))\<rparr>;
        b \<leftarrow> upd_elem b (elem_cnt (bit_cnt b) - 1) (\<lambda>w. w AND last_mask b);
        Some (length bs = sz, b, s)
      }
      else Some (True, b, s))"

definition bitmap_write :: "nat \<Rightarrow> nat \<Rightarrow> bitmap \<Rightarrow> open_file option \<Rightarrow> fsys \<Rightarrow> (bool \<times> fsys) option" where
  "bitmap_write d me = bitmap_write_with (inode_write_at d me)"

definition free_map_init :: "32 word list \<Rightarrow> fsys \<Rightarrow> fsys option" where
  "free_map_init junk s =
     do {
       let (hdr, s) = kmalloc s;
       let (buf, s) = (if hdr then kmalloc s else (False, s));
       b \<leftarrow> bitmap_create hdr (if buf then Some junk else None) (cached_block_size (fs_device s));
       b \<leftarrow> b;
       b \<leftarrow> bitmap_mark b FREE_MAP_SECTOR;
       b \<leftarrow> bitmap_mark b ROOT_DIR_SECTOR;
       Some (s\<lparr>free_map := b\<rparr>)
     }"

definition free_map_open :: "nat \<Rightarrow> nat \<Rightarrow> fsys \<Rightarrow> fsys option" where
  "free_map_open d me s =
     do {
       (ip, s) \<leftarrow> inode_open FREE_MAP_SECTOR s;
       (fp, s) \<leftarrow> file_open d me ip s;
       let s = s\<lparr>free_map_file := fp\<rparr>;
       f \<leftarrow> fp;
       (ok, b, s) \<leftarrow> bitmap_read d me (free_map s) f s;
       kassert ok;
       Some (s\<lparr>free_map := b\<rparr>)
     }"

definition free_map_close :: "nat \<Rightarrow> nat \<Rightarrow> fsys \<Rightarrow> fsys option" where
  "free_map_close d me s = file_close d me (free_map_file s) s"

definition free_map_create :: "nat \<Rightarrow> nat \<Rightarrow> fsys \<Rightarrow> fsys option" where
  "free_map_create d me s =
     do {
       (ok, s) \<leftarrow> inode_create d me FREE_MAP_SECTOR (int (bitmap_file_size (free_map s))) s;
       kassert ok;
       (ip, s) \<leftarrow> inode_open FREE_MAP_SECTOR s;
       (fp, s) \<leftarrow> file_open d me ip s;
       let s = s\<lparr>free_map_file := fp\<rparr>;
       f \<leftarrow> fp;
       (ok, s) \<leftarrow> bitmap_write d me (free_map s) fp s;
       kassert ok;
       Some s
     }"

section \<open>The file system\<close>

definition do_format :: "nat \<Rightarrow> nat \<Rightarrow> fsys \<Rightarrow> fsys option" where
  "do_format d me s =
     do {
       s \<leftarrow> free_map_create d me s;
       (ok, s) \<leftarrow> dir_create d me ROOT_DIR_SECTOR s;
       kassert ok;
       free_map_close d me s
     }"

definition filesys_init :: "nat \<Rightarrow> nat \<Rightarrow> nat list \<Rightarrow> 32 word list \<Rightarrow> block \<Rightarrow> bool \<Rightarrow> fsys \<Rightarrow> fsys option" where
  "filesys_init d me junk_queue junk_bits role format s =
     do {
       let s = s\<lparr>fs_device := cached_block_init junk_queue role 64\<rparr>;
       s \<leftarrow> free_map_init junk_bits s;
       s \<leftarrow> (if format then do_format d me s else Some s);
       free_map_open d me s
     }"

definition filesys_done :: "nat \<Rightarrow> nat \<Rightarrow> fsys \<Rightarrow> fsys option" where
  "filesys_done d me s =
     do { c \<leftarrow> fflush_all me (fs_device s); free_map_close d me (s\<lparr>fs_device := c\<rparr>) }"

definition dot :: "byte list" where
  "dot = [46]"

definition dotdot :: "byte list" where
  "dotdot = [46, 46]"

definition filesys_create :: "nat \<Rightarrow> nat \<Rightarrow> byte list \<Rightarrow> byte list \<Rightarrow> dir option \<Rightarrow> int \<Rightarrow> bool \<Rightarrow> fsys \<Rightarrow> (bool \<times> fsys) option" where
  "filesys_create d me junk name rp initial_size is_dir s =
     (if name = dot \<or> name = dotdot then Some (False, s)
      else case rp of None \<Rightarrow> Some (False, s) | Some r \<Rightarrow> do {
        (p, s) \<leftarrow> free_map_allocate d me s;
        case p of None \<Rightarrow> Some (False, s) | Some inode_sector \<Rightarrow> do {
          (ok, s) \<leftarrow> inode_create d me inode_sector initial_size s;
          (success, s) \<leftarrow> (if ok then dir_add d me junk r name inode_sector is_dir s else Some (False, s));
          s \<leftarrow> (if \<not> success \<and> inode_sector \<noteq> 0 then free_map_release d me inode_sector s else Some s);
          Some (success, s)
        }})"

text \<open>The second component is what \<open>*is_dir\<close> was set to, if it was set.\<close>

definition filesys_open :: "nat \<Rightarrow> nat \<Rightarrow> dir option \<Rightarrow> byte list \<Rightarrow> fsys \<Rightarrow> (open_file option \<times> bool option \<times> fsys) option" where
  "filesys_open d me rp name s =
     do {
       (hit, s) \<leftarrow> (case rp of None \<Rightarrow> Some (None, s) | Some r \<Rightarrow> dir_lookup d me r name s);
       (ip, is_dir, s) \<leftarrow> (case hit of
           Some (p, b) \<Rightarrow> Some (Some p, Some b, s)
         | None \<Rightarrow> if name = [] \<or> name = dot
             then do { r \<leftarrow> rp; (ip, s) \<leftarrow> inode_reopen (Some (dir_get_inode r)) s; Some (ip, Some True, s) }
             else Some (None, None, s));
       (fp, s) \<leftarrow> file_open d me ip s;
       Some (fp, is_dir, s)
     }"

definition filesys_remove :: "nat \<Rightarrow> nat \<Rightarrow> dir option \<Rightarrow> byte list \<Rightarrow> fsys \<Rightarrow> (bool \<times> fsys) option" where
  "filesys_remove d me rp name s = (case rp of None \<Rightarrow> Some (False, s) | Some r \<Rightarrow> dir_remove d me r name s)"

end
