(* ===== verification/InodeIndex.thy ===== *)
theory InodeIndex
  imports Inode
begin

text \<open>
  The layer below the index of an inode (buffers, the buffer cache, locks) as facts about the contents
  of sectors, the index as a tree of sectors, and the two loops that move bytes through it.
\<close>

section \<open>Buffers\<close>

lemma segment_patch:
  "s \<le> e \<Longrightarrow> e \<le> length xs \<Longrightarrow> length buf = e - s \<Longrightarrow> segment s e (patch s e buf xs) = buf"
  by (simp add: segment_def patch_def)

lemma nth_patch:
  assumes "s \<le> e" "e \<le> length xs" "e - s \<le> length buf" "i < length xs"
  shows "patch s e buf xs ! i = (if s \<le> i \<and> i < e then buf ! (i - s) else xs ! i)"
  using assms by (auto simp: patch_def nth_append min_def)

lemma length_patch' [simp]: "s \<le> e \<Longrightarrow> e \<le> length xs \<Longrightarrow> e - s \<le> length buf \<Longrightarrow> length (patch s e buf xs) = length xs"
  by (simp add: patch_def)

lemma length_segment [simp]: "s \<le> e \<Longrightarrow> e \<le> length xs \<Longrightarrow> length (segment s e xs) = e - s"
  by (simp add: segment_def)

lemma nth_segment: "s \<le> e \<Longrightarrow> e \<le> length xs \<Longrightarrow> i < e - s \<Longrightarrow> segment s e xs ! i = xs ! (s + i)"
  by (simp add: segment_def)

lemma segment_patch_other:
  assumes "s \<le> e" "e \<le> length xs" "e - s \<le> length buf" "a \<le> b" "b \<le> length xs" "b \<le> s \<or> e \<le> a"
  shows "segment a b (patch s e buf xs) = segment a b xs"
  using assms by (intro nth_equalityI) (auto simp: nth_segment nth_patch)

lemma unat_word_of_nat8: "unat (word_of_nat v :: byte) = v mod 2 ^ 8"
  by (simp add: unsigned_of_nat take_bit_eq_mod)

lemma of_le_le16: "of_le (le16 v) = v mod 2 ^ 16"
proof -
  have "v mod 65536 = v mod 256 + 256 * (v div 256 mod 256)" using mod_mult2_eq [of v 256 256] by simp
  then show ?thesis by (simp add: le16_def unat_word_of_nat8)
qed

lemma of_le_le32: "of_le (le32 v) = v mod 2 ^ 32"
proof -
  have 1: "v mod 65536 = v mod 256 + 256 * (v div 256 mod 256)" using mod_mult2_eq [of v 256 256] by simp
  have 2: "v mod 16777216 = v mod 65536 + 65536 * (v div 65536 mod 256)" using mod_mult2_eq [of v 65536 256] by simp
  have 3: "v mod 4294967296 = v mod 16777216 + 16777216 * (v div 16777216 mod 256)" using mod_mult2_eq [of v 16777216 256] by simp
  show ?thesis unfolding le32_def by (simp add: unat_word_of_nat8 1 2 3)
qed

lemma le_length [simp]: "length (le16 v) = 2" "length (le32 v) = 4"
  by (simp_all add: le16_def le32_def)

lemma get16_set16:
  assumes "2 * i + 2 \<le> length bs" "2 * j + 2 \<le> length bs"
  shows "get16 (set16 i v bs) j = (if i = j then v mod 2 ^ 16 else get16 bs j)"
proof (cases "i = j")
  case True
  then show ?thesis using assms by (simp add: get16_def set16_def segment_patch of_le_le16)
next
  case False
  then have "2 * j + 2 \<le> 2 * i \<or> 2 * i + 2 \<le> 2 * j" by arith
  then show ?thesis using False assms by (simp add: get16_def set16_def segment_patch_other)
qed

lemma get32_put32:
  assumes "i + 4 \<le> length bs" "j + 4 \<le> length bs" "i = j \<or> i + 4 \<le> j \<or> j + 4 \<le> i"
  shows "get32 (put32 i v bs) j = (if i = j then v mod 2 ^ 32 else get32 bs j)"
  using assms by (auto simp: get32_def put32_def segment_patch of_le_le32 segment_patch_other)

lemma length_set16 [simp]: "2 * i + 2 \<le> length bs \<Longrightarrow> length (set16 i v bs) = length bs"
  by (simp add: set16_def)

lemma length_put32 [simp]: "i + 4 \<le> length bs \<Longrightarrow> length (put32 i v bs) = length bs"
  by (simp add: put32_def)

lemma get16_lt: "length bs \<ge> 2 * i + 2 \<Longrightarrow> get16 bs i < 2 ^ 16"
proof -
  assume "length bs \<ge> 2 * i + 2"
  then have "length (segment (2 * i) (2 * i + 2) bs) = 2" by simp
  then obtain a b where ab: "segment (2 * i) (2 * i + 2) bs = [a, b]" by (auto simp: length_Suc_conv numeral_2_eq_2)
  have "unat a < 256" "unat b < 256" using unsigned_less [of a, where ?'a = nat] unsigned_less [of b, where ?'a = nat] by simp_all
  then show ?thesis unfolding get16_def ab by simp
qed

lemma get16_ones [simp]: "i < 256 \<Longrightarrow> get16 ones i = NOSECTOR"
proof -
  assume "i < 256"
  then have "segment (2 * i) (2 * i + 2) ones = [- 1, - 1]"
    by (intro nth_equalityI) (auto simp: nth_segment ones_def BLOCK_SECTOR_SIZE_def less_2_cases_iff)
  then show ?thesis by (simp add: get16_def NOSECTOR_def unsigned_minus_1_eq_mask mask_eq_exp_minus_1)
qed

lemma length_ones [simp]: "length ones = BLOCK_SECTOR_SIZE" "length zeros = BLOCK_SECTOR_SIZE"
  by (simp_all add: ones_def zeros_def)

lemma off_bits_inverse: "0 \<le> x \<Longrightarrow> x < 2 ^ 31 \<Longrightarrow> s32 (int (off_bits x mod 2 ^ 32)) = x"
  by (simp add: off_bits_def s32_def)

section \<open>The file system over the cache\<close>

abbreviation contents_of :: "fsys \<Rightarrow> nat \<Rightarrow> byte list" where
  "contents_of s \<equiv> view (fs_device s)"

abbreviation cap_of :: "fsys \<Rightarrow> nat" where
  "cap_of s \<equiv> cached_block_size (fs_device s)"

definition fs_ok :: "nat \<Rightarrow> fsys \<Rightarrow> bool" where
  "fs_ok n s \<longleftrightarrow> store_inv n (fs_device s) \<and> mallocs s = []"

text \<open>\<open>io s v s'\<close>: from \<open>s\<close> to \<open>s'\<close> nothing but the device changes, and its contents are \<open>v\<close>.\<close>

definition io :: "fsys \<Rightarrow> (nat \<Rightarrow> byte list) \<Rightarrow> fsys \<Rightarrow> bool" where
  "io s v s' \<longleftrightarrow> s' = s\<lparr>fs_device := fs_device s'\<rparr> \<and> contents_of s' = v \<and> cap_of s' = cap_of s"

named_theorems io_simps \<open>fields of a state after input and output\<close>

lemma io_fields [io_simps]:
  assumes "io s v s'"
  shows "contents_of s' = v" "cap_of s' = cap_of s" "inodes s' = inodes s" "free_map s' = free_map s"
    "free_map_file s' = free_map_file s" "open_inodes s' = open_inodes s" "next_inode s' = next_inode s"
    "dir_locks s' = dir_locks s" "mallocs s' = mallocs s"
proof -
  have eq: "s' = s\<lparr>fs_device := fs_device s'\<rparr>" and v: "contents_of s' = v" "cap_of s' = cap_of s"
    using assms by (auto simp: io_def)
  show "contents_of s' = v" "cap_of s' = cap_of s" by (rule v)+
  show "inodes s' = inodes s" "free_map s' = free_map s"
    "free_map_file s' = free_map_file s" "open_inodes s' = open_inodes s" "next_inode s' = next_inode s"
    "dir_locks s' = dir_locks s" "mallocs s' = mallocs s" by (subst eq, simp)+
qed

lemma io_trans: "io s v s' \<Longrightarrow> io s' w s'' \<Longrightarrow> io s w s''"
proof -
  assume a: "io s v s'" "io s' w s''"
  then have "s'' = s'\<lparr>fs_device := fs_device s''\<rparr>" "s' = s\<lparr>fs_device := fs_device s'\<rparr>" by (auto simp: io_def)
  then have "s'' = s\<lparr>fs_device := fs_device s''\<rparr>" by (cases s, cases s', cases s'') simp
  then show ?thesis using a by (simp add: io_def)
qed

lemma io_refl: "io s (contents_of s) s"
  by (simp add: io_def)

lemma io_device: "io s (view c) (s\<lparr>fs_device := c\<rparr>)" if "cached_block_size c = cap_of s"
  using that by (simp add: io_def)

lemma fs_ok_mono: "fs_ok m s \<Longrightarrow> n \<le> m \<Longrightarrow> fs_ok n s"
  using cache.inv_mono by (auto simp: fs_ok_def)

lemma fs_okD: "fs_ok n s \<Longrightarrow> mallocs s = []" "fs_ok n s \<Longrightarrow> store_inv n (fs_device s)"
  by (simp_all add: fs_ok_def)

lemma contents_length: "fs_ok n s \<Longrightarrow> sec < cap_of s \<Longrightarrow> length (contents_of s sec) = BLOCK_SECTOR_SIZE"
  using cache.len by (auto simp: fs_ok_def)

lemma cap_le: "fs_ok n s \<Longrightarrow> cap_of s \<le> SECTOR_NUM"
  by (simp add: fs_ok_def store_inv_def cinv_def cached_block_size_def)

lemma kmalloc_ok [simp]: "mallocs s = [] \<Longrightarrow> kmalloc s = (True, s)"
  by (simp add: kmalloc_def)

lemma bread_segment_ok:
  assumes ok: "fs_ok n s" and sec: "sec < cap_of s" and ab: "a < b" "b \<le> BLOCK_SECTOR_SIZE"
  shows "\<exists>s'. bread_segment me sec a b s = Some (segment a b (contents_of s sec), s') \<and> io s (contents_of s) s' \<and> fs_ok n s'"
proof -
  from cache.rd [OF fs_okD(2) [OF ok] sec ab, of me] obtain c where
    c: "cached_block_read_segment True me sec a b (fs_device s) = Some (segment a b (contents_of s sec), c)"
      "store_inv n c" "cached_block_size c = cap_of s" "view c = contents_of s" by blast
  then have "bread_segment me sec a b s = Some (segment a b (contents_of s sec), s\<lparr>fs_device := c\<rparr>)"
    using fs_okD(1) [OF ok] by (simp add: bread_segment_def)
  moreover have "io s (contents_of s) (s\<lparr>fs_device := c\<rparr>)" "fs_ok n (s\<lparr>fs_device := c\<rparr>)"
    using c ok by (simp_all add: io_def fs_ok_def)
  ultimately show ?thesis by blast
qed

lemma bread_ok:
  assumes ok: "fs_ok n s" and sec: "sec < cap_of s"
  shows "\<exists>s'. bread me sec s = Some (contents_of s sec, s') \<and> io s (contents_of s) s' \<and> fs_ok n s'"
proof -
  have "sec < SECTOR_NUM" using sec cap_le [OF ok] by simp
  then have "bread me sec s = bread_segment me sec 0 BLOCK_SECTOR_SIZE s"
    by (simp add: bread_def bread_segment_def cached_block_read_def)
  then show ?thesis using bread_segment_ok [OF ok sec, of 0 BLOCK_SECTOR_SIZE me] contents_length [OF ok sec]
    by (simp add: segment_def BLOCK_SECTOR_SIZE_def)
qed

lemma bwrite_segment_ok:
  assumes ok: "fs_ok (Suc n) s" and sec: "sec < cap_of s" and ab: "a \<le> b" "b \<le> BLOCK_SECTOR_SIZE" "b - a \<le> length buf"
  shows "\<exists>s'. bwrite_segment me sec a b buf s = Some s'
    \<and> io s ((contents_of s)(sec := patch a b buf (contents_of s sec))) s' \<and> fs_ok n s'"
proof -
  from cache.wr [OF fs_okD(2) [OF ok] sec ab, of me] obtain c where
    c: "cached_block_write_segment True me sec a b buf None (fs_device s) = Some c"
      "store_inv n c" "cached_block_size c = cap_of s" "view c = (contents_of s)(sec := patch a b buf (contents_of s sec))"
    by blast
  then have "bwrite_segment me sec a b buf s = Some (s\<lparr>fs_device := c\<rparr>)"
    using fs_okD(1) [OF ok] by (simp add: bwrite_segment_def)
  moreover have "io s ((contents_of s)(sec := patch a b buf (contents_of s sec))) (s\<lparr>fs_device := c\<rparr>)"
    "fs_ok n (s\<lparr>fs_device := c\<rparr>)" using c ok by (simp_all add: io_def fs_ok_def)
  ultimately show ?thesis by blast
qed

lemma bwrite_ok:
  assumes ok: "fs_ok (Suc n) s" and sec: "sec < cap_of s" and buf: "length buf = BLOCK_SECTOR_SIZE"
  shows "\<exists>s'. bwrite me sec buf s = Some s' \<and> io s ((contents_of s)(sec := buf)) s' \<and> fs_ok n s'"
proof -
  have "sec < SECTOR_NUM" using sec cap_le [OF ok] by simp
  then have "bwrite me sec buf s = bwrite_segment me sec 0 BLOCK_SECTOR_SIZE buf s"
    by (simp add: bwrite_def bwrite_segment_def cached_block_write_def)
  then show ?thesis using bwrite_segment_ok [OF ok sec, of 0 BLOCK_SECTOR_SIZE buf me] contents_length [OF ok sec] buf
    by (simp add: patch_def)
qed

section \<open>The index as a tree of sectors\<close>

datatype node = NRoot | N1 nat | N2 nat nat | N3 nat nat nat

fun vnode :: "node \<Rightarrow> bool" where
  "vnode NRoot \<longleftrightarrow> True"
| "vnode (N1 a) \<longleftrightarrow> a < 32"
| "vnode (N2 a b) \<longleftrightarrow> a < 32 \<and> b < 32"
| "vnode (N3 a b c) \<longleftrightarrow> a < 32 \<and> b < 32 \<and> c < 32"

definition slot :: "(nat \<Rightarrow> byte list) \<Rightarrow> nat \<Rightarrow> nat \<Rightarrow> nat option" where
  "slot v p i = (if get16 (v p) i = NOSECTOR then None else Some (get16 (v p) i))"

text \<open>The sector of a node, in the index with root sector \<open>r\<close>.\<close>

fun at :: "(nat \<Rightarrow> byte list) \<Rightarrow> nat \<Rightarrow> node \<Rightarrow> nat option" where
  "at v r NRoot = Some r"
| "at v r (N1 a) = slot v r a"
| "at v r (N2 a b) = do { p \<leftarrow> slot v r a; slot v p b }"
| "at v r (N3 a b c) = do { p \<leftarrow> slot v r a; q \<leftarrow> slot v p b; slot v q c }"

lemma at_down:
  "at v r (N2 a b) = Option.bind (at v r (N1 a)) (\<lambda>p. slot v p b)"
  "at v r (N3 a b c) = Option.bind (at v r (N2 a b)) (\<lambda>p. slot v p c)"
  by (simp_all add: Option.bind_assoc)

declare at.simps(3,4) [simp del] at_down [simp]

definition block_node :: "nat \<Rightarrow> node" where
  "block_node k = N3 (k div 2 ^ 10) ((k div 2 ^ 5) mod 2 ^ 5) (k mod 2 ^ 5)"

text \<open>The sector of block \<open>k\<close> of the file.\<close>

definition bmap :: "(nat \<Rightarrow> byte list) \<Rightarrow> nat \<Rightarrow> nat \<Rightarrow> nat option" where
  "bmap v r k = at v r (block_node k)"

definition MAX_BLOCKS :: nat where
  "MAX_BLOCKS = 2 ^ 15"

definition footprint :: "(nat \<Rightarrow> byte list) \<Rightarrow> nat \<Rightarrow> nat set" where
  "footprint v r = {p. \<exists>n. vnode n \<and> at v r n = Some p}"

text \<open>Every node has a sector of its own, inside the device.\<close>

definition tree_ok :: "nat \<Rightarrow> (nat \<Rightarrow> byte list) \<Rightarrow> nat \<Rightarrow> bool" where
  "tree_ok cap v r \<longleftrightarrow> footprint v r \<subseteq> {0<..<cap}
     \<and> (\<forall>n n' p. vnode n \<and> vnode n' \<and> at v r n = Some p \<and> at v r n' = Some p \<longrightarrow> n = n')"

lemma block_node_simps: "k < MAX_BLOCKS \<Longrightarrow> vnode (block_node k)"
  by (auto simp: block_node_def MAX_BLOCKS_def)

lemma block_node_inj: "block_node k = block_node k' \<longleftrightarrow> k = k'"
proof
  assume "block_node k = block_node k'"
  then have "k div 2 ^ 5 div 2 ^ 5 = k' div 2 ^ 5 div 2 ^ 5" "k div 2 ^ 5 mod 2 ^ 5 = k' div 2 ^ 5 mod 2 ^ 5" "k mod 2 ^ 5 = k' mod 2 ^ 5"
    by (simp_all add: block_node_def div_mult2_eq [symmetric])
  then show "k = k'" by (metis div_mod_decomp)
qed simp

lemma block_node_is_leaf: "block_node k \<noteq> NRoot" "block_node k \<noteq> N1 a" "block_node k \<noteq> N2 a b"
  by (simp_all add: block_node_def)

lemma footprintI: "vnode n \<Longrightarrow> at v r n = Some p \<Longrightarrow> p \<in> footprint v r"
  by (auto simp: footprint_def)

lemma tree_okD:
  assumes "tree_ok cap v r"
  shows "p \<in> footprint v r \<Longrightarrow> 0 < p \<and> p < cap"
    "vnode n \<Longrightarrow> at v r n = Some p \<Longrightarrow> 0 < p \<and> p < cap"
    "vnode n \<Longrightarrow> vnode n' \<Longrightarrow> at v r n = Some p \<Longrightarrow> at v r n' = Some p \<Longrightarrow> n = n'"
    "0 < r \<and> r < cap"
  using assms footprintI [of NRoot v r r] by (auto simp: tree_ok_def footprint_def)

text \<open>A change of sectors that hold no index leaves the tree as it is.\<close>

lemma at_cong:
  assumes "\<And>n p. vnode n \<Longrightarrow> at v r n = Some p \<Longrightarrow> (\<forall>a b c. n \<noteq> N3 a b c) \<Longrightarrow> w p = v p" and "vnode m"
  shows "at w r m = at v r m"
proof -
  have r: "w r = v r" using assms(1) [of NRoot r] by simp
  have 1: "at w r (N1 a) = at v r (N1 a)" for a by (simp add: slot_def r)
  have 2: "at w r (N2 a b) = at v r (N2 a b)" if "a < 32" for a b
    using 1 [of a] assms(1) [of "N1 a"] that by (cases "at v r (N1 a)") (auto simp: slot_def)
  have 3: "at w r (N3 a b c) = at v r (N3 a b c)" if "a < 32" "b < 32" for a b c
    using 2 [OF that(1), of b] assms(1) [of "N2 a b"] that by (cases "at v r (N2 a b)") (auto simp: slot_def)
  show ?thesis using 1 2 3 assms(2) by (cases m) auto
qed

lemma footprint_cong: "footprint w r = footprint v r" if "\<And>n. vnode n \<Longrightarrow> at w r n = at v r n"
  using that unfolding footprint_def by auto

lemma tree_ok_cong: "tree_ok cap w r" if t: "tree_ok cap v r" and eq: "\<And>n. vnode n \<Longrightarrow> at w r n = at v r n"
proof -
  have "footprint w r = footprint v r" by (rule footprint_cong) (rule eq)
  then show ?thesis using t eq unfolding tree_ok_def by auto
qed

lemma at_data_write:
  assumes "tree_ok cap v r" "k < MAX_BLOCKS" "bmap v r k = Some p" "vnode m"
  shows "at (v(p := x)) r m = at v r m"
proof (rule at_cong [OF _ assms(4)])
  fix n q assume n: "vnode n" "at v r n = Some q" "\<forall>a b c. n \<noteq> N3 a b c"
  have "n \<noteq> block_node k" using n(3) by (auto simp: block_node_def)
  then have "q \<noteq> p" using tree_okD(3) [OF assms(1) n(1) block_node_simps [OF assms(2)] n(2)] assms(3) by (auto simp: bmap_def)
  then show "(v(p := x)) q = v q" by simp
qed

section \<open>Looking up a block\<close>

definition in_range :: "fsys \<Rightarrow> nat \<Rightarrow> bool" where
  "in_range s r \<longleftrightarrow> footprint (contents_of s) r \<subseteq> {..<cap_of s}"

lemma kbits: "k < MAX_BLOCKS \<Longrightarrow> k div 2 ^ 10 < 32" "k < MAX_BLOCKS \<Longrightarrow> k div 2 ^ 5 mod 2 ^ 5 < 32" "k < MAX_BLOCKS \<Longrightarrow> k mod 2 ^ 5 < 32"
  by (simp_all add: MAX_BLOCKS_def)

text \<open>The path to a block that is there.\<close>

lemma lookup_present:
  assumes ok: "fs_ok n s" and rng: "in_range s (d_lvl1 ind)" and k: "k < MAX_BLOCKS"
    and p: "bmap (contents_of s) (d_lvl1 ind) k = Some p"
  shows "\<exists>s'. lookup_with iw me ind k create s = Some (False, p, s') \<and> io s (contents_of s) s' \<and> fs_ok n s'"
proof -
  let ?v = "contents_of s" and ?r = "d_lvl1 ind" and ?a = "k div 2 ^ 10" and ?b = "k div 2 ^ 5 mod 2 ^ 5" and ?c = "k mod 2 ^ 5"
  note kb = kbits [OF k]
  have bmap: "at ?v ?r (N3 ?a ?b ?c) = Some p" using p by (simp add: bmap_def block_node_def)
  then obtain p2 where S2: "at ?v ?r (N2 ?a ?b) = Some p2" "slot ?v p2 ?c = Some p" unfolding at_down(2) [of _ _ ?a ?b] by (auto simp: Option.bind_eq_Some_conv)
  then obtain p1 where S1: "at ?v ?r (N1 ?a) = Some p1" "slot ?v p1 ?b = Some p2" unfolding at_down(1) [of _ _ ?a] by (auto simp: Option.bind_eq_Some_conv)
  have sub: "vnode m \<Longrightarrow> at ?v ?r m = Some q \<Longrightarrow> q < cap_of s" for m q using rng by (auto simp: in_range_def dest: footprintI)
  obtain s1 where s1: "bread me ?r s = Some (?v ?r, s1)" "io s ?v s1" "fs_ok n s1"
    using bread_ok [OF ok sub [of NRoot], of ?r me] by auto
  have g: "get16 (?v ?r) ?a = p1" "p1 \<noteq> NOSECTOR" "get16 (?v p1) ?b = p2" "p2 \<noteq> NOSECTOR" "get16 (?v p2) ?c = p" "p \<noteq> NOSECTOR"
    using S1 S2 by (auto simp: slot_def split: if_splits)
  have "p1 < cap_of s1" using sub [OF _ S1(1)] kb io_fields(2) [OF s1(2)] by simp
  from bread_ok [OF s1(3) this, of me] obtain s2 where s2: "bread me p1 s1 = Some (?v p1, s2)" "io s1 ?v s2" "fs_ok n s2"
    using io_fields(1) [OF s1(2)] by auto
  have i2: "io s ?v s2" using s1(2) s2(2) io_trans by blast
  have "p2 < cap_of s2" using sub [OF _ S2(1)] kb io_fields(2) [OF i2] by simp
  from bread_ok [OF s2(3) this, of me] obtain s3 where s3: "bread me p2 s2 = Some (?v p2, s3)" "io s2 ?v s3" "fs_ok n s3"
    using io_fields(1) [OF i2] by auto
  have i3: "io s ?v s3" using i2 s3(2) io_trans by blast
  show ?thesis using kb fs_okD(1) [OF ok] s1(1) s2(1) s3 i3 g
    by (simp add: lookup_with_def level_down_def lookup_store_def when_new_def Let_def)
qed

lemma lookup_find:
  assumes ok: "fs_ok n s" and rng: "in_range s (d_lvl1 ind)" and k: "k < MAX_BLOCKS"
  shows "\<exists>s'. lookup_with iw me ind k False s =
      Some (False, (case bmap (contents_of s) (d_lvl1 ind) k of None \<Rightarrow> NOSECTOR | Some p \<Rightarrow> p), s')
    \<and> io s (contents_of s) s' \<and> fs_ok n s'"
proof (cases "bmap (contents_of s) (d_lvl1 ind) k")
  case (Some p)
  then show ?thesis using lookup_present [OF ok rng k Some, of iw me False] by simp
next
  case absent: None
  let ?v = "contents_of s" and ?r = "d_lvl1 ind" and ?a = "k div 2 ^ 10" and ?b = "k div 2 ^ 5 mod 2 ^ 5" and ?c = "k mod 2 ^ 5"
  note kb = kbits [OF k]
  have bmap: "at ?v ?r (N3 ?a ?b ?c) = None" using absent by (simp add: bmap_def block_node_def)
  have sub: "vnode m \<Longrightarrow> at ?v ?r m = Some p \<Longrightarrow> p < cap_of s" for m p using rng by (auto simp: in_range_def dest: footprintI)
  obtain s1 where s1: "bread me ?r s = Some (?v ?r, s1)" "io s ?v s1" "fs_ok n s1"
    using bread_ok [OF ok sub [of NRoot], of ?r me] by auto
  note guard = kb fs_okD(1) [OF ok] s1(1) absent
  show ?thesis
  proof (cases "at ?v ?r (N1 ?a)")
    case None
    then show ?thesis using guard s1
      by (simp add: lookup_with_def level_down_def slot_def split: if_splits)
  next
    case (Some p1)
    then have g1: "get16 (?v ?r) ?a = p1" "p1 \<noteq> NOSECTOR" by (auto simp: slot_def split: if_splits)
    have "p1 < cap_of s1" using sub [OF _ Some] kb io_fields(2) [OF s1(2)] by simp
    from bread_ok [OF s1(3) this, of me] obtain s2 where s2: "bread me p1 s1 = Some (?v p1, s2)" "io s1 ?v s2" "fs_ok n s2"
      using io_fields(1) [OF s1(2)] by auto
    have i2: "io s ?v s2" using s1(2) s2(2) io_trans by blast
    show ?thesis
    proof (cases "at ?v ?r (N2 ?a ?b)")
      case None
      then have "get16 (?v p1) ?b = NOSECTOR" using Some by (simp add: slot_def split: if_splits)
      then show ?thesis using guard s2 i2 g1
        by (simp add: lookup_with_def level_down_def release_opt_def)
    next
      case S2: (Some p2)
      then have g2: "get16 (?v p1) ?b = p2" "p2 \<noteq> NOSECTOR" using Some by (auto simp: slot_def split: if_splits)
      have g3: "get16 (?v p2) ?c = NOSECTOR" using bmap unfolding at_down(2) [of _ _ ?a ?b] S2 by (simp add: slot_def split: if_splits)
      have "p2 < cap_of s2" using sub [OF _ S2] kb io_fields(2) [OF i2] by simp
      from bread_ok [OF s2(3) this, of me] obtain s3 where s3: "bread me p2 s2 = Some (?v p2, s3)" "io s2 ?v s3" "fs_ok n s3"
        using io_fields(1) [OF i2] by auto
      have "io s ?v s3" using i2 s3(2) io_trans by blast
      then show ?thesis using guard s2(1) s3 g1 g2 g3
        by (simp add: lookup_with_def level_down_def release_opt_def)
    qed
  qed
qed

section \<open>Moving bytes\<close>

definition MAX_LENGTH :: nat where
  "MAX_LENGTH = MAX_BLOCKS * BLOCK_SECTOR_SIZE"

text \<open>Byte \<open>o\<close> of a file, as stored.\<close>

definition raw :: "(nat \<Rightarrow> byte list) \<Rightarrow> nat \<Rightarrow> nat \<Rightarrow> byte" where
  "raw v r o' = v (the (bmap v r (o' div BLOCK_SECTOR_SIZE))) ! (o' mod BLOCK_SECTOR_SIZE)"

definition mapped :: "(nat \<Rightarrow> byte list) \<Rightarrow> nat \<Rightarrow> nat \<Rightarrow> nat \<Rightarrow> bool" where
  "mapped v r a b \<longleftrightarrow> (\<forall>o'. a \<le> o' \<and> o' < b \<longrightarrow> bmap v r (o' div BLOCK_SECTOR_SIZE) \<noteq> None)"

lemma sector_arg_nat: "o' < MAX_LENGTH \<Longrightarrow> sector_arg (int o') = o' div BLOCK_SECTOR_SIZE"
  by (simp add: sector_arg_def MAX_LENGTH_def MAX_BLOCKS_def BLOCK_SECTOR_SIZE_def signed_divide_int_def sgn_if
      flip: of_nat_div of_nat_mod) (auto simp: nat_mod_distrib nat_div_distrib)

lemma block_lt: "o' < MAX_LENGTH \<Longrightarrow> o' div BLOCK_SECTOR_SIZE < MAX_BLOCKS"
  by (simp add: MAX_LENGTH_def BLOCK_SECTOR_SIZE_def MAX_BLOCKS_def)

lemma smod_nat: "int o' smod int BLOCK_SECTOR_SIZE = int (o' mod BLOCK_SECTOR_SIZE)"
  by (simp add: signed_modulo_int_def sgn_if BLOCK_SECTOR_SIZE_def zmod_int)

lemma mod_bss: "o' mod BLOCK_SECTOR_SIZE < BLOCK_SECTOR_SIZE"
  by (simp add: BLOCK_SECTOR_SIZE_def)

definition nchunk :: "nat \<Rightarrow> nat \<Rightarrow> nat \<Rightarrow> nat" where
  "nchunk len z o' = min z (min (len - o') (BLOCK_SECTOR_SIZE - o' mod BLOCK_SECTOR_SIZE))"

lemma chunk_nat: "o' \<le> len \<Longrightarrow> chunk (int len) (int z) (int o') = int (nchunk len z o')"
  using mod_bss [of o'] unfolding chunk_def nchunk_def smod_nat Let_def min_def by auto

lemma chunk_past_end: "len \<le> o' \<Longrightarrow> chunk (int len) (int z) (int o') \<le> 0"
  using mod_bss [of o'] unfolding chunk_def smod_nat Let_def by auto

text \<open>A chunk stays in one sector.\<close>

lemma chunk_block:
  assumes "i < nchunk len z o'"
  shows "(o' + i) div BLOCK_SECTOR_SIZE = o' div BLOCK_SECTOR_SIZE"
    "(o' + i) mod BLOCK_SECTOR_SIZE = o' mod BLOCK_SECTOR_SIZE + i"
proof -
  have lt: "o' mod BLOCK_SECTOR_SIZE + i < BLOCK_SECTOR_SIZE" using assms mod_bss [of o'] unfolding nchunk_def by linarith
  have "o' + i = BLOCK_SECTOR_SIZE * (o' div BLOCK_SECTOR_SIZE) + (o' mod BLOCK_SECTOR_SIZE + i)" by simp
  then show "(o' + i) div BLOCK_SECTOR_SIZE = o' div BLOCK_SECTOR_SIZE" "(o' + i) mod BLOCK_SECTOR_SIZE = o' mod BLOCK_SECTOR_SIZE + i"
    using lt by (metis div_less div_mult_self4 add_0_right less_nat_zero_code, metis mod_less mod_mult_self4)
qed

lemma nchunk_bounds:
  "nchunk len z o' \<le> z" "o' mod BLOCK_SECTOR_SIZE + nchunk len z o' \<le> BLOCK_SECTOR_SIZE"
  "o' \<le> len \<Longrightarrow> o' + nchunk len z o' \<le> len"
  "0 < z \<Longrightarrow> o' < len \<Longrightarrow> 0 < nchunk len z o'"
  using mod_bss [of o'] unfolding nchunk_def min_def by auto

declare read_loop.simps [simp del] write_loop.simps [simp del]

lemma lookup_at:
  assumes ok: "fs_ok n s" and rng: "in_range s (d_lvl1 meta)" and o': "o' < MAX_LENGTH"
    and p: "bmap (contents_of s) (d_lvl1 meta) (o' div BLOCK_SECTOR_SIZE) = Some p"
  shows "\<exists>s'. lookup_with iw me meta (sector_arg (int o')) False s = Some (False, p, s')
    \<and> io s (contents_of s) s' \<and> fs_ok n s' \<and> p \<noteq> NOSECTOR \<and> p < cap_of s"
proof -
  have "p \<noteq> NOSECTOR" using p by (auto simp: bmap_def block_node_def slot_def Option.bind_eq_Some_conv split: if_splits)
  moreover have "p < cap_of s" using rng p footprintI [OF block_node_simps [OF block_lt [OF o']]]
    by (auto simp: in_range_def bmap_def)
  ultimately show ?thesis using lookup_find [OF ok rng block_lt [OF o'], of iw me] p by (simp add: sector_arg_nat [OF o'])
qed

lemma in_range_io: "io s (contents_of s) s' \<Longrightarrow> in_range s r \<Longrightarrow> in_range s' r"
  by (simp add: in_range_def io_simps)

lemma read_loop_ok:
  assumes "fs_ok n s" "in_range s (d_lvl1 meta)" "d_length meta = int len" "o' < MAX_LENGTH \<or> z = 0" "len < MAX_LENGTH"
    "mapped (contents_of s) (d_lvl1 meta) o' (min (o' + z) len)"
  shows "\<exists>s'. read_loop iw me meta (int z) (int o') acc s
      = Some (acc @ map (raw (contents_of s) (d_lvl1 meta)) [o'..<min (o' + z) len], s')
    \<and> io s (contents_of s) s' \<and> fs_ok n s'"
  using assms
proof (induction z arbitrary: o' acc s rule: less_induct)
  case (less z)
  let ?v = "contents_of s" and ?r = "d_lvl1 meta"
  show ?case
  proof (cases "z = 0")
    case True
    then show ?thesis using less.prems(1) io_refl by (auto simp: read_loop.simps)
  next
    case False
    then have o': "o' < MAX_LENGTH" using less.prems(4) by simp
    show ?thesis
    proof (cases "o' < len")
      case past: False
      from lookup_find [OF less.prems(1,2) block_lt [OF o'], of iw me] obtain sec s1 where
        s1: "lookup_with iw me meta (sector_arg (int o')) False s = Some (False, sec, s1)" "io s ?v s1" "fs_ok n s1"
        by (auto simp: sector_arg_nat [OF o'])
      then show ?thesis using False past chunk_past_end [of len o' z] less.prems(3)
        by (auto simp: read_loop.simps [of iw me meta "int z"])
    next
      case True
      let ?n = "nchunk len z o'" and ?a = "o' mod BLOCK_SECTOR_SIZE"
      note nb = nchunk_bounds [where len = len and z = z and o' = o']
      have n: "0 < ?n" using False True nb(4) by simp
      obtain p where p: "bmap ?v ?r (o' div BLOCK_SECTOR_SIZE) = Some p"
        using less.prems(6) True False by (force simp: mapped_def)
      from lookup_at [OF less.prems(1,2) o' p, of iw me] obtain s1 where
        s1: "lookup_with iw me meta (sector_arg (int o')) False s = Some (False, p, s1)" "io s ?v s1" "fs_ok n s1"
          "p \<noteq> NOSECTOR" "p < cap_of s" by blast
      have "p < cap_of s1" "contents_of s1 = ?v" using s1 by (simp_all add: io_simps)
      then obtain s2 where s2: "bread_segment me p ?a (?a + ?n) s1 = Some (segment ?a (?a + ?n) (?v p), s2)" "io s1 ?v s2" "fs_ok n s2"
        using bread_segment_ok [OF s1(3), of p ?a "?a + ?n" me] n nb(2) by auto
      have i2: "io s ?v s2" using s1(2) s2(2) io_trans by blast
      have len: "length (?v p) = BLOCK_SECTOR_SIZE" using contents_length [OF less.prems(1) s1(5)] .
      have seg: "segment ?a (?a + ?n) (?v p) = map (raw ?v ?r) [o'..<o' + ?n]"
      proof (rule nth_equalityI)
        show "length (segment ?a (?a + ?n) (?v p)) = length (map (raw ?v ?r) [o'..<o' + ?n])" using nb(2) len by simp
        fix i assume "i < length (segment ?a (?a + ?n) (?v p))"
        then have i: "i < ?n" using nb(2) len by simp
        then show "segment ?a (?a + ?n) (?v p) ! i = map (raw ?v ?r) [o'..<o' + ?n] ! i"
          using nb(2) len p chunk_block [OF i] by (simp add: nth_segment raw_def)
      qed
      have c2: "contents_of s2 = ?v" by (rule io_fields(1) [OF i2])
      have end_eq: "min (o' + ?n + (z - ?n)) len = min (o' + z) len" using nb(1) by simp
      have "\<exists>s'. read_loop iw me meta (int (z - ?n)) (int (o' + ?n)) (acc @ map (raw ?v ?r) [o'..<o' + ?n]) s2
          = Some ((acc @ map (raw ?v ?r) [o'..<o' + ?n]) @ map (raw (contents_of s2) ?r) [o' + ?n..<min (o' + ?n + (z - ?n)) len], s')
        \<and> io s2 (contents_of s2) s' \<and> fs_ok n s'"
      proof (rule less.IH)
        show "z - ?n < z" using n nb(1) by simp
        show "fs_ok n s2" "d_length meta = int len" "len < MAX_LENGTH" using s2 less.prems by simp_all
        show "in_range s2 ?r" using in_range_io i2 less.prems(2) by blast
        show "mapped (contents_of s2) ?r (o' + ?n) (min (o' + ?n + (z - ?n)) len)"
          using less.prems(6) unfolding c2 end_eq by (auto simp: mapped_def)
        show "o' + ?n < MAX_LENGTH \<or> z - ?n = 0" using nb(3) True less.prems(5) by linarith
      qed
      then obtain s' where s': "read_loop iw me meta (int z - int ?n) (int o' + int ?n) (acc @ map (raw ?v ?r) [o'..<o' + ?n]) s2
          = Some (acc @ map (raw ?v ?r) [o'..<o' + ?n] @ map (raw ?v ?r) [o' + ?n..<min (o' + z) len], s')"
        "io s2 ?v s'" "fs_ok n s'" using nb(1) unfolding c2 end_eq by (auto simp: of_nat_diff)
      have "[o'..<o' + ?n] @ [o' + ?n..<min (o' + z) len] = [o'..<min (o' + z) len]"
        using nb(1) nb(3) True by (intro upt_join) auto
      then have "map (raw ?v ?r) [o'..<o' + ?n] @ map (raw ?v ?r) [o' + ?n..<min (o' + z) len] = map (raw ?v ?r) [o'..<min (o' + z) len]"
        by (metis map_append)
      moreover have "read_loop iw me meta (int z) (int o') acc s = read_loop iw me meta (int z - int ?n) (int o' + int ?n) (acc @ map (raw ?v ?r) [o'..<o' + ?n]) s2"
        using False s1 s2(1) n True less.prems(3)
        by (subst read_loop.simps) (simp add: chunk_nat smod_nat seg Let_def)
      ultimately show ?thesis using s' io_trans [OF i2] by auto
    qed
  qed
qed

text \<open>The number of sectors a write of \<open>z\<close> bytes at \<open>o'\<close> touches.\<close>

definition nblocks :: "nat \<Rightarrow> nat \<Rightarrow> nat" where
  "nblocks o' z = (if z = 0 then 0 else Suc ((o' + z - 1) div BLOCK_SECTOR_SIZE - o' div BLOCK_SECTOR_SIZE))"

lemma nblocks_step:
  assumes "0 < z" "o' + z \<le> len"
  shows "nblocks o' z = Suc (nblocks (o' + nchunk len z o') (z - nchunk len z o'))"
proof (cases "z \<le> BLOCK_SECTOR_SIZE - o' mod BLOCK_SECTOR_SIZE")
  case True
  then have n: "nchunk len z o' = z" using assms by (auto simp: nchunk_def)
  then have "(o' + (z - 1)) div BLOCK_SECTOR_SIZE = o' div BLOCK_SECTOR_SIZE"
    using assms chunk_block(1) [of "z - 1" len z o'] by simp
  then show ?thesis using n assms(1) by (simp add: nblocks_def)
next
  case False
  let ?B = BLOCK_SECTOR_SIZE
  have n: "nchunk len z o' = ?B - o' mod ?B" using False assms mod_bss [of o'] by (auto simp: nchunk_def)
  have "o' + (?B - o' mod ?B) = ?B * (o' div ?B) + ?B" using mod_bss [of o'] mult_div_mod_eq [of ?B o'] by linarith
  then have d: "(o' + (?B - o' mod ?B)) div ?B = Suc (o' div ?B)" by (simp add: BLOCK_SECTOR_SIZE_def)
  have "o' + (?B - o' mod ?B) \<le> o' + z - 1" using False assms(1) by linarith
  then have "Suc (o' div ?B) \<le> (o' + z - 1) div ?B" using d div_le_mono [of _ _ ?B] by metis
  then show ?thesis using False assms(1) d by (simp add: nblocks_def n)
qed

text \<open>What a write may change: data sectors of the file and nothing of the index.\<close>

definition data_only :: "(nat \<Rightarrow> byte list) \<Rightarrow> nat \<Rightarrow> (nat \<Rightarrow> byte list) \<Rightarrow> bool" where
  "data_only v r w \<longleftrightarrow> (\<forall>m. vnode m \<longrightarrow> at w r m = at v r m)
     \<and> (\<forall>t. (\<forall>k<MAX_BLOCKS. bmap v r k \<noteq> Some t) \<longrightarrow> w t = v t)"

lemma data_only_bmap: "data_only v r w \<Longrightarrow> k < MAX_BLOCKS \<Longrightarrow> bmap w r k = bmap v r k"
  using block_node_simps by (simp add: data_only_def bmap_def)

lemma data_only_refl: "data_only v r v"
  by (simp add: data_only_def)

lemma data_only_trans: "data_only u r v \<Longrightarrow> data_only v r w \<Longrightarrow> data_only u r w"
  using data_only_bmap [of u r v] unfolding data_only_def by metis

text \<open>Bytes \<open>o', o' + 1, ...\<close> of the file become those of \<open>bs\<close>.\<close>

definition overwrites :: "(nat \<Rightarrow> byte list) \<Rightarrow> nat \<Rightarrow> nat \<Rightarrow> byte list \<Rightarrow> (nat \<Rightarrow> byte list) \<Rightarrow> bool" where
  "overwrites v r o' bs w \<longleftrightarrow> (\<forall>q<MAX_LENGTH. bmap v r (q div BLOCK_SECTOR_SIZE) \<noteq> None \<longrightarrow>
     raw w r q = (if o' \<le> q \<and> q < o' + length bs then bs ! (q - o') else raw v r q))"

lemma write_chunk:
  assumes t: "tree_ok cap v r" and p: "bmap v r (o' div BLOCK_SECTOR_SIZE) = Some p" and o': "o' < MAX_LENGTH"
    and len: "length (v p) = BLOCK_SECTOR_SIZE" and n: "n \<le> length bs" "o' mod BLOCK_SECTOR_SIZE + n \<le> BLOCK_SECTOR_SIZE"
    and w: "w = v(p := patch (o' mod BLOCK_SECTOR_SIZE) (o' mod BLOCK_SECTOR_SIZE + n) bs (v p))"
  shows "data_only v r w" "overwrites v r o' (take n bs) w"
proof -
  have at: "at w r m = at v r m" if "vnode m" for m unfolding w by (rule at_data_write [OF t block_lt [OF o'] p that])
  then show d: "data_only v r w" using p block_lt [OF o'] by (auto simp: data_only_def w)
  show "overwrites v r o' (take n bs) w"
    unfolding overwrites_def
  proof (intro allI impI)
    fix q assume q: "q < MAX_LENGTH" "bmap v r (q div BLOCK_SECTOR_SIZE) \<noteq> None"
    let ?B = BLOCK_SECTOR_SIZE
    have bq: "bmap w r (q div ?B) = bmap v r (q div ?B)" using data_only_bmap [OF d block_lt [OF q(1)]] .
    show "raw w r q = (if o' \<le> q \<and> q < o' + length (take n bs) then take n bs ! (q - o') else raw v r q)"
    proof (cases "q div ?B = o' div ?B")
      case True
      have eqs: "q = ?B * (o' div ?B) + q mod ?B" "o' = ?B * (o' div ?B) + o' mod ?B" using True by (metis mult_div_mod_eq)+
      then have "o' \<le> q \<longleftrightarrow> o' mod ?B \<le> q mod ?B" "q < o' + n \<longleftrightarrow> q mod ?B < o' mod ?B + n" "q - o' = q mod ?B - o' mod ?B" by linarith+
      moreover have "raw w r q = patch (o' mod ?B) (o' mod ?B + n) bs (v p) ! (q mod ?B)" "raw v r q = v p ! (q mod ?B)"
        using True p bq by (simp_all add: raw_def w)
      ultimately show ?thesis using n len mod_bss [of q] by (auto simp: nth_patch intro!: nth_take [symmetric])
    next
      case False
      from q(2) obtain p' where p': "bmap v r (q div ?B) = Some p'" by auto
      have "p' \<noteq> p" using tree_okD(3) [OF t block_node_simps [OF block_lt [OF q(1)]] block_node_simps [OF block_lt [OF o']]] p p' False
        by (auto simp: bmap_def block_node_inj)
      then have "raw w r q = raw v r q" using bq p' by (simp add: raw_def w)
      moreover have "\<not> (o' \<le> q \<and> q < o' + n)"
      proof
        assume "o' \<le> q \<and> q < o' + n"
        then have "q - o' < nchunk (o' + n) n o'" using n(2) unfolding nchunk_def by auto
        then show False using chunk_block(1) [of "q - o'" "o' + n" n o'] False \<open>o' \<le> q \<and> q < o' + n\<close> by simp
      qed
      ultimately show ?thesis using n(1) by auto
    qed
  qed
qed

lemma overwrites_append:
  assumes "overwrites u r o' xs v" "overwrites v r (o' + length xs) ys w" "data_only u r v"
  shows "overwrites u r o' (xs @ ys) w"
  unfolding overwrites_def
proof (intro allI impI)
  fix q assume q: "q < MAX_LENGTH" "bmap u r (q div BLOCK_SECTOR_SIZE) \<noteq> None"
  then have "bmap v r (q div BLOCK_SECTOR_SIZE) \<noteq> None" using data_only_bmap [OF assms(3) block_lt] by simp
  then show "raw w r q = (if o' \<le> q \<and> q < o' + length (xs @ ys) then (xs @ ys) ! (q - o') else raw u r q)"
    using assms(1,2) q unfolding overwrites_def by (auto simp: nth_append)
qed

lemma write_loop_ok:
  assumes "fs_ok (nblocks o' z + n) s" "tree_ok (cap_of s) (contents_of s) (d_lvl1 meta)" "d_length meta = int len"
    "o' + z \<le> len" "len < MAX_LENGTH" "mapped (contents_of s) (d_lvl1 meta) o' (o' + z)" "w + z \<le> length buf"
  shows "\<exists>s' v. write_loop iw me meta buf (int z) (int o') (int w) s = Some (int (w + z), s') \<and> io s v s' \<and> fs_ok n s'
    \<and> data_only (contents_of s) (d_lvl1 meta) v \<and> overwrites (contents_of s) (d_lvl1 meta) o' (take z (drop w buf)) v"
  using assms
proof (induction z arbitrary: o' w s rule: less_induct)
  case (less z)
  let ?v = "contents_of s" and ?r = "d_lvl1 meta"
  show ?case
  proof (cases "z = 0")
    case True
    then show ?thesis using less.prems(1) io_refl data_only_refl
      by (auto simp: write_loop.simps nblocks_def overwrites_def intro!: exI [of _ s] exI [of _ ?v])
  next
    case False
    let ?n = "nchunk len z o'" and ?a = "o' mod BLOCK_SECTOR_SIZE"
    note nb = nchunk_bounds [where len = len and z = z and o' = o']
    have o': "o' < len" "o' < MAX_LENGTH" using False less.prems(4,5) by linarith+
    have n: "0 < ?n" using False o' nb(4) by simp
    have bl: "nblocks o' z = Suc (nblocks (o' + ?n) (z - ?n))" using nblocks_step False less.prems(4) by simp
    obtain p where p: "bmap ?v ?r (o' div BLOCK_SECTOR_SIZE) = Some p" using less.prems(6) False by (force simp: mapped_def)
    have rng: "in_range s ?r" using tree_okD(1) [OF less.prems(2)] by (auto simp: in_range_def)
    from lookup_at [OF less.prems(1) rng o'(2) p, of iw me] obtain s1 where
      s1: "lookup_with iw me meta (sector_arg (int o')) False s = Some (False, p, s1)" "io s ?v s1"
        "fs_ok (Suc (nblocks (o' + ?n) (z - ?n) + n)) s1" "p \<noteq> NOSECTOR" "p < cap_of s" by (auto simp: bl)
    have p0: "p \<noteq> 0" using tree_okD(2) [OF less.prems(2) block_node_simps [OF block_lt [OF o'(2)]]] p by (auto simp: bmap_def)
    have c1: "p < cap_of s1" "contents_of s1 = ?v" using s1 by (simp_all add: io_simps)
    let ?w = "?v(p := patch ?a (?a + ?n) (drop w buf) (?v p))"
    have nl: "?n \<le> length (drop w buf)" using nb(1) less.prems(7) by simp
    from bwrite_segment_ok [OF s1(3) c1(1), of ?a "?a + ?n" "drop w buf" me] obtain s2 where
      s2: "bwrite_segment me p ?a (?a + ?n) (drop w buf) s1 = Some s2" "io s1 ?w s2" "fs_ok (nblocks (o' + ?n) (z - ?n) + n) s2"
      using nl nb(2) unfolding c1(2) by auto
    have i2: "io s ?w s2" using s1(2) s2(2) io_trans by blast
    have c2: "contents_of s2 = ?w" "cap_of s2 = cap_of s" using i2 by (simp_all add: io_simps)
    have ch: "data_only ?v ?r ?w" "overwrites ?v ?r o' (take ?n (drop w buf)) ?w"
      by (rule write_chunk [OF less.prems(2) p o'(2) contents_length [OF less.prems(1) s1(5)] nl nb(2) refl])+
    have "\<exists>s' v. write_loop iw me meta buf (int (z - ?n)) (int (o' + ?n)) (int (w + ?n)) s2 = Some (int (w + ?n + (z - ?n)), s')
        \<and> io s2 v s' \<and> fs_ok n s' \<and> data_only (contents_of s2) ?r v
        \<and> overwrites (contents_of s2) ?r (o' + ?n) (take (z - ?n) (drop (w + ?n) buf)) v"
    proof (rule less.IH)
      show "z - ?n < z" using n False by simp
      show "fs_ok (nblocks (o' + ?n) (z - ?n) + n) s2" "d_length meta = int len" "len < MAX_LENGTH" using s2 less.prems by simp_all
      show "tree_ok (cap_of s2) (contents_of s2) ?r" unfolding c2
        by (rule tree_ok_cong [OF less.prems(2)]) (use ch(1) in \<open>auto simp: data_only_def\<close>)
      show "o' + ?n + (z - ?n) \<le> len" "w + ?n + (z - ?n) \<le> length buf" using nb(1) less.prems(4,7) by simp_all
      show "mapped (contents_of s2) ?r (o' + ?n) (o' + ?n + (z - ?n))"
        using less.prems(4-6) nb(1) data_only_bmap [OF ch(1) block_lt] unfolding c2 mapped_def by auto
    qed
    then obtain s' v where s': "write_loop iw me meta buf (int z - int ?n) (int o' + int ?n) (int w + int ?n) s2 = Some (int (w + z), s')"
        "io s2 v s'" "fs_ok n s'" "data_only ?w ?r v" "overwrites ?w ?r (o' + ?n) (take (z - ?n) (drop (w + ?n) buf)) v"
      using nb(1) unfolding c2 by (auto simp: of_nat_diff)
    have "write_loop iw me meta buf (int z) (int o') (int w) s = Some (int (w + z), s')"
      using False s1 s2(1) n o'(1) less.prems(3) p0 s'(1)
      by (subst write_loop.simps) (simp add: chunk_nat smod_nat Let_def)
    moreover have "io s v s'" using io_trans [OF i2 s'(2)] .
    moreover have "data_only ?v ?r v" using data_only_trans [OF ch(1) s'(4)] .
    moreover have "overwrites ?v ?r o' (take z (drop w buf)) v"
    proof -
      have "take z (drop w buf) = take ?n (drop w buf) @ take (z - ?n) (drop (w + ?n) buf)"
        using nb(1) by (metis add_diff_inverse_nat drop_drop not_le add.commute take_add)
      moreover have "length (take ?n (drop w buf)) = ?n" using nl by simp
      ultimately show ?thesis using overwrites_append [OF ch(2) _ ch(1), of "take (z - ?n) (drop (w + ?n) buf)" v] s'(5) by simp
    qed
    ultimately show ?thesis using s'(3) by blast
  qed
qed

end
