(* ===== verification/InodeSpec.thy ===== *)
theory InodeSpec
  imports InodeIndex
begin

text \<open>
  What \<open>inode_read_at\<close> and \<open>inode_write_at\<close> do to a file, seen as the list of its bytes; the free map and
  its file as an allocator of sectors; and the growth of files on top of both.
\<close>

section \<open>A file on the device\<close>

text \<open>\<open>file_ok cap v sec len m\<close>: the inode in sector \<open>sec\<close> has \<open>len\<close> bytes, its index is well formed and
  maps exactly the blocks below \<open>m\<close>, which cover the bytes and hold zeros behind them.\<close>

definition file_ok :: "nat \<Rightarrow> (nat \<Rightarrow> byte list) \<Rightarrow> nat \<Rightarrow> nat \<Rightarrow> nat \<Rightarrow> bool" where
  "file_ok cap v sec len m \<longleftrightarrow>
     (let r = d_lvl1 (v sec) in
       tree_ok cap v r \<and> sec < cap \<and> sec \<notin> footprint v r \<and> d_length (v sec) = int len
       \<and> len \<le> m * BLOCK_SECTOR_SIZE \<and> m < MAX_BLOCKS
       \<and> (\<forall>k<MAX_BLOCKS. bmap v r k \<noteq> None \<longleftrightarrow> k < m)
       \<and> (\<forall>q. len \<le> q \<and> q < m * BLOCK_SECTOR_SIZE \<longrightarrow> raw v r q = 0))"

definition file_bytes :: "(nat \<Rightarrow> byte list) \<Rightarrow> nat \<Rightarrow> byte list" where
  "file_bytes v sec = map (raw v (d_lvl1 (v sec))) [0..<nat (d_length (v sec))]"

definition file_sectors :: "(nat \<Rightarrow> byte list) \<Rightarrow> nat \<Rightarrow> nat set" where
  "file_sectors v sec = insert sec (footprint v (d_lvl1 (v sec)))"

text \<open>The bytes \<open>bs\<close> placed at \<open>o'\<close>, with zeros in the gap if the file is shorter.\<close>

definition splice :: "nat \<Rightarrow> byte list \<Rightarrow> byte list \<Rightarrow> byte list" where
  "splice o' bs c = (let c' = c @ replicate (o' + length bs - length c) 0
     in take o' c' @ bs @ drop (o' + length bs) c')"

lemma length_splice [simp]: "length (splice o' bs c) = max (length c) (o' + length bs)"
  by (auto simp: splice_def Let_def max_def)

lemma nth_splice:
  assumes "q < max (length c) (o' + length bs)"
  shows "splice o' bs c ! q = (if o' \<le> q \<and> q < o' + length bs then bs ! (q - o') else if q < length c then c ! q else 0)"
  using assms by (auto simp: splice_def Let_def nth_append min_def max_def split: if_splits)

lemma read_splice: "take (length bs) (drop o' (splice o' bs c)) = bs"
  by (simp add: splice_def Let_def)

lemma file_okD:
  assumes "file_ok cap v sec len m"
  shows "tree_ok cap v (d_lvl1 (v sec))" "sec < cap" "sec \<notin> footprint v (d_lvl1 (v sec))" "d_length (v sec) = int len"
    "len \<le> m * BLOCK_SECTOR_SIZE" "m < MAX_BLOCKS" "k < MAX_BLOCKS \<Longrightarrow> bmap v (d_lvl1 (v sec)) k \<noteq> None \<longleftrightarrow> k < m"
    "len \<le> q \<Longrightarrow> q < m * BLOCK_SECTOR_SIZE \<Longrightarrow> raw v (d_lvl1 (v sec)) q = 0"
  using assms unfolding file_ok_def Let_def by blast+

lemma file_ok_bytes: "file_ok cap v sec len m \<Longrightarrow> file_bytes v sec = map (raw v (d_lvl1 (v sec))) [0..<len]"
  using file_okD(4) by (simp add: file_bytes_def)

lemma length_file_bytes: "file_ok cap v sec len m \<Longrightarrow> length (file_bytes v sec) = len"
  by (simp add: file_ok_bytes)

lemma file_ok_lt: "file_ok cap v sec len m \<Longrightarrow> len < MAX_LENGTH \<and> m * BLOCK_SECTOR_SIZE < MAX_LENGTH"
  using file_okD(5,6) [of cap v sec len m] by (simp add: MAX_LENGTH_def BLOCK_SECTOR_SIZE_def)

lemma file_ok_mapped: "file_ok cap v sec len m \<Longrightarrow> b \<le> m * BLOCK_SECTOR_SIZE \<Longrightarrow> mapped v (d_lvl1 (v sec)) a b"
  unfolding mapped_def
proof (intro allI impI)
  fix q assume f: "file_ok cap v sec len m" and b: "b \<le> m * BLOCK_SECTOR_SIZE" "a \<le> q \<and> q < b"
  then have "q div BLOCK_SECTOR_SIZE < m" by (intro less_mult_imp_div_less) simp
  then show "bmap v (d_lvl1 (v sec)) (q div BLOCK_SECTOR_SIZE) \<noteq> None" using file_okD(6,7) [OF f] by simp
qed

text \<open>A file whose sectors do not change is the same file.\<close>

lemma file_cong:
  assumes f: "file_ok cap v sec len m" and same: "\<And>t. t \<in> file_sectors v sec \<Longrightarrow> w t = v t"
  shows "file_ok cap w sec len m" "file_bytes w sec = file_bytes v sec" "file_sectors w sec = file_sectors v sec"
proof -
  let ?r = "d_lvl1 (v sec)"
  have sec: "w sec = v sec" using same by (simp add: file_sectors_def)
  have at: "at w ?r n = at v ?r n" if "vnode n" for n
    using same footprintI by (intro at_cong [OF _ that]) (auto simp: file_sectors_def)
  have fp: "footprint w ?r = footprint v ?r" by (rule footprint_cong) (rule at)
  have bm: "bmap w ?r k = bmap v ?r k" if "k < MAX_BLOCKS" for k using at [OF block_node_simps [OF that]] by (simp add: bmap_def)
  have raw: "raw w ?r q = raw v ?r q" if "q < m * BLOCK_SECTOR_SIZE" for q
  proof -
    have q: "q < MAX_LENGTH" using file_ok_lt [OF f] that by simp
    from file_ok_mapped [OF f order_refl, of q] that obtain p where p: "bmap v ?r (q div BLOCK_SECTOR_SIZE) = Some p"
      by (auto simp: mapped_def)
    then have "p \<in> file_sectors v sec" using footprintI [OF block_node_simps [OF block_lt [OF q]]] by (simp add: file_sectors_def bmap_def)
    then show ?thesis using p same bm [OF block_lt [OF q]] by (simp add: raw_def)
  qed
  show "file_ok cap w sec len m"
    using f at bm raw tree_ok_cong [OF file_okD(1) [OF f], of w] unfolding file_ok_def sec Let_def fp by simp
  show "file_bytes w sec = file_bytes v sec"
    using raw file_okD(4,5) [OF f] unfolding file_bytes_def sec by simp
  show "file_sectors w sec = file_sectors v sec" unfolding file_sectors_def sec fp ..
qed

section \<open>Reading and writing in place\<close>

definition free_inode :: "fsys \<Rightarrow> nat \<Rightarrow> nat \<Rightarrow> bool" where
  "free_inode s ip sec \<longleftrightarrow> (\<exists>i. inodes s ip = Some i \<and> i_sector i = sec \<and> i_rwlock i = rw_lock_init \<and> i_deny_write_cnt i = 0)"

text \<open>Nobody uses the inode; writing to it may be denied.\<close>

definition unlocked_inode :: "fsys \<Rightarrow> nat \<Rightarrow> nat \<Rightarrow> bool" where
  "unlocked_inode s ip sec \<longleftrightarrow> (\<exists>i. inodes s ip = Some i \<and> i_sector i = sec \<and> i_rwlock i = rw_lock_init)"

lemma free_unlocked: "free_inode s ip sec \<Longrightarrow> unlocked_inode s ip sec"
  by (auto simp: free_inode_def unlocked_inode_def)

lemma io_inodes: "io (s\<lparr>inodes := x\<rparr>) v s' \<Longrightarrow> io s v (s'\<lparr>inodes := inodes s\<rparr>)"
proof -
  assume i: "io (s\<lparr>inodes := x\<rparr>) v s'"
  then have "s' = s\<lparr>inodes := x, fs_device := fs_device s'\<rparr>" by (simp add: io_def)
  then have "s'\<lparr>inodes := inodes s\<rparr> = s\<lparr>fs_device := fs_device s'\<rparr>" by (cases s, cases s') simp
  then show ?thesis using i by (simp add: io_def)
qed

lemma lock_steps:
  fixes me :: nat
  assumes i: "inodes s ip = Some i" "i_rwlock i = rw_lock_init"
  defines "rd \<equiv> (inodes s)(ip \<mapsto> i\<lparr>i_rwlock := reading\<rparr>)" and "wr \<equiv> (inodes s)(ip \<mapsto> i\<lparr>i_rwlock := writing me\<rparr>)"
  shows "inode_lock me ip s = Some (s\<lparr>inodes := rd\<rparr>)"
    and "inodes t = rd \<Longrightarrow> inode_upgrade me ip t = Some (t\<lparr>inodes := wr\<rparr>)"
    and "inodes t = rd \<Longrightarrow> inode_unlock me False ip t = Some (t\<lparr>inodes := inodes s\<rparr>)"
    and "inodes t = wr \<Longrightarrow> inode_unlock me True ip t = Some (t\<lparr>inodes := inodes s\<rparr>)"
proof -
  have id: "i\<lparr>i_rwlock := rw_lock_init\<rparr> = i" "(inodes s)(ip \<mapsto> i) = inodes s" using i by (simp_all flip: i(2) add: fun_upd_idem)
  have up: "r_lock_upgrade_to_w me reading = Some (Acquired (writing me))"
    by (simp add: r_lock_upgrade_to_w_def w_attempt_def rw_lock_init_def)
  have rel: "r_lock_release ww reading = Some ([], rw_lock_init)" "w_lock_release me ww (writing me) = Some ([], rw_lock_init)" for ww
    by (simp_all add: r_lock_release_def w_lock_release_def rw_lock_init_def)
  show "inode_lock me ip s = Some (s\<lparr>inodes := rd\<rparr>)"
    using i by (simp add: inode_lock_def taken_def r_lock_acquire_def r_attempt_def upd_inode_def rd_def rw_lock_init_def)
  show "inodes t = rd \<Longrightarrow> inode_upgrade me ip t = Some (t\<lparr>inodes := wr\<rparr>)"
    using up by (simp add: inode_upgrade_def taken_def upd_inode_def rd_def wr_def)
  show "inodes t = rd \<Longrightarrow> inode_unlock me False ip t = Some (t\<lparr>inodes := inodes s\<rparr>)"
    using id by (simp add: inode_unlock_def released_def rel upd_inode_def rd_def)
  show "inodes t = wr \<Longrightarrow> inode_unlock me True ip t = Some (t\<lparr>inodes := inodes s\<rparr>)"
    using id by (simp add: inode_unlock_def released_def rel upd_inode_def wr_def)
qed

lemma fs_ok_inodes [simp]: "fs_ok n (s\<lparr>inodes := x\<rparr>) = fs_ok n s"
  by (simp add: fs_ok_def)

lemma in_range_tree: "tree_ok (cap_of s) (contents_of s) r \<Longrightarrow> in_range s r"
  using tree_okD(1) by (auto simp: in_range_def)

lemma inode_read_unlocked:
  assumes ok: "fs_ok n s" and ip: "unlocked_inode s ip sec" and f: "file_ok (cap_of s) (contents_of s) sec len m"
    and o': "o' < MAX_LENGTH"
  shows "\<exists>s'. inode_read_at_with iw me ip (int z) (int o') s = Some (take z (drop o' (file_bytes (contents_of s) sec)), s')
    \<and> io s (contents_of s) s' \<and> fs_ok n s'"
proof -
  let ?v = "contents_of s"
  obtain i where i: "inodes s ip = Some i" "i_rwlock i = rw_lock_init" "i_sector i = sec" using ip by (auto simp: unlocked_inode_def)
  let ?i = "(inodes s)(ip \<mapsto> i\<lparr>i_rwlock := reading\<rparr>)" and ?s1 = "s\<lparr>inodes := (inodes s)(ip \<mapsto> i\<lparr>i_rwlock := reading\<rparr>)\<rparr>"
  have ok1: "fs_ok n ?s1" using ok by simp
  obtain s2 where s2: "bread me sec ?s1 = Some (?v sec, s2)" "io ?s1 ?v s2" "fs_ok n s2"
    using bread_ok [OF ok1, of sec me] file_okD(2) [OF f] by auto
  have c2: "contents_of s2 = ?v" "cap_of s2 = cap_of s" using s2(2) by (simp_all add: io_simps)
  have rng: "in_range s2 (d_lvl1 (?v sec))" using file_okD(1) [OF f] in_range_tree [of s2] c2 by simp
  have "mapped ?v (d_lvl1 (?v sec)) o' (min (o' + z) len)" using file_okD(5) [OF f] by (intro file_ok_mapped [OF f]) simp
  then obtain s3 where s3: "read_loop iw me (?v sec) (int z) (int o') [] s2 = Some (map (raw ?v (d_lvl1 (?v sec))) [o'..<min (o' + z) len], s3)"
      "io s2 ?v s3" "fs_ok n s3"
    using read_loop_ok [OF s2(3) rng, of len o' z iw me "[]"] file_okD(4) [OF f] file_ok_lt [OF f] o' c2 by auto
  have i3: "io ?s1 ?v s3" using s2(2) s3(2) io_trans by blast
  then have in3: "inodes s3 = ?i" by (simp add: io_simps)
  have "inode_read_at_with iw me ip (int z) (int o') s = Some (map (raw ?v (d_lvl1 (?v sec))) [o'..<min (o' + z) len], s3\<lparr>inodes := inodes s\<rparr>)"
    using i s2(1) s3(1) fs_okD(1) [OF ok] lock_steps(1) [OF i(1,2), of me] lock_steps(3) [OF i(1,2) in3, of me]
    by (simp add: inode_read_at_with_def)
  moreover have "map (raw ?v (d_lvl1 (?v sec))) [o'..<min (o' + z) len] = take z (drop o' (file_bytes ?v sec))"
    unfolding file_ok_bytes [OF f] by (simp add: take_map drop_map min_def take_upt)
  ultimately show ?thesis using io_inodes [OF i3] s3(3) by auto
qed

lemmas inode_read_ok = inode_read_unlocked [OF _ free_unlocked]

text \<open>The end of \<open>inode_write_at\<close>, once every block is there: the loop, then the inode itself.\<close>

definition wrote :: "nat \<Rightarrow> (nat \<Rightarrow> byte list) \<Rightarrow> nat \<Rightarrow> nat \<Rightarrow> nat \<Rightarrow> nat \<Rightarrow> byte list \<Rightarrow> (nat \<Rightarrow> byte list) \<Rightarrow> bool" where
  "wrote cap v sec len m o' bs w \<longleftrightarrow> file_ok cap w sec (max len (o' + length bs)) m
     \<and> file_bytes w sec = splice o' bs (file_bytes v sec)
     \<and> (\<forall>t. t \<notin> file_sectors v sec \<longrightarrow> w t = v t) \<and> file_sectors w sec = file_sectors v sec"

lemma d_fields_put:
  assumes "length bs = BLOCK_SECTOR_SIZE" "0 \<le> x" "x < 2 ^ 31"
  shows "d_lvl1 (put32 4 (off_bits x) bs) = d_lvl1 bs" "d_length (put32 4 (off_bits x) bs) = x"
  using assms off_bits_inverse [of x] by (simp_all add: d_lvl1_def d_length_def get32_put32 BLOCK_SECTOR_SIZE_def)

lemma wrote_meta:
  assumes f: "file_ok cap v sec len m" and d: "data_only v (d_lvl1 (v sec)) w" and ov: "overwrites v (d_lvl1 (v sec)) o' bs w"
    and fit: "o' + length bs \<le> m * BLOCK_SECTOR_SIZE" and len: "length (v sec) = BLOCK_SECTOR_SIZE"
  shows "wrote cap v sec len m o' bs (w(sec := put32 4 (off_bits (int (max len (o' + length bs)))) (v sec)))"
proof -
  let ?r = "d_lvl1 (v sec)" and ?L = "max len (o' + length bs)"
  let ?u = "w(sec := put32 4 (off_bits (int ?L)) (v sec))"
  have L: "?L \<le> m * BLOCK_SECTOR_SIZE" using fit file_okD(5) [OF f] by simp
  then have "?L < 2 ^ 31" using file_ok_lt [OF f] by (simp add: MAX_LENGTH_def MAX_BLOCKS_def BLOCK_SECTOR_SIZE_def)
  then have u: "d_lvl1 (?u sec) = ?r" "d_length (?u sec) = int ?L" using d_fields_put [OF len, of "int ?L"] by simp_all
  have sec: "at v ?r n = Some p \<Longrightarrow> vnode n \<Longrightarrow> p \<noteq> sec" for n p using footprintI file_okD(3) [OF f] by metis
  have at: "at ?u ?r n = at v ?r n" if "vnode n" for n
  proof -
    have wv: "at w ?r n = at v ?r n" if "vnode n" for n using d that by (simp add: data_only_def)
    have "at ?u ?r n = at w ?r n" using wv sec by (intro at_cong [OF _ that]) auto
    then show ?thesis using wv [OF that] by simp
  qed
  have bm: "bmap ?u ?r k = bmap v ?r k" if "k < MAX_BLOCKS" for k using at [OF block_node_simps [OF that]] by (simp add: bmap_def)
  have fp: "footprint ?u ?r = footprint v ?r" by (rule footprint_cong) (rule at)
  have raw: "raw ?u ?r q = (if o' \<le> q \<and> q < o' + length bs then bs ! (q - o') else raw v ?r q)" if q: "q < m * BLOCK_SECTOR_SIZE" for q
  proof -
    have qm: "q < MAX_LENGTH" using file_ok_lt [OF f] q by simp
    from file_ok_mapped [OF f order_refl, of q] q obtain p where p: "bmap v ?r (q div BLOCK_SECTOR_SIZE) = Some p"
      by (auto simp: mapped_def)
    have "p \<noteq> sec" using p sec [OF _ block_node_simps [OF block_lt [OF qm]]] by (simp add: bmap_def)
    then have "raw ?u ?r q = raw w ?r q" using p bm [OF block_lt [OF qm]] data_only_bmap [OF d block_lt [OF qm]] by (simp add: raw_def)
    then show ?thesis using ov qm p by (auto simp: overwrites_def)
  qed
  have ok: "file_ok cap ?u sec ?L m"
  proof -
    have "raw ?u ?r q = 0" if "?L \<le> q" "q < m * BLOCK_SECTOR_SIZE" for q using raw [OF that(2)] file_okD(8) [OF f _ that(2)] that(1) by auto
    then show ?thesis unfolding file_ok_def u Let_def fp
      using file_okD(2,3,6,7) [OF f] L bm tree_ok_cong [OF file_okD(1) [OF f] at] by simp
  qed
  have "file_bytes ?u sec = splice o' bs (file_bytes v sec)"
  proof (rule nth_equalityI)
    show "length (file_bytes ?u sec) = length (splice o' bs (file_bytes v sec))"
      by (simp add: length_file_bytes [OF ok] length_file_bytes [OF f])
    fix q assume "q < length (file_bytes ?u sec)"
    then have q: "q < ?L" by (simp add: length_file_bytes [OF ok])
    then have qm: "q < m * BLOCK_SECTOR_SIZE" using L by linarith
    have "file_bytes ?u sec ! q = raw ?u ?r q" unfolding file_ok_bytes [OF ok] u(1) using q by simp
    moreover have "q < len \<Longrightarrow> file_bytes v sec ! q = raw v ?r q" unfolding file_ok_bytes [OF f] by simp
    ultimately show "file_bytes ?u sec ! q = splice o' bs (file_bytes v sec) ! q"
      using q raw [OF qm] file_okD(8) [OF f _ qm] by (auto simp: nth_splice length_file_bytes [OF f])
  qed
  moreover have "?u t = v t" if "t \<notin> file_sectors v sec" for t
  proof -
    have "\<forall>k<MAX_BLOCKS. bmap v ?r k \<noteq> Some t" using that footprintI [OF block_node_simps] by (force simp: file_sectors_def bmap_def)
    then show ?thesis using that d by (auto simp: data_only_def file_sectors_def)
  qed
  ultimately show ?thesis using ok fp u(1) by (simp add: wrote_def file_sectors_def)
qed

lemma write_tail:
  assumes ok: "fs_ok (Suc (nblocks o' z + n)) s" and f: "file_ok (cap_of s) (contents_of s) sec len m"
    and fit: "o' + z \<le> m * BLOCK_SECTOR_SIZE" and buf: "z \<le> length buf"
  defines "meta \<equiv> put32 4 (off_bits (int (max len (o' + z)))) (contents_of s sec)"
  shows "\<exists>s1 s2 w. write_loop iw me meta buf (int z) (int o') 0 s = Some (int z, s1) \<and> bwrite me sec meta s1 = Some s2
    \<and> io s w s2 \<and> fs_ok n s2 \<and> wrote (cap_of s) (contents_of s) sec len m o' (take z buf) w"
proof -
  let ?v = "contents_of s" and ?L = "max len (o' + z)"
  have len: "length (?v sec) = BLOCK_SECTOR_SIZE" by (rule contents_length [OF ok file_okD(2) [OF f]])
  have L: "?L \<le> m * BLOCK_SECTOR_SIZE" using fit file_okD(5) [OF f] by simp
  then have lt: "?L < MAX_LENGTH" using file_ok_lt [OF f] by simp
  then have "?L < 2 ^ 31" by (simp add: MAX_LENGTH_def MAX_BLOCKS_def BLOCK_SECTOR_SIZE_def)
  then have m: "d_lvl1 meta = d_lvl1 (?v sec)" "d_length meta = int ?L" using d_fields_put [OF len, of "int ?L"] by (simp_all add: meta_def)
  obtain s1 w where s1: "write_loop iw me meta buf (int z) (int o') (int 0) s = Some (int (0 + z), s1)" "io s w s1" "fs_ok (Suc n) s1"
      "data_only ?v (d_lvl1 (?v sec)) w" "overwrites ?v (d_lvl1 (?v sec)) o' (take z (drop 0 buf)) w"
    using write_loop_ok [of o' z "Suc n" s meta ?L 0 buf iw me] ok file_okD(1) [OF f] m lt file_ok_mapped [OF f fit] buf by auto
  have "length meta = BLOCK_SECTOR_SIZE" using len by (simp add: meta_def BLOCK_SECTOR_SIZE_def)
  moreover have "sec < cap_of s1" using s1(2) file_okD(2) [OF f] by (simp add: io_simps)
  ultimately obtain s2 where s2: "bwrite me sec meta s1 = Some s2" "io s1 (w(sec := meta)) s2" "fs_ok n s2"
    using bwrite_ok [OF s1(3)] s1(2) by (force simp: io_simps)
  have "length (take z buf) = z" using buf by simp
  then have "wrote (cap_of s) ?v sec len m o' (take z buf) (w(sec := meta))"
    using wrote_meta [OF f s1(4), of o' "take z buf"] s1(5) fit len by (simp add: meta_def)
  then show ?thesis using s1(1) s2 io_trans [OF s1(2) s2(2)] by auto
qed

lemma end_sector_nat: "e < MAX_LENGTH \<Longrightarrow> end_sector (int e) = int ((e + BLOCK_SECTOR_SIZE - 1) div BLOCK_SECTOR_SIZE)"
proof -
  assume e: "e < MAX_LENGTH"
  have "s32 (int e + int BLOCK_SECTOR_SIZE - 1) = int (e + BLOCK_SECTOR_SIZE - 1)"
    using e by (simp add: s32_def MAX_LENGTH_def MAX_BLOCKS_def BLOCK_SECTOR_SIZE_def)
  then show ?thesis by (simp add: end_sector_def signed_divide_int_def sgn_if BLOCK_SECTOR_SIZE_def zdiv_int)
qed

lemma s32_length: "e < MAX_LENGTH \<Longrightarrow> s32 (int e) = int e"
  by (simp add: s32_def MAX_LENGTH_def MAX_BLOCKS_def BLOCK_SECTOR_SIZE_def)

lemma inode_write_ok:
  assumes ok: "fs_ok (Suc (nblocks o' z + n)) s" and ip: "free_inode s ip sec" and f: "file_ok (cap_of s) (contents_of s) sec len m"
    and room: "(o' + z + BLOCK_SECTOR_SIZE - 1) div BLOCK_SECTOR_SIZE < m" and buf: "z \<le> length buf"
  shows "\<exists>s' w. inode_write_at_with iw me ip buf (int z) (int o') s = Some (int z, s') \<and> io s w s' \<and> fs_ok n s'
    \<and> wrote (cap_of s) (contents_of s) sec len m o' (take z buf) w"
proof -
  let ?v = "contents_of s" and ?r = "d_lvl1 (contents_of s sec)"
  define k where "k = (o' + z + BLOCK_SECTOR_SIZE - 1) div BLOCK_SECTOR_SIZE"
  note room = room [folded k_def]
  obtain i where i: "inodes s ip = Some i" "i_rwlock i = rw_lock_init" "i_sector i = sec" "i_deny_write_cnt i = 0"
    using ip by (auto simp: free_inode_def)
  let ?i = "(inodes s)(ip \<mapsto> i\<lparr>i_rwlock := reading\<rparr>)" and ?s1 = "s\<lparr>inodes := (inodes s)(ip \<mapsto> i\<lparr>i_rwlock := reading\<rparr>)\<rparr>"
  have ok1: "fs_ok (Suc (nblocks o' z + n)) ?s1" using ok by simp
  obtain s2 where s2: "bread me sec ?s1 = Some (?v sec, s2)" "io ?s1 ?v s2" "fs_ok (Suc (nblocks o' z + n)) s2"
    using bread_ok [OF ok1, of sec me] file_okD(2) [OF f] by auto
  have c2: "contents_of s2 = ?v" "cap_of s2 = cap_of s" using s2(2) by (simp_all add: io_simps)
  have rng: "in_range s2 ?r" using file_okD(1) [OF f] in_range_tree [of s2] c2 by simp
  have k: "k < MAX_BLOCKS" using room file_okD(6) [OF f] by simp
  have fit: "o' + z \<le> m * BLOCK_SECTOR_SIZE" using room by (simp add: k_def BLOCK_SECTOR_SIZE_def div_less_iff_less_mult)
  then have lt: "o' + z < MAX_LENGTH" using file_ok_lt [OF f] by simp
  obtain p where p: "bmap ?v ?r k = Some p" using file_okD(7) [OF f k] room by auto
  then have pn: "p \<noteq> NOSECTOR" by (auto simp: bmap_def block_node_def slot_def Option.bind_eq_Some_conv split: if_splits)
  obtain s3 where s3: "lookup_with iw me (?v sec) k False s2 = Some (False, p, s3)" "io s2 ?v s3" "fs_ok (Suc (nblocks o' z + n)) s3"
    using lookup_find [OF s2(3) rng k, of iw me] p c2 by auto
  have last: "end_sector (int (o' + z)) = int k" "nat (int k mod 65536) = k" "s32 (int o' + int z) = int (o' + z)"
    using end_sector_nat [OF lt, folded k_def] s32_length [OF lt] k by (simp_all add: MAX_BLOCKS_def)
  have c3: "contents_of s3 = ?v" "cap_of s3 = cap_of s" using s3(2) c2 by (simp_all add: io_simps)
  from write_tail [OF s3(3), of sec len m buf iw me] f fit buf obtain s4 s5 w where
    s4: "write_loop iw me (put32 4 (off_bits (int (max len (o' + z)))) (?v sec)) buf (int z) (int o') 0 s3 = Some (int z, s4)"
      "bwrite me sec (put32 4 (off_bits (int (max len (o' + z)))) (?v sec)) s4 = Some s5" "io s3 w s5" "fs_ok n s5"
      "wrote (cap_of s) ?v sec len m o' (take z buf) w" unfolding c3 by blast
  have i5: "io ?s1 w s5" using s2(2) s3(2) s4(3) io_trans by blast
  then have in5: "inodes s5 = ?i" by (simp add: io_simps)
  have mx: "max (d_length (?v sec)) (int (o' + z)) = int (max len (o' + z))" using file_okD(4) [OF f] by simp
  have "inode_write_at_with iw me ip buf (int z) (int o') s = Some (int z, s5\<lparr>inodes := inodes s\<rparr>)"
    using i s2(1) s3(1) s4(1,2) pn fs_okD(1) [OF ok] lock_steps(1) [OF i(1,2), of me] lock_steps(3) [OF i(1,2) in5, of me]
    by (simp add: inode_write_at_with_def Let_def last mx del: of_nat_add of_nat_max)
  then show ?thesis using io_inodes [OF i5] s4(4,5) by auto
qed

end
