(* ===== verification/InodeGrow.thy ===== *)
theory InodeGrow
  imports InodeSpec
begin

text \<open>
  Growing a file: new nodes in the index, the allocator of sectors the index relies on, and the writes
  that need them.
\<close>

section \<open>New nodes in the index\<close>

fun sub_node :: "node \<Rightarrow> nat \<Rightarrow> node" where
  "sub_node NRoot i = N1 i"
| "sub_node (N1 a) i = N2 a i"
| "sub_node (N2 a b) i = N3 a b i"
| "sub_node (N3 a b c) i = N3 a b c"

fun inner :: "node \<Rightarrow> bool" where
  "inner (N3 a b c) \<longleftrightarrow> False"
| "inner _ \<longleftrightarrow> True"

lemma at_sub_node: "inner n \<Longrightarrow> at v r (sub_node n i) = Option.bind (at v r n) (\<lambda>p. slot v p i)"
  by (cases n) simp_all

text \<open>Sector \<open>p\<close> with contents \<open>x\<close> put in slot \<open>i\<close> of the index sector \<open>q\<close>.\<close>

definition planted :: "nat \<Rightarrow> nat \<Rightarrow> nat \<Rightarrow> byte list \<Rightarrow> (nat \<Rightarrow> byte list) \<Rightarrow> nat \<Rightarrow> byte list" where
  "planted q i p x v = v(p := x, q := set16 i p (v q))"

lemma slot_planted:
  assumes "p \<noteq> q" "length (v q) = BLOCK_SECTOR_SIZE" "i < 32" "j < 32" "p < NOSECTOR"
  shows "slot (planted q i p x v) q j = (if j = i then Some p else slot v q j)"
    "t \<noteq> p \<Longrightarrow> t \<noteq> q \<Longrightarrow> slot (planted q i p x v) t j = slot v t j"
    "x = ones \<Longrightarrow> slot (planted q i p x v) p j = None"
  using assms by (auto simp: planted_def slot_def get16_set16 BLOCK_SECTOR_SIZE_def NOSECTOR_def)

lemma at_planted:
  assumes t: "tree_ok cap v r" and n: "vnode n" "inner n" "at v r n = Some q" and i: "i < 32" "at v r (sub_node n i) = None"
    and p: "p \<notin> footprint v r" "p < NOSECTOR" and len: "length (v q) = BLOCK_SECTOR_SIZE"
    and x: "x = ones \<or> \<not> inner (sub_node n i)" and m: "vnode m"
  shows "at (planted q i p x v) r m = (if m = sub_node n i then Some p else at v r m)"
proof -
  let ?w = "planted q i p x v"
  have pq: "p \<noteq> q" using p(1) footprintI [OF n(1,3)] by blast
  note sl = slot_planted [where p = p and q = q and v = v and i = i and x = x, OF pq len i(1) _ p(2)]
  have fp: "at v r l = Some u \<Longrightarrow> vnode l \<Longrightarrow> u \<noteq> p" for l u using footprintI p(1) by blast
  text \<open>One level: if the sector of \<open>l\<close> is known after the change, so are those below.\<close>
  have down: "at ?w r (sub_node l j) = (if sub_node l j = sub_node n i then Some p else at v r (sub_node l j))"
    if l: "vnode l" "inner l" "j < 32" and IH: "at ?w r l = (if l = sub_node n i then Some p else at v r l)" for l j
  proof -
    have eq: "sub_node l j = sub_node n i \<longleftrightarrow> l = n \<and> j = i" using l(2) n(2) by (cases l; cases n) auto
    show ?thesis
    proof (cases "l = sub_node n i")
      case True
      then have lp: "at ?w r l = Some p" "at v r l = None" using IH i(2) by simp_all
      have "x = ones" using x True l(2) by blast
      moreover have "sub_node l j \<noteq> sub_node n i" unfolding True [symmetric] using l(2) by (cases l) auto
      ultimately show ?thesis unfolding at_sub_node [OF l(2)] lp using sl(3) [OF l(3)] by simp
    next
      case False
      show ?thesis
      proof (cases "at v r l")
        case None
        then have "l \<noteq> n" using n(3) by auto
        then show ?thesis using IH False None unfolding at_sub_node [OF l(2)] eq by simp
      next
        case (Some u)
        have "l = n \<longleftrightarrow> u = q" using tree_okD(3) [OF t l(1) n(1) Some] n(3) Some by auto
        then show ?thesis using IH False l(2,3) Some fp [OF Some l(1)] sl(1,2) unfolding at_sub_node [OF l(2)] eq by auto
      qed
    qed
  qed
  have 0: "at ?w r NRoot = (if NRoot = sub_node n i then Some p else at v r NRoot)" using n(2) by (cases n) auto
  have 1: "at ?w r (N1 a) = (if N1 a = sub_node n i then Some p else at v r (N1 a))" if "a < 32" for a
    using down [of NRoot a, OF _ _ that 0] by (simp del: at_down at.simps)
  have 2: "at ?w r (N2 a b) = (if N2 a b = sub_node n i then Some p else at v r (N2 a b))" if "a < 32" "b < 32" for a b
    using down [of "N1 a" b, OF _ _ that(2) 1 [OF that(1)]] that by (simp del: at_down at.simps)
  have 3: "at ?w r (N3 a b c) = (if N3 a b c = sub_node n i then Some p else at v r (N3 a b c))" if "a < 32" "b < 32" "c < 32" for a b c
    using down [of "N2 a b" c, OF _ _ that(3) 2 [OF that(1,2)]] that by (simp del: at_down at.simps)
  show ?thesis using 0 1 2 3 m by (cases m) (simp_all del: at_down at.simps)
qed

text \<open>\<open>extends cap own v r w X K\<close>: the index of \<open>w\<close> is that of \<open>v\<close> with nodes added on the new sectors \<open>X\<close>,
  among them the blocks \<open>K\<close>; data sectors already there keep their bytes, and outside of the index only
  the sectors \<open>own\<close>, which are not part of it, may change.\<close>

definition extends ::
  "nat \<Rightarrow> nat set \<Rightarrow> (nat \<Rightarrow> byte list) \<Rightarrow> nat \<Rightarrow> (nat \<Rightarrow> byte list) \<Rightarrow> nat set \<Rightarrow> nat set \<Rightarrow> bool" where
  "extends cap own v r w X K \<longleftrightarrow> tree_ok cap w r \<and> footprint w r = footprint v r \<union> X \<and> footprint v r \<inter> X = {}
     \<and> footprint w r \<inter> own = {}
     \<and> (\<forall>m p. vnode m \<and> at v r m = Some p \<longrightarrow> at w r m = Some p)
     \<and> (\<forall>t. t \<notin> footprint w r \<union> own \<longrightarrow> w t = v t)
     \<and> (\<forall>k<MAX_BLOCKS. \<forall>p. bmap v r k = Some p \<longrightarrow> w p = v p)
     \<and> (\<forall>k<MAX_BLOCKS. k \<notin> K \<longrightarrow> bmap w r k = bmap v r k)"

lemma extendsD:
  assumes "extends cap own v r w X K"
  shows "tree_ok cap w r" "footprint w r = footprint v r \<union> X" "footprint w r \<inter> own = {}"
    "vnode m \<Longrightarrow> at v r m = Some p \<Longrightarrow> at w r m = Some p"
    "k < MAX_BLOCKS \<Longrightarrow> bmap v r k = Some p \<Longrightarrow> w p = v p"
    "k < MAX_BLOCKS \<Longrightarrow> k \<notin> K \<Longrightarrow> bmap w r k = bmap v r k"
    "t \<notin> footprint v r \<Longrightarrow> t \<notin> X \<Longrightarrow> t \<notin> own \<Longrightarrow> w t = v t"
    "k < MAX_BLOCKS \<Longrightarrow> bmap v r k = Some p \<Longrightarrow> bmap w r k = Some p"
  using assms block_node_simps unfolding extends_def bmap_def by auto

lemma planted_extends:
  assumes t: "tree_ok cap v r" and n: "vnode n" "inner n" "at v r n = Some q" and i: "i < 32" "at v r (sub_node n i) = None"
    and p: "p \<notin> footprint v r" "p < NOSECTOR" "0 < p" "p < cap" "p \<notin> own" and len: "length (v q) = BLOCK_SECTOR_SIZE"
    and x: "x = ones \<or> \<not> inner (sub_node n i)" and own: "footprint v r \<inter> own = {}"
  shows "extends cap own v r (planted q i p x v) {p} {k. block_node k = sub_node n i}"
    and "at (planted q i p x v) r (sub_node n i) = Some p"
proof -
  let ?w = "planted q i p x v"
  have vs: "vnode (sub_node n i)" using n(1,2) i(1) by (cases n) auto
  have at: "at ?w r m = (if m = sub_node n i then Some p else at v r m)" if "vnode m" for m
    by (rule at_planted [OF t n i p(1,2) len x that])
  show "at ?w r (sub_node n i) = Some p" using at [OF vs] by simp
  have fp: "footprint ?w r = footprint v r \<union> {p}"
  proof (intro set_eqI iffI)
    fix u assume "u \<in> footprint ?w r"
    then obtain m where "vnode m" "at ?w r m = Some u" by (auto simp: footprint_def)
    then show "u \<in> footprint v r \<union> {p}" using at [of m] footprintI [of m v r u] by (auto split: if_splits)
  next
    fix u assume "u \<in> footprint v r \<union> {p}"
    then show "u \<in> footprint ?w r"
    proof
      assume "u \<in> footprint v r"
      then obtain m where "vnode m" "at v r m = Some u" by (auto simp: footprint_def)
      then show ?thesis using at [of m] i(2) by (intro footprintI [of m]) auto
    qed (use at [OF vs] vs in \<open>auto intro: footprintI\<close>)
  qed
  have "tree_ok cap ?w r"
    unfolding tree_ok_def fp
  proof (intro conjI allI impI)
    show "footprint v r \<union> {p} \<subseteq> {0<..<cap}" using t p by (auto simp: tree_ok_def)
    fix m m' u assume "vnode m \<and> vnode m' \<and> at ?w r m = Some u \<and> at ?w r m' = Some u"
    then show "m = m'" using at footprintI [of _ v r] p(1) tree_okD(3) [OF t] by (metis option.inject)
  qed
  moreover have "at ?w r m = Some u" if "vnode m" "at v r m = Some u" for m u using at [OF that(1)] that(2) i(2) by auto
  moreover have "?w t = v t" if "t \<notin> footprint v r \<union> {p}" for t
    using that footprintI [OF n(1,3)] by (auto simp: planted_def)
  moreover have "?w u = v u" if k: "k < MAX_BLOCKS" "bmap v r k = Some u" for k u
  proof -
    have u: "at v r (block_node k) = Some u" using k(2) by (simp add: bmap_def)
    have "block_node k \<noteq> n" using n(2) by (cases n) (simp_all add: block_node_is_leaf)
    then have "u \<noteq> q" using tree_okD(3) [OF t block_node_simps [OF k(1)] n(1) u] n(3) by auto
    moreover have "u \<noteq> p" using footprintI [OF block_node_simps [OF k(1)] u] p(1) by blast
    ultimately show ?thesis by (simp add: planted_def)
  qed
  moreover have "bmap ?w r k = bmap v r k" if "k < MAX_BLOCKS" "block_node k \<noteq> sub_node n i" for k
    using at [OF block_node_simps [OF that(1)]] that(2) by (simp add: bmap_def)
  ultimately show "extends cap own v r ?w {p} {k. block_node k = sub_node n i}"
    using fp p own unfolding extends_def by auto
qed

lemma extends_own:
  assumes t: "tree_ok cap v r" and own: "footprint v r \<inter> own = {}" and same: "\<And>t. t \<notin> own \<Longrightarrow> w t = v t"
  shows "extends cap own v r w {} {}"
proof -
  have at: "at w r m = at v r m" if "vnode m" for m
    using same own footprintI by (intro at_cong [OF _ that]) blast
  have fp: "footprint w r = footprint v r" by (rule footprint_cong) (rule at)
  have "w p = v p" if "k < MAX_BLOCKS" "bmap v r k = Some p" for k p
  proof -
    have "p \<in> footprint v r" using that footprintI [OF block_node_simps [OF that(1)]] by (simp add: bmap_def)
    then have "p \<notin> own" using own by blast
    then show ?thesis by (rule same)
  qed
  moreover have "bmap w r k = bmap v r k" if "k < MAX_BLOCKS" for k using at [OF block_node_simps [OF that]] by (simp add: bmap_def)
  ultimately show ?thesis using at own same tree_ok_cong [OF t at] unfolding extends_def fp by auto
qed

lemma extends_trans:
  assumes a: "extends cap own u r v X K" and b: "extends cap own v r w Y L"
  shows "extends cap own u r w (X \<union> Y) (K \<union> L)"
proof -
  have "w p = u p" if "k < MAX_BLOCKS" "bmap u r k = Some p" for k p
    using extendsD(5,8) [OF a that] extendsD(5) [OF b that(1)] by simp
  then show ?thesis using a b unfolding extends_def by auto
qed

section \<open>Allocating sectors\<close>

abbreviation used_of :: "fsys \<Rightarrow> nat set" where
  "used_of s \<equiv> bm_used (free_map s)"

definition free_of :: "fsys \<Rightarrow> nat" where
  "free_of s = card ({..<cap_of s} - used_of s)"

definition grants :: "nat set \<Rightarrow> nat \<Rightarrow> fsys \<Rightarrow> fsys \<Rightarrow> bool" where
  "grants own p s s' \<longleftrightarrow> p < cap_of s \<and> p \<notin> used_of s \<and> used_of s' = insert p (used_of s) \<and> cap_of s' = cap_of s
     \<and> (\<forall>t. t \<notin> own \<longrightarrow> contents_of s' t = contents_of s t)
     \<and> s' = s\<lparr>fs_device := fs_device s', free_map := free_map s'\<rparr>"

lemma grants_free: "grants own p s s' \<Longrightarrow> Suc (free_of s') = free_of s"
proof -
  assume g: "grants own p s s'"
  then have "{..<cap_of s} - used_of s = insert p ({..<cap_of s'} - used_of s')" "p \<notin> {..<cap_of s'} - used_of s'"
    by (auto simp: grants_def)
  then show ?thesis by (simp add: free_of_def)
qed

text \<open>Only the device and the map change.\<close>

definition moved :: "fsys \<Rightarrow> fsys \<Rightarrow> bool" where
  "moved s s' \<longleftrightarrow> s' = s\<lparr>fs_device := fs_device s', free_map := free_map s'\<rparr> \<and> cap_of s' = cap_of s"

lemma moved_trans: "moved a b \<Longrightarrow> moved b c \<Longrightarrow> moved a c"
  unfolding moved_def by (cases a, cases b, cases c) simp

lemma moved_io: "io s v s' \<Longrightarrow> moved s s'"
  unfolding moved_def io_def by (cases s, cases s') simp

lemma moved_grants: "grants own p s s' \<Longrightarrow> moved s s'"
  by (simp add: moved_def grants_def)

lemma moved_fields:
  assumes "moved s s'"
  shows "cap_of s' = cap_of s" "inodes s' = inodes s" "free_map_file s' = free_map_file s" "open_inodes s' = open_inodes s"
    "next_inode s' = next_inode s" "dir_locks s' = dir_locks s" "mallocs s' = mallocs s"
  using assms unfolding moved_def by (cases s, cases s', simp)+

lemma mfold_none: "mfold f [] = Some"
  by (rule ext) simp

lemma mfold_single: "mfold f [x] = f x"
  by (rule ext) (simp add: mfold_none)

lemma mfold_more: "mfold f (x # y # zs) = (\<lambda>s. Option.bind (f x s) (mfold f (y # zs)))"
  by (rule ext) simp

lemma bwrites_ok:
  assumes "fs_ok (length ws + n) s" "\<And>sec buf. (sec, buf) \<in> set ws \<Longrightarrow> sec < cap_of s \<and> length buf = BLOCK_SECTOR_SIZE"
  shows "\<exists>s'. mfold (\<lambda>(sec, buf). bwrite me sec buf) ws s = Some s'
    \<and> io s (fold (\<lambda>(sec, buf) v. v(sec := buf)) ws (contents_of s)) s' \<and> fs_ok n s'"
  using assms
proof (induction ws arbitrary: s)
  case Nil
  then show ?case using io_refl by simp
next
  case (Cons w ws)
  obtain sec buf where w: "w = (sec, buf)" by force
  have ok: "fs_ok (Suc (length ws + n)) s" "sec < cap_of s" "length buf = BLOCK_SECTOR_SIZE" using Cons.prems w by auto
  from bwrite_ok [OF ok, of me] obtain s1 where s1: "bwrite me sec buf s = Some s1" "io s ((contents_of s)(sec := buf)) s1"
    "fs_ok (length ws + n) s1" by blast
  have c1: "contents_of s1 = (contents_of s)(sec := buf)" "cap_of s1 = cap_of s" by (rule io_fields [OF s1(2)])+
  have pre: "a < cap_of s1 \<and> length b = BLOCK_SECTOR_SIZE" if "(a, b) \<in> set ws" for a b
    using Cons.prems(2) [of a b] that c1(2) by simp
  from Cons.IH [OF s1(3) pre] obtain s' where
    "mfold (\<lambda>(sec, buf). bwrite me sec buf) ws s1 = Some s'"
    and i: "io s1 (fold (\<lambda>(sec, buf) v. v(sec := buf)) ws ((contents_of s)(sec := buf))) s'" and "fs_ok n s'" unfolding c1(1) by blast
  moreover have "io s (fold (\<lambda>(sec, buf) v. v(sec := buf)) (w # ws) (contents_of s)) s'" using io_trans [OF s1(2) i] w by simp
  moreover have "mfold (\<lambda>(sec, buf). bwrite me sec buf) (w # ws) s = mfold (\<lambda>(sec, buf). bwrite me sec buf) ws s1"
    using s1(1) w by simp
  ultimately show ?case by metis
qed

lemma fold_upd_off: "t \<notin> fst ` set ws \<Longrightarrow> fold (\<lambda>(sec, buf) v. v(sec := buf)) ws v t = v t"
  by (induction ws arbitrary: v) auto

text \<open>Block \<open>k\<close> is new, on sector \<open>p\<close> and full of zeros.\<close>

definition grew :: "nat set \<Rightarrow> nat \<Rightarrow> nat \<Rightarrow> nat \<Rightarrow> fsys \<Rightarrow> fsys \<Rightarrow> bool" where
  "grew own r k p s s' \<longleftrightarrow>
     (\<exists>X. extends (cap_of s) own (contents_of s) r (contents_of s') X {k} \<and> X \<inter> used_of s = {} \<and> used_of s' = used_of s \<union> X
        \<and> card X \<le> 3 \<and> p \<in> X)
     \<and> bmap (contents_of s') r k = Some p \<and> contents_of s' p = zeros \<and> moved s s'"

lemma get_set_slot: "p < NOSECTOR \<Longrightarrow> length l = BLOCK_SECTOR_SIZE \<Longrightarrow> i < 32 \<Longrightarrow> get16 (set16 i p l) i = p"
  by (simp add: get16_set16 BLOCK_SECTOR_SIZE_def NOSECTOR_def)

lemma lookup_create_unfold:
  assumes "mallocs s = []" "k < MAX_BLOCKS" "bread me (d_lvl1 ind) s = Some (l1, s1)"
    "level_down iw me True l1 (k div 2 ^ 10) s1 = Some (Some (p1, l1', l2), s2)"
    "level_down iw me True l2 (k div 2 ^ 5 mod 2 ^ 5) s2 = Some (Some (p2, l2', l3), s3)"
    "get16 l3 (k mod 2 ^ 5) = NOSECTOR" "free_map_allocate_with iw s3 = Some (Some p3, s4)"
    "lookup_store me (d_lvl1 ind) (k div 2 ^ 10, k div 2 ^ 5 mod 2 ^ 5, k mod 2 ^ 5) (p1, p2, Some p3)
       (l1', l2', set16 (k mod 2 ^ 5) p3 l3) s4 = Some s5"
  shows "lookup_with iw me ind k True s = Some (True, get16 (set16 (k mod 2 ^ 5) p3 l3) (k mod 2 ^ 5), s5)"
  using assms kbits [OF assms(2)] by (simp add: lookup_with_def Let_def)

text \<open>Used sectors \<open>X\<close> more, and \<open>card X\<close> free ones less.\<close>

lemma free_of_used:
  assumes "used_of s' = used_of s \<union> X" "cap_of s' = cap_of s" "finite X"
  shows "free_of s \<le> free_of s' + card X"
proof -
  have "{..<cap_of s} - used_of s \<subseteq> ({..<cap_of s'} - used_of s') \<union> X" using assms by auto
  then have "card ({..<cap_of s} - used_of s) \<le> card (({..<cap_of s'} - used_of s') \<union> X)" by (intro card_mono) (use assms(3) in auto)
  then show ?thesis using card_Un_le [of "{..<cap_of s'} - used_of s'" X] by (simp add: free_of_def)
qed

text \<open>The blocks \<open>K\<close> are new.\<close>

definition blocks_new :: "nat set \<Rightarrow> nat \<Rightarrow> nat set \<Rightarrow> nat set \<Rightarrow> fsys \<Rightarrow> fsys \<Rightarrow> bool" where
  "blocks_new own r K X s s' \<longleftrightarrow>
     extends (cap_of s) own (contents_of s) r (contents_of s') X K \<and> X \<inter> used_of s = {} \<and> used_of s' = used_of s \<union> X
     \<and> card X \<le> 3 * card K \<and> (\<forall>k\<in>K. \<exists>p. bmap (contents_of s') r k = Some p \<and> contents_of s' p = zeros) \<and> moved s s'"

lemma blocks_newD:
  assumes "blocks_new own r K X s s'"
  shows "extends (cap_of s) own (contents_of s) r (contents_of s') X K" "X \<inter> used_of s = {}" "used_of s' = used_of s \<union> X"
    "card X \<le> 3 * card K" "k \<in> K \<Longrightarrow> \<exists>p. bmap (contents_of s') r k = Some p \<and> contents_of s' p = zeros" "moved s s'"
    "cap_of s' = cap_of s" "finite X" "free_of s \<le> free_of s' + 3 * card K"
proof -
  show e: "extends (cap_of s) own (contents_of s) r (contents_of s') X K" and "X \<inter> used_of s = {}"
    and u: "used_of s' = used_of s \<union> X" and c: "card X \<le> 3 * card K" and "moved s s'"
    and "k \<in> K \<Longrightarrow> \<exists>p. bmap (contents_of s') r k = Some p \<and> contents_of s' p = zeros" using assms by (simp_all add: blocks_new_def)
  then show cap: "cap_of s' = cap_of s" by (simp add: moved_fields)
  show f: "finite X" using extendsD(2) [OF e] tree_okD(1) [OF extendsD(1) [OF e]] by (intro finite_subset [of X "{..<cap_of s}"]) auto
  show "free_of s \<le> free_of s' + 3 * card K" using free_of_used [OF u cap f] c by linarith
qed

lemma blocks_new_none:
  assumes "tree_ok (cap_of s) (contents_of s) r" "footprint (contents_of s) r \<inter> own = {}" "moved s s'"
    "contents_of s' = contents_of s" "free_map s' = free_map s"
  shows "blocks_new own r {} {} s s'"
  using assms extends_own [OF assms(1,2), of "contents_of s"] by (simp add: blocks_new_def)

lemma grew_blocks_new: "grew own r k p s s' \<Longrightarrow> \<exists>X. blocks_new own r {k} X s s'"
  by (auto simp: grew_def blocks_new_def)

lemma blocks_new_trans:
  assumes a: "blocks_new own r K X s s1" and b: "blocks_new own r L Y s1 s2" and K: "finite K" "finite L" "K \<inter> L = {}" "K \<subseteq> {..<MAX_BLOCKS}"
  shows "blocks_new own r (K \<union> L) (X \<union> Y) s s2"
proof -
  note A = blocks_newD [OF a] and B = blocks_newD [OF b]
  have e2: "extends (cap_of s) own (contents_of s1) r (contents_of s2) Y L" using B(1) A(7) by simp
  have "card (X \<union> Y) \<le> card X + card Y" by (rule card_Un_le)
  then have "card (X \<union> Y) \<le> 3 * card (K \<union> L)" using A(4) B(4) K by (simp add: card_Un_disjoint)
  moreover have "\<exists>p. bmap (contents_of s2) r k = Some p \<and> contents_of s2 p = zeros" if "k \<in> K \<union> L" for k
  proof (cases "k \<in> L")
    case False
    then have k: "k \<in> K" "k < MAX_BLOCKS" using that K(4) by auto
    obtain p where p: "bmap (contents_of s1) r k = Some p" "contents_of s1 p = zeros" using A(5) [OF k(1)] by blast
    show ?thesis using extendsD(8,5) [OF e2 k(2) p(1)] p(2) by simp
  qed (rule B(5))
  ultimately show ?thesis
    using extends_trans [OF A(1) e2] A(2,3) B(2,3) moved_trans [OF A(6) B(6)] unfolding blocks_new_def by auto
qed

text \<open>The same file with more blocks.\<close>

lemma file_more_blocks:
  assumes f: "file_ok cap v sec len m" and e: "extends cap own v (d_lvl1 (v sec)) u X {m..<m'}" and sec: "sec \<notin> own" "sec \<notin> X"
    and new: "\<And>k. m \<le> k \<Longrightarrow> k < m' \<Longrightarrow> \<exists>p. bmap u (d_lvl1 (v sec)) k = Some p \<and> u p = zeros" and m': "m \<le> m'" "m' < MAX_BLOCKS"
  shows "u sec = v sec" "file_ok cap u sec len m'" "file_bytes u sec = file_bytes v sec" "file_sectors u sec = file_sectors v sec \<union> X"
proof -
  let ?r = "d_lvl1 (v sec)" and ?B = BLOCK_SECTOR_SIZE
  note eD = extendsD [OF e]
  show us: "u sec = v sec" using eD(7) sec file_okD(3) [OF f] by blast
  have bm: "bmap u ?r k \<noteq> None \<longleftrightarrow> k < m'" if "k < MAX_BLOCKS" for k
  proof (cases "m \<le> k \<and> k < m'")
    case True
    then show ?thesis using new [of k] by auto
  next
    case False
    then have "bmap u ?r k = bmap v ?r k" using eD(6) [OF that] by simp
    then show ?thesis using file_okD(7) [OF f that] False m'(1) by auto
  qed
  have raw: "raw u ?r q = raw v ?r q" if "q < m * ?B" for q
  proof -
    have "q div ?B < m" using that by (rule less_mult_imp_div_less)
    then have k: "q div ?B < MAX_BLOCKS" using file_okD(6) [OF f] by simp
    obtain p where p: "bmap v ?r (q div ?B) = Some p" using file_okD(7) [OF f k] \<open>q div ?B < m\<close> by auto
    show ?thesis using eD(5,8) [OF k p] p by (simp add: raw_def)
  qed
  have zero: "raw u ?r q = 0" if "len \<le> q" "q < m' * ?B" for q
  proof (cases "q < m * ?B")
    case True
    then show ?thesis using raw file_okD(8) [OF f that(1)] by simp
  next
    case False
    then have "m \<le> q div ?B" by (simp add: BLOCK_SECTOR_SIZE_def less_eq_div_iff_mult_less_eq)
    moreover have "q div ?B < m'" using that(2) by (rule less_mult_imp_div_less)
    ultimately obtain p where "bmap u ?r (q div ?B) = Some p" "u p = zeros" using new by blast
    then show ?thesis using mod_bss [of q] by (simp add: raw_def zeros_def)
  qed
  have len: "len \<le> m' * ?B" using file_okD(5) [OF f] m'(1) by (meson le_trans mult_le_mono1)
  have sf: "sec \<notin> footprint u ?r" using eD(2) sec(2) file_okD(3) [OF f] by blast
  show "file_ok cap u sec len m'"
    unfolding file_ok_def us Let_def using eD(1) file_okD(2,4) [OF f] sf len m'(2) bm zero by blast
  show "file_bytes u sec = file_bytes v sec"
    using raw file_okD(4,5) [OF f] unfolding file_bytes_def us by simp
  show "file_sectors u sec = file_sectors v sec \<union> X" unfolding file_sectors_def us eD(2) by simp
qed

text \<open>The effect of a write that may have grown the file to \<open>m'\<close> blocks, on new sectors \<open>X\<close>.\<close>

definition wrote_more ::
  "nat set \<Rightarrow> nat \<Rightarrow> nat \<Rightarrow> nat \<Rightarrow> nat \<Rightarrow> byte list \<Rightarrow> nat set \<Rightarrow> fsys \<Rightarrow> fsys \<Rightarrow> bool" where
  "wrote_more own sec len m' o' bs X s s' \<longleftrightarrow>
     file_ok (cap_of s) (contents_of s') sec (max len (o' + length bs)) m'
     \<and> file_bytes (contents_of s') sec = splice o' bs (file_bytes (contents_of s) sec)
     \<and> file_sectors (contents_of s') sec = file_sectors (contents_of s) sec \<union> X
     \<and> X \<inter> used_of s = {} \<and> X \<inter> own = {} \<and> used_of s' = used_of s \<union> X
     \<and> (\<forall>t. t \<notin> file_sectors (contents_of s) sec \<union> X \<union> own \<longrightarrow> contents_of s' t = contents_of s t) \<and> moved s s'"

lemma moved_inodes: "moved (s\<lparr>inodes := x\<rparr>) s' \<Longrightarrow> moved s (s'\<lparr>inodes := inodes s\<rparr>)"
  unfolding moved_def by (cases s, cases s') simp

text \<open>A new inode, and its index while it is empty.\<close>

lemma new_inode_fields:
  assumes "p < 2 ^ 32" "len < 2 ^ 31"
  shows "d_lvl1 (new_inode_disk p (int len)) = p" "d_length (new_inode_disk p (int len)) = int len"
    "length (new_inode_disk p (int len)) = BLOCK_SECTOR_SIZE"
  using assms off_bits_inverse [of "int len"]
  by (simp_all add: new_inode_disk_def d_lvl1_def d_length_def get32_put32 BLOCK_SECTOR_SIZE_def)

lemma empty_index:
  assumes "v p = ones" "vnode m"
  shows "at v p m = (if m = NRoot then Some p else None)"
  using assms by (cases m) (simp_all add: slot_def)

lemma empty_tree:
  assumes "v p = ones" "0 < p" "p < cap"
  shows "tree_ok cap v p" "footprint v p = {p}" "k < MAX_BLOCKS \<Longrightarrow> bmap v p k = None"
proof -
  note at = empty_index [of v p, OF assms(1)]
  have "p \<in> footprint v p" using footprintI [of NRoot v p p] by simp
  then show fp: "footprint v p = {p}" using at by (auto simp: footprint_def split: if_splits)
  show "tree_ok cap v p" unfolding tree_ok_def fp using assms(2,3) at by (auto split: if_splits)
  show "k < MAX_BLOCKS \<Longrightarrow> bmap v p k = None" using at [OF block_node_simps] by (simp add: bmap_def block_node_is_leaf)
qed

text \<open>A new file of \<open>len\<close> zeros in sector \<open>sec\<close>, with the sectors \<open>X\<close> and \<open>m\<close> blocks.\<close>

definition created :: "nat set \<Rightarrow> nat \<Rightarrow> nat \<Rightarrow> nat \<Rightarrow> nat set \<Rightarrow> fsys \<Rightarrow> fsys \<Rightarrow> bool" where
  "created own sec len m X s s' \<longleftrightarrow>
     file_ok (cap_of s) (contents_of s') sec len m \<and> file_bytes (contents_of s') sec = replicate len 0
     \<and> file_sectors (contents_of s') sec = insert sec X \<and> X \<inter> used_of s = {} \<and> X \<inter> own = {} \<and> used_of s' = used_of s \<union> X \<and> card X \<le> Suc (3 * m)
     \<and> (\<forall>t. t \<notin> insert sec X \<union> own \<longrightarrow> contents_of s' t = contents_of s t) \<and> moved s s'"

lemma created_file:
  assumes e: "extends cap own v p w X {..<m}" and z: "\<And>k. k < m \<Longrightarrow> \<exists>q. bmap w p k = Some q \<and> w q = zeros"
    and v: "v p = ones" "0 < p" "p < cap" and sec: "w sec = new_inode_disk p (int len)" "sec < cap" "sec \<notin> footprint w p"
    and len: "len \<le> m * BLOCK_SECTOR_SIZE" and m: "m < MAX_BLOCKS" and lim: "p < 2 ^ 32" "len < 2 ^ 31"
  shows "file_ok cap w sec len m" "file_bytes w sec = replicate len 0" "file_sectors w sec = insert sec (insert p X)"
proof -
  note E = empty_tree [of v p cap, OF v] and eD = extendsD [OF e] and F = new_inode_fields [OF lim]
  have d: "d_lvl1 (w sec) = p" "d_length (w sec) = int len" using sec(1) F by simp_all
  have bm: "bmap w p k \<noteq> None \<longleftrightarrow> k < m" if "k < MAX_BLOCKS" for k
  proof (cases "k < m")
    case False
    then have "bmap w p k = bmap v p k" using eD(6) [OF that] by simp
    then show ?thesis using E(3) [OF that] False by simp
  qed (use z in auto)
  have zero: "raw w p q = 0" if "q < m * BLOCK_SECTOR_SIZE" for q
  proof -
    have "q div BLOCK_SECTOR_SIZE < m" using that by (rule less_mult_imp_div_less)
    then obtain u where "bmap w p (q div BLOCK_SECTOR_SIZE) = Some u" "w u = zeros" using z by blast
    then show ?thesis using mod_bss [of q] by (simp add: raw_def zeros_def)
  qed
  show "file_ok cap w sec len m" unfolding file_ok_def d Let_def using eD(1) sec(2,3) len m bm zero by blast
  show "file_bytes w sec = replicate len 0"
    unfolding file_bytes_def d using zero len by (intro nth_equalityI) auto
  show "file_sectors w sec = insert sec (insert p X)" unfolding file_sectors_def d eD(2) E(2) by simp
qed

text \<open>What the index relies on: an allocator that hands out free sectors as long as there are any,
  changes nothing but sectors of its own, and at a bounded number of writes.\<close>

locale sector_allocator =
  fixes iw :: inode_write
    and inv :: "fsys \<Rightarrow> bool"
    and own :: "nat set"
    and cost :: nat
    and fip :: nat
  assumes alloc_free: "inv s \<Longrightarrow> fs_ok (cost + n) s \<Longrightarrow> 0 < free_of s \<Longrightarrow>
      \<exists>p s'. free_map_allocate_with iw s = Some (Some p, s') \<and> grants own p s s' \<and> inv s' \<and> fs_ok n s'"
    and alloc_full: "inv s \<Longrightarrow> free_of s = 0 \<Longrightarrow> free_map_allocate_with iw s = Some (None, s)"
    and own_used: "inv s \<Longrightarrow> own \<subseteq> used_of s"
    and zero_used: "inv s \<Longrightarrow> 0 \<in> used_of s"
    and inv_io: "inv s \<Longrightarrow> io s v s' \<Longrightarrow> (\<And>t. t \<in> own \<Longrightarrow> v t = contents_of s t) \<Longrightarrow> inv s'"
    and inv_inodes: "inv s \<Longrightarrow> x fip = inodes s fip \<Longrightarrow> inv (s\<lparr>inodes := x\<rparr>)"
begin

lemma level_down_new:
  assumes "inv s" "fs_ok (cost + n) s" "0 < free_of s" "get16 lvl i = NOSECTOR"
  shows "\<exists>p s'. level_down iw me True lvl i s = Some (Some (Some p, set16 i p lvl, ones), s')
    \<and> grants own p s s' \<and> inv s' \<and> fs_ok n s'"
  using alloc_free [OF assms(1-3)] assms(4) by (auto simp: level_down_def)

lemma level_down_old:
  assumes "inv s" "fs_ok n s" "get16 lvl i = p" "p \<noteq> NOSECTOR" "p < cap_of s"
  shows "\<exists>s'. level_down iw me create lvl i s = Some (Some (None, lvl, contents_of s p), s')
    \<and> io s (contents_of s) s' \<and> inv s' \<and> fs_ok n s'"
proof -
  obtain s' where s': "bread me p s = Some (contents_of s p, s')" "io s (contents_of s) s'" "fs_ok n s'"
    using bread_ok [OF assms(2,5)] by blast
  then have "inv s'" using inv_io [OF assms(1) s'(2)] by simp
  then show ?thesis using s' assms(3,4) by (auto simp: level_down_def)
qed

lemma fresh_ok:
  assumes "inv s" "grants own p s s'" "fs_ok n s"
  shows "p \<notin> own" "p \<noteq> 0" "p < NOSECTOR" "p < cap_of s" "p \<notin> used_of s"
proof -
  have z: "0 \<in> used_of s" by (rule zero_used [OF assms(1)])
  show u: "p < cap_of s" "p \<notin> used_of s" using assms(2) by (simp_all add: grants_def)
  show "p \<notin> own" using u own_used [OF assms(1)] by auto
  show "p \<noteq> 0" using u z by metis
  from u show "p < NOSECTOR" using cap_le [OF assms(3)] by (simp add: NOSECTOR_def SECTOR_NUM_def BLOCK_SECTOR_SIZE_def)
qed

text \<open>The last step of a lookup that creates: the data sector \<open>p\<close> below the index sector \<open>q\<close> of node
  \<open>N2 a b\<close>, whose index and those above it are written by \<open>ws\<close>.\<close>

lemma new_leaf:
  assumes t: "tree_ok cap u r" and own: "footprint u r \<inter> own = {}" and q: "at u r (N2 a b) = Some q" "at u r (N3 a b c) = None"
    and abc: "a < 32" "b < 32" "c < 32" and p: "p \<notin> footprint u r" "p \<notin> own" "p \<noteq> 0" "p < NOSECTOR" "p < cap"
    and len: "length (u q) = BLOCK_SECTOR_SIZE"
  shows "extends cap own u r (planted q c p zeros u) {p} {k. block_node k = N3 a b c}"
    "at (planted q c p zeros u) r (N3 a b c) = Some p" "planted q c p zeros u p = zeros"
proof -
  have "p \<noteq> q" using q(1) abc p(1) footprintI [of "N2 a b"] by auto
  then show "planted q c p zeros u p = zeros" by (simp add: planted_def)
  show "extends cap own u r (planted q c p zeros u) {p} {k. block_node k = N3 a b c}"
    "at (planted q c p zeros u) r (N3 a b c) = Some p"
    using planted_extends [OF t, of "N2 a b" q c p own zeros] q abc p len own by (simp_all del: at_down)
qed

lemma new_index:
  assumes t: "tree_ok cap u r" and own: "footprint u r \<inter> own = {}" and n: "vnode n" "inner n" "inner (sub_node n i)" "at u r n = Some q"
    "at u r (sub_node n i) = None" and i: "i < 32" and p: "p \<notin> footprint u r" "p \<notin> own" "p \<noteq> 0" "p < NOSECTOR" "p < cap"
    and len: "length (u q) = BLOCK_SECTOR_SIZE"
  shows "extends cap own u r (planted q i p ones u) {p} {}" "at (planted q i p ones u) r (sub_node n i) = Some p"
    "planted q i p ones u p = ones" "j < 32 \<Longrightarrow> at (planted q i p ones u) r (sub_node (sub_node n i) j) = None"
proof -
  have pq: "p \<noteq> q" using n p(1) footprintI by blast
  then show p1: "planted q i p ones u p = ones" by (simp add: planted_def)
  have "{k. block_node k = sub_node n i} = {}" using n(3) by (auto simp: block_node_def split: if_splits) (cases n; simp)
  then show "extends cap own u r (planted q i p ones u) {p} {}" and at: "at (planted q i p ones u) r (sub_node n i) = Some p"
    using planted_extends [OF t n(1,2,4) i n(5) p(1,4) _ p(5,2) len _ own, of ones] p(3) by auto
  show "j < 32 \<Longrightarrow> at (planted q i p ones u) r (sub_node (sub_node n i) j) = None"
    unfolding at_sub_node [OF n(3)] at by (simp add: slot_def p1)
qed

text \<open>Writing the new sectors, once they are allocated.\<close>

lemma finish_growth:
  assumes t: "tree_ok (cap_of s) (contents_of s) r" and own: "footprint (contents_of s) r \<inter> own = {}"
    and inv: "inv s4" and ok: "fs_ok (length ws + n) s4" and mv: "moved s s4"
    and same: "\<And>t. t \<notin> own \<Longrightarrow> contents_of s4 t = contents_of s t"
    and X: "used_of s4 = used_of s \<union> X" "X \<inter> used_of s = {}" "card X \<le> 3" "p \<in> X"
    and ext: "extends (cap_of s) own (contents_of s4) r w X {k}" "bmap w r k = Some p" "w p = zeros"
    and w: "w = fold (\<lambda>(sec, buf) v. v(sec := buf)) ws (contents_of s4)"
    and ws: "\<And>sec buf. (sec, buf) \<in> set ws \<Longrightarrow> sec \<in> footprint w r \<and> length buf = BLOCK_SECTOR_SIZE"
  shows "\<exists>s5. mfold (\<lambda>(sec, buf). bwrite me sec buf) ws s4 = Some s5 \<and> inv s5 \<and> fs_ok n s5 \<and> grew own r k p s s5"
proof -
  have cap: "cap_of s4 = cap_of s" using moved_fields(1) [OF mv] .
  have pre: "sec < cap_of s4 \<and> length buf = BLOCK_SECTOR_SIZE" if "(sec, buf) \<in> set ws" for sec buf
    using ws [OF that] tree_okD(1) [OF extendsD(1) [OF ext(1)]] cap by auto
  obtain s5 where s5: "mfold (\<lambda>(sec, buf). bwrite me sec buf) ws s4 = Some s5" "io s4 w s5" "fs_ok n s5"
    using bwrites_ok [OF ok pre] unfolding w by blast
  have "w t = contents_of s4 t" if "t \<in> own" for t
    unfolding w using that ws extendsD(3) [OF ext(1)] by (intro fold_upd_off) force
  then have "inv s5" using inv_io [OF inv s5(2)] by blast
  moreover have "extends (cap_of s) own (contents_of s) r w ({} \<union> X) ({} \<union> {k})"
    by (rule extends_trans [OF extends_own [OF t own same] ext(1)])
  ultimately show ?thesis
    using s5 X ext(2,3) moved_trans [OF mv moved_io [OF s5(2)]] io_fields(1,4) [OF s5(2)] by (auto simp: grew_def)
qed

lemma lookup_create_leaf:
  assumes inv: "inv s" and ok: "fs_ok (3 * cost + 4 + n) s" and t: "tree_ok (cap_of s) (contents_of s) (d_lvl1 ind)"
    and own: "footprint (contents_of s) (d_lvl1 ind) \<inter> own = {}" and us: "footprint (contents_of s) (d_lvl1 ind) \<subseteq> used_of s"
    and k: "k < MAX_BLOCKS" and free: "3 \<le> free_of s"
    and none: "bmap (contents_of s) (d_lvl1 ind) k = None"
    and q2: "at (contents_of s) (d_lvl1 ind) (N2 (k div 2 ^ 10) (k div 2 ^ 5 mod 2 ^ 5)) = Some q2"
  shows "\<exists>p s'. lookup_with iw me ind k True s = Some (True, p, s') \<and> inv s' \<and> fs_ok n s' \<and> grew own (d_lvl1 ind) k p s s'"
proof -
  let ?v = "contents_of s" and ?r = "d_lvl1 ind" and ?a = "k div 2 ^ 10" and ?b = "k div 2 ^ 5 mod 2 ^ 5" and ?c = "k mod 2 ^ 5"
  note kb = kbits [OF k]
  have okm: "fs_ok (cost + (2 + n)) s" by (rule fs_ok_mono [OF ok]) simp
  obtain s1 where s1: "bread me ?r s = Some (?v ?r, s1)" "io s ?v s1" "fs_ok (cost + (2 + n)) s1"
    using bread_ok [OF okm, of ?r me] tree_okD(4) [OF t] by blast
  have c1: "contents_of s1 = ?v" "cap_of s1 = cap_of s" by (rule io_fields [OF s1(2)])+
  have inv1: "inv s1" using inv_io [OF inv s1(2)] by simp
  obtain q1 where q1: "at ?v ?r (N1 ?a) = Some q1" "slot ?v q1 ?b = Some q2" using q2 by (auto simp: Option.bind_eq_Some_conv)
  have g1: "get16 (?v ?r) ?a = q1" "q1 \<noteq> NOSECTOR" and g2: "get16 (?v q1) ?b = q2" "q2 \<noteq> NOSECTOR"
    using q1 by (auto simp: slot_def split: if_splits)
  have r1: "q1 < cap_of s1" "q2 < cap_of s" using tree_okD(2) [OF t _ q1(1)] tree_okD(2) [OF t _ q2] kb c1 by auto
  obtain s2 where s2: "level_down iw me True (?v ?r) ?a s1 = Some (Some (None, ?v ?r, ?v q1), s2)" "io s1 ?v s2" "inv s2" "fs_ok (cost + (2 + n)) s2"
    using level_down_old [OF inv1 s1(3) g1 r1(1), of me True] unfolding c1 by blast
  have c2: "contents_of s2 = ?v" "cap_of s2 = cap_of s" using s2(2) c1 by (simp_all add: io_simps)
  obtain s3 where s3: "level_down iw me True (?v q1) ?b s2 = Some (Some (None, ?v q1, ?v q2), s3)" "io s2 ?v s3" "inv s3" "fs_ok (cost + (2 + n)) s3"
    using level_down_old [OF s2(3,4) g2, of me True] r1(2) unfolding c2 by blast
  have i3: "io s ?v s3" using s1(2) s2(2) s3(2) io_trans by blast
  have c3: "contents_of s3 = ?v" "cap_of s3 = cap_of s" "free_map s3 = free_map s" using i3 by (simp_all add: io_simps)
  have n3: "at ?v ?r (N3 ?a ?b ?c) = None" using none by (simp add: bmap_def block_node_def del: at_down)
  then have g3: "get16 (?v q2) ?c = NOSECTOR" unfolding at_down(2) q2 by (simp add: slot_def split: if_splits)
  have "0 < free_of s3" using free by (simp add: free_of_def c3)
  then obtain p s4 where s4: "free_map_allocate_with iw s3 = Some (Some p, s4)" "grants own p s3 s4" "inv s4" "fs_ok (2 + n) s4"
    using alloc_free [OF s3(3,4)] by blast
  note fr = fresh_ok [OF s3(3) s4(2) s3(4), unfolded c3]
  let ?u = "contents_of s4"
  have off: "?u t = ?v t" if "t \<notin> own" for t using s4(2) that c3 by (simp add: grants_def)
  have eu: "extends (cap_of s) own ?v ?r ?u {} {}" by (rule extends_own [OF t own off])
  note eD = extendsD(1-4) [OF eu, simplified]
  have lq: "?u q2 = ?v q2" using own footprintI [OF _ q2] kb by (intro off) auto
  have len: "length (?v q2) = BLOCK_SECTOR_SIZE" using contents_length [OF ok r1(2)] .
  have n3u: "at ?u ?r (N3 ?a ?b ?c) = None" using extendsD(6) [OF eu k] none by (simp add: bmap_def block_node_def del: at_down)
  have pf: "p \<notin> footprint ?u ?r" using us fr(5) eD(2) by blast
  let ?w = "planted q2 ?c p zeros ?u"
  note L = new_leaf [OF eD(1) _ eD(4) [OF _ q2] n3u kb pf fr(1,2,3,4)]
  have ext: "extends (cap_of s) own ?u ?r ?w {p} {k}" and at_p: "bmap ?w ?r k = Some p" "?w p = zeros"
    using L eD(3) kb lq len block_node_inj by (auto simp: bmap_def block_node_def)
  let ?ws = "[(p, zeros), (q2, set16 ?c p (?v q2))]"
  have gp: "get16 (set16 ?c p (?v q2)) ?c = p" by (rule get_set_slot [OF fr(3) len kb(3)])
  have st: "lookup_store me ?r (?a, ?b, ?c) (None, None, Some p) (?v ?r, ?v q1, set16 ?c p (?v q2)) s4
      = mfold (\<lambda>(sec, buf). bwrite me sec buf) ?ws s4"
    by (simp add: lookup_store_def when_new_def gp [simplified] g2(1) [simplified] mfold_single mfold_more del: mfold.simps)
  have "\<exists>s5. mfold (\<lambda>(sec, buf). bwrite me sec buf) ?ws s4 = Some s5 \<and> inv s5 \<and> fs_ok n s5 \<and> grew own ?r k p s s5"
  proof (rule finish_growth [OF t own s4(3) _ _ off])
    show "fs_ok (length ?ws + n) s4" using s4(4) by simp
    show "moved s s4" using moved_trans [OF moved_io [OF i3] moved_grants [OF s4(2)]] .
    show "used_of s4 = used_of s \<union> {p}" using s4(2) c3 by (simp add: grants_def)
    show "extends (cap_of s) own ?u ?r ?w {p} {k}" by (rule ext)
    show "?w = fold (\<lambda>(sec, buf) v. v(sec := buf)) ?ws ?u" by (simp add: planted_def lq)
    show "sec \<in> footprint ?w ?r \<and> length buf = BLOCK_SECTOR_SIZE" if "(sec, buf) \<in> set ?ws" for sec buf
      using that extendsD(2) [OF ext] eD(2) footprintI [OF _ q2] kb len by (auto simp: BLOCK_SECTOR_SIZE_def simp del: at_down)
  qed (use fr(5) at_p in auto)
  then obtain s5 where s5: "mfold (\<lambda>(sec, buf). bwrite me sec buf) ?ws s4 = Some s5" "inv s5" "fs_ok n s5" "grew own ?r k p s s5" by blast
  have "lookup_with iw me ind k True s = Some (True, p, s5)"
    using lookup_create_unfold [OF fs_okD(1) [OF ok] k s1(1) s2(1) s3(1) g3 s4(1) st [unfolded s5(1)]] gp by simp
  then show ?thesis using s5 by blast
qed

text \<open>Two allocations in a row, and what is known of the sectors and the state then.\<close>

lemma grants_trans:
  assumes g1: "grants own p s s1" and g2: "grants own q s1 s2"
  shows "q \<noteq> p" "used_of s2 = used_of s \<union> {p, q}" "q \<notin> used_of s" "\<And>t. t \<notin> own \<Longrightarrow> contents_of s2 t = contents_of s t"
  using assms by (auto simp: grants_def)

lemma lookup_create_mid:
  assumes inv: "inv s" and ok: "fs_ok (3 * cost + 4 + n) s" and t: "tree_ok (cap_of s) (contents_of s) (d_lvl1 ind)"
    and own: "footprint (contents_of s) (d_lvl1 ind) \<inter> own = {}" and us: "footprint (contents_of s) (d_lvl1 ind) \<subseteq> used_of s"
    and k: "k < MAX_BLOCKS" and free: "3 \<le> free_of s"
    and q1: "at (contents_of s) (d_lvl1 ind) (N1 (k div 2 ^ 10)) = Some q1"
    and none: "at (contents_of s) (d_lvl1 ind) (N2 (k div 2 ^ 10) (k div 2 ^ 5 mod 2 ^ 5)) = None"
  shows "\<exists>p s'. lookup_with iw me ind k True s = Some (True, p, s') \<and> inv s' \<and> fs_ok n s' \<and> grew own (d_lvl1 ind) k p s s'"
proof -
  let ?v = "contents_of s" and ?r = "d_lvl1 ind" and ?a = "k div 2 ^ 10" and ?b = "k div 2 ^ 5 mod 2 ^ 5" and ?c = "k mod 2 ^ 5"
  note kb = kbits [OF k]
  have okm: "fs_ok (cost + (cost + (3 + n))) s" by (rule fs_ok_mono [OF ok]) simp
  obtain s1 where s1: "bread me ?r s = Some (?v ?r, s1)" "io s ?v s1" "fs_ok (cost + (cost + (3 + n))) s1"
    using bread_ok [OF okm, of ?r me] tree_okD(4) [OF t] by blast
  have c1: "contents_of s1 = ?v" "cap_of s1 = cap_of s" by (rule io_fields [OF s1(2)])+
  have inv1: "inv s1" using inv_io [OF inv s1(2)] by simp
  have g1: "get16 (?v ?r) ?a = q1" "q1 \<noteq> NOSECTOR" using q1 by (auto simp: slot_def split: if_splits)
  have r1: "q1 < cap_of s1" "q1 < cap_of s" using tree_okD(2) [OF t _ q1] kb c1 by auto
  obtain s2 where s2: "level_down iw me True (?v ?r) ?a s1 = Some (Some (None, ?v ?r, ?v q1), s2)" "io s1 ?v s2" "inv s2" "fs_ok (cost + (cost + (3 + n))) s2"
    using level_down_old [OF inv1 s1(3) g1 r1(1), of me True] unfolding c1 by blast
  have i2: "io s ?v s2" using s1(2) s2(2) io_trans by blast
  have c2: "contents_of s2 = ?v" "cap_of s2 = cap_of s" "free_map s2 = free_map s" using i2 by (simp_all add: io_simps)
  have g2: "get16 (?v q1) ?b = NOSECTOR" using none unfolding at_down(1) q1 by (simp add: slot_def split: if_splits)
  have "0 < free_of s2" using free by (simp add: free_of_def c2)
  then obtain p2 s3 where s3: "level_down iw me True (?v q1) ?b s2 = Some (Some (Some p2, set16 ?b p2 (?v q1), ones), s3)"
      "grants own p2 s2 s3" "inv s3" "fs_ok (cost + (3 + n)) s3"
    using level_down_new [OF s2(3,4) _ g2] by blast
  have g3: "get16 ones ?c = NOSECTOR" using kb by simp
  have "0 < free_of s3" using grants_free [OF s3(2)] free by (simp add: free_of_def c2)
  then obtain p s4 where s4: "free_map_allocate_with iw s3 = Some (Some p, s4)" "grants own p s3 s4" "inv s4" "fs_ok (3 + n) s4"
    using alloc_free [OF s3(3,4)] by blast
  note fr2 = fresh_ok [OF s2(3) s3(2) s2(4), unfolded c2] and fr = fresh_ok(1-3) [OF s3(3) s4(2) s3(4)]
  note gt = grants_trans [OF s3(2) s4(2), unfolded c2]
  have pcap: "p < cap_of s" using s4(2) s3(2) c2 by (simp add: grants_def)
  let ?u = "contents_of s4"
  have eu: "extends (cap_of s) own ?v ?r ?u {} {}" by (rule extends_own [OF t own gt(4)])
  note eD = extendsD(1-4) [OF eu, simplified]
  have fpu: "footprint ?u ?r = footprint ?v ?r" using eD(2) by simp
  have q1f: "q1 \<in> footprint ?v ?r" using footprintI [OF _ q1] kb by simp
  have lq: "?u q1 = ?v q1" using own q1f by (intro gt(4)) auto
  have len: "length (?v q1) = BLOCK_SECTOR_SIZE" using contents_length [OF ok r1(2)] .
  have atu: "at ?u ?r m = at ?v ?r m" if "vnode m" for m using that own gt(4) footprintI by (intro at_cong) blast+
  let ?w1 = "planted q1 ?b p2 ones ?u" and ?w = "planted p2 ?c p zeros (planted q1 ?b p2 ones ?u)"
  have M: "extends (cap_of s) own ?u ?r ?w1 {p2} {}" "at ?w1 ?r (N2 ?a ?b) = Some p2" "?w1 p2 = ones" "at ?w1 ?r (N3 ?a ?b ?c) = None"
    using new_index [OF eD(1) eD(3), of "N1 ?a" ?b q1 p2] kb atu q1 none fr2 us lq len fpu by (auto simp del: at_down at.simps)
  note mD = extendsD(1-3) [OF M(1)]
  have "p \<notin> footprint ?w1 ?r" using mD(2) fpu us gt(1,3) by auto
  then have L: "extends (cap_of s) own ?w1 ?r ?w {p} {k}" "bmap ?w ?r k = Some p" "?w p = zeros"
    using new_leaf [OF mD(1,3) M(2,4) kb _ fr pcap] M(3) block_node_inj by (auto simp: bmap_def block_node_def simp del: at_down at.simps)
  have ext: "extends (cap_of s) own ?u ?r ?w {p2, p} {k}" using extends_trans [OF M(1) L(1)] by (simp add: insert_commute)
  let ?ws = "[(p, zeros), (p2, set16 ?c p ones), (q1, set16 ?b p2 (?v q1))]"
  have gp: "get16 (set16 ?c p ones) ?c = p" "get16 (set16 ?b p2 (?v q1)) ?b = p2"
    using get_set_slot [OF fr(3) _ kb(3)] get_set_slot [OF fr2(3) len kb(2)] by simp_all
  have st: "lookup_store me ?r (?a, ?b, ?c) (None, Some p2, Some p) (?v ?r, set16 ?b p2 (?v q1), set16 ?c p ones) s4
      = mfold (\<lambda>(sec, buf). bwrite me sec buf) ?ws s4"
    by (simp add: lookup_store_def when_new_def gp [simplified] g1(1) [simplified] mfold_single mfold_more del: mfold.simps)
  have "\<exists>s5. mfold (\<lambda>(sec, buf). bwrite me sec buf) ?ws s4 = Some s5 \<and> inv s5 \<and> fs_ok n s5 \<and> grew own ?r k p s s5"
  proof (rule finish_growth [OF t own s4(3) _ _ gt(4)])
    show "fs_ok (length ?ws + n) s4" using s4(4) by (simp add: numeral_3_eq_3)
    show "moved s s4" by (rule moved_trans [OF moved_trans [OF moved_io [OF i2] moved_grants [OF s3(2)]] moved_grants [OF s4(2)]])
    show "used_of s4 = used_of s \<union> {p2, p}" using gt(2) .
    show "extends (cap_of s) own ?u ?r ?w {p2, p} {k}" by (rule ext)
    show "?w = fold (\<lambda>(sec, buf) v. v(sec := buf)) ?ws ?u"
      using gt(1) q1f us fr2(5) gt(3) lq by (auto simp: planted_def fun_eq_iff)
    show "sec \<in> footprint ?w ?r \<and> length buf = BLOCK_SECTOR_SIZE" if "(sec, buf) \<in> set ?ws" for sec buf
      using that extendsD(2) [OF ext] fpu q1f kb len by (auto simp: BLOCK_SECTOR_SIZE_def)
    show "card {p2, p} \<le> 3" by (simp add: card_insert_if)
  qed (use fr2(5) gt(3) L(2,3) in auto)
  then obtain s5 where s5: "mfold (\<lambda>(sec, buf). bwrite me sec buf) ?ws s4 = Some s5" "inv s5" "fs_ok n s5" "grew own ?r k p s s5" by blast
  have "lookup_with iw me ind k True s = Some (True, p, s5)"
    using lookup_create_unfold [OF fs_okD(1) [OF ok] k s1(1) s2(1) s3(1) g3 s4(1) st [unfolded s5(1)]] gp by simp
  then show ?thesis using s5 by blast
qed

lemma lookup_create_top:
  assumes inv: "inv s" and ok: "fs_ok (3 * cost + 4 + n) s" and t: "tree_ok (cap_of s) (contents_of s) (d_lvl1 ind)"
    and own: "footprint (contents_of s) (d_lvl1 ind) \<inter> own = {}" and us: "footprint (contents_of s) (d_lvl1 ind) \<subseteq> used_of s"
    and k: "k < MAX_BLOCKS" and free: "3 \<le> free_of s"
    and none: "at (contents_of s) (d_lvl1 ind) (N1 (k div 2 ^ 10)) = None"
  shows "\<exists>p s'. lookup_with iw me ind k True s = Some (True, p, s') \<and> inv s' \<and> fs_ok n s' \<and> grew own (d_lvl1 ind) k p s s'"
proof -
  let ?v = "contents_of s" and ?r = "d_lvl1 ind" and ?a = "k div 2 ^ 10" and ?b = "k div 2 ^ 5 mod 2 ^ 5" and ?c = "k mod 2 ^ 5"
  note kb = kbits [OF k]
  have okm: "fs_ok (cost + (cost + (cost + (4 + n)))) s" by (rule fs_ok_mono [OF ok]) simp
  obtain s1 where s1: "bread me ?r s = Some (?v ?r, s1)" "io s ?v s1" "fs_ok (cost + (cost + (cost + (4 + n)))) s1"
    using bread_ok [OF okm, of ?r me] tree_okD(4) [OF t] by blast
  have c1: "contents_of s1 = ?v" "cap_of s1 = cap_of s" "free_map s1 = free_map s" by (rule io_fields [OF s1(2)])+
  have inv1: "inv s1" using inv_io [OF inv s1(2)] by simp
  have g1: "get16 (?v ?r) ?a = NOSECTOR" using none by (simp add: slot_def split: if_splits)
  have "0 < free_of s1" using free by (simp add: free_of_def c1)
  then obtain p1 s2 where s2: "level_down iw me True (?v ?r) ?a s1 = Some (Some (Some p1, set16 ?a p1 (?v ?r), ones), s2)"
      "grants own p1 s1 s2" "inv s2" "fs_ok (cost + (cost + (4 + n))) s2"
    using level_down_new [OF inv1 s1(3) _ g1] by blast
  have g2: "get16 ones ?b = NOSECTOR" using kb by simp
  have f2: "2 \<le> free_of s2" using grants_free [OF s2(2)] free by (simp add: free_of_def c1)
  then have "0 < free_of s2" by simp
  then obtain p2 s3 where s3: "level_down iw me True ones ?b s2 = Some (Some (Some p2, set16 ?b p2 ones, ones), s3)"
      "grants own p2 s2 s3" "inv s3" "fs_ok (cost + (4 + n)) s3"
    using level_down_new [OF s2(3,4) _ g2] by blast
  have g3: "get16 ones ?c = NOSECTOR" using kb by simp
  have "0 < free_of s3" using grants_free [OF s3(2)] f2 by linarith
  then obtain p s4 where s4: "free_map_allocate_with iw s3 = Some (Some p, s4)" "grants own p s3 s4" "inv s4" "fs_ok (4 + n) s4"
    using alloc_free [OF s3(3,4)] by blast
  note fr1 = fresh_ok [OF inv1 s2(2) s1(3), unfolded c1] and fr2 = fresh_ok(1-3) [OF s2(3) s3(2) s2(4)] and fr = fresh_ok(1-3) [OF s3(3) s4(2) s3(4)]
  note gt = grants_trans [OF s2(2) s3(2), unfolded c1] and gt' = grants_trans [OF s3(2) s4(2)]
  have us2: "used_of s2 = insert p1 (used_of s)" using s2(2) c1 by (simp add: grants_def)
  then have new: "p \<noteq> p1" "p \<noteq> p2" "p2 \<noteq> p1" "p \<notin> used_of s" "p2 \<notin> used_of s" and us4: "used_of s4 = used_of s \<union> {p1, p2, p}"
    using gt'(1-3) gt(1,3) by auto
  have off: "contents_of s4 t = ?v t" if "t \<notin> own" for t using gt'(4) [OF that] s2(2) that c1 by (simp add: grants_def)
  have pcap: "p < cap_of s" "p2 < cap_of s" using s4(2) s3(2) s2(2) c1 by (simp_all add: grants_def)
  let ?u = "contents_of s4"
  have eu: "extends (cap_of s) own ?v ?r ?u {} {}" by (rule extends_own [OF t own off])
  note eD = extendsD(1-4) [OF eu, simplified]
  have fpu: "footprint ?u ?r = footprint ?v ?r" using eD(2) by simp
  have rf: "?r \<in> footprint ?v ?r" using footprintI [of NRoot ?v ?r ?r] by simp
  have rd: "?r \<noteq> p1" "?r \<noteq> p2" "?r \<noteq> p" using rf us fr1(5) new by blast+
  have lr: "?u ?r = ?v ?r" using own rf by (intro off) auto
  have len: "length (?v ?r) = BLOCK_SECTOR_SIZE" using contents_length [OF ok] tree_okD(4) [OF t] by blast
  have atu: "at ?u ?r m = at ?v ?r m" if "vnode m" for m using that own off footprintI by (intro at_cong) blast+
  let ?w1 = "planted ?r ?a p1 ones ?u"
  let ?w2 = "planted p1 ?b p2 ones ?w1"
  let ?w = "planted p2 ?c p zeros ?w2"
  have T: "extends (cap_of s) own ?u ?r ?w1 {p1} {}" "at ?w1 ?r (N1 ?a) = Some p1" "?w1 p1 = ones" "at ?w1 ?r (N2 ?a ?b) = None"
    using new_index [OF eD(1) eD(3), of NRoot ?a ?r p1] kb atu none fr1 us lr len fpu by (auto simp del: at_down at.simps(2-4))
  note tD = extendsD(1-3) [OF T(1)]
  have "p2 \<notin> footprint ?w1 ?r" using tD(2) fpu us new by auto
  then have M: "extends (cap_of s) own ?w1 ?r ?w2 {p2} {}" "at ?w2 ?r (N2 ?a ?b) = Some p2" "?w2 p2 = ones" "at ?w2 ?r (N3 ?a ?b ?c) = None"
    using new_index [OF tD(1,3), of "N1 ?a" ?b p1 p2] kb T(2-4) fr2 pcap by (auto simp del: at_down at.simps)
  note mD = extendsD(1-3) [OF M(1)]
  have "p \<notin> footprint ?w2 ?r" using mD(2) tD(2) fpu us new by auto
  then have L: "extends (cap_of s) own ?w2 ?r ?w {p} {k}" "bmap ?w ?r k = Some p" "?w p = zeros"
    using new_leaf [OF mD(1,3) M(2,4) kb _ fr pcap(1)] M(3) block_node_inj by (auto simp: bmap_def block_node_def simp del: at_down at.simps)
  have ext: "extends (cap_of s) own ?u ?r ?w {p1, p2, p} {k}"
    using extends_trans [OF extends_trans [OF T(1) M(1)] L(1)] by (simp add: insert_commute)
  let ?ws = "[(p, zeros), (p2, set16 ?c p ones), (p1, set16 ?b p2 ones), (?r, set16 ?a p1 (?v ?r))]"
  have gp: "get16 (set16 ?c p ones) ?c = p" "get16 (set16 ?b p2 ones) ?b = p2" "get16 (set16 ?a p1 (?v ?r)) ?a = p1"
    using get_set_slot [OF fr(3) _ kb(3)] get_set_slot [OF fr2(3) _ kb(2)] get_set_slot [OF fr1(3) len kb(1)] by simp_all
  have st: "lookup_store me ?r (?a, ?b, ?c) (Some p1, Some p2, Some p) (set16 ?a p1 (?v ?r), set16 ?b p2 ones, set16 ?c p ones) s4
      = mfold (\<lambda>(sec, buf). bwrite me sec buf) ?ws s4"
    by (simp add: lookup_store_def when_new_def gp [simplified] mfold_single mfold_more del: mfold.simps)
  have "\<exists>s5. mfold (\<lambda>(sec, buf). bwrite me sec buf) ?ws s4 = Some s5 \<and> inv s5 \<and> fs_ok n s5 \<and> grew own ?r k p s s5"
  proof (rule finish_growth [OF t own s4(3) _ _ off])
    show "fs_ok (length ?ws + n) s4" by (rule fs_ok_mono [OF s4(4)]) simp
    show "moved s s4"
      by (rule moved_trans [OF moved_trans [OF moved_trans [OF moved_io [OF s1(2)] moved_grants [OF s2(2)]] moved_grants [OF s3(2)]] moved_grants [OF s4(2)]])
    show "used_of s4 = used_of s \<union> {p1, p2, p}" by (rule us4)
    show "extends (cap_of s) own ?u ?r ?w {p1, p2, p} {k}" by (rule ext)
    show "?w = fold (\<lambda>(sec, buf) v. v(sec := buf)) ?ws ?u"
      using new rd lr by (simp add: planted_def fun_eq_iff)
    show "sec \<in> footprint ?w ?r \<and> length buf = BLOCK_SECTOR_SIZE" if "(sec, buf) \<in> set ?ws" for sec buf
      using that extendsD(2) [OF ext] fpu rf kb len by (auto simp: BLOCK_SECTOR_SIZE_def)
    show "card {p1, p2, p} \<le> 3" by (simp add: card_insert_if)
  qed (use fr1(5) new L(2,3) in auto)
  then obtain s5 where s5: "mfold (\<lambda>(sec, buf). bwrite me sec buf) ?ws s4 = Some s5" "inv s5" "fs_ok n s5" "grew own ?r k p s s5" by blast
  have "lookup_with iw me ind k True s = Some (True, p, s5)"
    using lookup_create_unfold [OF fs_okD(1) [OF ok] k s1(1) s2(1) s3(1) g3 s4(1) st [unfolded s5(1)]] gp by simp
  then show ?thesis using s5 by blast
qed

lemma lookup_create:
  assumes "inv s" "fs_ok (3 * cost + 4 + n) s" "tree_ok (cap_of s) (contents_of s) (d_lvl1 ind)"
    "footprint (contents_of s) (d_lvl1 ind) \<inter> own = {}" "footprint (contents_of s) (d_lvl1 ind) \<subseteq> used_of s"
    "k < MAX_BLOCKS" "3 \<le> free_of s" and none: "bmap (contents_of s) (d_lvl1 ind) k = None"
  shows "\<exists>p s'. lookup_with iw me ind k True s = Some (True, p, s') \<and> inv s' \<and> fs_ok n s' \<and> grew own (d_lvl1 ind) k p s s'"
proof (cases "at (contents_of s) (d_lvl1 ind) (N1 (k div 2 ^ 10))")
  case None
  then show ?thesis by (rule lookup_create_top [OF assms(1-7)])
next
  case (Some q1)
  show ?thesis
  proof (cases "at (contents_of s) (d_lvl1 ind) (N2 (k div 2 ^ 10) (k div 2 ^ 5 mod 2 ^ 5))")
    case None
    show ?thesis by (rule lookup_create_mid [OF assms(1-7) Some None])
  next
    case q2: (Some q2)
    show ?thesis by (rule lookup_create_leaf [OF assms(1-7) none q2])
  qed
qed

lemma grow_loop_ok:
  assumes "inv s" "fs_ok ((j - m) * (3 * cost + 4) + n) s" "tree_ok (cap_of s) (contents_of s) (d_lvl1 meta)"
    "footprint (contents_of s) (d_lvl1 meta) \<inter> own = {}" "footprint (contents_of s) (d_lvl1 meta) \<subseteq> used_of s"
    "m \<le> j" "j \<le> MAX_BLOCKS" "3 * (j - m) \<le> free_of s"
    "\<And>k. k < m \<Longrightarrow> bmap (contents_of s) (d_lvl1 meta) k \<noteq> None" "\<And>k. m \<le> k \<Longrightarrow> k < j \<Longrightarrow> bmap (contents_of s) (d_lvl1 meta) k = None"
  shows "\<exists>s' X. grow_loop iw me meta j s = Some s' \<and> inv s' \<and> fs_ok n s' \<and> blocks_new own (d_lvl1 meta) {m..<j} X s s'"
  using assms
proof (induction j arbitrary: s)
  case 0
  then show ?case using blocks_new_none [OF 0(3,4), of s] by (auto simp: moved_def)
next
  case (Suc i)
  let ?r = "d_lvl1 meta"
  have i: "i < MAX_BLOCKS" "i mod 2 ^ 16 = i" using Suc.prems(7) by (simp_all add: MAX_BLOCKS_def)
  show ?case
  proof (cases "m = Suc i")
    case True
    obtain p where p: "bmap (contents_of s) ?r i = Some p" using Suc.prems(9) [of i] True by auto
    have "fs_ok n s" using Suc.prems(2) True by simp
    from lookup_present [OF this in_range_tree [OF Suc.prems(3)] i(1) p, of iw me True] obtain s' where
      s': "lookup_with iw me meta i True s = Some (False, p, s')" "io s (contents_of s) s'" "fs_ok n s'" by blast
    have "inv s'" using inv_io [OF Suc.prems(1) s'(2)] by simp
    moreover have "blocks_new own ?r {m..<Suc i} {} s s'"
      using blocks_new_none [OF Suc.prems(3,4) moved_io [OF s'(2)]] True io_fields(1,4) [OF s'(2)] by simp
    ultimately show ?thesis using s' i by auto
  next
    case False
    then have mi: "m \<le> i" using Suc.prems(6) by simp
    have ok: "fs_ok (3 * cost + 4 + ((i - m) * (3 * cost + 4) + n)) s"
      using Suc.prems(2) mi by (simp add: Suc_diff_le add.assoc)
    have none: "bmap (contents_of s) ?r i = None" using Suc.prems(10) [OF mi] by simp
    have "3 \<le> free_of s" using Suc.prems(8) mi by simp
    from lookup_create [OF Suc.prems(1) ok Suc.prems(3-5) i(1) this none, of me] obtain p s1 where
      s1: "lookup_with iw me meta i True s = Some (True, p, s1)" "inv s1" "fs_ok ((i - m) * (3 * cost + 4) + n) s1" "grew own ?r i p s s1" by blast
    obtain X where X: "blocks_new own ?r {i} X s s1" using grew_blocks_new [OF s1(4)] by blast
    note B = blocks_newD [OF X] and e = extendsD [OF blocks_newD(1) [OF X]]
    have free: "3 * (i - m) \<le> free_of s1" using B(9) Suc.prems(8) mi by (simp add: Suc_diff_le)
    have "\<exists>s' Y. grow_loop iw me meta i s1 = Some s' \<and> inv s' \<and> fs_ok n s' \<and> blocks_new own ?r {m..<i} Y s1 s'"
    proof (rule Suc.IH [OF s1(2,3)])
      show "tree_ok (cap_of s1) (contents_of s1) ?r" using e(1) B(7) by simp
      show "footprint (contents_of s1) ?r \<inter> own = {}" "footprint (contents_of s1) ?r \<subseteq> used_of s1" using e(2,3) B(3) Suc.prems(5) by auto
      show "bmap (contents_of s1) ?r k \<noteq> None" if "k < m" for k using Suc.prems(9) [OF that] e(8) [of k] that mi i by auto
      show "bmap (contents_of s1) ?r k = None" if "m \<le> k" "k < i" for k using Suc.prems(10) [OF that(1)] e(6) [of k] that i by simp
    qed (use mi i free in auto)
    then obtain s' Y where s': "grow_loop iw me meta i s1 = Some s'" "inv s'" "fs_ok n s'" "blocks_new own ?r {m..<i} Y s1 s'" by blast
    moreover have "grow_loop iw me meta (Suc i) s = Some s'" using s1(1) s'(1) i by simp
    moreover have "{i} \<union> {m..<i} = {m..<Suc i}" using mi by auto
    ultimately show ?thesis using blocks_new_trans [OF X s'(4)] i by auto
  qed
qed

lemma inode_write_grow:
  assumes inv: "inv s" and ok: "fs_ok ((Suc k - m) * (3 * cost + 4) + Suc (nblocks o' z + n)) s" and ip: "free_inode s ip sec" "ip \<noteq> fip"
    and f: "file_ok (cap_of s) (contents_of s) sec len m" and own: "file_sectors (contents_of s) sec \<inter> own = {}"
    and us: "file_sectors (contents_of s) sec \<subseteq> used_of s" and kd: "k = (o' + z + BLOCK_SECTOR_SIZE - 1) div BLOCK_SECTOR_SIZE"
    and k: "m \<le> k" "Suc k < MAX_BLOCKS" and free: "3 * (Suc k - m) \<le> free_of s" and buf: "z \<le> length buf"
  shows "\<exists>s' X. inode_write_at_with iw me ip buf (int z) (int o') s = Some (int z, s') \<and> inv s' \<and> fs_ok n s'
    \<and> wrote_more own sec len (Suc k) o' (take z buf) X s s'"
proof -
  let ?v = "contents_of s" and ?r = "d_lvl1 (contents_of s sec)" and ?N = "(Suc k - m) * (3 * cost + 4) + Suc (nblocks o' z + n)"
  obtain i where i: "inodes s ip = Some i" "i_rwlock i = rw_lock_init" "i_sector i = sec" "i_deny_write_cnt i = 0"
    using ip by (auto simp: free_inode_def)
  let ?i = "(inodes s)(ip \<mapsto> i\<lparr>i_rwlock := reading\<rparr>)" and ?i' = "(inodes s)(ip \<mapsto> i\<lparr>i_rwlock := writing me\<rparr>)"
  let ?s1 = "s\<lparr>inodes := ?i\<rparr>"
  have ok1: "fs_ok ?N ?s1" using ok by simp
  obtain s2 where s2: "bread me sec ?s1 = Some (?v sec, s2)" "io ?s1 ?v s2" "fs_ok ?N s2"
    using bread_ok [OF ok1, of sec me] file_okD(2) [OF f] by auto
  have c2: "contents_of s2 = ?v" "cap_of s2 = cap_of s" using s2(2) by (simp_all add: io_simps)
  have rng: "in_range s2 ?r" using file_okD(1) [OF f] in_range_tree [of s2] c2 by simp
  have lt: "o' + z < MAX_LENGTH" using k(2) kd by (simp add: MAX_LENGTH_def MAX_BLOCKS_def BLOCK_SECTOR_SIZE_def)
  have fit: "o' + z \<le> Suc k * BLOCK_SECTOR_SIZE" using kd by (simp add: BLOCK_SECTOR_SIZE_def)
  have kM: "k < MAX_BLOCKS" using k(2) by simp
  have absents: "bmap ?v ?r j = None" if "m \<le> j" "j < Suc k" for j using file_okD(7) [OF f, of j] that kM by auto
  then have absent: "bmap ?v ?r k = None" using k(1) by simp
  obtain s3 where s3: "lookup_with iw me (?v sec) k False s2 = Some (False, NOSECTOR, s3)" "io s2 ?v s3" "fs_ok ?N s3"
    using lookup_find [OF s2(3) rng kM, of iw me] absent c2 by auto
  have i3: "io ?s1 ?v s3" using s2(2) s3(2) io_trans by blast
  then have in3: "inodes s3 = ?i" by (simp add: io_simps)
  have last: "end_sector (int (o' + z)) = int k" "nat (int k mod 65536) = k" "s32 (int o' + int z) = int (o' + z)" "nat (int k + 1) = Suc k"
    using end_sector_nat [OF lt, folded kd] s32_length [OF lt] kM by (simp_all add: MAX_BLOCKS_def)
  let ?s4 = "s3\<lparr>inodes := ?i'\<rparr>"
  have up: "inode_upgrade me ip s3 = Some ?s4" using lock_steps(2) [OF i(1,2) in3] .
  have inv3: "inv s3" using inv_io [OF inv_inodes [OF inv] i3] ip(2) by simp
  have inv4: "inv ?s4" using inv_inodes [OF inv3, of ?i'] in3 ip(2) by simp
  have c4: "contents_of ?s4 = ?v" "cap_of ?s4 = cap_of s" "free_map ?s4 = free_map s" "fs_ok ?N ?s4" using i3 s3(3) by (simp_all add: io_simps)
  have fp: "footprint ?v ?r \<inter> own = {}" "footprint ?v ?r \<subseteq> used_of s" "sec \<notin> own" "sec \<in> used_of s" using own us by (auto simp: file_sectors_def)
  have "\<exists>s5 X. grow_loop iw me (?v sec) (Suc k) ?s4 = Some s5 \<and> inv s5 \<and> fs_ok (Suc (nblocks o' z + n)) s5
      \<and> blocks_new own ?r {m..<Suc k} X ?s4 s5"
    using file_okD(1,6,7) [OF f] fp k free c4 inv4 absents
    by (intro grow_loop_ok) (auto simp: free_of_def simp del: at_down)
  then obtain s5 X where s5: "grow_loop iw me (?v sec) (Suc k) ?s4 = Some s5" "inv s5" "fs_ok (Suc (nblocks o' z + n)) s5"
      "blocks_new own ?r {m..<Suc k} X ?s4 s5" by blast
  have B: "extends (cap_of s) own ?v ?r (contents_of s5) X {m..<Suc k}" "X \<inter> used_of s = {}" "used_of s5 = used_of s \<union> X" "moved ?s4 s5"
    "\<And>j. m \<le> j \<Longrightarrow> j < Suc k \<Longrightarrow> \<exists>p. bmap (contents_of s5) ?r j = Some p \<and> contents_of s5 p = zeros"
    using s5(4) unfolding blocks_new_def c4 by auto
  have sX: "sec \<notin> X" using B(2) fp(4) by blast
  have m: "m \<le> Suc k" using k(1) by simp
  have mb: "contents_of s5 sec = ?v sec" "file_ok (cap_of s) (contents_of s5) sec len (Suc k)"
    "file_bytes (contents_of s5) sec = file_bytes ?v sec" "file_sectors (contents_of s5) sec = file_sectors ?v sec \<union> X"
    by (rule file_more_blocks [OF f B(1) fp(3) sX _ m k(2)], rule B(5), assumption+)+
  have cap5: "cap_of s5 = cap_of s" using moved_fields(1) [OF B(4)] c4 by simp
  have f5: "file_ok (cap_of s5) (contents_of s5) sec len (Suc k)" using mb(2) m cap5 by simp
  from write_tail [OF s5(3) f5 fit buf, of iw me] obtain s6 s7 w where
    s7: "write_loop iw me (put32 4 (off_bits (int (max len (o' + z)))) (?v sec)) buf (int z) (int o') 0 s5 = Some (int z, s6)"
      "bwrite me sec (put32 4 (off_bits (int (max len (o' + z)))) (?v sec)) s6 = Some s7" "io s5 w s7" "fs_ok n s7"
      "wrote (cap_of s) (contents_of s5) sec len (Suc k) o' (take z buf) w" unfolding mb(1) cap5 by blast
  have in7: "inodes s7 = ?i'" using io_fields(3) [OF s7(3)] moved_fields(2) [OF B(4)] by simp
  have mx: "max (d_length (?v sec)) (int (o' + z)) = int (max len (o' + z))" using file_okD(4) [OF f] by simp
  have run: "inode_write_at_with iw me ip buf (int z) (int o') s = Some (int z, s7\<lparr>inodes := inodes s\<rparr>)"
    using i s2(1) s3(1) up s5(1) s7(1,2) fs_okD(1) [OF ok] lock_steps(1) [OF i(1,2), of me] lock_steps(4) [OF i(1,2) in7]
    by (simp add: inode_write_at_with_def Let_def last mx del: of_nat_add of_nat_max grow_loop.simps)
  have fs5: "file_sectors (contents_of s5) sec = file_sectors ?v sec \<union> X" using mb(4) m by simp
  have Xown: "X \<inter> own = {}" using extendsD(2,3) [OF B(1)] by blast
  have w7: "contents_of s7 = w" "free_map s7 = free_map s5" using s7(3) by (simp_all add: io_simps)
  have "inv s7"
  proof (rule inv_io [OF s5(2) s7(3)])
    fix t assume "t \<in> own"
    then have "t \<notin> file_sectors (contents_of s5) sec" using fs5 own Xown by blast
    then show "w t = contents_of s5 t" using s7(5) by (simp add: wrote_def)
  qed
  then have "inv (s7\<lparr>inodes := inodes s\<rparr>)" using inv_inodes [of s7 "inodes s"] in7 ip(2) by simp
  moreover have "wrote_more own sec len (Suc k) o' (take z buf) X s (s7\<lparr>inodes := inodes s\<rparr>)"
  proof -
    have mv: "moved s (s7\<lparr>inodes := inodes s\<rparr>)"
    proof -
      have "moved s (s3\<lparr>inodes := inodes s\<rparr>)" using moved_inodes moved_io [OF i3] by blast
      moreover have "moved (s3\<lparr>inodes := inodes s\<rparr>) (s7\<lparr>inodes := inodes s\<rparr>)"
        using moved_trans [OF B(4) moved_io [OF s7(3)]] unfolding moved_def by (cases s3, cases s7) simp
      ultimately show ?thesis by (rule moved_trans)
    qed
    have "contents_of s7 t = ?v t" if "t \<notin> file_sectors ?v sec \<union> X \<union> own" for t
    proof -
      have "t \<notin> file_sectors (contents_of s5) sec" using that fs5 by blast
      then have "w t = contents_of s5 t" using s7(5) by (simp add: wrote_def)
      moreover have "contents_of s5 t = ?v t" using that by (intro extendsD(7) [OF B(1)]) (simp_all add: file_sectors_def)
      ultimately show ?thesis using w7(1) by simp
    qed
    then show ?thesis using s7(5) w7 B(2,3) Xown fs5 mb(3) m mv buf unfolding wrote_more_def wrote_def by simp
  qed
  ultimately show ?thesis using run s7(4) by auto
qed

text \<open>The loop of \<open>inode_create\<close>, which adds the blocks in ascending order.\<close>

lemma create_loop_ok:
  assumes "inv s" "fs_ok (j * (3 * cost + 4) + n) s" "tree_ok (cap_of s) (contents_of s) (d_lvl1 ind)"
    "footprint (contents_of s) (d_lvl1 ind) \<inter> own = {}" "footprint (contents_of s) (d_lvl1 ind) \<subseteq> used_of s"
    "j \<le> MAX_BLOCKS" "3 * j \<le> free_of s" "\<And>k. k < j \<Longrightarrow> bmap (contents_of s) (d_lvl1 ind) k = None"
  shows "\<exists>s' X. mfold (\<lambda>i s. do { (_, _, s) \<leftarrow> lookup_with iw me ind (i mod 2 ^ 16) True s; Some s }) [0..<j] s = Some s'
    \<and> inv s' \<and> fs_ok n s' \<and> blocks_new own (d_lvl1 ind) {..<j} X s s'"
  using assms
proof (induction j arbitrary: n)
  case 0
  then show ?case using blocks_new_none [OF 0(3,4), of s] by (auto simp: moved_def)
next
  case (Suc j)
  let ?r = "d_lvl1 ind" and ?v = "contents_of s"
  let ?f = "\<lambda>i s. do { (_, _, s) \<leftarrow> lookup_with iw me ind (i mod 2 ^ 16) True s; Some s }"
  have "fs_ok (j * (3 * cost + 4) + (3 * cost + 4 + n)) s" by (rule fs_ok_mono [OF Suc.prems(2)]) simp
  from Suc.IH [OF Suc.prems(1) this Suc.prems(3-5)] Suc.prems(6-8) obtain s1 X where
    s1: "mfold ?f [0..<j] s = Some s1" "inv s1" "fs_ok (3 * cost + 4 + n) s1" "blocks_new own ?r {..<j} X s s1" by auto
  note B = blocks_newD [OF s1(4)] and e = extendsD [OF blocks_newD(1) [OF s1(4)]]
  have jM: "j < MAX_BLOCKS" "j mod 2 ^ 16 = j" using Suc.prems(6) by (simp_all add: MAX_BLOCKS_def)
  have none: "bmap (contents_of s1) ?r j = None" using e(6) [OF jM(1)] Suc.prems(8) by simp
  have tr: "tree_ok (cap_of s1) (contents_of s1) ?r" using e(1) B(7) by simp
  have fp: "footprint (contents_of s1) ?r \<subseteq> used_of s1" using e(2) B(3) Suc.prems(5) by auto
  have "3 \<le> free_of s1" using B(9) Suc.prems(7) by simp
  from lookup_create [OF s1(2,3) tr e(3) fp jM(1) this none, of me] obtain p s2 where
    s2: "lookup_with iw me ind j True s1 = Some (True, p, s2)" "inv s2" "fs_ok n s2" "grew own ?r j p s1 s2" by blast
  obtain Y where Y: "blocks_new own ?r {j} Y s1 s2" using grew_blocks_new [OF s2(4)] by blast
  have "blocks_new own ?r ({..<j} \<union> {j}) (X \<union> Y) s s2" using jM by (intro blocks_new_trans [OF s1(4) Y]) auto
  moreover have "{..<j} \<union> {j} = {..<Suc j}" by auto
  moreover have "mfold ?f [0..<Suc j] s = Some s2" using s1(1) s2(1) jM(2) by simp
  ultimately show ?case using s2(2,3) by auto
qed

lemma inode_create_ok:
  assumes iw: "iw = inode_write_at d me" and inv: "inv s" and ok: "fs_ok (cost + (2 + (Suc K * (3 * cost + 4) + n))) s"
    and sec: "sec < cap_of s" "sec \<in> used_of s" "sec \<notin> own" and K: "K = (len + BLOCK_SECTOR_SIZE - 1) div BLOCK_SECTOR_SIZE" "Suc K < MAX_BLOCKS"
    and free: "1 + 3 * Suc K \<le> free_of s"
  shows "\<exists>s' X. inode_create d me sec (int len) s = Some (True, s') \<and> inv s' \<and> fs_ok n s' \<and> created own sec len (Suc K) X s s'"
proof -
  have "0 < free_of s" using free by simp
  then obtain p s1 where s1: "free_map_allocate_with iw s = Some (Some p, s1)" "grants own p s s1" "inv s1"
      "fs_ok (Suc (Suc (Suc K * (3 * cost + 4) + n))) s1" using alloc_free [OF inv ok] by auto
  note fr = fresh_ok [OF inv s1(2) ok]
  have g: "cap_of s1 = cap_of s" "used_of s1 = insert p (used_of s)" "\<And>t. t \<notin> own \<Longrightarrow> contents_of s1 t = contents_of s t"
    using s1(2) by (simp_all add: grants_def)
  have lim: "p < 2 ^ 32" "len < 2 ^ 31" "len < MAX_LENGTH" "len \<le> Suc K * BLOCK_SECTOR_SIZE"
    using fr(3) K by (simp_all add: NOSECTOR_def MAX_BLOCKS_def MAX_LENGTH_def BLOCK_SECTOR_SIZE_def)
  let ?nd = "new_inode_disk p (int len)"
  note F = new_inode_fields [OF lim(1,2)]
  obtain s2 where s2: "bwrite me sec ?nd s1 = Some s2" "io s1 ((contents_of s1)(sec := ?nd)) s2" "fs_ok (Suc (Suc K * (3 * cost + 4) + n)) s2"
    using bwrite_ok [OF s1(4), of sec ?nd me] sec(1) g(1) F(3) by auto
  have c2: "contents_of s2 = (contents_of s1)(sec := ?nd)" "cap_of s2 = cap_of s" using s2(2) g(1) by (simp_all add: io_simps)
  obtain s3 where s3: "bwrite me p ones s2 = Some s3" "io s2 ((contents_of s2)(p := ones)) s3" "fs_ok (Suc K * (3 * cost + 4) + n) s3"
    using bwrite_ok [OF s2(3), of p ones me] fr(4) c2(2) by auto
  let ?v = "(contents_of s1)(sec := ?nd, p := ones)"
  have i3: "io s1 ?v s3" using io_trans [OF s2(2) s3(2)] c2(1) by simp
  have c3: "contents_of s3 = ?v" "cap_of s3 = cap_of s" "free_map s3 = free_map s1" "mallocs s1 = []" "mallocs s2 = []"
    using i3 g(1) fs_okD(1) [OF s1(4)] fs_okD(1) [OF s2(3)] by (simp_all add: io_simps)
  have inv3: "inv s3" by (rule inv_io [OF s1(3) i3]) (use sec fr in auto)
  have p0: "0 < p" using fr(2) by simp
  note E = empty_tree [of ?v p "cap_of s", OF _ p0 fr(4), simplified]
  have ind: "d_lvl1 ?nd = p" by (rule F(1))
  have free3: "3 * Suc K \<le> free_of s3" using grants_free [OF s1(2)] free g(1) by (simp add: free_of_def c3)
  have "\<exists>s4 X. mfold (\<lambda>i s. do { (_, _, s) \<leftarrow> lookup_with iw me ?nd (i mod 2 ^ 16) True s; Some s }) [0..<Suc K] s3 = Some s4
      \<and> inv s4 \<and> fs_ok n s4 \<and> blocks_new own (d_lvl1 ?nd) {..<Suc K} X s3 s4"
    using E fr K(2) free3 g(2) by (intro create_loop_ok [OF inv3 s3(3)]) (auto simp: c3 ind)
  then obtain s4 X where s4: "mfold (\<lambda>i s. do { (_, _, s) \<leftarrow> lookup_with iw me ?nd (i mod 2 ^ 16) True s; Some s }) [0..<Suc K] s3 = Some s4"
      "inv s4" "fs_ok n s4" "blocks_new own p {..<Suc K} X s3 s4" unfolding ind by blast
  note B = blocks_newD [OF s4(4), unfolded c3]
  have fp: "footprint (contents_of s4) p = insert p X" using extendsD(2) [OF B(1)] E(2) by simp
  have sX: "sec \<notin> insert p X" using B(2) g(2) sec(2) fr(5) by auto
  have "contents_of s4 sec = ?nd" using extendsD(7) [OF B(1), of sec] sX sec(3) E(2) by auto
  note C = created_file [OF B(1) B(5) _ p0 fr(4) this sec(1) _ lim(4) K(2) lim(1,2)]
  have nK: "nat (end_sector (int len) + 1) = Suc K" using end_sector_nat [OF lim(3)] K(1) by simp
  have run: "inode_create d me sec (int len) s = Some (True, s4)"
    using s1(1) s2(1) s3(1) s4(1) c3(4,5) sec(1) cap_le [OF ok] F(1)
    by (simp add: inode_create_def free_map_allocate_def lookup_def iw [symmetric] nK Let_def del: upt_Suc mfold_append)
  have "created own sec len (Suc K) (insert p X) s s4"
  proof -
    have "contents_of s4 t = contents_of s t" if "t \<notin> insert sec (insert p X) \<union> own" for t
      using extendsD(7) [OF B(1), of t] that E(2) g(3) by auto
    moreover have "moved s s4" by (rule moved_trans [OF moved_trans [OF moved_grants [OF s1(2)] moved_io [OF i3]] B(6)])
    moreover have "insert p X \<inter> own = {}" using extendsD(3) [OF B(1)] fp by simp
    moreover have "insert p X \<inter> used_of s = {}" "used_of s4 = used_of s \<union> insert p X" using B(2,3) g(2) fr(5) by auto
    moreover have "card (insert p X) \<le> Suc (3 * Suc K)" using card_insert_le_m1 [of "Suc (3 * Suc K)" X p] B(4) by simp
    ultimately show ?thesis using C fp sX unfolding created_def by simp
  qed
  then show ?thesis using run s4(2,3) by blast
qed

end

end
