(* ===== verification/FreeMap.thy ===== *)
theory FreeMap
  imports InodeGrow
begin

text \<open>
  The free map, with its file on the device it describes, is an allocator of sectors in the sense of
  \<open>sector_allocator\<close>. Its file has its blocks from the start, so writing it back never allocates and the
  recursion between allocating and writing ends at depth one.
\<close>

section \<open>The map and its file\<close>

text \<open>The file of the map is in place: \<open>len\<close> bytes in \<open>m\<close> blocks on the sectors \<open>own\<close>, open as the inode at
  \<open>fip\<close>. With \<open>map_inv\<close> it also holds the map.\<close>

definition map_file :: "nat \<Rightarrow> nat set \<Rightarrow> nat \<Rightarrow> nat \<Rightarrow> fsys \<Rightarrow> bool" where
  "map_file fip own len m s \<longleftrightarrow>
     bm_wf (free_map s) \<and> bit_cnt (free_map s) = cap_of s \<and> len = byte_cnt (bit_cnt (free_map s))
     \<and> (\<exists>f. free_map_file s = Some f \<and> f_inode f = fip) \<and> free_inode s fip FREE_MAP_SECTOR
     \<and> file_ok (cap_of s) (contents_of s) FREE_MAP_SECTOR len m
     \<and> (len + BLOCK_SECTOR_SIZE - 1) div BLOCK_SECTOR_SIZE < m
     \<and> file_sectors (contents_of s) FREE_MAP_SECTOR = own \<and> own \<subseteq> used_of s"

definition map_inv :: "nat \<Rightarrow> nat set \<Rightarrow> nat \<Rightarrow> nat \<Rightarrow> fsys \<Rightarrow> bool" where
  "map_inv fip own len m s \<longleftrightarrow> map_file fip own len m s \<and> file_bytes (contents_of s) FREE_MAP_SECTOR = bm_bytes (free_map s)"

lemma map_fileD:
  assumes "map_file fip own len m s"
  shows "bm_wf (free_map s)" "bit_cnt (free_map s) = cap_of s" "len = byte_cnt (bit_cnt (free_map s))"
    "\<exists>f. free_map_file s = Some f \<and> f_inode f = fip" "free_inode s fip FREE_MAP_SECTOR"
    "file_ok (cap_of s) (contents_of s) FREE_MAP_SECTOR len m" "(len + BLOCK_SECTOR_SIZE - 1) div BLOCK_SECTOR_SIZE < m"
    "file_sectors (contents_of s) FREE_MAP_SECTOR = own" "own \<subseteq> used_of s"
  using assms unfolding map_file_def by blast+

lemma map_inv_file: "map_inv fip own len m s \<Longrightarrow> map_file fip own len m s"
  by (simp add: map_inv_def)

lemmas map_invD = map_fileD [OF map_inv_file]

lemma free_full:
  assumes "bm_wf (free_map s)" "bit_cnt (free_map s) = cap_of s"
  shows "free_of s = 0 \<longleftrightarrow> used_of s = {..<bit_cnt (free_map s)}"
proof -
  have sub: "used_of s \<subseteq> {..<cap_of s}" using bmp.used_bound [OF assms(1)] assms(2) by simp
  have "free_of s = 0 \<longleftrightarrow> {..<cap_of s} - used_of s = {}" by (simp add: free_of_def)
  also have "\<dots> \<longleftrightarrow> used_of s = {..<cap_of s}" using sub by blast
  finally show ?thesis unfolding assms(2) .
qed

lemma map_free_full: "map_file fip own len m s \<Longrightarrow> free_of s = 0 \<longleftrightarrow> used_of s = {..<bit_cnt (free_map s)}"
  using free_full map_fileD(1,2) by blast

lemma length_bm_bytes: "bm_wf b \<Longrightarrow> bit_cnt b \<le> SECTOR_NUM \<Longrightarrow> length (bm_bytes b) = byte_cnt (bit_cnt b)"
proof -
  assume wf: "bm_wf b" and n: "bit_cnt b \<le> SECTOR_NUM"
  have "length (bm_bytes b) = 4 * length (bits b)" by (simp add: bm_bytes_def length_concat sum_list_triv comp_def)
  moreover have "elem_cnt (bit_cnt b) \<le> bit_cnt b + 32 - 1"
    unfolding elem_cnt_def DIV_ROUND_UP_def ELEM_BITS_def using u32_le div_le_dividend le_trans by blast
  ultimately show ?thesis using wf n
    by (simp add: bm_wf_def byte_cnt_def SECTOR_NUM_def BLOCK_SECTOR_SIZE_def)
qed

text \<open>Writing the map back, after the map in memory has changed to \<open>b\<close>.\<close>

lemma write_map:
  assumes i: "map_file fip own len m s" and ok: "fs_ok (Suc (nblocks 0 len) + n) s"
    and b: "bm_wf b" "bit_cnt b = bit_cnt (free_map s)" "own \<subseteq> bm_used b"
  shows "\<exists>s'. bitmap_write_with (inode_write_at (Suc d) me) b (free_map_file s) (s\<lparr>free_map := b\<rparr>) = Some (True, s')
    \<and> fs_ok n s' \<and> map_inv fip own len m s' \<and> free_map s' = b \<and> moved s s' \<and> (\<forall>t. t \<notin> own \<longrightarrow> contents_of s' t = contents_of s t)"
proof -
  let ?s = "s\<lparr>free_map := b\<rparr>"
  note D = map_fileD [OF i]
  obtain f where f: "free_map_file s = Some f" "f_inode f = fip" using D(4) by blast
  have cap: "bit_cnt b \<le> SECTOR_NUM" using cap_le [OF ok] D(2) b(2) by simp
  have len: "length (bm_bytes b) = len" using length_bm_bytes [OF b(1) cap] D(3) b(2) by simp
  have ok': "fs_ok (Suc (nblocks 0 len + n)) ?s" using ok by (simp add: fs_ok_def)
  have ip: "free_inode ?s fip FREE_MAP_SECTOR" using D(5) by (simp add: free_inode_def)
  obtain s' w where s': "inode_write_at_with (inode_write_at d me) me fip (bm_bytes b) (int len) (int 0) ?s = Some (int len, s')"
      "io ?s w s'" "fs_ok n s'" "wrote (cap_of s) (contents_of s) FREE_MAP_SECTOR len m 0 (take len (bm_bytes b)) w"
    using inode_write_ok [OF ok' ip, of len m "bm_bytes b" "inode_write_at d me" me] D(6,7) len by auto
  have w: "contents_of s' = w" "cap_of s' = cap_of s" "free_map s' = b" "free_map_file s' = free_map_file s" "inodes s' = inodes s"
    using s'(2) by (simp_all add: io_simps)
  have W: "file_ok (cap_of s) w FREE_MAP_SECTOR len m" "file_bytes w FREE_MAP_SECTOR = bm_bytes b"
    "file_sectors w FREE_MAP_SECTOR = own" "\<And>t. t \<notin> own \<Longrightarrow> w t = contents_of s t"
    using s'(4) len D(8) length_file_bytes [OF D(6)] by (auto simp: wrote_def splice_def Let_def)
  have "map_inv fip own len m s'" using D b W w by (simp add: map_inv_def map_file_def free_inode_def)
  moreover have "moved s s'" using moved_io [OF s'(2)] unfolding moved_def by (cases s, cases s') simp
  moreover have "bitmap_write_with (inode_write_at (Suc d) me) b (free_map_file s) ?s = Some (True, s')"
    using s'(1) f D(3) b(2) by (simp add: bitmap_write_with_def)
  ultimately show ?thesis using s'(3) w W by blast
qed

interpretation fmap: sector_allocator "inode_write_at (Suc d) me" "map_inv fip own len m" own "Suc (nblocks 0 len)" fip
  for d me fip own len m
proof unfold_locales
  fix s n
  assume i: "map_inv fip own len m s" and ok: "fs_ok (Suc (nblocks 0 len) + n) s" and free: "0 < free_of s"
  note D = map_invD [OF i]
  have "used_of s \<noteq> {..<bit_cnt (free_map s)}" using map_free_full [OF map_inv_file [OF i]] free by simp
  from bmp.alloc_free [OF D(1) this] obtain p b where
    p: "bm_alloc (free_map s) = Some (Some p, b)" "p < bit_cnt (free_map s)" "p \<notin> used_of s" "bm_used b = insert p (used_of s)"
      "bit_cnt b = bit_cnt (free_map s)" "bm_wf b" by blast
  from p(1) have scan: "bitmap_scan_and_flip (free_map s) 0 1 False = Some (p, b)" "p \<noteq> BITMAP_ERROR"
    by (auto simp: bm_alloc_def bm_slot_def split: if_splits)
  obtain s' where s': "bitmap_write_with (inode_write_at (Suc d) me) b (free_map_file s) (s\<lparr>free_map := b\<rparr>) = Some (True, s')"
      "fs_ok n s'" "map_inv fip own len m s'" "free_map s' = b" "moved s s'" "\<forall>t. t \<notin> own \<longrightarrow> contents_of s' t = contents_of s t"
    using write_map [OF map_inv_file [OF i] ok p(6,5)] D(9) p(4) by blast
  have "free_map_allocate_with (inode_write_at (Suc d) me) s = Some (Some p, s')"
    using scan s'(1) D(4) by (auto simp: free_map_allocate_with_def)
  moreover have "grants own p s s'" using p D(2) s' by (auto simp: grants_def moved_def)
  ultimately show "\<exists>p s'. free_map_allocate_with (inode_write_at (Suc d) me) s = Some (Some p, s')
      \<and> grants own p s s' \<and> map_inv fip own len m s' \<and> fs_ok n s'" using s'(2,3) by blast
next
  fix s assume i: "map_inv fip own len m s" and full: "free_of s = 0"
  have "bm_alloc (free_map s) = Some (None, free_map s)"
    using bm_alloc_None [OF map_invD(1) [OF i]] map_free_full [OF map_inv_file [OF i]] full by simp
  then have "bitmap_scan_and_flip (free_map s) 0 1 False = Some (BITMAP_ERROR, free_map s)"
    by (auto simp: bm_alloc_def bm_slot_def split: if_splits)
  then show "free_map_allocate_with (inode_write_at (Suc d) me) s = Some (None, s)" by (simp add: free_map_allocate_with_def)
next
  fix s assume i: "map_inv fip own len m s"
  show "own \<subseteq> used_of s" by (rule map_invD(9) [OF i])
  then show "0 \<in> used_of s" using map_invD(8) [OF i] by (auto simp: file_sectors_def FREE_MAP_SECTOR_def)
next
  fix s v s' assume i: "map_inv fip own len m s" and io: "io s v s'" and same: "\<And>t. t \<in> own \<Longrightarrow> v t = contents_of s t"
  note D = map_invD [OF i]
  have "v t = contents_of s t" if "t \<in> file_sectors (contents_of s) FREE_MAP_SECTOR" for t using same that D(8) by simp
  note F = file_cong [OF D(6) this]
  show "map_inv fip own len m s'" using D F io_fields [OF io] i by (simp add: map_inv_def map_file_def free_inode_def)
next
  fix s and x :: "nat \<Rightarrow> inode option" assume "map_inv fip own len m s" "x fip = inodes s fip"
  then show "map_inv fip own len m (s\<lparr>inodes := x\<rparr>)" by (auto simp: map_inv_def map_file_def free_inode_def)
qed

section \<open>The map before it has a file\<close>

definition bare_map :: "fsys \<Rightarrow> bool" where
  "bare_map s \<longleftrightarrow> bm_wf (free_map s) \<and> bit_cnt (free_map s) = cap_of s \<and> free_map_file s = None \<and> 0 \<in> used_of s"

interpretation bare: sector_allocator iw bare_map "{}" 0 fip for iw fip
proof unfold_locales
  fix s n
  assume i: "bare_map s" and ok: "fs_ok (0 + n) s" and free: "0 < free_of s"
  have D: "bm_wf (free_map s)" "bit_cnt (free_map s) = cap_of s" "free_map_file s = None" "0 \<in> used_of s"
    using i unfolding bare_map_def by blast+
  have "used_of s \<noteq> {..<bit_cnt (free_map s)}" using free_full [OF D(1,2)] free by simp
  from bm_alloc_Some [OF D(1) this] obtain p b where
    p: "bitmap_scan_and_flip (free_map s) 0 1 False = Some (p, b)" "p < bit_cnt (free_map s)" "p \<noteq> BITMAP_ERROR" "p \<notin> used_of s"
      "bm_used b = insert p (used_of s)" "bit_cnt b = bit_cnt (free_map s)" "bm_wf b" by blast
  let ?s = "s\<lparr>free_map := b\<rparr>"
  have "free_map_allocate_with iw s = Some (Some p, ?s)" using p D(3) by (simp add: free_map_allocate_with_def)
  moreover have "grants {} p s ?s" using p D(2) by (simp add: grants_def)
  moreover have "bare_map ?s" "fs_ok n ?s" using p D ok by (simp_all add: bare_map_def fs_ok_def)
  ultimately show "\<exists>p s'. free_map_allocate_with iw s = Some (Some p, s') \<and> grants {} p s s' \<and> bare_map s' \<and> fs_ok n s'" by blast
next
  fix s assume i: "bare_map s" and full: "free_of s = 0"
  then have "used_of s = {..<bit_cnt (free_map s)}" using free_full by (simp add: bare_map_def)
  then have "bm_alloc (free_map s) = Some (None, free_map s)" using bm_alloc_None i by (simp add: bare_map_def)
  then have "bitmap_scan_and_flip (free_map s) 0 1 False = Some (BITMAP_ERROR, free_map s)"
    by (auto simp: bm_alloc_def bm_slot_def split: if_splits)
  then show "free_map_allocate_with iw s = Some (None, s)" by (simp add: free_map_allocate_with_def)
qed (auto simp: bare_map_def io_simps)

end
