(* ===== verification/FsBoot.thy ===== *)
theory FsBoot
  imports FreeMap FileSystem
begin

text \<open>
  Formatting: on a blank device \<open>filesys_init\<close> builds the free map, its file and an empty root directory,
  and the invariant of the free map holds from then on.
\<close>

section \<open>The map and its bytes\<close>

lemma words_of_bytes: "words_of (concat (map (\<lambda>w. le32 (unat w)) ws)) = (ws :: 32 word list)"
proof (induction ws)
  case (Cons w ws)
  have "of_le (le32 (unat w)) = unat w" using unsigned_less [of w, where ?'a = nat] by (simp add: of_le_le32)
  then have "word_of_nat (of_le (le32 (unat w))) = w" by simp
  then show ?case using Cons.IH by (simp add: le32_def)
qed simp

lemma bitmap_read_ok:
  assumes b: "bm_wf b" "0 < bit_cnt b" "bit_cnt b \<le> SECTOR_NUM" "32 dvd bit_cnt b" and c: "bm_wf c" "bit_cnt c = bit_cnt b"
    and rd: "file_read_at d me f (int (byte_cnt (bit_cnt b))) 0 s = Some (bm_bytes b, s')"
  shows "bitmap_read d me c f s = Some (True, b, s')"
proof -
  have len: "length (bm_bytes b) = byte_cnt (bit_cnt b)" by (rule length_bm_bytes [OF b(1,3)])
  have "length (bm_bytes c) = byte_cnt (bit_cnt b)" using length_bm_bytes [OF c(1)] b(3) c(2) by simp
  then have bits: "words_of (patch 0 (byte_cnt (bit_cnt b)) (bm_bytes b) (bm_bytes c)) = bits b"
    using words_of_bytes by (simp add: patch_def len [symmetric] bm_bytes_def)
  have upd: "c\<lparr>bits := bits b\<rparr> = b" using c(2) by (cases b, cases c) simp
  have mask: "last_mask b = - 1" using b(4) by (simp add: last_mask_def ELEM_BITS_def)
  have "0 < elem_cnt (bit_cnt b)" using le_less_trans [OF le0 elem_idx_in_range [OF b(1,2)]] b(1) unfolding bm_wf_def by metis
  then have "upd_elem b (elem_cnt (bit_cnt b) - 1) (\<lambda>w. w AND last_mask b) = Some b"
    using b(1) by (simp add: upd_elem_def bm_wf_def mask)
  then show ?thesis using b(2) c(2) rd len bits by (simp add: bitmap_read_def upd Let_def)
qed

lemma bitmap_mark_ok:
  assumes "bm_wf b" "i < bit_cnt b"
  shows "\<exists>b'. bitmap_mark b i = Some b' \<and> bm_wf b' \<and> bit_cnt b' = bit_cnt b \<and> bm_used b' = insert i (bm_used b)"
proof -
  obtain b' where b': "bitmap_set b i True = Some b'" "bm_wf b'" "bit_cnt b' = bit_cnt b" "bm_abs b' = (bm_abs b)[i := True]"
    using bitmap_set_ok [OF assms] by blast
  then show ?thesis using assms(2) bm_used_update [OF assms(2) b'(3,4)] by (auto simp: bitmap_set_def)
qed

section \<open>A blank device\<close>

definition blank :: "block \<Rightarrow> bool" where
  "blank b \<longleftrightarrow> 64 \<le> block_size b \<and> block_size b \<le> SECTOR_NUM \<and> 32 dvd block_size b
     \<and> (\<forall>s<block_size b. length (sectors b ! s) = BLOCK_SECTOR_SIZE)"

definition idle_fs :: "fsys \<Rightarrow> bool" where
  "idle_fs s \<longleftrightarrow> mallocs s = [] \<and> free_map_file s = None \<and> open_inodes s = []"

lemma init_device:
  assumes "blank b" "idle_fs s"
  shows "fs_ok 65534 (s\<lparr>fs_device := cached_block_init junk b 64\<rparr>)" "cached_block_size (cached_block_init junk b 64) = block_size b"
proof -
  show "cached_block_size (cached_block_init junk b 64) = block_size b" by (simp add: cached_block_size_def cached_block_init_def)
  have "store_inv 65534 (cached_block_init junk b 64)" using assms(1) by (intro cached_block_init_inv) (simp_all add: blank_def)
  then show "fs_ok 65534 (s\<lparr>fs_device := cached_block_init junk b 64\<rparr>)" using assms(2) by (simp add: fs_ok_def idle_fs_def)
qed

lemma free_map_init_ok:
  assumes ok: "fs_ok n s" and idle: "idle_fs s" and cap: "64 \<le> cap_of s" and junk: "length junk = elem_cnt (cap_of s)"
  shows "\<exists>b. free_map_init junk s = Some (s\<lparr>free_map := b\<rparr>) \<and> bare_map (s\<lparr>free_map := b\<rparr>) \<and> bm_used b = {0, 1}"
proof -
  have N: "cap_of s \<le> 16384" using cap_le [OF ok] by (simp add: SECTOR_NUM_def BLOCK_SECTOR_SIZE_def)
  obtain b where b: "bitmap_create True (Some junk) (cap_of s) = Some (Some b)" "bm_wf b" "bit_cnt b = cap_of s" "bm_abs b = replicate (cap_of s) False"
    using bitmap_create_ok [of "cap_of s" junk] junk N by auto
  have "bm_used b = {}" using b(3,4) by (auto simp: bm_used_def)
  moreover obtain b1 where b1: "bitmap_mark b 0 = Some b1" "bm_wf b1" "bit_cnt b1 = bit_cnt b" "bm_used b1 = insert 0 (bm_used b)"
    using bitmap_mark_ok [OF b(2), of 0] b(3) cap by auto
  moreover obtain b2 where b2: "bitmap_mark b1 1 = Some b2" "bm_wf b2" "bit_cnt b2 = bit_cnt b1" "bm_used b2 = insert 1 (bm_used b1)"
    using bitmap_mark_ok [OF b1(2), of 1] b1(3) b(3) cap by auto
  ultimately show ?thesis using b idle
    by (auto simp: free_map_init_def idle_fs_def FREE_MAP_SECTOR_def ROOT_DIR_SECTOR_def bare_map_def intro!: exI [of _ b2])
qed

section \<open>Opening and closing the file of the map\<close>

definition opened :: "nat \<Rightarrow> fsys \<Rightarrow> fsys" where
  "opened sec s =
     s\<lparr>inodes := (inodes s)(next_inode s \<mapsto> \<lparr>i_rwlock = rw_lock_init, i_sector = sec, i_open_cnt = 1, i_removed = False, i_deny_write_cnt = 0\<rparr>),
       open_inodes := next_inode s # open_inodes s, next_inode := next_inode s + 1\<rparr>"

lemma opened_fields [simp]:
  "fs_device (opened sec s) = fs_device s" "free_map (opened sec s) = free_map s" "free_map_file (opened sec s) = free_map_file s"
  "mallocs (opened sec s) = mallocs s" "open_inodes (opened sec s) = next_inode s # open_inodes s" "dir_locks (opened sec s) = dir_locks s"
  "next_inode (opened sec s) = next_inode s + 1"
  "inodes (opened sec s) = (inodes s)(next_inode s \<mapsto> \<lparr>i_rwlock = rw_lock_init, i_sector = sec, i_open_cnt = 1, i_removed = False, i_deny_write_cnt = 0\<rparr>)"
  by (simp_all add: opened_def)

lemma free_inode_opened: "free_inode (opened sec s) (next_inode s) sec"
  by (simp add: free_inode_def)

lemma fs_ok_opened: "fs_ok n (opened sec s) = fs_ok n s"
  by (simp add: fs_ok_def)

lemma inode_open_first: "mallocs s = [] \<Longrightarrow> open_inodes s = [] \<Longrightarrow> sec < SECTOR_NUM \<Longrightarrow> inode_open sec s = Some (Some (next_inode s), opened sec s)"
  by (simp add: inode_open_def find_open_def opened_def Let_def)

definition map_handle :: "nat \<Rightarrow> open_file" where
  "map_handle p = \<lparr>f_inode = p, f_pos = 0, f_deny_write = False\<rparr>"

lemma file_open_ok: "mallocs s = [] \<Longrightarrow> file_open d me (Some p) s = Some (Some (map_handle p), s)"
  by (simp add: file_open_def map_handle_def)

lemma free_map_close_ok:
  assumes "free_map_file s = Some (map_handle p)" "inodes s p = Some i" "i_open_cnt i = 1" "\<not> i_removed i" "open_inodes s = [p]"
  shows "free_map_close d me s = Some (s\<lparr>inodes := (inodes s)(p := None), open_inodes := []\<rparr>)"
  using assms by (simp add: free_map_close_def file_close_def file_allow_write_def map_handle_def inode_close_def upd_inode_def s32_def)

text \<open>The map's file is open once, through its handle.\<close>

definition map_open :: "nat \<Rightarrow> fsys \<Rightarrow> bool" where
  "map_open fip s \<longleftrightarrow> free_map_file s = Some (map_handle fip) \<and> (\<exists>i. inodes s fip = Some i \<and> i_open_cnt i = 1 \<and> \<not> i_removed i)"

lemma map_file_of_created:
  assumes c: "created {} FREE_MAP_SECTOR (byte_cnt (bit_cnt (free_map s))) (Suc K) X s0 s" and b: "bare_map s"
    and K: "K = (byte_cnt (bit_cnt (free_map s)) + BLOCK_SECTOR_SIZE - 1) div BLOCK_SECTOR_SIZE"
  shows "map_file (next_inode s) (insert FREE_MAP_SECTOR X) (byte_cnt (bit_cnt (free_map s))) (Suc K)
    ((opened FREE_MAP_SECTOR s)\<lparr>free_map_file := Some (map_handle (next_inode s))\<rparr>)"
proof -
  have "cap_of s = cap_of s0" "used_of s = used_of s0 \<union> X" using c moved_fields(1) by (auto simp: created_def)
  then show ?thesis using c b unfolding K by (simp add: map_file_def created_def bare_map_def map_handle_def free_inode_def FREE_MAP_SECTOR_def)
qed

section \<open>Formatting\<close>

text \<open>\<open>L\<close> bytes of map for \<open>N\<close> sectors, in at most five blocks.\<close>

lemma map_size:
  assumes "64 \<le> N" "N \<le> SECTOR_NUM"
  shows "byte_cnt N \<le> 2048" "0 < byte_cnt N" "(byte_cnt N + BLOCK_SECTOR_SIZE - 1) div BLOCK_SECTOR_SIZE \<le> 4" "nblocks 0 (byte_cnt N) \<le> 4"
proof -
  have N: "N \<le> 16384" using assms(2) by (simp add: SECTOR_NUM_def BLOCK_SECTOR_SIZE_def)
  have "elem_cnt N \<le> 512" "2 \<le> elem_cnt N" using assms(1) N by (simp_all add: elem_cnt_def DIV_ROUND_UP_def ELEM_BITS_def)
  then have b: "byte_cnt N = 4 * elem_cnt N" by (simp add: byte_cnt_def)
  show l: "byte_cnt N \<le> 2048" and "0 < byte_cnt N" using b \<open>elem_cnt N \<le> 512\<close> \<open>2 \<le> elem_cnt N\<close> by simp_all
  show "(byte_cnt N + BLOCK_SECTOR_SIZE - 1) div BLOCK_SECTOR_SIZE \<le> 4" using l by (simp add: BLOCK_SECTOR_SIZE_def)
  have "(byte_cnt N - 1) div 512 \<le> 3" using div_le_mono [of "byte_cnt N - 1" 2047 512] l by simp
  then show "nblocks 0 (byte_cnt N) \<le> 4" by (simp add: nblocks_def BLOCK_SECTOR_SIZE_def)
qed

text \<open>The state after \<open>free_map_create\<close>.\<close>

lemma free_map_create_ok:
  assumes ok: "fs_ok 65534 s" and bare: "bare_map s" and u: "used_of s = {0, 1}" and cap: "64 \<le> cap_of s" and op: "open_inodes s = []"
  shows "\<exists>s' own m. free_map_create (Suc d) me s = Some s' \<and> map_inv (next_inode s) own (byte_cnt (cap_of s)) m s' \<and> fs_ok 65000 s'
    \<and> used_of s' = insert ROOT_DIR_SECTOR own \<and> ROOT_DIR_SECTOR \<notin> own \<and> 40 \<le> free_of s' \<and> cap_of s' = cap_of s \<and> open_inodes s' = [next_inode s]
    \<and> free_map_file s' = Some (map_handle (next_inode s)) \<and> next_inode s' = Suc (next_inode s) \<and> dir_locks s' = dir_locks s
    \<and> inodes s' = inodes (opened FREE_MAP_SECTOR s)"
proof -
  let ?N = "cap_of s" and ?L = "byte_cnt (cap_of s)" and ?p = "next_inode s"
  note sz = map_size [OF cap cap_le [OF ok]]
  define K where "K = (?L + BLOCK_SECTOR_SIZE - 1) div BLOCK_SECTOR_SIZE"
  have K: "K \<le> 4" "Suc K < MAX_BLOCKS" using sz(3) by (simp_all add: K_def MAX_BLOCKS_def)
  have bc: "bit_cnt (free_map s) = ?N" using bare by (simp add: bare_map_def)
  have free: "free_of s = ?N - 2" using u cap by (simp add: free_of_def card_Diff_subset)
  have ok': "fs_ok (0 + (2 + (Suc K * (3 * 0 + 4) + 65500))) s" by (rule fs_ok_mono [OF ok]) (use K in simp)
  have pre: "FREE_MAP_SECTOR < cap_of s" "FREE_MAP_SECTOR \<in> used_of s" "FREE_MAP_SECTOR \<notin> {}" "1 + 3 * Suc K \<le> free_of s"
    using u cap free K(1) by (simp_all add: FREE_MAP_SECTOR_def)
  obtain s2 X where s2: "inode_create (Suc d) me FREE_MAP_SECTOR (int ?L) s = Some (True, s2)" "bare_map s2" "fs_ok 65500 s2"
      "created {} FREE_MAP_SECTOR ?L (Suc K) X s s2"
    using bare.inode_create_ok [OF refl bare ok' pre(1-3) K_def K(2) pre(4)] by blast
  have C: "moved s s2" "used_of s2 = {0, 1} \<union> X" "X \<inter> {0, 1} = {}" "card X \<le> 16" using s2(4) u K(1) by (auto simp: created_def)
  note mf = moved_fields [OF C(1)]
  have fin: "finite X"
    using s2(4) bmp.finite_used [of "free_map s2"] s2(2) C(2) by (simp add: bare_map_def)
  have free2: "46 \<le> free_of s2" using free_of_used [of s2 s X] C(2,4) u mf(1) fin free cap by simp
  have bc2: "bit_cnt (free_map s2) = ?N" using s2(2) mf(1) by (simp add: bare_map_def)
  let ?s4 = "(opened FREE_MAP_SECTOR s2)\<lparr>free_map_file := Some (map_handle ?p)\<rparr>"
  have m4: "map_file ?p (insert FREE_MAP_SECTOR X) ?L (Suc K) ?s4"
    using map_file_of_created [of s2 K X s, unfolded bc2, OF s2(4,2) K_def] mf(5) by simp
  have ok4: "fs_ok (Suc (nblocks 0 ?L) + 65000) ?s4" by (rule fs_ok_mono [of 65500]) (use s2(3) sz(4) in \<open>simp_all add: fs_ok_def\<close>)
  have own: "insert FREE_MAP_SECTOR X \<subseteq> bm_used (free_map ?s4)" by (rule map_fileD(9) [OF m4])
  have id: "?s4\<lparr>free_map := free_map ?s4\<rparr> = ?s4" by simp
  from write_map [OF m4 ok4 map_fileD(1) [OF m4] refl own, of d me, unfolded id] obtain s5 where
    s5: "bitmap_write_with (inode_write_at (Suc d) me) (free_map s2) (Some (map_handle ?p)) ?s4 = Some (True, s5)"
      "fs_ok 65000 s5" "map_inv ?p (insert FREE_MAP_SECTOR X) ?L (Suc K) s5" "free_map s5 = free_map s2" "moved ?s4 s5" by auto
  note mf5 = moved_fields [OF s5(5)]
  have "free_map_create (Suc d) me s = Some s5"
    using s2(1) s5(1) fs_okD(1) [OF s2(3)] mf inode_open_first [of s2 FREE_MAP_SECTOR] op bc
    by (simp add: free_map_create_def bitmap_file_size_def bitmap_write_def file_open_ok FREE_MAP_SECTOR_def SECTOR_NUM_def BLOCK_SECTOR_SIZE_def)
  moreover have "40 \<le> free_of s5" using free2 s5(4) mf5(1) mf(1) by (simp add: free_of_def)
  moreover have "used_of s5 = insert ROOT_DIR_SECTOR (insert FREE_MAP_SECTOR X)" "ROOT_DIR_SECTOR \<notin> insert FREE_MAP_SECTOR X"
    using C s5(4) by (auto simp: FREE_MAP_SECTOR_def ROOT_DIR_SECTOR_def)
  ultimately show ?thesis using s5(2,3) mf mf5 op by (auto simp: opened_def intro!: exI [of _ s5])
qed

text \<open>The map stays what it is when its file is closed and opened again.\<close>

lemma map_inv_reopened:
  assumes "map_inv fip own len m s" "contents_of s' = contents_of s" "cap_of s' = cap_of s" "free_map s' = free_map s"
    "free_map_file s' = Some f" "f_inode f = p" "free_inode s' p FREE_MAP_SECTOR"
  shows "map_inv p own len m s'"
  using assms by (auto simp: map_inv_def map_file_def)

lemma free_map_open_ok:
  assumes ok: "fs_ok n s" and op: "open_inodes s = []" and b: "bm_wf b" "bit_cnt b = cap_of s" "32 dvd cap_of s" "0 < cap_of s"
    and c: "bm_wf (free_map s)" "bit_cnt (free_map s) = cap_of s"
    and f: "file_ok (cap_of s) (contents_of s) FREE_MAP_SECTOR (byte_cnt (cap_of s)) m" and bytes: "file_bytes (contents_of s) FREE_MAP_SECTOR = bm_bytes b"
  defines "t \<equiv> (opened FREE_MAP_SECTOR s)\<lparr>free_map_file := Some (map_handle (next_inode s))\<rparr>"
  shows "\<exists>s'. free_map_open d me s = Some (s'\<lparr>free_map := b\<rparr>) \<and> io t (contents_of s) s' \<and> fs_ok n s'"
proof -
  have t: "fs_ok n t" "free_inode t (next_inode s) FREE_MAP_SECTOR" "contents_of t = contents_of s" "cap_of t = cap_of s" "free_map t = free_map s"
    using ok free_inode_opened [of FREE_MAP_SECTOR s] by (simp_all add: t_def fs_ok_def free_inode_def)
  have cap: "bit_cnt b \<le> SECTOR_NUM" using cap_le [OF ok] b(2) by simp
  obtain s' where s': "inode_read_at d me (next_inode s) (int (byte_cnt (cap_of s))) (int 0) t = Some (bm_bytes b, s')"
      "io t (contents_of s) s'" "fs_ok n s'"
    using inode_read_ok [OF t(1,2), where len = "byte_cnt (cap_of s)" and m = m and o' = 0 and z = "byte_cnt (cap_of s)"
        and iw = "inode_write_at d me" and me = me] f bytes
      length_bm_bytes [OF b(1) cap] b(2) by (auto simp: t inode_read_at_def MAX_LENGTH_def MAX_BLOCKS_def BLOCK_SECTOR_SIZE_def)
  have "bitmap_read d me (free_map s) (map_handle (next_inode s)) t = Some (True, b, s')"
    using s'(1) b c cap by (intro bitmap_read_ok) (simp_all add: file_read_at_def map_handle_def)
  then have "free_map_open d me s = Some (s'\<lparr>free_map := b\<rparr>)"
    using fs_okD(1) [OF ok] op inode_open_first [of s FREE_MAP_SECTOR]
    by (simp add: free_map_open_def file_open_ok t_def FREE_MAP_SECTOR_def SECTOR_NUM_def BLOCK_SECTOR_SIZE_def)
  then show ?thesis using s'(2,3) by blast
qed

text \<open>What formatting leaves: the map on the sectors \<open>own\<close>, an empty root directory on the sectors it got, and
  nothing else in use.\<close>

definition formatted :: "nat set \<Rightarrow> nat \<Rightarrow> fsys \<Rightarrow> bool" where
  "formatted own m s \<longleftrightarrow> bm_wf (free_map s) \<and> bit_cnt (free_map s) = cap_of s
     \<and> file_ok (cap_of s) (contents_of s) FREE_MAP_SECTOR (byte_cnt (cap_of s)) m \<and> file_bytes (contents_of s) FREE_MAP_SECTOR = bm_bytes (free_map s)
     \<and> (byte_cnt (cap_of s) + BLOCK_SECTOR_SIZE - 1) div BLOCK_SECTOR_SIZE < m
     \<and> file_sectors (contents_of s) FREE_MAP_SECTOR = own
     \<and> file_ok (cap_of s) (contents_of s) ROOT_DIR_SECTOR 0 1 \<and> file_sectors (contents_of s) ROOT_DIR_SECTOR \<inter> own = {}
     \<and> used_of s = own \<union> file_sectors (contents_of s) ROOT_DIR_SECTOR"

lemma formatted_of_created:
  assumes i: "map_inv fip own (byte_cnt (cap_of s)) m s'" and c: "created own ROOT_DIR_SECTOR 0 1 X s s'"
    and u: "used_of s = insert ROOT_DIR_SECTOR own" "ROOT_DIR_SECTOR \<notin> own"
  shows "formatted own m s'"
proof -
  note D = map_invD [OF i]
  have X: "file_sectors (contents_of s') ROOT_DIR_SECTOR = insert ROOT_DIR_SECTOR X" "X \<inter> own = {}" "used_of s' = used_of s \<union> X"
      "file_ok (cap_of s) (contents_of s') ROOT_DIR_SECTOR 0 1" "cap_of s' = cap_of s"
    using c moved_fields(1) by (auto simp: created_def)
  show ?thesis using D X u i by (auto simp: formatted_def map_inv_def)
qed

lemma do_format_ok:
  assumes ok: "fs_ok 65534 s" and bare: "bare_map s" and u: "used_of s = {0, 1}" and cap: "64 \<le> cap_of s" and op: "open_inodes s = []"
  shows "\<exists>s' own m. do_format (Suc d) me s = Some s' \<and> formatted own m s' \<and> fs_ok 60000 s' \<and> 32 \<le> free_of s' \<and> cap_of s' = cap_of s
    \<and> open_inodes s' = [] \<and> next_inode s' = Suc (next_inode s) \<and> dir_locks s' = dir_locks s"
proof -
  let ?L = "byte_cnt (cap_of s)" and ?p = "next_inode s"
  note sz = map_size [OF cap cap_le [OF ok]]
  obtain s1 own m where s1: "free_map_create (Suc d) me s = Some s1" "map_inv ?p own ?L m s1" "fs_ok 65000 s1"
      "used_of s1 = insert ROOT_DIR_SECTOR own" "ROOT_DIR_SECTOR \<notin> own" "40 \<le> free_of s1" "cap_of s1 = cap_of s" "open_inodes s1 = [?p]"
      "free_map_file s1 = Some (map_handle ?p)" "next_inode s1 = Suc ?p" "dir_locks s1 = dir_locks s" "inodes s1 = inodes (opened FREE_MAP_SECTOR s)"
    using free_map_create_ok [OF assms] by blast
  have K: "0 = (0 + BLOCK_SECTOR_SIZE - 1) div BLOCK_SECTOR_SIZE" "Suc 0 < MAX_BLOCKS" by (simp_all add: BLOCK_SECTOR_SIZE_def MAX_BLOCKS_def)
  have ok1: "fs_ok (Suc (nblocks 0 ?L) + (2 + (Suc 0 * (3 * Suc (nblocks 0 ?L) + 4) + 60000))) s1"
    by (rule fs_ok_mono [OF s1(3)]) (use sz(4) in simp)
  have pre: "ROOT_DIR_SECTOR < cap_of s1" "ROOT_DIR_SECTOR \<in> used_of s1" "1 + 3 * Suc 0 \<le> free_of s1"
    using s1(4,6,7) cap by (simp_all add: ROOT_DIR_SECTOR_def)
  obtain s2 X where s2: "inode_create (Suc d) me ROOT_DIR_SECTOR (int 0) s1 = Some (True, s2)" "map_inv ?p own ?L m s2" "fs_ok 60000 s2"
      "created own ROOT_DIR_SECTOR 0 (Suc 0) X s1 s2"
    using fmap.inode_create_ok [OF refl s1(2) ok1 pre(1,2) s1(5) K pre(3)] by blast
  have C: "moved s1 s2" "used_of s2 = used_of s1 \<union> X" "card X \<le> 4" using s2(4) by (simp_all add: created_def)
  note mf = moved_fields [OF C(1)]
  have fin: "finite X" using bmp.finite_used [OF map_invD(1) [OF s2(2)]] C(2) by simp
  have free2: "32 \<le> free_of s2" using free_of_used [OF C(2) mf(1) fin] C(3) s1(6) by simp
  have fm: "formatted own m s2" using formatted_of_created [of ?p own s1 m s2 X] s2(2,4) s1(4,5,7) by simp
  let ?s3 = "s2\<lparr>inodes := (inodes s2)(?p := None), open_inodes := []\<rparr>"
  have "free_map_close (Suc d) me s2 = Some ?s3"
    using free_map_close_ok [of s2 ?p "the (inodes s2 ?p)"] mf s1 by simp
  then have "do_format (Suc d) me s = Some ?s3" using s1(1) s2(1) by (simp add: do_format_def dir_create_def)
  then show ?thesis using fm s2(3) free2 mf s1 by (auto simp: formatted_def fs_ok_def free_of_def intro!: exI [of _ ?s3])
qed

theorem filesys_init_ok:
  assumes b: "blank b" and idle: "idle_fs s" and junk: "length junk_bits = elem_cnt (block_size b)"
  shows "\<exists>s' own m. filesys_init (Suc d) me junk_queue junk_bits b True s = Some s'
    \<and> map_inv (Suc (next_inode s)) own (byte_cnt (block_size b)) m s' \<and> formatted own m s' \<and> fs_ok 60000 s' \<and> cap_of s' = block_size b
    \<and> 32 \<le> free_of s' \<and> open_inodes s' = [Suc (next_inode s)] \<and> next_inode s' = next_inode s + 2 \<and> dir_locks s' = dir_locks s
    \<and> map_open (Suc (next_inode s)) s'"
proof -
  let ?s0 = "s\<lparr>fs_device := cached_block_init junk_queue b 64\<rparr>"
  note dev = init_device [OF b idle, of junk_queue]
  have idle0: "idle_fs ?s0" using idle by (simp add: idle_fs_def)
  have cap0: "cap_of ?s0 = block_size b" using dev(2) by (simp add: cached_block_size_def)
  obtain fm where fm: "free_map_init junk_bits ?s0 = Some (?s0\<lparr>free_map := fm\<rparr>)" "bare_map (?s0\<lparr>free_map := fm\<rparr>)" "bm_used fm = {0, 1}"
    using free_map_init_ok [OF dev(1) idle0, of junk_bits] b cap0 junk by (auto simp: blank_def)
  let ?s1 = "?s0\<lparr>free_map := fm\<rparr>"
  have ok1: "fs_ok 65534 ?s1" using dev(1) by (simp add: fs_ok_def)
  obtain s2 own m where s2: "do_format (Suc d) me ?s1 = Some s2" "formatted own m s2" "fs_ok 60000 s2" "32 \<le> free_of s2" "cap_of s2 = cap_of ?s1"
      "open_inodes s2 = []" "next_inode s2 = Suc (next_inode s)" "dir_locks s2 = dir_locks s"
    using do_format_ok [OF ok1 fm(2), of d me] fm(3) b idle cap0 by (auto simp: blank_def idle_fs_def)
  have F: "bm_wf (free_map s2)" "bit_cnt (free_map s2) = cap_of s2" "file_ok (cap_of s2) (contents_of s2) FREE_MAP_SECTOR (byte_cnt (cap_of s2)) m"
      "file_bytes (contents_of s2) FREE_MAP_SECTOR = bm_bytes (free_map s2)" using s2(2) by (simp_all add: formatted_def)
  have cap: "32 dvd cap_of s2" "0 < cap_of s2" "cap_of s2 = block_size b" using b s2(5) cap0 by (auto simp: blank_def)
  let ?t = "(opened FREE_MAP_SECTOR s2)\<lparr>free_map_file := Some (map_handle (next_inode s2))\<rparr>"
  obtain s3 where s3: "free_map_open (Suc d) me s2 = Some (s3\<lparr>free_map := free_map s2\<rparr>)" "io ?t (contents_of s2) s3" "fs_ok 60000 s3"
    using free_map_open_ok [OF s2(3,6) F(1,2) cap(1,2) F(1-4)] by blast
  note I = io_fields [OF s3(2)]
  have "s3\<lparr>free_map := free_map s2\<rparr> = s3" using I by simp
  then have run: "filesys_init (Suc d) me junk_queue junk_bits b True s = Some s3"
    using fm(1) s2(1) s3(1) by (simp add: filesys_init_def)
  have fmt: "formatted own m s3" using s2(2) I by (simp add: formatted_def)
  have "map_inv (Suc (next_inode s)) own (byte_cnt (block_size b)) m s3"
    using fmt I s2(7) cap(3) free_inode_opened [of FREE_MAP_SECTOR s2]
    by (auto simp: map_inv_def map_file_def formatted_def map_handle_def free_inode_def)
  moreover have "map_open (Suc (next_inode s)) s3" using I s2(7) by (simp add: map_open_def)
  ultimately show ?thesis using run fmt s3(3) s2 I cap(3) by (auto simp: free_of_def intro!: exI [of _ s3])
qed

end
