(* ===== verification/Volume.thy ===== *)
theory Volume
  imports FsBoot
begin

text \<open>
  The files of the device as one abstract object, a map from the sector of an inode to the bytes of its
  file, and what the operations of \<open>inode.c\<close>, \<open>free-map.c\<close> and \<open>filesys.c\<close> do to it: reading, writing with
  growth, creating, and shutting down and starting again.
\<close>

section \<open>Files on separate sectors\<close>

text \<open>The files with inodes in the sectors \<open>F\<close> are well formed, use only allocated sectors, and share none
  with each other or with the file of the map, which is on \<open>own\<close>.\<close>

definition volume :: "nat set \<Rightarrow> nat set \<Rightarrow> fsys \<Rightarrow> bool" where
  "volume own F s \<longleftrightarrow>
     (\<forall>a\<in>F. (\<exists>len m. file_ok (cap_of s) (contents_of s) a len m)
        \<and> file_sectors (contents_of s) a \<subseteq> used_of s \<and> file_sectors (contents_of s) a \<inter> own = {})
     \<and> (\<forall>a\<in>F. \<forall>b\<in>F. a \<noteq> b \<longrightarrow> file_sectors (contents_of s) a \<inter> file_sectors (contents_of s) b = {})"

definition files :: "nat set \<Rightarrow> fsys \<Rightarrow> nat \<rightharpoonup> byte list" where
  "files F s = (\<lambda>a. if a \<in> F then Some (file_bytes (contents_of s) a) else None)"

lemma volumeD:
  assumes "volume own F s" "a \<in> F"
  shows "\<exists>len m. file_ok (cap_of s) (contents_of s) a len m" "file_sectors (contents_of s) a \<subseteq> used_of s"
    "file_sectors (contents_of s) a \<inter> own = {}" "b \<in> F \<Longrightarrow> a \<noteq> b \<Longrightarrow> file_sectors (contents_of s) a \<inter> file_sectors (contents_of s) b = {}"
  using assms unfolding volume_def by blast+

lemma self_sector: "a \<in> file_sectors v a"
  by (simp add: file_sectors_def)

text \<open>The state changes only in the sectors of the map's file and in those that file \<open>a\<close> has afterwards.\<close>

lemma volume_step:
  assumes vol: "volume own F s" and cap: "cap_of s' = cap_of s" and us: "used_of s \<subseteq> used_of s'"
    and a: "file_ok (cap_of s) (contents_of s') a len m" "file_sectors (contents_of s') a \<subseteq> used_of s'" "file_sectors (contents_of s') a \<inter> own = {}"
    and sep: "\<And>b. b \<in> F \<Longrightarrow> b \<noteq> a \<Longrightarrow> file_sectors (contents_of s') a \<inter> file_sectors (contents_of s) b = {}"
    and same: "\<And>t. t \<notin> file_sectors (contents_of s') a \<union> own \<Longrightarrow> contents_of s' t = contents_of s t"
  shows "volume own (insert a F) s'" "files (insert a F) s' = (files F s)(a \<mapsto> file_bytes (contents_of s') a)"
    "b \<in> F \<Longrightarrow> b \<noteq> a \<Longrightarrow> file_ok (cap_of s) (contents_of s) b l k \<Longrightarrow> file_ok (cap_of s') (contents_of s') b l k"
proof -
  have other: "file_ok (cap_of s') (contents_of s') b l k \<and> file_bytes (contents_of s') b = file_bytes (contents_of s) b
      \<and> file_sectors (contents_of s') b = file_sectors (contents_of s) b"
    if b: "b \<in> F" "b \<noteq> a" and f: "file_ok (cap_of s) (contents_of s) b l k" for b l k
  proof -
    have "contents_of s' t = contents_of s t" if "t \<in> file_sectors (contents_of s) b" for t
      using that sep [OF b] volumeD(3) [OF vol b(1)] by (intro same) blast
    from file_cong [OF f this] show ?thesis unfolding cap by blast
  qed
  have fs: "file_sectors (contents_of s') b = file_sectors (contents_of s) b" "file_bytes (contents_of s') b = file_bytes (contents_of s) b"
    if "b \<in> F" "b \<noteq> a" for b using other [OF that] volumeD(1) [OF vol that(1)] by blast+
  show "volume own (insert a F) s'"
    unfolding volume_def
  proof (intro conjI ballI impI)
    fix b assume b: "b \<in> insert a F"
    show "\<exists>l k. file_ok (cap_of s') (contents_of s') b l k" 
    proof (cases "b = a")
      case False
      then obtain l k where "file_ok (cap_of s) (contents_of s) b l k" using b volumeD(1) [OF vol] by blast
      then show ?thesis using other b False by blast
    qed (use a(1) cap in auto)
    show "file_sectors (contents_of s') b \<subseteq> used_of s'" using a(2) b fs(1) [of b] volumeD(2) [OF vol, of b] us by (cases "b = a") auto
    show "file_sectors (contents_of s') b \<inter> own = {}" using a(3) b fs(1) volumeD(3) [OF vol] by (cases "b = a") auto
    fix c assume c: "c \<in> insert a F" "b \<noteq> c"
    show "file_sectors (contents_of s') b \<inter> file_sectors (contents_of s') c = {}"
      using b c fs(1) sep volumeD(4) [OF vol] by (cases "b = a"; cases "c = a") auto
  qed
  show "files (insert a F) s' = (files F s)(a \<mapsto> file_bytes (contents_of s') a)"
    using fs(2) by (auto simp: files_def fun_eq_iff)
  show "b \<in> F \<Longrightarrow> b \<noteq> a \<Longrightarrow> file_ok (cap_of s) (contents_of s) b l k \<Longrightarrow> file_ok (cap_of s') (contents_of s') b l k"
    using other by blast
qed

lemma volume_same:
  assumes "volume own F s" "cap_of s' = cap_of s" "free_map s' = free_map s" "contents_of s' = contents_of s"
  shows "volume own F s'" "files F s' = files F s"
  using assms(1) by (simp_all only: volume_def files_def assms(2-4))

text \<open>An open inode of the volume is not the inode of the map.\<close>

lemma not_map_inode:
  assumes "map_inv fip own len m s" "volume own F s" "sec \<in> F" "free_inode s ip sec"
  shows "ip \<noteq> fip"
proof -
  have "FREE_MAP_SECTOR \<in> own" using map_invD(8) [OF assms(1)] self_sector by blast
  then have "sec \<noteq> FREE_MAP_SECTOR" using volumeD(3) [OF assms(2,3)] self_sector by blast
  then show ?thesis using map_invD(5) [OF assms(1)] assms(4) by (auto simp: free_inode_def)
qed

section \<open>Reading and writing\<close>

lemma read_volume:
  assumes i: "map_inv fip own L mm s" and vol: "volume own F s" and ok: "fs_ok n s" and sec: "sec \<in> F" "free_inode s ip sec" and o': "o' < MAX_LENGTH"
  shows "\<exists>s'. inode_read_at d me ip (int z) (int o') s = Some (take z (drop o' (the (files F s sec))), s')
    \<and> files F s' = files F s \<and> volume own F s' \<and> map_inv fip own L mm s' \<and> fs_ok n s' \<and> moved s s'"
proof -
  obtain len m where f: "file_ok (cap_of s) (contents_of s) sec len m" using volumeD(1) [OF vol sec(1)] by blast
  obtain s' where s': "inode_read_at_with (inode_write_at d me) me ip (int z) (int o') s = Some (take z (drop o' (file_bytes (contents_of s) sec)), s')"
      "io s (contents_of s) s'" "fs_ok n s'" using inode_read_ok [OF ok sec(2) f o'] by blast
  note I = io_fields [OF s'(2)]
  have "map_inv fip own L mm s'" by (rule fmap.inv_io [OF i s'(2)]) simp
  then show ?thesis using s' volume_same [OF vol I(2,4,1)] moved_io [OF s'(2)] sec(1) by (auto simp: inode_read_at_def files_def)
qed

lemma write_volume:
  assumes i: "map_inv fip own L mm s" and vol: "volume own F s" and sec: "sec \<in> F" "free_inode s ip sec"
    and f: "file_ok (cap_of s) (contents_of s) sec len m" and k: "k = (o' + z + BLOCK_SECTOR_SIZE - 1) div BLOCK_SECTOR_SIZE" "Suc k < MAX_BLOCKS"
    and ok: "fs_ok ((Suc k - m) * (3 * Suc (nblocks 0 L) + 4) + Suc (nblocks o' z + n)) s"
    and free: "3 * (Suc k - m) \<le> free_of s" and buf: "z \<le> length buf"
  shows "\<exists>s'. inode_write_at (Suc (Suc d)) me ip buf (int z) (int o') s = Some (int z, s')
    \<and> files F s' = (files F s)(sec \<mapsto> splice o' (take z buf) (the (files F s sec)))
    \<and> volume own F s' \<and> map_inv fip own L mm s' \<and> fs_ok n s' \<and> moved s s'
    \<and> file_ok (cap_of s') (contents_of s') sec (max len (o' + z)) (max m (Suc k))"
proof -
  let ?v = "contents_of s"
  note V = volumeD [OF vol sec(1)]
  have "\<exists>s' X. inode_write_at_with (inode_write_at (Suc d) me) me ip buf (int z) (int o') s = Some (int z, s') \<and> map_inv fip own L mm s'
    \<and> fs_ok n s' \<and> wrote_more own sec len (max m (Suc k)) o' (take z buf) X s s'"
  proof (cases "m \<le> k")
    case True
    then show ?thesis using fmap.inode_write_grow [OF i ok sec(2) not_map_inode [OF i vol sec] f V(3,2) k(1) True k(2) free buf]
      by (simp add: max_def)
  next
    case False
    then have "fs_ok (Suc (nblocks o' z + n)) s" using ok by simp
    from inode_write_ok [OF this sec(2) f, of buf "inode_write_at (Suc d) me" me] False k(1) buf obtain s' w where
      s': "inode_write_at_with (inode_write_at (Suc d) me) me ip buf (int z) (int o') s = Some (int z, s')" "io s w s'" "fs_ok n s'"
        "wrote (cap_of s) ?v sec len m o' (take z buf) w" by auto
    note I = io_fields [OF s'(2)] and W = s'(4) [unfolded wrote_def]
    have "map_inv fip own L mm s'" using W V(3) by (intro fmap.inv_io [OF i s'(2)]) auto
    moreover have "wrote_more own sec len (max m (Suc k)) o' (take z buf) {} s s'"
      using W I False moved_io [OF s'(2)] by (simp add: wrote_more_def max_absorb1)
    ultimately show ?thesis using s'(1,3) by blast
  qed
  then obtain s' X where s': "inode_write_at (Suc (Suc d)) me ip buf (int z) (int o') s = Some (int z, s')" "map_inv fip own L mm s'"
      "fs_ok n s'" "wrote_more own sec len (max m (Suc k)) o' (take z buf) X s s'" by auto
  note W = s'(4) [unfolded wrote_more_def]
  have cap: "cap_of s' = cap_of s" using W moved_fields(1) by blast
  have sep: "file_sectors (contents_of s') sec \<inter> file_sectors ?v b = {}" if "b \<in> F" "b \<noteq> sec" for b
    using W V(4) [OF that(1)] volumeD(2) [OF vol that(1)] that(2) by blast
  have pre: "used_of s \<subseteq> used_of s'" "file_ok (cap_of s) (contents_of s') sec (max len (o' + z)) (max m (Suc k))"
    "file_sectors (contents_of s') sec \<subseteq> used_of s'" "file_sectors (contents_of s') sec \<inter> own = {}"
    using W V(2,3) buf by (auto simp: min_absorb1)
  have same: "contents_of s' t = contents_of s t" if "t \<notin> file_sectors (contents_of s') sec \<union> own" for t
    using W that by blast
  note vol' = volume_step [OF vol cap pre sep same]
  have "files F s' = (files F s)(sec \<mapsto> splice o' (take z buf) (the (files F s sec)))" "volume own F s'"
    using vol' W sec(1) by (simp_all add: insert_absorb) (simp add: files_def)
  then show ?thesis using s'(1-3) W pre(2) cap by simp
qed

section \<open>Allocating and creating\<close>

lemma volume_off:
  assumes vol: "volume own F s" and cap: "cap_of s' = cap_of s" and us: "used_of s \<subseteq> used_of s'"
    and same: "\<And>t. t \<notin> own \<Longrightarrow> contents_of s' t = contents_of s t"
  shows "volume own F s'" "files F s' = files F s" "a \<in> F \<Longrightarrow> file_sectors (contents_of s') a = file_sectors (contents_of s) a"
    "a \<in> F \<Longrightarrow> file_ok (cap_of s) (contents_of s) a l k \<Longrightarrow> file_ok (cap_of s') (contents_of s') a l k"
proof -
  have F: "file_ok (cap_of s') (contents_of s') b l k \<and> file_bytes (contents_of s') b = file_bytes (contents_of s) b
      \<and> file_sectors (contents_of s') b = file_sectors (contents_of s) b"
    if b: "b \<in> F" and f: "file_ok (cap_of s) (contents_of s) b l k" for b l k
  proof -
    have "contents_of s' t = contents_of s t" if "t \<in> file_sectors (contents_of s) b" for t
      using that volumeD(3) [OF vol b] by (intro same) blast
    from file_cong [OF f this] show ?thesis unfolding cap by blast
  qed
  have fs: "\<exists>l k. file_ok (cap_of s') (contents_of s') b l k" "file_sectors (contents_of s') b = file_sectors (contents_of s) b"
      "file_bytes (contents_of s') b = file_bytes (contents_of s) b" if "b \<in> F" for b
    using F [OF that] volumeD(1) [OF vol that] by blast+
  show "volume own F s'" unfolding volume_def
  proof (intro conjI ballI impI)
    fix b assume b: "b \<in> F"
    show "\<exists>l k. file_ok (cap_of s') (contents_of s') b l k" by (rule fs(1) [OF b])
    show "file_sectors (contents_of s') b \<subseteq> used_of s'" "file_sectors (contents_of s') b \<inter> own = {}"
      using volumeD(2,3) [OF vol b] fs(2) [OF b] us by auto
    fix c assume c: "c \<in> F" "b \<noteq> c"
    then show "file_sectors (contents_of s') b \<inter> file_sectors (contents_of s') c = {}"
      using volumeD(4) [OF vol b c] fs(2) [OF b] fs(2) [OF c(1)] by simp
  qed
  show "files F s' = files F s" using fs(3) by (auto simp: files_def fun_eq_iff)
  show "a \<in> F \<Longrightarrow> file_sectors (contents_of s') a = file_sectors (contents_of s) a" by (rule fs(2))
  show "a \<in> F \<Longrightarrow> file_ok (cap_of s) (contents_of s) a l k \<Longrightarrow> file_ok (cap_of s') (contents_of s') a l k" using F by blast
qed

lemma allocate_volume:
  assumes i: "map_inv fip own L mm s" and vol: "volume own F s" and ok: "fs_ok (Suc (nblocks 0 L) + n) s" and free: "0 < free_of s"
  shows "\<exists>p s'. free_map_allocate (Suc d) me s = Some (Some p, s') \<and> grants own p s s' \<and> map_inv fip own L mm s' \<and> fs_ok n s'
    \<and> volume own F s' \<and> files F s' = files F s \<and> (\<forall>b\<in>F. p \<notin> file_sectors (contents_of s') b) \<and> p \<notin> own
    \<and> (\<forall>b\<in>F. \<forall>l k. file_ok (cap_of s) (contents_of s) b l k \<longrightarrow> file_ok (cap_of s') (contents_of s') b l k)"
proof -
  obtain p s' where s': "free_map_allocate_with (inode_write_at (Suc d) me) s = Some (Some p, s')" "grants own p s s'" "map_inv fip own L mm s'" "fs_ok n s'"
    using fmap.alloc_free [OF i ok free] by blast
  have g: "cap_of s' = cap_of s" "used_of s \<subseteq> used_of s'" "\<And>t. t \<notin> own \<Longrightarrow> contents_of s' t = contents_of s t" "p \<notin> used_of s"
    using s'(2) by (auto simp: grants_def)
  have V: "volume own F s'" "files F s' = files F s" "\<And>b. b \<in> F \<Longrightarrow> file_sectors (contents_of s') b = file_sectors (contents_of s) b"
      "\<forall>b\<in>F. \<forall>l k. file_ok (cap_of s) (contents_of s) b l k \<longrightarrow> file_ok (cap_of s') (contents_of s') b l k"
    using volume_off [OF vol g(1,2)] g(3) by blast+
  have "p \<notin> file_sectors (contents_of s') b" if "b \<in> F" for b using V(3) [OF that] volumeD(2) [OF vol that] g(4) by auto
  moreover have "p \<notin> own" using map_invD(9) [OF i] g(4) by blast
  ultimately show ?thesis using s' V(1,2,4) by (auto simp: free_map_allocate_def)
qed

lemma create_volume:
  assumes i: "map_inv fip own L mm s" and vol: "volume own F s" and K: "K = (len + BLOCK_SECTOR_SIZE - 1) div BLOCK_SECTOR_SIZE" "Suc K < MAX_BLOCKS"
    and ok: "fs_ok (Suc (nblocks 0 L) + (Suc (nblocks 0 L) + (2 + (Suc K * (3 * Suc (nblocks 0 L) + 4) + n)))) s" and free: "2 + 3 * Suc K \<le> free_of s"
  shows "\<exists>p s1 s2. free_map_allocate (Suc d) me s = Some (Some p, s1) \<and> inode_create (Suc d) me p (int len) s1 = Some (True, s2)
    \<and> p \<notin> F \<and> files (insert p F) s2 = (files F s)(p \<mapsto> replicate len 0) \<and> volume own (insert p F) s2 \<and> map_inv fip own L mm s2
    \<and> fs_ok n s2 \<and> moved s s2 \<and> file_ok (cap_of s2) (contents_of s2) p len (Suc K) \<and> free_of s \<le> free_of s2 + (2 + 3 * Suc K)
    \<and> (\<forall>b\<in>F. \<forall>l k. file_ok (cap_of s) (contents_of s) b l k \<longrightarrow> file_ok (cap_of s2) (contents_of s2) b l k)"
proof -
  have "0 < free_of s" using free by simp
  then obtain p s1 where s1: "free_map_allocate (Suc d) me s = Some (Some p, s1)" "grants own p s s1" "map_inv fip own L mm s1"
      "fs_ok (Suc (nblocks 0 L) + (2 + (Suc K * (3 * Suc (nblocks 0 L) + 4) + n))) s1" "volume own F s1" "files F s1 = files F s"
      "\<forall>b\<in>F. p \<notin> file_sectors (contents_of s1) b" "p \<notin> own"
      "\<forall>b\<in>F. \<forall>l k. file_ok (cap_of s) (contents_of s) b l k \<longrightarrow> file_ok (cap_of s1) (contents_of s1) b l k"
    using allocate_volume [OF i vol ok] by blast
  have g: "p < cap_of s1" "p \<in> used_of s1" "1 + 3 * Suc K \<le> free_of s1" using s1(2) grants_free [OF s1(2)] free by (simp_all add: grants_def)
  obtain s2 X where s2: "inode_create (Suc d) me p (int len) s1 = Some (True, s2)" "map_inv fip own L mm s2" "fs_ok n s2" "created own p len (Suc K) X s1 s2"
    using fmap.inode_create_ok [OF refl s1(3,4) g(1,2) s1(8) K g(3)] by blast
  note C = s2(4) [unfolded created_def]
  have cap: "cap_of s2 = cap_of s1" using C moved_fields(1) by blast
  have pre: "used_of s1 \<subseteq> used_of s2" "file_ok (cap_of s1) (contents_of s2) p len (Suc K)" "file_sectors (contents_of s2) p \<subseteq> used_of s2"
      "file_sectors (contents_of s2) p \<inter> own = {}" using C g(2) s1(8) by auto
  have sep: "file_sectors (contents_of s2) p \<inter> file_sectors (contents_of s1) b = {}" if "b \<in> F" "b \<noteq> p" for b
    using C volumeD(2) [OF s1(5) that(1)] s1(7) that(1) by auto
  have same: "contents_of s2 t = contents_of s1 t" if "t \<notin> file_sectors (contents_of s2) p \<union> own" for t using C that by auto
  note V = volume_step [OF s1(5) cap pre sep same]
  have pF: "p \<notin> F" using s1(7) self_sector by blast
  have "finite X" using bmp.finite_used [OF map_invD(1) [OF s2(2)]] C by simp
  then have "free_of s1 \<le> free_of s2 + card X" "card X \<le> Suc (3 * Suc K)" using free_of_used [of s2 s1 X] C cap by simp_all
  then have "free_of s \<le> free_of s2 + (2 + 3 * Suc K)" using grants_free [OF s1(2)] by linarith
  moreover have "\<forall>b\<in>F. \<forall>l k. file_ok (cap_of s) (contents_of s) b l k \<longrightarrow> file_ok (cap_of s2) (contents_of s2) b l k"
    using s1(9) V(3) pF by blast
  moreover have "moved s s2" using moved_trans [OF moved_grants [OF s1(2)]] C by blast
  ultimately show ?thesis using pF s1(1,6) s2(1-3) V(1,2) C cap by auto
qed

section \<open>Shutting down and starting again\<close>

lemma free_map_init_any:
  assumes ok: "fs_ok n s" and idle: "idle_fs s" and cap: "64 \<le> cap_of s" and junk: "length junk = elem_cnt (cap_of s)"
  shows "\<exists>b. free_map_init junk s = Some (s\<lparr>free_map := b\<rparr>) \<and> bm_wf b \<and> bit_cnt b = cap_of s"
  using free_map_init_ok [OF assms] by (auto simp: bare_map_def)

lemma filesys_done_ok:
  assumes ok: "fs_ok n s" and op: "map_open fip s"
  shows "\<exists>s'. filesys_done d me s = Some s' \<and> block_size (dev (fs_device s')) = cap_of s \<and> (\<forall>t. sectors (dev (fs_device s')) ! t = contents_of s t)"
proof -
  have c: "cinv (fs_device s)" "unlocked (fs_device s)" using ok by (simp_all add: fs_ok_def store_inv_def)
  obtain c' where c': "fflush_all me (fs_device s) = Some c'" "keeps (fs_device s) c'" "\<forall>t. sectors (dev c') ! t = contents_of s t"
    using fflush_all_ok [OF c] by blast
  obtain i where i: "inodes s fip = Some i" "i_open_cnt i = 1" "\<not> i_removed i" "free_map_file s = Some (map_handle fip)"
    using op by (auto simp: map_open_def)
  let ?s = "s\<lparr>fs_device := c', inodes := (inodes s)(fip := None), open_inodes := remove1 fip (open_inodes s)\<rparr>"
  have "filesys_done d me s = Some ?s"
    using c'(1) i by (simp add: filesys_done_def free_map_close_def file_close_def file_allow_write_def map_handle_def inode_close_def upd_inode_def s32_def)
  then show ?thesis using c'(2,3) keepsD(4) [OF c'(2)] by (simp add: cached_block_size_def)
qed

lemma mount_volume:
  assumes i: "map_inv fip own L mm s" and vol: "volume own F s" and ok: "fs_ok n s"
    and b': "block_size b' = cap_of s" "\<And>t. sectors b' ! t = contents_of s t"
    and cap: "64 \<le> cap_of s" "32 dvd cap_of s" and idle: "idle_fs t" and junk: "length junk_bits = elem_cnt (cap_of s)"
  shows "\<exists>t'. filesys_init d me junk_queue junk_bits b' False t = Some t'
    \<and> files F t' = files F s \<and> free_map t' = free_map s \<and> volume own F t' \<and> map_inv (next_inode t) own L mm t' \<and> fs_ok 65534 t'"
proof -
  let ?b = b' and ?t0 = "t\<lparr>fs_device := cached_block_init junk_queue b' 64\<rparr>"
  have sz: "cap_of s \<le> SECTOR_NUM" by (rule cap_le [OF ok])
  have len: "\<forall>q<block_size ?b. length (sectors ?b ! q) = BLOCK_SECTOR_SIZE" using b' contents_length [OF ok] by simp
  then have inv0: "store_inv 65534 (fs_device ?t0)" "contents_of ?t0 = contents_of s"
    using cached_block_init_inv [of 64 ?b 65534 junk_queue] sz b' by (simp_all add: fun_eq_iff)
  have t0: "fs_ok 65534 ?t0" "idle_fs ?t0" "cap_of ?t0 = cap_of s"
    using inv0 idle b'(1) by (simp_all add: fs_ok_def idle_fs_def cached_block_size_def cached_block_init_def)
  obtain b where b: "free_map_init junk_bits ?t0 = Some (?t0\<lparr>free_map := b\<rparr>)" "bm_wf b" "bit_cnt b = cap_of s"
    using free_map_init_any [OF t0(1,2), of junk_bits] t0(3) cap(1) junk by auto
  let ?t1 = "?t0\<lparr>free_map := b\<rparr>"
  have t1: "fs_ok 65534 ?t1" "open_inodes ?t1 = []" "cap_of ?t1 = cap_of s" "contents_of ?t1 = contents_of s"
    using t0 inv0 by (simp_all add: fs_ok_def idle_fs_def)
  note D = map_invD [OF i]
  have F: "file_ok (cap_of ?t1) (contents_of ?t1) FREE_MAP_SECTOR (byte_cnt (cap_of ?t1)) mm" using D(2,3,6) t1(3,4) by simp
  have B: "file_bytes (contents_of ?t1) FREE_MAP_SECTOR = bm_bytes (free_map s)" using i t1(4) by (simp add: map_inv_def)
  let ?t2 = "(opened FREE_MAP_SECTOR ?t1)\<lparr>free_map_file := Some (map_handle (next_inode ?t1))\<rparr>"
  obtain t3 where t3: "free_map_open d me ?t1 = Some (t3\<lparr>free_map := free_map s\<rparr>)" "io ?t2 (contents_of ?t1) t3" "fs_ok 65534 t3"
    using free_map_open_ok [OF t1(1,2) D(1), of mm d me] D(2) t1(3) cap b(2,3) F B by auto
  let ?t' = "t3\<lparr>free_map := free_map s\<rparr>"
  note I = io_fields [OF t3(2)]
  have same: "contents_of ?t' = contents_of s" "cap_of ?t' = cap_of s" using I t1(3,4) by simp_all
  have ino: "inodes ?t' (next_inode t) = Some \<lparr>i_rwlock = rw_lock_init, i_sector = FREE_MAP_SECTOR, i_open_cnt = 1, i_removed = False, i_deny_write_cnt = 0\<rparr>"
    "free_map_file ?t' = Some (map_handle (next_inode t))" using I by simp_all
  have "filesys_init d me junk_queue junk_bits ?b False t = Some ?t'" using b(1) t3(1) by (simp add: filesys_init_def)
  moreover have "map_inv (next_inode t) own L mm ?t'"
    using map_inv_reopened [OF i same, of "map_handle (next_inode t)" "next_inode t"] ino by (simp add: map_handle_def free_inode_def)
  moreover have "fs_ok 65534 ?t'" using t3(3) by (simp add: fs_ok_def)
  ultimately show ?thesis using volume_same [OF vol same(2) _ same(1)] by auto
qed

end
