(* ===== verification/Directory.thy ===== *)
theory Directory
  imports Volume
begin

text \<open>
  Directories as finite maps: the bytes of a directory file, seen as a list of entries, give a map from
  names to inode sectors; \<open>dir_lookup\<close> reads it, \<open>dir_add\<close> extends it, and \<open>filesys_create\<close> adds a new
  file to it.
\<close>

section \<open>The bytes of a directory\<close>

definition slots :: "byte list \<Rightarrow> nat" where
  "slots bs = (length bs - 4) div DIR_ENTRY_SIZE"

definition slot_at :: "nat \<Rightarrow> byte list \<Rightarrow> byte list" where
  "slot_at j bs = take DIR_ENTRY_SIZE (drop (4 + DIR_ENTRY_SIZE * j) bs)"

definition dir_entries :: "byte list \<Rightarrow> byte list list" where
  "dir_entries bs = map (\<lambda>j. slot_at j bs) [0..<slots bs]"

definition dir_alist :: "byte list list \<Rightarrow> (byte list \<times> nat \<times> bool) list" where
  "dir_alist es = map (\<lambda>e. (e_name e, e_sector e, e_is_dir e)) (filter e_in_use es)"

text \<open>The directory with contents \<open>bs\<close> as a map from names to the sector of an inode and whether it is a
  directory.\<close>

definition dir_map :: "byte list \<Rightarrow> byte list \<rightharpoonup> nat \<times> bool" where
  "dir_map bs = map_of (dir_alist (dir_entries bs))"

text \<open>Whole entries behind the four bytes for the parent, which are missing in a directory never written to.\<close>

definition dir_bytes_ok :: "byte list \<Rightarrow> bool" where
  "dir_bytes_ok bs \<longleftrightarrow> DIR_ENTRY_SIZE dvd length bs - 4"

lemma DIR_ENTRY_SIZE_pos [simp]: "0 < DIR_ENTRY_SIZE"
  by (simp add: DIR_ENTRY_SIZE_def)

lemma length_dir_entries [simp]: "length (dir_entries bs) = slots bs"
  by (simp add: dir_entries_def)

lemma nth_dir_entries: "j < slots bs \<Longrightarrow> dir_entries bs ! j = slot_at j bs"
  by (simp add: dir_entries_def)

lemma slots_length: "dir_bytes_ok bs \<Longrightarrow> length bs - 4 = DIR_ENTRY_SIZE * slots bs"
  by (simp add: dir_bytes_ok_def slots_def)

lemma slot_full: "dir_bytes_ok bs \<Longrightarrow> j < slots bs \<Longrightarrow> length (slot_at j bs) = DIR_ENTRY_SIZE \<and> 4 + DIR_ENTRY_SIZE * j < length bs"
  using slots_length [of bs] by (auto simp: slot_at_def DIR_ENTRY_SIZE_def)

lemma slot_end: "dir_bytes_ok bs \<Longrightarrow> length bs \<le> 4 + DIR_ENTRY_SIZE * slots bs"
  using slots_length [of bs] by simp

lemma slot_short: "dir_bytes_ok bs \<Longrightarrow> slots bs \<le> j \<Longrightarrow> slot_at j bs = []"
  using slot_end [of bs] by (simp add: slot_at_def) (meson add_left_mono le_trans mult_le_mono2)

section \<open>Searching\<close>

fun entry_at :: "byte list \<Rightarrow> byte list list \<Rightarrow> nat \<Rightarrow> (byte list \<times> nat) option" where
  "entry_at name [] ofs = None"
| "entry_at name (e # es) ofs = (if e_in_use e \<and> name = e_name e then Some (e, ofs) else entry_at name es (ofs + DIR_ENTRY_SIZE))"

lemma entry_at_map: "map_option (\<lambda>(e, ofs). (e_sector e, e_is_dir e)) (entry_at name es ofs) = map_of (dir_alist es) name"
  by (induction es arbitrary: ofs) (auto simp: dir_alist_def)

lemma entry_at_Some:
  "entry_at name es ofs = Some (e, q) \<Longrightarrow> \<exists>j<length es. q = ofs + DIR_ENTRY_SIZE * j \<and> es ! j = e \<and> e_in_use e \<and> e_name e = name"
proof (induction es arbitrary: ofs)
  case (Cons x es)
  then show ?case
  proof (cases "e_in_use x \<and> name = e_name x")
    case False
    then obtain j where "j < length es" "q = ofs + DIR_ENTRY_SIZE + DIR_ENTRY_SIZE * j" "es ! j = e \<and> e_in_use e \<and> e_name e = name"
      using Cons.IH [of "ofs + DIR_ENTRY_SIZE"] Cons.prems False by (auto split: if_splits)
    then show ?thesis by (intro exI [of _ "Suc j"]) simp
  qed auto
qed simp

text \<open>Reading the length and a part of a file leaves the volume as it is.\<close>

lemma inode_length_ok:
  assumes "fs_ok n s" "free_inode s ip sec" "file_ok (cap_of s) (contents_of s) sec len m"
  shows "\<exists>s'. inode_length me ip s = Some (int len, s') \<and> io s (contents_of s) s' \<and> fs_ok n s'"
  using bread_ok [OF assms(1) file_okD(2) [OF assms(3)], of me] assms(2) file_okD(4) [OF assms(3)]
  by (auto simp: inode_length_def free_inode_def)

lemma io_free_inode: "io s v s' \<Longrightarrow> free_inode s' ip sec = free_inode s ip sec"
  by (simp add: free_inode_def io_simps)

lemma file_ok_room: "file_ok cap v sec len m \<Longrightarrow> len + BLOCK_SECTOR_SIZE \<le> MAX_LENGTH"
  using file_okD(5,6) [of cap v sec len m] by (simp add: MAX_LENGTH_def BLOCK_SECTOR_SIZE_def)

lemma small_offsets:
  assumes "4 + DIR_ENTRY_SIZE * j \<le> MAX_LENGTH"
  shows "s32 (int (4 + DIR_ENTRY_SIZE * j)) = int (4 + DIR_ENTRY_SIZE * j)" "u32 (4 + DIR_ENTRY_SIZE * j + DIR_ENTRY_SIZE) = 4 + DIR_ENTRY_SIZE * Suc j"
    "s32 (int (4 + DIR_ENTRY_SIZE * j) + int DIR_ENTRY_SIZE) = int (4 + DIR_ENTRY_SIZE * Suc j)"
  using assms by (simp_all add: s32_def u32_def MAX_LENGTH_def MAX_BLOCKS_def BLOCK_SECTOR_SIZE_def DIR_ENTRY_SIZE_def)

lemma dir_search_ok:
  assumes "fs_ok n s" "free_inode s ip sec" "file_ok (cap_of s) (contents_of s) sec len m"
    and "file_bytes (contents_of s) sec = bs" "dir_bytes_ok bs" "j \<le> slots bs"
  shows "\<exists>s'. dir_search d me ip name (4 + DIR_ENTRY_SIZE * j) s = Some (entry_at name (drop j (dir_entries bs)) (4 + DIR_ENTRY_SIZE * j), s')
    \<and> io s (contents_of s) s' \<and> fs_ok n s'"
  using assms
proof (induction "slots bs - j" arbitrary: j s)
  case 0
  then have j: "j = slots bs" by simp
  have len: "len = length bs" using length_file_bytes [OF 0(4)] 0(5) by simp
  have lim: "4 + DIR_ENTRY_SIZE * j \<le> MAX_LENGTH" using slots_length [OF 0(6)] file_ok_room [OF 0(4)] len j by (simp add: BLOCK_SECTOR_SIZE_def)
  obtain s1 where s1: "inode_length me ip s = Some (int len, s1)" "io s (contents_of s) s1" "fs_ok n s1" using inode_length_ok [OF 0(2-4)] by blast
  have "\<not> int (4 + DIR_ENTRY_SIZE * j) < int len" using slot_end [OF 0(6)] len j by (simp del: of_nat_add of_nat_mult)
  then show ?case using s1 j small_offsets(1) [OF lim] by (subst dir_search.simps) (simp del: of_nat_add of_nat_mult)
next
  case (Suc x)
  then have j: "j < slots bs" by simp
  have len: "len = length bs" using length_file_bytes [OF Suc(5)] Suc(6) by simp
  note full = slot_full [OF Suc(7) j]
  have lim: "4 + DIR_ENTRY_SIZE * j < MAX_LENGTH" using full len file_ok_lt [OF Suc(5)] by simp
  note off = small_offsets [OF less_imp_le [OF lim]]
  obtain s1 where s1: "inode_length me ip s = Some (int len, s1)" "io s (contents_of s) s1" "fs_ok n s1" using inode_length_ok [OF Suc(3-5)] by blast
  note I1 = io_fields [OF s1(2)]
  obtain s2 where s2: "inode_read_at d me ip (int DIR_ENTRY_SIZE) (int (4 + DIR_ENTRY_SIZE * j)) s1 = Some (slot_at j bs, s2)"
      "io s1 (contents_of s) s2" "fs_ok n s2"
    using inode_read_ok [OF s1(3) _ _ lim, of ip sec len m "inode_write_at d me" me DIR_ENTRY_SIZE] Suc(4-6) io_free_inode [OF s1(2)] I1
    by (auto simp: inode_read_at_def slot_at_def)
  note I2 = io_fields [OF s2(2)]
  have i2: "io s (contents_of s) s2" using io_trans [OF s1(2) s2(2)] .
  have "\<exists>s'. dir_search d me ip name (4 + DIR_ENTRY_SIZE * Suc j) s2 = Some (entry_at name (drop (Suc j) (dir_entries bs)) (4 + DIR_ENTRY_SIZE * Suc j), s')
      \<and> io s2 (contents_of s2) s' \<and> fs_ok n s'"
    using Suc(2) j Suc(4-7) io_free_inode [OF i2] I1 I2 by (intro Suc(1) s2(3)) auto
  then obtain s3 where s3: "dir_search d me ip name (4 + DIR_ENTRY_SIZE * Suc j) s2 = Some (entry_at name (drop (Suc j) (dir_entries bs)) (4 + DIR_ENTRY_SIZE * Suc j), s3)"
      "io s2 (contents_of s2) s3" "fs_ok n s3" by blast
  have i3: "io s (contents_of s) s3" using io_trans [OF i2] s3(2) I2(1) by simp
  have d: "drop j (dir_entries bs) = slot_at j bs # drop (Suc j) (dir_entries bs)"
    using j nth_dir_entries [OF j] by (metis Cons_nth_drop_Suc length_dir_entries)
  have lt: "s32 (int (4 + DIR_ENTRY_SIZE * j)) < int len" using off(1) full len by linarith
  show ?case
  proof (cases "e_in_use (slot_at j bs) \<and> name = e_name (slot_at j bs)")
    case True
    then show ?thesis using s1(1) s2 full lt i2 unfolding d
      by (subst dir_search.simps) (simp add: off(1) del: of_nat_add of_nat_mult)
  next
    case False
    have "dir_search d me ip name (4 + DIR_ENTRY_SIZE * j) s = dir_search d me ip name (4 + DIR_ENTRY_SIZE * Suc j) s2"
      using False s1(1) s2(1) full lt by (subst dir_search.simps) (auto simp: off(1) off(2) simp del: of_nat_add of_nat_mult)
    moreover have "entry_at name (drop j (dir_entries bs)) (4 + DIR_ENTRY_SIZE * j)
        = entry_at name (drop (Suc j) (dir_entries bs)) (4 + DIR_ENTRY_SIZE * Suc j)"
      using False unfolding d by (auto simp: algebra_simps)
    ultimately show ?thesis using s3(1,3) i3 by simp
  qed
qed

section \<open>Locks and open inodes\<close>

lemma dir_lock_steps:
  fixes me :: nat
  assumes "dir_locks s sec = rw_lock_init" "sec < SECTOR_NUM"
  defines "held \<equiv> \<lambda>w. (dir_locks s)(sec := if w then writing me else reading)"
  shows "dir_lock w me sec s = Some (s\<lparr>dir_locks := held w\<rparr>)"
    and "dir_locks t = held w \<Longrightarrow> dir_unlock w me sec t = Some (t\<lparr>dir_locks := dir_locks s\<rparr>)"
proof -
  show "dir_lock w me sec s = Some (s\<lparr>dir_locks := held w\<rparr>)"
    using assms(1,2) by (simp add: dir_lock_def taken_def w_lock_acquire_def w_attempt_def r_lock_acquire_def r_attempt_def held_def rw_lock_init_def)
  have "(dir_locks s)(sec := rw_lock_init) = dir_locks s" using assms(1) by auto
  then show "dir_locks t = held w \<Longrightarrow> dir_unlock w me sec t = Some (t\<lparr>dir_locks := dir_locks s\<rparr>)"
    using assms(2) by (simp add: dir_unlock_def released_def r_lock_release_def w_lock_release_def held_def rw_lock_init_def)
qed

text \<open>The list of open inodes holds inodes.\<close>

definition opens_ok :: "fsys \<Rightarrow> bool" where
  "opens_ok s \<longleftrightarrow> (\<forall>p\<in>set (open_inodes s). inodes s p \<noteq> None)"

definition only_opened :: "nat \<Rightarrow> nat \<Rightarrow> fsys \<Rightarrow> fsys \<Rightarrow> bool" where
  "only_opened q p s s' \<longleftrightarrow> (\<exists>i. inodes s' p = Some i \<and> i_sector i = q) \<and> (\<forall>r. r \<noteq> p \<longrightarrow> inodes s' r = inodes s r)
     \<and> s' = s\<lparr>inodes := inodes s', open_inodes := open_inodes s', next_inode := next_inode s'\<rparr>"

lemma only_opened_device: "only_opened q p s s' \<Longrightarrow> fs_device s' = fs_device s \<and> mallocs s' = mallocs s \<and> dir_locks s' = dir_locks s"
  unfolding only_opened_def by (cases s, cases s') simp

lemma inode_open_ok:
  assumes "mallocs s = []" "opens_ok s" "q < SECTOR_NUM"
  shows "\<exists>p s'. inode_open q s = Some (Some p, s') \<and> only_opened q p s s'"
proof -
  have hit: "find_open q s = Some (List.find (\<lambda>p. i_sector (the (inodes s p)) = q) (open_inodes s))"
    unfolding find_open_def by (rule msearch_total) (use assms(2) in \<open>auto simp: opens_ok_def\<close>)
  show ?thesis
  proof (cases "List.find (\<lambda>p. i_sector (the (inodes s p)) = q) (open_inodes s)")
    case None
    then show ?thesis using hit assms by (simp add: inode_open_def kmalloc_def only_opened_def Let_def)
  next
    case (Some p)
    then have "p \<in> set (open_inodes s)" "i_sector (the (inodes s p)) = q" by (auto simp: find_Some_iff)
    then obtain i where "inodes s p = Some i" "i_sector i = q" using assms(2) by (auto simp: opens_ok_def)
    then show ?thesis using hit Some assms by (simp add: inode_open_def inode_reopen_def upd_inode_def only_opened_def)
  qed
qed

lemma inode_open_locks:
  assumes "inode_open q s = Some (ip, t)"
  shows "inode_open q (s\<lparr>dir_locks := x\<rparr>) = Some (ip, t\<lparr>dir_locks := x\<rparr>)"
proof -
  have f: "find_open q (s\<lparr>dir_locks := x\<rparr>) = find_open q s" by (simp add: find_open_def)
  obtain hit where hit: "q < SECTOR_NUM" "find_open q s = Some hit" using assms by (cases "find_open q s") (auto simp: inode_open_def kassert_def split: if_splits)
  show ?thesis
  proof (cases hit)
    case None
    then show ?thesis using assms hit f by (cases "mallocs s") (auto simp: inode_open_def kmalloc_def Let_def kassert_def split: if_splits)
  next
    case (Some p)
    then show ?thesis using assms hit f by (cases "inodes s p") (auto simp: inode_open_def inode_reopen_def upd_inode_def)
  qed
qed

lemma dir_lookup_ok:
  assumes ok: "fs_ok n s" and r: "free_inode s (dr_inode r) sec" and f: "file_ok (cap_of s) (contents_of s) sec len m"
    and bs: "file_bytes (contents_of s) sec = bs" "dir_bytes_ok bs" and lk: "dir_locks s sec = rw_lock_init" and op: "opens_ok s"
    and rng: "\<And>q b. dir_map bs name = Some (q, b) \<Longrightarrow> q < SECTOR_NUM"
  shows "case dir_map bs name of
      None \<Rightarrow> \<exists>s'. dir_lookup d me r name s = Some (None, s') \<and> io s (contents_of s) s' \<and> fs_ok n s'
    | Some (q, b) \<Rightarrow> \<exists>p s1 s'. dir_lookup d me r name s = Some (Some (p, b), s') \<and> io s (contents_of s) s1
        \<and> inode_open q s1 = Some (Some p, s') \<and> only_opened q p s1 s' \<and> fs_ok n s'"
proof -
  have sec: "sec < SECTOR_NUM" "inode_get_inumber (dr_inode r) s = Some sec"
    using file_okD(2) [OF f] cap_le [OF ok] r by (auto simp: inode_get_inumber_def free_inode_def)
  let ?held = "(dir_locks s)(sec := reading)"
  let ?s1 = "s\<lparr>dir_locks := ?held\<rparr>"
  note lock = dir_lock_steps [OF lk sec(1), where w = False and me = me, simplified]
  have s1: "fs_ok n ?s1" "free_inode ?s1 (dr_inode r) sec" using ok r by (simp_all add: fs_ok_def free_inode_def)
  obtain s2 where s2: "dir_entry_lookup d me r name ?s1 = Some (entry_at name (dir_entries bs) 4, s2)" "io ?s1 (contents_of s) s2" "fs_ok n s2"
    using dir_search_ok [OF s1, of len m bs 0 d me name] f bs by (auto simp: dir_entry_lookup_def)
  note I = io_fields [OF s2(2)]
  have dl: "dir_locks s2 = ?held" using I by simp
  have io: "io s (contents_of s) (s2\<lparr>dir_locks := dir_locks s\<rparr>)"
    using s2(2) unfolding io_def by (cases s, cases s2) simp
  show ?thesis
  proof (cases "entry_at name (dir_entries bs) 4")
    case None
    then have "dir_map bs name = None" using entry_at_map [of name "dir_entries bs" 4] by (simp add: dir_map_def)
    moreover have "dir_lookup d me r name s = Some (None, s2\<lparr>dir_locks := dir_locks s\<rparr>)"
      using None sec lock(1) lock(2) [OF dl] s2(1) by (simp add: dir_lookup_def)
    ultimately show ?thesis using io s2(3) by (simp add: fs_ok_def)
  next
    case (Some x)
    then obtain e ofs where e: "entry_at name (dir_entries bs) 4 = Some (e, ofs)" by (cases x) auto
    then have dm: "dir_map bs name = Some (e_sector e, e_is_dir e)" using entry_at_map [of name "dir_entries bs" 4] by (simp add: dir_map_def)
    have op2: "opens_ok s2" using op I by (simp add: opens_ok_def)
    obtain p s3 where s3: "inode_open (e_sector e) s2 = Some (Some p, s3)" "only_opened (e_sector e) p s2 s3"
      using inode_open_ok [OF _ op2] fs_okD(1) [OF s2(3)] rng [OF dm] by blast
    have dl3: "dir_locks s3 = ?held" "fs_device s3 = fs_device s2" "mallocs s3 = mallocs s2"
      using only_opened_device [OF s3(2)] dl by simp_all
    let ?s4 = "s3\<lparr>dir_locks := dir_locks s\<rparr>" and ?t = "s2\<lparr>dir_locks := dir_locks s\<rparr>"
    have "dir_lookup d me r name s = Some (Some (p, e_is_dir e), ?s4)"
      using e sec lock(1) lock(2) [OF dl3(1)] s2(1) s3(1) by (simp add: dir_lookup_def)
    moreover have "only_opened (e_sector e) p ?t ?s4" using s3(2) unfolding only_opened_def by (cases s2, cases s3) simp
    moreover have "fs_ok n ?s4" using s2(3) dl3 by (simp add: fs_ok_def)
    ultimately show ?thesis using io dm inode_open_locks [OF s3(1)] by auto
  qed
qed

section \<open>Adding an entry\<close>

lemma new_entry:
  fixes b :: bool
  assumes "length e = DIR_ENTRY_SIZE" "length name \<le> NAME_MAX" "0 \<notin> set name" "q < 2 ^ 32"
  defines "e' \<equiv> dir_new_entry name q b e"
  shows "length e' = DIR_ENTRY_SIZE" "e_in_use e'" "e_is_dir e' = b" "e_name e' = name" "e_sector e' = q"
proof -
  define x where "x = set_is_dir b (set_in_use True e)"
  define y where "y = set_name name x"
  have x: "length x = 24" "x ! 19 = 1" "x ! 20 = (if b then 1 else 0)"
    using assms(1) by (simp_all add: x_def set_is_dir_def set_in_use_def DIR_ENTRY_SIZE_def)
  have n: "length name \<le> 14" using assms(2) by (simp add: NAME_MAX_def)
  have y: "length y = 24" "y ! 19 = x ! 19" "y ! 20 = x ! 20" "drop 4 y = name @ 0 # drop (5 + length name) x"
    using x(1) n by (simp_all add: y_def set_name_def Let_def patch_def NAME_MAX_def nth_append)
  have e': "e' = put32 0 q y" by (simp add: e'_def dir_new_entry_def set_sector_def y_def x_def)
  have p: "put32 0 q y = le32 q @ drop 4 y" by (simp add: put32_def patch_def le32_def)
  show "length e' = DIR_ENTRY_SIZE" using y(1) by (simp add: e' p DIR_ENTRY_SIZE_def)
  have "e' ! 19 = y ! 19" "e' ! 20 = y ! 20" using y(1) by (simp_all add: e' p nth_append)
  then show "e_in_use e'" "e_is_dir e' = b" using x y by (simp_all add: e_in_use_def e_is_dir_def)
  have "takeWhile (\<lambda>c. c \<noteq> 0) (name @ 0 # z) = name" for z using assms(3) by (subst takeWhile_append2) auto
  then show "e_name e' = name" using y(4) by (simp add: e_name_def e' p)
  show "e_sector e' = q" using y(1) assms(4) by (simp add: e_sector_def e' get32_put32)
qed

lemma splice_entries:
  assumes bs: "dir_bytes_ok bs" and j: "j \<le> slots bs" and e: "length e = DIR_ENTRY_SIZE"
  defines "bs' \<equiv> splice (4 + DIR_ENTRY_SIZE * j) e bs"
  shows "dir_bytes_ok bs'" "dir_entries bs' = (if j < slots bs then (dir_entries bs)[j := e] else dir_entries bs @ [e])"
proof -
  have L: "length bs' - 4 = DIR_ENTRY_SIZE * max (slots bs) (Suc j)"
    using slots_length [OF bs] j e by (auto simp: bs'_def max_def DIR_ENTRY_SIZE_def)
  then show ok: "dir_bytes_ok bs'" by (simp add: dir_bytes_ok_def)
  have sl: "slots bs' = max (slots bs) (Suc j)" using L by (simp add: slots_def)
  have old: "slot_at i bs' = slot_at i bs" if "i < slots bs" "i \<noteq> j" for i
  proof (rule nth_equalityI)
    have full: "length (slot_at i bs) = DIR_ENTRY_SIZE" "length (slot_at i bs') = DIR_ENTRY_SIZE" "4 + DIR_ENTRY_SIZE * i + DIR_ENTRY_SIZE \<le> length bs"
      using slot_full [OF bs that(1)] slot_full [OF ok, of i] sl that(1) slots_length [OF bs] by (auto simp: slot_at_def)
    then show "length (slot_at i bs') = length (slot_at i bs)" by simp
    fix q assume "q < length (slot_at i bs')"
    then have q: "q < DIR_ENTRY_SIZE" using full by simp
    have "i < j \<or> j < i" using that(2) by auto
    then have "\<not> (4 + DIR_ENTRY_SIZE * j \<le> 4 + DIR_ENTRY_SIZE * i + q \<and> 4 + DIR_ENTRY_SIZE * i + q < 4 + DIR_ENTRY_SIZE * j + length e)"
      using q e by (auto simp: DIR_ENTRY_SIZE_def)
    then show "slot_at i bs' ! q = slot_at i bs ! q"
      using q full by (auto simp: slot_at_def bs'_def nth_splice)
  qed
  have new: "slot_at j bs' = e"
    using read_splice [of e "4 + DIR_ENTRY_SIZE * j" bs] e by (simp add: slot_at_def bs'_def)
  show "dir_entries bs' = (if j < slots bs then (dir_entries bs)[j := e] else dir_entries bs @ [e])"
  proof (rule nth_equalityI)
    show "length (dir_entries bs') = length (if j < slots bs then (dir_entries bs)[j := e] else dir_entries bs @ [e])" using sl j by auto
    fix i assume "i < length (dir_entries bs')"
    then show "dir_entries bs' ! i = (if j < slots bs then (dir_entries bs)[j := e] else dir_entries bs @ [e]) ! i"
      using sl j old new by (cases "i = j") (auto simp: nth_dir_entries nth_append nth_list_update)
  qed
qed

lemma dir_alist_append [simp]: "dir_alist (xs @ ys) = dir_alist xs @ dir_alist ys"
  by (simp add: dir_alist_def)

lemma map_of_middle: "k \<notin> fst ` set xs \<Longrightarrow> map_of (xs @ (k, v) # ys) = (map_of (xs @ ys))(k \<mapsto> v)"
  by (induction xs) auto

lemma alist_new:
  assumes e: "e_in_use e" "e_name e \<notin> dom (map_of (dir_alist es))" and j: "j \<le> length es" "j < length es \<Longrightarrow> \<not> e_in_use (es ! j)"
  shows "map_of (dir_alist (if j < length es then es[j := e] else es @ [e]))
    = (map_of (dir_alist es))(e_name e \<mapsto> (e_sector e, e_is_dir e))"
proof -
  define ys where "ys = drop (Suc j) es"
  have es: "dir_alist es = dir_alist (take j es) @ dir_alist ys"
  proof (cases "j < length es")
    case True
    then have "dir_alist (take j es @ es ! j # ys) = dir_alist (take j es) @ dir_alist ys" using j(2) by (simp add: dir_alist_def)
    then show ?thesis using True by (simp add: ys_def id_take_nth_drop [symmetric])
  next
    case False
    then show ?thesis by (simp add: ys_def dir_alist_def)
  qed
  have "(if j < length es then es[j := e] else es @ [e]) = take j es @ e # ys" using j(1) by (simp add: ys_def upd_conv_take_nth_drop)
  then have "dir_alist (if j < length es then es[j := e] else es @ [e]) = dir_alist (take j es) @ (e_name e, e_sector e, e_is_dir e) # dir_alist ys"
    using e(1) by (simp add: dir_alist_def)
  moreover have "e_name e \<notin> fst ` set (dir_alist (take j es))" using e(2) es by (auto simp: dom_map_of_conv_image_fst)
  ultimately show ?thesis using map_of_middle es by simp
qed

definition first_free :: "byte list list \<Rightarrow> nat" where
  "first_free es = length (takeWhile e_in_use es)"

lemma first_free: "first_free es \<le> length es" "first_free es < length es \<Longrightarrow> \<not> e_in_use (es ! first_free es)"
  by (simp_all add: first_free_def length_takeWhile_le nth_length_takeWhile)

lemma dir_free_slot_ok:
  assumes "fs_ok n s" "free_inode s ip sec" "file_ok (cap_of s) (contents_of s) sec len m"
    and "file_bytes (contents_of s) sec = bs" "dir_bytes_ok bs" "j \<le> slots bs" "length e = DIR_ENTRY_SIZE"
  shows "\<exists>e' s'. dir_free_slot d me ip e (int (4 + DIR_ENTRY_SIZE * j)) s
      = Some (e', int (4 + DIR_ENTRY_SIZE * (j + first_free (drop j (dir_entries bs)))), s')
    \<and> length e' = DIR_ENTRY_SIZE \<and> io s (contents_of s) s' \<and> fs_ok n s'"
  using assms
proof (induction "slots bs - j" arbitrary: j s e)
  case (0 j s e)
  then have j: "j = slots bs" by simp
  have len: "len = length bs" using length_file_bytes [OF 0(4)] 0(5) by simp
  have lim: "4 + DIR_ENTRY_SIZE * j < MAX_LENGTH" using slots_length [OF 0(6)] file_ok_room [OF 0(4)] len j by (simp add: BLOCK_SECTOR_SIZE_def)
  have "slot_at j bs = []" using slot_short [OF 0(6)] j by simp
  then obtain s1 where s1: "inode_read_at d me ip (int DIR_ENTRY_SIZE) (int (4 + DIR_ENTRY_SIZE * j)) s = Some ([], s1)"
      "io s (contents_of s) s1" "fs_ok n s1"
    using inode_read_ok [OF 0(2-4) lim, of "inode_write_at d me" me DIR_ENTRY_SIZE] 0(5) by (auto simp: inode_read_at_def slot_at_def)
  have ff: "first_free (drop j (dir_entries bs)) = 0" using j by (simp add: first_free_def)
  show ?case unfolding ff using s1 0(8)
    by (subst dir_free_slot.simps) (simp add: patch_def DIR_ENTRY_SIZE_def del: of_nat_add of_nat_mult)
next
  case (Suc x j s e)
  then have j: "j < slots bs" by simp
  have len: "len = length bs" using length_file_bytes [OF Suc(5)] Suc(6) by simp
  note full = slot_full [OF Suc(7) j]
  have lim: "4 + DIR_ENTRY_SIZE * j < MAX_LENGTH" using full len file_ok_lt [OF Suc(5)] by simp
  note off = small_offsets [OF less_imp_le [OF lim]]
  obtain s1 where s1: "inode_read_at d me ip (int DIR_ENTRY_SIZE) (int (4 + DIR_ENTRY_SIZE * j)) s = Some (slot_at j bs, s1)"
      "io s (contents_of s) s1" "fs_ok n s1"
    using inode_read_ok [OF Suc(3-5) lim, of "inode_write_at d me" me DIR_ENTRY_SIZE] Suc(6) by (auto simp: inode_read_at_def slot_at_def)
  note I1 = io_fields [OF s1(2)]
  have p: "patch 0 DIR_ENTRY_SIZE (slot_at j bs) e = slot_at j bs" using full Suc(9) by (simp add: patch_def)
  have d: "drop j (dir_entries bs) = slot_at j bs # drop (Suc j) (dir_entries bs)"
    using j nth_dir_entries [OF j] by (metis Cons_nth_drop_Suc length_dir_entries)
  show ?case
  proof (cases "e_in_use (slot_at j bs)")
    case False
    then have ff: "first_free (drop j (dir_entries bs)) = 0" unfolding d by (simp add: first_free_def)
    show ?thesis unfolding ff using False s1 full p
      by (subst dir_free_slot.simps) (simp del: of_nat_add of_nat_mult)
  next
    case True
    then have ff: "j + first_free (drop j (dir_entries bs)) = Suc j + first_free (drop (Suc j) (dir_entries bs))" unfolding d by (simp add: first_free_def)
    have "\<exists>e' s'. dir_free_slot d me ip (slot_at j bs) (int (4 + DIR_ENTRY_SIZE * Suc j)) s1
        = Some (e', int (4 + DIR_ENTRY_SIZE * (Suc j + first_free (drop (Suc j) (dir_entries bs)))), s')
      \<and> length e' = DIR_ENTRY_SIZE \<and> io s1 (contents_of s1) s' \<and> fs_ok n s'"
      using Suc(2) j Suc(4-7) io_free_inode [OF s1(2)] I1 full by (intro Suc(1) s1(3)) auto
    then obtain e' s' where s': "dir_free_slot d me ip (slot_at j bs) (int (4 + DIR_ENTRY_SIZE * Suc j)) s1
        = Some (e', int (4 + DIR_ENTRY_SIZE * (Suc j + first_free (drop (Suc j) (dir_entries bs)))), s')"
      "length e' = DIR_ENTRY_SIZE" "io s1 (contents_of s1) s'" "fs_ok n s'" by blast
    have "dir_free_slot d me ip e (int (4 + DIR_ENTRY_SIZE * j)) s = dir_free_slot d me ip (slot_at j bs) (int (4 + DIR_ENTRY_SIZE * Suc j)) s1"
      using True s1(1) full p by (subst dir_free_slot.simps) (simp add: off(3) del: of_nat_add of_nat_mult)
    then show ?thesis unfolding ff using s' io_trans [OF s1(2)] I1(1) by simp
  qed
qed

lemma nblocks_entry: "nblocks o' DIR_ENTRY_SIZE \<le> 2"
proof -
  have "o' + 23 \<le> o' div 512 * 512 + 511 + 23" using div_mult_mod_eq [of o' 512] by linarith
  then have "(o' + 23) div 512 \<le> o' div 512 + 1" by (simp add: less_mult_imp_div_less div_le_mono [of "o' + 23" "o' div 512 * 512 + 534" 512, THEN le_trans])
  then show ?thesis by (simp add: nblocks_def DIR_ENTRY_SIZE_def BLOCK_SECTOR_SIZE_def)
qed

lemma volume_dir_locks [simp]:
  "volume own F (s\<lparr>dir_locks := x\<rparr>) = volume own F s" "files F (s\<lparr>dir_locks := x\<rparr>) = files F s"
  "map_inv fip own L mm (s\<lparr>dir_locks := x\<rparr>) = map_inv fip own L mm s" "fs_ok n (s\<lparr>dir_locks := x\<rparr>) = fs_ok n s"
  "free_inode (s\<lparr>dir_locks := x\<rparr>) ip sec = free_inode s ip sec" "free_of (s\<lparr>dir_locks := x\<rparr>) = free_of s"
  by (simp_all add: volume_def files_def map_inv_def map_file_def free_inode_def fs_ok_def free_of_def cong: if_cong)

lemma moved_dir_locks: "moved (s\<lparr>dir_locks := x\<rparr>) s' \<Longrightarrow> moved s (s'\<lparr>dir_locks := dir_locks s\<rparr>)"
  unfolding moved_def by (cases s, cases s') simp

text \<open>A directory \<open>r\<close> of the volume, nobody using it: its inode is in sector \<open>dsec\<close> and its contents are \<open>bs\<close>.\<close>

definition directory :: "dir \<Rightarrow> nat \<Rightarrow> byte list \<Rightarrow> nat set \<Rightarrow> fsys \<Rightarrow> bool" where
  "directory r dsec bs F s \<longleftrightarrow> dsec \<in> F \<and> free_inode s (dr_inode r) dsec \<and> files F s dsec = Some bs \<and> dir_bytes_ok bs
     \<and> dir_locks s dsec = rw_lock_init"

lemma directory_file: "volume own F s \<Longrightarrow> directory r dsec bs F s \<Longrightarrow> \<exists>len m. file_ok (cap_of s) (contents_of s) dsec len m"
  using volumeD(1) [of own F s dsec] by (simp add: directory_def)

text \<open>The search both \<open>dir_lookup\<close> and \<open>dir_add\<close> begin with, after the lock of the directory.\<close>

lemma dir_entry_lookup_ok:
  assumes vol: "volume own F s" and ok: "fs_ok n s" and r: "directory r dsec bs F s"
  shows "\<exists>s'. dir_entry_lookup d me r name (s\<lparr>dir_locks := x\<rparr>) = Some (entry_at name (dir_entries bs) 4, s')
    \<and> io (s\<lparr>dir_locks := x\<rparr>) (contents_of s) s' \<and> fs_ok n s'"
proof -
  obtain len m where f: "file_ok (cap_of s) (contents_of s) dsec len m" using directory_file [OF vol r] by blast
  then show ?thesis
    using dir_search_ok [of n "s\<lparr>dir_locks := x\<rparr>" "dr_inode r" dsec len m bs 0 d me name] ok r
    by (auto simp: dir_entry_lookup_def directory_def files_def)
qed

lemma directory_sector:
  assumes "volume own F s" "fs_ok n s" "directory r dsec bs F s"
  shows "dsec < SECTOR_NUM" "inode_get_inumber (dr_inode r) s = Some dsec"
proof -
  obtain len m where "file_ok (cap_of s) (contents_of s) dsec len m" using directory_file [OF assms(1,3)] by blast
  then show "dsec < SECTOR_NUM" using file_okD(2) cap_le [OF assms(2)] by fastforce
  show "inode_get_inumber (dr_inode r) s = Some dsec" using assms(3) by (auto simp: directory_def inode_get_inumber_def free_inode_def)
qed

lemma dir_add_exists:
  assumes vol: "volume own F s" and ok: "fs_ok n s" and r: "directory r dsec bs F s"
    and name: "name \<noteq> []" "length name \<le> NAME_MAX" "dir_map bs name \<noteq> None"
  shows "\<exists>s'. dir_add d me junk r name q b s = Some (False, s') \<and> io s (contents_of s) s' \<and> fs_ok n s'"
proof -
  note sec = directory_sector [OF vol ok r]
  have lk: "dir_locks s dsec = rw_lock_init" using r by (simp add: directory_def)
  note lock = dir_lock_steps [OF lk sec(1), where w = True and me = me, simplified]
  obtain s1 where s1: "dir_entry_lookup d me r name (s\<lparr>dir_locks := (dir_locks s)(dsec := writing me)\<rparr>) = Some (entry_at name (dir_entries bs) 4, s1)"
      "io (s\<lparr>dir_locks := (dir_locks s)(dsec := writing me)\<rparr>) (contents_of s) s1" "fs_ok n s1"
    using dir_entry_lookup_ok [OF vol ok r] by blast
  obtain x where "entry_at name (dir_entries bs) 4 = Some x" using name(3) entry_at_map [of name "dir_entries bs" 4] by (auto simp: dir_map_def)
  then have "dir_add d me junk r name q b s = Some (False, s1\<lparr>dir_locks := dir_locks s\<rparr>)"
    using name(1,2) sec lock(1) lock(2) [of s1] s1(1) io_fields(8) [OF s1(2)] by (simp add: dir_add_def)
  moreover have "io s (contents_of s) (s1\<lparr>dir_locks := dir_locks s\<rparr>)" using s1(2) unfolding io_def by (cases s, cases s1) simp
  ultimately show ?thesis using s1(3) by simp
qed

lemma dir_add_file_ok:
  assumes i: "map_inv fip own L mm s" and vol: "volume own F s" and r: "directory r dsec bs F s"
    and f: "file_ok (cap_of s) (contents_of s) dsec len m"
    and K: "K = (4 + DIR_ENTRY_SIZE * Suc (slots bs) + BLOCK_SECTOR_SIZE - 1) div BLOCK_SECTOR_SIZE" "Suc K < MAX_BLOCKS"
    and ok: "fs_ok ((Suc K - m) * (3 * Suc (nblocks 0 L) + 4) + Suc (2 + n)) s" and free: "3 * (Suc K - m) \<le> free_of s"
    and name: "name \<noteq> []" "length name \<le> NAME_MAX" "0 \<notin> set name" "dir_map bs name = None"
    and junk: "length junk = DIR_ENTRY_SIZE" and q: "q < 2 ^ 32"
  shows "\<exists>s' bs'. dir_add (Suc (Suc d)) me junk r name q False s = Some (True, s')
    \<and> files F s' = (files F s)(dsec \<mapsto> bs') \<and> dir_bytes_ok bs' \<and> dir_map bs' = (dir_map bs)(name \<mapsto> (q, False))
    \<and> volume own F s' \<and> map_inv fip own L mm s' \<and> fs_ok n s' \<and> moved s s'"
proof -
  let ?N = "(Suc K - m) * (3 * Suc (nblocks 0 L) + 4) + Suc (2 + n)"
  have R: "dsec \<in> F" "free_inode s (dr_inode r) dsec" "files F s dsec = Some bs" "dir_bytes_ok bs" "dir_locks s dsec = rw_lock_init"
    using r by (simp_all add: directory_def)
  note sec = directory_sector [OF vol ok r]
  note lock = dir_lock_steps [OF R(5) sec(1), where w = True and me = me, simplified]
  let ?s1 = "s\<lparr>dir_locks := (dir_locks s)(dsec := writing me)\<rparr>"
  obtain s2 where s2: "dir_entry_lookup (Suc (Suc d)) me r name ?s1 = Some (entry_at name (dir_entries bs) 4, s2)"
      "io ?s1 (contents_of s) s2" "fs_ok ?N s2" using dir_entry_lookup_ok [OF vol ok r] by blast
  have none: "entry_at name (dir_entries bs) 4 = None"
    using name(4) entry_at_map [of name "dir_entries bs" 4] by (simp add: dir_map_def)
  note I2 = io_fields [OF s2(2)]
  let ?j = "first_free (dir_entries bs)"
  have bs: "file_bytes (contents_of s2) dsec = bs" using R(1,3) I2 by (simp add: files_def)
  have f2: "file_ok (cap_of s2) (contents_of s2) dsec len m" "free_inode s2 (dr_inode r) dsec" using f R(2) I2 io_free_inode [OF s2(2)] by simp_all
  obtain e s3 where s3: "dir_free_slot (Suc (Suc d)) me (dr_inode r) junk 4 s2 = Some (e, int (4 + DIR_ENTRY_SIZE * ?j), s3)"
      "length e = DIR_ENTRY_SIZE" "io s2 (contents_of s2) s3" "fs_ok ?N s3"
    using dir_free_slot_ok [OF s2(3) f2(2,1) bs R(4) le0 junk, of "Suc (Suc d)" me] by (auto simp del: of_nat_add of_nat_mult)
  have i3: "io ?s1 (contents_of s) s3" using io_trans [OF s2(2) s3(3)] I2(1) by simp
  note I3 = io_fields [OF i3]
  define e' where "e' = dir_new_entry name q False e"
  note E = new_entry [OF s3(2) name(2,3) q, of False, folded e'_def]
  have j: "?j \<le> slots bs" using first_free(1) [of "dir_entries bs"] by simp
  have inv3: "map_inv fip own L mm s3" by (rule fmap.inv_io [OF _ i3]) (use i in simp_all)
  have vol3: "volume own F s3" "files F s3 = files F s" using volume_same [of own F ?s1 s3] vol I3 by simp_all
  have f3: "file_ok (cap_of s3) (contents_of s3) dsec len m" "free_inode s3 (dr_inode r) dsec" using f R(2) I3 io_free_inode [OF i3] by simp_all
  define k where "k = (4 + DIR_ENTRY_SIZE * ?j + DIR_ENTRY_SIZE + BLOCK_SECTOR_SIZE - 1) div BLOCK_SECTOR_SIZE"
  have kK: "k \<le> K" unfolding k_def K(1) using j by (intro div_le_mono) (simp add: DIR_ENTRY_SIZE_def)
  have ok3: "fs_ok ((Suc k - m) * (3 * Suc (nblocks 0 L) + 4) + Suc (nblocks (4 + DIR_ENTRY_SIZE * ?j) DIR_ENTRY_SIZE + n)) s3"
    by (rule fs_ok_mono [OF s3(4)]) (intro add_mono mult_le_mono Suc_le_mono [THEN iffD2] nblocks_entry; use kK in simp)
  have free3: "3 * (Suc k - m) \<le> free_of s3" using free kK I3 by (simp add: free_of_def)
  have kb: "Suc k < MAX_BLOCKS" using kK K(2) by simp
  obtain s4 where s4: "inode_write_at (Suc (Suc d)) me (dr_inode r) e' (int DIR_ENTRY_SIZE) (int (4 + DIR_ENTRY_SIZE * ?j)) s3 = Some (int DIR_ENTRY_SIZE, s4)"
      "files F s4 = (files F s3)(dsec \<mapsto> splice (4 + DIR_ENTRY_SIZE * ?j) e' bs)" "volume own F s4" "map_inv fip own L mm s4" "fs_ok n s4" "moved s3 s4"
    using write_volume [OF inv3 vol3(1) R(1) f3(2,1) k_def kb ok3 free3, of e' d me] E(1) vol3(2) R(3) by auto
  let ?bs = "splice (4 + DIR_ENTRY_SIZE * ?j) e' bs"
  note S = splice_entries [OF R(4) j E(1)]
  have dm: "dir_map ?bs = (dir_map bs)(name \<mapsto> (q, False))"
    using alist_new [of e' "dir_entries bs" ?j] E first_free [of "dir_entries bs"] name(4) by (simp add: dir_map_def S(2) domIff)
  have mv: "moved ?s1 s4" by (rule moved_trans [OF moved_io [OF i3] s4(6)])
  then have "dir_add (Suc (Suc d)) me junk r name q False s = Some (True, s4\<lparr>dir_locks := dir_locks s\<rparr>)"
    using name(1,2) sec lock(1) lock(2) [of s4] s2(1) none s3(1) s4(1) moved_fields(6) [OF mv]
    by (simp add: dir_add_def e'_def [symmetric] del: of_nat_add of_nat_mult)
  then show ?thesis using s4 S(1) dm vol3(2) moved_dir_locks [OF mv] by auto
qed

section \<open>Creating and opening a file\<close>

lemma directory_moved:
  assumes "directory r dsec bs F s" "moved s s'" "F \<subseteq> G" "files G s' dsec = Some bs'" "dir_bytes_ok bs'"
  shows "directory r dsec bs' G s'"
  using assms moved_fields(2,6) [OF assms(2)] by (auto simp: directory_def free_inode_def)

text \<open>The writes and the sectors a call of \<open>filesys_create\<close> can need: the inode and blocks of the file (\<open>K\<close> and one
  more), and the new blocks of the directory.\<close>

lemma filesys_create_ok:
  assumes i: "map_inv fip own L mm s" and vol: "volume own F s" and r: "directory r dsec bs F s"
    and f: "file_ok (cap_of s) (contents_of s) dsec len m"
    and K: "K = (sz + BLOCK_SECTOR_SIZE - 1) div BLOCK_SECTOR_SIZE" "Suc K < MAX_BLOCKS"
    and D: "D = (4 + DIR_ENTRY_SIZE * Suc (slots bs) + BLOCK_SECTOR_SIZE - 1) div BLOCK_SECTOR_SIZE" "Suc D < MAX_BLOCKS"
    and ok: "fs_ok (Suc (nblocks 0 L) + (Suc (nblocks 0 L) + (2 + (Suc K * (3 * Suc (nblocks 0 L) + 4)
          + ((Suc D - m) * (3 * Suc (nblocks 0 L) + 4) + Suc (2 + n)))))) s"
    and free: "2 + 3 * Suc K + 3 * (Suc D - m) \<le> free_of s"
    and name: "name \<noteq> []" "length name \<le> NAME_MAX" "0 \<notin> set name" "name \<noteq> dot" "name \<noteq> dotdot" "dir_map bs name = None"
    and junk: "length junk = DIR_ENTRY_SIZE"
  shows "\<exists>s' p bs'. filesys_create (Suc (Suc d)) me junk name (Some r) (int sz) False s = Some (True, s') \<and> p \<notin> F
    \<and> files (insert p F) s' = (files F s)(p \<mapsto> replicate sz 0, dsec \<mapsto> bs') \<and> dir_map bs' = (dir_map bs)(name \<mapsto> (p, False))
    \<and> directory r dsec bs' (insert p F) s' \<and> volume own (insert p F) s' \<and> map_inv fip own L mm s' \<and> fs_ok n s' \<and> moved s s'"
proof -
  let ?N = "(Suc D - m) * (3 * Suc (nblocks 0 L) + 4) + Suc (2 + n)"
  have "2 + 3 * Suc K \<le> free_of s" using free by simp
  then obtain p s1 s2 where s2: "free_map_allocate (Suc (Suc d)) me s = Some (Some p, s1)" "inode_create (Suc (Suc d)) me p (int sz) s1 = Some (True, s2)"
      "p \<notin> F" "files (insert p F) s2 = (files F s)(p \<mapsto> replicate sz 0)" "volume own (insert p F) s2" "map_inv fip own L mm s2"
      "fs_ok ?N s2" "moved s s2" "file_ok (cap_of s2) (contents_of s2) p sz (Suc K)" "free_of s \<le> free_of s2 + (2 + 3 * Suc K)"
      "\<forall>b\<in>F. \<forall>l k. file_ok (cap_of s) (contents_of s) b l k \<longrightarrow> file_ok (cap_of s2) (contents_of s2) b l k"
    using create_volume [OF i vol K ok] by blast
  have dF: "dsec \<in> F" "files F s dsec = Some bs" "dir_bytes_ok bs" using r by (simp_all add: directory_def)
  then have "dsec \<noteq> p" using s2(3) by blast
  then have r2: "directory r dsec bs (insert p F) s2" using s2(4) dF by (intro directory_moved [OF r s2(8)]) auto
  have f2: "file_ok (cap_of s2) (contents_of s2) dsec len m" using s2(11) dF(1) f by blast
  have free2: "3 * (Suc D - m) \<le> free_of s2" using free s2(10) by simp
  have "p < SECTOR_NUM" using file_okD(2) [OF s2(9)] cap_le [OF s2(7)] by simp
  then have p: "p < 2 ^ 32" by (simp add: SECTOR_NUM_def BLOCK_SECTOR_SIZE_def)
  obtain s3 bs' where s3: "dir_add (Suc (Suc d)) me junk r name p False s2 = Some (True, s3)" "files (insert p F) s3 = (files (insert p F) s2)(dsec \<mapsto> bs')"
      "dir_bytes_ok bs'" "dir_map bs' = (dir_map bs)(name \<mapsto> (p, False))" "volume own (insert p F) s3" "map_inv fip own L mm s3" "fs_ok n s3" "moved s2 s3"
    using dir_add_file_ok [OF s2(6,5) r2 f2 D s2(7) free2 name(1-3,6) junk p] by blast
  have "filesys_create (Suc (Suc d)) me junk name (Some r) (int sz) False s = Some (True, s3)"
    using name(4,5) s2(1,2) s3(1) by (simp add: filesys_create_def)
  moreover have "directory r dsec bs' (insert p F) s3" using directory_moved [OF r2 s3(8) order_refl _ s3(3)] s3(2) by simp
  ultimately show ?thesis using s2(3,4) s3 moved_trans [OF s2(8) s3(8)] by auto
qed

lemma filesys_open_ok:
  assumes vol: "volume own F s" and ok: "fs_ok n s" and r: "directory r dsec bs F s" and op: "opens_ok s"
    and hit: "dir_map bs name = Some (q, b)" "q < SECTOR_NUM"
  shows "\<exists>f s1 s'. filesys_open d me (Some r) name s = Some (Some f, Some b, s') \<and> f_pos f = 0 \<and> io s (contents_of s) s1 \<and> only_opened q (f_inode f) s1 s' \<and> fs_ok n s'"
proof -
  obtain len m where f: "file_ok (cap_of s) (contents_of s) dsec len m" using directory_file [OF vol r] by blast
  have R: "free_inode s (dr_inode r) dsec" "file_bytes (contents_of s) dsec = bs" "dir_bytes_ok bs" "dir_locks s dsec = rw_lock_init"
    using r by (auto simp: directory_def files_def)
  obtain p s1 s' where s': "dir_lookup d me r name s = Some (Some (p, b), s')" "io s (contents_of s) s1" "only_opened q p s1 s'" "fs_ok n s'"
    using dir_lookup_ok [OF ok R(1) f R(2-4) op, of name d me] hit by auto
  have "filesys_open d me (Some r) name s = Some (Some (map_handle p), Some b, s')"
    using s'(1) fs_okD(1) [OF s'(4)] by (simp add: filesys_open_def file_open_ok)
  then show ?thesis using s'(2-4) by (auto simp: map_handle_def)
qed

end
