(* ===== verification/FsTheorems.thy ===== *)
theory FsTheorems
  imports Directory
begin

text \<open>
  What the file system guarantees, and where it fails: the properties of the volume and its directories,
  the depth of the recursion between writing and allocating, and two faults.
\<close>

section \<open>The recursion through the free map\<close>

text \<open>A search that may not allocate does not write, so the nested write is never made.\<close>

lemma level_down_False: "level_down iw me False lvl i s = level_down iw' me False lvl i s"
  by (simp add: level_down_def)

lemma level_down_old_slot: "level_down iw me False lvl i s = Some (Some (p, x), t) \<Longrightarrow> p = None"
  by (auto simp: level_down_def Option.bind_eq_Some_conv split: if_splits)

lemma lookup_False: "lookup_with iw me meta u False s = lookup_with iw' me meta u False s"
proof -
  have "release_opt iw None = release_opt iw' None" by (simp add: fun_eq_iff release_opt_def)
  then show ?thesis
    unfolding lookup_with_def level_down_False [of iw me _ _ _ iw']
    by (auto simp: Let_def split: prod.splits option.splits intro!: Option.bind_cong dest!: level_down_old_slot)
qed

lemma write_loop_iw: "write_loop iw me meta buf sz ofs n s = write_loop iw' me meta buf sz ofs n s"
proof (induction iw me meta buf sz ofs n s rule: write_loop.induct)
  case (1 iw me meta buf sz ofs n s)
  show ?case
  proof (cases "sz \<le> 0")
    case False
    then show ?thesis
      using 1 by (subst (1 2) write_loop.simps)
        (auto simp: Let_def lookup_False [of iw me meta _ s iw'] split: prod.splits intro!: Option.bind_cong)
  qed simp
qed

text \<open>When the sectors of the write are there, the nested write is not used.\<close>

lemma inode_write_iw:
  assumes ok: "fs_ok n s" and ip: "free_inode s ip sec" and f: "file_ok (cap_of s) (contents_of s) sec len m"
    and room: "(o' + z + BLOCK_SECTOR_SIZE - 1) div BLOCK_SECTOR_SIZE < m"
  shows "inode_write_at_with iw me ip buf (int z) (int o') s = inode_write_at_with iw' me ip buf (int z) (int o') s"
proof -
  let ?v = "contents_of s" and ?r = "d_lvl1 (contents_of s sec)"
  define k where "k = (o' + z + BLOCK_SECTOR_SIZE - 1) div BLOCK_SECTOR_SIZE"
  note room = room [folded k_def]
  obtain i where i: "inodes s ip = Some i" "i_rwlock i = rw_lock_init" "i_sector i = sec" "i_deny_write_cnt i = 0"
    using ip by (auto simp: free_inode_def)
  let ?s1 = "s\<lparr>inodes := (inodes s)(ip \<mapsto> i\<lparr>i_rwlock := reading\<rparr>)\<rparr>"
  have ok1: "fs_ok n ?s1" using ok by simp
  obtain s2 where s2: "bread me sec ?s1 = Some (?v sec, s2)" "io ?s1 ?v s2" "fs_ok n s2"
    using bread_ok [OF ok1, of sec me] file_okD(2) [OF f] by auto
  have c2: "contents_of s2 = ?v" "cap_of s2 = cap_of s" using s2(2) by (simp_all add: io_simps)
  have rng: "in_range s2 ?r" using file_okD(1) [OF f] in_range_tree [of s2] c2 by simp
  have k: "k < MAX_BLOCKS" using room file_okD(6) [OF f] by simp
  have "o' + z \<le> m * BLOCK_SECTOR_SIZE" using room by (simp add: k_def BLOCK_SECTOR_SIZE_def div_less_iff_less_mult)
  then have lt: "o' + z < MAX_LENGTH" using file_ok_lt [OF f] by simp
  obtain p where p: "bmap ?v ?r k = Some p" using file_okD(7) [OF f k] room by auto
  then have pn: "p \<noteq> NOSECTOR" by (auto simp: bmap_def block_node_def slot_def Option.bind_eq_Some_conv split: if_splits)
  obtain s3 where s3: "lookup_with iw me (?v sec) k False s2 = Some (False, p, s3)"
    using lookup_find [OF s2(3) rng k, of iw me] p c2 by auto
  have last: "end_sector (int (o' + z)) = int k" "nat (int k mod 65536) = k" "s32 (int o' + int z) = int (o' + z)"
    using end_sector_nat [OF lt, folded k_def] s32_length [OF lt] k by (simp_all add: MAX_BLOCKS_def)
  show ?thesis
    using i s2(1) s3 lookup_False [of iw me "?v sec" k s2 iw'] pn fs_okD(1) [OF ok] lock_steps(1) [OF i(1,2), of me]
    by (simp add: inode_write_at_with_def Let_def last write_loop_iw [of iw _ _ _ _ _ _ _ iw'] del: of_nat_add of_nat_max write_loop.simps)
qed

lemma allocate_depth:
  assumes i: "map_inv fip own L mm s" and ok: "fs_ok n s"
  shows "free_map_allocate (Suc d) me s = free_map_allocate 1 me s"
proof -
  note D = map_invD [OF i]
  obtain f where f: "free_map_file s = Some f" "f_inode f = fip" using D(4) by blast
  have same: "bitmap_write_with (inode_write_at (Suc d) me) b (Some f) (s\<lparr>free_map := b\<rparr>)
      = bitmap_write_with (inode_write_at 1 me) b (Some f) (s\<lparr>free_map := b\<rparr>)" if "bit_cnt b = bit_cnt (free_map s)" for b
  proof -
    let ?s = "s\<lparr>free_map := b\<rparr>"
    have "fs_ok n ?s" "free_inode ?s fip FREE_MAP_SECTOR" "file_ok (cap_of ?s) (contents_of ?s) FREE_MAP_SECTOR L mm"
      using ok D(5,6) by (simp_all add: fs_ok_def free_inode_def)
    from inode_write_iw [OF this, of 0 L "inode_write_at d me" me "bm_bytes b" "inode_write_at 0 me"] D(3,7) f that
    show ?thesis by (simp add: bitmap_write_with_def)
  qed
  obtain sec b where b: "bitmap_scan_and_flip (free_map s) 0 1 False = Some (sec, b)" "bit_cnt b = bit_cnt (free_map s)"
  proof (cases "used_of s = {..<bit_cnt (free_map s)}")
    case True
    then have "bm_alloc (free_map s) = Some (None, free_map s)" using bm_alloc_None [OF D(1)] by simp
    then show ?thesis using that by (auto simp: bm_alloc_def bm_slot_def split: if_splits)
  next
    case False
    then show ?thesis using that bm_alloc_Some [OF D(1)] by blast
  qed
  show ?thesis using b same [OF b(2)] f(1) by (simp add: free_map_allocate_def free_map_allocate_with_def)
qed

section \<open>A write that leaves its lock behind\<close>

lemma grow_blocked:
  assumes ok: "fs_ok n s" and i: "inodes s ip = Some i" "i_rwlock i = reading" "i_sector i = sec" "i_deny_write_cnt i = 0"
    and f: "file_ok (cap_of s) (contents_of s) sec len m" and k: "k = (o' + z + BLOCK_SECTOR_SIZE - 1) div BLOCK_SECTOR_SIZE" "m \<le> k" "Suc k < MAX_BLOCKS"
  shows "inode_write_at_with iw me ip buf (int z) (int o') s = None"
proof -
  let ?v = "contents_of s" and ?r = "d_lvl1 (contents_of s sec)"
  let ?i = "(inodes s)(ip \<mapsto> i\<lparr>i_rwlock := rw_lock_init\<lparr>level := 2\<rparr>\<rparr>)"
  let ?s1 = "s\<lparr>inodes := ?i\<rparr>"
  have lock: "inode_lock me ip s = Some ?s1"
    using i(1,2) by (simp add: inode_lock_def taken_def r_lock_acquire_def r_attempt_def upd_inode_def rw_lock_init_def)
  have ok1: "fs_ok n ?s1" using ok by simp
  obtain s2 where s2: "bread me sec ?s1 = Some (?v sec, s2)" "io ?s1 ?v s2" "fs_ok n s2"
    using bread_ok [OF ok1, of sec me] file_okD(2) [OF f] by auto
  have c2: "contents_of s2 = ?v" "cap_of s2 = cap_of s" using s2(2) by (simp_all add: io_simps)
  have rng: "in_range s2 ?r" using file_okD(1) [OF f] in_range_tree [of s2] c2 by simp
  have kb: "k < MAX_BLOCKS" using k(3) by simp
  have "bmap ?v ?r k = None" using file_okD(7) [OF f kb] k(2) by auto
  then obtain b s3 where s3: "lookup_with iw me (?v sec) k False s2 = Some (b, NOSECTOR, s3)" "io s2 ?v s3"
    using lookup_find [OF s2(3) rng kb, of iw me] c2 by auto
  have lt: "o' + z < MAX_LENGTH" using k(1,3) by (simp add: MAX_LENGTH_def BLOCK_SECTOR_SIZE_def)
  have last: "end_sector (int (o' + z)) = int k" "nat (int k mod 65536) = k" "s32 (int o' + int z) = int (o' + z)"
    using end_sector_nat [OF lt, folded k(1)] s32_length [OF lt] kb by (simp_all add: MAX_BLOCKS_def)
  have "inodes s3 ip = ?i ip" using io_fields(3) [OF s3(2)] io_fields(3) [OF s2(2)] by simp
  then have "inode_upgrade me ip s3 = None"
    by (simp add: inode_upgrade_def r_lock_upgrade_to_w_def w_attempt_def rw_lock_init_def taken_def)
  then show ?thesis using i lock s2(1) s3(1) fs_okD(1) [OF ok]
    by (simp add: inode_write_at_with_def Let_def last del: of_nat_add)
qed

section \<open>A formatted device for the examples\<close>

definition disk :: block where
  "disk = \<lparr>sectors = replicate 64 zeros, read_cnt = 0, write_cnt = 0\<rparr>"

definition cold :: fsys where
  "cold = \<lparr>fs_device = cached_block_init [] disk 64, free_map = \<lparr>bit_cnt = 0, bits = []\<rparr>, free_map_file = None, inodes = (\<lambda>_. None),
     open_inodes = [], next_inode = 0, dir_locks = (\<lambda>_. rw_lock_init), mallocs = []\<rparr>"

lemma disk_blank: "blank disk" "idle_fs cold" "block_size disk = 64" "elem_cnt 64 = 2" "byte_cnt 64 = 8" "nblocks 0 8 = 1"
  by (simp_all add: blank_def disk_def idle_fs_def cold_def block_size_def SECTOR_NUM_def BLOCK_SECTOR_SIZE_def zeros_def
      elem_cnt_def byte_cnt_def DIV_ROUND_UP_def ELEM_BITS_def nblocks_def u32_def)

text \<open>The device formatted and the root directory opened.\<close>

lemma booted:
  "\<exists>s own mm. map_inv 1 own 8 mm s \<and> volume own {ROOT_DIR_SECTOR} s \<and> fs_ok 60000 s \<and> cap_of s = 64 \<and> 32 \<le> free_of s
    \<and> file_ok (cap_of s) (contents_of s) ROOT_DIR_SECTOR 0 1 \<and> directory \<lparr>dr_inode = 2, dr_pos = 4\<rparr> ROOT_DIR_SECTOR [] {ROOT_DIR_SECTOR} s
    \<and> opens_ok s \<and> map_open 1 s \<and> (\<forall>d. dir_locks s d = rw_lock_init)"
proof -
  obtain s own mm where s: "filesys_init 1 7 [] [0, 0] disk True cold = Some s" "map_inv 1 own 8 mm s" "formatted own mm s" "fs_ok 60000 s"
      "cap_of s = 64" "32 \<le> free_of s" "open_inodes s = [1]" "next_inode s = 2" "dir_locks s = dir_locks cold" "map_open 1 s"
    using filesys_init_ok [OF disk_blank(1,2), of "[0, 0]" 0 7 "[]"] disk_blank(3-5) by (auto simp: cold_def)
  let ?t = "opened ROOT_DIR_SECTOR s" and ?R = "ROOT_DIR_SECTOR"
  note F = s(3) [unfolded formatted_def]
  have f: "file_ok (cap_of ?t) (contents_of ?t) ?R 0 1" using F by simp
  have "file_bytes (contents_of ?t) ?R = []" using length_file_bytes [OF f] by simp
  then have "directory \<lparr>dr_inode = 2, dr_pos = 4\<rparr> ?R [] {?R} ?t"
    using free_inode_opened [of ?R s] s(8,9) by (simp add: directory_def files_def dir_bytes_ok_def cold_def)
  moreover have "volume own {?R} ?t" using F by (auto simp: volume_def)
  moreover have "map_inv 1 own 8 mm ?t" using s(2,8) by (auto simp: map_inv_def map_file_def free_inode_def)
  moreover have "opens_ok ?t" "map_open 1 ?t" using s(7,8,10) by (auto simp: opens_ok_def map_open_def)
  moreover have "32 \<le> free_of ?t" "fs_ok 60000 ?t" "\<forall>d. dir_locks ?t d = rw_lock_init" using s(4,6,9) by (simp_all add: free_of_def fs_ok_opened cold_def)
  ultimately show ?thesis using f s(5) by (intro exI [of _ ?t] exI [of _ own] exI [of _ mm]) simp
qed

text \<open>Writing three bytes at offset 600 of the root directory takes two more blocks.\<close>

lemma grow_numbers: "2 = (600 + 3 + BLOCK_SECTOR_SIZE - 1) div BLOCK_SECTOR_SIZE" "Suc 2 < MAX_BLOCKS"
  by (simp_all add: BLOCK_SECTOR_SIZE_def MAX_BLOCKS_def)

lemma booted_grow:
  "\<exists>s own mm. map_inv 1 own 8 mm s \<and> volume own {ROOT_DIR_SECTOR} s \<and> free_inode s 2 ROOT_DIR_SECTOR
    \<and> file_ok (cap_of s) (contents_of s) ROOT_DIR_SECTOR 0 1
    \<and> fs_ok ((Suc 2 - 1) * (3 * Suc (nblocks 0 8) + 4) + Suc (nblocks 600 3 + 0)) s \<and> 3 * (Suc 2 - 1) \<le> free_of s"
proof -
  obtain s own mm where s: "map_inv 1 own 8 mm s" "volume own {ROOT_DIR_SECTOR} s" "fs_ok 60000 s" "32 \<le> free_of s"
      "file_ok (cap_of s) (contents_of s) ROOT_DIR_SECTOR 0 1" "directory \<lparr>dr_inode = 2, dr_pos = 4\<rparr> ROOT_DIR_SECTOR [] {ROOT_DIR_SECTOR} s"
    using booted by blast
  have ip: "free_inode s 2 ROOT_DIR_SECTOR" using s(6) by (simp add: directory_def)
  have "nblocks 600 3 = 1" by (simp add: BLOCK_SECTOR_SIZE_def nblocks_def)
  then have "fs_ok ((Suc 2 - 1) * (3 * Suc (nblocks 0 8) + 4) + Suc (nblocks 600 3 + 0)) s"
    by (intro fs_ok_mono [OF s(3)]) (simp add: disk_blank)
  then show ?thesis using s ip by (intro exI [of _ s] exI [of _ own] exI [of _ mm]) simp
qed

section \<open>The properties\<close>

text \<open>(C1) Refinement of writing. With the abstract state of the volume a map from inode sectors to file
  contents, \<open>inode_write_at\<close> of \<open>z\<close> bytes at \<open>o'\<close> is \<open>splice\<close> on one file: it writes all the bytes, grows the file and
  fills the gap with zeros where the offset is past the end, and leaves every other file as it is. The free
  map, in memory and on the device, stays right. This holds whenever the largest block \<open>k\<close> of the write is
  addressable, the new blocks fit on the device, and the cache can take the writes.\<close>

theorem inode_write_refines_splice:
  assumes "map_inv fip own L mm s" "volume own F s" "sec \<in> F" "free_inode s ip sec" "file_ok (cap_of s) (contents_of s) sec len m"
    and "k = (o' + z + BLOCK_SECTOR_SIZE - 1) div BLOCK_SECTOR_SIZE" "Suc k < MAX_BLOCKS"
    and "fs_ok ((Suc k - m) * (3 * Suc (nblocks 0 L) + 4) + Suc (nblocks o' z + n)) s" "3 * (Suc k - m) \<le> free_of s" "z \<le> length buf"
  shows "\<exists>s'. inode_write_at (Suc (Suc d)) me ip buf (int z) (int o') s = Some (int z, s')
    \<and> files F s' = (files F s)(sec \<mapsto> splice o' (take z buf) (the (files F s sec)))
    \<and> volume own F s' \<and> map_inv fip own L mm s' \<and> fs_ok n s' \<and> inodes s' = inodes s"
  using write_volume [OF assms] moved_fields(2) by blast

theorem inode_write_refines_splice_witness:
  "\<exists>s s'. inode_write_at 2 7 2 [1, 2, 3] 3 600 s = Some (3, s')
    \<and> files {ROOT_DIR_SECTOR} s' = (files {ROOT_DIR_SECTOR} s)(ROOT_DIR_SECTOR \<mapsto> splice 600 [1, 2, 3] (the (files {ROOT_DIR_SECTOR} s ROOT_DIR_SECTOR)))"
proof -
  obtain s own mm where s: "map_inv 1 own 8 mm s" "volume own {ROOT_DIR_SECTOR} s" "free_inode s 2 ROOT_DIR_SECTOR"
      "file_ok (cap_of s) (contents_of s) ROOT_DIR_SECTOR 0 1" and ok: "fs_ok ((Suc 2 - 1) * (3 * Suc (nblocks 0 8) + 4) + Suc (nblocks 600 3 + 0)) s"
      and free: "3 * (Suc 2 - 1) \<le> free_of s"
    using booted_grow by blast
  show ?thesis
    using inode_write_refines_splice [OF s(1,2) _ s(3,4) grow_numbers ok free, of "[1, 2, 3]" 0 7] by (auto simp: numeral_2_eq_2)
qed

text \<open>(C14) Reading. \<open>inode_read_at\<close> of \<open>z\<close> bytes at \<open>o'\<close> returns the bytes of the file from \<open>o'\<close> on, as many of the \<open>z\<close> as
  there are, and changes neither the files nor the free map; at or past the end of the file it returns none.\<close>

theorem inode_read_returns_contents:
  assumes "map_inv fip own L mm s" "volume own F s" "fs_ok n s" "sec \<in> F" "free_inode s ip sec" "o' < MAX_LENGTH"
  shows "\<exists>s'. inode_read_at d me ip (int z) (int o') s = Some (take z (drop o' (the (files F s sec))), s')
    \<and> files F s' = files F s \<and> volume own F s' \<and> map_inv fip own L mm s' \<and> fs_ok n s'"
  using read_volume [OF assms] by blast

theorem inode_read_returns_contents_witness:
  "\<exists>s s'. inode_read_at 1 7 2 24 4 s = Some (take 24 (drop 4 (the (files {ROOT_DIR_SECTOR} s ROOT_DIR_SECTOR))), s')"
proof -
  obtain s own mm where s: "map_inv 1 own 8 mm s" "volume own {ROOT_DIR_SECTOR} s" "fs_ok 60000 s"
      "directory \<lparr>dr_inode = 2, dr_pos = 4\<rparr> ROOT_DIR_SECTOR [] {ROOT_DIR_SECTOR} s"
    using booted by blast
  have ip: "free_inode s 2 ROOT_DIR_SECTOR" using s(4) by (simp add: directory_def)
  have o': "4 < MAX_LENGTH" by (simp add: MAX_LENGTH_def MAX_BLOCKS_def BLOCK_SECTOR_SIZE_def)
  show ?thesis using inode_read_returns_contents [OF s(1-3) _ ip o', of 1 7 24] by auto
qed

text \<open>What is written is read back: after a write, growing the file or not, reading the same range returns the
  bytes written.\<close>

theorem inode_write_read_roundtrip:
  assumes "map_inv fip own L mm s" "volume own F s" "sec \<in> F" "free_inode s ip sec" "file_ok (cap_of s) (contents_of s) sec len m"
    and "k = (o' + z + BLOCK_SECTOR_SIZE - 1) div BLOCK_SECTOR_SIZE" "Suc k < MAX_BLOCKS"
    and "fs_ok ((Suc k - m) * (3 * Suc (nblocks 0 L) + 4) + Suc (nblocks o' z + n)) s" "3 * (Suc k - m) \<le> free_of s" "z = length buf"
  shows "\<exists>s' s''. inode_write_at (Suc (Suc d)) me ip buf (int z) (int o') s = Some (int z, s')
    \<and> inode_read_at d' you ip (int z) (int o') s' = Some (buf, s'')"
proof -
  have z: "z \<le> length buf" using assms(10) by simp
  obtain s' where s': "inode_write_at (Suc (Suc d)) me ip buf (int z) (int o') s = Some (int z, s')"
      "files F s' = (files F s)(sec \<mapsto> splice o' (take z buf) (the (files F s sec)))" "volume own F s'" "map_inv fip own L mm s'" "fs_ok n s'" "moved s s'"
    using write_volume [OF assms(1-9) z] by blast
  have ip: "free_inode s' ip sec" using assms(4) moved_fields(2) [OF s'(6)] by (simp add: free_inode_def)
  have "o' < MAX_LENGTH" using assms(6,7) by (simp add: MAX_LENGTH_def BLOCK_SECTOR_SIZE_def)
  from read_volume [OF s'(4,3,5) assms(3) ip this, of d' you z] show ?thesis
    using s'(1,2) assms(10) read_splice [of buf o' "the (files F s sec)"] by auto
qed

theorem inode_write_read_roundtrip_witness:
  "\<exists>s s' s''. inode_write_at 2 7 2 [1, 2, 3] 3 600 s = Some (3, s') \<and> inode_read_at 1 8 2 3 600 s' = Some ([1, 2, 3], s'')"
proof -
  obtain s own mm where s: "map_inv 1 own 8 mm s" "volume own {ROOT_DIR_SECTOR} s" "free_inode s 2 ROOT_DIR_SECTOR"
      "file_ok (cap_of s) (contents_of s) ROOT_DIR_SECTOR 0 1" and ok: "fs_ok ((Suc 2 - 1) * (3 * Suc (nblocks 0 8) + 4) + Suc (nblocks 600 3 + 0)) s"
      and free: "3 * (Suc 2 - 1) \<le> free_of s"
    using booted_grow by blast
  show ?thesis
    using inode_write_read_roundtrip [OF s(1,2) _ s(3,4) grow_numbers ok free, of "[1, 2, 3]" 0 7 1 8] by (auto simp: numeral_2_eq_2)
qed

text \<open>(C13) Formatting. On any device of 64 to \<open>SECTOR_NUM\<close> sectors, a multiple of 32, \<open>filesys_init\<close> with \<open>format\<close>
  succeeds whatever the device, the bitmap's memory and the queue of the cache held before, and establishes the
  invariant: the free map is in memory and in its file, the root directory is an empty file, and the sectors
  in use are exactly those of the two.\<close>

theorem filesys_init_formats:
  assumes "blank b" "idle_fs s" "length junk_bits = elem_cnt (block_size b)"
  shows "\<exists>s' own m. filesys_init (Suc d) me junk_queue junk_bits b True s = Some s'
    \<and> map_inv (Suc (next_inode s)) own (byte_cnt (block_size b)) m s' \<and> volume own {ROOT_DIR_SECTOR} s'
    \<and> files {ROOT_DIR_SECTOR} s' = [ROOT_DIR_SECTOR \<mapsto> []] \<and> used_of s' = own \<union> file_sectors (contents_of s') ROOT_DIR_SECTOR \<and> fs_ok 60000 s'"
proof -
  obtain s' own m where s': "filesys_init (Suc d) me junk_queue junk_bits b True s = Some s'"
      "map_inv (Suc (next_inode s)) own (byte_cnt (block_size b)) m s'" "formatted own m s'" "fs_ok 60000 s'"
    using filesys_init_ok [OF assms] by blast
  note F = s'(3) [unfolded formatted_def]
  have "file_bytes (contents_of s') ROOT_DIR_SECTOR = []" using F length_file_bytes by fastforce
  then have "files {ROOT_DIR_SECTOR} s' = [ROOT_DIR_SECTOR \<mapsto> []]" by (auto simp: files_def)
  moreover have "volume own {ROOT_DIR_SECTOR} s'" using F by (auto simp: volume_def)
  ultimately show ?thesis using s' F by blast
qed

theorem filesys_init_formats_witness:
  "\<exists>s' own m. filesys_init 1 7 [] [0, 0] disk True cold = Some s' \<and> map_inv 1 own 8 m s' \<and> files {ROOT_DIR_SECTOR} s' = [ROOT_DIR_SECTOR \<mapsto> []]"
  using filesys_init_formats [OF disk_blank(1,2), of "[0, 0]" 0 7 "[]"] disk_blank(3-5) by (auto simp: cold_def)

text \<open>(C6) Durability. \<open>filesys_done\<close> followed by \<open>filesys_init\<close> without \<open>format\<close>, on the same device and in any idle kernel,
  brings back every file with its contents and the free map, and the invariant holds again.\<close>

theorem remount_restores_files:
  assumes "map_inv fip own L mm s" "volume own F s" "fs_ok n s" "map_open fip s" "64 \<le> cap_of s" "32 dvd cap_of s" "idle_fs t"
    "length junk_bits = elem_cnt (cap_of s)"
  shows "\<exists>s' t'. filesys_done d me s = Some s' \<and> filesys_init d' you junk_queue junk_bits (dev (fs_device s')) False t = Some t'
    \<and> files F t' = files F s \<and> free_map t' = free_map s \<and> volume own F t' \<and> map_inv (next_inode t) own L mm t' \<and> fs_ok 65534 t'"
proof -
  obtain s' where s': "filesys_done d me s = Some s'" "block_size (dev (fs_device s')) = cap_of s" "\<And>t. sectors (dev (fs_device s')) ! t = contents_of s t"
    using filesys_done_ok [OF assms(3,4)] by blast
  then show ?thesis using mount_volume [OF assms(1-3) s'(2,3) assms(5-8)] by blast
qed

theorem remount_restores_files_witness:
  "\<exists>s s' t'. filesys_done 1 7 s = Some s' \<and> filesys_init 1 8 [] [0, 0] (dev (fs_device s')) False cold = Some t'
    \<and> files {ROOT_DIR_SECTOR} t' = files {ROOT_DIR_SECTOR} s"
proof -
  obtain s own mm where s: "map_inv 1 own 8 mm s" "volume own {ROOT_DIR_SECTOR} s" "fs_ok 60000 s" "cap_of s = 64" "map_open 1 s" using booted by blast
  show ?thesis
    using remount_restores_files [OF s(1-3,5) _ _ disk_blank(2), of "[0, 0]" 1 7 1 8 "[]"] s(4) disk_blank(4) by auto
qed

text \<open>(C3) Creating and opening a file. When the name is new and the device has room, \<open>filesys_create\<close> succeeds:
  the directory maps the name to a fresh sector, whose file holds \<open>sz\<close> zero bytes, and no other file changes.
  \<open>filesys_open\<close> of the name then returns an open file, not a directory, on that inode.\<close>

theorem filesys_create_then_open:
  assumes "map_inv fip own L mm s" "volume own F s" "directory r dsec bs F s" "file_ok (cap_of s) (contents_of s) dsec len m"
    and "K = (sz + BLOCK_SECTOR_SIZE - 1) div BLOCK_SECTOR_SIZE" "Suc K < MAX_BLOCKS"
    and "D = (4 + DIR_ENTRY_SIZE * Suc (slots bs) + BLOCK_SECTOR_SIZE - 1) div BLOCK_SECTOR_SIZE" "Suc D < MAX_BLOCKS"
    and "fs_ok (Suc (nblocks 0 L) + (Suc (nblocks 0 L) + (2 + (Suc K * (3 * Suc (nblocks 0 L) + 4)
          + ((Suc D - m) * (3 * Suc (nblocks 0 L) + 4) + Suc (2 + n)))))) s"
    and "2 + 3 * Suc K + 3 * (Suc D - m) \<le> free_of s"
    and "name \<noteq> []" "length name \<le> NAME_MAX" "0 \<notin> set name" "name \<noteq> dot" "name \<noteq> dotdot" "dir_map bs name = None"
    and "length junk = DIR_ENTRY_SIZE" "opens_ok s"
  shows "\<exists>s1 p bs' f s2. filesys_create (Suc (Suc d)) me junk name (Some r) (int sz) False s = Some (True, s1)
    \<and> p \<notin> F \<and> files (insert p F) s1 = (files F s)(p \<mapsto> replicate sz 0, dsec \<mapsto> bs') \<and> dir_map bs' = (dir_map bs)(name \<mapsto> (p, False))
    \<and> volume own (insert p F) s1 \<and> map_inv fip own L mm s1
    \<and> filesys_open d' you (Some r) name s1 = Some (Some f, Some False, s2)
    \<and> f_pos f = 0 \<and> map_option i_sector (inodes s2 (f_inode f)) = Some p \<and> contents_of s2 = contents_of s1"
proof -
  obtain s1 p bs' where s1: "filesys_create (Suc (Suc d)) me junk name (Some r) (int sz) False s = Some (True, s1)" "p \<notin> F"
      "files (insert p F) s1 = (files F s)(p \<mapsto> replicate sz 0, dsec \<mapsto> bs')" "dir_map bs' = (dir_map bs)(name \<mapsto> (p, False))"
      "directory r dsec bs' (insert p F) s1" "volume own (insert p F) s1" "map_inv fip own L mm s1" "fs_ok n s1" "moved s s1"
    using filesys_create_ok [OF assms(1-17)] by blast
  have op: "opens_ok s1" using assms(18) moved_fields(2,4) [OF s1(9)] by (simp add: opens_ok_def)
  obtain l k where "file_ok (cap_of s1) (contents_of s1) p l k" using volumeD(1) [OF s1(6)] by blast
  then have "p < SECTOR_NUM" using file_okD(2) cap_le [OF s1(8)] by fastforce
  then obtain f t s2 where s2: "filesys_open d' you (Some r) name s1 = Some (Some f, Some False, s2)" "f_pos f = 0" "io s1 (contents_of s1) t"
      "only_opened p (f_inode f) t s2"
    using filesys_open_ok [OF s1(6,8,5) op, of name p False d' you] s1(4) by auto
  then have "map_option i_sector (inodes s2 (f_inode f)) = Some p" "contents_of s2 = contents_of s1"
    using io_fields(1) [OF s2(3)] only_opened_device [OF s2(4)] by (auto simp: only_opened_def)
  then show ?thesis using s1 s2 by blast
qed

theorem filesys_create_then_open_witness:
  "\<exists>s s1 f s2. filesys_create 2 7 (replicate 24 0) [97] (Some \<lparr>dr_inode = 2, dr_pos = 4\<rparr>) 100 False s = Some (True, s1)
    \<and> filesys_open 1 8 (Some \<lparr>dr_inode = 2, dr_pos = 4\<rparr>) [97] s1 = Some (Some f, Some False, s2)"
proof -
  obtain s own mm where s: "map_inv 1 own 8 mm s" "volume own {ROOT_DIR_SECTOR} s" "fs_ok 60000 s" "32 \<le> free_of s"
      "file_ok (cap_of s) (contents_of s) ROOT_DIR_SECTOR 0 1" "directory \<lparr>dr_inode = 2, dr_pos = 4\<rparr> ROOT_DIR_SECTOR [] {ROOT_DIR_SECTOR} s" "opens_ok s"
    using booted by blast
  have num: "1 = (100 + BLOCK_SECTOR_SIZE - 1) div BLOCK_SECTOR_SIZE" "Suc 1 < MAX_BLOCKS"
      "1 = (4 + DIR_ENTRY_SIZE * Suc (slots []) + BLOCK_SECTOR_SIZE - 1) div BLOCK_SECTOR_SIZE" "Suc 1 < MAX_BLOCKS"
    by (simp_all add: BLOCK_SECTOR_SIZE_def MAX_BLOCKS_def DIR_ENTRY_SIZE_def slots_def)
  have ok: "fs_ok (Suc (nblocks 0 8) + (Suc (nblocks 0 8) + (2 + (Suc 1 * (3 * Suc (nblocks 0 8) + 4)
          + ((Suc 1 - 1) * (3 * Suc (nblocks 0 8) + 4) + Suc (2 + 0)))))) s"
    by (rule fs_ok_mono [OF s(3)]) (simp add: disk_blank)
  have free: "2 + 3 * Suc 1 + 3 * (Suc 1 - 1) \<le> free_of s" using s(4) by simp
  have name: "[97] \<noteq> ([] :: byte list)" "length [97 :: byte] \<le> NAME_MAX" "0 \<notin> set [97 :: byte]" "[97] \<noteq> dot" "[97] \<noteq> dotdot" "dir_map [] [97] = None"
      "length (replicate 24 (0 :: byte)) = DIR_ENTRY_SIZE"
    by (simp_all add: NAME_MAX_def dot_def dotdot_def DIR_ENTRY_SIZE_def dir_map_def dir_entries_def slots_def dir_alist_def)
  show ?thesis
    using filesys_create_then_open [OF s(1,2,6,5) num ok free name s(7), of 0 7 1 8] by (auto simp: numeral_2_eq_2)
qed

text \<open>(C7) The recursion ends. Allocating a sector writes the free map to its file, and writing a file may allocate.
  With the map's file in place, the allocation returns: a sector that was free, recorded on the device as well,
  or none when the device is full. One level of writing is enough, and a deeper stack changes nothing.\<close>

theorem free_map_allocate_returns:
  assumes "map_inv fip own L mm s" "fs_ok (Suc (nblocks 0 L) + n) s"
  shows "free_map_allocate (Suc d) me s = free_map_allocate 1 me s
    \<and> (if free_of s = 0 then free_map_allocate (Suc d) me s = Some (None, s)
       else \<exists>p s'. free_map_allocate (Suc d) me s = Some (Some p, s') \<and> p < cap_of s \<and> p \<notin> used_of s \<and> used_of s' = insert p (used_of s)
         \<and> map_inv fip own L mm s' \<and> fs_ok n s')"
proof -
  show ?thesis
  proof (cases "free_of s = 0")
    case True
    then show ?thesis using allocate_depth [OF assms, of d me] fmap.alloc_full [OF assms(1), of d me] by (simp add: free_map_allocate_def)
  next
    case False
    then have "\<exists>p s'. free_map_allocate (Suc d) me s = Some (Some p, s') \<and> p < cap_of s \<and> p \<notin> used_of s \<and> used_of s' = insert p (used_of s)
        \<and> map_inv fip own L mm s' \<and> fs_ok n s'"
      using fmap.alloc_free [OF assms] unfolding free_map_allocate_def grants_def by blast
    with allocate_depth [OF assms, of d me] False show ?thesis by (simp only: if_False)
  qed
qed

theorem free_map_allocate_returns_witness:
  "\<exists>s p s'. free_map_allocate 3 7 s = Some (Some p, s') \<and> free_map_allocate 1 7 s = Some (Some p, s') \<and> p \<notin> used_of s"
proof -
  obtain s own mm where s: "map_inv 1 own 8 mm s" "fs_ok 60000 s" "32 \<le> free_of s" using booted by blast
  have ok: "fs_ok (Suc (nblocks 0 8) + 0) s" by (rule fs_ok_mono [OF s(2)]) (simp add: disk_blank)
  obtain p s' where "free_map_allocate (Suc 2) 7 s = Some (Some p, s')" "p \<notin> used_of s" "free_map_allocate (Suc 2) 7 s = free_map_allocate 1 7 s"
    using free_map_allocate_returns [OF s(1) ok, of 2 7] s(3) by (auto simp del: One_nat_def)
  then show ?thesis by (metis numeral_3_eq_3 numeral_2_eq_2)
qed

text \<open>(C22) A write to an inode with writes denied returns 0 bytes, but keeps the read lock it took. Once writes are
  allowed again, any write that has to grow the file waits for ever for that lock: it does not return.\<close>

theorem denied_write_leaks_lock:
  assumes "fs_ok n s" "inodes s ip = Some i" "i_rwlock i = rw_lock_init" "i_sector i = sec" "i_deny_write_cnt i = 1"
    and "file_ok (cap_of s) (contents_of s) sec len m" "k = (o' + z + BLOCK_SECTOR_SIZE - 1) div BLOCK_SECTOR_SIZE" "m \<le> k" "Suc k < MAX_BLOCKS"
  shows "\<exists>s1 s2. inode_write_at (Suc d) me ip buf' sz' ofs' s = Some (0, s1) \<and> inode_allow_write ip s1 = Some s2
    \<and> map_option i_deny_write_cnt (inodes s2 ip) = Some 0
    \<and> inode_write_at (Suc d') you ip buf (int z) (int o') s2 = None"
proof -
  let ?s1 = "s\<lparr>inodes := (inodes s)(ip \<mapsto> i\<lparr>i_rwlock := reading\<rparr>)\<rparr>"
  let ?s2 = "s\<lparr>inodes := (inodes s)(ip \<mapsto> i\<lparr>i_rwlock := reading, i_deny_write_cnt := 0\<rparr>)\<rparr>"
  have w: "inode_write_at (Suc d) me ip buf' sz' ofs' s = Some (0, ?s1)"
    using assms(5) lock_steps(1) [OF assms(2,3), of me] by (simp add: inode_write_at_with_def)
  have a: "inode_allow_write ip ?s1 = Some ?s2" using assms(5) by (simp add: inode_allow_write_def upd_inode_def s32_def)
  have "inode_write_at_with (inode_write_at d' you) you ip buf (int z) (int o') ?s2 = None"
    by (rule grow_blocked [of n ?s2 ip "i\<lparr>i_rwlock := reading, i_deny_write_cnt := 0\<rparr>" sec len m k o' z, OF _ _ _ _ _ _ assms(7-9)])
      (use assms(1,4,6) in simp_all)
  then show ?thesis using w a by (intro exI [of _ ?s1] exI [of _ ?s2]) simp
qed

theorem denied_write_leaks_lock_witness:
  "\<exists>s s1 s2. inode_write_at 2 7 2 [1] 1 0 s = Some (0, s1) \<and> inode_allow_write 2 s1 = Some s2 \<and> inode_write_at 2 8 2 [1, 2, 3] 3 600 s2 = None"
proof -
  obtain s own mm where s: "fs_ok 60000 s" "file_ok (cap_of s) (contents_of s) ROOT_DIR_SECTOR 0 1"
      "directory \<lparr>dr_inode = 2, dr_pos = 4\<rparr> ROOT_DIR_SECTOR [] {ROOT_DIR_SECTOR} s" using booted by blast
  then obtain i where i: "inodes s 2 = Some i" "i_rwlock i = rw_lock_init" "i_sector i = ROOT_DIR_SECTOR" by (auto simp: directory_def free_inode_def)
  let ?s = "s\<lparr>inodes := (inodes s)(2 \<mapsto> i\<lparr>i_deny_write_cnt := 1\<rparr>)\<rparr>"
  have "\<exists>s1 s2. inode_write_at (Suc 1) 7 2 [1] 1 0 ?s = Some (0, s1) \<and> inode_allow_write 2 s1 = Some s2
    \<and> map_option i_deny_write_cnt (inodes s2 2) = Some 0 \<and> inode_write_at (Suc 1) 8 2 [1, 2, 3] (int 3) (int 600) s2 = None"
    by (rule denied_write_leaks_lock [OF _ _ _ _ _ _ grow_numbers(1) _ grow_numbers(2), of 60000 _ _ "i\<lparr>i_deny_write_cnt := 1\<rparr>" ROOT_DIR_SECTOR 0 1])
      (use s i in simp_all)
  then show ?thesis by (auto simp: numeral_2_eq_2)
qed

text \<open>A read at an offset from 16 MB up to 32 MB panics, whatever the length of the file: the index of the sector
  fails the assertion in \<open>lookup\<close>, before the length is looked at. Such an offset is one \<open>seek\<close> away.\<close>

theorem far_read_panics:
  assumes "fs_ok n s" "free_inode s ip sec" "sec < cap_of s" "2 ^ 24 \<le> o'" "o' < 2 ^ 25" "0 < z"
  shows "inode_read_at d me ip (int z) (int o') s = None"
proof -
  obtain i where i: "inodes s ip = Some i" "i_rwlock i = rw_lock_init" "i_sector i = sec" using assms(2) by (auto simp: free_inode_def)
  let ?s1 = "s\<lparr>inodes := (inodes s)(ip \<mapsto> i\<lparr>i_rwlock := reading\<rparr>)\<rparr>"
  have ok1: "fs_ok n ?s1" using assms(1) by simp
  obtain s2 where s2: "bread me sec ?s1 = Some (contents_of s sec, s2)" using bread_ok [OF ok1, of sec me] assms(3) by auto
  have arg: "sector_arg (int o') = o' div 512" "32 \<le> o' div 512 div 2 ^ 10"
  proof -
    have "o' div 512 < 2 ^ 16" using assms(5) by (intro less_mult_imp_div_less) simp
    then show "sector_arg (int o') = o' div 512"
      by (simp add: sector_arg_def signed_divide_int_def BLOCK_SECTOR_SIZE_def nat_div_distrib zdiv_int [symmetric] zmod_int [symmetric])
    have "o' div 512 div 2 ^ 10 = o' div 2 ^ 19" by (simp add: div_mult2_eq [symmetric])
    then show "32 \<le> o' div 512 div 2 ^ 10" using div_le_mono [OF assms(4), of "2 ^ 19"] by simp
  qed
  have "lookup_with (inode_write_at d me) me (contents_of s sec) (sector_arg (int o')) False s2 = None"
    using arg by (simp add: lookup_with_def)
  then show ?thesis using i s2 assms(6) fs_okD(1) [OF assms(1)] lock_steps(1) [OF i(1,2), of me]
    by (simp add: inode_read_at_def inode_read_at_with_def)
qed

theorem far_read_panics_witness: "\<exists>s. inode_read_at 1 7 2 1 20000000 s = None \<and> free_inode s 2 ROOT_DIR_SECTOR"
proof -
  obtain s own mm where s: "fs_ok 60000 s" "file_ok (cap_of s) (contents_of s) ROOT_DIR_SECTOR 0 1"
      "directory \<lparr>dr_inode = 2, dr_pos = 4\<rparr> ROOT_DIR_SECTOR [] {ROOT_DIR_SECTOR} s" using booted by blast
  then have ip: "free_inode s 2 ROOT_DIR_SECTOR" by (simp add: directory_def)
  show ?thesis using far_read_panics [OF s(1) ip file_okD(2) [OF s(2)], of 20000000 1 1 7] ip by auto
qed

end
