(* ===== verification/Files.thy ===== *)
theory Files
  imports Directory
begin

unbundle bit_operations_syntax

text \<open>
  \<open>userprog/files.c\<close>: the system calls on files. A path is resolved from the root or from the directory of the
  process; open files have numbers that are never used again.

  Strings are the lists of their bytes; the buffers \<open>split_str\<close> works on are lists with the terminator. \<open>tokens\<close> is the
  sequence \<open>strtok_r (s, "/", _)\<close> gives. Every thread has its list of open files and its directory, a null pointer
  being \<open>None\<close>; a call of \<open>malloc\<close> whose failure would fault is an assertion.
\<close>

section \<open>The functions of the source\<close>

record user_file_info =
  uf_fd :: int
  uf_file :: open_file
  uf_dir :: "dir option"

record process =
  open_files :: "user_file_info list"
  active_dir :: "dir option"

record users =
  ufs :: fsys
  procs :: "nat \<Rightarrow> process"
  FD_C :: int
  keys :: "byte list"
  console :: "byte list"

definition xmalloc :: "fsys \<Rightarrow> fsys option" where
  "xmalloc s = (let (ok, s) = kmalloc s in do { kassert ok; Some s })"

definition find_open_file :: "int \<Rightarrow> process \<Rightarrow> user_file_info option" where
  "find_open_file fd t = List.find (\<lambda>f. uf_fd f = fd) (open_files t)"

definition find_open_file_with_sector :: "nat \<Rightarrow> process \<Rightarrow> fsys \<Rightarrow> user_file_info option option" where
  "find_open_file_with_sector sec t s =
     msearch (\<lambda>f. map_option (\<lambda>i. i_sector i = sec) (inodes s (file_get_inode (uf_file f)))) (open_files t)"

text \<open>The loops of \<open>split_str\<close>; the index of the source is one less than \<open>n\<close>.\<close>

fun cut_slashes :: "byte list \<Rightarrow> nat \<Rightarrow> byte list \<times> nat" where
  "cut_slashes A 0 = (A, 0)"
| "cut_slashes A (Suc i) = (if A ! i = 47 then cut_slashes (A[i := 0]) i else (A, Suc i))"

fun take_name :: "byte list \<Rightarrow> byte list \<Rightarrow> nat \<Rightarrow> byte list \<times> byte list \<times> nat" where
  "take_name A B 0 = (A, B, 0)"
| "take_name A B (Suc i) = (if A ! i \<noteq> 47 then take_name (A[i := 0]) (B @ [A ! i]) i else (A, B, Suc i))"

function swap_ends :: "byte list \<Rightarrow> nat \<Rightarrow> nat \<Rightarrow> byte list" where
  "swap_ends B i j =
     (if i < j
      then let B = B[i := B ! i XOR B ! j];
               B = B[j := B ! j XOR B ! i];
               B = B[i := B ! i XOR B ! j]
           in swap_ends B (i + 1) (j - 1)
      else B)"
  by pat_completeness auto
termination by (relation "measure (\<lambda>(B, i, j). j - i)") auto

declare swap_ends.simps [simp del]

definition split_str :: "byte list \<Rightarrow> byte list \<times> byte list" where
  "split_str path =
     (let A = path @ [0];
          (A, n) = cut_slashes A (length path);
          (A, B, n) = take_name A [] n;
          B = swap_ends B 0 (length B - 1);
          (A, n) = cut_slashes A (n - 1)
      in (takeWhile (\<lambda>c. c \<noteq> 0) A, B))"

function tokens :: "byte list \<Rightarrow> byte list list" where
  "tokens s =
     (let t = dropWhile (\<lambda>c. c = 47) s
      in if t = [] then [] else takeWhile (\<lambda>c. c \<noteq> 47) t # tokens (drop 1 (dropWhile (\<lambda>c. c \<noteq> 47) t)))"
  by pat_completeness auto
termination
proof (relation "measure length")
  fix s t :: "byte list"
  assume t: "t = dropWhile (\<lambda>c. c = 47) s" "t \<noteq> []"
  have "0 < length t" using t(2) unfolding length_greater_0_conv .
  then have "length (drop 1 (dropWhile (\<lambda>c. c \<noteq> 47) t)) < length t"
    using length_dropWhile_le [of "\<lambda>c. c \<noteq> 47" t] unfolding length_drop by linarith
  then show "(drop 1 (dropWhile (\<lambda>c. c \<noteq> 47) t), s) \<in> measure length"
    using length_dropWhile_le [of "\<lambda>c. c = 47" s] unfolding t(1) in_measure by linarith
qed simp

declare tokens.simps [simp del]

definition merge_next :: "nat \<Rightarrow> nat \<Rightarrow> byte list \<Rightarrow> dir \<Rightarrow> fsys \<Rightarrow> (dir option \<times> fsys) option" where
  "merge_next d me token work s =
     (if token = dotdot then dir_get_parent_dir d me work s
      else if token = dot then dir_reopen d me work s
      else do {
        (hit, s) \<leftarrow> dir_lookup d me work token s;
        case hit of
          Some (tmp, is_dir) \<Rightarrow>
            if is_dir then dir_open d me (Some tmp) s else do { s \<leftarrow> inode_close d me (Some tmp) s; Some (None, s) }
        | None \<Rightarrow> Some (None, s)
      })"

fun merge_loop :: "nat \<Rightarrow> nat \<Rightarrow> byte list list \<Rightarrow> dir \<Rightarrow> fsys \<Rightarrow> (dir option \<times> fsys) option" where
  "merge_loop d me [] work s = Some (Some work, s)"
| "merge_loop d me (token # ts) work s =
     do {
       (next, s) \<leftarrow> merge_next d me token work s;
       s \<leftarrow> dir_close d me (Some work) s;
       case next of Some work \<Rightarrow> merge_loop d me ts work s | None \<Rightarrow> Some (None, s)
     }"

definition merge_dir :: "nat \<Rightarrow> nat \<Rightarrow> dir option \<Rightarrow> byte list \<Rightarrow> fsys \<Rightarrow> (dir option \<times> fsys) option" where
  "merge_dir d me active req s =
     do {
       s \<leftarrow> xmalloc s;
       (work, s) \<leftarrow> (if req \<noteq> [] \<and> hd req = 47 then dir_open_root d me s else do { a \<leftarrow> active; dir_reopen d me a s });
       case work of
         Some work \<Rightarrow> merge_loop d me (tokens req) work s
       | None \<Rightarrow> do { kassert (tokens req = []); Some (None, s) }
     }"

text \<open>The descriptor, updated in the list of the thread.\<close>

definition set_info :: "nat \<Rightarrow> int \<Rightarrow> (user_file_info \<Rightarrow> user_file_info) \<Rightarrow> users \<Rightarrow> users" where
  "set_info me fd f u =
     u\<lparr>procs := (procs u)(me := (procs u me)\<lparr>open_files := map (\<lambda>i. if uf_fd i = fd then f i else i) (open_files (procs u me))\<rparr>)\<rparr>"

definition filesize_sys :: "nat \<Rightarrow> int \<Rightarrow> users \<Rightarrow> (int \<times> users) option" where
  "filesize_sys me fd u =
     (case find_open_file fd (procs u me) of
        None \<Rightarrow> Some (- 1, u)
      | Some f \<Rightarrow> do { (n, s) \<leftarrow> file_length me (uf_file f) (ufs u); Some (n, u\<lparr>ufs := s\<rparr>) })"

text \<open>Reading keys waits for them. The bytes read, and the result.\<close>

definition read_sys :: "nat \<Rightarrow> nat \<Rightarrow> int \<Rightarrow> nat \<Rightarrow> users \<Rightarrow> (byte list \<times> int \<times> users) option" where
  "read_sys d me fd sz u =
     (if fd = 0
      then do { kassert (sz \<le> length (keys u)); Some (take sz (keys u), s32 (int sz), u\<lparr>keys := drop sz (keys u)\<rparr>) }
      else case find_open_file fd (procs u me) of
        None \<Rightarrow> Some ([], - 1, u)
      | Some f \<Rightarrow>
          if uf_dir f \<noteq> None then Some ([], - 1, u)
          else do {
            (bs, f', s) \<leftarrow> file_read d me (uf_file f) (s32 (int sz)) (ufs u);
            Some (bs, int (length bs), set_info me fd (\<lambda>i. i\<lparr>uf_file := f'\<rparr>) (u\<lparr>ufs := s\<rparr>))
          })"

definition write_sys :: "nat \<Rightarrow> nat \<Rightarrow> int \<Rightarrow> byte list \<Rightarrow> users \<Rightarrow> (int \<times> users) option" where
  "write_sys d me fd buffer u =
     (if 1 = fd then Some (s32 (int (length buffer)), u\<lparr>console := console u @ buffer\<rparr>)
      else case find_open_file fd (procs u me) of
        None \<Rightarrow> Some (- 1, u)
      | Some f \<Rightarrow>
          if uf_dir f \<noteq> None then Some (- 1, u)
          else do {
            (n, f', s) \<leftarrow> file_write d me (uf_file f) buffer (s32 (int (length buffer))) (ufs u);
            Some (n, set_info me fd (\<lambda>i. i\<lparr>uf_file := f'\<rparr>) (u\<lparr>ufs := s\<rparr>))
          })"

definition seek_sys :: "nat \<Rightarrow> int \<Rightarrow> nat \<Rightarrow> users \<Rightarrow> users option" where
  "seek_sys me fd position u =
     (case find_open_file fd (procs u me) of
        None \<Rightarrow> Some u
      | Some f \<Rightarrow> do { f' \<leftarrow> file_seek (uf_file f) (s32 (int position)); Some (set_info me fd (\<lambda>i. i\<lparr>uf_file := f'\<rparr>) u) })"

definition tell_sys :: "nat \<Rightarrow> int \<Rightarrow> users \<Rightarrow> int" where
  "tell_sys me fd u = (case find_open_file fd (procs u me) of None \<Rightarrow> 0 | Some f \<Rightarrow> file_tell (uf_file f))"

definition close_sys :: "nat \<Rightarrow> nat \<Rightarrow> int \<Rightarrow> users \<Rightarrow> users option" where
  "close_sys d me fd u =
     (case find_open_file fd (procs u me) of
        None \<Rightarrow> Some u
      | Some f \<Rightarrow> do {
          s \<leftarrow> file_close d me (Some (uf_file f)) (ufs u);
          s \<leftarrow> (if uf_dir f \<noteq> None then dir_close d me (uf_dir f) s else Some s);
          Some (u\<lparr>ufs := s, procs := (procs u)(me := (procs u me)\<lparr>open_files := remove1 f (open_files (procs u me))\<rparr>)\<rparr>)
        })"

definition add_file :: "nat \<Rightarrow> open_file \<Rightarrow> dir option \<Rightarrow> users \<Rightarrow> (int \<times> users) option" where
  "add_file me f r u =
     do {
       s \<leftarrow> xmalloc (ufs u);
       let info = \<lparr>uf_fd = FD_C u, uf_file = f, uf_dir = r\<rparr>;
       Some (FD_C u, u\<lparr>ufs := s, FD_C := s32 (FD_C u + 1),
         procs := (procs u)(me := (procs u me)\<lparr>open_files := open_files (procs u me) @ [info]\<rparr>)\<rparr>)
     }"

text \<open>\<open>split_str\<close> and \<open>merge_dir\<close> as the calls below begin: the directory and the last name.\<close>

definition resolve :: "nat \<Rightarrow> nat \<Rightarrow> byte list \<Rightarrow> users \<Rightarrow> (dir option \<times> byte list \<times> fsys) option" where
  "resolve d me path u =
     do {
       s \<leftarrow> xmalloc (ufs u);
       s \<leftarrow> xmalloc s;
       let (A, B) = split_str path;
       (res, s) \<leftarrow> merge_dir d me (active_dir (procs u me)) A s;
       Some (res, B, s)
     }"

text \<open>\<open>path\<close> is \<open>None\<close> for the null pointer.\<close>

definition open_sys :: "nat \<Rightarrow> nat \<Rightarrow> byte list option \<Rightarrow> bool \<Rightarrow> users \<Rightarrow> (int \<times> users) option" where
  "open_sys d me path readonly u =
     (case path of
        None \<Rightarrow> Some (- 1, u)
      | Some path \<Rightarrow>
          if path = [] then Some (- 1, u)
          else do {
            (res, B, s) \<leftarrow> resolve d me path u;
            (f, is_dir, s) \<leftarrow>
              (if res = None then Some (None, None, s)
               else do { (f, is_dir, s) \<leftarrow> filesys_open d me res B s; s \<leftarrow> dir_close d me res s; Some (f, is_dir, s) });
            case f of
              None \<Rightarrow> Some (- 1, u\<lparr>ufs := s\<rparr>)
            | Some f \<Rightarrow> do {
                (r, s) \<leftarrow> (if is_dir = Some True
                  then do { (ip, s) \<leftarrow> inode_reopen (Some (file_get_inode f)) s; dir_open d me ip s }
                  else Some (None, s));
                (f, s) \<leftarrow> (if readonly then file_deny_write f s else Some (f, s));
                add_file me f r (u\<lparr>ufs := s\<rparr>)
              }
          })"

definition create :: "nat \<Rightarrow> nat \<Rightarrow> byte list \<Rightarrow> byte list \<Rightarrow> nat \<Rightarrow> bool \<Rightarrow> users \<Rightarrow> (bool \<times> users) option" where
  "create d me junk path initial_size is_dir u =
     do {
       (res, B, s) \<leftarrow> resolve d me path u;
       if res = None then Some (False, u\<lparr>ufs := s\<rparr>)
       else do {
         (ret, s) \<leftarrow> filesys_create d me junk B res (s32 (int initial_size)) is_dir s;
         s \<leftarrow> dir_close d me res s;
         Some (ret, u\<lparr>ufs := s\<rparr>)
       }
     }"

definition create_sys :: "nat \<Rightarrow> nat \<Rightarrow> byte list \<Rightarrow> byte list \<Rightarrow> nat \<Rightarrow> users \<Rightarrow> (bool \<times> users) option" where
  "create_sys d me junk path initial_size u = create d me junk path initial_size False u"

definition remove_sys :: "nat \<Rightarrow> nat \<Rightarrow> byte list \<Rightarrow> users \<Rightarrow> (bool \<times> users) option" where
  "remove_sys d me path u =
     do {
       (res, B, s) \<leftarrow> resolve d me path u;
       (ret, s) \<leftarrow> (case res of
           None \<Rightarrow> Some (False, s)
         | Some r \<Rightarrow> do {
             (hit, s) \<leftarrow> dir_lookup d me r B s;
             case hit of
               None \<Rightarrow> do { s \<leftarrow> inode_close d me None s; Some (False, s) }
             | Some (p, is_dir) \<Rightarrow> do {
                 sec \<leftarrow> inode_get_inumber p s;
                 used \<leftarrow> find_open_file_with_sector sec (procs u me) s;
                 if is_dir \<and> used \<noteq> None then do { s \<leftarrow> inode_close d me (Some p) s; Some (False, s) }
                 else if \<not> is_dir
                 then do { (ret, s) \<leftarrow> filesys_remove d me (Some r) B s; s \<leftarrow> inode_close d me (Some p) s; Some (ret, s) }
                 else do {
                   (dp, s) \<leftarrow> dir_open d me (Some p) s;
                   dd \<leftarrow> dp;
                   (name, dd, s) \<leftarrow> dir_readdir d me dd s;
                   allow \<leftarrow> (if name \<noteq> None \<and> name \<noteq> Some [] then Some False
                     else do {
                       a \<leftarrow> active_dir (procs u me);
                       x \<leftarrow> inode_get_inumber (dir_get_inode dd) s;
                       y \<leftarrow> inode_get_inumber (dir_get_inode a) s;
                       Some (x \<noteq> y)
                     });
                   s \<leftarrow> dir_close d me (Some dd) s;
                   if allow then filesys_remove d me (Some r) B s else Some (False, s)
                 }
               }
           });
       s \<leftarrow> dir_close d me res s;
       Some (ret, u\<lparr>ufs := s\<rparr>)
     }"

definition file_reopen_sys :: "nat \<Rightarrow> nat \<Rightarrow> int \<Rightarrow> users \<Rightarrow> (int \<times> users) option" where
  "file_reopen_sys d me fd u =
     (case find_open_file fd (procs u me) of
        None \<Rightarrow> Some (- 1, u)
      | Some f \<Rightarrow> do {
          (fp, s) \<leftarrow> file_reopen d me (uf_file f) (ufs u);
          f2 \<leftarrow> fp;
          f2 \<leftarrow> file_seek f2 0;
          (r, s) \<leftarrow> (case uf_dir f of Some r \<Rightarrow> dir_reopen d me r s | None \<Rightarrow> Some (None, s));
          add_file me f2 r (u\<lparr>ufs := s\<rparr>)
        })"

definition chdir :: "nat \<Rightarrow> nat \<Rightarrow> byte list \<Rightarrow> users \<Rightarrow> (bool \<times> users) option" where
  "chdir d me path u =
     do {
       s \<leftarrow> xmalloc (ufs u);
       (res, s) \<leftarrow> merge_dir d me (active_dir (procs u me)) path s;
       case res of
         None \<Rightarrow> Some (False, u\<lparr>ufs := s\<rparr>)
       | Some r \<Rightarrow> do {
           s \<leftarrow> dir_close d me (active_dir (procs u me)) s;
           Some (True, u\<lparr>ufs := s, procs := (procs u)(me := (procs u me)\<lparr>active_dir := Some r\<rparr>)\<rparr>)
         }
     }"

definition mkdir :: "nat \<Rightarrow> nat \<Rightarrow> byte list \<Rightarrow> byte list \<Rightarrow> users \<Rightarrow> (bool \<times> users) option" where
  "mkdir d me junk path u = create d me junk path 100 True u"

text \<open>The name, if there is one left.\<close>

definition readdir :: "nat \<Rightarrow> nat \<Rightarrow> int \<Rightarrow> users \<Rightarrow> (byte list option \<times> users) option" where
  "readdir d me fd u =
     (case find_open_file fd (procs u me) of
        None \<Rightarrow> Some (None, u)
      | Some f \<Rightarrow> (case uf_dir f of
          None \<Rightarrow> Some (None, u)
        | Some r \<Rightarrow> do {
            (name, r', s) \<leftarrow> dir_readdir d me r (ufs u);
            Some (name, set_info me fd (\<lambda>i. i\<lparr>uf_dir := Some r'\<rparr>) (u\<lparr>ufs := s\<rparr>))
          }))"

definition isdir :: "nat \<Rightarrow> int \<Rightarrow> users \<Rightarrow> bool" where
  "isdir me fd u = (case find_open_file fd (procs u me) of None \<Rightarrow> False | Some f \<Rightarrow> uf_dir f \<noteq> None)"

definition inumber :: "nat \<Rightarrow> int \<Rightarrow> users \<Rightarrow> nat option" where
  "inumber me fd u = do { f \<leftarrow> find_open_file fd (procs u me); inode_get_inumber (file_get_inode (uf_file f)) (ufs u) }"

section \<open>Splitting a path\<close>

lemma cut_slashes_ok:
  assumes "n \<le> length A"
  shows "\<exists>n'\<le>n. cut_slashes A n = (take n' A @ replicate (n - n') 0 @ drop n A, n') \<and> (n' = 0 \<or> A ! (n' - 1) \<noteq> 47) \<and> (\<forall>i. n' \<le> i \<and> i < n \<longrightarrow> A ! i = 47)"
  using assms
proof (induction n arbitrary: A)
  case (Suc n)
  show ?case
  proof (cases "A ! n = 47")
    case True
    obtain n' where n': "n' \<le> n" "cut_slashes (A[n := 0]) n = (take n' (A[n := 0]) @ replicate (n - n') 0 @ drop n (A[n := 0]), n')"
        "n' = 0 \<or> A[n := 0] ! (n' - 1) \<noteq> 47" "\<forall>i. n' \<le> i \<and> i < n \<longrightarrow> A[n := 0] ! i = 47"
      using Suc.IH [of "A[n := 0]"] Suc.prems by auto
    have "drop n (A[n := 0]) = 0 # drop (Suc n) A" using Suc.prems by (simp add: drop_update_cancel Cons_nth_drop_Suc [symmetric])
    moreover have "take n' (A[n := 0]) = take n' A" using n'(1) by simp
    moreover have "replicate (n - n') 0 @ (0 :: byte) # drop (Suc n) A = replicate (Suc n - n') 0 @ drop (Suc n) A"
      using n'(1) by (simp add: Suc_diff_le replicate_append_same [symmetric])
    moreover have "n' = 0 \<or> A ! (n' - 1) \<noteq> 47" using n'(1,3) by (cases "n' = 0") auto
    moreover have "A ! i = 47" if "n' \<le> i" "i < Suc n" for i using n'(4) True that by (cases "i = n") auto
    ultimately show ?thesis using True n' by (intro exI [of _ n']) auto
  qed (auto intro!: exI [of _ "Suc n"])
qed simp

lemma take_name_ok:
  assumes "n \<le> length A"
  shows "\<exists>n'\<le>n. take_name A B n = (take n' A @ replicate (n - n') 0 @ drop n A, B @ rev (drop n' (take n A)), n') \<and> (n' = 0 \<or> A ! (n' - 1) = 47)
    \<and> (\<forall>i. n' \<le> i \<and> i < n \<longrightarrow> A ! i \<noteq> 47)"
  using assms
proof (induction n arbitrary: A B)
  case (Suc n)
  show ?case
  proof (cases "A ! n \<noteq> 47")
    case True
    obtain n' where n': "n' \<le> n" "take_name (A[n := 0]) (B @ [A ! n]) n = (take n' (A[n := 0]) @ replicate (n - n') 0 @ drop n (A[n := 0]), (B @ [A ! n]) @ rev (drop n' (take n (A[n := 0]))), n')"
        "n' = 0 \<or> A[n := 0] ! (n' - 1) = 47" "\<forall>i. n' \<le> i \<and> i < n \<longrightarrow> A[n := 0] ! i \<noteq> 47"
      using Suc.IH [of "A[n := 0]" "B @ [A ! n]"] Suc.prems by auto
    have "drop n (A[n := 0]) = 0 # drop (Suc n) A" using Suc.prems by (simp add: drop_update_cancel Cons_nth_drop_Suc [symmetric])
    moreover have "take n' (A[n := 0]) = take n' A" "take n (A[n := 0]) = take n A" using n'(1) by simp_all
    moreover have "replicate (n - n') 0 @ (0 :: byte) # drop (Suc n) A = replicate (Suc n - n') 0 @ drop (Suc n) A"
      using n'(1) by (simp add: Suc_diff_le replicate_append_same [symmetric])
    moreover have "n' = 0 \<or> A ! (n' - 1) = 47" using n'(1,3) by (cases "n' = 0") auto
    moreover have "A ! i \<noteq> 47" if "n' \<le> i" "i < Suc n" for i using n'(4) True that by (cases "i = n") auto
    moreover have "drop n' (take (Suc n) A) = drop n' (take n A) @ [A ! n]" using n'(1) Suc.prems by (simp add: take_Suc_conv_app_nth)
    ultimately show ?thesis using True n' by (intro exI [of _ n']) auto
  qed (auto intro!: exI [of _ "Suc n"])
qed simp

lemma swap_step:
  fixes B :: "byte list"
  assumes "i < j" "j < length B"
  shows "B[i := B ! i XOR B ! j, j := B ! j XOR (B ! i XOR B ! j), i := (B ! i XOR B ! j) XOR (B ! j XOR (B ! i XOR B ! j))] = B[i := B ! j, j := B ! i]"
proof -
  have "a XOR (b XOR a) = b" for a b :: byte by (simp add: xor.commute [of b a])
  then show ?thesis using assms by (simp add: list_update_swap xor.assoc xor.left_commute)
qed

lemma swap_ends_ok:
  "length u = i \<Longrightarrow> length w = i \<Longrightarrow> swap_ends (u @ v @ w) i (i + length v - 1) = u @ rev v @ w"
proof (induction "length v" arbitrary: u v w i rule: less_induct)
  case less
  show ?case
  proof (cases "length v \<le> 1")
    case True
    then have "rev v = v" by (cases v; cases "tl v") auto
    moreover have "\<not> i < i + length v - 1" using True by linarith
    ultimately show ?thesis by (subst swap_ends.simps) simp
  next
    case False
    obtain x v' where v: "v = x # v'" "v' \<noteq> []" using False by (cases v; cases "tl v") auto
    obtain y m where v': "v' = m @ [y]" using v(2) by (metis rev_exhaust)
    let ?j = "i + length v - 1"
    have j: "?j = i + Suc (length m)" "i < ?j" using v v' by simp_all
    have nth: "(u @ v @ w) ! i = x" "(u @ v @ w) ! ?j = y" using less.prems v v' j by (simp_all add: nth_append)
    have upd: "(u @ v @ w)[i := y, ?j := x] = (u @ [y]) @ m @ (x # w)" using less.prems v v' j by (simp add: list_update_append)
    have "swap_ends (u @ v @ w) i ?j = swap_ends ((u @ [y]) @ m @ (x # w)) (i + 1) (?j - 1)"
      unfolding upd [symmetric] using swap_step [of i ?j "u @ v @ w"] j nth less.prems v v' by (subst swap_ends.simps) (simp add: Let_def)
    also have "\<dots> = (u @ [y]) @ rev m @ (x # w)"
      using less.hyps [of m "u @ [y]" "i + 1" "x # w"] less.prems v v' j by simp
    finally show ?thesis using v v' by simp
  qed
qed

lemma tokens_Nil [simp]: "tokens [] = []"
  by (simp add: tokens.simps)

lemma tokens_slash [simp]: "tokens (47 # s) = tokens s"
  by (simp add: tokens.simps [of "47 # s"] tokens.simps [of s])

lemma tokens_slashes [simp]: "\<forall>c\<in>set s. c = 47 \<Longrightarrow> tokens (s @ t) = tokens t" "\<forall>c\<in>set s. c = 47 \<Longrightarrow> tokens s = []"
proof -
  show "\<forall>c\<in>set s. c = 47 \<Longrightarrow> tokens (s @ t) = tokens t" for t by (induction s) auto
  from this [of "[]"] show "\<forall>c\<in>set s. c = 47 \<Longrightarrow> tokens s = []" by simp
qed

lemma tokens_word:
  assumes "47 \<notin> set w" "w \<noteq> []"
  shows "tokens w = [w]" "tokens (w @ 47 # t) = w # tokens t"
proof -
  obtain c w' where w: "w = c # w'" "c \<noteq> 47" using assms by (cases w) auto
  have d: "dropWhile (\<lambda>c. c = 47) (w @ x) = w @ x" for x using w by simp
  have t: "takeWhile (\<lambda>c. c \<noteq> 47) w = w" "dropWhile (\<lambda>c. c \<noteq> 47) w = []" using assms(1) by (auto simp: takeWhile_eq_all_conv)
  have t': "takeWhile (\<lambda>c. c \<noteq> 47) (w @ 47 # t) = w" "dropWhile (\<lambda>c. c \<noteq> 47) (w @ 47 # t) = 47 # t"
    using assms(1) by (auto simp: takeWhile_append dropWhile_append)
  have "tokens (drop 1 (dropWhile (\<lambda>c. c \<noteq> 47) w)) = []" by (simp only: t(2) drop_Nil tokens_Nil)
  then show "tokens w = [w]" using d [of "[]"] t(1) assms(2) by (subst tokens.simps) simp
  show "tokens (w @ 47 # t) = w # tokens t" using d t' by (subst tokens.simps) simp
qed

lemma tokens_append: "tokens (s @ 47 # t) = tokens s @ tokens t"
proof (induction s rule: tokens.induct)
  case (1 s)
  define u where "u = dropWhile (\<lambda>c. c = 47) s"
  have s: "s = takeWhile (\<lambda>c. c = 47) s @ u" by (simp add: u_def)
  have lead: "\<forall>c\<in>set (takeWhile (\<lambda>c. c = 47) s). c = 47" using set_takeWhileD by fastforce
  have su: "tokens (s @ x) = tokens (u @ x)" for x using tokens_slashes(1) [OF lead, of "u @ x"] s by (metis append_assoc)
  show ?case
  proof (cases "u = []")
    case True
    then show ?thesis using su [of "47 # t"] su [of "[]"] by simp
  next
    case False
    define w v where "w = takeWhile (\<lambda>c. c \<noteq> 47) u" and "v = dropWhile (\<lambda>c. c \<noteq> 47) u"
    have u: "u = w @ v" by (simp add: w_def v_def)
    have "hd u \<noteq> 47" using False hd_dropWhile [of "\<lambda>c. c = 47" s] by (simp add: u_def)
    then have w: "47 \<notin> set w" "w \<noteq> []" using False set_takeWhileD [of 47 "\<lambda>c. c \<noteq> 47" u] by (auto simp: w_def takeWhile_eq_Nil_iff)
    show ?thesis
    proof (cases v)
      case Nil
      then show ?thesis using su [of "47 # t"] su [of "[]"] u tokens_word [OF w] by simp
    next
      case (Cons c v')
      then have c: "c = 47" using hd_dropWhile [of "\<lambda>c. c \<noteq> 47" u] by (simp add: v_def)
      have "tokens (v' @ 47 # t) = tokens v' @ tokens t" using 1 [of u] False Cons by (simp add: u_def v_def)
      then show ?thesis using su [of "47 # t"] su [of "[]"] u Cons c tokens_word(2) [OF w] by simp
    qed
  qed
qed

lemma swap_ends_rev: "swap_ends B 0 (length B - 1) = rev B"
  using swap_ends_ok [of "[]" 0 "[]" B] by simp

text \<open>A path in three parts: what precedes the last name, the last name, and the slashes behind it. \<open>last_part\<close> is what the last
  loop leaves of the first part.\<close>

definition last_part :: "byte list \<Rightarrow> byte list \<Rightarrow> bool" where
  "last_part pre A \<longleftrightarrow> (pre = [] \<and> A = []) \<or> (\<exists>q. pre = q @ [47] \<and> (q = [] \<or> last q \<noteq> 47) \<and> A = pre)
     \<or> (\<exists>q sl. pre = q @ sl @ [47] \<and> sl \<noteq> [] \<and> (\<forall>c\<in>set sl. c = 47) \<and> (q = [] \<or> last q \<noteq> 47) \<and> A = q)"

lemma cut_pre:
  assumes z: "0 \<notin> set pre" and l: "pre = [] \<or> last pre = 47"
  shows "last_part pre (takeWhile (\<lambda>c. c \<noteq> 0) (fst (cut_slashes (pre @ replicate (Suc m) 0) (length pre - 1))))"
proof (cases "pre = []")
  case False
  let ?A = "pre @ replicate (Suc m) 0"
  define q0 where "q0 = butlast pre"
  have pre: "pre = q0 @ [47]" using False l by (simp add: q0_def) (metis append_butlast_last_id)
  have "length pre - 1 \<le> length ?A" by simp
  from cut_slashes_ok [OF this] obtain k where k: "k \<le> length pre - 1"
      "cut_slashes ?A (length pre - 1) = (take k ?A @ replicate (length pre - 1 - k) 0 @ drop (length pre - 1) ?A, k)"
      "k = 0 \<or> ?A ! (k - 1) \<noteq> 47" "\<forall>i. k \<le> i \<and> i < length pre - 1 \<longrightarrow> ?A ! i = 47" by blast
  have kq: "k \<le> length q0" using k(1) pre by simp
  have f: "fst (cut_slashes ?A (length pre - 1)) = take k q0 @ replicate (length q0 - k) 0 @ 47 # replicate (Suc m) 0" using k(2) kq pre by simp
  have nz: "\<forall>c\<in>set (take k q0). c \<noteq> 0" using z pre by (auto dest: in_set_takeD)
  have tw: "takeWhile (\<lambda>c. c \<noteq> 0) (take k q0 @ x) = take k q0 @ takeWhile (\<lambda>c. c \<noteq> 0) x" for x using nz by (simp add: takeWhile_append)
  have lq: "take k q0 = [] \<or> last (take k q0) \<noteq> 47"
  proof (cases "k = 0")
    case False
    then have "take k q0 \<noteq> []" using kq by auto
    then have "last (take k q0) = q0 ! (k - 1)" using kq False by (simp add: last_conv_nth min_def)
    moreover have "?A ! (k - 1) = q0 ! (k - 1)" using False kq pre by (auto simp: nth_append)
    ultimately show ?thesis using k(3) False by metis
  qed simp
  show ?thesis
  proof (cases "k = length q0")
    case True
    then show ?thesis using f tw lq pre by (auto simp: last_part_def)
  next
    case False
    then have "length q0 - k = Suc (length q0 - k - 1)" using kq by simp
    then have "takeWhile (\<lambda>c. c \<noteq> 0) (replicate (length q0 - k) 0 @ 47 # replicate (Suc m) 0) = ([] :: byte list)" by (metis (mono_tags) append_Cons replicate_Suc takeWhile.simps(2))
    then have "takeWhile (\<lambda>c. c \<noteq> 0) (fst (cut_slashes ?A (length pre - 1))) = take k q0" using f tw by simp
    moreover have "pre = take k q0 @ drop k q0 @ [47]" using pre by simp
    moreover have "\<forall>c\<in>set (drop k q0). c = 47"
    proof
      fix c assume "c \<in> set (drop k q0)"
      then obtain i where "i < length q0 - k" "c = q0 ! (k + i)" by (auto simp: in_set_conv_nth)
      then show "c = 47" using k(4) [rule_format, of "k + i"] pre by (simp add: nth_append)
    qed
    moreover have "drop k q0 \<noteq> []" using False kq by simp
    ultimately show ?thesis using lq unfolding last_part_def by blast
  qed
qed (simp add: last_part_def)

lemma split_str_parts:
  assumes z: "0 \<notin> set path"
  obtains pre A B sl where "path = pre @ B @ sl" "\<forall>c\<in>set sl. c = 47" "47 \<notin> set B" "B = [] \<longrightarrow> pre = []" "split_str path = (A, B)" "last_part pre A"
proof -
  let ?A = "path @ [0]"
  obtain n where n: "n \<le> length path" "cut_slashes ?A (length path) = (take n ?A @ replicate (length path - n) 0 @ [0], n)"
      "n = 0 \<or> ?A ! (n - 1) \<noteq> 47" "\<forall>i. n \<le> i \<and> i < length path \<longrightarrow> ?A ! i = 47"
    using cut_slashes_ok [of "length path" ?A] by auto
  define u sl where "u = take n path" and "sl = drop n path"
  have u: "path = u @ sl" "length u = n" using n(1) by (simp_all add: u_def sl_def)
  define A1 where "A1 = u @ replicate (Suc (length sl)) 0"
  have A1: "cut_slashes ?A (length path) = (A1, n)" using n(2) u by (simp add: A1_def replicate_append_same)
  have lu: "u = [] \<or> last u \<noteq> 47" using n(3) u by (auto simp: last_conv_nth nth_append)
  have sl: "\<forall>c\<in>set sl. c = 47"
  proof
    fix c assume "c \<in> set sl"
    then obtain i where "i < length sl" "c = sl ! i" by (auto simp: in_set_conv_nth)
    then show "c = 47" using n(4) [rule_format, of "n + i"] u by (simp add: nth_append)
  qed
  have "n \<le> length A1" using u by (simp add: A1_def)
  from take_name_ok [OF this, of "[]"] obtain k where k: "k \<le> n" "take_name A1 [] n = (take k A1 @ replicate (n - k) 0 @ drop n A1, rev (drop k (take n A1)), k)"
      "k = 0 \<or> A1 ! (k - 1) = 47" "\<forall>i. k \<le> i \<and> i < n \<longrightarrow> A1 ! i \<noteq> 47" by auto
  define pre B where "pre = take k u" and "B = drop k u"
  have pb: "u = pre @ B" "length pre = k" using k(1) u(2) by (simp_all add: pre_def B_def)
  have lp: "pre = [] \<or> last pre = 47"
  proof (cases "k = 0")
    case False
    then have "pre \<noteq> []" "last pre = A1 ! (k - 1)" using pb by (auto simp: last_conv_nth A1_def nth_append)
    then show ?thesis using k(3) False by simp
  qed (use pb in simp)
  have nB: "47 \<notin> set B"
  proof
    assume "47 \<in> set B"
    then obtain i where "i < length B" "B ! i = 47" by (auto simp: in_set_conv_nth)
    then show False using k(4) [rule_format, of "k + i"] pb u(2) by (simp add: A1_def nth_append)
  qed
  have b0: "B = [] \<longrightarrow> pre = []" using lp lu pb by auto
  have A2: "take k A1 @ replicate (n - k) 0 @ drop n A1 = pre @ replicate (Suc (n - k + length sl)) 0" "take n A1 = u"
  proof -
    have "replicate (n - k) 0 @ replicate (Suc (length sl)) (0 :: byte) = replicate (Suc (n - k + length sl)) 0" by (simp add: replicate_add [symmetric] del: replicate_Suc)
    moreover have "take k A1 = pre" "drop n A1 = replicate (Suc (length sl)) 0" using pb u k(1) by (simp_all add: A1_def pre_def)
    ultimately show "take k A1 @ replicate (n - k) 0 @ drop n A1 = pre @ replicate (Suc (n - k + length sl)) 0" by simp
    show "take n A1 = u" using u by (simp add: A1_def)
  qed
  have r: "rev (drop k u) = rev B" "length (rev (drop k u)) - 1 = length (rev B) - 1" by (simp_all add: B_def)
  have t: "take_name A1 [] n = (pre @ replicate (Suc (n - k + length sl)) 0, rev B, length pre)" using k(2) A2 pb(2) by (simp add: B_def)
  have sw: "swap_ends (rev B) 0 (length (rev B) - 1) = B" using swap_ends_rev [of "rev B"] by simp
  have "split_str path = (takeWhile (\<lambda>c. c \<noteq> 0) (fst (cut_slashes (pre @ replicate (Suc (n - k + length sl)) 0) (length pre - 1))), B)"
    unfolding split_str_def Let_def A1 split_conv t sw by (simp only: case_prod_beta)
  moreover have "0 \<notin> set pre" using z u pb by simp
  note cut_pre [OF this lp, of "n - k + length sl"]
  ultimately have s: "split_str path = (takeWhile (\<lambda>c. c \<noteq> 0) (fst (cut_slashes (pre @ replicate (Suc (n - k + length sl)) 0) (length pre - 1))), B)"
     "last_part pre (takeWhile (\<lambda>c. c \<noteq> 0) (fst (cut_slashes (pre @ replicate (Suc (n - k + length sl)) 0) (length pre - 1))))" .
  have "path = pre @ B @ sl" using u(1) pb(1) by simp
  from that [OF this sl nB b0 s] show thesis .
qed

lemma last_part_cases:
  assumes "last_part pre A"
  obtains "pre = []" "A = []" | q where "pre = q @ [47]" "q = [] \<or> last q \<noteq> 47" "A = pre"
    | q sl where "pre = q @ sl @ [47]" "sl \<noteq> []" "\<forall>c\<in>set sl. c = 47" "q = [] \<or> last q \<noteq> 47" "A = q"
  using assms unfolding last_part_def by blast

lemma last_part_tokens:
  assumes "last_part pre A"
  shows "tokens (pre @ s) = tokens A @ tokens s"
  using assms
proof (cases rule: last_part_cases)
  case (2 q)
  then show ?thesis using tokens_append [of q s] tokens_append [of q "[]"] by simp
next
  case q: (3 q sl)
  obtain sl' where sl: "sl = 47 # sl'" using q(2,3) by (metis list.exhaust list.set_intros(1))
  have "\<forall>c\<in>set sl'. c = 47" using q(3) sl by (metis list.set_intros(2))
  note tokens_slashes(1) [OF this, of "47 # s"]
  then show ?thesis using tokens_append [of q "sl' @ 47 # s"] unfolding q(1,5) sl by simp
qed simp

lemma split_tokens:
  assumes "0 \<notin> set path" "split_str path = (A, B)"
  shows "tokens A @ (if B = [] then [] else [B]) = tokens path \<and> 47 \<notin> set B"
proof -
  from split_str_parts [OF assms(1)] obtain pre A' B' sl where p: "path = pre @ B' @ sl" "\<forall>c\<in>set sl. c = 47" "47 \<notin> set B'"
      "B' = [] \<longrightarrow> pre = []" "split_str path = (A', B')" "last_part pre A'" .
  have e: "A' = A" "B' = B" using p(5) assms(2) by auto
  have sl: "tokens sl = []" using tokens_slashes(2) [OF p(2)] .
  have "tokens (B @ sl) = (if B = [] then [] else [B])"
  proof (cases "B = [] \<or> sl = []")
    case True
    then show ?thesis using sl tokens_word(1) [of B] p(3) e by auto
  next
    case False
    then obtain sl' where s: "sl = 47 # sl'" using p(2) by (metis list.exhaust list.set_intros(1))
    have "tokens sl' = []" using sl unfolding s by simp
    then show ?thesis using False tokens_word(2) [of B sl'] p(3) unfolding s e by simp
  qed
  then show ?thesis using last_part_tokens [OF p(6), of "B @ sl"] p(1,3) e by simp
qed

text \<open>The split of a path agrees with its tokens: those of the first part, and the last name.\<close>

theorem split_str_tokens:
  assumes "0 \<notin> set path" "split_str path = (A, B)"
  shows "tokens A @ (if B = [] then [] else [B]) = tokens path \<and> 47 \<notin> set B"
  by (rule split_tokens [OF assms])

theorem split_str_tokens_witness: "tokens (fst (split_str [47, 97, 47, 47, 98, 99, 47])) @ [[98, 99]] = tokens [47, 97, 47, 47, 98, 99, 47]"
proof -
  have s: "split_str [47, 97, 47, 47, 98, 99, 47] = ([47, 97], [98, 99])" by code_simp
  show ?thesis using split_str_tokens [OF _ s] by (simp only: s fst_conv) simp
qed

text \<open>Two slashes or more before the only name of a path are lost: the path is resolved from the directory of the process.\<close>

theorem split_str_double_slash:
  assumes "0 \<notin> set b" "47 \<notin> set b" "b \<noteq> []" "2 \<le> n"
  shows "split_str (replicate n 47 @ b) = split_str b \<and> split_str b = ([], b)"
proof -
  have *: "split_str (replicate m 47 @ b) = ([], b)" if m: "m \<noteq> 1" for m
  proof -
    have "0 \<notin> set (replicate m 47 @ b)" using assms(1) by auto
    from split_str_parts [OF this] obtain pre A B sl where p: "replicate m 47 @ b = pre @ B @ sl" "\<forall>c\<in>set sl. c = 47" "47 \<notin> set B"
      "B = [] \<longrightarrow> pre = []" "split_str (replicate m 47 @ b) = (A, B)" "last_part pre A" .
    have "sl = []"
    proof (rule ccontr)
      assume "sl \<noteq> []"
      then have "last (replicate m 47 @ b) = 47" using p(1,2) by (metis append_is_Nil_conv last_append last_in_set)
      then show False using assms(2,3) by (metis last_appendR last_in_set)
    qed
    then have e: "replicate m 47 @ b = pre @ B" using p(1) by simp
    have lp: "pre = [] \<or> last pre = 47" using p(6) by (cases rule: last_part_cases) auto
    have tw: "takeWhile (\<lambda>c. c \<noteq> 47) (rev (x @ y)) = rev y" if "47 \<notin> set y" "x = [] \<or> last x = (47 :: byte)" for x y
      using that by (cases x rule: rev_cases) (auto simp: takeWhile_append takeWhile_eq_all_conv)
    have "replicate m 47 = [] \<or> last (replicate m 47) = (47 :: byte)" by (cases "m = 0") (simp_all add: last_replicate)
    from tw [OF assms(2) this] tw [OF p(3) lp] have "b = B" unfolding e by simp
    then have pre: "pre = replicate m 47" using e by simp
    have "A = []" using p(6)
    proof (cases rule: last_part_cases)
      case (2 q)
      have "length q = m - 1" "\<forall>c\<in>set q. c = 47" using 2(1) pre by (metis length_append_singleton length_replicate diff_Suc_1, metis UnCI in_set_replicate set_append)
      then have "q = []" using 2(2) last_in_set by blast
      then show ?thesis using 2(1) pre m by (cases m; cases "m - 1") auto
    next
      case (3 q sl)
      then have "\<forall>c\<in>set q. c = 47" using pre by (metis UnCI in_set_replicate set_append)
      then show ?thesis using 3(4,5) last_in_set by blast
    qed
    then show ?thesis using p(5) \<open>b = B\<close> by simp
  qed
  show ?thesis using * [of n] * [of 0] assms(4) by simp
qed

theorem split_str_double_slash_witness: "split_str [47, 47, 98] = split_str [98]"
proof -
  have "replicate 2 47 @ [98] = ([47, 47, 98] :: byte list)" by (simp add: numeral_2_eq_2)
  moreover have "0 \<notin> set [98 :: byte]" "47 \<notin> set [98 :: byte]" by simp_all
  ultimately show ?thesis using split_str_double_slash [of "[98]" 2] by (metis list.distinct(1) order_refl)
qed

text \<open>Where the split leaves the slash at the beginning of a path: when a name is left in the first part, or when the only name comes
  right behind the slash. Of \<open>/\<close>, of slashes alone and of two slashes and one name it leaves nothing.\<close>

definition absolute :: "byte list \<Rightarrow> bool" where
  "absolute path \<longleftrightarrow> path \<noteq> [] \<and> hd path = 47 \<and> (2 \<le> length (tokens path) \<or> length (tokens path) = 1 \<and> path ! 1 \<noteq> 47)"

lemma split_no_name:
  assumes "0 \<notin> set path" "split_str path = (A, B)" "B = []"
  shows "tokens A = []"
proof -
  from split_str_parts [OF assms(1)] obtain pre A' B' sl where q: "B' = [] \<longrightarrow> pre = []" "split_str path = (A', B')" "last_part pre A'" .
  have "A = []" using q(3) q(1,2) assms(2,3) by (cases rule: last_part_cases) auto
  then show ?thesis using tokens_slashes(2) [of A] by simp
qed

lemma tokens_nonempty: "q \<noteq> [] \<Longrightarrow> last q \<noteq> 47 \<Longrightarrow> tokens q \<noteq> []"
proof -
  assume q: "q \<noteq> []" "last q \<noteq> 47"
  have "dropWhile (\<lambda>c. c = 47) q \<noteq> []" using q(2) last_in_set [OF q(1)] unfolding dropWhile_eq_Nil_conv by blast
  then show ?thesis by (subst tokens.simps, unfold Let_def) (simp only: if_False list.distinct not_False_eq_True)
qed

lemma split_absolute:
  assumes z: "0 \<notin> set path" and s: "split_str path = (A, B)"
  shows "A \<noteq> [] \<and> hd A = 47 \<longleftrightarrow> absolute path"
proof -
  from split_str_parts [OF z] obtain pre A' B' sl where q: "path = pre @ B' @ sl" "\<forall>c\<in>set sl. c = 47" "47 \<notin> set B'"
      "B' = [] \<longrightarrow> pre = []" "split_str path = (A', B')" "last_part pre A'" .
  have e: "A' = A" "B' = B" using q(5) s by auto
  have T: "tokens path = tokens A @ (if B = [] then [] else [B])" using split_tokens [OF z s] by simp
  have one: "tokens A = [] \<Longrightarrow> length (tokens path) \<le> 1" using T by simp
  have nt: "tokens [] = []" by (rule tokens_slashes(2)) simp
  show ?thesis using q(6) unfolding e
  proof (cases rule: last_part_cases)
    case 1
    show ?thesis
    proof (cases "B = []")
      case True
      then show ?thesis using 1(2) T nt by (simp add: absolute_def)
    next
      case False
      then have "hd path \<in> set B" using q(1) e 1(1) by simp
      then show ?thesis using 1(2) q(3) e by (auto simp: absolute_def)
    qed
  next
    case (2 q')
    have B: "B \<noteq> []" using q(4) 2(1) e by auto
    have h: "A \<noteq> []" "hd A = hd path" "path \<noteq> []" using 2(1,3) q(1) by (simp_all add: hd_append)
    show ?thesis
    proof (cases "q' = []")
      case True
      then have p: "path = 47 # B @ sl" using q(1) 2(1) e by simp
      have "tokens A = []" using tokens_slashes(2) [of A] 2 True by simp
      moreover have "hd B \<noteq> 47" using B q(3) e by (metis list.set_sel(1))
      ultimately show ?thesis using h T B p by (cases B) (simp_all add: absolute_def)
    next
      case False
      then have "tokens A \<noteq> []" using tokens_nonempty [of q'] 2 tokens_append [of q' "[]"] by auto
      then have "2 \<le> length (tokens path)" using T B by (cases "tokens A") auto
      then show ?thesis using h by (simp add: absolute_def)
    qed
  next
    case (3 q' sl')
    have B: "B \<noteq> []" using q(4) 3(1) e by auto
    show ?thesis
    proof (cases "q' = []")
      case True
      obtain x where x: "sl' = 47 # x" using 3(2,3) by (metis list.exhaust list.set_intros(1))
      have "\<exists>y. x @ 47 # z = 47 # y" for z using 3(3) x by (cases x) (auto intro: list.set_intros)
      then obtain y where "x @ 47 # (B' @ sl) = 47 # y" by blast
      then have "path = 47 # 47 # y" using q(1) 3(1) x True by simp
      then have "path ! 1 = 47" by simp
      then show ?thesis using 3(5) True T nt by (simp add: absolute_def)
    next
      case False
      then have "tokens A \<noteq> []" using tokens_nonempty [of q'] 3(4,5) by auto
      then have "2 \<le> length (tokens path)" using T B by (cases "tokens A") auto
      then show ?thesis using False q(1) 3(1,5) by (simp add: absolute_def)
    qed
  qed
qed

text \<open>\<open>file_seek\<close> asserts that the position, read as a signed number, is not negative.\<close>

text \<open>A position of 2 GiB or more stops the kernel.\<close>

theorem seek_far_panics:
  assumes "find_open_file fd (procs u me) = Some f" "2 ^ 31 \<le> pos" "pos < 2 ^ 32"
  shows "seek_sys me fd pos u = None"
proof -
  have "(int pos + 2 ^ 31) mod 2 ^ 32 = int pos + 2 ^ 31 - 2 ^ 32" using assms(2,3) by (subst mod_pos_geq) (simp_all add: mod_pos_pos_trivial)
  then have "s32 (int pos) < 0" using assms(3) by (simp add: s32_def)
  then show ?thesis using assms(1) by (simp add: seek_sys_def file_seek_def kassert_def)
qed

end
