(* ===== verification/PathWalk.thy ===== *)
theory PathWalk
  imports Files FsTheorems
begin

text \<open>
  What a path names. \<open>walk\<close> follows the tokens of a path through the directories on the disk; \<open>merge_dir\<close> and \<open>open_sys\<close> are
  shown to reach the same place, to keep the contents of every file, and to leave exactly the inodes open that the caller
  asked for: \<open>open_count\<close> is the number of openers of each sector.
\<close>

section \<open>Open inodes\<close>

definition handle :: "fsys \<Rightarrow> nat \<Rightarrow> nat \<Rightarrow> bool" where
  "handle s p q \<longleftrightarrow> p \<in> set (open_inodes s) \<and> map_option i_sector (inodes s p) = Some q"

definition on_sector :: "fsys \<Rightarrow> nat \<Rightarrow> nat option" where
  "on_sector s q = List.find (\<lambda>p. i_sector (the (inodes s p)) = q) (open_inodes s)"

definition open_count :: "fsys \<Rightarrow> nat \<Rightarrow> int" where
  "open_count s q = (case on_sector s q of None \<Rightarrow> 0 | Some p \<Rightarrow> i_open_cnt (the (inodes s p)))"

text \<open>Each sector has one open inode, and none of the open inodes was removed. They may be locked, and denied to writers, as the
  executable of a running program is; \<open>busy\<close> are the sectors of those that are.\<close>

definition idle_inode :: "inode \<Rightarrow> bool" where
  "idle_inode i \<longleftrightarrow> \<not> i_removed i \<and> 1 \<le> i_open_cnt i \<and> i_open_cnt i < 2 ^ 31"

definition idle :: "fsys \<Rightarrow> bool" where
  "idle s \<longleftrightarrow> (\<forall>p\<in>set (open_inodes s). p < next_inode s \<and> (\<exists>i. inodes s p = Some i \<and> idle_inode i))
     \<and> distinct (map (\<lambda>p. i_sector (the (inodes s p))) (open_inodes s))"

definition busy :: "fsys \<Rightarrow> nat set" where
  "busy s = {q. \<exists>p. handle s p q \<and> \<not> free_inode s p q}"

lemma busyD: "handle s p q \<Longrightarrow> q \<notin> busy s \<Longrightarrow> free_inode s p q"
  by (auto simp: busy_def)

lemma idleD:
  assumes "idle s" "handle s p q"
  obtains i where "inodes s p = Some i" "idle_inode i" "i_sector i = q" "p < next_inode s" "p \<in> set (open_inodes s)"
  using assms unfolding idle_def handle_def by force

lemma handle_unique: "idle s \<Longrightarrow> handle s p q \<Longrightarrow> handle s p' q \<Longrightarrow> p = p'"
  unfolding idle_def handle_def distinct_map by (elim conjE inj_onD) auto

lemma handle_sector: "handle s p q \<Longrightarrow> handle s p q' \<Longrightarrow> q = q'"
  by (auto simp: handle_def)

lemma idle_opens [simp]: "idle s \<Longrightarrow> opens_ok s"
  by (fastforce simp: idle_def opens_ok_def)

lemma on_sector_handle: "idle s \<Longrightarrow> on_sector s q = Some p \<longleftrightarrow> handle s p q"
proof
  assume i: "idle s" and "on_sector s q = Some p"
  then have "p \<in> set (open_inodes s)" "i_sector (the (inodes s p)) = q" by (auto simp: on_sector_def find_Some_iff)
  then show "handle s p q" using i by (auto simp: handle_def idle_def)
next
  assume i: "idle s" and h: "handle s p q"
  then have "on_sector s q \<noteq> None" by (auto simp: on_sector_def find_None_iff handle_def)
  then obtain p' where p': "on_sector s q = Some p'" by blast
  then have "p' \<in> set (open_inodes s)" "i_sector (the (inodes s p')) = q" by (auto simp: on_sector_def find_Some_iff)
  then have "handle s p' q" using i by (auto simp: handle_def idle_def)
  then show "on_sector s q = Some p" using handle_unique [OF i h] p' by simp
qed

lemma count_handle: "idle s \<Longrightarrow> handle s p q \<Longrightarrow> inodes s p = Some i \<Longrightarrow> open_count s q = i_open_cnt i"
  by (simp add: open_count_def on_sector_handle [THEN iffD2])

lemma count_zero: "idle s \<Longrightarrow> (\<And>p. \<not> handle s p q) \<Longrightarrow> open_count s q = 0"
  unfolding open_count_def by (cases "on_sector s q") (auto simp: on_sector_handle)

lemma count_nonneg: "idle s \<Longrightarrow> 0 \<le> open_count s q"
proof (cases "\<exists>p. handle s p q")
  case True
  assume i: "idle s"
  obtain p where p: "handle s p q" using True by blast
  obtain x where x: "inodes s p = Some x" "idle_inode x" by (rule idleD [OF i p])
  show ?thesis using count_handle [OF i p x(1)] x(2) by (simp add: idle_inode_def)
qed (simp add: count_zero)

text \<open>From \<open>s\<close> to \<open>s'\<close> the contents of the disk are the same and the sectors have \<open>g\<close> openers; an inode somebody still has
  open is where it was.\<close>

definition counted :: "fsys \<Rightarrow> (nat \<Rightarrow> int) \<Rightarrow> (nat \<Rightarrow> int) \<Rightarrow> fsys \<Rightarrow> bool" where
  "counted s m g s' \<longleftrightarrow> idle s' \<and> busy s' \<subseteq> busy s \<and> open_count s' = g \<and> (\<forall>r a. handle s r a \<and> 0 < m a \<longrightarrow> handle s' r a)
     \<and> s' = s\<lparr>fs_device := fs_device s', inodes := inodes s', open_inodes := open_inodes s', next_inode := next_inode s'\<rparr>
     \<and> contents_of s' = contents_of s \<and> cap_of s' = cap_of s"

abbreviation recounted :: "fsys \<Rightarrow> (nat \<Rightarrow> int) \<Rightarrow> fsys \<Rightarrow> bool" where
  "recounted s g s' \<equiv> counted s g g s'"

lemmas recounted_def = counted_def

lemma recountedD:
  assumes "counted s m g s'"
  shows "idle s'" "open_count s' = g" "handle s r a \<Longrightarrow> 0 < m a \<Longrightarrow> handle s' r a" "contents_of s' = contents_of s" "cap_of s' = cap_of s"
    "dir_locks s' = dir_locks s" "mallocs s' = mallocs s" "busy s' \<subseteq> busy s"
proof -
  have "s' = s\<lparr>fs_device := fs_device s', inodes := inodes s', open_inodes := open_inodes s', next_inode := next_inode s'\<rparr>"
    using assms unfolding recounted_def by blast
  then show "dir_locks s' = dir_locks s" "mallocs s' = mallocs s" by (cases s, cases s', simp)+
qed (use assms in \<open>auto simp: recounted_def\<close>)

lemma handle_count:
  assumes "idle s" "handle s r a"
  shows "0 < open_count s a"
proof -
  obtain i where "inodes s r = Some i" "idle_inode i" by (rule idleD [OF assms])
  then show ?thesis using count_handle [OF assms] by (simp add: idle_inode_def)
qed

lemma counted_trans:
  assumes "counted s m g t" "counted t m' h u" "\<And>a. 0 < M a \<Longrightarrow> 0 < open_count s a \<Longrightarrow> 0 < m a \<and> 0 < m' a" "idle s"
  shows "counted s M h u"
proof -
  have "handle u r a" if r: "handle s r a" "0 < M a" for r a
    using recountedD(3) [OF assms(1) r(1)] recountedD(3) [OF assms(2)] assms(3) r(2) handle_count [OF assms(4) r(1)] by blast
  moreover have "t = s\<lparr>fs_device := fs_device t, inodes := inodes t, open_inodes := open_inodes t, next_inode := next_inode t\<rparr>"
      "u = t\<lparr>fs_device := fs_device u, inodes := inodes u, open_inodes := open_inodes u, next_inode := next_inode u\<rparr>"
    using assms(1,2) unfolding recounted_def by blast+
  then have "u = s\<lparr>fs_device := fs_device u, inodes := inodes u, open_inodes := open_inodes u, next_inode := next_inode u\<rparr>"
    by (cases s, cases t, cases u) simp
  ultimately show ?thesis using recountedD(4,5,8) [OF assms(1)] recountedD(1,2,4,5,8) [OF assms(2)] unfolding recounted_def by simp
qed

lemma recounted_io:
  assumes "io s (contents_of s) s'" "idle s"
  shows "recounted s (open_count s) s'"
proof -
  note I = io_fields [OF assms(1)]
  have "open_count s' = open_count s" "idle s'" "handle s' = handle s" "busy s' = busy s"
    using assms(2) unfolding fun_eq_iff busy_def free_inode_def open_count_def on_sector_def idle_def handle_def I(3,6,7) by blast+
  moreover have "s' = s\<lparr>fs_device := fs_device s', inodes := inodes s', open_inodes := open_inodes s', next_inode := next_inode s'\<rparr>"
    using assms(1) I unfolding io_def by (cases s, cases s') simp
  ultimately show ?thesis using I unfolding recounted_def by simp
qed

text \<open>A change of the number of openers of an open inode.\<close>

lemma recounted_upd:
  assumes i: "idle s" and h: "handle s p q" and c: "inodes s p = Some i" "1 \<le> c" "c < 2 ^ 31"
  defines "s' \<equiv> s\<lparr>inodes := (inodes s)(p \<mapsto> i\<lparr>i_open_cnt := c\<rparr>)\<rparr>"
  shows "recounted s ((open_count s)(q := c)) s'"
proof -
  have q: "i_sector i = q" "idle_inode i" using idleD [OF i h] c(1) by auto
  have sec: "(\<lambda>p. i_sector (the (inodes s' p))) = (\<lambda>p. i_sector (the (inodes s p)))" using c(1) by (auto simp: s'_def fun_eq_iff)
  have "idle_inode (i\<lparr>i_open_cnt := c\<rparr>)" using q(2) c by (simp add: idle_inode_def)
  moreover have "open_inodes s' = open_inodes s" "next_inode s' = next_inode s" "\<And>r. inodes s' r = (if r = p then Some (i\<lparr>i_open_cnt := c\<rparr>) else inodes s r)"
    by (simp_all add: s'_def)
  ultimately have i': "idle s'" using i unfolding idle_def sec by auto
  have hh: "handle s' r a \<longleftrightarrow> handle s r a" for r a using c(1) by (simp add: handle_def s'_def)
  have "free_inode s' r a \<longleftrightarrow> free_inode s r a" for r a using c(1) by (auto simp: free_inode_def s'_def)
  then have bb: "busy s' \<subseteq> busy s" by (simp add: busy_def hh)
  have "open_count s' a = ((open_count s)(q := c)) a" for a
  proof (cases "\<exists>r. handle s r a")
    case True
    then obtain r where r: "handle s r a" by blast
    obtain x where x: "inodes s r = Some x" by (rule idleD [OF i r])
    show ?thesis
    proof (cases "a = q")
      case True
      then have "r = p" using handle_unique [OF i r] h by simp
      then show ?thesis using True count_handle [OF i' hh [THEN iffD2, OF r]] by (simp add: s'_def)
    next
      case False
      then have "r \<noteq> p" using handle_sector r h by blast
      then have "inodes s' r = Some x" using x by (simp add: s'_def)
      then show ?thesis using False count_handle [OF i' hh [THEN iffD2, OF r]] count_handle [OF i r x] by simp
    qed
  next
    case False
    then show ?thesis using count_zero [OF i', of a] count_zero [OF i, of a] hh h by auto
  qed
  then show ?thesis using i' hh bb unfolding recounted_def by (auto simp: s'_def fun_eq_iff)
qed

lemma inode_reopen_recounted:
  assumes "idle s" "handle s p q" "open_count s q < 2 ^ 31 - 1"
  shows "\<exists>s'. inode_reopen (Some p) s = Some (Some p, s') \<and> recounted s ((open_count s)(q := open_count s q + 1)) s' \<and> handle s' p q
    \<and> fs_device s' = fs_device s"
proof -
  obtain i where i: "inodes s p = Some i" "idle_inode i" by (rule idleD [OF assms(1,2)])
  have c: "open_count s q = i_open_cnt i" by (rule count_handle [OF assms(1,2) i(1)])
  then have b: "1 \<le> i_open_cnt i + 1" "i_open_cnt i + 1 < 2 ^ 31" using i(2) assms(3) by (simp_all add: idle_inode_def)
  have r: "recounted s ((open_count s)(q := i_open_cnt i + 1)) (s\<lparr>inodes := (inodes s)(p \<mapsto> i\<lparr>i_open_cnt := i_open_cnt i + 1\<rparr>)\<rparr>)"
    by (rule recounted_upd [OF assms(1,2) i(1) b])
  have "s32 (i_open_cnt i + 1) = i_open_cnt i + 1" using b by (intro s32_small) simp_all
  then show ?thesis using i(1) r c recountedD(3) [OF r assms(2)] b by (auto simp: inode_reopen_def upd_inode_def)
qed

text \<open>The only opener closes: the inode leaves the list.\<close>

lemma recounted_drop:
  assumes i: "idle s" and h: "handle s p q" and c: "open_count s q = 1"
  defines "s' \<equiv> s\<lparr>inodes := (inodes s)(p := None), open_inodes := remove1 p (open_inodes s)\<rparr>"
  shows "recounted s ((open_count s)(q := 0)) s'"
proof -
  let ?f = "\<lambda>p. i_sector (the (inodes s p))"
  have d: "distinct (open_inodes s)" "inj_on ?f (set (open_inodes s))" using i by (simp_all add: idle_def distinct_map)
  have m: "set (open_inodes s') = set (open_inodes s) - {p}" "distinct (open_inodes s')" using d(1) by (simp_all add: s'_def)
  have same: "inodes s' r = inodes s r" if "r \<noteq> p" for r using that by (simp add: s'_def)
  have "inj_on (\<lambda>p. i_sector (the (inodes s' p))) (set (open_inodes s'))"
    using d(2) m(1) same by (auto simp: inj_on_def)
  moreover have "\<forall>r\<in>set (open_inodes s'). r < next_inode s' \<and> (\<exists>i. inodes s' r = Some i \<and> idle_inode i)"
    using i m(1) same by (auto simp: idle_def) (simp add: s'_def)
  ultimately have i': "idle s'" using m(2) by (simp add: idle_def distinct_map)
  have hh: "handle s' r a \<longleftrightarrow> handle s r a \<and> r \<noteq> p" for r a using m(1) same by (auto simp: handle_def)
  have "free_inode s' r a = free_inode s r a" if "r \<noteq> p" for r a using same [OF that] by (simp add: free_inode_def)
  then have bb: "busy s' \<subseteq> busy s" unfolding busy_def hh by blast
  have "open_count s' a = ((open_count s)(q := 0)) a" for a
  proof (cases "\<exists>r. handle s' r a")
    case True
    then obtain r where r: "handle s' r a" by blast
    obtain x where x: "inodes s' r = Some x" by (rule idleD [OF i' r])
    have "a \<noteq> q" using r hh handle_unique [OF i h] by blast
    moreover have "handle s r a" "inodes s r = Some x" using r hh x same by auto
    ultimately show ?thesis using count_handle [OF i' r x] count_handle [OF i] by simp
  next
    case False
    then have "a = q \<or> (\<forall>r. \<not> handle s r a)" using hh h handle_sector by blast
    then show ?thesis using count_zero [OF i', of a] count_zero [OF i, of a] False by auto
  qed
  moreover have "handle s' r a" if "handle s r a" "a \<noteq> q" for r a using that hh h handle_sector by blast
  ultimately show ?thesis using i' bb unfolding recounted_def by (auto simp: s'_def fun_eq_iff)
qed

lemma inode_close_recounted:
  assumes "idle s" "handle s p q"
  shows "\<exists>s'. inode_close d me (Some p) s = Some s' \<and> recounted s ((open_count s)(q := open_count s q - 1)) s' \<and> fs_device s' = fs_device s"
proof -
  obtain i where i: "inodes s p = Some i" "idle_inode i" by (rule idleD [OF assms])
  have c: "open_count s q = i_open_cnt i" by (rule count_handle [OF assms i(1)])
  have b: "s32 (i_open_cnt i - 1) = i_open_cnt i - 1" using i(2) by (intro s32_small) (simp_all add: idle_inode_def)
  show ?thesis
  proof (cases "i_open_cnt i = 1")
    case True
    let ?t = "s\<lparr>inodes := (inodes s)(p := None), open_inodes := remove1 p (open_inodes s)\<rparr>"
    have "inode_close d me (Some p) s = Some ?t" using i True b by (simp add: inode_close_def upd_inode_def idle_inode_def Let_def)
    then show ?thesis using recounted_drop [OF assms] True c by auto
  next
    case False
    let ?t = "s\<lparr>inodes := (inodes s)(p \<mapsto> i\<lparr>i_open_cnt := i_open_cnt i - 1\<rparr>)\<rparr>"
    have "inode_close d me (Some p) s = Some ?t" using i False b by (simp add: inode_close_def upd_inode_def Let_def)
    moreover have "1 \<le> i_open_cnt i - 1" "i_open_cnt i - 1 < 2 ^ 31" using False i(2) by (auto simp: idle_inode_def)
    ultimately show ?thesis using recounted_upd [OF assms i(1), of "i_open_cnt i - 1"] c by auto
  qed
qed

lemma inode_open_recounted:
  assumes i: "idle s" and m: "mallocs s = []" "q < SECTOR_NUM" and c: "open_count s q < 2 ^ 31 - 1"
  shows "\<exists>p s'. inode_open q s = Some (Some p, s') \<and> recounted s ((open_count s)(q := open_count s q + 1)) s' \<and> handle s' p q \<and> fs_device s' = fs_device s"
proof -
  have f: "find_open q s = Some (on_sector s q)"
    unfolding find_open_def on_sector_def by (rule msearch_total) (use idle_opens [OF i] in \<open>auto simp: opens_ok_def\<close>)
  show ?thesis
  proof (cases "on_sector s q")
    case (Some p)
    then have "handle s p q" using on_sector_handle [OF i] by simp
    then show ?thesis using inode_reopen_recounted [OF i _ c] f Some m by (simp add: inode_open_def) blast
  next
    case None
    let ?p = "next_inode s" and ?i = "\<lparr>i_rwlock = rw_lock_init, i_sector = q, i_open_cnt = 1, i_removed = False, i_deny_write_cnt = 0\<rparr>"
    let ?t = "s\<lparr>inodes := (inodes s)(?p \<mapsto> ?i), open_inodes := ?p # open_inodes s, next_inode := ?p + 1\<rparr>"
    have no: "\<not> handle s r q" for r using None on_sector_handle [OF i, of q r] by simp
    have new: "r \<noteq> ?p" if "r \<in> set (open_inodes s)" for r using i that by (auto simp: idle_def)
    have mm: "map (\<lambda>p. i_sector (the (inodes ?t p))) (open_inodes s) = map (\<lambda>p. i_sector (the (inodes s p))) (open_inodes s)"
      using new by simp
    have nq: "q \<notin> (\<lambda>p. i_sector (the (inodes s p))) ` set (open_inodes s)"
      using no i by (force simp: handle_def idle_def)
    have old: "r < next_inode ?t \<and> (\<exists>i. inodes ?t r = Some i \<and> idle_inode i)" if "r \<in> set (open_inodes s)" for r
      using i new [OF that] that by (auto simp: idle_def)
    have "r < next_inode ?t \<and> (\<exists>i. inodes ?t r = Some i \<and> idle_inode i)" if "r \<in> set (open_inodes ?t)" for r
    proof (cases "r = ?p")
      case True
      then show ?thesis by (simp add: idle_inode_def)
    next
      case False
      then show ?thesis using that by (intro old) simp
    qed
    moreover have "distinct (map (\<lambda>p. i_sector (the (inodes ?t p))) (open_inodes ?t))"
      using i nq mm unfolding idle_def by (simp del: map_eq_conv)
    ultimately have i': "idle ?t" unfolding idle_def by blast
    have hh: "handle ?t r a \<longleftrightarrow> handle s r a \<or> (r = ?p \<and> a = q)" for r a using new by (auto simp: handle_def)
    have "free_inode ?t ?p q" "\<And>r a. r \<noteq> ?p \<Longrightarrow> free_inode ?t r a = free_inode s r a" by (simp_all add: free_inode_def)
    moreover have "r \<noteq> ?p" if "handle s r a" for r a using new that by (simp add: handle_def)
    ultimately have bb: "busy ?t \<subseteq> busy s" unfolding busy_def hh by blast
    have "open_count ?t a = ((open_count s)(q := 1)) a" for a
    proof (cases "\<exists>r. handle s r a")
      case True
      then obtain r where r: "handle s r a" by blast
      obtain x where x: "inodes s r = Some x" "r \<in> set (open_inodes s)" by (rule idleD [OF i r])
      then have "inodes ?t r = Some x" using new by simp
      moreover have "a \<noteq> q" using r no by blast
      ultimately show ?thesis using count_handle [OF i' hh [THEN iffD2, OF disjI1, OF r]] count_handle [OF i r x(1)] by simp
    next
      case False
      show ?thesis
      proof (cases "a = q")
        case True
        then show ?thesis using count_handle [OF i' hh [THEN iffD2, OF disjI2], of ?p q ?i] by simp
      next
        case a: False
        then show ?thesis using False count_zero [OF i', of a] count_zero [OF i, of a] hh by auto
      qed
    qed
    then have "recounted s ((open_count s)(q := 1)) ?t" using i' hh bb unfolding recounted_def by (auto simp: fun_eq_iff)
    moreover have "inode_open q s = Some (Some ?p, ?t)" using f None m by (simp add: inode_open_def Let_def)
    moreover have "open_count s q = 0" using count_zero [OF i] no by simp
    ultimately show ?thesis using hh by fastforce
  qed
qed


section \<open>The directories on the disk\<close>

definition parent_of :: "(nat \<Rightarrow> byte list) \<Rightarrow> nat \<Rightarrow> nat" where
  "parent_of v a = (if a = ROOT_DIR_SECTOR then ROOT_DIR_SECTOR else of_le (take 4 (file_bytes v a)))"

definition enter :: "(nat \<Rightarrow> byte list) \<Rightarrow> nat \<Rightarrow> byte list \<Rightarrow> nat option" where
  "enter v a t =
     (if t = dotdot then Some (parent_of v a)
      else if t = dot then Some a
      else case dir_map (file_bytes v a) t of Some (q, True) \<Rightarrow> Some q | _ \<Rightarrow> None)"

fun walk :: "(nat \<Rightarrow> byte list) \<Rightarrow> nat \<Rightarrow> byte list list \<Rightarrow> nat option" where
  "walk v a [] = Some a"
| "walk v a (t # ts) = (case enter v a t of None \<Rightarrow> None | Some b \<Rightarrow> walk v b ts)"

text \<open>The directories \<open>D\<close> of a well-formed tree, nobody reading or writing one.\<close>

definition dirs_ok :: "nat set \<Rightarrow> fsys \<Rightarrow> bool" where
  "dirs_ok D s \<longleftrightarrow> ROOT_DIR_SECTOR \<in> D \<and> (\<forall>a\<in>D.
     (\<exists>len m. file_ok (cap_of s) (contents_of s) a len m) \<and> dir_bytes_ok (file_bytes (contents_of s) a) \<and> dir_locks s a = rw_lock_init \<and> a \<notin> busy s
     \<and> parent_of (contents_of s) a \<in> D \<and> (a = ROOT_DIR_SECTOR \<or> 4 \<le> length (file_bytes (contents_of s) a))
     \<and> (\<forall>name q b. dir_map (file_bytes (contents_of s) a) name = Some (q, b) \<longrightarrow> q < SECTOR_NUM \<and> (b \<longrightarrow> q \<in> D)))"

lemma dirs_okD:
  assumes "dirs_ok D s" "a \<in> D"
  shows "\<exists>len m. file_ok (cap_of s) (contents_of s) a len m" "dir_bytes_ok (file_bytes (contents_of s) a)" "dir_locks s a = rw_lock_init"
    "parent_of (contents_of s) a \<in> D" "a = ROOT_DIR_SECTOR \<or> 4 \<le> length (file_bytes (contents_of s) a)"
    "dir_map (file_bytes (contents_of s) a) name = Some (q, b) \<Longrightarrow> q < SECTOR_NUM \<and> (b \<longrightarrow> q \<in> D)" "handle s p a \<Longrightarrow> free_inode s p a"
  using assms busyD unfolding dirs_ok_def by blast+

lemma dirs_ok_recounted:
  assumes "dirs_ok D s" "counted s m g s'"
  shows "dirs_ok D s'"
  using assms(1) recountedD(8) [OF assms(2)] unfolding dirs_ok_def recountedD(4-6) [OF assms(2)] by blast

lemma fs_ok_same: "fs_ok n s \<Longrightarrow> fs_device s' = fs_device s \<Longrightarrow> counted s m g s' \<Longrightarrow> fs_ok n s'"
  by (simp add: fs_ok_def recountedD(7))

lemma dirs_sector: "dirs_ok D s \<Longrightarrow> fs_ok n s \<Longrightarrow> a \<in> D \<Longrightarrow> a < SECTOR_NUM"
  using dirs_okD(1) [of D s a] file_okD(2) cap_le by fastforce

lemma dir_open_new: "mallocs s = [] \<Longrightarrow> dir_open d me (Some p) s = Some (Some \<lparr>dr_inode = p, dr_pos = 4\<rparr>, s)"
  by (simp add: dir_open_def)

text \<open>A state in which paths can be resolved; \<open>k\<close> more openers fit in every counter.\<close>

definition resting :: "nat set \<Rightarrow> nat \<Rightarrow> int \<Rightarrow> fsys \<Rightarrow> bool" where
  "resting D n k s \<longleftrightarrow> fs_ok n s \<and> idle s \<and> dirs_ok D s \<and> (\<forall>q. open_count s q + k < 2 ^ 31)"

lemma restingD:
  assumes "resting D n k s"
  shows "fs_ok n s" "idle s" "dirs_ok D s" "open_count s q + k < 2 ^ 31" "mallocs s = []"
  using assms fs_okD(1) unfolding resting_def by blast+

lemma resting_recounted:
  "resting D n k s \<Longrightarrow> counted s m g s' \<Longrightarrow> fs_ok n s' \<Longrightarrow> (\<And>q. g q + k' < 2 ^ 31) \<Longrightarrow> resting D n k' s'"
  using dirs_ok_recounted recountedD(1,2) unfolding resting_def by metis

text \<open>A new opener of a sector, by its number or by an inode that is open already.\<close>

definition adds :: "nat set \<Rightarrow> nat \<Rightarrow> int \<Rightarrow> fsys \<Rightarrow> nat \<Rightarrow> nat \<Rightarrow> fsys \<Rightarrow> bool" where
  "adds D n k s q p s' \<longleftrightarrow> recounted s ((open_count s)(q := open_count s q + 1)) s' \<and> handle s' p q \<and> resting D n (k - 1) s'"

lemma adds_intro:
  assumes "resting D n k s" "recounted s ((open_count s)(q := open_count s q + 1)) s'" "handle s' p q" "fs_ok n s'"
  shows "adds D n k s q p s'"
proof -
  have "((open_count s)(q := open_count s q + 1)) x + (k - 1) < 2 ^ 31" for x using restingD(4) [OF assms(1), of x] by (cases "x = q") auto
  then show ?thesis using resting_recounted [OF assms(1,2,4)] assms(2,3) unfolding adds_def by blast
qed

lemma inode_reopen_adds:
  assumes "resting D n k s" "1 \<le> k" "handle s p q"
  shows "\<exists>s'. inode_reopen (Some p) s = Some (Some p, s') \<and> adds D n k s q p s'"
proof -
  have "open_count s q < 2 ^ 31 - 1" using restingD(4) [OF assms(1), of q] assms(2) by simp
  from inode_reopen_recounted [OF restingD(2) [OF assms(1)] assms(3) this] show ?thesis
    using adds_intro [OF assms(1)] fs_ok_same [OF restingD(1) [OF assms(1)]] by blast
qed

lemma inode_open_adds:
  assumes "resting D n k s" "1 \<le> k" "q < SECTOR_NUM"
  shows "\<exists>p s'. inode_open q s = Some (Some p, s') \<and> adds D n k s q p s'"
proof -
  have "open_count s q < 2 ^ 31 - 1" using restingD(4) [OF assms(1), of q] assms(2) by simp
  from inode_open_recounted [OF restingD(2,5) [OF assms(1)] assms(3) this] show ?thesis
    using adds_intro [OF assms(1)] fs_ok_same [OF restingD(1) [OF assms(1)]] by blast
qed

lemma addsD:
  assumes "adds D n k s q p s'"
  shows "recounted s ((open_count s)(q := open_count s q + 1)) s'" "handle s' p q" "resting D n (k - 1) s'"
  using assms by (simp_all add: adds_def)

lemma adds_after:
  assumes "resting D n k s" "io s (contents_of s) t" "adds D n k t q p s'"
  shows "adds D n k s q p s'"
proof -
  note r = recounted_io [OF assms(2) restingD(2) [OF assms(1)]]
  have c: "open_count t = open_count s" using recountedD(2) [OF r] .
  have i: "idle s" by (rule restingD(2) [OF assms(1)])
  have "recounted s ((open_count s)(q := open_count s q + 1)) s'"
    by (rule counted_trans [OF r addsD(1) [OF assms(3), unfolded c] _ i]) auto
  then show ?thesis using addsD(2,3) [OF assms(3)] by (simp add: adds_def)
qed

lemma resting_io: "resting D n k s \<Longrightarrow> io s (contents_of s) t \<Longrightarrow> fs_ok n t \<Longrightarrow> resting D n k t"
  using resting_recounted [OF _ recounted_io] restingD(2,4) by blast

lemma dir_reopen_adds:
  assumes "resting D n k s" "1 \<le> k" "handle s (dr_inode r) q"
  shows "\<exists>s'. dir_reopen d me r s = Some (Some \<lparr>dr_inode = dr_inode r, dr_pos = 4\<rparr>, s') \<and> adds D n k s q (dr_inode r) s'"
proof -
  obtain s' where "inode_reopen (Some (dr_inode r)) s = Some (Some (dr_inode r), s')" "adds D n k s q (dr_inode r) s'"
    using inode_reopen_adds [OF assms] by blast
  then show ?thesis using dir_open_new restingD(5) [OF addsD(3)] by (auto simp: dir_reopen_def)
qed

lemma dir_open_adds:
  assumes "resting D n k s" "1 \<le> k" "q < SECTOR_NUM"
  shows "\<exists>p s1. inode_open q s = Some (Some p, s1) \<and> dir_open d me (Some p) s1 = Some (Some \<lparr>dr_inode = p, dr_pos = 4\<rparr>, s1) \<and> adds D n k s q p s1"
  using inode_open_adds [OF assms] dir_open_new restingD(5) [OF addsD(3)] by blast

lemma dir_open_root_adds:
  assumes "resting D n k s" "1 \<le> k"
  shows "\<exists>r s'. dir_open_root d me s = Some (Some r, s') \<and> adds D n k s ROOT_DIR_SECTOR (dr_inode r) s'"
proof -
  have "ROOT_DIR_SECTOR < SECTOR_NUM" using dirs_sector [OF restingD(3,1) [OF assms(1)]] restingD(3) [OF assms(1)] by (simp add: dirs_ok_def)
  then show ?thesis using dir_open_adds [OF assms, of ROOT_DIR_SECTOR d me] by (force simp: dir_open_root_def)
qed

lemma dir_get_parent_adds:
  assumes r: "resting D n k s" "1 \<le> k" and h: "handle s (dr_inode r) a" "a \<in> D"
  shows "\<exists>r' s'. dir_get_parent_dir d me r s = Some (Some r', s') \<and> adds D n k s (parent_of (contents_of s) a) (dr_inode r') s'"
proof -
  have i: "inode_get_inumber (dr_inode r) s = Some a" using h(1) by (auto simp: inode_get_inumber_def handle_def)
  have P: "parent_of (contents_of s) a < SECTOR_NUM" using dirs_sector [OF restingD(3,1) [OF r(1)]] dirs_okD(4) [OF restingD(3) [OF r(1)] h(2)] by blast
  show ?thesis
  proof (cases "a = ROOT_DIR_SECTOR")
    case True
    then show ?thesis using dir_open_adds [OF r P, of d me] i by (force simp: dir_get_parent_dir_def parent_of_def)
  next
    case False
    obtain len m where f: "file_ok (cap_of s) (contents_of s) a len m" using dirs_okD(1) [OF restingD(3) [OF r(1)] h(2)] by blast
    have "0 < MAX_LENGTH" by (simp add: MAX_LENGTH_def MAX_BLOCKS_def BLOCK_SECTOR_SIZE_def)
    from inode_read_ok [OF restingD(1) [OF r(1)] dirs_okD(7) [OF restingD(3) [OF r(1)] h(2,1)] f this, of "inode_write_at d me" me 4]
    obtain s1 where s1: "inode_read_at d me (dr_inode r) 4 0 s = Some (take 4 (file_bytes (contents_of s) a), s1)" "io s (contents_of s) s1" "fs_ok n s1"
      by (auto simp: inode_read_at_def)
    have l: "length (take 4 (file_bytes (contents_of s) a)) = 4" using dirs_okD(5) [OF restingD(3) [OF r(1)] h(2)] False by simp
    obtain p s2 where "inode_open (parent_of (contents_of s) a) s1 = Some (Some p, s2)" "dir_open d me (Some p) s2 = Some (Some \<lparr>dr_inode = p, dr_pos = 4\<rparr>, s2)"
        "adds D n k s1 (parent_of (contents_of s) a) p s2" using dir_open_adds [OF resting_io [OF r(1) s1(2,3)] r(2) P] by blast
    then show ?thesis using i s1(1) l False adds_after [OF r(1) s1(2)] by (auto simp: dir_get_parent_dir_def parent_of_def)
  qed
qed

lemma dir_lookup_adds:
  assumes r: "resting D n k s" "1 \<le> k" and h: "handle s (dr_inode r) a" "a \<in> D"
  shows "case dir_map (file_bytes (contents_of s) a) name of
      None \<Rightarrow> \<exists>s'. dir_lookup d me r name s = Some (None, s') \<and> recounted s (open_count s) s' \<and> resting D n k s'
    | Some (q, b) \<Rightarrow> \<exists>p s'. dir_lookup d me r name s = Some (Some (p, b), s') \<and> adds D n k s q p s'"
proof -
  note R = restingD [OF r(1)]
  obtain len m where f: "file_ok (cap_of s) (contents_of s) a len m" using dirs_okD(1) [OF R(3) h(2)] by blast
  have rng: "q < SECTOR_NUM" if "dir_map (file_bytes (contents_of s) a) name = Some (q, b)" for q b
    using dirs_okD(6) [OF R(3) h(2) that] by blast
  note L = dir_lookup_ok [OF R(1) dirs_okD(7) [OF R(3) h(2,1)] f refl dirs_okD(2,3) [OF R(3) h(2)] idle_opens [OF R(2)], of name d me]
  have L: "case dir_map (file_bytes (contents_of s) a) name of
      None \<Rightarrow> \<exists>s'. dir_lookup d me r name s = Some (None, s') \<and> io s (contents_of s) s' \<and> fs_ok n s'
    | Some (q, b) \<Rightarrow> \<exists>p s1 s'. dir_lookup d me r name s = Some (Some (p, b), s') \<and> io s (contents_of s) s1
        \<and> inode_open q s1 = Some (Some p, s') \<and> only_opened q p s1 s' \<and> fs_ok n s'"
    by (rule L) (rule rng)
  show ?thesis
  proof (cases "dir_map (file_bytes (contents_of s) a) name")
    case None
    then obtain s' where "dir_lookup d me r name s = Some (None, s')" "io s (contents_of s) s'" "fs_ok n s'" using L by auto
    then show ?thesis using None recounted_io [OF _ R(2)] resting_io [OF r(1)] by auto
  next
    case (Some x)
    obtain q b where x: "x = (q, b)" by (cases x)
    obtain p s1 s' where s': "dir_lookup d me r name s = Some (Some (p, b), s')" "io s (contents_of s) s1" "inode_open q s1 = Some (Some p, s')"
        "only_opened q p s1 s'" "fs_ok n s'" using L Some x by auto
    have "fs_ok n s1" using s'(5) only_opened_device [OF s'(4)] by (simp add: fs_ok_def)
    from inode_open_adds [OF resting_io [OF r(1) s'(2) this] r(2) rng [OF Some [unfolded x]]]
    have "adds D n k s1 q p s'" using s'(3) by auto
    then show ?thesis using Some x s'(1) adds_after [OF r(1) s'(2)] by auto
  qed
qed

section \<open>Resolving a path\<close>

lemma dir_close_recounted:
  assumes "idle s" "handle s (dr_inode r) a"
  shows "\<exists>s'. dir_close d me (Some r) s = Some s' \<and> recounted s ((open_count s)(a := open_count s a - 1)) s' \<and> fs_device s' = fs_device s"
  using inode_close_recounted [OF assms] by (auto simp: dir_close_def)

text \<open>Opening a sector and closing it again.\<close>

lemma close_added:
  assumes r: "resting D n k s" and a: "adds D n k s q p t"
  shows "\<exists>u. inode_close d me (Some p) t = Some u \<and> recounted s (open_count s) u \<and> resting D n k u"
proof -
  note R = restingD [OF addsD(3) [OF a]]
  have c: "open_count t = (open_count s)(q := open_count s q + 1)" by (rule recountedD(2) [OF addsD(1) [OF a]])
  obtain u where u: "inode_close d me (Some p) t = Some u" "recounted t ((open_count t)(q := open_count t q - 1)) u" "fs_device u = fs_device t"
    using inode_close_recounted [OF R(2) addsD(2) [OF a]] by blast
  have g: "(open_count t)(q := open_count t q - 1) = open_count s" by (simp add: c fun_eq_iff)
  have "recounted s (open_count s) u"
    by (rule counted_trans [OF addsD(1) [OF a] u(2) [unfolded g] _ restingD(2) [OF r]]) auto
  moreover have "fs_ok n u" by (rule fs_ok_same [OF R(1) u(3,2)])
  ultimately show ?thesis using u(1) resting_recounted [OF r] restingD(4) [OF r] by blast
qed

lemma merge_next_ok:
  assumes r: "resting D n k s" "1 \<le> k" and h: "handle s (dr_inode w) a" "a \<in> D"
  shows "case enter (contents_of s) a t of
      None \<Rightarrow> \<exists>s'. merge_next d me t w s = Some (None, s') \<and> recounted s (open_count s) s' \<and> resting D n k s'
    | Some q \<Rightarrow> q \<in> D \<and> (\<exists>r s'. merge_next d me t w s = Some (Some r, s') \<and> adds D n k s q (dr_inode r) s')"
proof (cases "t = dotdot \<or> t = dot")
  case True
  have "dot \<noteq> dotdot" by (simp add: dot_def dotdot_def)
  then show ?thesis
    using True dir_get_parent_adds [OF r h, of d me] dir_reopen_adds [OF r h(1), of d me] dirs_okD(4) [OF restingD(3) [OF r(1)] h(2)] h(2)
    by (auto simp: merge_next_def enter_def)
next
  case False
  show ?thesis
  proof (cases "dir_map (file_bytes (contents_of s) a) t")
    case None
    then show ?thesis using False dir_lookup_adds [OF r h, where name = t and d = d and me = me] by (auto simp: merge_next_def enter_def)
  next
    case (Some x)
    obtain q b where x: "x = (q, b)" by (cases x)
    obtain p s1 where s1: "dir_lookup d me w t s = Some (Some (p, b), s1)" "adds D n k s q p s1" using dir_lookup_adds [OF r h, where name = t and d = d and me = me] Some x by auto
    show ?thesis
    proof (cases b)
      case True
      have "q \<in> D" using dirs_okD(6) [OF restingD(3) [OF r(1)] h(2) Some [unfolded x]] True by blast
      then show ?thesis using True False Some x s1 dir_open_new [OF restingD(5) [OF addsD(3) [OF s1(2)]]]
        by (auto simp: merge_next_def enter_def)
    next
      case b: False
      obtain u where "inode_close d me (Some p) s1 = Some u" "recounted s (open_count s) u" "resting D n k u" using close_added [OF r(1) s1(2)] by blast
      then show ?thesis using b False Some x s1(1) by (auto simp: merge_next_def enter_def)
    qed
  qed
qed

text \<open>One opener of \<open>a\<close> less and one of \<open>b\<close> more.\<close>

definition pass_on :: "nat \<Rightarrow> nat \<Rightarrow> (nat \<Rightarrow> int) \<Rightarrow> nat \<Rightarrow> int" where
  "pass_on a b f = (let g = f(a := f a - 1) in g(b := g b + 1))"

lemma pass_on_simps:
  "pass_on q b (pass_on a q f) = pass_on a b f" "pass_on a a f = f"
  "(f(q := f q + 1))(a := (f(q := f q + 1)) a - 1) = pass_on a q f"
  "(pass_on a q f)(q := pass_on a q f q - 1) = f(a := f a - 1)"
  by (auto simp: pass_on_def Let_def fun_eq_iff)

text \<open>While the walk has \<open>a\<close> open, the other openers leave room for two more.\<close>

definition walking :: "nat set \<Rightarrow> nat \<Rightarrow> nat \<Rightarrow> fsys \<Rightarrow> bool" where
  "walking D n a s \<longleftrightarrow> fs_ok n s \<and> idle s \<and> dirs_ok D s \<and> (\<forall>q. ((open_count s)(a := open_count s a - 1)) q + 2 < 2 ^ 31)"

lemma walking_resting: "walking D n a s \<Longrightarrow> resting D n 1 s"
proof -
  assume w: "walking D n a s"
  have "open_count s q + 1 < 2 ^ 31" for q
    using w unfolding walking_def fun_upd_apply by (cases "q = a") (auto dest!: spec [of _ q])
  then show ?thesis using w by (simp add: walking_def resting_def)
qed

lemma merge_loop_ok:
  assumes "walking D n a s" "handle s (dr_inode w) a" "a \<in> D"
  shows "case walk (contents_of s) a ts of
      None \<Rightarrow> \<exists>s'. merge_loop d me ts w s = Some (None, s') \<and> recounted s ((open_count s)(a := open_count s a - 1)) s' \<and> fs_ok n s'
    | Some b \<Rightarrow> b \<in> D \<and> (\<exists>r s'. merge_loop d me ts w s = Some (Some r, s')
        \<and> counted s ((open_count s)(a := open_count s a - 1)) (pass_on a b (open_count s)) s' \<and> handle s' (dr_inode r) b \<and> fs_ok n s')"
  using assms
proof (induction ts arbitrary: a w s)
  case Nil
  note r = walking_resting [OF Nil.prems(1)]
  have "counted s ((open_count s)(a := open_count s a - 1)) (open_count s) s"
    using restingD(2) [OF r] by (simp add: counted_def)
  then show ?case using Nil.prems(2,3) restingD(1) [OF r] by (auto simp: pass_on_simps)
next
  case (Cons t ts)
  note r = walking_resting [OF Cons.prems(1)] order_refl [of "1 :: int"] and h = Cons.prems(2,3)
  note N = merge_next_ok [OF r h, where t = t and d = d and me = me]
  show ?case
  proof (cases "enter (contents_of s) a t")
    case None
    then obtain s1 where s1: "merge_next d me t w s = Some (None, s1)" "recounted s (open_count s) s1" "resting D n 1 s1" using N by auto
    have h1: "handle s1 (dr_inode w) a" by (rule recountedD(3) [OF s1(2) h(1)]) (rule handle_count [OF restingD(2) [OF r(1)] h(1)])
    obtain s2 where s2: "dir_close d me (Some w) s1 = Some s2" "recounted s1 ((open_count s1)(a := open_count s1 a - 1)) s2" "fs_device s2 = fs_device s1"
      using dir_close_recounted [OF restingD(2) [OF s1(3)] h1] by blast
    have "recounted s ((open_count s)(a := open_count s a - 1)) s2"
      by (rule counted_trans [OF s1(2) s2(2) [unfolded recountedD(2) [OF s1(2)]] _ restingD(2) [OF r(1)]]) auto
    then show ?thesis using None s1(1) s2(1) fs_ok_same [OF restingD(1) [OF s1(3)] s2(3,2)] by auto
  next
    case (Some q)
    then obtain rn s1 where q: "q \<in> D" and s1: "merge_next d me t w s = Some (Some rn, s1)" "adds D n 1 s q (dr_inode rn) s1" using N by auto
    note A = addsD [OF s1(2)]
    have c1: "open_count s1 = (open_count s)(q := open_count s q + 1)" by (rule recountedD(2) [OF A(1)])
    have pos: "0 < open_count s a" by (rule handle_count [OF restingD(2) [OF r(1)] h(1)])
    have h1: "handle s1 (dr_inode w) a" by (rule recountedD(3) [OF A(1) h(1)]) (use pos in auto)
    obtain s2 where s2: "dir_close d me (Some w) s1 = Some s2" "recounted s1 (pass_on a q (open_count s)) s2" "fs_device s2 = fs_device s1"
      using dir_close_recounted [OF restingD(2) [OF A(3)] h1, of d me] unfolding c1 pass_on_simps(3) by blast
    have c2: "open_count s2 = pass_on a q (open_count s)" by (rule recountedD(2) [OF s2(2)])
    have posq: "0 < pass_on a q (open_count s) q" using pos count_nonneg [OF restingD(2) [OF r(1)], of q] by (auto simp: pass_on_def Let_def)
    have h2: "handle s2 (dr_inode rn) q" by (rule recountedD(3) [OF s2(2) A(2) posq])
    have "fs_ok n s2" by (rule fs_ok_same [OF restingD(1) [OF A(3)] s2(3,2)])
    moreover have "dirs_ok D s2" by (rule dirs_ok_recounted [OF restingD(3) [OF A(3)] s2(2)])
    moreover have "(open_count s2)(q := open_count s2 q - 1) = (open_count s)(a := open_count s a - 1)" unfolding c2 by (simp add: pass_on_simps)
    ultimately have R2: "walking D n q s2" using Cons.prems(1) recountedD(1) [OF s2(2)] unfolding walking_def by metis
    have v2: "contents_of s2 = contents_of s" using recountedD(4) [OF s2(2)] recountedD(4) [OF A(1)] by simp
    have t12: "counted s (pass_on a q (open_count s)) (pass_on a q (open_count s)) s2"
      by (rule counted_trans [OF A(1) s2(2) _ restingD(2) [OF r(1)]]) (auto simp: pass_on_def Let_def)
    have T: "counted s ((open_count s)(a := open_count s a - 1)) g s'" if "counted s2 ((open_count s)(a := open_count s a - 1)) g s'" for g s'
      by (rule counted_trans [OF t12 that _ restingD(2) [OF r(1)]]) (auto simp: pass_on_def Let_def split: if_splits)
    have IH: "case walk (contents_of s) q ts of
        None \<Rightarrow> \<exists>s'. merge_loop d me ts rn s2 = Some (None, s') \<and> recounted s2 ((open_count s)(a := open_count s a - 1)) s' \<and> fs_ok n s'
      | Some b \<Rightarrow> b \<in> D \<and> (\<exists>r s'. merge_loop d me ts rn s2 = Some (Some r, s')
          \<and> counted s2 ((open_count s)(a := open_count s a - 1)) (pass_on a b (open_count s)) s' \<and> handle s' (dr_inode r) b \<and> fs_ok n s')"
      using Cons.IH [OF R2 h2 q] unfolding c2 v2 pass_on_simps .
    have m: "merge_loop d me (t # ts) w s = merge_loop d me ts rn s2" using s1(1) s2(1) by simp
    show ?thesis
    proof (cases "walk (contents_of s) q ts")
      case None
      then show ?thesis using IH T Some unfolding m by auto
    next
      case b: (Some b)
      then show ?thesis using IH T Some unfolding m by auto
    qed
  qed
qed

definition start :: "nat \<Rightarrow> byte list \<Rightarrow> nat" where
  "start a path = (if path \<noteq> [] \<and> hd path = 47 then ROOT_DIR_SECTOR else a)"

lemma merge_dir_ok:
  assumes r: "resting D n k s" "2 \<le> k" and h: "handle s (dr_inode w) a" "a \<in> D"
  shows "case walk (contents_of s) (start a req) (tokens req) of
      None \<Rightarrow> \<exists>s'. merge_dir d me (Some w) req s = Some (None, s') \<and> recounted s (open_count s) s' \<and> resting D n k s'
    | Some b \<Rightarrow> b \<in> D \<and> (\<exists>r s'. merge_dir d me (Some w) req s = Some (Some r, s') \<and> adds D n k s b (dr_inode r) s')"
proof -
  note R = restingD [OF r(1)]
  let ?a = "start a req"
  have aD: "?a \<in> D" using h(2) R(3) by (auto simp: start_def dirs_ok_def)
  have x: "xmalloc s = Some s" using R(5) by (simp add: xmalloc_def)
  obtain w1 s1 where s1: "(if req \<noteq> [] \<and> hd req = 47 then dir_open_root d me s else dir_reopen d me w s) = Some (Some w1, s1)"
      "adds D n k s ?a (dr_inode w1) s1"
    using dir_open_root_adds [OF r(1), of d me] dir_reopen_adds [OF r(1) _ h(1), of d me] r(2)
    by (cases "req \<noteq> [] \<and> hd req = 47") (auto simp: start_def)
  note A = addsD [OF s1(2)]
  let ?f = "open_count s"
  have c1: "open_count s1 = ?f(?a := ?f ?a + 1)" by (rule recountedD(2) [OF A(1)])
  have m1: "(open_count s1)(?a := open_count s1 ?a - 1) = ?f" "pass_on ?a b (open_count s1) = ?f(b := ?f b + 1)" for b
    unfolding c1 by (auto simp: pass_on_def Let_def fun_eq_iff)
  have "?f q + 2 < 2 ^ 31" for q using R(4) [of q] r(2) by simp
  then have W: "walking D n ?a s1" using restingD(1-3) [OF A(3)] unfolding walking_def m1 by blast
  have v1: "contents_of s1 = contents_of s" by (rule recountedD(4) [OF A(1)])
  note L = merge_loop_ok [OF W A(2) aD, where ts = "tokens req" and d = d and me = me, unfolded m1 v1]
  have md: "merge_dir d me (Some w) req s = merge_loop d me (tokens req) w1 s1" by (simp only: merge_dir_def x Option.bind.simps s1(1) prod.case option.case)
  show ?thesis
  proof (cases "walk (contents_of s) ?a (tokens req)")
    case None
    then obtain s2 where s2: "merge_loop d me (tokens req) w1 s1 = Some (None, s2)" "recounted s1 ?f s2" "fs_ok n s2" using L by auto
    have "recounted s ?f s2" by (rule counted_trans [OF A(1) s2(2) _ R(2)]) auto
    then show ?thesis using None md s2(1) resting_recounted [OF r(1) _ s2(3) R(4)] by auto
  next
    case (Some b)
    then obtain w2 s2 where b: "b \<in> D" and s2: "merge_loop d me (tokens req) w1 s1 = Some (Some w2, s2)"
        "counted s1 ?f (?f(b := ?f b + 1)) s2" "handle s2 (dr_inode w2) b" "fs_ok n s2" using L by auto
    have "recounted s (?f(b := ?f b + 1)) s2" by (rule counted_trans [OF A(1) s2(2) _ R(2)]) auto
    then show ?thesis using Some md s2(1) b adds_intro [OF r(1) _ s2(3,4)] by auto
  qed
qed

section \<open>Opening what a path names\<close>

definition last_step :: "(nat \<Rightarrow> byte list) \<Rightarrow> nat \<Rightarrow> byte list \<Rightarrow> (nat \<times> bool) option" where
  "last_step v a name =
     (case dir_map (file_bytes v a) name of Some x \<Rightarrow> Some x | None \<Rightarrow> if name = [] \<or> name = dot then Some (a, True) else None)"

lemma filesys_open_adds:
  assumes r: "resting D n k s" "1 \<le> k" and h: "handle s (dr_inode w) a" "a \<in> D"
  shows "case last_step (contents_of s) a name of
      None \<Rightarrow> \<exists>s'. filesys_open d me (Some w) name s = Some (None, None, s') \<and> recounted s (open_count s) s' \<and> resting D n k s'
    | Some (q, b) \<Rightarrow> \<exists>f s'. filesys_open d me (Some w) name s = Some (Some f, Some b, s') \<and> f_pos f = 0 \<and> adds D n k s q (f_inode f) s'"
proof (cases "dir_map (file_bytes (contents_of s) a) name")
  case (Some x)
  obtain q b where x: "x = (q, b)" by (cases x)
  obtain p s1 where s1: "dir_lookup d me w name s = Some (Some (p, b), s1)" "adds D n k s q p s1"
    using dir_lookup_adds [OF r h, where name = name and d = d and me = me] Some x by auto
  then show ?thesis using Some x file_open_ok [OF restingD(5) [OF addsD(3) [OF s1(2)]]]
    by (auto simp: filesys_open_def last_step_def map_handle_def)
next
  case None
  obtain s1 where s1: "dir_lookup d me w name s = Some (None, s1)" "recounted s (open_count s) s1" "resting D n k s1"
    using dir_lookup_adds [OF r h, where name = name and d = d and me = me] None by auto
  show ?thesis
  proof (cases "name = [] \<or> name = dot")
    case True
    have h1: "handle s1 (dr_inode w) a" by (rule recountedD(3) [OF s1(2) h(1)]) (rule handle_count [OF restingD(2) [OF r(1)] h(1)])
    obtain s2 where s2: "inode_reopen (Some (dr_inode w)) s1 = Some (Some (dr_inode w), s2)" "adds D n k s1 a (dr_inode w) s2"
      using inode_reopen_adds [OF s1(3) r(2) h1] by blast
    note A = addsD [OF s2(2)]
    have "recounted s ((open_count s)(a := open_count s a + 1)) s2"
      by (rule counted_trans [OF s1(2) A(1) [unfolded recountedD(2) [OF s1(2)]] _ restingD(2) [OF r(1)]]) auto
    then have "adds D n k s a (dr_inode w) s2" using A(2,3) by (simp add: adds_def)
    then show ?thesis using None True s1(1) s2(1) file_open_ok [OF restingD(5) [OF A(3)]]
      by (auto simp: filesys_open_def last_step_def map_handle_def dir_get_inode_def)
  next
    case False
    then show ?thesis using None s1 restingD(5) [OF s1(3)] by (auto simp: filesys_open_def last_step_def file_open_def inode_close_def)
  qed
qed

text \<open>The sector a path names for \<open>open\<close>, and whether it is a directory; \<open>cwd\<close> is the directory of the process. A path that is not
  \<open>absolute\<close> begins there: one without a slash at its beginning, and also \<open>/\<close>, slashes alone, and one name behind two slashes or
  more. Without a name the directory itself is named.\<close>

definition target :: "(nat \<Rightarrow> byte list) \<Rightarrow> nat \<Rightarrow> byte list \<Rightarrow> (nat \<times> bool) option" where
  "target v cwd path =
     (case walk v (if absolute path then ROOT_DIR_SECTOR else cwd) (butlast (tokens path)) of
        None \<Rightarrow> None
      | Some a \<Rightarrow> last_step v a (if tokens path = [] then [] else List.last (tokens path)))"

lemma open_step_adds:
  fixes d me n :: nat and w :: dir and path :: "byte list" and s :: fsys and a :: nat and m :: "(open_file option \<times> bool option \<times> fsys) option"
  assumes r: "resting D n 3 s" and h: "handle s (dr_inode w) a" "a \<in> D" and z: "0 \<notin> set path"
  defines "m \<equiv> do {
      (res, s) \<leftarrow> merge_dir d me (Some w) (fst (split_str path)) s;
      if res = None then Some (None, None, s)
      else do { (f, is_dir, s) \<leftarrow> filesys_open d me res (snd (split_str path)) s; s \<leftarrow> dir_close d me res s; Some (f, is_dir, s) } }"
  shows "case target (contents_of s) a path of
      None \<Rightarrow> \<exists>is_dir s'. m = Some (None, is_dir, s') \<and> recounted s (open_count s) s'
    | Some (q, b) \<Rightarrow> \<exists>f s'. m = Some (Some f, Some b, s') \<and> f_pos f = 0 \<and> adds D n 3 s q (f_inode f) s'"
proof -
  obtain A B where AB: "split_str path = (A, B)" by (cases "split_str path")
  let ?b = "if absolute path then ROOT_DIR_SECTOR else a"
  have T: "tokens path = tokens A @ (if B = [] then [] else [B])" using split_tokens [OF z AB] by simp
  have ts: "butlast (tokens path) = tokens A" "(if tokens path = [] then [] else List.last (tokens path)) = B"
    using T split_no_name [OF z AB] by simp_all
  have st: "start a A = ?b" using split_absolute [OF z AB] by (simp add: start_def)
  note R = restingD [OF r]
  note M = merge_dir_ok [OF r _ h, of d me A, simplified, unfolded st]
  show ?thesis
  proof (cases "walk (contents_of s) ?b (tokens A)")
    case None
    then show ?thesis using M by (auto simp: target_def ts m_def AB)
  next
    case (Some c)
    then obtain w1 s1 where cD: "c \<in> D" and s1: "merge_dir d me (Some w) A s = Some (Some w1, s1)" "adds D n 3 s c (dr_inode w1) s1" using M by auto
    note A1 = addsD [OF s1(2)]
    have v1: "contents_of s1 = contents_of s" by (rule recountedD(4) [OF A1(1)])
    have c1: "open_count s1 = (open_count s)(c := open_count s c + 1)" by (rule recountedD(2) [OF A1(1)])
    have tg: "target (contents_of s) a path = last_step (contents_of s) c B" using Some by (simp add: target_def ts)
    note F = filesys_open_adds [OF A1(3) _ A1(2) cD, where name = B and d = d and me = me, simplified, unfolded v1]
    have close: "\<exists>t'. dir_close d me (Some w1) t = Some t' \<and> recounted s g t' \<and> (fs_ok n t \<longrightarrow> fs_ok n t')
        \<and> (\<forall>p x. handle t p x \<and> 0 < g x \<longrightarrow> handle t' p x)"
      if t: "recounted s1 (g(c := g c + 1)) t" "\<And>x. 0 \<le> g x" for t g
    proof -
      have ht: "handle t (dr_inode w1) c" by (rule recountedD(3) [OF t(1) A1(2)]) (use t(2) [of c] in simp)
      have g: "(open_count t)(c := open_count t c - 1) = g" using recountedD(2) [OF t(1)] by (simp add: fun_eq_iff)
      obtain t' where t': "dir_close d me (Some w1) t = Some t'" "recounted t g t'" "fs_device t' = fs_device t"
        using dir_close_recounted [OF recountedD(1) [OF t(1)] ht, of d me] unfolding g by blast
      have "recounted s1 g t'" by (rule counted_trans [OF t(1) t'(2) _ recountedD(1) [OF A1(1)]]) (use t(2) in \<open>auto simp: add_increasing2\<close>)
      then have "recounted s g t'" by (rule counted_trans [OF A1(1) _ _ R(2)]) auto
      then show ?thesis using t'(1) fs_ok_same [OF _ t'(3,2)] recountedD(3) [OF t'(2)] by blast
    qed
    show ?thesis
    proof (cases "last_step (contents_of s) c B")
      case None
      then obtain s2 where s2: "filesys_open d me (Some w1) B s1 = Some (None, None, s2)" "recounted s1 (open_count s1) s2" using F by auto
      obtain s3 where "dir_close d me (Some w1) s2 = Some s3" "recounted s (open_count s) s3"
        using close [OF s2(2) [unfolded c1]] count_nonneg [OF R(2)] by blast
      then show ?thesis using None tg s1(1) s2(1) by (simp add: m_def AB)
    next
      case (Some x)
      obtain q b where x: "x = (q, b)" by (cases x)
      obtain f s2 where s2: "filesys_open d me (Some w1) B s1 = Some (Some f, Some b, s2)" "f_pos f = 0" "adds D n 2 s1 q (f_inode f) s2"
        using F Some x by auto
      note A2 = addsD [OF s2(3)]
      let ?g = "(open_count s)(q := open_count s q + 1)"
      have "(open_count s1)(q := open_count s1 q + 1) = ?g(c := ?g c + 1)" unfolding c1 by (auto simp: fun_eq_iff)
      note t = A2(1) [unfolded this]
      have nn: "0 \<le> ?g y" for y using count_nonneg [OF R(2)] by (simp add: add_increasing2)
      obtain s3 where s3: "dir_close d me (Some w1) s2 = Some s3" "recounted s ?g s3" "fs_ok n s3" "\<forall>p x. handle s2 p x \<and> 0 < ?g x \<longrightarrow> handle s3 p x"
        using close [OF t nn] restingD(1) [OF A2(3)] by blast
      have "0 < ?g q" using count_nonneg [OF R(2), of q] by simp
      then have "handle s3 (f_inode f) q" using s3(4) A2(2) by blast
      then have "adds D n 3 s q (f_inode f) s3" using adds_intro [OF r s3(2) _ s3(3)] by blast
      then show ?thesis using Some x tg s1(1) s2(1,2) s3(1) by (simp add: m_def AB)
    qed
  qed
qed




text \<open>A formatted disk, with the root directory as the directory of the process.\<close>

definition fresh_users :: "dir \<Rightarrow> fsys \<Rightarrow> users" where
  "fresh_users w s = \<lparr>ufs = s, procs = (\<lambda>_. \<lparr>open_files = [], active_dir = Some w\<rparr>), FD_C = 2, keys = [], console = []\<rparr>"

lemma booted_resting:
  "\<exists>(w :: dir) s. resting {ROOT_DIR_SECTOR} 60000 4 s \<and> handle s (dr_inode w) ROOT_DIR_SECTOR \<and> file_bytes (contents_of s) ROOT_DIR_SECTOR = []"
proof -
  obtain s own mm where s: "map_inv 1 own 8 mm s" "formatted own mm s" "fs_ok 60000 s"
      "open_inodes s = [1]" "next_inode s = 2" "dir_locks s = dir_locks cold" "map_open 1 s"
    using filesys_init_ok [OF disk_blank(1,2), of "[0, 0]" 0 7 "[]"] disk_blank(3-5) by (auto simp: cold_def)
  let ?R = ROOT_DIR_SECTOR
  have f: "file_ok (cap_of s) (contents_of s) ?R 0 1" using s(2) by (simp add: formatted_def)
  have e: "file_bytes (contents_of s) ?R = []" using length_file_bytes [OF f] by simp
  obtain i where i: "inodes s 1 = Some i" "idle_inode i" "i_open_cnt i = 1"
    "i_sector i = FREE_MAP_SECTOR" "free_inode s 1 FREE_MAP_SECTOR"
    using s(1,7) by (auto simp: map_inv_def map_file_def free_inode_def map_open_def idle_inode_def)
  then have idle: "idle s" using s(4,5) by (simp add: idle_def)
  have "open_count s q \<le> 1" for q using i s(4) by (simp add: open_count_def on_sector_def)
  then have c: "open_count s q + 5 < 2 ^ 31" for q using order_le_less_trans [of "open_count s q" 1 "2 ^ 31 - 5"] by simp
  have "dir_map [] = (\<lambda>_. None)" by (simp add: fun_eq_iff dir_map_def dir_entries_def slots_def dir_alist_def)
  moreover have "busy s = {}" using i(1,4,5) s(4) by (auto simp: busy_def handle_def)
  ultimately have "dirs_ok {?R} s" using f e s(6) unfolding dirs_ok_def by (auto simp: parent_of_def dir_bytes_ok_def cold_def)
  then have r: "resting {?R} 60000 5 s" using s(3) idle c by (simp add: resting_def)
  obtain w :: dir and s' where "adds {?R} 60000 5 s ?R (dr_inode w) s'" using dir_open_root_adds [OF r, of 0 0] by auto
  note A = addsD [OF this]
  show ?thesis using A(2,3) e recountedD(4) [OF A(1)] by (intro exI [of _ w] exI [of _ s']) simp
qed

lemma resting_mono: "resting D n k s \<Longrightarrow> k' \<le> k \<Longrightarrow> resting D n k' s"
proof -
  assume r: "resting D n k s" "k' \<le> k"
  have "open_count s q + k' < 2 ^ 31" for q using restingD(4) [OF r(1), of q] r(2) by linarith
  then show ?thesis using r(1) by (simp add: resting_def)
qed


text \<open>(C40) The last name of a path given to \<open>open\<close> is looked up as it is: \<open>open ("..")\<close> fails, although \<open>chdir ("..")\<close> from the
  same state succeeds and moves the process to the parent directory.\<close>

theorem open_parent_fails:
  assumes "resting D n 3 (ufs u)" "active_dir (procs u me) = Some w" "handle (ufs u) (dr_inode w) a" "a \<in> D"
    and "dir_map (file_bytes (contents_of (ufs u)) a) dotdot = None"
  shows "(\<exists>s'. open_sys d me (Some dotdot) False u = Some (- 1, u\<lparr>ufs := s'\<rparr>))
    \<and> (\<exists>r u'. chdir d me dotdot u = Some (True, u') \<and> active_dir (procs u' me) = Some r
         \<and> handle (ufs u') (dr_inode r) (parent_of (contents_of (ufs u)) a))"
proof -
  have d: "47 \<notin> set dotdot" "dotdot \<noteq> []" "0 \<notin> set dotdot" "dotdot \<noteq> dot" by (simp_all add: dotdot_def dot_def)
  have tk: "tokens dotdot = [dotdot]" by (rule tokens_word(1) [OF d(1,2)])
  let ?s = "ufs u"
  have hd: "hd dotdot \<noteq> 47" using d(1,2) by (metis list.set_sel(1))
  then have pl: "\<not> absolute dotdot" by (simp add: absolute_def)
  have st: "start a dotdot = a" using hd by (simp add: start_def)
  obtain A B where AB: "split_str dotdot = (A, B)" by (cases "split_str dotdot")
  have x: "xmalloc ?s = Some ?s" using restingD(5) [OF assms(1)] by (simp add: xmalloc_def)
  show ?thesis
  proof
    have t: "target (contents_of ?s) a dotdot = None" using assms(5) d by (simp add: target_def tk pl last_step_def)
    note M = open_step_adds [OF assms(1,3,4) d(3), of d me, unfolded AB fst_conv snd_conv t option.case]
    then show "\<exists>s'. open_sys d me (Some dotdot) False u = Some (- 1, u\<lparr>ufs := s'\<rparr>)"
      using d(2) x assms(2) by (cases "merge_dir d me (Some w) A ?s") (auto simp: open_sys_def resolve_def AB)
  next
    have wk: "walk (contents_of ?s) (start a dotdot) (tokens dotdot) = Some (parent_of (contents_of ?s) a)"
      by (simp add: tk st enter_def)
    obtain r s1 where s1: "merge_dir d me (Some w) dotdot ?s = Some (Some r, s1)" "adds D n 3 ?s (parent_of (contents_of ?s) a) (dr_inode r) s1"
      using merge_dir_ok [OF assms(1) _ assms(3,4), of d me dotdot] unfolding wk by auto
    show "\<exists>r u'. chdir d me dotdot u = Some (True, u') \<and> active_dir (procs u' me) = Some r \<and> handle (ufs u') (dr_inode r) (parent_of (contents_of ?s) a)"
    proof -
      note A = addsD [OF s1(2)]
      let ?p = "parent_of (contents_of ?s) a" and ?f = "open_count ?s"
      have c1: "open_count s1 = ?f(?p := ?f ?p + 1)" by (rule recountedD(2) [OF A(1)])
      have pos: "0 < ?f a" by (rule handle_count [OF restingD(2) [OF assms(1)] assms(3)])
      have h1: "handle s1 (dr_inode w) a" by (rule recountedD(3) [OF A(1) assms(3)]) (use pos in auto)
      obtain s2 where s2: "dir_close d me (Some w) s1 = Some s2" "recounted s1 ((open_count s1)(a := open_count s1 a - 1)) s2"
        using dir_close_recounted [OF restingD(2) [OF A(3)] h1] by blast
      have "0 < ((open_count s1)(a := open_count s1 a - 1)) ?p"
        unfolding c1 using pos count_nonneg [OF restingD(2) [OF assms(1)], of ?p] by auto
      from recountedD(3) [OF s2(2) A(2) this] show ?thesis using x s1(1) s2(1) assms(2) by (simp add: chdir_def)
    qed
  qed
qed

theorem open_parent_fails_witness:
  "\<exists>w s s'. open_sys 1 7 (Some [46, 46]) False (fresh_users w s) = Some (- 1, (fresh_users w s)\<lparr>ufs := s'\<rparr>)"
proof -
  let ?R = ROOT_DIR_SECTOR
  obtain w :: dir and s where s: "resting {?R} 60000 4 s" "handle s (dr_inode w) ?R" "file_bytes (contents_of s) ?R = []" using booted_resting by blast
  let ?u = "fresh_users w s"
  have u: "ufs ?u = s" "active_dir (procs ?u 7) = Some w" by (simp_all add: fresh_users_def)
  have "dir_map (file_bytes (contents_of (ufs ?u)) ?R) dotdot = None" using s(3) u by (simp add: dir_map_def dir_entries_def slots_def dir_alist_def)
  moreover have "resting {?R} 60000 3 (ufs ?u)" "handle (ufs ?u) (dr_inode w) ?R" using resting_mono [OF s(1)] s(2) u by simp_all
  ultimately show ?thesis using open_parent_fails [OF _ u(2), of "{?R}" 60000 ?R 1] unfolding dotdot_def by blast
qed

end
