(* ===== verification/Swap.thy ===== *)
theory Swap
  imports Pagedir CachedBlock
begin

unbundle bit_operations_syntax

text \<open>
  \<open>vm/swap.c\<close>: pages kept on the swap device. A page takes \<open>NUM_OF_HARD_DISK_SEGMENT\<close> sectors; a bitmap says which of the
  slots are taken.

  \<open>hw_store\<close> is a store of the kernel through its mapping of the memory: the processor marks the page table entry of the
  active directory as accessed and dirty. This matters, as eviction asks whether the kernel's alias of a page is dirty.
\<close>

section \<open>The functions of the source\<close>

definition NUM_OF_HARD_DISK_SEGMENT :: nat where
  "NUM_OF_HARD_DISK_SEGMENT = PGSIZE div BLOCK_SECTOR_SIZE"

definition BLOCK_SECTOR_T_ERROR :: nat where
  "BLOCK_SECTOR_T_ERROR = 2 ^ 32 - 1"

text \<open>The block device with role \<open>BLOCK_SWAP\<close> and the map \<open>s_map\<close>, \<open>None\<close> before \<open>swap_init\<close>. Nothing keeps the lock of
  the map while it waits for a page, so each function is one step.\<close>

record swap =
  swap_device :: block
  s_map :: "bitmap option"

text \<open>The bytes of memory from an address on.\<close>

definition peek :: "nat \<Rightarrow> nat \<Rightarrow> mmu \<Rightarrow> byte list" where
  "peek a n st = map (ram (phys st)) [a..<a + n]"

definition poke :: "nat \<Rightarrow> byte list \<Rightarrow> mmu \<Rightarrow> mmu" where
  "poke a bs st = st\<lparr>phys := phys st\<lparr>ram := (\<lambda>x. if a \<le> x \<and> x < a + length bs then bs ! (x - a) else ram (phys st) x)\<rparr>\<rparr>"

definition hw_store :: "nat \<Rightarrow> byte list \<Rightarrow> mmu \<Rightarrow> mmu option" where
  "hw_store a bs st =
     (if bs = [] then Some st
      else do {
        pd \<leftarrow> active_pd st;
        (pte, st) \<leftarrow> lookup_page pd a False st;
        kassert (pte \<noteq> 0 \<and> rd st pte AND PTE_P \<noteq> 0);
        Some (poke a bs (wr pte (rd st pte OR PTE_A OR PTE_D) st))
      })"

text \<open>\<open>hdr\<close> and \<open>buf\<close> are what \<open>malloc\<close> returns to \<open>bitmap_create\<close>; a map that could not be created is a null pointer.\<close>

definition swap_init :: "bool \<Rightarrow> 32 word list option \<Rightarrow> swap \<Rightarrow> swap option" where
  "swap_init hdr buf w =
     do {
       kassert (PGSIZE mod BLOCK_SECTOR_SIZE = 0);
       m \<leftarrow> bitmap_create hdr buf (u32 (block_size (swap_device w) * BLOCK_SECTOR_SIZE) div PGSIZE);
       Some (w\<lparr>s_map := m\<rparr>)
     }"

text \<open>The loop writes sector after sector from the page.\<close>

definition write_sectors :: "nat \<Rightarrow> nat \<Rightarrow> mmu \<Rightarrow> block \<Rightarrow> block option" where
  "write_sectors start kpage st b =
     mfold (\<lambda>i b. block_write b (start + i) (peek (kpage + BLOCK_SECTOR_SIZE * i) BLOCK_SECTOR_SIZE st)) [0..<NUM_OF_HARD_DISK_SEGMENT] b"

definition swap_write :: "nat \<Rightarrow> mmu \<Rightarrow> swap \<Rightarrow> (nat \<times> swap) option" where
  "swap_write kpage st w =
     do {
       m \<leftarrow> s_map w;
       kassert (kpage \<noteq> 0);
       kassert (is_kernel_vaddr kpage);
       (t, m) \<leftarrow> bitmap_scan_and_flip m 0 1 False;
       let w = w\<lparr>s_map := Some m\<rparr>;
       if t = BITMAP_ERROR then Some (BLOCK_SECTOR_T_ERROR, w)
       else do {
         let start = u32 (t * NUM_OF_HARD_DISK_SEGMENT);
         b \<leftarrow> write_sectors start kpage st (swap_device w);
         Some (start, w\<lparr>swap_device := b\<rparr>)
       }
     }"

text \<open>\<open>pagedir\<close> is that of the current thread. The address the block layer stores to is found anew for every sector.\<close>

definition read_sector :: "nat \<Rightarrow> nat \<Rightarrow> nat \<Rightarrow> nat \<Rightarrow> mmu \<times> block \<Rightarrow> (mmu \<times> block) option" where
  "read_sector pagedir t vaddr i = (\<lambda>(st, b).
     do {
       kassert (pagedir \<noteq> 0);
       (bs, b) \<leftarrow> block_read b (t + i);
       a \<leftarrow> pagedir_get_page pagedir (vaddr + BLOCK_SECTOR_SIZE * i) st;
       st \<leftarrow> hw_store a bs st;
       Some (st, b)
     })"

definition swap_read :: "nat \<Rightarrow> nat \<Rightarrow> nat \<Rightarrow> mmu \<Rightarrow> swap \<Rightarrow> (mmu \<times> swap) option" where
  "swap_read pagedir t vaddr st w =
     do {
       m \<leftarrow> s_map w;
       kassert (vaddr = 0 \<or> is_user_vaddr vaddr);
       kassert (t mod NUM_OF_HARD_DISK_SEGMENT = 0);
       all \<leftarrow> bitmap_all m (t div NUM_OF_HARD_DISK_SEGMENT) 1;
       kassert all;
       (st, b) \<leftarrow> (if vaddr \<noteq> 0
         then mfold (read_sector pagedir t vaddr) [0..<NUM_OF_HARD_DISK_SEGMENT] (st, swap_device w)
         else Some (st, swap_device w));
       m \<leftarrow> bitmap_set m (t div NUM_OF_HARD_DISK_SEGMENT) False;
       Some (st, w\<lparr>s_map := Some m, swap_device := b\<rparr>)
     }"

end
