(* ===== verification/KernelHalf.thy ===== *)
theory KernelHalf
  imports Swap
begin

unbundle bit_operations_syntax

text \<open>
  The upper half of every page directory: the tables of the kernel, which map the whole memory and which all directories share.
  Each operation of \<open>pagedir.c\<close> at a kernel address, and each store of the kernel, changes flags of one entry there; the mappings of
  the processes, and the pages they map, stay as they are.
\<close>

section \<open>The invariant\<close>

definition ktab :: "mmu \<Rightarrow> nat \<Rightarrow> nat" where
  "ktab st i = table_at st (init_page_dir st) (768 + i)"

definition ktabs :: "mmu \<Rightarrow> nat set" where
  "ktabs st = {i. 1024 * i < init_ram_pages st}"

definition kentry :: "mmu \<Rightarrow> nat \<Rightarrow> 32 word" where
  "kentry st j = rd st (ktab st (j div 1024) + 4 * (j mod 1024))"

definition kernel_half :: "nat set \<Rightarrow> mmu \<Rightarrow> bool" where
  "kernel_half D st \<longleftrightarrow> init_ram_pages st \<le> 2 ^ 18 \<and> inj_on (ktab st) (ktabs st)
     \<and> (\<forall>i\<in>ktabs st. bit (pde_at st (init_page_dir st) (768 + i)) 0 \<and> ktab st i \<in> kpages (phys st)
          \<and> (\<forall>pd\<in>insert (init_page_dir st) D. pde_at st pd (768 + i) = pde_at st (init_page_dir st) (768 + i) \<and> ktab st i \<notin> owned st pd))
     \<and> (\<forall>j<init_ram_pages st. bit (kentry st j) 0 \<and> unat (kentry st j AND PTE_ADDR) = j * PGSIZE)"

definition user_range :: "mmu \<Rightarrow> nat set" where
  "user_range st = {pool_base (user_pool (phys st))..<pool_base (user_pool (phys st)) + PGSIZE * bit_cnt (used_map (user_pool (phys st)))}"

definition kvm :: "nat set \<Rightarrow> mmu \<Rightarrow> bool" where
  "kvm D st \<longleftrightarrow> vm_inv (D, st) \<and> kernel_half D st
     \<and> pool_base (user_pool (phys st)) + PGSIZE * bit_cnt (used_map (user_pool (phys st))) \<le> PHYS_BASE + PGSIZE * init_ram_pages st"

lemma kvmD:
  assumes "kvm D st"
  shows "vm_inv (D, st)" "kernel_half D st" "mmu_ok st" "palloc_ok (phys st)"
    "pool_base (user_pool (phys st)) + PGSIZE * bit_cnt (used_map (user_pool (phys st))) \<le> PHYS_BASE + PGSIZE * init_ram_pages st"
  using assms vm_invD(1) by (auto simp: kvm_def mmu_ok_def)

lemma kernel_halfD:
  assumes "kernel_half D st"
  shows "init_ram_pages st \<le> 2 ^ 18" "inj_on (ktab st) (ktabs st)" "i \<in> ktabs st \<Longrightarrow> bit (pde_at st (init_page_dir st) (768 + i)) 0"
    "i \<in> ktabs st \<Longrightarrow> ktab st i \<in> kpages (phys st)" "i \<in> ktabs st \<Longrightarrow> pd \<in> insert (init_page_dir st) D \<Longrightarrow> pde_at st pd (768 + i) = pde_at st (init_page_dir st) (768 + i)"
    "i \<in> ktabs st \<Longrightarrow> pd \<in> insert (init_page_dir st) D \<Longrightarrow> ktab st i \<notin> owned st pd"
    "j < init_ram_pages st \<Longrightarrow> bit (kentry st j) 0" "j < init_ram_pages st \<Longrightarrow> unat (kentry st j AND PTE_ADDR) = j * PGSIZE"
proof -
  have "init_ram_pages st \<le> 2 ^ 18 \<and> inj_on (ktab st) (ktabs st)"
    and T: "\<And>i. i \<in> ktabs st \<Longrightarrow> bit (pde_at st (init_page_dir st) (768 + i)) 0 \<and> ktab st i \<in> kpages (phys st)
        \<and> (\<forall>pd\<in>insert (init_page_dir st) D. pde_at st pd (768 + i) = pde_at st (init_page_dir st) (768 + i) \<and> ktab st i \<notin> owned st pd)"
    and J: "\<And>j. j < init_ram_pages st \<Longrightarrow> bit (kentry st j) 0 \<and> unat (kentry st j AND PTE_ADDR) = j * PGSIZE"
    using assms unfolding kernel_half_def by simp_all
  then show "init_ram_pages st \<le> 2 ^ 18" "inj_on (ktab st) (ktabs st)" by simp_all
  show "i \<in> ktabs st \<Longrightarrow> bit (pde_at st (init_page_dir st) (768 + i)) 0" "i \<in> ktabs st \<Longrightarrow> ktab st i \<in> kpages (phys st)" using T by simp_all
  show "i \<in> ktabs st \<Longrightarrow> pd \<in> insert (init_page_dir st) D \<Longrightarrow> pde_at st pd (768 + i) = pde_at st (init_page_dir st) (768 + i)"
    "i \<in> ktabs st \<Longrightarrow> pd \<in> insert (init_page_dir st) D \<Longrightarrow> ktab st i \<notin> owned st pd" using T [of i] by blast+
  show "j < init_ram_pages st \<Longrightarrow> bit (kentry st j) 0" "j < init_ram_pages st \<Longrightarrow> unat (kentry st j AND PTE_ADDR) = j * PGSIZE" using J by simp_all
qed

lemma ktabs_small: "kernel_half D st \<Longrightarrow> i \<in> ktabs st \<Longrightarrow> i < 256"
  using kernel_halfD(1) [of D st] by (simp add: ktabs_def)

lemma ktabs_div: "j < init_ram_pages st \<Longrightarrow> j div 1024 \<in> ktabs st"
  by (simp add: ktabs_def)

text \<open>The memory of the pages handed to processes.\<close>

definition same_user :: "mmu \<Rightarrow> mmu \<Rightarrow> bool" where
  "same_user st st' \<longleftrightarrow> user_pool (phys st') = user_pool (phys st) \<and> (\<forall>a\<in>user_range st. ram (phys st') a = ram (phys st) a)"

lemma same_user_refl [simp]: "same_user st st"
  by (simp add: same_user_def)

lemma same_user_trans: "same_user a b \<Longrightarrow> same_user b c \<Longrightarrow> same_user a c"
  by (simp add: same_user_def user_range_def)

lemma user_kernel_apart: "palloc_ok (phys st) \<Longrightarrow> p \<in> kpages (phys st) \<Longrightarrow> span p PGSIZE \<inter> user_range st = {}"
  using kpages_in_range [of p "phys st"] unfolding palloc_ok_def kernel_range_def user_range_def by fastforce

lemma same_user_wr:
  assumes "palloc_ok (phys st)" "p \<in> kpages (phys st)" "i < 1024"
  shows "same_user st (wr (p + 4 * i) w st)"
proof -
  have "a \<notin> {p + 4 * i..<p + 4 * i + 4}" if a: "a \<in> user_range st" for a
  proof
    assume "a \<in> {p + 4 * i..<p + 4 * i + 4}"
    then have "a \<in> span p PGSIZE" using assms(3) by (simp add: span_def PGSIZE_eq)
    then show False using user_kernel_apart [OF assms(1,2)] a by blast
  qed
  then show ?thesis by (auto simp: same_user_def wr_def intro!: st32_other) force
qed

section \<open>Addresses of the kernel\<close>

lemma kernel_address:
  assumes "PHYS_BASE \<le> a" "a < PHYS_BASE + PGSIZE * R" "R \<le> 2 ^ 18"
  shows "(a - PHYS_BASE) div PGSIZE < R" "pd_no a = 768 + (a - PHYS_BASE) div PGSIZE div 1024" "pt_no a = (a - PHYS_BASE) div PGSIZE mod 1024"
proof -
  show "(a - PHYS_BASE) div PGSIZE < R" using assms by (simp add: less_mult_imp_div_less mult.commute)
  have "pg_no a = 786432 + (a - PHYS_BASE) div PGSIZE" using assms(1) by (auto simp: pg_no_def PGSIZE_eq PHYS_BASE_def le_iff_add)
  then show "pd_no a = 768 + (a - PHYS_BASE) div PGSIZE div 1024" "pt_no a = (a - PHYS_BASE) div PGSIZE mod 1024"
    by (simp_all add: pt_pd_no mod_add_eq [of 786432 1024, symmetric] del: mod_add_left_eq) 
qed

lemma kernel_address_lookup:
  assumes k: "kvm D st" and pd: "pd \<in> insert (init_page_dir st) D" and a: "PHYS_BASE \<le> a" "a < PHYS_BASE + PGSIZE * init_ram_pages st"
  defines "j \<equiv> (a - PHYS_BASE) div PGSIZE"
  shows "lookup_page pd a False st = Some (ktab st (j div 1024) + 4 * (j mod 1024), st)" "ktab st (j div 1024) + 4 * (j mod 1024) \<noteq> 0"
    "rd st (ktab st (j div 1024) + 4 * (j mod 1024)) = kentry st j" "j < init_ram_pages st" "j div 1024 \<in> ktabs st"
proof -
  note K = kvmD [OF k] and H = kernel_halfD [OF kvmD(2) [OF k]]
  note A = kernel_address [OF a H(1), folded j_def]
  show j: "j < init_ram_pages st" "j div 1024 \<in> ktabs st" using A(1) ktabs_div by blast+
  have kp: "ktab st (j div 1024) \<in> kpages (phys st)" by (rule H(4) [OF j(2)])
  note F = kpages_facts [OF K(4) kp]
  have pde: "pde_at st pd (768 + j div 1024) = pde_at st (init_page_dir st) (768 + j div 1024)" by (rule H(5) [OF j(2) pd])
  have b: "bit (pde_at st (init_page_dir st) (768 + j div 1024)) 0" by (rule H(3) [OF j(2)])
  have pw: "page_word (ktab st (j div 1024))" using F by (simp add: page_word_def PGSIZE_eq)
  have "unat (pde_at st (init_page_dir st) (768 + j div 1024) AND PTE_ADDR) = ktab st (j div 1024) - PHYS_BASE" by (simp add: ktab_def table_at_def)
  then have g: "pde_get_pt (pde_at st (init_page_dir st) (768 + j div 1024)) = Some (ktab st (j div 1024))"
    using page_word_phys(3) [OF pw] b by (simp add: pde_get_pt_def)
  have d: "pd \<noteq> 0" using dir_facts(2) [OF K(3) vm_invD(4) [OF K(1) pd]] .
  have nz: "pde_at st (init_page_dir st) (768 + j div 1024) \<noteq> 0" using b by (metis bit_0_eq bot_apply bot_bool_def)
  show "lookup_page pd a False st = Some (ktab st (j div 1024) + 4 * (j mod 1024), st)"
    using d pde g nz unfolding lookup_page_def A(2,3) pde_at_def by (simp add: Let_def)
  show "ktab st (j div 1024) + 4 * (j mod 1024) \<noteq> 0" using F(4) by simp
  show "rd st (ktab st (j div 1024) + 4 * (j mod 1024)) = kentry st j" by (simp add: kentry_def)
qed

section \<open>What keeps the invariant\<close>

text \<open>A step that leaves the pages of the directories alone and the kernel's entries but for their flags.\<close>

lemma kvm_frame:
  assumes k: "kvm D st" and st': "mmu_ok st'" "init_page_dir st' = init_page_dir st" "init_ram_pages st' = init_ram_pages st" "cr3 st' = cr3 st" "tlb st' = tlb st"
    and kp: "kpages (phys st') = kpages (phys st)" and up: "pool_base (user_pool (phys st')) = pool_base (user_pool (phys st))" "bit_cnt (used_map (user_pool (phys st'))) = bit_cnt (used_map (user_pool (phys st)))"
    and dirs: "\<And>p. p \<in> insert (init_page_dir st) D \<Longrightarrow> same_pages (owned st p) st st'"
    and ent: "\<And>j. j < init_ram_pages st \<Longrightarrow> agree (kentry st j) (rd st' (ktab st (j div 1024) + 4 * (j mod 1024)))"
  shows "kvm D st'" "pd \<in> insert (init_page_dir st) D \<Longrightarrow> n < USER_PAGES \<Longrightarrow> pte_at st' pd n = pte_at st pd n"
    "j < init_ram_pages st \<Longrightarrow> kentry st' j = rd st' (ktab st (j div 1024) + 4 * (j mod 1024))" "i \<in> ktabs st \<Longrightarrow> ktab st' i = ktab st i"
    "pd \<in> insert (init_page_dir st) D \<Longrightarrow> tables st' pd = tables st pd"
proof -
  note K = kvmD [OF k] and H = kernel_halfD [OF kvmD(2) [OF k]] and V = vm_invD [OF kvmD(1) [OF k]]
  show "pd \<in> insert (init_page_dir st) D \<Longrightarrow> tables st' pd = tables st pd" by (rule same_pages_dir(3) [OF dirs])
  have sub: "owned st p \<subseteq> kpages (phys st')" if "p \<in> insert (init_page_dir st) D" for p using owned_kpages [OF V(4) [OF that]] kp by simp
  have fr: "\<forall>p\<in>insert (init_page_dir st) D. same_pages (owned st p) st st' \<and> owned st p \<subseteq> kpages (phys st')" using dirs sub by blast
  note F = vm_inv_frame [OF K(1) order_refl fr st'(1,2,4,5) V(6)]
  show pte: "pte_at st' pd n = pte_at st pd n" if "pd \<in> insert (init_page_dir st) D" "n < USER_PAGES" for pd n by (rule F(2) [OF that])
  have pde: "pde_at st' pd (768 + i) = pde_at st pd (768 + i)" if "pd \<in> insert (init_page_dir st) D" "i \<in> ktabs st" for pd i
    using same_pages_dir(1) [OF dirs [OF that(1)], of "768 + i"] ktabs_small [OF K(2) that(2)] by simp
  have kt: "ktab st' i = ktab st i" if "i \<in> ktabs st" for i using pde [of "init_page_dir st" i] that by (simp add: ktab_def table_at_def st'(2))
  then show "i \<in> ktabs st \<Longrightarrow> ktab st' i = ktab st i" .
  have ks: "ktabs st' = ktabs st" by (simp add: ktabs_def st'(3))
  have ke: "kentry st' j = rd st' (ktab st (j div 1024) + 4 * (j mod 1024))" if "j < init_ram_pages st" for j
    using kt [OF ktabs_div [OF that]] by (simp add: kentry_def)
  then show "j < init_ram_pages st \<Longrightarrow> kentry st' j = rd st' (ktab st (j div 1024) + 4 * (j mod 1024))" .
  have own: "owned st' p = owned st p" if "p \<in> insert (init_page_dir st) D" for p by (rule F(3) [OF that])
  have "inj_on (ktab st') (ktabs st')" unfolding ks using H(2) kt by (simp add: inj_on_def)
  moreover have "bit (kentry st' j) 0 \<and> unat (kentry st' j AND PTE_ADDR) = j * PGSIZE" if "j < init_ram_pages st" for j
  proof -
    have ag: "agree (kentry st j) (kentry st' j)" using ent [OF that] ke [OF that] by simp
    then have "kentry st' j AND PTE_ADDR = kentry st j AND PTE_ADDR" by (intro address_bits) (simp add: agree_def)
    then show ?thesis using ag H(7,8) [OF that] by (simp add: agree_def)
  qed
  moreover have "bit (pde_at st' (init_page_dir st') (768 + i)) 0 \<and> ktab st' i \<in> kpages (phys st')
      \<and> (\<forall>pd\<in>insert (init_page_dir st') D. pde_at st' pd (768 + i) = pde_at st' (init_page_dir st') (768 + i) \<and> ktab st' i \<notin> owned st' pd)" if "i \<in> ktabs st'" for i
  proof -
    have i: "i \<in> ktabs st" using that ks by simp
    have p0: "pde_at st' (init_page_dir st) (768 + i) = pde_at st (init_page_dir st) (768 + i)" by (rule pde [OF _ i]) simp
    show ?thesis unfolding st'(2) p0 kt [OF i] kp
    proof (intro conjI ballI)
      fix pd assume pd: "pd \<in> insert (init_page_dir st) D"
      show "pde_at st' pd (768 + i) = pde_at st (init_page_dir st) (768 + i)" using pde [OF pd i] H(5) [OF i pd] by simp
      show "ktab st i \<notin> owned st' pd" using own [OF pd] H(6) [OF i pd] by simp
    qed (rule H(3,4) [OF i])+
  qed
  ultimately have "kernel_half D st'" using H(1) by (simp add: kernel_half_def st'(3))
  moreover have "pool_base (user_pool (phys st')) + PGSIZE * bit_cnt (used_map (user_pool (phys st'))) \<le> PHYS_BASE + PGSIZE * init_ram_pages st'"
    using K(5) up st'(3) by simp
  ultimately show "kvm D st'" using F(1) by (simp add: kvm_def)
qed


text \<open>An operation on the user half of one directory.\<close>

lemma kvm_dir_step:
  assumes k: "kvm D st" and pd: "pd \<in> D" and s: "dir_step pd st st'" and q: "quiet pd st st'"
    and own: "\<And>i. i \<in> ktabs st \<Longrightarrow> pde_at st' pd (768 + i) = pde_at st pd (768 + i)" and up: "user_pool (phys st') = user_pool (phys st)"
  shows "kvm D st'" "pd2 \<in> insert (init_page_dir st) D \<Longrightarrow> pd2 \<noteq> pd \<Longrightarrow> n < USER_PAGES \<Longrightarrow> pte_at st' pd2 n = pte_at st pd2 n"
    "j < init_ram_pages st \<Longrightarrow> kentry st' j = kentry st j"
    "pd2 \<in> insert (init_page_dir st) D \<Longrightarrow> pd2 \<noteq> pd \<Longrightarrow> tables st' pd2 = tables st pd2"
proof -
  note K = kvmD [OF k] and H = kernel_halfD [OF kvmD(2) [OF k]] and V = vm_invD [OF kvmD(1) [OF k]]
  note W = vm_inv_dir_step [OF K(1) pd s q]
  show "pd2 \<in> insert (init_page_dir st) D \<Longrightarrow> pd2 \<noteq> pd \<Longrightarrow> n < USER_PAGES \<Longrightarrow> pte_at st' pd2 n = pte_at st pd2 n" by (rule W(2))
  have S: "init_page_dir st' = init_page_dir st" "init_ram_pages st' = init_ram_pages st" "kpages (phys st) \<subseteq> kpages (phys st')"
      "owned st' pd \<inter> kpages (phys st) \<subseteq> owned st pd" "same_pages (kpages (phys st) - owned st pd) st st'"
    using s by (simp_all add: dir_step_def)
  have pin: "pd \<in> insert (init_page_dir st) D" using pd by simp
  have other: "owned st' p = owned st p" "same_pages (owned st p) st st'" if "p \<in> insert (init_page_dir st) D" "p \<noteq> pd" for p
  proof -
    have ap: "owned st p \<inter> owned st pd = {}" by (rule V(5) [OF that(1) pin that(2)])
    show "owned st' p = owned st p" by (rule dir_step_other(3) [OF s V(4) [OF that(1)] ap])
    have "owned st p \<subseteq> kpages (phys st) - owned st pd" using ap owned_kpages [OF V(4) [OF that(1)]] by blast
    then show "same_pages (owned st p) st st'" using same_pages_mono [OF S(5)] by blast
  qed
  show "pd2 \<in> insert (init_page_dir st) D \<Longrightarrow> pd2 \<noteq> pd \<Longrightarrow> tables st' pd2 = tables st pd2" by (rule same_pages_dir(3) [OF other(2)])
  have pde: "pde_at st' p (768 + i) = pde_at st p (768 + i)" if "p \<in> insert (init_page_dir st) D" "i \<in> ktabs st" for p i
  proof (cases "p = pd")
    case False
    have "768 + i < 1024" using ktabs_small [OF K(2) that(2)] by simp
    then show ?thesis by (rule same_pages_dir(1) [OF other(2) [OF that(1) False]])
  qed (use own [OF that(2)] in simp)
  have kt: "ktab st' i = ktab st i" if "i \<in> ktabs st" for i using pde [of "init_page_dir st" i] that by (simp add: ktab_def table_at_def S(1))
  have ks: "ktabs st' = ktabs st" by (simp add: ktabs_def S(2))
  have ke: "kentry st' j = kentry st j" if "j < init_ram_pages st" for j
  proof -
    have i: "j div 1024 \<in> ktabs st" by (rule ktabs_div [OF that])
    have "ktab st (j div 1024) \<in> kpages (phys st) - owned st pd" using H(4) [OF i] H(6) [OF i pin] by blast
    then show ?thesis using S(5) kt [OF i] by (simp add: kentry_def same_pages_def)
  qed
  then show "j < init_ram_pages st \<Longrightarrow> kentry st' j = kentry st j" .
  have "bit (pde_at st' (init_page_dir st') (768 + i)) 0 \<and> ktab st' i \<in> kpages (phys st')
      \<and> (\<forall>pd\<in>insert (init_page_dir st') D. pde_at st' pd (768 + i) = pde_at st' (init_page_dir st') (768 + i) \<and> ktab st' i \<notin> owned st' pd)" if "i \<in> ktabs st'" for i
  proof -
    have i: "i \<in> ktabs st" using that ks by simp
    have p0: "pde_at st' (init_page_dir st) (768 + i) = pde_at st (init_page_dir st) (768 + i)" by (rule pde [OF _ i]) simp
    show ?thesis unfolding S(1) p0 kt [OF i]
    proof (intro conjI ballI)
      show "ktab st i \<in> kpages (phys st')" using H(4) [OF i] S(3) by blast
      fix p assume p: "p \<in> insert (init_page_dir st) D"
      show "pde_at st' p (768 + i) = pde_at st (init_page_dir st) (768 + i)" using pde [OF p i] H(5) [OF i p] by simp
      show "ktab st i \<notin> owned st' p"
      proof (cases "p = pd")
        case True
        then show ?thesis using S(4) H(4) [OF i] H(6) [OF i pin] by blast
      qed (use other(1) [OF p] H(6) [OF i p] in simp)
    qed (rule H(3) [OF i])
  qed
  moreover have "inj_on (ktab st') (ktabs st')" unfolding ks using H(2) kt by (simp add: inj_on_def)
  ultimately have "kernel_half D st'" using H(1,7,8) ke by (simp add: kernel_half_def S(2))
  then show "kvm D st'" using W(1) K(5) up S(2) by (simp add: kvm_def)
qed

section \<open>The operations\<close>

text \<open>A change of flags in the entry of the kernel for one page.\<close>

lemma kernel_flags:
  assumes k: "kvm D st" and j: "j < init_ram_pages st" and e: "agree (kentry st j) e"
  defines "st' \<equiv> wr (ktab st (j div 1024) + 4 * (j mod 1024)) e st"
  shows "kvm D st'" "same_user st st'" "pd \<in> insert (init_page_dir st) D \<Longrightarrow> n < USER_PAGES \<Longrightarrow> pte_at st' pd n = pte_at st pd n"
    "i < init_ram_pages st \<Longrightarrow> kentry st' i = (if i = j then e else kentry st i)" "pd \<in> insert (init_page_dir st) D \<Longrightarrow> tables st' pd = tables st pd"
proof -
  note K = kvmD [OF k] and H = kernel_halfD [OF kvmD(2) [OF k]] and V = vm_invD [OF kvmD(1) [OF k]]
  have jt: "j div 1024 \<in> ktabs st" by (rule ktabs_div [OF j])
  have m: "j mod 1024 < 1024" by simp
  note kp = H(4) [OF jt]
  note dv = kpages_facts(1) [OF K(4)]
  show "same_user st st'" unfolding st'_def by (rule same_user_wr [OF K(4) kp m])
  have rd': "rd st' (q + 4 * l) = (if ktab st (j div 1024) = q \<and> j mod 1024 = l then e else rd st (q + 4 * l))" if "q \<in> kpages (phys st)" "l < 1024" for q l
    unfolding st'_def by (rule rd_wr_entry [OF dv [OF kp] dv [OF that(1)] m that(2)])
  have ent: "rd st' (ktab st (i div 1024) + 4 * (i mod 1024)) = (if i = j then e else kentry st i)" if "i < init_ram_pages st" for i
  proof -
    have it: "i div 1024 \<in> ktabs st" by (rule ktabs_div [OF that])
    have "ktab st (j div 1024) = ktab st (i div 1024) \<longleftrightarrow> j div 1024 = i div 1024" using H(2) it jt by (auto simp: inj_on_def)
    moreover have "j div 1024 = i div 1024 \<and> j mod 1024 = i mod 1024 \<longleftrightarrow> i = j" by (metis div_mult_mod_eq)
    ultimately show ?thesis using rd' [OF H(4) [OF it], of "i mod 1024"] by (auto simp: kentry_def)
  qed
  have dirs: "same_pages (owned st p) st st'" if "p \<in> insert (init_page_dir st) D" for p
    unfolding same_pages_def
  proof (intro ballI allI impI)
    fix q l assume q: "q \<in> owned st p" and l: "l < (1024 :: nat)"
    have "q \<in> kpages (phys st)" using owned_kpages [OF V(4) [OF that]] q by blast
    moreover have "ktab st (j div 1024) \<noteq> q" using H(6) [OF jt that] q by blast
    ultimately show "rd st' (q + 4 * l) = rd st (q + 4 * l)" using rd' [OF _ l, of q] by simp
  qed
  have "mmu_ok st'" using K(3) by (simp add: st'_def mmu_ok_def)
  note F = kvm_frame [OF k this _ _ _ _ _ _ _ dirs]
  have ag: "agree (kentry st i) (rd st' (ktab st (i div 1024) + 4 * (i mod 1024)))" if "i < init_ram_pages st" for i
    using ent [OF that] e by simp
  have s: "init_page_dir st' = init_page_dir st" "init_ram_pages st' = init_ram_pages st" "cr3 st' = cr3 st" "tlb st' = tlb st"
      "kpages (phys st') = kpages (phys st)" "pool_base (user_pool (phys st')) = pool_base (user_pool (phys st))"
      "bit_cnt (used_map (user_pool (phys st'))) = bit_cnt (used_map (user_pool (phys st)))" by (simp_all add: st'_def)
  show "kvm D st'" by (rule F(1)) (use s ag in simp_all)
  show "pd \<in> insert (init_page_dir st) D \<Longrightarrow> tables st' pd = tables st pd" by (rule F(5)) (use s ag in simp_all)
  show "pte_at st' pd n = pte_at st pd n" if "pd \<in> insert (init_page_dir st) D" "n < USER_PAGES" by (rule F(2)) (use s ag that in simp_all)
  show "kentry st' i = (if i = j then e else kentry st i)" if "i < init_ram_pages st"
    by (subst F(3)) (use s ag that ent in simp_all)
qed

text \<open>\<open>st'\<close> has the tables of \<open>st\<close>, the active directory \<open>A\<close>, the pool \<open>P\<close> for processes, the user entries \<open>U\<close>, the kernel entries \<open>K\<close> and, in the pages
  of that pool, the memory \<open>M\<close>.\<close>

definition mm_step :: "nat set \<Rightarrow> mmu \<Rightarrow> nat \<Rightarrow> pool \<Rightarrow> (nat \<Rightarrow> nat \<Rightarrow> 32 word) \<Rightarrow> (nat \<Rightarrow> 32 word) \<Rightarrow> mem \<Rightarrow> mmu \<Rightarrow> bool" where
  "mm_step D st A P U K M st' \<longleftrightarrow> kvm D st' \<and> active st' = A \<and> user_pool (phys st') = P \<and> user_range st' = user_range st
     \<and> (\<forall>a\<in>user_range st. ram (phys st') a = M a)
     \<and> init_page_dir st' = init_page_dir st \<and> init_ram_pages st' = init_ram_pages st
     \<and> kernel_pool (phys st') = kernel_pool (phys st) \<and> (\<forall>p\<in>insert (init_page_dir st) D. tables st' p = tables st p)
     \<and> (\<forall>p\<in>insert (init_page_dir st) D. \<forall>n<USER_PAGES. pte_at st' p n = U p n) \<and> (\<forall>j<init_ram_pages st. kentry st' j = K j)"

lemma mm_stepD:
  assumes "mm_step D st A P U K M st'"
  shows "kvm D st'" "user_pool (phys st') = P" "a \<in> user_range st \<Longrightarrow> ram (phys st') a = M a"
    "init_page_dir st' = init_page_dir st" "init_ram_pages st' = init_ram_pages st" "active st' = A" "user_range st' = user_range st"
    "p \<in> insert (init_page_dir st) D \<Longrightarrow> n < USER_PAGES \<Longrightarrow> pte_at st' p n = U p n" "j < init_ram_pages st \<Longrightarrow> kentry st' j = K j"
    "kernel_pool (phys st') = kernel_pool (phys st)" "p \<in> insert (init_page_dir st) D \<Longrightarrow> tables st' p = tables st p"
proof -
  have e: "\<forall>p\<in>insert (init_page_dir st) D. tables st' p = tables st p" "\<forall>p\<in>insert (init_page_dir st) D. \<forall>n<USER_PAGES. pte_at st' p n = U p n" "\<forall>j<init_ram_pages st. kentry st' j = K j"
    using assms unfolding mm_step_def by simp_all
  show "kvm D st'" "user_pool (phys st') = P" "a \<in> user_range st \<Longrightarrow> ram (phys st') a = M a"
    "init_page_dir st' = init_page_dir st" "init_ram_pages st' = init_ram_pages st" "active st' = A" "user_range st' = user_range st" "kernel_pool (phys st') = kernel_pool (phys st)"
    using assms unfolding mm_step_def by simp_all
  show "p \<in> insert (init_page_dir st) D \<Longrightarrow> tables st' p = tables st p" using e(1) by blast
  show "p \<in> insert (init_page_dir st) D \<Longrightarrow> n < USER_PAGES \<Longrightarrow> pte_at st' p n = U p n" using e(2) by blast
  show "j < init_ram_pages st \<Longrightarrow> kentry st' j = K j" using e(3) by blast
qed

text \<open>What depends on the entries and the memory in range only.\<close>

lemma mm_step_cong:
  assumes "mm_step D st A P U K M st'" "\<And>p n. p \<in> insert (init_page_dir st) D \<Longrightarrow> n < USER_PAGES \<Longrightarrow> U' p n = U p n"
    "\<And>j. j < init_ram_pages st \<Longrightarrow> K' j = K j" "\<And>a. a \<in> user_range st \<Longrightarrow> M' a = M a"
  shows "mm_step D st A P U' K' M' st'"
  unfolding mm_step_def
proof (intro conjI ballI allI impI)
  note S = mm_stepD [OF assms(1)]
  show "ram (phys st') a = M' a" if "a \<in> user_range st" for a using S(3) assms(4) that by simp
  show "pte_at st' p n = U' p n" if "p \<in> insert (init_page_dir st) D" "n < USER_PAGES" for p n using S(8) [OF that] assms(2) [OF that] by simp
  show "kentry st' j = K' j" if "j < init_ram_pages st" for j using S(9) [OF that] assms(3) [OF that] by simp
qed (rule mm_stepD [OF assms(1)])+

lemma mm_step_trans:
  assumes a: "mm_step D st A P U K M s1" and b: "mm_step D s1 A' P' U' K' M' s2"
  shows "mm_step D st A' P' U' K' M' s2"
  using b mm_stepD(4,5,7,10) [OF a] mm_stepD(11) [OF a] unfolding mm_step_def by simp

lemma mm_step_refl: "kvm D st \<Longrightarrow> mm_step D st (active st) (user_pool (phys st)) (pte_at st) (kentry st) (ram (phys st)) st"
  by (simp add: mm_step_def)

lemma kentry_tlb [simp]: "kentry (st\<lparr>tlb := t\<rparr>) = kentry st" "ktab (st\<lparr>tlb := t\<rparr>) = ktab st" "ktabs (st\<lparr>tlb := t\<rparr>) = ktabs st"
  by (simp_all add: kentry_def ktab_def ktabs_def fun_eq_iff)

lemma view_updates [simp]:
  "active (st\<lparr>tlb := t\<rparr>) = active st" "active (wr a w st) = active st" "active (poke a bs st) = active st"
  "user_range (st\<lparr>tlb := t\<rparr>) = user_range st" "user_range (wr a w st) = user_range st" "user_range (poke a bs st) = user_range st"
  by (simp_all add: active_def user_range_def poke_def)

lemma kvm_flush: "kvm D st \<Longrightarrow> kvm D (st\<lparr>tlb := \<lambda>_. None\<rparr>)"
proof -
  assume "kvm D st"
  then have "vm_inv (D, st\<lparr>tlb := \<lambda>_. None\<rparr>)" "kernel_half D (st\<lparr>tlb := \<lambda>_. None\<rparr>)"
    using tlb_ok_flushed [of "st\<lparr>tlb := \<lambda>_. None\<rparr>"] by (simp_all add: kvm_def vm_inv_def kernel_half_def active_def)
  then show ?thesis using \<open>kvm D st\<close> by (simp add: kvm_def)
qed

lemma mm_step_flush: "mm_step D st A P U K M st' \<Longrightarrow> mm_step D st A P U K M (st'\<lparr>tlb := \<lambda>_. None\<rparr>)"
  using kvm_flush by (simp add: mm_step_def)

lemma mm_step_invalidate:
  assumes "mm_step D st A P U K M st'"
  shows "\<exists>st''. invalidate_pagedir pd st' = Some st'' \<and> mm_step D st A P U K M st''"
  using invalidate_ok [OF kvmD(3) [OF mm_stepD(1) [OF assms]], of pd] mm_step_flush [OF assms] assms by auto

lemma kernel_flags_step:
  assumes k: "kvm D st" and j: "j < init_ram_pages st" and e: "agree (kentry st j) e"
  shows "mm_step D st (active st) (user_pool (phys st)) (pte_at st) ((kentry st)(j := e)) (ram (phys st)) (wr (ktab st (j div 1024) + 4 * (j mod 1024)) e st)"
  using kernel_flags [OF assms] by (simp add: mm_step_def same_user_def)

text \<open>The functions of \<open>pagedir.c\<close> at an address of the kernel.\<close>

lemma kernel_flag_ops:
  assumes k: "kvm D st" and pd: "pd \<in> insert (init_page_dir st) D" and a: "PHYS_BASE \<le> a" "a < PHYS_BASE + PGSIZE * init_ram_pages st"
  defines "j \<equiv> (a - PHYS_BASE) div PGSIZE"
  shows "pagedir_is_dirty pd a st = Some (bit (kentry st j) 6)" "pagedir_is_accessed pd a st = Some (bit (kentry st j) 5)"
    "\<exists>st'. pagedir_set_dirty pd a False st = Some st' \<and> mm_step D st (active st) (user_pool (phys st)) (pte_at st) ((kentry st)(j := kentry st j AND NOT PTE_D)) (ram (phys st)) st'"
    "\<exists>st'. pagedir_set_accessed pd a False st = Some st' \<and> mm_step D st (active st) (user_pool (phys st)) (pte_at st) ((kentry st)(j := kentry st j AND NOT PTE_A)) (ram (phys st)) st'"
proof -
  note L = kernel_address_lookup [OF k pd a, folded j_def]
  have d: "pd \<noteq> 0" using dir_facts(2) [OF kvmD(3) [OF k] vm_invD(4) [OF kvmD(1) [OF k] pd]] .
  show "pagedir_is_dirty pd a st = Some (bit (kentry st j) 6)" "pagedir_is_accessed pd a st = Some (bit (kentry st j) 5)"
    using d L by (simp_all add: pagedir_is_dirty_def pagedir_is_accessed_def)
  have ag: "agree (kentry st j) (kentry st j AND NOT PTE_D)" "agree (kentry st j) (kentry st j AND NOT PTE_A)"
    by (auto simp: agree_def bit_simps dest: bit_imp_le_length)
  show "\<exists>st'. pagedir_set_dirty pd a False st = Some st' \<and> mm_step D st (active st) (user_pool (phys st)) (pte_at st) ((kentry st)(j := kentry st j AND NOT PTE_D)) (ram (phys st)) st'"
    using mm_step_invalidate [OF kernel_flags_step [OF k L(4) ag(1)], of pd] d L by (simp add: pagedir_set_dirty_def)
  show "\<exists>st'. pagedir_set_accessed pd a False st = Some st' \<and> mm_step D st (active st) (user_pool (phys st)) (pte_at st) ((kentry st)(j := kentry st j AND NOT PTE_A)) (ram (phys st)) st'"
    using mm_step_invalidate [OF kernel_flags_step [OF k L(4) ag(2)], of pd] d L by (simp add: pagedir_set_accessed_def)
qed

text \<open>The functions at an address of a process.\<close>

lemma user_flag_step:
  assumes k: "kvm D st" and pd: "pd \<in> D" and va: "is_user_vaddr va" and f: "flags_only flush f"
  shows "\<exists>st'. flag_update flush f pd va st = Some st'
    \<and> mm_step D st (active st) (user_pool (phys st)) ((pte_at st)(pd := (pte_at st pd)(pg_no va := if pd_no va \<in> tables st pd then f (pte_at st pd (pg_no va)) else 0))) (kentry st) (ram (phys st)) st'"
proof -
  note K = kvmD [OF k]
  have d: "dir_ok st pd" using vm_invD(4) [OF K(1)] pd by blast
  obtain st' where st': "flag_update flush f pd va st = Some st'"
      "entry_updated pd (pg_no va) (if pd_no va \<in> tables st pd then f (pte_at st pd (pg_no va)) else 0) st st'"
    using flag_update_ok [OF K(3) d va f] by blast
  have E: "dir_step pd st st'" "quiet pd st st'" using st'(2) by (simp_all add: entry_updated_def)
  have own: "(\<forall>i. i < 1024 \<longrightarrow> pde_at st' pd i = pde_at st pd i) \<and> same_user st st' \<and> kernel_pool (phys st') = kernel_pool (phys st)"
  proof (cases "pd_no va \<in> tables st pd")
    case True
    let ?t = "table_at st pd (pd_no va)"
    let ?s = "wr (?t + 4 * pt_no va) (f (rd st (?t + 4 * pt_no va))) st"
    note F = dir_facts [OF K(3) d]
    have tk: "?t \<in> kpages (phys st)" using d True by (simp add: dir_ok_def)
    have nz: "?t + 4 * pt_no va \<noteq> 0" using kpages_facts(4) [OF K(4) tk] by simp
    have "st' = ?s \<or> st' = ?s\<lparr>tlb := \<lambda>_. None\<rparr>"
      using st'(1) lookup_hit [OF K(3) d va True, of False] nz invalidate_ok [of ?s pd] K(3)
      by (auto simp: flag_update_def mmu_ok_def split: if_splits)
    moreover have "pde_at ?s pd i = pde_at st pd i" if "i < 1024" for i
      using rd_wr_entry [OF F(4) [OF True] F(1) pt_pd_no(3) that] F(7) [OF True] by (simp add: pde_at_def)
    moreover have "same_user st ?s" by (rule same_user_wr [OF K(4) tk pt_pd_no(3)])
    ultimately show ?thesis by (auto simp: same_user_def)
  next
    case False
    then have "st' = st" using st'(1) lookup_miss(1) [OF K(3) d va False] by (simp add: flag_update_def)
    then show ?thesis by simp
  qed
  have pde: "pde_at st' pd (768 + i) = pde_at st pd (768 + i)" if "i \<in> ktabs st" for i using own ktabs_small [OF K(2) that] by simp
  note S = kvm_dir_step [OF k pd E pde]
  have up: "user_pool (phys st') = user_pool (phys st)" using own by (simp add: same_user_def)
  have tab: "tables st' p = tables st p" if "p \<in> insert (init_page_dir st) D" for p
  proof (cases "p = pd")
    case True
    then show ?thesis using own by (auto simp: tables_def)
  qed (rule S(4) [OF _ up that])
  have "pte_at st' p n = ((pte_at st)(pd := (pte_at st pd)(pg_no va := if pd_no va \<in> tables st pd then f (pte_at st pd (pg_no va)) else 0))) p n"
    if "p \<in> insert (init_page_dir st) D" "n < USER_PAGES" for p n
    using st'(2) S(2) [OF _ up that(1) _ that(2)] that(2) by (cases "p = pd") (auto simp: entry_updated_def)
  moreover have "init_page_dir st' = init_page_dir st" "init_ram_pages st' = init_ram_pages st" "cr3 st' = cr3 st" using E(1) by (simp_all add: dir_step_def)
  ultimately show ?thesis using st'(1) S(1,3) [OF _ up] own up tab unfolding mm_step_def
    by (intro exI [of _ st'] conjI) (simp_all add: same_user_def active_def user_range_def)
qed

text \<open>A store into the memory of the processes.\<close>

lemma poke_step:
  assumes k: "kvm D st" and r: "{a..<a + length bs} \<subseteq> user_range st"
  shows "kvm D (poke a bs st)" "p \<in> insert (init_page_dir st) D \<Longrightarrow> n < USER_PAGES \<Longrightarrow> pte_at (poke a bs st) p n = pte_at st p n"
    "j < init_ram_pages st \<Longrightarrow> kentry (poke a bs st) j = kentry st j" "p \<in> insert (init_page_dir st) D \<Longrightarrow> tables (poke a bs st) p = tables st p"
proof -
  note K = kvmD [OF k] and H = kernel_halfD [OF kvmD(2) [OF k]]
  let ?s = "poke a bs st"
  have pools: "user_pool (phys ?s) = user_pool (phys st)" "kernel_pool (phys ?s) = kernel_pool (phys st)" by (simp_all add: poke_def)
  then have kp: "kpages (phys ?s) = kpages (phys st)" by (simp add: kpages_def)
  have rd: "rd ?s (q + 4 * i) = rd st (q + 4 * i)" if "q \<in> kpages (phys st)" "i < 1024" for q i
  proof (rule rd_same_span [OF _ that(2)])
    fix x assume "x \<in> span q PGSIZE"
    then have "x \<notin> {a..<a + length bs}" using user_kernel_apart [OF K(4) that(1)] r by blast
    then show "ram (phys ?s) x = ram (phys st) x" by (auto simp: poke_def)
  qed
  have dirs: "same_pages (owned st p) st ?s" if "p \<in> insert (init_page_dir st) D" for p
    using rd owned_kpages [OF vm_invD(4) [OF K(1) that]] unfolding same_pages_def by blast
  have ent: "rd ?s (ktab st (j div 1024) + 4 * (j mod 1024)) = kentry st j" if "j < init_ram_pages st" for j
    using rd [OF H(4) [OF ktabs_div [OF that]], of "j mod 1024"] by (simp add: kentry_def)
  have s: "mmu_ok ?s" using K(3) by (simp add: mmu_ok_def poke_def palloc_ok_def)
  have t: "init_page_dir ?s = init_page_dir st" "init_ram_pages ?s = init_ram_pages st" "cr3 ?s = cr3 st" "tlb ?s = tlb st" by (simp_all add: poke_def)
  note F = kvm_frame [OF k s t kp _ _ dirs]
  show "kvm D ?s" by (rule F(1)) (simp_all add: pools ent)
  show "p \<in> insert (init_page_dir st) D \<Longrightarrow> tables ?s p = tables st p" by (rule F(5)) (simp_all add: pools ent)
  show "pte_at ?s p n = pte_at st p n" if "p \<in> insert (init_page_dir st) D" "n < USER_PAGES" by (rule F(2)) (use that in \<open>simp_all add: pools ent\<close>)
  show "kentry ?s j = kentry st j" if "j < init_ram_pages st" by (subst F(3)) (use that in \<open>simp_all add: pools ent\<close>)
qed

lemma user_range_mapped: "kvm D st \<Longrightarrow> a \<in> user_range st \<Longrightarrow> PHYS_BASE \<le> a \<and> a < PHYS_BASE + PGSIZE * init_ram_pages st"
  using kvmD(4,5) [of D st] by (auto simp: user_range_def palloc_ok_def pool_ok_def)

lemma poke_views [simp]:
  "user_pool (phys (poke a bs st)) = user_pool (phys st)" "kernel_pool (phys (poke a bs st)) = kernel_pool (phys st)"
  "init_page_dir (poke a bs st) = init_page_dir st" "init_ram_pages (poke a bs st) = init_ram_pages st"
  "cr3 (poke a bs st) = cr3 st" "tlb (poke a bs st) = tlb st"
  "active (poke a bs st) = active st" "user_range (poke a bs st) = user_range st"
  by (simp_all add: poke_def active_def user_range_def)

lemma hw_store_step:
  assumes k: "kvm D st" and act: "active st \<in> insert (init_page_dir st) D" and r: "{a..<a + length bs} \<subseteq> user_range st" "bs \<noteq> []"
  defines "j \<equiv> (a - PHYS_BASE) div PGSIZE"
  shows "\<exists>st'. hw_store a bs st = Some st' \<and> mm_step D st (active st) (user_pool (phys st)) (pte_at st) ((kentry st)(j := kentry st j OR PTE_A OR PTE_D))
    (\<lambda>x. if a \<le> x \<and> x < a + length bs then bs ! (x - a) else ram (phys st) x) st'"
proof -
  have "a \<in> user_range st" using r by (metis atLeastLessThan_iff le_refl less_add_same_cancel1 length_greater_0_conv subset_iff)
  then have a: "PHYS_BASE \<le> a" "a < PHYS_BASE + PGSIZE * init_ram_pages st" using user_range_mapped [OF k] by blast+
  note L = kernel_address_lookup [OF k act a, folded j_def]
  let ?e = "kentry st j OR PTE_A OR PTE_D" and ?p = "ktab st (j div 1024) + 4 * (j mod 1024)"
  have "agree (kentry st j) ?e" by (auto simp: agree_def bit_simps)
  note S = kernel_flags_step [OF k L(4) this]
  have p: "kentry st j AND PTE_P \<noteq> 0" using kernel_halfD(7) [OF kvmD(2) [OF k] L(4)] by simp
  have run: "hw_store a bs st = Some (poke a bs (wr ?p ?e st))"
    using active_ok [OF kvmD(3) [OF k]] L(1-3) p r(2) by (simp add: hw_store_def)
  have r': "{a..<a + length bs} \<subseteq> user_range (wr ?p ?e st)" using r(1) by (simp add: user_range_def)
  note P = poke_step [OF mm_stepD(1) [OF S] r']
  have tab: "tables (poke a bs (wr ?p ?e st)) p = tables (wr ?p ?e st) p" if "p \<in> insert (init_page_dir (wr ?p ?e st)) D" for p by (rule P(4) [OF that])
  have "mm_step D (wr ?p ?e st) (active st) (user_pool (phys st)) (pte_at st) ((kentry st)(j := ?e)) (\<lambda>x. if a \<le> x \<and> x < a + length bs then bs ! (x - a) else ram (phys st) x) (poke a bs (wr ?p ?e st))"
    unfolding mm_step_def
  proof (intro conjI ballI allI impI)
    show "kvm D (poke a bs (wr ?p ?e st))" by (rule P(1))
    fix x assume "x \<in> user_range (wr ?p ?e st)"
    then have "x \<in> user_range st" by (simp add: user_range_def)
    then show "ram (phys (poke a bs (wr ?p ?e st))) x = (if a \<le> x \<and> x < a + length bs then bs ! (x - a) else ram (phys st) x)"
      using mm_stepD(3) [OF S, of x] by (simp add: poke_def)
  next
    fix q assume "q \<in> insert (init_page_dir (wr ?p ?e st)) D"
    then show "tables (poke a bs (wr ?p ?e st)) q = tables (wr ?p ?e st) q" by (rule tab)
  next
    fix q n assume "q \<in> insert (init_page_dir (wr ?p ?e st)) D" "n < USER_PAGES"
    then show "pte_at (poke a bs (wr ?p ?e st)) q n = pte_at st q n" using P(2) [of q n] mm_stepD(8) [OF S, of q n] by simp
  next
    fix i assume "i < init_ram_pages (wr ?p ?e st)"
    then show "kentry (poke a bs (wr ?p ?e st)) i = ((kentry st)(j := ?e)) i" using P(3) [of i] mm_stepD(9) [OF S, of i] by simp
  qed simp_all
  then show ?thesis using run mm_step_trans [OF S] by blast
qed

text \<open>Making a directory the active one.\<close>

lemma activate_step:
  assumes k: "kvm D st" and pd: "pd \<in> D"
  shows "\<exists>st'. pagedir_activate pd st = Some st' \<and> mm_step D st pd (user_pool (phys st)) (pte_at st) (kentry st) (ram (phys st)) st'"
proof -
  note K = kvmD [OF k] and V = vm_invD [OF kvmD(1) [OF k]]
  have pw: "page_word pd" "pd \<noteq> 0" using dir_facts(2,3) [OF K(3) V(4)] pd by simp_all
  let ?s = "st\<lparr>cr3 := pd - PHYS_BASE, tlb := \<lambda>_. None\<rparr>"
  have run: "pagedir_activate pd st = Some ?s" using page_word_phys(2) [OF pw(1)] pw(2) by (simp add: pagedir_activate_def)
  have v: "vm_inv (D, ?s)" using vm_activate [OF K(1) _ run] pd by simp
  have rd: "rd ?s = rd st" by simp
  then have pde: "pde_at ?s = pde_at st" by (simp add: pde_at_def fun_eq_iff)
  then have tab: "table_at ?s = table_at st" "tables ?s = tables st" by (simp_all add: table_at_def tables_def fun_eq_iff)
  have own: "pte_at ?s = pte_at st" "owned ?s = owned st" using rd pde tab by (simp_all add: pte_at_def owned_def fun_eq_iff)
  have kt: "ktab ?s = ktab st" "ktabs ?s = ktabs st" using tab by (simp_all add: ktab_def ktabs_def fun_eq_iff)
  then have ke: "kentry ?s = kentry st" using rd by (simp add: kentry_def fun_eq_iff)
  have "kernel_half D ?s" using K(2) unfolding kernel_half_def kt ke pde own by simp
  then have "kvm D ?s" using v K(5) by (simp add: kvm_def)
  moreover have "active ?s = pd" using pw(1) by (simp add: active_def page_word_def)
  ultimately have "mm_step D st pd (user_pool (phys st)) (pte_at st) (kentry st) (ram (phys st)) ?s"
    unfolding mm_step_def own ke tab by (simp add: user_range_def)
  then show ?thesis using run by blast
qed

section \<open>An entry that was made\<close>

lemma made_entry:
  assumes "kvm D st" "pd \<in> D" "is_user_vaddr va" "pte_at st pd (pg_no va) \<noteq> 0"
  shows "pd_no va \<in> tables st pd"
  using lookup_miss(2) [OF kvmD(3) [OF assms(1)] vm_invD(4) [OF kvmD(1) [OF assms(1)]] assms(3)] assms(2,4) by blast

lemma user_reads:
  assumes k: "kvm D st" and pd: "pd \<in> D" and va: "is_user_vaddr va"
  defines "e \<equiv> pte_at st pd (pg_no va)"
  shows "pagedir_get_page pd va st = Some (if bit e 0 then PHYS_BASE + unat (e AND PTE_ADDR) + pg_ofs va else 0)"
    "pagedir_is_dirty pd va st = Some (bit e 6)" "pagedir_is_accessed pd va st = Some (bit e 5)"
proof -
  have d: "dir_ok st pd" using vm_invD(4) [OF kvmD(1) [OF k]] pd by simp
  note m = kvmD(3) [OF k]
  show "pagedir_get_page pd va st = Some (if bit e 0 then PHYS_BASE + unat (e AND PTE_ADDR) + pg_ofs va else 0)"
    "pagedir_is_dirty pd va st = Some (bit e 6)" "pagedir_is_accessed pd va st = Some (bit e 5)"
    unfolding e_def by (rule pagedir_get_page_map [OF m d va] read_flags [OF m d va])+
qed

lemma user_step:
  assumes k: "kvm D st" and pd: "pd \<in> D" and va: "is_user_vaddr va" and e: "pte_at st pd (pg_no va) \<noteq> 0" and f: "flags_only flush f"
  shows "\<exists>st'. flag_update flush f pd va st = Some st'
    \<and> mm_step D st (active st) (user_pool (phys st)) ((pte_at st)(pd := (pte_at st pd)(pg_no va := f (pte_at st pd (pg_no va))))) (kentry st) (ram (phys st)) st'"
  using user_flag_step [OF k pd va f] made_entry [OF k pd va e] by simp

lemma user_flag_ops:
  assumes k: "kvm D st" and pd: "pd \<in> D" and va: "is_user_vaddr va"
  defines "e \<equiv> pte_at st pd (pg_no va)"
  defines "to \<equiv> \<lambda>w st'. mm_step D st (active st) (user_pool (phys st)) ((pte_at st)(pd := (pte_at st pd)(pg_no va := w))) (kentry st) (ram (phys st)) st'"
  assumes nz: "e \<noteq> 0"
  shows "pg_ofs va = 0 \<Longrightarrow> \<exists>st'. pagedir_clear_page pd va st = Some st' \<and> to (e AND NOT PTE_P) st'"
    "\<exists>st'. pagedir_set_dirty pd va False st = Some st' \<and> to (e AND NOT PTE_D) st'"
    "\<exists>st'. pagedir_set_accessed pd va False st = Some st' \<and> to (e AND NOT PTE_A) st'"
    "pg_ofs va = 0 \<Longrightarrow> va \<noteq> 0 \<Longrightarrow> bit e 0 \<Longrightarrow> \<exists>st'. pageir_set_kernel_access pd va True st = Some st' \<and> to (e AND NOT PTE_U) st'"
proof -
  have d: "dir_ok st pd" using vm_invD(4) [OF kvmD(1) [OF k]] pd by simp
  have p: "pd \<noteq> 0" by (rule dir_facts(2) [OF kvmD(3) [OF k] d])
  note S = user_step [OF k pd va nz [unfolded e_def], folded e_def]
  show "pg_ofs va = 0 \<Longrightarrow> \<exists>st'. pagedir_clear_page pd va st = Some st' \<and> to (e AND NOT PTE_P) st'" unfolding to_def using S [OF flags_only_ops(1)] p va by (simp add: flag_ops)
  show "\<exists>st'. pagedir_set_dirty pd va False st = Some st' \<and> to (e AND NOT PTE_D) st'" unfolding to_def using S [OF flags_only_ops(3)] p by (simp add: flag_ops)
  show "\<exists>st'. pagedir_set_accessed pd va False st = Some st' \<and> to (e AND NOT PTE_A) st'" unfolding to_def using S [OF flags_only_ops(5)] p by (simp add: flag_ops)
  assume h: "pg_ofs va = 0" "va \<noteq> 0" "bit e 0"
  have hit: "pd_no va \<in> tables st pd" by (rule made_entry [OF k pd va nz [unfolded e_def]])
  obtain a where a: "lookup_page pd va False st = Some (a, st)" "a \<noteq> 0" "rd st a = e"
    using modify_entry [OF kvmD(3) [OF k] d va hit, of "\<lambda>e. e"] unfolding e_def by blast
  have "pageir_set_kernel_access pd va True st = flag_update True (\<lambda>e. if True then e AND NOT PTE_U else e OR PTE_U) pd va st"
    using a nz h va p by (simp add: pageir_set_kernel_access_def flag_update_def)
  then show "\<exists>st'. pageir_set_kernel_access pd va True st = Some st' \<and> to (e AND NOT PTE_U) st'" unfolding to_def using S [OF flags_only_ops(6) [of True]] by simp
qed

section \<open>Taking and giving back pages of processes\<close>

text \<open>A change of the pool for processes and of the memory in its range.\<close>

lemma user_pool_step:
  assumes k: "kvm D st" and t: "taken flags U (phys st) P" and f: "PAL_USER \<in> flags" and m: "\<And>a. a \<notin> user_range st \<Longrightarrow> ram P a = ram (phys st) a"
  shows "mm_step D st (active st) (user_pool P) (pte_at st) (kentry st) (ram P) (st\<lparr>phys := P\<rparr>)"
proof -
  note K = kvmD [OF k] and H = kernel_halfD [OF kvmD(2) [OF k]] and V = vm_invD [OF kvmD(1) [OF k]]
  let ?s = "st\<lparr>phys := P\<rparr>"
  have T: "repooled (user_pool (phys st)) U (user_pool P)" "kernel_pool P = kernel_pool (phys st)"
    using takenD [OF t] f by (simp_all add: pool_of_def other_pool_def)
  have kp: "kpages P = kpages (phys st)" by (rule kpages_cong) (rule T(2))
  have ok: "palloc_ok P" by (rule taken_ok [OF K(4) t])
  have rd: "rd ?s (q + 4 * i) = rd st (q + 4 * i)" if "q \<in> kpages (phys st)" "i < 1024" for q i
  proof (rule rd_same_span [OF _ that(2)])
    fix x assume "x \<in> span q PGSIZE"
    then have "x \<notin> user_range st" using user_kernel_apart [OF K(4) that(1)] by blast
    then show "ram (phys ?s) x = ram (phys st) x" using m by simp
  qed
  have dirs: "same_pages (owned st p) st ?s" if "p \<in> insert (init_page_dir st) D" for p
    using rd owned_kpages [OF V(4) [OF that]] unfolding same_pages_def by blast
  have ent: "rd ?s (ktab st (j div 1024) + 4 * (j mod 1024)) = kentry st j" if "j < init_ram_pages st" for j
    using rd [OF H(4) [OF ktabs_div [OF that]], of "j mod 1024"] by (simp add: kentry_def)
  have u: "pool_base (user_pool P) = pool_base (user_pool (phys st))" "bit_cnt (used_map (user_pool P)) = bit_cnt (used_map (user_pool (phys st)))"
    using T(1) by (simp_all add: repooled_def)
  have s: "mmu_ok ?s" "init_page_dir ?s = init_page_dir st" "init_ram_pages ?s = init_ram_pages st" "cr3 ?s = cr3 st" "tlb ?s = tlb st" "kpages (phys ?s) = kpages (phys st)"
      "pool_base (user_pool (phys ?s)) = pool_base (user_pool (phys st))" "bit_cnt (used_map (user_pool (phys ?s))) = bit_cnt (used_map (user_pool (phys st)))"
    using ok K(3) kp u by (simp_all add: mmu_ok_def)
  have ag: "\<And>j. j < init_ram_pages st \<Longrightarrow> agree (kentry st j) (rd ?s (ktab st (j div 1024) + 4 * (j mod 1024)))" using ent by simp
  note F = kvm_frame [OF k s]
  show ?thesis unfolding mm_step_def
  proof (intro conjI ballI allI impI)
    show "kvm D ?s" by (rule F(1), erule dirs, erule ag)
    show "tables ?s p = tables st p" if "p \<in> insert (init_page_dir st) D" for p by (rule F(5), erule dirs, erule ag, rule that)
    show "pte_at ?s p n = pte_at st p n" if "p \<in> insert (init_page_dir st) D" "n < USER_PAGES" for p n
      by (rule F(2), erule dirs, erule ag, (rule that)+)
    show "kentry ?s j = kentry st j" if "j < init_ram_pages st" for j
      unfolding ent [OF that, symmetric] by (rule F(3), erule dirs, erule ag, rule that)
    show "user_range ?s = user_range st" using u by (simp add: user_range_def)
  qed (simp_all add: active_def T(2))
qed

lemma user_page_range:
  "i < bit_cnt (used_map (user_pool (phys st))) \<Longrightarrow> span (page_at (user_pool (phys st)) i) PGSIZE \<subseteq> user_range st"
proof
  fix a assume i: "i < bit_cnt (used_map (user_pool (phys st)))" and a: "a \<in> span (page_at (user_pool (phys st)) i) PGSIZE"
  have "PGSIZE * (i + 1) \<le> PGSIZE * bit_cnt (used_map (user_pool (phys st)))" using i by (intro mult_left_mono) auto
  then show "a \<in> user_range st" using a by (simp add: span_def page_at_def user_range_def)
qed

lemma get_user_page:
  assumes k: "kvm D st" and f: "PAL_USER \<in> flags" "PAL_THROUGH_FRAME \<in> flags" "PAL_ASSERT \<notin> flags"
  defines "p \<equiv> user_pool (phys st)"
  obtains (full) "palloc_get_page flags (phys st) = Some (0, phys st)" "bm_used (used_map p) = {..<bit_cnt (used_map p)}"
  | (got) i P where "palloc_get_page flags (phys st) = Some (page_at p i, P)" "i < bit_cnt (used_map p)" "i \<notin> bm_used (used_map p)"
    "repooled p (insert i (bm_used (used_map p))) (user_pool P)"
    "mm_step D st (active st) (user_pool P) (pte_at st) (kentry st) (\<lambda>a. if PAL_ZERO \<in> flags \<and> a \<in> span (page_at p i) PGSIZE then 0 else ram (phys st) a) (st\<lparr>phys := P\<rparr>)"
proof (cases "\<exists>i. i + 1 \<le> bit_cnt (used_map p) \<and> {i..<i + 1} \<inter> bm_used (used_map p) = {}")
  case False
  have "bm_used (used_map p) = {..<bit_cnt (used_map p)}" using False by (fastforce simp: bm_used_def)
  then show thesis using full palloc_get_multiple_full [OF kvmD(4) [OF k], of 1 flags] False f
    by (simp add: palloc_get_page_def pool_of_def p_def)
next
  case True
  have po: "pool_of flags (phys st) = p" using f by (simp add: pool_of_def p_def)
  obtain i P where P: "palloc_get_multiple flags 1 (phys st) = Some (page_at p i, P)" "i + 1 \<le> bit_cnt (used_map p)" "{i..<i + 1} \<inter> bm_used (used_map p) = {}"
      "taken flags (bm_used (used_map p) \<union> {i..<i + 1}) (phys st) P"
      "ram P = (\<lambda>a. if PAL_ZERO \<in> flags \<and> page_at p i \<le> a \<and> a < page_at p i + PGSIZE * 1 then 0 else ram (phys st) a)"
    using palloc_get_multiple_ok [OF kvmD(4) [OF k], of 1 flags] True f unfolding po by auto
  have u: "bm_used (used_map p) \<union> {i..<i + 1} = insert i (bm_used (used_map p))" by auto
  have i: "i < bit_cnt (used_map p)" "i \<notin> bm_used (used_map p)" using P(2,3) by auto
  have r: "ram P = (\<lambda>a. if PAL_ZERO \<in> flags \<and> a \<in> span (page_at p i) PGSIZE then 0 else ram (phys st) a)"
    unfolding P(5) by (simp add: span_def fun_eq_iff)
  have m: "ram P a = ram (phys st) a" if "a \<notin> user_range st" for a
    using user_page_range [of i st] i(1) that unfolding r by (auto simp: p_def)
  have "repooled p (insert i (bm_used (used_map p))) (user_pool P)" using takenD(1) [OF P(4)] f po by (simp add: u pool_of_def)
  moreover note user_pool_step [OF k P(4) f(1) m, unfolded r]
  ultimately show thesis using got [of i P] P(1) i f by (simp add: palloc_get_page_def)
qed

lemma free_user_page:
  assumes k: "kvm D st" and i: "i \<in> bm_used (used_map (user_pool (phys st)))"
  defines "p \<equiv> user_pool (phys st)"
  shows "\<exists>P. palloc_free_page (page_at p i) (phys st) = Some P \<and> repooled p (bm_used (used_map p) - {i}) (user_pool P)
    \<and> mm_step D st (active st) (user_pool P) (pte_at st) (kentry st) (\<lambda>a. if a \<in> span (page_at p i) PGSIZE then 0xcc else ram (phys st) a) (st\<lparr>phys := P\<rparr>)"
proof -
  have i': "i < bit_cnt (used_map p)" using i by (simp add: bm_used_def p_def)
  have po: "p = pool_of {PAL_USER} (phys st)" by (simp add: pool_of_def p_def)
  obtain P where P: "palloc_free_multiple (page_at p i) 1 (phys st) = Some P" "taken {PAL_USER} (bm_used (used_map p) - {i..<i + 1}) (phys st) P"
      "ram P = (\<lambda>a. if page_at p i \<le> a \<and> a < page_at p i + PGSIZE * 1 then 0xcc else ram (phys st) a)"
    using palloc_free_multiple_ok [OF kvmD(4) [OF k] _ po, of 1 i] i i' by (auto simp: p_def)
  have u: "{i..<i + 1} = {i}" by auto
  have r: "ram P = (\<lambda>a. if a \<in> span (page_at p i) PGSIZE then 0xcc else ram (phys st) a)" unfolding P(3) by (simp add: span_def fun_eq_iff)
  have m: "ram P a = ram (phys st) a" if "a \<notin> user_range st" for a
    using user_page_range [of i st] i' that unfolding r by (auto simp: p_def)
  have "repooled p (bm_used (used_map p) - {i}) (user_pool P)" using takenD(1) [OF P(2)] po [symmetric] by (simp add: u pool_of_def p_def)
  then show ?thesis using P(1) user_pool_step [OF k P(2) _ m, unfolded r] by (simp add: palloc_free_page_def)
qed

section \<open>Mapping a page\<close>

lemma lookup_create_frame:
  assumes k: "kvm D st" and pd: "pd \<in> D" and va: "is_user_vaddr va" and run: "lookup_page pd va True st = Some (a, st')" "a \<noteq> 0"
  shows "same_user st st'" "palloc_ok (phys st')" "\<exists>t\<in>kpages (phys st'). t \<noteq> pd \<and> a = t + 4 * pt_no va" "768 \<le> i \<Longrightarrow> i < 1024 \<Longrightarrow> pde_at st' pd i = pde_at st pd i"
proof -
  note K = kvmD [OF k]
  have d: "dir_ok st pd" using vm_invD(4) [OF K(1)] pd by simp
  note F = dir_facts [OF K(3) d]
  have "same_user st st' \<and> palloc_ok (phys st') \<and> (\<exists>t\<in>kpages (phys st'). t \<noteq> pd \<and> a = t + 4 * pt_no va) \<and> (768 \<le> i \<longrightarrow> i < 1024 \<longrightarrow> pde_at st' pd i = pde_at st pd i)"
  proof (cases "pd_no va \<in> tables st pd")
    case True
    moreover have "table_at st pd (pd_no va) \<in> kpages (phys st)" using d True by (simp add: dir_ok_def)
    ultimately show ?thesis using lookup_hit [OF K(3) d va True, of True] run(1) F(7) [OF True] K(4) by auto
  next
    case False
    define n where "n = pd_no va"
    have n: "n < 768" using va by (simp add: n_def user_pg_no user_index pt_pd_no)
    have z: "rd st (pd + 4 * n) = 0" using False n by (simp add: tables_def n_def pde_at_def)
    have pdk: "pd \<in> kpages (phys st)" using d by (simp add: dir_ok_def)
    have fl: "PAL_USER \<notin> {PAL_ZERO}" "PAL_ASSERT \<notin> {PAL_ZERO} \<or> card (kpages (phys st)) < bit_cnt (used_map (kernel_pool (phys st)))" by simp_all
    show ?thesis
    proof (cases rule: get_kernel_page [OF K(4) fl])
      case 1
      then show ?thesis using run F(2) va z by (simp add: lookup_page_def Let_def flip: n_def)
    next
      case got: (2 t P)
      have tk: "t \<in> kpages P" using got(3) by simp
      have pw: "page_word t" using kpages_facts [OF got(4) tk] by (auto simp: page_word_def PGSIZE_eq)
      obtain e where e: "pde_create t = Some e" "pde_get_pt e = Some t" by (rule pde_create_ok [OF pw])
      let ?s = "st\<lparr>phys := P\<rparr>"
      have st': "st' = wr (pd + 4 * n) e ?s" "a = t + 4 * pt_no va"
        using run(1) F(2) va z got(1,8) e by (simp_all add: lookup_page_def Let_def flip: n_def)
      note R = fresh_page_reads [OF K(4) got(4,2,3,7), simplified]
      have "pde_at st' pd i = pde_at st pd i" if "768 \<le> i" "i < 1024"
        using rd_wr_entry [OF F(1) F(1), of n i e ?s] R(1) [OF pdk, of i] that n by (simp add: st'(1) pde_at_def)
      moreover have "same_user st ?s" using user_kernel_apart [of ?s t] got(4,5,7) tk by (auto simp: same_user_def user_range_def)
      moreover have "same_user ?s st'" using same_user_wr [of ?s pd n e] got(3,4) pdk n by (simp add: st'(1))
      moreover have "t \<noteq> pd" using got(2) pdk by auto
      ultimately show ?thesis using same_user_trans [of st ?s st'] got(4) tk st' by auto
    qed
  qed
  then show "same_user st st'" "palloc_ok (phys st')" "\<exists>t\<in>kpages (phys st'). t \<noteq> pd \<and> a = t + 4 * pt_no va" "768 \<le> i \<Longrightarrow> i < 1024 \<Longrightarrow> pde_at st' pd i = pde_at st pd i" by blast+
qed

lemma set_page_step:
  assumes k: "kvm D st" and pd: "pd \<in> D" and va: "is_user_vaddr va" "pg_ofs va = 0" and kp: "page_word kp" "(kp - PHYS_BASE) div PGSIZE < init_ram_pages st"
    and free: "\<not> bit (pte_at st pd (pg_no va)) 0" and room: "pd_no va \<in> tables st pd \<or> card (kpages (phys st)) < bit_cnt (used_map (kernel_pool (phys st)))"
  obtains st' e where "pagedir_set_page pd va kp w st = Some (True, st')" "pte_create_user kp w = Some e" "kvm D st'" "active st' = active st" "same_user st st'"
    "init_page_dir st' = init_page_dir st" "init_ram_pages st' = init_ram_pages st"
    "\<And>p n. p \<in> insert (init_page_dir st) D \<Longrightarrow> n < USER_PAGES \<Longrightarrow> pte_at st' p n = (if p = pd \<and> n = pg_no va then e else pte_at st p n)"
    "\<And>j. j < init_ram_pages st \<Longrightarrow> kentry st' j = kentry st j"
proof -
  note K = kvmD [OF k] and V = vm_invD [OF kvmD(1) [OF k]]
  have d: "dir_ok st pd" using V(4) pd by simp
  have npd: "pd \<noteq> init_page_dir st" using V(2) pd by auto
  have nz: "pd \<noteq> 0" by (rule dir_facts(2) [OF K(3) d])
  have "\<exists>st' e. pagedir_set_page pd va kp w st = Some (True, st') \<and> dir_step pd st st' \<and> pte_create_user kp w = Some e
      \<and> (\<forall>n<USER_PAGES. pte_at st' pd n = (if n = pg_no va then e else pte_at st pd n)) \<and> tlb st' = tlb st"
  proof (cases rule: pagedir_set_page_ok [OF K(3) d va kp npd free, of w])
    case 1
    then have hit: "pd_no va \<in> tables st pd" using room by simp
    have "rd st (table_at st pd (pd_no va) + 4 * pt_no va) AND PTE_P = 0" using pte_at_hit [OF hit] free by simp
    moreover have "table_at st pd (pd_no va) + 4 * pt_no va \<noteq> 0" using dir_facts(5) [OF K(3) d hit] by (auto simp: page_word_def PHYS_BASE_def)
    moreover obtain e where "pte_create_user kp w = Some e" by (rule pte_create_ok [OF kp(1)])
    ultimately show ?thesis using 1(1) lookup_hit [OF K(3) d va(1) hit, of True] va kp(2) npd nz page_word_phys [OF kp(1)]
      by (simp add: pagedir_set_page_def PTSHIFT_def PGSIZE_def)
  next
    case (2 st' e)
    then show ?thesis by blast
  qed
  then obtain st' e where st': "pagedir_set_page pd va kp w st = Some (True, st')" "dir_step pd st st'" "pte_create_user kp w = Some e"
      "\<And>n. n < USER_PAGES \<Longrightarrow> pte_at st' pd n = (if n = pg_no va then e else pte_at st pd n)" "tlb st' = tlb st" by blast
  obtain a st1 where L: "lookup_page pd va True st = Some (a, st1)" "a \<noteq> 0" "st' = wr a e st1"
    using st'(1,3) va kp(2) npd nz page_word_phys [OF kp(1)] by (auto simp: pagedir_set_page_def kernel_simps split: if_splits prod.splits)
  note C = lookup_create_frame [OF k pd va(1) L(1,2)]
  obtain t where t: "t \<in> kpages (phys st1)" "t \<noteq> pd" "a = t + 4 * pt_no va" using C(3) by blast
  have same: "same_user st st'" using same_user_trans [OF C(1) same_user_wr [OF C(2) t(1) pt_pd_no(3)]] by (simp add: L(3) t(3))
  have pde: "pde_at st' pd (768 + i) = pde_at st pd (768 + i)" if "i \<in> ktabs st" for i
  proof -
    have i: "768 + i < 1024" using ktabs_small [OF K(2) that] by simp
    have "pde_at st' pd (768 + i) = pde_at st1 pd (768 + i)"
      using rd_wr_entry [OF kpages_facts(1) [OF C(2) t(1)] dir_facts(1) [OF K(3) d] pt_pd_no(3) i] t(2) by (simp add: pde_at_def L(3) t(3))
    then show ?thesis using C(4) [OF _ i] by simp
  qed
  have q: "quiet pd st st'"
  proof -
    have "agree (pte_at st pd n) (pte_at st' pd n)" if "n < USER_PAGES" "bit (pte_at st pd n) 0" for n
      using st'(4) [OF that(1)] that(2) free by (cases "n = pg_no va") simp_all
    then show ?thesis using st'(5) by (simp add: quiet_def)
  qed
  have up: "user_pool (phys st') = user_pool (phys st)" using same by (simp add: same_user_def)
  note S = kvm_dir_step [OF k pd st'(2) q pde up]
  show thesis
  proof (rule that [OF st'(1,3) S(1) _ same])
    show "pte_at st' p n = (if p = pd \<and> n = pg_no va then e else pte_at st p n)" if "p \<in> insert (init_page_dir st) D" "n < USER_PAGES" for p n
      using S(2) [OF _ that(1) _ that(2)] st'(4) [OF that(2)] by (cases "p = pd") simp_all
    show "kentry st' j = kentry st j" if "j < init_ram_pages st" for j by (rule S(3) [OF _ that])
  qed (use st'(2) in \<open>simp_all add: dir_step_def active_def\<close>)
qed

section \<open>Booting, and new directories\<close>

lemma get_kernel_page_user: "palloc_get_page flags st = Some (p, st') \<Longrightarrow> PAL_USER \<notin> flags \<Longrightarrow> user_pool st' = user_pool st"
  by (auto simp: palloc_get_page_def palloc_get_multiple_def set_pool_of_def kernel_simps Let_def split: if_splits)

lemma paging_init_user_pool:
  assumes run: "paging_init a b st = Some st'"
  shows "user_pool (phys st') = user_pool (phys st)"
proof -
  obtain pd p pt s c where s: "palloc_get_page {PAL_ASSERT, PAL_ZERO} (phys st) = Some (pd, p)"
      "mfold (map_ram_page a b pd) [0..<init_ram_pages st] (0, st\<lparr>phys := p, init_page_dir := pd\<rparr>) = Some (pt, s)" "st' = s\<lparr>cr3 := c, tlb := \<lambda>_. None\<rparr>"
    using run by (auto simp: paging_init_def kernel_simps Let_def)
  have "user_pool (phys (snd (pt, s))) = user_pool (phys st)"
  proof (rule mfold_keeps [OF s(2), of "\<lambda>r. user_pool (phys (snd r)) = user_pool (phys st)"])
    show "user_pool (phys (snd (0, st\<lparr>phys := p, init_page_dir := pd\<rparr>))) = user_pool (phys st)" using get_kernel_page_user [OF s(1)] by simp
    show "user_pool (phys (snd t')) = user_pool (phys st)"
      if "user_pool (phys (snd t)) = user_pool (phys st)" "map_ram_page a b pd x t = Some t'" for x t t'
      using that get_kernel_page_user [of "{PAL_ASSERT, PAL_ZERO}" "phys (snd t)"]
      by (cases t) (auto simp: map_ram_page_def kernel_simps Let_def split: if_splits)
  qed
  then show ?thesis using s(3) by simp
qed

lemma kvm_boot:
  assumes st: "palloc_ok (phys st)" "0 < init_ram_pages st" "init_ram_pages st \<le> 262144"
      "card (kpages (phys st)) + 1 + (init_ram_pages st + 1023) div 1024 \<le> bit_cnt (used_map (kernel_pool (phys st)))"
      "pool_base (user_pool (phys st)) + PGSIZE * bit_cnt (used_map (user_pool (phys st))) \<le> PHYS_BASE + PGSIZE * init_ram_pages st"
    and run: "paging_init a b st = Some st'"
  shows "kvm {} st'"
proof -
  note S = vm_start [OF st(1-4) run]
  let ?i = "init_page_dir st'" and ?k = "init_ram_pages st"
  have T: "\<And>i. 1024 * i < ?k \<Longrightarrow> bit (pde_at st' ?i (768 + i)) 0 \<and> table_at st' ?i (768 + i) \<in> kpages (phys st') - {?i}" "inj_on (\<lambda>i. table_at st' ?i (768 + i)) {i. 1024 * i < ?k}"
    using S(2) unfolding kernel_tables_def by simp_all
  have own: "owned st' ?i = {?i}" using vm_invD(3) [OF S(1)] by (simp add: owned_def)
  have e: "bit (kentry st' j) 0 \<and> unat (kentry st' j AND PTE_ADDR) = j * PGSIZE" if j: "j < ?k" for j
  proof -
    let ?w = "\<not> (a \<le> PHYS_BASE + j * PGSIZE \<and> PHYS_BASE + j * PGSIZE < b)"
    have ke: "kentry st' j = kernel_entry st' ?i j" by (simp add: kentry_def kernel_entry_def ktab_def)
    have pc: "pte_create_kernel (PHYS_BASE + j * PGSIZE) ?w = Some (kernel_entry st' ?i j)" using S(3) j unfolding kernel_maps_def by blast
    have "j < 262144" using j st(3) by simp
    then have pw: "page_word (PHYS_BASE + j * PGSIZE)" by (auto simp: page_word_def PHYS_BASE_def PGSIZE_eq)
    have eq: "kernel_entry st' ?i j = of_nat (PHYS_BASE + j * PGSIZE - PHYS_BASE) OR (PTE_P OR (if ?w then PTE_W else 0))"
      using pc page_word_phys(1,2) [OF pw] by (auto simp: pte_create_kernel_def or.assoc split: if_splits)
    have "unat (kernel_entry st' ?i j AND PTE_ADDR) = PHYS_BASE + j * PGSIZE - PHYS_BASE"
      unfolding eq by (rule page_word_address [OF pw]) (auto simp: bit_simps split: if_splits)
    moreover have "bit (kernel_entry st' ?i j) 0" unfolding eq by (simp add: bit_simps)
    ultimately show ?thesis using ke by simp
  qed
  have "kernel_half {} st'" unfolding kernel_half_def ktabs_def S(5)
  proof (intro conjI ballI allI impI)
    show "init_ram_pages st \<le> 2 ^ 18" using st(3) by simp
    show "inj_on (ktab st') {i. 1024 * i < ?k}" using T(2) by (simp add: ktab_def inj_on_def)
    fix i assume i: "i \<in> {i. 1024 * i < ?k}"
    then show "bit (pde_at st' ?i (768 + i)) 0" "ktab st' i \<in> kpages (phys st')" using T(1) [of i] by (simp_all add: ktab_def)
    fix pd assume "pd \<in> insert ?i {}"
    then show "pde_at st' pd (768 + i) = pde_at st' ?i (768 + i)" "ktab st' i \<notin> owned st' pd" using T(1) [of i] i own by (simp_all add: ktab_def)
  qed (use e in simp_all)
  then show ?thesis using S(1,5) st(5) paging_init_user_pool [OF run] by (simp add: kvm_def)
qed

lemma kvm_create:
  assumes k: "kvm D st" and run: "pagedir_create st = Some (pd, st')" and pd: "pd \<noteq> 0"
  shows "kvm (insert pd D) st'" "user_pool (phys st') = user_pool (phys st)" "init_ram_pages st' = init_ram_pages st"
proof -
  note K = kvmD [OF k] and H = kernel_halfD [OF kvmD(2) [OF k]] and V = vm_invD [OF kvmD(1) [OF k]]
  let ?i = "init_page_dir st"
  have idir: "dir_ok st ?i" using V(4) by simp
  show up: "user_pool (phys st') = user_pool (phys st)"
    using run get_kernel_page_user [of "{}" "phys st"] pd by (auto simp: pagedir_create_def kernel_simps split: if_splits)
  have new: "pd \<notin> kpages (phys st)" "kpages (phys st') = insert pd (kpages (phys st))" "same_pages (kpages (phys st)) st st'" "tables st' pd = {}"
      "\<And>i. i < 1024 \<Longrightarrow> pde_at st' pd i = pde_at st ?i i" "init_page_dir st' = ?i" "init_ram_pages st' = init_ram_pages st"
    by (cases rule: pagedir_create_ok [OF K(3) idir V(3)]; use run pd in simp)+
  show "init_ram_pages st' = init_ram_pages st" by (rule new(7))
  have inv: "vm_inv (insert pd D, st')" using vm_create [OF K(1) run] pd by simp
  have dirs: "same_pages (owned st p) st st'" if "p \<in> insert ?i D" for p using same_pages_mono [OF new(3) owned_kpages [OF V(4) [OF that]]] .
  have npd: "pd \<notin> insert ?i D" using V(4) new(1) by (auto simp: dir_ok_def)
  have pde: "pde_at st' p (768 + i) = pde_at st ?i (768 + i)" if p: "p \<in> insert ?i (insert pd D)" and i: "i \<in> ktabs st" for p i
  proof (cases "p = pd")
    case True
    then show ?thesis using new(5) ktabs_small [OF K(2) i] by simp
  next
    case False
    then have p': "p \<in> insert ?i D" using p by blast
    show ?thesis using same_pages_dir(1) [OF dirs [OF p'], of "768 + i"] ktabs_small [OF K(2) i] H(5) [OF i p'] by simp
  qed
  have kt: "ktab st' i = ktab st i" if "i \<in> ktabs st" for i using pde [of ?i i] that by (simp add: ktab_def table_at_def new(6))
  have ks: "ktabs st' = ktabs st" by (simp add: ktabs_def new(7))
  have ke: "kentry st' j = kentry st j" if "j < init_ram_pages st" for j
    using new(3) H(4) [OF ktabs_div [OF that]] kt [OF ktabs_div [OF that]] by (simp add: kentry_def same_pages_def)
  have "kernel_half (insert pd D) st'" unfolding kernel_half_def ks new(6,7)
  proof (intro conjI ballI allI impI)
    show "inj_on (ktab st') (ktabs st)" using H(2) kt by (simp add: inj_on_def)
    fix i assume i: "i \<in> ktabs st"
    show "bit (pde_at st' ?i (768 + i)) 0" using pde [of ?i i] i H(3) [OF i] by simp
    show "ktab st' i \<in> kpages (phys st')" using kt [OF i] H(4) [OF i] new(2) by simp
    fix p assume p: "p \<in> insert ?i (insert pd D)"
    show "pde_at st' p (768 + i) = pde_at st' ?i (768 + i)" using pde [OF p i] pde [of ?i i] i by simp
    show "ktab st' i \<notin> owned st' p"
    proof (cases "p = pd")
      case True
      then show ?thesis using kt [OF i] H(4) [OF i] new(1,4) by (auto simp: owned_def)
    next
      case False
      then have p': "p \<in> insert ?i D" using p by blast
      show ?thesis using same_pages_dir(4) [OF dirs [OF p']] kt [OF i] H(6) [OF i p'] by simp
    qed
  next
    show "bit (kentry st' j) 0" "unat (kentry st' j AND PTE_ADDR) = j * PGSIZE" if "j < init_ram_pages st" for j using ke [OF that] H(7,8) [OF that] by simp_all
  qed (rule H(1))
  then show "kvm (insert pd D) st'" using inv K(5) up new(7) by (simp add: kvm_def)
qed

end
