(* ===== verification/SwapSpec.thy ===== *)
theory SwapSpec
  imports KernelHalf
begin

unbundle bit_operations_syntax

text \<open>
  The swap device as a store of pages: \<open>swap_write\<close> fills a free slot with a page, \<open>swap_read\<close> copies a slot to the page mapped at a
  user address and frees it, and neither touches another slot.
\<close>

definition swap_ok :: "swap \<Rightarrow> bitmap \<Rightarrow> bool" where
  "swap_ok w m \<longleftrightarrow> s_map w = Some m \<and> bm_wf m \<and> 8 * bit_cnt m \<le> block_size (swap_device w) \<and> block_size (swap_device w) < 2 ^ 32
     \<and> (\<forall>x\<in>set (sectors (swap_device w)). length x = BLOCK_SECTOR_SIZE)"

text \<open>Byte \<open>i\<close> of the page that starts at sector \<open>t\<close>.\<close>

definition slot_byte :: "swap \<Rightarrow> nat \<Rightarrow> nat \<Rightarrow> byte" where
  "slot_byte w t i = sectors (swap_device w) ! (t + i div BLOCK_SECTOR_SIZE) ! (i mod BLOCK_SECTOR_SIZE)"

lemma segments_eq: "NUM_OF_HARD_DISK_SEGMENT = 8"
  by (simp add: NUM_OF_HARD_DISK_SEGMENT_def PGSIZE_eq BLOCK_SECTOR_SIZE_def)

lemma length_peek [simp]: "length (peek a n st) = n"
  by (simp add: peek_def)

lemma nth_peek [simp]: "i < n \<Longrightarrow> peek a n st ! i = ram (phys st) (a + i)"
  by (simp add: peek_def)

section \<open>Writing\<close>

lemma write_sectors_upto:
  assumes "start + n \<le> block_size b"
  shows "\<exists>b'. mfold (\<lambda>i b. block_write b (start + i) (peek (kpage + BLOCK_SECTOR_SIZE * i) BLOCK_SECTOR_SIZE st)) [0..<n] b = Some b'
    \<and> block_size b' = block_size b \<and> (\<forall>i<block_size b. sectors b' ! i =
        (if start \<le> i \<and> i < start + n then peek (kpage + BLOCK_SECTOR_SIZE * (i - start)) BLOCK_SECTOR_SIZE st else sectors b ! i))"
  using assms
proof (induction n)
  case (Suc n)
  then obtain b' where b': "mfold (\<lambda>i b. block_write b (start + i) (peek (kpage + BLOCK_SECTOR_SIZE * i) BLOCK_SECTOR_SIZE st)) [0..<n] b = Some b'"
      "block_size b' = block_size b" "\<forall>i<block_size b. sectors b' ! i =
        (if start \<le> i \<and> i < start + n then peek (kpage + BLOCK_SECTOR_SIZE * (i - start)) BLOCK_SECTOR_SIZE st else sectors b ! i)" by auto
  let ?b = "b'\<lparr>sectors := (sectors b')[start + n := peek (kpage + BLOCK_SECTOR_SIZE * n) BLOCK_SECTOR_SIZE st], write_cnt := write_cnt b' + 1\<rparr>"
  have "block_write b' (start + n) (peek (kpage + BLOCK_SECTOR_SIZE * n) BLOCK_SECTOR_SIZE st) = Some ?b"
    using Suc.prems b'(2) by (simp add: block_write_def check_sector_def)
  moreover have "block_size ?b = block_size b" using b'(2) by (simp add: block_size_def)
  moreover have "sectors ?b ! i = (if start \<le> i \<and> i < start + Suc n then peek (kpage + BLOCK_SECTOR_SIZE * (i - start)) BLOCK_SECTOR_SIZE st else sectors b ! i)"
    if "i < block_size b" for i using b'(2,3) that Suc.prems by (cases "i = start + n") (auto simp: block_size_def)
  ultimately show ?case using b'(1) by simp
qed auto

lemma swap_write_ok:
  assumes w: "swap_ok w m" and free: "bm_used m \<noteq> {..<bit_cnt m}" and k: "is_kernel_vaddr kpage" "kpage \<noteq> 0"
  obtains t w' m' where "swap_write kpage st w = Some (8 * t, w')" "t < bit_cnt m" "t \<notin> bm_used m" "swap_ok w' m'" "bit_cnt m' = bit_cnt m"
    "bm_used m' = insert t (bm_used m)" "\<And>i. i < PGSIZE \<Longrightarrow> slot_byte w' (8 * t) i = ram (phys st) (kpage + i)"
    "\<And>u i. u < bit_cnt m \<Longrightarrow> u \<noteq> t \<Longrightarrow> i < PGSIZE \<Longrightarrow> slot_byte w' (8 * u) i = slot_byte w (8 * u) i"
proof -
  have m: "s_map w = Some m" "bm_wf m" "8 * bit_cnt m \<le> block_size (swap_device w)" "block_size (swap_device w) < 2 ^ 32"
    "\<forall>x\<in>set (sectors (swap_device w)). length x = BLOCK_SECTOR_SIZE" using w by (simp_all add: swap_ok_def)
  obtain t m' where t: "bitmap_scan_and_flip m 0 1 False = Some (t, m')" "t < bit_cnt m" "t \<noteq> BITMAP_ERROR" "t \<notin> bm_used m"
      "bm_used m' = insert t (bm_used m)" "bit_cnt m' = bit_cnt m" "bm_wf m'" using bm_alloc_Some [OF m(2) free] by blast
  have room: "8 * t + 8 \<le> block_size (swap_device w)" using t(2) m(3) by linarith
  obtain b where b: "write_sectors (8 * t) kpage st (swap_device w) = Some b" "block_size b = block_size (swap_device w)"
      "\<And>i. i < block_size (swap_device w) \<Longrightarrow> sectors b ! i = (if 8 * t \<le> i \<and> i < 8 * t + 8 then peek (kpage + BLOCK_SECTOR_SIZE * (i - 8 * t)) BLOCK_SECTOR_SIZE st else sectors (swap_device w) ! i)"
    using write_sectors_upto [OF room, of kpage st] unfolding write_sectors_def segments_eq by blast
  let ?w = "w\<lparr>s_map := Some m', swap_device := b\<rparr>"
  have "swap_write kpage st w = Some (8 * t, ?w)"
    using m(1,4) k t(1,3) b(1) room by (simp add: swap_write_def segments_eq mult.commute)
  moreover have "swap_ok ?w m'"
  proof -
    have "length x = BLOCK_SECTOR_SIZE" if x: "x \<in> set (sectors b)" for x
    proof -
      obtain i where i: "i < length (sectors b)" "x = sectors b ! i" using x by (metis in_set_conv_nth)
      then show ?thesis using b(2) b(3) [of i] m(5) by (simp add: block_size_def)
    qed
    then show ?thesis using m t(6,7) b(2) by (simp add: swap_ok_def)
  qed
  moreover have "slot_byte ?w (8 * t) i = ram (phys st) (kpage + i)" if "i < PGSIZE" for i
  proof -
    have s: "i div BLOCK_SECTOR_SIZE < 8" "i mod BLOCK_SECTOR_SIZE < BLOCK_SECTOR_SIZE" using that by (simp_all add: PGSIZE_eq BLOCK_SECTOR_SIZE_def less_mult_imp_div_less)
    show ?thesis using s room b(3) [of "8 * t + i div BLOCK_SECTOR_SIZE"] by (simp add: slot_byte_def add.commute)
  qed
  moreover have "slot_byte ?w (8 * u) i = slot_byte w (8 * u) i" if "u < bit_cnt m" "u \<noteq> t" "i < PGSIZE" for u i
  proof -
    have s: "i div BLOCK_SECTOR_SIZE < 8" using that(3) by (simp add: PGSIZE_eq BLOCK_SECTOR_SIZE_def less_mult_imp_div_less)
    then have "8 * u + i div BLOCK_SECTOR_SIZE < block_size (swap_device w)" using that(1) m(3) by linarith
    moreover have "\<not> (8 * t \<le> 8 * u + i div BLOCK_SECTOR_SIZE \<and> 8 * u + i div BLOCK_SECTOR_SIZE < 8 * t + 8)" using s that(2) by linarith
    ultimately have "sectors b ! (8 * u + i div BLOCK_SECTOR_SIZE) = sectors (swap_device w) ! (8 * u + i div BLOCK_SECTOR_SIZE)" by (subst b(3)) (simp_all only: if_False)
    then show ?thesis by (simp add: slot_byte_def)
  qed
  ultimately show thesis using that t(2,4,5,6) by metis
qed

lemma swap_write_full:
  assumes "swap_ok w m" "bm_used m = {..<bit_cnt m}" "is_kernel_vaddr kpage" "kpage \<noteq> 0"
  shows "swap_write kpage st w = Some (BLOCK_SECTOR_T_ERROR, w)"
proof -
  have m: "s_map w = Some m" "bm_wf m" using assms(1) by (simp_all add: swap_ok_def)
  have "first_run (bm_abs m) 0 1 False = None" using first_free_run assms(2) by blast
  then have "bitmap_scan_and_flip m 0 1 False = Some (BITMAP_ERROR, m)" using bitmap_scan_and_flip_None [OF m(2)] by simp
  moreover have "w\<lparr>s_map := Some m\<rparr> = w" using m(1) by simp
  ultimately show ?thesis using m(1) assms(3,4) by (simp add: swap_write_def)
qed

section \<open>Reading\<close>

text \<open>The user address \<open>va\<close> is mapped to the page \<open>kp\<close> of the pool for processes.\<close>

lemma user_sector_addr:
  assumes "pg_ofs va = 0" "is_user_vaddr va" "i < 8"
  shows "is_user_vaddr (va + BLOCK_SECTOR_SIZE * i)" "pg_no (va + BLOCK_SECTOR_SIZE * i) = pg_no va" "pg_ofs (va + BLOCK_SECTOR_SIZE * i) = BLOCK_SECTOR_SIZE * i"
proof -
  obtain n where n: "va = PGSIZE * n" using assms(1) by (auto simp: pg_ofs_def elim: dvdE)
  have i: "512 * i < 4096" using assms(3) by simp
  show p: "pg_no (va + BLOCK_SECTOR_SIZE * i) = pg_no va" using i by (simp add: pg_no_def n PGSIZE_eq BLOCK_SECTOR_SIZE_def)
  then show "is_user_vaddr (va + BLOCK_SECTOR_SIZE * i)" using assms(2) by (simp add: user_pg_no)
  show "pg_ofs (va + BLOCK_SECTOR_SIZE * i) = BLOCK_SECTOR_SIZE * i" using i by (simp add: pg_ofs_def n PGSIZE_eq BLOCK_SECTOR_SIZE_def)
qed

lemma read_sectors_upto:
  assumes k: "kvm D st" and pd: "pd \<in> D" and va: "is_user_vaddr va" "pg_ofs va = 0" and p: "bit (pte_at st pd (pg_no va)) 0"
    and kp: "kp = PHYS_BASE + unat (pte_at st pd (pg_no va) AND PTE_ADDR)" "PGSIZE dvd kp" "span kp PGSIZE \<subseteq> user_range st"
    and b: "t + 8 \<le> block_size b" "\<forall>x\<in>set (sectors b). length x = BLOCK_SECTOR_SIZE" and n: "n \<le> 8"
  defines "j \<equiv> (kp - PHYS_BASE) div PGSIZE"
  shows "\<exists>st' b'. mfold (read_sector pd t va) [0..<n] (st, b) = Some (st', b') \<and> sectors b' = sectors b
    \<and> mm_step D st (active st) (user_pool (phys st)) (pte_at st) (if n = 0 then kentry st else (kentry st)(j := kentry st j OR PTE_A OR PTE_D))
        (\<lambda>a. if kp \<le> a \<and> a < kp + BLOCK_SECTOR_SIZE * n then sectors b ! (t + (a - kp) div BLOCK_SECTOR_SIZE) ! ((a - kp) mod BLOCK_SECTOR_SIZE) else ram (phys st) a) st'"
  using n
proof (induction n)
  case 0
  then show ?case by (auto intro!: mm_step_cong [OF mm_step_refl [OF k]])
next
  case (Suc n)
  let ?e = "kentry st j OR PTE_A OR PTE_D"
  let ?M = "\<lambda>n a. if kp \<le> a \<and> a < kp + BLOCK_SECTOR_SIZE * n then sectors b ! (t + (a - kp) div BLOCK_SECTOR_SIZE) ! ((a - kp) mod BLOCK_SECTOR_SIZE) else ram (phys st) a"
  obtain s1 b1 where s1: "mfold (read_sector pd t va) [0..<n] (st, b) = Some (s1, b1)" "sectors b1 = sectors b"
      "mm_step D st (active st) (user_pool (phys st)) (pte_at st) (if n = 0 then kentry st else (kentry st)(j := ?e)) (?M n) s1"
    using Suc by auto
  note S = mm_stepD [OF s1(3)]
  have n8: "n < 8" using Suc.prems by simp
  note A = user_sector_addr [OF va(2,1) n8]
  have pin: "pd \<in> insert (init_page_dir st) D" "pg_no va < USER_PAGES" using pd va(1) by (simp_all add: user_pg_no)
  have pte: "pte_at s1 pd (pg_no va) = pte_at st pd (pg_no va)" by (rule S(8) [OF pin])
  let ?a = "kp + BLOCK_SECTOR_SIZE * n" and ?bs = "sectors b ! (t + n)"
  have len: "length ?bs = BLOCK_SECTOR_SIZE" using b n8 by (simp add: block_size_def)
  have get: "pagedir_get_page pd (va + BLOCK_SECTOR_SIZE * n) s1 = Some ?a"
    using user_reads(1) [OF S(1) pd A(1)] p by (simp add: A pte kp(1))
  have in8: "BLOCK_SECTOR_SIZE * n + BLOCK_SECTOR_SIZE \<le> PGSIZE" using n8 by (simp add: BLOCK_SECTOR_SIZE_def PGSIZE_eq)
  have sub: "{?a..<?a + length ?bs} \<subseteq> span kp PGSIZE" using in8 unfolding len span_def by auto
  have ne: "?bs \<noteq> []" using len by (auto simp: BLOCK_SECTOR_SIZE_def)
  have act: "active s1 \<in> insert (init_page_dir s1) D" using vm_invD(6) [OF kvmD(1) [OF S(1)]] .
  have jj: "(?a - PHYS_BASE) div PGSIZE = j"
  proof -
    have "PHYS_BASE \<le> kp" using kp(1) by simp
    moreover have "PGSIZE dvd kp - PHYS_BASE" using kp(2) by (intro dvd_diff_nat) (simp_all add: PHYS_BASE_def PGSIZE_eq)
    ultimately obtain q where "kp = PHYS_BASE + PGSIZE * q" by (metis add.commute dvdE le_add_diff_inverse2)
    then show ?thesis using in8 unfolding j_def by (simp add: PGSIZE_eq BLOCK_SECTOR_SIZE_def)
  qed
  obtain s2 where s2: "hw_store ?a ?bs s1 = Some s2"
      "mm_step D s1 (active s1) (user_pool (phys s1)) (pte_at s1) ((kentry s1)(j := kentry s1 j OR PTE_A OR PTE_D)) (\<lambda>x. if ?a \<le> x \<and> x < ?a + length ?bs then ?bs ! (x - ?a) else ram (phys s1) x) s2"
    using hw_store_step [OF S(1) act _ ne, of ?a] sub kp(3) S(7) unfolding jj by blast
  have mem: "?M (Suc n) x = (if ?a \<le> x \<and> x < ?a + length ?bs then ?bs ! (x - ?a) else ram (phys s1) x)" if "x \<in> user_range st" for x
  proof (cases "?a \<le> x \<and> x < ?a + BLOCK_SECTOR_SIZE")
    case True
    then obtain r where r: "x = kp + BLOCK_SECTOR_SIZE * n + r" "r < BLOCK_SECTOR_SIZE" using le_Suc_ex [of ?a x] by auto
    then show ?thesis using len by simp
  next
    case False
    then show ?thesis using S(3) [OF that] len by auto
  qed
  have "mm_step D s1 (active st) (user_pool (phys st)) (pte_at st) ((kentry st)(j := ?e)) (?M (Suc n)) s2"
  proof (rule mm_step_cong [OF s2(2) [unfolded S(2,6)]])
    show "?M (Suc n) x = (if ?a \<le> x \<and> x < ?a + length ?bs then ?bs ! (x - ?a) else ram (phys s1) x)" if "x \<in> user_range s1" for x
      by (rule mem) (use that S(7) in simp)
    show "pte_at st q i = pte_at s1 q i" if "q \<in> insert (init_page_dir s1) D" "i < USER_PAGES" for q i using S(8) [of q i] S(4) that by simp
    show "((kentry st)(j := ?e)) i = ((kentry s1)(j := kentry s1 j OR PTE_A OR PTE_D)) i" if "i < init_ram_pages s1" for i
    proof -
      have "kentry s1 i = (if n = 0 then kentry st else (kentry st)(j := ?e)) i" by (rule S(9)) (use that S(5) in simp)
      moreover have "?e OR PTE_A OR PTE_D = ?e" by (simp add: or.assoc or.left_commute)
      ultimately show ?thesis by (cases "i = j") (auto split: if_splits)
    qed
  qed
  note T = mm_step_trans [OF s1(3) this]
  let ?b = "b1\<lparr>read_cnt := read_cnt b1 + 1\<rparr>"
  have "block_read b1 (t + n) = Some (?bs, ?b)" using s1(2) b(1) n8 by (simp add: block_read_def check_sector_def block_size_def)
  moreover have "pd \<noteq> 0" using dir_facts(2) [OF kvmD(3) [OF k] vm_invD(4) [OF kvmD(1) [OF k] pin(1)]] .
  ultimately have "read_sector pd t va n (s1, b1) = Some (s2, ?b)" using get s2(1) by (simp add: read_sector_def)
  then have "mfold (read_sector pd t va) [0..<Suc n] (st, b) = Some (s2, ?b)" using s1(1) by simp
  then show ?case using T s1(2) by (intro exI [of _ s2] exI [of _ ?b]) (simp add: fun_upd_def)
qed

lemma bitmap_all_one: "bm_wf m \<Longrightarrow> t \<in> bm_used m \<Longrightarrow> bitmap_all m t 1 = Some True"
  by (subst bitmap_all_ok) (auto simp: bm_used_def simp del: nth_bm_abs)

lemma swap_slot_facts:
  assumes w: "swap_ok w m" and t: "t \<in> bm_used m"
  shows "s_map w = Some m" "8 * t + 8 \<le> block_size (swap_device w)" "bitmap_all m t 1 = Some True"
    "\<exists>m'. bitmap_set m t False = Some m' \<and> bm_wf m' \<and> bit_cnt m' = bit_cnt m \<and> bm_used m' = bm_used m - {t}"
proof -
  have m: "bm_wf m" "8 * bit_cnt m \<le> block_size (swap_device w)" "t < bit_cnt m" using w t by (simp_all add: swap_ok_def bm_used_def)
  show "s_map w = Some m" using w by (simp add: swap_ok_def)
  show "8 * t + 8 \<le> block_size (swap_device w)" using m by linarith
  show "bitmap_all m t 1 = Some True" by (rule bitmap_all_one [OF m(1) t])
  show "\<exists>m'. bitmap_set m t False = Some m' \<and> bm_wf m' \<and> bit_cnt m' = bit_cnt m \<and> bm_used m' = bm_used m - {t}"
    using bitmap_set_ok [OF m(1,3), of False] bm_used_update [OF m(3)] by fastforce
qed

lemma swap_read_ok:
  assumes k: "kvm D st" and pd: "pd \<in> D" and va: "is_user_vaddr va" "pg_ofs va = 0" "va \<noteq> 0" and p: "bit (pte_at st pd (pg_no va)) 0"
    and kp: "kp = PHYS_BASE + unat (pte_at st pd (pg_no va) AND PTE_ADDR)" "PGSIZE dvd kp" "span kp PGSIZE \<subseteq> user_range st"
    and w: "swap_ok w m" and t: "t \<in> bm_used m"
  defines "j \<equiv> (kp - PHYS_BASE) div PGSIZE"
  obtains st' w' m' where "swap_read pd (8 * t) va st w = Some (st', w')" "swap_ok w' m'" "bm_used m' = bm_used m - {t}" "bit_cnt m' = bit_cnt m"
    "slot_byte w' = slot_byte w"
    "mm_step D st (active st) (user_pool (phys st)) (pte_at st) ((kentry st)(j := kentry st j OR PTE_A OR PTE_D))
       (\<lambda>a. if a \<in> span kp PGSIZE then slot_byte w (8 * t) (a - kp) else ram (phys st) a) st'"
proof -
  note S = swap_slot_facts [OF w t]
  have len: "\<forall>x\<in>set (sectors (swap_device w)). length x = BLOCK_SECTOR_SIZE" using w by (simp add: swap_ok_def)
  have pg: "BLOCK_SECTOR_SIZE * 8 = PGSIZE" by (simp add: BLOCK_SECTOR_SIZE_def PGSIZE_eq)
  obtain st' b where r: "mfold (read_sector pd (8 * t) va) [0..<8] (st, swap_device w) = Some (st', b)" "sectors b = sectors (swap_device w)"
      "mm_step D st (active st) (user_pool (phys st)) (pte_at st) ((kentry st)(j := kentry st j OR PTE_A OR PTE_D))
        (\<lambda>a. if kp \<le> a \<and> a < kp + PGSIZE then sectors (swap_device w) ! (8 * t + (a - kp) div BLOCK_SECTOR_SIZE) ! ((a - kp) mod BLOCK_SECTOR_SIZE) else ram (phys st) a) st'"
    using read_sectors_upto [OF k pd va(1,2) p kp S(2) len, of 8] unfolding pg j_def by auto
  obtain m' where m': "bitmap_set m t False = Some m'" "bm_wf m'" "bit_cnt m' = bit_cnt m" "bm_used m' = bm_used m - {t}" using S(4) by blast
  let ?w = "w\<lparr>s_map := Some m', swap_device := b\<rparr>"
  have "swap_read pd (8 * t) va st w = Some (st', ?w)"
    using S(1,3) va r(1) m'(1) by (simp add: swap_read_def segments_eq)
  moreover have "swap_ok ?w m'" using w m' r(2) by (simp add: swap_ok_def block_size_def)
  moreover have "slot_byte ?w = slot_byte w" using r(2) by (simp add: slot_byte_def fun_eq_iff)
  moreover have "mm_step D st (active st) (user_pool (phys st)) (pte_at st) ((kentry st)(j := kentry st j OR PTE_A OR PTE_D))
       (\<lambda>a. if a \<in> span kp PGSIZE then slot_byte w (8 * t) (a - kp) else ram (phys st) a) st'"
    by (rule mm_step_cong [OF r(3)]) (simp_all add: span_def slot_byte_def)
  ultimately show thesis using that [of st' ?w m'] m'(3,4) by blast
qed

text \<open>A null address frees the slot.\<close>

lemma swap_free_ok:
  assumes w: "swap_ok w m" and t: "t \<in> bm_used m"
  shows "\<exists>w' m'. swap_read pd (8 * t) 0 st w = Some (st, w') \<and> swap_ok w' m' \<and> bm_used m' = bm_used m - {t} \<and> swap_device w' = swap_device w"
proof -
  note S = swap_slot_facts [OF w t]
  obtain m' where m': "bitmap_set m t False = Some m'" "bm_wf m'" "bit_cnt m' = bit_cnt m" "bm_used m' = bm_used m - {t}" using S(4) by blast
  have "swap_read pd (8 * t) 0 st w = Some (st, w\<lparr>s_map := Some m', swap_device := swap_device w\<rparr>)"
    using S(1,3) m'(1) by (simp add: swap_read_def segments_eq)
  moreover have "swap_ok (w\<lparr>s_map := Some m', swap_device := swap_device w\<rparr>) m'" using w m' by (simp add: swap_ok_def)
  ultimately show ?thesis using m'(4) by fastforce
qed

end
