(* ===== verification/Vm.thy ===== *)
theory Vm
  imports Swap Files
begin

unbundle bit_operations_syntax

text \<open>
  Virtual memory: \<open>vm/frame.c\<close>, \<open>vm/paging.c\<close> and \<open>userprog/mmap.c\<close> over the page tables, the page allocator, the swap device and
  the calls on files.

  A supplementary entry lives at an address of \<open>supp\<close>; its lock is the thread that holds it. Each thread has its page directory
  (\<open>pdirs\<close>, 0 for a null pointer) and its two-level table of entries. The lock of the frame list is taken around one operation
  on the list, or while a victim is sought, and is left out. Evicting a page can write to a file, which can bring a page in, which
  can evict: \<open>k\<close> bounds how deep this goes. Running out of it, or waiting for a lock somebody else holds, is \<open>None\<close>.
\<close>

section \<open>The state\<close>

record supp_pagedir_entry =
  se_lock :: "nat option"
  se_flags :: "palloc_flag set"
  se_thread :: nat
  sector_t :: nat
  se_fd :: int
  se_s :: int
  se_e :: int
  upage :: nat

record frame =
  fr_user :: "nat option"
  prohibit_cache :: bool

record mmap_info =
  mi_vaddr :: nat
  num_of_pages :: nat
  mi_id :: int
  mi_fd :: int

record vm =
  mm :: mmu
  swp :: swap
  frames :: "nat \<Rightarrow> frame"
  num_of_frames :: nat
  ordered_list :: "nat list"
  supp :: "nat \<Rightarrow> supp_pagedir_entry option"
  next_supp :: nat
  supp_pagedir :: "nat \<Rightarrow> nat \<Rightarrow> (nat \<Rightarrow> nat option) option"
  pdirs :: "nat \<Rightarrow> nat"
  mmap_address :: "nat \<Rightarrow> mmap_info list"
  mmap_id :: int
  calls :: users

text \<open>Operations of the parts, on the whole state.\<close>

definition on_mm :: "(mmu \<Rightarrow> mmu option) \<Rightarrow> vm \<Rightarrow> vm option" where
  "on_mm f s = do { m \<leftarrow> f (mm s); Some (s\<lparr>mm := m\<rparr>) }"

definition vmalloc :: "vm \<Rightarrow> vm option" where
  "vmalloc s = do { t \<leftarrow> xmalloc (ufs (calls s)); Some (s\<lparr>calls := (calls s)\<lparr>ufs := t\<rparr>\<rparr>) }"

definition upd_supp :: "nat \<Rightarrow> (supp_pagedir_entry \<Rightarrow> supp_pagedir_entry) \<Rightarrow> vm \<Rightarrow> vm option" where
  "upd_supp e f s = do { x \<leftarrow> supp s e; Some (s\<lparr>supp := (supp s)(e \<mapsto> f x)\<rparr>) }"

definition se_acquire :: "nat \<Rightarrow> nat \<Rightarrow> vm \<Rightarrow> vm option" where
  "se_acquire me e s = do { x \<leftarrow> supp s e; kassert (se_lock x = None); upd_supp e (\<lambda>x. x\<lparr>se_lock := Some me\<rparr>) s }"

definition se_try_acquire :: "nat \<Rightarrow> nat \<Rightarrow> vm \<Rightarrow> (bool \<times> vm) option" where
  "se_try_acquire me e s =
     do {
       x \<leftarrow> supp s e;
       kassert (se_lock x \<noteq> Some me);
       if se_lock x = None then do { s \<leftarrow> upd_supp e (\<lambda>x. x\<lparr>se_lock := Some me\<rparr>) s; Some (True, s) } else Some (False, s)
     }"

definition se_release :: "nat \<Rightarrow> nat \<Rightarrow> vm \<Rightarrow> vm option" where
  "se_release me e s = do { x \<leftarrow> supp s e; kassert (se_lock x = Some me); upd_supp e (\<lambda>x. x\<lparr>se_lock := None\<rparr>) s }"

section \<open>Frames\<close>

definition frame_get_frame :: "nat \<Rightarrow> vm \<Rightarrow> frame option" where
  "frame_get_frame idx s = do { kassert (idx < num_of_frames s); Some (frames s idx) }"

definition get_next_frame_to_test :: "vm \<Rightarrow> (nat \<times> vm) option" where
  "get_next_frame_to_test s =
     (case ordered_list s of [] \<Rightarrow> None | f # fs \<Rightarrow> Some (f, s\<lparr>ordered_list := fs @ [f]\<rparr>))"

definition frame_init_single :: "nat \<Rightarrow> palloc_flag set \<Rightarrow> nat \<Rightarrow> nat \<Rightarrow> vm \<Rightarrow> vm option" where
  "frame_init_single idx flags user page s =
     do {
       _ \<leftarrow> frame_get_frame idx s;
       x \<leftarrow> supp s user;
       let s = s\<lparr>frames := (frames s)(idx := \<lparr>fr_user = Some user, prohibit_cache = PAL_PROHIBIT_CACHE \<in> flags\<rparr>)\<rparr>;
       s \<leftarrow> on_mm (pagedir_set_accessed (pdirs s (se_thread x)) page False) s;
       s \<leftarrow> on_mm (pagedir_set_dirty (pdirs s (se_thread x)) page False) s;
       Some (s\<lparr>ordered_list := ordered_list s @ [idx]\<rparr>)
     }"

definition frame_map_init :: "nat \<Rightarrow> vm \<Rightarrow> vm" where
  "frame_map_init pages_cnt s = s\<lparr>num_of_frames := pages_cnt, ordered_list := []\<rparr>"

definition frame_free_page_no_lock :: "nat \<Rightarrow> vm \<Rightarrow> vm option" where
  "frame_free_page_no_lock kpage s =
     do {
       idx \<leftarrow> palloc_page_to_idx {PAL_USER, PAL_THROUGH_FRAME} kpage (phys (mm s));
       kassert (idx \<noteq> UINT32_MAX);
       f \<leftarrow> frame_get_frame idx s;
       kassert (idx \<in> set (ordered_list s));
       let s = s\<lparr>ordered_list := remove1 idx (ordered_list s), frames := (frames s)(idx := f\<lparr>fr_user := None\<rparr>)\<rparr>;
       p \<leftarrow> palloc_free_page kpage (phys (mm s));
       Some (s\<lparr>mm := (mm s)\<lparr>phys := p\<rparr>\<rparr>)
     }"

definition frame_set_prohibit :: "nat \<Rightarrow> bool \<Rightarrow> vm \<Rightarrow> vm option" where
  "frame_set_prohibit kpage prohibit s =
     do {
       idx \<leftarrow> palloc_page_to_idx {PAL_USER, PAL_THROUGH_FRAME} kpage (phys (mm s));
       kassert (idx \<noteq> UINT32_MAX);
       f \<leftarrow> frame_get_frame idx s;
       Some (s\<lparr>frames := (frames s)(idx := f\<lparr>prohibit_cache := prohibit\<rparr>)\<rparr>)
     }"

text \<open>Whether a page was accessed, under its user address or the kernel's; and forgetting it.\<close>

definition was_accessed :: "supp_pagedir_entry \<Rightarrow> vm \<Rightarrow> bool option" where
  "was_accessed x s =
     do {
       let pd = pdirs s (se_thread x);
       a \<leftarrow> pagedir_is_accessed pd (upage x) (mm s);
       if a then Some True else do { k \<leftarrow> pagedir_get_page pd (upage x) (mm s); pagedir_is_accessed pd k (mm s) }
     }"

definition clear_accessed :: "supp_pagedir_entry \<Rightarrow> vm \<Rightarrow> vm option" where
  "clear_accessed x s =
     do {
       let pd = pdirs s (se_thread x);
       s \<leftarrow> on_mm (pagedir_set_accessed pd (upage x) False) s;
       k \<leftarrow> pagedir_get_page pd (upage x) (mm s);
       on_mm (pagedir_set_accessed pd k False) s
     }"

text \<open>The search for a victim, which is left locked. It may never end.\<close>

partial_function (option) find_victim :: "nat \<Rightarrow> vm \<Rightarrow> (nat \<times> vm) option" where
  "find_victim me s =
     do {
       (f, s) \<leftarrow> get_next_frame_to_test s;
       u \<leftarrow> fr_user (frames s f);
       x \<leftarrow> supp s u;
       (got, s) \<leftarrow> se_try_acquire me u s;
       if got
       then if prohibit_cache (frames s f) then do { s \<leftarrow> se_release me u s; find_victim me s }
         else do {
           a \<leftarrow> was_accessed x s;
           if a then do { s \<leftarrow> clear_accessed x s; s \<leftarrow> se_release me u s; find_victim me s }
           else Some (f, s)
         }
       else find_victim me s
     }"

text \<open>\<open>frame_second_chance_algorithm\<close>; \<open>discard\<close> is \<open>mmap_discard\<close>.\<close>

definition second_chance_with :: "(nat \<Rightarrow> vm \<Rightarrow> (bool \<times> vm) option) \<Rightarrow> nat \<Rightarrow> vm \<Rightarrow> vm option" where
  "second_chance_with discard me s =
     do {
       (f, s) \<leftarrow> find_victim me s;
       u \<leftarrow> fr_user (frames s f);
       x \<leftarrow> supp s u;
       let pd = pdirs s (se_thread x);
       kassert (pd \<noteq> 0);
       kpage \<leftarrow> pagedir_get_page pd (upage x) (mm s);
       kassert (kpage \<noteq> 0);
       kassert (pg_round_down kpage = kpage);
       kassert (upage x \<noteq> 0);
       s \<leftarrow> on_mm (pagedir_activate pd) s;
       s \<leftarrow> on_mm (pageir_set_kernel_access pd (upage x) True) s;
       (gone, s) \<leftarrow> (if se_fd x \<noteq> - 1 then discard u s else Some (False, s));
       s \<leftarrow> (if gone then Some s
         else do {
           d1 \<leftarrow> pagedir_is_dirty pd (upage x) (mm s);
           d2 \<leftarrow> pagedir_is_dirty pd kpage (mm s);
           if se_fd x = - 1 \<and> PAL_ZERO \<in> se_flags x \<and> \<not> d1 \<and> \<not> d2 then Some s
           else do {
             (t, w) \<leftarrow> swap_write kpage (mm s) (swp s);
             upd_supp u (\<lambda>x. x\<lparr>sector_t := t\<rparr>) (s\<lparr>swp := w\<rparr>)
           }
         });
       s \<leftarrow> on_mm (pagedir_clear_page pd (upage x)) s;
       s \<leftarrow> on_mm (pagedir_activate (pdirs s me)) s;
       s \<leftarrow> frame_free_page_no_lock kpage s;
       se_release me u s
     }"

partial_function (option) get_page_loop :: "(vm \<Rightarrow> vm option) \<Rightarrow> palloc_flag set \<Rightarrow> vm \<Rightarrow> (nat \<times> vm) option" where
  "get_page_loop make_room flags s =
     do {
       (page, p) \<leftarrow> palloc_get_page flags (phys (mm s));
       let s = s\<lparr>mm := (mm s)\<lparr>phys := p\<rparr>\<rparr>;
       if page = 0 then do { s \<leftarrow> make_room s; get_page_loop make_room flags s } else Some (page, s)
     }"

definition frame_get_page_with :: "(vm \<Rightarrow> vm option) \<Rightarrow> nat \<Rightarrow> palloc_flag set \<Rightarrow> nat \<Rightarrow> vm \<Rightarrow> (nat \<times> vm) option" where
  "frame_get_page_with make_room me flags user s =
     do {
       x \<leftarrow> supp s user;
       kassert (se_lock x = Some me);
       kassert (PAL_THROUGH_FRAME \<notin> flags);
       kassert (PAL_USER \<in> flags);
       let flags = insert PAL_THROUGH_FRAME flags;
       (page, s) \<leftarrow> get_page_loop make_room flags s;
       idx \<leftarrow> palloc_page_to_idx flags page (phys (mm s));
       s \<leftarrow> frame_init_single idx flags user page s;
       Some (page, s)
     }"

section \<open>Supplementary page tables\<close>

text \<open>The address of the slot for a page in the table of thread \<open>t\<close>, \<open>None\<close> for a null pointer; and what the slot holds.\<close>

definition supp_slot :: "nat \<Rightarrow> nat \<times> nat \<Rightarrow> vm \<Rightarrow> nat option" where
  "supp_slot t ij s = Option.bind (supp_pagedir s t (fst ij)) (\<lambda>tab. tab (snd ij))"

definition supp_pagedir_lookup :: "nat \<Rightarrow> nat \<Rightarrow> bool \<Rightarrow> vm \<Rightarrow> ((nat \<times> nat) option \<times> vm) option" where
  "supp_pagedir_lookup t va mk s =
     (if va = 0 then Some (None, s)
      else do {
        kassert (pd_no va < 2 ^ 10);
        case supp_pagedir s t (pd_no va) of
          None \<Rightarrow>
            if mk then do {
              s \<leftarrow> vmalloc s;
              Some (Some (pd_no va, pt_no va), s\<lparr>supp_pagedir := (supp_pagedir s)(t := (supp_pagedir s t)(pd_no va \<mapsto> (\<lambda>_. None)))\<rparr>)
            }
            else Some (None, s)
        | Some tab \<Rightarrow> do {
            kassert (case tab (pt_no va) of None \<Rightarrow> True | Some e \<Rightarrow> supp s e \<noteq> None);
            Some (Some (pd_no va, pt_no va), s)
          }
      })"

definition supp_pagedir_virtual_create :: "nat \<Rightarrow> nat \<Rightarrow> palloc_flag set \<Rightarrow> vm \<Rightarrow> vm option" where
  "supp_pagedir_virtual_create me va flag s =
     do {
       kassert (pg_round_down va = va);
       kassert (va \<noteq> 0);
       kassert (pg_ofs va = 0);
       kassert (is_user_vaddr va);
       kassert (PAL_USER \<in> flag);
       (slot, s) \<leftarrow> supp_pagedir_lookup me va True s;
       ij \<leftarrow> slot;
       kassert (supp_slot me ij s = None);
       s \<leftarrow> vmalloc s;
       tab \<leftarrow> supp_pagedir s me (fst ij);
       kassert (pdirs s me \<noteq> 0);
       let e = next_supp s;
       Some (s\<lparr>supp := (supp s)(e \<mapsto> \<lparr>se_lock = None, se_flags = flag, se_thread = me, sector_t = BLOCK_SECTOR_T_ERROR,
                                  se_fd = - 1, se_s = - 1, se_e = - 1, upage = va\<rparr>), next_supp := e + 1,
               supp_pagedir := (supp_pagedir s)(me := (supp_pagedir s me)(fst ij \<mapsto> tab(snd ij \<mapsto> e)))\<rparr>)
     }"

definition supp_pagedir_set_readfile :: "nat \<Rightarrow> nat \<Rightarrow> int \<Rightarrow> int \<Rightarrow> int \<Rightarrow> palloc_flag set \<Rightarrow> vm \<Rightarrow> vm option" where
  "supp_pagedir_set_readfile me va fd a b flags s =
     do {
       (slot, s) \<leftarrow> supp_pagedir_lookup me va False s;
       ij \<leftarrow> slot;
       e \<leftarrow> supp_slot me ij s;
       upd_supp e (\<lambda>x. x\<lparr>se_flags := insert PAL_ZERO (se_flags x \<union> flags), se_fd := fd, se_s := a, se_e := b\<rparr>) s
     }"

definition supp_pagedir_really_create :: "(vm \<Rightarrow> vm option) \<Rightarrow> nat \<Rightarrow> nat \<Rightarrow> vm \<Rightarrow> vm option" where
  "supp_pagedir_really_create make_room me e s =
     do {
       x \<leftarrow> supp s e;
       kassert (se_lock x = Some me);
       (kpage, s) \<leftarrow> frame_get_page_with make_room me (se_flags x) e s;
       p \<leftarrow> vtop kpage;
       kassert (p div 2 ^ PTSHIFT < init_ram_pages (mm s));
       kassert (pg_ofs kpage = 0);
       (ret, m) \<leftarrow> pagedir_set_page (pdirs s me) (upage x) kpage (PAL_READONLY \<notin> se_flags x) (mm s);
       kassert ret;
       k \<leftarrow> pagedir_get_page (pdirs s me) (upage x) m;
       kassert (k \<noteq> 0);
       Some (s\<lparr>mm := m\<rparr>)
     }"

text \<open>Bringing a page in: from the swap device, from its file, or as the zeros it was made of. The number of bytes to read is
  passed on unsigned.\<close>

definition paging_activate_no_lock :: "(vm \<Rightarrow> vm option) \<Rightarrow> nat \<Rightarrow> nat \<Rightarrow> nat \<Rightarrow> vm \<Rightarrow> vm option" where
  "paging_activate_no_lock make_room d me e s =
     do {
       x \<leftarrow> supp s e;
       kassert (se_lock x = Some me);
       kassert (pdirs s me \<noteq> 0);
       k \<leftarrow> pagedir_get_page (pdirs s me) (upage x) (mm s);
       s \<leftarrow> (if k = 0 then supp_pagedir_really_create make_room me e s else Some s);
       kpage \<leftarrow> pagedir_get_page (pdirs s me) (upage x) (mm s);
       kassert (kpage \<noteq> 0);
       if sector_t x \<noteq> BLOCK_SECTOR_T_ERROR
       then do {
         (m, w) \<leftarrow> swap_read (pdirs s me) (sector_t x) (upage x) (mm s) (swp s);
         m \<leftarrow> pagedir_set_accessed (pdirs s (se_thread x)) (upage x) False m;
         m \<leftarrow> pagedir_set_dirty (pdirs s (se_thread x)) (upage x) False m;
         upd_supp e (\<lambda>x. x\<lparr>sector_t := BLOCK_SECTOR_T_ERROR\<rparr>) (s\<lparr>mm := m, swp := w\<rparr>)
       }
       else if se_fd x \<noteq> - 1
       then do {
         kassert (upage x = pg_round_down (upage x));
         u \<leftarrow> seek_sys me (se_fd x) (nat (se_s x mod 2 ^ 32)) (calls s);
         kassert (se_e x - se_s x \<le> int PGSIZE);
         let read_size = se_e x - se_s x;
         (bs, _, u) \<leftarrow> read_sys d me (se_fd x) (nat (read_size mod 2 ^ 32)) u;
         m \<leftarrow> hw_store kpage bs (mm s);
         m \<leftarrow> hw_store (nat (int kpage + read_size)) (replicate (nat (int PGSIZE - read_size)) 0) m;
         m \<leftarrow> pagedir_set_accessed (pdirs s (se_thread x)) kpage False m;
         m \<leftarrow> pagedir_set_dirty (pdirs s (se_thread x)) kpage False m;
         Some (s\<lparr>mm := m, calls := u\<rparr>)
       }
       else Some s
     }"

definition paging_activate_with :: "(vm \<Rightarrow> vm option) \<Rightarrow> nat \<Rightarrow> nat \<Rightarrow> nat \<Rightarrow> vm \<Rightarrow> (bool \<times> vm) option" where
  "paging_activate_with make_room d me e s =
     do {
       s \<leftarrow> se_acquire me e s;
       x \<leftarrow> supp s e;
       k \<leftarrow> pagedir_get_page (pdirs s me) (upage x) (mm s);
       s \<leftarrow> paging_activate_no_lock make_room d me e s;
       s \<leftarrow> se_release me e s;
       Some (k = 0, s)
     }"

definition set_prohibit_with :: "(vm \<Rightarrow> vm option) \<Rightarrow> nat \<Rightarrow> nat \<Rightarrow> nat \<Rightarrow> bool \<Rightarrow> vm \<Rightarrow> vm option" where
  "set_prohibit_with make_room d me va prohibit s =
     do {
       kassert (va \<noteq> 0);
       (slot, s) \<leftarrow> supp_pagedir_lookup me va False s;
       ij \<leftarrow> slot;
       e \<leftarrow> supp_slot me ij s;
       s \<leftarrow> upd_supp e (\<lambda>x. x\<lparr>se_flags := if prohibit then insert PAL_PROHIBIT_CACHE (se_flags x) else se_flags x - {PAL_PROHIBIT_CACHE}\<rparr>) s;
       s \<leftarrow> se_acquire me e s;
       kpage \<leftarrow> pagedir_get_page (pdirs s me) (pg_round_down va) (mm s);
       s \<leftarrow> (if kpage \<noteq> 0 then frame_set_prohibit kpage prohibit s else Some s);
       s \<leftarrow> (if kpage = 0 \<and> prohibit then paging_activate_no_lock make_room d me e s else Some s);
       se_release me e s
     }"

section \<open>Mapped files\<close>

text \<open>The bytes the kernel reads at a user address; a page that is not present would fault.\<close>

definition user_bytes :: "nat \<Rightarrow> nat \<Rightarrow> mmu \<Rightarrow> byte list option" where
  "user_bytes va n st =
     do { pd \<leftarrow> active_pd st; k \<leftarrow> pagedir_get_page pd va st; kassert (k \<noteq> 0); kassert (pg_ofs va + n \<le> PGSIZE); Some (peek k n st) }"

definition mmap_discard_with :: "(nat \<Rightarrow> bool \<Rightarrow> vm \<Rightarrow> vm option) \<Rightarrow> nat \<Rightarrow> nat \<Rightarrow> nat \<Rightarrow> vm \<Rightarrow> (bool \<times> vm) option" where
  "mmap_discard_with prohibit d me e s =
     do {
       x \<leftarrow> supp s e;
       let pd = pdirs s (se_thread x);
       d1 \<leftarrow> pagedir_is_dirty pd (upage x) (mm s);
       dirty \<leftarrow> (if d1 then Some True else do { k \<leftarrow> pagedir_get_page pd (upage x) (mm s); pagedir_is_dirty pd k (mm s) });
       if \<not> dirty then Some (True, s)
       else if PAL_DONT_SYNC_ON_DISK \<in> se_flags x then Some (False, s)
       else do {
         s \<leftarrow> on_mm (pagedir_set_dirty pd (upage x) False) s;
         k \<leftarrow> pagedir_get_page pd (upage x) (mm s);
         s \<leftarrow> on_mm (pagedir_set_dirty pd k False) s;
         s \<leftarrow> prohibit (upage x) True s;
         u \<leftarrow> seek_sys me (se_fd x) (nat (se_s x mod 2 ^ 32)) (calls s);
         bs \<leftarrow> user_bytes (upage x) (nat (se_e x - se_s x)) (mm s);
         (n, u) \<leftarrow> write_sys d me (se_fd x) bs u;
         kassert (n = se_e x - se_s x);
         s \<leftarrow> prohibit (upage x) False (s\<lparr>calls := u\<rparr>);
         Some (True, s)
       }
     }"

text \<open>The functions of the source; \<open>k\<close> is how often eviction may be entered again.\<close>

fun frame_second_chance_algorithm :: "nat \<Rightarrow> nat \<Rightarrow> nat \<Rightarrow> vm \<Rightarrow> vm option" where
  "frame_second_chance_algorithm 0 d me s = None"
| "frame_second_chance_algorithm (Suc k) d me s =
     second_chance_with (mmap_discard_with (set_prohibit_with (frame_second_chance_algorithm k d me) d me) d me) me s"

definition frame_get_page :: "nat \<Rightarrow> nat \<Rightarrow> nat \<Rightarrow> palloc_flag set \<Rightarrow> nat \<Rightarrow> vm \<Rightarrow> (nat \<times> vm) option" where
  "frame_get_page k d me = frame_get_page_with (frame_second_chance_algorithm k d me) me"

definition paging_activate :: "nat \<Rightarrow> nat \<Rightarrow> nat \<Rightarrow> nat \<Rightarrow> vm \<Rightarrow> (bool \<times> vm) option" where
  "paging_activate k d me = paging_activate_with (frame_second_chance_algorithm k d me) d me"

definition supp_pagedir_set_prohibit :: "nat \<Rightarrow> nat \<Rightarrow> nat \<Rightarrow> nat \<Rightarrow> bool \<Rightarrow> vm \<Rightarrow> vm option" where
  "supp_pagedir_set_prohibit k d me = set_prohibit_with (frame_second_chance_algorithm k d me) d me"

definition mmap_discard :: "nat \<Rightarrow> nat \<Rightarrow> nat \<Rightarrow> nat \<Rightarrow> vm \<Rightarrow> (bool \<times> vm) option" where
  "mmap_discard k d me = mmap_discard_with (supp_pagedir_set_prohibit k d me) d me"

text \<open>\<open>swap_read\<close> with a null address frees the slot. The entry is freed although its lock is held.\<close>

definition supp_pagedir_destroy_page :: "nat \<Rightarrow> nat \<Rightarrow> nat \<Rightarrow> nat \<Rightarrow> vm \<Rightarrow> vm option" where
  "supp_pagedir_destroy_page me t pd va s =
     do {
       kassert (pd \<noteq> 0);
       (slot, s) \<leftarrow> supp_pagedir_lookup t va False s;
       ij \<leftarrow> slot;
       e \<leftarrow> supp_slot t ij s;
       s \<leftarrow> se_acquire me e s;
       x \<leftarrow> supp s e;
       s \<leftarrow> (if sector_t x \<noteq> BLOCK_SECTOR_T_ERROR
         then do { (m, w) \<leftarrow> swap_read (pdirs s me) (sector_t x) 0 (mm s) (swp s); Some (s\<lparr>mm := m, swp := w\<rparr>) }
         else Some s);
       kpage \<leftarrow> pagedir_get_page pd va (mm s);
       s \<leftarrow> (if kpage \<noteq> 0 then frame_free_page_no_lock kpage s else Some s);
       tab \<leftarrow> supp_pagedir s t (fst ij);
       let s = s\<lparr>supp := (supp s)(e := None), supp_pagedir := (supp_pagedir s)(t := (supp_pagedir s t)(fst ij \<mapsto> tab(snd ij := None)))\<rparr>;
       on_mm (pagedir_clear_page pd va) s
     }"

definition supp_pagedir_destroy :: "nat \<Rightarrow> nat \<Rightarrow> nat \<Rightarrow> vm \<Rightarrow> vm option" where
  "supp_pagedir_destroy me t pd s =
     mfold (\<lambda>i s. case supp_pagedir s t i of
         None \<Rightarrow> Some s
       | Some _ \<Rightarrow> do {
           s \<leftarrow> mfold (\<lambda>j s. case supp_slot t (i, j) s of
                 None \<Rightarrow> Some s
               | Some e \<Rightarrow> do { x \<leftarrow> supp s e; supp_pagedir_destroy_page me t pd (upage x) s }) [0..<2 ^ PTBITS] s;
           Some (s\<lparr>supp_pagedir := (supp_pagedir s)(t := (supp_pagedir s t)(i := None))\<rparr>)
         }) [0..<2 ^ 10] s"

text \<open>The loops of \<open>mmap_sys\<close>: the check of the addresses, as the source computes them, and the creation of the entries.\<close>

partial_function (option) mmap_check :: "nat \<Rightarrow> nat \<Rightarrow> int \<Rightarrow> int \<Rightarrow> vm \<Rightarrow> (bool \<times> vm) option" where
  "mmap_check me va i len s =
     (if \<not> i < len then Some (True, s)
      else do {
        (ee, s) \<leftarrow> supp_pagedir_lookup me (nat ((int va + i * int PGSIZE) mod 2 ^ 32)) False s;
        if ee \<noteq> None then Some (False, s) else mmap_check me va (s32 (i + int PGSIZE)) len s
      })"

partial_function (option) mmap_loop :: "nat \<Rightarrow> nat \<Rightarrow> int \<Rightarrow> int \<Rightarrow> int \<Rightarrow> palloc_flag set \<Rightarrow> nat \<Rightarrow> vm \<Rightarrow> (nat \<times> vm) option" where
  "mmap_loop me va fd i len flags n s =
     (if \<not> i < len then Some (n, s)
      else do {
        s \<leftarrow> supp_pagedir_virtual_create me va (insert PAL_ZERO (insert PAL_USER flags)) s;
        s \<leftarrow> supp_pagedir_set_readfile me va fd i (if s32 (i + int PGSIZE) < len then s32 (i + int PGSIZE) else len) flags s;
        mmap_loop me (u32 (va + PGSIZE)) fd (s32 (i + int PGSIZE)) len flags (n + 1) s
      })"

definition mmap_sys :: "nat \<Rightarrow> nat \<Rightarrow> int \<Rightarrow> nat \<Rightarrow> int \<Rightarrow> int \<Rightarrow> palloc_flag set \<Rightarrow> vm \<Rightarrow> (int \<times> vm) option" where
  "mmap_sys d me fd va a len flags s =
     do {
       (len, u) \<leftarrow> (if len = - 666 then filesize_sys me fd (calls s) else Some (s32 (len + a), calls s));
       let s = s\<lparr>calls := u\<rparr>;
       if len = 0 \<or> len = - 1 \<or> va = 0 \<or> fd < 2 \<or> pg_round_down va \<noteq> va then Some (- 1, s)
       else do {
         kassert (pdirs s me \<noteq> 0);
         (unused, s) \<leftarrow> mmap_check me va a len s;
         if \<not> unused then Some (- 1, s)
         else do {
           (fd, u) \<leftarrow> file_reopen_sys d me fd (calls s);
           kassert (fd \<noteq> - 1);
           (n, s) \<leftarrow> mmap_loop me va fd a len flags 0 (s\<lparr>calls := u\<rparr>);
           s \<leftarrow> vmalloc s;
           let info = \<lparr>mi_vaddr = va, num_of_pages = n, mi_id = mmap_id s, mi_fd = fd\<rparr>;
           Some (mmap_id s, s\<lparr>mmap_id := s32 (mmap_id s + 1), mmap_address := (mmap_address s)(me := mmap_address s me @ [info])\<rparr>)
         }
       }
     }"

definition find_open_mmap :: "nat \<Rightarrow> int \<Rightarrow> vm \<Rightarrow> mmap_info option" where
  "find_open_mmap me i s = List.find (\<lambda>m. mi_id m = i) (mmap_address s me)"

definition munmap_sys :: "nat \<Rightarrow> nat \<Rightarrow> nat \<Rightarrow> int \<Rightarrow> vm \<Rightarrow> vm option" where
  "munmap_sys k d me map_id s =
     do {
       info \<leftarrow> find_open_mmap me map_id s;
       s \<leftarrow> mfold (\<lambda>i s. do {
           let va = u32 (mi_vaddr info + i * PGSIZE);
           (slot, s) \<leftarrow> supp_pagedir_lookup me va False s;
           ij \<leftarrow> slot;
           e \<leftarrow> supp_slot me ij s;
           (_, s) \<leftarrow> mmap_discard k d me e s;
           supp_pagedir_destroy_page me me (pdirs s me) va s
         }) [0..<num_of_pages info] s;
       u \<leftarrow> close_sys d me (mi_fd info) (calls s);
       Some (s\<lparr>calls := u, mmap_address := (mmap_address s)(me := remove1 info (mmap_address s me))\<rparr>)
     }"

section \<open>Page faults and the pointers of system calls\<close>

text \<open>\<open>Inl ()\<close>: the process is killed with \<open>exit (-1)\<close>.\<close>

definition stack_resized :: "nat \<Rightarrow> nat \<Rightarrow> nat \<Rightarrow> nat \<Rightarrow> nat \<Rightarrow> vm \<Rightarrow> ((unit + bool) \<times> vm) option" where
  "stack_resized k d me esp p s =
     do {
       s \<leftarrow> (if u32 (esp + 2 ^ 32 - 33) < p \<and> p < u32 (esp + PGSIZE * 100)
         then supp_pagedir_virtual_create me (pg_round_down p) {PAL_USER, PAL_ZERO} s
         else Some s);
       (slot, s) \<leftarrow> supp_pagedir_lookup me p False s;
       case Option.bind slot (\<lambda>ij. supp_slot me ij s) of
         None \<Rightarrow> Some (Inr False, s)
       | Some e \<Rightarrow> do { (ok, s) \<leftarrow> paging_activate k d me e s; Some (if ok then Inr True else Inl (), s) }
     }"

definition page_fault :: "nat \<Rightarrow> nat \<Rightarrow> nat \<Rightarrow> nat \<Rightarrow> nat \<Rightarrow> vm \<Rightarrow> ((unit + unit) \<times> vm) option" where
  "page_fault k d me esp fault_addr s =
     (if \<not> is_user_vaddr fault_addr \<or> is_kernel_vaddr fault_addr \<or> fault_addr = 0 then Some (Inl (), s)
      else do {
        kassert (pdirs s me \<noteq> 0);
        (slot, s) \<leftarrow> supp_pagedir_lookup me fault_addr False s;
        case Option.bind slot (\<lambda>ij. supp_slot me ij s) of
          None \<Rightarrow> do {
            (r, s) \<leftarrow> stack_resized k d me esp fault_addr s;
            Some (if r = Inr True then Inr () else Inl (), s)
          }
        | Some e \<Rightarrow> do { (ok, s) \<leftarrow> paging_activate k d me e s; Some (if ok then Inr () else Inl (), s) }
      })"

definition check_pointer :: "nat \<Rightarrow> nat \<Rightarrow> nat \<Rightarrow> nat \<Rightarrow> nat \<Rightarrow> bool \<Rightarrow> bool \<Rightarrow> vm \<Rightarrow> ((unit + unit) \<times> vm) option" where
  "check_pointer k d me esp p grow prohibit s =
     (if \<not> is_user_vaddr p then Some (Inl (), s)
      else do {
        kassert (pdirs s me \<noteq> 0);
        page \<leftarrow> pagedir_get_page (pdirs s me) p (mm s);
        (dead, s) \<leftarrow> (if page = 0
          then if grow then do { (r, s) \<leftarrow> stack_resized k d me esp p s; Some (r \<noteq> Inr True, s) } else Some (True, s)
          else Some (False, s));
        if dead then Some (Inl (), s)
        else do {
          s \<leftarrow> supp_pagedir_set_prohibit k d me p prohibit s;
          _ \<leftarrow> (if prohibit then do { page \<leftarrow> pagedir_get_page (pdirs s me) p (mm s); kassert (page \<noteq> 0) } else Some ());
          (slot, s) \<leftarrow> supp_pagedir_lookup me p False s;
          ij \<leftarrow> slot;
          e \<leftarrow> supp_slot me ij s;
          x \<leftarrow> supp s e;
          kassert (prohibit \<longleftrightarrow> PAL_PROHIBIT_CACHE \<in> se_flags x);
          Some (Inr (), s)
        }
      })"

end
