(* ===== verification/MappedFile.thy ===== *)
theory MappedFile
  imports Vm FsTheorems
begin

text \<open>
  The file behind a page. \<open>origin_of\<close> is the page of an entry as it was before anybody wrote to it: the bytes of its file, the rest
  zero, or zeros when it has no file. What \<open>paging_activate_no_lock\<close> does to bring such a page in, \<open>seek_sys\<close> and \<open>read_sys\<close> on the
  descriptor of the entry, yields those bytes and changes no file, also when writing to the file is denied, as it is while the program
  runs.
\<close>

section \<open>The page of a file\<close>

definition origin_of :: "users \<Rightarrow> supp_pagedir_entry \<Rightarrow> nat \<Rightarrow> byte" where
  "origin_of u x i =
     (if se_fd x = - 1 then 0
      else case Option.bind (find_open_file (se_fd x) (procs u (se_thread x))) (\<lambda>f. inodes (ufs u) (f_inode (uf_file f))) of
        None \<Rightarrow> 0
      | Some ino \<Rightarrow>
          let bs = take (nat (se_e x - se_s x)) (drop (nat (se_s x)) (file_bytes (contents_of (ufs u)) (i_sector ino)))
          in if i < length bs then bs ! i else 0)"

lemma origin_entry [simp]: "origin_of u (x\<lparr>se_lock := l\<rparr>) = origin_of u x" "origin_of u (x\<lparr>sector_t := t\<rparr>) = origin_of u x"
    "origin_of u (x\<lparr>se_flags := fl\<rparr>) = origin_of u x"
  by (simp_all add: origin_of_def fun_eq_iff split: option.split)

text \<open>The file of an entry is open, is a file, and nobody is in the middle of an operation on it.\<close>

definition file_ready :: "users \<Rightarrow> supp_pagedir_entry \<Rightarrow> bool" where
  "file_ready u x \<longleftrightarrow> (\<exists>f sec n len m. find_open_file (se_fd x) (procs u (se_thread x)) = Some f \<and> uf_dir f = None \<and> se_fd x \<noteq> 0
     \<and> unlocked_inode (ufs u) (f_inode (uf_file f)) sec \<and> fs_ok n (ufs u) \<and> file_ok (cap_of (ufs u)) (contents_of (ufs u)) sec len m
     \<and> 0 \<le> se_s x \<and> se_s x < int MAX_LENGTH \<and> se_s x \<le> se_e x \<and> se_e x - se_s x \<le> int PGSIZE)"

lemma file_ready_entry [simp]: "file_ready u (x\<lparr>se_lock := l\<rparr>) = file_ready u x"
  by (simp add: file_ready_def)

section \<open>Descriptors\<close>

lemma find_map_same: "(\<And>i. uf_fd (g i) = uf_fd i) \<Longrightarrow>
    List.find (\<lambda>f. uf_fd f = fd') (map (\<lambda>i. if uf_fd i = fd then g i else i) l)
    = (if fd' = fd then map_option g (List.find (\<lambda>f. uf_fd f = fd) l) else List.find (\<lambda>f. uf_fd f = fd') l)"
  by (induction l) auto

lemma find_set_info:
  assumes "\<And>i. uf_fd (g i) = uf_fd i"
  shows "find_open_file fd' (procs (set_info t fd g u) t')
    = (if t' = t \<and> fd' = fd then map_option g (find_open_file fd (procs u t)) else find_open_file fd' (procs u t'))"
  using find_map_same [of g fd fd, OF assms] find_map_same [of g fd' fd, OF assms] by (simp add: set_info_def find_open_file_def)

text \<open>Moving in a file, and reading, keep the inode of every descriptor, and whether it is a directory.\<close>

definition same_files :: "users \<Rightarrow> users \<Rightarrow> bool" where
  "same_files u u' \<longleftrightarrow> inodes (ufs u') = inodes (ufs u) \<and> contents_of (ufs u') = contents_of (ufs u) \<and> cap_of (ufs u') = cap_of (ufs u)
     \<and> (\<forall>n. fs_ok n (ufs u) \<longrightarrow> fs_ok n (ufs u'))
     \<and> (\<forall>fd t. map_option (\<lambda>f. (f_inode (uf_file f), uf_dir f)) (find_open_file fd (procs u' t)) = map_option (\<lambda>f. (f_inode (uf_file f), uf_dir f)) (find_open_file fd (procs u t)))"

lemma same_files_refl: "same_files u u"
  by (simp add: same_files_def)

lemma same_files_trans: "same_files u v \<Longrightarrow> same_files v w \<Longrightarrow> same_files u w"
  unfolding same_files_def by simp

lemma same_files_find:
  assumes "same_files u u'" "find_open_file fd (procs u t) = Some f"
  obtains f' where "find_open_file fd (procs u' t) = Some f'" "f_inode (uf_file f') = f_inode (uf_file f)" "uf_dir f' = uf_dir f"
proof -
  have "map_option (\<lambda>f. (f_inode (uf_file f), uf_dir f)) (find_open_file fd (procs u' t)) = Some (f_inode (uf_file f), uf_dir f)"
    using assms unfolding same_files_def by simp
  then show thesis using that by (cases "find_open_file fd (procs u' t)") auto
qed

lemma same_files_origin:
  assumes "same_files u u'"
  shows "origin_of u' = origin_of u"
proof (intro ext)
  fix x :: supp_pagedir_entry and i
  have e: "inodes (ufs u') = inodes (ufs u)" "contents_of (ufs u') = contents_of (ufs u)"
    "map_option (\<lambda>f. (f_inode (uf_file f), uf_dir f)) (find_open_file (se_fd x) (procs u' (se_thread x)))
       = map_option (\<lambda>f. (f_inode (uf_file f), uf_dir f)) (find_open_file (se_fd x) (procs u (se_thread x)))"
    using assms by (simp_all add: same_files_def)
  show "origin_of u' x i = origin_of u x i"
    using e(3) by (cases "find_open_file (se_fd x) (procs u (se_thread x))"; cases "find_open_file (se_fd x) (procs u' (se_thread x))")
      (simp_all add: origin_of_def e(1) e(2) Let_def split: option.split)
qed

lemma same_files_ready: "same_files u u' \<Longrightarrow> file_ready u x \<Longrightarrow> file_ready u' x"
proof -
  assume s: "same_files u u'" and "file_ready u x"
  then obtain f sec n len m where r: "find_open_file (se_fd x) (procs u (se_thread x)) = Some f" "uf_dir f = None" "se_fd x \<noteq> 0"
     "unlocked_inode (ufs u) (f_inode (uf_file f)) sec" "fs_ok n (ufs u)" "file_ok (cap_of (ufs u)) (contents_of (ufs u)) sec len m"
     "0 \<le> se_s x" "se_s x < int MAX_LENGTH" "se_s x \<le> se_e x" "se_e x - se_s x \<le> int PGSIZE" unfolding file_ready_def by blast
  obtain f' where f': "find_open_file (se_fd x) (procs u' (se_thread x)) = Some f'" "f_inode (uf_file f') = f_inode (uf_file f)" "uf_dir f' = uf_dir f"
    by (rule same_files_find [OF s r(1)])
  have e: "inodes (ufs u') = inodes (ufs u)" "contents_of (ufs u') = contents_of (ufs u)" "cap_of (ufs u') = cap_of (ufs u)" "fs_ok n (ufs u')"
    using s r(5) by (simp_all add: same_files_def)
  have "unlocked_inode (ufs u') (f_inode (uf_file f')) sec" using r(4) by (simp add: unlocked_inode_def e(1) f'(2))
  then show ?thesis unfolding file_ready_def using f' r e by (intro exI [of _ f'] exI [of _ sec] exI [of _ n] exI [of _ len] exI [of _ m]) simp
qed

section \<open>Reading the page\<close>

lemma page_from_file:
  assumes r: "file_ready u x" and fd: "se_fd x \<noteq> - 1" and me: "se_thread x = me"
  shows "\<exists>u1 bs k u2. seek_sys me (se_fd x) (nat (se_s x mod 2 ^ 32)) u = Some u1
    \<and> read_sys d me (se_fd x) (nat ((se_e x - se_s x) mod 2 ^ 32)) u1 = Some (bs, k, u2)
    \<and> length bs \<le> nat (se_e x - se_s x) \<and> (\<forall>i. (if i < length bs then bs ! i else 0) = origin_of u x i) \<and> same_files u u2"
proof -
  obtain f sec n len m where R: "find_open_file (se_fd x) (procs u me) = Some f" "uf_dir f = None" "se_fd x \<noteq> 0"
     "unlocked_inode (ufs u) (f_inode (uf_file f)) sec" "fs_ok n (ufs u)" "file_ok (cap_of (ufs u)) (contents_of (ufs u)) sec len m"
     "0 \<le> se_s x" "se_s x < int MAX_LENGTH" "se_s x \<le> se_e x" "se_e x - se_s x \<le> int PGSIZE" using r unfolding file_ready_def me by blast
  have small: "se_s x < 2 ^ 31" "se_e x - se_s x < 2 ^ 31" using R(8,10) by (simp_all add: MAX_LENGTH_def MAX_BLOCKS_def BLOCK_SECTOR_SIZE_def PGSIZE_eq)
  define o' z where "o' = nat (se_s x)" and "z = nat (se_e x - se_s x)"
  have pos: "s32 (int (nat (se_s x mod 2 ^ 32))) = int o'" "s32 (int (nat ((se_e x - se_s x) mod 2 ^ 32))) = int z"
    using small R(7,9) by (simp_all add: s32_small o'_def z_def)
  define f1 where "f1 = (uf_file f)\<lparr>f_pos := int o'\<rparr>"
  define u1 where "u1 = set_info me (se_fd x) (\<lambda>i. i\<lparr>uf_file := f1\<rparr>) u"
  have seek: "seek_sys me (se_fd x) (nat (se_s x mod 2 ^ 32)) u = Some u1"
    using R(1) unfolding seek_sys_def pos(1) by (simp add: file_seek_def u1_def f1_def)
  have uu: "ufs u1 = ufs u" by (simp add: u1_def set_info_def)
  have fi: "find_open_file (se_fd x) (procs u1 me) = Some (f\<lparr>uf_file := f1\<rparr>)" using R(1) by (simp add: u1_def find_set_info)
  have o: "o' < MAX_LENGTH" using R(7,8) unfolding o'_def by linarith
  define bs where "bs = take z (drop o' (file_bytes (contents_of (ufs u)) sec))"
  obtain s' where s': "inode_read_at d me (f_inode (uf_file f)) (int z) (int o') (ufs u) = Some (bs, s')" "io (ufs u) (contents_of (ufs u)) s'" "fs_ok n s'"
    using inode_read_unlocked [OF R(5,4,6) o, of "inode_write_at d me" me z] unfolding bs_def by (auto simp: inode_read_at_def)
  note I = io_fields [OF s'(2)]
  define f2 where "f2 = f1\<lparr>f_pos := s32 (int o' + int (length bs))\<rparr>"
  define u2 where "u2 = set_info me (se_fd x) (\<lambda>i. i\<lparr>uf_file := f2\<rparr>) (u1\<lparr>ufs := s'\<rparr>)"
  have read: "read_sys d me (se_fd x) (nat ((se_e x - se_s x) mod 2 ^ 32)) u1 = Some (bs, int (length bs), u2)"
    using R(2,3) fi s'(1) unfolding read_sys_def pos(2) by (simp add: file_read_def uu u2_def f1_def f2_def)
  obtain ino where ino: "inodes (ufs u) (f_inode (uf_file f)) = Some ino" "i_sector ino = sec" using R(4) by (auto simp: unlocked_inode_def)
  have "(if i < length bs then bs ! i else 0) = origin_of u x i" for i
    using R(1) ino fd by (simp add: origin_of_def me Let_def bs_def o'_def z_def)
  moreover have "same_files u u2" unfolding same_files_def
  proof (intro conjI allI impI)
    show "fs_ok n' (ufs u2)" if n': "fs_ok n' (ufs u)" for n'
    proof -
      obtain t where "inode_read_at d me (f_inode (uf_file f)) (int z) (int o') (ufs u) = Some (bs, t)" "fs_ok n' t"
        using inode_read_unlocked [OF n' R(4,6) o, of "inode_write_at d me" me z] unfolding bs_def by (auto simp: inode_read_at_def)
      then show ?thesis using s'(1) by (simp add: u2_def set_info_def)
    qed
    show "map_option (\<lambda>f. (f_inode (uf_file f), uf_dir f)) (find_open_file fd' (procs u2 t)) = map_option (\<lambda>f. (f_inode (uf_file f), uf_dir f)) (find_open_file fd' (procs u t))" for fd' t
    proof (cases "t = me \<and> fd' = se_fd x")
      case True
      have "find_open_file (se_fd x) (procs (u1\<lparr>ufs := s'\<rparr>) me) = Some (f\<lparr>uf_file := f1\<rparr>)" using fi by simp
      then have "find_open_file (se_fd x) (procs u2 me) = Some (f\<lparr>uf_file := f2\<rparr>)" unfolding u2_def by (simp add: find_set_info)
      then show ?thesis using True R(1) by (simp add: f1_def f2_def)
    next
      case False
      then have "find_open_file fd' (procs u2 t) = find_open_file fd' (procs (u1\<lparr>ufs := s'\<rparr>) t)" unfolding u2_def by (subst find_set_info) auto
      moreover have "find_open_file fd' (procs u1 t) = find_open_file fd' (procs u t)" using False unfolding u1_def by (subst find_set_info) auto
      ultimately show ?thesis by simp
    qed
  qed (use I in \<open>simp_all add: u2_def set_info_def\<close>)
  moreover have "length bs \<le> nat (se_e x - se_s x)" by (simp add: bs_def z_def)
  ultimately show ?thesis using seek read by blast
qed

section \<open>An example\<close>

text \<open>A file of 603 bytes, the last three 1, 2 and 3, that a program runs from: writing to it is denied.\<close>

definition mapping_users :: "fsys \<Rightarrow> users" where
  "mapping_users s = \<lparr>ufs = s, procs = (\<lambda>_. \<lparr>open_files = [\<lparr>uf_fd = 2, uf_file = \<lparr>f_inode = 2, f_pos = 0, f_deny_write = True\<rparr>, uf_dir = None\<rparr>], active_dir = None\<rparr>),
     FD_C = 3, keys = [], console = []\<rparr>"

lemma program_file_example:
  "\<exists>u. mallocs (ufs u) = [] \<and> (\<exists>i. inodes (ufs u) 2 = Some i \<and> i_deny_write_cnt i = 1)
    \<and> (\<forall>x. se_fd x = 2 \<longrightarrow> se_s x = 0 \<longrightarrow> se_e x = 4096 \<longrightarrow> file_ready u x \<and> origin_of u x 601 = 2)"
proof -
  let ?R = ROOT_DIR_SECTOR
  obtain s0 own mm where s0: "map_inv 1 own 8 mm s0" "volume own {?R} s0" "free_inode s0 2 ?R" "file_ok (cap_of s0) (contents_of s0) ?R 0 1"
      and ok: "fs_ok ((Suc 2 - 1) * (3 * Suc (nblocks 0 8) + 4) + Suc (nblocks 600 3 + 0)) s0" and free: "3 * (Suc 2 - 1) \<le> free_of s0" using booted_grow by blast
  obtain s where s: "files {?R} s = (files {?R} s0)(?R \<mapsto> splice 600 [1, 2, 3] (the (files {?R} s0 ?R)))" "fs_ok 0 s" "moved s0 s"
      "file_ok (cap_of s) (contents_of s) ?R (max 0 (600 + 3)) (max 1 (Suc 2))"
    using write_volume [OF s0(1,2) _ s0(3,4) grow_numbers ok free, of "[1, 2, 3]" 0 7] by auto
  have "file_bytes (contents_of s0) ?R = []" using length_file_bytes [OF s0(4)] by simp
  then have fb: "file_bytes (contents_of s) ?R = splice 600 [1, 2, 3] []" using s(1) by (simp add: files_def fun_eq_iff split: if_splits)
  obtain i where i: "inodes s 2 = Some i" "i_sector i = ?R" "i_rwlock i = rw_lock_init" using s0(3) moved_fields(2) [OF s(3)] by (auto simp: free_inode_def)
  define s1 where "s1 = s\<lparr>inodes := (inodes s)(2 \<mapsto> i\<lparr>i_deny_write_cnt := 1\<rparr>), mallocs := []\<rparr>"
  let ?u = "mapping_users s1"
  have v: "contents_of s1 = contents_of s" "cap_of s1 = cap_of s" "fs_ok 0 s1" using s(2) by (simp_all add: s1_def fs_ok_def)
  have op: "find_open_file 2 (procs ?u t) = Some \<lparr>uf_fd = 2, uf_file = \<lparr>f_inode = 2, f_pos = 0, f_deny_write = True\<rparr>, uf_dir = None\<rparr>" for t
    by (simp add: mapping_users_def find_open_file_def)
  have un: "unlocked_inode s1 2 ?R" using i by (simp add: unlocked_inode_def s1_def)
  have ready: "file_ready ?u x" if x: "se_fd x = 2" "se_s x = 0" "se_e x = 4096" for x
    unfolding file_ready_def x
    by (intro exI conjI, rule op) (use un v s(4) in \<open>simp_all add: mapping_users_def MAX_LENGTH_def MAX_BLOCKS_def BLOCK_SECTOR_SIZE_def PGSIZE_eq\<close>)
  have at: "splice 600 [1, 2, 3] [] ! 601 = (2 :: byte)" "length (splice 600 [1, 2, 3] ([] :: byte list)) = 603" by (simp_all add: splice_def nth_append)
  have "origin_of ?u x 601 = 2" if x: "se_fd x = 2" "se_s x = 0" "se_e x = 4096" for x
    using op [of "se_thread x"] i at by (simp add: origin_of_def x mapping_users_def s1_def v(1) [unfolded s1_def] fb)
  then show ?thesis using ready by (intro exI [of _ ?u]) (simp add: mapping_users_def s1_def)
qed

end
