(* ===== verification/VmSpec.thy ===== *)
theory VmSpec
  imports SwapSpec MappedFile
begin

unbundle bit_operations_syntax

text \<open>
  What virtual memory promises: each entry of the supplementary tables has a page of bytes, \<open>content\<close>, wherever the page is kept: in
  a frame, on the swap device, in its file, or nowhere, when it is the zeros it was made of. The entries of a program's segments
  have a file, those of its stack have none. \<open>vm_ok\<close> is the invariant. Evicting a page and bringing one in keep \<open>content\<close> of every
  entry.
\<close>

section \<open>The invariant\<close>

definition upool :: "vm \<Rightarrow> pool" where
  "upool s = user_pool (phys (mm s))"

definition pte_of :: "vm \<Rightarrow> supp_pagedir_entry \<Rightarrow> 32 word" where
  "pte_of s x = pte_at (mm s) (pdirs s (se_thread x)) (pg_no (upage x))"

definition resident :: "vm \<Rightarrow> supp_pagedir_entry \<Rightarrow> bool" where
  "resident s x \<longleftrightarrow> bit (pte_of s x) 0"

definition page_of :: "vm \<Rightarrow> supp_pagedir_entry \<Rightarrow> nat" where
  "page_of s x = PHYS_BASE + unat (pte_of s x AND PTE_ADDR)"

text \<open>The number of the kernel's entry for an address.\<close>

definition kidx :: "nat \<Rightarrow> nat" where
  "kidx a = (a - PHYS_BASE) div PGSIZE"

definition swap_map :: "vm \<Rightarrow> bitmap" where
  "swap_map s = the (s_map (swp s))"

abbreviation origin :: "vm \<Rightarrow> supp_pagedir_entry \<Rightarrow> nat \<Rightarrow> byte" where
  "origin s \<equiv> origin_of (calls s)"

text \<open>Whether somebody wrote to a page in memory, under its user address or the kernel's.\<close>

definition page_dirty :: "vm \<Rightarrow> supp_pagedir_entry \<Rightarrow> bool" where
  "page_dirty s x \<longleftrightarrow> bit (pte_of s x) 6 \<or> bit (kentry (mm s) (kidx (page_of s x))) 6"

definition content :: "vm \<Rightarrow> supp_pagedir_entry \<Rightarrow> nat \<Rightarrow> byte" where
  "content s x i = (if resident s x then ram (phys (mm s)) (page_of s x + i)
     else if sector_t x \<noteq> BLOCK_SECTOR_T_ERROR then slot_byte (swp s) (sector_t x) i else origin s x i)"

definition entry_ok :: "nat set \<Rightarrow> vm \<Rightarrow> supp_pagedir_entry \<Rightarrow> bool" where
  "entry_ok D s x \<longleftrightarrow> (se_fd x \<noteq> - 1 \<longrightarrow> 0 \<le> se_s x \<and> se_s x \<le> se_e x \<and> se_e x - se_s x \<le> int PGSIZE) \<and> PAL_ZERO \<in> se_flags x \<and> PAL_USER \<in> se_flags x \<and> PAL_THROUGH_FRAME \<notin> se_flags x \<and> PAL_ASSERT \<notin> se_flags x
     \<and> is_user_vaddr (upage x) \<and> pg_ofs (upage x) = 0 \<and> upage x \<noteq> 0 \<and> pdirs s (se_thread x) \<in> D"

text \<open>Frame \<open>f\<close> holds the page of entry \<open>e\<close>.\<close>

definition holds :: "vm \<Rightarrow> nat \<Rightarrow> nat \<Rightarrow> bool" where
  "holds s f e \<longleftrightarrow> f \<in> set (ordered_list s) \<and> fr_user (frames s f) = Some e"

definition frames_ok :: "vm \<Rightarrow> bool" where
  "frames_ok s \<longleftrightarrow> num_of_frames s = bit_cnt (used_map (upool s)) \<and> distinct (ordered_list s) \<and> set (ordered_list s) = bm_used (used_map (upool s))
     \<and> (\<forall>f\<in>set (ordered_list s). \<exists>e x. holds s f e \<and> supp s e = Some x \<and> resident s x \<and> page_of s x = page_at (upool s) f)
     \<and> (\<forall>e x. supp s e = Some x \<longrightarrow> resident s x \<longrightarrow> (\<exists>f. holds s f e))"

definition swapped_ok :: "vm \<Rightarrow> bool" where
  "swapped_ok s \<longleftrightarrow> swap_ok (swp s) (swap_map s)
     \<and> (\<forall>e x. supp s e = Some x \<longrightarrow> sector_t x \<noteq> BLOCK_SECTOR_T_ERROR \<longrightarrow> \<not> resident s x \<and> (\<exists>k\<in>bm_used (swap_map s). sector_t x = 8 * k))
     \<and> (\<forall>e x e' x'. supp s e = Some x \<longrightarrow> supp s e' = Some x' \<longrightarrow> sector_t x = sector_t x' \<longrightarrow> sector_t x \<noteq> BLOCK_SECTOR_T_ERROR \<longrightarrow> e = e')"

text \<open>A page neither the process nor the kernel wrote to still is what it was made of. A page of a file that is to be written back --
  one the process mapped itself -- was not written to: evicting one that was panics, as \<open>mmap_discard\<close> asks for the lock of the
  entry a second time.\<close>

definition clean_ok :: "vm \<Rightarrow> bool" where
  "clean_ok s \<longleftrightarrow> (\<forall>e x. supp s e = Some x \<longrightarrow>
     (resident s x \<longrightarrow> \<not> page_dirty s x \<longrightarrow> (\<forall>i<PGSIZE. ram (phys (mm s)) (page_of s x + i) = origin s x i))
     \<and> (se_fd x \<noteq> - 1 \<longrightarrow> PAL_DONT_SYNC_ON_DISK \<notin> se_flags x \<longrightarrow> sector_t x = BLOCK_SECTOR_T_ERROR \<and> \<not> (resident s x \<and> page_dirty s x)))"

definition vm_ok :: "nat set \<Rightarrow> vm \<Rightarrow> bool" where
  "vm_ok D s \<longleftrightarrow> kvm D (mm s) \<and> (\<forall>e x. supp s e = Some x \<longrightarrow> entry_ok D s x)
     \<and> (\<forall>e x e' x'. supp s e = Some x \<longrightarrow> supp s e' = Some x' \<longrightarrow> pdirs s (se_thread x) = pdirs s (se_thread x') \<longrightarrow> upage x = upage x' \<longrightarrow> e = e')
     \<and> frames_ok s \<and> swapped_ok s \<and> clean_ok s"

lemma vm_okD:
  assumes "vm_ok D s"
  shows "kvm D (mm s)" "supp s e = Some x \<Longrightarrow> entry_ok D s x"
    "supp s e = Some x \<Longrightarrow> supp s e' = Some x' \<Longrightarrow> pdirs s (se_thread x) = pdirs s (se_thread x') \<Longrightarrow> upage x = upage x' \<Longrightarrow> e = e'"
    "frames_ok s" "swapped_ok s" "clean_ok s"
  using assms unfolding vm_ok_def by blast+

lemma frames_okD:
  assumes "frames_ok s"
  shows "num_of_frames s = bit_cnt (used_map (upool s))" "distinct (ordered_list s)" "set (ordered_list s) = bm_used (used_map (upool s))"
    "f \<in> set (ordered_list s) \<Longrightarrow> \<exists>e x. holds s f e \<and> supp s e = Some x \<and> resident s x \<and> page_of s x = page_at (upool s) f"
    "supp s e = Some x \<Longrightarrow> resident s x \<Longrightarrow> \<exists>f. holds s f e"
  using assms unfolding frames_ok_def by blast+

lemma swapped_okD:
  assumes "swapped_ok s"
  shows "swap_ok (swp s) (swap_map s)" "supp s e = Some x \<Longrightarrow> sector_t x \<noteq> BLOCK_SECTOR_T_ERROR \<Longrightarrow> \<not> resident s x"
    "supp s e = Some x \<Longrightarrow> sector_t x \<noteq> BLOCK_SECTOR_T_ERROR \<Longrightarrow> \<exists>k\<in>bm_used (swap_map s). sector_t x = 8 * k"
    "supp s e = Some x \<Longrightarrow> supp s e' = Some x' \<Longrightarrow> sector_t x = sector_t x' \<Longrightarrow> sector_t x \<noteq> BLOCK_SECTOR_T_ERROR \<Longrightarrow> e = e'"
  using assms unfolding swapped_ok_def by blast+

lemma clean_okD:
  assumes "clean_ok s" "supp s e = Some x"
  shows "resident s x \<Longrightarrow> \<not> page_dirty s x \<Longrightarrow> i < PGSIZE \<Longrightarrow> ram (phys (mm s)) (page_of s x + i) = origin s x i"
    "se_fd x \<noteq> - 1 \<Longrightarrow> PAL_DONT_SYNC_ON_DISK \<notin> se_flags x \<Longrightarrow> sector_t x = BLOCK_SECTOR_T_ERROR \<and> \<not> (resident s x \<and> page_dirty s x)"
  using assms unfolding clean_ok_def by blast+

lemma entry_okD:
  assumes "entry_ok D s x"
  shows "se_fd x \<noteq> - 1 \<Longrightarrow> 0 \<le> se_s x \<and> se_s x \<le> se_e x \<and> se_e x - se_s x \<le> int PGSIZE" "PAL_ZERO \<in> se_flags x" "PAL_USER \<in> se_flags x" "PAL_THROUGH_FRAME \<notin> se_flags x" "PAL_ASSERT \<notin> se_flags x"
    "is_user_vaddr (upage x)" "pg_ofs (upage x) = 0" "upage x \<noteq> 0" "pdirs s (se_thread x) \<in> D" "pg_no (upage x) < USER_PAGES"
  using assms by (simp_all add: entry_ok_def user_pg_no)

text \<open>What a frame holds.\<close>

lemma holds_facts:
  assumes ok: "vm_ok D s" and h: "holds s f e"
  obtains x where "supp s e = Some x" "resident s x" "page_of s x = page_at (upool s) f" "f < bit_cnt (used_map (upool s))" "f \<in> bm_used (used_map (upool s))"
    "fr_user (frames s f) = Some e" "f \<in> set (ordered_list s)"
proof -
  note F = frames_okD [OF vm_okD(4) [OF ok]]
  have f: "f \<in> set (ordered_list s)" "fr_user (frames s f) = Some e" using h by (simp_all add: holds_def)
  then obtain x where x: "supp s e = Some x" "resident s x" "page_of s x = page_at (upool s) f" using F(4) [OF f(1)] by (auto simp: holds_def)
  have u: "f \<in> bm_used (used_map (upool s))" using f(1) F(3) by simp
  then show thesis using that x f by (auto simp: bm_used_def)
qed

lemma holds_inj: "vm_ok D s \<Longrightarrow> holds s f e \<Longrightarrow> holds s f' e \<Longrightarrow> f = f'"
  by (metis holds_facts option.inject page_at_inj)

lemma frame_address:
  assumes ok: "vm_ok D s" and f: "f < bit_cnt (used_map (upool s))"
  shows "PGSIZE dvd page_at (upool s) f" "page_word (page_at (upool s) f)" "span (page_at (upool s) f) PGSIZE \<subseteq> user_range (mm s)"
    "PHYS_BASE \<le> page_at (upool s) f" "page_at (upool s) f < PHYS_BASE + PGSIZE * init_ram_pages (mm s)" "kidx (page_at (upool s) f) < init_ram_pages (mm s)"
    "page_at (upool s) f \<noteq> 0"
proof -
  note K = kvmD [OF vm_okD(1) [OF ok]]
  have po: "pool_ok (upool s)" using K(4) by (simp add: palloc_ok_def upool_def)
  note F = page_at_facts [OF po f]
  show r: "span (page_at (upool s) f) PGSIZE \<subseteq> user_range (mm s)" using user_page_range [of f "mm s"] f by (simp add: upool_def)
  show "PGSIZE dvd page_at (upool s) f" "PHYS_BASE \<le> page_at (upool s) f" "page_at (upool s) f \<noteq> 0" using F by simp_all
  then show "page_word (page_at (upool s) f)" using F(6) by (simp add: page_word_def PGSIZE_eq)
  have "page_at (upool s) f \<in> user_range (mm s)" using r by (auto simp: span_def PGSIZE_eq)
  then show lt: "page_at (upool s) f < PHYS_BASE + PGSIZE * init_ram_pages (mm s)" using user_range_mapped [OF vm_okD(1) [OF ok]] by blast
  then show "kidx (page_at (upool s) f) < init_ram_pages (mm s)" using F(7) by (simp add: kidx_def less_mult_imp_div_less mult.commute)
qed

lemma kidx_page_at: "pool_ok p \<Longrightarrow> kidx (page_at p f) = kidx (page_at p g) \<longleftrightarrow> f = g"
proof -
  assume "pool_ok p"
  moreover from this have "PGSIZE dvd pool_base p - PHYS_BASE" by (intro dvd_diff_nat) (simp_all add: pool_ok_def PHYS_BASE_def PGSIZE_eq)
  ultimately obtain q where "pool_base p = PHYS_BASE + PGSIZE * q" by (metis dvdE le_add_diff_inverse pool_ok_def)
  then show ?thesis by (simp add: kidx_def page_at_def PGSIZE_eq)
qed

section \<open>Changes that do not matter\<close>

text \<open>\<open>m'\<close> differs from \<open>m\<close> in what the invariant does not mention: the active directory, accessed bits, permissions.\<close>

definition same_entry :: "32 word \<Rightarrow> 32 word \<Rightarrow> bool" where
  "same_entry e e' \<longleftrightarrow> bit e' 0 = bit e 0 \<and> bit e' 6 = bit e 6 \<and> e' AND PTE_ADDR = e AND PTE_ADDR"

definition same_view :: "nat set \<Rightarrow> mmu \<Rightarrow> mmu \<Rightarrow> bool" where
  "same_view D m m' \<longleftrightarrow> (\<exists>A U K. mm_step D m A (user_pool (phys m)) U K (ram (phys m)) m'
     \<and> (\<forall>p\<in>D. \<forall>n<USER_PAGES. same_entry (pte_at m p n) (U p n)) \<and> (\<forall>j<init_ram_pages m. bit (K j) 6 = bit (kentry m j) 6))"

lemma same_entry_refl [simp]: "same_entry e e"
  by (simp add: same_entry_def)

lemma same_entry_trans: "same_entry a b \<Longrightarrow> same_entry b c \<Longrightarrow> same_entry a c"
  by (simp add: same_entry_def)

lemma same_viewD:
  assumes "same_view D m m'"
  shows "kvm D m'" "user_pool (phys m') = user_pool (phys m)" "a \<in> user_range m \<Longrightarrow> ram (phys m') a = ram (phys m) a"
    "init_page_dir m' = init_page_dir m" "init_ram_pages m' = init_ram_pages m" "user_range m' = user_range m"
    "p \<in> D \<Longrightarrow> n < USER_PAGES \<Longrightarrow> same_entry (pte_at m p n) (pte_at m' p n)" "j < init_ram_pages m \<Longrightarrow> bit (kentry m' j) 6 = bit (kentry m j) 6"
    "kernel_pool (phys m') = kernel_pool (phys m)" "p \<in> D \<Longrightarrow> tables m' p = tables m p"
proof -
  obtain A U K where S: "mm_step D m A (user_pool (phys m)) U K (ram (phys m)) m'" "\<forall>p\<in>D. \<forall>n<USER_PAGES. same_entry (pte_at m p n) (U p n)"
      "\<forall>j<init_ram_pages m. bit (K j) 6 = bit (kentry m j) 6" using assms unfolding same_view_def by blast
  note M = mm_stepD [OF S(1)]
  show "kvm D m'" "user_pool (phys m') = user_pool (phys m)" "init_page_dir m' = init_page_dir m" "init_ram_pages m' = init_ram_pages m" "user_range m' = user_range m"
    "kernel_pool (phys m') = kernel_pool (phys m)" by (rule M)+
  show "a \<in> user_range m \<Longrightarrow> ram (phys m') a = ram (phys m) a" by (rule M(3))
  show "p \<in> D \<Longrightarrow> tables m' p = tables m p" by (rule M(11)) simp
  show "p \<in> D \<Longrightarrow> n < USER_PAGES \<Longrightarrow> same_entry (pte_at m p n) (pte_at m' p n)" using M(8) [of p n] S(2) by simp
  show "j < init_ram_pages m \<Longrightarrow> bit (kentry m' j) 6 = bit (kentry m j) 6" using M(9) [of j] S(3) by simp
qed

lemma same_viewI:
  assumes s: "mm_step D m A (user_pool (phys m)) U K M m'" and m: "\<And>a. a \<in> user_range m \<Longrightarrow> M a = ram (phys m) a"
    and u: "\<And>p n. p \<in> D \<Longrightarrow> n < USER_PAGES \<Longrightarrow> same_entry (pte_at m p n) (U p n)" and j: "\<And>j. j < init_ram_pages m \<Longrightarrow> bit (K j) 6 = bit (kentry m j) 6"
  shows "same_view D m m'"
  unfolding same_view_def
proof (intro exI conjI ballI allI impI)
  show "mm_step D m A (user_pool (phys m)) U K (ram (phys m)) m'" by (rule mm_step_cong [OF s]) (simp_all add: m)
qed (use u j in auto)

lemma same_view_refl: "kvm D m \<Longrightarrow> same_view D m m"
  by (rule same_viewI [OF mm_step_refl]) simp_all

lemma same_view_trans:
  assumes a: "same_view D m1 m2" and b: "same_view D m2 m3"
  shows "same_view D m1 m3"
proof -
  note A = same_viewD [OF a] and B = same_viewD [OF b]
  obtain A' U K where S: "mm_step D m1 A' (user_pool (phys m1)) U K (ram (phys m1)) m2" using a unfolding same_view_def by blast
  obtain A2 U2 K2 where S2: "mm_step D m2 A2 (user_pool (phys m2)) U2 K2 (ram (phys m2)) m3" "\<forall>p\<in>D. \<forall>n<USER_PAGES. same_entry (pte_at m2 p n) (U2 p n)"
      "\<forall>j<init_ram_pages m2. bit (K2 j) 6 = bit (kentry m2 j) 6" using b unfolding same_view_def by blast
  show ?thesis
  proof (rule same_viewI [OF mm_step_trans [OF S S2(1) [unfolded A(2)]]])
    show "same_entry (pte_at m1 p n) (U2 p n)" if "p \<in> D" "n < USER_PAGES" for p n using same_entry_trans [OF A(7) [OF that]] S2(2) that by blast
    show "bit (K2 j) 6 = bit (kentry m1 j) 6" if "j < init_ram_pages m1" for j using A(8) [OF that] S2(3) that A(5) by simp
  qed (rule A(3))
qed

text \<open>Two states with the same entries, frames, files and swap slots, as far as the invariant goes.\<close>

definition same_vm :: "nat set \<Rightarrow> vm \<Rightarrow> vm \<Rightarrow> bool" where
  "same_vm D s s' \<longleftrightarrow> same_view D (mm s) (mm s') \<and> swp s' = swp s \<and> calls s' = calls s \<and> frames s' = frames s \<and> num_of_frames s' = num_of_frames s
     \<and> distinct (ordered_list s') \<and> set (ordered_list s') = set (ordered_list s) \<and> (\<exists>l. supp s' = (\<lambda>e. map_option (\<lambda>x. x\<lparr>se_lock := l e\<rparr>) (supp s e)))
     \<and> pdirs s' = pdirs s \<and> supp_pagedir s' = supp_pagedir s"

lemma relocked [simp]: "pte_of s (x\<lparr>se_lock := l\<rparr>) = pte_of s x" "resident s (x\<lparr>se_lock := l\<rparr>) = resident s x" "page_of s (x\<lparr>se_lock := l\<rparr>) = page_of s x"
    "content s (x\<lparr>se_lock := l\<rparr>) = content s x" "page_dirty s (x\<lparr>se_lock := l\<rparr>) = page_dirty s x" "entry_ok D s (x\<lparr>se_lock := l\<rparr>) = entry_ok D s x"
  by (simp_all add: pte_of_def resident_def page_of_def content_def page_dirty_def entry_ok_def fun_eq_iff)

lemma same_vm_entry:
  assumes ok: "vm_ok D s" and v: "same_vm D s s'" and x: "supp s e = Some x"
  shows "resident s' x = resident s x" "page_of s' x = page_of s x" "bit (pte_of s' x) 6 = bit (pte_of s x) 6" "i < PGSIZE \<Longrightarrow> content s' x i = content s x i" "entry_ok D s' x = entry_ok D s x"
proof -
  note E = entry_okD [OF vm_okD(2) [OF ok x]]
  have sv: "same_view D (mm s) (mm s')" "pdirs s' = pdirs s" "swp s' = swp s" "calls s' = calls s" using v by (simp_all add: same_vm_def)
  have se: "same_entry (pte_of s x) (pte_of s' x)" using same_viewD(7) [OF sv(1) E(9,10)] sv(2) by (simp add: pte_of_def)
  then show r: "resident s' x = resident s x" and p: "page_of s' x = page_of s x" and "bit (pte_of s' x) 6 = bit (pte_of s x) 6"
    by (simp_all add: same_entry_def resident_def page_of_def)
  show "entry_ok D s' x = entry_ok D s x" by (simp add: entry_ok_def sv(2))
  assume i: "i < PGSIZE"
  show "content s' x i = content s x i"
  proof (cases "resident s x")
    case True
    obtain f where "holds s f e" using frames_okD(5) [OF vm_okD(4) [OF ok] x True] by blast
    then have "page_of s x = page_at (upool s) f" "f < bit_cnt (used_map (upool s))" using holds_facts [OF ok] x by (metis option.inject)+
    then have "page_of s x + i \<in> user_range (mm s)" using frame_address(3) [OF ok, of f] i by (auto simp: span_def)
    then show ?thesis using same_viewD(3) [OF sv(1)] True r p by (simp add: content_def)
  qed (simp add: content_def r sv(3,4))
qed

lemma same_vm_ok:
  assumes ok: "vm_ok D s" and v: "same_vm D s s'"
  shows "vm_ok D s'"
proof -
  note F = frames_okD [OF vm_okD(4) [OF ok]] and W = swapped_okD [OF vm_okD(5) [OF ok]]
  have V: "same_view D (mm s) (mm s')" "swp s' = swp s" "frames s' = frames s" "num_of_frames s' = num_of_frames s" "distinct (ordered_list s')" "set (ordered_list s') = set (ordered_list s)"
      "pdirs s' = pdirs s" "calls s' = calls s" using v by (simp_all add: same_vm_def)
  obtain l where l: "supp s' = (\<lambda>e. map_option (\<lambda>x. x\<lparr>se_lock := l e\<rparr>) (supp s e))" using v by (auto simp: same_vm_def)
  note M = same_viewD [OF V(1)] and E = same_vm_entry [OF ok v]
  have up: "upool s' = upool s" using M(2) by (simp add: upool_def)
  have sm: "swap_map s' = swap_map s" by (simp add: swap_map_def V(2))
  have h: "holds s' f e = holds s f e" for f e by (simp add: holds_def V(3,6))
  have "\<exists>e x. holds s' f e \<and> supp s' e = Some x \<and> resident s' x \<and> page_of s' x = page_at (upool s') f" if f: "f \<in> set (ordered_list s')" for f
  proof -
    obtain e x where x: "holds s f e" "supp s e = Some x" "resident s x" "page_of s x = page_at (upool s) f" using F(4) [of f] V(6) f by auto
    then show ?thesis using E [OF x(2)] l h up by (intro exI [of _ e] exI [of _ "x\<lparr>se_lock := l e\<rparr>"]) simp
  qed
  moreover have "\<exists>f. holds s' f e" if x: "supp s' e = Some x" "resident s' x" for e x
  proof -
    obtain y where y: "supp s e = Some y" "x = y\<lparr>se_lock := l e\<rparr>" using x(1) l by auto
    then show ?thesis using F(5) [OF y(1)] E(1) [OF y(1)] x(2) h by simp
  qed
  ultimately have "frames_ok s'" using F(1-3) V(4,5,6) unfolding frames_ok_def up by simp
  moreover have "swapped_ok s'" unfolding swapped_ok_def sm V(2)
    using W E(1) l by (auto simp: map_option_case split: option.splits)
  moreover have "clean_ok s'" unfolding clean_ok_def
  proof (intro allI impI)
    fix e x assume x: "supp s' e = Some x"
    obtain y where y: "supp s e = Some y" "x = y\<lparr>se_lock := l e\<rparr>" using x l by auto
    note C = clean_okD [OF vm_okD(6) [OF ok] y(1)]
    have og: "origin s' = origin s" by (simp add: V(8))
    have here: "page_dirty s' x = page_dirty s y" "i < PGSIZE \<Longrightarrow> ram (phys (mm s')) (page_of s' x + i) = ram (phys (mm s)) (page_of s y + i)" if r: "resident s y" for i
    proof -
      obtain f where "holds s f e" using F(5) [OF y(1) r] by blast
      then have f: "page_of s y = page_at (upool s) f" "f < bit_cnt (used_map (upool s))" using holds_facts [OF ok] y(1) by (metis option.inject)+
      have "kidx (page_of s y) < init_ram_pages (mm s)" using frame_address(6) [OF ok f(2)] f(1) by simp
      then show "page_dirty s' x = page_dirty s y" using E [OF y(1)] M(8) y(2) by (simp add: page_dirty_def)
      assume i: "i < PGSIZE"
      have "page_of s y + i \<in> user_range (mm s)" using frame_address(3) [OF ok f(2)] i f(1) by (auto simp: span_def)
      then show "ram (phys (mm s')) (page_of s' x + i) = ram (phys (mm s)) (page_of s y + i)" using M(3) E(2) [OF y(1)] y(2) by simp
    qed
    show "(resident s' x \<longrightarrow> \<not> page_dirty s' x \<longrightarrow> (\<forall>i<PGSIZE. ram (phys (mm s')) (page_of s' x + i) = origin s' x i))
       \<and> (se_fd x \<noteq> - 1 \<longrightarrow> PAL_DONT_SYNC_ON_DISK \<notin> se_flags x \<longrightarrow> sector_t x = BLOCK_SECTOR_T_ERROR \<and> \<not> (resident s' x \<and> page_dirty s' x))"
      using C here E(1) [OF y(1)] y(2) og by auto
  qed
  moreover have "entry_ok D s' x" if x: "supp s' e = Some x" for e x
  proof -
    obtain y where y: "supp s e = Some y" "x = y\<lparr>se_lock := l e\<rparr>" using x l by auto
    then show ?thesis using vm_okD(2) [OF ok y(1)] E(5) [OF y(1)] by simp
  qed
  moreover have "e = e'" if x: "supp s' e = Some x" "supp s' e' = Some x'" "pdirs s' (se_thread x) = pdirs s' (se_thread x')" "upage x = upage x'" for e x e' x'
  proof -
    obtain y where y: "supp s e = Some y" "x = y\<lparr>se_lock := l e\<rparr>" using x(1) l by auto
    obtain y' where y': "supp s e' = Some y'" "x' = y'\<lparr>se_lock := l e'\<rparr>" using x(2) l by auto
    then show ?thesis using vm_okD(3) [OF ok y(1) y'(1)] x(3,4) V(7) y(2) y'(2) by simp
  qed
  ultimately show ?thesis using M(1) unfolding vm_ok_def by blast
qed

lemma same_vm_refl: "vm_ok D s \<Longrightarrow> same_vm D s s"
proof -
  assume ok: "vm_ok D s"
  have "supp s = (\<lambda>e. map_option (\<lambda>x. x\<lparr>se_lock := se_lock (the (supp s e))\<rparr>) (supp s e))" by (auto simp: fun_eq_iff map_option_case split: option.splits)
  then show ?thesis unfolding same_vm_def
    using same_view_refl [OF vm_okD(1) [OF ok]] frames_okD(2) [OF vm_okD(4) [OF ok]]
    by (intro conjI exI [of _ "\<lambda>e. se_lock (the (supp s e))"]) simp_all
qed

lemma same_vm_trans:
  assumes "same_vm D s1 s2" "same_vm D s2 s3"
  shows "same_vm D s1 s3"
proof -
  obtain l where l: "supp s2 = (\<lambda>e. map_option (\<lambda>x. x\<lparr>se_lock := l e\<rparr>) (supp s1 e))" using assms(1) by (auto simp: same_vm_def)
  obtain l' where l': "supp s3 = (\<lambda>e. map_option (\<lambda>x. x\<lparr>se_lock := l' e\<rparr>) (supp s2 e))" using assms(2) by (auto simp: same_vm_def)
  have "supp s3 = (\<lambda>e. map_option (\<lambda>x. x\<lparr>se_lock := l' e\<rparr>) (supp s1 e))" unfolding l' l by (simp add: fun_eq_iff option.map_comp o_def)
  then show ?thesis using assms same_view_trans [of D "mm s1" "mm s2" "mm s3"] unfolding same_vm_def by auto
qed

section \<open>The search for a victim\<close>

definition accessed :: "vm \<Rightarrow> supp_pagedir_entry \<Rightarrow> bool" where
  "accessed s x \<longleftrightarrow> bit (pte_of s x) 5 \<or> bit (kentry (mm s) (kidx (page_of s x))) 5"

lemma on_mm_eq: "f (mm s) = Some m \<Longrightarrow> on_mm f s = Some (s\<lparr>mm := m\<rparr>)"
  by (simp add: on_mm_def)

lemma page_facts:
  assumes ok: "vm_ok D s" and h: "holds s f e" and x: "supp s e = Some x"
  shows "page_of s x = page_at (upool s) f" "pte_of s x \<noteq> 0" "resident s x" "PHYS_BASE \<le> page_of s x" "page_of s x < PHYS_BASE + PGSIZE * init_ram_pages (mm s)"
    "kidx (page_of s x) < init_ram_pages (mm s)" "pagedir_get_page (pdirs s (se_thread x)) (upage x) (mm s) = Some (page_of s x)" "page_of s x \<noteq> 0"
    "span (page_of s x) PGSIZE \<subseteq> user_range (mm s)" "PGSIZE dvd page_of s x"
proof -
  have p: "page_of s x = page_at (upool s) f" "resident s x" and f: "f < bit_cnt (used_map (upool s))" using holds_facts [OF ok h] x by (metis option.inject)+
  then show "page_of s x = page_at (upool s) f" "resident s x" by simp_all
  show "pte_of s x \<noteq> 0" using p(2) by (auto simp: resident_def)
  show "PHYS_BASE \<le> page_of s x" "page_of s x < PHYS_BASE + PGSIZE * init_ram_pages (mm s)" "kidx (page_of s x) < init_ram_pages (mm s)" "page_of s x \<noteq> 0"
    "span (page_of s x) PGSIZE \<subseteq> user_range (mm s)" "PGSIZE dvd page_of s x" using frame_address [OF ok f] p(1) by simp_all
  note E = entry_okD [OF vm_okD(2) [OF ok x]]
  show "pagedir_get_page (pdirs s (se_thread x)) (upage x) (mm s) = Some (page_of s x)"
    using user_reads(1) [OF vm_okD(1) [OF ok] E(9,6)] p(2) E(7) by (simp add: resident_def pte_of_def page_of_def)
qed

lemma was_accessed_ok:
  assumes ok: "vm_ok D s" and h: "holds s f e" and x: "supp s e = Some x"
  shows "was_accessed x s = Some (accessed s x)"
proof -
  note E = entry_okD [OF vm_okD(2) [OF ok x]] and P = page_facts [OF ok h x] and k = vm_okD(1) [OF ok]
  have pd: "pdirs s (se_thread x) \<in> insert (init_page_dir (mm s)) D" using E(9) by simp
  show ?thesis using user_reads(3) [OF k E(9,6)] kernel_flag_ops(2) [OF k pd P(4,5)] P(7)
    by (simp add: was_accessed_def accessed_def Let_def pte_of_def kidx_def)
qed

lemma bit_clear [simp]:
  "bit (w AND NOT PTE_A) n = (bit w n \<and> n \<noteq> 5)" "bit (w AND NOT PTE_D) n = (bit w n \<and> n \<noteq> 6)" "bit (w AND NOT PTE_P) n = (bit w n \<and> n \<noteq> 0)"
  "bit (w AND NOT PTE_U) n = (bit w n \<and> n \<noteq> 2)" for w :: "32 word"
  by (auto simp: bit_simps dest: bit_imp_le_length)

lemma same_entry_clear [simp]: "same_entry w (w AND NOT PTE_A)" "same_entry w (w AND NOT PTE_U)"
  by (auto simp: same_entry_def intro: address_bits)

lemma clear_accessed_ok:
  assumes ok: "vm_ok D s" and h: "holds s f e" and x: "supp s e = Some x"
  shows "\<exists>m. clear_accessed x s = Some (s\<lparr>mm := m\<rparr>) \<and> same_view D (mm s) m \<and> \<not> accessed (s\<lparr>mm := m\<rparr>) x
    \<and> (\<forall>f' e' y. holds s f' e' \<longrightarrow> supp s e' = Some y \<longrightarrow> e' \<noteq> e \<longrightarrow> accessed (s\<lparr>mm := m\<rparr>) y = accessed s y)"
proof -
  note E = entry_okD [OF vm_okD(2) [OF ok x]] and P = page_facts [OF ok h x] and k = vm_okD(1) [OF ok]
  let ?pd = "pdirs s (se_thread x)" and ?n = "pg_no (upage x)" and ?j = "kidx (page_of s x)"
  obtain m1 where m1: "pagedir_set_accessed ?pd (upage x) False (mm s) = Some m1"
      "mm_step D (mm s) (active (mm s)) (user_pool (phys (mm s))) ((pte_at (mm s))(?pd := (pte_at (mm s) ?pd)(?n := pte_of s x AND NOT PTE_A))) (kentry (mm s)) (ram (phys (mm s))) m1"
    using user_flag_ops(3) [OF k E(9,6)] P(2) unfolding pte_of_def by blast
  note M = mm_stepD [OF m1(2)]
  have v1: "same_view D (mm s) m1" by (rule same_viewI [OF m1(2)]) (simp_all add: pte_of_def)
  let ?s1 = "s\<lparr>mm := m1\<rparr>"
  have sv1: "same_vm D s ?s1" using v1 same_vm_refl [OF ok] by (simp add: same_vm_def)
  have ok1: "vm_ok D ?s1" by (rule same_vm_ok [OF ok sv1])
  have h1: "holds ?s1 f' e' = holds s f' e'" for f' e' by (simp add: holds_def)
  have x1: "supp ?s1 e = Some x" using x by simp
  note P1 = page_facts [OF ok1 _ x1, unfolded h1, OF h]
  have pg: "page_of ?s1 x = page_of s x" by (rule same_vm_entry(2) [OF ok sv1 x])
  have pd: "?pd \<in> insert (init_page_dir m1) D" using E(9) by simp
  have k1: "kvm D m1" using M(1) .
  obtain m2 where m2: "pagedir_set_accessed ?pd (page_of s x) False m1 = Some m2"
      "mm_step D m1 (active m1) (user_pool (phys m1)) (pte_at m1) ((kentry m1)(?j := kentry m1 ?j AND NOT PTE_A)) (ram (phys m1)) m2"
    using kernel_flag_ops(4) [OF k1 pd P(4)] P(5) M(5) unfolding kidx_def by metis
  note M2 = mm_stepD [OF m2(2)]
  have v2: "same_view D m1 m2" by (rule same_viewI [OF m2(2)]) simp_all
  let ?s2 = "s\<lparr>mm := m2\<rparr>"
  have sv2: "same_vm D s ?s2" using same_view_trans [OF v1 v2] same_vm_refl [OF ok] by (simp add: same_vm_def)
  have run: "clear_accessed x s = Some ?s2" using m1(1) m2(1) P1(7) pg by (simp add: clear_accessed_def on_mm_def Let_def)
  have pte: "pte_at m2 p n = ((pte_at (mm s))(?pd := (pte_at (mm s) ?pd)(?n := pte_of s x AND NOT PTE_A))) p n" if "p \<in> D" "n < USER_PAGES" for p n
    using M2(8) [of p n] M(8) [of p n] that by simp
  have ke: "kentry m2 j = (if j = ?j then kentry (mm s) j AND NOT PTE_A else kentry (mm s) j)" if "j < init_ram_pages (mm s)" for j
    using M2(9) [of j] M(9) [of j] that M(5) by (cases "j = ?j") simp_all
  have "\<not> accessed ?s2 x" using pte [OF E(9,10)] ke [OF P(6)] same_vm_entry(2) [OF ok sv2 x] by (simp add: accessed_def pte_of_def)
  moreover have "accessed ?s2 y = accessed s y" if o: "holds s f' e'" "supp s e' = Some y" "e' \<noteq> e" for f' e' y
  proof -
    note Y = entry_okD [OF vm_okD(2) [OF ok o(2)]] and Q = page_facts [OF ok o(1,2)]
    have "\<not> (?pd = pdirs s (se_thread y) \<and> ?n = pg_no (upage y))"
    proof
      assume c: "?pd = pdirs s (se_thread y) \<and> ?n = pg_no (upage y)"
      have "PGSIZE dvd upage x" "PGSIZE dvd upage y" using E(7) Y(7) by (auto simp: pg_ofs_def)
      then have "upage x = upage y" using c by (metis dvd_div_mult_self pg_no_def)
      then show False using vm_okD(3) [OF ok x o(2)] c o(3) by simp
    qed
    then have "pte_at m2 (pdirs s (se_thread y)) (pg_no (upage y)) = pte_of s y"
      using pte [OF Y(9,10)] by (auto simp: pte_of_def)
    moreover have "kidx (page_of s y) \<noteq> ?j"
    proof -
      have "f' \<noteq> f" using o h by (auto simp: holds_def)
      then show ?thesis using kidx_page_at [of "upool s" f' f] kvmD(4) [OF k] Q(1) P(1) by (simp add: upool_def palloc_ok_def)
    qed
    ultimately show ?thesis using ke [OF Q(6)] same_vm_entry(2) [OF ok sv2 o(2)] by (simp add: accessed_def pte_of_def)
  qed
  ultimately show ?thesis using run same_view_trans [OF v1 v2] by blast
qed

text \<open>A frame whose page may be evicted.\<close>

definition eligible :: "vm \<Rightarrow> nat \<Rightarrow> bool" where
  "eligible s f \<longleftrightarrow> (\<exists>e x. holds s f e \<and> supp s e = Some x \<and> se_lock x = None) \<and> \<not> prohibit_cache (frames s f)"

definition accessed_frames :: "vm \<Rightarrow> nat set" where
  "accessed_frames s = {f. eligible s f \<and> (\<exists>e x. holds s f e \<and> supp s e = Some x \<and> accessed s x)}"

definition steps_to_eligible :: "vm \<Rightarrow> nat" where
  "steps_to_eligible s = length (takeWhile (\<lambda>f. \<not> eligible s f) (ordered_list s))"

lemma rotated_views [simp]:
  "pte_of (s\<lparr>ordered_list := l\<rparr>) = pte_of s" "accessed (s\<lparr>ordered_list := l\<rparr>) = accessed s"
  by (simp_all add: pte_of_def accessed_def page_of_def fun_eq_iff)

lemma relocked_access [simp]:
  "accessed s (x\<lparr>se_lock := l\<rparr>) = accessed s x" "accessed (s\<lparr>supp := g\<rparr>) = accessed s"
  "was_accessed (x\<lparr>se_lock := l\<rparr>) s = was_accessed x s" "clear_accessed (x\<lparr>se_lock := l\<rparr>) s = clear_accessed x s"
  by (simp_all add: accessed_def was_accessed_def clear_accessed_def pte_of_def page_of_def fun_eq_iff cong: if_cong)

lemma same_vm_rotate:
  assumes ok: "vm_ok D s" and l: "ordered_list s = f # fs"
  shows "same_vm D s (s\<lparr>ordered_list := fs @ [f]\<rparr>)"
  using same_vm_refl [OF ok] l unfolding same_vm_def by auto

lemma holds_other:
  "set (ordered_list s') = set (ordered_list s) \<Longrightarrow> frames s' = frames s \<Longrightarrow> holds s' f e = holds s f e"
  by (simp add: holds_def)

text \<open>The clock comes round: a frame it skips moves to the back, a frame it visits again was not used since.\<close>

lemma find_victim_ok:
  assumes "vm_ok D s" "\<exists>f\<in>set (ordered_list s). eligible s f" "\<And>e x. supp s e = Some x \<Longrightarrow> resident s x \<Longrightarrow> se_lock x \<noteq> Some me"
  shows "\<exists>f u x m l. find_victim me s = Some (f, s\<lparr>mm := m, ordered_list := l, supp := (supp s)(u \<mapsto> x\<lparr>se_lock := Some me\<rparr>)\<rparr>)
    \<and> holds s f u \<and> supp s u = Some x \<and> eligible s f \<and> se_lock x = None \<and> same_view D (mm s) m \<and> distinct l \<and> set l = set (ordered_list s)"
  using assms
proof (induction s rule: wf_induct_rule [OF wf_inv_image [OF wf_lex_prod [OF wf_less_than wf_less_than], of "\<lambda>s. (card (accessed_frames s), steps_to_eligible s)"]])
  case (1 s)
  note ok = 1(2) and me = 1(4)
  obtain f fs where l: "ordered_list s = f # fs" using 1(3) by (cases "ordered_list s") auto
  let ?s1 = "s\<lparr>ordered_list := fs @ [f]\<rparr>"
  have sv1: "same_vm D s ?s1" by (rule same_vm_rotate [OF ok l])
  have next': "get_next_frame_to_test s = Some (f, ?s1)" by (simp add: get_next_frame_to_test_def l)
  obtain u x where x: "holds s f u" "supp s u = Some x" "resident s x" using frames_okD(4) [OF vm_okD(4) [OF ok], of f] l by auto
  have fu: "fr_user (frames s f) = Some u" using x(1) by (simp add: holds_def)
  have tr: "se_lock x \<noteq> Some me" by (rule me [OF x(2,3)])
  have dist: "distinct (ordered_list s)" by (rule frames_okD(2) [OF vm_okD(4) [OF ok]])
  have fin: "finite (accessed_frames s)" by (rule finite_subset [of _ "set (ordered_list s)"]) (auto simp: accessed_frames_def holds_def)
  have again: "\<exists>f u x m l. find_victim me s' = Some (f, s\<lparr>mm := m, ordered_list := l, supp := (supp s)(u \<mapsto> x\<lparr>se_lock := Some me\<rparr>)\<rparr>)
      \<and> holds s f u \<and> supp s u = Some x \<and> eligible s f \<and> se_lock x = None \<and> same_view D (mm s) m \<and> distinct l \<and> set l = set (ordered_list s)"
    if s': "s' = s\<lparr>mm := m', ordered_list := fs @ [f]\<rparr>" "same_view D (mm s) m'"
      and less: "card (accessed_frames s') < card (accessed_frames s) \<or> card (accessed_frames s') = card (accessed_frames s) \<and> steps_to_eligible s' < steps_to_eligible s" for s' m'
  proof -
    have sv: "same_vm D s s'" using sv1 s' by (simp add: same_vm_def)
    have h: "holds s' g e = holds s g e" for g e by (rule holds_other) (simp_all add: s'(1) l)
    have el: "eligible s' g = eligible s g" for g unfolding eligible_def h by (simp add: s'(1))
    have "\<exists>g v y m l. find_victim me s' = Some (g, s'\<lparr>mm := m, ordered_list := l, supp := (supp s')(v \<mapsto> y\<lparr>se_lock := Some me\<rparr>)\<rparr>)
      \<and> holds s' g v \<and> supp s' v = Some y \<and> eligible s' g \<and> se_lock y = None \<and> same_view D (mm s') m \<and> distinct l \<and> set l = set (ordered_list s')"
    proof (rule 1(1))
      show "(s', s) \<in> inv_image (less_than <*lex*> less_than) (\<lambda>s. (card (accessed_frames s), steps_to_eligible s))" using less by auto
      show "vm_ok D s'" by (rule same_vm_ok [OF ok sv])
      show "\<exists>f\<in>set (ordered_list s'). eligible s' f" using 1(3) el by (simp add: s'(1) l)
      show "se_lock y \<noteq> Some me" if "supp s' e = Some y" "resident s' y" for e y
        using me [of e y] same_vm_entry(1) [OF ok sv, of e y] that by (simp add: s'(1))
    qed
    then obtain g v y m k where r: "find_victim me s' = Some (g, s'\<lparr>mm := m, ordered_list := k, supp := (supp s')(v \<mapsto> y\<lparr>se_lock := Some me\<rparr>)\<rparr>)"
      "holds s' g v" "supp s' v = Some y" "eligible s' g" "se_lock y = None" "same_view D (mm s') m" "distinct k" "set k = set (ordered_list s')" by blast
    have "same_view D (mm s) m" using same_view_trans [OF s'(2)] r(6) by (simp add: s'(1))
    then show ?thesis using r h el by (intro exI [of _ g] exI [of _ v] exI [of _ y] exI [of _ m] exI [of _ k]) (simp add: s'(1) l insert_commute)
  qed
  have skip: "card (accessed_frames ?s1) = card (accessed_frames s)" "\<not> eligible s f \<Longrightarrow> steps_to_eligible ?s1 < steps_to_eligible s"
  proof -
    have h: "holds ?s1 g e = holds s g e" for g e by (rule holds_other) (simp_all add: l)
    have el: "eligible ?s1 = eligible s" by (simp add: eligible_def h fun_eq_iff)
    show "card (accessed_frames ?s1) = card (accessed_frames s)" by (simp add: accessed_frames_def h el)
    assume n: "\<not> eligible s f"
    then obtain g where "g \<in> set fs" "eligible s g" using 1(3) l by auto
    then have "takeWhile (\<lambda>f. \<not> eligible s f) (fs @ [f]) = takeWhile (\<lambda>f. \<not> eligible s f) fs" by (intro takeWhile_append1) auto
    then show "steps_to_eligible ?s1 < steps_to_eligible s" using n l by (simp add: steps_to_eligible_def el)
  qed
  have one: "holds s f e \<Longrightarrow> e = u" for e using fu by (simp add: holds_def)
  show ?case
  proof (cases "se_lock x = None")
    case False
    then have "\<not> eligible s f" using one x(2) by (auto simp: eligible_def)
    moreover have "se_try_acquire me u ?s1 = Some (False, ?s1)" using False x(2) tr by (auto simp: se_try_acquire_def)
    then have run: "find_victim me s = find_victim me ?s1" using next' fu x(2) by (simp add: find_victim.simps [of me s])
    ultimately show ?thesis unfolding run using skip by (intro again [of ?s1 "mm s"]) (simp_all add: same_view_refl [OF vm_okD(1) [OF ok]])
  next
    case free: True
    let ?s2 = "?s1\<lparr>supp := (supp s)(u \<mapsto> x\<lparr>se_lock := Some me\<rparr>)\<rparr>"
    have got: "se_try_acquire me u ?s1 = Some (True, ?s2)" using free x(2) by (simp add: se_try_acquire_def upd_supp_def)
    have bk: "(supp s)(u \<mapsto> x\<lparr>se_lock := None\<rparr>) = supp s" using free x(2) by (cases x) (auto simp: fun_eq_iff)
    have rel: "se_release me u (?s2\<lparr>mm := m\<rparr>) = Some (?s1\<lparr>mm := m\<rparr>)" for m using bk by (simp add: se_release_def upd_supp_def)
    show ?thesis
    proof (cases "prohibit_cache (frames s f)")
      case True
      then have "\<not> eligible s f" by (simp add: eligible_def)
      moreover have run: "find_victim me s = find_victim me ?s1"
        using True next' fu x(2) got rel [of "mm s"] by (simp add: find_victim.simps [of me s])
      ultimately show ?thesis unfolding run using skip by (intro again [of ?s1 "mm s"]) (simp_all add: same_view_refl [OF vm_okD(1) [OF ok]])
    next
      case False
      then have ef: "eligible s f" using x free by (auto simp: eligible_def)
      have sv2: "same_vm D s ?s2"
      proof -
        have "supp ?s2 = (\<lambda>e. map_option (\<lambda>x. x\<lparr>se_lock := if e = u then Some me else se_lock (the (supp s e))\<rparr>) (supp s e))"
          using x(2) by (auto simp: fun_eq_iff map_option_case split: option.splits)
        then show ?thesis using sv1 unfolding same_vm_def by (auto intro!: exI [of _ "\<lambda>e. if e = u then Some me else se_lock (the (supp s e))"])
      qed
      note ok2 = same_vm_ok [OF ok sv2]
      have h2: "holds ?s2 g e = holds s g e" for g e by (rule holds_other) (simp_all add: l)
      have x2: "supp ?s2 u = Some (x\<lparr>se_lock := Some me\<rparr>)" by simp
      have hu: "holds ?s2 f u" using h2 x(1) by simp
      have was: "was_accessed x ?s2 = Some (accessed s x)"
        using was_accessed_ok [OF ok2 hu x2] by simp
      show ?thesis
      proof (cases "accessed s x")
        case False
        then have run: "find_victim me s = Some (f, ?s2)" using \<open>\<not> prohibit_cache (frames s f)\<close> next' fu x(2) got was by (simp add: find_victim.simps [of me s])
        show ?thesis
        proof (intro exI conjI)
          show "find_victim me s = Some (f, s\<lparr>mm := mm s, ordered_list := fs @ [f], supp := (supp s)(u \<mapsto> x\<lparr>se_lock := Some me\<rparr>)\<rparr>)" unfolding run by simp
        qed (use x(1,2) ef free same_view_refl [OF vm_okD(1) [OF ok]] dist l in simp_all)
      next
        case True
        obtain m where m: "clear_accessed (x\<lparr>se_lock := Some me\<rparr>) ?s2 = Some (?s2\<lparr>mm := m\<rparr>)" "same_view D (mm s) m" "\<not> accessed (?s2\<lparr>mm := m\<rparr>) (x\<lparr>se_lock := Some me\<rparr>)"
            "\<And>f' e' y. holds ?s2 f' e' \<Longrightarrow> supp ?s2 e' = Some y \<Longrightarrow> e' \<noteq> u \<Longrightarrow> accessed (?s2\<lparr>mm := m\<rparr>) y = accessed ?s2 y"
        proof -
          obtain m where "clear_accessed (x\<lparr>se_lock := Some me\<rparr>) ?s2 = Some (?s2\<lparr>mm := m\<rparr>)" "same_view D (mm ?s2) m" "\<not> accessed (?s2\<lparr>mm := m\<rparr>) (x\<lparr>se_lock := Some me\<rparr>)"
            "\<forall>f' e' y. holds ?s2 f' e' \<longrightarrow> supp ?s2 e' = Some y \<longrightarrow> e' \<noteq> u \<longrightarrow> accessed (?s2\<lparr>mm := m\<rparr>) y = accessed ?s2 y"
            using clear_accessed_ok [OF ok2 hu x2] by blast
          moreover have "mm ?s2 = mm s" by simp
          ultimately show thesis using that by metis
        qed
        have run: "find_victim me s = find_victim me (?s1\<lparr>mm := m\<rparr>)"
          using True \<open>\<not> prohibit_cache (frames s f)\<close> next' fu x(2) got was m(1) rel [of m] by (simp add: find_victim.simps [of me s])
        let ?s' = "s\<lparr>mm := m, ordered_list := fs @ [f]\<rparr>"
        have h': "holds ?s' g e = holds s g e" for g e by (rule holds_other) (simp_all add: l)
        have el': "eligible ?s' = eligible s" by (simp add: eligible_def h' fun_eq_iff)
        have acc: "accessed ?s' y = accessed (?s2\<lparr>mm := m\<rparr>) y" "accessed ?s2 y = accessed s y" "accessed ?s' (y\<lparr>se_lock := k\<rparr>) = accessed ?s' y" for y k
          by (simp_all add: accessed_def pte_of_def page_of_def)
        have "accessed_frames ?s' \<subseteq> accessed_frames s - {f}"
        proof
          fix g assume "g \<in> accessed_frames ?s'"
          then obtain e y where g: "eligible s g" "holds s g e" "supp s e = Some y" "accessed ?s' y" by (auto simp: accessed_frames_def h' el')
          have eu: "e \<noteq> u" using m(3) g(3,4) x(2) acc(1) [of y] by auto
          have "supp ?s2 e = Some y" using g(3) eu by simp
          then have "accessed s y" using m(4) [of g e y] eu g(2,4) h2 [of g e] acc(1,2) [of y] by simp
          then show "g \<in> accessed_frames s - {f}" using g eu one by (auto simp: accessed_frames_def)
        qed
        moreover have "f \<in> accessed_frames s" using ef x(1,2) True by (auto simp: accessed_frames_def)
        ultimately have "card (accessed_frames ?s') < card (accessed_frames s)" by (intro psubset_card_mono [OF fin]) auto
        moreover have eq: "?s1\<lparr>mm := m\<rparr> = ?s'" by simp
        ultimately show ?thesis using m(2) unfolding run eq by (intro again [of ?s' m]) simp_all
      qed
    qed
  qed
qed

section \<open>Evicting a page\<close>

text \<open>What eviction does to the page tables and the pool: the entry of the page loses its present bit, the page goes back to the pool.\<close>

lemma evict_mmu:
  assumes k: "kvm D m" and pd: "pd \<in> D" "pdme \<in> D" and va: "is_user_vaddr va" "pg_ofs va = 0" "va \<noteq> 0"
    and p: "bit (pte_at m pd (pg_no va)) 0" and kp: "PHYS_BASE + unat (pte_at m pd (pg_no va) AND PTE_ADDR) = page_at (user_pool (phys m)) f"
    and f: "f \<in> bm_used (used_map (user_pool (phys m)))"
  defines "e \<equiv> pte_at m pd (pg_no va)" and "a \<equiv> page_at (user_pool (phys m)) f"
  obtains m1 m2 m3 m4 P where "pagedir_activate pd m = Some m1" "pageir_set_kernel_access pd va True m1 = Some m2"
    "pagedir_is_dirty pd va m2 = Some (bit e 6)" "pagedir_is_dirty pd a m2 = Some (bit (kentry m (kidx a)) 6)" "pagedir_get_page pd va m2 = Some a" "\<And>i. i < PGSIZE \<Longrightarrow> ram (phys m2) (a + i) = ram (phys m) (a + i)"
    "pagedir_clear_page pd va m2 = Some m3" "pagedir_activate pdme m3 = Some m4" "palloc_page_to_idx {PAL_USER, PAL_THROUGH_FRAME} a (phys m4) = Some f"
    "palloc_free_page a (phys m4) = Some P" "repooled (user_pool (phys m)) (bm_used (used_map (user_pool (phys m))) - {f}) (user_pool P)"
    "mm_step D m pdme (user_pool P) ((pte_at m)(pd := (pte_at m pd)(pg_no va := (e AND NOT PTE_U) AND NOT PTE_P))) (kentry m)
       (\<lambda>x. if x \<in> span a PGSIZE then 0xcc else ram (phys m) x) (m4\<lparr>phys := P\<rparr>)"
proof -
  let ?n = "pg_no va" and ?pool = "user_pool (phys m)"
  have f': "f < bit_cnt (used_map ?pool)" using f by (simp add: bm_used_def)
  have n: "?n < USER_PAGES" using va by (simp add: user_pg_no)
  have pin: "pd \<in> insert (init_page_dir m) D" using pd by simp
  have po: "pool_ok ?pool" using kvmD(4) [OF k] by (simp add: palloc_ok_def)
  have sub: "span a PGSIZE \<subseteq> user_range m" using user_page_range [OF f'] by (simp add: a_def)
  then have ar: "a \<in> user_range m" by (auto simp: span_def PGSIZE_eq)
  note A = user_range_mapped [OF k ar]
  obtain m1 where m1: "pagedir_activate pd m = Some m1" "mm_step D m pd ?pool (pte_at m) (kentry m) (ram (phys m)) m1" using activate_step [OF k pd(1)] by blast
  note S1 = mm_stepD [OF m1(2)]
  have e1: "pte_at m1 pd ?n = e" using S1(8) [OF pin n] by (simp add: e_def)
  have nz: "pte_at m1 pd ?n \<noteq> 0" using p unfolding e1 by (auto simp: e_def)
  obtain m2 where m2: "pageir_set_kernel_access pd va True m1 = Some m2"
      "mm_step D m1 (active m1) (user_pool (phys m1)) ((pte_at m1)(pd := (pte_at m1 pd)(?n := pte_at m1 pd ?n AND NOT PTE_U))) (kentry m1) (ram (phys m1)) m2"
    using user_flag_ops(4) [OF S1(1) pd(1) va(1) nz va(2,3)] p unfolding e1 by (auto simp: e_def)
  have T2: "mm_step D m pd ?pool ((pte_at m)(pd := (pte_at m pd)(?n := e AND NOT PTE_U))) (kentry m) (ram (phys m)) m2"
    by (rule mm_step_trans [OF m1(2)], rule mm_step_cong [OF m2(2) [unfolded S1(2,6)]]) (use S1 pd e1 in \<open>auto simp: S1(8,9)\<close>)
  note S2 = mm_stepD [OF T2]
  have e2: "pte_at m2 pd ?n = e AND NOT PTE_U" using S2(8) [OF pin n] by simp
  have nz2: "pte_at m2 pd ?n \<noteq> 0"
  proof
    assume z: "pte_at m2 pd ?n = 0"
    have "bit (pte_at m2 pd ?n) 0" using p unfolding e2 by (simp add: e_def)
    then show False using z by simp
  qed
  have pin2: "pd \<in> insert (init_page_dir m2) D" using pd by simp
  have d: "pagedir_is_dirty pd va m2 = Some (bit e 6)" using user_reads(2) [OF S2(1) pd(1) va(1)] by (simp add: e2)
  have kd: "pagedir_is_dirty pd a m2 = Some (bit (kentry m (kidx a)) 6)"
    using kernel_flag_ops(1) [OF S2(1) pin2, of a] A S2(5) S2(9) [of "kidx a"] kernel_address(1) [of a "init_ram_pages m"] kernel_halfD(1) [OF kvmD(2) [OF k]]
    by (simp add: kidx_def)
  have ea: "(e AND NOT PTE_U) AND PTE_ADDR = e AND PTE_ADDR" by (rule address_bits) auto
  have get: "pagedir_get_page pd va m2 = Some a"
    using user_reads(1) [OF S2(1) pd(1) va(1)] p kp va(2) ea unfolding e2 by (simp add: a_def e_def)
  obtain m3 where m3: "pagedir_clear_page pd va m2 = Some m3"
      "mm_step D m2 (active m2) (user_pool (phys m2)) ((pte_at m2)(pd := (pte_at m2 pd)(?n := pte_at m2 pd ?n AND NOT PTE_P))) (kentry m2) (ram (phys m2)) m3"
    using user_flag_ops(1) [OF S2(1) pd(1) va(1) nz2 va(2)] by blast
  let ?U = "(pte_at m)(pd := (pte_at m pd)(?n := (e AND NOT PTE_U) AND NOT PTE_P))"
  have T3: "mm_step D m pd ?pool ?U (kentry m) (ram (phys m)) m3"
    by (rule mm_step_trans [OF T2], rule mm_step_cong [OF m3(2) [unfolded S2(2,6)]]) (use S2 pd e2 in \<open>auto simp: S2(8,9)\<close>)
  note S3 = mm_stepD [OF T3]
  obtain m4 where m4: "pagedir_activate pdme m3 = Some m4" "mm_step D m3 pdme (user_pool (phys m3)) (pte_at m3) (kentry m3) (ram (phys m3)) m4"
    using activate_step [OF S3(1) pd(2)] by blast
  have T4: "mm_step D m pdme ?pool ?U (kentry m) (ram (phys m)) m4"
    by (rule mm_step_trans [OF T3], rule mm_step_cong [OF m4(2) [unfolded S3(2)]]) (use S3 in \<open>auto simp: S3(8,9)\<close>)
  note S4 = mm_stepD [OF T4]
  obtain P where P: "palloc_free_page a (phys m4) = Some P" "repooled ?pool (bm_used (used_map ?pool) - {f}) (user_pool P)"
      "mm_step D m4 (active m4) (user_pool P) (pte_at m4) (kentry m4) (\<lambda>x. if x \<in> span a PGSIZE then 0xcc else ram (phys m4) x) (m4\<lparr>phys := P\<rparr>)"
    using free_user_page [OF S4(1), unfolded S4(2), OF f] unfolding a_def by blast
  have T5: "mm_step D m pdme (user_pool P) ?U (kentry m) (\<lambda>x. if x \<in> span a PGSIZE then 0xcc else ram (phys m) x) (m4\<lparr>phys := P\<rparr>)"
    by (rule mm_step_trans [OF T4], rule mm_step_cong [OF P(3) [unfolded S4(6)]]) (use S4 in \<open>auto simp: S4(8,9)\<close>)
  have idx: "palloc_page_to_idx {PAL_USER, PAL_THROUGH_FRAME} a (phys m4) = Some f"
    using palloc_page_to_idx_ok [of "{PAL_USER, PAL_THROUGH_FRAME}" "phys m4" f] po f' S4(2) by (simp add: pool_of_def a_def)
  have mem: "ram (phys m2) (a + i) = ram (phys m) (a + i)" if i: "i < PGSIZE" for i
  proof -
    have "a + i \<in> user_range m" using sub i by (simp add: span_def subset_iff)
    then show ?thesis by (rule S2(3))
  qed
  show thesis by (rule that [OF m1(1) m2(1) d kd get mem m3(1) m4(1) idx P(1,2) T5])
qed

text \<open>What eviction does to the whole state.\<close>

definition evicted :: "nat set \<Rightarrow> nat \<Rightarrow> vm \<Rightarrow> nat \<Rightarrow> nat \<Rightarrow> supp_pagedir_entry \<Rightarrow> vm \<Rightarrow> bool" where
  "evicted D me s f u x s' \<longleftrightarrow> (\<exists>m w t P. s' = s\<lparr>mm := m, swp := w, supp := (supp s)(u \<mapsto> x\<lparr>sector_t := t, se_lock := None\<rparr>),
       frames := (frames s)(f := (frames s f)\<lparr>fr_user := None\<rparr>), ordered_list := remove1 f (ordered_list s)\<rparr>
     \<and> repooled (upool s) (bm_used (used_map (upool s)) - {f}) P
     \<and> mm_step D (mm s) (pdirs s me) P ((pte_at (mm s))(pdirs s (se_thread x) := (pte_at (mm s) (pdirs s (se_thread x)))(pg_no (upage x) := (pte_of s x AND NOT PTE_U) AND NOT PTE_P)))
          (kentry (mm s)) (\<lambda>a. if a \<in> span (page_of s x) PGSIZE then 0xcc else ram (phys (mm s)) a) m
     \<and> swap_ok w (the (s_map w)) \<and> bit_cnt (the (s_map w)) = bit_cnt (swap_map s)
     \<and> (t = BLOCK_SECTOR_T_ERROR \<and> w = swp s \<and> (\<forall>i<PGSIZE. ram (phys (mm s)) (page_of s x + i) = origin s x i)
        \<or> (se_fd x \<noteq> - 1 \<longrightarrow> PAL_DONT_SYNC_ON_DISK \<in> se_flags x) \<and> (\<exists>k<bit_cnt (swap_map s). t = 8 * k \<and> k \<notin> bm_used (swap_map s) \<and> bm_used (the (s_map w)) = insert k (bm_used (swap_map s))
             \<and> (\<forall>i<PGSIZE. slot_byte w t i = ram (phys (mm s)) (page_of s x + i))
             \<and> (\<forall>j<bit_cnt (swap_map s). \<forall>i<PGSIZE. j \<noteq> k \<longrightarrow> slot_byte w (8 * j) i = slot_byte (swp s) (8 * j) i))))"

lemma not_an_error: "t < bit_cnt m \<Longrightarrow> swap_ok w m \<Longrightarrow> 8 * t \<noteq> BLOCK_SECTOR_T_ERROR"
  by (simp add: swap_ok_def BLOCK_SECTOR_T_ERROR_def)

text \<open>What eviction does with the page of a file is decided by \<open>mmap_discard\<close>.\<close>

definition discards :: "(nat \<Rightarrow> vm \<Rightarrow> (bool \<times> vm) option) \<Rightarrow> bool" where
  "discards g \<longleftrightarrow> (\<exists>p d me. g = mmap_discard_with p d me)"

lemma evict_runs:
  assumes ok: "vm_ok D s" and dis: "discards discard" and fv: "find_victim me s0 = Some (f, s)" and h: "holds s f u" and x: "supp s u = Some x" and lock: "se_lock x = Some me"
    and pme: "pdirs s me \<in> D" and room: "bm_used (swap_map s) \<noteq> {..<bit_cnt (swap_map s)}"
  shows "\<exists>s'. second_chance_with discard me s0 = Some s' \<and> evicted D me s f u x s'"
proof -
  note E = entry_okD [OF vm_okD(2) [OF ok x]] and P = page_facts [OF ok h x] and k = vm_okD(1) [OF ok] and F = frames_okD [OF vm_okD(4) [OF ok]]
  note W = swapped_okD [OF vm_okD(5) [OF ok]]
  have fs: "f \<in> set (ordered_list s)" and fu: "fr_user (frames s f) = Some u" using h by (simp_all add: holds_def)
  have f: "f \<in> bm_used (used_map (upool s))" using fs F(3) by simp
  let ?pd = "pdirs s (se_thread x)" and ?kp = "page_of s x" and ?e = "pte_of s x"
  have kp: "PHYS_BASE + unat (pte_at (mm s) ?pd (pg_no (upage x)) AND PTE_ADDR) = page_at (user_pool (phys (mm s))) f" using P(1) by (simp add: page_of_def pte_of_def upool_def)
  have bp: "bit (pte_at (mm s) ?pd (pg_no (upage x))) 0" using P(3) by (simp add: resident_def pte_of_def)
  have kk: "page_at (user_pool (phys (mm s))) f = ?kp" using P(1) by (simp add: upool_def)
  obtain m1 m2 m3 m4 Q where M: "pagedir_activate ?pd (mm s) = Some m1" "pageir_set_kernel_access ?pd (upage x) True m1 = Some m2"
    "pagedir_is_dirty ?pd (upage x) m2 = Some (bit ?e 6)" "pagedir_is_dirty ?pd ?kp m2 = Some (bit (kentry (mm s) (kidx ?kp)) 6)" "pagedir_get_page ?pd (upage x) m2 = Some ?kp" "\<And>i. i < PGSIZE \<Longrightarrow> ram (phys m2) (?kp + i) = ram (phys (mm s)) (?kp + i)"
    "pagedir_clear_page ?pd (upage x) m2 = Some m3" "pagedir_activate (pdirs s me) m3 = Some m4" "palloc_page_to_idx {PAL_USER, PAL_THROUGH_FRAME} ?kp (phys m4) = Some f"
    "palloc_free_page ?kp (phys m4) = Some Q" "repooled (upool s) (bm_used (used_map (upool s)) - {f}) (user_pool Q)"
    "mm_step D (mm s) (pdirs s me) (user_pool Q) ((pte_at (mm s))(?pd := (pte_at (mm s) ?pd)(pg_no (upage x) := (?e AND NOT PTE_U) AND NOT PTE_P))) (kentry (mm s))
       (\<lambda>a. if a \<in> span ?kp PGSIZE then 0xcc else ram (phys (mm s)) a) (m4\<lparr>phys := Q\<rparr>)"
    by (rule evict_mmu [OF k E(9) pme E(6,7,8) bp kp f [unfolded upool_def], unfolded kk, folded pte_of_def upool_def]) (rule that)
  have nz: "?pd \<noteq> 0" using dir_facts(2) [OF kvmD(3) [OF k] vm_invD(4) [OF kvmD(1) [OF k]]] E(9) by blast
  have rdn: "pg_round_down ?kp = ?kp" using P(10) by (auto simp: pg_round_down_def elim: dvdE)
  have fn: "f < num_of_frames s" using f F(1) by (simp add: bm_used_def)
  have fU: "f \<noteq> UINT32_MAX" using fn F(1) kvmD(4) [OF k] by (auto simp: upool_def palloc_ok_def pool_ok_def UINT32_MAX_def PGSIZE_eq)
  define clean where "clean \<longleftrightarrow> \<not> bit ?e 6 \<and> \<not> bit (kentry (mm s) (kidx ?kp)) 6"
  note C = clean_okD [OF vm_okD(6) [OF ok] x]
  have dt: "page_dirty s x \<longleftrightarrow> \<not> clean" by (simp add: page_dirty_def clean_def)
  have sync: "se_fd x \<noteq> - 1 \<Longrightarrow> \<not> clean \<Longrightarrow> PAL_DONT_SYNC_ON_DISK \<in> se_flags x" using C(2) P(3) dt by blast
  have drop: "discard u (s\<lparr>mm := m2\<rparr>) = Some (clean, s\<lparr>mm := m2\<rparr>)" if "se_fd x \<noteq> - 1"
  proof -
    obtain p d v where dd: "discard = mmap_discard_with p d v" using dis unfolding discards_def by blast
    show ?thesis using x M(3-5) sync [OF that] by (auto simp: dd mmap_discard_with_def Let_def clean_def)
  qed
  have sec: "sector_t x = BLOCK_SECTOR_T_ERROR" using W(2) [OF x] P(3) by blast
  have kv: "is_kernel_vaddr ?kp" using P(4) by (simp add: is_kernel_vaddr_def)
  let ?final = "\<lambda>t w. s\<lparr>mm := m4\<lparr>phys := Q\<rparr>, swp := w, supp := (supp s)(u \<mapsto> x\<lparr>sector_t := t, se_lock := None\<rparr>),
       frames := (frames s)(f := (frames s f)\<lparr>fr_user := None\<rparr>), ordered_list := remove1 f (ordered_list s)\<rparr>"
  have run: "second_chance_with discard me s0 = Some (?final t w)"
    if t: "if clean then t = BLOCK_SECTOR_T_ERROR \<and> w = swp s else swap_write ?kp m2 (swp s) = Some (t, w)" for t w
  proof (cases clean)
    case True
    have xx: "x\<lparr>sector_t := BLOCK_SECTOR_T_ERROR, se_lock := None\<rparr> = x\<lparr>se_lock := None\<rparr>" using sec by (cases x) simp
    have c: "bit ?e 6 = False" "bit (kentry (mm s) (kidx ?kp)) 6 = False" using True by (simp_all add: clean_def)
    show ?thesis using True t fv x fu E(2-10) nz P(7,8) rdn M fs fn fU lock sec drop
      by (cases "se_fd x = - 1") (simp_all add: c second_chance_with_def on_mm_def frame_free_page_no_lock_def frame_get_frame_def se_release_def upd_supp_def Let_def xx)
  next
    case False
    then have c: "(\<not> bit ?e 6 \<and> \<not> bit (kentry (mm s) (kidx ?kp)) 6) = False" by (simp add: clean_def)
    show ?thesis using False t fv x fu E(2-10) nz P(7,8) rdn M fs fn fU lock drop
      by (cases "se_fd x = - 1") (simp_all add: second_chance_with_def on_mm_def frame_free_page_no_lock_def frame_get_frame_def se_release_def upd_supp_def Let_def c)
  qed
  show ?thesis
  proof (cases clean)
    case True
    have "ram (phys (mm s)) (?kp + i) = origin s x i" if "i < PGSIZE" for i using C(1) [OF P(3) _ that] True dt by simp
    then have "evicted D me s f u x (?final BLOCK_SECTOR_T_ERROR (swp s))" unfolding evicted_def
      using M(11,12) W(1) by (intro exI [of _ "m4\<lparr>phys := Q\<rparr>"] exI [of _ "swp s"] exI [of _ BLOCK_SECTOR_T_ERROR] exI [of _ "user_pool Q"]) (simp add: swap_map_def)
    moreover have "second_chance_with discard me s0 = Some (?final BLOCK_SECTOR_T_ERROR (swp s))" using True by (intro run) simp
    ultimately show ?thesis by blast
  next
    case False
    obtain t w m' where w: "swap_write ?kp m2 (swp s) = Some (8 * t, w)" "t < bit_cnt (swap_map s)" "t \<notin> bm_used (swap_map s)" "swap_ok w m'" "bit_cnt m' = bit_cnt (swap_map s)"
      "bm_used m' = insert t (bm_used (swap_map s))" "\<And>i. i < PGSIZE \<Longrightarrow> slot_byte w (8 * t) i = ram (phys m2) (?kp + i)"
      "\<And>j i. j < bit_cnt (swap_map s) \<Longrightarrow> j \<noteq> t \<Longrightarrow> i < PGSIZE \<Longrightarrow> slot_byte w (8 * j) i = slot_byte (swp s) (8 * j) i"
      by (rule swap_write_ok [OF W(1) room kv P(8), of m2]) blast
    have m': "the (s_map w) = m'" using w(4) by (simp add: swap_ok_def)
    have "evicted D me s f u x (?final (8 * t) w)" unfolding evicted_def
    proof (intro exI [of _ "m4\<lparr>phys := Q\<rparr>"] exI [of _ w] exI [of _ "8 * t"] exI [of _ "user_pool Q"] conjI)
      show "8 * t = BLOCK_SECTOR_T_ERROR \<and> w = swp s \<and> (\<forall>i<PGSIZE. ram (phys (mm s)) (?kp + i) = origin s x i)
        \<or> (se_fd x \<noteq> - 1 \<longrightarrow> PAL_DONT_SYNC_ON_DISK \<in> se_flags x) \<and> (\<exists>k<bit_cnt (swap_map s). 8 * t = 8 * k \<and> k \<notin> bm_used (swap_map s) \<and> bm_used (the (s_map w)) = insert k (bm_used (swap_map s))
             \<and> (\<forall>i<PGSIZE. slot_byte w (8 * t) i = ram (phys (mm s)) (?kp + i))
             \<and> (\<forall>j<bit_cnt (swap_map s). \<forall>i<PGSIZE. j \<noteq> k \<longrightarrow> slot_byte w (8 * j) i = slot_byte (swp s) (8 * j) i))"
        using w(2,3,6,7,8) M(6) sync False by (intro disjI2 conjI exI [of _ t]) (simp_all add: m')
    qed (use M(11,12) w(4,5) in \<open>simp_all add: m'\<close>)
    moreover have "second_chance_with discard me s0 = Some (?final (8 * t) w)" using False w(1) by (intro run) simp
    ultimately show ?thesis by blast
  qed
qed

section \<open>A change of one entry\<close>

lemma page_at_base: "pool_base p = pool_base q \<Longrightarrow> page_at p f = page_at q f"
  by (simp add: page_at_def)

lemma other_slot:
  assumes ok: "vm_ok D s" and e: "supp s e = Some x" "supp s e' = Some y" "e \<noteq> e'"
  shows "\<not> (pdirs s (se_thread x) = pdirs s (se_thread y) \<and> pg_no (upage x) = pg_no (upage y))"
proof
  assume c: "pdirs s (se_thread x) = pdirs s (se_thread y) \<and> pg_no (upage x) = pg_no (upage y)"
  have "PGSIZE dvd upage x" "PGSIZE dvd upage y"
    using entry_okD(7) [OF vm_okD(2) [OF ok e(1)]] entry_okD(7) [OF vm_okD(2) [OF ok e(2)]] by (auto simp: pg_ofs_def)
  then have "upage x = upage y" using c by (metis dvd_div_mult_self pg_no_def)
  then show False using vm_okD(3) [OF ok e(1,2)] c e(3) by simp
qed

lemma one_entry:
  assumes ok: "vm_ok D s" and org: "\<And>e y i. supp s e = Some y \<Longrightarrow> i < PGSIZE \<Longrightarrow> origin s' y i = origin s y i" and k: "kvm D (mm s')" "pdirs s' = pdirs s" "pool_base (upool s') = pool_base (upool s)"
    and other: "\<And>e. e \<noteq> u \<Longrightarrow> supp s' e = supp s e"
    and view: "\<And>e y. e \<noteq> u \<Longrightarrow> supp s e = Some y \<Longrightarrow> same_entry (pte_of s y) (pte_of s' y)"
    and kd: "\<And>f e y. e \<noteq> u \<Longrightarrow> holds s f e \<Longrightarrow> supp s e = Some y \<Longrightarrow> bit (kentry (mm s') (kidx (page_of s y))) 6 = bit (kentry (mm s) (kidx (page_of s y))) 6"
    and mem: "\<And>f e y i. e \<noteq> u \<Longrightarrow> holds s f e \<Longrightarrow> supp s e = Some y \<Longrightarrow> i < PGSIZE \<Longrightarrow> ram (phys (mm s')) (page_of s y + i) = ram (phys (mm s)) (page_of s y + i)"
    and h: "\<And>f e. e \<noteq> u \<Longrightarrow> holds s' f e = holds s f e"
    and list: "num_of_frames s' = bit_cnt (used_map (upool s'))" "distinct (ordered_list s')" "set (ordered_list s') = bm_used (used_map (upool s'))"
      "\<And>f. f \<in> set (ordered_list s') \<Longrightarrow> fr_user (frames s' f) \<noteq> None"
    and sw: "swap_ok (swp s') (swap_map s')" "\<And>j e y. e \<noteq> u \<Longrightarrow> supp s e = Some y \<Longrightarrow> sector_t y = 8 * j \<Longrightarrow> j \<in> bm_used (swap_map s) \<Longrightarrow> j \<in> bm_used (swap_map s')"
      "\<And>j e y i. e \<noteq> u \<Longrightarrow> supp s e = Some y \<Longrightarrow> sector_t y = 8 * j \<Longrightarrow> j \<in> bm_used (swap_map s) \<Longrightarrow> i < PGSIZE \<Longrightarrow> slot_byte (swp s') (8 * j) i = slot_byte (swp s) (8 * j) i"
    and u: "supp s u = Some x" "supp s' u = Some x'" "upage x' = upage x" "se_thread x' = se_thread x" "entry_ok D s' x'"
      "\<And>f. holds s' f u \<Longrightarrow> resident s' x' \<and> page_of s' x' = page_at (upool s') f" "resident s' x' \<Longrightarrow> \<exists>f. holds s' f u"
      "sector_t x' \<noteq> BLOCK_SECTOR_T_ERROR \<Longrightarrow> \<not> resident s' x' \<and> (\<exists>k\<in>bm_used (swap_map s'). sector_t x' = 8 * k \<and> (\<forall>e y. e \<noteq> u \<longrightarrow> supp s e = Some y \<longrightarrow> sector_t y \<noteq> 8 * k))"
      "\<And>i. resident s' x' \<Longrightarrow> \<not> page_dirty s' x' \<Longrightarrow> i < PGSIZE \<Longrightarrow> ram (phys (mm s')) (page_of s' x' + i) = origin s' x' i"
      "se_fd x' \<noteq> - 1 \<Longrightarrow> PAL_DONT_SYNC_ON_DISK \<notin> se_flags x' \<Longrightarrow> sector_t x' = BLOCK_SECTOR_T_ERROR \<and> \<not> (resident s' x' \<and> page_dirty s' x')"
  shows "vm_ok D s'" "\<And>e y i. e \<noteq> u \<Longrightarrow> supp s e = Some y \<Longrightarrow> i < PGSIZE \<Longrightarrow> content s' y i = content s y i"
    "\<And>e y. e \<noteq> u \<Longrightarrow> supp s e = Some y \<Longrightarrow> resident s' y = resident s y"
proof -
  note F = frames_okD [OF vm_okD(4) [OF ok]] and W = swapped_okD [OF vm_okD(5) [OF ok]]
  have V: "resident s' y = resident s y" "page_of s' y = page_of s y" "bit (pte_of s' y) 6 = bit (pte_of s y) 6" if "e \<noteq> u" "supp s e = Some y" for e y
    using view [OF that] by (simp_all add: same_entry_def resident_def page_of_def)
  show "\<And>e y. e \<noteq> u \<Longrightarrow> supp s e = Some y \<Longrightarrow> resident s' y = resident s y" by (rule V(1))
  show "content s' y i = content s y i" if e: "e \<noteq> u" "supp s e = Some y" "i < PGSIZE" for e y i
  proof (cases "resident s y")
    case True
    obtain f where "holds s f e" using F(5) [OF e(2) True] by blast
    then show ?thesis using mem [OF e(1) _ e(2,3)] V [OF e(1,2)] True by (simp add: content_def)
  next
    case False
    show ?thesis
    proof (cases "sector_t y = BLOCK_SECTOR_T_ERROR")
      case sec: False
      obtain j where j: "j \<in> bm_used (swap_map s)" "sector_t y = 8 * j" using W(3) [OF e(2) sec] by blast
      show ?thesis using sw(3) [OF e(1,2) j(2,1) e(3)] V(1) [OF e(1,2)] False j(2) sec by (simp add: content_def)
    qed (use V(1) [OF e(1,2)] False org [OF e(2,3)] in \<open>simp add: content_def\<close>)
  qed
  have pa: "page_at (upool s') f = page_at (upool s) f" for f by (rule page_at_base [OF k(3)])
  have "frames_ok s'" unfolding frames_ok_def
  proof (intro conjI ballI allI impI)
    fix f assume f: "f \<in> set (ordered_list s')"
    then obtain e where e: "fr_user (frames s' f) = Some e" using list(4) by blast
    then have hf: "holds s' f e" using f by (simp add: holds_def)
    show "\<exists>e x. holds s' f e \<and> supp s' e = Some x \<and> resident s' x \<and> page_of s' x = page_at (upool s') f"
    proof (cases "e = u")
      case True
      then show ?thesis using hf u(2,6) by blast
    next
      case False
      have hs: "holds s f e" using h [OF False] hf by simp
      obtain y where y: "supp s e = Some y" "resident s y" "page_of s y = page_at (upool s) f" by (rule holds_facts [OF ok hs])
      then show ?thesis using hf V [OF False y(1)] other [OF False] pa by (intro exI [of _ e] exI [of _ y]) simp
    qed
  next
    fix e y assume y: "supp s' e = Some y" "resident s' y"
    show "\<exists>f. holds s' f e"
    proof (cases "e = u")
      case True
      then show ?thesis using y u(2,7) by simp
    next
      case False
      then have "supp s e = Some y" using other y(1) by simp
      then show ?thesis using F(5) V(1) [OF False] y(2) h [OF False] by blast
    qed
  qed (rule list)+
  moreover have "swapped_ok s'" unfolding swapped_ok_def
  proof (intro conjI allI impI)
    show "swap_ok (swp s') (swap_map s')" by (rule sw(1))
  next
    fix e y assume y: "supp s' e = Some y" and sec: "sector_t y \<noteq> BLOCK_SECTOR_T_ERROR"
    have "\<not> resident s' y \<and> (\<exists>k\<in>bm_used (swap_map s'). sector_t y = 8 * k)"
    proof (cases "e = u")
      case True
      then show ?thesis using y sec u(2,8) by auto
    next
      case False
      then have ys: "supp s e = Some y" using other y by simp
      obtain j where j: "j \<in> bm_used (swap_map s)" "sector_t y = 8 * j" using W(3) [OF ys sec] by blast
      show ?thesis using W(2) [OF ys sec] V(1) [OF False ys] sw(2) [OF False ys j(2,1)] j(2) by blast
    qed
    then show "\<not> resident s' y" "\<exists>k\<in>bm_used (swap_map s'). sector_t y = 8 * k" by blast+
  next
    fix e y e' y' assume y: "supp s' e = Some y" "supp s' e' = Some y'" "sector_t y = sector_t y'" and sec: "sector_t y \<noteq> BLOCK_SECTOR_T_ERROR"
    have uniq: False if "a \<noteq> u" "supp s' a = Some b" "sector_t b = sector_t x'" "sector_t x' \<noteq> BLOCK_SECTOR_T_ERROR" for a b
      using u(8) [OF that(4)] that(1-3) other [OF that(1)] by auto
    show "e = e'"
    proof (cases "e = u"; cases "e' = u")
      assume n: "e \<noteq> u" "e' \<noteq> u"
      then show ?thesis using W(4) [of e y e' y'] other y sec by simp
    next
      assume n: "e = u" "e' \<noteq> u"
      then show ?thesis using uniq [OF n(2) y(2)] y u(2) sec by simp
    next
      assume n: "e \<noteq> u" "e' = u"
      then show ?thesis using uniq [OF n(1) y(1)] y u(2) sec by simp
    qed simp
  qed
  moreover have "clean_ok s'" unfolding clean_ok_def
  proof (intro allI impI)
    fix e y assume y: "supp s' e = Some y"
    show "(resident s' y \<longrightarrow> \<not> page_dirty s' y \<longrightarrow> (\<forall>i<PGSIZE. ram (phys (mm s')) (page_of s' y + i) = origin s' y i))
       \<and> (se_fd y \<noteq> - 1 \<longrightarrow> PAL_DONT_SYNC_ON_DISK \<notin> se_flags y \<longrightarrow> sector_t y = BLOCK_SECTOR_T_ERROR \<and> \<not> (resident s' y \<and> page_dirty s' y))"
    proof (cases "e = u")
      case True
      then have "y = x'" using y u(2) by simp
      then show ?thesis using u(9,10) by blast
    next
      case False
      then have ys: "supp s e = Some y" using other y(1) by simp
      note v = V [OF False ys] and C = clean_okD [OF vm_okD(6) [OF ok] ys]
      have here: "page_dirty s' y = page_dirty s y" "i < PGSIZE \<Longrightarrow> ram (phys (mm s')) (page_of s' y + i) = ram (phys (mm s)) (page_of s y + i)" if r: "resident s y" for i
      proof -
        obtain f where hf: "holds s f e" using F(5) [OF ys r] by blast
        show "page_dirty s' y = page_dirty s y" using kd [OF False hf ys] v by (simp add: page_dirty_def)
        show "i < PGSIZE \<Longrightarrow> ram (phys (mm s')) (page_of s' y + i) = ram (phys (mm s)) (page_of s y + i)" using mem [OF False hf ys] v(2) by simp
      qed
      show ?thesis using C here v(1) org [OF ys] by auto
    qed
  qed
  moreover have "entry_ok D s' y" if y: "supp s' e = Some y" for e y
  proof (cases "e = u")
    case False
    then show ?thesis using vm_okD(2) [OF ok, of e y] other y k(2) by (simp add: entry_ok_def)
  qed (use y u(2,5) in simp)
  moreover have "e = e'" if y: "supp s' e = Some y" "supp s' e' = Some y'" "pdirs s' (se_thread y) = pdirs s' (se_thread y')" "upage y = upage y'" for e y e' y'
  proof -
    have old: "\<exists>z. supp s a = Some z \<and> se_thread z = se_thread b \<and> upage z = upage b" if "supp s' a = Some b" for a b
      using that other [of a] u(1-4) by (cases "a = u") auto
    obtain z z' where z: "supp s e = Some z" "se_thread z = se_thread y" "upage z = upage y" "supp s e' = Some z'" "se_thread z' = se_thread y'" "upage z' = upage y'"
      using old [OF y(1)] old [OF y(2)] by blast
    show ?thesis by (rule vm_okD(3) [OF ok z(1,4)]) (use z y k(2) in simp_all)
  qed
  ultimately show "vm_ok D s'" using k(1) unfolding vm_ok_def by blast
qed

lemma other_page:
  assumes ok: "vm_ok D s" and h: "holds s f e" "holds s g a" and x: "supp s e = Some x" "supp s a = Some y" and d: "a \<noteq> e"
  shows "span (page_of s x) PGSIZE \<inter> span (page_of s y) PGSIZE = {}" "kidx (page_of s x) \<noteq> kidx (page_of s y)"
proof -
  have n: "f \<noteq> g" using h d by (auto simp: holds_def)
  note P = page_facts [OF ok h(1) x(1)] and Q = page_facts [OF ok h(2) x(2)]
  show "span (page_of s x) PGSIZE \<inter> span (page_of s y) PGSIZE = {}" using span_page_disjoint [OF n] P(1) Q(1) by simp
  show "kidx (page_of s x) \<noteq> kidx (page_of s y)"
    using kidx_page_at [of "upool s" f g] kvmD(4) [OF vm_okD(1) [OF ok]] P(1) Q(1) n by (simp add: upool_def palloc_ok_def)
qed

lemma evicted_ok:
  assumes ok: "vm_ok D s" and h: "holds s f u" and x: "supp s u = Some x" and ev: "evicted D me s f u x s'"
  shows "vm_ok D s'" "\<And>e y i. e \<noteq> u \<Longrightarrow> supp s e = Some y \<Longrightarrow> i < PGSIZE \<Longrightarrow> content s' y i = content s y i" "\<And>e y. e \<noteq> u \<Longrightarrow> supp s e = Some y \<Longrightarrow> resident s' y = resident s y"
    "\<exists>t. supp s' u = Some (x\<lparr>sector_t := t, se_lock := None\<rparr>) \<and> \<not> resident s' (x\<lparr>sector_t := t, se_lock := None\<rparr>)
       \<and> (\<forall>i<PGSIZE. content s' (x\<lparr>sector_t := t, se_lock := None\<rparr>) i = content s x i)" "f \<notin> bm_used (used_map (upool s'))"
    "pdirs s' = pdirs s" "\<And>e. e \<noteq> u \<Longrightarrow> supp s' e = supp s e" "f < bit_cnt (used_map (upool s'))" "kernel_pool (phys (mm s')) = kernel_pool (phys (mm s))"
    "\<And>p. p \<in> D \<Longrightarrow> tables (mm s') p = tables (mm s) p" "calls s' = calls s" "supp_pagedir s' = supp_pagedir s"
proof -
  note E = entry_okD [OF vm_okD(2) [OF ok x]] and P = page_facts [OF ok h x] and k = vm_okD(1) [OF ok]
  note F = frames_okD [OF vm_okD(4) [OF ok]] and W = swapped_okD [OF vm_okD(5) [OF ok]]
  let ?pd = "pdirs s (se_thread x)" and ?n = "pg_no (upage x)" and ?e = "(pte_of s x AND NOT PTE_U) AND NOT PTE_P"
  obtain m w t Q where s': "s' = s\<lparr>mm := m, swp := w, supp := (supp s)(u \<mapsto> x\<lparr>sector_t := t, se_lock := None\<rparr>),
       frames := (frames s)(f := (frames s f)\<lparr>fr_user := None\<rparr>), ordered_list := remove1 f (ordered_list s)\<rparr>"
    and Q: "repooled (upool s) (bm_used (used_map (upool s)) - {f}) Q"
    and M: "mm_step D (mm s) (pdirs s me) Q ((pte_at (mm s))(?pd := (pte_at (mm s) ?pd)(?n := ?e))) (kentry (mm s)) (\<lambda>a. if a \<in> span (page_of s x) PGSIZE then 0xcc else ram (phys (mm s)) a) m"
    and w: "swap_ok w (the (s_map w))" "bit_cnt (the (s_map w)) = bit_cnt (swap_map s)"
    and t: "t = BLOCK_SECTOR_T_ERROR \<and> w = swp s \<and> (\<forall>i<PGSIZE. ram (phys (mm s)) (page_of s x + i) = origin s x i)
        \<or> (se_fd x \<noteq> - 1 \<longrightarrow> PAL_DONT_SYNC_ON_DISK \<in> se_flags x) \<and> (\<exists>k<bit_cnt (swap_map s). t = 8 * k \<and> k \<notin> bm_used (swap_map s) \<and> bm_used (the (s_map w)) = insert k (bm_used (swap_map s))
             \<and> (\<forall>i<PGSIZE. slot_byte w t i = ram (phys (mm s)) (page_of s x + i))
             \<and> (\<forall>j<bit_cnt (swap_map s). \<forall>i<PGSIZE. j \<noteq> k \<longrightarrow> slot_byte w (8 * j) i = slot_byte (swp s) (8 * j) i))"
    using ev unfolding evicted_def by blast
  have cs: "calls s' = calls s" "supp_pagedir s' = supp_pagedir s" by (simp_all add: s')
  note S = mm_stepD [OF M]
  let ?x = "x\<lparr>sector_t := t, se_lock := None\<rparr>"
  have fs: "f \<in> set (ordered_list s)" "fr_user (frames s f) = Some u" using h by (simp_all add: holds_def)
  have up: "upool s' = Q" by (simp add: s' upool_def S(2))
  have sm: "swap_map s' = the (s_map w)" by (simp add: s' swap_map_def)
  have same: "swp s' = w" "pdirs s' = pdirs s" "mm s' = m" by (simp_all add: s')
  have others: "supp s' e = supp s e" if "e \<noteq> u" for e using that by (simp add: s')
  have pte: "pte_at m p n = ((pte_at (mm s))(?pd := (pte_at (mm s) ?pd)(?n := ?e))) p n" if "p \<in> D" "n < USER_PAGES" for p n using S(8) [of p n] that by simp
  have view: "pte_of s' y = pte_of s y" if e: "e \<noteq> u" "supp s e = Some y" for e y
  proof -
    note Y = entry_okD [OF vm_okD(2) [OF ok e(2)]]
    show ?thesis using pte [OF Y(9,10)] other_slot [OF ok e(2) x e(1)] by (auto simp: pte_of_def same)
  qed
  have pu: "pte_of s' ?x = ?e" using pte [OF E(9,10)] by (simp add: pte_of_def same)
  then have nr: "\<not> resident s' ?x" by (simp add: resident_def)
  have hh: "holds s' g e = holds s g e" if "e \<noteq> u" for g e
  proof (cases "g = f")
    case True
    then show ?thesis using fs that F(2) by (auto simp: holds_def s')
  qed (simp add: holds_def s' F(2))
  have hu: "\<not> holds s' g u" for g
    using holds_inj [OF ok h, of g] F(2) by (cases "g = f") (auto simp: holds_def s')
  have mem: "ram (phys (mm s')) (page_of s y + i) = ram (phys (mm s)) (page_of s y + i)" if e: "e \<noteq> u" "holds s g e" "supp s e = Some y" "i < PGSIZE" for g e y i
  proof -
    have "page_of s y + i \<in> span (page_of s y) PGSIZE" using e(4) by (simp add: span_def)
    moreover from this have "page_of s y + i \<in> user_range (mm s)" using page_facts(9) [OF ok e(2,3)] by blast
    ultimately show ?thesis using S(3) [of "page_of s y + i"] other_page(1) [OF ok h e(2) x e(3,1)] same by auto
  qed
  have used: "bm_used (swap_map s) \<subseteq> bm_used (the (s_map w))" using t by (auto simp: swap_map_def)
  have slots: "slot_byte w (8 * j) i = slot_byte (swp s) (8 * j) i" if j: "j \<in> bm_used (swap_map s)" "i < PGSIZE" for j i
  proof -
    have "j < bit_cnt (swap_map s)" using j(1) by (simp add: bm_used_def)
    then show ?thesis using t j by fastforce
  qed
  have sec: "t \<noteq> BLOCK_SECTOR_T_ERROR \<Longrightarrow> \<exists>k. t = 8 * k \<and> k < bit_cnt (swap_map s) \<and> k \<notin> bm_used (swap_map s) \<and> k \<in> bm_used (the (s_map w))" using t by auto
  have ne: "t = 8 * k \<Longrightarrow> k < bit_cnt (swap_map s) \<Longrightarrow> t \<noteq> BLOCK_SECTOR_T_ERROR" for k using not_an_error [OF _ w(1), of k] w(2) by simp
  have usedQ: "bm_used (used_map Q) = bm_used (used_map (upool s)) - {f}" using Q by (simp add: repooled_def)
  have fresh: "sector_t y \<noteq> 8 * j" if e: "e \<noteq> u" "supp s e = Some y" and j: "t = 8 * j" "j < bit_cnt (swap_map s)" "j \<notin> bm_used (swap_map s)" for e y j
  proof
    assume y: "sector_t y = 8 * j"
    then have "sector_t y \<noteq> BLOCK_SECTOR_T_ERROR" using ne [OF j(1,2)] j(1) by simp
    then show False using W(3) [OF e(2)] y j(3) by auto
  qed
  have O: "vm_ok D s' \<and> (\<forall>e y i. e \<noteq> u \<longrightarrow> supp s e = Some y \<longrightarrow> i < PGSIZE \<longrightarrow> content s' y i = content s y i) \<and> (\<forall>e y. e \<noteq> u \<longrightarrow> supp s e = Some y \<longrightarrow> resident s' y = resident s y)"
  proof -
    have a1: "kvm D (mm s')" "pdirs s' = pdirs s" "pool_base (upool s') = pool_base (upool s)" using S(1) Q by (simp_all add: same up repooled_def)
    have a2: "same_entry (pte_of s y) (pte_of s' y)" if "e \<noteq> u" "supp s e = Some y" for e y using view [OF that] by simp
    have a3: "bit (kentry (mm s') (kidx (page_of s y))) 6 = bit (kentry (mm s) (kidx (page_of s y))) 6" if "e \<noteq> u" "holds s g e" "supp s e = Some y" for g e y
      using S(9) [OF page_facts(6) [OF ok that(2,3)]] by (simp add: same)
    have a4: "num_of_frames s' = bit_cnt (used_map (upool s'))" "distinct (ordered_list s')" "set (ordered_list s') = bm_used (used_map (upool s'))"
      using F(1-3) Q usedQ by (simp_all add: s' up [unfolded s'] repooled_def)
    have a5: "fr_user (frames s' g) \<noteq> None" if "g \<in> set (ordered_list s')" for g
      using that F(2) F(4) [of g] by (auto simp: s' holds_def)
    have a6: "swap_ok (swp s') (swap_map s')" using w by (simp add: same sm)
    have a7: "j \<in> bm_used (swap_map s')" if "j \<in> bm_used (swap_map s)" for j using used that sm by auto
    have a8: "slot_byte (swp s') (8 * j) i = slot_byte (swp s) (8 * j) i" if "j \<in> bm_used (swap_map s)" "i < PGSIZE" for j i using slots [OF that] by (simp add: same)
    have a9: "supp s' u = Some ?x" by (simp add: s')
    have b1: "entry_ok D s' ?x" using vm_okD(2) [OF ok x] by (simp add: entry_ok_def same)
    have b2: "sector_t ?x \<noteq> BLOCK_SECTOR_T_ERROR \<Longrightarrow> \<not> resident s' ?x \<and> (\<exists>k\<in>bm_used (swap_map s'). sector_t ?x = 8 * k \<and> (\<forall>e y. e \<noteq> u \<longrightarrow> supp s e = Some y \<longrightarrow> sector_t y \<noteq> 8 * k))"
      using sec fresh nr sm by fastforce
    have a0: "origin s' y i = origin s y i" for y i by (simp add: cs)
    have b3: "sector_t ?x = BLOCK_SECTOR_T_ERROR" if "se_fd ?x \<noteq> - 1" "PAL_DONT_SYNC_ON_DISK \<notin> se_flags ?x" using t that by auto
    note R = one_entry [OF ok a0 a1 others a2 a3 mem hh a4 a5 a6 a7 a8 x a9]
    show ?thesis
    proof (intro conjI allI impI)
      show "vm_ok D s'" by (rule R(1)) (use b1 b2 b3 hu nr in simp_all)
      show "content s' y i = content s y i" if "e \<noteq> u" "supp s e = Some y" "i < PGSIZE" for e y i by (rule R(2)) (use b1 b2 b3 hu nr that in simp_all)
      show "resident s' y = resident s y" if "e \<noteq> u" "supp s e = Some y" for e y by (rule R(3)) (use b1 b2 b3 hu nr that in simp_all)
    qed
  qed
  then show "vm_ok D s'" "\<And>e y i. e \<noteq> u \<Longrightarrow> supp s e = Some y \<Longrightarrow> i < PGSIZE \<Longrightarrow> content s' y i = content s y i" "\<And>e y. e \<noteq> u \<Longrightarrow> supp s e = Some y \<Longrightarrow> resident s' y = resident s y" by blast+
  have c: "content s' ?x i = content s x i" if "i < PGSIZE" for i
    using t that nr P(3) ne by (auto simp: content_def same cs)
  show "\<exists>t. supp s' u = Some (x\<lparr>sector_t := t, se_lock := None\<rparr>) \<and> \<not> resident s' (x\<lparr>sector_t := t, se_lock := None\<rparr>)
       \<and> (\<forall>i<PGSIZE. content s' (x\<lparr>sector_t := t, se_lock := None\<rparr>) i = content s x i)"
    using nr c by (intro exI [of _ t]) (simp add: s')
  show "f \<notin> bm_used (used_map (upool s'))" "f < bit_cnt (used_map (upool s'))" using usedQ fs F(3) Q by (auto simp: up repooled_def bm_used_def)
  show "pdirs s' = pdirs s" by (rule same(2))
  show "\<And>e. e \<noteq> u \<Longrightarrow> supp s' e = supp s e" by (rule others)
  show "kernel_pool (phys (mm s')) = kernel_pool (phys (mm s))" "\<And>p. p \<in> D \<Longrightarrow> tables (mm s') p = tables (mm s) p" using S(10,11) by (simp_all add: same)
  show "calls s' = calls s" "supp_pagedir s' = supp_pagedir s" by (rule cs)+
qed

text \<open>Every entry keeps its page: \<open>s'\<close> has the entries of \<open>s\<close>, in other places.\<close>

definition pages_kept :: "vm \<Rightarrow> vm \<Rightarrow> bool" where
  "pages_kept s s' \<longleftrightarrow> pdirs s' = pdirs s \<and> supp_pagedir s' = supp_pagedir s \<and> (\<forall>e. supp s e = None \<longrightarrow> supp s' e = None)
     \<and> (\<forall>e x. supp s e = Some x \<longrightarrow> (\<exists>t. supp s' e = Some (x\<lparr>sector_t := t\<rparr>) \<and> (\<forall>i<PGSIZE. content s' (x\<lparr>sector_t := t\<rparr>) i = content s x i)))"

lemma pages_keptD:
  assumes "pages_kept s s'" "supp s e = Some x"
  obtains t where "supp s' e = Some (x\<lparr>sector_t := t\<rparr>)" "\<And>i. i < PGSIZE \<Longrightarrow> content s' (x\<lparr>sector_t := t\<rparr>) i = content s x i"
  using assms unfolding pages_kept_def by blast

lemma same_sector [simp]: "x\<lparr>sector_t := sector_t x\<rparr> = x" for x :: supp_pagedir_entry
  by (cases x) simp

lemma pages_kept_refl: "pages_kept s s"
  unfolding pages_kept_def
proof (intro conjI allI impI)
  fix e x assume "supp s e = Some x"
  then show "\<exists>t. supp s e = Some (x\<lparr>sector_t := t\<rparr>) \<and> (\<forall>i<PGSIZE. content s (x\<lparr>sector_t := t\<rparr>) i = content s x i)" by (intro exI [of _ "sector_t x"]) simp
qed simp_all

lemma pages_kept_trans:
  assumes a: "pages_kept s1 s2" and b: "pages_kept s2 s3"
  shows "pages_kept s1 s3"
  unfolding pages_kept_def
proof (intro conjI allI impI)
  fix e x assume "supp s1 e = Some x"
  then obtain t where t: "supp s2 e = Some (x\<lparr>sector_t := t\<rparr>)" "\<And>i. i < PGSIZE \<Longrightarrow> content s2 (x\<lparr>sector_t := t\<rparr>) i = content s1 x i" using pages_keptD [OF a] by blast
  obtain t' where t': "supp s3 e = Some (x\<lparr>sector_t := t, sector_t := t'\<rparr>)" "\<And>i. i < PGSIZE \<Longrightarrow> content s3 (x\<lparr>sector_t := t, sector_t := t'\<rparr>) i = content s2 (x\<lparr>sector_t := t\<rparr>) i"
    using pages_keptD [OF b t(1)] by blast
  show "\<exists>t. supp s3 e = Some (x\<lparr>sector_t := t\<rparr>) \<and> (\<forall>i<PGSIZE. content s3 (x\<lparr>sector_t := t\<rparr>) i = content s1 x i)"
    using t t' by (intro exI [of _ t']) simp
qed (use a b in \<open>simp_all add: pages_kept_def\<close>)

lemma second_chance_ok:
  assumes ok: "vm_ok D s" and dis: "discards discard" and el: "\<exists>f\<in>set (ordered_list s). eligible s f" and lock: "\<And>e x. supp s e = Some x \<Longrightarrow> resident s x \<Longrightarrow> se_lock x \<noteq> Some me"
    and pme: "pdirs s me \<in> D" and room: "bm_used (swap_map s) \<noteq> {..<bit_cnt (swap_map s)}"
  shows "\<exists>s'. second_chance_with discard me s = Some s' \<and> vm_ok D s' \<and> pages_kept s s' \<and> (\<forall>e x. supp s e = Some x \<longrightarrow> \<not> resident s x \<longrightarrow> supp s' e = Some x \<and> \<not> resident s' x)
    \<and> (\<exists>f<bit_cnt (used_map (upool s')). f \<notin> bm_used (used_map (upool s'))) \<and> kernel_pool (phys (mm s')) = kernel_pool (phys (mm s)) \<and> (\<forall>p\<in>D. tables (mm s') p = tables (mm s) p)
    \<and> calls s' = calls s"
proof -
  obtain f u x m l where fv: "find_victim me s = Some (f, s\<lparr>mm := m, ordered_list := l, supp := (supp s)(u \<mapsto> x\<lparr>se_lock := Some me\<rparr>)\<rparr>)"
      "holds s f u" "supp s u = Some x" "se_lock x = None" "same_view D (mm s) m" "distinct l" "set l = set (ordered_list s)"
    using find_victim_ok [OF ok el, of me] lock by blast
  let ?s1 = "s\<lparr>mm := m, ordered_list := l, supp := (supp s)(u \<mapsto> x\<lparr>se_lock := Some me\<rparr>)\<rparr>"
  let ?x1 = "x\<lparr>se_lock := Some me\<rparr>"
  have sv: "same_vm D s ?s1"
  proof -
    have "supp ?s1 = (\<lambda>e. map_option (\<lambda>x. x\<lparr>se_lock := if e = u then Some me else se_lock (the (supp s e))\<rparr>) (supp s e))"
      using fv(3) by (auto simp: fun_eq_iff map_option_case split: option.splits)
    then have "\<exists>l. supp ?s1 = (\<lambda>e. map_option (\<lambda>x. x\<lparr>se_lock := l e\<rparr>) (supp s e))" by (rule exI [of _ "\<lambda>e. if e = u then Some me else se_lock (the (supp s e))"])
    then show ?thesis using fv(5,6,7) unfolding same_vm_def by simp
  qed
  have ok1: "vm_ok D ?s1" by (rule same_vm_ok [OF ok sv])
  have h1: "holds ?s1 g e = holds s g e" for g e by (rule holds_other) (simp_all add: fv(7))
  have x1: "supp ?s1 u = Some ?x1" by simp
  have hu: "holds ?s1 f u" using h1 fv(2) by simp
  have sm1: "swap_map ?s1 = swap_map s" by (simp add: swap_map_def)
  obtain s' where s': "second_chance_with discard me s = Some s'" "evicted D me ?s1 f u ?x1 s'"
    using evict_runs [OF ok1 dis fv(1) hu x1] pme room sm1 by auto
  note R = evicted_ok [OF ok1 hu x1 s'(2)] and V = same_vm_entry [OF ok sv] and M = same_viewD [OF fv(5)]
  have mm1: "mm ?s1 = m" by simp
  have unlocked: "x\<lparr>se_lock := Some me, sector_t := t, se_lock := None\<rparr> = x\<lparr>sector_t := t\<rparr>" for t using fv(4) by (cases x) simp
  have kept: "\<exists>t. supp s' e = Some (y\<lparr>sector_t := t\<rparr>) \<and> (\<forall>i<PGSIZE. content s' (y\<lparr>sector_t := t\<rparr>) i = content s y i)" if y: "supp s e = Some y" for e y
  proof (cases "e = u")
    case True
    then have "y = x" using y fv(3) by simp
    then show ?thesis using R(4) V(4) [OF fv(3)] True unfolding unlocked by auto
  next
    case False
    then have "supp ?s1 e = Some y" using y by simp
    then show ?thesis using R(2) [OF False] R(7) [OF False] V(4) [OF y] by (intro exI [of _ "sector_t y"]) simp
  qed
  have none: "supp s' e = None" if "supp s e = None" for e using R(7) [of e] that fv(3) by (cases "e = u") auto
  have "pages_kept s s'" unfolding pages_kept_def
  proof (intro conjI allI impI)
    show "pdirs s' = pdirs s" "supp_pagedir s' = supp_pagedir s" using R(6,12) by simp_all
  qed (use kept none in blast)+
  moreover have "supp s' e = Some y \<and> \<not> resident s' y" if y: "supp s e = Some y" "\<not> resident s y" for e y
  proof -
    have "e \<noteq> u" using y holds_facts [OF ok fv(2)] by (metis option.inject)
    moreover from this have "supp ?s1 e = Some y" using y by simp
    ultimately show ?thesis using R(7) R(3) V(1) [OF y(1)] y(2) by auto
  qed
  moreover have "kernel_pool (phys (mm s')) = kernel_pool (phys (mm s))" using R(9) M(9) by simp
  moreover have "\<forall>p\<in>D. tables (mm s') p = tables (mm s) p" using R(10) M(10) by simp
  moreover have "calls s' = calls s" using R(11) by simp
  ultimately show ?thesis using s'(1) R(1,5,8) by blast
qed

section \<open>Bringing a page in\<close>

text \<open>A free frame, after at most one eviction.\<close>

definition can_evict :: "vm \<Rightarrow> bool" where
  "can_evict s \<longleftrightarrow> (\<exists>f\<in>set (ordered_list s). eligible s f) \<and> bm_used (swap_map s) \<noteq> {..<bit_cnt (swap_map s)}"

lemma get_page_ok:
  assumes ok: "vm_ok D s" and dis: "discards discard" and x: "supp s e = Some x" "\<not> resident s x" and lock: "\<And>e x. supp s e = Some x \<Longrightarrow> resident s x \<Longrightarrow> se_lock x \<noteq> Some me"
    and pme: "pdirs s me \<in> D" and room: "bm_used (used_map (upool s)) \<noteq> {..<bit_cnt (used_map (upool s))} \<or> can_evict s"
  defines "flags \<equiv> insert PAL_THROUGH_FRAME (se_flags x)"
  shows "\<exists>s1 f P. get_page_loop (second_chance_with discard me) flags s = Some (page_at (upool s1) f, s1\<lparr>mm := (mm s1)\<lparr>phys := P\<rparr>\<rparr>)
    \<and> (bm_used (used_map (upool s)) \<noteq> {..<bit_cnt (used_map (upool s))} \<longrightarrow> s1 = s) \<and> vm_ok D s1 \<and> pages_kept s s1 \<and> supp s1 e = Some x \<and> \<not> resident s1 x \<and> kernel_pool (phys (mm s1)) = kernel_pool (phys (mm s)) \<and> (\<forall>p\<in>D. tables (mm s1) p = tables (mm s) p) \<and> calls s1 = calls s
    \<and> f < bit_cnt (used_map (upool s1)) \<and> f \<notin> bm_used (used_map (upool s1)) \<and> repooled (upool s1) (insert f (bm_used (used_map (upool s1)))) (user_pool P)
    \<and> mm_step D (mm s1) (active (mm s1)) (user_pool P) (pte_at (mm s1)) (kentry (mm s1)) (\<lambda>a. if a \<in> span (page_at (upool s1) f) PGSIZE then 0 else ram (phys (mm s1)) a) ((mm s1)\<lparr>phys := P\<rparr>)"
proof -
  note E = entry_okD [OF vm_okD(2) [OF ok x(1)]]
  have fl: "PAL_USER \<in> flags" "PAL_THROUGH_FRAME \<in> flags" "PAL_ASSERT \<notin> flags" "PAL_ZERO \<in> flags" using E by (simp_all add: flags_def)
  have direct: "\<exists>f P. get_page_loop (second_chance_with discard me) flags s1 = Some (page_at (upool s1) f, s1\<lparr>mm := (mm s1)\<lparr>phys := P\<rparr>\<rparr>)
      \<and> f < bit_cnt (used_map (upool s1)) \<and> f \<notin> bm_used (used_map (upool s1)) \<and> repooled (upool s1) (insert f (bm_used (used_map (upool s1)))) (user_pool P)
      \<and> mm_step D (mm s1) (active (mm s1)) (user_pool P) (pte_at (mm s1)) (kentry (mm s1)) (\<lambda>a. if a \<in> span (page_at (upool s1) f) PGSIZE then 0 else ram (phys (mm s1)) a) ((mm s1)\<lparr>phys := P\<rparr>)"
    if ok1: "vm_ok D s1" and nf: "bm_used (used_map (upool s1)) \<noteq> {..<bit_cnt (used_map (upool s1))}" for s1
  proof (cases rule: get_user_page [OF vm_okD(1) [OF ok1] fl(1-3), folded upool_def])
    case 1
    then show ?thesis using nf by simp
  next
    case (2 f P)
    then have "get_page_loop (second_chance_with discard me) flags s1 = Some (page_at (upool s1) f, s1\<lparr>mm := (mm s1)\<lparr>phys := P\<rparr>\<rparr>)"
      using frame_address(7) [OF ok1 2(2)] by (simp add: get_page_loop.simps [of _ _ s1])
    then show ?thesis using 2 fl(4) by (intro exI [of _ f] exI [of _ P]) simp
  qed
  show ?thesis
  proof (cases "bm_used (used_map (upool s)) = {..<bit_cnt (used_map (upool s))}")
    case False
    show ?thesis using direct [OF ok False] ok x pages_kept_refl [of s] by (intro exI [of _ s]) blast
  next
    case True
    obtain s1 where s1: "second_chance_with discard me s = Some s1" "vm_ok D s1" "pages_kept s s1" "\<forall>e x. supp s e = Some x \<longrightarrow> \<not> resident s x \<longrightarrow> supp s1 e = Some x \<and> \<not> resident s1 x"
      "\<exists>f<bit_cnt (used_map (upool s1)). f \<notin> bm_used (used_map (upool s1))" "kernel_pool (phys (mm s1)) = kernel_pool (phys (mm s))" "\<forall>p\<in>D. tables (mm s1) p = tables (mm s) p" "calls s1 = calls s"
      using second_chance_ok [OF ok dis _ _ pme] lock room True unfolding can_evict_def by blast
    have "palloc_get_page flags (phys (mm s)) = Some (0, phys (mm s))"
      by (cases rule: get_user_page [OF vm_okD(1) [OF ok] fl(1-3), folded upool_def]) (use True in auto)
    then have run: "get_page_loop (second_chance_with discard me) flags s = get_page_loop (second_chance_with discard me) flags s1"
      using s1(1) by (simp add: get_page_loop.simps [of _ _ s])
    have nf: "bm_used (used_map (upool s1)) \<noteq> {..<bit_cnt (used_map (upool s1))}" using s1(5) by auto
    show ?thesis using direct [OF s1(2) nf] s1(2,3,6,7,8) s1(4) [rule_format, OF x] True unfolding run by (intro exI [of _ s1]) blast
  qed
qed

lemma get_frame_ok:
  assumes ok: "vm_ok D s" and dis: "discards discard" and x: "supp s e = Some x" "\<not> resident s x" "se_lock x = Some me" and lock: "\<forall>e x. supp s e = Some x \<longrightarrow> resident s x \<longrightarrow> se_lock x \<noteq> Some me"
    and pme: "pdirs s me \<in> D" and room: "bm_used (used_map (upool s)) \<noteq> {..<bit_cnt (used_map (upool s))} \<or> can_evict s"
  obtains s1 f P m where "frame_get_page_with (second_chance_with discard me) me (se_flags x) e s
      = Some (page_at (upool s1) f, s1\<lparr>mm := m, frames := (frames s1)(f := \<lparr>fr_user = Some e, prohibit_cache = PAL_PROHIBIT_CACHE \<in> se_flags x\<rparr>), ordered_list := ordered_list s1 @ [f]\<rparr>)"
    "vm_ok D s1" "pages_kept s s1" "supp s1 e = Some x" "\<not> resident s1 x" "kernel_pool (phys (mm s1)) = kernel_pool (phys (mm s))" "\<And>p. p \<in> D \<Longrightarrow> tables (mm s1) p = tables (mm s) p"
    "f < bit_cnt (used_map (upool s1))" "f \<notin> bm_used (used_map (upool s1))" "repooled (upool s1) (insert f (bm_used (used_map (upool s1)))) P"
    "mm_step D (mm s1) (active (mm s1)) P (pte_at (mm s1)) ((kentry (mm s1))(kidx (page_at (upool s1) f) := (kentry (mm s1) (kidx (page_at (upool s1) f)) AND NOT PTE_A) AND NOT PTE_D))
       (\<lambda>a. if a \<in> span (page_at (upool s1) f) PGSIZE then 0 else ram (phys (mm s1)) a) m"
    "bm_used (used_map (upool s)) \<noteq> {..<bit_cnt (used_map (upool s))} \<longrightarrow> s1 = s" "calls s1 = calls s"
proof -
  note E = entry_okD [OF vm_okD(2) [OF ok x(1)]]
  obtain s1 f Q where g: "get_page_loop (second_chance_with discard me) (insert PAL_THROUGH_FRAME (se_flags x)) s = Some (page_at (upool s1) f, s1\<lparr>mm := (mm s1)\<lparr>phys := Q\<rparr>\<rparr>)"
      "vm_ok D s1" "pages_kept s s1" "supp s1 e = Some x" "\<not> resident s1 x" "kernel_pool (phys (mm s1)) = kernel_pool (phys (mm s))" "\<forall>p\<in>D. tables (mm s1) p = tables (mm s) p"
      "f < bit_cnt (used_map (upool s1))" "f \<notin> bm_used (used_map (upool s1))" "repooled (upool s1) (insert f (bm_used (used_map (upool s1)))) (user_pool Q)"
      "mm_step D (mm s1) (active (mm s1)) (user_pool Q) (pte_at (mm s1)) (kentry (mm s1)) (\<lambda>a. if a \<in> span (page_at (upool s1) f) PGSIZE then 0 else ram (phys (mm s1)) a) ((mm s1)\<lparr>phys := Q\<rparr>)"
      "bm_used (used_map (upool s)) \<noteq> {..<bit_cnt (used_map (upool s))} \<longrightarrow> s1 = s" "calls s1 = calls s"
    using get_page_ok [OF ok dis x(1,2) _ pme room] lock by blast
  let ?a = "page_at (upool s1) f" and ?m = "(mm s1)\<lparr>phys := Q\<rparr>"
  let ?j = "kidx ?a"
  note S = mm_stepD [OF g(11)] and A = frame_address [OF g(2,8)] and X = entry_okD [OF vm_okD(2) [OF g(2,4)]]
  have pd: "pdirs s1 (se_thread x) \<in> insert (init_page_dir ?m) D" using X(9) by simp
  have A5: "?a < PHYS_BASE + PGSIZE * init_ram_pages ?m" using A(5) by simp
  obtain m1 where m1: "pagedir_set_accessed (pdirs s1 (se_thread x)) ?a False ?m = Some m1"
      "mm_step D ?m (active ?m) (user_pool (phys ?m)) (pte_at ?m) ((kentry ?m)(?j := kentry ?m ?j AND NOT PTE_A)) (ram (phys ?m)) m1"
    using kernel_flag_ops(4) [OF S(1) pd A(4) A5] unfolding kidx_def by blast
  have T1: "mm_step D (mm s1) (active (mm s1)) (user_pool Q) (pte_at (mm s1)) ((kentry (mm s1))(?j := kentry (mm s1) ?j AND NOT PTE_A)) (\<lambda>a. if a \<in> span ?a PGSIZE then 0 else ram (phys (mm s1)) a) m1"
    by (rule mm_step_trans [OF g(11)], rule mm_step_cong [OF m1(2) [unfolded S(2,6)]]) (use S A(6) in \<open>auto simp: S(8,9)\<close>)
  note S1 = mm_stepD [OF T1]
  have pd1: "pdirs s1 (se_thread x) \<in> insert (init_page_dir m1) D" using X(9) by simp
  have A51: "?a < PHYS_BASE + PGSIZE * init_ram_pages m1" using A(5) S1(5) by simp
  obtain m2 where m2: "pagedir_set_dirty (pdirs s1 (se_thread x)) ?a False m1 = Some m2"
      "mm_step D m1 (active m1) (user_pool (phys m1)) (pte_at m1) ((kentry m1)(?j := kentry m1 ?j AND NOT PTE_D)) (ram (phys m1)) m2"
    using kernel_flag_ops(3) [OF S1(1) pd1 A(4) A51] unfolding kidx_def by blast
  have T2: "mm_step D (mm s1) (active (mm s1)) (user_pool Q) (pte_at (mm s1)) ((kentry (mm s1))(?j := (kentry (mm s1) ?j AND NOT PTE_A) AND NOT PTE_D)) (\<lambda>a. if a \<in> span ?a PGSIZE then 0 else ram (phys (mm s1)) a) m2"
    by (rule mm_step_trans [OF T1], rule mm_step_cong [OF m2(2) [unfolded S1(2,6)]]) (use S1 A(6) in \<open>auto simp: S1(8,9)\<close>)
  have po: "pool_ok (user_pool Q)" using kvmD(4) [OF S(1)] by (simp add: palloc_ok_def)
  have R: "pool_base (user_pool Q) = pool_base (upool s1)" "bit_cnt (used_map (user_pool Q)) = bit_cnt (used_map (upool s1))" using g(10) by (simp_all add: repooled_def)
  have idx: "palloc_page_to_idx (insert PAL_THROUGH_FRAME (se_flags x)) ?a Q = Some f"
    using palloc_page_to_idx_ok [of "insert PAL_THROUGH_FRAME (se_flags x)" Q f] po g(8) R E(3) page_at_base [OF R(1), of f] by (simp add: pool_of_def)
  have nf: "f < num_of_frames s1" using g(8) frames_okD(1) [OF vm_okD(4) [OF g(2)]] by simp
  have "frame_get_page_with (second_chance_with discard me) me (se_flags x) e s
      = Some (?a, s1\<lparr>mm := m2, frames := (frames s1)(f := \<lparr>fr_user = Some e, prohibit_cache = PAL_PROHIBIT_CACHE \<in> se_flags x\<rparr>), ordered_list := ordered_list s1 @ [f]\<rparr>)"
    using x(1,3) E(3,4) g(1,4) idx nf m1(1) m2(1)
    by (simp add: frame_get_page_with_def frame_init_single_def frame_get_frame_def on_mm_def)
  then show thesis by (rule that [OF _ g(2-6) _ g(8-10) T2 g(12,13)]) (use g(7) in blast)
qed

text \<open>The new mapping, and the page read from the swap device.\<close>

definition mapped_in :: "nat set \<Rightarrow> vm \<Rightarrow> supp_pagedir_entry \<Rightarrow> nat \<Rightarrow> pool \<Rightarrow> mmu \<Rightarrow> bool" where
  "mapped_in D s x a P m \<longleftrightarrow> kvm D m \<and> user_pool (phys m) = P \<and> init_ram_pages m = init_ram_pages (mm s) \<and> user_range m = user_range (mm s)
     \<and> (\<forall>p\<in>D. \<forall>n<USER_PAGES. \<not> (p = pdirs s (se_thread x) \<and> n = pg_no (upage x)) \<longrightarrow> pte_at m p n = pte_at (mm s) p n)
     \<and> bit (pte_at m (pdirs s (se_thread x)) (pg_no (upage x))) 0 \<and> PHYS_BASE + unat (pte_at m (pdirs s (se_thread x)) (pg_no (upage x)) AND PTE_ADDR) = a
     \<and> bit (pte_at m (pdirs s (se_thread x)) (pg_no (upage x))) 1 = (PAL_READONLY \<notin> se_flags x) \<and> bit (pte_at m (pdirs s (se_thread x)) (pg_no (upage x))) 2
     \<and> (\<forall>j<init_ram_pages (mm s). j \<noteq> kidx a \<longrightarrow> kentry m j = kentry (mm s) j)
     \<and> (\<forall>b\<in>user_range (mm s). b \<notin> span a PGSIZE \<longrightarrow> ram (phys m) b = ram (phys (mm s)) b)"

lemma mapped_inD:
  assumes "mapped_in D s x a P m"
  shows "kvm D m" "user_pool (phys m) = P" "init_ram_pages m = init_ram_pages (mm s)" "user_range m = user_range (mm s)"
    "p \<in> D \<Longrightarrow> n < USER_PAGES \<Longrightarrow> \<not> (p = pdirs s (se_thread x) \<and> n = pg_no (upage x)) \<Longrightarrow> pte_at m p n = pte_at (mm s) p n"
    "bit (pte_at m (pdirs s (se_thread x)) (pg_no (upage x))) 0" "PHYS_BASE + unat (pte_at m (pdirs s (se_thread x)) (pg_no (upage x)) AND PTE_ADDR) = a"
    "j < init_ram_pages (mm s) \<Longrightarrow> j \<noteq> kidx a \<Longrightarrow> kentry m j = kentry (mm s) j"
    "b \<in> user_range (mm s) \<Longrightarrow> b \<notin> span a PGSIZE \<Longrightarrow> ram (phys m) b = ram (phys (mm s)) b"
    "bit (pte_at m (pdirs s (se_thread x)) (pg_no (upage x))) 1 = (PAL_READONLY \<notin> se_flags x)" "bit (pte_at m (pdirs s (se_thread x)) (pg_no (upage x))) 2"
proof -
  have q: "\<forall>p\<in>D. \<forall>n<USER_PAGES. \<not> (p = pdirs s (se_thread x) \<and> n = pg_no (upage x)) \<longrightarrow> pte_at m p n = pte_at (mm s) p n"
    "\<forall>j<init_ram_pages (mm s). j \<noteq> kidx a \<longrightarrow> kentry m j = kentry (mm s) j" "\<forall>b\<in>user_range (mm s). b \<notin> span a PGSIZE \<longrightarrow> ram (phys m) b = ram (phys (mm s)) b"
    using assms unfolding mapped_in_def by simp_all
  show "kvm D m" "user_pool (phys m) = P" "init_ram_pages m = init_ram_pages (mm s)" "user_range m = user_range (mm s)"
    "bit (pte_at m (pdirs s (se_thread x)) (pg_no (upage x))) 0" "PHYS_BASE + unat (pte_at m (pdirs s (se_thread x)) (pg_no (upage x)) AND PTE_ADDR) = a"
    "bit (pte_at m (pdirs s (se_thread x)) (pg_no (upage x))) 1 = (PAL_READONLY \<notin> se_flags x)" "bit (pte_at m (pdirs s (se_thread x)) (pg_no (upage x))) 2"
    using assms unfolding mapped_in_def by simp_all
  show "p \<in> D \<Longrightarrow> n < USER_PAGES \<Longrightarrow> \<not> (p = pdirs s (se_thread x) \<and> n = pg_no (upage x)) \<Longrightarrow> pte_at m p n = pte_at (mm s) p n" using q(1) by blast
  show "j < init_ram_pages (mm s) \<Longrightarrow> j \<noteq> kidx a \<Longrightarrow> kentry m j = kentry (mm s) j" using q(2) by blast
  show "b \<in> user_range (mm s) \<Longrightarrow> b \<notin> span a PGSIZE \<Longrightarrow> ram (phys m) b = ram (phys (mm s)) b" using q(3) by blast
qed

lemma map_in_ok:
  assumes ok: "vm_ok D s" and x: "supp s e = Some x" "\<not> resident s x" and f: "f < bit_cnt (used_map (upool s))" "f \<notin> bm_used (used_map (upool s))"
    and R: "repooled (upool s) (insert f (bm_used (used_map (upool s)))) P" and a: "a = page_at (upool s) f"
    and M: "mm_step D (mm s) (active (mm s)) P (pte_at (mm s)) ((kentry (mm s))(kidx a := K)) (\<lambda>b. if b \<in> span a PGSIZE then 0 else ram (phys (mm s)) b) m"
    and room: "pd_no (upage x) \<in> tables (mm s) (pdirs s (se_thread x)) \<or> card (kpages (phys (mm s))) < bit_cnt (used_map (kernel_pool (phys (mm s))))"
  defines "rw \<equiv> PAL_READONLY \<notin> se_flags x"
  obtains m' where "pagedir_set_page (pdirs s (se_thread x)) (upage x) a rw m = Some (True, m')" "mapped_in D s x a P m'" "\<not> bit (pte_at m' (pdirs s (se_thread x)) (pg_no (upage x))) 6"
    "\<And>i. i < PGSIZE \<Longrightarrow> ram (phys m') (a + i) = 0"
proof -
  note E = entry_okD [OF vm_okD(2) [OF ok x(1)]] and A = frame_address [OF ok f(1), folded a] and S = mm_stepD [OF M]
  let ?pd = "pdirs s (se_thread x)" and ?n = "pg_no (upage x)"
  have nb: "\<not> bit (pte_at m ?pd ?n) 0" using x(2) S(8) [of ?pd ?n] E(9,10) by (simp add: resident_def pte_of_def)
  have tb: "pd_no (upage x) \<in> tables m ?pd \<or> card (kpages (phys m)) < bit_cnt (used_map (kernel_pool (phys m)))"
    using room S(11) [of ?pd] S(10) E(9) by (simp add: kpages_def)
  have ra: "(a - PHYS_BASE) div PGSIZE < init_ram_pages m" using A(6) S(5) by (simp add: kidx_def)
  obtain m' w where m': "pagedir_set_page ?pd (upage x) a rw m = Some (True, m')" "pte_create_user a rw = Some w" "kvm D m'" "active m' = active m" "same_user m m'"
    "init_page_dir m' = init_page_dir m" "init_ram_pages m' = init_ram_pages m"
    "\<And>p n. p \<in> insert (init_page_dir m) D \<Longrightarrow> n < USER_PAGES \<Longrightarrow> pte_at m' p n = (if p = ?pd \<and> n = ?n then w else pte_at m p n)"
    "\<And>j. j < init_ram_pages m \<Longrightarrow> kentry m' j = kentry m j" by (rule set_page_step [OF S(1) E(9,6,7) A(2) ra nb tb, where w = rw]) (rule that)
  obtain w' where w': "pte_create_user a rw = Some w'" "bit w' 0" "\<not> bit w' 6" "unat (w' AND PTE_ADDR) = a - PHYS_BASE" "bit w' 1 = rw" "bit w' 2" by (rule pte_create_ok [OF A(2), of rw]) blast
  have W: "bit w 0" "\<not> bit w 6" "unat (w AND PTE_ADDR) = a - PHYS_BASE" "bit w 1 = rw" "bit w 2" using w' m'(2) by simp_all
  have pw: "pte_at m' ?pd ?n = w" using m'(8) [of ?pd ?n] E(9,10) by simp
  have same: "user_pool (phys m') = P" "user_range m' = user_range (mm s)" "\<And>b. b \<in> user_range (mm s) \<Longrightarrow> ram (phys m') b = ram (phys m) b"
    using m'(5) S(2,7) by (simp_all add: same_user_def user_range_def)
  have "mapped_in D s x a P m'" unfolding mapped_in_def
  proof (intro conjI ballI allI impI)
    show "pte_at m' p n = pte_at (mm s) p n" if "p \<in> D" "n < USER_PAGES" "\<not> (p = ?pd \<and> n = ?n)" for p n
      using m'(8) [of p n] S(8) [of p n] that by auto
    show "kentry m' j = kentry (mm s) j" if "j < init_ram_pages (mm s)" "j \<noteq> kidx a" for j using m'(9) [of j] S(9) [of j] S(5) that by simp
    show "ram (phys m') b = ram (phys (mm s)) b" if "b \<in> user_range (mm s)" "b \<notin> span a PGSIZE" for b using same(3) [OF that(1)] S(3) [OF that(1)] that(2) by simp
    show "PHYS_BASE + unat (pte_at m' ?pd ?n AND PTE_ADDR) = a" using W(3) A(4) pw by simp
  qed (use m'(3,7) S(5) same W(1,4,5) pw in \<open>simp_all add: rw_def\<close>)
  moreover have "ram (phys m') (a + i) = 0" if i: "i < PGSIZE" for i
  proof -
    have i': "a + i \<in> span a PGSIZE" using i by (simp add: span_def)
    then have "a + i \<in> user_range (mm s)" using A(3) by blast
    then show ?thesis using same(3) S(3) i' by simp
  qed
  ultimately show thesis using that [OF m'(1)] W(2) pw by blast
qed

text \<open>The page is read from its slot, and the entry of the process is marked as not written to; the kernel's entry stays marked as written.\<close>

lemma load_page_ok:
  assumes ok: "vm_ok D s" and x: "supp s e = Some x" "\<not> resident s x" "sector_t x \<noteq> BLOCK_SECTOR_T_ERROR" and f: "f < bit_cnt (used_map (upool s))" and a: "a = page_at (upool s) f"
    and M: "mapped_in D s x a P m"
  defines "pd \<equiv> pdirs s (se_thread x)"
  obtains m1 m2 m3 w where "swap_read pd (sector_t x) (upage x) m (swp s) = Some (m1, w)" "pagedir_set_accessed pd (upage x) False m1 = Some m2"
    "pagedir_set_dirty pd (upage x) False m2 = Some m3" "mapped_in D s x a P m3" "\<And>i. i < PGSIZE \<Longrightarrow> ram (phys m3) (a + i) = slot_byte (swp s) (sector_t x) i" "bit (kentry m3 (kidx a)) 6"
    "swap_ok w (the (s_map w))" "slot_byte w = slot_byte (swp s)" "\<And>j. j \<in> bm_used (swap_map s) \<Longrightarrow> sector_t x \<noteq> 8 * j \<Longrightarrow> j \<in> bm_used (the (s_map w))"
proof -
  note E = entry_okD [OF vm_okD(2) [OF ok x(1)]] and A = frame_address [OF ok f, folded a] and D = mapped_inD [OF M, folded pd_def]
  note W = swapped_okD [OF vm_okD(5) [OF ok]]
  let ?n = "pg_no (upage x)" and ?e = "pte_at m pd (pg_no (upage x))" and ?j = "kidx a"
  obtain k where k: "k \<in> bm_used (swap_map s)" "sector_t x = 8 * k" using W(3) [OF x(1,3)] by blast
  have pd: "pd \<in> D" "pd \<in> insert (init_page_dir m) D" using E(9) by (simp_all add: pd_def)
  have sp: "span a PGSIZE \<subseteq> user_range m" using A(3) D(4) by simp
  obtain m1 w m' where r: "swap_read pd (8 * k) (upage x) m (swp s) = Some (m1, w)" "swap_ok w m'" "bm_used m' = bm_used (swap_map s) - {k}" "bit_cnt m' = bit_cnt (swap_map s)"
    "slot_byte w = slot_byte (swp s)" "mm_step D m (active m) (user_pool (phys m)) (pte_at m) ((kentry m)(?j := kentry m ?j OR PTE_A OR PTE_D))
       (\<lambda>b. if b \<in> span a PGSIZE then slot_byte (swp s) (8 * k) (b - a) else ram (phys m) b) m1"
    by (rule swap_read_ok [OF D(1) pd(1) E(6,7,8) D(6) D(7) [symmetric] A(1) sp W(1) k(1), folded kidx_def])
  note S = mm_stepD [OF r(6)]
  have p1: "pte_at m1 pd ?n = ?e" using S(8) [OF pd(2) E(10)] .
  have nz: "pte_at m1 pd ?n \<noteq> 0" using D(6) unfolding p1 by auto
  obtain m2 where m2: "pagedir_set_accessed pd (upage x) False m1 = Some m2"
    "mm_step D m1 (active m1) (user_pool (phys m1)) ((pte_at m1)(pd := (pte_at m1 pd)(?n := pte_at m1 pd ?n AND NOT PTE_A))) (kentry m1) (ram (phys m1)) m2"
    using user_flag_ops(3) [OF S(1) pd(1) E(6) nz] by blast
  note S2 = mm_stepD [OF m2(2)]
  have pd1: "pd \<in> insert (init_page_dir m1) D" using pd(1) by simp
  have p2: "pte_at m2 pd ?n = ?e AND NOT PTE_A" using S2(8) [OF pd1 E(10)] p1 by simp
  have nz2: "pte_at m2 pd ?n \<noteq> 0"
  proof
    assume z: "pte_at m2 pd ?n = 0"
    have "bit (pte_at m2 pd ?n) 0" using D(6) unfolding p2 by simp
    then show False using z by simp
  qed
  obtain m3 where m3: "pagedir_set_dirty pd (upage x) False m2 = Some m3"
    "mm_step D m2 (active m2) (user_pool (phys m2)) ((pte_at m2)(pd := (pte_at m2 pd)(?n := pte_at m2 pd ?n AND NOT PTE_D))) (kentry m2) (ram (phys m2)) m3"
    using user_flag_ops(2) [OF S2(1) pd(1) E(6) nz2] by blast
  note S3 = mm_stepD [OF m3(2)]
  have pte: "pte_at m3 p n = (if p = pd \<and> n = ?n then (?e AND NOT PTE_A) AND NOT PTE_D else pte_at m p n)" if h: "p \<in> D" "n < USER_PAGES" for p n
  proof (cases "p = pd \<and> n = ?n")
    case True
    then show ?thesis using S3(8) [of pd ?n] p2 pd(1) E(10) by simp
  next
    case False
    then have "pte_at m3 p n = pte_at m2 p n" "pte_at m2 p n = pte_at m1 p n" "pte_at m1 p n = pte_at m p n"
      using S3(8) [of p n] S2(8) [of p n] S(8) [of p n] h by auto
    then show ?thesis using False by (simp only: if_False)
  qed
  have ke: "kentry m3 j = ((kentry m)(?j := kentry m ?j OR PTE_A OR PTE_D)) j" if "j < init_ram_pages m" for j
    using S3(9) [of j] S2(9) [of j] S(9) [of j] S(5) S2(5) that by simp
  have mem: "ram (phys m3) b = (if b \<in> span a PGSIZE then slot_byte (swp s) (8 * k) (b - a) else ram (phys m) b)" if "b \<in> user_range m" for b
    using S3(3) [of b] S2(3) [of b] S(3) [of b] S(7) S2(7) that by simp
  have e: "bit ((?e AND NOT PTE_A) AND NOT PTE_D) 0" "((?e AND NOT PTE_A) AND NOT PTE_D) AND PTE_ADDR = ?e AND PTE_ADDR"
    "bit ((?e AND NOT PTE_A) AND NOT PTE_D) 1 = (PAL_READONLY \<notin> se_flags x)" "bit ((?e AND NOT PTE_A) AND NOT PTE_D) 2" using D(6,10,11) by (auto intro: address_bits)
  have c1: "mapped_in D s x a P m3" unfolding mapped_in_def pd_def [symmetric]
  proof (intro conjI ballI allI impI)
    show "pte_at m3 p n = pte_at (mm s) p n" if "p \<in> D" "n < USER_PAGES" "\<not> (p = pd \<and> n = ?n)" for p n using pte [OF that(1,2)] D(5) [OF that] that(3) by auto
    show "kentry m3 j = kentry (mm s) j" if "j < init_ram_pages (mm s)" "j \<noteq> ?j" for j using ke [of j] D(8) [OF that] D(3) that by simp
    show "ram (phys m3) b = ram (phys (mm s)) b" if "b \<in> user_range (mm s)" "b \<notin> span a PGSIZE" for b using mem [of b] D(9) [OF that] D(4) that by simp
    show "bit (pte_at m3 pd ?n) 0" "PHYS_BASE + unat (pte_at m3 pd ?n AND PTE_ADDR) = a"
      "bit (pte_at m3 pd ?n) 1 = (PAL_READONLY \<notin> se_flags x)" "bit (pte_at m3 pd ?n) 2" using pte [OF pd(1) E(10)] e D(7) by simp_all
  qed (use S3 S2 S D(2,3,4) in simp_all)
  have c2: "ram (phys m3) (a + i) = slot_byte (swp s) (sector_t x) i" if i: "i < PGSIZE" for i
  proof -
    have i': "a + i \<in> span a PGSIZE" using i by (simp add: span_def)
    then have "a + i \<in> user_range m" using sp by blast
    then show ?thesis using mem i' k(2) by simp
  qed
  have c3: "bit (kentry m3 ?j) 6" using ke [of ?j] A(6) D(3) by (simp add: bit_or_iff)
  have w: "the (s_map w) = m'" using r(2) by (simp add: swap_ok_def)
  have c4: "swap_ok w (the (s_map w))" using r(2) w by simp
  have c5: "j \<in> bm_used (the (s_map w))" if "j \<in> bm_used (swap_map s)" "sector_t x \<noteq> 8 * j" for j using that r(3) w k(2) by simp
  show thesis by (rule that [OF r(1) [folded k(2)] m2(1) m3(1) c1 c2 c3 c4 r(5) c5])
qed

text \<open>A store of the kernel into the page.\<close>

lemma store_in_page:
  assumes M: "mapped_in D s x a P m" and a: "PGSIZE dvd a" "span a PGSIZE \<subseteq> user_range (mm s)" and b: "off + length bs \<le> PGSIZE"
    and th: "pdirs s (se_thread x) \<in> D" "pg_no (upage x) < USER_PAGES"
  shows "\<exists>m'. hw_store (a + off) bs m = Some m' \<and> mapped_in D s x a P m'
    \<and> pte_at m' (pdirs s (se_thread x)) (pg_no (upage x)) = pte_at m (pdirs s (se_thread x)) (pg_no (upage x))
    \<and> (\<forall>i<PGSIZE. ram (phys m') (a + i) = (if off \<le> i \<and> i < off + length bs then bs ! (i - off) else ram (phys m) (a + i)))"
proof (cases "bs = []")
  case True
  then show ?thesis using M by (auto simp: hw_store_def)
next
  case False
  note D = mapped_inD [OF M]
  let ?pd = "pdirs s (se_thread x)" and ?n = "pg_no (upage x)"
  have r: "{a + off..<a + off + length bs} \<subseteq> span a PGSIZE" using b by (auto simp: span_def)
  have act: "active m \<in> insert (init_page_dir m) D" using vm_invD(6) [OF kvmD(1) [OF D(1)]] .
  have "a \<in> span a PGSIZE" by (simp add: span_def PGSIZE_eq)
  then have "PHYS_BASE \<le> a" using user_range_mapped [OF D(1)] a(2) D(4) by blast
  moreover have "PGSIZE dvd a - PHYS_BASE" using a(1) by (intro dvd_diff_nat) (simp_all add: PHYS_BASE_def PGSIZE_eq)
  ultimately obtain q where q: "a = PHYS_BASE + PGSIZE * q" by (metis add.commute dvdE le_add_diff_inverse2)
  have off: "off < PGSIZE" using b False by (cases bs) simp_all
  have j: "(a + off - PHYS_BASE) div PGSIZE = kidx a" using off q by (simp add: kidx_def PGSIZE_eq)
  obtain m' where m': "hw_store (a + off) bs m = Some m'"
      "mm_step D m (active m) (user_pool (phys m)) (pte_at m) ((kentry m)(kidx a := kentry m (kidx a) OR PTE_A OR PTE_D))
         (\<lambda>y. if a + off \<le> y \<and> y < a + off + length bs then bs ! (y - (a + off)) else ram (phys m) y) m'"
    using hw_store_step [OF D(1) act _ False, of "a + off"] r a(2) D(4) unfolding j by blast
  note S = mm_stepD [OF m'(2)]
  have pt: "pte_at m' p n = pte_at m p n" if "p \<in> D" "n < USER_PAGES" for p n using S(8) [of p n] that by simp
  have mem: "ram (phys m') (a + i) = (if off \<le> i \<and> i < off + length bs then bs ! (i - off) else ram (phys m) (a + i))" if i: "i < PGSIZE" for i
  proof -
    have "a + i \<in> span a PGSIZE" using i by (simp add: span_def)
    then have "a + i \<in> user_range m" using a(2) D(4) by blast
    then show ?thesis using S(3) by simp
  qed
  have "mapped_in D s x a P m'" unfolding mapped_in_def
  proof (intro conjI ballI allI impI)
    show "pte_at m' p n = pte_at (mm s) p n" if "p \<in> D" "n < USER_PAGES" "\<not> (p = ?pd \<and> n = ?n)" for p n using pt that D(5) by simp
    show "kentry m' i = kentry (mm s) i" if "i < init_ram_pages (mm s)" "i \<noteq> kidx a" for i using S(9) [of i] D(3,8) that by simp
    show "ram (phys m') y = ram (phys (mm s)) y" if "y \<in> user_range (mm s)" "y \<notin> span a PGSIZE" for y
      using S(3) [of y] r that D(4) D(9) [OF that] by (auto simp: subset_iff)
  qed (use S D pt [OF th] in simp_all)
  then show ?thesis using m'(1) pt [OF th] mem by blast
qed

text \<open>The page is read from its file, through the mapping of the kernel, which marks the kernel's entry; the mark is removed.\<close>

lemma load_file_ok:
  assumes ok: "vm_ok D s" and x: "supp s e = Some x" and f: "f < bit_cnt (used_map (upool s))" and a: "a = page_at (upool s) f"
    and M: "mapped_in D s x a P m" and zero: "\<And>i. i < PGSIZE \<Longrightarrow> ram (phys m) (a + i) = 0" and r: "length bs \<le> r" "r \<le> PGSIZE"
    and nd: "\<not> bit (pte_at m (pdirs s (se_thread x)) (pg_no (upage x))) 6"
  defines "pd \<equiv> pdirs s (se_thread x)"
  obtains m1 m2 m3 m4 where "hw_store a bs m = Some m1" "hw_store (a + r) (replicate (PGSIZE - r) 0) m1 = Some m2" "pagedir_set_accessed pd a False m2 = Some m3"
    "pagedir_set_dirty pd a False m3 = Some m4" "mapped_in D s x a P m4" "\<And>i. i < PGSIZE \<Longrightarrow> ram (phys m4) (a + i) = (if i < length bs then bs ! i else 0)"
    "\<not> bit (pte_at m4 pd (pg_no (upage x))) 6" "\<not> bit (kentry m4 (kidx a)) 6"
proof -
  note E = entry_okD [OF vm_okD(2) [OF ok x(1)]] and A = frame_address [OF ok f, folded a]
  let ?n = "pg_no (upage x)" and ?j = "kidx a"
  have pd: "pd \<in> D" using E(9) by (simp add: pd_def)
  obtain m1 where m1: "hw_store a bs m = Some m1" "mapped_in D s x a P m1" "pte_at m1 pd ?n = pte_at m pd ?n"
      "\<And>i. i < PGSIZE \<Longrightarrow> ram (phys m1) (a + i) = (if i < length bs then bs ! i else ram (phys m) (a + i))"
    using store_in_page [OF M A(1,3) _ E(9,10), of 0 bs] r unfolding pd_def by auto
  obtain m2 where m2: "hw_store (a + r) (replicate (PGSIZE - r) 0) m1 = Some m2" "mapped_in D s x a P m2" "pte_at m2 pd ?n = pte_at m1 pd ?n"
      "\<And>i. i < PGSIZE \<Longrightarrow> ram (phys m2) (a + i) = (if r \<le> i \<and> i < r + (PGSIZE - r) then replicate (PGSIZE - r) 0 ! (i - r) else ram (phys m1) (a + i))"
    using store_in_page [OF m1(2) A(1,3) _ E(9,10), of r "replicate (PGSIZE - r) 0"] r unfolding pd_def by auto
  note D2 = mapped_inD [OF m2(2), folded pd_def]
  have in2: "pd \<in> insert (init_page_dir m2) D" "a < PHYS_BASE + PGSIZE * init_ram_pages m2" using pd A(5) D2(3) by simp_all
  obtain m3 where m3: "pagedir_set_accessed pd a False m2 = Some m3"
      "mm_step D m2 (active m2) (user_pool (phys m2)) (pte_at m2) ((kentry m2)(?j := kentry m2 ?j AND NOT PTE_A)) (ram (phys m2)) m3"
    using kernel_flag_ops(4) [OF D2(1) in2(1) A(4) in2(2)] unfolding kidx_def by blast
  note S3 = mm_stepD [OF m3(2)]
  have in3: "pd \<in> insert (init_page_dir m3) D" "a < PHYS_BASE + PGSIZE * init_ram_pages m3" using pd in2(2) S3(5) by simp_all
  obtain m4 where m4: "pagedir_set_dirty pd a False m3 = Some m4"
      "mm_step D m3 (active m3) (user_pool (phys m3)) (pte_at m3) ((kentry m3)(?j := kentry m3 ?j AND NOT PTE_D)) (ram (phys m3)) m4"
    using kernel_flag_ops(3) [OF S3(1) in3(1) A(4) in3(2)] unfolding kidx_def by blast
  note S4 = mm_stepD [OF m4(2)]
  have pt: "pte_at m4 p n = pte_at m2 p n" if "p \<in> D" "n < USER_PAGES" for p n using S4(8) [of p n] S3(8) [of p n] that by simp
  have mem: "ram (phys m4) y = ram (phys m2) y" if "y \<in> user_range (mm s)" for y using S4(3) [of y] S3(3) [of y] S3(7) D2(4) that by simp
  have ke: "kentry m4 i = (if i = ?j then (kentry m2 i AND NOT PTE_A) AND NOT PTE_D else kentry m2 i)" if "i < init_ram_pages (mm s)" for i
    using S4(9) [of i] S3(9) [of i] S3(5) D2(3) that by (cases "i = ?j") simp_all
  have M4: "mapped_in D s x a P m4" unfolding mapped_in_def pd_def [symmetric]
  proof (intro conjI ballI allI impI)
    show "pte_at m4 p n = pte_at (mm s) p n" if "p \<in> D" "n < USER_PAGES" "\<not> (p = pd \<and> n = ?n)" for p n using pt that D2(5) by simp
    show "kentry m4 i = kentry (mm s) i" if "i < init_ram_pages (mm s)" "i \<noteq> ?j" for i using ke [OF that(1)] that D2(8) by simp
    show "ram (phys m4) y = ram (phys (mm s)) y" if "y \<in> user_range (mm s)" "y \<notin> span a PGSIZE" for y using mem D2(9) that by simp
  qed (use S4 S3 D2 pt [OF pd E(10)] in simp_all)
  have c: "ram (phys m4) (a + i) = (if i < length bs then bs ! i else 0)" if i: "i < PGSIZE" for i
  proof -
    have "a + i \<in> span a PGSIZE" using i by (simp add: span_def)
    then have "a + i \<in> user_range (mm s)" using A(3) by blast
    then show ?thesis using mem m2(4) [OF i] m1(4) [OF i] zero [OF i] i r by auto
  qed
  have "\<not> bit (pte_at m4 pd ?n) 6" using pt [OF pd E(10)] m2(3) m1(3) nd by (simp add: pd_def)
  moreover have "\<not> bit (kentry m4 ?j) 6" using ke [OF A(6)] by simp
  ultimately show thesis using that [OF m1(1) m2(1) m3(1) m4(1) M4 c] by blast
qed

text \<open>What \<open>paging_activate_no_lock\<close> does, after an eviction that led to \<open>s\<close>.\<close>

definition paged_in :: "nat set \<Rightarrow> vm \<Rightarrow> nat \<Rightarrow> supp_pagedir_entry \<Rightarrow> vm \<Rightarrow> bool" where
  "paged_in D s e x s' \<longleftrightarrow> (\<exists>f P m w c. s' = s\<lparr>mm := m, swp := w, supp := (supp s)(e \<mapsto> x\<lparr>sector_t := BLOCK_SECTOR_T_ERROR\<rparr>),
         frames := (frames s)(f := \<lparr>fr_user = Some e, prohibit_cache = PAL_PROHIBIT_CACHE \<in> se_flags x\<rparr>), ordered_list := ordered_list s @ [f], calls := c\<rparr>
     \<and> f < bit_cnt (used_map (upool s)) \<and> f \<notin> bm_used (used_map (upool s)) \<and> repooled (upool s) (insert f (bm_used (used_map (upool s)))) P
     \<and> mapped_in D s x (page_at (upool s) f) P m \<and> (\<forall>i<PGSIZE. ram (phys m) (page_at (upool s) f + i) = content s x i)
     \<and> (bit (kentry m (kidx (page_at (upool s) f))) 6 \<or> (\<forall>i<PGSIZE. ram (phys m) (page_at (upool s) f + i) = origin s x i))
     \<and> (se_fd x \<noteq> - 1 \<longrightarrow> PAL_DONT_SYNC_ON_DISK \<notin> se_flags x \<longrightarrow>
          \<not> bit (pte_at m (pdirs s (se_thread x)) (pg_no (upage x))) 6 \<and> \<not> bit (kentry m (kidx (page_at (upool s) f))) 6)
     \<and> swap_ok w (the (s_map w)) \<and> slot_byte w = slot_byte (swp s) \<and> (sector_t x = BLOCK_SECTOR_T_ERROR \<longrightarrow> w = swp s) \<and> (\<forall>j\<in>bm_used (swap_map s). sector_t x \<noteq> 8 * j \<longrightarrow> j \<in> bm_used (the (s_map w)))
     \<and> same_files (calls s) c)"

text \<open>A page that is not in memory and not on the swap device can be had from its file.\<close>

definition can_load :: "vm \<Rightarrow> supp_pagedir_entry \<Rightarrow> bool" where
  "can_load s x \<longleftrightarrow> (sector_t x = BLOCK_SECTOR_T_ERROR \<longrightarrow> se_fd x \<noteq> - 1 \<longrightarrow> file_ready (calls s) x)"

lemma page_in_runs:
  assumes ok: "vm_ok D s" and dis: "discards discard" and x: "supp s e = Some x" "\<not> resident s x" "se_lock x = Some me" "se_thread x = me" and lock: "\<forall>e x. supp s e = Some x \<longrightarrow> resident s x \<longrightarrow> se_lock x \<noteq> Some me"
    and room: "bm_used (used_map (upool s)) \<noteq> {..<bit_cnt (used_map (upool s))} \<or> can_evict s"
    and tab: "pd_no (upage x) \<in> tables (mm s) (pdirs s me) \<or> card (kpages (phys (mm s))) < bit_cnt (used_map (kernel_pool (phys (mm s))))"
    and load: "can_load s x"
  shows "\<exists>s1 s'. paging_activate_no_lock (second_chance_with discard me) d me e s = Some s' \<and> vm_ok D s1 \<and> pages_kept s s1 \<and> supp s1 e = Some x \<and> \<not> resident s1 x \<and> paged_in D s1 e x s'
    \<and> (bm_used (used_map (upool s)) \<noteq> {..<bit_cnt (used_map (upool s))} \<longrightarrow> s1 = s) \<and> calls s1 = calls s"
proof -
  note E = entry_okD [OF vm_okD(2) [OF ok x(1)]]
  have pme: "pdirs s me \<in> D" using E(9) x(4) by simp
  obtain s1 f P m where g: "frame_get_page_with (second_chance_with discard me) me (se_flags x) e s
      = Some (page_at (upool s1) f, s1\<lparr>mm := m, frames := (frames s1)(f := \<lparr>fr_user = Some e, prohibit_cache = PAL_PROHIBIT_CACHE \<in> se_flags x\<rparr>), ordered_list := ordered_list s1 @ [f]\<rparr>)"
    "vm_ok D s1" "pages_kept s s1" "supp s1 e = Some x" "\<not> resident s1 x" "kernel_pool (phys (mm s1)) = kernel_pool (phys (mm s))" "\<And>p. p \<in> D \<Longrightarrow> tables (mm s1) p = tables (mm s) p"
    "f < bit_cnt (used_map (upool s1))" "f \<notin> bm_used (used_map (upool s1))" "repooled (upool s1) (insert f (bm_used (used_map (upool s1)))) P"
    "mm_step D (mm s1) (active (mm s1)) P (pte_at (mm s1)) ((kentry (mm s1))(kidx (page_at (upool s1) f) := (kentry (mm s1) (kidx (page_at (upool s1) f)) AND NOT PTE_A) AND NOT PTE_D))
       (\<lambda>a. if a \<in> span (page_at (upool s1) f) PGSIZE then 0 else ram (phys (mm s1)) a) m"
    "bm_used (used_map (upool s)) \<noteq> {..<bit_cnt (used_map (upool s))} \<longrightarrow> s1 = s" "calls s1 = calls s"
    by (rule get_frame_ok [OF ok dis x(1-3) lock pme room]) (rule that)
  let ?a = "page_at (upool s1) f" and ?pd = "pdirs s1 (se_thread x)"
  have pds: "pdirs s1 = pdirs s" using g(3) by (simp add: pages_kept_def)
  have tab1: "pd_no (upage x) \<in> tables (mm s1) ?pd \<or> card (kpages (phys (mm s1))) < bit_cnt (used_map (kernel_pool (phys (mm s1))))"
    using tab g(6,7) pme x(4) pds by (simp add: kpages_def)
  obtain m1 where m1: "pagedir_set_page ?pd (upage x) ?a (PAL_READONLY \<notin> se_flags x) m = Some (True, m1)" "mapped_in D s1 x ?a P m1" "\<not> bit (pte_at m1 ?pd (pg_no (upage x))) 6"
    "\<And>i. i < PGSIZE \<Longrightarrow> ram (phys m1) (?a + i) = 0"
    by (rule map_in_ok [OF g(2,4,5,8,9,10) refl g(11) tab1]) (rule that)
  note A = frame_address [OF g(2,8)] and X = entry_okD [OF vm_okD(2) [OF g(2,4)]] and D = mapped_inD [OF m1(2)]
  have get: "pagedir_get_page ?pd (upage x) m' = Some ?a" if "mapped_in D s1 x ?a P m'" for m'
    using user_reads(1) [OF mapped_inD(1) [OF that] X(9,6)] mapped_inD(6,7) [OF that] X(7) by simp
  have get0: "pagedir_get_page (pdirs s me) (upage x) (mm s) = Some 0"
    using user_reads(1) [OF vm_okD(1) [OF ok] pme E(6)] x(2,4) by (simp add: resident_def pte_of_def)
  have nz: "pdirs s me \<noteq> 0" using dir_facts(2) [OF kvmD(3) [OF vm_okD(1) [OF ok]] vm_invD(4) [OF kvmD(1) [OF vm_okD(1) [OF ok]]]] pme by blast
  let ?s2 = "s1\<lparr>mm := m1, frames := (frames s1)(f := \<lparr>fr_user = Some e, prohibit_cache = PAL_PROHIBIT_CACHE \<in> se_flags x\<rparr>), ordered_list := ordered_list s1 @ [f]\<rparr>"
  have vt: "vtop ?a = Some (?a - PHYS_BASE)" "pg_ofs ?a = 0" using page_word_phys [OF A(2)] by simp_all
  have lim: "(?a - PHYS_BASE) div 2 ^ PTSHIFT < init_ram_pages m" using A(6) mm_stepD(5) [OF g(11)] by (simp add: kidx_def PGSIZE_def PTSHIFT_def)
  have create: "supp_pagedir_really_create (second_chance_with discard me) me e s = Some ?s2"
    using x g(1) vt lim m1(1) get [OF m1(2)] A(7) pds by (simp add: supp_pagedir_really_create_def)
  let ?done = "\<lambda>m w c. s1\<lparr>mm := m, swp := w, supp := (supp s1)(e \<mapsto> x\<lparr>sector_t := BLOCK_SECTOR_T_ERROR\<rparr>),
         frames := (frames s1)(f := \<lparr>fr_user = Some e, prohibit_cache = PAL_PROHIBIT_CACHE \<in> se_flags x\<rparr>), ordered_list := ordered_list s1 @ [f], calls := c\<rparr>"
  have sok: "swap_ok (swp s1) (the (s_map (swp s1)))" using swapped_okD(1) [OF vm_okD(5) [OF g(2)]] by (simp add: swap_map_def)
  have xe: "x\<lparr>sector_t := BLOCK_SECTOR_T_ERROR\<rparr> = x" if "sector_t x = BLOCK_SECTOR_T_ERROR" using that by (cases x) simp
  have here: "?s2\<lparr>mm := m', calls := c\<rparr> = ?done m' (swp s1) c" if "sector_t x = BLOCK_SECTOR_T_ERROR" for m' c
    using g(4) by (simp add: xe [OF that] fun_upd_idem)
  consider (zero) "sector_t x = BLOCK_SECTOR_T_ERROR" "se_fd x = - 1" | (filed) "sector_t x = BLOCK_SECTOR_T_ERROR" "se_fd x \<noteq> - 1" | (swap) "sector_t x \<noteq> BLOCK_SECTOR_T_ERROR" by blast
  then show ?thesis
  proof cases
    case zero
    have "paging_activate_no_lock (second_chance_with discard me) d me e s = Some ?s2"
      using x get0 create get [OF m1(2)] A(7) nz pds zero by (simp add: paging_activate_no_lock_def)
    moreover have "?s2 = ?done m1 (swp s1) (calls s1)" using g(4) by (simp add: xe [OF zero(1)] fun_upd_idem)
    moreover have "content s1 x i = 0" "origin s1 x i = 0" for i using g(5) zero by (simp_all add: content_def origin_of_def)
    then have "paged_in D s1 e x (?done m1 (swp s1) (calls s1))" unfolding paged_in_def
      using g(8-10) m1(2,4) zero sok same_files_refl [of "calls s1"]
      by (intro exI [of _ f] exI [of _ P] exI [of _ m1] exI [of _ "swp s1"] exI [of _ "calls s1"]) (simp add: swap_map_def)
    ultimately show ?thesis using g(2-5,12,13) by metis
  next
    case filed
    obtain u1 bs n u2 where u: "seek_sys me (se_fd x) (nat (se_s x mod 2 ^ 32)) (calls s1) = Some u1"
        "read_sys d me (se_fd x) (nat ((se_e x - se_s x) mod 2 ^ 32)) u1 = Some (bs, n, u2)" "length bs \<le> nat (se_e x - se_s x)"
        "\<And>i. (if i < length bs then bs ! i else 0) = origin s1 x i" "same_files (calls s1) u2"
      using page_from_file [OF load [unfolded can_load_def, rule_format, OF filed, folded g(13)] filed(2) x(4), of d] by blast
    note rg = X(1) [OF filed(2)]
    have r: "nat (se_e x - se_s x) \<le> PGSIZE" "nat (int ?a + (se_e x - se_s x)) = ?a + nat (se_e x - se_s x)" "nat (int PGSIZE - (se_e x - se_s x)) = PGSIZE - nat (se_e x - se_s x)"
      using rg by linarith+
    obtain m2 m3 m4 m5 where l: "hw_store ?a bs m1 = Some m2" "hw_store (?a + nat (se_e x - se_s x)) (replicate (PGSIZE - nat (se_e x - se_s x)) 0) m2 = Some m3"
        "pagedir_set_accessed ?pd ?a False m3 = Some m4" "pagedir_set_dirty ?pd ?a False m4 = Some m5" "mapped_in D s1 x ?a P m5"
        "\<And>i. i < PGSIZE \<Longrightarrow> ram (phys m5) (?a + i) = (if i < length bs then bs ! i else 0)" "\<not> bit (pte_at m5 ?pd (pg_no (upage x))) 6" "\<not> bit (kentry m5 (kidx ?a)) 6"
      by (rule load_file_ok [OF g(2,4,8) refl m1(2) _ u(3) r(1) m1(3)]) (rule m1(4), assumption, rule that)
    have rd: "pg_round_down (upage x) = upage x" using X(7) div_mult_mod_eq [of "upage x" PGSIZE] by (simp add: pg_round_down_def pg_ofs_def)
    have run: "paging_activate_no_lock (second_chance_with discard me) d me e s = Some (?s2\<lparr>mm := m5, calls := u2\<rparr>)"
    proof -
      have th: "pdirs s (se_thread x) = pdirs s me" using x(4) by simp
      have c: "calls ?s2 = calls s1" "mm ?s2 = m1" "pdirs ?s2 = pdirs s" using pds by simp_all
      have g2: "pagedir_get_page (pdirs s me) (upage x) m1 = Some ?a" using get [OF m1(2)] pds x(4) by simp
      have l': "pagedir_set_accessed (pdirs s me) ?a False m3 = Some m4" "pagedir_set_dirty (pdirs s me) ?a False m4 = Some m5" using l(3,4) pds x(4) by simp_all
      show ?thesis unfolding paging_activate_no_lock_def
        using x(1,3) nz get0 create filed rg A(7) u(1,2) l(1,2) l' rd r(2,3) g2
        by (simp add: Let_def th c pds del: One_nat_def)
    qed
    have co: "content s1 x i = origin s1 x i" for i using g(5) filed(1) by (simp add: content_def)
    have "paged_in D s1 e x (?done m5 (swp s1) u2)" unfolding paged_in_def
      using g(8-10) l(5-8) u(4,5) sok co filed(1)
      by (intro exI [of _ f] exI [of _ P] exI [of _ m5] exI [of _ "swp s1"] exI [of _ u2]) (simp add: swap_map_def)
    then show ?thesis using run g(2-5,12,13) unfolding here [OF filed(1)] by blast
  next
    case swap
    obtain m2 m3 m4 w where l: "swap_read ?pd (sector_t x) (upage x) m1 (swp s1) = Some (m2, w)" "pagedir_set_accessed ?pd (upage x) False m2 = Some m3"
      "pagedir_set_dirty ?pd (upage x) False m3 = Some m4" "mapped_in D s1 x ?a P m4" "\<And>i. i < PGSIZE \<Longrightarrow> ram (phys m4) (?a + i) = slot_byte (swp s1) (sector_t x) i" "bit (kentry m4 (kidx ?a)) 6"
      "swap_ok w (the (s_map w))" "slot_byte w = slot_byte (swp s1)" "\<And>j. j \<in> bm_used (swap_map s1) \<Longrightarrow> sector_t x \<noteq> 8 * j \<Longrightarrow> j \<in> bm_used (the (s_map w))"
      by (rule load_page_ok [OF g(2,4,5) swap g(8) refl m1(2)]) (rule that)
    have ns: "se_fd x \<noteq> - 1 \<longrightarrow> PAL_DONT_SYNC_ON_DISK \<in> se_flags x" using clean_okD(2) [OF vm_okD(6) [OF g(2)] g(4)] swap by blast
    have "paging_activate_no_lock (second_chance_with discard me) d me e s = Some (?done m4 w (calls s1))"
      using x get0 create get [OF m1(2)] A(7) nz pds swap l(1-3) g(4) by (simp add: paging_activate_no_lock_def upd_supp_def)
    moreover have "content s1 x i = slot_byte (swp s1) (sector_t x) i" for i using g(5) swap by (simp add: content_def)
    then have "paged_in D s1 e x (?done m4 w (calls s1))" unfolding paged_in_def
      using g(8-10) l(4-9) swap ns same_files_refl [of "calls s1"]
      by (intro conjI exI [of _ f] exI [of _ P] exI [of _ m4] exI [of _ w] exI [of _ "calls s1"]) simp_all
    ultimately show ?thesis using g(2-5,12,13) by blast
  qed
qed

lemma paged_in_ok:
  assumes ok: "vm_ok D s" and x: "supp s e = Some x" "\<not> resident s x" and pin: "paged_in D s e x s'"
  shows "vm_ok D s' \<and> pages_kept s s' \<and> supp s' e = Some (x\<lparr>sector_t := BLOCK_SECTOR_T_ERROR\<rparr>) \<and> resident s' (x\<lparr>sector_t := BLOCK_SECTOR_T_ERROR\<rparr>)"
proof -
  note E = entry_okD [OF vm_okD(2) [OF ok x(1)]] and F = frames_okD [OF vm_okD(4) [OF ok]] and W = swapped_okD [OF vm_okD(5) [OF ok]]
  obtain f P m w c where s': "s' = s\<lparr>mm := m, swp := w, supp := (supp s)(e \<mapsto> x\<lparr>sector_t := BLOCK_SECTOR_T_ERROR\<rparr>),
         frames := (frames s)(f := \<lparr>fr_user = Some e, prohibit_cache = PAL_PROHIBIT_CACHE \<in> se_flags x\<rparr>), ordered_list := ordered_list s @ [f], calls := c\<rparr>"
    and f: "f < bit_cnt (used_map (upool s))" "f \<notin> bm_used (used_map (upool s))" and P: "repooled (upool s) (insert f (bm_used (used_map (upool s)))) P"
    and M: "mapped_in D s x (page_at (upool s) f) P m" and c: "\<forall>i<PGSIZE. ram (phys m) (page_at (upool s) f + i) = content s x i"
    and clean: "bit (kentry m (kidx (page_at (upool s) f))) 6 \<or> (\<forall>i<PGSIZE. ram (phys m) (page_at (upool s) f + i) = origin s x i)"
    and nosync: "se_fd x \<noteq> - 1 \<longrightarrow> PAL_DONT_SYNC_ON_DISK \<notin> se_flags x \<longrightarrow>
          \<not> bit (pte_at m (pdirs s (se_thread x)) (pg_no (upage x))) 6 \<and> \<not> bit (kentry m (kidx (page_at (upool s) f))) 6"
    and files: "same_files (calls s) c"
    and w: "swap_ok w (the (s_map w))" "slot_byte w = slot_byte (swp s)" "\<forall>j\<in>bm_used (swap_map s). sector_t x \<noteq> 8 * j \<longrightarrow> j \<in> bm_used (the (s_map w))"
    using pin unfolding paged_in_def by blast
  let ?a = "page_at (upool s) f" and ?x = "x\<lparr>sector_t := BLOCK_SECTOR_T_ERROR\<rparr>"
  note D = mapped_inD [OF M]
  have up: "upool s' = P" by (simp add: s' upool_def D(2))
  have same: "swp s' = w" "pdirs s' = pdirs s" "mm s' = m" "swap_map s' = the (s_map w)" by (simp_all add: s' swap_map_def)
  have cs: "calls s' = c" "supp_pagedir s' = supp_pagedir s" by (simp_all add: s')
  have org: "origin s' y = origin s y" for y using same_files_origin [OF files] by (simp add: cs)
  have others: "supp s' u = supp s u" if "u \<noteq> e" for u using that by (simp add: s')
  have fl: "f \<notin> set (ordered_list s)" using f(2) F(3) by simp
  have pa: "page_at P g = page_at (upool s) g" for g using P by (intro page_at_base) (simp add: repooled_def)
  have pte: "pte_of s' ?x = pte_at m (pdirs s (se_thread x)) (pg_no (upage x))" by (simp add: pte_of_def same)
  have r: "resident s' ?x" "page_of s' ?x = ?a" using D(6,7) by (simp_all add: resident_def page_of_def pte)
  have view: "pte_of s' y = pte_of s y" if y: "u \<noteq> e" "supp s u = Some y" for u y
  proof -
    note Y = entry_okD [OF vm_okD(2) [OF ok y(2)]]
    show ?thesis unfolding pte_of_def same by (rule D(5) [OF Y(9,10)]) (use other_slot [OF ok x(1) y(2)] y(1) in metis)
  qed
  have hh: "holds s' g u = holds s g u" if "u \<noteq> e" for g u using that fl by (cases "g = f") (auto simp: holds_def s')
  have he: "holds s g e \<Longrightarrow> False" for g using holds_facts [OF ok, of g e] x by (metis option.inject)
  have hu: "holds s' g e = (g = f)" for g
  proof (cases "g = f")
    case False
    then show ?thesis using he [of g] by (auto simp: holds_def s')
  qed (simp add: holds_def s')
  have a3: "bit (kentry (mm s') (kidx (page_of s y))) 6 = bit (kentry (mm s) (kidx (page_of s y))) 6"
    and a4: "i < PGSIZE \<Longrightarrow> ram (phys (mm s')) (page_of s y + i) = ram (phys (mm s)) (page_of s y + i)" if y: "u \<noteq> e" "holds s g u" "supp s u = Some y" for g u y i
  proof -
    have n: "g \<noteq> f" using y(2) fl by (auto simp: holds_def)
    note Y = page_facts [OF ok y(2,3)]
    have "kidx (page_of s y) \<noteq> kidx ?a" using kidx_page_at [of "upool s" g f] kvmD(4) [OF vm_okD(1) [OF ok]] Y(1) n by (simp add: upool_def palloc_ok_def)
    then show "bit (kentry (mm s') (kidx (page_of s y))) 6 = bit (kentry (mm s) (kidx (page_of s y))) 6" using D(8) [OF Y(6)] by (simp add: same)
    assume i: "i < PGSIZE"
    then have i': "page_of s y + i \<in> span (page_of s y) PGSIZE" by (simp add: span_def)
    then have "page_of s y + i \<notin> span ?a PGSIZE" using span_page_disjoint [OF n, of "upool s"] Y(1) by auto
    then show "ram (phys (mm s')) (page_of s y + i) = ram (phys (mm s)) (page_of s y + i)" using D(9) i' Y(9) by (auto simp: same)
  qed
  have a5: "kvm D (mm s')" "pool_base (upool s') = pool_base (upool s)" using D(1) P by (simp_all add: same up repooled_def)
  have a6: "num_of_frames s' = bit_cnt (used_map (upool s'))" "distinct (ordered_list s')" "set (ordered_list s') = bm_used (used_map (upool s'))"
    using F(1-3) P fl unfolding up by (simp_all add: s' repooled_def)
  have a7: "fr_user (frames s' g) \<noteq> None" if "g \<in> set (ordered_list s')" for g using that F(4) [of g] by (auto simp: s' holds_def)
  have a8: "swap_ok (swp s') (swap_map s')" using w(1) by (simp add: same)
  have a9: "j \<in> bm_used (swap_map s')" if y: "u \<noteq> e" "supp s u = Some y" "sector_t y = 8 * j" "j \<in> bm_used (swap_map s)" for j u y
  proof -
    have "8 * j \<noteq> BLOCK_SECTOR_T_ERROR" using not_an_error [OF _ W(1), of j] y(4) by (simp add: bm_used_def)
    then have "sector_t x \<noteq> 8 * j" using W(4) [OF y(2) x(1)] y(1,3) by auto
    then show ?thesis using w(3) y(4) by (simp add: same)
  qed
  have b0: "same_entry (pte_of s y) (pte_of s' y)" if "u \<noteq> e" "supp s u = Some y" for u y using view [OF that] by simp
  have b1: "slot_byte (swp s') (8 * j) i = slot_byte (swp s) (8 * j) i" for j i by (simp add: same w(2))
  have b2: "supp s' e = Some ?x" by (simp add: s')
  have b3: "entry_ok D s' ?x" using vm_okD(2) [OF ok x(1)] by (simp add: entry_ok_def same)
  have b4: "ram (phys (mm s')) (page_of s' ?x + i) = origin s' ?x i" if "\<not> page_dirty s' ?x" "i < PGSIZE" for i
    using clean that org [of ?x] unfolding page_dirty_def r(2) same by simp
  have b5: "\<not> page_dirty s' ?x" if "se_fd ?x \<noteq> - 1" "PAL_DONT_SYNC_ON_DISK \<notin> se_flags ?x"
    using nosync that unfolding page_dirty_def pte r(2) same by simp
  have b6: "origin s' y i = origin s y i" for y i using org by simp
  note R = one_entry [OF ok b6 a5(1) same(2) a5(2) others b0 a3 a4 hh a6 a7 a8 a9 b1 x(1) b2]
  have vok: "vm_ok D s'" by (rule R(1)) (use b3 hu r pa up b4 b5 in auto)
  have cont: "content s' y i = content s y i" if "u \<noteq> e" "supp s u = Some y" "i < PGSIZE" for u y i by (rule R(2)) (use b3 hu r pa up b4 b5 that in auto)
  have "pages_kept s s'" unfolding pages_kept_def
  proof (intro conjI allI impI)
    fix u y assume y: "supp s u = Some y"
    show "\<exists>t. supp s' u = Some (y\<lparr>sector_t := t\<rparr>) \<and> (\<forall>i<PGSIZE. content s' (y\<lparr>sector_t := t\<rparr>) i = content s y i)"
    proof (cases "u = e")
      case True
      then show ?thesis using b2 y x(1) c r by (intro exI [of _ BLOCK_SECTOR_T_ERROR]) (simp add: content_def same)
    next
      case False
      then show ?thesis using others [OF False] y cont [OF False y] by (intro exI [of _ "sector_t y"]) simp
    qed
  next
    show "supp s u = None \<Longrightarrow> supp s' u = None" for u using others [of u] x(1) by (cases "u = e") auto
  qed (simp_all add: same cs)
  then show ?thesis using vok b2 r(1) by blast
qed

end
