(* ===== verification/VmTheorems.thy ===== *)
theory VmTheorems
  imports VmSpec
begin

unbundle bit_operations_syntax

text \<open>
  The properties of virtual memory: a page that is brought in has the bytes it had when it was evicted, and paging changes no byte of
  any process; a store of a process changes the byte it names. At the end, what becomes of a system call that is handed
  a pointer into a page that is not in memory.
\<close>

section \<open>Paging\<close>

definition se_unlocked :: "vm \<Rightarrow> bool" where
  "se_unlocked s \<longleftrightarrow> (\<forall>e x. supp s e = Some x \<longrightarrow> se_lock x = None)"

lemma second_chance_step: "frame_second_chance_algorithm (Suc k) d me = second_chance_with (mmap_discard_with (set_prohibit_with (frame_second_chance_algorithm k d me) d me) d me) me"
  by (simp add: fun_eq_iff)

lemma discards_mmap [simp]: "discards (mmap_discard_with p d me)"
  by (auto simp: discards_def)

lemma supp_views [simp]:
  "content (s\<lparr>supp := g\<rparr>) = content s" "resident (s\<lparr>supp := g\<rparr>) = resident s" "page_of (s\<lparr>supp := g\<rparr>) = page_of s" "pte_of (s\<lparr>supp := g\<rparr>) = pte_of s"
  "upool (s\<lparr>supp := g\<rparr>) = upool s" "swap_map (s\<lparr>supp := g\<rparr>) = swap_map s"
  by (simp_all add: content_def resident_def page_of_def pte_of_def upool_def swap_map_def fun_eq_iff)

lemma relock_same:
  assumes ok: "vm_ok D s" and x: "supp s e = Some x"
  shows "same_vm D s (s\<lparr>supp := (supp s)(e \<mapsto> x\<lparr>se_lock := l\<rparr>)\<rparr>)"
proof -
  have "supp (s\<lparr>supp := (supp s)(e \<mapsto> x\<lparr>se_lock := l\<rparr>)\<rparr>) = (\<lambda>u. map_option (\<lambda>x. x\<lparr>se_lock := if u = e then l else se_lock (the (supp s u))\<rparr>) (supp s u))"
    using x by (auto simp: fun_eq_iff map_option_case split: option.splits)
  then have "\<exists>g. supp (s\<lparr>supp := (supp s)(e \<mapsto> x\<lparr>se_lock := l\<rparr>)\<rparr>) = (\<lambda>u. map_option (\<lambda>x. x\<lparr>se_lock := g u\<rparr>) (supp s u))"
    by (rule exI [of _ "\<lambda>u. if u = e then l else se_lock (the (supp s u))"])
  then show ?thesis using same_vm_refl [OF ok] unfolding same_vm_def by simp
qed

lemma kept_unlocked: "pages_kept s s' \<Longrightarrow> se_unlocked s \<Longrightarrow> se_unlocked s'"
  unfolding se_unlocked_def
proof (intro allI impI)
  fix e x assume k: "pages_kept s s'" and u: "\<forall>e x. supp s e = Some x \<longrightarrow> se_lock x = None" and x: "supp s' e = Some x"
  obtain y where y: "supp s e = Some y" using k x unfolding pages_kept_def by (metis option.exhaust option.distinct(1))
  obtain t where "supp s' e = Some (y\<lparr>sector_t := t\<rparr>)" using pages_keptD [OF k y] by blast
  then show "se_lock x = None" using u y x by auto
qed

lemma evict_keeps:
  assumes ok: "vm_ok D s" and u: "se_unlocked s" and c: "can_evict s" and pme: "pdirs s me \<in> D"
  shows "\<exists>s'. frame_second_chance_algorithm (Suc k) d me s = Some s' \<and> vm_ok D s' \<and> se_unlocked s' \<and> pages_kept s s'
    \<and> bm_used (used_map (upool s')) \<noteq> {..<bit_cnt (used_map (upool s'))} \<and> calls s' = calls s"
proof -
  have lock: "\<And>e x. supp s e = Some x \<Longrightarrow> resident s x \<Longrightarrow> se_lock x \<noteq> Some me" using u by (auto simp: se_unlocked_def)
  have c': "\<exists>f\<in>set (ordered_list s). eligible s f" "bm_used (swap_map s) \<noteq> {..<bit_cnt (swap_map s)}" using c by (simp_all add: can_evict_def)
  show ?thesis unfolding second_chance_step
    using second_chance_ok [OF ok discards_mmap c'(1) _ pme c'(2), of "set_prohibit_with (frame_second_chance_algorithm k d me) d me" d me] lock kept_unlocked [OF _ u]
    by blast
qed

lemma page_in_keeps:
  assumes ok: "vm_ok D s" and u: "se_unlocked s" and x: "supp s e = Some x" "\<not> resident s x" "se_thread x = me"
    and room: "bm_used (used_map (upool s)) \<noteq> {..<bit_cnt (used_map (upool s))} \<or> can_evict s"
    and tab: "pd_no (upage x) \<in> tables (mm s) (pdirs s me) \<or> card (kpages (phys (mm s))) < bit_cnt (used_map (kernel_pool (phys (mm s))))"
    and load: "can_load s x"
  shows "\<exists>s'. paging_activate (Suc k) d me e s = Some (True, s') \<and> vm_ok D s' \<and> se_unlocked s' \<and> pages_kept s s'
    \<and> supp s' e = Some (x\<lparr>sector_t := BLOCK_SECTOR_T_ERROR\<rparr>) \<and> resident s' (x\<lparr>sector_t := BLOCK_SECTOR_T_ERROR\<rparr>)
    \<and> (\<exists>f. holds s' f e \<and> prohibit_cache (frames s' f) = (PAL_PROHIBIT_CACHE \<in> se_flags x)) \<and> bit (pte_of s' x) 1 = (PAL_READONLY \<notin> se_flags x) \<and> bit (pte_of s' x) 2
    \<and> (bm_used (used_map (upool s)) \<noteq> {..<bit_cnt (used_map (upool s))} \<longrightarrow> sector_t x = BLOCK_SECTOR_T_ERROR \<longrightarrow> swp s' = swp s)
    \<and> same_files (calls s) (calls s')"
proof -
  let ?x = "x\<lparr>se_lock := Some me\<rparr>" and ?discard = "mmap_discard_with (set_prohibit_with (frame_second_chance_algorithm k d me) d me) d me"
  let ?s = "s\<lparr>supp := (supp s)(e \<mapsto> ?x)\<rparr>"
  note E = entry_okD [OF vm_okD(2) [OF ok x(1)]]
  have free: "se_lock x = None" using u x(1) by (simp add: se_unlocked_def)
  have acq: "se_acquire me e s = Some ?s" using x(1) free by (simp add: se_acquire_def upd_supp_def)
  note ok1 = same_vm_ok [OF ok relock_same [OF ok x(1)], of "Some me"]
  have lock: "\<forall>u y. supp ?s u = Some y \<longrightarrow> resident ?s y \<longrightarrow> se_lock y \<noteq> Some me" using u x(2) by (auto simp: se_unlocked_def)
  have hs: "holds ?s f v = holds s f v" for f v by (simp add: holds_def)
  have el: "eligible ?s f" if ef: "eligible s f" for f
  proof -
    obtain v y where y: "holds s f v" "supp s v = Some y" "se_lock y = None" "\<not> prohibit_cache (frames s f)" using ef by (auto simp: eligible_def)
    have "v \<noteq> e" using holds_facts [OF ok y(1)] x(1,2) by (metis option.inject)
    then show ?thesis using y hs by (auto simp: eligible_def)
  qed
  have room': "bm_used (used_map (upool ?s)) \<noteq> {..<bit_cnt (used_map (upool ?s))} \<or> can_evict ?s" using room el by (auto simp: can_evict_def)
  have tab': "pd_no (upage ?x) \<in> tables (mm ?s) (pdirs ?s me) \<or> card (kpages (phys (mm ?s))) < bit_cnt (used_map (kernel_pool (phys (mm ?s))))" using tab by simp
  have load': "can_load ?s ?x" using load by (simp add: can_load_def)
  have x1: "supp ?s e = Some ?x" "\<not> resident ?s ?x" "se_lock ?x = Some me" "se_thread ?x = me" using x(2,3) by simp_all
  obtain s1 s' where r: "paging_activate_no_lock (second_chance_with ?discard me) d me e ?s = Some s'" "vm_ok D s1" "pages_kept ?s s1" "supp s1 e = Some ?x" "\<not> resident s1 ?x" "paged_in D s1 e ?x s'"
      "bm_used (used_map (upool ?s)) \<noteq> {..<bit_cnt (used_map (upool ?s))} \<longrightarrow> s1 = ?s" "calls s1 = calls ?s"
    using page_in_runs [OF ok1 discards_mmap x1 lock room' tab' load', of "set_prohibit_with (frame_second_chance_algorithm k d me) d me" d me d] by blast
  note P = paged_in_ok [OF r(2,4,5,6)]
  let ?y = "?x\<lparr>sector_t := BLOCK_SECTOR_T_ERROR\<rparr>" and ?z = "x\<lparr>sector_t := BLOCK_SECTOR_T_ERROR\<rparr>"
  have y: "supp s' e = Some ?y" "vm_ok D s'" "resident s' ?y" "pages_kept s1 s'" using P by simp_all
  have z: "?y\<lparr>se_lock := None\<rparr> = ?z" using free by (cases x) simp
  have z': "?y = ?z\<lparr>se_lock := Some me\<rparr>" by simp
  let ?s' = "s'\<lparr>supp := (supp s')(e \<mapsto> ?z)\<rparr>"
  have rel: "se_release me e s' = Some ?s'" using y(1) z by (simp add: se_release_def upd_supp_def)
  have get: "pagedir_get_page (pdirs s me) (upage x) (mm s) = Some 0"
    using user_reads(1) [OF vm_okD(1) [OF ok] _ E(6), of "pdirs s me"] E(9) x(2,3) by (simp add: resident_def pte_of_def)
  have run: "paging_activate (Suc k) d me e s = Some (True, ?s')"
    unfolding paging_activate_def second_chance_step paging_activate_with_def using acq get r(1) rel by simp
  have ok2: "vm_ok D ?s'" using same_vm_ok [OF y(2) relock_same [OF y(2,1)], of None] by (simp only: z)
  have kept: "pages_kept ?s s'" by (rule pages_kept_trans [OF r(3) y(4)])
  have pk: "pages_kept s ?s'" unfolding pages_kept_def
  proof (intro conjI allI impI)
    show "pdirs ?s' = pdirs s" "supp_pagedir ?s' = supp_pagedir s" using kept by (simp_all add: pages_kept_def)
    show "supp s v = None \<Longrightarrow> supp ?s' v = None" for v using kept x(1) by (cases "v = e") (simp_all add: pages_kept_def)
    fix v w assume w: "supp s v = Some w"
    show "\<exists>t. supp ?s' v = Some (w\<lparr>sector_t := t\<rparr>) \<and> (\<forall>i<PGSIZE. content ?s' (w\<lparr>sector_t := t\<rparr>) i = content s w i)"
    proof (cases "v = e")
      case True
      obtain t where t: "supp s' e = Some (?x\<lparr>sector_t := t\<rparr>)" "\<And>i. i < PGSIZE \<Longrightarrow> content s' (?x\<lparr>sector_t := t\<rparr>) i = content ?s ?x i"
        using pages_keptD [OF kept x1(1)] by blast
      have "?x\<lparr>sector_t := t\<rparr> = ?y" using t(1) y(1) by simp
      then have "content s' ?z i = content s x i" if "i < PGSIZE" for i using t(2) [OF that] z' by (metis relocked(4) supp_views(1))
      then show ?thesis using True w x(1) by (intro exI [of _ BLOCK_SECTOR_T_ERROR]) simp
    next
      case False
      then have w': "supp ?s v = Some w" using w by simp
      obtain t where t: "supp s' v = Some (w\<lparr>sector_t := t\<rparr>)" "\<And>i. i < PGSIZE \<Longrightarrow> content s' (w\<lparr>sector_t := t\<rparr>) i = content ?s w i"
        by (rule pages_keptD [OF kept w']) (rule that)
      then show ?thesis using False by (intro exI [of _ t]) simp
    qed
  qed
  have ul: "se_unlocked ?s'" by (rule kept_unlocked [OF pk u])
  obtain f P m w c where f: "s' = s1\<lparr>mm := m, swp := w, supp := (supp s1)(e \<mapsto> ?y),
         frames := (frames s1)(f := \<lparr>fr_user = Some e, prohibit_cache = PAL_PROHIBIT_CACHE \<in> se_flags ?x\<rparr>), ordered_list := ordered_list s1 @ [f], calls := c\<rparr>"
      "mapped_in D s1 ?x (page_at (upool s1) f) P m" "sector_t ?x = BLOCK_SECTOR_T_ERROR \<longrightarrow> w = swp s1" "same_files (calls s1) c" using r(6) unfolding paged_in_def by blast
  have pt: "pte_of ?s' x = pte_at m (pdirs s1 (se_thread ?x)) (pg_no (upage ?x))" by (simp add: f(1) pte_of_def)
  have fr: "\<exists>f. holds ?s' f e \<and> prohibit_cache (frames ?s' f) = (PAL_PROHIBIT_CACHE \<in> se_flags x)" by (rule exI [of _ f]) (simp add: f(1) holds_def)
  have bits: "bit (pte_of ?s' x) 1 = (PAL_READONLY \<notin> se_flags x)" "bit (pte_of ?s' x) 2" using mapped_inD(10,11) [OF f(2)] unfolding pt by simp_all
  have sw: "swp ?s' = swp s" if "bm_used (used_map (upool s)) \<noteq> {..<bit_cnt (used_map (upool s))}" "sector_t x = BLOCK_SECTOR_T_ERROR"
    using that f(3) r(7) by (simp add: f(1))
  have res: "resident ?s' ?z" using y(3) z' by (metis relocked(2) supp_views(2))
  have su: "supp ?s' e = Some ?z" by simp
  have fi: "same_files (calls s) (calls ?s')" using f(4) r(8) by (simp add: f(1))
  show ?thesis by (intro exI [of _ ?s'] conjI impI run ok2 ul pk su res fr bits sw fi)
qed

section \<open>Stores of a process\<close>

text \<open>A store of the running process: the processor goes through the active directory and marks the entry.\<close>

definition user_store :: "nat \<Rightarrow> byte \<Rightarrow> mmu \<Rightarrow> mmu option" where
  "user_store va b st =
     do {
       pd \<leftarrow> active_pd st;
       (pte, st) \<leftarrow> lookup_page pd va False st;
       kassert (pte \<noteq> 0 \<and> bit (rd st pte) 0 \<and> bit (rd st pte) 1 \<and> bit (rd st pte) 2);
       k \<leftarrow> pagedir_get_page pd va st;
       Some (poke k [b] (wr pte (rd st pte OR (PTE_A OR PTE_D)) st))
     }"

lemma user_store_step:
  assumes k: "kvm D st" and pd: "active st \<in> D" and va: "is_user_vaddr va"
  defines "e \<equiv> pte_at st (active st) (pg_no va)"
  defines "a \<equiv> PHYS_BASE + unat (e AND PTE_ADDR) + pg_ofs va"
  assumes e: "bit e 0" "bit e 1" "bit e 2" and a: "a \<in> user_range st"
  shows "\<exists>st'. user_store va b st = Some st'
    \<and> mm_step D st (active st) (user_pool (phys st)) ((pte_at st)(active st := (pte_at st (active st))(pg_no va := e OR (PTE_A OR PTE_D)))) (kentry st) ((ram (phys st))(a := b)) st'"
proof -
  let ?f = "\<lambda>w. w OR (PTE_A OR PTE_D)"
  have d: "dir_ok st (active st)" using vm_invD(4) [OF kvmD(1) [OF k]] pd by simp
  have nz: "pte_at st (active st) (pg_no va) \<noteq> 0" using e(1) unfolding e_def by auto
  have f: "flags_only False ?f" by (auto simp: flags_only_def agree_def bit_simps dest: bit_imp_le_length)
  obtain s1 where s1: "flag_update False ?f (active st) va st = Some s1"
      "mm_step D st (active st) (user_pool (phys st)) ((pte_at st)(active st := (pte_at st (active st))(pg_no va := ?f e))) (kentry st) (ram (phys st)) s1"
    using user_step [OF k pd va nz f] unfolding e_def by blast
  obtain q where q: "lookup_page (active st) va False st = Some (q, st)" "q \<noteq> 0" "rd st q = e"
    using modify_entry [OF kvmD(3) [OF k] d va made_entry [OF k pd va nz], of "\<lambda>w. w"] unfolding e_def by blast
  have s1': "s1 = wr q (?f e) st" using s1(1) q by (simp add: flag_update_def)
  have get: "pagedir_get_page (active st) va st = Some a" using user_reads(1) [OF k pd va] e(1) by (simp add: a_def e_def)
  have run: "user_store va b st = Some (poke a [b] s1)"
    using active_ok [OF kvmD(3) [OF k]] q get e by (simp add: user_store_def s1')
  note M = mm_stepD [OF s1(2)]
  have r: "{a..<a + length [b]} \<subseteq> user_range s1" using a M(7) by (auto simp: less_Suc_eq)
  note P = poke_step [OF M(1) r]
  have ra: "ram (phys (poke a [b] s1)) = (ram (phys s1))(a := b)" by (auto simp: poke_def fun_eq_iff)
  have S: "mm_step D s1 (active s1) (user_pool (phys s1)) (pte_at s1) (kentry s1) ((ram (phys s1))(a := b)) (poke a [b] s1)"
    unfolding mm_step_def using P ra by simp
  have "mm_step D s1 (active st) (user_pool (phys st)) ((pte_at st)(active st := (pte_at st (active st))(pg_no va := ?f e))) (kentry st) ((ram (phys st))(a := b)) (poke a [b] s1)"
    by (rule mm_step_cong [OF S [unfolded M(2,6)]]) (use M(3,4,5,7,8,9) in simp_all)
  then show ?thesis using run mm_step_trans [OF s1(2)] by blast
qed

lemma store_ok:
  assumes ok: "vm_ok D s" and x: "supp s e = Some x" "resident s x" "bit (pte_of s x) 1" "bit (pte_of s x) 2" and act: "active (mm s) = pdirs s (se_thread x)"
    and i: "i < PGSIZE" and priv: "se_fd x \<noteq> - 1 \<Longrightarrow> PAL_DONT_SYNC_ON_DISK \<in> se_flags x"
  shows "\<exists>s'. on_mm (user_store (upage x + i) b) s = Some s' \<and> vm_ok D s' \<and> supp s' = supp s \<and> pdirs s' = pdirs s \<and> calls s' = calls s
    \<and> (\<forall>u y j. supp s u = Some y \<longrightarrow> j < PGSIZE \<longrightarrow> content s' y j = (if u = e \<and> j = i then b else content s y j)) \<and> (can_evict s \<longrightarrow> can_evict s')"
proof -
  note E = entry_okD [OF vm_okD(2) [OF ok x(1)]] and K = vm_okD(1) [OF ok] and F = frames_okD [OF vm_okD(4) [OF ok]]
  obtain f where h: "holds s f e" using F(5) [OF x(1,2)] by blast
  note P = page_facts [OF ok h x(1)]
  have va: "is_user_vaddr (upage x + i)" "pg_no (upage x + i) = pg_no (upage x)" "pg_ofs (upage x + i) = i" using E(6,7) i
    by (auto simp: is_user_vaddr_def pg_no_def pg_ofs_def PHYS_BASE_def PGSIZE_eq)
  let ?pd = "pdirs s (se_thread x)" and ?a = "page_of s x + i" and ?w = "pte_of s x OR (PTE_A OR PTE_D)"
  have a: "?a \<in> user_range (mm s)" using P(9) i by (auto simp: span_def)
  obtain m where m: "user_store (upage x + i) b (mm s) = Some m"
      "mm_step D (mm s) ?pd (user_pool (phys (mm s))) ((pte_at (mm s))(?pd := (pte_at (mm s) ?pd)(pg_no (upage x) := ?w))) (kentry (mm s)) ((ram (phys (mm s)))(?a := b)) m"
    using user_store_step [OF K _ va(1), of b] a E(9) x(2-4) act va unfolding pte_of_def resident_def page_of_def by auto
  note M = mm_stepD [OF m(2)]
  let ?s = "s\<lparr>mm := m\<rparr>"
  have up: "upool ?s = upool s" using M(2) by (simp add: upool_def)
  have same: "swap_map ?s = swap_map s" "holds ?s = holds s" "swp ?s = swp s" by (simp_all add: swap_map_def holds_def fun_eq_iff)
  have pe: "pte_of ?s x = ?w" using M(8) [of ?pd "pg_no (upage x)"] E(9,10) by (simp add: pte_of_def)
  have "?w AND PTE_ADDR = pte_of s x AND PTE_ADDR" by (rule address_bits) (auto simp: bit_simps)
  then have r: "resident ?s x" "page_of ?s x = page_of s x" "bit (pte_of ?s x) 6"
    using x(2) by (auto simp: resident_def page_of_def pe bit_simps)
  have v: "pte_of ?s y = pte_of s y" if y: "u \<noteq> e" "supp s u = Some y" for u y
  proof -
    note Y = entry_okD [OF vm_okD(2) [OF ok y(2)]]
    show ?thesis using M(8) [OF _ Y(10), of "pdirs s (se_thread y)"] Y(9) other_slot [OF ok x(1) y(2)] y(1) by (auto simp: pte_of_def)
  qed
  have kd: "bit (kentry m (kidx (page_of s y))) 6 = bit (kentry (mm s) (kidx (page_of s y))) 6" if y: "holds s g u" "supp s u = Some y" for g u y
    using M(9) page_facts(6) [OF ok y] by simp
  have mem: "ram (phys m) (page_of s y + j) = (if u = e \<and> j = i then b else ram (phys (mm s)) (page_of s y + j))" if y: "holds s g u" "supp s u = Some y" "j < PGSIZE" for g u y j
  proof -
    note Y = page_facts [OF ok y(1,2)]
    have "page_of s y + j \<in> user_range (mm s)" using Y(9) y(3) by (auto simp: span_def)
    then have "ram (phys m) (page_of s y + j) = ((ram (phys (mm s)))(?a := b)) (page_of s y + j)" by (rule M(3))
    moreover have "page_of s y + j \<noteq> ?a" if d: "u \<noteq> e"
    proof -
      have "?a \<in> span (page_of s x) PGSIZE" "page_of s y + j \<in> span (page_of s y) PGSIZE" using i y(3) by (simp_all add: span_def)
      then show ?thesis using other_page(1) [OF ok h y(1) x(1) y(2) d] by (metis disjoint_iff)
    qed
    moreover have "u = e \<Longrightarrow> y = x" using y(2) x(1) by simp
    ultimately show ?thesis by (cases "u = e") simp_all
  qed
  have o: "\<And>u. u \<noteq> e \<Longrightarrow> supp ?s u = supp s u" by simp
  have b0: "same_entry (pte_of s y) (pte_of ?s y)" if "u \<noteq> e" "supp s u = Some y" for u y using v [OF that] by simp
  have a3: "bit (kentry (mm ?s) (kidx (page_of s y))) 6 = bit (kentry (mm s) (kidx (page_of s y))) 6" if "u \<noteq> e" "holds s g u" "supp s u = Some y" for g u y using kd [OF that(2,3)] by simp
  have a4: "ram (phys (mm ?s)) (page_of s y + j) = ram (phys (mm s)) (page_of s y + j)" if "u \<noteq> e" "holds s g u" "supp s u = Some y" "j < PGSIZE" for g u y j
    using mem [OF that(2-4)] that(1) by simp
  have a6: "num_of_frames ?s = bit_cnt (used_map (upool ?s))" "distinct (ordered_list ?s)" "set (ordered_list ?s) = bm_used (used_map (upool ?s))" using F(1-3) by (simp_all add: up)
  have a7: "fr_user (frames ?s g) \<noteq> None" if "g \<in> set (ordered_list ?s)" for g using that F(4) [of g] by (auto simp: holds_def)
  have a5: "kvm D (mm ?s)" "pool_base (upool ?s) = pool_base (upool s)" "pdirs ?s = pdirs s" using M(1) by (simp_all add: up)
  have a8: "swap_ok (swp ?s) (swap_map ?s)" using swapped_okD(1) [OF vm_okD(5) [OF ok]] by (simp add: same)
  have xs: "supp ?s e = Some x" using x(1) by simp
  have ent: "entry_ok D ?s x" using vm_okD(2) [OF ok x(1)] by (simp add: entry_ok_def)
  have he: "\<And>g. holds ?s g e \<Longrightarrow> resident ?s x \<and> page_of ?s x = page_at (upool ?s) g" using r page_facts(1) [OF ok _ x(1)] by (simp add: same up)
  have noswap: "sector_t x = BLOCK_SECTOR_T_ERROR" using swapped_okD(2) [OF vm_okD(5) [OF ok] x(1)] x(2) by blast
  have a0: "origin ?s y j = origin s y j" for y j by simp
  have wr: "page_dirty ?s x" using r(3) by (simp add: page_dirty_def)
  note R = one_entry [OF ok a0 a5(1,3,2) o b0 a3 a4 _ a6 a7 a8 _ _ x(1) xs refl refl ent he]
  have vok: "vm_ok D ?s" by (rule R(1)) (use r h noswap same wr priv in auto)
  have cont: "content ?s y j = content s y j" if "u \<noteq> e" "supp s u = Some y" "j < PGSIZE" for u y j by (rule R(2)) (use that r h noswap same wr priv in auto)
  have here: "content ?s x j = (if j = i then b else content s x j)" if "j < PGSIZE" for j using mem [OF h x(1) that] r x(2) by (simp add: content_def)
  have all: "content ?s y j = (if u = e \<and> j = i then b else content s y j)" if y: "supp s u = Some y" "j < PGSIZE" for u y j
    using cont [OF _ y] here [OF y(2)] y(1) x(1) by (cases "u = e") simp_all
  have "can_evict s \<Longrightarrow> can_evict ?s" by (simp add: can_evict_def eligible_def same)
  then show ?thesis using on_mm_eq [of "user_store (upage x + i) b", OF m(1)] vok all by (intro exI [of _ ?s]) simp
qed


section \<open>New entries\<close>

lemma other_views [simp]:
  "vm_ok D (s\<lparr>next_supp := n\<rparr>) = vm_ok D s" "vm_ok D (s\<lparr>supp_pagedir := p\<rparr>) = vm_ok D s"
  "content (s\<lparr>next_supp := n\<rparr>) = content s" "content (s\<lparr>supp_pagedir := p\<rparr>) = content s"
  "resident (s\<lparr>next_supp := n\<rparr>) = resident s" "resident (s\<lparr>supp_pagedir := p\<rparr>) = resident s"
  by (simp_all add: fun_eq_iff vm_ok_def frames_ok_def swapped_ok_def clean_ok_def holds_def entry_ok_def page_dirty_def content_def resident_def page_of_def pte_of_def upool_def swap_map_def cong: if_cong)

lemma new_entry_ok:
  assumes ok: "vm_ok D s" and new: "supp s e = None" and x: "entry_ok D s x" "sector_t x = BLOCK_SECTOR_T_ERROR" "\<not> resident s x"
    and uniq: "\<forall>u y. supp s u = Some y \<longrightarrow> pdirs s (se_thread y) = pdirs s (se_thread x) \<longrightarrow> upage y \<noteq> upage x"
  shows "vm_ok D (s\<lparr>supp := (supp s)(e \<mapsto> x)\<rparr>)"
proof -
  let ?s = "s\<lparr>supp := (supp s)(e \<mapsto> x)\<rparr>"
  note F = frames_okD [OF vm_okD(4) [OF ok]] and W = swapped_okD [OF vm_okD(5) [OF ok]]
  have h: "holds ?s = holds s" by (simp add: holds_def fun_eq_iff)
  have "\<exists>u y. holds s f u \<and> supp ?s u = Some y \<and> resident s y \<and> page_of s y = page_at (upool s) f" if f: "f \<in> set (ordered_list s)" for f
  proof -
    obtain u y where y: "holds s f u" "supp s u = Some y" "resident s y" "page_of s y = page_at (upool s) f" using F(4) [OF f] by blast
    then have "u \<noteq> e" using new by auto
    then show ?thesis using y by (intro exI [of _ u] exI [of _ y]) simp
  qed
  moreover have "\<exists>f. holds s f u" if "supp ?s u = Some y" "resident s y" for u y using that x(3) F(5) by (cases "u = e") auto
  ultimately have fr: "frames_ok ?s" using F(1-3) unfolding frames_ok_def h by simp
  have sw: "swapped_ok ?s" unfolding swapped_ok_def using W x(2) by auto
  have cl: "clean_ok ?s" unfolding clean_ok_def using vm_okD(6) [OF ok] x(2,3) unfolding clean_ok_def by (auto simp: page_dirty_def)
  have en: "entry_ok D ?s y" if "supp ?s u = Some y" for u y
  proof -
    have "entry_ok D s y" using that vm_okD(2) [OF ok, of u y] x(1) by (cases "u = e") simp_all
    then show ?thesis by (simp add: entry_ok_def)
  qed
  have un: "u = u'" if y: "supp ?s u = Some y" "supp ?s u' = Some y'" "pdirs s (se_thread y) = pdirs s (se_thread y')" "upage y = upage y'" for u y u' y'
  proof (cases "u = e"; cases "u' = e")
    assume "u \<noteq> e" "u' \<noteq> e"
    then show ?thesis using vm_okD(3) [OF ok _ _ y(3,4)] y(1,2) by simp
  qed (use y uniq in auto)
  show ?thesis unfolding vm_ok_def
  proof (intro conjI allI impI)
    show "kvm D (mm ?s)" using vm_okD(1) [OF ok] by simp
    show "entry_ok D ?s y" if "supp ?s u = Some y" for u y by (rule en [OF that])
    show "u = u'" if "supp ?s u = Some y" "supp ?s u' = Some y'" "pdirs ?s (se_thread y) = pdirs ?s (se_thread y')" "upage y = upage y'" for u y u' y'
      by (rule un [OF that(1,2)]) (use that(3,4) in simp_all)
  qed (rule fr sw cl)+
qed

lemma pd_no_user: "is_user_vaddr va \<Longrightarrow> pd_no va < 1024"
  using user_pg_no [of va] by (simp add: pt_pd_no USER_PAGES_def)

lemma lookup_slot:
  assumes "va \<noteq> 0" "is_user_vaddr va" "supp_slot t (pd_no va, pt_no va) s = Some e" "supp s e \<noteq> None"
  shows "supp_pagedir_lookup t va mk s = Some (Some (pd_no va, pt_no va), s)"
  using assms pd_no_user [OF assms(2)] by (auto simp: supp_pagedir_lookup_def supp_slot_def split: option.splits bind_splits)

lemma lookup_empty:
  assumes "va \<noteq> 0" "is_user_vaddr va" "supp_slot t (pd_no va, pt_no va) s = None"
  obtains slot where "supp_pagedir_lookup t va False s = Some (slot, s)" "Option.bind slot (\<lambda>ij. supp_slot t ij s) = None"
  using assms pd_no_user [OF assms(2)] by (cases "supp_pagedir s t (pd_no va)") (auto simp: supp_pagedir_lookup_def supp_slot_def)

lemma create_ok:
  assumes ok: "vm_ok D s" and me: "pdirs s me \<in> D" and va: "is_user_vaddr va" "pg_ofs va = 0" "va \<noteq> 0" and slot: "supp_slot me (pd_no va, pt_no va) s = None"
    and new: "supp s (next_supp s) = None" and mem: "mallocs (ufs (calls s)) = []" and out: "\<not> bit (pte_at (mm s) (pdirs s me) (pg_no va)) 0"
    and uniq: "\<forall>u y. supp s u = Some y \<longrightarrow> pdirs s (se_thread y) = pdirs s me \<longrightarrow> upage y \<noteq> va"
    and fl: "PAL_ZERO \<in> flags" "PAL_USER \<in> flags" "PAL_THROUGH_FRAME \<notin> flags" "PAL_ASSERT \<notin> flags"
  defines "x \<equiv> \<lparr>se_lock = None, se_flags = flags, se_thread = me, sector_t = BLOCK_SECTOR_T_ERROR, se_fd = - 1, se_s = - 1, se_e = - 1, upage = va\<rparr>"
  shows "\<exists>T. supp_pagedir_virtual_create me va flags s = Some (s\<lparr>supp := (supp s)(next_supp s \<mapsto> x), next_supp := next_supp s + 1, supp_pagedir := T\<rparr>)
    \<and> Option.bind (T me (pd_no va)) (\<lambda>tab. tab (pt_no va)) = Some (next_supp s)
    \<and> vm_ok D (s\<lparr>supp := (supp s)(next_supp s \<mapsto> x), next_supp := next_supp s + 1, supp_pagedir := T\<rparr>)"
proof -
  let ?i = "pd_no va" and ?j = "pt_no va" and ?e = "next_supp s"
  let ?tab = "case supp_pagedir s me ?i of None \<Rightarrow> \<lambda>_. None | Some tab \<Rightarrow> tab"
  let ?T = "(supp_pagedir s)(me := (supp_pagedir s me)(?i \<mapsto> ?tab(?j \<mapsto> ?e)))"
  let ?s = "s\<lparr>supp := (supp s)(?e \<mapsto> x), next_supp := ?e + 1, supp_pagedir := ?T\<rparr>"
  have vm: "vmalloc r = Some r" if "calls r = calls s" for r using that mem by (simp add: vmalloc_def xmalloc_def kmalloc_def)
  have nz: "pdirs s me \<noteq> 0" using dir_facts(2) [OF kvmD(3) [OF vm_okD(1) [OF ok]] vm_invD(4) [OF kvmD(1) [OF vm_okD(1) [OF ok]]]] me by blast
  have rd: "pg_round_down va = va" using va(2) div_mult_mod_eq [of va PGSIZE] by (simp add: pg_round_down_def pg_ofs_def)
  have run: "supp_pagedir_virtual_create me va flags s = Some ?s"
  proof (cases "supp_pagedir s me ?i")
    case None
    then show ?thesis using va rd fl(2) pd_no_user [OF va(1)] vm nz
      by (simp add: supp_pagedir_virtual_create_def supp_pagedir_lookup_def supp_slot_def x_def Let_def)
  next
    case (Some tab)
    then show ?thesis using va rd fl(2) pd_no_user [OF va(1)] vm nz slot
      by (simp add: supp_pagedir_virtual_create_def supp_pagedir_lookup_def supp_slot_def x_def Let_def)
  qed
  have "entry_ok D s x" using va fl me by (simp add: entry_ok_def x_def)
  moreover have "\<not> resident s x" using out by (simp add: resident_def pte_of_def x_def)
  ultimately have "vm_ok D (s\<lparr>supp := (supp s)(?e \<mapsto> x)\<rparr>)" using new_entry_ok [OF ok new, of x] uniq by (simp add: x_def)
  then show ?thesis using run by (intro exI [of _ ?T]) simp
qed


section \<open>Page faults\<close>

text \<open>There is a frame, or one can be made free, and a page for a table if one is needed.\<close>

definition has_room :: "nat \<Rightarrow> nat \<Rightarrow> vm \<Rightarrow> bool" where
  "has_room pd va s \<longleftrightarrow> (bm_used (used_map (upool s)) \<noteq> {..<bit_cnt (used_map (upool s))} \<or> can_evict s)
     \<and> (pd_no va \<in> tables (mm s) pd \<or> card (kpages (phys (mm s))) < bit_cnt (used_map (kernel_pool (phys (mm s)))))"

lemma round_down_pages: "pd_no (pg_round_down a) = pd_no a" "pt_no (pg_round_down a) = pt_no a" "pg_no (pg_round_down a) = pg_no a"
  "pg_ofs (pg_round_down a) = 0" "pg_round_down a \<le> a"
  using mult_div_mod_eq [of PGSIZE a] by (simp_all add: pg_round_down_def pt_pd_no pg_no_def pg_ofs_def PGSIZE_eq)

lemma page_in_reads:
  assumes ok: "vm_ok D s" and u: "se_unlocked s" and x: "supp s e = Some x" "\<not> resident s x" "se_thread x = me" and a: "upage x = pg_round_down a" "is_user_vaddr a"
    and room: "has_room (pdirs s me) a s" and load: "can_load s x"
  shows "\<exists>s' p. paging_activate (Suc k) d me e s = Some (True, s') \<and> vm_ok D s' \<and> se_unlocked s' \<and> pages_kept s s'
    \<and> pagedir_get_page (pdirs s me) a (mm s') = Some p \<and> p \<noteq> 0 \<and> ram (phys (mm s')) p = content s x (pg_ofs a)
    \<and> same_files (calls s) (calls s')
    \<and> supp s' e = Some (x\<lparr>sector_t := BLOCK_SECTOR_T_ERROR\<rparr>) \<and> resident s' (x\<lparr>sector_t := BLOCK_SECTOR_T_ERROR\<rparr>)"
proof -
  let ?z = "x\<lparr>sector_t := BLOCK_SECTOR_T_ERROR\<rparr>"
  obtain s' where s': "paging_activate (Suc k) d me e s = Some (True, s')" "vm_ok D s'" "se_unlocked s'" "pages_kept s s'" "supp s' e = Some ?z" "resident s' ?z" "same_files (calls s) (calls s')"
    using page_in_keeps [OF ok u x _ _ load, of k d] room round_down_pages(1) [of a] a(1) unfolding has_room_def by metis
  note E = entry_okD [OF vm_okD(2) [OF s'(2,5)]]
  have pd: "pdirs s' = pdirs s" using s'(4) by (simp add: pages_kept_def)
  have i: "pg_ofs a < PGSIZE" by (simp add: pg_ofs_def PGSIZE_eq)
  obtain t where t: "supp s' e = Some (x\<lparr>sector_t := t\<rparr>)" "\<And>i. i < PGSIZE \<Longrightarrow> content s' (x\<lparr>sector_t := t\<rparr>) i = content s x i" by (rule pages_keptD [OF s'(4) x(1)]) (rule that)
  have "content s' ?z (pg_ofs a) = content s x (pg_ofs a)" using t(2) [OF i] t(1) s'(5) by simp
  then have c: "ram (phys (mm s')) (page_of s' ?z + pg_ofs a) = content s x (pg_ofs a)" using s'(6) by (simp add: content_def)
  have "pagedir_get_page (pdirs s me) a (mm s') = Some (page_of s' ?z + pg_ofs a)"
    using user_reads(1) [OF vm_okD(1) [OF s'(2)] _ a(2), of "pdirs s me"] E(9) s'(6) pd x(3) a(1) by (simp add: resident_def pte_of_def page_of_def round_down_pages)
  moreover have "page_of s' ?z + pg_ofs a \<noteq> 0" by (simp add: page_of_def PHYS_BASE_def)
  ultimately show ?thesis using s'(1-7) c by blast
qed

text \<open>
  (C26) Eviction makes room and loses nothing, when it can be done: some frame is neither pinned nor its entry locked, no entry is locked
  by a thread at work, and the swap device has a free slot. No page of a file the process mapped itself has been written to (evicting
  such a page panics); pages of the segments of a program may have been, and pages without a file. Then \<open>frame_second_chance_algorithm\<close>
  ends; afterwards a frame is free, and every page of every process, the victim's too, has the bytes it had: a page that was written to is
  on the swap device, any other is dropped and has its bytes in its file, or is zeros again. No file is read or written.
\<close>

theorem eviction_keeps_memory:
  assumes "vm_ok D s" "se_unlocked s" "can_evict s" "pdirs s me \<in> D"
  shows "\<exists>s'. frame_second_chance_algorithm (Suc k) d me s = Some s' \<and> vm_ok D s' \<and> pages_kept s s' \<and> calls s' = calls s
    \<and> bm_used (used_map (upool s')) \<noteq> {..<bit_cnt (used_map (upool s'))}"
  using evict_keeps [OF assms, of k d] by blast

text \<open>
  (C25) The page fault handler brings a page in as it was. A process touches an address of one of its pages that is not in memory; there is a
  free frame, or one that can be evicted as in C26, and memory for a page table if one is needed; no entry is locked. If the page has to
  be read from its file, the file is open and nobody is in the middle of an operation on it (writing to it may be denied). Then \<open>page_fault\<close>
  returns to the process. The address is mapped to memory that holds the byte the page had: the one on the swap device if the page was
  evicted after a write; else that of its file, zero past the end of what the page maps, or zero for a page without a file. No page of
  any process has changed, nor any file.
\<close>

theorem page_fault_brings_page_in:
  assumes "vm_ok D s" "se_unlocked s" "is_user_vaddr a" "a \<noteq> 0" "supp_slot me (pd_no a, pt_no a) s = Some e" "supp s e = Some x"
    "upage x = pg_round_down a" "se_thread x = me" "\<not> resident s x" "has_room (pdirs s me) a s" "can_load s x"
  shows "\<exists>s' p. page_fault (Suc k) d me esp a s = Some (Inr (), s') \<and> vm_ok D s' \<and> pages_kept s s' \<and> same_files (calls s) (calls s')
    \<and> pagedir_get_page (pdirs s me) a (mm s') = Some p \<and> p \<noteq> 0
    \<and> ram (phys (mm s')) p = (if sector_t x \<noteq> BLOCK_SECTOR_T_ERROR then slot_byte (swp s) (sector_t x) (pg_ofs a) else origin s x (pg_ofs a))"
proof -
  obtain s' q where s': "paging_activate (Suc k) d me e s = Some (True, s')" "vm_ok D s'" "pages_kept s s'" "pagedir_get_page (pdirs s me) a (mm s') = Some q"
      "q \<noteq> 0" "ram (phys (mm s')) q = content s x (pg_ofs a)" "same_files (calls s) (calls s')"
    using page_in_reads [OF assms(1,2,6,9,8,7,3,10,11)] by blast
  have c: "content s x (pg_ofs a) = (if sector_t x \<noteq> BLOCK_SECTOR_T_ERROR then slot_byte (swp s) (sector_t x) (pg_ofs a) else origin s x (pg_ofs a))"
    using assms(9) by (simp add: content_def)
  have D: "pdirs s me \<in> D" using entry_okD(9) [OF vm_okD(2) [OF assms(1,6)]] assms(8) by simp
  have "pdirs s me \<noteq> 0" using dir_facts(2) [OF kvmD(3) [OF vm_okD(1) [OF assms(1)]] vm_invD(4) [OF kvmD(1) [OF vm_okD(1) [OF assms(1)]]]] D by blast
  then have "page_fault (Suc k) d me esp a s = Some (Inr (), s')"
    using assms(3,4,5,6) lookup_slot [OF assms(4,3,5), of False] s'(1) by (simp add: page_fault_def is_user_vaddr_def is_kernel_vaddr_def)
  then show ?thesis using s'(2-7) unfolding c by blast
qed

lemma grow_ok:
  assumes ok: "vm_ok D s" "se_unlocked s" and me: "pdirs s me \<in> D" and a: "is_user_vaddr a" "pg_round_down a \<noteq> 0" and slot: "supp_slot me (pd_no a, pt_no a) s = None"
    and new: "supp s (next_supp s) = None" and mem: "mallocs (ufs (calls s)) = []" and out: "pagedir_get_page (pdirs s me) a (mm s) = Some 0"
    and uniq: "\<forall>u y. supp s u = Some y \<longrightarrow> pdirs s (se_thread y) = pdirs s me \<longrightarrow> upage y \<noteq> pg_round_down a"
    and room: "has_room (pdirs s me) a s" and win: "u32 (esp + 2 ^ 32 - 33) < a" "a < u32 (esp + PGSIZE * 100)"
  shows "\<exists>s' p. stack_resized (Suc k) d me esp a s = Some (Inr True, s') \<and> vm_ok D s'
    \<and> (\<forall>u y i. supp s u = Some y \<longrightarrow> i < PGSIZE \<longrightarrow> (\<exists>z. supp s' u = Some z \<and> content s' z i = content s y i))
    \<and> pagedir_get_page (pdirs s me) a (mm s') = Some p \<and> p \<noteq> 0 \<and> ram (phys (mm s')) p = 0"
proof -
  let ?va = "pg_round_down a" and ?e = "next_supp s"
  let ?x = "\<lparr>se_lock = None, se_flags = {PAL_USER, PAL_ZERO}, se_thread = me, sector_t = BLOCK_SECTOR_T_ERROR, se_fd = - 1, se_s = - 1, se_e = - 1, upage = ?va\<rparr>"
  note R = round_down_pages [of a]
  have va: "is_user_vaddr ?va" using a(1) R(5) by (simp add: is_user_vaddr_def)
  have slot': "supp_slot me (pd_no ?va, pt_no ?va) s = None" using slot R by simp
  have na: "a \<noteq> 0" using a(2) R(5) by auto
  have out': "\<not> bit (pte_at (mm s) (pdirs s me) (pg_no ?va)) 0"
    using user_reads(1) [OF vm_okD(1) [OF ok(1)] me a(1)] out R(3) by (auto simp: PHYS_BASE_def split: if_splits)
  obtain T where T: "supp_pagedir_virtual_create me ?va {PAL_USER, PAL_ZERO} s = Some (s\<lparr>supp := (supp s)(?e \<mapsto> ?x), next_supp := ?e + 1, supp_pagedir := T\<rparr>)"
      "Option.bind (T me (pd_no ?va)) (\<lambda>tab. tab (pt_no ?va)) = Some ?e" "vm_ok D (s\<lparr>supp := (supp s)(?e \<mapsto> ?x), next_supp := ?e + 1, supp_pagedir := T\<rparr>)"
    using create_ok [OF ok(1) me va R(4) a(2) slot' new mem out' uniq, of "{PAL_USER, PAL_ZERO}"] by auto
  let ?s = "s\<lparr>supp := (supp s)(?e \<mapsto> ?x), next_supp := ?e + 1, supp_pagedir := T\<rparr>"
  have x: "supp ?s ?e = Some ?x" "\<not> resident ?s ?x" using out' by (simp_all add: resident_def pte_of_def)
  have u: "se_unlocked ?s" using ok(2) by (auto simp: se_unlocked_def)
  have el: "eligible ?s f" if ef: "eligible s f" for f
  proof -
    obtain v y where y: "holds s f v" "supp s v = Some y" "se_lock y = None" "\<not> prohibit_cache (frames s f)" using ef by (auto simp: eligible_def)
    have "v \<noteq> ?e" using y(2) new by auto
    then show ?thesis using y by (auto simp: eligible_def holds_def)
  qed
  have ld: "can_load ?s ?x" by (simp add: can_load_def)
  have room': "has_room (pdirs ?s me) a ?s" using room el by (auto simp: has_room_def can_evict_def upool_def swap_map_def)
  obtain s' q where s': "paging_activate (Suc k) d me ?e ?s = Some (True, s')" "vm_ok D s'" "pages_kept ?s s'" "pagedir_get_page (pdirs s me) a (mm s') = Some q"
      "q \<noteq> 0" "ram (phys (mm s')) q = content ?s ?x (pg_ofs a)"
    using page_in_reads [OF T(3) u x _ _ a(1) room' ld, of k d] by auto
  have z: "content ?s ?x i = 0" for i using x(2) by (simp add: content_def origin_of_def)
  have sl: "supp_slot me (pd_no a, pt_no a) ?s = Some ?e" using T(2) R(1,2) by (simp add: supp_slot_def)
  have "stack_resized (Suc k) d me esp a s = Some (Inr True, s')"
    using win T(1) lookup_slot [OF na a(1) sl] x(1) sl s'(1) by (simp add: stack_resized_def)
  moreover have "\<exists>z. supp s' u = Some z \<and> content s' z i = content s y i" if y: "supp s u = Some y" "i < PGSIZE" for u y i
  proof -
    have "u \<noteq> ?e" using y(1) new by auto
    then have "supp ?s u = Some y" using y(1) by simp
    then obtain t where "supp s' u = Some (y\<lparr>sector_t := t\<rparr>)" "\<And>i. i < PGSIZE \<Longrightarrow> content s' (y\<lparr>sector_t := t\<rparr>) i = content ?s y i" using pages_keptD [OF s'(3)] by blast
    then show ?thesis using y(2) by auto
  qed
  ultimately show ?thesis using s'(2,4,5,6) z by (intro exI [of _ s'] exI [of _ q]) simp
qed


text \<open>
  (C28) The stack grows on demand. A process touches an address without a page, at most 32 bytes below its stack pointer and below a
  hundred pages above it; allocating the entry succeeds, there is a free frame, or one that can be evicted as in C26, and memory for a
  page table if one is needed; no entry is locked. Then \<open>page_fault\<close> returns to the process with the address mapped to a zero byte, and all pages
  there were, those of files too, keep their bytes.
\<close>

theorem page_fault_grows_stack:
  assumes "vm_ok D s" "se_unlocked s" "pdirs s me \<in> D" "is_user_vaddr a" "pg_round_down a \<noteq> 0" "supp_slot me (pd_no a, pt_no a) s = None"
    "supp s (next_supp s) = None" "mallocs (ufs (calls s)) = []" "pagedir_get_page (pdirs s me) a (mm s) = Some 0"
    "\<forall>u y. supp s u = Some y \<longrightarrow> pdirs s (se_thread y) = pdirs s me \<longrightarrow> upage y \<noteq> pg_round_down a"
    "has_room (pdirs s me) a s" "u32 (esp + 2 ^ 32 - 33) < a" "a < u32 (esp + PGSIZE * 100)"
  shows "\<exists>s' p. page_fault (Suc k) d me esp a s = Some (Inr (), s') \<and> vm_ok D s'
    \<and> (\<forall>u y i. supp s u = Some y \<longrightarrow> i < PGSIZE \<longrightarrow> (\<exists>z. supp s' u = Some z \<and> content s' z i = content s y i))
    \<and> pagedir_get_page (pdirs s me) a (mm s') = Some p \<and> p \<noteq> 0 \<and> ram (phys (mm s')) p = 0"
proof -
  have na: "a \<noteq> 0" using assms(5) round_down_pages(5) [of a] by auto
  obtain slot where l: "supp_pagedir_lookup me a False s = Some (slot, s)" "Option.bind slot (\<lambda>ij. supp_slot me ij s) = None"
    by (rule lookup_empty [OF na assms(4,6)])
  have nz: "pdirs s me \<noteq> 0" using dir_facts(2) [OF kvmD(3) [OF vm_okD(1) [OF assms(1)]] vm_invD(4) [OF kvmD(1) [OF vm_okD(1) [OF assms(1)]]]] assms(3) by blast
  have "page_fault (Suc k) d me esp a s = Some (Inr (), s')" if "stack_resized (Suc k) d me esp a s = Some (Inr True, s')" for s'
    using assms(4) na nz l that by (simp add: page_fault_def is_user_vaddr_def is_kernel_vaddr_def)
  then show ?thesis using grow_ok [OF assms(1-13), of k d] by blast
qed

text \<open>
  (C27) A byte stored stays stored through eviction. The running process writes a byte to a page in memory that it may write to: a page without a
  file, or one of a segment of its program, not of a file it mapped itself, which could not be evicted any more. Then the clock evicts
  some page, possibly this one, under the conditions of C26: some frame is neither pinned nor locked, and the swap device has a free
  slot. Afterwards the page has the new byte there, and every other byte of every page is as before the store.
\<close>

theorem stored_byte_survives_eviction:
  assumes "vm_ok D s" "se_unlocked s" "supp s e = Some x" "resident s x" "bit (pte_of s x) 1" "bit (pte_of s x) 2" "active (mm s) = pdirs s (se_thread x)"
    "i < PGSIZE" "can_evict s" "pdirs s me \<in> D" "se_fd x = - 1 \<or> PAL_DONT_SYNC_ON_DISK \<in> se_flags x"
  shows "\<exists>s1 s2. on_mm (user_store (upage x + i) b) s = Some s1 \<and> frame_second_chance_algorithm (Suc k) d me s1 = Some s2 \<and> vm_ok D s2
    \<and> (\<forall>u y j. supp s u = Some y \<longrightarrow> j < PGSIZE \<longrightarrow> (\<exists>z. supp s2 u = Some z \<and> content s2 z j = (if u = e \<and> j = i then b else content s y j)))"
proof -
  obtain s1 where s1: "on_mm (user_store (upage x + i) b) s = Some s1" "vm_ok D s1" "supp s1 = supp s" "pdirs s1 = pdirs s" "can_evict s1"
      "\<And>u y j. supp s u = Some y \<Longrightarrow> j < PGSIZE \<Longrightarrow> content s1 y j = (if u = e \<and> j = i then b else content s y j)"
    using store_ok [OF assms(1,3-8), of b] assms(9,11) by blast
  have "se_unlocked s1" "pdirs s1 me \<in> D" using assms(2,10) s1(3,4) by (simp_all add: se_unlocked_def)
  then obtain s2 where s2: "frame_second_chance_algorithm (Suc k) d me s1 = Some s2" "vm_ok D s2" "pages_kept s1 s2" using evict_keeps [OF s1(2) _ s1(5), of me k d] by blast
  have "\<exists>z. supp s2 u = Some z \<and> content s2 z j = (if u = e \<and> j = i then b else content s y j)" if "supp s u = Some y" "j < PGSIZE" for u y j
    using pages_keptD [OF s2(3), of u y] s1(3) s1(6) [OF that] that by (metis (no_types, lifting))
  then show ?thesis using s1(1) s2(1,2) by blast
qed

lemma supp_slot_views [simp]: "supp_slot t ij (s\<lparr>supp := g\<rparr>) = supp_slot t ij s" "supp_slot t ij (s\<lparr>frames := fr\<rparr>) = supp_slot t ij s"
  by (simp_all add: supp_slot_def)

text \<open>Pinning a page that is in memory, or no longer pinning it, changes no byte.\<close>

lemma set_prohibit_resident:
  assumes ok: "vm_ok D s" and u: "se_unlocked s" and x: "supp s e = Some x" "resident s x" "se_thread x = me" and a: "upage x = pg_round_down a" "is_user_vaddr a" "a \<noteq> 0"
    and slot: "supp_slot me (pd_no a, pt_no a) s = Some e"
  obtains y g where "set_prohibit_with mr d me a prohibit s = Some (s\<lparr>supp := (supp s)(e \<mapsto> y), frames := g\<rparr>)"
    "y = x\<lparr>se_flags := if prohibit then insert PAL_PROHIBIT_CACHE (se_flags x) else se_flags x - {PAL_PROHIBIT_CACHE}\<rparr>"
    "\<And>f. holds s f e \<Longrightarrow> prohibit_cache (g f) = prohibit" "\<And>f. fr_user (g f) = fr_user (frames s f)"
proof -
  note F = frames_okD [OF vm_okD(4) [OF ok]]
  let ?y = "x\<lparr>se_flags := if prohibit then insert PAL_PROHIBIT_CACHE (se_flags x) else se_flags x - {PAL_PROHIBIT_CACHE}\<rparr>"
  obtain f where h: "holds s f e" using F(5) [OF x(1,2)] by blast
  note P = page_facts [OF ok h x(1)]
  have free: "se_lock x = None" using u x(1) by (simp add: se_unlocked_def)
  have f: "f < bit_cnt (used_map (upool s))" using holds_facts [OF ok h] by blast
  have po: "pool_ok (upool s)" using kvmD(4) [OF vm_okD(1) [OF ok]] by (simp add: palloc_ok_def upool_def)
  have idx: "palloc_page_to_idx {PAL_USER, PAL_THROUGH_FRAME} (page_of s x) (phys (mm s)) = Some f"
    using palloc_page_to_idx_ok [of "{PAL_USER, PAL_THROUGH_FRAME}" "phys (mm s)" f] po f unfolding P(1) by (simp add: pool_of_def upool_def)
  have small: "f \<noteq> UINT32_MAX"
  proof -
    have "page_at (upool s) f < 2 ^ 32" using page_at_facts(6) [OF po f] by (simp add: PGSIZE_eq)
    then show ?thesis by (simp add: page_at_def PGSIZE_eq UINT32_MAX_def)
  qed
  have get: "pagedir_get_page (pdirs s me) (pg_round_down a) (mm s) = Some (page_of s x)" using P(7) x(3) a(1) by simp
  have unl: "x\<lparr>se_flags := fl, se_lock := None\<rparr> = x\<lparr>se_flags := fl\<rparr>" for fl using free by (cases x) simp
  let ?g = "(frames s)(f := (frames s f)\<lparr>prohibit_cache := prohibit\<rparr>)"
  have "set_prohibit_with mr d me a prohibit s = Some (s\<lparr>supp := (supp s)(e \<mapsto> ?y), frames := ?g\<rparr>)"
    using lookup_slot [OF a(3,2) slot, of False] slot x(1) free get P(8) idx small f F(1) a(3)
    by (simp add: set_prohibit_with_def upd_supp_def se_acquire_def se_release_def frame_set_prohibit_def frame_get_frame_def unl)
  then show thesis by (rule that) (use holds_inj [OF ok h] in auto)
qed

lemma reflagged [simp]: "content s (x\<lparr>se_flags := fl\<rparr>) = content s x"
  by (simp add: content_def resident_def page_of_def pte_of_def fun_eq_iff)

lemma reframed [simp]: "content (s\<lparr>frames := g\<rparr>) = content s" "resident (s\<lparr>frames := g\<rparr>) = resident s"
  by (simp_all add: content_def resident_def page_of_def pte_of_def fun_eq_iff)

definition near_stack :: "nat \<Rightarrow> nat \<Rightarrow> bool" where
  "near_stack esp a \<longleftrightarrow> u32 (esp + 2 ^ 32 - 33) < a \<and> a < u32 (esp + PGSIZE * 100)"

text \<open>Away from the stack pointer the page is brought in and pinned.\<close>

lemma pointer_pages_in:
  assumes ok: "vm_ok D s" and x: "supp s e = Some x" "\<not> resident s x" "se_thread x = me" and a: "upage x = pg_round_down a" "is_user_vaddr a"
    and slot: "supp_slot me (pd_no a, pt_no a) s = Some e" and dir: "pdirs s me \<noteq> 0" and get: "pagedir_get_page (pdirs s me) a (mm s) = Some 0" and na: "a \<noteq> 0"
    and far: "\<not> near_stack esp a" and ul: "se_unlocked s" and room: "has_room (pdirs s me) a s" and load: "can_load s x"
  shows "\<exists>s' p. check_pointer (Suc k) d me esp a True prohibit s = Some (Inr (), s')
          \<and> pagedir_get_page (pdirs s me) a (mm s') = Some p \<and> p \<noteq> 0 \<and> ram (phys (mm s')) p = content s x (pg_ofs a)
          \<and> (\<exists>f. holds s' f e \<and> prohibit_cache (frames s' f) = prohibit)
          \<and> (\<forall>u y i. supp s u = Some y \<longrightarrow> i < PGSIZE \<longrightarrow> (\<exists>z. supp s' u = Some z \<and> content s' z i = content s y i))"
proof -
  let ?z = "x\<lparr>sector_t := BLOCK_SECTOR_T_ERROR\<rparr>"
  obtain s1 p where s1: "paging_activate (Suc k) d me e s = Some (True, s1)" "vm_ok D s1" "se_unlocked s1" "pages_kept s s1"
      "pagedir_get_page (pdirs s me) a (mm s1) = Some p" "p \<noteq> 0" "ram (phys (mm s1)) p = content s x (pg_ofs a)" "supp s1 e = Some ?z" "resident s1 ?z"
    using page_in_reads [OF ok ul x a room load, of k d] by auto
  have same: "supp_pagedir s1 = supp_pagedir s" "pdirs s1 = pdirs s" using s1(4) by (simp_all add: pages_kept_def)
  have slot1: "supp_slot me (pd_no a, pt_no a) s1 = Some e" using slot same by (simp add: supp_slot_def)
  have "supp_pagedir_lookup me a False s = Some (Some (pd_no a, pt_no a), s)" using lookup_slot [OF na a(2) slot] x(1) by simp
  then have rs: "stack_resized (Suc k) d me esp a s = Some (Inr True, s1)"
    unfolding stack_resized_def if_not_P [OF far [unfolded near_stack_def]] using slot s1(1) by simp
  obtain y g where q: "supp_pagedir_set_prohibit (Suc k) d me a prohibit s1 = Some (s1\<lparr>supp := (supp s1)(e \<mapsto> y), frames := g\<rparr>)"
      "y = ?z\<lparr>se_flags := if prohibit then insert PAL_PROHIBIT_CACHE (se_flags ?z) else se_flags ?z - {PAL_PROHIBIT_CACHE}\<rparr>" "\<And>f. holds s1 f e \<Longrightarrow> prohibit_cache (g f) = prohibit" "\<And>f. fr_user (g f) = fr_user (frames s1 f)"
    unfolding supp_pagedir_set_prohibit_def by (rule set_prohibit_resident [OF s1(2,3,8,9) _ _ a(2) na slot1]) (use x(3) a(1) in auto)
  let ?s = "s1\<lparr>supp := (supp s1)(e \<mapsto> y), frames := g\<rparr>"
  have "check_pointer (Suc k) d me esp a True prohibit s = Some (Inr (), ?s)"
    using a(2) dir get rs q s1(5,6) same slot1 lookup_slot [OF na a(2), of me ?s e False]
    by (simp add: check_pointer_def)
  moreover have "\<exists>w. supp ?s u = Some w \<and> content ?s w i = content s v i" if v: "supp s u = Some v" "i < PGSIZE" for u v i
  proof -
    obtain t where t: "supp s1 u = Some (v\<lparr>sector_t := t\<rparr>)" "content s1 (v\<lparr>sector_t := t\<rparr>) i = content s v i" using pages_keptD [OF s1(4) v(1)] v(2) by blast
    then show ?thesis using s1(8) q(2) by (cases "u = e") simp_all
  qed
  moreover have "\<exists>f. holds ?s f e \<and> prohibit_cache (frames ?s f) = prohibit"
    using frames_okD(5) [OF vm_okD(4) [OF s1(2)] s1(8,9)] q(3,4) by (auto simp: holds_def)
  ultimately show ?thesis using s1(5-7) by (intro exI [of _ ?s] exI [of _ p]) simp
qed

text \<open>
  (C31) A pointer to a page that is not in memory. \<open>check_pointer\<close> asks the page table first, and a page of the process that was evicted or not
  touched yet is not in it. What then becomes of a system call that is given a valid pointer into such a page, with a file behind it
  or not, depends on the call and on where the page is. If the call does not let the stack grow (all but \<open>read\<close>, \<open>write\<close> and \<open>readdir\<close>), the process
  is killed. If it does, and the address is at most 32 bytes below the stack pointer and below a hundred pages above it, the kernel panics,
  as the page has an entry already. If it does and the address is elsewhere, the page is brought in as by a page fault (under the
  conditions of C25), the call goes on, the address is mapped to the byte it had, and every other page keeps its bytes.
\<close>

theorem absent_pointer_outcomes:
  assumes "vm_ok D s" "supp s e = Some x" "\<not> resident s x" "se_thread x = me" "upage x = pg_round_down a" "is_user_vaddr a"
    "supp_slot me (pd_no a, pt_no a) s = Some e"
  shows "check_pointer k d me esp a False prohibit s = Some (Inl (), s)
    \<and> (near_stack esp a \<longrightarrow> check_pointer k d me esp a True prohibit s = None)
    \<and> (\<not> near_stack esp a \<longrightarrow> se_unlocked s \<longrightarrow> has_room (pdirs s me) a s \<longrightarrow> can_load s x \<longrightarrow> 0 < k \<longrightarrow>
        (\<exists>s' p. check_pointer k d me esp a True prohibit s = Some (Inr (), s')
          \<and> pagedir_get_page (pdirs s me) a (mm s') = Some p \<and> p \<noteq> 0 \<and> ram (phys (mm s')) p = content s x (pg_ofs a)
          \<and> (\<exists>f. holds s' f e \<and> prohibit_cache (frames s' f) = prohibit)
          \<and> (\<forall>u y i. supp s u = Some y \<longrightarrow> i < PGSIZE \<longrightarrow> (\<exists>z. supp s' u = Some z \<and> content s' z i = content s y i))))"
proof -
  note E = entry_okD [OF vm_okD(2) [OF assms(1,2)]]
  have D: "pdirs s me \<in> D" using E(9) assms(4) by simp
  have nz: "pdirs s me \<noteq> 0" using dir_facts(2) [OF kvmD(3) [OF vm_okD(1) [OF assms(1)]] vm_invD(4) [OF kvmD(1) [OF vm_okD(1) [OF assms(1)]]]] D by blast
  have get: "pagedir_get_page (pdirs s me) a (mm s) = Some 0"
    using user_reads(1) [OF vm_okD(1) [OF assms(1)] D assms(6)] assms(3,4,5) by (simp add: resident_def pte_of_def round_down_pages)
  note R = round_down_pages [of a]
  have va: "is_user_vaddr (pg_round_down a)" "pg_round_down a \<noteq> 0" using E(6,8) assms(5) by simp_all
  have na: "a \<noteq> 0" using va(2) R(5) by auto
  have "supp_pagedir_lookup me (pg_round_down a) mk s = Some (Some (pd_no a, pt_no a), s)" for mk
    using lookup_slot [OF va(2,1), of me s e mk] assms(2,7) R(1,2) by simp
  then have "supp_pagedir_virtual_create me (pg_round_down a) {PAL_USER, PAL_ZERO} s = None"
    using va R(4) assms(7) by (simp add: supp_pagedir_virtual_create_def)
  then have refused: "check_pointer k d me esp a False prohibit s = Some (Inl (), s)" "near_stack esp a \<longrightarrow> check_pointer k d me esp a True prohibit s = None"
    using assms(6) nz get by (auto simp: check_pointer_def stack_resized_def near_stack_def)
  have "\<exists>s' p. check_pointer k d me esp a True prohibit s = Some (Inr (), s')
          \<and> pagedir_get_page (pdirs s me) a (mm s') = Some p \<and> p \<noteq> 0 \<and> ram (phys (mm s')) p = content s x (pg_ofs a)
          \<and> (\<exists>f. holds s' f e \<and> prohibit_cache (frames s' f) = prohibit)
          \<and> (\<forall>u y i. supp s u = Some y \<longrightarrow> i < PGSIZE \<longrightarrow> (\<exists>z. supp s' u = Some z \<and> content s' z i = content s y i))"
    if "\<not> near_stack esp a" "se_unlocked s" "has_room (pdirs s me) a s" "can_load s x" "0 < k"
    using pointer_pages_in [OF assms(1-7) nz get na that(1-4), of "k - 1" d prohibit] that(5) by simp
  then show ?thesis using refused by blast
qed

section \<open>Examples\<close>

text \<open>A machine with one process and a swap device of one page.\<close>

lemma kvm_example: "\<exists>st pd. kvm {pd} st \<and> pd \<in> {pd} \<and> tables st pd = {} \<and> card (kpages (phys st)) < bit_cnt (used_map (kernel_pool (phys st)))
    \<and> bm_used (used_map (user_pool (phys st))) = {} \<and> 0 < bit_cnt (used_map (user_pool (phys st)))"
proof -
  obtain p fr where p: "palloc_init 1024 1000 (\<lambda>_. 0) (\<lambda>_. 0) (\<lambda>_. 0) = Some (p, fr)" "palloc_ok p" "bm_used (used_map (kernel_pool p)) = {}"
      "384 \<le> bit_cnt (used_map (kernel_pool p)) + 2" "bm_used (used_map (user_pool p)) = {}"
      "pool_base (user_pool p) + PGSIZE * bit_cnt (used_map (user_pool p)) = PHYS_BASE + PGSIZE * 1024" "384 \<le> bit_cnt (used_map (user_pool p)) + 8"
    using palloc_init_ok [of 1024 1000 "\<lambda>_. 0" "\<lambda>_. 0" "\<lambda>_. 0"] by auto
  define st0 where "st0 = \<lparr>phys = p, init_page_dir = 0, init_ram_pages = 1024, cr3 = 0, tlb = \<lambda>_. None\<rparr>"
  have room: "card (kpages (phys st0)) + 1 + (init_ram_pages st0 + 1023) div 1024 \<le> bit_cnt (used_map (kernel_pool (phys st0)))" "palloc_ok (phys st0)"
    "0 < init_ram_pages st0" "init_ram_pages st0 \<le> 262144" using p by (simp_all add: st0_def kpages_def)
  have top: "pool_base (user_pool (phys st0)) + PGSIZE * bit_cnt (used_map (user_pool (phys st0))) \<le> PHYS_BASE + PGSIZE * init_ram_pages st0" using p(6) by (simp add: st0_def)
  obtain st1 where st1: "paging_init 0 0 st0 = Some st1" by (rule paging_init_ok [OF room(2,3,4,1)])
  note S = vm_start [OF room(2,3,4,1) st1] and K = kvm_boot [OF room(2,3,4,1) top st1] and U = paging_init_user_pool [OF st1]
  note V = vm_invD [OF S(1)]
  have init: "dir_ok st1 (init_page_dir st1)" using V(4) by simp
  have small: "card (kpages (phys st1)) + 2 < bit_cnt (used_map (kernel_pool (phys st1)))" using S(4,6) p(3,4) by (simp add: st0_def kpages_def)
  show ?thesis
  proof (cases rule: pagedir_create_ok [OF V(1) init V(3)])
    case 1
    then show ?thesis using small by simp
  next
    case (2 pd st)
    have "finite (kpages (phys st1))" by (simp add: kpages_def bm_used_def)
    then have "card (kpages (phys st)) < bit_cnt (used_map (kernel_pool (phys st)))" using small 2(3,4,14) by simp
    moreover have "user_pool (phys st) = user_pool p" using kvm_create(2) [OF K 2(1,2)] U by (simp add: st0_def)
    ultimately show ?thesis using kvm_create(1) [OF K 2(1,2)] 2(7) p(5,7) by (intro exI [of _ st] exI [of _ pd]) simp
  qed
qed


definition empty_vm :: "mmu \<Rightarrow> nat \<Rightarrow> users \<Rightarrow> vm" where
  "empty_vm m pd c = \<lparr>mm = m, swp = \<lparr>swap_device = \<lparr>sectors = replicate 8 (replicate 512 0), read_cnt = 0, write_cnt = 0\<rparr>, s_map = Some \<lparr>bit_cnt = 1, bits = [0]\<rparr>\<rparr>,
     frames = \<lambda>_. \<lparr>fr_user = None, prohibit_cache = False\<rparr>, num_of_frames = bit_cnt (used_map (user_pool (phys m))), ordered_list = [], supp = \<lambda>_. None, next_supp = 0,
     supp_pagedir = \<lambda>_ _. None, pdirs = \<lambda>_. pd, mmap_address = \<lambda>_. [], mmap_id = 0, calls = c\<rparr>"

lemma one_slot: "bm_wf \<lparr>bit_cnt = 1, bits = [0]\<rparr>" "bm_used \<lparr>bit_cnt = 1, bits = [0]\<rparr> = {}" "swap_map (empty_vm m pd c) = \<lparr>bit_cnt = 1, bits = [0]\<rparr>"
proof -
  show "bm_used \<lparr>bit_cnt = 1, bits = [0]\<rparr> = {}"
  proof (intro equals0I)
    fix i assume "i \<in> bm_used \<lparr>bit_cnt = 1, bits = [0]\<rparr>"
    then show False by (cases i) (simp_all add: bm_used_def bm_abs_def bm_bit_def)
  qed
qed (simp_all add: bm_wf_def elem_cnt_def ELEM_BITS_def DIV_ROUND_UP_def swap_map_def empty_vm_def)

lemma empty_vm_ok: "kvm D m \<Longrightarrow> bm_used (used_map (user_pool (phys m))) = {} \<Longrightarrow> vm_ok D (empty_vm m pd c)"
  using one_slot by (auto simp: vm_ok_def frames_ok_def swapped_ok_def clean_ok_def empty_vm_def upool_def swap_map_def swap_ok_def block_size_def BLOCK_SECTOR_SIZE_def)

lemma vm_example_with:
  assumes "mallocs (ufs c) = []"
  shows "\<exists>s pd. vm_ok {pd} s \<and> se_unlocked s \<and> pdirs s = (\<lambda>_. pd) \<and> supp s = (\<lambda>_. None) \<and> supp_pagedir s = (\<lambda>_ _. None) \<and> calls s = c
    \<and> pagedir_get_page pd 0xBFFF0000 (mm s) = Some 0 \<and> (\<forall>va. has_room pd va s) \<and> bm_used (used_map (upool s)) \<noteq> {..<bit_cnt (used_map (upool s))}
    \<and> (\<forall>n<USER_PAGES. \<not> bit (pte_at (mm s) pd n) 0) \<and> bm_used (swap_map s) \<noteq> {..<bit_cnt (swap_map s)}"
proof -
  obtain st pd where k: "kvm {pd} st" "tables st pd = {}" "card (kpages (phys st)) < bit_cnt (used_map (kernel_pool (phys st)))"
    "bm_used (used_map (user_pool (phys st))) = {}" "0 < bit_cnt (used_map (user_pool (phys st)))" using kvm_example by blast
  let ?s = "empty_vm st pd c"
  have z: "\<not> bit (pte_at st pd n) 0" if "n < USER_PAGES" for n using k(2) user_index [OF that] by (auto simp: pte_at_def tables_def)
  have n: "pg_no 0xBFFF0000 < USER_PAGES" "is_user_vaddr 0xBFFF0000" by (simp_all add: pg_no_def PGSIZE_eq USER_PAGES_def is_user_vaddr_def PHYS_BASE_def)
  have "pagedir_get_page pd 0xBFFF0000 st = Some 0" using user_reads(1) [OF k(1) _ n(2), of pd] z [OF n(1)] by simp
  then show ?thesis using empty_vm_ok [OF k(1,4)] k(3,4,5) z one_slot(2) one_slot(3) [of st pd]
    by (intro exI [of _ ?s] exI [of _ pd]) (auto simp: empty_vm_def se_unlocked_def has_room_def upool_def)
qed

lemma vm_example_fresh:
  "\<exists>s pd. vm_ok {pd} s \<and> se_unlocked s \<and> pdirs s = (\<lambda>_. pd) \<and> supp s = (\<lambda>_. None) \<and> supp_pagedir s = (\<lambda>_ _. None) \<and> mallocs (ufs (calls s)) = []
    \<and> pagedir_get_page pd 0xBFFF0000 (mm s) = Some 0 \<and> (\<forall>va. has_room pd va s)"
proof -
  obtain c :: users where c: "mallocs (ufs c) = []" using program_file_example by blast
  show ?thesis using vm_example_with [OF c] c by metis
qed

theorem page_fault_grows_stack_witness:
  "\<exists>s D s' p. vm_ok D s \<and> page_fault 1 9 0 0xBFFF0000 0xBFFF0000 s = Some (Inr (), s') \<and> vm_ok D s' \<and> pagedir_get_page (pdirs s 0) 0xBFFF0000 (mm s') = Some p \<and> p \<noteq> 0"
proof -
  obtain s pd where s: "vm_ok {pd} s" "se_unlocked s" "pdirs s = (\<lambda>_. pd)" "supp s = (\<lambda>_. None)" "supp_pagedir s = (\<lambda>_ _. None)" "mallocs (ufs (calls s)) = []"
    "pagedir_get_page pd 0xBFFF0000 (mm s) = Some 0" "\<forall>va. has_room pd va s" using vm_example_fresh by metis
  have a: "is_user_vaddr 0xBFFF0000" "pg_round_down 0xBFFF0000 \<noteq> 0" "u32 (0xBFFF0000 + 2 ^ 32 - 33) < (0xBFFF0000 :: nat)" "0xBFFF0000 < u32 (0xBFFF0000 + PGSIZE * 100)"
    by (simp_all add: is_user_vaddr_def PHYS_BASE_def pg_round_down_def PGSIZE_eq u32_def)
  show ?thesis using page_fault_grows_stack [where k = 0 and d = 9 and me = 0, OF s(1,2) _ a(1,2) _ _ s(6) _ _ _ a(3,4)] s by (fastforce simp: supp_slot_def)
qed

text \<open>The process has two pages, untouched: one of its stack and one of its program, at the start of the file of \<open>program_file_example\<close>.\<close>

definition file_page :: supp_pagedir_entry where
  "file_page = \<lparr>se_lock = None, se_flags = {PAL_USER, PAL_ZERO, PAL_DONT_SYNC_ON_DISK}, se_thread = 0, sector_t = BLOCK_SECTOR_T_ERROR, se_fd = 2, se_s = 0, se_e = 4096, upage = 0x8450000\<rparr>"

lemma vm_example_page:
  "\<exists>s pd e x e2. vm_ok {pd} s \<and> se_unlocked s \<and> pdirs s = (\<lambda>_. pd) \<and> supp s e = Some x \<and> \<not> resident s x \<and> se_thread x = 0 \<and> upage x = 0x8048000 \<and> se_flags x = {PAL_USER, PAL_ZERO}
    \<and> sector_t x = BLOCK_SECTOR_T_ERROR \<and> se_fd x = - 1 \<and> supp_slot 0 (pd_no 0x8048123, pt_no 0x8048123) s = Some e \<and> (\<forall>va. has_room pd va s)
    \<and> bm_used (used_map (upool s)) \<noteq> {..<bit_cnt (used_map (upool s))} \<and> bm_used (swap_map s) \<noteq> {..<bit_cnt (swap_map s)}
    \<and> supp s e2 = Some file_page \<and> \<not> resident s file_page \<and> supp_slot 0 (pd_no 0x8450259, pt_no 0x8450259) s = Some e2 \<and> file_ready (calls s) file_page \<and> origin s file_page 601 = 2"
proof -
  obtain c :: users where c: "mallocs (ufs c) = []" "file_ready c file_page" "origin_of c file_page 601 = 2"
    using program_file_example by (auto simp: file_page_def)
  obtain s pd where s: "vm_ok {pd} s" "se_unlocked s" "pdirs s = (\<lambda>_. pd)" "supp s = (\<lambda>_. None)" "supp_pagedir s = (\<lambda>_ _. None)" "calls s = c"
    "\<forall>va. has_room pd va s" "bm_used (used_map (upool s)) \<noteq> {..<bit_cnt (used_map (upool s))}" "\<forall>n<USER_PAGES. \<not> bit (pte_at (mm s) pd n) 0"
    "bm_used (swap_map s) \<noteq> {..<bit_cnt (swap_map s)}"
    using vm_example_with [OF c(1)] by metis
  have mem: "mallocs (ufs (calls s)) = []" using c(1) s(6) by simp
  have va: "is_user_vaddr 0x8048000" "pg_ofs 0x8048000 = 0" "(0x8048000 :: nat) \<noteq> 0" "pg_no 0x8048000 < USER_PAGES" "pd_no 0x8048123 = 32" "pt_no 0x8048123 = 72" "pd_no 0x8048000 = 32" "pt_no 0x8048000 = 72"
    by (simp_all add: is_user_vaddr_def PHYS_BASE_def pg_ofs_def pg_no_def USER_PAGES_def PGSIZE_eq pt_pd_no)
  have va2: "is_user_vaddr 0x8450000" "pg_ofs 0x8450000 = 0" "pg_no 0x8450000 < USER_PAGES" "pd_no 0x8450259 = 33" "pt_no 0x8450259 = 80"
    by (simp_all add: is_user_vaddr_def PHYS_BASE_def pg_ofs_def pg_no_def USER_PAGES_def PGSIZE_eq pt_pd_no)
  let ?x = "\<lparr>se_lock = None, se_flags = {PAL_USER, PAL_ZERO}, se_thread = 0, sector_t = BLOCK_SECTOR_T_ERROR, se_fd = - 1, se_s = - 1, se_e = - 1, upage = 0x8048000\<rparr>"
  obtain T where T: "Option.bind (T 0 (pd_no 0x8048000)) (\<lambda>tab. tab (pt_no 0x8048000)) = Some (next_supp s)"
      "vm_ok {pd} (s\<lparr>supp := (supp s)(next_supp s \<mapsto> ?x), next_supp := next_supp s + 1, supp_pagedir := T\<rparr>)"
    using create_ok [OF s(1) _ va(1-3), of 0 "{PAL_USER, PAL_ZERO}"] s mem va(4) by (auto simp: supp_slot_def)
  let ?s = "s\<lparr>supp := (supp s)(next_supp s \<mapsto> ?x), next_supp := next_supp s + 1, supp_pagedir := T\<rparr>"
  let ?e2 = "next_supp s + 1"
  let ?t = "?s\<lparr>supp := (supp ?s)(?e2 \<mapsto> file_page), supp_pagedir := T(0 := (T 0)(33 \<mapsto> [80 \<mapsto> ?e2]))\<rparr>"
  have out: "\<not> resident ?t ?x" "\<not> resident ?t file_page" "\<not> resident ?s file_page" using s(9) va(4) va2(3) s(3) by (simp_all add: resident_def pte_of_def file_page_def)
  have en: "entry_ok {pd} ?s file_page" using s(3) va2 by (simp add: entry_ok_def file_page_def PGSIZE_eq)
  have "vm_ok {pd} (?s\<lparr>supp := (supp ?s)(?e2 \<mapsto> file_page)\<rparr>)"
    by (rule new_entry_ok [OF T(2) _ en _ out(3)]) (use s(4) in \<open>auto simp: file_page_def\<close>)
  then have "vm_ok {pd} (?s\<lparr>supp := (supp ?s)(?e2 \<mapsto> file_page)\<rparr>\<lparr>supp_pagedir := T(0 := (T 0)(33 \<mapsto> [80 \<mapsto> ?e2]))\<rparr>)" by (simp only: other_views(2))
  then have "vm_ok {pd} ?t" by simp
  moreover have "has_room pd a ?t" for a using s(7) [rule_format, of a] s(8) by (simp add: has_room_def upool_def)
  moreover have "supp_slot 0 (pd_no 0x8048123, pt_no 0x8048123) ?t = Some (next_supp s)" "supp_slot 0 (pd_no 0x8450259, pt_no 0x8450259) ?t = Some ?e2"
    using T(1) va(5-8) va2(4,5) by (simp_all add: supp_slot_def)
  ultimately show ?thesis using out s(2,3,4,6,8,10) c(2,3)
    by (intro exI [of _ ?t] exI [of _ pd] exI [of _ "next_supp s"] exI [of _ ?x] exI [of _ ?e2]) (simp add: se_unlocked_def upool_def swap_map_def file_page_def)
qed

text \<open>The process reads the byte 601 of the file its program runs from.\<close>

theorem page_fault_brings_page_in_witness:
  "\<exists>D s s' p. vm_ok D s \<and> page_fault 1 9 0 0xBFFF0000 0x8450259 s = Some (Inr (), s') \<and> vm_ok D s' \<and> pagedir_get_page (pdirs s 0) 0x8450259 (mm s') = Some p \<and> p \<noteq> 0
    \<and> ram (phys (mm s')) p = 2"
proof -
  obtain s pd e2 where s: "vm_ok {pd} s" "se_unlocked s" "pdirs s = (\<lambda>_. pd)" "supp s e2 = Some file_page" "\<not> resident s file_page"
      "supp_slot 0 (pd_no 0x8450259, pt_no 0x8450259) s = Some e2" "\<forall>va. has_room pd va s" "file_ready (calls s) file_page" "origin s file_page 601 = 2" using vm_example_page by metis
  have a: "is_user_vaddr 0x8450259" "(0x8450259 :: nat) \<noteq> 0" "upage file_page = pg_round_down 0x8450259" "se_thread file_page = 0" "pg_ofs 0x8450259 = 601" "sector_t file_page = BLOCK_SECTOR_T_ERROR"
    by (simp_all add: file_page_def is_user_vaddr_def PHYS_BASE_def pg_round_down_def pg_ofs_def PGSIZE_eq)
  have r: "has_room (pdirs s 0) 0x8450259 s" "can_load s file_page" using s(3,7,8) by (simp_all add: can_load_def)
  obtain s' p where "page_fault (Suc 0) 9 0 0xBFFF0000 0x8450259 s = Some (Inr (), s')" "vm_ok {pd} s'" "pagedir_get_page (pdirs s 0) 0x8450259 (mm s') = Some p" "p \<noteq> 0"
      "ram (phys (mm s')) p = 2"
    using page_fault_brings_page_in [OF s(1,2) a(1,2) s(6,4) a(3,4) s(5) r, of 0 9 "0xBFFF0000"] a(5,6) s(9) by auto
  then show ?thesis using s(1) unfolding One_nat_def by blast
qed

theorem absent_pointer_outcomes_witness:
  "\<exists>D s s' p. vm_ok D s \<and> check_pointer 1 9 0 0xBFFF0000 0x8450259 False True s = Some (Inl (), s) \<and> check_pointer 1 9 0 0x8450270 0x8450259 True True s = None
    \<and> check_pointer 1 9 0 0xBFFF0000 0x8450259 True True s = Some (Inr (), s') \<and> pagedir_get_page (pdirs s 0) 0x8450259 (mm s') = Some p \<and> p \<noteq> 0 \<and> ram (phys (mm s')) p = 2"
proof -
  obtain s pd e2 where s: "vm_ok {pd} s" "se_unlocked s" "pdirs s = (\<lambda>_. pd)" "supp s e2 = Some file_page" "\<not> resident s file_page"
      "supp_slot 0 (pd_no 0x8450259, pt_no 0x8450259) s = Some e2" "\<forall>va. has_room pd va s" "file_ready (calls s) file_page" "origin s file_page 601 = 2" using vm_example_page by metis
  have a: "is_user_vaddr 0x8450259" "upage file_page = pg_round_down 0x8450259" "se_thread file_page = 0" "pg_ofs 0x8450259 = 601" "sector_t file_page = BLOCK_SECTOR_T_ERROR"
    "near_stack 0x8450270 0x8450259" "\<not> near_stack 0xBFFF0000 0x8450259"
    by (simp_all add: file_page_def is_user_vaddr_def PHYS_BASE_def pg_round_down_def pg_ofs_def PGSIZE_eq near_stack_def u32_def)
  have r: "has_room (pdirs s 0) 0x8450259 s" "can_load s file_page" using s(3,7,8) by (simp_all add: can_load_def)
  have c: "content s file_page 601 = 2" using s(5,9) a(5) by (simp add: content_def)
  note O = absent_pointer_outcomes [OF s(1,4,5) a(3,2,1) s(6), of 1 9 _ True]
  obtain s' p where "check_pointer 1 9 0 0xBFFF0000 0x8450259 True True s = Some (Inr (), s')" "pagedir_get_page (pdirs s 0) 0x8450259 (mm s') = Some p" "p \<noteq> 0" "ram (phys (mm s')) p = 2"
    using O [of "0xBFFF0000"] a(4,7) r s(2) c by auto
  then show ?thesis using O [of "0xBFFF0000"] O [of "0x8450270"] a(6) s(1) by blast
qed

text \<open>The process has touched its page.\<close>

lemma vm_example_resident:
  "\<exists>s pd e x e2. vm_ok {pd} s \<and> se_unlocked s \<and> can_evict s \<and> pdirs s = (\<lambda>_. pd) \<and> active (mm s) = pd \<and> supp s e = Some x \<and> resident s x \<and> bit (pte_of s x) 1 \<and> bit (pte_of s x) 2
    \<and> se_fd x = - 1 \<and> (\<exists>y. supp s e2 = Some y \<and> se_fd y = 2)"
proof -
  obtain s pd e x e2 where s: "vm_ok {pd} s" "se_unlocked s" "pdirs s = (\<lambda>_. pd)" "supp s e = Some x" "\<not> resident s x" "se_thread x = 0" "upage x = 0x8048000" "se_flags x = {PAL_USER, PAL_ZERO}"
      "sector_t x = BLOCK_SECTOR_T_ERROR" "\<forall>va. has_room pd va s" "bm_used (used_map (upool s)) \<noteq> {..<bit_cnt (used_map (upool s))}" "bm_used (swap_map s) \<noteq> {..<bit_cnt (swap_map s)}"
      "se_fd x = - 1" "supp s e2 = Some file_page"
    using vm_example_page by metis
  have "pd_no 0x8048123 = pd_no 0x8048000" by (simp add: pt_pd_no pg_no_def PGSIZE_eq)
  then have tab: "pd_no (upage x) \<in> tables (mm s) (pdirs s 0) \<or> card (kpages (phys (mm s))) < bit_cnt (used_map (kernel_pool (phys (mm s))))" using s(3,7) s(10) [rule_format, of "0x8048123"] by (simp add: has_room_def)
  have ld: "can_load s x" using s(13) by (simp add: can_load_def)
  let ?z = "x\<lparr>sector_t := BLOCK_SECTOR_T_ERROR\<rparr>"
  have z: "?z = x" using s(9) by (cases x) simp
  obtain s' where s': "vm_ok {pd} s'" "se_unlocked s'" "pages_kept s s'" "supp s' e = Some x" "resident s' x" "\<exists>f. holds s' f e \<and> \<not> prohibit_cache (frames s' f)"
      "bit (pte_of s' x) 1" "bit (pte_of s' x) 2" "swp s' = swp s"
    using page_in_keeps [OF s(1,2,4,5,6) disjI1 [OF s(11)] tab ld, of 0 9] s(8,9,11) unfolding z by auto
  obtain m where m: "mm_step {pd} (mm s') pd (user_pool (phys (mm s'))) (pte_at (mm s')) (kentry (mm s')) (ram (phys (mm s'))) m" using activate_step [OF vm_okD(1) [OF s'(1)], of pd] by blast
  have "same_view {pd} (mm s') m" by (rule same_viewI [OF m]) simp_all
  then have sv: "same_vm {pd} s' (s'\<lparr>mm := m\<rparr>)" using same_vm_refl [OF s'(1)] unfolding same_vm_def by simp
  let ?s = "s'\<lparr>mm := m\<rparr>"
  have p: "pdirs s' = (\<lambda>_. pd)" using s'(3) s(3) by (simp add: pages_kept_def)
  obtain t where "supp s' e2 = Some (file_page\<lparr>sector_t := t\<rparr>)" by (rule pages_keptD [OF s'(3) s(14)])
  then have filed: "\<exists>y. supp ?s e2 = Some y \<and> se_fd y = 2" by (simp add: file_page_def)
  have "pte_of ?s x = pte_of s' x" using mm_stepD(8) [OF m, of pd] entry_okD(9,10) [OF vm_okD(2) [OF s'(1,4)]] p by (simp add: pte_of_def)
  moreover have "can_evict ?s" using s'(2,4,6,9) s(12) unfolding can_evict_def eligible_def holds_def swap_map_def se_unlocked_def by simp blast
  ultimately show ?thesis using same_vm_ok [OF s'(1) sv] same_vm_entry(1) [OF s'(1) sv s'(4)] s'(2,4,5,7,8) p mm_stepD(6) [OF m]
      s(13) filed by (intro exI [of _ ?s] exI [of _ pd] exI [of _ e] exI [of _ x] exI [of _ e2]) (simp add: se_unlocked_def)
qed

theorem eviction_keeps_memory_witness:
  "\<exists>D s s' e y. vm_ok D s \<and> supp s e = Some y \<and> se_fd y = 2 \<and> frame_second_chance_algorithm 1 9 0 s = Some s' \<and> vm_ok D s' \<and> pages_kept s s' \<and> bm_used (used_map (upool s')) \<noteq> {..<bit_cnt (used_map (upool s'))}"
proof -
  obtain s pd e y where s: "vm_ok {pd} s" "se_unlocked s" "can_evict s" "pdirs s 0 \<in> {pd}" and y: "supp s e = Some y" "se_fd y = 2" using vm_example_resident by fastforce
  show ?thesis using eviction_keeps_memory [OF s, of 0 9] s(1) y by fastforce
qed

theorem stored_byte_survives_eviction_witness:
  "\<exists>D s e x s1 s2 z. vm_ok D s \<and> supp s e = Some x \<and> on_mm (user_store (upage x + 5) 42) s = Some s1 \<and> frame_second_chance_algorithm 1 9 0 s1 = Some s2 \<and> vm_ok D s2
    \<and> supp s2 e = Some z \<and> content s2 z 5 = 42"
proof -
  obtain s pd e x where s: "vm_ok {pd} s" "se_unlocked s" "can_evict s" "pdirs s = (\<lambda>_. pd)" "active (mm s) = pd" "supp s e = Some x" "resident s x" "bit (pte_of s x) 1" "bit (pte_of s x) 2" "se_fd x = - 1"
    using vm_example_resident by metis
  have a: "active (mm s) = pdirs s (se_thread x)" "pdirs s 0 \<in> {pd}" "(5::nat) < PGSIZE" using s(4,5) by (simp_all add: PGSIZE_eq)
  obtain s1 s2 where t: "on_mm (user_store (upage x + 5) 42) s = Some s1" "frame_second_chance_algorithm (Suc 0) 9 0 s1 = Some s2" "vm_ok {pd} s2"
      "\<forall>u y j. supp s u = Some y \<longrightarrow> j < PGSIZE \<longrightarrow> (\<exists>z. supp s2 u = Some z \<and> content s2 z j = (if u = e \<and> j = 5 then 42 else content s y j))"
    using stored_byte_survives_eviction [OF s(1,2,6,7,8,9) a(1,3) s(3) a(2) disjI1 [OF s(10)], of 42 0 9] by blast
  obtain z where "supp s2 e = Some z" "content s2 z 5 = 42" using t(4) s(6) a(3) by fastforce
  then show ?thesis using s(1,6) t(1,3) t(2) unfolding One_nat_def by blast
qed


end
