(* ===== verification/ArgStack.thy ===== *)
theory ArgStack
  imports Palloc
begin

unbundle bit_operations_syntax

text \<open>
  The stack a program starts with: \<open>setup_stack\<close> of \<open>userprog/process.c\<close> cuts the command line into words with \<open>strtok_r\<close> and
  lays them out for \<open>main\<close>. Memory is the address space of the new process: the page of the stack ends at \<open>PHYS_BASE\<close>, the command
  line is in a page of the kernel. A store outside the page of the stack is a page fault, \<open>None\<close>.
\<close>

section \<open>The functions of the source\<close>

definition STACK_PAGE :: nat where
  "STACK_PAGE = PHYS_BASE - PGSIZE"

definition on_stack :: "nat \<Rightarrow> nat \<Rightarrow> bool" where
  "on_stack a n \<longleftrightarrow> STACK_PAGE \<le> a \<and> a + n \<le> PHYS_BASE"

text \<open>The first loop: \<open>delim\<close> is the address of the string \<open>" "\<close>. Returns the stack pointer, the number of words and the memory.\<close>

partial_function (option) push_args :: "nat \<Rightarrow> nat \<Rightarrow> nat \<Rightarrow> nat \<Rightarrow> nat \<Rightarrow> mem \<Rightarrow> (nat \<times> nat \<times> mem) option" where
  "push_args delim res save ep i m =
     (if res = 0 then Some (ep, i, m)
      else do {
        n \<leftarrow> strlen m res;
        let ep = ep - (n + 1);
        kassert (on_stack ep (n + 1));
        (_, m) \<leftarrow> memcpy ep res (n + 1) m;
        (res, save, m) \<leftarrow> strtok_r 0 delim save m;
        push_args delim res save ep (i + 1) m
      })"

text \<open>The second loop fills up to a multiple of four.\<close>

function pad_word :: "nat \<Rightarrow> mem \<Rightarrow> (nat \<times> mem) option" where
  "pad_word ep m = (if ep mod 4 = 0 then Some (ep, m) else do { kassert (on_stack (ep - 1) 1); pad_word (ep - 1) (m(ep - 1 := 0)) })"
  by pat_completeness auto

termination by (relation "measure fst") auto

declare pad_word.simps [simp del]

text \<open>The third loop stores the pointers, from \<open>argv[argc]\<close> down to \<open>argv[0]\<close>; it runs \<open>k\<close> more times.\<close>

fun push_ptrs :: "nat \<Rightarrow> nat \<Rightarrow> nat \<Rightarrow> nat \<Rightarrow> mem \<Rightarrow> mem option" where
  "push_ptrs argc 0 s b m = Some m"
| "push_ptrs argc (Suc i) s b m =
     do {
       kassert (on_stack (s - 4) 4);
       if i = argc then push_ptrs argc i (s - 4) b (st32 (s - 4) 0 m)
       else do {
         let m = st32 (s - 4) (of_nat b) m;
         n \<leftarrow> strlen m b;
         push_ptrs argc i (s - 4) (b + n + 1) m
       }
     }"

definition push_word :: "32 word \<Rightarrow> nat \<Rightarrow> mem \<Rightarrow> (nat \<times> mem) option" where
  "push_word w ep m = do { kassert (on_stack (ep - 4) 4); Some (ep - 4, st32 (ep - 4) w m) }"

definition layout_stack :: "nat \<Rightarrow> nat \<Rightarrow> nat \<Rightarrow> mem \<Rightarrow> (nat \<times> mem) option" where
  "layout_stack delim res save m =
     do {
       (top, argc, m) \<leftarrow> push_args delim res save PHYS_BASE 0 m;
       (ep, m) \<leftarrow> pad_word top m;
       m \<leftarrow> push_ptrs argc (argc + 1) ep top m;
       let ep = ep - (argc + 1) * 4;
       (ep, m) \<leftarrow> push_word (of_nat ep) ep m;
       (ep, m) \<leftarrow> push_word (of_nat argc) ep m;
       push_word 0 ep m
     }"

section \<open>The words of a command line\<close>

function words :: "byte list \<Rightarrow> byte list list" where
  "words s =
     (let t = dropWhile (\<lambda>c. c = 32) s
      in if t = [] then [] else takeWhile (\<lambda>c. c \<noteq> 32) t # words (drop 1 (dropWhile (\<lambda>c. c \<noteq> 32) t)))"
  by pat_completeness auto

termination
proof (relation "measure length")
  fix s t :: "byte list"
  assume t: "t = dropWhile (\<lambda>c. c = 32) s" "t \<noteq> []"
  have "length (drop 1 (dropWhile (\<lambda>c. c \<noteq> 32) t)) < length t"
    using length_dropWhile_le [of "\<lambda>c. c \<noteq> 32" t] t(2) hd_dropWhile [of "\<lambda>c. c = 32" s] by (cases t) (auto simp: t(1) [symmetric] le_imp_less_Suc)
  also have "length t \<le> length s" by (simp add: t(1) length_dropWhile_le)
  finally show "(drop 1 (dropWhile (\<lambda>c. c \<noteq> 32) t), s) \<in> measure length" by simp
qed simp

declare words.simps [simp del]

text \<open>The bytes the strings of some words take.\<close>

definition str_bytes :: "byte list list \<Rightarrow> nat" where
  "str_bytes ws = sum_list (map (\<lambda>w. length w + 1) ws)"

lemma str_bytes_simps [simp]: "str_bytes [] = 0" "str_bytes (w # ws) = length w + 1 + str_bytes ws" "str_bytes (ws @ vs) = str_bytes ws + str_bytes vs"
  by (simp_all add: str_bytes_def)

lemma str_bytes_rev [simp]: "str_bytes (rev ws) = str_bytes ws"
  by (simp add: str_bytes_def rev_map [symmetric] sum_list_rev)

text \<open>Strings one after the other.\<close>

fun packed :: "mem \<Rightarrow> nat \<Rightarrow> byte list list \<Rightarrow> bool" where
  "packed m p [] \<longleftrightarrow> True"
| "packed m p (w # ws) \<longleftrightarrow> cstr m p w \<and> packed m (p + length w + 1) ws"

lemma packed_cong: "(\<And>a. p \<le> a \<Longrightarrow> a < p + str_bytes ws \<Longrightarrow> m' a = m a) \<Longrightarrow> packed m p ws \<Longrightarrow> packed m' p ws"
proof (induction ws arbitrary: p)
  case (Cons w ws)
  have "cstr m' p w = cstr m p w" by (rule cstr_cong) (use Cons.prems(1) in simp)
  then show ?case using Cons by simp
qed simp

lemma packed_append: "packed m p (ws @ vs) \<longleftrightarrow> packed m p ws \<and> packed m (p + str_bytes ws) vs"
  by (induction ws arbitrary: p) (auto simp: algebra_simps)

section \<open>The loops\<close>

lemma split_while: "length (takeWhile P xs) + length (dropWhile P xs) = length xs"
  by (metis length_append takeWhile_dropWhile_id)

text \<open>One call of \<open>strtok_r\<close> takes one word.\<close>

lemma next_word:
  assumes d: "cstr m delim [32]" "delim \<noteq> 0" and s: "cstr m p s" "p \<noteq> 0" and a: "a = p \<and> a \<noteq> 0 \<or> a = 0 \<and> save = p"
  shows "words s = [] \<Longrightarrow> \<exists>save'. strtok_r a delim save m = Some (0, save', m)"
    "words s = w # ws \<Longrightarrow> \<exists>r save' m' s'. strtok_r a delim save m = Some (r, save', m') \<and> p \<le> r \<and> cstr m' r w \<and> cstr m' save' s' \<and> words s' = ws
       \<and> r + length w \<le> p + length s \<and> p \<le> save' \<and> save' + length s' \<le> p + length s \<and> (\<forall>a. a < p \<or> p + length s < a \<longrightarrow> m' a = m a)"
proof -
  let ?lead = "takeWhile (\<lambda>c. c = 32) s" and ?t = "dropWhile (\<lambda>c. c = 32) s"
  let ?tok = "takeWhile (\<lambda>c. c \<noteq> 32) ?t" and ?tail = "dropWhile (\<lambda>c. c \<noteq> 32) ?t"
  have call: "strtok_r a delim save m = strtok_r p delim save m" using a s(2) by (auto simp: strtok_r_def)
  have W: "words s = (if ?t = [] then [] else ?tok # words (drop 1 ?tail))" by (subst words.simps) (simp add: Let_def)
  have single: "(\<lambda>c. c \<in> set [32 :: byte]) = (\<lambda>c. c = 32)" "(\<lambda>c. c \<notin> set [32 :: byte]) = (\<lambda>c. c \<noteq> 32)" by auto
  have sub: "set s \<subseteq> set [32] \<longleftrightarrow> ?t = []" by (auto simp: dropWhile_eq_Nil_conv)
  have len: "length ?lead + length ?tok + length ?tail = length s"
    using split_while [of "\<lambda>c. c = 32" s] split_while [of "\<lambda>c. c \<noteq> 32" ?t] by linarith
  show "words s = [] \<Longrightarrow> \<exists>save'. strtok_r a delim save m = Some (0, save', m)"
    using strtok_r_none [OF d s] W sub unfolding call by (auto split: if_splits)
  assume w: "words s = w # ws"
  then have eq: "?t \<noteq> []" "w = ?tok" "ws = words (drop 1 ?tail)" using W by (auto split: if_splits)
  obtain save' m' where r: "strtok_r p delim save m = Some (p + length ?lead, save', m')" "cstr m' (p + length ?lead) ?tok" "cstr m' save' (drop 1 ?tail)"
      "save' = p + length ?lead + length ?tok + (if ?tail = [] then 0 else 1)" "\<forall>a. a < p \<or> p + length s < a \<longrightarrow> m' a = m a"
    using strtok_r_token [OF d s, of save] sub eq(1) unfolding single by blast
  have "x = p + a + b + (if t = [] then 0 else 1) \<Longrightarrow> a + b + length t = n \<Longrightarrow> x + length (drop 1 t) \<le> p + n" for x a b n and t :: "byte list" by (cases t) simp_all
  from this [OF r(4) len] have f1: "save' + length (drop 1 ?tail) \<le> p + length s" .
  have f2: "p + length ?lead + length w \<le> p + length s" using len eq(2) by simp
  have "x = p + a + b + c \<Longrightarrow> p \<le> x" for x a b c :: nat by simp
  from this [OF r(4)] have f3: "p \<le> save'" .
  show "\<exists>r save' m' s'. strtok_r a delim save m = Some (r, save', m') \<and> p \<le> r \<and> cstr m' r w \<and> cstr m' save' s' \<and> words s' = ws
       \<and> r + length w \<le> p + length s \<and> p \<le> save' \<and> save' + length s' \<le> p + length s \<and> (\<forall>a. a < p \<or> p + length s < a \<longrightarrow> m' a = m a)"
    unfolding call
    by (rule exI [of _ "p + length ?lead"], rule exI [of _ save'], rule exI [of _ m'], rule exI [of _ "drop 1 ?tail"],
        intro conjI r(1) le_add1 r(2) [folded eq(2)] r(3) eq(3) [symmetric] f1 f2 f3 r(5))
qed


text \<open>The state between two rounds: the buffer of the command line lies in \<open>{lo..hi}\<close>, in the kernel's half of the address space, its rest \<open>s\<close> at \<open>save\<close>.\<close>

definition arg_state :: "nat \<Rightarrow> nat \<Rightarrow> nat \<Rightarrow> nat \<Rightarrow> mem \<Rightarrow> nat \<Rightarrow> byte list \<Rightarrow> byte list list \<Rightarrow> bool" where
  "arg_state delim lo hi ep m save s pushed \<longleftrightarrow> cstr m delim [32] \<and> PHYS_BASE \<le> delim \<and> (delim + 1 < lo \<or> hi < delim) \<and> PHYS_BASE \<le> lo
     \<and> cstr m save s \<and> lo \<le> save \<and> save + length s \<le> hi \<and> ep \<le> PHYS_BASE \<and> packed m ep pushed \<and> str_bytes pushed = PHYS_BASE - ep"

lemma stack_pos: "0 < STACK_PAGE"
  by (simp add: STACK_PAGE_def PHYS_BASE_def PGSIZE_eq)

lemma arg_step:
  assumes st: "arg_state delim lo hi ep m save s pushed" and w: "cstr m res w" "lo \<le> res" and fits: "STACK_PAGE + (length w + 1) \<le> ep"
  shows "\<exists>m1. push_args delim res save ep i m = do { (res, save, m) \<leftarrow> strtok_r 0 delim save m1; push_args delim res save (ep - (length w + 1)) (i + 1) m }
    \<and> arg_state delim lo hi (ep - (length w + 1)) m1 save s (w # pushed)"
proof -
  let ?n = "length w + 1" let ?e = "ep - ?n" let ?m = "copy_unit ?n ?e res m"
  have base: "0 < STACK_PAGE" "STACK_PAGE < PHYS_BASE" by (simp_all add: STACK_PAGE_def PHYS_BASE_def PGSIZE_eq)
  have res: "PHYS_BASE \<le> res" "res \<noteq> 0" using st w(2) base by (auto simp: arg_state_def)
  have e: "?e + ?n = ep" "ep \<le> PHYS_BASE" "?e \<noteq> 0" "?e \<le> res" "on_stack ?e ?n" using fits st res base by (auto simp: arg_state_def on_stack_def)
  have cp: "memcpy ?e res ?n m = Some (?e, ?m)" by (rule memcpy_eq) (use e res in auto)
  have high: "?m a = m a" if "ep \<le> a" for a using that e(1) by (simp add: copy_unit_def)
  have k: "PHYS_BASE \<le> lo" "PHYS_BASE \<le> delim" "lo \<le> save" using st by (simp_all add: arg_state_def)
  have c: "cstr ?m p t = cstr m p t" if "PHYS_BASE \<le> p" for p t by (rule cstr_cong) (use that high e(2) in simp)
  have "cstr ?m ?e w" using w(1) by (auto simp: cstr_nth copy_unit_def)
  moreover have "packed ?m ep pushed" by (rule packed_cong [of _ _ _ m]) (use high st in \<open>simp_all add: arg_state_def\<close>)
  moreover have "cstr ?m delim [32]" "cstr ?m save s" using st c [of delim "[32]"] c [of save s] k unfolding arg_state_def by simp_all
  moreover have "str_bytes (w # pushed) = PHYS_BASE - ?e" "?e \<le> PHYS_BASE" "delim + 1 < lo \<or> hi < delim" "save + length s \<le> hi"
    using st e(1,2) unfolding arg_state_def by auto
  ultimately have "arg_state delim lo hi ?e ?m save s (w # pushed)"
    using k e(1) unfolding arg_state_def packed.simps by (simp only: add.assoc simp_thms)
  moreover have "push_args delim res save ep i m = do { (res, save, m) \<leftarrow> strtok_r 0 delim save ?m; push_args delim res save ?e (i + 1) m }"
    using res(2) strlen_ok [OF w(1) res(2)] e(5) cp by (simp add: push_args.simps [of delim res] Let_def)
  ultimately show ?thesis by blast
qed

lemma arg_next:
  assumes st: "arg_state delim lo hi ep m save s pushed"
  shows "words s = [] \<Longrightarrow> \<exists>save'. strtok_r 0 delim save m = Some (0, save', m)"
    "words s = w # ws \<Longrightarrow> \<exists>r save' m' s'. strtok_r 0 delim save m = Some (r, save', m') \<and> arg_state delim lo hi ep m' save' s' pushed \<and> words s' = ws
       \<and> cstr m' r w \<and> lo \<le> r \<and> r + length w \<le> hi"
proof -
  have S: "cstr m delim [32]" "PHYS_BASE \<le> delim" "delim + 1 < lo \<or> hi < delim" "PHYS_BASE \<le> lo" "cstr m save s" "lo \<le> save" "save + length s \<le> hi" "ep \<le> PHYS_BASE"
      "packed m ep pushed" "str_bytes pushed = PHYS_BASE - ep" using st by (simp_all add: arg_state_def)
  have nz: "delim \<noteq> 0" "save \<noteq> 0" using S(2,4,6) by (auto simp: PHYS_BASE_def)
  note W = next_word [OF S(1) nz(1) S(5) nz(2), of 0 save]
  show "words s = [] \<Longrightarrow> \<exists>save'. strtok_r 0 delim save m = Some (0, save', m)" using W(1) by blast
  assume "words s = w # ws"
  then obtain r save' m' s' where r: "strtok_r 0 delim save m = Some (r, save', m')" "save \<le> r" "cstr m' r w" "cstr m' save' s'" "words s' = ws"
       "r + length w \<le> save + length s" "save \<le> save'" "save' + length s' \<le> save + length s" "\<forall>a. a < save \<or> save + length s < a \<longrightarrow> m' a = m a"
    using W(2) by blast
  have "cstr m' delim [32] = cstr m delim [32]" by (rule cstr_cong) (use r(9) S(3,6,7) in \<open>auto simp: le_Suc_eq\<close>)
  moreover have "packed m' ep pushed" by (rule packed_cong [of _ _ _ m]) (use r(9) S(4,6,8,9,10) in auto)
  ultimately have "arg_state delim lo hi ep m' save' s' pushed" using S r(4,7,8) by (simp add: arg_state_def)
  then show "\<exists>r save' m' s'. strtok_r 0 delim save m = Some (r, save', m') \<and> arg_state delim lo hi ep m' save' s' pushed \<and> words s' = ws
       \<and> cstr m' r w \<and> lo \<le> r \<and> r + length w \<le> hi" using r(1,2,3,5,6) S(6,7) by (intro exI conjI) (assumption | linarith)+
qed

lemma push_args_ok:
  assumes "arg_state delim lo hi ep m save s pushed" "cstr m res w" "lo \<le> res" "words s = ws" "STACK_PAGE \<le> ep"
  shows "if STACK_PAGE + str_bytes (w # ws) \<le> ep
     then \<exists>m'. push_args delim res save ep i m = Some (ep - str_bytes (w # ws), i + length (w # ws), m') \<and> packed m' (ep - str_bytes (w # ws)) (rev (w # ws) @ pushed)
     else push_args delim res save ep i m = None"
  using assms
proof (induction ws arbitrary: m res w save s ep i pushed)
  case Nil
  have nz: "res \<noteq> 0" using Nil(1,3) by (auto simp: arg_state_def PHYS_BASE_def)
  show ?case
  proof (cases "STACK_PAGE + (length w + 1) \<le> ep")
    case True
    obtain m1 where m1: "push_args delim res save ep i m = do { (res, save, m) \<leftarrow> strtok_r 0 delim save m1; push_args delim res save (ep - (length w + 1)) (i + 1) m }"
        "arg_state delim lo hi (ep - (length w + 1)) m1 save s (w # pushed)" using arg_step [OF Nil(1,2,3) True] by blast
    obtain save' where "strtok_r 0 delim save m1 = Some (0, save', m1)" using arg_next(1) [OF m1(2) Nil(4)] by blast
    then show ?thesis using m1 True by (simp add: push_args.simps [of delim 0] arg_state_def)
  next
    case False
    then have "\<not> STACK_PAGE \<le> ep - (length w + 1)" using stack_pos by linarith
    then show ?thesis using False Nil(2) nz by (simp add: push_args.simps [of delim res] strlen_ok on_stack_def Let_def)
  qed
next
  case (Cons v vs)
  have nz: "res \<noteq> 0" using Cons(2,4) by (auto simp: arg_state_def PHYS_BASE_def)
  show ?case
  proof (cases "STACK_PAGE + (length w + 1) \<le> ep")
    case True
    let ?e = "ep - (length w + 1)"
    obtain m1 where m1: "push_args delim res save ep i m = do { (res, save, m) \<leftarrow> strtok_r 0 delim save m1; push_args delim res save ?e (i + 1) m }"
        "arg_state delim lo hi ?e m1 save s (w # pushed)" using arg_step [OF Cons(2,3,4) True] by blast
    obtain r save' m' s' where r: "strtok_r 0 delim save m1 = Some (r, save', m')" "arg_state delim lo hi ?e m' save' s' (w # pushed)" "words s' = vs" "cstr m' r v" "lo \<le> r"
      using arg_next(2) [OF m1(2) Cons(5)] by blast
    have eq: "push_args delim res save ep i m = push_args delim r save' ?e (i + 1) m'" using m1(1) r(1) by simp
    have b: "?e - str_bytes (v # vs) = ep - str_bytes (w # v # vs)" "STACK_PAGE + str_bytes (v # vs) \<le> ?e \<longleftrightarrow> STACK_PAGE + str_bytes (w # v # vs) \<le> ep" using True by auto
    have "STACK_PAGE \<le> ?e" using True by simp
    from Cons(1) [OF r(2,4,5,3) this, of "i + 1"] show ?thesis unfolding eq b by (simp split: if_splits)
  next
    case False
    then have "\<not> STACK_PAGE \<le> ep - (length w + 1)" using stack_pos by linarith
    then have "push_args delim res save ep i m = None" using Cons(3) nz by (simp add: push_args.simps [of delim res] strlen_ok on_stack_def Let_def)
    then show ?thesis using False by simp
  qed
qed


lemma stack_page_word: "STACK_PAGE mod 4 = 0"
  by (simp add: STACK_PAGE_def PHYS_BASE_def PGSIZE_eq)

lemma mod4_down: "n mod 4 \<noteq> 0 \<Longrightarrow> n - 1 - (n - 1) mod 4 = n - n mod 4" for n :: nat
proof -
  assume h: "n mod 4 \<noteq> 0"
  have "n = 4 * (n div 4) + (n mod 4 - 1) + 1" using h div_mult_mod_eq [of n 4] by linarith
  moreover have "n mod 4 - 1 < 4" using mod_less_divisor [of 4 n] by linarith
  ultimately have "(n - 1) mod 4 = n mod 4 - 1" by (metis add_diff_cancel_right' mod_less mod_mult_self4)
  then show ?thesis using h by linarith
qed

lemma pad_ok: "STACK_PAGE \<le> ep \<Longrightarrow> ep \<le> PHYS_BASE \<Longrightarrow> \<exists>m'. pad_word ep m = Some (ep - ep mod 4, m') \<and> (\<forall>a\<ge>ep. m' a = m a)"
proof (induction ep m rule: pad_word.induct)
  case (1 ep m)
  show ?case
  proof (cases "ep mod 4 = 0")
    case True
    then show ?thesis by (simp add: pad_word.simps [of ep])
  next
    case False
    then have ep: "STACK_PAGE \<le> ep - 1" "0 < ep" "ep - 1 \<le> PHYS_BASE" using 1(2,3) stack_page_word by (cases "ep = STACK_PAGE"; auto)+
    then have on: "on_stack (ep - 1) 1" using 1(3) by (simp add: on_stack_def)
    then have k: "kassert (on_stack (ep - 1) 1) = Some ()" by simp
    obtain m' where m': "pad_word (ep - 1) (m(ep - 1 := 0)) = Some (ep - 1 - (ep - 1) mod 4, m')" "\<forall>a\<ge>ep - 1. m' a = (m(ep - 1 := 0)) a"
      using 1(1) [OF False k ep(1,3)] by blast
    have eq: "ep - 1 - (ep - 1) mod 4 = ep - ep mod 4" by (rule mod4_down [OF False])
    have "pad_word ep m = pad_word (ep - 1) (m(ep - 1 := 0))" by (subst pad_word.simps) (simp only: False if_False k Option.bind.simps)
    moreover have "\<forall>a\<ge>ep. m' a = m a"
    proof (intro allI impI)
      fix a assume "ep \<le> a"
      then have "ep - 1 \<le> a" "a \<noteq> ep - 1" using ep(2) by linarith+
      then show "m' a = m a" using m'(2) by simp
    qed
    ultimately show ?thesis using m'(1) unfolding eq by (intro exI [of _ m']) simp
  qed
qed

lemma ptrs_ok:
  assumes "i \<le> length args" "packed m b (rev (take i args))" "s \<le> b" "b + str_bytes (take i args) \<le> PHYS_BASE"
  shows "if STACK_PAGE + 4 * i \<le> s
     then \<exists>m'. push_ptrs (length args) i s b m = Some m' \<and> (\<forall>a. a < s - 4 * i \<or> s \<le> a \<longrightarrow> m' a = m a) \<and> (\<forall>j<i. b \<le> unat (ld32 m' (s - 4 * (i - j))) \<and> cstr m' (unat (ld32 m' (s - 4 * (i - j)))) (args ! j))
     else STACK_PAGE \<le> s \<longrightarrow> push_ptrs (length args) i s b m = None"
  using assms
proof (induction i arbitrary: s b m)
  case 0
  then show ?case by simp
next
  case (Suc i)
  let ?w = "args ! i" and ?m = "st32 (s - 4) (of_nat b) m"
  have t: "take (Suc i) args = take i args @ [?w]" "i < length args" using Suc.prems(1) by (simp_all add: take_Suc_conv_app_nth)
  have pk: "cstr m b ?w" "packed m (b + length ?w + 1) (rev (take i args))" using Suc.prems(2) by (simp_all add: t(1))
  have bnd: "b + length ?w + 1 + str_bytes (take i args) \<le> PHYS_BASE" using Suc.prems(4) by (simp add: t(1))
  show ?case
  proof (cases "STACK_PAGE + 4 \<le> s")
    case True
    have on: "on_stack (s - 4) 4" using True Suc.prems(3) bnd by (simp add: on_stack_def)
    have same: "?m a = m a" if "b \<le> a" for a using that Suc.prems(3) True by (intro st32_other) simp
    have c: "cstr ?m b ?w" using pk(1) by (subst cstr_cong [of _ _ _ m]) (simp_all add: same)
    have "b \<noteq> 0" using Suc.prems(3) True by simp
    then have sl: "strlen ?m b = Some (length ?w)" using c strlen_ok by blast
    have step: "push_ptrs (length args) (Suc i) s b m = push_ptrs (length args) i (s - 4) (b + length ?w + 1) ?m" using on sl t(2) by simp
    have pk': "packed ?m (b + length ?w + 1) (rev (take i args))" by (rule packed_cong [OF _ pk(2)]) (use same in simp)
    have "s - 4 \<le> b + length ?w + 1" using Suc.prems(3) by simp
    note IH = Suc.IH [OF less_imp_le [OF t(2)] pk' this bnd]
    show ?thesis
    proof (cases "STACK_PAGE + 4 * Suc i \<le> s")
      case True
      then have le: "STACK_PAGE + 4 * i \<le> s - 4" by simp
      obtain m' where m': "push_ptrs (length args) i (s - 4) (b + length ?w + 1) ?m = Some m'" "\<forall>a. a < s - 4 - 4 * i \<or> s - 4 \<le> a \<longrightarrow> m' a = ?m a"
          "\<forall>j<i. b + length ?w + 1 \<le> unat (ld32 m' (s - 4 - 4 * (i - j))) \<and> cstr m' (unat (ld32 m' (s - 4 - 4 * (i - j)))) (args ! j)"
        using IH unfolding if_P [OF le] by blast
      have "m' a = m a" if "a < s - 4 * Suc i \<or> s \<le> a" for a
      proof -
        have "m' a = ?m a" using m'(2) that by auto
        also have "?m a = m a" using that True by (intro st32_other) auto
        finally show ?thesis .
      qed
      moreover have "b \<le> unat (ld32 m' (s - 4 * (Suc i - j))) \<and> cstr m' (unat (ld32 m' (s - 4 * (Suc i - j)))) (args ! j)" if j: "j < Suc i" for j
      proof (cases "j = i")
        case True
        have "ld32 m' (s - 4) = ld32 ?m (s - 4)" by (rule ld32_cong) (use m'(2) in simp)
        then have "unat (ld32 m' (s - 4)) = b" using bnd by (simp add: unat_of_nat PHYS_BASE_def)
        moreover have "cstr m' b ?w" using c by (subst cstr_cong [of _ _ _ ?m]) (use m'(2) Suc.prems(3) in simp_all)
        ultimately show ?thesis using True by simp
      next
        case False
        then have "j < i" "s - 4 * (Suc i - j) = s - 4 - 4 * (i - j)" using j by auto
        then show ?thesis using m'(3) by fastforce
      qed
      ultimately show ?thesis using True step m'(1) by auto
    next
      case f: False
      then have "push_ptrs (length args) i (s - 4) (b + length ?w + 1) ?m = None" using IH True by (auto split: if_splits)
      then show ?thesis using f step by auto
    qed
  next
    case False
    then have "\<not> on_stack (s - 4) 4 \<or> s < STACK_PAGE" using stack_pos by (auto simp: on_stack_def)
    then show ?thesis using False by auto
  qed
qed


section \<open>What a program finds on its stack\<close>

text \<open>The bytes of the page that the words take: the strings, the padding, the pointers with the null pointer, \<open>argv\<close>, \<open>argc\<close> and the return address.\<close>

definition stack_need :: "byte list list \<Rightarrow> nat" where
  "stack_need ws = str_bytes ws + (PHYS_BASE - str_bytes ws) mod 4 + 4 * (length ws + 1) + 12"

text \<open>The command line as \<open>process_execute\<close> hands it on: the first word is cut off already.\<close>

definition args_at :: "nat \<Rightarrow> nat \<Rightarrow> nat \<Rightarrow> byte list list \<Rightarrow> mem \<Rightarrow> bool" where
  "args_at delim res save ws m \<longleftrightarrow> (\<exists>lo hi w s. ws = w # words s \<and> arg_state delim lo hi PHYS_BASE m save s [] \<and> cstr m res w \<and> lo \<le> res)"

lemma layout_parts:
  assumes "args_at delim res save ws m" "str_bytes ws \<le> PGSIZE"
  defines "b \<equiv> PHYS_BASE - str_bytes ws"
  obtains m2 where "push_args delim res save PHYS_BASE 0 m \<noteq> None"
    "layout_stack delim res save m = do {
       m \<leftarrow> push_ptrs (length ws) (length ws + 1) (b - b mod 4) b m2;
       let ep = b - b mod 4 - (length ws + 1) * 4;
       (ep, m) \<leftarrow> push_word (of_nat ep) ep m;
       (ep, m) \<leftarrow> push_word (of_nat (length ws)) ep m;
       push_word 0 ep m }" "packed m2 b (rev ws)"
proof -
  obtain lo hi w s where w: "ws = w # words s" "arg_state delim lo hi PHYS_BASE m save s []" "cstr m res w" "lo \<le> res" using assms(1) unfolding args_at_def by blast
  have sp: "STACK_PAGE + PGSIZE = PHYS_BASE" by (simp add: STACK_PAGE_def PHYS_BASE_def PGSIZE_eq)
  have fits: "STACK_PAGE + str_bytes ws \<le> PHYS_BASE" "STACK_PAGE \<le> PHYS_BASE" using assms(2) sp by linarith+
  obtain m1 where m1: "push_args delim res save PHYS_BASE 0 m = Some (b, length ws, m1)" "packed m1 b (rev ws)"
    using push_args_ok [OF w(2,3,4) refl fits(2), of 0] fits(1) unfolding b_def w(1) by auto
  have "STACK_PAGE \<le> b" "b \<le> PHYS_BASE" using fits by (simp_all add: b_def)
  then obtain m2 where m2: "pad_word b m1 = Some (b - b mod 4, m2)" "\<forall>a\<ge>b. m2 a = m1 a" using pad_ok by blast
  have "packed m2 b (rev ws)" by (rule packed_cong [OF _ m1(2)]) (use m2(2) in simp)
  moreover have "layout_stack delim res save m = do {
       m \<leftarrow> push_ptrs (length ws) (length ws + 1) (b - b mod 4) b m2;
       let ep = b - b mod 4 - (length ws + 1) * 4;
       (ep, m) \<leftarrow> push_word (of_nat ep) ep m;
       (ep, m) \<leftarrow> push_word (of_nat (length ws)) ep m;
       push_word 0 ep m }"
    unfolding layout_stack_def m1(1) Option.bind.simps prod.case m2(1) by (rule refl)
  ultimately show thesis using that m1(1) by blast
qed

text \<open>The last three words, below the pointers.\<close>

lemma last_words:
  assumes "e \<le> PHYS_BASE" "n < 2 ^ 32"
  shows "if STACK_PAGE + 12 \<le> e
     then \<exists>m'. (do { (ep, m) \<leftarrow> push_word (of_nat e) e m; (ep, m) \<leftarrow> push_word (of_nat n) ep m; push_word 0 ep m }) = Some (e - 12, m') \<and> (\<forall>a\<ge>e. m' a = m a)
       \<and> ld32 m' (e - 12) = 0 \<and> unat (ld32 m' (e - 8)) = n \<and> unat (ld32 m' (e - 4)) = e
     else (do { (ep, m) \<leftarrow> push_word (of_nat e) e m; (ep, m) \<leftarrow> push_word (of_nat n) ep m; push_word 0 ep m }) = None"
proof (cases "STACK_PAGE + 12 \<le> e")
  case True
  let ?m5 = "st32 (e - 4) (of_nat e) m" let ?m6 = "st32 (e - 8) (of_nat n) ?m5" let ?m = "st32 (e - 12) 0 ?m6"
  have "e - 4 + 4 \<le> a" "e - 8 + 4 \<le> a" "e - 12 + 4 \<le> a" if "e \<le> a" for a using that True by simp_all
  then have same: "\<forall>a\<ge>e. ?m a = m a" by (simp add: st32_other)
  have "e - 12 + 4 \<le> e - 8" "e - 12 + 4 \<le> e - 4" "e - 8 + 4 \<le> e - 4" using True by simp_all
  then have "ld32 ?m (e - 8) = of_nat n" "ld32 ?m (e - 4) = of_nat e" by (simp_all only: ld32_st32_other ld32_st32 simp_thms)
  then have "unat (ld32 ?m (e - 8)) = n" "unat (ld32 ?m (e - 4)) = e" using assms by (simp_all add: unat_of_nat PHYS_BASE_def)
  moreover have "(do { (ep, m) \<leftarrow> push_word (of_nat e) e m; (ep, m) \<leftarrow> push_word (of_nat n) ep m; push_word 0 ep m }) = Some (e - 12, ?m)"
    using True assms by (auto simp: push_word_def on_stack_def)
  ultimately show ?thesis using True same by simp
next
  case False
  then show ?thesis using stack_pos STACK_PAGE_def by (auto simp: push_word_def on_stack_def PHYS_BASE_def PGSIZE_eq)
qed

text \<open>
  (C29) \<open>main\<close> gets the words of the command line. If they fit in a page, \<open>setup_stack\<close> ends with the stack pointer at a multiple of four inside the page, and
  from there up lie a null return address, \<open>argc\<close>, \<open>argv\<close>, and at \<open>argv\<close> the pointers to the null-terminated words in order, then a null pointer. If they do not
  fit, the kernel itself faults below the page.
\<close>

theorem argument_stack:
  assumes "args_at delim res save ws m"
  shows "if stack_need ws \<le> PGSIZE
     then \<exists>ep m'. layout_stack delim res save m = Some (ep, m') \<and> STACK_PAGE \<le> ep \<and> ep mod 4 = 0 \<and> ld32 m' ep = 0 \<and> unat (ld32 m' (ep + 4)) = length ws
       \<and> unat (ld32 m' (ep + 8)) = ep + 12 \<and> (\<forall>i<length ws. cstr m' (unat (ld32 m' (ep + 12 + 4 * i))) (ws ! i)) \<and> ld32 m' (ep + 12 + 4 * length ws) = 0
     else layout_stack delim res save m = None"
proof -
  let ?n = "length ws"
  define b c where "b = PHYS_BASE - str_bytes ws" and "c = b - b mod 4"
  have sp: "STACK_PAGE + PGSIZE = PHYS_BASE" "4 \<le> STACK_PAGE" by (simp_all add: STACK_PAGE_def PHYS_BASE_def PGSIZE_eq)
  show ?thesis
  proof (cases "str_bytes ws \<le> PGSIZE")
    case False
    obtain lo hi w s where w: "ws = w # words s" "arg_state delim lo hi PHYS_BASE m save s []" "cstr m res w" "lo \<le> res" using assms unfolding args_at_def by blast
    have "push_args delim res save PHYS_BASE 0 m = None" using push_args_ok [OF w(2,3,4) refl, of 0] False sp unfolding w(1) by (auto split: if_splits)
    then show ?thesis using False by (simp add: layout_stack_def stack_need_def)
  next
    case True
    obtain m2 where m2: "layout_stack delim res save m = do {
         m \<leftarrow> push_ptrs ?n (?n + 1) c b m2;
         let ep = c - (?n + 1) * 4;
         (ep, m) \<leftarrow> push_word (of_nat ep) ep m;
         (ep, m) \<leftarrow> push_word (of_nat ?n) ep m;
         push_word 0 ep m }" "packed m2 b (rev ws)" by (rule layout_parts [OF assms True, folded b_def, folded c_def]) (rule that)
    have c: "STACK_PAGE \<le> b" "c \<le> b" "b + str_bytes ws = PHYS_BASE" using True sp unfolding b_def c_def by linarith+
    have c4: "c mod 4 = 0" by (simp add: c_def minus_mod_eq_mult_div)
    have lay: "stack_need ws \<le> PGSIZE \<longleftrightarrow> STACK_PAGE + (4 * (?n + 1) + 12) \<le> c"
      using sp c(3) mod_less_eq_dividend [of b 4] unfolding stack_need_def b_def [symmetric] c_def by linarith
    let ?m3 = "st32 (c - 4) 0 m2"
    have ptrs: "push_ptrs ?n (?n + 1) c b m2 = do { kassert (on_stack (c - 4) 4); push_ptrs ?n ?n (c - 4) b ?m3 }" by simp
    have pk: "packed ?m3 b (rev (take ?n ws))" unfolding take_all [OF order_refl]
    proof (rule packed_cong [OF _ m2(2)])
      fix a assume "b \<le> a"
      then have "c - 4 + 4 \<le> a" using c(1,2) sp(2) by linarith
      then show "?m3 a = m2 a" by (intro st32_other disjI2)
    qed
    have tb: "b + str_bytes (take ?n ws) \<le> PHYS_BASE" "c - 4 \<le> b" using c by simp_all
    note Q = ptrs_ok [OF order_refl pk tb(2,1)]
    show ?thesis
    proof (cases "STACK_PAGE + 4 * (?n + 1) \<le> c")
      case False
      have "push_ptrs ?n (?n + 1) c b m2 = None"
      proof (cases "on_stack (c - 4) 4")
        case True
        then have "STACK_PAGE \<le> c - 4" "\<not> STACK_PAGE + 4 * ?n \<le> c - 4" using False sp(2) by (auto simp: on_stack_def)
        then have "push_ptrs ?n ?n (c - 4) b ?m3 = None" using Q unfolding if_not_P [OF \<open>\<not> STACK_PAGE + 4 * ?n \<le> c - 4\<close>] by blast
        then show ?thesis unfolding ptrs by (simp add: kassert_def)
      qed (simp add: ptrs)
      then show ?thesis using m2(1) lay False by auto
    next
      case t: True
      then have le: "STACK_PAGE + 4 * ?n \<le> c - 4" by simp
      obtain m4 where m4: "push_ptrs ?n ?n (c - 4) b ?m3 = Some m4" "\<forall>a. a < c - 4 - 4 * ?n \<or> c - 4 \<le> a \<longrightarrow> m4 a = ?m3 a"
          "\<forall>j<?n. b \<le> unat (ld32 m4 (c - 4 - 4 * (?n - j))) \<and> cstr m4 (unat (ld32 m4 (c - 4 - 4 * (?n - j)))) (ws ! j)"
        using Q unfolding if_P [OF le] by blast
      define e where "e = c - (?n + 1) * 4"
      have on: "on_stack (c - 4) 4" using t c sp by (simp add: on_stack_def)
      have run: "layout_stack delim res save m = do { (ep, m) \<leftarrow> push_word (of_nat e) e m4; (ep, m) \<leftarrow> push_word (of_nat ?n) ep m; push_word 0 ep m }"
        unfolding m2(1) ptrs using on m4(1) by (simp add: Let_def e_def)
      have E: "e \<le> PHYS_BASE" "e \<le> b" "?n < 2 ^ 32" "e + 4 * ?n = c - 4" using t c sp by (simp_all add: PHYS_BASE_def e_def)
      note L = last_words [OF E(1,3), of m4, folded run]
      show ?thesis
      proof (cases "STACK_PAGE + 12 \<le> e")
        case False
        then show ?thesis using L lay t by (auto simp: e_def)
      next
        case True
        obtain m' where m': "layout_stack delim res save m = Some (e - 12, m')" "\<forall>a\<ge>e. m' a = m4 a" "ld32 m' (e - 12) = 0"
            "unat (ld32 m' (e - 8)) = ?n" "unat (ld32 m' (e - 4)) = e" using L unfolding if_P [OF True] by blast
        have sub: "e - 12 + 4 = e - 8" "e - 12 + 8 = e - 4" "e - 12 + 12 = e" using True by simp_all
        have ld: "ld32 m' a = ld32 m4 a" if "e \<le> a" for a by (rule ld32_cong) (use that m'(2) in simp)
        have ptr: "cstr m' (unat (ld32 m' (e + 4 * i))) (ws ! i)" if i: "i < ?n" for i
        proof -
          have "c - 4 - 4 * (?n - i) = e + 4 * i" using i t by (simp add: e_def)
          then have q: "b \<le> unat (ld32 m4 (e + 4 * i))" "cstr m4 (unat (ld32 m4 (e + 4 * i))) (ws ! i)" using m4(3) i by metis+
          have "cstr m' (unat (ld32 m4 (e + 4 * i))) (ws ! i)" using q E(2) m'(2) by (subst cstr_cong [of _ _ _ m4]) simp_all
          then show ?thesis using ld [of "e + 4 * i"] by simp
        qed
        have "ld32 m' (e + 4 * ?n) = ld32 m4 (c - 4)" using ld [of "e + 4 * ?n"] E(4) by simp
        also have "\<dots> = ld32 ?m3 (c - 4)" by (rule ld32_cong) (use m4(2) in simp)
        finally have null: "ld32 m' (e + 4 * ?n) = 0" by simp
        have "4 dvd c" "4 dvd (?n + 1) * 4" using c4 by (simp_all add: mod_eq_0_iff_dvd)
        then have "(e - 12) mod 4 = 0" unfolding e_def by (intro dvd_imp_mod_0 dvd_diff_nat) simp_all
        moreover have "STACK_PAGE \<le> e - 12" "stack_need ws \<le> PGSIZE" using True lay t by (simp_all add: e_def)
        ultimately show ?thesis using m' ptr null by (intro if_P [THEN iffD2] exI [of _ "e - 12"] exI [of _ m']) (simp_all add: sub)
      qed
    qed
  qed
qed


text \<open>The command line \<open>ab c\<close>.\<close>

definition sample_line :: mem where
  "sample_line = (\<lambda>_. 0)(0xC0000010 := 32, 0xC0100000 := 97, 0xC0100001 := 98, 0xC0100003 := 99)"

theorem argument_stack_witness:
  "\<exists>ep m'. layout_stack 0xC0000010 0xC0100000 0xC0100003 sample_line = Some (ep, m') \<and> unat (ld32 m' (ep + 4)) = 2 \<and> cstr m' (unat (ld32 m' (ep + 12))) [97, 98]
    \<and> cstr m' (unat (ld32 m' (ep + 16))) [99]"
proof -
  have w: "words [99] = [[99]]" "words [] = []" by (simp_all add: words.simps [of "[99]"] words.simps [of "[]"])
  have "args_at 0xC0000010 0xC0100000 0xC0100003 [[97, 98], [99]] sample_line" unfolding args_at_def arg_state_def
    by (rule exI [of _ "0xC0100000"], rule exI [of _ "0xC0100004"], rule exI [of _ "[97, 98]"], rule exI [of _ "[99]"]) (simp add: w sample_line_def PHYS_BASE_def)
  moreover have "stack_need [[97, 98], [99]] \<le> PGSIZE" by (simp add: stack_need_def PHYS_BASE_def PGSIZE_eq)
  ultimately obtain ep m' where r: "layout_stack 0xC0000010 0xC0100000 0xC0100003 sample_line = Some (ep, m')" "unat (ld32 m' (ep + 4)) = length [[97, 98 :: byte], [99]]"
      "\<forall>i<length [[97, 98], [99]]. cstr m' (unat (ld32 m' (ep + 12 + 4 * i))) ([[97, 98], [99]] ! i)"
    using argument_stack [of "0xC0000010" "0xC0100000" "0xC0100003" "[[97, 98], [99]]" sample_line] by auto
  have e: "ep + 12 + 4 * 1 = ep + 16" "ep + 12 + 4 * 0 = ep + 12" by simp_all
  show ?thesis using r(1,2) r(3) [rule_format, of 0] r(3) [rule_format, of 1] unfolding e by auto
qed

end
