(* ===== verification/Children.thy ===== *)
theory Children
  imports Prelude
begin

text \<open>
  Parents and children: \<open>process_execute\<close>, \<open>start_process\<close> and \<open>process_wait\<close> of \<open>userprog/process.c\<close>, \<open>exit\<close> of \<open>userprog/syscall.c\<close> and the lists of
  children in \<open>threads/thread.c\<close>. A thread that has exited is \<open>None\<close>: its page is freed, and using it is an error. A function that may block is
  split there. Only the parent waits on the semaphore of a child, so the semaphore is its value. Each function, or half of one, is one step of the machine:
  a switch of threads inside \<open>exit\<close> or \<open>start_process\<close> is not modelled.
\<close>

section \<open>The functions of the source\<close>

record thread_child =
  process_id :: nat
  tc_status :: int
  tc_semaphore :: nat

text \<open>The arguments of \<open>start_process\<close> live on the stack of the parent, which waits for \<open>pa_sema\<close>.\<close>

record process_arg =
  pa_tid :: "nat option"
  pa_status :: int
  pa_sema :: nat

record thread4 =
  parent_thread :: "nat option"
  child_list :: "thread_child list"
  starting :: bool
  executing :: "process_arg option"
  waiting_for :: "nat option"

type_synonym threads = "nat \<Rightarrow> thread4 option"

definition init_child_struct :: "nat \<Rightarrow> thread_child" where
  "init_child_struct tid = \<lparr>process_id = tid, tc_status = - 2, tc_semaphore = 0\<rparr>"

definition find_child_with_tid :: "nat \<Rightarrow> nat \<Rightarrow> threads \<Rightarrow> thread_child option option" where
  "find_child_with_tid t tid ts = do { p \<leftarrow> ts t; Some (List.find (\<lambda>c. process_id c = tid) (child_list p)) }"

text \<open>Changing the first child with the number.\<close>

fun on_child :: "nat \<Rightarrow> (thread_child \<Rightarrow> thread_child) \<Rightarrow> thread_child list \<Rightarrow> thread_child list" where
  "on_child tid f [] = []"
| "on_child tid f (c # cs) = (if process_id c = tid then f c # cs else c # on_child tid f cs)"

definition thread_set_child_exit_status :: "nat \<Rightarrow> nat \<Rightarrow> int \<Rightarrow> threads \<Rightarrow> threads option" where
  "thread_set_child_exit_status t tid st ts =
     do {
       p \<leftarrow> ts t;
       c \<leftarrow> find_child_with_tid t tid ts;
       kassert (c \<noteq> None);
       Some (ts(t \<mapsto> p\<lparr>child_list := on_child tid (\<lambda>c. c\<lparr>tc_status := st\<rparr>) (child_list p)\<rparr>))
     }"

text \<open>The part of \<open>thread_create\<close> that makes the record of the child; \<open>tid\<close> is new.\<close>

definition thread_create_child :: "nat \<Rightarrow> nat \<Rightarrow> threads \<Rightarrow> threads option" where
  "thread_create_child me tid ts =
     do {
       p \<leftarrow> ts me;
       Some (ts(me \<mapsto> p\<lparr>child_list := child_list p @ [init_child_struct tid]\<rparr>,
                tid \<mapsto> \<lparr>parent_thread = Some me, child_list = [], starting = True, executing = None, waiting_for = None\<rparr>))
     }"

text \<open>\<open>process_execute\<close> up to \<open>sema_down\<close>, and after it. \<open>page\<close>: the copy of the command line got a page; \<open>new = None\<close>: no thread can be created.\<close>

definition process_execute_begin :: "nat \<Rightarrow> bool \<Rightarrow> nat option \<Rightarrow> threads \<Rightarrow> (int option \<times> threads) option" where
  "process_execute_begin me page new ts =
     (if \<not> page then Some (Some (- 1), ts)
      else do {
        ts \<leftarrow> (case new of Some tid \<Rightarrow> thread_create_child me tid ts | None \<Rightarrow> Some ts);
        p \<leftarrow> ts me;
        Some (None, ts(me \<mapsto> p\<lparr>executing := Some \<lparr>pa_tid = new, pa_status = - 2, pa_sema = 0\<rparr>\<rparr>))
      })"

definition process_execute_end :: "nat \<Rightarrow> threads \<Rightarrow> (int \<times> threads) option" where
  "process_execute_end me ts =
     do {
       p \<leftarrow> ts me;
       a \<leftarrow> executing p;
       kassert (0 < pa_sema a);
       Some (if pa_status a = - 1 then - 1 else case pa_tid a of Some tid \<Rightarrow> int tid | None \<Rightarrow> - 1, ts(me \<mapsto> p\<lparr>executing := None\<rparr>))
     }"

text \<open>What \<open>thread_exit\<close> does to the lists: the thread and its own list are freed, the list of its parent is not touched.\<close>

definition exit_thread :: "nat \<Rightarrow> threads \<Rightarrow> threads" where
  "exit_thread me ts = ts(me := None)"

definition start_process :: "nat \<Rightarrow> bool \<Rightarrow> threads \<Rightarrow> threads option" where
  "start_process me success ts =
     do {
       p \<leftarrow> ts me;
       par \<leftarrow> parent_thread p;
       q \<leftarrow> ts par;
       a \<leftarrow> executing q;
       let a = (if success then a else a\<lparr>pa_status := - 1\<rparr>);
       let ts = ts(par \<mapsto> q\<lparr>executing := Some (a\<lparr>pa_sema := pa_sema a + 1\<rparr>)\<rparr>);
       Some (if success then ts(me \<mapsto> p\<lparr>starting := False\<rparr>) else exit_thread me ts)
     }"

text \<open>\<open>process_wait\<close> up to \<open>sema_down\<close> (\<open>Some\<close> the result when it returns at once), and after it.\<close>

definition process_wait_begin :: "nat \<Rightarrow> nat \<Rightarrow> threads \<Rightarrow> (int option \<times> threads) option" where
  "process_wait_begin me tid ts =
     do {
       p \<leftarrow> ts me;
       c \<leftarrow> find_child_with_tid me tid ts;
       Some (if c = None then (Some (- 1), ts) else (None, ts(me \<mapsto> p\<lparr>waiting_for := Some tid\<rparr>)))
     }"

definition process_wait_end :: "nat \<Rightarrow> threads \<Rightarrow> (int \<times> threads) option" where
  "process_wait_end me ts =
     do {
       p \<leftarrow> ts me;
       tid \<leftarrow> waiting_for p;
       c \<leftarrow> find_child_with_tid me tid ts;
       c \<leftarrow> c;
       kassert (0 < tc_semaphore c);
       Some (tc_status c, ts(me \<mapsto> p\<lparr>waiting_for := None, child_list := remove1 (c\<lparr>tc_semaphore := tc_semaphore c - 1\<rparr>)
         (on_child tid (\<lambda>c. c\<lparr>tc_semaphore := tc_semaphore c - 1\<rparr>) (child_list p))\<rparr>))
     }"

definition exit_status :: "nat \<Rightarrow> int \<Rightarrow> threads \<Rightarrow> threads option" where
  "exit_status me st ts =
     do {
       p \<leftarrow> ts me;
       case parent_thread p of None \<Rightarrow> Some ts
       | Some t \<Rightarrow> do {
           ts \<leftarrow> thread_set_child_exit_status t me st ts;
           q \<leftarrow> ts t;
           Some (ts(t \<mapsto> q\<lparr>child_list := on_child me (\<lambda>c. c\<lparr>tc_semaphore := tc_semaphore c + 1\<rparr>) (child_list q)\<rparr>))
         }
     }"

definition exit_process :: "nat \<Rightarrow> int \<Rightarrow> threads \<Rightarrow> threads option" where
  "exit_process me st ts = do { ts \<leftarrow> exit_status me st ts; Some (exit_thread me ts) }"

section \<open>The machine\<close>

text \<open>All the threads there were: \<open>born\<close> gives each thread its parent and \<open>dead\<close> the status it called \<open>exit\<close> with.\<close>

record machine =
  thr :: threads
  born :: "nat \<Rightarrow> nat option"
  dead :: "nat \<Rightarrow> int option"
  next_tid :: nat

text \<open>A thread that is not blocked; and one that runs its program.\<close>

definition awake :: "nat \<Rightarrow> machine \<Rightarrow> bool" where
  "awake me s \<longleftrightarrow> (case thr s me of Some p \<Rightarrow> executing p = None \<and> waiting_for p = None | None \<Rightarrow> False)"

definition runs :: "nat \<Rightarrow> machine \<Rightarrow> bool" where
  "runs me s \<longleftrightarrow> (case thr s me of Some p \<Rightarrow> \<not> starting p \<and> executing p = None \<and> waiting_for p = None | None \<Rightarrow> False)"

text \<open>\<open>exits\<close> is also a page fault that the kernel cannot serve, which may happen while the program is loaded. \<open>killed\<close> is any other exception: \<open>kill\<close> of
  \<open>exception.c\<close> calls \<open>thread_exit\<close> and not \<open>exit\<close>.\<close>

inductive child_step :: "machine \<Rightarrow> machine \<Rightarrow> bool" where
  execute: "runs me s \<Longrightarrow> process_execute_begin me True (Some (next_tid s)) (thr s) = Some (r, ts) \<Longrightarrow>
    child_step s (s\<lparr>thr := ts, born := (born s)(next_tid s \<mapsto> me), next_tid := next_tid s + 1\<rparr>)"
| no_thread: "runs me s \<Longrightarrow> process_execute_begin me page None (thr s) = Some (r, ts) \<Longrightarrow> child_step s (s\<lparr>thr := ts\<rparr>)"
| start: "thr s me = Some p \<Longrightarrow> starting p \<Longrightarrow> start_process me success (thr s) = Some ts \<Longrightarrow> child_step s (s\<lparr>thr := ts\<rparr>)"
| executed: "process_execute_end me (thr s) = Some (r, ts) \<Longrightarrow> child_step s (s\<lparr>thr := ts\<rparr>)"
| wait: "runs me s \<Longrightarrow> process_wait_begin me tid (thr s) = Some (r, ts) \<Longrightarrow> child_step s (s\<lparr>thr := ts\<rparr>)"
| waited: "process_wait_end me (thr s) = Some (r, ts) \<Longrightarrow> child_step s (s\<lparr>thr := ts\<rparr>)"
| exits: "awake me s \<Longrightarrow> exit_process me st (thr s) = Some ts \<Longrightarrow> child_step s (s\<lparr>thr := ts, dead := (dead s)(me \<mapsto> st)\<rparr>)"
| killed: "runs me s \<Longrightarrow> child_step s (s\<lparr>thr := exit_thread me (thr s)\<rparr>)"

definition first_machine :: machine where
  "first_machine = \<lparr>thr = (\<lambda>_. None)(1 \<mapsto> \<lparr>parent_thread = None, child_list = [], starting = False, executing = None, waiting_for = None\<rparr>),
     born = \<lambda>_. None, dead = \<lambda>_. None, next_tid = 2\<rparr>"

definition child_reach :: "machine \<Rightarrow> bool" where
  "child_reach = child_step\<^sup>*\<^sup>* first_machine"

section \<open>The invariant\<close>

text \<open>The record of a child says whether and how it exited.\<close>

definition record_ok :: "machine \<Rightarrow> nat \<Rightarrow> thread_child \<Rightarrow> bool" where
  "record_ok s t c \<longleftrightarrow> born s (process_id c) = Some t
     \<and> (case dead s (process_id c) of None \<Rightarrow> tc_semaphore c = 0 | Some st \<Rightarrow> tc_semaphore c = 1 \<and> tc_status c = st)"

text \<open>Each thread has a record of each living child, and each child once. While a child is being started, its parent waits for it.\<close>

definition thread_ok :: "machine \<Rightarrow> nat \<Rightarrow> thread4 \<Rightarrow> bool" where
  "thread_ok s t p \<longleftrightarrow> t < next_tid s \<and> dead s t = None \<and> parent_thread p = born s t \<and> distinct (map process_id (child_list p)) \<and> (\<forall>c\<in>set (child_list p). record_ok s t c)
     \<and> (\<forall>tid. waiting_for p = Some tid \<longrightarrow> tid \<in> process_id ` set (child_list p)) \<and> (\<forall>a. executing p = Some a \<longrightarrow> pa_tid a = None \<longrightarrow> pa_sema a = 0)
     \<and> (\<forall>tid q. thr s tid = Some q \<longrightarrow> born s tid = Some t \<longrightarrow> tid \<in> process_id ` set (child_list p))"

definition starts_under :: "machine \<Rightarrow> nat \<Rightarrow> bool" where
  "starts_under s t \<longleftrightarrow> (\<exists>u q a. born s t = Some u \<and> thr s u = Some q \<and> executing q = Some a \<and> pa_tid a = Some t \<and> pa_sema a = 0)"

definition children_ok :: "machine \<Rightarrow> bool" where
  "children_ok s \<longleftrightarrow> (\<forall>t p. thr s t = Some p \<longrightarrow> thread_ok s t p)
     \<and> (\<forall>t p. thr s t = Some p \<longrightarrow> starting p \<longrightarrow> executing p = None \<and> waiting_for p = None \<and> starts_under s t)
     \<and> (\<forall>t st. dead s t = Some st \<longrightarrow> t < next_tid s) \<and> (\<forall>t u. born s t = Some u \<longrightarrow> t < next_tid s \<and> u < next_tid s \<and> u \<noteq> t)"

lemma children_okD:
  assumes "children_ok s"
  shows "thr s t = Some p \<Longrightarrow> thread_ok s t p"
    "thr s t = Some p \<Longrightarrow> starting p \<Longrightarrow> executing p = None \<and> waiting_for p = None \<and> starts_under s t"
    "dead s t = Some st \<Longrightarrow> t < next_tid s" "born s t = Some u \<Longrightarrow> t < next_tid s \<and> u < next_tid s \<and> u \<noteq> t"
  using assms unfolding children_ok_def by blast+

lemma children_okI:
  assumes "\<And>t p. thr s t = Some p \<Longrightarrow> thread_ok s t p"
    "\<And>t p. thr s t = Some p \<Longrightarrow> starting p \<Longrightarrow> executing p = None \<and> waiting_for p = None \<and> starts_under s t"
    "\<And>t st. dead s t = Some st \<Longrightarrow> t < next_tid s" "\<And>t u. born s t = Some u \<Longrightarrow> t < next_tid s \<and> u < next_tid s \<and> u \<noteq> t"
  shows "children_ok s"
  using assms unfolding children_ok_def by blast

lemma thread_okD:
  assumes "thread_ok s t p"
  shows "t < next_tid s" "dead s t = None" "parent_thread p = born s t" "distinct (map process_id (child_list p))" "c \<in> set (child_list p) \<Longrightarrow> record_ok s t c"
    "waiting_for p = Some tid \<Longrightarrow> tid \<in> process_id ` set (child_list p)" "executing p = Some a \<Longrightarrow> pa_tid a = None \<Longrightarrow> pa_sema a = 0"
    "thr s tid = Some q \<Longrightarrow> born s tid = Some t \<Longrightarrow> tid \<in> process_id ` set (child_list p)"
  using assms unfolding thread_ok_def by blast+

lemma fresh_id: "t \<notin> process_id ` set cs \<Longrightarrow> c \<in> set cs \<Longrightarrow> process_id c \<noteq> t"
  by auto

lemma find_child_Some: "distinct (map process_id cs) \<Longrightarrow> c \<in> set cs \<Longrightarrow> List.find (\<lambda>d. process_id d = process_id c) cs = Some c"
  by (induction cs) (auto dest: fresh_id)

lemma find_child_None: "List.find (\<lambda>c. process_id c = tid) cs = None \<longleftrightarrow> tid \<notin> process_id ` set cs"
  by (auto simp: find_None_iff)

lemma on_child_ids: "(\<And>c. process_id (f c) = process_id c) \<Longrightarrow> map process_id (on_child tid f cs) = map process_id cs"
  by (induction cs) auto

lemma on_child_eq: "distinct (map process_id cs) \<Longrightarrow> on_child tid f cs = map (\<lambda>c. if process_id c = tid then f c else c) cs"
  by (induction cs) (auto intro!: map_idI [symmetric] dest: fresh_id)

lemma remove_child:
  "distinct (map process_id cs) \<Longrightarrow> c \<in> set cs \<Longrightarrow> (\<And>c. process_id (f c) = process_id c) \<Longrightarrow> remove1 (f c) (on_child (process_id c) f cs) = filter (\<lambda>d. process_id d \<noteq> process_id c) cs"
proof (induction cs)
  case (Cons d cs)
  show ?case
  proof (cases "d = c")
    case True
    then have "\<forall>x\<in>set cs. process_id x \<noteq> process_id c" using Cons.prems(1) by (auto dest: fresh_id)
    then show ?thesis using True by (simp add: filter_id_conv)
  next
    case False
    then have c: "c \<in> set cs" using Cons.prems(2) by simp
    then have n: "process_id d \<noteq> process_id c" using Cons.prems(1) by auto
    then have "f c \<noteq> d" using Cons.prems(3) [of c] by auto
    then show ?thesis using Cons n c by auto
  qed
qed simp

lemma exit_effect:
  assumes "ts me = Some p" "parent_thread p = Some u" "ts u = Some q" "distinct (map process_id (child_list q))"
  shows "exit_status me st ts = (if me \<in> process_id ` set (child_list q)
    then Some (ts(u \<mapsto> q\<lparr>child_list := map (\<lambda>c. if process_id c = me then c\<lparr>tc_status := st, tc_semaphore := tc_semaphore c + 1\<rparr> else c) (child_list q)\<rparr>)) else None)"
proof (cases "me \<in> process_id ` set (child_list q)")
  case False
  then have "List.find (\<lambda>c. process_id c = me) (child_list q) = None" by (simp add: find_child_None)
  then show ?thesis using assms(1-3) False by (simp add: exit_status_def thread_set_child_exit_status_def find_child_with_tid_def)
next
  case True
  then obtain c where "List.find (\<lambda>c. process_id c = me) (child_list q) = Some c" using find_child_None [of me "child_list q"] by auto
  then have set: "thread_set_child_exit_status u me st ts = Some (ts(u \<mapsto> q\<lparr>child_list := on_child me (\<lambda>c. c\<lparr>tc_status := st\<rparr>) (child_list q)\<rparr>))"
    using assms(3) by (simp add: thread_set_child_exit_status_def find_child_with_tid_def)
  have "distinct (map process_id (on_child me (\<lambda>c. c\<lparr>tc_status := st\<rparr>) (child_list q)))" using assms(4) by (simp add: on_child_ids)
  then have "on_child me (\<lambda>c. c\<lparr>tc_semaphore := tc_semaphore c + 1\<rparr>) (on_child me (\<lambda>c. c\<lparr>tc_status := st\<rparr>) (child_list q))
      = map (\<lambda>c. if process_id c = me then c\<lparr>tc_status := st, tc_semaphore := tc_semaphore c + 1\<rparr> else c) (child_list q)"
    using assms(4) by (simp add: on_child_eq)
  then show ?thesis using assms(1-3) set True by (simp add: exit_status_def)
qed


section \<open>Every step keeps the invariant\<close>

text \<open>A thread whose list is as before.\<close>

lemma thread_ok_keep:
  assumes ok: "children_ok s" "thread_ok s t p" and more: "next_tid s \<le> next_tid s'" "\<And>x. x < next_tid s \<Longrightarrow> born s' x = born s x" "dead s' t = None"
    and recs: "\<And>c. c \<in> set (child_list p) \<Longrightarrow> dead s' (process_id c) = dead s (process_id c)"
    and live: "\<And>tid q. thr s' tid = Some q \<Longrightarrow> born s' tid = Some t \<Longrightarrow> tid < next_tid s \<and> thr s tid \<noteq> None"
    and p': "child_list p' = child_list p" "parent_thread p' = parent_thread p" "\<And>tid. waiting_for p' = Some tid \<Longrightarrow> tid \<in> process_id ` set (child_list p)"
      "\<And>a. executing p' = Some a \<Longrightarrow> pa_tid a = None \<Longrightarrow> pa_sema a = 0"
  shows "thread_ok s' t p'"
proof -
  note T = thread_okD [OF ok(2)]
  have r: "record_ok s' t c" if c: "c \<in> set (child_list p)" for c
  proof -
    have "record_ok s t c" by (rule T(5) [OF c])
    moreover from this have "process_id c < next_tid s" using children_okD(4) [OF ok(1)] by (auto simp: record_ok_def)
    ultimately show ?thesis using more(2) recs [OF c] by (simp add: record_ok_def)
  qed
  have l: "tid \<in> process_id ` set (child_list p)" if "thr s' tid = Some q" "born s' tid = Some t" for tid q
    using T(8) live [OF that] more(2) that(2) by auto
  show ?thesis unfolding thread_ok_def p'(1)
  proof (intro conjI allI ballI impI)
    show "t < next_tid s'" using T(1) more(1) by linarith
    show "parent_thread p' = born s' t" using T(1,3) more(2) p'(2) by simp
  qed (use T(4) more(3) r l p'(3,4) in auto)
qed

lemma fresh_tid:
  assumes "children_ok s" shows "thr s (next_tid s) = None" "born s (next_tid s) = None" "dead s (next_tid s) = None"
proof -
  show "thr s (next_tid s) = None" using thread_okD(1) [OF children_okD(1) [OF assms]] by (cases "thr s (next_tid s)") auto
  show "born s (next_tid s) = None" using children_okD(4) [OF assms, of "next_tid s"] by (cases "born s (next_tid s)") auto
  show "dead s (next_tid s) = None" using children_okD(3) [OF assms, of "next_tid s"] by (cases "dead s (next_tid s)") auto
qed

lemma execute_keeps:
  assumes ok: "children_ok s" and me: "runs me s" and run: "process_execute_begin me True (Some (next_tid s)) (thr s) = Some (r, ts)"
  shows "children_ok (s\<lparr>thr := ts, born := (born s)(next_tid s \<mapsto> me), next_tid := next_tid s + 1\<rparr>)"
proof -
  let ?n = "next_tid s" let ?s = "s\<lparr>thr := ts, born := (born s)(?n \<mapsto> me), next_tid := ?n + 1\<rparr>"
  obtain p where p: "thr s me = Some p" "\<not> starting p" "executing p = None" using me by (auto simp: runs_def split: option.splits)
  note T = thread_okD [OF children_okD(1) [OF ok p(1)]]
  have fresh: "thr s ?n = None" "born s ?n = None" "dead s ?n = None" "me \<noteq> ?n" using fresh_tid [OF ok] T(1) by auto
  let ?p = "p\<lparr>child_list := child_list p @ [init_child_struct ?n], executing := Some \<lparr>pa_tid = Some ?n, pa_status = - 2, pa_sema = 0\<rparr>\<rparr>"
  let ?c = "\<lparr>parent_thread = Some me, child_list = [], starting = True, executing = None, waiting_for = None\<rparr>"
  have ts: "ts = (thr s)(me \<mapsto> ?p, ?n \<mapsto> ?c)" using run p fresh(4)
    by (auto simp: process_execute_begin_def thread_create_child_def fun_upd_twist)
  have idn: "process_id c \<noteq> ?n" if "c \<in> set (child_list p)" for c using T(5) [OF that] fresh(2) by (auto simp: record_ok_def)
  have new: "?n \<notin> process_id ` set (child_list p)" using idn by (metis imageE)
  have "thread_ok ?s t q" if q: "thr ?s t = Some q" for t q
  proof -
    consider "t = me" | "t = ?n" | "t \<noteq> me" "t \<noteq> ?n" by blast
    then show ?thesis
    proof cases
      case 1
      have r: "record_ok ?s me c" if "c \<in> set (child_list p)" for c using T(5) [OF that] idn [OF that] by (simp add: record_ok_def)
      have l: "tid \<in> process_id ` set (child_list p)" if "thr s tid = Some q" "born s tid = Some me" for tid q using T(8) that by blast
      have q: "q = ?p" using q 1 fresh(4) by (simp add: ts)
      show ?thesis unfolding thread_ok_def 1
      proof (intro conjI allI ballI impI)
        show "record_ok ?s me c" if "c \<in> set (child_list q)" for c
        proof (cases "c \<in> set (child_list p)")
          case False
          then have "c = init_child_struct ?n" using that q by simp
          then show ?thesis using fresh by (simp add: record_ok_def init_child_struct_def)
        qed (rule r)
        show "tid \<in> process_id ` set (child_list q)" if "thr ?s tid = Some q'" "born ?s tid = Some me" for tid q'
          using that q l T(1) fresh children_okD(4) [OF ok, of me] by (cases "tid = ?n"; cases "tid = me") (auto simp: ts init_child_struct_def)
        show "distinct (map process_id (child_list q))" using q T(4) new by (simp add: init_child_struct_def)
      qed (use T(1-4,6) q fresh in \<open>auto simp: init_child_struct_def\<close>)
    next
      case 2
      then have q: "q = ?c" using q by (simp add: ts)
      have n: "born s x \<noteq> Some ?n" for x using children_okD(4) [OF ok, of x ?n] by auto
      show ?thesis using q fresh n 2 by (auto simp: thread_ok_def)
    next
      case 3
      then have s: "thr s t = Some q" using q by (simp add: ts)
      note K = thread_okD [OF children_okD(1) [OF ok s]]
      show ?thesis
      proof (rule thread_ok_keep [OF ok children_okD(1) [OF ok s]])
        show "tid < ?n \<and> thr s tid \<noteq> None" if "thr ?s tid = Some r" "born ?s tid = Some t" for tid r
          using that 3 p(1) children_okD(4) [OF ok, of tid] by (auto simp: ts split: if_splits)
      qed (use K in auto)
    qed
  qed
  moreover have "executing q = None \<and> waiting_for q = None \<and> starts_under ?s t" if q: "thr ?s t = Some q" "starting q" for t q
  proof (cases "t = ?n")
    case True
    then show ?thesis using fresh(4) q(1) by (auto simp: ts starts_under_def)
  next
    case False
    then have "thr s t = Some q" using q p(2) by (auto simp: ts split: if_splits)
    then have e: "executing q = None" "waiting_for q = None" "starts_under s t" using children_okD(2) [OF ok _ q(2)] by blast+
    then obtain u r a where u: "born s t = Some u" "thr s u = Some r" "executing r = Some a" "pa_tid a = Some t" "pa_sema a = 0" unfolding starts_under_def by blast
    moreover have "u \<noteq> me" using u(2,3) p by auto
    moreover have "u \<noteq> ?n" using u(2) fresh(1) by auto
    ultimately show ?thesis using False e by (auto simp: ts starts_under_def)
  qed
  moreover have "t < next_tid ?s" if "dead ?s t = Some st" for t st using children_okD(3) [OF ok, of t st] that by simp
  moreover have "t < next_tid ?s \<and> u < next_tid ?s \<and> u \<noteq> t" if "born ?s t = Some u" for t u
  proof (cases "t = ?n")
    case True
    then show ?thesis using that T(1) fresh(4) by auto
  next
    case False
    then show ?thesis using that children_okD(4) [OF ok, of t u] by auto
  qed
  ultimately show ?thesis by (rule children_okI)
qed

text \<open>A change of one thread, and of what became of its children.\<close>

lemma change_keeps:
  assumes ok: "children_ok s" and me: "thr s me = Some p" and s': "s' = s\<lparr>thr := (thr s)(me \<mapsto> p'), dead := d\<rparr>" and T': "thread_ok s' me p'"
    and d: "\<And>t. born s t \<noteq> Some me \<Longrightarrow> d t = dead s t" "\<And>t. thr s t \<noteq> None \<Longrightarrow> d t = None" "\<And>t st. d t = Some st \<Longrightarrow> t < next_tid s"
    and st: "starting p' \<Longrightarrow> starting p \<and> executing p' = None \<and> waiting_for p' = None"
    and ex: "\<And>t q. thr s t = Some q \<Longrightarrow> starting q \<Longrightarrow> t \<noteq> me \<Longrightarrow> born s t = Some me \<Longrightarrow> \<exists>a. executing p' = Some a \<and> pa_tid a = Some t \<and> pa_sema a = 0"
  shows "children_ok s'"
proof -
  have "thread_ok s' t q" if q: "thr s' t = Some q" for t q
  proof (cases "t = me")
    case False
    then have s: "thr s t = Some q" using q s' by simp
    note K = thread_okD [OF children_okD(1) [OF ok s]]
    have live: "tid < next_tid s \<and> thr s tid \<noteq> None" if "thr s' tid = Some r" for tid r
      using that me s' thread_okD(1) [OF children_okD(1) [OF ok]] by (auto split: if_splits)
    show ?thesis
    proof (rule thread_ok_keep [OF ok children_okD(1) [OF ok s]])
      show "dead s' (process_id c) = dead s (process_id c)" if "c \<in> set (child_list q)" for c
        using K(5) [OF that] False d(1) [of "process_id c"] s' by (simp add: record_ok_def)
    qed (use K live s' s d(2) in auto)
  qed (use T' q s' in simp)
  moreover have "executing q = None \<and> waiting_for q = None \<and> starts_under s' t" if q: "thr s' t = Some q" "starting q" for t q
  proof -
    obtain q0 where q0: "thr s t = Some q0" "starting q0" "t \<noteq> me \<Longrightarrow> q = q0" using q me st s' by (cases "t = me") auto
    note F = children_okD(2) [OF ok q0(1,2)]
    have e: "executing q = None \<and> waiting_for q = None" using F q q0(3) st s' by (cases "t = me") auto
    obtain u r a where u: "born s t = Some u" "thr s u = Some r" "executing r = Some a" "pa_tid a = Some t" "pa_sema a = 0" using F unfolding starts_under_def by blast
    have "u \<noteq> t" using children_okD(4) [OF ok u(1)] by simp
    then show ?thesis using e u ex [OF q0(1,2)] s' by (cases "u = me") (auto simp: starts_under_def)
  qed
  moreover have "t < next_tid s'" if "dead s' t = Some st" for t st using d(3) that s' by simp
  moreover have "t < next_tid s' \<and> u < next_tid s' \<and> u \<noteq> t" if "born s' t = Some u" for t u using children_okD(4) [OF ok, of t u] that s' by simp
  ultimately show ?thesis by (rule children_okI)
qed

lemma thr_only: "s\<lparr>thr := ts\<rparr> = s\<lparr>thr := ts, dead := dead s\<rparr>"
  by (cases s) simp

text \<open>A change that leaves the list alone.\<close>

lemma update_keeps:
  assumes ok: "children_ok s" and me: "thr s me = Some p"
    and p': "child_list p' = child_list p" "parent_thread p' = parent_thread p" "\<And>tid. waiting_for p' = Some tid \<Longrightarrow> tid \<in> process_id ` set (child_list p)"
      "\<And>a. executing p' = Some a \<Longrightarrow> pa_tid a = None \<Longrightarrow> pa_sema a = 0"
    and st: "starting p' \<Longrightarrow> starting p \<and> executing p' = None \<and> waiting_for p' = None"
    and ex: "\<And>t q. thr s t = Some q \<Longrightarrow> starting q \<Longrightarrow> t \<noteq> me \<Longrightarrow> born s t = Some me \<Longrightarrow> \<exists>a. executing p' = Some a \<and> pa_tid a = Some t \<and> pa_sema a = 0"
  shows "children_ok (s\<lparr>thr := (thr s)(me \<mapsto> p')\<rparr>)"
proof (rule change_keeps [OF ok me thr_only])
  note K = thread_okD [OF children_okD(1) [OF ok me]]
  have live: "tid < next_tid s \<and> thr s tid \<noteq> None" if "((thr s)(me \<mapsto> p')) tid = Some r" for tid r
    using that me thread_okD(1) [OF children_okD(1) [OF ok]] by (auto split: if_splits)
  show "thread_ok (s\<lparr>thr := (thr s)(me \<mapsto> p')\<rparr>) me p'"
    by (rule thread_ok_keep [OF ok children_okD(1) [OF ok me]]) (use K p' live in auto)
  show "dead s t = None" if "thr s t \<noteq> None" for t using that thread_okD(2) [OF children_okD(1) [OF ok]] by auto
qed (use children_okD(3) [OF ok] st ex in auto)

lemma starting_child:
  assumes "children_ok s" "thr s me = Some p" "thr s t = Some q" "starting q" "born s t = Some me"
  shows "\<exists>a. executing p = Some a \<and> pa_tid a = Some t \<and> pa_sema a = 0"
  using children_okD(2) [OF assms(1,3,4)] assms(2,5) by (auto simp: starts_under_def)

text \<open>A thread without a child that is being started goes away.\<close>

lemma vanish_keeps:
  assumes ok: "children_ok s" and me: "\<And>p. thr s me = Some p \<Longrightarrow> executing p = None"
  shows "children_ok (s\<lparr>thr := (thr s)(me := None)\<rparr>)"
proof -
  let ?s = "s\<lparr>thr := (thr s)(me := None)\<rparr>"
  have "thread_ok ?s t q" if q: "thr ?s t = Some q" for t q
  proof -
    have s: "thr s t = Some q" using q by (auto split: if_splits)
    note K = thread_okD [OF children_okD(1) [OF ok s]]
    have live: "tid < next_tid s \<and> thr s tid \<noteq> None" if "thr ?s tid = Some r" for tid r
      using that thread_okD(1) [OF children_okD(1) [OF ok]] by (auto split: if_splits)
    show ?thesis by (rule thread_ok_keep [OF ok children_okD(1) [OF ok s]]) (use K live in auto)
  qed
  moreover have "executing q = None \<and> waiting_for q = None \<and> starts_under ?s t" if q: "thr ?s t = Some q" "starting q" for t q
  proof -
    have s: "thr s t = Some q" using q by (auto split: if_splits)
    note F = children_okD(2) [OF ok s q(2)]
    obtain u r a where u: "born s t = Some u" "thr s u = Some r" "executing r = Some a" "pa_tid a = Some t" "pa_sema a = 0" using F unfolding starts_under_def by blast
    have "u \<noteq> me" using me u by auto
    then show ?thesis using F u by (auto simp: starts_under_def)
  qed
  moreover have "t < next_tid ?s" if "dead ?s t = Some st" for t st using children_okD(3) [OF ok, of t st] that by simp
  moreover have "t < next_tid ?s \<and> u < next_tid ?s \<and> u \<noteq> t" if "born ?s t = Some u" for t u using children_okD(4) [OF ok, of t u] that by simp
  ultimately show ?thesis by (rule children_okI)
qed

lemma no_thread_keeps:
  assumes ok: "children_ok s" and me: "runs me s" and run: "process_execute_begin me page None (thr s) = Some (r, ts)"
  shows "children_ok (s\<lparr>thr := ts\<rparr>)"
proof (cases page)
  case True
  obtain p where p: "thr s me = Some p" "\<not> starting p" "executing p = None" "waiting_for p = None" using me by (auto simp: runs_def split: option.splits)
  have ts: "ts = (thr s)(me \<mapsto> p\<lparr>executing := Some \<lparr>pa_tid = None, pa_status = - 2, pa_sema = 0\<rparr>\<rparr>)"
    using run p(1) True by (simp add: process_execute_begin_def)
  show ?thesis unfolding ts by (rule update_keeps [OF ok p(1)]) (use p starting_child [OF ok p(1)] in auto)
qed (use ok run in \<open>auto simp: process_execute_begin_def\<close>)

lemma executed_keeps:
  assumes ok: "children_ok s" and run: "process_execute_end me (thr s) = Some (r, ts)"
  shows "children_ok (s\<lparr>thr := ts\<rparr>)"
proof -
  obtain p a where p: "thr s me = Some p" "executing p = Some a" "0 < pa_sema a" "ts = (thr s)(me \<mapsto> p\<lparr>executing := None\<rparr>)"
    using run by (auto simp: process_execute_end_def bind_eq_Some_conv)
  note K = thread_okD [OF children_okD(1) [OF ok p(1)]]
  have "\<not> starting p" using children_okD(2) [OF ok p(1)] p(2) by auto
  then show ?thesis unfolding p(4) by (intro update_keeps [OF ok p(1)]) (use p starting_child [OF ok p(1)] K(6) in auto)
qed

lemma wait_keeps:
  assumes ok: "children_ok s" and me: "runs me s" and run: "process_wait_begin me tid (thr s) = Some (r, ts)"
  shows "children_ok (s\<lparr>thr := ts\<rparr>)"
proof -
  obtain p where p: "thr s me = Some p" "\<not> starting p" "executing p = None" "waiting_for p = None" using me by (auto simp: runs_def split: option.splits)
  show ?thesis
  proof (cases "List.find (\<lambda>c. process_id c = tid) (child_list p)")
    case None
    then show ?thesis using run p ok by (auto simp: process_wait_begin_def find_child_with_tid_def)
  next
    case (Some c)
    then have ts: "ts = (thr s)(me \<mapsto> p\<lparr>waiting_for := Some tid\<rparr>)" using run p by (simp add: process_wait_begin_def find_child_with_tid_def)
    have "tid \<in> process_id ` set (child_list p)" using Some find_child_None [of tid "child_list p"] by auto
    then show ?thesis unfolding ts by (intro update_keeps [OF ok p(1)]) (use p starting_child [OF ok p(1)] in auto)
  qed
qed

text \<open>The parent goes on exactly when the child has exited, with its status, and forgets the child.\<close>

lemma wait_end_effect:
  assumes ok: "children_ok s" and p: "thr s me = Some p" "waiting_for p = Some tid"
  shows "process_wait_end me (thr s) = (case dead s tid of None \<Rightarrow> None
    | Some st \<Rightarrow> Some (st, (thr s)(me \<mapsto> p\<lparr>waiting_for := None, child_list := filter (\<lambda>c. process_id c \<noteq> tid) (child_list p)\<rparr>)))"
proof -
  note K = thread_okD [OF children_okD(1) [OF ok p(1)]]
  obtain c where c: "c \<in> set (child_list p)" "process_id c = tid" using K(6) [OF p(2)] by auto
  have find: "List.find (\<lambda>c. process_id c = tid) (child_list p) = Some c" using find_child_Some [OF K(4) c(1)] c(2) by simp
  have rm: "remove1 (c\<lparr>tc_semaphore := tc_semaphore c - 1\<rparr>) (on_child tid (\<lambda>c. c\<lparr>tc_semaphore := tc_semaphore c - 1\<rparr>) (child_list p))
      = filter (\<lambda>d. process_id d \<noteq> tid) (child_list p)"
    using remove_child [OF K(4) c(1), of "\<lambda>c. c\<lparr>tc_semaphore := tc_semaphore c - 1\<rparr>"] c(2) by simp
  have "record_ok s me c" by (rule K(5) [OF c(1)])
  then show ?thesis using p find rm c(2) by (auto simp: process_wait_end_def find_child_with_tid_def record_ok_def split: option.splits)
qed

lemma wait_end_waiting: "process_wait_end me ts = Some (r, ts') \<Longrightarrow> \<exists>p tid. ts me = Some p \<and> waiting_for p = Some tid"
  by (auto simp: process_wait_end_def bind_eq_Some_conv)

lemma waited_keeps:
  assumes ok: "children_ok s" and run: "process_wait_end me (thr s) = Some (r, ts)"
  shows "children_ok (s\<lparr>thr := ts\<rparr>)"
proof -
  obtain p tid where p: "thr s me = Some p" "waiting_for p = Some tid" using wait_end_waiting [OF run] by blast
  note K = thread_okD [OF children_okD(1) [OF ok p(1)]]
  let ?p = "p\<lparr>waiting_for := None, child_list := filter (\<lambda>c. process_id c \<noteq> tid) (child_list p)\<rparr>"
  have ts: "ts = (thr s)(me \<mapsto> ?p)" and dead: "dead s tid \<noteq> None" using run wait_end_effect [OF ok p] by (auto split: option.splits)
  have st: "\<not> starting p" using children_okD(2) [OF ok p(1)] p(2) by auto
  have gone: "thr s tid = None" using dead thread_okD(2) [OF children_okD(1) [OF ok]] by (cases "thr s tid") auto
  have T: "thread_ok (s\<lparr>thr := ts\<rparr>) me ?p" unfolding thread_ok_def
  proof (intro conjI allI ballI impI)
    show "distinct (map process_id (child_list ?p))" using K(4) by (simp add: distinct_map_filter)
    show "record_ok (s\<lparr>thr := ts\<rparr>) me c" if "c \<in> set (child_list ?p)" for c using that K(5) [of c] by (simp add: record_ok_def)
    show "t \<in> process_id ` set (child_list ?p)" if "thr (s\<lparr>thr := ts\<rparr>) t = Some q" "born (s\<lparr>thr := ts\<rparr>) t = Some me" for t q
    proof -
      have t: "thr s t \<noteq> None" using that(1) p(1) by (auto simp: ts split: if_splits)
      moreover have "t \<noteq> tid" using t gone by auto
      ultimately show ?thesis using K(8) [of t] that(2) by (auto simp: image_iff)
    qed
  qed (use K in auto)
  have "children_ok (s\<lparr>thr := ts\<rparr>)"
  proof (rule change_keeps [OF ok p(1) _ T])
    show "s\<lparr>thr := ts\<rparr> = s\<lparr>thr := (thr s)(me \<mapsto> ?p), dead := dead s\<rparr>" unfolding ts by (rule thr_only)
    show "dead s t = None" if "thr s t \<noteq> None" for t using that thread_okD(2) [OF children_okD(1) [OF ok]] by auto
  qed (use children_okD(3) [OF ok] st starting_child [OF ok p(1)] in auto)
  then show ?thesis .
qed

lemma start_effect:
  assumes ok: "children_ok s" and p: "thr s me = Some p" "starting p"
  obtains u q a where "born s me = Some u" "thr s u = Some q" "u \<noteq> me" "executing q = Some a" "pa_tid a = Some me" "pa_sema a = 0"
    "start_process me success (thr s) = Some ((if success then (thr s)(me \<mapsto> p\<lparr>starting := False\<rparr>) else (thr s)(me := None))
       (u \<mapsto> q\<lparr>executing := Some (a\<lparr>pa_status := (if success then pa_status a else - 1), pa_sema := 1\<rparr>)\<rparr>))"
proof -
  obtain u q a where u: "born s me = Some u" "thr s u = Some q" "executing q = Some a" "pa_tid a = Some me" "pa_sema a = 0"
    using children_okD(2) [OF ok p] unfolding starts_under_def by blast
  have n: "u \<noteq> me" using children_okD(4) [OF ok u(1)] by simp
  have par: "parent_thread p = Some u" using thread_okD(3) [OF children_okD(1) [OF ok p(1)]] u(1) by simp
  show ?thesis
    by (rule that [OF u(1,2) n u(3-5)]) (use p u n par in \<open>auto simp: start_process_def exit_thread_def fun_upd_twist Let_def\<close>)
qed

lemma start_keeps:
  assumes ok: "children_ok s" and p: "thr s me = Some p" "starting p" and run: "start_process me success (thr s) = Some ts"
  shows "children_ok (s\<lparr>thr := ts\<rparr>)"
proof -
  obtain u q a where u: "born s me = Some u" "thr s u = Some q" "u \<noteq> me" "executing q = Some a" "pa_tid a = Some me" "pa_sema a = 0"
    and e: "start_process me success (thr s) = Some ((if success then (thr s)(me \<mapsto> p\<lparr>starting := False\<rparr>) else (thr s)(me := None))
       (u \<mapsto> q\<lparr>executing := Some (a\<lparr>pa_status := (if success then pa_status a else - 1), pa_sema := 1\<rparr>)\<rparr>))"
    by (rule start_effect [OF ok p])
  let ?t = "if success then (thr s)(me \<mapsto> p\<lparr>starting := False\<rparr>) else (thr s)(me := None)" let ?s = "s\<lparr>thr := ?t\<rparr>"
  note K = thread_okD [OF children_okD(1) [OF ok p(1)]] and F = children_okD(2) [OF ok p]
  have ok': "children_ok ?s"
  proof (cases success)
    case True
    have "children_ok (s\<lparr>thr := (thr s)(me \<mapsto> p\<lparr>starting := False\<rparr>)\<rparr>)"
      by (rule update_keeps [OF ok p(1)]) (use F K starting_child [OF ok p(1)] in auto)
    then show ?thesis using True by simp
  next
    case False
    have "children_ok (s\<lparr>thr := (thr s)(me := None)\<rparr>)" by (rule vanish_keeps [OF ok]) (use F p(1) in auto)
    then show ?thesis using False by simp
  qed
  have q: "thr ?s u = Some q" using u(2,3) by simp
  have other: False if "thr ?s t = Some r" "starting r" "born ?s t = Some u" for t r
  proof -
    have "t = me" using starting_child [OF ok' q that] u(4,5) by auto
    then show False using that(1,2) by (auto split: if_splits)
  qed
  have nst: "\<not> starting q" using children_okD(2) [OF ok u(2)] u(4) by auto
  have "children_ok (?s\<lparr>thr := (thr ?s)(u \<mapsto> q\<lparr>executing := Some (a\<lparr>pa_status := (if success then pa_status a else - 1), pa_sema := 1\<rparr>)\<rparr>)\<rparr>)"
    by (rule update_keeps [OF ok' q]) (use u(5) nst other thread_okD(6) [OF children_okD(1) [OF ok u(2)]] in auto)
  then show ?thesis using e run by simp
qed

text \<open>\<open>exit\<close> tells the parent; when the parent is gone, it writes into a page that has been freed.\<close>

definition tell_status :: "nat \<Rightarrow> int \<Rightarrow> thread_child \<Rightarrow> thread_child" where
  "tell_status me st c = (if process_id c = me then c\<lparr>tc_status := st, tc_semaphore := tc_semaphore c + 1\<rparr> else c)"

lemma exit_process_effect:
  assumes ok: "children_ok s" and p: "thr s me = Some p"
  shows "exit_process me st (thr s) = (case born s me of None \<Rightarrow> Some ((thr s)(me := None))
    | Some u \<Rightarrow> (case thr s u of None \<Rightarrow> None | Some q \<Rightarrow> Some ((thr s)(me := None, u \<mapsto> q\<lparr>child_list := map (tell_status me st) (child_list q)\<rparr>))))"
proof -
  note K = thread_okD [OF children_okD(1) [OF ok p]]
  have par: "parent_thread p = born s me" by (rule K(3))
  show ?thesis
  proof (cases "born s me")
    case None
    then show ?thesis using p par by (simp add: exit_process_def exit_status_def exit_thread_def)
  next
    case (Some u)
    have n: "u \<noteq> me" using children_okD(4) [OF ok Some] by simp
    show ?thesis
    proof (cases "thr s u")
      case None
      then show ?thesis using p par Some by (simp add: exit_process_def exit_status_def thread_set_child_exit_status_def)
    next
      case q: (Some q)
      note L = thread_okD [OF children_okD(1) [OF ok q]]
      have "me \<in> process_id ` set (child_list q)" by (rule L(8) [OF p Some])
      then show ?thesis using exit_effect [OF p par [unfolded Some] q L(4), of st] Some q n
        by (simp add: exit_process_def exit_thread_def tell_status_def [abs_def] fun_upd_twist)
    qed
  qed
qed

lemma tell_status_ids: "map process_id (map (tell_status me st) cs) = map process_id cs"
  by (simp add: tell_status_def)

lemma tell_status_image: "process_id ` set (map (tell_status me st) cs) = process_id ` set cs"
  by (metis tell_status_ids set_map)

lemma gone_keeps:
  assumes ok: "children_ok s" and me: "thr s me = None" "born s me = None" "me < next_tid s"
  shows "children_ok (s\<lparr>dead := (dead s)(me \<mapsto> st)\<rparr>)"
proof (rule children_okI)
  let ?s = "s\<lparr>dead := (dead s)(me \<mapsto> st)\<rparr>"
  show "thread_ok ?s t q" if q: "thr ?s t = Some q" for t q
  proof -
    have s: "thr s t = Some q" using q by simp
    note K = thread_okD [OF children_okD(1) [OF ok s]]
    show ?thesis
    proof (rule thread_ok_keep [OF ok children_okD(1) [OF ok s]])
      show "dead ?s (process_id c) = dead s (process_id c)" if "c \<in> set (child_list q)" for c
        using K(5) [OF that] me(2) by (auto simp: record_ok_def)
      show "tid < next_tid s \<and> thr s tid \<noteq> None" if "thr ?s tid = Some r" "born ?s tid = Some t" for tid r
        using that thread_okD(1) [OF children_okD(1) [OF ok]] by auto
      show "dead ?s t = None" using K(2) s me(1) by auto
    qed (use K in auto)
  qed
  show "executing q = None \<and> waiting_for q = None \<and> starts_under ?s t" if "thr ?s t = Some q" "starting q" for t q
    using children_okD(2) [OF ok, of t q] that by (simp add: starts_under_def)
qed (use children_okD(3,4) [OF ok] me(3) in \<open>auto split: if_splits\<close>)

lemma exits_keeps:
  assumes ok: "children_ok s" and me: "awake me s" and run: "exit_process me st (thr s) = Some ts"
  shows "children_ok (s\<lparr>thr := ts, dead := (dead s)(me \<mapsto> st)\<rparr>)"
proof -
  obtain p where p: "thr s me = Some p" "executing p = None" "waiting_for p = None" using me by (auto simp: awake_def split: option.splits)
  note K = thread_okD [OF children_okD(1) [OF ok p(1)]]
  let ?s = "s\<lparr>thr := (thr s)(me := None)\<rparr>"
  have ok': "children_ok ?s" by (rule vanish_keeps [OF ok]) (use p in auto)
  show ?thesis
  proof (cases "born s me")
    case None
    then have "ts = (thr s)(me := None)" using run exit_process_effect [OF ok p(1), of st] by simp
    then show ?thesis using gone_keeps [OF ok', of me st] None K(1) by simp
  next
    case (Some u)
    have n: "u \<noteq> me" using children_okD(4) [OF ok Some] by simp
    obtain q where q: "thr s u = Some q" and ts: "ts = (thr s)(me := None, u \<mapsto> q\<lparr>child_list := map (tell_status me st) (child_list q)\<rparr>)"
      using run exit_process_effect [OF ok p(1), of st] Some by (auto split: option.splits)
    let ?q = "q\<lparr>child_list := map (tell_status me st) (child_list q)\<rparr>" let ?e = "s\<lparr>thr := ts, dead := (dead s)(me \<mapsto> st)\<rparr>"
    note L = thread_okD [OF children_okD(1) [OF ok q]]
    have q': "thr ?s u = Some q" using q n by simp
    have T: "thread_ok ?e u ?q" unfolding thread_ok_def
    proof (intro conjI allI ballI impI)
      have "map process_id (child_list ?q) = map process_id (child_list q)" using tell_status_ids [of me st "child_list q"] by (simp del: map_map map_eq_conv)
      then show "distinct (map process_id (child_list ?q))" using L(4) by (simp only:)
      show "record_ok ?e u c" if "c \<in> set (child_list ?q)" for c
      proof -
        obtain d where d: "d \<in> set (child_list q)" "c = tell_status me st d" using \<open>c \<in> set (child_list ?q)\<close> by auto
        then show ?thesis using L(5) [OF d(1)] K(2) by (cases "process_id d = me") (auto simp: record_ok_def tell_status_def)
      qed
      show "t \<in> process_id ` set (child_list ?q)" if "thr ?e t = Some r" "born ?e t = Some u" for t r
      proof -
        have "thr s t \<noteq> None" using that(1) q by (auto simp: ts split: if_splits)
        then show ?thesis using L(8) [of t] that(2) tell_status_image [of me st "child_list q"] by auto
      qed
      show "t \<in> process_id ` set (child_list ?q)" if "waiting_for ?q = Some t" for t using that L(6) tell_status_image [of me st "child_list q"] by simp
      show "dead ?e u = None" using L(2) n by simp
    qed (use L in auto)
    show ?thesis
    proof (rule change_keeps [OF ok' q' _ T])
      show "?e = ?s\<lparr>thr := (thr ?s)(u \<mapsto> ?q), dead := (dead s)(me \<mapsto> st)\<rparr>" by (simp add: ts)
      show "((dead s)(me \<mapsto> st)) t = dead ?s t" if "born ?s t \<noteq> Some u" for t using that Some by auto
      show "((dead s)(me \<mapsto> st)) t = None" if "thr ?s t \<noteq> None" for t
        using that thread_okD(2) [OF children_okD(1) [OF ok], of t] by (auto split: if_splits)
      show "t < next_tid ?s" if "((dead s)(me \<mapsto> st)) t = Some x" for t x using that children_okD(3) [OF ok, of t x] K(1) by (auto split: if_splits)
      show "starting q \<and> executing ?q = None \<and> waiting_for ?q = None" if "starting ?q" using that children_okD(2) [OF ok q] by simp
      show "\<exists>a. executing ?q = Some a \<and> pa_tid a = Some t \<and> pa_sema a = 0"
        if "thr ?s t = Some r" "starting r" "t \<noteq> u" "born ?s t = Some u" for t r
        using starting_child [OF ok' q' that(1,2,4)] by simp
    qed
  qed
qed

lemma child_step_keeps:
  assumes "child_step s s'" "children_ok s" shows "children_ok s'"
  using assms
proof (induction rule: child_step.induct)
  case (killed me s)
  then have "children_ok (s\<lparr>thr := (thr s)(me := None)\<rparr>)" by (intro vanish_keeps) (auto simp: runs_def)
  then show ?case by (simp add: exit_thread_def)
qed (rule execute_keeps no_thread_keeps start_keeps executed_keeps wait_keeps waited_keeps exits_keeps; assumption)+

lemma child_reach_ok: "child_reach s \<Longrightarrow> children_ok s"
  unfolding child_reach_def
proof (induction rule: rtranclp_induct)
  case base
  show ?case by (auto simp: children_ok_def first_machine_def thread_ok_def split: if_splits)
qed (rule child_step_keeps)

section \<open>A parent that waits for ever\<close>

text \<open>A thread that is gone stays so.\<close>

lemma gone_stays:
  "child_step s s' \<Longrightarrow> children_ok s \<Longrightarrow> born s t = Some u \<Longrightarrow> thr s t = None \<Longrightarrow> thr s' t = None \<and> born s' t = Some u \<and> dead s' t = dead s t"
proof (induction rule: child_step.induct)
  case (execute me s r ts)
  then have "t \<noteq> next_tid s" using fresh_tid(2) [of s] by auto
  then show ?case using execute by (auto simp: process_execute_begin_def thread_create_child_def bind_eq_Some_conv split: if_splits)
next
  case (no_thread me s page r ts)
  then show ?case by (auto simp: process_execute_begin_def bind_eq_Some_conv split: if_splits)
next
  case (start s me p success ts)
  then show ?case by (auto simp: start_process_def exit_thread_def bind_eq_Some_conv Let_def split: if_splits)
next
  case (executed me s r ts)
  then show ?case by (auto simp: process_execute_end_def bind_eq_Some_conv)
next
  case (wait me s tid r ts)
  then show ?case by (auto simp: process_wait_begin_def bind_eq_Some_conv split: if_splits)
next
  case (waited me s r ts)
  then show ?case by (auto simp: process_wait_end_def bind_eq_Some_conv)
next
  case (exits me s st ts)
  obtain p where p: "thr s me = Some p" using exits(1) by (auto simp: awake_def split: option.splits)
  then show ?case using exits(2-5) by (auto simp: exit_process_effect [OF exits(3)] split: option.splits if_splits)
next
  case (killed me s)
  then show ?case by (simp add: exit_thread_def)
qed

lemma blocked_stays:
  "child_step s s' \<Longrightarrow> children_ok s \<Longrightarrow> thr s me = Some p \<Longrightarrow> \<not> awake me s \<Longrightarrow> process_wait_end me (thr s) = None \<Longrightarrow> process_execute_end me (thr s) = None
    \<Longrightarrow> \<forall>t q. born s t = Some me \<longrightarrow> thr s t = Some q \<longrightarrow> \<not> starting q
    \<Longrightarrow> \<exists>p'. thr s' me = Some p' \<and> waiting_for p' = waiting_for p \<and> executing p' = executing p"
proof (induction rule: child_step.induct)
  case (execute x s r ts)
  have "x \<noteq> me" using execute(1,5) by (auto simp: runs_def awake_def split: option.splits)
  moreover have "me \<noteq> next_tid s" using fresh_tid(1) [OF execute(3)] execute(4) by auto
  ultimately show ?case using execute(2,4) by (auto simp: process_execute_begin_def thread_create_child_def bind_eq_Some_conv)
next
  case (no_thread x s page r ts)
  have "x \<noteq> me" using no_thread(1,5) by (auto simp: runs_def awake_def split: option.splits)
  then show ?case using no_thread(2,4) by (auto simp: process_execute_begin_def bind_eq_Some_conv split: if_splits)
next
  case (start s x q success ts)
  obtain u r a where u: "born s x = Some u" "thr s u = Some r"
    and e: "start_process x success (thr s) = Some ((if success then (thr s)(x \<mapsto> q\<lparr>starting := False\<rparr>) else (thr s)(x := None))
       (u \<mapsto> r\<lparr>executing := Some (a\<lparr>pa_status := (if success then pa_status a else - 1), pa_sema := 1\<rparr>)\<rparr>))"
    by (rule start_effect [OF start(4,1,2)])
  have "u \<noteq> me" using u(1) start(1,2,9) by auto
  moreover have "x \<noteq> me" using children_okD(2) [OF start(4,1,2)] start(1,6) by (auto simp: awake_def)
  ultimately show ?case using e start(3,5) by auto
next
  case (executed x s r ts)
  then have "x \<noteq> me" by auto
  then show ?case using executed(1,3) by (auto simp: process_execute_end_def bind_eq_Some_conv)
next
  case (wait x s tid r ts)
  have "x \<noteq> me" using wait(1,5) by (auto simp: runs_def awake_def split: option.splits)
  then show ?case using wait(2,4) by (auto simp: process_wait_begin_def bind_eq_Some_conv split: if_splits)
next
  case (waited x s r ts)
  then have "x \<noteq> me" by auto
  then show ?case using waited(1,3) by (auto simp: process_wait_end_def bind_eq_Some_conv)
next
  case (exits x s st ts)
  obtain q where q: "thr s x = Some q" using exits(1) by (auto simp: awake_def split: option.splits)
  have "x \<noteq> me" using exits(1,5) by auto
  then show ?case using exits(2,4) by (auto simp: exit_process_effect [OF exits(3) q] split: option.splits if_splits)
next
  case (killed x s)
  have "x \<noteq> me" using killed(1,4) by (auto simp: runs_def awake_def split: option.splits)
  then show ?case using killed(3) by (simp add: exit_thread_def)
qed

text \<open>A thread waits for a child that has gone without calling \<open>exit\<close>.\<close>

definition waits_for_lost :: "nat \<Rightarrow> nat \<Rightarrow> machine \<Rightarrow> bool" where
  "waits_for_lost me tid s \<longleftrightarrow> children_ok s \<and> (\<exists>p. thr s me = Some p \<and> waiting_for p = Some tid \<and> executing p = None)
     \<and> born s tid = Some me \<and> thr s tid = None \<and> dead s tid = None"

lemma waits_for_lost_step: "child_step s s' \<Longrightarrow> waits_for_lost me tid s \<Longrightarrow> waits_for_lost me tid s'"
proof -
  assume st: "child_step s s'" and w: "waits_for_lost me tid s"
  obtain p where ok: "children_ok s" and p: "thr s me = Some p" "waiting_for p = Some tid" "executing p = None"
    and tid: "born s tid = Some me" "thr s tid = None" "dead s tid = None" using w unfolding waits_for_lost_def by blast
  have "\<exists>p'. thr s' me = Some p' \<and> waiting_for p' = waiting_for p \<and> executing p' = executing p"
  proof (rule blocked_stays [OF st ok p(1)])
    show "process_wait_end me (thr s) = None" using wait_end_effect [OF ok p(1,2)] tid(3) by simp
    show "process_execute_end me (thr s) = None" using p by (simp add: process_execute_end_def)
    show "\<forall>t q. born s t = Some me \<longrightarrow> thr s t = Some q \<longrightarrow> \<not> starting q" using starting_child [OF ok p(1)] p(3) by auto
  qed (use p in \<open>simp add: awake_def\<close>)
  then show ?thesis using p gone_stays [OF st ok tid(1,2)] tid(3) child_step_keeps [OF st ok] unfolding waits_for_lost_def by auto
qed

text \<open>A thread waits for the start of a child that does not exist, or is gone.\<close>

definition waits_for_start :: "nat \<Rightarrow> machine \<Rightarrow> bool" where
  "waits_for_start me s \<longleftrightarrow> children_ok s \<and> (\<exists>p a. thr s me = Some p \<and> waiting_for p = None \<and> executing p = Some a \<and> pa_sema a = 0
     \<and> (\<forall>t. pa_tid a = Some t \<longrightarrow> born s t = Some me \<and> thr s t = None))"

lemma waits_for_start_step: "child_step s s' \<Longrightarrow> waits_for_start me s \<Longrightarrow> waits_for_start me s'"
proof -
  assume st: "child_step s s'" and w: "waits_for_start me s"
  obtain p a where ok: "children_ok s" and p: "thr s me = Some p" "waiting_for p = None" "executing p = Some a" "pa_sema a = 0"
    and t: "\<And>t. pa_tid a = Some t \<Longrightarrow> born s t = Some me \<and> thr s t = None" using w unfolding waits_for_start_def by blast
  have "\<exists>p'. thr s' me = Some p' \<and> waiting_for p' = waiting_for p \<and> executing p' = executing p"
  proof (rule blocked_stays [OF st ok p(1)])
    show "process_wait_end me (thr s) = None" using p by (simp add: process_wait_end_def)
    show "process_execute_end me (thr s) = None" using p by (simp add: process_execute_end_def)
    show "\<forall>t q. born s t = Some me \<longrightarrow> thr s t = Some q \<longrightarrow> \<not> starting q"
    proof (intro allI impI notI)
      fix x q assume x: "born s x = Some me" "thr s x = Some q" "starting q"
      then have "pa_tid a = Some x" using starting_child [OF ok p(1) x(2,3,1)] p(3) by auto
      then show False using t [of x] x(2) by simp
    qed
  qed (use p in \<open>simp add: awake_def\<close>)
  moreover have "born s' x = Some me \<and> thr s' x = None" if "pa_tid a = Some x" for x using gone_stays [OF st ok] t [OF that] by blast
  ultimately show ?thesis using p child_step_keeps [OF st ok] unfolding waits_for_start_def by auto
qed

lemma waits_for_start_for_ever: "child_step\<^sup>*\<^sup>* s s' \<Longrightarrow> waits_for_start me s \<Longrightarrow> waits_for_start me s'"
  by (induction rule: rtranclp_induct) (blast intro: waits_for_start_step)+

lemma waits_for_lost_for_ever: "child_step\<^sup>*\<^sup>* s s' \<Longrightarrow> waits_for_lost me tid s \<Longrightarrow> waits_for_lost me tid s'"
  by (induction rule: rtranclp_induct) (blast intro: waits_for_lost_step)+

text \<open>Only a thread that runs starts to wait, and it does one thing at a time.\<close>

lemma one_activity_step:
  "child_step s s' \<Longrightarrow> children_ok s \<Longrightarrow> \<forall>p. thr s t = Some p \<longrightarrow> waiting_for p = None \<or> executing p = None \<Longrightarrow> thr s' t = Some q \<Longrightarrow> waiting_for q = None \<or> executing q = None"
proof (induction rule: child_step.induct)
  case (execute me s r ts)
  then show ?case by (auto simp: runs_def process_execute_begin_def thread_create_child_def bind_eq_Some_conv split: if_splits option.splits)
next
  case (no_thread me s page r ts)
  then show ?case by (auto simp: runs_def process_execute_begin_def bind_eq_Some_conv split: if_splits option.splits)
next
  case (start s me p success ts)
  obtain u r a where u: "born s me = Some u" "thr s u = Some r" "executing r = Some a"
    and e: "start_process me success (thr s) = Some ((if success then (thr s)(me \<mapsto> p\<lparr>starting := False\<rparr>) else (thr s)(me := None))
       (u \<mapsto> r\<lparr>executing := Some (a\<lparr>pa_status := (if success then pa_status a else - 1), pa_sema := 1\<rparr>)\<rparr>))"
    by (rule start_effect [OF start(4,1,2)])
  then show ?case using start by (fastforce split: if_splits)
next
  case (executed me s r ts)
  then show ?case by (auto simp: process_execute_end_def bind_eq_Some_conv split: if_splits)
next
  case (wait me s tid r ts)
  then show ?case by (auto simp: runs_def process_wait_begin_def bind_eq_Some_conv split: if_splits option.splits)
next
  case (waited me s r ts)
  then show ?case by (auto simp: process_wait_end_def bind_eq_Some_conv split: if_splits)
next
  case (exits me s st ts)
  obtain p where p: "thr s me = Some p" using exits(1) by (auto simp: awake_def split: option.splits)
  then show ?case using exits(2-5) by (auto simp: exit_process_effect [OF exits(3)] split: option.splits if_splits)
next
  case (killed me s)
  then show ?case by (auto simp: exit_thread_def split: if_splits)
qed

lemma one_activity: "child_reach s \<Longrightarrow> \<forall>p. thr s t = Some p \<longrightarrow> waiting_for p = None \<or> executing p = None"
  unfolding child_reach_def
proof (induction rule: rtranclp_induct)
  case base
  show ?case by (simp add: first_machine_def)
next
  case (step s s')
  have ok: "children_ok s" using step(1) by (intro child_reach_ok) (simp add: child_reach_def)
  show ?case by (intro allI impI) (rule one_activity_step [OF step(2) ok step(3)])
qed

section \<open>What the parent learns\<close>

text \<open>(C11) In every history, a parent that waits for a child goes on exactly when the child has called \<open>exit\<close>. It gets the status the child gave, and a second
  call of \<open>process_wait\<close> for the same child returns -1 at once.\<close>

theorem wait_returns_exit_status:
  assumes "child_reach s" "thr s me = Some p" "waiting_for p = Some tid"
  shows "(process_wait_end me (thr s) = None \<longleftrightarrow> dead s tid = None)
    \<and> (\<forall>r ts. process_wait_end me (thr s) = Some (r, ts) \<longrightarrow> dead s tid = Some r \<and> born s tid = Some me \<and> process_wait_begin me tid ts = Some (Some (- 1), ts))"
proof -
  have ok: "children_ok s" by (rule child_reach_ok [OF assms(1)])
  note K = thread_okD [OF children_okD(1) [OF ok assms(2)]]
  obtain c where c: "c \<in> set (child_list p)" "process_id c = tid" using K(6) [OF assms(3)] by auto
  have born: "born s tid = Some me" using K(5) [OF c(1)] c(2) by (simp add: record_ok_def)
  have again: "process_wait_begin me tid ((thr s)(me \<mapsto> q\<lparr>child_list := filter (\<lambda>c. process_id c \<noteq> tid) cs\<rparr>))
      = Some (Some (- 1), (thr s)(me \<mapsto> q\<lparr>child_list := filter (\<lambda>c. process_id c \<noteq> tid) cs\<rparr>))" for q cs
    using find_child_None [of tid "filter (\<lambda>c. process_id c \<noteq> tid) cs"] by (simp add: process_wait_begin_def find_child_with_tid_def image_iff)
  show ?thesis using wait_end_effect [OF ok assms(2,3)] born again [where q = "p\<lparr>waiting_for := None\<rparr>" and cs = "child_list p"] by (auto split: option.splits)
qed

text \<open>(C21) \<open>exit\<close> writes to the record its parent keeps without asking whether the parent still exists: the exit of a thread uses freed memory exactly when
  the thread that created it has gone, and never otherwise.\<close>

theorem exit_panics_iff_orphan:
  assumes "child_reach s" "thr s me = Some p"
  shows "exit_process me st (thr s) = None \<longleftrightarrow> (\<exists>u. born s me = Some u \<and> thr s u = None)"
  using exit_process_effect [OF child_reach_ok [OF assms(1)] assms(2), of st] by (auto split: option.splits)

text \<open>(C20) A child that the kernel kills for an exception (\<open>kill\<close> calls \<open>thread_exit\<close>, not \<open>exit\<close>) never tells its parent: a parent that waits for it waits for ever,
  whatever the other threads do.\<close>

theorem killed_child_blocks_parent:
  assumes "child_reach s" "runs tid s" "thr s me = Some p" "waiting_for p = Some tid" "child_step\<^sup>*\<^sup>* (s\<lparr>thr := exit_thread tid (thr s)\<rparr>) s'"
  shows "thr s' me \<noteq> None \<and> \<not> awake me s' \<and> process_wait_end me (thr s') = None"
proof -
  let ?s = "s\<lparr>thr := exit_thread tid (thr s)\<rparr>"
  have ok: "children_ok s" by (rule child_reach_ok [OF assms(1)])
  note K = thread_okD [OF children_okD(1) [OF ok assms(3)]]
  obtain c where c: "c \<in> set (child_list p)" "process_id c = tid" using K(6) [OF assms(4)] by auto
  obtain q where q: "thr s tid = Some q" "waiting_for q = None" using assms(2) by (auto simp: runs_def split: option.splits)
  have dead: "dead s tid = None" by (rule thread_okD(2) [OF children_okD(1) [OF ok q(1)]])
  have "executing p = None" using one_activity [OF assms(1), of me] assms(3,4) by auto
  moreover have "me \<noteq> tid" using assms(3,4) q by auto
  moreover have "children_ok ?s" by (rule child_step_keeps [OF child_step.killed [OF assms(2)] ok])
  ultimately have "waits_for_lost me tid ?s" using K(5) [OF c(1)] c(2) dead assms(3,4) unfolding waits_for_lost_def by (simp add: record_ok_def exit_thread_def)
  then have w: "waits_for_lost me tid s'" by (rule waits_for_lost_for_ever [OF assms(5)])
  then obtain p' where p': "children_ok s'" "thr s' me = Some p'" "waiting_for p' = Some tid" "dead s' tid = None" unfolding waits_for_lost_def by blast
  then show ?thesis using wait_end_effect [OF p'(1-3)] by (simp add: awake_def)
qed

text \<open>When no thread can be created, \<open>process_execute\<close> waits for a child that does not exist.\<close>

theorem failed_exec_blocks:
  assumes "child_reach s" "runs me s" "process_execute_begin me True None (thr s) = Some (r, ts)" "child_step\<^sup>*\<^sup>* (s\<lparr>thr := ts\<rparr>) s'"
  shows "\<not> awake me s' \<and> process_execute_end me (thr s') = None"
proof -
  have ok: "children_ok s" by (rule child_reach_ok [OF assms(1)])
  have "children_ok (s\<lparr>thr := ts\<rparr>)" by (rule no_thread_keeps [OF ok assms(2,3)])
  then have "waits_for_start me (s\<lparr>thr := ts\<rparr>)" using assms(2,3)
    by (auto simp: waits_for_start_def process_execute_begin_def runs_def split: option.splits)
  then have "waits_for_start me s'" by (rule waits_for_start_for_ever [OF assms(4)])
  then show ?thesis by (auto simp: waits_for_start_def awake_def process_execute_end_def)
qed

text \<open>So does the parent of a child that a fault ends while its program is loaded.\<close>

theorem faulting_load_blocks:
  assumes "child_reach s" "thr s me = Some p" "starting p" "exit_process me st (thr s) = Some ts" "born s me = Some u"
    "child_step\<^sup>*\<^sup>* (s\<lparr>thr := ts, dead := (dead s)(me \<mapsto> st)\<rparr>) s'"
  shows "\<not> awake u s' \<and> process_execute_end u (thr s') = None"
proof -
  let ?s = "s\<lparr>thr := ts, dead := (dead s)(me \<mapsto> st)\<rparr>"
  have ok: "children_ok s" by (rule child_reach_ok [OF assms(1)])
  have "awake me s" using children_okD(2) [OF ok assms(2,3)] assms(2) by (simp add: awake_def)
  then have ok': "children_ok ?s" by (rule exits_keeps [OF ok _ assms(4)])
  obtain q a where q: "thr s u = Some q" "executing q = Some a" "pa_tid a = Some me" "pa_sema a = 0"
    using children_okD(2) [OF ok assms(2,3)] assms(5) by (auto simp: starts_under_def)
  have n: "u \<noteq> me" using children_okD(4) [OF ok assms(5)] by simp
  have "waiting_for q = None" using one_activity [OF assms(1), of u] q by auto
  moreover have "ts = (thr s)(me := None, u \<mapsto> q\<lparr>child_list := map (tell_status me st) (child_list q)\<rparr>)"
    using exit_process_effect [OF ok assms(2), of st] assms(4,5) q(1) by simp
  ultimately have "waits_for_start u ?s" using ok' q n assms(5) by (simp add: waits_for_start_def)
  then have "waits_for_start u s'" by (rule waits_for_start_for_ever [OF assms(6)])
  then show ?thesis by (auto simp: waits_for_start_def awake_def process_execute_end_def)
qed

section \<open>An example\<close>

text \<open>The first process starts a child, and waits for it.\<close>

definition family :: "thread_child \<Rightarrow> process_arg option \<Rightarrow> nat option \<Rightarrow> bool \<Rightarrow> machine" where
  "family c e w st = \<lparr>thr = (\<lambda>_. None)(1 \<mapsto> \<lparr>parent_thread = None, child_list = [c], starting = False, executing = e, waiting_for = w\<rparr>,
       2 \<mapsto> \<lparr>parent_thread = Some 1, child_list = [], starting = st, executing = None, waiting_for = None\<rparr>),
     born = (\<lambda>_. None)(2 \<mapsto> 1), dead = \<lambda>_. None, next_tid = 3\<rparr>"

lemma family_born: "child_step first_machine (family (init_child_struct 2) (Some \<lparr>pa_tid = Some 2, pa_status = - 2, pa_sema = 0\<rparr>) None True)"
proof -
  let ?m = "family (init_child_struct 2) (Some \<lparr>pa_tid = Some 2, pa_status = - 2, pa_sema = 0\<rparr>) None True"
  have "process_execute_begin 1 True (Some (next_tid first_machine)) (thr first_machine) = Some (None, thr ?m)"
    by (simp add: process_execute_begin_def thread_create_child_def first_machine_def family_def fun_upd_twist)
  moreover have "?m = first_machine\<lparr>thr := thr ?m, born := (born first_machine)(next_tid first_machine \<mapsto> 1), next_tid := next_tid first_machine + 1\<rparr>"
    by (simp add: first_machine_def family_def)
  moreover have "runs 1 first_machine" by (simp add: runs_def first_machine_def)
  ultimately show ?thesis using child_step.execute by metis
qed

lemma family_runs: "child_reach (family (init_child_struct 2) None None False)"
proof -
  let ?a = "\<lambda>n. Some \<lparr>pa_tid = Some 2, pa_status = - 2, pa_sema = n\<rparr>"
  let ?m = "family (init_child_struct 2) (?a 0) None True" and ?n = "family (init_child_struct 2) (?a 1) None False" and ?r = "family (init_child_struct 2) None None False"
  have "start_process 2 True (thr ?m) = Some (thr ?n)" by (simp add: start_process_def family_def fun_upd_twist Let_def)
  then have "child_step ?m (?m\<lparr>thr := thr ?n\<rparr>)" by (intro child_step.start) (auto simp: family_def)
  moreover have "?m\<lparr>thr := thr ?n\<rparr> = ?n" by (simp add: family_def)
  moreover have "process_execute_end 1 (thr ?n) = Some (2, thr ?r)" by (simp add: process_execute_end_def family_def kassert_def fun_upd_twist)
  then have "child_step ?n (?n\<lparr>thr := thr ?r\<rparr>)" by (rule child_step.executed)
  moreover have "?n\<lparr>thr := thr ?r\<rparr> = ?r" by (simp add: family_def)
  ultimately show ?thesis using family_born unfolding child_reach_def by (metis rtranclp.simps)
qed

lemma family_waits: "child_reach (family (init_child_struct 2) None (Some 2) False)"
proof -
  let ?m = "family (init_child_struct 2) None None False" and ?n = "family (init_child_struct 2) None (Some 2) False"
  have "process_wait_begin 1 2 (thr ?m) = Some (None, thr ?n)"
    by (simp add: process_wait_begin_def find_child_with_tid_def family_def init_child_struct_def fun_upd_twist)
  then have "child_step ?m (?m\<lparr>thr := thr ?n\<rparr>)" by (intro child_step.wait) (auto simp: family_def runs_def)
  moreover have "?m\<lparr>thr := thr ?n\<rparr> = ?n" by (simp add: family_def)
  ultimately show ?thesis using family_runs unfolding child_reach_def by (metis rtranclp.simps)
qed

definition after_exit :: machine where
  "after_exit = \<lparr>thr = (\<lambda>_. None)(1 \<mapsto> \<lparr>parent_thread = None, child_list = [\<lparr>process_id = 2, tc_status = 7, tc_semaphore = 1\<rparr>], starting = False, executing = None, waiting_for = Some 2\<rparr>),
     born = (\<lambda>_. None)(2 \<mapsto> 1), dead = (\<lambda>_. None)(2 \<mapsto> 7), next_tid = 3\<rparr>"

lemma family_exit: "child_reach after_exit"
proof -
  let ?m = "family (init_child_struct 2) None (Some 2) False"
  have "exit_process 2 7 (thr ?m) = Some (thr after_exit)"
    by (simp add: exit_process_def exit_status_def exit_thread_def thread_set_child_exit_status_def find_child_with_tid_def kassert_def family_def after_exit_def init_child_struct_def fun_upd_twist)
  then have "child_step ?m (?m\<lparr>thr := thr after_exit, dead := (dead ?m)(2 \<mapsto> 7)\<rparr>)" by (intro child_step.exits) (auto simp: family_def awake_def)
  moreover have "?m\<lparr>thr := thr after_exit, dead := (dead ?m)(2 \<mapsto> 7)\<rparr> = after_exit" by (simp add: family_def after_exit_def)
  ultimately show ?thesis using family_waits unfolding child_reach_def by (metis rtranclp.simps)
qed

definition orphan :: machine where
  "orphan = \<lparr>thr = (\<lambda>_. None)(2 \<mapsto> \<lparr>parent_thread = Some 1, child_list = [], starting = False, executing = None, waiting_for = None\<rparr>),
     born = (\<lambda>_. None)(2 \<mapsto> 1), dead = (\<lambda>_. None)(1 \<mapsto> 0), next_tid = 3\<rparr>"

lemma family_orphan: "child_reach orphan"
proof -
  let ?m = "family (init_child_struct 2) None None False"
  have "exit_process 1 0 (thr ?m) = Some (thr orphan)"
    by (simp add: exit_process_def exit_status_def exit_thread_def family_def orphan_def fun_upd_twist)
  then have "child_step ?m (?m\<lparr>thr := thr orphan, dead := (dead ?m)(1 \<mapsto> 0)\<rparr>)" by (intro child_step.exits) (auto simp: family_def awake_def)
  moreover have "?m\<lparr>thr := thr orphan, dead := (dead ?m)(1 \<mapsto> 0)\<rparr> = orphan" by (simp add: family_def orphan_def)
  ultimately show ?thesis using family_runs unfolding child_reach_def by (metis rtranclp.simps)
qed

theorem wait_returns_exit_status_witness:
  "\<exists>ts. process_wait_end 1 (thr after_exit) = Some (7, ts) \<and> process_wait_begin 1 2 ts = Some (Some (- 1), ts)"
proof -
  obtain p where p: "thr after_exit 1 = Some p" "waiting_for p = Some 2" by (simp add: after_exit_def)
  have "dead after_exit 2 = Some 7" by (simp add: after_exit_def)
  then show ?thesis using wait_returns_exit_status [OF family_exit p] by auto
qed

theorem exit_panics_iff_orphan_witness: "exit_process 2 7 (thr orphan) = None"
proof -
  obtain p where p: "thr orphan 2 = Some p" by (simp add: orphan_def)
  show ?thesis using exit_panics_iff_orphan [OF family_orphan p, of 7] by (simp add: orphan_def)
qed

theorem killed_child_blocks_parent_witness:
  "\<not> awake 1 ((family (init_child_struct 2) None (Some 2) False)\<lparr>thr := exit_thread 2 (thr (family (init_child_struct 2) None (Some 2) False))\<rparr>)"
proof -
  let ?m = "family (init_child_struct 2) None (Some 2) False"
  obtain p where p: "thr ?m 1 = Some p" "waiting_for p = Some 2" by (simp add: family_def)
  have "runs 2 ?m" by (simp add: family_def runs_def)
  then show ?thesis using killed_child_blocks_parent [OF family_waits _ p rtranclp.rtrancl_refl] by blast
qed

end
