(* ===== verification/Loader.thy ===== *)
theory Loader
  imports ArgStack VmTheorems
begin

unbundle bit_operations_syntax

text \<open>
  Loading a program: \<open>load\<close> of \<open>userprog/process.c\<close> up to the stack, which is in \<open>ArgStack\<close>. The program is a file of the file system, read with the calls
  of \<open>Files\<close>; its segments become entries of the supplementary page table of \<open>Vm\<close>. At the end, what a segment that \<open>validate_segment\<close> accepts may map.
\<close>

section \<open>The functions of the source\<close>

record Elf32_Ehdr =
  e_ident :: "byte list"
  e_type :: nat
  e_machine :: nat
  e_version :: nat
  e_entry :: nat
  e_phoff :: nat
  e_phentsize :: nat
  e_phnum :: nat

record Elf32_Phdr =
  p_type :: nat
  p_offset :: nat
  p_vaddr :: nat
  p_filesz :: nat
  p_memsz :: nat
  p_flags :: nat

text \<open>The structures as they lie in the file, least significant byte first.\<close>

definition field :: "nat \<Rightarrow> nat \<Rightarrow> byte list \<Rightarrow> nat" where
  "field a n bs = foldr (\<lambda>b x. unat b + 256 * x) (take n (drop a bs)) 0"

definition ehdr_of :: "byte list \<Rightarrow> Elf32_Ehdr" where
  "ehdr_of bs = \<lparr>e_ident = take 16 bs, e_type = field 16 2 bs, e_machine = field 18 2 bs, e_version = field 20 4 bs, e_entry = field 24 4 bs,
     e_phoff = field 28 4 bs, e_phentsize = field 42 2 bs, e_phnum = field 44 2 bs\<rparr>"

definition phdr_of :: "byte list \<Rightarrow> Elf32_Phdr" where
  "phdr_of bs = \<lparr>p_type = field 0 4 bs, p_offset = field 4 4 bs, p_vaddr = field 8 4 bs, p_filesz = field 16 4 bs, p_memsz = field 20 4 bs, p_flags = field 24 4 bs\<rparr>"

definition EHDR_SIZE :: nat where "EHDR_SIZE = 52"
definition PHDR_SIZE :: nat where "PHDR_SIZE = 32"

definition PT_LOAD :: nat where "PT_LOAD = 1"
definition PT_DYNAMIC :: nat where "PT_DYNAMIC = 2"
definition PT_INTERP :: nat where "PT_INTERP = 3"
definition PT_SHLIB :: nat where "PT_SHLIB = 5"

definition ehdr_ok :: "Elf32_Ehdr \<Rightarrow> bool" where
  "ehdr_ok h \<longleftrightarrow> take 7 (e_ident h) = [0x7F, 0x45, 0x4C, 0x46, 1, 1, 1] \<and> e_type h = 2 \<and> e_machine h = 3 \<and> e_version h = 1
     \<and> e_phentsize h = PHDR_SIZE \<and> \<not> 1024 < e_phnum h"

text \<open>\<open>validate_segment\<close>, with the length of the file.\<close>

definition segment_ok :: "Elf32_Phdr \<Rightarrow> nat \<Rightarrow> bool" where
  "segment_ok ph len =
     (if p_offset ph mod PGSIZE \<noteq> p_vaddr ph mod PGSIZE then False
      else if len < p_offset ph then False
      else if p_memsz ph < p_filesz ph then False
      else if p_memsz ph = 0 then False
      else if \<not> is_user_vaddr (p_vaddr ph) then False
      else if \<not> is_user_vaddr (u32 (p_vaddr ph + p_memsz ph)) then False
      else if u32 (p_vaddr ph + p_memsz ph) < p_vaddr ph then False
      else if p_vaddr ph < PGSIZE then False
      else True)"

definition validate_segment :: "nat \<Rightarrow> int \<Rightarrow> Elf32_Phdr \<Rightarrow> vm \<Rightarrow> (bool \<times> vm) option" where
  "validate_segment me fd ph s =
     (if p_offset ph mod PGSIZE \<noteq> p_vaddr ph mod PGSIZE then Some (False, s)
      else do { (len, u) \<leftarrow> filesize_sys me fd (calls s); Some (segment_ok ph (nat (len mod 2 ^ 32)), s\<lparr>calls := u\<rparr>) })"

text \<open>The offset in the file, the address, and the numbers of bytes to read and to clear.\<close>

definition segment_layout :: "Elf32_Phdr \<Rightarrow> nat \<times> nat \<times> nat \<times> nat" where
  "segment_layout ph =
     (let page_offset = p_vaddr ph mod PGSIZE;
          total = ROUND_UP (u32 (page_offset + p_memsz ph)) PGSIZE;
          read_bytes = (if 0 < p_filesz ph then u32 (page_offset + p_filesz ph) else 0)
      in (ROUND_DOWN (p_offset ph) PGSIZE, ROUND_DOWN (p_vaddr ph) PGSIZE, read_bytes, u32 (total + 2 ^ 32 - read_bytes)))"

text \<open>The loop of \<open>load_segment\<close>, over the pages.\<close>

partial_function (option) segment_loop :: "nat \<Rightarrow> nat \<Rightarrow> nat \<Rightarrow> nat \<Rightarrow> palloc_flag set \<Rightarrow> vm \<Rightarrow> vm option" where
  "segment_loop me read_bytes zero_bytes va flags s =
     (if \<not> (0 < read_bytes \<or> 0 < zero_bytes) then Some s
      else do {
        let page_read_bytes = (if read_bytes < PGSIZE then read_bytes else PGSIZE);
        let page_zero_bytes = PGSIZE - page_read_bytes;
        s \<leftarrow> (if read_bytes = 0 then supp_pagedir_virtual_create me va flags s else Some s);
        segment_loop me (read_bytes - page_read_bytes) (u32 (zero_bytes + 2 ^ 32 - page_zero_bytes)) (u32 (va + PGSIZE)) flags s
      })"

definition segment_flags :: "bool \<Rightarrow> palloc_flag set" where
  "segment_flags writable = insert PAL_ZERO (if writable then {} else {PAL_READONLY})"

text \<open>The result of \<open>mmap_sys\<close> is not used.\<close>

definition load_segment :: "nat \<Rightarrow> nat \<Rightarrow> int \<Rightarrow> int \<Rightarrow> nat \<Rightarrow> nat \<Rightarrow> nat \<Rightarrow> bool \<Rightarrow> vm \<Rightarrow> (bool \<times> vm) option" where
  "load_segment d me fd ofs va read_bytes zero_bytes writable s =
     do {
       kassert (u32 (read_bytes + zero_bytes) mod PGSIZE = 0);
       kassert (pg_ofs va = 0);
       kassert (ofs mod int PGSIZE = 0);
       u \<leftarrow> seek_sys me fd (nat (ofs mod 2 ^ 32)) (calls s);
       (_, s) \<leftarrow> mmap_sys d me fd va ofs (s32 (int read_bytes)) (insert PAL_DONT_SYNC_ON_DISK (segment_flags writable)) (s\<lparr>calls := u\<rparr>);
       s \<leftarrow> segment_loop me read_bytes zero_bytes va (insert PAL_USER (segment_flags writable)) s;
       Some (True, s)
     }"

text \<open>One turn of the loop of \<open>load\<close> over the program headers, and the loop; \<open>False\<close> is \<open>goto done\<close>.\<close>

definition load_phdr :: "nat \<Rightarrow> nat \<Rightarrow> int \<Rightarrow> int \<Rightarrow> vm \<Rightarrow> (bool \<times> vm) option" where
  "load_phdr d me fd file_ofs s =
     do {
       (len, u) \<leftarrow> filesize_sys me fd (calls s);
       if file_ofs < 0 \<or> len < file_ofs then Some (False, s\<lparr>calls := u\<rparr>)
       else do {
         u \<leftarrow> seek_sys me fd (nat file_ofs) u;
         (bs, n, u) \<leftarrow> read_sys d me fd PHDR_SIZE u;
         let s = s\<lparr>calls := u\<rparr>;
         let ph = phdr_of bs;
         if n \<noteq> int PHDR_SIZE then Some (False, s)
         else if p_type ph = PT_DYNAMIC \<or> p_type ph = PT_INTERP \<or> p_type ph = PT_SHLIB then Some (False, s)
         else if p_type ph \<noteq> PT_LOAD then Some (True, s)
         else do {
           (ok, s) \<leftarrow> validate_segment me fd ph s;
           let (ofs, va, read_bytes, zero_bytes) = segment_layout ph;
           if ok then load_segment d me fd (s32 (int ofs)) va read_bytes zero_bytes (bit (p_flags ph) 1) s else Some (False, s)
         }
       }
     }"

fun load_phdrs :: "nat \<Rightarrow> nat \<Rightarrow> int \<Rightarrow> int \<Rightarrow> nat \<Rightarrow> vm \<Rightarrow> (bool \<times> vm) option" where
  "load_phdrs d me fd file_ofs 0 s = Some (True, s)"
| "load_phdrs d me fd file_ofs (Suc n) s =
     do { (ok, s) \<leftarrow> load_phdr d me fd file_ofs s; if ok then load_phdrs d me fd (s32 (file_ofs + int PHDR_SIZE)) n s else Some (False, s) }"

text \<open>\<open>load\<close> up to the stack: \<open>Some\<close> the entry point. When no page directory is made, the descriptor that is closed was never set: \<open>None\<close>.\<close>

definition load_program :: "nat \<Rightarrow> nat \<Rightarrow> byte list \<Rightarrow> vm \<Rightarrow> (nat option \<times> vm) option" where
  "load_program d me name s =
     do {
       (pd, m) \<leftarrow> pagedir_create (mm s);
       kassert (pd \<noteq> 0);
       s \<leftarrow> vmalloc (s\<lparr>mm := m, pdirs := (pdirs s)(me := pd)\<rparr>);
       s \<leftarrow> on_mm (pagedir_activate pd) (s\<lparr>supp_pagedir := (supp_pagedir s)(me := \<lambda>_. None)\<rparr>);
       (fd, u) \<leftarrow> open_sys d me (Some name) True (calls s);
       (entry, s) \<leftarrow>
         (if fd = - 1 then Some (None, s\<lparr>calls := u\<rparr>)
          else do {
            (bs, n, u) \<leftarrow> read_sys d me fd EHDR_SIZE u;
            let h = ehdr_of bs;
            let s = s\<lparr>calls := u\<rparr>;
            if n \<noteq> int EHDR_SIZE \<or> \<not> ehdr_ok h then Some (None, s)
            else do {
              (ok, s) \<leftarrow> load_phdrs d me fd (s32 (int (e_phoff h))) (e_phnum h) s;
              Some (if ok then Some (e_entry h) else None, s)
            }
          });
       if entry = None then do { u \<leftarrow> close_sys d me fd (calls s); Some (None, s\<lparr>calls := u\<rparr>) } else Some (entry, s)
     }"

section \<open>The pages of a segment\<close>

definition page_slot :: "nat \<Rightarrow> vm \<Rightarrow> nat \<Rightarrow> nat option" where
  "page_slot me s p = supp_slot me (pd_no p, pt_no p) s"

definition fresh_entry :: "nat \<Rightarrow> nat \<Rightarrow> palloc_flag set \<Rightarrow> supp_pagedir_entry" where
  "fresh_entry me va fl = \<lparr>se_lock = None, se_flags = fl, se_thread = me, sector_t = BLOCK_SECTOR_T_ERROR, se_fd = - 1, se_s = - 1, se_e = - 1, upage = va\<rparr>"

text \<open>A process with a table, all whose slots name entries; memory for entries does not run out.\<close>

definition loadable :: "nat \<Rightarrow> vm \<Rightarrow> bool" where
  "loadable me s \<longleftrightarrow> mallocs (ufs (calls s)) = [] \<and> pdirs s me \<noteq> 0 \<and> (\<forall>ij e. supp_slot me ij s = Some e \<longrightarrow> supp s e \<noteq> None)
     \<and> (\<forall>e\<ge>next_supp s. supp s e = None)"

definition user_page :: "nat \<Rightarrow> bool" where
  "user_page p \<longleftrightarrow> p mod PGSIZE = 0 \<and> PGSIZE \<le> p \<and> p < PHYS_BASE"

definition with_page :: "nat \<Rightarrow> nat \<Rightarrow> palloc_flag set \<Rightarrow> vm \<Rightarrow> vm" where
  "with_page me va fl s = s\<lparr>supp := (supp s)(next_supp s \<mapsto> fresh_entry me va fl), next_supp := next_supp s + 1,
     supp_pagedir := (supp_pagedir s)(me := (supp_pagedir s me)(pd_no va \<mapsto> (case supp_pagedir s me (pd_no va) of None \<Rightarrow> \<lambda>_. None | Some tab \<Rightarrow> tab)(pt_no va \<mapsto> next_supp s)))\<rparr>"

lemma slot_inj: "user_page p \<Longrightarrow> user_page q \<Longrightarrow> (pd_no p, pt_no p) = (pd_no q, pt_no q) \<longleftrightarrow> p = q"
  unfolding user_page_def pt_pd_no pg_no_def
  by (metis mult_div_mod_eq [of 1024] prod.inject mult_div_mod_eq [of PGSIZE] add.right_neutral)

lemma create_page:
  assumes "loadable me s" "user_page va" "PAL_USER \<in> fl"
  shows "supp_pagedir_virtual_create me va fl s = (if page_slot me s va = None then Some (with_page me va fl s) else None)"
proof -
  have vm: "vmalloc r = Some r" if "calls r = calls s" for r using that assms(1) by (simp add: vmalloc_def xmalloc_def kmalloc_def loadable_def)
  have va: "is_user_vaddr va" "pg_ofs va = 0" "va \<noteq> 0" using assms(2) by (auto simp: user_page_def is_user_vaddr_def pg_ofs_def PGSIZE_eq)
  have rd: "pg_round_down va = va" using va(2) div_mult_mod_eq [of va PGSIZE] by (simp add: pg_round_down_def pg_ofs_def)
  show ?thesis
  proof (cases "supp_pagedir s me (pd_no va)")
    case None
    then show ?thesis using va rd assms(1,3) pd_no_user [OF va(1)] vm
      by (simp add: supp_pagedir_virtual_create_def supp_pagedir_lookup_def supp_slot_def page_slot_def with_page_def fresh_entry_def loadable_def Let_def)
  next
    case (Some tab)
    have "supp s e \<noteq> None" if "tab (pt_no va) = Some e" for e
    proof -
      have "supp_slot me (pd_no va, pt_no va) s = Some e" using that Some by (simp add: supp_slot_def)
      then show ?thesis using assms(1) unfolding loadable_def by blast
    qed
    then show ?thesis using va rd assms(1,3) pd_no_user [OF va(1)] vm Some
      by (simp add: supp_pagedir_virtual_create_def supp_pagedir_lookup_def supp_slot_def page_slot_def with_page_def fresh_entry_def loadable_def Let_def split: option.splits)
  qed
qed

lemma slot_with_page:
  "supp_slot me ij (with_page me va fl s) = (if ij = (pd_no va, pt_no va) then Some (next_supp s) else supp_slot me ij s)"
  by (cases ij) (auto simp: supp_slot_def with_page_def split: option.splits)

lemma with_page_ok: "loadable me s \<Longrightarrow> loadable me (with_page me va fl s)"
  unfolding loadable_def slot_with_page by (auto simp: with_page_def)

text \<open>Many new pages, one after the other.\<close>

fun with_pages :: "nat \<Rightarrow> nat \<Rightarrow> nat \<Rightarrow> palloc_flag set \<Rightarrow> vm \<Rightarrow> vm" where
  "with_pages me va 0 fl s = s"
| "with_pages me va (Suc n) fl s = with_pages me (va + PGSIZE) n fl (with_page me va fl s)"

lemma zero_pages_loop:
  "loadable me s \<Longrightarrow> PAL_USER \<in> fl \<Longrightarrow> va mod PGSIZE = 0 \<Longrightarrow> PGSIZE \<le> va \<Longrightarrow> va + n * PGSIZE \<le> PHYS_BASE \<Longrightarrow>
   segment_loop me 0 (n * PGSIZE) va fl s = (if \<exists>i<n. page_slot me s (va + i * PGSIZE) \<noteq> None then None else Some (with_pages me va n fl s))"
proof (induction n arbitrary: va s)
  case 0
  then show ?case by (simp add: segment_loop.simps)
next
  case (Suc n)
  have up: "user_page (va + i * PGSIZE)" if "i < Suc n" for i
  proof -
    have "i * PGSIZE < Suc n * PGSIZE" using that by (simp add: PGSIZE_eq)
    then show ?thesis using Suc.prems(3-5) by (simp add: user_page_def)
  qed
  have va: "user_page va" using up [of 0] by simp
  have "PHYS_BASE \<le> 2 ^ 32" by (simp add: PHYS_BASE_def)
  then have w: "u32 (va + PGSIZE) = va + PGSIZE" "u32 (Suc n * PGSIZE + 2 ^ 32 - PGSIZE) = n * PGSIZE"
    using Suc.prems(5) by (simp_all add: u32_def PHYS_BASE_def PGSIZE_eq)
  have step: "segment_loop me 0 (Suc n * PGSIZE) va fl s = Option.bind (supp_pagedir_virtual_create me va fl s) (segment_loop me 0 (n * PGSIZE) (va + PGSIZE) fl)"
    using w by (subst segment_loop.simps) (simp add: PGSIZE_eq Let_def)
  show ?case
  proof (cases "page_slot me s va")
    case (Some e)
    then have "\<exists>i<Suc n. page_slot me s (va + i * PGSIZE) \<noteq> None" by (intro exI [of _ 0]) simp
    then show ?thesis using step create_page [OF Suc.prems(1) va Suc.prems(2)] Some by simp
  next
    case None
    let ?s = "with_page me va fl s"
    have IH: "segment_loop me 0 (n * PGSIZE) (va + PGSIZE) fl ?s
        = (if \<exists>i<n. page_slot me ?s (va + PGSIZE + i * PGSIZE) \<noteq> None then None else Some (with_pages me (va + PGSIZE) n fl ?s))"
      by (rule Suc.IH) (use Suc.prems with_page_ok in auto)
    have sl: "page_slot me ?s (va + PGSIZE + i * PGSIZE) = page_slot me s (va + Suc i * PGSIZE)" if "i < n" for i
    proof -
      have "(pd_no (va + Suc i * PGSIZE), pt_no (va + Suc i * PGSIZE)) \<noteq> (pd_no va, pt_no va)"
        using slot_inj [OF up [of "Suc i"] va] that by (simp add: PGSIZE_eq)
      moreover have "va + PGSIZE + i * PGSIZE = va + Suc i * PGSIZE" by simp
      ultimately show ?thesis by (simp only: page_slot_def slot_with_page if_False)
    qed
    have "(\<exists>i<Suc n. page_slot me s (va + i * PGSIZE) \<noteq> None) \<longleftrightarrow> (\<exists>i<n. page_slot me ?s (va + PGSIZE + i * PGSIZE) \<noteq> None)"
    proof -
      have "(\<exists>i<n. page_slot me s (va + Suc i * PGSIZE) \<noteq> None) \<longleftrightarrow> (\<exists>i<n. page_slot me ?s (va + PGSIZE + i * PGSIZE) \<noteq> None)" using sl by metis
      then show ?thesis unfolding Ex_less_Suc2 using None by simp
    qed
    then show ?thesis using step create_page [OF Suc.prems(1) va Suc.prems(2)] None IH by simp
  qed
qed

text \<open>The pages with bytes of the file are only counted.\<close>

lemma file_pages_loop:
  "(rb + zb) mod PGSIZE = 0 \<Longrightarrow> va + rb + zb \<le> PHYS_BASE \<Longrightarrow>
   segment_loop me rb zb va fl s = segment_loop me 0 (rb + zb - (rb + PGSIZE - 1) div PGSIZE * PGSIZE) (va + (rb + PGSIZE - 1) div PGSIZE * PGSIZE) fl s"
proof (induction rb arbitrary: zb va rule: less_induct)
  case (less rb)
  show ?case
  proof (cases "rb = 0")
    case True
    then show ?thesis by (simp add: PGSIZE_eq)
  next
    case False
    let ?r = "min rb PGSIZE" let ?z = "zb - (PGSIZE - ?r)"
    have z: "PGSIZE - ?r \<le> zb"
    proof (cases "rb < PGSIZE")
      case True
      have "PGSIZE \<le> rb + zb" using less.prems(1) False by (metis dvd_imp_le gr0I add_is_0 mod_eq_0_iff_dvd)
      then show ?thesis using True by simp
    qed simp
    have b: "zb < 2 ^ 32" "va + PGSIZE < 2 ^ 32" using less.prems(2) z False by (auto simp: PHYS_BASE_def PGSIZE_eq min_def split: if_splits)
    have "zb + 2 ^ 32 - (PGSIZE - ?r) = ?z + 2 ^ 32" using z by simp
    moreover have "?z < 2 ^ 32" using b(1) by linarith
    ultimately have w: "u32 (va + PGSIZE) = va + PGSIZE" "u32 (zb + 2 ^ 32 - (PGSIZE - ?r)) = ?z" using b(2) by (simp_all only: u32_def mod_add_self2 mod_less)
    have step: "segment_loop me rb zb va fl s = segment_loop me (rb - ?r) ?z (va + PGSIZE) fl s"
      using w False by (subst segment_loop.simps) (auto simp: Let_def min_def split: if_splits)
    have sum: "rb - ?r + ?z + PGSIZE = rb + zb" using z by (simp add: min_def split: if_splits)
    have up: "(rb + PGSIZE - 1) div PGSIZE = Suc ((rb - ?r + PGSIZE - 1) div PGSIZE)"
    proof (cases "rb \<le> 4096")
      case True
      then have "(rb + 4096 - 1) div 4096 = 1" using False by (intro div_nat_eqI) auto
      then show ?thesis using True by (simp add: PGSIZE_eq)
    next
      case F: False
      then have "rb + 4096 - 1 = rb - 4096 + 4096 - 1 + 4096" by simp
      then show ?thesis using F by (simp only: PGSIZE_eq min_def if_False div_add_self2)
    qed
    have "(rb - ?r + ?z) mod PGSIZE = 0" using less.prems(1) sum by (metis mod_add_self2)
    then have "segment_loop me (rb - ?r) ?z (va + PGSIZE) fl s = segment_loop me 0 (rb - ?r + ?z - (rb - ?r + PGSIZE - 1) div PGSIZE * PGSIZE)
        (va + PGSIZE + (rb - ?r + PGSIZE - 1) div PGSIZE * PGSIZE) fl s"
      using False less.prems(2) sum by (intro less.IH) (auto simp: PGSIZE_eq)
    moreover have "rb + zb - Suc q * PGSIZE = rb - ?r + ?z - q * PGSIZE" "va + PGSIZE + q * PGSIZE = va + Suc q * PGSIZE" for q
      unfolding sum [symmetric] by simp_all
    ultimately show ?thesis unfolding up step by simp
  qed
qed

lemma with_pages_spec:
  "\<forall>i<n. user_page (va + i * PGSIZE) \<Longrightarrow>
     (\<forall>i<n. page_slot me (with_pages me va n fl s) (va + i * PGSIZE) = Some (next_supp s + i) \<and> supp (with_pages me va n fl s) (next_supp s + i) = Some (fresh_entry me (va + i * PGSIZE) fl))
   \<and> (\<forall>p. user_page p \<longrightarrow> (\<forall>i<n. p \<noteq> va + i * PGSIZE) \<longrightarrow> page_slot me (with_pages me va n fl s) p = page_slot me s p)
   \<and> (\<forall>e<next_supp s. supp (with_pages me va n fl s) e = supp s e)"
proof (induction n arbitrary: va s)
  case (Suc n)
  let ?s = "with_page me va fl s" let ?r = "with_pages me (va + PGSIZE) n fl ?s"
  have sh: "va + PGSIZE + i * PGSIZE = va + Suc i * PGSIZE" for i by simp
  have up: "\<forall>i<n. user_page (va + PGSIZE + i * PGSIZE)" using Suc.prems unfolding sh by blast
  have va: "user_page va" using Suc.prems by (metis add.right_neutral mult_zero_left zero_less_Suc)
  have nx: "next_supp ?s = next_supp s + 1" by (simp add: with_page_def)
  note IH = Suc.IH [OF up, of ?s, unfolded sh nx]
  have first: "page_slot me ?s p = (if p = va then Some (next_supp s) else page_slot me s p)" if "user_page p" for p
    using slot_inj [OF that va] by (simp only: page_slot_def slot_with_page)
  have other: "va \<noteq> va + Suc i * PGSIZE" for i by (simp add: PGSIZE_eq)
  have a: "page_slot me ?r (va + i * PGSIZE) = Some (next_supp s + i) \<and> supp ?r (next_supp s + i) = Some (fresh_entry me (va + i * PGSIZE) fl)" if i: "i < Suc n" for i
  proof (cases i)
    case 0
    have "page_slot me ?r va = page_slot me ?s va" using IH va other by blast
    moreover have "supp ?r (next_supp s) = supp ?s (next_supp s)" using IH by simp
    ultimately show ?thesis using 0 first [OF va] by (simp add: with_page_def)
  next
    case (Suc j)
    then have "j < n" using i by simp
    then have "page_slot me ?r (va + Suc j * PGSIZE) = Some (next_supp s + 1 + j) \<and> supp ?r (next_supp s + 1 + j) = Some (fresh_entry me (va + Suc j * PGSIZE) fl)" using IH by blast
    then show ?thesis using Suc by simp
  qed
  have b: "page_slot me ?r p = page_slot me s p" if p: "user_page p" "\<forall>i<Suc n. p \<noteq> va + i * PGSIZE" for p
  proof -
    have "p \<noteq> va" using p(2) by (metis add.right_neutral mult_zero_left zero_less_Suc)
    moreover have "\<forall>i<n. p \<noteq> va + Suc i * PGSIZE" using p(2) by blast
    then have "page_slot me ?r p = page_slot me ?s p" using IH p(1) by blast
    ultimately show ?thesis using first [OF p(1)] by simp
  qed
  have c: "supp ?r e = supp s e" if "e < next_supp s" for e
  proof -
    have "supp ?r e = supp ?s e" using IH that by simp
    then show ?thesis using that by (simp add: with_page_def)
  qed
  show ?case using a b c unfolding with_pages.simps by blast
qed simp

lemma field_less: "field a n bs < 256 ^ n"
proof -
  have "foldr (\<lambda>b x. unat b + 256 * x) (xs :: byte list) 0 < 256 ^ length xs" for xs
  proof (induction xs)
    case (Cons b xs)
    have "unat b < 256" using unsigned_less [of b] by simp
    then show ?case using Cons by simp
  qed simp
  moreover have "(256 :: nat) ^ length (take n (drop a bs)) \<le> 256 ^ n" by (intro power_increasing) auto
  ultimately show ?thesis unfolding field_def by (rule less_le_trans)
qed

lemma segment_bounds:
  assumes ok: "segment_ok ph len" and lay: "segment_layout ph = (ofs, va, rb, zb)" and w: "p_vaddr ph < 2 ^ 32" "p_memsz ph < 2 ^ 32"
  shows "va mod PGSIZE = 0" "ofs mod PGSIZE = 0" "(rb + zb) mod PGSIZE = 0" "PGSIZE \<le> va" "va \<le> p_vaddr ph" "p_vaddr ph + p_memsz ph \<le> va + rb + zb" "va + rb + zb \<le> PHYS_BASE"
proof -
  let ?o = "p_vaddr ph mod 4096" let ?t = "(?o + p_memsz ph + 4095) div 4096 * 4096"
  have c: "p_filesz ph \<le> p_memsz ph" "4096 \<le> p_vaddr ph" "u32 (p_vaddr ph + p_memsz ph) < PHYS_BASE" "p_vaddr ph \<le> u32 (p_vaddr ph + p_memsz ph)"
    using ok by (auto simp: segment_ok_def is_user_vaddr_def PGSIZE_eq split: if_splits)
  have sum: "p_vaddr ph + p_memsz ph < PHYS_BASE"
  proof (cases "p_vaddr ph + p_memsz ph < 2 ^ 32")
    case True
    then show ?thesis using c(3) by (simp add: u32_def)
  next
    case False
    then have "u32 (p_vaddr ph + p_memsz ph) = p_vaddr ph + p_memsz ph - 2 ^ 32" using w by (simp add: u32_def mod_if)
    then show ?thesis using c(4) w False by simp
  qed
  have dm: "p_vaddr ph = p_vaddr ph div 4096 * 4096 + ?o" by simp
  have t: "?t mod 4096 = 0" "?o + p_memsz ph \<le> ?t" "p_vaddr ph div 4096 * 4096 + ?t \<le> PHYS_BASE"
  proof -
    define x k q where "x = ?o + p_memsz ph" and "k = p_vaddr ph div 4096" and "q = (x + 4095) div 4096"
    have q: "q * 4096 \<le> x + 4095" "x + 4095 < q * 4096 + 4096" using div_mult_mod_eq [of "x + 4095" 4096] mod_less_divisor [of 4096 "x + 4095"] unfolding q_def by linarith+
    have k: "k * 4096 + x < 786432 * 4096" using sum dm unfolding x_def k_def PHYS_BASE_def by linarith
    show "?t mod 4096 = 0" by simp
    have "x \<le> q * 4096" using q(2) by linarith
    then show "?o + p_memsz ph \<le> ?t" unfolding q_def x_def .
    have "k * 4096 + q * 4096 \<le> k * 4096 + x + 4095" using q(1) by simp
    also have "\<dots> < 786433 * 4096" using k by simp
    finally have "(k + q) * 4096 < 786433 * 4096" by (simp only: add_mult_distrib)
    then have "k + q < 786433" by simp
    then have "k * 4096 + q * 4096 \<le> 786432 * 4096" by simp
    then show "p_vaddr ph div 4096 * 4096 + ?t \<le> PHYS_BASE" unfolding k_def q_def x_def PHYS_BASE_def by simp
  qed
  have b: "?t < 2 ^ 32" "?o + p_memsz ph + 4095 < 2 ^ 32" using t(3) sum c(2) dm by (simp_all add: PHYS_BASE_def)
  have total: "ROUND_UP (u32 (?o + p_memsz ph)) 4096 = ?t" using b by (simp add: ROUND_UP_def u32_def)
  let ?r = "if 0 < p_filesz ph then u32 (?o + p_filesz ph) else 0"
  have r: "?r \<le> ?t" using c(1) t(2) b(2) by (simp add: u32_def)
  then have z: "u32 (?t + 2 ^ 32 - ?r) = ?t - ?r"
  proof -
    have "?t + 2 ^ 32 - ?r = ?t - ?r + 2 ^ 32" using r by simp
    moreover have "?t - ?r < 2 ^ 32" using b(1) by linarith
    ultimately show ?thesis by (simp only: u32_def mod_add_self2 mod_less)
  qed
  have l: "ofs = p_offset ph div 4096 * 4096" "va = p_vaddr ph div 4096 * 4096" "rb = ?r" "zb = ?t - ?r"
  proof -
    have "segment_layout ph = (p_offset ph div 4096 * 4096, p_vaddr ph div 4096 * 4096, ?r, ?t - ?r)"
      by (simp only: segment_layout_def Let_def PGSIZE_eq total z ROUND_DOWN_def)
    then show "ofs = p_offset ph div 4096 * 4096" "va = p_vaddr ph div 4096 * 4096" "rb = ?r" "zb = ?t - ?r" using lay by (simp_all only: prod.inject)
  qed
  have rz: "rb + zb = ?t" using l(3,4) r by simp
  show "va mod PGSIZE = 0" "ofs mod PGSIZE = 0" using l by (simp_all add: PGSIZE_eq)
  show "(rb + zb) mod PGSIZE = 0" unfolding rz using t(1) by (simp add: PGSIZE_eq)
  show "PGSIZE \<le> va" "va \<le> p_vaddr ph" using l(2) c(2) by (simp_all add: PGSIZE_eq)
  show "p_vaddr ph + p_memsz ph \<le> va + rb + zb" "va + rb + zb \<le> PHYS_BASE" using rz t(2,3) dm l(2) by linarith+
qed

text \<open>The pages of a segment behind those with bytes of the file.\<close>

definition cleared :: "nat \<Rightarrow> nat \<Rightarrow> nat \<Rightarrow> nat set" where
  "cleared va rb zb = {p. p mod PGSIZE = 0 \<and> va + rb \<le> p \<and> p < va + rb + zb}"

lemma segment_loop_pages:
  assumes "loadable me s" "PAL_USER \<in> fl" "va mod PGSIZE = 0" "(rb + zb) mod PGSIZE = 0" "PGSIZE \<le> va" "va + rb + zb \<le> PHYS_BASE"
  shows "(case segment_loop me rb zb va fl s of None \<Rightarrow> \<exists>p\<in>cleared va rb zb. page_slot me s p \<noteq> None
    | Some s' \<Rightarrow> (\<forall>p\<in>cleared va rb zb. page_slot me s p = None \<and> (\<exists>e. supp s e = None \<and> page_slot me s' p = Some e \<and> supp s' e = Some (fresh_entry me p fl)))
        \<and> (\<forall>p. user_page p \<longrightarrow> p \<notin> cleared va rb zb \<longrightarrow> page_slot me s' p = page_slot me s p) \<and> (\<forall>e. supp s e \<noteq> None \<longrightarrow> supp s' e = supp s e))"
proof -
  define k where "k = (rb + PGSIZE - 1) div PGSIZE"
  define n where "n = (rb + zb) div PGSIZE - k"
  have P: "0 < PGSIZE" by (simp add: PGSIZE_eq)
  have rz: "rb + zb = (rb + zb) div PGSIZE * PGSIZE" using assms(4) by (metis add.right_neutral div_mult_mod_eq)
  have k: "rb \<le> k * PGSIZE" "k * PGSIZE < rb + PGSIZE"
    using div_mult_mod_eq [of "rb + PGSIZE - 1" PGSIZE] mod_less_divisor [OF P, of "rb + PGSIZE - 1"] P unfolding k_def by linarith+
  have "k * PGSIZE < (rb + zb) div PGSIZE * PGSIZE + PGSIZE" using k(2) rz by linarith
  then have "k * PGSIZE < ((rb + zb) div PGSIZE + 1) * PGSIZE" by simp
  then have kn: "k \<le> (rb + zb) div PGSIZE" by (simp only: mult_less_cancel2) linarith
  then have sum: "k * PGSIZE + n * PGSIZE = rb + zb" unfolding n_def using rz by (metis add_mult_distrib le_add_diff_inverse)
  have run: "segment_loop me rb zb va fl s = segment_loop me 0 (n * PGSIZE) (va + k * PGSIZE) fl s"
    using file_pages_loop [OF assms(4,6), of me fl s] sum unfolding k_def [symmetric] by (metis add_diff_cancel_left')
  let ?v = "va + k * PGSIZE"
  have v: "?v mod PGSIZE = 0" "PGSIZE \<le> ?v" "?v + n * PGSIZE \<le> PHYS_BASE" using assms(3,5,6) sum by simp_all
  note Z = zero_pages_loop [OF assms(1,2) v]
  have mem: "p \<in> cleared va rb zb \<longleftrightarrow> (\<exists>i<n. p = ?v + i * PGSIZE)" for p
  proof
    assume p: "p \<in> cleared va rb zb"
    obtain q where q: "p = q * PGSIZE" using p unfolding cleared_def by (metis (mono_tags, lifting) mem_Collect_eq mod_0_imp_dvd dvd_def mult.commute)
    obtain a where a: "va = a * PGSIZE" using assms(3) by (metis mod_0_imp_dvd dvd_def mult.commute)
    have "va + rb \<le> p" "p < ?v + n * PGSIZE" using p sum unfolding cleared_def by simp_all
    then have "(a + k) * PGSIZE < (q + 1) * PGSIZE" "q * PGSIZE < (a + k + n) * PGSIZE" using k(2) q a by (simp_all add: add_mult_distrib)
    then have "a + k \<le> q" "q < a + k + n" using P by (simp_all only: mult_less_cancel2) linarith+
    then obtain i where "q = a + k + i" "i < n" using le_Suc_ex by (metis add_less_cancel_left)
    then have "p = ?v + i * PGSIZE" "i < n" using q a by (simp_all add: add_mult_distrib)
    then show "\<exists>i<n. p = ?v + i * PGSIZE" by blast
  next
    assume "\<exists>i<n. p = ?v + i * PGSIZE"
    then obtain i where i: "i < n" "p = ?v + i * PGSIZE" by blast
    have "i * PGSIZE < n * PGSIZE" using i(1) P by simp
    then have "va + rb \<le> p" "p < va + rb + zb" "p mod PGSIZE = 0" unfolding i(2) using v(1) k(1) sum by (linarith, linarith, simp)
    then show "p \<in> cleared va rb zb" unfolding cleared_def by simp
  qed
  have up: "\<forall>i<n. user_page (?v + i * PGSIZE)"
  proof (intro allI impI)
    fix i assume "i < n"
    then have "i * PGSIZE < n * PGSIZE" using P by simp
    then have "?v + i * PGSIZE < PHYS_BASE" "PGSIZE \<le> ?v + i * PGSIZE" using v(2,3) by linarith+
    then show "user_page (?v + i * PGSIZE)" unfolding user_page_def using v(1) by simp
  qed
  show ?thesis
  proof (cases "\<exists>i<n. page_slot me s (?v + i * PGSIZE) \<noteq> None")
    case True
    then show ?thesis using run Z mem by auto
  next
    case False
    note W = with_pages_spec [OF up, of me fl s]
    have new: "\<forall>e\<ge>next_supp s. supp s e = None" using assms(1) by (simp add: loadable_def)
    have "page_slot me s p = None \<and> (\<exists>e. supp s e = None \<and> page_slot me (with_pages me ?v n fl s) p = Some e \<and> supp (with_pages me ?v n fl s) e = Some (fresh_entry me p fl))"
      if p: "p \<in> cleared va rb zb" for p
    proof -
      obtain i where i: "i < n" "p = ?v + i * PGSIZE" using p mem by blast
      then show ?thesis using False W new by (intro conjI exI [of _ "next_supp s + i"]) auto
    qed
    moreover have "supp (with_pages me ?v n fl s) e = supp s e" if "supp s e \<noteq> None" for e using W new that by (metis leI)
    moreover have "page_slot me (with_pages me ?v n fl s) p = page_slot me s p" if "user_page p" "p \<notin> cleared va rb zb" for p using W mem that by blast
    ultimately show ?thesis using run Z False by simp
  qed
qed

text \<open>(C30) What a segment may map. Take any program header that \<open>validate_segment\<close> accepts, whatever bytes the file has. The assertions of \<open>load_segment\<close> hold, the pages of the
  segment cover its bytes, and all lie between the first page and the kernel. The loop then either meets a page of the part to be cleared that is in use, and panics, or it
  makes a zero page for each of these, and changes no other page.\<close>

theorem segment_maps_user_pages:
  assumes "segment_ok (phdr_of bs) len" "segment_layout (phdr_of bs) = (ofs, va, rb, zb)" "loadable me s"
  shows "(rb + zb) mod PGSIZE = 0 \<and> pg_ofs va = 0 \<and> ofs mod PGSIZE = 0
    \<and> PGSIZE \<le> va \<and> va \<le> p_vaddr (phdr_of bs) \<and> p_vaddr (phdr_of bs) + p_memsz (phdr_of bs) \<le> va + rb + zb \<and> va + rb + zb \<le> PHYS_BASE
    \<and> (case segment_loop me rb zb va (insert PAL_USER (segment_flags writable)) s of None \<Rightarrow> \<exists>p\<in>cleared va rb zb. page_slot me s p \<noteq> None
      | Some s' \<Rightarrow> (\<forall>p\<in>cleared va rb zb. page_slot me s p = None \<and> (\<exists>e. supp s e = None \<and> page_slot me s' p = Some e \<and> supp s' e = Some (fresh_entry me p (insert PAL_USER (segment_flags writable)))))
          \<and> (\<forall>p. user_page p \<longrightarrow> p \<notin> cleared va rb zb \<longrightarrow> page_slot me s' p = page_slot me s p) \<and> (\<forall>e. supp s e \<noteq> None \<longrightarrow> supp s' e = supp s e))"
proof -
  have w: "p_vaddr (phdr_of bs) < 2 ^ 32" "p_memsz (phdr_of bs) < 2 ^ 32" using field_less [of 8 4 bs] field_less [of 20 4 bs] by (simp_all add: phdr_of_def)
  note B = segment_bounds [OF assms(1,2) w]
  have fl: "PAL_USER \<in> insert PAL_USER (segment_flags writable)" by simp
  show ?thesis using B segment_loop_pages [OF assms(3) fl B(1,3,4,7)] unfolding pg_ofs_def by blast
qed

theorem segment_maps_user_pages_witness:
  "\<exists>s s' e. page_slot 0 s 0x8049000 = None \<and> segment_loop 0 256 7936 0x8048000 {PAL_USER, PAL_ZERO} s = Some s'
    \<and> page_slot 0 s' 0x8049000 = Some e \<and> supp s' e = Some (fresh_entry 0 0x8049000 {PAL_USER, PAL_ZERO})"
proof -
  obtain s pd where s: "vm_ok {pd} s" "pdirs s = (\<lambda>_. pd)" "supp s = (\<lambda>_. None)" "supp_pagedir s = (\<lambda>_ _. None)" "mallocs (ufs (calls s)) = []"
    using vm_example_fresh by metis
  have "pd \<noteq> 0" using dir_facts(2) [OF kvmD(3) [OF vm_okD(1) [OF s(1)]] vm_invD(4) [OF kvmD(1) [OF vm_okD(1) [OF s(1)]]]] by blast
  then have l: "loadable 0 s" using s by (simp add: loadable_def supp_slot_def)
  define bs :: "byte list" where "bs = [1, 0, 0, 0, 0, 0, 0, 0, 0, 0x80, 4, 8, 0, 0, 0, 0, 0, 1, 0, 0, 0, 0x20, 0, 0, 6, 0, 0, 0, 0, 0, 0, 0]"
  have ph: "phdr_of bs = \<lparr>p_type = 1, p_offset = 0, p_vaddr = 0x8048000, p_filesz = 256, p_memsz = 8192, p_flags = 6\<rparr>"
    by (simp add: phdr_of_def field_def bs_def)
  have ok: "segment_ok (phdr_of bs) 256" by (simp add: ph segment_ok_def PGSIZE_eq is_user_vaddr_def PHYS_BASE_def u32_def)
  have lay: "segment_layout (phdr_of bs) = (0, 0x8048000, 256, 7936)" by (simp add: ph segment_layout_def PGSIZE_eq u32_def ROUND_UP_def ROUND_DOWN_def Let_def)
  have fl: "insert PAL_USER (segment_flags True) = {PAL_USER, PAL_ZERO}" by (simp add: segment_flags_def)
  have none: "page_slot 0 s p = None" for p using s(4) by (simp add: page_slot_def supp_slot_def)
  have z: "0x8049000 \<in> cleared 0x8048000 256 7936" by (simp add: cleared_def PGSIZE_eq)
  note T = segment_maps_user_pages [where writable = True, OF ok lay l, unfolded fl]
  obtain s' where s': "segment_loop 0 256 7936 0x8048000 {PAL_USER, PAL_ZERO} s = Some s'"
    using T none by (cases "segment_loop 0 256 7936 0x8048000 {PAL_USER, PAL_ZERO} s") simp_all
  have "\<forall>p\<in>cleared 0x8048000 256 7936. \<exists>e. page_slot 0 s' p = Some e \<and> supp s' e = Some (fresh_entry 0 p {PAL_USER, PAL_ZERO})" using T unfolding s' option.case by blast
  then show ?thesis using s' none z by blast
qed

end
