(* ===== verification/Spec2Isabelle.thy ===== *)
theory Spec2Isabelle
  imports Prelude Bitmap Klist Hash Palloc Pagedir Malloc Kstring RwLock Arith64 FixedPoint Stdlib Stdio Ustar Scheduler Sched_Machine CachedBlock
    Inode FileSystem InodeIndex InodeSpec InodeGrow FreeMap FsBoot Volume Directory FsTheorems Files PathWalk Swap KernelHalf SwapSpec Vm MappedFile VmSpec VmTheorems ArgStack Children Loader
begin

text \<open>
  A verification library for the Pintos kernel of this repository.

  The repository holds four copies of Pintos, one per project, each extending the one before. The file system
  and the libraries are modelled from \<open>src/Project 4: File System/src/\<close>, the last and most complete copy; the
  scheduler is modelled from \<open>src/Project 1: Threads/src/\<close>, the copy with priority donation and the
  feedback-queue scheduler. Paths below are relative to these directories.

  \<^bold>\<open>Conventions.\<close> An operation returns \<open>'a option\<close>; \<open>None\<close> is a run that does not come back: a failed \<open>ASSERT\<close>, a
  \<open>PANIC\<close>, an access outside an array, or a wait nobody ends. Failures the C code reports to its caller are values
  of the result type. Unsigned 32-bit quantities are natural numbers with \<open>u32\<close> where C wraps around, signed ones are
  integers with \<open>s32\<close>; values whose bits matter are machine words. A loop whose end is not evident from its
  counter is a \<open>partial_function (option)\<close>, so that it returns is part of each theorem about it.

  \<^bold>\<open>Libraries.\<close>
  \<^item> \<open>Prelude\<close>: results, assertions, 32-bit arithmetic, \<open>lib/round.h\<close>, loops whose body may fail.
  \<^item> \<open>Bitmap\<close>: \<open>lib/kernel/bitmap.c\<close>, bits packed in 32-bit words. The operations are shown to act on the list of
    bits; \<open>bitmap_scan\<close> is first fit and \<open>bitmap_scan_and_flip\<close> complements exactly the run it finds.
  \<^item> \<open>Klist\<close>: \<open>lib/kernel/list.c\<close> over an explicit store of \<open>prev\<close> and \<open>next\<close> links. \<open>is_list\<close> relates the store to the
    sequence of elements; each operation is proved against that sequence, the natural merge sort of \<open>list_sort\<close> included.
  \<^item> \<open>Kstring\<close>: \<open>lib/string.c\<close> over a byte-addressed memory, every function.
  \<^item> \<open>Stdlib\<close>: \<open>lib/stdlib.c\<close>. The heap sort behind \<open>qsort\<close> moves bytes; \<open>elems\<close> reads an array as a list of elements,
    \<open>heap\<close> and \<open>sifting\<close> are the invariants of its two loops. \<open>bsearch\<close> and \<open>atoi\<close> follow.
  \<^item> \<open>Stdio\<close>: \<open>lib/stdio.c\<close>. The parser of conversions, \<open>format_integer\<close> with its 64-byte buffer, \<open>__vprintf\<close> as the list
    of characters it outputs, \<open>vsnprintf\<close>, \<open>hex_dump\<close>.
  \<^item> \<open>Arith64\<close>: \<open>lib/arithmetic.c\<close>, 64-bit division from the 32-bit \<open>DIVL\<close> instruction, with the traps of the instruction.
  \<^item> \<open>FixedPoint\<close>: \<open>threads/fixedpoint.c\<close>, 17.14 fixed-point numbers.
  \<^item> \<open>Hash\<close>: \<open>lib/kernel/hash.c\<close> over the store of \<open>Klist\<close>: a table stands for a map, also while it is resized.
  \<^item> \<open>Ustar\<close>: \<open>lib/ustar.c\<close>, headers of archives, made and parsed.

  \<^bold>\<open>Threads.\<close>
  \<^item> \<open>Scheduler\<close>: \<open>threads/thread.c\<close>, \<open>threads/synch.c\<close> (semaphores and locks) and the sleep queue of \<open>devices/timer.c\<close>.
    The record \<open>kernel\<close> is the static data of these files; one function per operation, split where a thread blocks:
    \<open>lock_acquire_begin\<close> and \<open>lock_acquire_resume\<close> are the code before and after the wait.
  \<^item> \<open>Sched_Machine\<close>: these operations as an inductive step relation between the states of one processor. An operation with
    interrupts on in between is several steps; creating a thread takes and releases \<open>tid_lock\<close> on the way. By rule
    induction the ready queues hold exactly the ready threads, and a lock has one holder. \<open>propagate_priorities\<close> ends
    on acyclic wait graphs; a reachable state shows that a donation can be lost.
  \<^item> \<open>RwLock\<close>: \<open>threads/gio_synch.c\<close> and the machine of any number of threads around one lock, try-locks included: mutual exclusion, no
    lost wake-up, and a schedule that fails an assertion.
  \<^item> \<open>Children\<close>: parents and children, \<open>process_execute\<close>, \<open>start_process\<close> and \<open>process_wait\<close> of \<open>userprog/process.c\<close>, \<open>exit\<close> of
    \<open>userprog/syscall.c\<close> and the lists of children in \<open>threads/thread.c\<close>, as a machine of any number of threads. \<open>children_ok\<close>
    ties each record to what became of its child; it gives what a parent learns and when it waits for ever.

  \<^bold>\<open>Memory.\<close>
  \<^item> \<open>Palloc\<close>: \<open>threads/palloc.c\<close>, the pools of pages of the kernel and of the processes over a byte-addressed memory.
  \<^item> \<open>Pagedir\<close>: \<open>userprog/pagedir.c\<close>, \<open>threads/pte.h\<close> and \<open>paging_init\<close>, over words of that memory, with the control
    register and the translation buffer of the processor. \<open>vm_step\<close> is the machine of all its operations.
  \<^item> \<open>Malloc\<close>: \<open>threads/malloc.c\<close> over \<open>Palloc\<close> and \<open>Klist\<close>: blocks in use never overlap and keep their bytes.
  \<^item> \<open>KernelHalf\<close>: the part of the page tables all directories share, through which the kernel reaches the memory. \<open>mm_step\<close>
    says how an operation changes the entries and the memory of the processes.
  \<^item> \<open>Swap\<close>, \<open>SwapSpec\<close>: \<open>vm/swap.c\<close>; a page that is written to the device and read back has the same bytes.
  \<^item> \<open>Vm\<close>: \<open>vm/frame.c\<close>, \<open>vm/paging.c\<close>, \<open>userprog/mmap.c\<close>, the page fault handler of \<open>userprog/exception.c\<close> and \<open>check_pointer\<close>
    of \<open>userprog/syscall.c\<close>. The record \<open>vm\<close> holds the memory, the swap device, the frames and the supplementary tables
    of all threads. Evicting can write to a file, which can page in, which can evict: the argument \<open>k\<close> bounds this
    nesting. Only a written page of a file the process mapped itself is written back, so for all other pages one level is
    enough, and the theorems hold for any \<open>Suc k\<close>.
  \<^item> \<open>MappedFile\<close>: the file behind a page. \<open>origin_of\<close> is the page as its file has it, or zeros; reading it through the
    descriptor of the entry gives these bytes and changes no file, also while writing to the file is denied.
  \<^item> \<open>VmSpec\<close>: \<open>vm_ok\<close>, the invariant of paging, for pages of program segments with the file behind them as for those of
    stacks, and \<open>content\<close>, the bytes of a page wherever it is kept. The clock ends (each turn clears an accessed bit or comes nearer to a frame it may take), eviction and
    paging in keep \<open>content\<close>.
  \<^item> \<open>Loader\<close>: \<open>load\<close>, \<open>validate_segment\<close> and \<open>load_segment\<close> of \<open>userprog/process.c\<close>, from the bytes of an ELF file to entries of
    the supplementary table. \<open>segment_bounds\<close> is the arithmetic of the checks.
  \<^item> \<open>ArgStack\<close>: the arguments of a program, as \<open>setup_stack\<close> of \<open>userprog/process.c\<close> lays them out.
  \<^item> \<open>VmTheorems\<close>: the properties of page faults, eviction and stores, on an example from boot to eviction.

  \<^bold>\<open>The file system.\<close>
  \<^item> \<open>CachedBlock\<close>: \<open>filesys/cached_block.c\<close> and the sectors of \<open>devices/block.c\<close>. \<open>store_inv\<close> is the invariant of the
    cache, \<open>contents\<close> what a reader sees. The locale \<open>sector_store\<close> is the interface to the layers above, interpreted on
    the cache. The dirty count of an entry has 16 bits: \<open>store_inv\<close> carries a budget of writes below 65535, and
    \<open>dirty_counter_wraps\<close> shows what happens without one.
  \<^item> \<open>Inode\<close>: \<open>filesys/inode.c\<close> with \<open>filesys/free-map.c\<close>. Growing a file allocates sectors, allocating writes the free map
    to its file, which is an inode. The recursion is cut by passing the nested write as an argument (\<open>inode_write_at_with\<close>)
    and tied with a depth; \<open>free_map_allocate_returns\<close> shows that depth 1 is enough.
  \<^item> \<open>InodeIndex\<close>, \<open>InodeSpec\<close>, \<open>InodeGrow\<close>: the three-level index as a tree of sectors without sharing, \<open>file_ok\<close> for
    the inode of one file, and reading and writing as \<open>take\<close>, \<open>drop\<close> and \<open>splice\<close> on its bytes. The locale
    \<open>sector_allocator\<close> is what growing needs of the free map.
  \<^item> \<open>FreeMap\<close>: the free map with its file on the device is such an allocator.
  \<^item> \<open>FileSystem\<close>: \<open>filesys/file.c\<close>, \<open>filesys/directory.c\<close>, \<open>filesys/filesys.c\<close>, the rest of \<open>filesys/free-map.c\<close>.
  \<^item> \<open>FsBoot\<close>: \<open>filesys_init\<close> on a blank device. A device has between 64 and \<open>SECTOR_NUM\<close> sectors, a multiple of 32.
  \<^item> \<open>Volume\<close>: all files as a map from inode sectors to bytes; what reading, writing, creating and shutting down do to it.
  \<^item> \<open>Directory\<close>: directories as maps from names to sectors; \<open>dir_lookup\<close>, \<open>dir_add\<close>, \<open>filesys_create\<close>, \<open>filesys_open\<close>.
  \<^item> \<open>FsTheorems\<close>: the properties of the file system on these notions, with a formatted and booted device as the
    concrete example all of their witnesses use, and the faults of the code.
  \<^item> \<open>Files\<close>, \<open>PathWalk\<close>: \<open>userprog/files.c\<close>, the calls on files and directories of all processes. \<open>resolve\<close> walks the tokens
    of a path over the directories on the disk; \<open>open_sys\<close> opens what it gives.

  \<^bold>\<open>Bounds.\<close> \<open>MAX_BLOCKS = 32768\<close> is the number of blocks an index of three levels of 32 slots can hold. The loops of the
  cache's clock get two rounds of its slots, which \<open>evict_finds_a_victim\<close> shows to be enough. The zero padding of
  \<open>format_integer\<close> stops at 63 characters, so 64 turns are enough.

  \<^bold>\<open>Not modelled.\<close> Assembly (\<open>threads/start.S\<close>, \<open>switch.S\<close>, \<open>loader.S\<close>, \<open>intr-stubs.S\<close>) and the parts of \<open>thread.c\<close> that
  build stack frames for it; device drivers, which are input and output on ports; statistics printed at shutdown; the
  copies of the same files in the other projects; the shell of \<open>src/Project1\<close> and the web server of \<open>src/Project6\<close>, which
  are made of calls of the operating system they run on; test programs. In the file system memory allocation is a list
  of outcomes (\<open>mallocs\<close>) rather than the model in \<open>Malloc\<close>. The theorems on paging are about states in which no page of a file that a process mapped
  itself has been written to -- evicting such a page panics --, the swap device has a free slot for a page to be evicted -- else
  its bytes are lost --, and no entry is locked: the wait for its lock is not modelled. Of system calls, those on files,
  memory and processes are modelled; the decoding of a call is not. \<open>load_program\<close> is \<open>load\<close> without the stack,
  which \<open>ArgStack\<close> lays out in the address space of the process. \<open>Children\<close> takes the
  allocation of a record to succeed, and thread numbers not to wrap around.
\<close>

end
